(* ===== verification/Base.thy ===== *)
theory Base imports Main "HOL-Library.Monad_Syntax" begin

text \<open>
  Prelude of the development: the names of the machine types and constants of
  \<open>project2/src/include/common/config.h\<close>, the model of a failing C++ assertion, the raw
  memory operations the pages use (\<open>memmove\<close> and the element-by-element copy loops), and the
  facts on lists shared by the components.

  Conventions.  A C++ \<open>int\<close> or \<open>int32_t\<close> whose wrap-around no property depends on is an
  \<open>int\<close>; where the width matters the value is passed through \<open>wrap_s\<close>.  A computation
  the program may abort (a failing \<open>assert\<close>, a null pointer that is dereferenced) returns an
  \<open>option\<close>, with \<open>None\<close> for the abort.
\<close>

section \<open>Configuration constants\<close>

type_synonym page_id = int

definition INVALID_PAGE_ID :: page_id where "INVALID_PAGE_ID = -1"
definition INVALID_LSN :: int where "INVALID_LSN = -1"
definition HEADER_PAGE_ID :: page_id where "HEADER_PAGE_ID = 0"
definition PAGE_SIZE :: int where "PAGE_SIZE = 512"
definition BUCKET_SIZE :: nat where "BUCKET_SIZE = 50"
definition BUFFER_POOL_SIZE :: nat where "BUFFER_POOL_SIZE = 10"

named_theorems config_defs \<open>the numeric constants of config.h\<close>

lemmas [config_defs] =
  INVALID_PAGE_ID_def INVALID_LSN_def HEADER_PAGE_ID_def PAGE_SIZE_def BUCKET_SIZE_def
  BUFFER_POOL_SIZE_def

section \<open>Assertions\<close>

text \<open>\<open>assert(b)\<close>: goes on when \<open>b\<close> holds, aborts the program otherwise.\<close>

definition assert_that :: "bool \<Rightarrow> unit option" where
  "assert_that b = (if b then Some () else None)"

lemma assert_that_simps [simp]:
  "assert_that True = Some ()" "assert_that False = None"
  "(assert_that b = Some u) \<longleftrightarrow> b" "(assert_that b = None) \<longleftrightarrow> \<not> b"
  by (simp_all add: assert_that_def)

lemma assert_that_bind [simp]:
  "b \<Longrightarrow> (assert_that b \<bind> f) = f ()" "\<not> b \<Longrightarrow> (assert_that b \<bind> f) = None"
  by (simp_all add: assert_that_def)

lemma bind_Some_iff: "(m \<bind> f = Some y) \<longleftrightarrow> (\<exists>x. m = Some x \<and> f x = Some y)"
  by (cases m) auto

section \<open>Fixed-width signed integers\<close>

text \<open>The conversion of a mathematical integer to a signed two's complement type of \<open>w\<close>
  bits, as the program's casts \<open>(int8_t)\<close>, \<open>(int16_t)\<close>, ... and its target do it.\<close>

definition wrap_s :: "nat \<Rightarrow> int \<Rightarrow> int" where
  "wrap_s w z = (z + 2 ^ (w - 1)) mod 2 ^ w - 2 ^ (w - 1)"

definition in_range_s :: "nat \<Rightarrow> int \<Rightarrow> bool" where
  "in_range_s w z \<longleftrightarrow> - (2 ^ (w - 1)) \<le> z \<and> z < 2 ^ (w - 1)"

lemma in_range_s_bounds [simp]:
  "in_range_s 8 z \<longleftrightarrow> - 128 \<le> z \<and> z \<le> 127"
  "in_range_s 16 z \<longleftrightarrow> - 32768 \<le> z \<and> z \<le> 32767"
  "in_range_s 32 z \<longleftrightarrow> - 2147483648 \<le> z \<and> z \<le> 2147483647"
  "in_range_s 64 z \<longleftrightarrow> - 9223372036854775808 \<le> z \<and> z \<le> 9223372036854775807"
  by (auto simp: in_range_s_def)

lemma two_power_split: "0 < w \<Longrightarrow> (2::int) ^ w = 2 * 2 ^ (w - 1)"
  by (metis Suc_diff_1 power_Suc)

lemma wrap_s_range: "0 < w \<Longrightarrow> in_range_s w (wrap_s w z)"
  using pos_mod_bound [of "2 ^ w" "z + 2 ^ (w - 1)"] two_power_split [of w]
  by (simp add: wrap_s_def in_range_s_def)

lemma wrap_s_id: "0 < w \<Longrightarrow> in_range_s w z \<Longrightarrow> wrap_s w z = z"
  using two_power_split [of w] by (simp add: wrap_s_def in_range_s_def)

lemma wrap_s_iff: "0 < w \<Longrightarrow> wrap_s w z = z \<longleftrightarrow> in_range_s w z"
  by (metis wrap_s_id wrap_s_range)

lemma wrap_s_idem [simp]: "0 < w \<Longrightarrow> wrap_s w (wrap_s w z) = wrap_s w z"
  by (simp add: wrap_s_id wrap_s_range)

section \<open>Raw memory\<close>

text \<open>\<open>memmove(a + d, a + s, n)\<close> on an array of elements: the \<open>n\<close> elements that start at
  index \<open>s\<close> are stored from index \<open>d\<close> on.\<close>

definition memmove :: "nat \<Rightarrow> nat \<Rightarrow> nat \<Rightarrow> 'a list \<Rightarrow> 'a list" where
  "memmove d s n a = take d a @ take n (drop s a) @ drop (d + n) a"

lemma length_memmove [simp]:
  "d + n \<le> length a \<Longrightarrow> s + n \<le> length a \<Longrightarrow> length (memmove d s n a) = length a"
  by (simp add: memmove_def)

lemma nth_memmove:
  "d + n \<le> length a \<Longrightarrow> s + n \<le> length a \<Longrightarrow> j < length a \<Longrightarrow>
   memmove d s n a ! j = (if d \<le> j \<and> j < d + n then a ! (s + (j - d)) else a ! j)"
  by (auto simp: memmove_def nth_append)

lemma memmove_delete:
  assumes "n \<le> length a" and "i < n"
  shows "take (n - 1) (memmove i (i + 1) (n - i - 1) a) = take i (take n a) @ drop (Suc i) (take n a)"
proof (rule nth_equalityI)
  show "length (take (n - 1) (memmove i (i + 1) (n - i - 1) a)) =
        length (take i (take n a) @ drop (Suc i) (take n a))"
    using assms by simp
  fix j assume "j < length (take (n - 1) (memmove i (i + 1) (n - i - 1) a))"
  then have "j < n - 1" by simp
  then show "take (n - 1) (memmove i (i + 1) (n - i - 1) a) ! j =
             (take i (take n a) @ drop (Suc i) (take n a)) ! j"
    using assms by (auto simp: nth_memmove nth_append)
qed

lemma memmove_shift_up:
  assumes "n < length a"
  shows "take (Suc n) ((memmove 1 0 n a)[0 := x]) = x # take n a"
proof (rule nth_equalityI)
  show "length (take (Suc n) ((memmove 1 0 n a)[0 := x])) = length (x # take n a)"
    using assms by simp
  have "a \<noteq> []" using assms by auto
  moreover fix j assume "j < length (take (Suc n) ((memmove 1 0 n a)[0 := x]))"
  ultimately show "take (Suc n) ((memmove 1 0 n a)[0 := x]) ! j = (x # take n a) ! j"
    using assms by (cases j) (auto simp: nth_memmove nth_list_update)
qed

lemma memmove_shift_down:
  assumes "n < length a"
  shows "take n (memmove 0 1 n a) = tl (take (Suc n) a)"
proof (rule nth_equalityI)
  show "length (take n (memmove 0 1 n a)) = length (tl (take (Suc n) a))"
    using assms by simp
  fix j assume "j < length (take n (memmove 0 1 n a))"
  then show "take n (memmove 0 1 n a) ! j = tl (take (Suc n) a) ! j"
    using assms by (simp add: nth_memmove nth_tl)
qed

text \<open>The loop \<open>for (i = hi; i > lo; i--) a[i] = a[i - 1]\<close>.\<close>

fun shift_right :: "'a list \<Rightarrow> nat \<Rightarrow> nat \<Rightarrow> 'a list" where
  "shift_right a 0 lo = a"
| "shift_right a (Suc i) lo =
     (if Suc i > lo then shift_right (a[Suc i := a ! i]) i lo else a)"

lemma length_shift_right [simp]: "length (shift_right a hi lo) = length a"
  by (induction a hi lo rule: shift_right.induct) auto

lemma nth_shift_right:
  "hi < length a \<Longrightarrow> j < length a \<Longrightarrow>
   shift_right a hi lo ! j = (if lo < j \<and> j \<le> hi then a ! (j - 1) else a ! j)"
proof (induction a hi lo rule: shift_right.induct)
  case (2 a i lo)
  then show ?case by (cases "j = Suc i") (auto simp: nth_list_update)
qed simp

lemma shift_right_insert:
  assumes "n < length a" and "lo \<le> n"
  shows "take (Suc n) ((shift_right a n lo)[lo := x]) = take lo (take n a) @ x # drop lo (take n a)"
proof (rule nth_equalityI)
  show "length (take (Suc n) ((shift_right a n lo)[lo := x])) =
        length (take lo (take n a) @ x # drop lo (take n a))"
    using assms by simp
  fix i assume "i < length (take (Suc n) ((shift_right a n lo)[lo := x]))"
  then have "i < Suc n" and "i < length a" using assms by auto
  then show "take (Suc n) ((shift_right a n lo)[lo := x]) ! i =
             (take lo (take n a) @ x # drop lo (take n a)) ! i"
    using assms
    by (cases "i = lo")
       (auto simp: nth_list_update nth_shift_right nth_append nth_Cons')
qed

text \<open>The loop \<open>for (i = lo + 1; i < n; i++) a[i - 1] = a[i]\<close>, run from index \<open>i\<close>.\<close>

function shift_left :: "'a list \<Rightarrow> nat \<Rightarrow> nat \<Rightarrow> 'a list" where
  "shift_left a i n = (if i < n then shift_left (a[i - 1 := a ! i]) (Suc i) n else a)"
  by pat_completeness auto
termination
  by (relation "measure (\<lambda>(a, i, n). n - i)") auto

declare shift_left.simps [simp del]

lemma length_shift_left [simp]: "length (shift_left a i n) = length a"
  by (induction a i n rule: shift_left.induct)
     (subst shift_left.simps, simp)

lemma nth_shift_left:
  "0 < i \<Longrightarrow> n \<le> length a \<Longrightarrow> j < length a \<Longrightarrow>
   shift_left a i n ! j = (if i \<le> j + 1 \<and> j + 1 < n then a ! (j + 1) else a ! j)"
proof (induction a i n rule: shift_left.induct)
  case (1 a i n)
  show ?case
  proof (cases "i < n")
    case True
    have "shift_left a i n ! j = shift_left (a[i - 1 := a ! i]) (Suc i) n ! j"
      using True by (subst shift_left.simps) simp
    also have "\<dots> = (if Suc i \<le> j + 1 \<and> j + 1 < n then (a[i - 1 := a ! i]) ! (j + 1)
                     else (a[i - 1 := a ! i]) ! j)"
      using True 1 by (intro "1.IH") auto
    finally show ?thesis
      using True "1.prems" by (auto simp: nth_list_update)
  next
    case False
    then show ?thesis by (subst shift_left.simps) auto
  qed
qed

lemma shift_left_remove:
  assumes "n \<le> length a" and "i < n"
  shows "take (n - 1) (shift_left a (Suc i) n) = take i (take n a) @ drop (Suc i) (take n a)"
proof (rule nth_equalityI)
  show "length (take (n - 1) (shift_left a (Suc i) n)) =
        length (take i (take n a) @ drop (Suc i) (take n a))"
    using assms by simp
  fix j assume "j < length (take (n - 1) (shift_left a (Suc i) n))"
  then have "j < n - 1" by simp
  then show "take (n - 1) (shift_left a (Suc i) n) ! j =
             (take i (take n a) @ drop (Suc i) (take n a)) ! j"
    using assms by (auto simp: nth_shift_left nth_append)
qed

text \<open>The loop \<open>for (i = lo; i < hi; i++) dst[i + off] = src[i]\<close> with the offset that takes
  index \<open>lo\<close> to \<open>d\<close>.\<close>

fun copy_loop :: "'a list \<Rightarrow> nat \<Rightarrow> nat \<Rightarrow> 'a list \<Rightarrow> nat \<Rightarrow> 'a list" where
  "copy_loop src lo 0 dst d = dst"
| "copy_loop src lo (Suc n) dst d = copy_loop src (Suc lo) n (dst[d := src ! lo]) (Suc d)"

lemma length_copy_loop [simp]: "length (copy_loop src lo n dst d) = length dst"
  by (induction src lo n dst d rule: copy_loop.induct) auto

lemma nth_copy_loop:
  "d + n \<le> length dst \<Longrightarrow> j < length dst \<Longrightarrow>
   copy_loop src lo n dst d ! j = (if d \<le> j \<and> j < d + n then src ! (lo + (j - d)) else dst ! j)"
proof (induction src lo n dst d rule: copy_loop.induct)
  case (2 src lo n dst d)
  then show ?case
    by (cases "j = d") (auto simp: nth_list_update Suc_diff_Suc)
qed auto

lemma take_copy_loop:
  assumes "d + n \<le> length dst" and "lo + n \<le> length src"
  shows "take (d + n) (copy_loop src lo n dst d) = take d dst @ take n (drop lo src)"
proof (rule nth_equalityI)
  show "length (take (d + n) (copy_loop src lo n dst d)) = length (take d dst @ take n (drop lo src))"
    using assms by simp
  fix j assume "j < length (take (d + n) (copy_loop src lo n dst d))"
  then have "j < d + n" by simp
  then show "take (d + n) (copy_loop src lo n dst d) ! j = (take d dst @ take n (drop lo src)) ! j"
    using assms by (auto simp: nth_copy_loop nth_append)
qed

section \<open>Lists\<close>

lemma take_Suc_update: "n < length xs \<Longrightarrow> take (Suc n) (xs[n := y]) = take n xs @ [y]"
  by (simp add: take_Suc_conv_app_nth)

lemma sorted_wrt_insert_at:
  assumes "sorted_wrt P xs" and "\<And>y. y \<in> set (take i xs) \<Longrightarrow> P y x"
    and "\<And>y. y \<in> set (drop i xs) \<Longrightarrow> P x y"
  shows "sorted_wrt P (take i xs @ x # drop i xs)"
proof -
  have "sorted_wrt P (take i xs @ drop i xs)" using assms(1) by simp
  then show ?thesis using assms(2,3) by (simp only: sorted_wrt_append) auto
qed

lemma distinct_map_of_append:
  "map_of (xs @ ys) k = (case map_of xs k of None \<Rightarrow> map_of ys k | Some v \<Rightarrow> Some v)"
  by (simp add: map_add_def split: option.splits)

lemma set_take_nth: "y \<in> set (take i xs) \<longleftrightarrow> (\<exists>j. j < i \<and> j < length xs \<and> xs ! j = y)"
  by (auto simp: in_set_conv_nth)

lemma set_drop_nth: "y \<in> set (drop i xs) \<longleftrightarrow> (\<exists>j. i \<le> j \<and> j < length xs \<and> xs ! j = y)"
proof
  assume "y \<in> set (drop i xs)"
  then obtain k where "k < length xs - i" "xs ! (i + k) = y"
    by (auto simp: in_set_conv_nth)
  then show "\<exists>j. i \<le> j \<and> j < length xs \<and> xs ! j = y"
    by (intro exI [of _ "i + k"]) simp
next
  assume "\<exists>j. i \<le> j \<and> j < length xs \<and> xs ! j = y"
  then obtain j where "i \<le> j" "j < length xs" "xs ! j = y" by blast
  then have "drop i xs ! (j - i) = y" and "j - i < length (drop i xs)" by auto
  then show "y \<in> set (drop i xs)" by (metis nth_mem)
qed

end
