(* ===== verification/PageStore.thy ===== *)
theory PageStore imports Base begin

text \<open>
  What the buffer pool promises to its clients, as an abstract machine: a map from page ids to page
  contents, a pin count and a latch per page.  The buffer pool manager
  (\<open>buffer/buffer_pool_manager.cpp\<close>) refines it; the B+ tree is written over it.  Besides the
  contents, the machine checks the protocol a client has to follow and aborts (\<open>None\<close>) on a
  violation: the contents of a page are only touched while the page is pinned, every pin is given
  back once, a page a client changed is reported dirty before its last pin goes, and a latch is
  not taken twice.
\<close>

section \<open>The state\<close>

text \<open>\<open>pending\<close> holds the pages that were changed and not reported dirty since; \<open>latch\<close> is
  \<open>0\<close> for a free latch, \<open>-1\<close> for a writer, and the number of readers otherwise.\<close>

record 'd store =
  contents :: "page_id \<Rightarrow> 'd option"
  pins :: "page_id \<Rightarrow> int"
  pending :: "page_id set"
  latch :: "page_id \<Rightarrow> int"
  next_id :: page_id

section \<open>The operations\<close>

definition st_fetch :: "page_id \<Rightarrow> ('d, 'z) store_scheme \<Rightarrow> ('d, 'z) store_scheme option" where
  "st_fetch p s = (case contents s p of None \<Rightarrow> None
     | Some d \<Rightarrow> Some (s\<lparr>pins := (pins s)(p := pins s p + 1)\<rparr>))"

definition st_get :: "page_id \<Rightarrow> ('d, 'z) store_scheme \<Rightarrow> 'd option" where
  "st_get p s = (if 0 < pins s p then contents s p else None)"

definition st_put :: "page_id \<Rightarrow> 'd \<Rightarrow> ('d, 'z) store_scheme \<Rightarrow> ('d, 'z) store_scheme option" where
  "st_put p d s = (if 0 < pins s p
     then Some (s\<lparr>contents := (contents s)(p \<mapsto> d), pending := insert p (pending s)\<rparr>) else None)"

definition st_unpin :: "page_id \<Rightarrow> bool \<Rightarrow> ('d, 'z) store_scheme \<Rightarrow> ('d, 'z) store_scheme option" where
  "st_unpin p dirty s =
     (let pend = (if dirty then pending s - {p} else pending s) in
      if pins s p \<le> 0 \<or> (pins s p = 1 \<and> p \<in> pend) then None
      else Some (s\<lparr>pins := (pins s)(p := pins s p - 1), pending := pend\<rparr>))"

definition st_new :: "'d \<Rightarrow> ('d, 'z) store_scheme \<Rightarrow> page_id \<times> ('d, 'z) store_scheme" where
  "st_new blank s =
     (let p = next_id s in
      (p, s\<lparr>contents := (contents s)(p \<mapsto> blank), pins := (pins s)(p := 1),
            pending := insert p (pending s), next_id := p + 1\<rparr>))"

definition st_delete :: "page_id \<Rightarrow> ('d, 'z) store_scheme \<Rightarrow> bool \<times> ('d, 'z) store_scheme" where
  "st_delete p s =
     (if 0 < pins s p then (False, s)
      else (True, s\<lparr>contents := (contents s)(p := None), pending := pending s - {p}\<rparr>))"

definition st_wlatch :: "page_id \<Rightarrow> ('d, 'z) store_scheme \<Rightarrow> ('d, 'z) store_scheme option" where
  "st_wlatch p s = (if latch s p = 0 then Some (s\<lparr>latch := (latch s)(p := - 1)\<rparr>) else None)"

definition st_wunlatch :: "page_id \<Rightarrow> ('d, 'z) store_scheme \<Rightarrow> ('d, 'z) store_scheme option" where
  "st_wunlatch p s = (if latch s p = - 1 then Some (s\<lparr>latch := (latch s)(p := 0)\<rparr>) else None)"

definition st_rlatch :: "page_id \<Rightarrow> ('d, 'z) store_scheme \<Rightarrow> ('d, 'z) store_scheme option" where
  "st_rlatch p s = (if 0 \<le> latch s p then Some (s\<lparr>latch := (latch s)(p := latch s p + 1)\<rparr>) else None)"

definition st_runlatch :: "page_id \<Rightarrow> ('d, 'z) store_scheme \<Rightarrow> ('d, 'z) store_scheme option" where
  "st_runlatch p s = (if 0 < latch s p then Some (s\<lparr>latch := (latch s)(p := latch s p - 1)\<rparr>) else None)"

named_theorems store_defs \<open>the operations of the page store\<close>

lemmas [store_defs] =
  st_fetch_def st_get_def st_put_def st_unpin_def st_new_def st_delete_def
  st_wlatch_def st_wunlatch_def st_rlatch_def st_runlatch_def

section \<open>Invariant\<close>

definition store_inv :: "('d, 'z) store_scheme \<Rightarrow> bool" where
  "store_inv s \<longleftrightarrow>
     (\<forall>p. contents s p \<noteq> None \<longrightarrow> 0 \<le> p \<and> p < next_id s) \<and>
     (\<forall>p. 0 \<le> pins s p) \<and> (\<forall>p. 0 < pins s p \<longrightarrow> contents s p \<noteq> None) \<and>
     (\<forall>p. p \<in> pending s \<longrightarrow> 0 < pins s p) \<and> 0 \<le> next_id s"

lemma store_inv_fetch: "store_inv s \<Longrightarrow> st_fetch p s = Some s' \<Longrightarrow> store_inv s'"
  by (auto simp: store_inv_def st_fetch_def add_nonneg_pos split: option.splits if_splits)

lemma store_inv_put: "store_inv s \<Longrightarrow> st_put p d s = Some s' \<Longrightarrow> store_inv s'"
  by (auto simp: store_inv_def st_put_def split: if_splits)

lemma store_inv_unpin: "store_inv s \<Longrightarrow> st_unpin p b s = Some s' \<Longrightarrow> store_inv s'"
  unfolding store_inv_def st_unpin_def Let_def
  by (auto split: if_splits)

lemma store_inv_new: "store_inv s \<Longrightarrow> st_new blank s = (p, s') \<Longrightarrow> store_inv s'"
  unfolding store_inv_def st_new_def Let_def
  by (auto split: if_splits) (meson order.strict_implies_order)

lemma store_inv_delete: "store_inv s \<Longrightarrow> st_delete p s = (b, s') \<Longrightarrow> store_inv s'"
  unfolding store_inv_def st_delete_def by (auto split: if_splits)

end
