(* ===== verification/LRU.thy ===== *)
theory LRU imports Base "HOL-Library.AList" begin

text \<open>
  The LRU replacer of \<open>buffer/lru_replacer.cpp\<close>: a doubly linked list of shared nodes between two
  sentinels and a map from values to nodes.  Nodes live in an explicit heap (a list indexed by
  address) so that the pointer surgery of the code is modelled as it is; a null or dangling
  dereference is \<open>None\<close>.  \<open>lru_rep\<close> relates a heap to the list of values, most recent first,
  and the lemmas show that the operations are those of a queue with removal; the contract other
  components use is the locale \<open>replacer\<close>.
\<close>

section \<open>The linked list and the map\<close>

record 'a sNode =
  data :: "'a option"
  ptrPrev :: "nat option"
  ptrNext :: "nat option"

record 'a lru =
  nodes :: "'a sNode list"
  mHead :: nat
  mTail :: nat
  mDataMap :: "('a \<times> nat) list"

definition deref :: "nat option \<Rightarrow> 'a sNode list \<Rightarrow> 'a sNode option" where
  "deref p h = (case p of None \<Rightarrow> None | Some a \<Rightarrow> if a < length h then Some (h ! a) else None)"

definition set_ptrNext :: "nat option \<Rightarrow> nat option \<Rightarrow> 'a sNode list \<Rightarrow> 'a sNode list option" where
  "set_ptrNext p q h =
     do { n \<leftarrow> deref p h; a \<leftarrow> p; Some (h[a := n\<lparr>ptrNext := q\<rparr>]) }"

definition set_ptrPrev :: "nat option \<Rightarrow> nat option \<Rightarrow> 'a sNode list \<Rightarrow> 'a sNode list option" where
  "set_ptrPrev p q h =
     do { n \<leftarrow> deref p h; a \<leftarrow> p; Some (h[a := n\<lparr>ptrPrev := q\<rparr>]) }"

text \<open>The constructor: \<open>sNode()\<close> for both sentinels, linked to each other.\<close>

definition lru_init :: "'a lru" where
  "lru_init =
     \<lparr>nodes = [\<lparr>data = None, ptrPrev = None, ptrNext = Some 1\<rparr>,
               \<lparr>data = None, ptrPrev = Some 0, ptrNext = None\<rparr>],
      mHead = 0, mTail = 1, mDataMap = []\<rparr>"

definition lru_Insert :: "'a \<Rightarrow> 'a lru \<Rightarrow> 'a lru option" where
  "lru_Insert value l =
     do { (cur, h) \<leftarrow>
            (case map_of (mDataMap l) value of
               Some cur \<Rightarrow>
                 do { n \<leftarrow> deref (Some cur) (nodes l);
                      let prev = ptrPrev n;
                      let succ = ptrNext n;
                      h \<leftarrow> set_ptrNext prev succ (nodes l);
                      h \<leftarrow> set_ptrPrev succ prev h;
                      Some (cur, h) }
             | None \<Rightarrow>
                 Some (length (nodes l),
                       nodes l @ [\<lparr>data = Some value, ptrPrev = None, ptrNext = None\<rparr>]));
          hd \<leftarrow> deref (Some (mHead l)) h;
          let fir = ptrNext hd;
          h \<leftarrow> set_ptrNext (Some cur) fir h;
          h \<leftarrow> set_ptrPrev fir (Some cur) h;
          h \<leftarrow> set_ptrPrev (Some cur) (Some (mHead l)) h;
          h \<leftarrow> set_ptrNext (Some (mHead l)) (Some cur) h;
          Some (l\<lparr>nodes := h, mDataMap := AList.update value cur (mDataMap l)\<rparr>) }"

text \<open>\<open>Victim\<close> returns the value it pops, or no value when the replacer is empty.\<close>

definition lru_Victim :: "'a lru \<Rightarrow> ('a option \<times> 'a lru) option" where
  "lru_Victim l =
     (if mDataMap l = [] then Some (None, l)
      else
        do { tl \<leftarrow> deref (Some (mTail l)) (nodes l);
             let last = ptrPrev tl;
             n \<leftarrow> deref last (nodes l);
             h \<leftarrow> set_ptrPrev (Some (mTail l)) (ptrPrev n) (nodes l);
             h \<leftarrow> set_ptrNext (ptrPrev n) (Some (mTail l)) h;
             value \<leftarrow> data n;
             Some (Some value, l\<lparr>nodes := h, mDataMap := AList.delete value (mDataMap l)\<rparr>) })"

definition lru_Erase :: "'a \<Rightarrow> 'a lru \<Rightarrow> (bool \<times> 'a lru) option" where
  "lru_Erase value l =
     (case map_of (mDataMap l) value of
        Some cur \<Rightarrow>
          do { n \<leftarrow> deref (Some cur) (nodes l);
               h \<leftarrow> set_ptrNext (ptrPrev n) (ptrNext n) (nodes l);
               h \<leftarrow> set_ptrPrev (ptrNext n) (ptrPrev n) h;
               Some (True, l\<lparr>nodes := h, mDataMap := AList.delete value (mDataMap l)\<rparr>) }
      | None \<Rightarrow> Some (False, l))"

text \<open>\<open>Size\<close> of \<open>project2\<close> answers one whatever the replacer holds; that of \<open>project1\<close> counts.\<close>

definition lru_Size :: "'a lru \<Rightarrow> int" where
  "lru_Size l = 1"

definition lru1_Size :: "'a lru \<Rightarrow> int" where
  "lru1_Size l = int (length (mDataMap l))"

section \<open>Linked segments of the heap\<close>

fun linked :: "'a sNode list \<Rightarrow> nat list \<Rightarrow> bool" where
  "linked h (a # b # ns) \<longleftrightarrow>
     ptrNext (h ! a) = Some b \<and> ptrPrev (h ! b) = Some a \<and> linked h (b # ns)"
| "linked h ns \<longleftrightarrow> True"

lemma linked_append:
  "linked h (xs @ a # ys) \<longleftrightarrow> linked h (xs @ [a]) \<and> linked h (a # ys)"
proof (induction xs)
  case (Cons x xs)
  then show ?case by (cases xs) auto
qed simp

lemma linked_append2: "linked h (xs @ a # b # ys) \<longleftrightarrow>
  linked h (xs @ [a]) \<and> ptrNext (h ! a) = Some b \<and> ptrPrev (h ! b) = Some a \<and> linked h (b # ys)"
  using linked_append [of h xs a "b # ys"] by simp

text \<open>A segment only depends on the forward pointers of all nodes but the last and the backward
  pointers of all nodes but the first.\<close>

lemma linked_cong:
  "linked h ns \<Longrightarrow> (\<And>a. a \<in> set (butlast ns) \<Longrightarrow> ptrNext (h' ! a) = ptrNext (h ! a)) \<Longrightarrow>
   (\<And>a. a \<in> set (tl ns) \<Longrightarrow> ptrPrev (h' ! a) = ptrPrev (h ! a)) \<Longrightarrow> linked h' ns"
proof (induction ns rule: induct_list012)
  case (3 a b ns)
  have "linked h' (b # ns)"
  proof (rule 3(2))
    fix x assume "x \<in> set (tl (b # ns))"
    then show "ptrPrev (h' ! x) = ptrPrev (h ! x)" using 3(5) by simp
  qed (use 3 in auto)
  with 3 show ?case by auto
qed auto

lemma deref_Some [simp]: "a < length h \<Longrightarrow> deref (Some a) h = Some (h ! a)"
  by (simp add: deref_def)

lemma set_ptrNext_Some [simp]:
  "a < length h \<Longrightarrow> set_ptrNext (Some a) q h = Some (h[a := (h ! a)\<lparr>ptrNext := q\<rparr>])"
  by (simp add: set_ptrNext_def)

lemma set_ptrPrev_Some [simp]:
  "a < length h \<Longrightarrow> set_ptrPrev (Some a) q h = Some (h[a := (h ! a)\<lparr>ptrPrev := q\<rparr>])"
  by (simp add: set_ptrPrev_def)

lemma nth_update_next [simp]:
  "a < length h \<Longrightarrow> ptrNext (h[a := n] ! b) = (if a = b then ptrNext n else ptrNext (h ! b))"
  "a < length h \<Longrightarrow> ptrPrev (h[a := n] ! b) = (if a = b then ptrPrev n else ptrPrev (h ! b))"
  "a < length h \<Longrightarrow> data (h[a := n] ! b) = (if a = b then data n else data (h ! b))"
  by (auto simp: nth_list_update)

text \<open>Taking a node out of the middle, and putting one in between two neighbours.\<close>

definition unlink :: "nat \<Rightarrow> nat \<Rightarrow> 'a sNode list \<Rightarrow> 'a sNode list" where
  "unlink a c h = (let h = h[a := (h ! a)\<lparr>ptrNext := Some c\<rparr>] in h[c := (h ! c)\<lparr>ptrPrev := Some a\<rparr>])"

lemma unlink_simps [simp]:
  "length (unlink a c h) = length h"
  "a < length h \<Longrightarrow> c < length h \<Longrightarrow> data (unlink a c h ! x) = data (h ! x)"
  "a < length h \<Longrightarrow> c < length h \<Longrightarrow>
   ptrNext (unlink a c h ! x) = (if x = a then Some c else ptrNext (h ! x))"
  "a < length h \<Longrightarrow> c < length h \<Longrightarrow>
   ptrPrev (unlink a c h ! x) = (if x = c then Some a else ptrPrev (h ! x))"
  by (auto simp: unlink_def Let_def)

lemma linked_unlink:
  assumes "linked h (xs @ a # b # c # ys)" and "distinct (xs @ a # b # c # ys)"
    and "a < length h" and "c < length h"
  shows "linked (unlink a c h) (xs @ a # c # ys)"
proof -
  have "linked h (xs @ [a])" and "linked h (c # ys)"
    using assms(1) by (simp_all add: linked_append2)
  then have "linked (unlink a c h) (xs @ [a])" and "linked (unlink a c h) (c # ys)"
    using assms(2-4) by (auto elim!: linked_cong dest: in_set_butlastD simp: butlast_append)
      (metis in_set_butlastD list.set_sel(2) Un_iff empty_iff insert_iff list.distinct(1) list.set(1) list.set(2) set_append tl_append2 append_is_Nil_conv not_Cons_self2 set_ConsD)+
  then show ?thesis
    using assms by (auto simp: linked_append2)
qed


definition link_front :: "nat \<Rightarrow> nat \<Rightarrow> nat \<Rightarrow> 'a sNode list \<Rightarrow> 'a sNode list" where
  "link_front hp cur fir h =
     (let h = h[cur := (h ! cur)\<lparr>ptrNext := Some fir\<rparr>];
          h = h[fir := (h ! fir)\<lparr>ptrPrev := Some cur\<rparr>];
          h = h[cur := (h ! cur)\<lparr>ptrPrev := Some hp\<rparr>]
      in h[hp := (h ! hp)\<lparr>ptrNext := Some cur\<rparr>])"

lemma link_front_simps [simp]:
  "length (link_front hp cur fir h) = length h"
  "cur < length h \<Longrightarrow> fir < length h \<Longrightarrow> hp < length h \<Longrightarrow> data (link_front hp cur fir h ! x) = data (h ! x)"
  "cur < length h \<Longrightarrow> fir < length h \<Longrightarrow> hp < length h \<Longrightarrow>
   ptrNext (link_front hp cur fir h ! x) =
     (if x = hp then Some cur else if x = cur then Some fir else ptrNext (h ! x))"
  "cur < length h \<Longrightarrow> fir < length h \<Longrightarrow> hp < length h \<Longrightarrow> cur \<noteq> fir \<Longrightarrow>
   ptrPrev (link_front hp cur fir h ! x) =
     (if x = cur then Some hp else if x = fir then Some cur else ptrPrev (h ! x))"
  by (auto simp: link_front_def Let_def)

lemma linked_link_front:
  assumes "linked h (hp # fir # ys)" and "distinct (hp # cur # fir # ys)"
    and "hp < length h" and "cur < length h" and "fir < length h"
  shows "linked (link_front hp cur fir h) (hp # cur # fir # ys)"
proof -
  have "linked h (fir # ys)" using assms(1) by (cases ys) auto
  then have "linked (link_front hp cur fir h) (fir # ys)"
    using assms(2-5) by (rule_tac linked_cong) (auto dest!: in_set_butlastD split: if_splits)
  then show ?thesis using assms(2-5) by auto
qed

section \<open>The list a replacer holds\<close>

text \<open>\<open>lru_rep l ps\<close>: the values and nodes of the list, most recent first, are \<open>ps\<close>.\<close>

definition lru_rep :: "'a lru \<Rightarrow> ('a \<times> nat) list \<Rightarrow> bool" where
  "lru_rep l ps \<longleftrightarrow>
     linked (nodes l) (mHead l # map snd ps @ [mTail l]) \<and>
     distinct (mHead l # map snd ps @ [mTail l]) \<and>
     set (mHead l # map snd ps @ [mTail l]) \<subseteq> {..<length (nodes l)} \<and>
     (\<forall>(x, a) \<in> set ps. data (nodes l ! a) = Some x) \<and>
     distinct (map fst ps) \<and> distinct (map fst (mDataMap l)) \<and>
     map_of (mDataMap l) = map_of ps"

definition lru_abs :: "'a lru \<Rightarrow> 'a list \<Rightarrow> bool" where
  "lru_abs l xs \<longleftrightarrow> (\<exists>ps. lru_rep l ps \<and> xs = map fst ps)"

lemma lru_abs_init: "lru_abs lru_init []"
  unfolding lru_abs_def by (rule exI [of _ "[]"]) (simp add: lru_rep_def lru_init_def)

text \<open>Around any listed node there are two neighbours in the chain.\<close>

lemma lru_rep_split:
  assumes "lru_rep l (ps @ (v, a) # qs)"
  obtains us p n vs where "mHead l # map snd ps = us @ [p]" and "map snd qs @ [mTail l] = n # vs"
    and "linked (nodes l) (us @ p # a # n # vs)" and "distinct (us @ p # a # n # vs)"
    and "set (us @ p # a # n # vs) \<subseteq> {..<length (nodes l)}"
    and "ptrPrev (nodes l ! a) = Some p" and "ptrNext (nodes l ! a) = Some n"
    and "ptrPrev (nodes l ! n) = Some a"
proof -
  obtain us p where us: "mHead l # map snd ps = us @ [p]"
    by (metis list.distinct(1) rev_exhaust)
  obtain n vs where vs: "map snd qs @ [mTail l] = n # vs"
    by (cases "map snd qs @ [mTail l]") auto
  have all: "mHead l # map snd (ps @ (v, a) # qs) @ [mTail l] = us @ p # a # n # vs"
    using us vs by simp
  note r = assms [unfolded lru_rep_def all]
  then have "linked (nodes l) (p # a # n # vs)" using linked_append [of _ us p] by blast
  then show ?thesis using that [OF us vs] r by simp
qed

lemma lru_rep_unlink:
  assumes "lru_rep l (ps @ (v, a) # qs)"
  obtains p n where "ptrPrev (nodes l ! a) = Some p" and "ptrNext (nodes l ! a) = Some n"
    and "p < length (nodes l)" and "n < length (nodes l)" and "a < length (nodes l)"
    and "linked (unlink p n (nodes l)) (mHead l # map snd (ps @ qs) @ [mTail l])"
    and "qs = [] \<Longrightarrow> n = mTail l" and "p \<noteq> n" and "ptrPrev (nodes l ! n) = Some a"
proof -
  obtain us p n vs where s: "mHead l # map snd ps = us @ [p]" "map snd qs @ [mTail l] = n # vs"
    "linked (nodes l) (us @ p # a # n # vs)" "distinct (us @ p # a # n # vs)"
    "set (us @ p # a # n # vs) \<subseteq> {..<length (nodes l)}"
    "ptrPrev (nodes l ! a) = Some p" "ptrNext (nodes l ! a) = Some n"
    "ptrPrev (nodes l ! n) = Some a"
    using lru_rep_split [OF assms] by blast
  have "mHead l # map snd (ps @ qs) @ [mTail l] = us @ p # n # vs"
    using s(1,2) by simp
  then have "linked (unlink p n (nodes l)) (mHead l # map snd (ps @ qs) @ [mTail l])"
    using linked_unlink [OF s(3,4)] s(5) by simp
  then show ?thesis
  proof (rule that [rotated -4])
    show "n = mTail l" if "qs = []" using that s(2) by simp
  qed (use s in auto)
qed

lemma map_of_remove_mid:
  "distinct (map fst (ps @ (v, a) # qs)) \<Longrightarrow>
   map_of (ps @ qs) = (map_of (ps @ (v, a) # qs))(v := None)"
proof -
  assume "distinct (map fst (ps @ (v, a) # qs))"
  then have "map_of ps v = None" "map_of qs v = None" by (auto simp: map_of_eq_None_iff)
  then show ?thesis by (auto simp: map_add_def fun_eq_iff split: option.splits)
qed

lemma lru_rep_member:
  assumes "lru_rep l ps"
  shows "map_of (mDataMap l) v = Some a \<longleftrightarrow> (v, a) \<in> set ps"
    and "map_of (mDataMap l) v = None \<longleftrightarrow> v \<notin> set (map fst ps)"
  using assms by (auto simp: lru_rep_def map_of_eq_None_iff)

lemma lru_rep_unlinked:
  assumes rep: "lru_rep l (xs @ (v, a) # ys)" and "p < length (nodes l)" and "n < length (nodes l)"
    and "linked (unlink p n (nodes l)) (mHead l # map snd (xs @ ys) @ [mTail l])"
  shows "lru_rep (l\<lparr>nodes := unlink p n (nodes l), mDataMap := AList.delete v (mDataMap l)\<rparr>) (xs @ ys)"
proof -
  have dist: "distinct (map fst (xs @ (v, a) # ys))" using rep by (simp add: lru_rep_def)
  have "map_of (AList.delete v (mDataMap l)) = map_of (xs @ ys)"
    using rep map_of_remove_mid [OF dist] by (simp add: lru_rep_def delete_conv')
  moreover have "distinct (map fst (AList.delete v (mDataMap l)))"
    using rep by (simp add: lru_rep_def distinct_delete)
  moreover have "distinct (mHead l # map snd (xs @ ys) @ [mTail l])"
    "set (mHead l # map snd (xs @ ys) @ [mTail l]) \<subseteq> {..<length (nodes l)}"
    "\<forall>(x, a) \<in> set (xs @ ys). data (nodes l ! a) = Some x"
    using rep by (auto simp: lru_rep_def)
  ultimately show ?thesis
    using assms(2-) dist by (simp add: lru_rep_def)
qed

section \<open>The operations on the list\<close>

theorem lru_Erase_rep:
  assumes "lru_rep l ps"
  shows "\<exists>l'. lru_Erase v l = Some (v \<in> set (map fst ps), l') \<and>
    lru_rep l' (filter (\<lambda>p. fst p \<noteq> v) ps)"
proof (cases "map_of (mDataMap l) v")
  case None
  then have "v \<notin> set (map fst ps)" using lru_rep_member [OF assms] by simp
  moreover from this have "filter (\<lambda>p. fst p \<noteq> v) ps = ps" by (auto intro: filter_True)
  ultimately show ?thesis using None assms by (auto simp: lru_Erase_def)
next
  case (Some a)
  then have "(v, a) \<in> set ps" using lru_rep_member [OF assms] by simp
  then obtain xs ys where ps: "ps = xs @ (v, a) # ys" by (meson split_list)
  have rep: "lru_rep l (xs @ (v, a) # ys)" using assms ps by simp
  then obtain p n where s: "ptrPrev (nodes l ! a) = Some p" "ptrNext (nodes l ! a) = Some n"
    "p < length (nodes l)" "n < length (nodes l)" "a < length (nodes l)"
    "linked (unlink p n (nodes l)) (mHead l # map snd (xs @ ys) @ [mTail l])"
    "ys = [] \<Longrightarrow> n = mTail l" "p \<noteq> n" "ptrPrev (nodes l ! n) = Some a"
    using lru_rep_unlink [OF rep] by metis
  define l' where "l' = l\<lparr>nodes := unlink p n (nodes l), mDataMap := AList.delete v (mDataMap l)\<rparr>"
  have "lru_Erase v l = Some (True, l')"
    using Some s by (simp add: lru_Erase_def l'_def unlink_def Let_def)
  moreover have dist: "distinct (map fst (xs @ (v, a) # ys))" using rep by (simp add: lru_rep_def)
  then have "\<forall>p \<in> set xs \<union> set ys. fst p \<noteq> v" by force
  then have fil: "filter (\<lambda>p. fst p \<noteq> v) ps = xs @ ys"
    by (simp add: ps filter_id_conv)
  moreover have "lru_rep l' (xs @ ys)"
    unfolding l'_def using lru_rep_unlinked [OF rep s(3,4,6)] .
  ultimately show ?thesis using ps by auto
qed

theorem lru_Victim_rep:
  assumes "lru_rep l ps"
  shows "ps = [] \<Longrightarrow> lru_Victim l = Some (None, l)"
    and "ps = qs @ [(v, a)] \<Longrightarrow> \<exists>l'. lru_Victim l = Some (Some v, l') \<and> lru_rep l' qs"
proof -
  assume "ps = []"
  then have "mDataMap l = []"
    using assms by (metis lru_rep_def map_of_eq_empty_iff map_of.simps(1))
  then show "lru_Victim l = Some (None, l)" by (simp add: lru_Victim_def)
next
  assume ps: "ps = qs @ [(v, a)]"
  then have rep: "lru_rep l (qs @ (v, a) # [])" using assms by simp
  then obtain p n where s: "ptrPrev (nodes l ! a) = Some p" "ptrNext (nodes l ! a) = Some n"
    "p < length (nodes l)" "n < length (nodes l)" "a < length (nodes l)"
    "linked (unlink p n (nodes l)) (mHead l # map snd (qs @ []) @ [mTail l])" "n = mTail l"
    "p \<noteq> n" "ptrPrev (nodes l ! n) = Some a"
    using lru_rep_unlink [OF rep] by metis
  have "map_of (mDataMap l) v = Some a" using lru_rep_member [OF rep] by simp
  then have "mDataMap l \<noteq> []" by auto
  moreover have "data (nodes l ! a) = Some v" using rep by (simp add: lru_rep_def)
  ultimately have "lru_Victim l = Some (Some v,
      l\<lparr>nodes := unlink p n (nodes l), mDataMap := AList.delete v (mDataMap l)\<rparr>)"
    using s by (simp add: lru_Victim_def unlink_def Let_def list_update_swap)
  then show "\<exists>l'. lru_Victim l = Some (Some v, l') \<and> lru_rep l' qs"
    using lru_rep_unlinked [OF rep s(3,4,6)] by auto
qed

lemma lru_rep_front:
  fixes l :: "'a lru"
  assumes "linked h (mHead l # map snd qs @ [mTail l])"
    and "distinct (mHead l # map snd qs @ [mTail l])"
    and "set (mHead l # map snd qs @ [mTail l]) \<subseteq> {..<length h}"
    and "cur < length h" and "cur \<notin> set (mHead l # map snd qs @ [mTail l])"
    and "\<forall>(x, a) \<in> set ((v, cur) # qs). data (h ! a) = Some x"
    and "distinct (map fst ((v, cur) # qs))" and "distinct (map fst D)"
    and "map_of D = map_of ((v, cur) # qs)"
  obtains fir where "ptrNext (h ! mHead l) = Some fir" and "fir < length h"
    and "lru_rep (l\<lparr>nodes := link_front (mHead l) cur fir h, mDataMap := D\<rparr>) ((v, cur) # qs)"
proof -
  obtain fir vs where vs: "map snd qs @ [mTail l] = fir # vs"
    by (cases "map snd qs @ [mTail l]") auto
  note all = assms(1-3,5) [unfolded vs]
  have fir: "ptrNext (h ! mHead l) = Some fir" "fir < length h" using all by auto
  have "linked (link_front (mHead l) cur fir h) (mHead l # cur # fir # vs)"
    using all assms(4) by (intro linked_link_front) auto
  then have "linked (link_front (mHead l) cur fir h) (mHead l # map snd ((v, cur) # qs) @ [mTail l])"
    using vs by simp
  moreover have "\<forall>(x, a) \<in> set ((v, cur) # qs). data (link_front (mHead l) cur fir h ! a) = Some x"
    using assms(3,4,6) fir by auto
  ultimately have "lru_rep (l\<lparr>nodes := link_front (mHead l) cur fir h, mDataMap := D\<rparr>) ((v, cur) # qs)"
    using assms by (simp add: lru_rep_def)
  then show ?thesis using that fir by blast
qed

lemma map_of_AList_update: "map_of (AList.update k v D) = (map_of D)(k \<mapsto> v)"
  by (simp add: update_conv')

text \<open>Inserting moves a value that is held to the front, and puts a new one there.\<close>

theorem lru_Insert_rep:
  assumes "lru_rep l ps"
  shows "\<exists>l' a. lru_Insert v l = Some l' \<and> lru_rep l' ((v, a) # filter (\<lambda>p. fst p \<noteq> v) ps)"
proof (cases "map_of (mDataMap l) v")
  case None
  then have v: "v \<notin> set (map fst ps)" using lru_rep_member [OF assms] by simp
  then have fil: "filter (\<lambda>p. fst p \<noteq> v) ps = ps" by (auto simp: filter_id_conv)
  define h where "h = nodes l @ [\<lparr>data = Some v, ptrPrev = None, ptrNext = None\<rparr>]"
  define cur where "cur = length (nodes l)"
  have h: "h ! a = nodes l ! a" if "a < length (nodes l)" for a
    using that by (simp add: h_def nth_append)
  note r = assms [unfolded lru_rep_def]
  have bound: "a < length (nodes l)" if "a \<in> set (mHead l # map snd ps @ [mTail l])" for a
    using r that by blast
  have "linked h (mHead l # map snd ps @ [mTail l])"
    using r by (auto elim!: linked_cong dest!: in_set_butlastD intro!: arg_cong [OF h] bound)
  moreover have "\<forall>(x, a) \<in> set ((v, cur) # ps). data (h ! a) = Some x"
  proof -
    have "data (h ! a) = Some x" if "(x, a) \<in> set ps" for x a
    proof -
      have "a \<in> set (map snd ps)" using that by force
      then have "a < length (nodes l)" using bound by simp
      then show ?thesis using r that h by auto
    qed
    moreover have "data (h ! cur) = Some v" by (simp add: h_def cur_def)
    ultimately show ?thesis by auto
  qed
  moreover have "cur \<notin> set (mHead l # map snd ps @ [mTail l])"
    using bound cur_def by blast
  moreover have "set (mHead l # map snd ps @ [mTail l]) \<subseteq> {..<length h}"
    using bound by (metis h_def length_append lessThan_iff subsetI trans_less_add1)
  moreover have "map_of (AList.update v cur (mDataMap l)) = map_of ((v, cur) # ps)"
    using r by (simp add: map_of_AList_update)
  moreover have "distinct (map fst (AList.update v cur (mDataMap l)))"
    using r by (simp add: distinct_update)
  ultimately obtain fir where fir: "ptrNext (h ! mHead l) = Some fir" "fir < length h"
    "lru_rep (l\<lparr>nodes := link_front (mHead l) cur fir h,
       mDataMap := AList.update v cur (mDataMap l)\<rparr>) ((v, cur) # ps)"
    using lru_rep_front [of h l ps cur v "AList.update v cur (mDataMap l)"] r v
    by (auto simp: h_def cur_def)
  have "cur < length h" "mHead l < length h"
    using bound [of "mHead l"] by (simp_all add: h_def cur_def)
  then have "lru_Insert v l = Some (l\<lparr>nodes := link_front (mHead l) cur fir h,
       mDataMap := AList.update v cur (mDataMap l)\<rparr>)"
    using None fir by (simp add: lru_Insert_def link_front_def Let_def flip: h_def cur_def)
  then show ?thesis using fir(3) fil by auto
next
  case (Some a)
  then have "(v, a) \<in> set ps" using lru_rep_member [OF assms] by simp
  then obtain xs ys where ps: "ps = xs @ (v, a) # ys" by (meson split_list)
  have rep: "lru_rep l (xs @ (v, a) # ys)" using assms ps by simp
  then obtain p n where s: "ptrPrev (nodes l ! a) = Some p" "ptrNext (nodes l ! a) = Some n"
    "p < length (nodes l)" "n < length (nodes l)" "a < length (nodes l)"
    "linked (unlink p n (nodes l)) (mHead l # map snd (xs @ ys) @ [mTail l])"
    "ys = [] \<Longrightarrow> n = mTail l" "p \<noteq> n" "ptrPrev (nodes l ! n) = Some a"
    using lru_rep_unlink [OF rep] by metis
  define h where "h = unlink p n (nodes l)"
  have dist: "distinct (map fst (xs @ (v, a) # ys))" using rep by (simp add: lru_rep_def)
  then have "\<forall>p \<in> set xs \<union> set ys. fst p \<noteq> v" by force
  then have fil: "filter (\<lambda>p. fst p \<noteq> v) ps = xs @ ys"
    by (simp add: ps filter_id_conv)
  note r = rep [unfolded lru_rep_def]
  have "\<forall>(x, b) \<in> set ((v, a) # xs @ ys). data (h ! b) = Some x"
    using r s(3,4) by (auto simp: h_def)
  moreover have "distinct (mHead l # map snd (xs @ ys) @ [mTail l])"
    "set (mHead l # map snd (xs @ ys) @ [mTail l]) \<subseteq> {..<length h}"
    "a \<notin> set (mHead l # map snd (xs @ ys) @ [mTail l])" "a < length h"
    "distinct (map fst ((v, a) # xs @ ys))"
    using r by (auto simp: h_def)
  moreover have "map_of (AList.update v a (mDataMap l)) = map_of ((v, a) # xs @ ys)"
    using r map_of_remove_mid [OF dist] by (simp add: map_of_AList_update)
  moreover have "distinct (map fst (AList.update v a (mDataMap l)))"
    using r by (simp add: distinct_update)
  ultimately obtain fir where fir: "ptrNext (h ! mHead l) = Some fir" "fir < length h"
    "lru_rep (l\<lparr>nodes := link_front (mHead l) a fir h,
       mDataMap := AList.update v a (mDataMap l)\<rparr>) ((v, a) # xs @ ys)"
    using lru_rep_front [of h l "xs @ ys" a v "AList.update v a (mDataMap l)"] s(6)
    by (auto simp: h_def)
  have len: "a < length h" "mHead l < length h" using r by (auto simp: h_def)
  have "set_ptrNext (Some p) (Some n) (nodes l) \<bind> set_ptrPrev (Some n) (Some p) = Some h"
    using s(3,4,8) by (simp add: h_def unlink_def Let_def)
  with len have "lru_Insert v l = Some (l\<lparr>nodes := link_front (mHead l) a fir h,
       mDataMap := AList.update v a (mDataMap l)\<rparr>)"
    using Some s fir(1,2) by (simp add: lru_Insert_def link_front_def Let_def h_def unlink_def)
  then show ?thesis using fir(3) fil by auto
qed

section \<open>The contract of a replacer\<close>

text \<open>
  What \<open>buffer/replacer.h\<close> asks of a replacer, over the list of values it holds: values enter at the
  front, the victim leaves at the back, a value can be withdrawn.  The buffer pool rests on these
  facts only.
\<close>

locale replacer =
  fixes abs :: "'r \<Rightarrow> 'a list \<Rightarrow> bool"
    and ins :: "'a \<Rightarrow> 'r \<Rightarrow> 'r option"
    and victim :: "'r \<Rightarrow> ('a option \<times> 'r) option"
    and erase :: "'a \<Rightarrow> 'r \<Rightarrow> (bool \<times> 'r) option"
  assumes abs_distinct: "abs r xs \<Longrightarrow> distinct xs"
    and ins_abs: "abs r xs \<Longrightarrow> \<exists>r'. ins x r = Some r' \<and> abs r' (x # filter (\<lambda>y. y \<noteq> x) xs)"
    and victim_empty: "abs r [] \<Longrightarrow> victim r = Some (None, r)"
    and victim_last: "abs r (xs @ [x]) \<Longrightarrow> \<exists>r'. victim r = Some (Some x, r') \<and> abs r' xs"
    and erase_abs: "abs r xs \<Longrightarrow>
      \<exists>r'. erase x r = Some (x \<in> set xs, r') \<and> abs r' (filter (\<lambda>y. y \<noteq> x) xs)"
begin

lemma victim_held:
  assumes "abs r xs" and "xs \<noteq> []"
  shows "\<exists>x r'. victim r = Some (Some x, r') \<and> x \<in> set xs \<and> abs r' (butlast xs)"
proof -
  have "xs = butlast xs @ [last xs]" using assms(2) by simp
  then show ?thesis using victim_last [of r "butlast xs" "last xs"] assms by auto
qed

lemma victim_none_iff: "abs r xs \<Longrightarrow> (\<exists>r'. victim r = Some (None, r')) \<longleftrightarrow> xs = []"
  using victim_held victim_empty by fastforce

lemma erase_absent: "abs r xs \<Longrightarrow> x \<notin> set xs \<Longrightarrow> \<exists>r'. erase x r = Some (False, r') \<and> abs r' xs"
proof -
  assume r: "abs r xs" and x: "x \<notin> set xs"
  from x have "filter (\<lambda>y. y \<noteq> x) xs = xs" by (auto simp: filter_id_conv)
  with erase_abs [OF r, of x] x show ?thesis by auto
qed

text \<open>A value put back is the last to go: every value held before leaves first.\<close>

lemma victim_after_ins:
  assumes "abs r xs" and "\<exists>y \<in> set xs. y \<noteq> x"
  shows "\<exists>r' y r''. ins x r = Some r' \<and> victim r' = Some (Some y, r'') \<and> y \<noteq> x \<and> y \<in> set xs"
proof -
  obtain r' where r': "ins x r = Some r'" "abs r' (x # filter (\<lambda>y. y \<noteq> x) xs)"
    using ins_abs [OF assms(1)] by blast
  let ?ys = "filter (\<lambda>y. y \<noteq> x) xs"
  have ne: "?ys \<noteq> []" using assms(2) by (auto simp: filter_empty_conv)
  then have "x # ?ys = (x # butlast ?ys) @ [last ?ys]" by simp
  then obtain r'' where "victim r' = Some (Some (last ?ys), r'')"
    using victim_last [of r' "x # butlast ?ys" "last ?ys"] r'(2) by auto
  moreover have "last ?ys \<in> set ?ys" using ne by (rule last_in_set)
  ultimately show ?thesis using r'(1) by auto
qed

end

interpretation lru: replacer lru_abs lru_Insert lru_Victim lru_Erase
proof unfold_locales
  fix r :: "'a lru" and xs x
  show "distinct xs" if "lru_abs r xs" using that by (auto simp: lru_abs_def lru_rep_def)
  show "\<exists>r'. lru_Insert x r = Some r' \<and> lru_abs r' (x # filter (\<lambda>y. y \<noteq> x) xs)" if r: "lru_abs r xs"
  proof -
    obtain ps where "lru_rep r ps" "xs = map fst ps" using r unfolding lru_abs_def by blast
    then show ?thesis using lru_Insert_rep [of r ps x]
      by (fastforce simp: lru_abs_def filter_map comp_def)
  qed
  show "lru_Victim r = Some (None, r)" if "lru_abs r []"
    using that lru_Victim_rep(1) by (auto simp: lru_abs_def)
  show "\<exists>r'. lru_Victim r = Some (Some x, r') \<and> lru_abs r' xs" if r: "lru_abs r (xs @ [x])"
  proof -
    obtain ps where ps: "lru_rep r ps" "xs @ [x] = map fst ps" using r unfolding lru_abs_def by blast
    from ps(2) obtain qs a where "ps = qs @ [(x, a)]" "xs = map fst qs"
      by (cases ps rule: rev_cases) auto
    then show ?thesis using lru_Victim_rep(2) [OF ps(1)] by (fastforce simp: lru_abs_def)
  qed
  show "\<exists>r'. lru_Erase x r = Some (x \<in> set xs, r') \<and> lru_abs r' (filter (\<lambda>y. y \<noteq> x) xs)"
    if r: "lru_abs r xs"
  proof -
    obtain ps where "lru_rep r ps" "xs = map fst ps" using r unfolding lru_abs_def by blast
    then show ?thesis using lru_Erase_rep [of r ps x]
      by (fastforce simp: lru_abs_def filter_map comp_def)
  qed
qed

text \<open>The size \<open>project1\<close> reports is the number of values held; \<open>project2\<close>'s is not.\<close>

lemma lru1_Size_abs: "lru_abs l xs \<Longrightarrow> lru1_Size l = int (length xs)"
proof -
  assume "lru_abs l xs"
  then obtain ps where ps: "lru_rep l ps" "xs = map fst ps" by (auto simp: lru_abs_def)
  then have "set (map fst (mDataMap l)) = set (map fst ps)"
    by (metis dom_map_of_conv_image_fst list.set_map lru_rep_def)
  moreover have "distinct (map fst (mDataMap l))" "distinct (map fst ps)"
    using ps(1) by (simp_all add: lru_rep_def)
  ultimately have "length (map fst (mDataMap l)) = length (map fst ps)"
    by (metis distinct_card)
  then show ?thesis using ps(2) by (simp add: lru1_Size_def)
qed

section \<open>Whole runs\<close>

text \<open>The calls of a client, their answers, and the list the answers come from: most recent first.\<close>

datatype 'a lru_call = CallInsert 'a | CallVictim | CallErase 'a

datatype 'a lru_reply = Done | Victim "'a option" | Erased bool

definition lru_step :: "'a lru_call \<Rightarrow> 'a lru \<Rightarrow> ('a lru_reply \<times> 'a lru) option" where
  "lru_step c l = (case c of
     CallInsert x \<Rightarrow> map_option (Pair Done) (lru_Insert x l)
   | CallVictim \<Rightarrow> map_option (\<lambda>(v, l'). (Victim v, l')) (lru_Victim l)
   | CallErase x \<Rightarrow> map_option (\<lambda>(b, l'). (Erased b, l')) (lru_Erase x l))"

definition list_call :: "'a lru_call \<Rightarrow> 'a list \<Rightarrow> 'a lru_reply \<times> 'a list" where
  "list_call c xs = (case c of
     CallInsert x \<Rightarrow> (Done, x # filter (\<lambda>y. y \<noteq> x) xs)
   | CallVictim \<Rightarrow> if xs = [] then (Victim None, []) else (Victim (Some (last xs)), butlast xs)
   | CallErase x \<Rightarrow> (Erased (x \<in> set xs), filter (\<lambda>y. y \<noteq> x) xs))"

fun lru_run :: "'a lru_call list \<Rightarrow> 'a lru \<Rightarrow> ('a lru_reply list \<times> 'a lru) option" where
  "lru_run [] l = Some ([], l)"
| "lru_run (c # cs) l = (case lru_step c l of None \<Rightarrow> None
     | Some (r, l') \<Rightarrow> map_option (\<lambda>(rs, l''). (r # rs, l'')) (lru_run cs l'))"

fun list_run :: "'a lru_call list \<Rightarrow> 'a list \<Rightarrow> 'a lru_reply list" where
  "list_run [] xs = []"
| "list_run (c # cs) xs = (let (r, xs') = list_call c xs in r # list_run cs xs')"

lemma lru_step_refines:
  assumes "lru_abs l xs"
  shows "\<exists>l'. lru_step c l = Some (fst (list_call c xs), l') \<and> lru_abs l' (snd (list_call c xs))"
proof (cases c)
  case (CallInsert x)
  then show ?thesis using lru.ins_abs [OF assms, of x] by (auto simp: lru_step_def list_call_def)
next
  case CallVictim
  show ?thesis
  proof (cases xs rule: rev_cases)
    case Nil
    then show ?thesis using CallVictim lru.victim_empty assms by (auto simp: lru_step_def list_call_def)
  next
    case (snoc ys y)
    then show ?thesis using CallVictim lru.victim_last [of l ys y] assms by (auto simp: lru_step_def list_call_def)
  qed
next
  case (CallErase x)
  then show ?thesis using lru.erase_abs [OF assms, of x] by (auto simp: lru_step_def list_call_def)
qed

lemma lru_run_refines: "lru_abs l xs \<Longrightarrow> \<exists>l'. lru_run cs l = Some (list_run cs xs, l')"
proof (induction cs arbitrary: l xs)
  case (Cons c cs)
  obtain l' where l': "lru_step c l = Some (fst (list_call c xs), l')" "lru_abs l' (snd (list_call c xs))"
    using lru_step_refines [OF Cons.prems] by blast
  obtain l'' where "lru_run cs l' = Some (list_run cs (snd (list_call c xs)), l'')"
    using Cons.IH [OF l'(2)] by blast
  then show ?case using l'(1) by (simp add: split_beta)
qed simp

text \<open>C7. Every sequence of calls on a fresh replacer returns, and answers as a list of the values by
  recency would: a victim is the value whose last insertion is the oldest.\<close>

theorem lru_runs_as_recency_list: "\<exists>l. lru_run cs lru_init = Some (list_run cs [], l)"
  by (rule lru_run_refines [OF lru_abs_init])

end
