(* ===== verification/ExtHash.thy ===== *)
theory ExtHash imports Base "HOL-Library.AList" begin

text \<open>
  The extendible hash table of \<open>hash/extendible_hash.cpp\<close> (and \<open>include/hash/extendible_hash.h\<close>).
  Buckets are shared objects, so they live in a heap indexed by address and the directory
  \<open>mBuckets\<close> holds addresses; comparing two \<open>shared_ptr\<close>s compares addresses.  The hash function
  is a parameter.  \<open>Insert\<close> loops until the key's bucket has room, which need not happen (all
  keys of a bucket may collide); it is a partial function, and the lemmas say when it returns.
\<close>

unbundle bit_operations_syntax

section \<open>The table\<close>

record ('k, 'v) sBucket =
  localDepth :: nat
  dataMap :: "('k \<times> 'v) list"

record ('k, 'v) ext_hash =
  bucket_heap :: "('k, 'v) sBucket list"
  mBuckets :: "nat list"
  mGlobalDepth :: nat
  mBucketSize :: nat
  mBucketNum :: int

definition ext_init :: "nat \<Rightarrow> ('k, 'v) ext_hash" where
  "ext_init sz =
     \<lparr>bucket_heap = [\<lparr>localDepth = 0, dataMap = []\<rparr>], mBuckets = [0], mGlobalDepth = 0,
      mBucketSize = sz, mBucketNum = 1\<rparr>"

definition GetGlobalDepth :: "('k, 'v) ext_hash \<Rightarrow> nat" where
  "GetGlobalDepth h = mGlobalDepth h"

definition GetLocalDepth :: "int \<Rightarrow> ('k, 'v) ext_hash \<Rightarrow> int" where
  "GetLocalDepth bucket_id h =
     (let b = bucket_heap h ! (mBuckets h ! nat bucket_id) in
      if length (dataMap b) = 0 then - 1 else int (localDepth b))"

definition GetNumBuckets :: "('k, 'v) ext_hash \<Rightarrow> int" where
  "GetNumBuckets h = mBucketNum h"

text \<open>\<open>HashKey(key) & ((1 << mGlobalDepth) - 1)\<close>.\<close>

definition getBucketIndex :: "('k \<Rightarrow> nat) \<Rightarrow> 'k \<Rightarrow> ('k, 'v) ext_hash \<Rightarrow> nat" where
  "getBucketIndex HashKey key h = HashKey key AND (push_bit (mGlobalDepth h) 1 - 1)"

definition ext_Find :: "('k \<Rightarrow> nat) \<Rightarrow> 'k \<Rightarrow> ('k, 'v) ext_hash \<Rightarrow> 'v option" where
  "ext_Find HashKey key h =
     (let index = getBucketIndex HashKey key h in
      map_of (dataMap (bucket_heap h ! (mBuckets h ! index))) key)"

definition ext_Remove ::
  "('k \<Rightarrow> nat) \<Rightarrow> 'k \<Rightarrow> ('k, 'v) ext_hash \<Rightarrow> bool \<times> ('k, 'v) ext_hash" where
  "ext_Remove HashKey key h =
     (let index = getBucketIndex HashKey key h;
          a = mBuckets h ! index;
          b = bucket_heap h ! a in
      if map_of (dataMap b) key = None then (False, h)
      else (True, h\<lparr>bucket_heap := (bucket_heap h)[a := b\<lparr>dataMap := AList.delete key (dataMap b)\<rparr>]\<rparr>))"

text \<open>One round of the loop of \<open>Insert\<close> on a full bucket at address \<open>cur\<close>: the directory doubles when
  the bucket's depth outgrows it, the entries with the new bit set move to a new bucket, and every
  second directory entry of the bucket is redirected.\<close>

definition ext_split :: "('k \<Rightarrow> nat) \<Rightarrow> nat \<Rightarrow> ('k, 'v) ext_hash \<Rightarrow> ('k, 'v) ext_hash" where
  "ext_split HashKey cur h =
     (let b = bucket_heap h ! cur;
          mask = push_bit (localDepth b) 1;
          depth = localDepth b + 1;
          grow = depth > mGlobalDepth h;
          dir = (if grow then mBuckets h @ mBuckets h else mBuckets h);
          old = \<lparr>localDepth = depth, dataMap = filter (\<lambda>e. HashKey (fst e) AND mask = 0) (dataMap b)\<rparr>;
          newBuc = \<lparr>localDepth = depth, dataMap = filter (\<lambda>e. HashKey (fst e) AND mask \<noteq> 0) (dataMap b)\<rparr>;
          a = length (bucket_heap h)
      in h\<lparr>bucket_heap := (bucket_heap h)[cur := old] @ [newBuc],
           mBuckets := map (\<lambda>i. if dir ! i = cur \<and> i AND mask \<noteq> 0 then a else dir ! i) [0..<length dir],
           mGlobalDepth := (if grow then mGlobalDepth h + 1 else mGlobalDepth h),
           mBucketNum := mBucketNum h + 1\<rparr>)"

text \<open>The masks are \<open>int\<close>s: a depth of 31 would shift past the sign bit.\<close>

partial_function (option) ext_Insert ::
  "('k \<Rightarrow> nat) \<Rightarrow> 'k \<Rightarrow> 'v \<Rightarrow> ('k, 'v) ext_hash \<Rightarrow> ('k, 'v) ext_hash option" where
  "ext_Insert HashKey key value h =
     (let a = mBuckets h ! getBucketIndex HashKey key h;
          b = bucket_heap h ! a in
      if map_of (dataMap b) key \<noteq> None then Some h
      else if length (dataMap b) < mBucketSize h
        then Some (h\<lparr>bucket_heap := (bucket_heap h)[a := b\<lparr>dataMap := (key, value) # dataMap b\<rparr>]\<rparr>)
      else if localDepth b \<ge> 31 then None
      else ext_Insert HashKey key value (ext_split HashKey a h))"

section \<open>Bits\<close>

lemma and_mask_mod: "(x::nat) AND (push_bit n 1 - 1) = x mod 2 ^ n"
  by (metis mask_eq_exp_minus_1 push_bit_of_1 take_bit_eq_mask take_bit_eq_mod)

lemma and_push_bit_eq_0: "(x::nat) AND push_bit n 1 = 0 \<longleftrightarrow> \<not> bit x n"
  by (simp add: push_bit_of_1 and_exp_eq_0_iff_not_bit)

lemma bit_mod_nat: "(x::nat) mod 2 ^ Suc n = x mod 2 ^ n + of_bool (bit x n) * 2 ^ n"
  by (metis (no_types) add.commute mult.commute take_bit_Suc_from_most take_bit_eq_mod of_bool_def)

lemma mod_Suc_eq_iff:
  "(x::nat) mod 2 ^ Suc n = y mod 2 ^ Suc n \<longleftrightarrow> x mod 2 ^ n = y mod 2 ^ n \<and> bit x n = bit y n"
proof -
  have "x mod 2 ^ n < 2 ^ n" "y mod 2 ^ n < 2 ^ n" by simp_all
  then have "x mod 2 ^ n + 2 ^ n \<noteq> y mod 2 ^ n" "x mod 2 ^ n \<noteq> y mod 2 ^ n + 2 ^ n" by linarith+
  then show ?thesis by (auto simp: bit_mod_nat simp del: power_Suc)
qed

lemma bit_mod_iff: "n < m \<Longrightarrow> bit ((x::nat) mod 2 ^ m) n \<longleftrightarrow> bit x n"
  by (simp add: bit_take_bit_iff flip: take_bit_eq_mod)

lemma mod_eq_weaken: "(x::nat) mod 2 ^ m = y mod 2 ^ m \<Longrightarrow> n \<le> m \<Longrightarrow> x mod 2 ^ n = y mod 2 ^ n"
  by (metis le_imp_power_dvd mod_mod_cancel)

lemma mod_mod_pow: "n \<le> m \<Longrightarrow> (x::nat) mod 2 ^ m mod 2 ^ n = x mod 2 ^ n"
  by (simp add: le_imp_power_dvd mod_mod_cancel)


lemma getBucketIndex_eq: "getBucketIndex H k h = H k mod 2 ^ mGlobalDepth h"
  by (simp only: getBucketIndex_def and_mask_mod)

section \<open>Invariant\<close>

text \<open>A directory entry leads to a bucket of at most the global depth that holds only keys whose hash
  agrees with the entry on the bucket's depth; two entries share a bucket when they agree on it.\<close>

definition dir_ok ::
  "('k \<Rightarrow> nat) \<Rightarrow> nat \<Rightarrow> nat \<Rightarrow> nat list \<Rightarrow> ('k, 'v) sBucket list \<Rightarrow> bool" where
  "dir_ok H sz g dir heap \<longleftrightarrow> length dir = 2 ^ g \<and> set dir = {..<length heap} \<and>
     (\<forall>i < 2 ^ g. localDepth (heap ! (dir ! i)) \<le> g \<and>
        (\<forall>k \<in> fst ` set (dataMap (heap ! (dir ! i))).
           H k mod 2 ^ localDepth (heap ! (dir ! i)) = i mod 2 ^ localDepth (heap ! (dir ! i)))) \<and>
     (\<forall>i < 2 ^ g. \<forall>j < 2 ^ g. dir ! i = dir ! j \<longleftrightarrow>
        i mod 2 ^ localDepth (heap ! (dir ! i)) = j mod 2 ^ localDepth (heap ! (dir ! i))) \<and>
     (\<forall>b \<in> set heap. distinct (map fst (dataMap b)) \<and> length (dataMap b) \<le> sz)"

definition ext_inv :: "('k \<Rightarrow> nat) \<Rightarrow> ('k, 'v) ext_hash \<Rightarrow> bool" where
  "ext_inv H h \<longleftrightarrow> dir_ok H (mBucketSize h) (mGlobalDepth h) (mBuckets h) (bucket_heap h) \<and>
     mBucketNum h = int (length (bucket_heap h))"

lemma ext_inv_init: "ext_inv H (ext_init sz)"
  by (auto simp: ext_inv_def dir_ok_def ext_init_def)

lemma dir_ok_nth: "dir_ok H sz g dir heap \<Longrightarrow> i < 2 ^ g \<Longrightarrow> dir ! i < length heap"
  unfolding dir_ok_def by (metis lessThan_iff nth_mem)

lemma dir_ok_heap:
  "dir_ok H sz g dir heap \<Longrightarrow> i < 2 ^ g \<Longrightarrow>
   distinct (map fst (dataMap (heap ! (dir ! i)))) \<and> length (dataMap (heap ! (dir ! i))) \<le> sz"
proof -
  assume ok: "dir_ok H sz g dir heap" and "i < 2 ^ g"
  then have "heap ! (dir ! i) \<in> set heap" using dir_ok_nth nth_mem by blast
  with ok show ?thesis unfolding dir_ok_def by blast
qed

lemma dir_ok_keys:
  "dir_ok H sz g dir heap \<Longrightarrow> i < 2 ^ g \<Longrightarrow> k \<in> fst ` set (dataMap (heap ! (dir ! i))) \<Longrightarrow>
   H k mod 2 ^ localDepth (heap ! (dir ! i)) = i mod 2 ^ localDepth (heap ! (dir ! i))"
  unfolding dir_ok_def by blast

text \<open>Doubling the directory.\<close>

lemma dir_ok_grow:
  assumes "dir_ok H sz g dir heap"
  shows "dir_ok H sz (Suc g) (dir @ dir) heap"
proof -
  have len: "length dir = 2 ^ g" using assms by (simp add: dir_ok_def)
  have nth: "(dir @ dir) ! i = dir ! (i mod 2 ^ g)" if "i < 2 ^ Suc g" for i
  proof (cases "i < 2 ^ g")
    case False
    then have "i mod 2 ^ g = i - 2 ^ g" using that by (simp add: le_mod_geq)
    then show ?thesis using False len by (simp add: nth_append)
  qed (simp add: nth_append len)
  have ld: "localDepth (heap ! (dir ! (i mod 2 ^ g))) \<le> g" for i :: nat
    using assms by (simp add: dir_ok_def)
  have m: "i mod 2 ^ g mod 2 ^ localDepth (heap ! (dir ! (j mod 2 ^ g))) =
      i mod 2 ^ localDepth (heap ! (dir ! (j mod 2 ^ g)))" for i j :: nat
    using ld by (rule mod_mod_pow)
  show ?thesis
    unfolding dir_ok_def
  proof (intro conjI allI impI ballI)
    fix i :: nat assume i: "i < 2 ^ Suc g"
    show "localDepth (heap ! ((dir @ dir) ! i)) \<le> Suc g" using nth [OF i] ld [of i] by (simp add: le_SucI)
    fix k assume "k \<in> fst ` set (dataMap (heap ! ((dir @ dir) ! i)))"
    then show "H k mod 2 ^ localDepth (heap ! ((dir @ dir) ! i)) = i mod 2 ^ localDepth (heap ! ((dir @ dir) ! i))"
      using dir_ok_keys [OF assms, of "i mod 2 ^ g" k] nth [OF i] m [of i i] by simp
  next
    fix i j :: nat assume ij: "i < 2 ^ Suc g" "j < 2 ^ Suc g"
    have "dir ! (i mod 2 ^ g) = dir ! (j mod 2 ^ g) \<longleftrightarrow>
      i mod 2 ^ g mod 2 ^ localDepth (heap ! (dir ! (i mod 2 ^ g))) =
      j mod 2 ^ g mod 2 ^ localDepth (heap ! (dir ! (i mod 2 ^ g)))"
      using assms unfolding dir_ok_def by simp
    then show "(dir @ dir) ! i = (dir @ dir) ! j \<longleftrightarrow>
      i mod 2 ^ localDepth (heap ! ((dir @ dir) ! i)) = j mod 2 ^ localDepth (heap ! ((dir @ dir) ! i))"
      using nth [OF ij(1)] nth [OF ij(2)] m [of i i] m [of j i] by simp
  qed (use assms in \<open>auto simp: dir_ok_def\<close>)
qed

text \<open>Splitting a bucket whose depth is below the global depth.\<close>

lemma dir_ok_split:
  assumes ok: "dir_ok H sz g dir heap" and cur: "cur < length heap"
    and ld: "localDepth (heap ! cur) = d" "d < g"
    and dir': "\<And>i. i < 2 ^ g \<Longrightarrow> dir' ! i = (if dir ! i = cur \<and> bit i d then length heap else dir ! i)"
      "length dir' = 2 ^ g"
    and heap': "heap' = heap[cur := \<lparr>localDepth = d + 1, dataMap = filter (\<lambda>e. \<not> bit (H (fst e)) d) (dataMap (heap ! cur))\<rparr>]
       @ [\<lparr>localDepth = d + 1, dataMap = filter (\<lambda>e. bit (H (fst e)) d) (dataMap (heap ! cur))\<rparr>]"
  shows "dir_ok H sz g dir' heap'"
proof -
  note ok1 = ok [unfolded dir_ok_def]
  let ?old = "\<lparr>localDepth = d + 1, dataMap = filter (\<lambda>e. \<not> bit (H (fst e)) d) (dataMap (heap ! cur))\<rparr>"
  let ?new = "\<lparr>localDepth = d + 1, dataMap = filter (\<lambda>e. bit (H (fst e)) d) (dataMap (heap ! cur))\<rparr>"
  have nth: "heap' ! a = (if a = cur then ?old else heap ! a)" if "a < length heap" for a
    using that by (simp add: heap' nth_append)
  have nth_new: "heap' ! length heap = ?new" by (simp add: heap' nth_append)
  have below: "dir ! i < length heap" if "i < 2 ^ g" for i using dir_ok_nth [OF ok that] .
  have keys: "H k mod 2 ^ d = i mod 2 ^ d"
    if "i < 2 ^ g" "dir ! i = cur" "k \<in> fst ` set (dataMap (heap ! cur))" for i k
    using ok1 that ld by blast
  have same: "dir ! j = cur \<longleftrightarrow> i mod 2 ^ d = j mod 2 ^ d" if "i < 2 ^ g" "j < 2 ^ g" "dir ! i = cur" for i j
    using ok1 that ld by metis
  have bucket: "heap' ! (dir' ! i) =
     (if dir ! i = cur then if bit i d then ?new else ?old else heap ! (dir ! i))" if "i < 2 ^ g" for i
    using nth [OF below [OF that]] nth_new dir'(1) [OF that] cur by auto
  have set: "set dir' = {..<length heap'}"
  proof
    show "set dir' \<subseteq> {..<length heap'}"
      using dir' below by (auto simp: set_conv_nth heap' split: if_splits) (meson less_SucI)+
    show "{..<length heap'} \<subseteq> set dir'"
    proof
      fix a assume "a \<in> {..<length heap'}"
      then consider "a = length heap" | "a = cur" | "a < length heap" "a \<noteq> cur"
        by (auto simp: heap' less_Suc_eq)
      then show "a \<in> set dir'"
      proof cases
        case 3
        then have "a \<in> set dir" using ok1 by blast
        then obtain i where "i < 2 ^ g" "dir ! i = a" using ok1 by (metis in_set_conv_nth)
        then have "dir' ! i = a" using dir' 3 by simp
        then show ?thesis using dir'(2) \<open>i < 2 ^ g\<close> by (metis nth_mem)
      next
        case 1
        obtain i where i: "i < 2 ^ g" "dir ! i = cur" using ok1 cur by (metis in_set_conv_nth lessThan_iff)
        let ?j = "(i mod 2 ^ d) + 2 ^ d"
        have "?j < 2 ^ g"
        proof -
          have "?j < 2 ^ d + 2 ^ d" by simp
          also have "\<dots> = 2 ^ Suc d" by simp
          also have "\<dots> \<le> 2 ^ g" using ld(2) by (intro power_increasing) auto
          finally show ?thesis .
        qed
        moreover have "?j mod 2 ^ d = i mod 2 ^ d" by simp
        moreover have "?j div 2 ^ d = 1"
          using div_add_self2 [of "2 ^ d" "i mod 2 ^ d"] by simp
        then have "bit ?j d" by (simp add: bit_iff_odd)
        ultimately have "dir' ! ?j = a" using dir' same [OF i(1) _ i(2), of ?j] 1 by simp
        then show ?thesis using dir'(2) \<open>?j < 2 ^ g\<close> by (metis nth_mem)
      next
        case 2
        obtain i where i: "i < 2 ^ g" "dir ! i = cur" using ok1 cur by (metis in_set_conv_nth lessThan_iff)
        let ?j = "i mod 2 ^ d"
        have "(2::nat) ^ d \<le> 2 ^ g" using ld(2) by (intro power_increasing) auto
        moreover have "?j < 2 ^ d" by simp
        ultimately have "?j < 2 ^ g" by linarith
        moreover have "\<not> bit ?j d" by (simp add: bit_iff_odd)
        ultimately have "dir' ! ?j = a" using dir' same [OF i(1) _ i(2), of ?j] 2 by simp
        then show ?thesis using dir'(2) \<open>?j < 2 ^ g\<close> by (metis nth_mem)
      qed
    qed
  qed
  show ?thesis
    unfolding dir_ok_def
  proof (intro conjI allI impI ballI)
    fix i :: nat assume i: "i < 2 ^ g"
    show "localDepth (heap' ! (dir' ! i)) \<le> g" using bucket [OF i] ok1 i ld by auto
    fix k assume k: "k \<in> fst ` set (dataMap (heap' ! (dir' ! i)))"
    show "H k mod 2 ^ localDepth (heap' ! (dir' ! i)) = i mod 2 ^ localDepth (heap' ! (dir' ! i))"
    proof (cases "dir ! i = cur")
      case True
      then have "k \<in> fst ` set (dataMap (heap ! cur))" "bit (H k) d = bit i d"
        using k bucket [OF i] by (auto split: if_splits)
      then have "H k mod 2 ^ Suc d = i mod 2 ^ Suc d"
        using keys [OF i True] by (simp only: mod_Suc_eq_iff)
      then show ?thesis using bucket [OF i] True by (simp split: if_splits del: power_Suc)
    next
      case False
      then show ?thesis using k bucket [OF i] dir_ok_keys [OF ok i] by simp
    qed
  next
    fix i j :: nat assume i: "i < 2 ^ g" and j: "j < 2 ^ g"
    show "(dir' ! i = dir' ! j) = (i mod 2 ^ localDepth (heap' ! (dir' ! i)) = j mod 2 ^ localDepth (heap' ! (dir' ! i)))"
    proof (cases "dir ! i = cur")
      case True
      then have "localDepth (heap' ! (dir' ! i)) = Suc d" using bucket [OF i] by simp
      moreover have "dir' ! i = dir' ! j \<longleftrightarrow> dir ! j = cur \<and> bit i d = bit j d"
        using dir'(1) [OF i] dir'(1) [OF j] True below [OF j] cur by auto
      ultimately show ?thesis using same [OF i j True] by (simp only: mod_Suc_eq_iff)
    next
      case False
      then have "dir' ! i = dir' ! j \<longleftrightarrow> dir ! i = dir ! j"
        using dir'(1) [OF i] dir'(1) [OF j] below [OF i] by auto
      then show ?thesis using False bucket [OF i] ok1 i j by simp
    qed
  next
    fix b assume "b \<in> set heap'"
    then have "b \<in> set heap \<or> b = ?old \<or> b = ?new"
      using set_update_subset_insert [of heap cur ?old] by (auto simp: heap')
    moreover have "heap ! cur \<in> set heap" using cur by simp
    then have "distinct (map fst (dataMap (heap ! cur)))" "length (dataMap (heap ! cur)) \<le> sz"
      using ok1 by blast+
    ultimately show "distinct (map fst (dataMap b))" "length (dataMap b) \<le> sz"
      using ok1 by (auto simp: distinct_map_filter intro: le_trans [OF length_filter_le])
  qed (use dir' set in auto)
qed

section \<open>The operations\<close>

definition ext_keys :: "('k \<Rightarrow> nat) \<Rightarrow> ('k, 'v) ext_hash \<Rightarrow> 'k set" where
  "ext_keys H h = {k. ext_Find H k h \<noteq> None}"

lemma key_slot: "ext_inv H h \<Longrightarrow> getBucketIndex H k h < 2 ^ mGlobalDepth h"
  by (simp add: getBucketIndex_eq)

lemma ext_inv_dir: "ext_inv H h \<Longrightarrow>
  dir_ok H (mBucketSize h) (mGlobalDepth h) (mBuckets h) (bucket_heap h)"
  by (simp add: ext_inv_def)

lemma length_dir: "ext_inv H h \<Longrightarrow> length (mBuckets h) = 2 ^ mGlobalDepth h"
  by (simp add: ext_inv_def dir_ok_def)

lemma bucket_of_lt: "ext_inv H h \<Longrightarrow> mBuckets h ! getBucketIndex H k h < length (bucket_heap h)"
  using dir_ok_nth [OF ext_inv_dir key_slot] .

text \<open>Changing the entries of one bucket, to ones that still belong there.\<close>

lemma ext_inv_bucket:
  assumes inv: "ext_inv H h" and i: "i < 2 ^ mGlobalDepth h" and a: "a = mBuckets h ! i"
    and m: "distinct (map fst m)" "length m \<le> mBucketSize h"
      "\<And>k. k \<in> fst ` set m \<Longrightarrow> H k mod 2 ^ localDepth (bucket_heap h ! a) = i mod 2 ^ localDepth (bucket_heap h ! a)"
  shows "ext_inv H (h\<lparr>bucket_heap := (bucket_heap h)[a := (bucket_heap h ! a)\<lparr>dataMap := m\<rparr>]\<rparr>)"
proof -
  let ?heap = "(bucket_heap h)[a := (bucket_heap h ! a)\<lparr>dataMap := m\<rparr>]"
  note ok = ext_inv_dir [OF inv]
  have alen: "a < length (bucket_heap h)" using dir_ok_nth [OF ok i] a by simp
  have ld: "localDepth (?heap ! b) = localDepth (bucket_heap h ! b)" for b
    using alen by (simp add: nth_list_update)
  have dm: "dataMap (?heap ! b) = (if b = a then m else dataMap (bucket_heap h ! b))" for b
    using alen by (simp add: nth_list_update)
  have "dir_ok H (mBucketSize h) (mGlobalDepth h) (mBuckets h) ?heap"
    unfolding dir_ok_def ld dm
  proof (intro conjI allI impI ballI)
    fix j k assume j: "j < 2 ^ mGlobalDepth h"
      and k: "k \<in> fst ` set (if mBuckets h ! j = a then m else dataMap (bucket_heap h ! (mBuckets h ! j)))"
    show "H k mod 2 ^ localDepth (bucket_heap h ! (mBuckets h ! j)) =
       j mod 2 ^ localDepth (bucket_heap h ! (mBuckets h ! j))"
    proof (cases "mBuckets h ! j = a")
      case True
      then have "i mod 2 ^ localDepth (bucket_heap h ! a) = j mod 2 ^ localDepth (bucket_heap h ! a)"
        using ok i j a unfolding dir_ok_def by metis
      then show ?thesis using m(3) [of k] k True by simp
    next
      case False
      then show ?thesis using dir_ok_keys [OF ok j] k by simp
    qed
  next
    fix b assume "b \<in> set ?heap"
    then consider "b \<in> set (bucket_heap h)" | "b = (bucket_heap h ! a)\<lparr>dataMap := m\<rparr>"
      using set_update_subset_insert by fastforce
    then show "distinct (map fst (dataMap b))" "length (dataMap b) \<le> mBucketSize h"
      using ok m(1,2) by (cases; auto simp: dir_ok_def)+
  qed (use ok in \<open>auto simp: dir_ok_def\<close>)
  then show ?thesis using inv by (simp add: ext_inv_def)
qed

text \<open>A round of the loop keeps the invariant and every entry, and deepens the key's bucket.\<close>

lemma ext_split_lemma:
  fixes h :: "('k, 'v) ext_hash" and key :: 'k
  assumes inv: "ext_inv H h"
  defines "h' \<equiv> ext_split H (mBuckets h ! getBucketIndex H key h) h"
  defines "b \<equiv> bucket_heap h ! (mBuckets h ! getBucketIndex H key h)"
  shows "ext_inv H h'" and "ext_Find H k h' = ext_Find H k h" and "mBucketSize h' = mBucketSize h"
    and "localDepth (bucket_heap h' ! (mBuckets h' ! getBucketIndex H key h')) = localDepth b + 1"
proof -
  define cur where "cur = mBuckets h ! getBucketIndex H key h"
  define d where "d = localDepth b"
  define grow where "grow \<longleftrightarrow> d + 1 > mGlobalDepth h"
  define g where "g = (if grow then Suc (mGlobalDepth h) else mGlobalDepth h)"
  define dir where "dir = (if grow then mBuckets h @ mBuckets h else mBuckets h)"
  note ok = ext_inv_dir [OF inv]
  have cur: "cur < length (bucket_heap h)" using bucket_of_lt [OF inv] by (simp add: cur_def)
  have "d \<le> mGlobalDepth h" using ok key_slot [OF inv, of key] by (simp add: d_def b_def dir_ok_def)
  then have dg: "d < g" by (auto simp: g_def grow_def)
  have okg: "dir_ok H (mBucketSize h) g dir (bucket_heap h)"
    using ok dir_ok_grow [OF ok] by (simp add: g_def dir_def)
  then have len: "length dir = 2 ^ g" by (simp add: dir_ok_def)
  have h': "mBuckets h' = map (\<lambda>i. if dir ! i = cur \<and> bit i d then length (bucket_heap h) else dir ! i) [0..<length dir]"
    "mGlobalDepth h' = g" "mBucketSize h' = mBucketSize h" "mBucketNum h' = mBucketNum h + 1"
    "bucket_heap h' = (bucket_heap h)[cur := \<lparr>localDepth = d + 1, dataMap = filter (\<lambda>e. \<not> bit (H (fst e)) d) (dataMap (bucket_heap h ! cur))\<rparr>]
       @ [\<lparr>localDepth = d + 1, dataMap = filter (\<lambda>e. bit (H (fst e)) d) (dataMap (bucket_heap h ! cur))\<rparr>]"
    unfolding h'_def ext_split_def Let_def and_push_bit_eq_0 cur_def d_def b_def grow_def g_def dir_def
    by simp_all
  show size: "mBucketSize h' = mBucketSize h" by (rule h'(3))
  have "dir_ok H (mBucketSize h) g (mBuckets h') (bucket_heap h')"
    using dir_ok_split [OF okg cur _ dg _ _ h'(5)] len h'(1) by (simp add: d_def b_def cur_def)
  then show "ext_inv H h'" using inv h' by (simp add: ext_inv_def)
  have slot: "mBuckets h' ! getBucketIndex H k h' =
      (if mBuckets h ! getBucketIndex H k h = cur \<and> bit (H k) d then length (bucket_heap h)
       else mBuckets h ! getBucketIndex H k h)" for k
  proof -
    have "H k mod 2 ^ g < length dir" by (simp add: len)
    moreover have "dir ! (H k mod 2 ^ g) = mBuckets h ! (H k mod 2 ^ mGlobalDepth h)"
    proof (cases grow)
      case True
      let ?G = "mGlobalDepth h"
      have split: "H k mod 2 ^ Suc ?G = H k mod 2 ^ ?G + of_bool (bit (H k) ?G) * 2 ^ ?G"
        by (rule bit_mod_nat)
      show ?thesis
        using True length_dir [OF inv] unfolding dir_def g_def by (simp add: split nth_append del: power_Suc)
    qed (simp add: dir_def g_def)
    moreover have "bit (H k mod 2 ^ g) d \<longleftrightarrow> bit (H k) d" using dg by (rule bit_mod_iff)
    ultimately show ?thesis by (simp add: getBucketIndex_eq h')
  qed
  have bucket: "bucket_heap h' ! (mBuckets h' ! getBucketIndex H k h') =
     (if mBuckets h ! getBucketIndex H k h = cur
      then \<lparr>localDepth = d + 1, dataMap = filter (\<lambda>e. bit (H (fst e)) d = bit (H k) d) (dataMap b)\<rparr>
      else bucket_heap h ! (mBuckets h ! getBucketIndex H k h))" for k
    using cur bucket_of_lt [OF inv, of k]
    by (auto simp: slot h'(5) nth_append nth_list_update b_def simp flip: cur_def)
  show "localDepth (bucket_heap h' ! (mBuckets h' ! getBucketIndex H key h')) = localDepth b + 1"
    using bucket [of key] by (simp add: d_def flip: cur_def)
  have "map_of (filter (\<lambda>e. bit (H (fst e)) d = bit (H k) d) xs) k = map_of xs k" for xs :: "('k \<times> 'v) list"
    by (induction xs) auto
  then show "ext_Find H k h' = ext_Find H k h"
    using bucket [of k] by (auto simp: ext_Find_def Let_def b_def cur_def)
qed

text \<open>\<open>Find\<close>, \<open>Remove\<close> and \<open>Insert\<close> are those of a finite map, except that \<open>Insert\<close> keeps the old
  value of a key that is there.\<close>

theorem ext_Remove_spec:
  assumes inv: "ext_inv H h" and rem: "ext_Remove H key h = (found, h')"
  shows "ext_inv H h'" and "found \<longleftrightarrow> ext_Find H key h \<noteq> None"
    and "ext_Find H k h' = (if k = key then None else ext_Find H k h)"
proof -
  define i where "i = getBucketIndex H key h"
  define a where "a = mBuckets h ! i"
  note ok = ext_inv_dir [OF inv] and i = key_slot [OF inv, of key, folded i_def]
  have find: "ext_Find H key h = map_of (dataMap (bucket_heap h ! a)) key"
    by (simp add: ext_Find_def a_def i_def Let_def)
  have alen: "a < length (bucket_heap h)" using bucket_of_lt [OF inv, of key] by (simp add: a_def i_def)
  show "ext_inv H h'" and "found \<longleftrightarrow> ext_Find H key h \<noteq> None"
    and "ext_Find H k h' = (if k = key then None else ext_Find H k h)"
  proof (atomize (full), cases "map_of (dataMap (bucket_heap h ! a)) key")
    case None
    then show "ext_inv H h' \<and> found = (ext_Find H key h \<noteq> None) \<and>
      ext_Find H k h' = (if k = key then None else ext_Find H k h)"
      using rem inv find by (auto simp: ext_Remove_def Let_def simp flip: i_def a_def)
  next
    case (Some v)
    let ?m = "AList.delete key (dataMap (bucket_heap h ! a))"
    have h': "found" "h' = h\<lparr>bucket_heap := (bucket_heap h)[a := (bucket_heap h ! a)\<lparr>dataMap := ?m\<rparr>]\<rparr>"
      using rem Some by (auto simp: ext_Remove_def Let_def simp flip: i_def a_def)
    have "ext_inv H h'"
      unfolding h'(2)
    proof (rule ext_inv_bucket [OF inv i a_def])
      show "distinct (map fst ?m)" using dir_ok_heap [OF ok i] by (simp add: distinct_delete a_def)
      have "length ?m \<le> length (dataMap (bucket_heap h ! a))" by (rule length_delete_le)
      then show "length ?m \<le> mBucketSize h" using dir_ok_heap [OF ok i] by (simp add: a_def)
      fix k assume "k \<in> fst ` set ?m"
      then have "k \<in> fst ` set (dataMap (bucket_heap h ! a))" by (rule subsetD [OF dom_delete_subset])
      then show "H k mod 2 ^ localDepth (bucket_heap h ! a) = i mod 2 ^ localDepth (bucket_heap h ! a)"
        using dir_ok_keys [OF ok i] by (simp add: a_def)
    qed
    moreover have "ext_Find H k h' = (if k = key then None else ext_Find H k h)"
      using alen find
      by (auto simp: ext_Find_def h'(2) getBucketIndex_def Let_def nth_list_update delete_conv' a_def i_def)
    ultimately show "ext_inv H h' \<and> found = (ext_Find H key h \<noteq> None) \<and>
      ext_Find H k h' = (if k = key then None else ext_Find H k h)"
      using h'(1) Some find by simp
  qed
qed

lemma ext_Insert_spec:
  assumes "ext_inv H h" and "ext_Insert H key v h = Some h'"
  shows "ext_inv H h' \<and> mBucketSize h' = mBucketSize h \<and>
    (\<forall>k. ext_Find H k h' = (if k = key \<and> ext_Find H key h = None then Some v else ext_Find H k h))"
  using assms
proof (induction "31 - localDepth (bucket_heap h ! (mBuckets h ! getBucketIndex H key h))"
    arbitrary: h rule: less_induct)
  case less
  define i where "i = getBucketIndex H key h"
  define a where "a = mBuckets h ! i"
  define b where "b = bucket_heap h ! a"
  note inv = less.prems(1)
  note ok = ext_inv_dir [OF inv] and i = key_slot [OF inv, of key, folded i_def]
  have find: "ext_Find H key h = map_of (dataMap b) key"
    by (simp add: ext_Find_def a_def i_def b_def Let_def)
  have ins: "ext_Insert H key v h = (if map_of (dataMap b) key \<noteq> None then Some h
      else if length (dataMap b) < mBucketSize h
        then Some (h\<lparr>bucket_heap := (bucket_heap h)[a := b\<lparr>dataMap := (key, v) # dataMap b\<rparr>]\<rparr>)
      else if localDepth b \<ge> 31 then None
      else ext_Insert H key v (ext_split H a h))"
    by (subst ext_Insert.simps) (simp add: Let_def a_def b_def i_def)
  consider (old) "map_of (dataMap b) key \<noteq> None"
    | (room) "map_of (dataMap b) key = None" "length (dataMap b) < mBucketSize h"
    | (full) "map_of (dataMap b) key = None" "\<not> length (dataMap b) < mBucketSize h" by blast
  then show ?case
  proof cases
    case old
    then show ?thesis using less.prems ins find by auto
  next
    case room
    have alen: "a < length (bucket_heap h)" using bucket_of_lt [OF inv, of key] by (simp add: a_def i_def)
    have h': "h' = h\<lparr>bucket_heap := (bucket_heap h)[a := b\<lparr>dataMap := (key, v) # dataMap b\<rparr>]\<rparr>"
      using less.prems(2) room ins by simp
    have "ext_inv H h'"
      unfolding h' b_def
    proof (rule ext_inv_bucket [OF inv i a_def])
      show "distinct (map fst ((key, v) # dataMap (bucket_heap h ! a)))"
        using dir_ok_heap [OF ok i] room(1) by (simp add: a_def b_def map_of_eq_None_iff)
      show "length ((key, v) # dataMap (bucket_heap h ! a)) \<le> mBucketSize h"
        using room(2) by (simp add: b_def)
      fix k assume "k \<in> fst ` set ((key, v) # dataMap (bucket_heap h ! a))"
      then consider "k = key" | "k \<in> fst ` set (dataMap (bucket_heap h ! a))" by auto
      then show "H k mod 2 ^ localDepth (bucket_heap h ! a) = i mod 2 ^ localDepth (bucket_heap h ! a)"
      proof cases
        case 1
        have "localDepth (bucket_heap h ! a) \<le> mGlobalDepth h" using ok i by (simp add: dir_ok_def a_def)
        then show ?thesis using 1 by (simp add: i_def getBucketIndex_eq mod_mod_pow)
      next
        case 2
        then show ?thesis using dir_ok_keys [OF ok i] by (simp add: a_def)
      qed
    qed
    moreover have "ext_Find H k h' = (if k = key then Some v else ext_Find H k h)" for k
      using alen by (auto simp: ext_Find_def h' getBucketIndex_def Let_def nth_list_update a_def i_def b_def)
    ultimately show ?thesis using room(1) find h' by auto
  next
    case full
    then have d: "\<not> localDepth b \<ge> 31" and rec: "ext_Insert H key v (ext_split H a h) = Some h'"
      using less.prems(2) ins by (auto split: if_splits)
    note sp = ext_split_lemma [OF inv, where key = key, folded i_def, folded a_def, folded b_def]
    have "31 - localDepth (bucket_heap (ext_split H a h) !
         (mBuckets (ext_split H a h) ! getBucketIndex H key (ext_split H a h))) < 31 - localDepth b"
      using sp(4) d by simp
    then show ?thesis
      using less.hyps [OF _ sp(1) rec] sp(2,3) by (simp add: a_def b_def i_def)
  qed
qed

text \<open>\<open>Insert\<close> returns when buckets hold at least one entry and the low 31 bits of the hash tell the
  keys apart.\<close>

lemma ext_Insert_total:
  assumes "ext_inv H h" and "0 < mBucketSize h"
    and "inj_on (\<lambda>k. H k mod 2 ^ 31) (insert key (ext_keys H h))"
  shows "\<exists>h'. ext_Insert H key v h = Some h'"
  using assms
proof (induction "31 - localDepth (bucket_heap h ! (mBuckets h ! getBucketIndex H key h))"
    arbitrary: h rule: less_induct)
  case less
  define i where "i = getBucketIndex H key h"
  define a where "a = mBuckets h ! i"
  define b where "b = bucket_heap h ! a"
  note inv = less.prems(1)
  note ok = ext_inv_dir [OF inv] and i = key_slot [OF inv, of key, folded i_def]
  note sp = ext_split_lemma [OF inv, where key = key, folded i_def, folded a_def, folded b_def]
  have ins: "ext_Insert H key v h = (if map_of (dataMap b) key \<noteq> None then Some h
      else if length (dataMap b) < mBucketSize h
        then Some (h\<lparr>bucket_heap := (bucket_heap h)[a := b\<lparr>dataMap := (key, v) # dataMap b\<rparr>]\<rparr>)
      else if localDepth b \<ge> 31 then None
      else ext_Insert H key v (ext_split H a h))"
    by (subst ext_Insert.simps) (simp add: Let_def a_def b_def i_def)
  show ?case
  proof (cases "map_of (dataMap b) key \<noteq> None \<or> length (dataMap b) < mBucketSize h")
    case False
    have "localDepth b < 31"
    proof (rule ccontr)
      assume d: "\<not> localDepth b < 31"
      have "dataMap b \<noteq> []" using False less.prems(2) by auto
      then obtain k where k: "k \<in> fst ` set (dataMap b)" by (cases "dataMap b") auto
      have ld: "localDepth b \<le> mGlobalDepth h" using ok i by (simp add: dir_ok_def a_def b_def)
      have "H k mod 2 ^ localDepth b = i mod 2 ^ localDepth b"
        using dir_ok_keys [OF ok i] k by (simp add: a_def b_def)
      then have eq: "H k mod 2 ^ localDepth b = H key mod 2 ^ localDepth b"
        using ld by (simp add: i_def getBucketIndex_eq mod_mod_pow)
      then have "H k mod 2 ^ 31 = H key mod 2 ^ 31" using d by (intro mod_eq_weaken [OF eq]) simp
      moreover have "k \<in> ext_keys H h"
      proof -
        have g: "i mod 2 ^ localDepth b = H k mod 2 ^ mGlobalDepth h mod 2 ^ localDepth b"
          using eq ld by (simp add: i_def getBucketIndex_eq mod_mod_pow)
        have "mBuckets h ! (H k mod 2 ^ mGlobalDepth h) = a"
        proof -
          have "H k mod 2 ^ mGlobalDepth h < 2 ^ mGlobalDepth h" by simp
          then show ?thesis using ok i g unfolding dir_ok_def a_def b_def by metis
        qed
        then have "ext_Find H k h = map_of (dataMap b) k"
          by (simp add: ext_Find_def getBucketIndex_eq Let_def b_def)
        then show ?thesis using k by (metis (mono_tags) ext_keys_def map_of_eq_None_iff mem_Collect_eq)
      qed
      ultimately have "k = key" by (intro inj_onD [OF less.prems(3)]) auto
      then show False using k False by (auto simp: map_of_eq_None_iff)
    qed
    moreover from this have "31 - localDepth (bucket_heap (ext_split H a h) !
         (mBuckets (ext_split H a h) ! getBucketIndex H key (ext_split H a h))) < 31 - localDepth b"
      using sp(4) by simp
    moreover have "ext_keys H (ext_split H a h) = ext_keys H h"
      using sp(2) by (simp add: ext_keys_def)
    ultimately have "\<exists>h'. ext_Insert H key v (ext_split H a h) = Some h'"
      using less.prems less.hyps [OF _ sp(1)] sp(3) by (simp add: a_def b_def i_def)
    then show ?thesis using ins False \<open>localDepth b < 31\<close> by auto
  qed (use ins in auto)
qed

section \<open>The contract of a hash table\<close>

text \<open>
  What the clients of \<open>hash/hash_table.h\<close> rely on: the table is a partial map, insertion adds a
  missing key when it returns, and it returns for every key the table accepts (\<open>fits\<close>).
\<close>

locale hash_table =
  fixes inv :: "'h \<Rightarrow> bool"
    and fits :: "'k \<Rightarrow> 'h \<Rightarrow> bool"
    and find :: "'k \<Rightarrow> 'h \<Rightarrow> 'v option"
    and insert_h :: "'k \<Rightarrow> 'v \<Rightarrow> 'h \<Rightarrow> 'h option"
    and remove_h :: "'k \<Rightarrow> 'h \<Rightarrow> bool \<times> 'h"
  assumes insert_inv: "inv h \<Longrightarrow> insert_h k v h = Some h' \<Longrightarrow> inv h'"
    and insert_find: "inv h \<Longrightarrow> insert_h k v h = Some h' \<Longrightarrow>
      find k' h' = (if k' = k \<and> find k h = None then Some v else find k' h)"
    and insert_total: "inv h \<Longrightarrow> fits k h \<Longrightarrow> \<exists>h'. insert_h k v h = Some h'"
    and remove_inv: "inv h \<Longrightarrow> remove_h k h = (found, h') \<Longrightarrow> inv h'"
    and remove_find: "inv h \<Longrightarrow> remove_h k h = (found, h') \<Longrightarrow>
      find k' h' = (if k' = k then None else find k' h)"
    and remove_found: "inv h \<Longrightarrow> remove_h k h = (found, h') \<Longrightarrow> found \<longleftrightarrow> find k h \<noteq> None"
begin

text \<open>Removing the old entry first makes an insertion an update: how the buffer pool uses the table.\<close>

lemma rebind:
  assumes "inv h" and "remove_h k0 h = (found, h1)" and "insert_h k v h1 = Some h2"
    and "find k h = None \<or> k = k0"
  shows "inv h2" and "find k' h2 = (if k' = k then Some v else if k' = k0 then None else find k' h)"
  using assms remove_inv [of h k0 found h1] remove_find [of h k0 found h1]
    insert_inv [of h1 k v h2] insert_find [of h1 k v h2]
  by auto

lemma insert_present: "inv h \<Longrightarrow> insert_h k v h = Some h' \<Longrightarrow> find k h = Some w \<Longrightarrow> find k' h' = find k' h"
  by (simp add: insert_find)

lemma insert_remove_find:
  "inv h \<Longrightarrow> find k h = None \<Longrightarrow> insert_h k v h = Some h1 \<Longrightarrow> remove_h k h1 = (found, h2) \<Longrightarrow>
   found \<and> find k' h2 = find k' h"
  using insert_inv [of h k v h1] insert_find [of h k v h1] remove_find [of h1 k found h2]
    remove_found [of h1 k found h2] by auto

end

definition ext_fits :: "('k \<Rightarrow> nat) \<Rightarrow> 'k \<Rightarrow> ('k, 'v) ext_hash \<Rightarrow> bool" where
  "ext_fits H k h \<longleftrightarrow> 0 < mBucketSize h \<and> inj_on (\<lambda>k. H k mod 2 ^ 31) (insert k (ext_keys H h))"

interpretation ext: hash_table "ext_inv H" "ext_fits H" "ext_Find H" "ext_Insert H" "ext_Remove H" for H
proof unfold_locales
  fix h h' :: "('a, 'b) ext_hash" and k k' v found
  show "ext_inv H h'" if "ext_inv H h" "ext_Insert H k v h = Some h'"
    using ext_Insert_spec [OF that] by blast
  show "ext_Find H k' h' = (if k' = k \<and> ext_Find H k h = None then Some v else ext_Find H k' h)"
    if "ext_inv H h" "ext_Insert H k v h = Some h'"
    using ext_Insert_spec [OF that] by blast
  show "\<exists>h'. ext_Insert H k v h = Some h'" if "ext_inv H h" "ext_fits H k h"
    using that unfolding ext_fits_def by (blast intro: ext_Insert_total)
  show "ext_inv H h'" if "ext_inv H h" "ext_Remove H k h = (found, h')"
    using ext_Remove_spec(1) [OF that] .
  show "ext_Find H k' h' = (if k' = k then None else ext_Find H k' h)"
    if "ext_inv H h" "ext_Remove H k h = (found, h')"
    using ext_Remove_spec(3) [OF that] .
  show "found = (ext_Find H k h \<noteq> None)" if "ext_inv H h" "ext_Remove H k h = (found, h')"
    using ext_Remove_spec(2) [OF that] .
qed

section \<open>Whole runs\<close>

datatype ('k, 'v) ext_call = CallFind 'k | CallInsert 'k 'v | CallRemove 'k

datatype 'v ext_reply = Found "'v option" | Inserted | Removed bool

fun call_key :: "('k, 'v) ext_call \<Rightarrow> 'k" where
  "call_key (CallFind k) = k"
| "call_key (CallInsert k v) = k"
| "call_key (CallRemove k) = k"

fun ext_step :: "('k \<Rightarrow> nat) \<Rightarrow> ('k, 'v) ext_call \<Rightarrow> ('k, 'v) ext_hash \<Rightarrow> ('v ext_reply \<times> ('k, 'v) ext_hash) option" where
  "ext_step H (CallFind k) h = Some (Found (ext_Find H k h), h)"
| "ext_step H (CallInsert k v) h = map_option (Pair Inserted) (ext_Insert H k v h)"
| "ext_step H (CallRemove k) h = (let (b, h') = ext_Remove H k h in Some (Removed b, h'))"

fun map_call :: "('k, 'v) ext_call \<Rightarrow> ('k \<Rightarrow> 'v option) \<Rightarrow> 'v ext_reply \<times> ('k \<Rightarrow> 'v option)" where
  "map_call (CallFind k) m = (Found (m k), m)"
| "map_call (CallInsert k v) m = (Inserted, if m k = None then m(k \<mapsto> v) else m)"
| "map_call (CallRemove k) m = (Removed (m k \<noteq> None), m(k := None))"

fun ext_run :: "('k \<Rightarrow> nat) \<Rightarrow> ('k, 'v) ext_call list \<Rightarrow> ('k, 'v) ext_hash \<Rightarrow> 'v ext_reply list option" where
  "ext_run H [] h = Some []"
| "ext_run H (c # cs) h = (case ext_step H c h of None \<Rightarrow> None
     | Some (r, h') \<Rightarrow> map_option (\<lambda>rs. r # rs) (ext_run H cs h'))"

fun map_run :: "('k, 'v) ext_call list \<Rightarrow> ('k \<Rightarrow> 'v option) \<Rightarrow> 'v ext_reply list" where
  "map_run [] m = []"
| "map_run (c # cs) m = (let (r, m') = map_call c m in r # map_run cs m')"

lemma ext_Remove_size: "ext_Remove H k h = (b, h') \<Longrightarrow> mBucketSize h' = mBucketSize h"
  by (auto simp: ext_Remove_def Let_def split: if_splits)

lemma ext_step_refines:
  assumes inv: "ext_inv H h" and size: "0 < mBucketSize h"
    and keys: "dom (\<lambda>k. ext_Find H k h) \<subseteq> K" "call_key c \<in> K" and inj: "inj_on (\<lambda>k. H k mod 2 ^ 31) K"
  shows "\<exists>h'. ext_step H c h = Some (fst (map_call c (\<lambda>k. ext_Find H k h)), h') \<and> ext_inv H h' \<and> 0 < mBucketSize h' \<and>
    (\<lambda>k. ext_Find H k h') = snd (map_call c (\<lambda>k. ext_Find H k h))"
proof (cases c)
  case (CallFind k)
  then show ?thesis using inv size by simp
next
  case (CallInsert k v)
  have "insert k (ext_keys H h) \<subseteq> K" using keys CallInsert by (auto simp: ext_keys_def)
  then have "ext_fits H k h" unfolding ext_fits_def using size inj_on_subset [OF inj] by blast
  then obtain h' where h': "ext_Insert H k v h = Some h'" using ext.insert_total [OF inv] by blast
  show ?thesis using ext_Insert_spec [OF inv h'] size h' CallInsert by (auto simp: fun_eq_iff)
next
  case (CallRemove k)
  obtain b h' where h': "ext_Remove H k h = (b, h')" by fastforce
  show ?thesis
    using ext_Remove_spec [OF inv h'] ext_Remove_size [OF h'] size CallRemove h' by (auto simp: fun_eq_iff)
qed

lemma dom_map_call: "dom m \<subseteq> K \<Longrightarrow> call_key c \<in> K \<Longrightarrow> dom (snd (map_call c m)) \<subseteq> K"
  by (cases c) (auto split: if_splits)

lemma ext_run_refines:
  assumes "ext_inv H h" and "0 < mBucketSize h" and "dom (\<lambda>k. ext_Find H k h) \<subseteq> K"
    and "call_key ` set cs \<subseteq> K" and inj: "inj_on (\<lambda>k. H k mod 2 ^ 31) K"
  shows "ext_run H cs h = Some (map_run cs (\<lambda>k. ext_Find H k h))"
  using assms(1-4)
proof (induction cs arbitrary: h)
  case (Cons c cs)
  let ?m = "\<lambda>k. ext_Find H k h"
  have c: "call_key c \<in> K" "call_key ` set cs \<subseteq> K" using Cons.prems(4) by auto
  from ext_step_refines [OF Cons.prems(1-3) c(1) inj]
  obtain h' where h': "ext_step H c h = Some (fst (map_call c ?m), h')" "ext_inv H h'" "0 < mBucketSize h'"
    "(\<lambda>k. ext_Find H k h') = snd (map_call c ?m)" by auto
  have "dom (\<lambda>k. ext_Find H k h') \<subseteq> K" using dom_map_call [OF Cons.prems(3) c(1)] h'(4) by simp
  from Cons.IH [OF h'(2,3) this c(2)] show ?case using h'(1,4) by (simp add: split_beta)
qed simp

lemma ext_Find_init: "ext_Find H k (ext_init n) = None"
  by (simp add: ext_Find_def ext_init_def getBucketIndex_eq)

text \<open>C8. Every sequence of calls on a fresh table returns and answers as a partial map does in which
  an insertion keeps an entry that is there, when the low 31 bits of the hashes tell the keys apart.\<close>

theorem ext_runs_as_map:
  assumes "0 < n" and "inj_on (\<lambda>k. H k mod 2 ^ 31) (call_key ` set cs)"
  shows "ext_run H cs (ext_init n) = Some (map_run cs Map.empty)"
proof -
  have "0 < mBucketSize (ext_init n :: ('a, 'b) ext_hash)" using assms(1) by (simp add: ext_init_def)
  from ext_run_refines [OF ext_inv_init this _ subset_refl assms(2)] show ?thesis
    by (simp add: ext_Find_init)
qed

theorem ext_runs_as_map_witness:
  "ext_run (\<lambda>k. k) [CallInsert 1 ''a'', CallInsert 3 ''b'', CallInsert 1 ''c'', CallFind (1::nat), CallRemove 3]
     (ext_init 1) = Some [Inserted, Inserted, Inserted, Found (Some ''a''), Removed True]"
proof -
  let ?cs = "[CallInsert 1 ''a'', CallInsert 3 ''b'', CallInsert 1 ''c'', CallFind (1::nat), CallRemove 3]"
  have "inj_on (\<lambda>k. k mod 2 ^ 31) (call_key ` set ?cs)" by (simp add: inj_on_def)
  with ext_runs_as_map [of 1 "\<lambda>k. k" ?cs] show ?thesis by simp
qed

end
