(* ===== verification/Disk.thy ===== *)
theory Disk imports Base "HOL-Library.Word" begin

text \<open>
  The disk manager (\<open>disk/disk_manager.cpp\<close>, \<open>include/disk/disk_manager.h\<close>): the database file
  and the log file as byte sequences, and the state of the stream the database file is accessed
  through.  A stream whose fail bit is set ignores every seek and write and reads nothing; the code
  clears it for the log file only.
\<close>

type_synonym byte = "8 word"

record disk =
  db_file :: "byte list"
  db_good :: bool
  log_file :: "byte list"
  next_page_id_m :: page_id
  num_flushes :: int
  flush_log :: bool
  flush_log_f :: "bool option"
  buffer_used :: "nat option"

text \<open>The constructor on files it created.\<close>

definition disk_init :: disk where
  "disk_init = \<lparr>db_file = [], db_good = True, log_file = [], next_page_id_m = 0, num_flushes = 0,
     flush_log = False, flush_log_f = None, buffer_used = None\<rparr>"

text \<open>The byte offset of a page, an \<open>int\<close> product.\<close>

definition page_offset :: "page_id \<Rightarrow> int option" where
  "page_offset p = (let off = p * PAGE_SIZE in if in_range_s 32 off then Some off else None)"

text \<open>Writing bytes at an offset; a gap after the old end of the file reads as zeros.\<close>

definition file_write :: "nat \<Rightarrow> byte list \<Rightarrow> byte list \<Rightarrow> byte list" where
  "file_write off bs f =
     take off f @ replicate (off - length f) 0 @ bs @ drop (off + length bs) f"

definition WritePage :: "page_id \<Rightarrow> byte list \<Rightarrow> disk \<Rightarrow> disk option" where
  "WritePage p page_data d =
     do { off \<leftarrow> page_offset p;
          Some (if \<not> db_good d then d
                else if off < 0 then d\<lparr>db_good := False\<rparr>
                else d\<lparr>db_file := file_write (nat off) (take (nat PAGE_SIZE) page_data) (db_file d)\<rparr>) }"

text \<open>\<open>ReadPage\<close> into a page buffer: beyond the end of the file the buffer keeps what it held; a
  short read zeroes the rest of the buffer and leaves the stream failed.\<close>

definition ReadPage :: "page_id \<Rightarrow> byte list \<Rightarrow> disk \<Rightarrow> (byte list \<times> disk) option" where
  "ReadPage p page_data d =
     do { off \<leftarrow> page_offset p;
          Some (if off > int (length (db_file d)) then (page_data, d)
                else
                  let good = (db_good d \<and> off \<ge> 0);
                      got = (if good then take (nat PAGE_SIZE) (drop (nat off) (db_file d)) else []);
                      read_count = int (length got) in
                  if read_count < PAGE_SIZE
                  then (got @ replicate (nat (PAGE_SIZE - read_count)) 0, d\<lparr>db_good := False\<rparr>)
                  else (got, d)) }"

text \<open>\<open>WriteLog\<close>: the caller must alternate between two buffers, and a flush in progress must be
  ready within ten seconds (the argument \<open>flush_log_f\<close>).\<close>

definition WriteLog :: "nat \<Rightarrow> byte list \<Rightarrow> int \<Rightarrow> disk \<Rightarrow> disk option" where
  "WriteLog buffer log_data sz d =
     do { _ \<leftarrow> assert_that (Some buffer \<noteq> buffer_used d);
          let d = d\<lparr>buffer_used := Some buffer\<rparr>;
          if sz = 0 then Some d
          else
            do { let d = d\<lparr>flush_log := True\<rparr>;
                 _ \<leftarrow> assert_that (flush_log_f d = None \<or> flush_log_f d = Some True);
                 Some (d\<lparr>num_flushes := num_flushes d + 1,
                         log_file := log_file d @ take (nat sz) log_data,
                         flush_log := False\<rparr>) } }"

text \<open>\<open>ReadLog\<close> answers \<open>None\<close> for false, at the end of the log.\<close>

definition ReadLog :: "int \<Rightarrow> int \<Rightarrow> disk \<Rightarrow> byte list option" where
  "ReadLog sz offset d =
     (if offset \<ge> int (length (log_file d)) then None
      else let got = take (nat sz) (drop (nat offset) (log_file d)) in
           Some (got @ replicate (nat sz - length got) 0))"

definition AllocatePage :: "disk \<Rightarrow> page_id \<times> disk" where
  "AllocatePage d = (next_page_id_m d, d\<lparr>next_page_id_m := next_page_id_m d + 1\<rparr>)"

definition DeallocatePage :: "page_id \<Rightarrow> disk \<Rightarrow> disk" where
  "DeallocatePage p d = d"

definition GetNumFlushes :: "disk \<Rightarrow> int" where
  "GetNumFlushes d = num_flushes d"

definition GetFlushState :: "disk \<Rightarrow> bool" where
  "GetFlushState d = flush_log d"

section \<open>Reading back what was written\<close>

text \<open>The page a file holds at an id, when it holds all of it.\<close>

definition on_disk :: "page_id \<Rightarrow> disk \<Rightarrow> byte list option" where
  "on_disk p d =
     (if 0 \<le> p \<and> (p + 1) * PAGE_SIZE \<le> int (length (db_file d))
      then Some (take (nat PAGE_SIZE) (drop (nat (p * PAGE_SIZE)) (db_file d))) else None)"

definition page_ok :: "page_id \<Rightarrow> bool" where
  "page_ok p \<longleftrightarrow> 0 \<le> p \<and> p < 2 ^ 22"

lemma page_offset_ok: "page_ok p \<Longrightarrow> page_offset p = Some (p * PAGE_SIZE)"
  by (simp add: page_ok_def page_offset_def in_range_s_def config_defs)

lemma length_file_write: "length (file_write off bs f) = max (length f) (off + length bs)"
  by (simp add: file_write_def)

lemma file_write_nth:
  assumes "i < max (length f) (off + length bs)"
  shows "file_write off bs f ! i =
    (if i < off then (if i < length f then f ! i else 0)
     else if i < off + length bs then bs ! (i - off) else f ! i)"
  using assms by (auto simp: file_write_def nth_append min_def)

lemma file_write_same: "take (length bs) (drop off (file_write off bs f)) = bs"
  by (rule nth_equalityI) (auto simp: length_file_write file_write_nth)

lemma file_write_other:
  assumes "o' + n \<le> off \<or> off + length bs \<le> o'" and "o' + n \<le> length f"
  shows "take n (drop o' (file_write off bs f)) = take n (drop o' f)"
proof (rule nth_equalityI)
  show "length (take n (drop o' (file_write off bs f))) = length (take n (drop o' f))"
    using assms(2) by (simp add: length_file_write)
next
  fix i assume "i < length (take n (drop o' (file_write off bs f)))"
  then have "i < n" by simp
  then show "take n (drop o' (file_write off bs f)) ! i = take n (drop o' f) ! i"
    using assms by (auto simp: length_file_write file_write_nth)
qed

lemma on_disk_bounds:
  "on_disk p d = Some bs \<Longrightarrow> 0 \<le> p \<and> (p + 1) * PAGE_SIZE \<le> int (length (db_file d)) \<and>
   bs = take (nat PAGE_SIZE) (drop (nat (p * PAGE_SIZE)) (db_file d))"
  by (simp add: on_disk_def split: if_splits)

lemma length_on_disk: "on_disk p d = Some bs \<Longrightarrow> length bs = 512"
  by (drule on_disk_bounds) (auto simp: config_defs)

theorem ReadPage_on_disk:
  assumes "page_ok p" and "db_good d" and "on_disk p d = Some bs"
  shows "ReadPage p buf d = Some (bs, d)"
proof -
  note b = on_disk_bounds [OF assms(3)]
  have "\<not> int (length (db_file d)) < p * PAGE_SIZE" "0 \<le> p * PAGE_SIZE"
    using b by (auto simp: config_defs)
  moreover have "length bs = 512" using length_on_disk [OF assms(3)] .
  ultimately show ?thesis
    using b assms(1,2) by (simp add: ReadPage_def page_offset_ok Let_def) (simp add: config_defs)
qed

theorem WritePage_on_disk:
  assumes "page_ok p" and "db_good d" and "length bs = 512"
  obtains d' where "WritePage p bs d = Some d'" and "db_good d'"
    and "next_page_id_m d' = next_page_id_m d"
    and "on_disk p d' = Some bs" and "\<And>q. q \<noteq> p \<Longrightarrow> on_disk q d \<noteq> None \<Longrightarrow> on_disk q d' = on_disk q d"
proof -
  define off where "off = nat (p * PAGE_SIZE)"
  have off: "p * PAGE_SIZE = int off" "off = nat p * 512"
    using assms(1) by (auto simp: off_def page_ok_def config_defs)
  define d' where "d' = d\<lparr>db_file := file_write off bs (db_file d)\<rparr>"
  have w: "WritePage p bs d = Some d'"
    using assms off(1) by (simp add: WritePage_def page_offset_ok d'_def config_defs)
  have "on_disk p d' = Some bs"
  proof -
    have "(p + 1) * PAGE_SIZE \<le> int (length (db_file d'))"
    proof -
      have "(p + 1) * PAGE_SIZE = int (off + 512)" using off(1) by (simp add: algebra_simps config_defs)
      moreover have "off + 512 \<le> length (db_file d')" using assms(3) by (simp add: d'_def length_file_write)
      ultimately show ?thesis by (metis of_nat_le_iff)
    qed
    moreover have "take (nat PAGE_SIZE) (drop off (db_file d')) = bs"
      using file_write_same [of bs off "db_file d"] assms(3) by (simp add: d'_def config_defs)
    ultimately show ?thesis using assms(1) by (simp add: on_disk_def page_ok_def flip: off_def)
  qed
  moreover have "on_disk q d' = on_disk q d" if q: "q \<noteq> p" "on_disk q d \<noteq> None" for q
  proof -
    have b: "0 \<le> q" "(q + 1) * PAGE_SIZE \<le> int (length (db_file d))"
      using q by (auto simp: on_disk_def split: if_splits)
    define o' where "o' = nat (q * PAGE_SIZE)"
    have o': "q * PAGE_SIZE = int o'" "o' = nat q * 512" using b(1) by (simp_all add: o'_def config_defs)
    have fit: "o' + 512 \<le> length (db_file d)" using b o' by (simp add: algebra_simps config_defs)
    have "nat q \<noteq> nat p" using q(1) b(1) assms(1) by (simp add: page_ok_def eq_nat_nat_iff)
    then have "o' + 512 \<le> off \<or> off + length bs \<le> o'"
      using o'(2) off(2) assms(3) by linarith
    then have "take 512 (drop o' (db_file d')) = take 512 (drop o' (db_file d))"
      using fit unfolding d'_def by (simp add: file_write_other)
    moreover have "(q + 1) * PAGE_SIZE \<le> int (length (db_file d'))"
      using b(2) by (simp add: d'_def length_file_write)
    ultimately show ?thesis using b by (simp add: on_disk_def flip: o'_def) (simp add: config_defs)
  qed
  ultimately show ?thesis using w assms(2) by (intro that [of d']) (auto simp: d'_def)
qed

text \<open>Reading at the end of the file leaves the stream failed, and every later write is lost.\<close>

lemma ReadPage_at_end:
  assumes "page_ok p" and "p * PAGE_SIZE = int (length (db_file d))"
  shows "ReadPage p buf d = Some (replicate 512 0, d\<lparr>db_good := False\<rparr>)"
  using assms by (simp add: ReadPage_def page_offset_ok Let_def config_defs)

lemma WritePage_failed: "page_ok p \<Longrightarrow> \<not> db_good d \<Longrightarrow> WritePage p bs d = Some d"
  by (simp add: WritePage_def page_offset_ok)

text \<open>Beyond the end the caller's buffer is left as it was.\<close>

lemma ReadPage_beyond:
  assumes "page_ok p" and "p * PAGE_SIZE > int (length (db_file d))"
  shows "ReadPage p buf d = Some (buf, d)"
  using assms by (simp add: ReadPage_def page_offset_ok)

text \<open>The log is append only: what was written is read back.\<close>

lemma ReadLog_WriteLog:
  assumes "WriteLog b bs sz d = Some d'" and "sz = int (length bs)" and "0 < sz"
  shows "ReadLog sz (int (length (log_file d))) d' = Some bs"
  using assms by (auto simp: WriteLog_def ReadLog_def Let_def bind_Some_iff)

section \<open>Runs of writes\<close>

fun WritePages :: "(page_id \<times> byte list) list \<Rightarrow> disk \<Rightarrow> disk option" where
  "WritePages [] d = Some d"
| "WritePages ((p, bs) # ws) d = (case WritePage p bs d of None \<Rightarrow> None | Some d' \<Rightarrow> WritePages ws d')"

lemma WritePages_on_disk:
  assumes "\<forall>(p, bs) \<in> set ws. page_ok p \<and> length bs = 512" and "db_good d"
  shows "\<exists>d'. WritePages ws d = Some d' \<and> db_good d' \<and>
    (\<forall>p. on_disk p d \<noteq> None \<or> p \<in> fst ` set ws \<longrightarrow>
       on_disk p d' = (case map_of (rev ws) p of None \<Rightarrow> on_disk p d | Some bs \<Rightarrow> Some bs))"
  using assms
proof (induction ws arbitrary: d)
  case (Cons w ws)
  obtain p bs where w: "w = (p, bs)" by fastforce
  then have ok: "page_ok p" "length bs = 512" using Cons.prems(1) by auto
  from WritePage_on_disk [OF ok(1) Cons.prems(2) ok(2)] obtain d1 where
    d1: "WritePage p bs d = Some d1" "db_good d1" "on_disk p d1 = Some bs"
    "\<And>q. q \<noteq> p \<Longrightarrow> on_disk q d \<noteq> None \<Longrightarrow> on_disk q d1 = on_disk q d" by metis
  have "\<forall>(p, bs) \<in> set ws. page_ok p \<and> length bs = 512" using Cons.prems(1) by simp
  from Cons.IH [OF this d1(2)] obtain d' where d': "WritePages ws d1 = Some d'" "db_good d'"
    "\<And>p. on_disk p d1 \<noteq> None \<or> p \<in> fst ` set ws \<Longrightarrow>
       on_disk p d' = (case map_of (rev ws) p of None \<Rightarrow> on_disk p d1 | Some bs \<Rightarrow> Some bs)" by blast
  have "on_disk q d' = (case map_of (rev (w # ws)) q of None \<Rightarrow> on_disk q d | Some bs \<Rightarrow> Some bs)"
    if q: "on_disk q d \<noteq> None \<or> q \<in> fst ` set (w # ws)" for q
  proof (cases "q = p")
    case True
    then show ?thesis using d'(3) [of p] d1(3) by (simp add: w map_add_def split: option.splits)
  next
    case False
    have "on_disk q d1 \<noteq> None \<or> q \<in> fst ` set ws" using q False d1(4) [OF False] by (fastforce simp: w)
    note q' = d'(3) [OF this]
    have "on_disk q d1 = on_disk q d" if "map_of (rev ws) q = None"
    proof -
      have "q \<notin> fst ` set ws" using that by (simp add: map_of_eq_None_iff)
      then show ?thesis using q False d1(4) [OF False] by (simp add: w)
    qed
    then show ?thesis using q' False by (auto simp: w map_add_def split: option.splits)
  qed
  then show ?case using d'(1,2) d1(1) w by auto
qed simp



text \<open>C32. Reading the first page past the end of the file leaves the stream failed: from then on every
  write of a page returns without changing the file.\<close>

theorem read_at_end_loses_writes:
  assumes "page_ok p" and "p * PAGE_SIZE = int (length (db_file d))"
  shows "\<exists>d'. ReadPage p buf d = Some (replicate 512 0, d') \<and> db_file d' = db_file d \<and>
    (\<forall>q bs. page_ok q \<longrightarrow> WritePage q bs d' = Some d')"
  using ReadPage_at_end [OF assms] by (auto intro: WritePage_failed)

theorem read_at_end_loses_writes_witness:
  "\<exists>d'. ReadPage 0 [] disk_init = Some (replicate 512 0, d') \<and> WritePage 0 (replicate 512 5) d' = Some d'"
proof -
  have "page_ok 0" "0 * PAGE_SIZE = int (length (db_file disk_init))"
    by (simp_all add: page_ok_def config_defs disk_init_def)
  then show ?thesis using read_at_end_loses_writes [of 0 disk_init "[]"] by blast
qed

end
