(* ===== verification/BPM.thy ===== *)
theory BPM imports PageStore LRU ExtHash Disk begin

text \<open>
  The buffer pool manager of \<open>buffer/buffer_pool_manager.cpp\<close>: frames, the page table (an extendible
  hash table from page ids to frames), the LRU replacer and the free list over the disk manager.  A
  \<open>Page *\<close> is the index of the frame in \<open>pages_\<close>.  The lemmas show that the pool refines the page
  store of \<open>PageStore\<close>: whatever is resident, dirty or evicted, a client that follows the protocol
  sees the contents it last wrote.
\<close>

section \<open>The pool\<close>

record frame =
  data_m :: "byte list"
  frame_page_id :: page_id
  pin_count :: int
  is_dirty :: bool

record bpm =
  pages :: "frame list"
  page_table :: "(page_id, nat) ext_hash"
  replacer_m :: "nat lru"
  free_list :: "nat list"
  disk_m :: disk

text \<open>\<open>std::hash<page_id_t>\<close> is the identity on \<open>size_t\<close>.\<close>

definition hash_page_id :: "page_id \<Rightarrow> nat" where
  "hash_page_id p = nat (p mod 2 ^ 64)"

definition ResetMemory :: "byte list" where
  "ResetMemory = replicate (nat PAGE_SIZE) 0"

definition bpm_init :: "nat \<Rightarrow> disk \<Rightarrow> bpm" where
  "bpm_init pool_size d =
     \<lparr>pages = replicate pool_size
        \<lparr>data_m = ResetMemory, frame_page_id = INVALID_PAGE_ID, pin_count = 0, is_dirty = False\<rparr>,
      page_table = ext_init BUCKET_SIZE, replacer_m = lru_init, free_list = [0..<pool_size], disk_m = d\<rparr>"

definition table_find :: "page_id \<Rightarrow> bpm \<Rightarrow> nat option" where
  "table_find p m = ext_Find hash_page_id p (page_table m)"

definition update_frame :: "nat \<Rightarrow> (frame \<Rightarrow> frame) \<Rightarrow> bpm \<Rightarrow> bpm" where
  "update_frame f g m = m\<lparr>pages := (pages m)[f := g (pages m ! f)]\<rparr>"

definition GetVictimPage :: "bpm \<Rightarrow> (nat option \<times> bpm) option" where
  "GetVictimPage m =
     do { (tar, m) \<leftarrow>
            (if free_list m = [] then
               (if lru_Size (replacer_m m) = 0 then Some (None, m)
                else do { (v, r) \<leftarrow> lru_Victim (replacer_m m); Some (v, m\<lparr>replacer_m := r\<rparr>) })
             else
               do { let tar = hd (free_list m);
                    let m = m\<lparr>free_list := tl (free_list m)\<rparr>;
                    _ \<leftarrow> assert_that (frame_page_id (pages m ! tar) = INVALID_PAGE_ID);
                    Some (Some tar, m) });
          _ \<leftarrow> assert_that (case tar of None \<Rightarrow> True | Some f \<Rightarrow> pin_count (pages m ! f) = 0);
          Some (tar, m) }"

text \<open>Steps 2 and 3 of \<open>FetchPage\<close> and \<open>NewPage\<close>: the old page is written back when dirty, its
  entry leaves the page table, and the new page gets the frame.\<close>

definition bpm_evict :: "nat \<Rightarrow> bpm \<Rightarrow> bpm option" where
  "bpm_evict tar m =
     do { let fr = pages m ! tar;
          d \<leftarrow> (if is_dirty fr then WritePage (frame_page_id fr) (data_m fr) (disk_m m) else Some (disk_m m));
          let m = m\<lparr>disk_m := d\<rparr>;
          Some (m\<lparr>page_table := snd (ext_Remove hash_page_id (frame_page_id fr) (page_table m))\<rparr>) }"

definition bpm_FetchPage :: "page_id \<Rightarrow> bpm \<Rightarrow> (nat option \<times> bpm) option" where
  "bpm_FetchPage p m =
     (case table_find p m of
        Some tar \<Rightarrow>
          do { let m = update_frame tar (\<lambda>fr. fr\<lparr>pin_count := pin_count fr + 1\<rparr>) m;
               (_, r) \<leftarrow> lru_Erase tar (replacer_m m);
               Some (Some tar, m\<lparr>replacer_m := r\<rparr>) }
      | None \<Rightarrow>
          do { (tar, m) \<leftarrow> GetVictimPage m;
               case tar of
                 None \<Rightarrow> Some (None, m)
               | Some tar \<Rightarrow>
                   do { m \<leftarrow> bpm_evict tar m;
                        t \<leftarrow> ext_Insert hash_page_id p tar (page_table m);
                        let m = m\<lparr>page_table := t\<rparr>;
                        (bs, d) \<leftarrow> ReadPage p (data_m (pages m ! tar)) (disk_m m);
                        let m = m\<lparr>disk_m := d\<rparr>;
                        Some (Some tar, update_frame tar (\<lambda>fr. fr\<lparr>data_m := bs, pin_count := 1,
                          is_dirty := False, frame_page_id := p\<rparr>) m) } })"

definition bpm_UnpinPage :: "page_id \<Rightarrow> bool \<Rightarrow> bpm \<Rightarrow> (bool \<times> bpm) option" where
  "bpm_UnpinPage p dirty m =
     (case table_find p m of
        None \<Rightarrow> Some (False, m)
      | Some tar \<Rightarrow>
          do { let m = update_frame tar (\<lambda>fr. fr\<lparr>is_dirty := (is_dirty fr \<or> dirty)\<rparr>) m;
               _ \<leftarrow> assert_that (\<not> pin_count (pages m ! tar) \<le> 0);
               let m = update_frame tar (\<lambda>fr. fr\<lparr>pin_count := pin_count fr - 1\<rparr>) m;
               if pin_count (pages m ! tar) = 0 then
                 do { r \<leftarrow> lru_Insert tar (replacer_m m); Some (True, m\<lparr>replacer_m := r\<rparr>) }
               else Some (True, m) })"

definition bpm_FlushPage :: "page_id \<Rightarrow> bpm \<Rightarrow> (bool \<times> bpm) option" where
  "bpm_FlushPage p m =
     (case table_find p m of
        None \<Rightarrow> Some (False, m)
      | Some tar \<Rightarrow>
          let fr = pages m ! tar in
          if frame_page_id fr = INVALID_PAGE_ID then Some (False, m)
          else if is_dirty fr then
            do { d \<leftarrow> WritePage p (data_m fr) (disk_m m);
                 Some (True, update_frame tar (\<lambda>fr. fr\<lparr>is_dirty := False\<rparr>) (m\<lparr>disk_m := d\<rparr>)) }
          else Some (True, m))"

definition bpm_DeletePage :: "page_id \<Rightarrow> bpm \<Rightarrow> (bool \<times> bpm) option" where
  "bpm_DeletePage p m =
     (case table_find p m of
        None \<Rightarrow> Some (True, m\<lparr>disk_m := DeallocatePage p (disk_m m)\<rparr>)
      | Some tar \<Rightarrow>
          if pin_count (pages m ! tar) > 0 then Some (False, m)
          else
            do { (_, r) \<leftarrow> lru_Erase tar (replacer_m m);
                 let m = m\<lparr>replacer_m := r, page_table := snd (ext_Remove hash_page_id p (page_table m))\<rparr>;
                 let m = update_frame tar (\<lambda>fr. fr\<lparr>is_dirty := False, data_m := ResetMemory,
                           frame_page_id := INVALID_PAGE_ID\<rparr>) m;
                 let m = m\<lparr>free_list := free_list m @ [tar]\<rparr>;
                 Some (True, m\<lparr>disk_m := DeallocatePage p (disk_m m)\<rparr>) })"

definition bpm_NewPage :: "bpm \<Rightarrow> ((nat \<times> page_id) option \<times> bpm) option" where
  "bpm_NewPage m =
     do { (tar, m) \<leftarrow> GetVictimPage m;
          case tar of
            None \<Rightarrow> Some (None, m)
          | Some tar \<Rightarrow>
              do { let (p, d) = AllocatePage (disk_m m);
                   m \<leftarrow> bpm_evict tar (m\<lparr>disk_m := d\<rparr>);
                   t \<leftarrow> ext_Insert hash_page_id p tar (page_table m);
                   let m = m\<lparr>page_table := t\<rparr>;
                   Some (Some (tar, p), update_frame tar (\<lambda>fr. fr\<lparr>frame_page_id := p,
                     data_m := ResetMemory, is_dirty := False, pin_count := 1\<rparr>) m) } }"

text \<open>The debug check looks at the frames from 1 on.\<close>

definition CheckAllUnpined :: "bpm \<Rightarrow> bool" where
  "CheckAllUnpined m = (\<forall>i \<in> {1..<length (pages m)}. pin_count (pages m ! i) = 0)"

text \<open>A client's write through the pointer it was given.\<close>

definition bpm_write :: "nat \<Rightarrow> byte list \<Rightarrow> bpm \<Rightarrow> bpm" where
  "bpm_write f bs m = update_frame f (\<lambda>fr. fr\<lparr>data_m := bs\<rparr>) m"

section \<open>The refinement relation\<close>

text \<open>
  The pool \<open>m\<close> holds the pages of the store \<open>s\<close>.  \<open>frames_ok\<close>: the replacer has the unpinned
  frames that hold a page and the free list the blank ones; the frames \<open>V\<close> are in transit.
  \<open>maps_ok\<close>: the page table \<open>lk\<close> maps each page to its frame.  \<open>holds_ok\<close>: a resident page has the
  store's contents and pins, and is on disk as well unless it is dirty or being changed; a page
  that is not resident is on disk.
\<close>

definition frames_ok :: "nat set \<Rightarrow> bpm \<Rightarrow> bool" where
  "frames_ok V m \<longleftrightarrow>
     (\<exists>xs. lru_abs (replacer_m m) xs \<and> set xs =
        {f. f < length (pages m) \<and> f \<notin> set (free_list m) \<and> f \<notin> V \<and> pin_count (pages m ! f) = 0}) \<and>
     distinct (free_list m) \<and> set (free_list m) \<subseteq> {..<length (pages m)} \<and> V \<inter> set (free_list m) = {} \<and>
     (\<forall>f \<in> set (free_list m). frame_page_id (pages m ! f) = INVALID_PAGE_ID \<and>
        pin_count (pages m ! f) = 0 \<and> \<not> is_dirty (pages m ! f)) \<and>
     (\<forall>f < length (pages m). 0 \<le> pin_count (pages m ! f) \<and> length (data_m (pages m ! f)) = 512)"

definition maps_ok :: "(page_id \<Rightarrow> nat option) \<Rightarrow> nat set \<Rightarrow> bpm \<Rightarrow> bool" where
  "maps_ok lk V m \<longleftrightarrow>
     (\<forall>p f. lk p = Some f \<longrightarrow> f < length (pages m) \<and> f \<notin> set (free_list m) \<and> f \<notin> V \<and>
        frame_page_id (pages m ! f) = p) \<and>
     (\<forall>f < length (pages m). f \<notin> set (free_list m) \<and> f \<notin> V \<longrightarrow> lk (frame_page_id (pages m ! f)) = Some f)"

definition holds_ok :: "(page_id \<Rightarrow> nat option) \<Rightarrow> bpm \<Rightarrow> byte list store \<Rightarrow> bool" where
  "holds_ok lk m s \<longleftrightarrow>
     store_inv s \<and> next_id s = next_page_id_m (disk_m m) \<and> db_good (disk_m m) \<and>
     (\<forall>p. lk p = None \<longrightarrow> pins s p = 0) \<and>
     (\<forall>p f. lk p = Some f \<longrightarrow> contents s p = Some (data_m (pages m ! f)) \<and>
        pins s p = pin_count (pages m ! f) \<and>
        (is_dirty (pages m ! f) \<or> p \<in> pending s \<or> on_disk p (disk_m m) = Some (data_m (pages m ! f)))) \<and>
     (\<forall>p d. contents s p = Some d \<longrightarrow> page_ok p \<and> (lk p = None \<longrightarrow> on_disk p (disk_m m) = Some d))"

definition table_ok :: "bpm \<Rightarrow> bool" where
  "table_ok m \<longleftrightarrow> ext_inv hash_page_id (page_table m) \<and> 0 < mBucketSize (page_table m)"

definition bpm_rep :: "bpm \<Rightarrow> byte list store \<Rightarrow> bool" where
  "bpm_rep m s \<longleftrightarrow> table_ok m \<and> frames_ok {} m \<and> maps_ok (\<lambda>p. table_find p m) {} m \<and>
     holds_ok (\<lambda>p. table_find p m) m s"

lemma update_frame_simps [simp]:
  "length (pages (update_frame f g m)) = length (pages m)"
  "page_table (update_frame f g m) = page_table m"
  "replacer_m (update_frame f g m) = replacer_m m"
  "free_list (update_frame f g m) = free_list m"
  "disk_m (update_frame f g m) = disk_m m"
  "f < length (pages m) \<Longrightarrow> pages (update_frame f g m) ! f' = (if f' = f then g (pages m ! f) else pages m ! f')"
  by (simp_all add: update_frame_def nth_list_update)

lemma page_ok_not_invalid: "page_ok p \<Longrightarrow> p \<noteq> INVALID_PAGE_ID"
  by (simp add: page_ok_def config_defs)

lemma hash_inj: "inj_on (\<lambda>p. hash_page_id p mod 2 ^ 31) {p. page_ok p}"
proof (rule inj_onI)
  fix p q assume p: "p \<in> {p. page_ok p}" and q: "q \<in> {p. page_ok p}"
    and eq: "hash_page_id p mod 2 ^ 31 = hash_page_id q mod 2 ^ 31"
  have "hash_page_id p mod 2 ^ 31 = nat p" if "page_ok p" for p
    using that by (simp add: hash_page_id_def page_ok_def nat_less_iff)
  then show "p = q" using p q eq by (simp add: page_ok_def eq_nat_nat_iff)
qed

lemma table_fits: "table_ok m \<Longrightarrow> page_ok p \<Longrightarrow> (\<And>q f. table_find q m = Some f \<Longrightarrow> page_ok q) \<Longrightarrow>
   ext_fits hash_page_id p (page_table m)"
proof -
  assume m: "table_ok m" "page_ok p" and keys: "\<And>q f. table_find q m = Some f \<Longrightarrow> page_ok q"
  have "insert p (ext_keys hash_page_id (page_table m)) \<subseteq> {p. page_ok p}"
    using m(2) keys by (auto simp: ext_keys_def table_find_def)
  then show ?thesis
    using m(1) inj_on_subset [OF hash_inj] unfolding ext_fits_def table_ok_def by blast
qed

section \<open>Finding and emptying a frame\<close>

definition in_transit :: "nat \<Rightarrow> bpm \<Rightarrow> bool" where
  "in_transit f m \<longleftrightarrow> f < length (pages m) \<and> pin_count (pages m ! f) = 0 \<and> frames_ok {f} m \<and>
     (table_find (frame_page_id (pages m ! f)) m = Some f \<and>
        maps_ok ((\<lambda>q. table_find q m)(frame_page_id (pages m ! f) := None)) {f} m \<or>
      frame_page_id (pages m ! f) = INVALID_PAGE_ID \<and> \<not> is_dirty (pages m ! f) \<and>
        maps_ok (\<lambda>q. table_find q m) {f} m)"

lemma table_find_lists [simp]:
  "table_find q (m\<lparr>replacer_m := r, free_list := fl\<rparr>) = table_find q m"
  "table_find q (m\<lparr>replacer_m := r\<rparr>) = table_find q m"
  "table_find q (m\<lparr>free_list := fl\<rparr>) = table_find q m"
  "table_find q (m\<lparr>disk_m := d\<rparr>) = table_find q m"
  "table_find q (update_frame f g m) = table_find q m"
  by (simp_all add: table_find_def)

lemma maps_ok_remove:
  assumes "maps_ok lk {} m" and "lk p = Some f"
  shows "maps_ok (lk(p := None)) {f} m"
proof -
  have id: "frame_page_id (pages m ! f) = p" using assms by (simp add: maps_ok_def)
  show ?thesis
    unfolding maps_ok_def
  proof (intro conjI allI impI)
    fix q g assume "(lk(p := None)) q = Some g"
    then have q: "q \<noteq> p" "lk q = Some g" by (auto split: if_splits)
    then show "g < length (pages m)" "g \<notin> set (free_list m)" "frame_page_id (pages m ! g) = q"
      using assms(1) by (simp_all add: maps_ok_def)
    show "g \<notin> {f}"
    proof
      assume "g \<in> {f}"
      then have "frame_page_id (pages m ! f) = q" using assms(1) q(2) by (simp add: maps_ok_def)
      then show False using id q(1) by simp
    qed
  next
    fix g assume g: "g < length (pages m)" "g \<notin> set (free_list m) \<and> g \<notin> {f}"
    then have "lk (frame_page_id (pages m ! g)) = Some g" using assms(1) by (simp add: maps_ok_def)
    moreover from this have "frame_page_id (pages m ! g) \<noteq> p" using assms(2) g(2) by auto
    ultimately show "(lk(p := None)) (frame_page_id (pages m ! g)) = Some g" by simp
  qed
qed

lemma maps_ok_lists:
  "free_list m = fl \<Longrightarrow> maps_ok lk V (m\<lparr>replacer_m := r, free_list := fl\<rparr>) = maps_ok lk V m"
  by (simp add: maps_ok_def)

lemma GetVictimPage_spec:
  assumes "frames_ok {} m" and "maps_ok (\<lambda>p. table_find p m) {} m"
  shows "(GetVictimPage m = Some (None, m) \<and> (\<forall>f < length (pages m). 0 < pin_count (pages m ! f))) \<or>
    (\<exists>f m1. GetVictimPage m = Some (Some f, m1) \<and> pages m1 = pages m \<and> page_table m1 = page_table m \<and>
       disk_m m1 = disk_m m \<and> in_transit f m1)"
proof (cases "free_list m")
  case (Cons f fl)
  then have f: "f < length (pages m)" "pin_count (pages m ! f) = 0"
    "frame_page_id (pages m ! f) = INVALID_PAGE_ID" "\<not> is_dirty (pages m ! f)"
    using assms(1) by (auto simp: frames_ok_def)
  let ?m' = "m\<lparr>replacer_m := replacer_m m, free_list := fl\<rparr>"
  have "GetVictimPage m = Some (Some f, ?m')"
    using Cons f by (simp add: GetVictimPage_def Let_def)
  moreover have "frames_ok {f} ?m'"
    using assms(1) Cons unfolding frames_ok_def by auto
  moreover have "maps_ok (\<lambda>q. table_find q ?m') {f} ?m'"
    using assms(2) Cons unfolding maps_ok_def by auto
  ultimately show ?thesis
    using f by (intro disjI2 exI [of _ f] exI [of _ ?m']) (simp add: in_transit_def)
next
  case Nil
  obtain xs where xs: "lru_abs (replacer_m m) xs"
    "set xs = {f. f < length (pages m) \<and> pin_count (pages m ! f) = 0}"
    using assms(1) Nil by (auto simp: frames_ok_def)
  show ?thesis
  proof (cases "xs = []")
    case True
    then have "GetVictimPage m = Some (None, m)"
      using Nil lru.victim_empty [of "replacer_m m"] xs(1) by (simp add: GetVictimPage_def lru_Size_def)
    moreover have "\<forall>f < length (pages m). 0 < pin_count (pages m ! f)"
    proof (intro allI impI)
      fix g assume g: "g < length (pages m)"
      then have "pin_count (pages m ! g) \<noteq> 0" using xs(2) True by auto
      moreover have "0 \<le> pin_count (pages m ! g)" using assms(1) g by (simp add: frames_ok_def)
      ultimately show "0 < pin_count (pages m ! g)" by simp
    qed
    ultimately show ?thesis by blast
  next
    case False
    then have snoc: "xs = butlast xs @ [last xs]" by simp
    define f where "f = last xs"
    obtain r where r: "lru_Victim (replacer_m m) = Some (Some f, r)" "lru_abs r (butlast xs)"
      using lru.victim_last [of "replacer_m m" "butlast xs" "last xs"] xs(1) snoc f_def by auto
    have dist: "distinct xs" using lru.abs_distinct xs(1) by blast
    have set: "set (butlast xs) = set xs - {f}"
    proof -
      have "distinct (butlast xs @ [f])" "set xs = set (butlast xs @ [f])"
        using dist snoc by (simp_all flip: f_def)
      then show ?thesis by auto
    qed
    have f: "f < length (pages m)" "pin_count (pages m ! f) = 0"
      using xs(2) False last_in_set [of xs] by (auto simp: f_def)
    let ?m' = "m\<lparr>replacer_m := r, free_list := []\<rparr>"
    have "GetVictimPage m = Some (Some f, ?m')"
      using Nil r(1) f by (simp add: GetVictimPage_def lru_Size_def Let_def)
    moreover have "frames_ok {f} ?m'"
    proof -
      have "set (butlast xs) = {g. g < length (pages m) \<and> g \<noteq> f \<and> pin_count (pages m ! g) = 0}"
        using set xs(2) by auto
      then show ?thesis using assms(1) r(2) Nil unfolding frames_ok_def by auto
    qed
    moreover have tab: "table_find (frame_page_id (pages m ! f)) m = Some f"
      using assms(2) f Nil by (auto simp: maps_ok_def)
    moreover have "maps_ok ((\<lambda>q. table_find q ?m')(frame_page_id (pages m ! f) := None)) {f} ?m'"
      using maps_ok_remove [OF assms(2) tab] by (simp only: maps_ok_lists [OF Nil] table_find_lists)
    ultimately show ?thesis
      using f by (intro disjI2 exI [of _ f] exI [of _ ?m']) (simp add: in_transit_def)
  qed
qed

lemma holds_ok_page_ok: "holds_ok lk m s \<Longrightarrow> lk p = Some f \<Longrightarrow> page_ok p"
  unfolding holds_ok_def by blast

lemma holds_ok_lists [simp]:
  "holds_ok lk (m\<lparr>replacer_m := r, free_list := fl\<rparr>) s \<longleftrightarrow> holds_ok lk m s"
  "holds_ok lk (m\<lparr>page_table := t\<rparr>) s \<longleftrightarrow> holds_ok lk m s"
  by (simp_all add: holds_ok_def)

lemma frames_ok_other [simp]:
  "frames_ok V (m\<lparr>page_table := t\<rparr>) \<longleftrightarrow> frames_ok V m"
  "frames_ok V (m\<lparr>disk_m := d\<rparr>) \<longleftrightarrow> frames_ok V m"
  by (simp_all add: frames_ok_def)

lemma maps_ok_other [simp]:
  "maps_ok lk V (m\<lparr>page_table := t\<rparr>) \<longleftrightarrow> maps_ok lk V m"
  "maps_ok lk V (m\<lparr>disk_m := d\<rparr>) \<longleftrightarrow> maps_ok lk V m"
  by (simp_all add: maps_ok_def)

text \<open>Writing a page that no other page of the store is mixed up with.\<close>

lemma table_remove:
  assumes "table_ok m"
  shows "table_ok (m\<lparr>page_table := snd (ext_Remove hash_page_id p (page_table m))\<rparr>)"
    and "table_find q (m\<lparr>page_table := snd (ext_Remove hash_page_id p (page_table m))\<rparr>) =
      (if q = p then None else table_find q m)"
proof -
  obtain b t where t: "ext_Remove hash_page_id p (page_table m) = (b, t)" by fastforce
  have inv: "ext_inv hash_page_id (page_table m)" using assms by (simp add: table_ok_def)
  have "mBucketSize t = mBucketSize (page_table m)"
    using t by (auto simp: ext_Remove_def Let_def split: if_splits)
  then show "table_ok (m\<lparr>page_table := snd (ext_Remove hash_page_id p (page_table m))\<rparr>)"
    using ext.remove_inv [OF inv t] assms t by (simp add: table_ok_def)
  show "table_find q (m\<lparr>page_table := snd (ext_Remove hash_page_id p (page_table m))\<rparr>) =
      (if q = p then None else table_find q m)"
    using ext.remove_find [OF inv t] t by (simp add: table_find_def)
qed

lemma table_insert:
  assumes "table_ok m" and "page_ok p" and "\<And>q f. table_find q m = Some f \<Longrightarrow> page_ok q"
    and "table_find p m = None"
  obtains t where "ext_Insert hash_page_id p f (page_table m) = Some t"
    and "table_ok (m\<lparr>page_table := t\<rparr>)"
    and "\<And>q. table_find q (m\<lparr>page_table := t\<rparr>) = (if q = p then Some f else table_find q m)"
proof -
  have inv: "ext_inv hash_page_id (page_table m)" using assms(1) by (simp add: table_ok_def)
  obtain t where t: "ext_Insert hash_page_id p f (page_table m) = Some t"
  proof -
    have "ext_fits hash_page_id p (page_table m)"
      by (rule table_fits) (use assms in auto)
    then show ?thesis using ext.insert_total [OF inv] that by blast
  qed
  moreover have "table_ok (m\<lparr>page_table := t\<rparr>)"
    using ext.insert_inv [OF inv t] ext_Insert_spec [OF inv t] assms(1) by (simp add: table_ok_def)
  moreover have "table_find q (m\<lparr>page_table := t\<rparr>) = (if q = p then Some f else table_find q m)" for q
    using ext.insert_find [OF inv t, of q] assms(4) by (simp add: table_find_def)
  ultimately show ?thesis using that by blast
qed

text \<open>Emptying the frame of a victim: afterwards no page is mapped to it, and its old page is on disk.\<close>

lemma bpm_evict_spec:
  assumes tab: "table_ok m" and transit: "in_transit f m"
    and hold: "holds_ok (\<lambda>q. table_find q m) m s"
  obtains m' where "bpm_evict f m = Some m'" and "pages m' = pages m"
    and "table_ok m'" and "frames_ok {f} m'" and "maps_ok (\<lambda>q. table_find q m') {f} m'"
    and "holds_ok (\<lambda>q. table_find q m') m' s"
    and "\<And>q. table_find q m' = (if q = frame_page_id (pages m ! f) then None else table_find q m)"
proof -
  have f: "f < length (pages m)" "pin_count (pages m ! f) = 0" and fr: "frames_ok {f} m"
    and victim: "table_find (frame_page_id (pages m ! f)) m = Some f \<and>
         maps_ok ((\<lambda>q. table_find q m)(frame_page_id (pages m ! f) := None)) {f} m \<or>
       frame_page_id (pages m ! f) = INVALID_PAGE_ID \<and> \<not> is_dirty (pages m ! f) \<and>
         maps_ok (\<lambda>q. table_find q m) {f} m"
    using transit unfolding in_transit_def by blast+
  define p where "p = frame_page_id (pages m ! f)"
  define d' where "d' = (if is_dirty (pages m ! f) then WritePage p (data_m (pages m ! f)) (disk_m m) else Some (disk_m m))"
  have lk_invalid: "table_find INVALID_PAGE_ID m = None"
    using holds_ok_page_ok [OF hold] page_ok_not_invalid by fastforce
  have resident: "table_find p m = Some f" if "is_dirty (pages m ! f)"
    using victim that by (auto simp: p_def)
  have p: "page_ok p" if "is_dirty (pages m ! f)"
    using holds_ok_page_ok [OF hold resident [OF that]] .
  obtain d where d: "d' = Some d" "db_good d" "next_page_id_m d = next_page_id_m (disk_m m)"
    "\<And>q. q \<noteq> p \<Longrightarrow> on_disk q (disk_m m) \<noteq> None \<Longrightarrow> on_disk q d = on_disk q (disk_m m)"
    "is_dirty (pages m ! f) \<Longrightarrow> on_disk p d = Some (data_m (pages m ! f))"
    "\<not> is_dirty (pages m ! f) \<Longrightarrow> d = disk_m m"
  proof (cases "is_dirty (pages m ! f)")
    case True
    have good: "db_good (disk_m m)" and len: "length (data_m (pages m ! f)) = 512"
      using hold fr f by (auto simp: holds_ok_def frames_ok_def)
    show ?thesis
      using WritePage_on_disk [OF p [OF True] good len] True that by (auto simp: d'_def)
  next
    case False
    then show ?thesis using that hold by (auto simp: d'_def holds_ok_def)
  qed
  define m1 where "m1 = m\<lparr>disk_m := d\<rparr>"
  define m' where "m' = m1\<lparr>page_table := snd (ext_Remove hash_page_id p (page_table m1))\<rparr>"
  have tab1: "table_ok m1" using tab by (simp add: table_ok_def m1_def)
  have find: "table_find q m' = (if q = p then None else table_find q m)" for q
    using table_remove(2) [OF tab1, of q p] by (simp add: m'_def m1_def table_find_def)
  have "bpm_evict f m = Some m'"
    using d(1) d(6)
    by (cases "is_dirty (pages m ! f)") (simp_all add: bpm_evict_def m'_def m1_def Let_def d'_def flip: p_def)
  moreover have "pages m' = pages m" by (simp add: m'_def m1_def)
  moreover have "table_ok m'" using table_remove(1) [OF tab1] by (simp add: m'_def)
  moreover have "frames_ok {f} m'" using fr by (simp add: m'_def m1_def)
  moreover have lk': "(\<lambda>q. table_find q m') = (\<lambda>q. table_find q m)(p := None)" by (auto simp: find)
  moreover have "maps_ok (\<lambda>q. table_find q m') {f} m'"
  proof -
    have "maps_ok ((\<lambda>q. table_find q m)(p := None)) {f} m"
      using victim lk_invalid by (auto simp: p_def fun_upd_idem)
    then show ?thesis by (simp only: lk') (simp add: m'_def m1_def)
  qed
  moreover have "holds_ok (\<lambda>q. table_find q m') m' s"
  proof -
    have pin: "pins s p = 0"
      using victim hold lk_invalid f by (auto simp: p_def holds_ok_def)
    then have not_pending: "p \<notin> pending s"
      using hold by (auto simp: holds_ok_def store_inv_def)
    have disk_p: "on_disk p d = Some x" if "contents s p = Some x" for x
    proof (cases "table_find p m")
      case None
      then have "\<not> is_dirty (pages m ! f)" using resident by auto
      then show ?thesis using hold that None d(6) by (auto simp: holds_ok_def)
    next
      case (Some g)
      then have "g = f" using victim lk_invalid by (auto simp: p_def)
      then show ?thesis using hold that Some d(5,6) not_pending by (fastforce simp: holds_ok_def)
    qed
    have "on_disk q d = Some x" if "on_disk q (disk_m m) = Some x" "q \<noteq> p" for q x
      using d(4) that by simp
    then have kept: "on_disk q d = Some x" if "table_find q m = None" "contents s q = Some x" for q x
      using hold that disk_p by (cases "q = p") (auto simp: holds_ok_def)
    have m': "disk_m m' = d" "pages m' = pages m" by (simp_all add: m'_def m1_def)
    note h = hold [unfolded holds_ok_def]
    show ?thesis
      unfolding holds_ok_def m' find
    proof (intro conjI allI impI)
      fix q g assume "(if q = p then None else table_find q m) = Some g"
      then have q: "q \<noteq> p" "table_find q m = Some g" by (auto split: if_splits)
      then have c: "contents s q = Some (data_m (pages m ! g))" "pins s q = pin_count (pages m ! g)"
        "is_dirty (pages m ! g) \<or> q \<in> pending s \<or> on_disk q (disk_m m) = Some (data_m (pages m ! g))"
        using h by blast+
      show "contents s q = Some (data_m (pages m ! g))" "pins s q = pin_count (pages m ! g)"
        by (rule c)+
      show "is_dirty (pages m ! g) \<or> q \<in> pending s \<or> on_disk q d = Some (data_m (pages m ! g))"
        using c(3) d(4) [OF q(1)] by auto
    next
      fix q assume "(if q = p then None else table_find q m) = None"
      then show "pins s q = 0" using pin h by (auto split: if_splits)
    next
      fix q x assume c: "contents s q = Some x" "(if q = p then None else table_find q m) = None"
      then show "on_disk q d = Some x" using disk_p kept by (auto split: if_splits)
    qed (use h d in auto)
  qed
  ultimately show ?thesis using that find p_def by blast
qed

text \<open>Giving the emptied frame to a page.\<close>

lemma frames_ok_install:
  assumes "frames_ok {f} m" and "f < length (pages m)"
    and "pin_count (g (pages m ! f)) = 1" and "length (data_m (g (pages m ! f))) = 512"
  shows "frames_ok {} (update_frame f g m)"
proof -
  obtain xs where xs: "lru_abs (replacer_m m) xs" "set xs =
      {h. h < length (pages m) \<and> h \<notin> set (free_list m) \<and> h \<notin> {f} \<and> pin_count (pages m ! h) = 0}"
    using assms(1) unfolding frames_ok_def by blast
  then have "set xs = {h. h < length (pages m) \<and> h \<notin> set (free_list m) \<and> h \<notin> {} \<and>
      pin_count (pages (update_frame f g m) ! h) = 0}"
    using assms(2,3) by auto
  then have "\<exists>xs. lru_abs (replacer_m (update_frame f g m)) xs \<and> set xs =
      {h. h < length (pages (update_frame f g m)) \<and> h \<notin> set (free_list (update_frame f g m)) \<and> h \<notin> {} \<and>
      pin_count (pages (update_frame f g m) ! h) = 0}"
    using xs(1) by auto
  then show ?thesis
    using assms unfolding frames_ok_def by auto
qed

lemma maps_ok_install:
  assumes "maps_ok lk {f} m" and "f < length (pages m)" and "f \<notin> set (free_list m)"
    and "frame_page_id (g (pages m ! f)) = p" and "lk p = None"
  shows "maps_ok (lk(p := Some f)) {} (update_frame f g m)"
  unfolding maps_ok_def
proof (intro conjI allI impI)
  fix q h assume "(lk(p := Some f)) q = Some h"
  then consider "q = p" "h = f" | "q \<noteq> p" "lk q = Some h" by (auto split: if_splits)
  then show "h < length (pages (update_frame f g m))" "h \<notin> set (free_list (update_frame f g m))"
    "h \<notin> {}" "frame_page_id (pages (update_frame f g m) ! h) = q"
    using assms by (cases; auto simp: maps_ok_def)+
next
  fix h assume h: "h < length (pages (update_frame f g m))"
    "h \<notin> set (free_list (update_frame f g m)) \<and> h \<notin> {}"
  show "(lk(p := Some f)) (frame_page_id (pages (update_frame f g m) ! h)) = Some h"
  proof (cases "h = f")
    case False
    then have "lk (frame_page_id (pages m ! h)) = Some h" using assms(1) h by (auto simp: maps_ok_def)
    then show ?thesis using False assms(2,5) by auto
  qed (use assms in auto)
qed

text \<open>Changing the frame of one page, new or resident.\<close>

lemma holds_ok_change:
  assumes hold: "holds_ok lk m s" and uniq: "\<And>q. lk q = Some f \<Longrightarrow> q = p"
    and m': "pages m' = (pages m)[f := fr]" "disk_m m' = disk_m m"
    and s': "contents s' = (contents s)(p := Some (data_m fr))" "pins s' = (pins s)(p := pin_count fr)"
      "pending s - {p} \<subseteq> pending s'" "next_id s' = next_id s"
    and f: "f < length (pages m)" and ok: "page_ok p" and inv: "store_inv s'"
    and clean: "is_dirty fr \<or> p \<in> pending s' \<or> on_disk p (disk_m m) = Some (data_m fr)"
    and lk': "lk' = lk(p := Some f)"
  shows "holds_ok lk' m' s'"
proof -
  note h = hold [unfolded holds_ok_def]
  have nth: "pages m' ! g = (if g = f then fr else pages m ! g)" for g
    using m'(1) f by (simp add: nth_list_update)
  show ?thesis
    unfolding holds_ok_def
  proof (intro conjI allI impI)
    fix q g assume q: "lk' q = Some g"
    have "contents s' q = Some (data_m (pages m' ! g)) \<and> pins s' q = pin_count (pages m' ! g) \<and>
      (is_dirty (pages m' ! g) \<or> q \<in> pending s' \<or> on_disk q (disk_m m') = Some (data_m (pages m' ! g)))"
    proof (cases "q = p")
      case True
      then have "g = f" using q lk' by simp
      then show ?thesis using True s' clean m'(2) by (simp add: nth)
    next
      case False
      then have g: "lk q = Some g" "g \<noteq> f" using q lk' uniq by auto
      then have "contents s q = Some (data_m (pages m ! g))" "pins s q = pin_count (pages m ! g)"
        "is_dirty (pages m ! g) \<or> q \<in> pending s \<or> on_disk q (disk_m m) = Some (data_m (pages m ! g))"
        using h by blast+
      then show ?thesis using False g(2) s'(1-3) m'(2) by (auto simp: nth)
    qed
    then show "contents s' q = Some (data_m (pages m' ! g))" "pins s' q = pin_count (pages m' ! g)"
      "is_dirty (pages m' ! g) \<or> q \<in> pending s' \<or> on_disk q (disk_m m') = Some (data_m (pages m' ! g))"
      by blast+
  next
    fix q assume "lk' q = None"
    then show "pins s' q = 0" using h s'(2) lk' by (auto split: if_splits)
  next
    fix q x assume "contents s' q = Some x" 
    then show "page_ok q" using h s'(1) ok by (auto split: if_splits)
  next
    fix q x assume "contents s' q = Some x" "lk' q = None"
    then show "on_disk q (disk_m m') = Some x" using h s'(1) lk' m'(2) by (auto split: if_splits)
  qed (use h s' m' inv in auto)
qed

lemma frames_ok_change:
  assumes "frames_ok {} m" and f: "f < length (pages m)" "f \<notin> set (free_list m)"
    and m': "pages m' = (pages m)[f := fr]" "free_list m' = free_list m"
    and fr: "0 \<le> pin_count fr" "length (data_m fr) = 512"
    and xs: "lru_abs (replacer_m m) xs" "set xs =
      {g. g < length (pages m) \<and> g \<notin> set (free_list m) \<and> pin_count (pages m ! g) = 0}"
    and ys: "lru_abs (replacer_m m') ys" "set ys = (if pin_count fr = 0 then insert f (set xs) else set xs - {f})"
  shows "frames_ok {} m'"
proof -
  have nth: "pages m' ! g = (if g = f then fr else pages m ! g)" for g
    using m'(1) f by (simp add: nth_list_update)
  have len: "length (pages m') = length (pages m)" using m'(1) by simp
  have "set ys = {g. g < length (pages m') \<and> g \<notin> set (free_list m') \<and> g \<notin> {} \<and> pin_count (pages m' ! g) = 0}"
  proof -
    show ?thesis unfolding ys(2) xs(2) m'(2) nth len using f by auto
  qed
  then have "\<exists>xs. lru_abs (replacer_m m') xs \<and> set xs = {g. g < length (pages m') \<and> g \<notin> set (free_list m') \<and>
      g \<notin> {} \<and> pin_count (pages m' ! g) = 0}" using ys(1) by blast
  moreover have "0 \<le> pin_count (pages m' ! g) \<and> length (data_m (pages m' ! g)) = 512"
    if "g < length (pages m')" for g
    using assms(1) fr that unfolding len nth by (simp add: frames_ok_def)
  moreover have "frame_page_id (pages m' ! g) = INVALID_PAGE_ID \<and> pin_count (pages m' ! g) = 0 \<and>
      \<not> is_dirty (pages m' ! g)" if "g \<in> set (free_list m')" for g
  proof -
    have "g \<noteq> f" "g \<in> set (free_list m)" using that f m'(2) by auto
    then show ?thesis using assms(1) unfolding nth by (simp add: frames_ok_def)
  qed
  ultimately show ?thesis
    using assms(1) m'(2) len unfolding frames_ok_def by simp
qed

lemma frames_ok_list:
  assumes "frames_ok {} m"
  obtains xs where "lru_abs (replacer_m m) xs"
    and "set xs = {g. g < length (pages m) \<and> g \<notin> set (free_list m) \<and> pin_count (pages m ! g) = 0}"
  using assms unfolding frames_ok_def by auto

lemma maps_ok_change:
  assumes "maps_ok lk V m" and "f < length (pages m)"
    and "pages m' = (pages m)[f := fr]" "free_list m' = free_list m"
    and "frame_page_id fr = frame_page_id (pages m ! f)"
  shows "maps_ok lk V m'"
proof -
  have "frame_page_id (pages m' ! g) = frame_page_id (pages m ! g)" for g
    using assms by (simp add: nth_list_update)
  then show ?thesis using assms unfolding maps_ok_def by simp
qed

lemma maps_ok_uniq: "maps_ok lk V m \<Longrightarrow> lk p = Some f \<Longrightarrow> lk q = Some f \<Longrightarrow> q = p"
  unfolding maps_ok_def by blast

section \<open>The pool refines the page store\<close>

lemma bpm_rep_parts:
  assumes "bpm_rep m s"
  shows "table_ok m" "frames_ok {} m" "maps_ok (\<lambda>p. table_find p m) {} m"
    "holds_ok (\<lambda>p. table_find p m) m s"
  using assms by (simp_all add: bpm_rep_def)

text \<open>The frame a victim leaves behind: both ways a page gets into the pool start like this.\<close>

lemma bpm_room:
  assumes rep: "bpm_rep m s"
  shows "(GetVictimPage m = Some (None, m) \<and> (\<forall>f < length (pages m). 0 < pin_count (pages m ! f))) \<or>
    (\<exists>f m1. GetVictimPage m = Some (Some f, m1) \<and> f < length (pages m) \<and> in_transit f m1 \<and> table_ok m1 \<and>
       disk_m m1 = disk_m m \<and> holds_ok (\<lambda>q. table_find q m1) m1 s \<and>
       (\<forall>q. table_find q m1 = table_find q m))"
proof -
  note r = bpm_rep_parts [OF rep]
  from GetVictimPage_spec [OF r(2,3)] show ?thesis
  proof (elim disjE exE conjE)
    fix f m1 assume m1: "GetVictimPage m = Some (Some f, m1)" "pages m1 = pages m"
      "page_table m1 = page_table m" "disk_m m1 = disk_m m" "in_transit f m1"
    have tf: "table_find q m1 = table_find q m" for q by (simp add: table_find_def m1)
    have "table_ok m1" using r(1) m1 by (simp add: table_ok_def)
    moreover have "holds_ok (\<lambda>q. table_find q m1) m1 s"
      using r(4) m1 unfolding holds_ok_def tf by simp
    moreover have "f < length (pages m)" using m1 by (simp add: in_transit_def)
    ultimately show ?thesis using m1 tf by blast
  qed blast
qed

lemma holds_ok_table: "holds_ok lk (m\<lparr>page_table := t\<rparr>) s = holds_ok lk m s"
  by (simp add: holds_ok_def)

theorem FetchPage_refines:
  assumes rep: "bpm_rep m s" and p: "contents s p \<noteq> None"
  shows "(bpm_FetchPage p m = Some (None, m) \<and> (\<forall>f < length (pages m). 0 < pin_count (pages m ! f))) \<or>
    (\<exists>f m' s'. bpm_FetchPage p m = Some (Some f, m') \<and> st_fetch p s = Some s' \<and> bpm_rep m' s' \<and>
       table_find p m' = Some f)"
proof -
  note r = bpm_rep_parts [OF rep]
  obtain d where d: "contents s p = Some d" using p by blast
  have ok: "page_ok p" using r(4) d by (simp add: holds_ok_def)
  have inv: "store_inv s" using r(4) by (simp add: holds_ok_def)
  define s' where "s' = s\<lparr>pins := (pins s)(p := pins s p + 1)\<rparr>"
  have s': "st_fetch p s = Some s'" using d by (simp add: st_fetch_def s'_def)
  have inv': "store_inv s'" using store_inv_fetch [OF inv s'] .
  show ?thesis
  proof (cases "table_find p m")
    case (Some f)
    have f: "f < length (pages m)" "f \<notin> set (free_list m)"
      using r(3) Some unfolding maps_ok_def by blast+
    obtain xs where xs: "lru_abs (replacer_m m) xs" "set xs =
        {g. g < length (pages m) \<and> g \<notin> set (free_list m) \<and> pin_count (pages m ! g) = 0}"
      using frames_ok_list [OF r(2)] by blast
    obtain rr where rr: "lru_Erase f (replacer_m m) = Some (f \<in> set xs, rr)"
        "lru_abs rr (filter (\<lambda>y. y \<noteq> f) xs)"
      using lru.erase_abs [OF xs(1)] by blast
    define fr where "fr = (pages m ! f)\<lparr>pin_count := pin_count (pages m ! f) + 1\<rparr>"
    define m' where "m' = m\<lparr>pages := (pages m)[f := fr], replacer_m := rr\<rparr>"
    have fetch: "bpm_FetchPage p m = Some (Some f, m')"
      using Some rr(1) by (simp add: bpm_FetchPage_def m'_def fr_def update_frame_def Let_def)
    have pin0: "0 \<le> pin_count (pages m ! f)" "length (data_m (pages m ! f)) = 512"
      using r(2) f by (simp_all add: frames_ok_def)
    have lk': "(\<lambda>q. table_find q m') = (\<lambda>q. table_find q m)(p := Some f)"
      using Some by (auto simp: m'_def table_find_def)
    have "frames_ok {} m'"
    proof (rule frames_ok_change [OF r(2) f _ _ _ _ xs])
      show "set (filter (\<lambda>y. y \<noteq> f) xs) = (if pin_count fr = 0 then insert f (set xs) else set xs - {f})"
        using pin0 by (auto simp: fr_def)
    qed (use pin0 rr(2) in \<open>simp_all add: m'_def fr_def\<close>)
    moreover have "maps_ok (\<lambda>q. table_find q m') {} m'"
      using maps_ok_change [OF r(3) f(1), of m' fr] by (simp add: m'_def fr_def table_find_def)
    moreover have "table_ok m'" using r(1) by (simp add: table_ok_def m'_def)
    moreover have "holds_ok (\<lambda>q. table_find q m') m' s'"
    proof (rule holds_ok_change [OF r(4)])
      show "q = p" if "table_find q m = Some f" for q
        using maps_ok_uniq [of "\<lambda>q. table_find q m"] r(3) Some that by blast
      have h: "contents s p = Some (data_m (pages m ! f))" "pins s p = pin_count (pages m ! f)"
        "is_dirty (pages m ! f) \<or> p \<in> pending s \<or> on_disk p (disk_m m) = Some (data_m (pages m ! f))"
        using r(4) Some by (simp_all add: holds_ok_def)
      show "contents s' = (contents s)(p := Some (data_m fr))" "pins s' = (pins s)(p := pin_count fr)"
        using h by (auto simp: s'_def fr_def)
      show "is_dirty fr \<or> p \<in> pending s' \<or> on_disk p (disk_m m) = Some (data_m fr)"
        using h by (simp add: s'_def fr_def)
    qed (use f ok inv' lk' in \<open>auto simp: m'_def s'_def\<close>)
    moreover have "table_find p m' = Some f" using fun_cong [OF lk', of p] by simp
    ultimately show ?thesis using fetch s' by (auto simp: bpm_rep_def)
  next
    case None
    from bpm_room [OF rep] show ?thesis
    proof (elim disjE exE conjE)
      assume "GetVictimPage m = Some (None, m)" "\<forall>f < length (pages m). 0 < pin_count (pages m ! f)"
      then show ?thesis using None by (simp add: bpm_FetchPage_def)
    next
      fix f m1
      assume m1: "GetVictimPage m = Some (Some f, m1)" "in_transit f m1" "table_ok m1"
        "disk_m m1 = disk_m m" "holds_ok (\<lambda>q. table_find q m1) m1 s" "\<forall>q. table_find q m1 = table_find q m"
      obtain m2 where m2: "bpm_evict f m1 = Some m2" "pages m2 = pages m1" "table_ok m2" "frames_ok {f} m2"
        "maps_ok (\<lambda>q. table_find q m2) {f} m2" "holds_ok (\<lambda>q. table_find q m2) m2 s"
        "\<And>q. table_find q m2 = (if q = frame_page_id (pages m1 ! f) then None else table_find q m1)"
        using bpm_evict_spec [OF m1(3,2,5)] by blast
      have lk2: "table_find p m2 = None" using m2(7) m1(6) None by simp
      obtain t where t: "ext_Insert hash_page_id p f (page_table m2) = Some t" "table_ok (m2\<lparr>page_table := t\<rparr>)"
        "\<And>q. table_find q (m2\<lparr>page_table := t\<rparr>) = (if q = p then Some f else table_find q m2)"
        using table_insert [OF m2(3) ok _ lk2] holds_ok_page_ok [OF m2(6)] by blast
      have disk: "on_disk p (disk_m m2) = Some d" "db_good (disk_m m2)"
        using m2(6) d lk2 by (simp_all add: holds_ok_def)
      have rd: "ReadPage p b (disk_m m2) = Some (d, disk_m m2)" for b
        using ReadPage_on_disk [OF ok disk(2,1)] .
      have f: "f < length (pages m2)" "f \<notin> set (free_list m2)"
        using m1(2) m2(2,4) by (auto simp: in_transit_def frames_ok_def)
      let ?g = "\<lambda>fr. fr\<lparr>data_m := d, pin_count := 1, is_dirty := False, frame_page_id := p\<rparr>"
      define m3 where "m3 = m2\<lparr>page_table := t\<rparr>"
      define m' where "m' = update_frame f ?g m3"
      have fetch: "bpm_FetchPage p m = Some (Some f, m')"
        using None m1(1) m2(1) t(1) rd by (simp add: bpm_FetchPage_def Let_def m'_def m3_def update_frame_def)
      have lk': "(\<lambda>q. table_find q m') = (\<lambda>q. table_find q m2)(p := Some f)"
        using t(3) by (auto simp: m'_def m3_def)
      have "frames_ok {} m'"
        unfolding m'_def using m2(4) f length_on_disk [OF disk(1)] by (intro frames_ok_install) (auto simp: m3_def)
      moreover have "maps_ok (\<lambda>q. table_find q m') {} m'"
      proof -
        have "maps_ok ((\<lambda>q. table_find q m2)(p := Some f)) {} m'"
          unfolding m'_def using m2(5) f lk2 by (intro maps_ok_install) (auto simp: m3_def)
        then show ?thesis by (simp only: lk')
      qed
      moreover have "table_ok m'" using t(2) by (simp add: table_ok_def m'_def m3_def)
      moreover have "holds_ok (\<lambda>q. table_find q m') m' s'"
      proof -
        have nf: "table_find q m2 \<noteq> Some f" for q using m2(5) by (auto simp: maps_ok_def)
        have pg: "pages m' ! g = (if g = f then ?g (pages m2 ! f) else pages m2 ! g)" "disk_m m' = disk_m m2" for g
          using f by (simp_all add: m'_def m3_def)
        have pin: "pins s p = 0" using m2(6) lk2 by (simp add: holds_ok_def)
        show ?thesis
        proof (rule holds_ok_change [OF m2(6)])
          show "q = p" if "table_find q m2 = Some f" for q using nf that by blast
          show "pages m' = (pages m2)[f := ?g (pages m2 ! f)]" "disk_m m' = disk_m m2"
            by (simp_all add: m'_def m3_def update_frame_def)
          show "contents s' = (contents s)(p := Some (data_m (?g (pages m2 ! f))))"
            using d by (auto simp: s'_def)
          show "pins s' = (pins s)(p := pin_count (?g (pages m2 ! f)))" using pin by (simp add: s'_def)
        qed (use f disk ok inv' lk' in \<open>auto simp: s'_def\<close>)
      qed
      moreover have "table_find p m' = Some f" using fun_cong [OF lk', of p] by simp
      ultimately show ?thesis using fetch s' by (auto simp: bpm_rep_def)
    qed
  qed
qed

lemma bpm_resident:
  assumes rep: "bpm_rep m s" and "0 < pins s p"
  obtains f where "table_find p m = Some f" and "pin_count (pages m ! f) = pins s p"
    and "f < length (pages m)" and "f \<notin> set (free_list m)" and "length (data_m (pages m ! f)) = 512"
    and "contents s p = Some (data_m (pages m ! f))" and "page_ok p"
    and "frame_page_id (pages m ! f) = p"
    and "is_dirty (pages m ! f) \<or> p \<in> pending s \<or> on_disk p (disk_m m) = Some (data_m (pages m ! f))"
proof -
  note r = bpm_rep_parts [OF rep]
  obtain f where f: "table_find p m = Some f"
    using r(4) assms(2) unfolding holds_ok_def by (metis less_irrefl option.exhaust)
  then have "f < length (pages m)" "f \<notin> set (free_list m)" "frame_page_id (pages m ! f) = p"
    using r(3) unfolding maps_ok_def by blast+
  then show ?thesis
    using that [OF f] f r(2,4) by (simp add: holds_ok_def frames_ok_def)
qed

theorem UnpinPage_refines:
  assumes rep: "bpm_rep m s" and unpin: "st_unpin p b s = Some s'"
  shows "\<exists>m'. bpm_UnpinPage p b m = Some (True, m') \<and> bpm_rep m' s'"
proof -
  note r = bpm_rep_parts [OF rep]
  have "0 < pins s p" using unpin by (simp add: st_unpin_def Let_def split: if_splits)
  then obtain f where f: "table_find p m = Some f" "pin_count (pages m ! f) = pins s p"
    "f < length (pages m)" "f \<notin> set (free_list m)" "length (data_m (pages m ! f)) = 512"
    "contents s p = Some (data_m (pages m ! f))" "page_ok p" "frame_page_id (pages m ! f) = p"
    "is_dirty (pages m ! f) \<or> p \<in> pending s \<or> on_disk p (disk_m m) = Some (data_m (pages m ! f))"
    using bpm_resident [OF rep] by metis
  have inv': "store_inv s'" using store_inv_unpin [OF _ unpin] r(4) by (simp add: holds_ok_def)
  obtain xs where xs: "lru_abs (replacer_m m) xs" "set xs =
      {g. g < length (pages m) \<and> g \<notin> set (free_list m) \<and> pin_count (pages m ! g) = 0}"
    using frames_ok_list [OF r(2)] by blast
  have fxs: "f \<notin> set xs" using xs(2) f(2) \<open>0 < pins s p\<close> by simp
  define fr where "fr = (pages m ! f)\<lparr>is_dirty := is_dirty (pages m ! f) \<or> b, pin_count := pin_count (pages m ! f) - 1\<rparr>"
  obtain rr where rr: "lru_Insert f (replacer_m m) = Some rr" "lru_abs rr (f # filter (\<lambda>y. y \<noteq> f) xs)"
    using lru.ins_abs [OF xs(1)] by blast
  define m' where "m' = m\<lparr>pages := (pages m)[f := fr],
    replacer_m := (if pin_count fr = 0 then rr else replacer_m m)\<rparr>"
  have run: "bpm_UnpinPage p b m = Some (True, m')"
    using f(1,2,3) rr(1) \<open>0 < pins s p\<close>
    by (simp add: bpm_UnpinPage_def m'_def fr_def update_frame_def Let_def)
  have lk: "(\<lambda>q. table_find q m') = (\<lambda>q. table_find q m)(p := Some f)"
    using f(1) by (auto simp: m'_def table_find_def)
  have "frames_ok {} m'"
  proof (rule frames_ok_change [OF r(2) f(3,4) _ _ _ _ xs])
    show "lru_abs (replacer_m m') (if pin_count fr = 0 then f # filter (\<lambda>y. y \<noteq> f) xs else xs)"
      using rr(2) xs(1) by (simp add: m'_def)
    show "set (if pin_count fr = 0 then f # filter (\<lambda>y. y \<noteq> f) xs else xs) =
        (if pin_count fr = 0 then insert f (set xs) else set xs - {f})"
      using fxs by auto
  qed (use f \<open>0 < pins s p\<close> in \<open>simp_all add: m'_def fr_def\<close>)
  moreover have "maps_ok (\<lambda>q. table_find q m') {} m'"
    using maps_ok_change [OF r(3) f(3), of m' fr] by (simp add: m'_def fr_def table_find_def)
  moreover have "table_ok m'" using r(1) by (simp add: table_ok_def m'_def)
  moreover have "holds_ok (\<lambda>q. table_find q m') m' s'"
  proof (rule holds_ok_change [OF r(4)])
    show "q = p" if "table_find q m = Some f" for q
      using maps_ok_uniq [of "\<lambda>q. table_find q m"] r(3) f(1) that by blast
    have s': "s' = s\<lparr>pins := (pins s)(p := pins s p - 1), pending := (if b then pending s - {p} else pending s)\<rparr>"
      using unpin by (simp add: st_unpin_def Let_def split: if_splits)
    show "contents s' = (contents s)(p := Some (data_m fr))" "pins s' = (pins s)(p := pin_count fr)"
      using f by (auto simp: s' fr_def)
    show "pending s - {p} \<subseteq> pending s'" "next_id s' = next_id s" by (auto simp: s')
    show "is_dirty fr \<or> p \<in> pending s' \<or> on_disk p (disk_m m) = Some (data_m fr)"
      using f(9) by (auto simp: s' fr_def)
  qed (use f inv' lk in \<open>auto simp: m'_def\<close>)
  ultimately show ?thesis using run by (auto simp: bpm_rep_def)
qed

text \<open>A client's write to a pinned page.\<close>

theorem write_refines:
  assumes rep: "bpm_rep m s" and put: "st_put p bs s = Some s'" and "length bs = 512"
    and fp: "table_find p m = Some f"
  shows "bpm_rep (bpm_write f bs m) s'"
proof -
  note r = bpm_rep_parts [OF rep]
  have "0 < pins s p" using put by (simp add: st_put_def split: if_splits)
  then have f: "pin_count (pages m ! f) = pins s p"
    "f < length (pages m)" "f \<notin> set (free_list m)" "page_ok p" "0 < pin_count (pages m ! f)"
    using bpm_resident [OF rep] fp by (metis option.inject)+
  have inv': "store_inv s'" using store_inv_put [OF _ put] r(4) by (simp add: holds_ok_def)
  obtain xs where xs: "lru_abs (replacer_m m) xs" "set xs =
      {g. g < length (pages m) \<and> g \<notin> set (free_list m) \<and> pin_count (pages m ! g) = 0}"
    using frames_ok_list [OF r(2)] by blast
  define fr where "fr = (pages m ! f)\<lparr>data_m := bs\<rparr>"
  define m' where "m' = m\<lparr>pages := (pages m)[f := fr]\<rparr>"
  have m': "bpm_write f bs m = m'" by (simp add: bpm_write_def update_frame_def m'_def fr_def)
  have lk: "(\<lambda>q. table_find q m') = (\<lambda>q. table_find q m)(p := Some f)"
    using fp by (auto simp: m'_def table_find_def)
  have "frames_ok {} m'"
  proof (rule frames_ok_change [OF r(2) f(2,3) _ _ _ _ xs])
    show "lru_abs (replacer_m m') xs" using xs(1) by (simp add: m'_def)
    show "set xs = (if pin_count fr = 0 then insert f (set xs) else set xs - {f})"
      using f(5) xs(2) by (auto simp: fr_def)
  qed (use f assms(3) in \<open>simp_all add: m'_def fr_def\<close>)
  moreover have "maps_ok (\<lambda>q. table_find q m') {} m'"
    using maps_ok_change [OF r(3) f(2), of m' fr] by (simp add: m'_def fr_def table_find_def)
  moreover have "table_ok m'" using r(1) by (simp add: table_ok_def m'_def)
  moreover have "holds_ok (\<lambda>q. table_find q m') m' s'"
  proof (rule holds_ok_change [OF r(4)])
    show "q = p" if "table_find q m = Some f" for q
      using maps_ok_uniq [of "\<lambda>q. table_find q m"] r(3) fp that by blast
    have s': "s' = s\<lparr>contents := (contents s)(p \<mapsto> bs), pending := insert p (pending s)\<rparr>"
      using put by (simp add: st_put_def split: if_splits)
    show "contents s' = (contents s)(p := Some (data_m fr))" "pins s' = (pins s)(p := pin_count fr)"
      using f by (auto simp: s' fr_def)
    show "pending s - {p} \<subseteq> pending s'" "next_id s' = next_id s" by (auto simp: s')
    show "is_dirty fr \<or> p \<in> pending s' \<or> on_disk p (disk_m m) = Some (data_m fr)"
      by (simp add: s')
  qed (use f inv' lk in \<open>auto simp: m'_def\<close>)
  ultimately show ?thesis by (simp add: m' bpm_rep_def)
qed

theorem NewPage_refines:
  assumes rep: "bpm_rep m s" and ok: "page_ok (next_id s)"
  shows "(bpm_NewPage m = Some (None, m) \<and> (\<forall>f < length (pages m). 0 < pin_count (pages m ! f))) \<or>
    (\<exists>f m'. bpm_NewPage m = Some (Some (f, next_id s), m') \<and> table_find (next_id s) m' = Some f \<and>
       bpm_rep m' (snd (st_new ResetMemory s)))"
proof -
  note r = bpm_rep_parts [OF rep]
  define p where "p = next_id s"
  have inv: "store_inv s" using r(4) by (simp add: holds_ok_def)
  then have fresh: "contents s p = None" "pins s p = 0"
    by (auto simp: store_inv_def p_def) (metis less_irrefl order_le_less)+
  from bpm_room [OF rep] show ?thesis
  proof (elim disjE exE conjE)
    assume "GetVictimPage m = Some (None, m)" "\<forall>f < length (pages m). 0 < pin_count (pages m ! f)"
    then show ?thesis by (simp add: bpm_NewPage_def)
  next
    fix f m0
    assume m0: "GetVictimPage m = Some (Some f, m0)" "in_transit f m0" "table_ok m0"
      "disk_m m0 = disk_m m" "holds_ok (\<lambda>q. table_find q m0) m0 s" "\<forall>q. table_find q m0 = table_find q m"
    define s1 where "s1 = s\<lparr>next_id := p + 1\<rparr>"
    define m1 where "m1 = m0\<lparr>disk_m := (disk_m m0)\<lparr>next_page_id_m := p + 1\<rparr>\<rparr>"
    have next_eq: "next_page_id_m (disk_m m0) = p" using m0(5) by (simp add: holds_ok_def p_def)
    have inv1: "store_inv s1" using inv by (auto simp: store_inv_def s1_def p_def)
    have od: "on_disk q (d\<lparr>next_page_id_m := x\<rparr>) = on_disk q d" for q d x by (simp add: on_disk_def)
    have tf1: "table_find q m1 = table_find q m0" for q by (simp add: m1_def)
    have h1: "holds_ok (\<lambda>q. table_find q m1) m1 s1"
      using m0(5) inv1 unfolding holds_ok_def tf1 by (simp add: m1_def s1_def od)
    have tr1: "in_transit f m1" using m0(2) by (simp add: in_transit_def m1_def)
    have tab1: "table_ok m1" using m0(3) by (simp add: table_ok_def m1_def)
    obtain m2 where m2: "bpm_evict f m1 = Some m2" "pages m2 = pages m1" "table_ok m2" "frames_ok {f} m2"
      "maps_ok (\<lambda>q. table_find q m2) {f} m2" "holds_ok (\<lambda>q. table_find q m2) m2 s1"
      "\<And>q. table_find q m2 = (if q = frame_page_id (pages m1 ! f) then None else table_find q m1)"
      using bpm_evict_spec [OF tab1 tr1 h1] by blast
    have lk2: "table_find p m2 = None"
    proof (rule ccontr)
      assume "table_find p m2 \<noteq> None"
      then have "contents s1 p \<noteq> None" using m2(6) by (auto simp: holds_ok_def)
      then show False using fresh by (simp add: s1_def)
    qed
    have pok: "page_ok p" using ok by (simp add: p_def)
    obtain t where t: "ext_Insert hash_page_id p f (page_table m2) = Some t" "table_ok (m2\<lparr>page_table := t\<rparr>)"
      "\<And>q. table_find q (m2\<lparr>page_table := t\<rparr>) = (if q = p then Some f else table_find q m2)"
      using table_insert [OF m2(3) pok _ lk2] holds_ok_page_ok [OF m2(6)] by blast
    have f: "f < length (pages m2)" "f \<notin> set (free_list m2)"
      using tr1 m2(2,4) by (auto simp: in_transit_def frames_ok_def)
    let ?g = "\<lambda>fr. fr\<lparr>frame_page_id := p, data_m := ResetMemory, is_dirty := False, pin_count := 1\<rparr>"
    define m3 where "m3 = m2\<lparr>page_table := t\<rparr>"
    define m' where "m' = update_frame f ?g m3"
    have run: "bpm_NewPage m = Some (Some (f, p), m')"
      using m0(1) m2(1) t(1) next_eq
      by (simp add: bpm_NewPage_def Let_def AllocatePage_def m'_def m3_def m1_def update_frame_def)
    have lk': "(\<lambda>q. table_find q m') = (\<lambda>q. table_find q m2)(p := Some f)"
      using t(3) by (auto simp: m'_def m3_def)
    define s' where "s' = snd (st_new ResetMemory s)"
    have s': "s' = s\<lparr>contents := (contents s)(p \<mapsto> ResetMemory), pins := (pins s)(p := 1),
            pending := insert p (pending s), next_id := p + 1\<rparr>"
      by (simp add: s'_def st_new_def Let_def p_def)
    have inv': "store_inv s'" using store_inv_new [OF inv, of ResetMemory p s'] by (simp add: s'_def st_new_def Let_def p_def)
    have "frames_ok {} m'"
      unfolding m'_def using m2(4) f by (intro frames_ok_install) (auto simp: m3_def ResetMemory_def config_defs)
    moreover have "maps_ok (\<lambda>q. table_find q m') {} m'"
    proof -
      have "maps_ok ((\<lambda>q. table_find q m2)(p := Some f)) {} m'"
        unfolding m'_def using m2(5) f lk2 by (intro maps_ok_install) (auto simp: m3_def)
      then show ?thesis by (simp only: lk')
    qed
    moreover have "table_ok m'" using t(2) by (simp add: table_ok_def m'_def m3_def)
    moreover have "holds_ok (\<lambda>q. table_find q m') m' s'"
    proof (rule holds_ok_change [OF m2(6)])
      show "q = p" if "table_find q m2 = Some f" for q using m2(5) that by (auto simp: maps_ok_def)
      show "pages m' = (pages m2)[f := ?g (pages m2 ! f)]" "disk_m m' = disk_m m2"
        by (simp_all add: m'_def m3_def update_frame_def)
    qed (use f pok inv' lk' in \<open>auto simp: s' s1_def\<close>)
    moreover have "table_find p m' = Some f" using fun_cong [OF lk', of p] by simp
    ultimately show ?thesis using run by (auto simp: bpm_rep_def p_def s'_def)
  qed
qed

text \<open>A flush changes nothing a client can see, and leaves the page on disk.\<close>

theorem FlushPage_refines:
  assumes rep: "bpm_rep m s" and "table_find p m = Some f"
  shows "\<exists>m'. bpm_FlushPage p m = Some (True, m') \<and> bpm_rep m' s \<and>
    (p \<notin> pending s \<or> is_dirty (pages m ! f) \<longrightarrow> on_disk p (disk_m m') = contents s p)"
proof -
  note r = bpm_rep_parts [OF rep] and fp = assms(2)
  have f: "f < length (pages m)" "f \<notin> set (free_list m)" "frame_page_id (pages m ! f) = p"
    using r(3) fp unfolding maps_ok_def by blast+
  have h: "contents s p = Some (data_m (pages m ! f))" "pins s p = pin_count (pages m ! f)" "page_ok p"
    "is_dirty (pages m ! f) \<or> p \<in> pending s \<or> on_disk p (disk_m m) = Some (data_m (pages m ! f))"
    "db_good (disk_m m)" "store_inv s"
    using r(4) fp unfolding holds_ok_def by blast+
  show ?thesis
  proof (cases "is_dirty (pages m ! f)")
    case False
    then have "bpm_FlushPage p m = Some (True, m)"
      using fp f(3) page_ok_not_invalid [OF h(3)] by (simp add: bpm_FlushPage_def Let_def)
    then show ?thesis using rep h(1,4) False by auto
  next
    case True
    have len: "length (data_m (pages m ! f)) = 512" using r(2) f(1) by (simp add: frames_ok_def)
    obtain d where d: "WritePage p (data_m (pages m ! f)) (disk_m m) = Some d" "db_good d"
      "next_page_id_m d = next_page_id_m (disk_m m)" "on_disk p d = Some (data_m (pages m ! f))"
      "\<And>q. q \<noteq> p \<Longrightarrow> on_disk q (disk_m m) \<noteq> None \<Longrightarrow> on_disk q d = on_disk q (disk_m m)"
      using WritePage_on_disk [OF h(3,5) len] by metis
    define fr where "fr = (pages m ! f)\<lparr>is_dirty := False\<rparr>"
    define m1 where "m1 = m\<lparr>disk_m := d\<rparr>"
    define m' where "m' = m1\<lparr>pages := (pages m)[f := fr]\<rparr>"
    have run: "bpm_FlushPage p m = Some (True, m')"
      using True fp f(3) page_ok_not_invalid [OF h(3)] d(1)
      by (simp add: bpm_FlushPage_def Let_def update_frame_def m'_def m1_def fr_def)
    have lk: "(\<lambda>q. table_find q m') = (\<lambda>q. table_find q m)(p := Some f)"
      using fp by (auto simp: m'_def m1_def table_find_def)
    obtain xs where xs: "lru_abs (replacer_m m) xs" "set xs =
        {g. g < length (pages m) \<and> g \<notin> set (free_list m) \<and> pin_count (pages m ! g) = 0}"
      using frames_ok_list [OF r(2)] by blast
    have "frames_ok {} m'"
    proof (rule frames_ok_change [OF r(2) f(1,2) _ _ _ _ xs])
      show "lru_abs (replacer_m m') xs" using xs(1) by (simp add: m'_def m1_def)
      show "set xs = (if pin_count fr = 0 then insert f (set xs) else set xs - {f})"
        using f xs(2) by (auto simp: fr_def)
    qed (use f len r(2) in \<open>simp_all add: m'_def m1_def fr_def frames_ok_def\<close>)
    moreover have "maps_ok (\<lambda>q. table_find q m') {} m'"
      using maps_ok_change [OF r(3) f(1), of m' fr] by (simp add: m'_def m1_def fr_def table_find_def)
    moreover have "table_ok m'" using r(1) by (simp add: table_ok_def m'_def m1_def)
    moreover have "holds_ok (\<lambda>q. table_find q m') m' s"
    proof (rule holds_ok_change)
      show "holds_ok (\<lambda>q. table_find q m) m1 s"
        unfolding holds_ok_def
      proof (intro conjI allI impI)
        fix q g assume "table_find q m = Some g"
        then have "contents s q = Some (data_m (pages m ! g))" "pins s q = pin_count (pages m ! g)"
          "is_dirty (pages m ! g) \<or> q \<in> pending s \<or> on_disk q (disk_m m) = Some (data_m (pages m ! g))"
          "q = p \<longrightarrow> g = f"
          using r(4) fp unfolding holds_ok_def by auto
        then show "contents s q = Some (data_m (pages m1 ! g))" "pins s q = pin_count (pages m1 ! g)"
          "is_dirty (pages m1 ! g) \<or> q \<in> pending s \<or> on_disk q (disk_m m1) = Some (data_m (pages m1 ! g))"
          using d(4) d(5) [of q] by (cases "q = p"; auto simp: m1_def)+
      next
        fix q x assume c: "contents s q = Some x"
        then show "page_ok q" using r(4) by (simp add: holds_ok_def)
        show "on_disk q (disk_m m1) = Some x" if n: "table_find q m = None"
        proof -
          have "on_disk q (disk_m m) = Some x" "q \<noteq> p" using c n r(4) fp by (auto simp: holds_ok_def)
          then show ?thesis using d(5) [of q] by (simp add: m1_def)
        qed
      qed (use r(4) d in \<open>auto simp: holds_ok_def m1_def\<close>)
      show "q = p" if "table_find q m = Some f" for q
        using maps_ok_uniq [of "\<lambda>q. table_find q m"] r(3) fp that by blast
      show "contents s = (contents s)(p := Some (data_m fr))" "pins s = (pins s)(p := pin_count fr)"
        using h by (auto simp: fr_def)
      show "is_dirty fr \<or> p \<in> pending s \<or> on_disk p (disk_m m1) = Some (data_m fr)"
        using d(4) by (simp add: fr_def m1_def)
    qed (use f h lk in \<open>auto simp: m'_def m1_def\<close>)
    moreover have "on_disk p (disk_m m') = contents s p" using d(4) h(1) by (simp add: m'_def m1_def)
    ultimately show ?thesis using run by (auto simp: bpm_rep_def)
  qed
qed

theorem DeletePage_refines:
  assumes rep: "bpm_rep m s"
  shows "\<exists>m'. bpm_DeletePage p m = Some (fst (st_delete p s), m') \<and> bpm_rep m' (snd (st_delete p s))"
proof -
  note r = bpm_rep_parts [OF rep]
  have inv: "store_inv s" using r(4) by (simp add: holds_ok_def)
  show ?thesis
  proof (cases "0 < pins s p")
    case True
    then obtain f where "table_find p m = Some f" "pin_count (pages m ! f) = pins s p"
      using bpm_resident [OF rep] by metis
    then show ?thesis using True rep by (auto simp: bpm_DeletePage_def st_delete_def)
  next
    case unpinned: False
    then have pin: "pins s p = 0" using inv unfolding store_inv_def by (metis order_le_less)
    then have np: "p \<notin> pending s" using inv by (auto simp: store_inv_def)
    define s' where "s' = s\<lparr>contents := (contents s)(p := None), pending := pending s - {p}\<rparr>"
    have del: "st_delete p s = (True, s')" using unpinned by (simp add: st_delete_def s'_def)
    have inv': "store_inv s'" using store_inv_delete [OF inv del] .
    show ?thesis
    proof (cases "table_find p m")
      case None
      have "holds_ok (\<lambda>q. table_find q m) m s'"
        using r(4) inv' None unfolding holds_ok_def by (auto simp: s'_def)
      then show ?thesis
        using None r by (auto simp: bpm_DeletePage_def DeallocatePage_def del bpm_rep_def)
    next
      case (Some f)
      have f: "f < length (pages m)" "f \<notin> set (free_list m)" "frame_page_id (pages m ! f) = p"
        using r(3) Some unfolding maps_ok_def by blast+
      have pf: "pin_count (pages m ! f) = 0" using r(4) Some pin by (simp add: holds_ok_def)
      obtain xs where xs: "lru_abs (replacer_m m) xs" "set xs =
          {g. g < length (pages m) \<and> g \<notin> set (free_list m) \<and> pin_count (pages m ! g) = 0}"
        using frames_ok_list [OF r(2)] by blast
      obtain rr where rr: "lru_Erase f (replacer_m m) = Some (f \<in> set xs, rr)"
          "lru_abs rr (filter (\<lambda>y. y \<noteq> f) xs)"
        using lru.erase_abs [OF xs(1)] by blast
      define fr where "fr = (pages m ! f)\<lparr>is_dirty := False, data_m := ResetMemory, frame_page_id := INVALID_PAGE_ID\<rparr>"
      define m1 where "m1 = m\<lparr>replacer_m := rr, page_table := snd (ext_Remove hash_page_id p (page_table m))\<rparr>"
      define m' where "m' = m1\<lparr>pages := (pages m)[f := fr], free_list := free_list m @ [f]\<rparr>"
      have run: "bpm_DeletePage p m = Some (True, m')"
        using Some pf rr(1)
        by (simp add: bpm_DeletePage_def Let_def DeallocatePage_def update_frame_def m'_def m1_def fr_def)
      have find: "table_find q m' = (if q = p then None else table_find q m)" for q
        using table_remove(2) [OF r(1), of q p] by (simp add: m'_def m1_def table_find_def)
      have nth: "pages m' ! g = (if g = f then fr else pages m ! g)" for g
        using f(1) by (simp add: m'_def nth_list_update)
      have len: "length (pages m') = length (pages m)" and fl: "free_list m' = free_list m @ [f]"
        by (simp_all add: m'_def)
      have frames: "frames_ok {} m'"
      proof -
        have "set (filter (\<lambda>y. y \<noteq> f) xs) = {g. g < length (pages m') \<and> g \<notin> set (free_list m') \<and> g \<notin> {} \<and>
            pin_count (pages m' ! g) = 0}"
          unfolding len fl nth using xs(2) by auto
        moreover have "lru_abs (replacer_m m') (filter (\<lambda>y. y \<noteq> f) xs)" using rr(2) by (simp add: m'_def m1_def)
        ultimately have "\<exists>ys. lru_abs (replacer_m m') ys \<and> set ys = {g. g < length (pages m') \<and>
            g \<notin> set (free_list m') \<and> g \<notin> {} \<and> pin_count (pages m' ! g) = 0}" by blast
        then show ?thesis
          using r(2) f pf unfolding frames_ok_def len fl nth
          by (auto simp: fr_def ResetMemory_def config_defs)
      qed
      have uniq: "q = p" if "table_find q m = Some f" for q
        using maps_ok_uniq [of "\<lambda>q. table_find q m"] r(3) Some that by blast
      have maps: "maps_ok (\<lambda>q. table_find q m') {} m'"
        unfolding maps_ok_def
      proof (intro conjI allI impI)
        fix q g assume "table_find q m' = Some g"
        then have q: "q \<noteq> p" "table_find q m = Some g" by (auto simp: find split: if_splits)
        then have "g \<noteq> f" using uniq by blast
        then show "g < length (pages m')" "g \<notin> set (free_list m')" "g \<notin> {}" "frame_page_id (pages m' ! g) = q"
          using r(3) q(2) by (simp_all add: len fl nth maps_ok_def)
      next
        fix g assume g: "g < length (pages m')" "g \<notin> set (free_list m') \<and> g \<notin> {}"
        then have "g \<noteq> f" "table_find (frame_page_id (pages m ! g)) m = Some g"
          using r(3) by (simp_all add: len fl maps_ok_def)
        moreover from this have "frame_page_id (pages m ! g) \<noteq> p" using Some by auto
        ultimately show "table_find (frame_page_id (pages m' ! g)) m' = Some g" by (simp add: nth find)
      qed
      have "table_ok m'" using table_remove(1) [OF r(1), of p] by (simp add: table_ok_def m'_def m1_def)
      moreover have "holds_ok (\<lambda>q. table_find q m') m' s'"
        unfolding holds_ok_def
      proof (intro conjI allI impI)
        fix q g assume "table_find q m' = Some g"
        then have q: "q \<noteq> p" "table_find q m = Some g" by (auto simp: find split: if_splits)
        then have "g \<noteq> f" using uniq by blast
        then show "contents s' q = Some (data_m (pages m' ! g))" "pins s' q = pin_count (pages m' ! g)"
          "is_dirty (pages m' ! g) \<or> q \<in> pending s' \<or> on_disk q (disk_m m') = Some (data_m (pages m' ! g))"
          using r(4) q by (simp_all add: nth s'_def holds_ok_def) (auto simp: m'_def m1_def)
      next
        fix q assume "table_find q m' = None"
        then show "pins s' q = 0" using r(4) pin by (auto simp: find s'_def holds_ok_def split: if_splits)
      next
        fix q x assume "contents s' q = Some x"
        then have "q \<noteq> p" "contents s q = Some x" by (auto simp: s'_def split: if_splits)
        then show "page_ok q" "table_find q m' = None \<Longrightarrow> on_disk q (disk_m m') = Some x"
          using r(4) by (simp_all add: holds_ok_def find) (auto simp: m'_def m1_def)
      qed (use r(4) inv' in \<open>auto simp: m'_def m1_def s'_def holds_ok_def\<close>)
      ultimately show ?thesis using run del frames maps by (auto simp: bpm_rep_def)
    qed
  qed
qed

text \<open>The fresh pool holds the empty store.\<close>

theorem bpm_init_rep:
  "0 < n \<Longrightarrow> bpm_rep (bpm_init n disk_init)
    \<lparr>contents = (\<lambda>_. None), pins = (\<lambda>_. 0), pending = {}, latch = (\<lambda>_. 0), next_id = 0\<rparr>"
proof -
  have find: "table_find p (bpm_init n disk_init) = None" for p
    by (simp add: table_find_def bpm_init_def ext_Find_def ext_init_def getBucketIndex_eq)
  have "table_ok (bpm_init n disk_init)"
    using ext_inv_init by (simp add: table_ok_def bpm_init_def config_defs) (simp add: ext_init_def)
  moreover have "frames_ok {} (bpm_init n disk_init)"
    unfolding frames_ok_def
    by (intro conjI exI [of _ "[]"])
      (auto simp: bpm_init_def lru_abs_init ResetMemory_def config_defs)
  moreover have "maps_ok (\<lambda>p. table_find p (bpm_init n disk_init)) {} (bpm_init n disk_init)"
    unfolding maps_ok_def find by (simp add: bpm_init_def)
  moreover have "holds_ok (\<lambda>p. table_find p (bpm_init n disk_init)) (bpm_init n disk_init)
    \<lparr>contents = (\<lambda>_. None), pins = (\<lambda>_. 0), pending = {}, latch = (\<lambda>_. 0), next_id = 0\<rparr>"
    unfolding holds_ok_def find by (simp add: bpm_init_def disk_init_def store_inv_def)
  ultimately show ?thesis by (simp add: bpm_rep_def)
qed

end
