(* ===== verification/BPM1.thy ===== *)
theory BPM1 imports BPM begin

text \<open>
  The replacer and the buffer pool of the first assignment (\<open>project1/src/buffer\<close>).  They are the
  ones of \<open>project2\<close> except in four places: \<open>UnpinPage\<close> overwrites the dirty flag, \<open>DeletePage\<close>
  leaves the page id in the freed frame, \<open>Size\<close> counts, and no check of \<open>CheckAllUnpined\<close> exists.
  The first loses updates and the second trips the assertion of \<open>GetVictimPage\<close>; both are shown.
\<close>

section \<open>The replacer\<close>

definition lru1_Insert :: "'a \<Rightarrow> 'a lru \<Rightarrow> 'a lru option" where
  "lru1_Insert value l =
     do { (ptrNow, h) \<leftarrow>
            (if map_of (mDataMap l) value \<noteq> None then
               do { ptrNow \<leftarrow> map_of (mDataMap l) value;
                    n \<leftarrow> deref (Some ptrNow) (nodes l);
                    h \<leftarrow> set_ptrNext (ptrPrev n) (ptrNext n) (nodes l);
                    n \<leftarrow> deref (Some ptrNow) h;
                    h \<leftarrow> set_ptrPrev (ptrNext n) (ptrPrev n) h;
                    Some (ptrNow, h) }
             else Some (length (nodes l),
                        nodes l @ [\<lparr>data = Some value, ptrPrev = None, ptrNext = None\<rparr>]));
          h0 \<leftarrow> deref (Some (mHead l)) h;
          let first = ptrNext h0;
          h \<leftarrow> set_ptrNext (Some ptrNow) first h;
          h \<leftarrow> set_ptrPrev first (Some ptrNow) h;
          h \<leftarrow> set_ptrPrev (Some ptrNow) (Some (mHead l)) h;
          h \<leftarrow> set_ptrNext (Some (mHead l)) (Some ptrNow) h;
          Some (l\<lparr>nodes := h, mDataMap := AList.update value ptrNow (mDataMap l)\<rparr>) }"

definition lru1_Victim :: "'a lru \<Rightarrow> ('a option \<times> 'a lru) option" where
  "lru1_Victim l =
     (if mDataMap l = [] then Some (None, l)
      else
        do { n0 \<leftarrow> deref (Some (mTail l)) (nodes l);
             let ptrLast = ptrPrev n0;
             n \<leftarrow> deref ptrLast (nodes l);
             h \<leftarrow> set_ptrPrev (Some (mTail l)) (ptrPrev n) (nodes l);
             h \<leftarrow> set_ptrNext (ptrPrev n) (Some (mTail l)) h;
             value \<leftarrow> data n;
             Some (Some value, l\<lparr>nodes := h, mDataMap := AList.delete value (mDataMap l)\<rparr>) })"

definition lru1_Erase :: "'a \<Rightarrow> 'a lru \<Rightarrow> (bool \<times> 'a lru) option" where
  "lru1_Erase value l =
     do { h \<leftarrow> (if map_of (mDataMap l) value \<noteq> None then
                 do { now \<leftarrow> map_of (mDataMap l) value;
                      n \<leftarrow> deref (Some now) (nodes l);
                      h \<leftarrow> set_ptrNext (ptrPrev n) (ptrNext n) (nodes l);
                      set_ptrPrev (ptrNext n) (ptrPrev n) h }
               else Some (nodes l));
          if map_of (mDataMap l) value \<noteq> None
          then Some (True, l\<lparr>nodes := h, mDataMap := AList.delete value (mDataMap l)\<rparr>)
          else Some (False, l\<lparr>nodes := h\<rparr>) }"

lemma lru1_Victim_eq: "lru1_Victim l = lru_Victim l"
  by (simp add: lru1_Victim_def lru_Victim_def)

lemma lru1_Erase_eq: "lru1_Erase value l = lru_Erase value l"
proof (cases "map_of (mDataMap l) value")
  case (Some a)
  then show ?thesis
    by (simp add: lru1_Erase_def lru_Erase_def Let_def)
qed (simp add: lru1_Erase_def lru_Erase_def)

section \<open>The pool\<close>

definition bpm1_GetVictimPage :: "bpm \<Rightarrow> (nat option \<times> bpm) option" where
  "bpm1_GetVictimPage m =
     (if free_list m = [] \<and> lru1_Size (replacer_m m) = 0 then Some (None, m)
      else
        do { (tar, m) \<leftarrow>
               (if free_list m = [] then
                  do { (v, r) \<leftarrow> lru1_Victim (replacer_m m); Some (v, m\<lparr>replacer_m := r\<rparr>) }
                else
                  do { let tar = hd (free_list m);
                       let m = m\<lparr>free_list := tl (free_list m)\<rparr>;
                       _ \<leftarrow> assert_that (frame_page_id (pages m ! tar) = INVALID_PAGE_ID);
                       Some (Some tar, m) });
             f \<leftarrow> tar;
             _ \<leftarrow> assert_that (pin_count (pages m ! f) = 0);
             Some (Some f, m) })"

definition bpm1_FetchPage :: "page_id \<Rightarrow> bpm \<Rightarrow> (nat option \<times> bpm) option" where
  "bpm1_FetchPage p m =
     (case table_find p m of
        Some tar_page \<Rightarrow>
          do { let m = update_frame tar_page (\<lambda>fr. fr\<lparr>pin_count := pin_count fr + 1\<rparr>) m;
               (_, r) \<leftarrow> lru1_Erase tar_page (replacer_m m);
               Some (Some tar_page, m\<lparr>replacer_m := r\<rparr>) }
      | None \<Rightarrow>
          do { (tar_page, m) \<leftarrow> bpm1_GetVictimPage m;
               case tar_page of
                 None \<Rightarrow> Some (None, m)
               | Some tar_page \<Rightarrow>
                   do { m \<leftarrow> bpm_evict tar_page m;
                        t \<leftarrow> ext_Insert hash_page_id p tar_page (page_table m);
                        let m = m\<lparr>page_table := t\<rparr>;
                        (bs, d) \<leftarrow> ReadPage p (data_m (pages m ! tar_page)) (disk_m m);
                        let m = m\<lparr>disk_m := d\<rparr>;
                        Some (Some tar_page, update_frame tar_page (\<lambda>fr. fr\<lparr>data_m := bs, pin_count := 1,
                          is_dirty := False, frame_page_id := p\<rparr>) m) } })"

definition bpm1_UnpinPage :: "page_id \<Rightarrow> bool \<Rightarrow> bpm \<Rightarrow> (bool \<times> bpm) option" where
  "bpm1_UnpinPage p dirty m =
     (case table_find p m of
        None \<Rightarrow> Some (False, m)
      | Some tarPage \<Rightarrow>
          let m = update_frame tarPage (\<lambda>fr. fr\<lparr>is_dirty := dirty\<rparr>) m in
          if pin_count (pages m ! tarPage) \<le> 0 then Some (False, m)
          else
            let m = update_frame tarPage (\<lambda>fr. fr\<lparr>pin_count := pin_count fr - 1\<rparr>) m in
            if pin_count (pages m ! tarPage) = 0 then
              do { r \<leftarrow> lru1_Insert tarPage (replacer_m m); Some (True, m\<lparr>replacer_m := r\<rparr>) }
            else Some (True, m))"

definition bpm1_FlushPage :: "page_id \<Rightarrow> bpm \<Rightarrow> (bool \<times> bpm) option" where
  "bpm1_FlushPage p m =
     (case table_find p m of
        None \<Rightarrow> Some (False, m)
      | Some tarPage \<Rightarrow>
          let fr = pages m ! tarPage in
          if frame_page_id fr = INVALID_PAGE_ID then Some (False, m)
          else if is_dirty fr then
            do { d \<leftarrow> WritePage p (data_m fr) (disk_m m);
                 Some (True, update_frame tarPage (\<lambda>fr. fr\<lparr>is_dirty := False\<rparr>) (m\<lparr>disk_m := d\<rparr>)) }
          else Some (True, m))"

definition bpm1_DeletePage :: "page_id \<Rightarrow> bpm \<Rightarrow> (bool \<times> bpm) option" where
  "bpm1_DeletePage p m =
     (case table_find p m of
        None \<Rightarrow> Some (True, m\<lparr>disk_m := DeallocatePage p (disk_m m)\<rparr>)
      | Some tarPage \<Rightarrow>
          if pin_count (pages m ! tarPage) > 0 then Some (False, m)
          else
            do { (_, r) \<leftarrow> lru1_Erase tarPage (replacer_m m);
                 let m = m\<lparr>replacer_m := r, page_table := snd (ext_Remove hash_page_id p (page_table m))\<rparr>;
                 let m = update_frame tarPage (\<lambda>fr. fr\<lparr>is_dirty := False, data_m := ResetMemory\<rparr>) m;
                 let m = m\<lparr>free_list := free_list m @ [tarPage]\<rparr>;
                 Some (True, m\<lparr>disk_m := DeallocatePage p (disk_m m)\<rparr>) })"

definition bpm1_NewPage :: "bpm \<Rightarrow> ((nat \<times> page_id) option \<times> bpm) option" where
  "bpm1_NewPage m =
     do { (tarPage, m) \<leftarrow> bpm1_GetVictimPage m;
          case tarPage of
            None \<Rightarrow> Some (None, m)
          | Some tarPage \<Rightarrow>
              do { let (p, d) = AllocatePage (disk_m m);
                   m \<leftarrow> bpm_evict tarPage (m\<lparr>disk_m := d\<rparr>);
                   t \<leftarrow> ext_Insert hash_page_id p tarPage (page_table m);
                   let m = m\<lparr>page_table := t\<rparr>;
                   Some (Some (tarPage, p), update_frame tarPage (\<lambda>fr. fr\<lparr>frame_page_id := p,
                     data_m := ResetMemory, is_dirty := False, pin_count := 1\<rparr>) m) } }"

section \<open>What goes wrong\<close>

text \<open>A page pinned twice, changed by the first client and given back clean by the second, counts as
  clean: \<open>project2\<close> keeps the flag.\<close>

lemma bpm1_Unpin_clears_dirty:
  assumes "table_find p m = Some f" and "f < length (pages m)" and "pin_count (pages m ! f) = 2"
    and "is_dirty (pages m ! f)"
  shows "\<exists>m'. bpm1_UnpinPage p False m = Some (True, m') \<and> \<not> is_dirty (pages m' ! f)"
    and "\<exists>m'. bpm_UnpinPage p False m = Some (True, m') \<and> is_dirty (pages m' ! f)"
  using assms by (simp_all add: bpm1_UnpinPage_def bpm_UnpinPage_def Let_def)

text \<open>After \<open>DeletePage\<close> of a resident page the freed frame keeps its page id, so the assertion of
  \<open>GetVictimPage\<close> fails as soon as the frame is first in the free list.\<close>

lemma bpm1_Delete_breaks_victim:
  assumes "bpm_rep m s" and "free_list m = []" and "table_find p m = Some f" and "pins s p = 0"
  obtains m' where "bpm1_DeletePage p m = Some (True, m')" and "bpm1_GetVictimPage m' = None"
proof -
  note r = bpm_rep_parts [OF assms(1)]
  have f: "f < length (pages m)" "frame_page_id (pages m ! f) = p" "pin_count (pages m ! f) = 0" "page_ok p"
    using r(3,4) assms(3,4) unfolding maps_ok_def holds_ok_def by (blast, blast, fastforce, blast)
  obtain xs where xs: "lru_abs (replacer_m m) xs" using frames_ok_list [OF r(2)] by blast
  obtain rr where rr: "lru_Erase f (replacer_m m) = Some (f \<in> set xs, rr)"
    using lru.erase_abs [OF xs] by blast
  have "p \<noteq> INVALID_PAGE_ID" using page_ok_not_invalid [OF f(4)] .
  then show ?thesis
    using assms(2,3) f rr that
    by (simp add: bpm1_DeletePage_def bpm1_GetVictimPage_def lru1_Erase_eq Let_def DeallocatePage_def update_frame_def)
qed

text \<open>C38. In the first version of the pool a change is lost: when two clients hold a changed page and
  one gives it back as clean, the page counts as clean, while the second version keeps it dirty.\<close>

theorem bpm1_Unpin_loses_dirty_flag:
  assumes "table_find p m = Some f" and "f < length (pages m)" and "pin_count (pages m ! f) = 2"
    and "is_dirty (pages m ! f)"
  shows "(\<exists>m'. bpm1_UnpinPage p False m = Some (True, m') \<and> \<not> is_dirty (pages m' ! f)) \<and>
    (\<exists>m'. bpm_UnpinPage p False m = Some (True, m') \<and> is_dirty (pages m' ! f))"
  using bpm1_Unpin_clears_dirty [OF assms] by blast

theorem bpm1_Unpin_loses_dirty_flag_witness:
  "\<exists>m m'. bpm1_UnpinPage 0 False m = Some (True, m') \<and> is_dirty (pages m ! 0) \<and> \<not> is_dirty (pages m' ! 0)"
proof -
  let ?fr = "\<lparr>data_m = replicate 512 0, frame_page_id = 0, pin_count = 2, is_dirty = True\<rparr>"
  let ?t = "(ext_init 50)\<lparr>bucket_heap := [\<lparr>localDepth = 0, dataMap = [(0, 0)]\<rparr>]\<rparr>"
  define m where "m = (bpm_init 1 disk_init)\<lparr>pages := [?fr], page_table := ?t\<rparr>"
  have "table_find 0 m = Some 0"
    by (simp add: m_def table_find_def ext_Find_def ext_init_def getBucketIndex_eq)
  then have "\<exists>m'. bpm1_UnpinPage 0 False m = Some (True, m') \<and> \<not> is_dirty (pages m' ! 0)"
    using bpm1_Unpin_loses_dirty_flag [of 0 m 0] by (simp add: m_def)
  moreover have "is_dirty (pages m ! 0)" by (simp add: m_def)
  ultimately show ?thesis by blast
qed

text \<open>In the first version, deleting a resident page that nobody holds makes the next search for a
  frame fail an assertion: the freed frame still has its page id.\<close>

theorem bpm1_Delete_then_victim_aborts:
  assumes "bpm_rep m s" and "free_list m = []" and "table_find p m = Some f" and "pins s p = 0"
  shows "\<exists>m'. bpm1_DeletePage p m = Some (True, m') \<and> bpm1_GetVictimPage m' = None"
  using bpm1_Delete_breaks_victim [OF assms] by metis

theorem bpm1_Delete_then_victim_aborts_witness:
  "\<exists>m m'. bpm1_DeletePage 0 m = Some (True, m') \<and> bpm1_GetVictimPage m' = None"
proof -
  let ?fr = "\<lparr>data_m = replicate 512 0, frame_page_id = 0, pin_count = 0, is_dirty = True\<rparr>"
  let ?s = "\<lparr>contents = [0 \<mapsto> replicate 512 0], pins = (\<lambda>_. 0), pending = {}, latch = (\<lambda>_. 0), next_id = 1\<rparr>"
  obtain r where r: "lru_abs r [0::nat]" using lru.ins_abs [OF lru_abs_init, of 0] by auto
  have i: "ext_inv hash_page_id (ext_init 50 :: (page_id, nat) ext_hash)" by (rule ext_inv_init)
  obtain t where t: "ext_Insert hash_page_id 0 0 (ext_init 50) = Some (t :: (page_id, nat) ext_hash)"
    using ext_Insert_total [OF i, of 0 0] by (auto simp: ext_init_def ext_keys_def ext_Find_def getBucketIndex_eq)
  have f: "ext_inv hash_page_id t" "mBucketSize t = 50" "ext_Find hash_page_id p t = (if p = 0 then Some 0 else None)" for p
    using ext_Insert_spec [OF i t] by (auto simp: ext_Find_init) (simp add: ext_init_def)
  define m where "m = \<lparr>pages = [?fr], page_table = t, replacer_m = r, free_list = [],
      disk_m = disk_init\<lparr>next_page_id_m := 1\<rparr>\<rparr>"
  have m: "pages m = [?fr]" "free_list m = []" "disk_m m = disk_init\<lparr>next_page_id_m := 1\<rparr>" "replacer_m m = r"
    "page_table m = t" by (simp_all add: m_def)
  have tf: "table_find p m = (if p = 0 then Some 0 else None)" for p
    by (simp add: table_find_def m(5) f(3))
  have "frames_ok {} m" using r by (auto simp: frames_ok_def m intro!: exI [of _ "[0]"])
  moreover have "maps_ok (\<lambda>p. table_find p m) {} m" by (auto simp: maps_ok_def tf m)
  moreover have "holds_ok (\<lambda>p. table_find p m) m ?s"
    by (auto simp: holds_ok_def tf store_inv_def page_ok_def config_defs m disk_init_def)
  moreover have "table_ok m" using f(1,2) by (simp add: table_ok_def m(5))
  ultimately have "bpm_rep m ?s" by (simp add: bpm_rep_def)
  then show ?thesis using bpm1_Delete_then_victim_aborts [of m ?s 0 0] tf m(2) by auto
qed

end
