(* ===== verification/PoolRun.thy ===== *)
theory PoolRun imports BPM begin

text \<open>
  Runs of the buffer pool: every state a client reaches that follows the protocol of the page store
  represents a page store, and each further call it may make returns the answer of the store.
\<close>

datatype pool_call =
    Fetch page_id | Write page_id "byte list" | Unpin page_id bool | New | Flush page_id | Delete page_id

text \<open>\<open>Refused\<close> is the null pointer of a pool without a free frame.\<close>

datatype pool_reply = Contents "byte list" | Created page_id | Answer bool | Refused

definition pool_step :: "pool_call \<Rightarrow> bpm \<Rightarrow> (pool_reply \<times> bpm) option" where
  "pool_step c m = (case c of
     Fetch p \<Rightarrow> (case bpm_FetchPage p m of
         Some (Some f, m') \<Rightarrow> Some (Contents (data_m (pages m' ! f)), m')
       | Some (None, m') \<Rightarrow> Some (Refused, m')
       | None \<Rightarrow> None)
   | Write p bs \<Rightarrow> map_option (\<lambda>f. (Answer True, bpm_write f bs m)) (table_find p m)
   | Unpin p b \<Rightarrow> map_option (\<lambda>(r, m'). (Answer r, m')) (bpm_UnpinPage p b m)
   | New \<Rightarrow> (case bpm_NewPage m of
         Some (Some (f, p), m') \<Rightarrow> Some (Created p, m')
       | Some (None, m') \<Rightarrow> Some (Refused, m')
       | None \<Rightarrow> None)
   | Flush p \<Rightarrow> map_option (\<lambda>(r, m'). (Answer r, m')) (bpm_FlushPage p m)
   | Delete p \<Rightarrow> map_option (\<lambda>(r, m'). (Answer r, m')) (bpm_DeletePage p m))"

text \<open>What the client may call, and what the store does on a call that was not refused.\<close>

definition may_call :: "pool_call \<Rightarrow> byte list store \<Rightarrow> bool" where
  "may_call c s = (case c of
     Fetch p \<Rightarrow> contents s p \<noteq> None
   | Write p bs \<Rightarrow> 0 < pins s p \<and> length bs = 512
   | Unpin p b \<Rightarrow> st_unpin p b s \<noteq> None
   | New \<Rightarrow> page_ok (next_id s)
   | Flush p \<Rightarrow> 0 < pins s p
   | Delete p \<Rightarrow> True)"

definition store_call :: "pool_call \<Rightarrow> byte list store \<Rightarrow> pool_reply \<times> byte list store" where
  "store_call c s = (case c of
     Fetch p \<Rightarrow> (Contents (the (contents s p)), the (st_fetch p s))
   | Write p bs \<Rightarrow> (Answer True, the (st_put p bs s))
   | Unpin p b \<Rightarrow> (Answer True, the (st_unpin p b s))
   | New \<Rightarrow> (Created (next_id s), snd (st_new ResetMemory s))
   | Flush p \<Rightarrow> (Answer True, s)
   | Delete p \<Rightarrow> (Answer (fst (st_delete p s)), snd (st_delete p s)))"

definition all_pinned :: "bpm \<Rightarrow> bool" where
  "all_pinned m \<longleftrightarrow> (\<forall>f < length (pages m). 0 < pin_count (pages m ! f))"

lemma pool_step_refines:
  assumes rep: "bpm_rep m s" and call: "may_call c s"
  shows "(pool_step c m = Some (Refused, m) \<and> all_pinned m \<and> (c = New \<or> (\<exists>p. c = Fetch p))) \<or>
    (\<exists>m'. pool_step c m = Some (fst (store_call c s), m') \<and> bpm_rep m' (snd (store_call c s)))"
proof (cases c)
  case (Fetch p)
  then have p: "contents s p \<noteq> None" using call by (simp add: may_call_def)
  consider "bpm_FetchPage p m = Some (None, m)" "all_pinned m"
    | f m' s' where "bpm_FetchPage p m = Some (Some f, m')" "st_fetch p s = Some s'" "bpm_rep m' s'" "table_find p m' = Some f"
    using FetchPage_refines [OF rep p] unfolding all_pinned_def by blast
  then show ?thesis
  proof cases
    case (2 f m' s')
    have "contents s' p = contents s p" using 2(2) by (auto simp: st_fetch_def split: option.splits)
    moreover have "contents s' p = Some (data_m (pages m' ! f))"
      using bpm_rep_parts(4) [OF 2(3)] 2(4) by (simp add: holds_ok_def)
    ultimately have "the (contents s p) = data_m (pages m' ! f)" by (metis option.sel)
    then show ?thesis using 2 Fetch by (simp add: pool_step_def store_call_def)
  qed (simp add: Fetch pool_step_def)
next
  case (Write p bs)
  then have w: "0 < pins s p" "length bs = 512" using call by (simp_all add: may_call_def)
  obtain f where f: "table_find p m = Some f" using bpm_resident [OF rep w(1)] by metis
  obtain s' where s': "st_put p bs s = Some s'" using w(1) by (simp add: st_put_def)
  show ?thesis using write_refines [OF rep s' w(2) f] s' f Write by (simp add: pool_step_def store_call_def)
next
  case (Unpin p b)
  then obtain s' where s': "st_unpin p b s = Some s'" using call by (auto simp: may_call_def)
  show ?thesis using UnpinPage_refines [OF rep s'] s' Unpin by (auto simp: pool_step_def store_call_def)
next
  case New
  then have ok: "page_ok (next_id s)" using call by (simp add: may_call_def)
  consider "bpm_NewPage m = Some (None, m)" "all_pinned m"
    | f m' where "bpm_NewPage m = Some (Some (f, next_id s), m')" "bpm_rep m' (snd (st_new ResetMemory s))"
    using NewPage_refines [OF rep ok] unfolding all_pinned_def by blast
  then show ?thesis by cases (simp_all add: New pool_step_def store_call_def)
next
  case (Flush p)
  then have "0 < pins s p" using call by (simp add: may_call_def)
  then obtain f where f: "table_find p m = Some f" using bpm_resident [OF rep] by metis
  show ?thesis using FlushPage_refines [OF rep f] Flush by (auto simp: pool_step_def store_call_def)
next
  case (Delete p)
  show ?thesis using DeletePage_refines [OF rep, of p] Delete by (auto simp: pool_step_def store_call_def)
qed

section \<open>Reachable states\<close>

definition empty_store :: "byte list store" where
  "empty_store = \<lparr>contents = (\<lambda>_. None), pins = (\<lambda>_. 0), pending = {}, latch = (\<lambda>_. 0), next_id = 0\<rparr>"

inductive pool_reach :: "nat \<Rightarrow> bpm \<Rightarrow> byte list store \<Rightarrow> bool" for n where
  reach_init: "pool_reach n (bpm_init n disk_init) empty_store"
| reach_refused: "pool_reach n m s \<Longrightarrow> may_call c s \<Longrightarrow> pool_step c m = Some (Refused, m') \<Longrightarrow> pool_reach n m' s"
| reach_step: "pool_reach n m s \<Longrightarrow> may_call c s \<Longrightarrow> pool_step c m = Some (r, m') \<Longrightarrow> r \<noteq> Refused \<Longrightarrow>
    pool_reach n m' (snd (store_call c s))"

lemma store_call_not_refused: "fst (store_call c s) \<noteq> Refused"
  by (cases c) (simp_all add: store_call_def)

lemma pool_reach_rep: "pool_reach n m s \<Longrightarrow> 0 < n \<Longrightarrow> bpm_rep m s"
proof (induction rule: pool_reach.induct)
  case reach_init
  then show ?case unfolding empty_store_def by (rule bpm_init_rep)
next
  case (reach_refused m s c m')
  then have "bpm_rep m s" by simp
  from pool_step_refines [OF this reach_refused.hyps(2)] show ?case
    using reach_refused.hyps(3) store_call_not_refused [of c s] \<open>bpm_rep m s\<close> by auto
next
  case (reach_step m s c r m')
  then have "bpm_rep m s" by simp
  from pool_step_refines [OF this reach_step.hyps(2)] show ?case
    using reach_step.hyps(3,4) by auto
qed



end
