(* ===== verification/BPage.thy ===== *)
theory BPage imports Base begin

text \<open>
  The header every B+ tree page starts with (\<open>page/b_plus_tree_page.h\<close> and
  \<open>page/b_plus_tree_page.cpp\<close>), and the contract of the key comparators the pages are
  instantiated with.  Leaf and internal pages extend the header record, as the C++ classes
  inherit from \<open>BPlusTreePage\<close>, so the operations here are polymorphic in the rest of the page.
\<close>

section \<open>The page header\<close>

datatype IndexPageType = INVALID_INDEX_PAGE | LEAF_PAGE | INTERNAL_PAGE

datatype eOpType = OP_READ | OP_INSERT | OP_DELETE

record bpt_header =
  page_type_m :: IndexPageType
  lsn_m :: int
  size_m :: int
  max_size_m :: int
  parent_page_id_m :: page_id
  page_id_m :: page_id

definition IsLeafPage :: "'z bpt_header_scheme \<Rightarrow> bool" where
  "IsLeafPage p = (if page_type_m p = LEAF_PAGE then True else False)"

definition IsRootPage :: "'z bpt_header_scheme \<Rightarrow> bool" where
  "IsRootPage p = (if parent_page_id_m p = INVALID_PAGE_ID then True else False)"

definition SetPageType :: "IndexPageType \<Rightarrow> 'z bpt_header_scheme \<Rightarrow> 'z bpt_header_scheme" where
  "SetPageType t p = p\<lparr>page_type_m := t\<rparr>"

definition GetSize :: "'z bpt_header_scheme \<Rightarrow> int" where
  "GetSize p = size_m p"

definition SetSize :: "int \<Rightarrow> 'z bpt_header_scheme \<Rightarrow> 'z bpt_header_scheme" where
  "SetSize n p = p\<lparr>size_m := n\<rparr>"

definition IncreaseSize :: "int \<Rightarrow> 'z bpt_header_scheme \<Rightarrow> 'z bpt_header_scheme" where
  "IncreaseSize amount p = p\<lparr>size_m := size_m p + amount\<rparr>"

definition GetMaxSize :: "'z bpt_header_scheme \<Rightarrow> int" where
  "GetMaxSize p = max_size_m p"

definition SetMaxSize :: "int \<Rightarrow> 'z bpt_header_scheme \<Rightarrow> 'z bpt_header_scheme" where
  "SetMaxSize n p = p\<lparr>max_size_m := n\<rparr>"

definition GetMinSize :: "'z bpt_header_scheme \<Rightarrow> int" where
  "GetMinSize p =
     (if IsRootPage p then (if IsLeafPage p then 1 else 2) else max_size_m p div 2)"

definition GetParentPageId :: "'z bpt_header_scheme \<Rightarrow> page_id" where
  "GetParentPageId p = parent_page_id_m p"

definition SetParentPageId :: "page_id \<Rightarrow> 'z bpt_header_scheme \<Rightarrow> 'z bpt_header_scheme" where
  "SetParentPageId i p = p\<lparr>parent_page_id_m := i\<rparr>"

definition GetPageId :: "'z bpt_header_scheme \<Rightarrow> page_id" where
  "GetPageId p = page_id_m p"

definition SetPageId :: "page_id \<Rightarrow> 'z bpt_header_scheme \<Rightarrow> 'z bpt_header_scheme" where
  "SetPageId i p = p\<lparr>page_id_m := i\<rparr>"

definition SetLSN :: "int \<Rightarrow> 'z bpt_header_scheme \<Rightarrow> 'z bpt_header_scheme" where
  "SetLSN l p = p\<lparr>lsn_m := l\<rparr>"

text \<open>\<open>isSafe\<close>: whether an operation that goes below this page cannot change its parent, so the
  latches above it may be released.  The code asserts false for a read.\<close>

definition isSafe :: "eOpType \<Rightarrow> 'z bpt_header_scheme \<Rightarrow> bool option" where
  "isSafe op p =
     (let size = GetSize p in
      if op = OP_INSERT then
        (if size < GetMaxSize p then Some True else Some False)
      else
        let min_size = GetMinSize p + 1 in
        if op = OP_DELETE then
          Some (if IsLeafPage p then size \<ge> min_size else size > min_size)
        else None)"

named_theorems header_defs \<open>accessors and mutators of the page header\<close>

lemmas [header_defs] =
  IsLeafPage_def IsRootPage_def SetPageType_def GetSize_def SetSize_def IncreaseSize_def
  GetMaxSize_def SetMaxSize_def GetParentPageId_def SetParentPageId_def GetPageId_def
  SetPageId_def SetLSN_def

text \<open>A page that is safe for an insertion has room for one more entry, and a leaf that is safe
  for a deletion keeps its minimum without one of its entries.\<close>

lemma isSafe_insert: "isSafe OP_INSERT p = Some (size_m p < max_size_m p)"
  by (simp add: isSafe_def header_defs)

lemma isSafe_delete_leaf:
  "page_type_m p = LEAF_PAGE \<Longrightarrow> isSafe OP_DELETE p = Some (GetMinSize p \<le> size_m p - 1)"
  by (auto simp: isSafe_def header_defs)

lemma isSafe_delete_internal:
  "page_type_m p \<noteq> LEAF_PAGE \<Longrightarrow> isSafe OP_DELETE p = Some (GetMinSize p < size_m p - 1)"
  by (auto simp: isSafe_def header_defs)

section \<open>Key comparators\<close>

text \<open>
  The pages call \<open>comparator(lhs, rhs)\<close>, an \<open>int\<close> that is negative, zero or positive, on the
  keys they hold.  The contract relies on a set \<open>K\<close> of valid keys (for \<open>GenericComparator\<close>
  the keys without a NULL column, on which it is a total order).
\<close>

locale key_order =
  fixes cmp :: "'k \<Rightarrow> 'k \<Rightarrow> int"
    and K :: "'k set"
  assumes cmp_refl: "x \<in> K \<Longrightarrow> cmp x x = 0"
    and cmp_eq: "x \<in> K \<Longrightarrow> y \<in> K \<Longrightarrow> cmp x y = 0 \<Longrightarrow> x = y"
    and cmp_sym: "x \<in> K \<Longrightarrow> y \<in> K \<Longrightarrow> cmp x y < 0 \<longleftrightarrow> 0 < cmp y x"
    and cmp_trans: "x \<in> K \<Longrightarrow> y \<in> K \<Longrightarrow> z \<in> K \<Longrightarrow> cmp x y < 0 \<Longrightarrow> cmp y z < 0 \<Longrightarrow> cmp x z < 0"
begin

lemma cmp_zero_iff: "x \<in> K \<Longrightarrow> y \<in> K \<Longrightarrow> cmp x y = 0 \<longleftrightarrow> x = y"
  using cmp_refl cmp_eq by blast

lemma cmp_pos_iff: "x \<in> K \<Longrightarrow> y \<in> K \<Longrightarrow> 0 < cmp x y \<longleftrightarrow> cmp y x < 0"
  using cmp_sym by blast

lemma cmp_nonneg_iff: "x \<in> K \<Longrightarrow> y \<in> K \<Longrightarrow> 0 \<le> cmp x y \<longleftrightarrow> cmp y x \<le> 0"
  by (metis cmp_pos_iff cmp_zero_iff linorder_not_less order_le_less)

lemma cmp_le_less_trans:
  "x \<in> K \<Longrightarrow> y \<in> K \<Longrightarrow> z \<in> K \<Longrightarrow> cmp x y \<le> 0 \<Longrightarrow> cmp y z < 0 \<Longrightarrow> cmp x z < 0"
  by (metis cmp_eq cmp_trans order_le_less)

lemma cmp_less_le_trans:
  "x \<in> K \<Longrightarrow> y \<in> K \<Longrightarrow> z \<in> K \<Longrightarrow> cmp x y < 0 \<Longrightarrow> cmp y z \<le> 0 \<Longrightarrow> cmp x z < 0"
  by (metis cmp_eq cmp_trans order_le_less)

lemma cmp_neq: "x \<in> K \<Longrightarrow> cmp x y < 0 \<Longrightarrow> x \<noteq> y"
  using cmp_refl by fastforce

end

text \<open>The entries of a page in key order: \<open>key_sorted\<close> holds of the strictly increasing lists of
  valid keys.\<close>

definition key_sorted :: "('k \<Rightarrow> 'k \<Rightarrow> int) \<Rightarrow> 'k set \<Rightarrow> ('k \<times> 'v) list \<Rightarrow> bool" where
  "key_sorted cmp K es \<longleftrightarrow> sorted_wrt (\<lambda>a b. cmp (fst a) (fst b) < 0) es \<and> fst ` set es \<subseteq> K"

lemma key_sorted_append:
  "key_sorted cmp K (xs @ ys) \<longleftrightarrow>
   key_sorted cmp K xs \<and> key_sorted cmp K ys \<and>
   (\<forall>a\<in>set xs. \<forall>b\<in>set ys. cmp (fst a) (fst b) < 0)"
  by (auto simp: key_sorted_def sorted_wrt_append)

lemma key_sorted_Nil [simp]: "key_sorted cmp K []"
  by (simp add: key_sorted_def)

lemma key_sorted_Cons:
  "key_sorted cmp K (x # xs) \<longleftrightarrow>
   fst x \<in> K \<and> key_sorted cmp K xs \<and> (\<forall>b\<in>set xs. cmp (fst x) (fst b) < 0)"
  by (auto simp: key_sorted_def)

lemma key_sorted_take: "key_sorted cmp K xs \<Longrightarrow> key_sorted cmp K (take n xs)"
  by (metis append_take_drop_id key_sorted_append)

lemma key_sorted_drop: "key_sorted cmp K xs \<Longrightarrow> key_sorted cmp K (drop n xs)"
  by (metis append_take_drop_id key_sorted_append)

lemma key_sorted_nth:
  "key_sorted cmp K xs \<Longrightarrow> i < j \<Longrightarrow> j < length xs \<Longrightarrow> cmp (fst (xs ! i)) (fst (xs ! j)) < 0"
  by (simp add: key_sorted_def sorted_wrt_iff_nth_less)

lemma key_sorted_in: "key_sorted cmp K xs \<Longrightarrow> e \<in> set xs \<Longrightarrow> fst e \<in> K"
  by (auto simp: key_sorted_def)

lemma key_sorted_nth_in: "key_sorted cmp K xs \<Longrightarrow> i < length xs \<Longrightarrow> fst (xs ! i) \<in> K"
  by (simp add: key_sorted_in)

text \<open>The position of a key in a sorted page: the number of entries below it.\<close>

definition key_pos :: "('k \<Rightarrow> 'k \<Rightarrow> int) \<Rightarrow> 'k \<Rightarrow> ('k \<times> 'v) list \<Rightarrow> nat" where
  "key_pos cmp k xs = length (takeWhile (\<lambda>e. cmp (fst e) k < 0) xs)"

lemma key_pos_le [simp]: "key_pos cmp k xs \<le> length xs"
  by (simp add: key_pos_def length_takeWhile_le)

lemma take_key_pos: "take (key_pos cmp k xs) xs = takeWhile (\<lambda>e. cmp (fst e) k < 0) xs"
  by (metis key_pos_def takeWhile_eq_take)

lemma drop_key_pos: "drop (key_pos cmp k xs) xs = dropWhile (\<lambda>e. cmp (fst e) k < 0) xs"
  by (metis dropWhile_eq_drop key_pos_def)

lemma key_pos_below: "e \<in> set (take (key_pos cmp k xs) xs) \<Longrightarrow> cmp (fst e) k < 0"
  by (auto simp: take_key_pos dest: set_takeWhileD)

lemma key_pos_eqI:
  assumes "n \<le> length xs" and "\<And>i. i < n \<Longrightarrow> cmp (fst (xs ! i)) k < 0"
    and "n < length xs \<Longrightarrow> \<not> cmp (fst (xs ! n)) k < 0"
  shows "key_pos cmp k xs = n"
proof -
  have "takeWhile (\<lambda>e. cmp (fst e) k < 0) xs = take n xs"
    using assms by (intro takeWhile_eq_take_P_nth) auto
  then show ?thesis using assms(1) by (simp add: key_pos_def)
qed

context key_order begin

lemma key_sorted_distinct: "key_sorted cmp K xs \<Longrightarrow> distinct (map fst xs)"
proof (induction xs)
  case (Cons x xs)
  then have "fst x \<noteq> fst b" if "b \<in> set xs" for b
    using that cmp_neq by (auto simp: key_sorted_Cons)
  with Cons show ?case by (auto simp: key_sorted_Cons)
qed simp

lemma key_pos_above:
  assumes "key_sorted cmp K xs" and "k \<in> K" and "e \<in> set (drop (key_pos cmp k xs) xs)"
  shows "0 \<le> cmp (fst e) k"
  using assms
proof (induction xs)
  case (Cons x xs)
  show ?case
  proof (cases "cmp (fst x) k < 0")
    case True
    with Cons show ?thesis by (auto simp: key_sorted_Cons drop_key_pos)
  next
    case False
    with Cons.prems have "e = x \<or> cmp (fst x) (fst e) < 0" "fst e \<in> K" "fst x \<in> K"
      by (auto simp: key_sorted_Cons drop_key_pos key_sorted_in)
    with False Cons.prems(2) show ?thesis
      by (metis cmp_nonneg_iff cmp_le_less_trans linorder_not_less order_less_imp_le)
  qed
qed simp

text \<open>The entry at that position is the one the key has, if the page has it.\<close>

lemma map_of_key_pos:
  assumes "key_sorted cmp K xs" and "k \<in> K"
  shows "map_of xs k =
    (if key_pos cmp k xs < length xs \<and> cmp (fst (xs ! key_pos cmp k xs)) k = 0
     then Some (snd (xs ! key_pos cmp k xs)) else None)"
  using assms
proof (induction xs)
  case (Cons x xs)
  note x = Cons.prems [unfolded key_sorted_Cons]
  consider "cmp (fst x) k < 0" | "cmp (fst x) k = 0" | "0 < cmp (fst x) k" by linarith
  then show ?case
  proof cases
    case 1
    then have "fst x \<noteq> k" using x cmp_neq by blast
    with 1 Cons x show ?thesis by (cases x) (simp add: key_pos_def)
  next
    case 2
    with x show ?thesis by (auto simp: key_pos_def cmp_zero_iff cmp_refl)
  next
    case 3
    have "fst b \<noteq> k" if "b \<in> set xs" for b
      using that 3 x by (metis cmp_pos_iff cmp_trans cmp_neq key_sorted_in)
    then have "map_of xs k = None" by (auto simp: map_of_eq_None_iff)
    moreover have "fst x \<noteq> k" using 3 x cmp_refl by fastforce
    ultimately show ?thesis using 3 by (simp add: key_pos_def)
  qed
qed (simp add: key_pos_def)

lemma map_of_None_iff_key_pos:
  "key_sorted cmp K xs \<Longrightarrow> k \<in> K \<Longrightarrow> map_of xs k = None \<Longrightarrow>
   key_pos cmp k xs < length xs \<Longrightarrow> 0 < cmp (fst (xs ! key_pos cmp k xs)) k"
  using map_of_key_pos [of xs k] key_pos_above [of xs k "xs ! key_pos cmp k xs"]
  by (fastforce simp: set_drop_nth split: if_splits)

text \<open>Inserting a fresh key at its position keeps the order and adds the entry.\<close>

lemma key_sorted_ins:
  assumes "key_sorted cmp K xs" and "k \<in> K" and "map_of xs k = None"
  shows "key_sorted cmp K (take (key_pos cmp k xs) xs @ (k, v) # drop (key_pos cmp k xs) xs)"
proof -
  have below: "cmp (fst e) k < 0" if "e \<in> set (take (key_pos cmp k xs) xs)" for e
    using that by (rule key_pos_below)
  have above: "cmp k (fst e) < 0" if e: "e \<in> set (drop (key_pos cmp k xs) xs)" for e
  proof -
    have "0 \<le> cmp (fst e) k" using key_pos_above [OF assms(1,2) e] .
    moreover have "fst e \<in> K" using e assms(1) by (meson in_set_dropD key_sorted_in)
    moreover have "fst e \<noteq> k"
      using assms(3) in_set_dropD [OF e] by (auto simp: map_of_eq_None_iff)
    ultimately show ?thesis using assms(2) by (metis cmp_nonneg_iff cmp_zero_iff order_le_less)
  qed
  have order: "cmp (fst a) (fst b) < 0"
    if "a \<in> set (take (key_pos cmp k xs) xs)" "b \<in> set (drop (key_pos cmp k xs) xs)" for a b
    using assms(1) that by (metis append_take_drop_id key_sorted_append)
  show ?thesis
    unfolding key_sorted_append key_sorted_Cons
    using assms below above order by (auto intro: key_sorted_take key_sorted_drop)
qed

lemma map_of_ins:
  "map_of xs k = None \<Longrightarrow>
   map_of (take n xs @ (k, v) # drop n xs) = (map_of xs)(k \<mapsto> v)"
proof -
  assume k: "map_of xs k = None"
  have "map_of xs = map_of (take n xs @ drop n xs)" by simp
  also have "\<dots> = map_of (drop n xs) ++ map_of (take n xs)" by (simp only: map_of_append)
  finally have split: "map_of xs = map_of (drop n xs) ++ map_of (take n xs)" .
  have "k \<notin> dom (map_of (take n xs))"
    using k split by (metis domIff map_add_None)
  then show ?thesis by (simp add: split map_add_upd_left)
qed

text \<open>Dropping the entry at a key's position removes the key and nothing else.\<close>

lemma key_sorted_del:
  "key_sorted cmp K xs \<Longrightarrow> key_sorted cmp K (take n xs @ drop (Suc n) xs)"
proof -
  assume xs: "key_sorted cmp K xs"
  then have "key_sorted cmp K (take n xs @ drop n xs)" by simp
  moreover have "set (drop (Suc n) xs) \<subseteq> set (drop n xs)"
    by (rule set_drop_subset_set_drop) simp
  ultimately show ?thesis
    using xs unfolding key_sorted_append by (auto intro: key_sorted_drop)
qed

lemma map_of_del:
  assumes "key_sorted cmp K xs" and "n < length xs" and "fst (xs ! n) = k"
  shows "map_of (take n xs @ drop (Suc n) xs) = (map_of xs)(k := None)"
proof -
  have "xs = take n xs @ xs ! n # drop (Suc n) xs"
    using assms(2) by (simp add: id_take_nth_drop)
  then obtain v where xs: "xs = take n xs @ (k, v) # drop (Suc n) xs"
    using assms(3) by (metis prod.collapse)
  have "distinct (map fst (take n xs @ (k, v) # drop (Suc n) xs))"
    using key_sorted_distinct [OF assms(1)] xs by simp
  then have "k \<notin> fst ` set (take n xs)" and "k \<notin> fst ` set (drop (Suc n) xs)"
    by auto
  then have "map_of (take n xs) k = None" and "map_of (drop (Suc n) xs) k = None"
    by (simp_all add: map_of_eq_None_iff)
  then have "map_of (take n xs @ drop (Suc n) xs) = (map_of (take n xs @ (k, v) # drop (Suc n) xs))(k := None)"
    by (auto simp: map_add_def fun_eq_iff split: option.splits)
  then show ?thesis using xs by simp
qed

end

end
