(* ===== verification/BLeaf.thy ===== *)
theory BLeaf imports BPage begin

text \<open>
  Leaf pages: \<open>page/b_plus_tree_leaf_page.h\<close> and \<open>page/b_plus_tree_leaf_page.cpp\<close>.  The page is
  its header, the next-page pointer and the raw array of key/record-id slots that fills the rest
  of the 512 bytes; only the first \<open>size\<close> slots are live.  Operations work on the raw array with
  the code's own loops; \<open>leaf_entries\<close> reads off the live entries, and the lemmas say what
  each operation does to them.
\<close>

section \<open>The page\<close>

record ('k, 'v) leaf_page = bpt_header +
  next_page_id_m :: page_id
  leaf_array :: "('k \<times> 'v) list"

text \<open>\<open>sizeof(BPlusTreeLeafPage)\<close> is 28 bytes and a slot holds a key of \<open>key_size\<close> bytes and an
  8-byte record id; one slot is left for the entry that overflows the page before a split.\<close>

definition leaf_slots :: "int \<Rightarrow> int" where
  "leaf_slots key_size = (PAGE_SIZE - 28) div (key_size + 8)"

definition leaf_SetNextPageId :: "page_id \<Rightarrow> ('k, 'v) leaf_page \<Rightarrow> ('k, 'v) leaf_page" where
  "leaf_SetNextPageId i p = p\<lparr>next_page_id_m := i\<rparr>"

definition leaf_GetNextPageId :: "('k, 'v) leaf_page \<Rightarrow> page_id" where
  "leaf_GetNextPageId p = next_page_id_m p"

definition leaf_Init ::
  "int \<Rightarrow> page_id \<Rightarrow> page_id \<Rightarrow> ('k, 'v) leaf_page \<Rightarrow> ('k, 'v) leaf_page" where
  "leaf_Init key_size page_id parent_id p =
     (let p = SetPageType LEAF_PAGE p;
          p = SetSize 0 p;
          p = SetPageId page_id p;
          p = SetParentPageId parent_id p;
          p = leaf_SetNextPageId INVALID_PAGE_ID p;
          max_size = leaf_slots key_size
      in SetMaxSize (max_size - 1) p)"

text \<open>The binary search of \<open>KeyIndex\<close>: the first index whose key is not below \<open>key\<close>.\<close>

function leaf_KeyIndex_loop ::
  "('k \<Rightarrow> 'k \<Rightarrow> int) \<Rightarrow> ('k \<times> 'v) list \<Rightarrow> 'k \<Rightarrow> int \<Rightarrow> int \<Rightarrow> int" where
  "leaf_KeyIndex_loop cmp arr key b e =
     (if b \<le> e then
        let mid = (e - b) div 2 + b in
        if cmp (fst (arr ! nat mid)) key \<ge> 0 then leaf_KeyIndex_loop cmp arr key b (mid - 1)
        else leaf_KeyIndex_loop cmp arr key (mid + 1) e
      else e + 1)"
  by pat_completeness auto
termination
  by (relation "measure (\<lambda>(cmp, arr, key, b, e). nat (e - b + 1))") auto

declare leaf_KeyIndex_loop.simps [simp del]

definition leaf_KeyIndex :: "('k \<Rightarrow> 'k \<Rightarrow> int) \<Rightarrow> 'k \<Rightarrow> ('k, 'v) leaf_page \<Rightarrow> int" where
  "leaf_KeyIndex cmp key p = leaf_KeyIndex_loop cmp (leaf_array p) key 0 (GetSize p - 1)"

definition leaf_KeyAt :: "int \<Rightarrow> ('k, 'v) leaf_page \<Rightarrow> 'k option" where
  "leaf_KeyAt index p =
     do { _ \<leftarrow> assert_that (index \<ge> 0 \<and> index < GetSize p);
          Some (fst (leaf_array p ! nat index)) }"

definition leaf_GetItem :: "int \<Rightarrow> ('k, 'v) leaf_page \<Rightarrow> 'k \<times> 'v" where
  "leaf_GetItem index p = leaf_array p ! nat index"

definition leaf_Insert ::
  "('k \<Rightarrow> 'k \<Rightarrow> int) \<Rightarrow> 'k \<Rightarrow> 'v \<Rightarrow> ('k, 'v) leaf_page \<Rightarrow> (int \<times> ('k, 'v) leaf_page) option" where
  "leaf_Insert cmp key value p =
     do { let index = leaf_KeyIndex cmp key p;
          _ \<leftarrow> assert_that (index \<ge> 0);
          let p = IncreaseSize 1 p;
          let cur_size = GetSize p;
          let arr = shift_right (leaf_array p) (nat (cur_size - 1)) (nat index);
          Some (cur_size, p\<lparr>leaf_array := arr[nat index := (key, value)]\<rparr>) }"

definition leaf_MoveHalfTo ::
  "('k, 'v) leaf_page \<Rightarrow> ('k, 'v) leaf_page \<Rightarrow> ('k, 'v) leaf_page \<times> ('k, 'v) leaf_page" where
  "leaf_MoveHalfTo p recipient =
     (let total = GetMaxSize p + 1;
          mid_index = total div 2;
          r = recipient\<lparr>leaf_array :=
                copy_loop (leaf_array p) (nat mid_index) (nat (total - mid_index)) (leaf_array recipient) 0\<rparr>;
          r = leaf_SetNextPageId (leaf_GetNextPageId p) r;
          p = leaf_SetNextPageId (GetPageId r) p;
          p = SetSize mid_index p;
          r = SetSize (total - mid_index) r
      in (p, r))"

definition leaf_Lookup :: "('k \<Rightarrow> 'k \<Rightarrow> int) \<Rightarrow> 'k \<Rightarrow> ('k, 'v) leaf_page \<Rightarrow> 'v option" where
  "leaf_Lookup cmp key p =
     (let index = leaf_KeyIndex cmp key p in
      if index < GetSize p \<and> cmp (fst (leaf_array p ! nat index)) key = 0
      then Some (snd (leaf_array p ! nat index)) else None)"

definition leaf_RemoveAndDeleteRecord ::
  "('k \<Rightarrow> 'k \<Rightarrow> int) \<Rightarrow> 'k \<Rightarrow> ('k, 'v) leaf_page \<Rightarrow> (int \<times> ('k, 'v) leaf_page) option" where
  "leaf_RemoveAndDeleteRecord cmp key p =
     do { let tar_key = leaf_KeyIndex cmp key p;
          differs \<leftarrow> (if tar_key \<ge> GetSize p then Some True
                     else do { k \<leftarrow> leaf_KeyAt tar_key p; Some (cmp key k \<noteq> 0) });
          if differs then Some (GetSize p, p)
          else do {
            let arr = memmove (nat tar_key) (nat tar_key + 1) (nat (GetSize p - tar_key - 1)) (leaf_array p);
            let p = IncreaseSize (- 1) (p\<lparr>leaf_array := arr\<rparr>);
            Some (GetSize p, p) } }"

definition leaf_MoveAllTo ::
  "('k, 'v) leaf_page \<Rightarrow> ('k, 'v) leaf_page \<Rightarrow> ('k, 'v) leaf_page \<times> ('k, 'v) leaf_page" where
  "leaf_MoveAllTo p recipient =
     (let start_index = GetSize recipient;
          r = recipient\<lparr>leaf_array :=
                copy_loop (leaf_array p) 0 (nat (GetSize p)) (leaf_array recipient) (nat start_index)\<rparr>;
          r = leaf_SetNextPageId (leaf_GetNextPageId p) r;
          r = IncreaseSize (GetSize p) r;
          p = SetSize 0 p
      in (p, r))"

definition leaf_CopyLastFrom :: "'k \<times> 'v \<Rightarrow> ('k, 'v) leaf_page \<Rightarrow> ('k, 'v) leaf_page" where
  "leaf_CopyLastFrom item p =
     IncreaseSize 1 (p\<lparr>leaf_array := (leaf_array p)[nat (GetSize p) := item]\<rparr>)"

text \<open>The page-local part of \<open>MoveFirstToEndOf\<close>; the tree layer then stores the new first key
  in the parent.\<close>

definition leaf_MoveFirstToEndOf_local ::
  "('k, 'v) leaf_page \<Rightarrow> ('k, 'v) leaf_page \<Rightarrow> ('k, 'v) leaf_page \<times> ('k, 'v) leaf_page" where
  "leaf_MoveFirstToEndOf_local p recipient =
     (let pair = leaf_GetItem 0 p;
          p = IncreaseSize (- 1) p;
          p = p\<lparr>leaf_array := memmove 0 1 (nat (GetSize p)) (leaf_array p)\<rparr>;
          r = leaf_CopyLastFrom pair recipient
      in (p, r))"

definition leaf_CopyFirstFrom_local :: "'k \<times> 'v \<Rightarrow> ('k, 'v) leaf_page \<Rightarrow> ('k, 'v) leaf_page" where
  "leaf_CopyFirstFrom_local item p =
     (let p = p\<lparr>leaf_array := memmove 1 0 (nat (GetSize p)) (leaf_array p)\<rparr>;
          p = IncreaseSize 1 p
      in p\<lparr>leaf_array := (leaf_array p)[0 := item]\<rparr>)"

definition leaf_MoveLastToFrontOf_local ::
  "('k, 'v) leaf_page \<Rightarrow> ('k, 'v) leaf_page \<Rightarrow> ('k, 'v) leaf_page \<times> ('k, 'v) leaf_page" where
  "leaf_MoveLastToFrontOf_local p recipient =
     (let pair = leaf_GetItem (GetSize p - 1) p;
          p = IncreaseSize (- 1) p
      in (p, leaf_CopyFirstFrom_local pair recipient))"

section \<open>The live entries and the page invariant\<close>

definition leaf_entries :: "('k, 'v) leaf_page \<Rightarrow> ('k \<times> 'v) list" where
  "leaf_entries p = take (nat (size_m p)) (leaf_array p)"

text \<open>A leaf is well formed when its size fits the page, with one slot to spare.\<close>

definition wf_leaf :: "('k, 'v) leaf_page \<Rightarrow> bool" where
  "wf_leaf p \<longleftrightarrow> 0 \<le> size_m p \<and> size_m p \<le> max_size_m p + 1 \<and>
     max_size_m p + 1 \<le> int (length (leaf_array p)) \<and> page_type_m p = LEAF_PAGE"

lemma length_leaf_entries [simp]: "wf_leaf p \<Longrightarrow> length (leaf_entries p) = nat (size_m p)"
  by (auto simp: wf_leaf_def leaf_entries_def)

lemma leaf_entries_nth:
  "wf_leaf p \<Longrightarrow> i < nat (size_m p) \<Longrightarrow> leaf_entries p ! i = leaf_array p ! i"
  by (simp add: leaf_entries_def)

lemma leaf_size_entries: "wf_leaf p \<Longrightarrow> size_m p = int (length (leaf_entries p))"
  by (simp add: wf_leaf_def)

section \<open>The search\<close>

context key_order begin

lemma leaf_KeyIndex_loop_spec:
  assumes "\<And>i j. i < j \<Longrightarrow> j < n \<Longrightarrow> cmp (fst (arr ! i)) (fst (arr ! j)) < 0"
    and "\<And>i. i < n \<Longrightarrow> fst (arr ! i) \<in> K" and "key \<in> K"
    and "0 \<le> b" and "b \<le> e + 1" and "e < int n"
    and "\<And>i. i < nat b \<Longrightarrow> cmp (fst (arr ! i)) key < 0"
    and "\<And>i. e < int i \<Longrightarrow> i < n \<Longrightarrow> 0 \<le> cmp (fst (arr ! i)) key"
  shows "\<exists>r. leaf_KeyIndex_loop cmp arr key b e = int r \<and> r \<le> n \<and>
    (\<forall>i<r. cmp (fst (arr ! i)) key < 0) \<and> (\<forall>i. r \<le> i \<longrightarrow> i < n \<longrightarrow> 0 \<le> cmp (fst (arr ! i)) key)"
  using assms
proof (induction "nat (e - b + 1)" arbitrary: b e rule: less_induct)
  case less
  define mid where "mid = (e - b) div 2 + b"
  show ?case
  proof (cases "b \<le> e")
    case False
    with less.prems(5) have "b = e + 1" by simp
    with less.prems show ?thesis
      by (subst leaf_KeyIndex_loop.simps) (auto intro!: exI [of _ "nat b"])
  next
    case True
    then have mid: "b \<le> mid" "mid \<le> e" "nat mid < n" "0 \<le> mid"
      using less.prems(4,6) by (auto simp: mid_def)
    have unfold: "leaf_KeyIndex_loop cmp arr key b e =
        (if cmp (fst (arr ! nat mid)) key \<ge> 0 then leaf_KeyIndex_loop cmp arr key b (mid - 1)
         else leaf_KeyIndex_loop cmp arr key (mid + 1) e)"
      using True by (subst leaf_KeyIndex_loop.simps) (simp add: mid_def Let_def)
    show ?thesis
    proof (cases "cmp (fst (arr ! nat mid)) key \<ge> 0")
      case ge: True
      have "0 \<le> cmp (fst (arr ! i)) key" if "mid - 1 < int i" "i < n" for i
      proof (cases "i = nat mid")
        case False
        with that mid have "nat mid < i" by linarith
        then have "cmp (fst (arr ! nat mid)) (fst (arr ! i)) < 0"
          using less.prems(1) that(2) by blast
        then show ?thesis
          using ge mid that less.prems(2,3)
          by (metis cmp_nonneg_iff cmp_le_less_trans order_less_imp_le)
      qed (use ge in simp)
      then show ?thesis
        using ge mid less.prems unfolding unfold by (simp, intro less.hyps) auto
    next
      case lt: False
      have "cmp (fst (arr ! i)) key < 0" if "i < nat (mid + 1)" for i
      proof (cases "i = nat mid")
        case False
        with that mid have "i < nat mid" by linarith
        then have "cmp (fst (arr ! i)) (fst (arr ! nat mid)) < 0" and "i < n"
          using less.prems(1) mid(3) by auto
        then show ?thesis using lt mid less.prems(2,3) cmp_trans by (meson not_le)
      qed (use lt in simp)
      then show ?thesis
        using lt mid less.prems unfolding unfold by (simp, intro less.hyps) auto
    qed
  qed
qed

text \<open>\<open>KeyIndex\<close> is the number of entries below the key.\<close>

lemma leaf_KeyIndex_spec:
  assumes "wf_leaf p" and "key_sorted cmp K (leaf_entries p)" and "key \<in> K"
  shows "\<exists>r. leaf_KeyIndex cmp key p = int r \<and> r \<le> length (leaf_entries p) \<and>
    (\<forall>i<r. cmp (fst (leaf_entries p ! i)) key < 0) \<and>
    (\<forall>i. r \<le> i \<longrightarrow> i < length (leaf_entries p) \<longrightarrow> 0 \<le> cmp (fst (leaf_entries p ! i)) key)"
proof -
  have "\<exists>r. leaf_KeyIndex_loop cmp (leaf_array p) key 0 (size_m p - 1) = int r \<and>
    r \<le> nat (size_m p) \<and> (\<forall>i<r. cmp (fst (leaf_array p ! i)) key < 0) \<and>
    (\<forall>i. r \<le> i \<longrightarrow> i < nat (size_m p) \<longrightarrow> 0 \<le> cmp (fst (leaf_array p ! i)) key)"
  proof (rule leaf_KeyIndex_loop_spec)
    fix i j assume "i < j" "j < nat (size_m p)"
    with assms show "cmp (fst (leaf_array p ! i)) (fst (leaf_array p ! j)) < 0"
      using key_sorted_nth [OF assms(2), of i j] by (simp add: leaf_entries_nth)
  next
    fix i assume "i < nat (size_m p)"
    with assms show "fst (leaf_array p ! i) \<in> K"
      using key_sorted_nth_in [OF assms(2), of i] by (simp add: leaf_entries_nth)
  qed (use assms in \<open>auto simp: wf_leaf_def\<close>)
  then show ?thesis
    using assms(1) by (auto simp: leaf_KeyIndex_def header_defs leaf_entries_nth)
qed

lemma leaf_KeyIndex_eq:
  assumes "wf_leaf p" and "key_sorted cmp K (leaf_entries p)" and "key \<in> K"
  shows "leaf_KeyIndex cmp key p = int (key_pos cmp key (leaf_entries p))"
proof -
  obtain r where r: "leaf_KeyIndex cmp key p = int r" "r \<le> length (leaf_entries p)"
    "\<forall>i<r. cmp (fst (leaf_entries p ! i)) key < 0"
    "\<forall>i. r \<le> i \<longrightarrow> i < length (leaf_entries p) \<longrightarrow> 0 \<le> cmp (fst (leaf_entries p ! i)) key"
    using leaf_KeyIndex_spec [OF assms] by blast
  then have "key_pos cmp key (leaf_entries p) = r"
    by (intro key_pos_eqI) (auto simp: not_less)
  with r(1) show ?thesis by simp
qed

lemma leaf_Lookup_eq:
  assumes "wf_leaf p" and "key_sorted cmp K (leaf_entries p)" and "key \<in> K"
  shows "leaf_Lookup cmp key p = map_of (leaf_entries p) key"
proof -
  define i where "i = key_pos cmp key (leaf_entries p)"
  have "leaf_KeyIndex cmp key p = int i"
    using leaf_KeyIndex_eq [OF assms] by (simp add: i_def)
  moreover have "(int i < size_m p) = (i < length (leaf_entries p))"
    using assms(1) by auto
  moreover have "leaf_array p ! i = leaf_entries p ! i" if "i < length (leaf_entries p)"
    using that assms(1) by (simp add: leaf_entries_nth)
  ultimately show ?thesis
    unfolding map_of_key_pos [OF assms(2,3)] i_def [symmetric]
    by (auto simp: leaf_Lookup_def header_defs Let_def)
qed

end

section \<open>What each operation does to the entries\<close>

text \<open>The fields no entry operation writes.\<close>

definition leaf_meta :: "('k, 'v) leaf_page \<Rightarrow> int \<times> page_id \<times> page_id \<times> page_id \<times> int" where
  "leaf_meta p =
     (max_size_m p, parent_page_id_m p, page_id_m p, next_page_id_m p, int (length (leaf_array p)))"

lemma leaf_meta_simps:
  "leaf_meta p = leaf_meta q \<Longrightarrow> max_size_m p = max_size_m q"
  "leaf_meta p = leaf_meta q \<Longrightarrow> parent_page_id_m p = parent_page_id_m q"
  "leaf_meta p = leaf_meta q \<Longrightarrow> page_id_m p = page_id_m q"
  "leaf_meta p = leaf_meta q \<Longrightarrow> next_page_id_m p = next_page_id_m q"
  "leaf_meta p = leaf_meta q \<Longrightarrow> length (leaf_array p) = length (leaf_array q)"
  by (simp_all add: leaf_meta_def)

context key_order begin

lemma leaf_Insert_spec:
  assumes wf: "wf_leaf p" and sorted: "key_sorted cmp K (leaf_entries p)" and "key \<in> K"
    and room: "size_m p \<le> max_size_m p"
  obtains p' where "leaf_Insert cmp key value p = Some (size_m p + 1, p')"
    and "leaf_entries p' =
      take (key_pos cmp key (leaf_entries p)) (leaf_entries p) @ (key, value) #
      drop (key_pos cmp key (leaf_entries p)) (leaf_entries p)"
    and "wf_leaf p'" and "leaf_meta p' = leaf_meta p" and "size_m p' = size_m p + 1"
proof -
  define n where "n = nat (size_m p)"
  define i where "i = key_pos cmp key (leaf_entries p)"
  have n: "size_m p = int n" "n < length (leaf_array p)" "leaf_entries p = take n (leaf_array p)"
    using wf room by (auto simp: n_def wf_leaf_def leaf_entries_def)
  have i: "leaf_KeyIndex cmp key p = int i" "i \<le> n"
    using leaf_KeyIndex_eq [OF wf sorted \<open>key \<in> K\<close>] key_pos_le [of cmp key "leaf_entries p"] wf
    by (auto simp: i_def n_def)
  define p' where "p' = p\<lparr>size_m := size_m p + 1,
    leaf_array := (shift_right (leaf_array p) n i)[i := (key, value)]\<rparr>"
  have "leaf_Insert cmp key value p = Some (size_m p + 1, p')"
    using i n by (simp add: leaf_Insert_def header_defs p'_def Let_def)
  moreover have "leaf_entries p' = take i (leaf_entries p) @ (key, value) # drop i (leaf_entries p)"
    using n i shift_right_insert [of n "leaf_array p" i "(key, value)"]
    by (simp add: leaf_entries_def p'_def nat_add_distrib)
  moreover have "wf_leaf p'" and "leaf_meta p' = leaf_meta p" and "size_m p' = size_m p + 1"
    using wf room by (auto simp: wf_leaf_def p'_def leaf_meta_def)
  ultimately show ?thesis using that by (simp add: i_def)
qed

lemma leaf_RemoveAndDeleteRecord_spec:
  assumes wf: "wf_leaf p" and sorted: "key_sorted cmp K (leaf_entries p)" and "key \<in> K"
  obtains p' where "leaf_RemoveAndDeleteRecord cmp key p = Some (size_m p', p')"
    and "key_sorted cmp K (leaf_entries p')"
    and "map_of (leaf_entries p') = (map_of (leaf_entries p))(key := None)"
    and "wf_leaf p'" and "leaf_meta p' = leaf_meta p"
    and "size_m p' = (if map_of (leaf_entries p) key = None then size_m p else size_m p - 1)"
proof (cases "map_of (leaf_entries p) key")
  case None
  define i where "i = key_pos cmp key (leaf_entries p)"
  have i: "leaf_KeyIndex cmp key p = int i"
    using leaf_KeyIndex_eq [OF wf sorted \<open>key \<in> K\<close>] by (simp add: i_def)
  have "cmp key (fst (leaf_array p ! i)) \<noteq> 0" if "int i < size_m p"
  proof -
    have "0 < cmp (fst (leaf_entries p ! i)) key" and "fst (leaf_entries p ! i) \<in> K"
      using that wf map_of_None_iff_key_pos [OF sorted \<open>key \<in> K\<close> None]
        key_sorted_nth_in [OF sorted, of i] by (auto simp: i_def)
    then show ?thesis
      using that wf \<open>key \<in> K\<close> by (metis cmp_refl cmp_zero_iff leaf_entries_nth nat_less_iff
          order_less_irrefl zless_nat_eq_int_zless)
  qed
  then have "leaf_RemoveAndDeleteRecord cmp key p = Some (size_m p, p)"
    using i by (auto simp: leaf_RemoveAndDeleteRecord_def header_defs leaf_KeyAt_def not_le Let_def)
  moreover have "map_of (leaf_entries p) = (map_of (leaf_entries p))(key := None)"
    using None by (simp add: fun_upd_idem)
  ultimately show ?thesis using that [of p] wf sorted None by simp
next
  case (Some v)
  define i where "i = key_pos cmp key (leaf_entries p)"
  define n where "n = nat (size_m p)"
  have i: "leaf_KeyIndex cmp key p = int i"
    using leaf_KeyIndex_eq [OF wf sorted \<open>key \<in> K\<close>] by (simp add: i_def)
  have hit: "i < n" "cmp (fst (leaf_entries p ! i)) key = 0"
    using Some map_of_key_pos [OF sorted \<open>key \<in> K\<close>] wf by (auto simp: i_def n_def split: if_splits)
  then have key: "fst (leaf_array p ! i) = key" "fst (leaf_entries p ! i) = key"
    using wf sorted key_sorted_nth_in [OF sorted, of i] \<open>key \<in> K\<close>
    by (auto simp: n_def leaf_entries_nth cmp_zero_iff)
  have n: "size_m p = int n" "n \<le> length (leaf_array p)" "leaf_entries p = take n (leaf_array p)"
    using wf by (auto simp: n_def wf_leaf_def leaf_entries_def)
  define p' where "p' = p\<lparr>size_m := size_m p - 1,
    leaf_array := memmove i (i + 1) (n - i - 1) (leaf_array p)\<rparr>"
  have "nat (int n - int i - 1) = n - i - 1" and "nat (int i + 1) = i + 1" by auto
  then have "leaf_RemoveAndDeleteRecord cmp key p = Some (size_m p', p')"
    using i hit key n \<open>key \<in> K\<close>
    by (simp add: leaf_RemoveAndDeleteRecord_def header_defs leaf_KeyAt_def p'_def cmp_refl Let_def)
  moreover have entries: "leaf_entries p' = take i (leaf_entries p) @ drop (Suc i) (leaf_entries p)"
    using n hit(1) memmove_delete [of n "leaf_array p" i]
    by (simp add: leaf_entries_def p'_def nat_diff_distrib)
  moreover have "wf_leaf p'" and "leaf_meta p' = leaf_meta p" and "size_m p' = size_m p - 1"
    using wf n hit(1) by (auto simp: wf_leaf_def p'_def leaf_meta_def)
  ultimately show ?thesis
    using that [of p'] Some key_sorted_del [OF sorted] hit key(2) wf
      map_of_del [OF sorted, of i key] by (simp add: n_def)
qed

end

lemma leaf_MoveHalfTo_spec:
  assumes wf: "wf_leaf p" and full: "size_m p = max_size_m p + 1"
    and r: "max_size_m r = max_size_m p" "length (leaf_array r) = length (leaf_array p)"
      "page_type_m r = LEAF_PAGE"
    and halves: "leaf_MoveHalfTo p r = (p', r')"
  shows "leaf_entries p' = take (nat ((max_size_m p + 1) div 2)) (leaf_entries p)"
    and "leaf_entries r' = drop (nat ((max_size_m p + 1) div 2)) (leaf_entries p)"
    and "size_m p' = (max_size_m p + 1) div 2"
    and "size_m r' = max_size_m p + 1 - (max_size_m p + 1) div 2"
    and "wf_leaf p'" and "wf_leaf r'"
    and "next_page_id_m p' = page_id_m r" and "next_page_id_m r' = next_page_id_m p"
proof -
  define n where "n = nat (max_size_m p + 1)"
  define m where "m = nat ((max_size_m p + 1) div 2)"
  have n: "max_size_m p + 1 = int n" "(max_size_m p + 1) div 2 = int m" "m \<le> n"
    "n \<le> length (leaf_array p)" "leaf_entries p = take n (leaf_array p)"
    "nat (int n - int m) = n - m"
    using wf full by (auto simp: wf_leaf_def n_def m_def leaf_entries_def)
  have eq: "p' = p\<lparr>size_m := int m, next_page_id_m := page_id_m r\<rparr>"
    "r' = r\<lparr>size_m := int n - int m, next_page_id_m := next_page_id_m p,
            leaf_array := copy_loop (leaf_array p) m (n - m) (leaf_array r) 0\<rparr>"
    using halves n by (auto simp: leaf_MoveHalfTo_def header_defs Let_def
        leaf_SetNextPageId_def leaf_GetNextPageId_def)
  have "leaf_entries r' = take (0 + (n - m)) (copy_loop (leaf_array p) m (n - m) (leaf_array r) 0)"
    using n by (simp add: eq leaf_entries_def)
  also have "\<dots> = take (n - m) (drop m (leaf_array p))"
    using n r by (subst take_copy_loop) auto
  finally show "leaf_entries r' = drop (nat ((max_size_m p + 1) div 2)) (leaf_entries p)"
    using n by (simp add: drop_take m_def)
  show "leaf_entries p' = take (nat ((max_size_m p + 1) div 2)) (leaf_entries p)"
    using n by (simp add: eq leaf_entries_def m_def)
  show "size_m p' = (max_size_m p + 1) div 2"
    "size_m r' = max_size_m p + 1 - (max_size_m p + 1) div 2"
    "next_page_id_m p' = page_id_m r" "next_page_id_m r' = next_page_id_m p"
    using n by (auto simp: eq)
  show "wf_leaf p'" "wf_leaf r'"
    using n wf r by (auto simp: eq wf_leaf_def)
qed

lemma leaf_MoveAllTo_spec:
  assumes wf: "wf_leaf p" "wf_leaf r" and room: "size_m p + size_m r \<le> max_size_m r + 1"
    and moved: "leaf_MoveAllTo p r = (p', r')"
  shows "leaf_entries r' = leaf_entries r @ leaf_entries p" and "leaf_entries p' = []"
    and "size_m r' = size_m r + size_m p" and "wf_leaf r'" and "wf_leaf p'"
    and "next_page_id_m r' = next_page_id_m p"
proof -
  define n where "n = nat (size_m p)"
  define m where "m = nat (size_m r)"
  have n: "size_m p = int n" "leaf_entries p = take n (leaf_array p)" "n \<le> length (leaf_array p)"
    and m: "size_m r = int m" "leaf_entries r = take m (leaf_array r)" "m + n \<le> length (leaf_array r)"
    using wf room by (auto simp: n_def m_def wf_leaf_def leaf_entries_def)
  have eq: "p' = p\<lparr>size_m := 0\<rparr>"
    "r' = r\<lparr>size_m := int (m + n), next_page_id_m := next_page_id_m p,
            leaf_array := copy_loop (leaf_array p) 0 n (leaf_array r) m\<rparr>"
    using moved n m by (auto simp: leaf_MoveAllTo_def header_defs Let_def
        leaf_SetNextPageId_def leaf_GetNextPageId_def)
  have "leaf_entries r' = take (m + n) (copy_loop (leaf_array p) 0 n (leaf_array r) m)"
    by (simp add: eq leaf_entries_def nat_int_add)
  also have "\<dots> = leaf_entries r @ leaf_entries p"
    using n m by (subst take_copy_loop) auto
  finally show "leaf_entries r' = leaf_entries r @ leaf_entries p" .
  show "leaf_entries p' = []" "next_page_id_m r' = next_page_id_m p"
    by (simp_all add: eq leaf_entries_def)
  show "size_m r' = size_m r + size_m p" using n m by (simp add: eq)
  show "wf_leaf r'" "wf_leaf p'"
    using n m wf room by (auto simp: eq wf_leaf_def)
qed

lemma leaf_MoveAllTo_fields:
  assumes "leaf_MoveAllTo p r = (p', r')"
  shows "page_id_m p' = page_id_m p" "page_id_m r' = page_id_m r" "parent_page_id_m r' = parent_page_id_m r"
    "max_size_m r' = max_size_m r" "length (leaf_array r') = length (leaf_array r)"
  using assms by (auto simp: leaf_MoveAllTo_def header_defs leaf_SetNextPageId_def Let_def)

lemma leaf_CopyLastFrom_spec:
  assumes "wf_leaf r" and "size_m r \<le> max_size_m r"
  shows "leaf_entries (leaf_CopyLastFrom x r) = leaf_entries r @ [x]"
    and "wf_leaf (leaf_CopyLastFrom x r)" and "size_m (leaf_CopyLastFrom x r) = size_m r + 1"
    and "leaf_meta (leaf_CopyLastFrom x r) = leaf_meta r"
proof -
  define m where "m = nat (size_m r)"
  have m: "size_m r = int m" "leaf_entries r = take m (leaf_array r)" "m < length (leaf_array r)"
    using assms by (auto simp: m_def wf_leaf_def leaf_entries_def)
  then show "leaf_entries (leaf_CopyLastFrom x r) = leaf_entries r @ [x]"
    using take_Suc_update [of m "leaf_array r" x]
    by (simp add: leaf_CopyLastFrom_def header_defs leaf_entries_def nat_add_distrib)
  show "wf_leaf (leaf_CopyLastFrom x r)" "size_m (leaf_CopyLastFrom x r) = size_m r + 1"
    "leaf_meta (leaf_CopyLastFrom x r) = leaf_meta r"
    using assms by (auto simp: leaf_CopyLastFrom_def header_defs wf_leaf_def leaf_meta_def)
qed

lemma leaf_CopyFirstFrom_spec:
  assumes "wf_leaf r" and "size_m r \<le> max_size_m r"
  shows "leaf_entries (leaf_CopyFirstFrom_local x r) = x # leaf_entries r"
    and "wf_leaf (leaf_CopyFirstFrom_local x r)"
    and "size_m (leaf_CopyFirstFrom_local x r) = size_m r + 1"
    and "leaf_meta (leaf_CopyFirstFrom_local x r) = leaf_meta r"
proof -
  define m where "m = nat (size_m r)"
  have m: "size_m r = int m" "leaf_entries r = take m (leaf_array r)" "m < length (leaf_array r)"
    using assms by (auto simp: m_def wf_leaf_def leaf_entries_def)
  then show "leaf_entries (leaf_CopyFirstFrom_local x r) = x # leaf_entries r"
    using memmove_shift_up [of m "leaf_array r" x]
    by (simp add: leaf_CopyFirstFrom_local_def header_defs leaf_entries_def nat_add_distrib Let_def)
  show "wf_leaf (leaf_CopyFirstFrom_local x r)"
    "size_m (leaf_CopyFirstFrom_local x r) = size_m r + 1"
    "leaf_meta (leaf_CopyFirstFrom_local x r) = leaf_meta r"
    using assms m length_memmove [of 1 m "leaf_array r" 0]
    by (auto simp: leaf_CopyFirstFrom_local_def header_defs wf_leaf_def leaf_meta_def Let_def)
qed

text \<open>Moving the first entry of a page to the end of its left neighbour, and the last one to the
  front of its right neighbour, keeps the concatenation of the two.\<close>

lemma leaf_MoveFirstToEndOf_spec:
  assumes wf: "wf_leaf p" "wf_leaf r" and "0 < size_m p" and "size_m r \<le> max_size_m r"
    and moved: "leaf_MoveFirstToEndOf_local p r = (p', r')"
  shows "leaf_entries r' = leaf_entries r @ [hd (leaf_entries p)]"
    and "leaf_entries p' = tl (leaf_entries p)"
    and "wf_leaf p'" and "wf_leaf r'" and "leaf_meta p' = leaf_meta p" and "leaf_meta r' = leaf_meta r"
    and "size_m p' = size_m p - 1" and "size_m r' = size_m r + 1"
proof -
  define n where "n = nat (size_m p - 1)"
  have n: "size_m p = int (Suc n)" "leaf_entries p = take (Suc n) (leaf_array p)"
    "Suc n \<le> length (leaf_array p)"
    using wf(1) assms(3) by (auto simp: n_def wf_leaf_def leaf_entries_def nat_diff_distrib)
  then have "hd (leaf_entries p) = leaf_array p ! 0" by (cases "leaf_array p") auto
  then have eq: "p' = p\<lparr>size_m := int n, leaf_array := memmove 0 1 n (leaf_array p)\<rparr>"
    "r' = leaf_CopyLastFrom (hd (leaf_entries p)) r"
    using moved n
    by (auto simp: leaf_MoveFirstToEndOf_local_def leaf_GetItem_def header_defs Let_def)
  show "leaf_entries p' = tl (leaf_entries p)"
    using n memmove_shift_down [of n "leaf_array p"] by (simp add: eq leaf_entries_def)
  show "wf_leaf p'" "leaf_meta p' = leaf_meta p" "size_m p' = size_m p - 1"
    using n wf(1) length_memmove [of 0 n "leaf_array p" 1]
    by (auto simp: eq wf_leaf_def leaf_meta_def)
  show "leaf_entries r' = leaf_entries r @ [hd (leaf_entries p)]" "wf_leaf r'"
    "leaf_meta r' = leaf_meta r" "size_m r' = size_m r + 1"
    using leaf_CopyLastFrom_spec [OF wf(2) assms(4)] by (simp_all add: eq)
qed

lemma leaf_MoveLastToFrontOf_spec:
  assumes wf: "wf_leaf p" "wf_leaf r" and "0 < size_m p" and "size_m r \<le> max_size_m r"
    and moved: "leaf_MoveLastToFrontOf_local p r = (p', r')"
  shows "leaf_entries r' = last (leaf_entries p) # leaf_entries r"
    and "leaf_entries p' = butlast (leaf_entries p)"
    and "wf_leaf p'" and "wf_leaf r'" and "leaf_meta p' = leaf_meta p" and "leaf_meta r' = leaf_meta r"
    and "size_m p' = size_m p - 1" and "size_m r' = size_m r + 1"
proof -
  define n where "n = nat (size_m p - 1)"
  have n: "size_m p = int (Suc n)" "leaf_entries p = take (Suc n) (leaf_array p)"
    "Suc n \<le> length (leaf_array p)"
    using wf(1) assms(3) by (auto simp: n_def wf_leaf_def leaf_entries_def nat_diff_distrib)
  then have "last (leaf_entries p) = leaf_array p ! n" by (simp add: take_Suc_conv_app_nth)
  then have eq: "p' = p\<lparr>size_m := int n\<rparr>"
    "r' = leaf_CopyFirstFrom_local (last (leaf_entries p)) r"
    using moved n
    by (auto simp: leaf_MoveLastToFrontOf_local_def leaf_GetItem_def header_defs Let_def)
  show "leaf_entries p' = butlast (leaf_entries p)"
    using n by (simp add: eq leaf_entries_def butlast_take)
  show "wf_leaf p'" "leaf_meta p' = leaf_meta p" "size_m p' = size_m p - 1"
    using n wf(1) by (auto simp: eq wf_leaf_def leaf_meta_def)
  show "leaf_entries r' = last (leaf_entries p) # leaf_entries r" "wf_leaf r'"
    "leaf_meta r' = leaf_meta r" "size_m r' = size_m r + 1"
    using leaf_CopyFirstFrom_spec [OF wf(2) assms(4)] by (simp_all add: eq)
qed

end
