(* ===== verification/BInternal.thy ===== *)
theory BInternal imports BPage begin

text \<open>
  Internal pages: \<open>page/b_plus_tree_internal_page.h\<close> and \<open>page/b_plus_tree_internal_page.cpp\<close>.
  A slot holds a key and a child page id; the key of slot 0 is not a separator (the search starts
  at slot 1), so only the tail of the slots is in key order.  The operations that also re-parent
  child pages or write a separator into the parent page do so through the buffer pool: here is the
  part of each that works on the two pages, and \<open>BTree\<close> adds the rest.
\<close>

section \<open>The page\<close>

record 'k internal_page = bpt_header +
  internal_array :: "('k \<times> page_id) list"

definition internal_slots :: "int \<Rightarrow> int" where
  "internal_slots key_size = (PAGE_SIZE - 24) div (key_size + 4)"

definition internal_Init :: "int \<Rightarrow> page_id \<Rightarrow> page_id \<Rightarrow> 'k internal_page \<Rightarrow> 'k internal_page" where
  "internal_Init key_size page_id parent_id p =
     (let p = SetSize 0 p;
          p = SetPageId page_id p;
          p = SetParentPageId parent_id p;
          p = SetPageType INTERNAL_PAGE p;
          max_size = internal_slots key_size
      in SetMaxSize (max_size - 1) p)"

definition internal_KeyAt :: "int \<Rightarrow> 'k internal_page \<Rightarrow> 'k option" where
  "internal_KeyAt index p =
     (if index < 0 \<or> index \<ge> GetSize p then None else Some (fst (internal_array p ! nat index)))"

definition internal_SetKeyAt :: "int \<Rightarrow> 'k \<Rightarrow> 'k internal_page \<Rightarrow> 'k internal_page option" where
  "internal_SetKeyAt index key p =
     do { _ \<leftarrow> assert_that (index \<ge> 0 \<and> index < GetSize p);
          let a = internal_array p;
          Some (p\<lparr>internal_array := a[nat index := (key, snd (a ! nat index))]\<rparr>) }"

definition internal_ValueAt :: "int \<Rightarrow> 'k internal_page \<Rightarrow> page_id option" where
  "internal_ValueAt index p =
     do { _ \<leftarrow> assert_that (index \<ge> 0 \<and> index < GetSize p);
          Some (snd (internal_array p ! nat index)) }"

function internal_ValueIndex_loop :: "page_id \<Rightarrow> 'k internal_page \<Rightarrow> int \<Rightarrow> int" where
  "internal_ValueIndex_loop v p index =
     (if index < GetSize p then
        (if v \<noteq> snd (internal_array p ! nat index) then internal_ValueIndex_loop v p (index + 1)
         else index)
      else - 1)"
  by pat_completeness auto
termination
  by (relation "measure (\<lambda>(v, p, index). nat (GetSize p - index))") auto

declare internal_ValueIndex_loop.simps [simp del]

definition internal_ValueIndex :: "page_id \<Rightarrow> 'k internal_page \<Rightarrow> int" where
  "internal_ValueIndex v p = internal_ValueIndex_loop v p 0"

text \<open>The binary search of \<open>Lookup\<close> over the separators.\<close>

function internal_Lookup_loop ::
  "('k \<Rightarrow> 'k \<Rightarrow> int) \<Rightarrow> ('k \<times> page_id) list \<Rightarrow> 'k \<Rightarrow> int \<Rightarrow> int \<Rightarrow> int" where
  "internal_Lookup_loop cmp arr key b e =
     (if b \<le> e then
        let mid = (e - b) div 2 + b in
        if cmp (fst (arr ! nat mid)) key \<le> 0 then internal_Lookup_loop cmp arr key (mid + 1) e
        else internal_Lookup_loop cmp arr key b (mid - 1)
      else b)"
  by pat_completeness auto
termination
  by (relation "measure (\<lambda>(cmp, arr, key, b, e). nat (e - b + 1))") auto

declare internal_Lookup_loop.simps [simp del]

definition internal_Lookup :: "('k \<Rightarrow> 'k \<Rightarrow> int) \<Rightarrow> 'k \<Rightarrow> 'k internal_page \<Rightarrow> page_id option" where
  "internal_Lookup cmp key p =
     do { _ \<leftarrow> assert_that (GetSize p > 1);
          let b = internal_Lookup_loop cmp (internal_array p) key 1 (GetSize p - 1);
          Some (snd (internal_array p ! nat (b - 1))) }"

definition internal_PopulateNewRoot ::
  "page_id \<Rightarrow> 'k \<Rightarrow> page_id \<Rightarrow> 'k internal_page \<Rightarrow> 'k internal_page" where
  "internal_PopulateNewRoot old_value new_key new_value p =
     (let a = internal_array p;
          a = a[0 := (fst (a ! 0), old_value)];
          a = a[1 := (new_key, new_value)]
      in SetSize 2 (p\<lparr>internal_array := a\<rparr>))"

definition internal_InsertNodeAfter ::
  "page_id \<Rightarrow> 'k \<Rightarrow> page_id \<Rightarrow> 'k internal_page \<Rightarrow> (int \<times> 'k internal_page) option" where
  "internal_InsertNodeAfter old_value new_key new_value p =
     do { let index = internal_ValueIndex old_value p + 1;
          _ \<leftarrow> assert_that (index > 0);
          let p = IncreaseSize 1 p;
          let cur_size = GetSize p;
          let arr = shift_right (internal_array p) (nat (cur_size - 1)) (nat index);
          Some (cur_size, p\<lparr>internal_array := arr[nat index := (new_key, new_value)]\<rparr>) }"

text \<open>The copy of the upper half; the children in it still have to be re-parented.\<close>

definition internal_MoveHalfTo_local ::
  "'k internal_page \<Rightarrow> 'k internal_page \<Rightarrow> ('k internal_page \<times> 'k internal_page) option" where
  "internal_MoveHalfTo_local p recipient =
     do { let total = GetMaxSize p + 1;
          let mid_index = total div 2;
          _ \<leftarrow> assert_that (GetSize p = total);
          let r = recipient\<lparr>internal_array :=
             copy_loop (internal_array p) (nat mid_index) (nat (total - mid_index))
               (internal_array recipient) 0\<rparr>;
          Some (SetSize mid_index p, SetSize (total - mid_index) r) }"

definition internal_Remove :: "int \<Rightarrow> 'k internal_page \<Rightarrow> 'k internal_page option" where
  "internal_Remove index p =
     do { _ \<leftarrow> assert_that (index \<ge> 0 \<and> index < GetSize p);
          let p = p\<lparr>internal_array := shift_left (internal_array p) (nat (index + 1)) (nat (GetSize p))\<rparr>;
          Some (IncreaseSize (- 1) p) }"

definition internal_RemoveAndReturnOnlyChild ::
  "'k internal_page \<Rightarrow> (page_id \<times> 'k internal_page) option" where
  "internal_RemoveAndReturnOnlyChild p =
     do { ret \<leftarrow> internal_ValueAt 0 p;
          let p = IncreaseSize (- 1) p;
          _ \<leftarrow> assert_that (GetSize p = 0);
          Some (ret, p) }"

text \<open>The copy of \<open>MoveAllTo\<close>, once the separator has been stored as the key of slot 0.\<close>

definition internal_MoveAllTo_local ::
  "'k internal_page \<Rightarrow> 'k internal_page \<Rightarrow> ('k internal_page \<times> 'k internal_page) option" where
  "internal_MoveAllTo_local p recipient =
     do { let start = GetSize recipient;
          let r = recipient\<lparr>internal_array :=
             copy_loop (internal_array p) 0 (nat (GetSize p)) (internal_array recipient) (nat start)\<rparr>;
          let r = SetSize (start + GetSize p) r;
          _ \<leftarrow> assert_that (GetSize r \<le> GetMaxSize p);
          Some (SetSize 0 p, r) }"

definition internal_CopyLastFrom ::
  "'k \<times> page_id \<Rightarrow> 'k internal_page \<Rightarrow> 'k internal_page option" where
  "internal_CopyLastFrom pair p =
     do { _ \<leftarrow> assert_that (GetSize p + 1 \<le> GetMaxSize p);
          Some (IncreaseSize 1 (p\<lparr>internal_array := (internal_array p)[nat (GetSize p) := pair]\<rparr>)) }"

definition internal_MoveFirstToEndOf_local ::
  "'k internal_page \<Rightarrow> 'k internal_page \<Rightarrow>
   (('k \<times> page_id) \<times> 'k internal_page \<times> 'k internal_page) option" where
  "internal_MoveFirstToEndOf_local p recipient =
     do { k \<leftarrow> internal_KeyAt 0 p;
          v \<leftarrow> internal_ValueAt 0 p;
          let p = IncreaseSize (- 1) p;
          let p = p\<lparr>internal_array := memmove 0 1 (nat (GetSize p)) (internal_array p)\<rparr>;
          r \<leftarrow> internal_CopyLastFrom (k, v) recipient;
          Some ((k, v), p, r) }"

definition internal_CopyFirstFrom_local ::
  "'k \<times> page_id \<Rightarrow> 'k internal_page \<Rightarrow> 'k internal_page option" where
  "internal_CopyFirstFrom_local pair p =
     do { _ \<leftarrow> assert_that (GetSize p + 1 < GetMaxSize p);
          let p = p\<lparr>internal_array := memmove 1 0 (nat (GetSize p)) (internal_array p)\<rparr>;
          let p = IncreaseSize 1 p;
          Some (p\<lparr>internal_array := (internal_array p)[0 := pair]\<rparr>) }"

definition internal_MoveLastToFrontOf_local ::
  "'k internal_page \<Rightarrow> 'k internal_page \<Rightarrow>
   (('k \<times> page_id) \<times> 'k internal_page \<times> 'k internal_page) option" where
  "internal_MoveLastToFrontOf_local p recipient =
     do { k \<leftarrow> internal_KeyAt (GetSize p - 1) p;
          v \<leftarrow> internal_ValueAt (GetSize p - 1) p;
          let p = IncreaseSize (- 1) p;
          r \<leftarrow> internal_CopyFirstFrom_local (k, v) recipient;
          Some ((k, v), p, r) }"

section \<open>The live entries and the page invariant\<close>

definition internal_entries :: "'k internal_page \<Rightarrow> ('k \<times> page_id) list" where
  "internal_entries p = take (nat (size_m p)) (internal_array p)"

definition wf_internal :: "'k internal_page \<Rightarrow> bool" where
  "wf_internal p \<longleftrightarrow> 0 \<le> size_m p \<and> size_m p \<le> max_size_m p + 1 \<and>
     max_size_m p + 1 \<le> int (length (internal_array p)) \<and> page_type_m p = INTERNAL_PAGE"

lemma length_internal_entries [simp]:
  "wf_internal p \<Longrightarrow> length (internal_entries p) = nat (size_m p)"
  by (auto simp: wf_internal_def internal_entries_def)

lemma internal_entries_nth:
  "wf_internal p \<Longrightarrow> i < nat (size_m p) \<Longrightarrow> internal_entries p ! i = internal_array p ! i"
  by (simp add: internal_entries_def)

definition internal_meta :: "'k internal_page \<Rightarrow> int \<times> page_id \<times> page_id \<times> int" where
  "internal_meta p =
     (max_size_m p, parent_page_id_m p, page_id_m p, int (length (internal_array p)))"

lemma internal_meta_simps:
  "internal_meta p = internal_meta q \<Longrightarrow> max_size_m p = max_size_m q"
  "internal_meta p = internal_meta q \<Longrightarrow> parent_page_id_m p = parent_page_id_m q"
  "internal_meta p = internal_meta q \<Longrightarrow> page_id_m p = page_id_m q"
  "internal_meta p = internal_meta q \<Longrightarrow> length (internal_array p) = length (internal_array q)"
  by (simp_all add: internal_meta_def)

section \<open>The searches\<close>

text \<open>\<open>ValueIndex\<close> is the first slot with that child.\<close>

lemma internal_ValueIndex_loop_spec:
  assumes "wf_internal p" and "0 \<le> index" and "index \<le> size_m p"
    and "\<forall>i < nat index. snd (internal_entries p ! i) \<noteq> v"
  shows "internal_ValueIndex_loop v p index =
    (if v \<in> snd ` set (internal_entries p)
     then int (length (takeWhile (\<lambda>e. snd e \<noteq> v) (internal_entries p))) else - 1)"
  using assms
proof (induction "nat (size_m p - index)" arbitrary: index rule: less_induct)
  case less
  show ?case
  proof (cases "index < size_m p")
    case False
    then have "index = size_m p" using less.prems by simp
    with less.prems have "v \<notin> snd ` set (internal_entries p)"
      by (metis image_iff in_set_conv_nth length_internal_entries)
    with False show ?thesis by (subst internal_ValueIndex_loop.simps) (simp add: header_defs)
  next
    case True
    then have nth: "internal_array p ! nat index = internal_entries p ! nat index"
      "nat index < length (internal_entries p)"
      using less.prems by (simp_all add: internal_entries_nth)
    show ?thesis
    proof (cases "snd (internal_entries p ! nat index) = v")
      case hit: True
      have "takeWhile (\<lambda>e. snd e \<noteq> v) (internal_entries p) = take (nat index) (internal_entries p)"
        using less.prems nth hit by (intro takeWhile_eq_take_P_nth) auto
      moreover have "v \<in> snd ` set (internal_entries p)"
        using nth hit by (metis image_eqI nth_mem)
      ultimately show ?thesis
        using True hit nth less.prems
        by (subst internal_ValueIndex_loop.simps) (simp add: header_defs min_absorb2)
    next
      case miss: False
      have "\<forall>i < nat (index + 1). snd (internal_entries p ! i) \<noteq> v"
        using miss less.prems(2,4) by (auto simp: nat_add_distrib less_Suc_eq)
      then have "internal_ValueIndex_loop v p (index + 1) =
        (if v \<in> snd ` set (internal_entries p)
         then int (length (takeWhile (\<lambda>e. snd e \<noteq> v) (internal_entries p))) else - 1)"
        using True less.prems by (intro less.hyps) auto
      then show ?thesis
        using True miss nth by (subst internal_ValueIndex_loop.simps) (simp add: header_defs)
    qed
  qed
qed

lemma internal_ValueIndex_eq:
  "wf_internal p \<Longrightarrow> internal_ValueIndex v p =
    (if v \<in> snd ` set (internal_entries p)
     then int (length (takeWhile (\<lambda>e. snd e \<noteq> v) (internal_entries p))) else - 1)"
  unfolding internal_ValueIndex_def
  by (rule internal_ValueIndex_loop_spec) (auto simp: wf_internal_def)

lemma internal_ValueIndex_nth:
  assumes "wf_internal p" and "distinct (map snd (internal_entries p))"
    and "i < length (internal_entries p)"
  shows "internal_ValueIndex (snd (internal_entries p ! i)) p = int i"
proof -
  let ?es = "internal_entries p"
  have "takeWhile (\<lambda>e. snd e \<noteq> snd (?es ! i)) ?es = take i ?es"
  proof (rule takeWhile_eq_take_P_nth)
    fix j assume "j < i" "j < length ?es"
    then show "snd (?es ! j) \<noteq> snd (?es ! i)"
      using assms(2,3) by (metis distinct_conv_nth length_map nat_neq_iff nth_map)
  qed simp
  moreover have "snd (?es ! i) \<in> snd ` set ?es" using assms(3) by simp
  ultimately show ?thesis using assms by (simp add: internal_ValueIndex_eq min_def)
qed

text \<open>\<open>Lookup\<close> descends to the child of the last separator not above the key, or to the first
  child when all separators are above it.\<close>

definition child_pos :: "('k \<Rightarrow> 'k \<Rightarrow> int) \<Rightarrow> 'k \<Rightarrow> ('k \<times> 'v) list \<Rightarrow> nat" where
  "child_pos cmp k es = length (takeWhile (\<lambda>e. cmp (fst e) k \<le> 0) (tl es))"

lemma child_pos_less: "es \<noteq> [] \<Longrightarrow> child_pos cmp k es < length es"
  using length_takeWhile_le [of "\<lambda>e. cmp (fst e) k \<le> 0" "tl es"]
  by (cases es) (auto simp: child_pos_def less_Suc_eq_le)

context key_order begin

lemma internal_Lookup_loop_spec:
  assumes "\<And>i j. 0 < i \<Longrightarrow> i < j \<Longrightarrow> j < n \<Longrightarrow> cmp (fst (arr ! i)) (fst (arr ! j)) < 0"
    and "\<And>i. 0 < i \<Longrightarrow> i < n \<Longrightarrow> fst (arr ! i) \<in> K" and "key \<in> K"
    and "1 \<le> b" and "b \<le> e + 1" and "e < int n"
    and "\<And>i. 0 < i \<Longrightarrow> i < nat b \<Longrightarrow> cmp (fst (arr ! i)) key \<le> 0"
    and "\<And>i. e < int i \<Longrightarrow> i < n \<Longrightarrow> 0 < cmp (fst (arr ! i)) key"
  shows "\<exists>r. internal_Lookup_loop cmp arr key b e = int r \<and> 1 \<le> r \<and> r \<le> n \<and>
    (\<forall>i. 0 < i \<longrightarrow> i < r \<longrightarrow> cmp (fst (arr ! i)) key \<le> 0) \<and>
    (\<forall>i. r \<le> i \<longrightarrow> i < n \<longrightarrow> 0 < cmp (fst (arr ! i)) key)"
  using assms
proof (induction "nat (e - b + 1)" arbitrary: b e rule: less_induct)
  case less
  define mid where "mid = (e - b) div 2 + b"
  show ?case
  proof (cases "b \<le> e")
    case False
    with less.prems(5) have "b = e + 1" by simp
    with less.prems show ?thesis
      by (subst internal_Lookup_loop.simps) (auto intro!: exI [of _ "nat b"])
  next
    case True
    then have mid: "b \<le> mid" "mid \<le> e" "nat mid < n" "0 < mid" "0 < nat mid"
      using less.prems(4,6) by (auto simp: mid_def)
    have unfold: "internal_Lookup_loop cmp arr key b e =
        (if cmp (fst (arr ! nat mid)) key \<le> 0 then internal_Lookup_loop cmp arr key (mid + 1) e
         else internal_Lookup_loop cmp arr key b (mid - 1))"
      using True by (subst internal_Lookup_loop.simps) (simp add: mid_def Let_def)
    show ?thesis
    proof (cases "cmp (fst (arr ! nat mid)) key \<le> 0")
      case le: True
      have "cmp (fst (arr ! i)) key \<le> 0" if "0 < i" "i < nat (mid + 1)" for i
      proof (cases "i = nat mid")
        case False
        with that mid have "i < nat mid" by linarith
        then have "cmp (fst (arr ! i)) (fst (arr ! nat mid)) < 0" and "i < n"
          using less.prems(1) mid(3) that(1) by auto
        then have "cmp (fst (arr ! i)) key < 0"
          using le mid less.prems(2,3) that(1) cmp_less_le_trans by blast
        then show ?thesis by simp
      qed (use le in simp)
      then show ?thesis
        using le mid less.prems unfolding unfold if_P [OF le] by (intro less.hyps) auto
    next
      case gt: False
      have "0 < cmp (fst (arr ! i)) key" if "mid - 1 < int i" "i < n" for i
      proof (cases "i = nat mid")
        case False
        with that mid have "nat mid < i" by linarith
        then have "cmp (fst (arr ! nat mid)) (fst (arr ! i)) < 0"
          using less.prems(1) that(2) mid(5) by blast
        moreover have "fst (arr ! i) \<in> K" "fst (arr ! nat mid) \<in> K"
          using less.prems(2) that mid by auto
        ultimately show ?thesis
          using gt less.prems(3) by (metis cmp_pos_iff cmp_trans linorder_not_le)
      qed (use gt in simp)
      then show ?thesis
        using gt mid less.prems unfolding unfold if_not_P [OF gt] by (intro less.hyps) auto
    qed
  qed
qed

lemma internal_Lookup_eq:
  assumes wf: "wf_internal p" and sorted: "key_sorted cmp K (tl (internal_entries p))"
    and "key \<in> K" and "1 < size_m p"
  shows "internal_Lookup cmp key p =
    Some (snd (internal_entries p ! child_pos cmp key (internal_entries p)))"
proof -
  let ?es = "internal_entries p" and ?n = "nat (size_m p)"
  have len: "length ?es = ?n" "length (tl ?es) = ?n - 1" using wf by auto
  have nth: "tl ?es ! i = internal_array p ! Suc i" if "Suc i < ?n" for i
    using that wf len by (simp add: nth_tl internal_entries_nth)
  obtain r where r: "internal_Lookup_loop cmp (internal_array p) key 1 (size_m p - 1) = int r"
    "1 \<le> r" "r \<le> ?n"
    "\<forall>i. 0 < i \<longrightarrow> i < r \<longrightarrow> cmp (fst (internal_array p ! i)) key \<le> 0"
    "\<forall>i. r \<le> i \<longrightarrow> i < ?n \<longrightarrow> 0 < cmp (fst (internal_array p ! i)) key"
  proof -
    have "\<exists>r. internal_Lookup_loop cmp (internal_array p) key 1 (size_m p - 1) = int r \<and> 1 \<le> r \<and> r \<le> ?n \<and>
      (\<forall>i. 0 < i \<longrightarrow> i < r \<longrightarrow> cmp (fst (internal_array p ! i)) key \<le> 0) \<and>
      (\<forall>i. r \<le> i \<longrightarrow> i < ?n \<longrightarrow> 0 < cmp (fst (internal_array p ! i)) key)"
    proof (rule internal_Lookup_loop_spec)
      fix i j :: nat assume "0 < i" "i < j" "j < ?n"
      then show "cmp (fst (internal_array p ! i)) (fst (internal_array p ! j)) < 0"
        using key_sorted_nth [OF sorted, of "i - 1" "j - 1"] len nth [of "i - 1"] nth [of "j - 1"]
        by simp
    next
      fix i :: nat assume "0 < i" "i < ?n"
      then show "fst (internal_array p ! i) \<in> K"
        using key_sorted_nth_in [OF sorted, of "i - 1"] len nth [of "i - 1"] by simp
    qed (use assms in auto)
    then show ?thesis using that by blast
  qed
  have "takeWhile (\<lambda>e. cmp (fst e) key \<le> 0) (tl ?es) = take (r - 1) (tl ?es)"
    using r len nth by (intro takeWhile_eq_take_P_nth) (auto simp: not_le)
  then have "child_pos cmp key ?es = r - 1" using r len by (simp add: child_pos_def min_absorb2)
  moreover have "nat (int r - 1) = r - 1" by simp
  ultimately show ?thesis
    using r assms by (simp add: internal_Lookup_def header_defs internal_entries_nth Let_def)
qed

end

section \<open>What each operation does to the entries\<close>

lemma internal_SetKeyAt_spec:
  assumes "wf_internal p" and "0 \<le> i" and "i < size_m p"
  obtains p' where "internal_SetKeyAt i k p = Some p'"
    and "internal_entries p' = (internal_entries p)[nat i := (k, snd (internal_entries p ! nat i))]"
    and "wf_internal p'" and "internal_meta p' = internal_meta p" and "size_m p' = size_m p"
proof -
  define p' where "p' = p\<lparr>internal_array :=
    (internal_array p)[nat i := (k, snd (internal_array p ! nat i))]\<rparr>"
  have "internal_SetKeyAt i k p = Some p'"
    using assms by (simp add: internal_SetKeyAt_def header_defs p'_def Let_def)
  moreover have "internal_entries p' =
      (internal_entries p)[nat i := (k, snd (internal_entries p ! nat i))]"
    using assms by (simp add: p'_def internal_entries_def take_update_swap)
  moreover have "wf_internal p'" "internal_meta p' = internal_meta p" "size_m p' = size_m p"
    using assms by (auto simp: p'_def wf_internal_def internal_meta_def)
  ultimately show ?thesis using that by blast
qed

lemma internal_PopulateNewRoot_spec:
  assumes "page_type_m p = INTERNAL_PAGE" and "1 \<le> max_size_m p"
    and "max_size_m p + 1 \<le> int (length (internal_array p))"
  obtains k0 where
    "internal_entries (internal_PopulateNewRoot ov k nv p) = [(k0, ov), (k, nv)]"
    and "wf_internal (internal_PopulateNewRoot ov k nv p)"
    and "internal_meta (internal_PopulateNewRoot ov k nv p) = internal_meta p"
    and "size_m (internal_PopulateNewRoot ov k nv p) = 2"
proof -
  obtain x y zs where a: "internal_array p = x # y # zs"
    using assms by (cases "internal_array p"; cases "tl (internal_array p)") auto
  show ?thesis
    using assms by (intro that [of "fst x"])
      (auto simp: internal_PopulateNewRoot_def header_defs Let_def internal_entries_def a
        wf_internal_def internal_meta_def)
qed

text \<open>A new child goes right after the page it was split from.\<close>

lemma internal_InsertNodeAfter_spec:
  assumes wf: "wf_internal p" and room: "size_m p \<le> max_size_m p"
    and child: "i < length (internal_entries p)" "snd (internal_entries p ! i) = ov"
      "distinct (map snd (internal_entries p))"
  obtains p' where "internal_InsertNodeAfter ov k nv p = Some (size_m p + 1, p')"
    and "internal_entries p' =
      take (Suc i) (internal_entries p) @ (k, nv) # drop (Suc i) (internal_entries p)"
    and "wf_internal p'" and "internal_meta p' = internal_meta p" and "size_m p' = size_m p + 1"
proof -
  define n where "n = nat (size_m p)"
  have n: "size_m p = int n" "n < length (internal_array p)"
    "internal_entries p = take n (internal_array p)" "Suc i \<le> n"
    using wf room child(1) by (auto simp: n_def wf_internal_def internal_entries_def)
  have i: "internal_ValueIndex ov p = int i"
    using internal_ValueIndex_nth [OF wf child(3,1)] child(2) by simp
  define p' where "p' = p\<lparr>size_m := size_m p + 1,
    internal_array := (shift_right (internal_array p) n (Suc i))[Suc i := (k, nv)]\<rparr>"
  have "internal_InsertNodeAfter ov k nv p = Some (size_m p + 1, p')"
    using i n by (simp add: internal_InsertNodeAfter_def header_defs p'_def Let_def nat_add_distrib)
  moreover have "internal_entries p' =
      take (Suc i) (internal_entries p) @ (k, nv) # drop (Suc i) (internal_entries p)"
    using n shift_right_insert [of n "internal_array p" "Suc i" "(k, nv)"]
    by (simp add: internal_entries_def p'_def nat_add_distrib)
  moreover have "wf_internal p'" and "internal_meta p' = internal_meta p" "size_m p' = size_m p + 1"
    using wf room by (auto simp: wf_internal_def p'_def internal_meta_def)
  ultimately show ?thesis using that by blast
qed

lemma internal_MoveHalfTo_spec:
  assumes wf: "wf_internal p" and full: "size_m p = max_size_m p + 1"
    and r: "max_size_m r = max_size_m p" "length (internal_array r) = length (internal_array p)"
      "page_type_m r = INTERNAL_PAGE"
  obtains p' r' where "internal_MoveHalfTo_local p r = Some (p', r')"
    and "internal_entries p' = take (nat ((max_size_m p + 1) div 2)) (internal_entries p)"
    and "internal_entries r' = drop (nat ((max_size_m p + 1) div 2)) (internal_entries p)"
    and "size_m p' = (max_size_m p + 1) div 2"
    and "size_m r' = max_size_m p + 1 - (max_size_m p + 1) div 2"
    and "wf_internal p'" and "wf_internal r'"
    and "internal_meta p' = internal_meta p" and "internal_meta r' = internal_meta r"
proof -
  define n where "n = nat (max_size_m p + 1)"
  define m where "m = nat ((max_size_m p + 1) div 2)"
  have n: "max_size_m p + 1 = int n" "(max_size_m p + 1) div 2 = int m" "m \<le> n"
    "n \<le> length (internal_array p)" "internal_entries p = take n (internal_array p)"
    "nat (int n - int m) = n - m" "size_m p = int n"
    using wf full by (auto simp: wf_internal_def n_def m_def internal_entries_def)
  define p' where "p' = p\<lparr>size_m := int m\<rparr>"
  define r' where "r' = r\<lparr>size_m := int n - int m,
            internal_array := copy_loop (internal_array p) m (n - m) (internal_array r) 0\<rparr>"
  have "internal_MoveHalfTo_local p r = Some (p', r')"
    using n by (simp add: internal_MoveHalfTo_local_def header_defs Let_def p'_def r'_def)
  moreover have "internal_entries r' = drop (nat ((max_size_m p + 1) div 2)) (internal_entries p)"
  proof -
    have "internal_entries r' = take (0 + (n - m)) (copy_loop (internal_array p) m (n - m) (internal_array r) 0)"
      using n by (simp add: r'_def internal_entries_def)
    also have "\<dots> = take (n - m) (drop m (internal_array p))"
      using n r by (subst take_copy_loop) auto
    finally show ?thesis using n by (simp add: drop_take m_def)
  qed
  moreover have "internal_entries p' = take (nat ((max_size_m p + 1) div 2)) (internal_entries p)"
    using n by (simp add: p'_def internal_entries_def m_def min_absorb1)
  moreover have "size_m p' = (max_size_m p + 1) div 2"
    "size_m r' = max_size_m p + 1 - (max_size_m p + 1) div 2"
    "internal_meta p' = internal_meta p" "internal_meta r' = internal_meta r"
    "wf_internal p'" "wf_internal r'"
    using n r wf by (auto simp: p'_def r'_def internal_meta_def wf_internal_def)
  ultimately show ?thesis using that by blast
qed

lemma internal_Remove_spec:
  assumes wf: "wf_internal p" and "0 \<le> i" and "i < size_m p"
  obtains p' where "internal_Remove i p = Some p'"
    and "internal_entries p' = take (nat i) (internal_entries p) @ drop (Suc (nat i)) (internal_entries p)"
    and "wf_internal p'" and "internal_meta p' = internal_meta p" and "size_m p' = size_m p - 1"
proof -
  define n where "n = nat (size_m p)"
  have n: "size_m p = int n" "n \<le> length (internal_array p)" "nat i < n" "0 < n"
    "internal_entries p = take n (internal_array p)" "nat (i + 1) = Suc (nat i)"
    using assms by (auto simp: n_def wf_internal_def internal_entries_def)
  define p' where "p' = p\<lparr>size_m := size_m p - 1,
    internal_array := shift_left (internal_array p) (Suc (nat i)) n\<rparr>"
  have "internal_Remove i p = Some p'"
    using assms n by (simp add: internal_Remove_def header_defs p'_def Let_def)
  moreover have "internal_entries p' =
      take (nat i) (internal_entries p) @ drop (Suc (nat i)) (internal_entries p)"
    using n shift_left_remove [of n "internal_array p" "nat i"]
    by (simp add: internal_entries_def p'_def nat_diff_distrib)
  moreover have "wf_internal p'" "internal_meta p' = internal_meta p" "size_m p' = size_m p - 1"
    using assms n by (auto simp: wf_internal_def p'_def internal_meta_def)
  ultimately show ?thesis using that by blast
qed

lemma internal_MoveAllTo_spec:
  assumes wf: "wf_internal p" "wf_internal r"
    and room: "size_m p + size_m r \<le> max_size_m p" "max_size_m r = max_size_m p"
  obtains p' r' where "internal_MoveAllTo_local p r = Some (p', r')"
    and "internal_entries r' = internal_entries r @ internal_entries p" and "internal_entries p' = []"
    and "size_m r' = size_m r + size_m p" and "wf_internal r'" and "wf_internal p'"
    and "internal_meta p' = internal_meta p" and "internal_meta r' = internal_meta r"
proof -
  define n where "n = nat (size_m p)"
  define m where "m = nat (size_m r)"
  have n: "size_m p = int n" "internal_entries p = take n (internal_array p)"
      "n \<le> length (internal_array p)"
    and m: "size_m r = int m" "internal_entries r = take m (internal_array r)"
      "m + n \<le> length (internal_array r)"
    using wf room by (auto simp: n_def m_def wf_internal_def internal_entries_def)
  define p' where "p' = p\<lparr>size_m := 0\<rparr>"
  define r' where "r' = r\<lparr>size_m := int (m + n),
            internal_array := copy_loop (internal_array p) 0 n (internal_array r) m\<rparr>"
  have "internal_MoveAllTo_local p r = Some (p', r')"
    using n m room by (simp add: internal_MoveAllTo_local_def header_defs Let_def p'_def r'_def)
  moreover have "internal_entries r' = internal_entries r @ internal_entries p"
  proof -
    have "internal_entries r' = take (m + n) (copy_loop (internal_array p) 0 n (internal_array r) m)"
      by (simp add: r'_def internal_entries_def nat_int_add)
    then show ?thesis using n m by (simp add: take_copy_loop)
  qed
  moreover have "internal_entries p' = []" "size_m r' = size_m r + size_m p" "wf_internal r'"
    "wf_internal p'" "internal_meta p' = internal_meta p" "internal_meta r' = internal_meta r"
    using n m wf room
    by (auto simp: p'_def r'_def internal_entries_def wf_internal_def internal_meta_def)
  ultimately show ?thesis using that by blast
qed

text \<open>Moving the first slot to the end of the left neighbour, and the last one to the front of the right one.\<close>

lemma internal_MoveFirstToEndOf_spec:
  assumes wf: "wf_internal p" "wf_internal r" and "0 < size_m p" and room: "size_m r + 1 \<le> max_size_m r"
  obtains p' r' where "internal_MoveFirstToEndOf_local p r = Some (hd (internal_entries p), p', r')"
    and "internal_entries r' = internal_entries r @ [hd (internal_entries p)]" and "internal_entries p' = tl (internal_entries p)"
    and "wf_internal p'" and "wf_internal r'" and "internal_meta p' = internal_meta p" and "internal_meta r' = internal_meta r"
proof -
  define n where "n = nat (size_m p - 1)"
  define m where "m = nat (size_m r)"
  have n: "size_m p = int (Suc n)" "internal_entries p = take (Suc n) (internal_array p)" "Suc n \<le> length (internal_array p)"
    using wf(1) assms(3) by (auto simp: n_def wf_internal_def internal_entries_def nat_diff_distrib)
  have m: "size_m r = int m" "internal_entries r = take m (internal_array r)" "m < length (internal_array r)"
    using wf(2) room by (auto simp: m_def wf_internal_def internal_entries_def)
  have hd: "hd (internal_entries p) = internal_array p ! 0" using n(2,3) by (cases "internal_array p") auto
  define p' where "p' = p\<lparr>size_m := int n, internal_array := memmove 0 1 n (internal_array p)\<rparr>"
  define r' where "r' = r\<lparr>size_m := int m + 1, internal_array := (internal_array r)[m := hd (internal_entries p)]\<rparr>"
  have "internal_MoveFirstToEndOf_local p r = Some (hd (internal_entries p), p', r')"
    using n(1) m(1) room hd
    by (simp add: internal_MoveFirstToEndOf_local_def internal_KeyAt_def internal_ValueAt_def internal_CopyLastFrom_def header_defs
        Let_def p'_def r'_def)
  moreover have "internal_entries r' = internal_entries r @ [hd (internal_entries p)]"
    using take_Suc_update [OF m(3), of "hd (internal_entries p)"] m(2) by (simp add: r'_def internal_entries_def nat_add_distrib)
  moreover have "internal_entries p' = tl (internal_entries p)"
    using n memmove_shift_down [of n "internal_array p"] by (simp add: p'_def internal_entries_def)
  moreover have "wf_internal p'" "internal_meta p' = internal_meta p"
    using n wf(1) length_memmove [of 0 n "internal_array p" 1] by (auto simp: p'_def wf_internal_def internal_meta_def)
  moreover have "wf_internal r'" "internal_meta r' = internal_meta r"
    using m wf(2) room by (auto simp: r'_def wf_internal_def internal_meta_def)
  ultimately show ?thesis using that by blast
qed

lemma internal_MoveLastToFrontOf_spec:
  assumes wf: "wf_internal p" "wf_internal r" and "0 < size_m p" and room: "size_m r + 1 < max_size_m r"
  obtains p' r' where "internal_MoveLastToFrontOf_local p r = Some (last (internal_entries p), p', r')"
    and "internal_entries r' = last (internal_entries p) # internal_entries r" and "internal_entries p' = butlast (internal_entries p)"
    and "wf_internal p'" and "wf_internal r'" and "internal_meta p' = internal_meta p" and "internal_meta r' = internal_meta r"
proof -
  define n where "n = nat (size_m p - 1)"
  define m where "m = nat (size_m r)"
  have n: "size_m p = int (Suc n)" "internal_entries p = take (Suc n) (internal_array p)" "Suc n \<le> length (internal_array p)"
    using wf(1) assms(3) by (auto simp: n_def wf_internal_def internal_entries_def nat_diff_distrib)
  have m: "size_m r = int m" "internal_entries r = take m (internal_array r)" "m < length (internal_array r)"
    using wf(2) room by (auto simp: m_def wf_internal_def internal_entries_def)
  have last: "last (internal_entries p) = internal_array p ! n" using n(2,3) by (simp add: take_Suc_conv_app_nth)
  define p' where "p' = p\<lparr>size_m := int n\<rparr>"
  define r' where "r' = r\<lparr>size_m := int m + 1, internal_array := (memmove 1 0 m (internal_array r))[0 := last (internal_entries p)]\<rparr>"
  have "internal_MoveLastToFrontOf_local p r = Some (last (internal_entries p), p', r')"
    using n(1) m(1) room last
    by (simp add: internal_MoveLastToFrontOf_local_def internal_KeyAt_def internal_ValueAt_def internal_CopyFirstFrom_local_def
        header_defs Let_def p'_def r'_def)
  moreover have "internal_entries r' = last (internal_entries p) # internal_entries r"
    using memmove_shift_up [of m "internal_array r" "last (internal_entries p)"] m by (simp add: r'_def internal_entries_def nat_add_distrib)
  moreover have "internal_entries p' = butlast (internal_entries p)"
    using n by (simp add: p'_def internal_entries_def butlast_take)
  moreover have "wf_internal p'" "internal_meta p' = internal_meta p"
    using n wf(1) by (auto simp: p'_def wf_internal_def internal_meta_def)
  moreover have "wf_internal r'" "internal_meta r' = internal_meta r"
    using m wf(2) room length_memmove [of 1 m "internal_array r" 0] by (auto simp: r'_def wf_internal_def internal_meta_def)
  ultimately show ?thesis using that by blast
qed

end
