(* ===== verification/BTree.thy ===== *)
theory BTree imports PageStore BLeaf BInternal begin

text \<open>
  The B+ tree of \<open>index/b_plus_tree.h\<close> and \<open>index/b_plus_tree.cpp\<close>, with the operations of the
  two page classes that go through the buffer pool.  The tree's state extends the page store by the
  members of the class and the page sets of the transaction that runs; a page pointer of the code
  is the id of the page it points into.  One thread runs: a latch that is already held would never
  be granted, which is an abort here.
\<close>

section \<open>Page contents\<close>

text \<open>What a frame holds: zeroed memory, a B+ tree page, or the header page with its records
  \<open>(index name, root page id)\<close>.\<close>

datatype ('k, 'v) page =
    RawPage
  | LeafP "('k, 'v) leaf_page"
  | InternalP "'k internal_page"
  | HeaderP "(string \<times> page_id) list"

text \<open>The template arguments and constructor arguments of the tree: the comparator, the size of a
  key, the slots that zeroed memory reads as, and the name of the index.\<close>

record ('k, 'v) tree_params =
  comparator :: "'k \<Rightarrow> 'k \<Rightarrow> int"
  key_size :: int
  zero_key :: 'k
  zero_value :: 'v
  index_name :: string

definition zero_header :: bpt_header where
  "zero_header = \<lparr>page_type_m = INVALID_INDEX_PAGE, lsn_m = 0, size_m = 0, max_size_m = 0,
     parent_page_id_m = 0, page_id_m = 0\<rparr>"

definition zero_leaf :: "('k, 'v) tree_params \<Rightarrow> ('k, 'v) leaf_page" where
  "zero_leaf c = bpt_header.extend zero_header
     \<lparr>next_page_id_m = 0,
      leaf_array = replicate (nat (leaf_slots (key_size c))) (zero_key c, zero_value c)\<rparr>"

definition zero_internal :: "('k, 'v) tree_params \<Rightarrow> 'k internal_page" where
  "zero_internal c = bpt_header.extend zero_header
     \<lparr>internal_array = replicate (nat (internal_slots (key_size c))) (zero_key c, 0)\<rparr>"

text \<open>The \<open>reinterpret_cast\<close>s of a page's data; a page of another kind is never read this way.\<close>

definition as_leaf :: "('k, 'v) tree_params \<Rightarrow> ('k, 'v) page \<Rightarrow> ('k, 'v) leaf_page option" where
  "as_leaf c d = (case d of RawPage \<Rightarrow> Some (zero_leaf c) | LeafP l \<Rightarrow> Some l | _ \<Rightarrow> None)"

definition as_internal :: "('k, 'v) tree_params \<Rightarrow> ('k, 'v) page \<Rightarrow> 'k internal_page option" where
  "as_internal c d = (case d of RawPage \<Rightarrow> Some (zero_internal c) | InternalP p \<Rightarrow> Some p | _ \<Rightarrow> None)"

definition as_header :: "('k, 'v) page \<Rightarrow> (string \<times> page_id) list option" where
  "as_header d = (case d of RawPage \<Rightarrow> Some [] | HeaderP rs \<Rightarrow> Some rs | _ \<Rightarrow> None)"

text \<open>The header of a B+ tree page, whatever its kind (\<open>BPlusTreePage *\<close>).\<close>

definition tree_header :: "('k, 'v) page \<Rightarrow> bpt_header option" where
  "tree_header d = (case d of LeafP l \<Rightarrow> Some (bpt_header.truncate l)
     | InternalP p \<Rightarrow> Some (bpt_header.truncate p) | _ \<Rightarrow> None)"

definition page_SetParentPageId :: "page_id \<Rightarrow> ('k, 'v) page \<Rightarrow> ('k, 'v) page option" where
  "page_SetParentPageId i d = (case d of LeafP l \<Rightarrow> Some (LeafP (SetParentPageId i l))
     | InternalP p \<Rightarrow> Some (InternalP (SetParentPageId i p)) | _ \<Rightarrow> None)"

section \<open>The state of the tree\<close>

record txn_pages =
  page_set :: "page_id list"
  deleted_page_set :: "page_id list"

record ('k, 'v) btree = "('k, 'v) page store" +
  root_page_id :: page_id
  root_latch :: int
  root_locked_cnt :: int
  txn :: "txn_pages option"

definition IsEmpty :: "('k, 'v) btree \<Rightarrow> bool" where
  "IsEmpty s = (if root_page_id s = INVALID_PAGE_ID then True else False)"

text \<open>\<open>Transaction::AddIntoPageSet\<close> and \<open>AddIntoDeletedPageSet\<close>; the latter constructs a
  \<open>std::bad_alloc\<close> for a page that is not in the page set, but does not throw it.\<close>

definition AddIntoPageSet :: "page_id \<Rightarrow> ('k, 'v) btree \<Rightarrow> ('k, 'v) btree option" where
  "AddIntoPageSet p s = (case txn s of None \<Rightarrow> None
     | Some t \<Rightarrow> Some (s\<lparr>txn := Some (t\<lparr>page_set := page_set t @ [p]\<rparr>)\<rparr>))"

definition AddIntoDeletedPageSet :: "page_id \<Rightarrow> ('k, 'v) btree \<Rightarrow> ('k, 'v) btree option" where
  "AddIntoDeletedPageSet p s = (case txn s of None \<Rightarrow> None
     | Some t \<Rightarrow> Some (s\<lparr>txn := Some (t\<lparr>deleted_page_set := List.insert p (deleted_page_set t)\<rparr>)\<rparr>))"

section \<open>Latches\<close>

definition Lock :: "bool \<Rightarrow> page_id \<Rightarrow> ('k, 'v) btree \<Rightarrow> ('k, 'v) btree option" where
  "Lock exclusive p s = (if exclusive then st_wlatch p s else st_rlatch p s)"

definition Unlock :: "bool \<Rightarrow> page_id \<Rightarrow> ('k, 'v) btree \<Rightarrow> ('k, 'v) btree option" where
  "Unlock exclusive p s = (if exclusive then st_wunlatch p s else st_runlatch p s)"

definition Unlock_id :: "bool \<Rightarrow> page_id \<Rightarrow> ('k, 'v) btree \<Rightarrow> ('k, 'v) btree option" where
  "Unlock_id exclusive p s =
     do { s \<leftarrow> st_fetch p s; s \<leftarrow> Unlock exclusive p s; st_unpin p exclusive s }"

definition LockRootPageId :: "bool \<Rightarrow> ('k, 'v) btree \<Rightarrow> ('k, 'v) btree option" where
  "LockRootPageId exclusive s =
     (if exclusive then
        (if root_latch s = 0 then Some (s\<lparr>root_latch := - 1, root_locked_cnt := root_locked_cnt s + 1\<rparr>)
         else None)
      else
        (if 0 \<le> root_latch s
         then Some (s\<lparr>root_latch := root_latch s + 1, root_locked_cnt := root_locked_cnt s + 1\<rparr>)
         else None))"

definition TryUnlockRootPageId :: "bool \<Rightarrow> ('k, 'v) btree \<Rightarrow> ('k, 'v) btree option" where
  "TryUnlockRootPageId exclusive s =
     (if root_locked_cnt s > 0 then
        (if exclusive then
           (if root_latch s = - 1 then Some (s\<lparr>root_latch := 0, root_locked_cnt := root_locked_cnt s - 1\<rparr>)
            else None)
         else
           (if 0 < root_latch s
            then Some (s\<lparr>root_latch := root_latch s - 1, root_locked_cnt := root_locked_cnt s - 1\<rparr>)
            else None))
      else Some s)"

text \<open>The loop of \<open>FreePagesInTransaction\<close> over the page set.\<close>

fun free_pages :: "bool \<Rightarrow> page_id list \<Rightarrow> ('k, 'v) btree \<Rightarrow> ('k, 'v) btree option" where
  "free_pages exclusive [] s = Some s"
| "free_pages exclusive (p # ps) s =
     do { s \<leftarrow> Unlock exclusive p s;
          s \<leftarrow> st_unpin p exclusive s;
          t \<leftarrow> txn s;
          let s = (if p \<in> set (deleted_page_set t)
                   then (snd (st_delete p s))
                          \<lparr>txn := Some (t\<lparr>deleted_page_set := remove1 p (deleted_page_set t)\<rparr>)\<rparr>
                   else s);
          free_pages exclusive ps s }"

definition FreePagesInTransaction :: "bool \<Rightarrow> page_id \<Rightarrow> ('k, 'v) btree \<Rightarrow> ('k, 'v) btree option" where
  "FreePagesInTransaction exclusive cur s =
     do { s \<leftarrow> TryUnlockRootPageId exclusive s;
          case txn s of
            None \<Rightarrow> do { _ \<leftarrow> assert_that (\<not> exclusive \<and> cur \<ge> 0);
                       s \<leftarrow> Unlock_id False cur s;
                       st_unpin cur False s }
          | Some t \<Rightarrow> do { s \<leftarrow> free_pages exclusive (page_set t) s;
                         t \<leftarrow> txn s;
                         _ \<leftarrow> assert_that (deleted_page_set t = []);
                         Some (s\<lparr>txn := Some (t\<lparr>page_set := []\<rparr>)\<rparr>) } }"

section \<open>Search\<close>

definition CrabingProtocalFetchPage ::
  "page_id \<Rightarrow> eOpType \<Rightarrow> page_id \<Rightarrow> ('k, 'v) btree \<Rightarrow> ('k, 'v) btree option" where
  "CrabingProtocalFetchPage p op previous s =
     do { let exclusive = (op \<noteq> OP_READ);
          s \<leftarrow> st_fetch p s;
          s \<leftarrow> Lock exclusive p s;
          h \<leftarrow> st_get p s \<bind> tree_header;
          free \<leftarrow> (if previous > 0 then (if \<not> exclusive then Some True else isSafe op h) else Some False);
          s \<leftarrow> (if free then FreePagesInTransaction exclusive previous s else Some s);
          if txn s \<noteq> None then AddIntoPageSet p s else Some s }"

partial_function (option) FindLeafPage_loop ::
  "('k, 'v) tree_params \<Rightarrow> 'k \<Rightarrow> bool \<Rightarrow> eOpType \<Rightarrow> page_id \<Rightarrow> ('k, 'v) btree \<Rightarrow>
   (page_id \<times> ('k, 'v) btree) option" where
  "FindLeafPage_loop c key leftMost op cur s =
     do { d \<leftarrow> st_get cur s;
          h \<leftarrow> tree_header d;
          if IsLeafPage h then Some (cur, s)
          else do {
            internalPage \<leftarrow> as_internal c d;
            next \<leftarrow> (if leftMost then internal_ValueAt 0 internalPage
                    else internal_Lookup (comparator c) key internalPage);
            s \<leftarrow> CrabingProtocalFetchPage next op cur s;
            FindLeafPage_loop c key leftMost op next s } }"

definition FindLeafPage ::
  "('k, 'v) tree_params \<Rightarrow> 'k \<Rightarrow> bool \<Rightarrow> eOpType \<Rightarrow> ('k, 'v) btree \<Rightarrow>
   (page_id option \<times> ('k, 'v) btree) option" where
  "FindLeafPage c key leftMost op s =
     do { let exclusive = (op \<noteq> OP_READ);
          s \<leftarrow> LockRootPageId exclusive s;
          if IsEmpty s then do { s \<leftarrow> TryUnlockRootPageId exclusive s; Some (None, s) }
          else do {
            s \<leftarrow> CrabingProtocalFetchPage (root_page_id s) op (- 1) s;
            (leaf, s) \<leftarrow> FindLeafPage_loop c key leftMost op (root_page_id s) s;
            Some (Some leaf, s) } }"

text \<open>\<open>GetValue\<close> returns true with the value, or false.\<close>

definition GetValue ::
  "('k, 'v) tree_params \<Rightarrow> 'k \<Rightarrow> ('k, 'v) btree \<Rightarrow> ('v option \<times> ('k, 'v) btree) option" where
  "GetValue c key s =
     do { (tar_page, s) \<leftarrow> FindLeafPage c key False OP_READ s;
          case tar_page of
            None \<Rightarrow> Some (None, s)
          | Some p \<Rightarrow> do {
              l \<leftarrow> st_get p s \<bind> as_leaf c;
              let ret_val = leaf_Lookup (comparator c) key l;
              s \<leftarrow> FreePagesInTransaction False (GetPageId l) s;
              Some (ret_val, s) } }"

end
