(* ===== verification/BTreeInsert.thy ===== *)
theory BTreeInsert imports BTree begin

text \<open>
  Insertion into the B+ tree (\<open>index/b_plus_tree.cpp\<close>, from \<open>Insert\<close> to \<open>InsertIntoParent\<close>,
  and \<open>UpdateRootPageId\<close>), with the part of \<open>MoveHalfTo\<close> that re-parents the children.
\<close>

section \<open>Typed reads and writes of a pinned page\<close>

definition get_leaf ::
  "('k, 'v) tree_params \<Rightarrow> page_id \<Rightarrow> ('k, 'v) btree \<Rightarrow> ('k, 'v) leaf_page option" where
  "get_leaf c p s = st_get p s \<bind> as_leaf c"

definition put_leaf :: "page_id \<Rightarrow> ('k, 'v) leaf_page \<Rightarrow> ('k, 'v) btree \<Rightarrow> ('k, 'v) btree option" where
  "put_leaf p l s = st_put p (LeafP l) s"

definition get_internal ::
  "('k, 'v) tree_params \<Rightarrow> page_id \<Rightarrow> ('k, 'v) btree \<Rightarrow> 'k internal_page option" where
  "get_internal c p s = st_get p s \<bind> as_internal c"

definition put_internal :: "page_id \<Rightarrow> 'k internal_page \<Rightarrow> ('k, 'v) btree \<Rightarrow> ('k, 'v) btree option" where
  "put_internal p n s = st_put p (InternalP n) s"

definition get_header :: "page_id \<Rightarrow> ('k, 'v) btree \<Rightarrow> bpt_header option" where
  "get_header p s = st_get p s \<bind> tree_header"

definition put_parent :: "page_id \<Rightarrow> page_id \<Rightarrow> ('k, 'v) btree \<Rightarrow> ('k, 'v) btree option" where
  "put_parent p parent s =
     do { d \<leftarrow> st_get p s; d \<leftarrow> page_SetParentPageId parent d; st_put p d s }"

section \<open>The header page records\<close>

text \<open>The records of the header page as an association list; \<open>HeaderPage\<close> is the byte layout.\<close>

definition header_FindRecord :: "string \<Rightarrow> (string \<times> page_id) list \<Rightarrow> bool" where
  "header_FindRecord name rs = (name \<in> fst ` set rs)"

definition header_InsertRecord ::
  "string \<Rightarrow> page_id \<Rightarrow> (string \<times> page_id) list \<Rightarrow> (bool \<times> (string \<times> page_id) list) option" where
  "header_InsertRecord name root_id rs =
     do { _ \<leftarrow> assert_that (length name < 32);
          _ \<leftarrow> assert_that (root_id > INVALID_PAGE_ID);
          if header_FindRecord name rs then Some (False, rs)
          else Some (True, rs @ [(name, root_id)]) }"

fun header_update :: "string \<Rightarrow> page_id \<Rightarrow> (string \<times> page_id) list \<Rightarrow> (string \<times> page_id) list" where
  "header_update name root_id [] = []"
| "header_update name root_id (r # rs) =
     (if fst r = name then (name, root_id) # rs else r # header_update name root_id rs)"

definition header_UpdateRecord ::
  "string \<Rightarrow> page_id \<Rightarrow> (string \<times> page_id) list \<Rightarrow> (bool \<times> (string \<times> page_id) list) option" where
  "header_UpdateRecord name root_id rs =
     do { _ \<leftarrow> assert_that (length name < 32);
          if header_FindRecord name rs then Some (True, header_update name root_id rs)
          else Some (False, rs) }"

definition UpdateRootPageId ::
  "('k, 'v) tree_params \<Rightarrow> bool \<Rightarrow> ('k, 'v) btree \<Rightarrow> ('k, 'v) btree option" where
  "UpdateRootPageId c insert_record s =
     do { s \<leftarrow> st_fetch HEADER_PAGE_ID s;
          rs \<leftarrow> st_get HEADER_PAGE_ID s \<bind> as_header;
          (_, rs) \<leftarrow> (if insert_record then header_InsertRecord (index_name c) (root_page_id s) rs
                    else header_UpdateRecord (index_name c) (root_page_id s) rs);
          s \<leftarrow> st_put HEADER_PAGE_ID (HeaderP rs) s;
          st_unpin HEADER_PAGE_ID True s }"

section \<open>Insertion\<close>

definition StartNewTree ::
  "('k, 'v) tree_params \<Rightarrow> 'k \<Rightarrow> 'v \<Rightarrow> ('k, 'v) btree \<Rightarrow> ('k, 'v) btree option" where
  "StartNewTree c key value s =
     do { let (id, s) = st_new RawPage s;
          root \<leftarrow> get_leaf c id s;
          s \<leftarrow> put_leaf id (leaf_Init (key_size c) id INVALID_PAGE_ID root) s;
          let s = s\<lparr>root_page_id := id\<rparr>;
          s \<leftarrow> UpdateRootPageId c True s;
          root \<leftarrow> get_leaf c id s;
          (_, root) \<leftarrow> leaf_Insert (comparator c) key value root;
          s \<leftarrow> put_leaf id root s;
          st_unpin id True s }"

text \<open>The loop of the internal \<open>MoveHalfTo\<close> and \<open>MoveAllTo\<close> that re-parents children; the copies
  of the slots are in \<open>internal_MoveHalfTo_local\<close> and \<open>internal_MoveAllTo_local\<close>.\<close>

fun reparent_children :: "page_id \<Rightarrow> ('k \<times> page_id) list \<Rightarrow> ('k, 'v) btree \<Rightarrow> ('k, 'v) btree option" where
  "reparent_children parent [] s = Some s"
| "reparent_children parent (e # es) s =
     do { s \<leftarrow> st_fetch (snd e) s;
          s \<leftarrow> put_parent (snd e) parent s;
          s \<leftarrow> st_unpin (snd e) True s;
          reparent_children parent es s }"

definition internal_MoveHalfTo ::
  "('k, 'v) tree_params \<Rightarrow> page_id \<Rightarrow> page_id \<Rightarrow> ('k, 'v) btree \<Rightarrow> ('k, 'v) btree option" where
  "internal_MoveHalfTo c node recipient s =
     do { n \<leftarrow> get_internal c node s;
          r \<leftarrow> get_internal c recipient s;
          (n', r') \<leftarrow> internal_MoveHalfTo_local n r;
          s \<leftarrow> put_internal node n' s;
          s \<leftarrow> put_internal recipient r' s;
          reparent_children (GetPageId r)
            (drop (nat ((GetMaxSize n + 1) div 2)) (take (nat (GetMaxSize n + 1)) (internal_array n))) s }"

text \<open>\<open>Split\<close> for its two instances; the new page stays pinned and latched in the page set.\<close>

definition Split_leaf ::
  "('k, 'v) tree_params \<Rightarrow> page_id \<Rightarrow> ('k, 'v) btree \<Rightarrow> (page_id \<times> ('k, 'v) btree) option" where
  "Split_leaf c node s =
     do { let (new_page_id, s) = st_new RawPage s;
          s \<leftarrow> st_wlatch new_page_id s;
          s \<leftarrow> AddIntoPageSet new_page_id s;
          new_node \<leftarrow> get_leaf c new_page_id s;
          n \<leftarrow> get_leaf c node s;
          let (n, r) = leaf_MoveHalfTo n (leaf_Init (key_size c) new_page_id (GetParentPageId n) new_node);
          s \<leftarrow> put_leaf node n s;
          s \<leftarrow> put_leaf new_page_id r s;
          Some (new_page_id, s) }"

definition Split_internal ::
  "('k, 'v) tree_params \<Rightarrow> page_id \<Rightarrow> ('k, 'v) btree \<Rightarrow> (page_id \<times> ('k, 'v) btree) option" where
  "Split_internal c node s =
     do { let (new_page_id, s) = st_new RawPage s;
          s \<leftarrow> st_wlatch new_page_id s;
          s \<leftarrow> AddIntoPageSet new_page_id s;
          new_node \<leftarrow> get_internal c new_page_id s;
          n \<leftarrow> get_internal c node s;
          s \<leftarrow> put_internal new_page_id (internal_Init (key_size c) new_page_id (GetParentPageId n) new_node) s;
          s \<leftarrow> internal_MoveHalfTo c node new_page_id s;
          Some (new_page_id, s) }"

partial_function (option) InsertIntoParent ::
  "('k, 'v) tree_params \<Rightarrow> page_id \<Rightarrow> 'k \<Rightarrow> page_id \<Rightarrow> ('k, 'v) btree \<Rightarrow> ('k, 'v) btree option" where
  "InsertIntoParent c old_node key new_node s =
     do { old \<leftarrow> get_header old_node s;
          if IsRootPage old then
            do { let (root, s) = st_new RawPage s;
                 let s = s\<lparr>root_page_id := root\<rparr>;
                 new_root \<leftarrow> get_internal c root s;
                 new_h \<leftarrow> get_header new_node s;
                 let new_root = internal_Init (key_size c) root INVALID_PAGE_ID new_root;
                 let new_root = internal_PopulateNewRoot (GetPageId old) key (GetPageId new_h) new_root;
                 s \<leftarrow> put_internal root new_root s;
                 s \<leftarrow> put_parent old_node root s;
                 s \<leftarrow> put_parent new_node root s;
                 s \<leftarrow> UpdateRootPageId c False s;
                 st_unpin (GetPageId new_root) True s }
          else
            do { let par_id = GetParentPageId old;
                 s \<leftarrow> st_fetch par_id s;
                 s \<leftarrow> put_parent new_node par_id s;
                 new_h \<leftarrow> get_header new_node s;
                 parent \<leftarrow> get_internal c par_id s;
                 (size, parent) \<leftarrow> internal_InsertNodeAfter (GetPageId old) key (GetPageId new_h) parent;
                 s \<leftarrow> put_internal par_id parent s;
                 s \<leftarrow> (if GetSize parent > GetMaxSize parent then
                        do { (new_page, s) \<leftarrow> Split_internal c par_id s;
                             n \<leftarrow> get_internal c new_page s;
                             k \<leftarrow> internal_KeyAt 0 n;
                             InsertIntoParent c par_id k new_page s }
                      else Some s);
                 st_unpin par_id True s } }"

definition InsertIntoLeaf ::
  "('k, 'v) tree_params \<Rightarrow> 'k \<Rightarrow> 'v \<Rightarrow> ('k, 'v) btree \<Rightarrow> (bool \<times> ('k, 'v) btree) option" where
  "InsertIntoLeaf c key value s =
     do { (leaf_page, s) \<leftarrow> FindLeafPage c key False OP_INSERT s;
          leaf_page \<leftarrow> leaf_page;
          l \<leftarrow> get_leaf c leaf_page s;
          if leaf_Lookup (comparator c) key l \<noteq> None then
            do { s \<leftarrow> FreePagesInTransaction True (- 1) s; Some (False, s) }
          else
            do { (_, l) \<leftarrow> leaf_Insert (comparator c) key value l;
                 s \<leftarrow> put_leaf leaf_page l s;
                 s \<leftarrow> (if GetSize l > GetMaxSize l then
                        do { (new_leaf_page, s) \<leftarrow> Split_leaf c leaf_page s;
                             n \<leftarrow> get_leaf c new_leaf_page s;
                             k \<leftarrow> leaf_KeyAt 0 n;
                             InsertIntoParent c leaf_page k new_leaf_page s }
                      else Some s);
                 s \<leftarrow> FreePagesInTransaction True (- 1) s;
                 Some (True, s) } }"

definition Insert ::
  "('k, 'v) tree_params \<Rightarrow> 'k \<Rightarrow> 'v \<Rightarrow> ('k, 'v) btree \<Rightarrow> (bool \<times> ('k, 'v) btree) option" where
  "Insert c key value s =
     do { s \<leftarrow> LockRootPageId True s;
          if IsEmpty s then
            do { s \<leftarrow> StartNewTree c key value s;
                 s \<leftarrow> TryUnlockRootPageId True s;
                 Some (True, s) }
          else
            do { s \<leftarrow> TryUnlockRootPageId True s;
                 InsertIntoLeaf c key value s } }"

end
