(* ===== verification/BTreeRemove.thy ===== *)
theory BTreeRemove imports BTreeInsert begin

text \<open>
  Deletion from the B+ tree (\<open>index/b_plus_tree.cpp\<close>, from \<open>Remove\<close> to \<open>AdjustRoot\<close>), with the
  parts of \<open>MoveAllTo\<close>, \<open>MoveFirstToEndOf\<close> and \<open>MoveLastToFrontOf\<close> that go through the buffer
  pool.  The template parameter \<open>N\<close> of the code is the argument \<open>kind\<close>.
\<close>

datatype node_kind = LeafNode | InternalNode

section \<open>Moves between siblings, with the parent's separator\<close>

definition leaf_MoveFirstToEndOf ::
  "('k, 'v) tree_params \<Rightarrow> page_id \<Rightarrow> page_id \<Rightarrow> ('k, 'v) btree \<Rightarrow> ('k, 'v) btree option" where
  "leaf_MoveFirstToEndOf c node recipient s =
     do { n \<leftarrow> get_leaf c node s;
          r \<leftarrow> get_leaf c recipient s;
          let (n, r) = leaf_MoveFirstToEndOf_local n r;
          s \<leftarrow> put_leaf node n s;
          s \<leftarrow> put_leaf recipient r s;
          s \<leftarrow> st_fetch (GetParentPageId n) s;
          parent \<leftarrow> get_internal c (GetParentPageId n) s;
          parent \<leftarrow> internal_SetKeyAt (internal_ValueIndex (GetPageId n) parent)
                     (fst (leaf_array n ! 0)) parent;
          s \<leftarrow> put_internal (GetParentPageId n) parent s;
          st_unpin (GetParentPageId n) True s }"

definition leaf_MoveLastToFrontOf ::
  "('k, 'v) tree_params \<Rightarrow> page_id \<Rightarrow> page_id \<Rightarrow> int \<Rightarrow> ('k, 'v) btree \<Rightarrow> ('k, 'v) btree option" where
  "leaf_MoveLastToFrontOf c node recipient parent_index s =
     do { n \<leftarrow> get_leaf c node s;
          r \<leftarrow> get_leaf c recipient s;
          let (n, r) = leaf_MoveLastToFrontOf_local n r;
          s \<leftarrow> put_leaf node n s;
          s \<leftarrow> put_leaf recipient r s;
          s \<leftarrow> st_fetch (GetParentPageId r) s;
          parent \<leftarrow> get_internal c (GetParentPageId r) s;
          parent \<leftarrow> internal_SetKeyAt parent_index (fst (leaf_array r ! 0)) parent;
          s \<leftarrow> put_internal (GetParentPageId r) parent s;
          st_unpin (GetParentPageId r) True s }"

definition internal_MoveAllTo ::
  "('k, 'v) tree_params \<Rightarrow> page_id \<Rightarrow> page_id \<Rightarrow> int \<Rightarrow> ('k, 'v) btree \<Rightarrow> ('k, 'v) btree option" where
  "internal_MoveAllTo c node recipient index_in_parent s =
     do { n \<leftarrow> get_internal c node s;
          r \<leftarrow> get_internal c recipient s;
          s \<leftarrow> st_fetch (GetParentPageId n) s;
          parent \<leftarrow> get_internal c (GetParentPageId n) s;
          k \<leftarrow> internal_KeyAt index_in_parent parent;
          n \<leftarrow> internal_SetKeyAt 0 k n;
          s \<leftarrow> st_unpin (GetPageId parent) False s;
          (n', r') \<leftarrow> internal_MoveAllTo_local n r;
          s \<leftarrow> put_internal node n' s;
          s \<leftarrow> put_internal recipient r' s;
          reparent_children (GetPageId r) (take (nat (GetSize n)) (internal_array n)) s }"

text \<open>The child that moved gets its new parent, then the separator is stored in the parent.\<close>

definition internal_MoveFirstToEndOf ::
  "('k, 'v) tree_params \<Rightarrow> page_id \<Rightarrow> page_id \<Rightarrow> ('k, 'v) btree \<Rightarrow> ('k, 'v) btree option" where
  "internal_MoveFirstToEndOf c node recipient s =
     do { n \<leftarrow> get_internal c node s;
          r \<leftarrow> get_internal c recipient s;
          (pair, n, r) \<leftarrow> internal_MoveFirstToEndOf_local n r;
          s \<leftarrow> put_internal node n s;
          s \<leftarrow> put_internal recipient r s;
          s \<leftarrow> st_fetch (snd pair) s;
          s \<leftarrow> put_parent (snd pair) (GetPageId r) s;
          child \<leftarrow> get_header (snd pair) s;
          s \<leftarrow> st_unpin (GetPageId child) True s;
          s \<leftarrow> st_fetch (GetParentPageId n) s;
          parent \<leftarrow> get_internal c (GetParentPageId n) s;
          parent \<leftarrow> internal_SetKeyAt (internal_ValueIndex (GetPageId n) parent)
                     (fst (internal_array n ! 0)) parent;
          s \<leftarrow> put_internal (GetParentPageId n) parent s;
          st_unpin (GetParentPageId n) True s }"

definition internal_MoveLastToFrontOf ::
  "('k, 'v) tree_params \<Rightarrow> page_id \<Rightarrow> page_id \<Rightarrow> int \<Rightarrow> ('k, 'v) btree \<Rightarrow> ('k, 'v) btree option" where
  "internal_MoveLastToFrontOf c node recipient parent_index s =
     do { n \<leftarrow> get_internal c node s;
          r \<leftarrow> get_internal c recipient s;
          (pair, n, r) \<leftarrow> internal_MoveLastToFrontOf_local n r;
          s \<leftarrow> put_internal node n s;
          s \<leftarrow> put_internal recipient r s;
          s \<leftarrow> st_fetch (snd pair) s;
          s \<leftarrow> put_parent (snd pair) (GetPageId r) s;
          child \<leftarrow> get_header (snd pair) s;
          s \<leftarrow> st_unpin (GetPageId child) True s;
          s \<leftarrow> st_fetch (GetParentPageId r) s;
          parent \<leftarrow> get_internal c (GetParentPageId r) s;
          parent \<leftarrow> internal_SetKeyAt parent_index (fst (internal_array r ! 0)) parent;
          s \<leftarrow> put_internal (GetParentPageId r) parent s;
          st_unpin (GetParentPageId r) True s }"

section \<open>Deletion\<close>

text \<open>\<open>AdjustRoot\<close>: the emptied root leaf goes, or the root with one child hands over to it.\<close>

definition AdjustRoot ::
  "('k, 'v) tree_params \<Rightarrow> page_id \<Rightarrow> ('k, 'v) btree \<Rightarrow> (bool \<times> ('k, 'v) btree) option" where
  "AdjustRoot c old_root_node s =
     do { h \<leftarrow> get_header old_root_node s;
          if IsLeafPage h then
            do { s \<leftarrow> UpdateRootPageId c False (s\<lparr>root_page_id := INVALID_PAGE_ID\<rparr>);
                 Some (True, s) }
          else if GetSize h = 1 then
            do { root \<leftarrow> get_internal c old_root_node s;
                 (newRootId, root) \<leftarrow> internal_RemoveAndReturnOnlyChild root;
                 s \<leftarrow> put_internal old_root_node root s;
                 s \<leftarrow> UpdateRootPageId c False (s\<lparr>root_page_id := newRootId\<rparr>);
                 s \<leftarrow> st_fetch newRootId s;
                 s \<leftarrow> put_parent newRootId INVALID_PAGE_ID s;
                 s \<leftarrow> st_unpin newRootId True s;
                 Some (True, s) }
          else Some (False, s) }"

text \<open>\<open>FindLeftSibling\<close> returns the sibling and whether it is the right one.\<close>

definition FindLeftSibling ::
  "('k, 'v) tree_params \<Rightarrow> page_id \<Rightarrow> ('k, 'v) btree \<Rightarrow> (bool \<times> page_id \<times> ('k, 'v) btree) option" where
  "FindLeftSibling c node s =
     do { h \<leftarrow> get_header node s;
          let parent_id = GetParentPageId h;
          s \<leftarrow> st_fetch parent_id s;
          parent \<leftarrow> get_internal c parent_id s;
          let index = internal_ValueIndex (GetPageId h) parent;
          let siblingIndex = (if index = 0 then index + 1 else index - 1);
          sibling \<leftarrow> internal_ValueAt siblingIndex parent;
          s \<leftarrow> CrabingProtocalFetchPage sibling OP_DELETE (- 1) s;
          s \<leftarrow> st_unpin (GetPageId parent) False s;
          Some (index = 0, sibling, s) }"

definition Redistribute ::
  "('k, 'v) tree_params \<Rightarrow> node_kind \<Rightarrow> page_id \<Rightarrow> page_id \<Rightarrow> int \<Rightarrow> ('k, 'v) btree \<Rightarrow>
   ('k, 'v) btree option" where
  "Redistribute c kind neighbor_node node index s =
     (case kind of
        LeafNode \<Rightarrow> if index = 0 then leaf_MoveFirstToEndOf c neighbor_node node s
                    else leaf_MoveLastToFrontOf c neighbor_node node index s
      | InternalNode \<Rightarrow> if index = 0 then internal_MoveFirstToEndOf c neighbor_node node s
                    else internal_MoveLastToFrontOf c neighbor_node node index s)"

definition MoveAllTo ::
  "('k, 'v) tree_params \<Rightarrow> node_kind \<Rightarrow> page_id \<Rightarrow> page_id \<Rightarrow> int \<Rightarrow> ('k, 'v) btree \<Rightarrow>
   ('k, 'v) btree option" where
  "MoveAllTo c kind node neighbor_node index s =
     (case kind of
        LeafNode \<Rightarrow> do { n \<leftarrow> get_leaf c node s;
                        r \<leftarrow> get_leaf c neighbor_node s;
                        let (n, r) = leaf_MoveAllTo n r;
                        s \<leftarrow> put_leaf node n s;
                        put_leaf neighbor_node r s }
      | InternalNode \<Rightarrow> internal_MoveAllTo c node neighbor_node index s)"

text \<open>\<open>Coalesce\<close> up to its recursive call, and the recursion of \<open>CoalesceOrRedistribute\<close>.\<close>

definition Coalesce_step ::
  "('k, 'v) tree_params \<Rightarrow> node_kind \<Rightarrow> page_id \<Rightarrow> page_id \<Rightarrow> page_id \<Rightarrow> int \<Rightarrow> ('k, 'v) btree \<Rightarrow>
   (bool \<times> ('k, 'v) btree) option" where
  "Coalesce_step c kind neighbor_node node parent index s =
     do { s \<leftarrow> MoveAllTo c kind node neighbor_node index s;
          h \<leftarrow> get_header node s;
          s \<leftarrow> AddIntoDeletedPageSet (GetPageId h) s;
          p \<leftarrow> get_internal c parent s;
          p \<leftarrow> internal_Remove index p;
          s \<leftarrow> put_internal parent p s;
          Some (GetSize p \<le> GetMinSize p, s) }"

partial_function (option) CoalesceOrRedistribute ::
  "('k, 'v) tree_params \<Rightarrow> node_kind \<Rightarrow> page_id \<Rightarrow> ('k, 'v) btree \<Rightarrow> (bool \<times> ('k, 'v) btree) option" where
  "CoalesceOrRedistribute c kind node s =
     do { h \<leftarrow> get_header node s;
          if IsRootPage h then
            do { (delOldRoot, s) \<leftarrow> AdjustRoot c node s;
                 s \<leftarrow> (if delOldRoot then AddIntoDeletedPageSet (GetPageId h) s else Some s);
                 Some (delOldRoot, s) }
          else
            do { (is_r_sibling, node2, s) \<leftarrow> FindLeftSibling c node s;
                 let parent_id = GetParentPageId h;
                 s \<leftarrow> st_fetch parent_id s;
                 h2 \<leftarrow> get_header node2 s;
                 parent_page \<leftarrow> get_internal c parent_id s;
                 if GetSize h + GetSize h2 \<le> GetMaxSize h then
                   do { let (node, node2, h) = (if is_r_sibling then (node2, node, h2) else (node, node2, h));
                        let remove_index = internal_ValueIndex (GetPageId h) parent_page;
                        (small, s) \<leftarrow> Coalesce_step c kind node2 node parent_id remove_index s;
                        (_, s) \<leftarrow> (if small then CoalesceOrRedistribute c InternalNode parent_id s
                                 else Some (False, s));
                        s \<leftarrow> st_unpin (GetPageId parent_page) True s;
                        Some (True, s) }
                 else
                   do { let index_in_parent = internal_ValueIndex (GetPageId h) parent_page;
                        s \<leftarrow> Redistribute c kind node2 node index_in_parent s;
                        s \<leftarrow> st_unpin (GetPageId parent_page) False s;
                        Some (False, s) } } }"

definition Coalesce ::
  "('k, 'v) tree_params \<Rightarrow> node_kind \<Rightarrow> page_id \<Rightarrow> page_id \<Rightarrow> page_id \<Rightarrow> int \<Rightarrow> ('k, 'v) btree \<Rightarrow>
   (bool \<times> ('k, 'v) btree) option" where
  "Coalesce c kind neighbor_node node parent index s =
     do { (small, s) \<leftarrow> Coalesce_step c kind neighbor_node node parent index s;
          if small then CoalesceOrRedistribute c InternalNode parent s else Some (False, s) }"

definition Remove_key ::
  "('k, 'v) tree_params \<Rightarrow> 'k \<Rightarrow> ('k, 'v) btree \<Rightarrow> ('k, 'v) btree option" where
  "Remove_key c key s =
     (if IsEmpty s then Some s
      else do { (tar, s) \<leftarrow> FindLeafPage c key False OP_DELETE s;
                tar \<leftarrow> tar;
                l \<leftarrow> get_leaf c tar s;
                (cur_size, l) \<leftarrow> leaf_RemoveAndDeleteRecord (comparator c) key l;
                s \<leftarrow> put_leaf tar l s;
                s \<leftarrow> (if cur_size < GetMinSize l then
                       do { (_, s) \<leftarrow> CoalesceOrRedistribute c LeafNode tar s; Some s }
                     else Some s);
                FreePagesInTransaction True (- 1) s })"

end
