(* ===== verification/BTreeShape.thy ===== *)
theory BTreeShape imports BInternal "HOL-Library.Multiset" begin

text \<open>
  B+ trees as trees: what the pages of an index stand for.  A tree keeps the page id of each node, so that
  it determines the pages down to their headers; a zipper of frames is the path a search walks.  The
  order of keys is one condition on all entries and one on neighbouring children, so that it survives
  the replacement of a subtree.
\<close>

section \<open>Trees and paths\<close>

datatype ('k, 'v) tree = Leaf page_id "('k \<times> 'v) list" | Node page_id "('k \<times> ('k, 'v) tree) list"

type_synonym ('k, 'v) kids = "('k \<times> ('k, 'v) tree) list"

fun tree_id :: "('k, 'v) tree \<Rightarrow> page_id" where
  "tree_id (Leaf p es) = p"
| "tree_id (Node p kts) = p"

fun node_size :: "('k, 'v) tree \<Rightarrow> nat" where
  "node_size (Leaf p es) = length es"
| "node_size (Node p kts) = length kts"

fun is_leaf :: "('k, 'v) tree \<Rightarrow> bool" where
  "is_leaf (Leaf p es) = True"
| "is_leaf (Node p kts) = False"

text \<open>The number of slots of a node that may be used.\<close>

definition cap :: "nat \<Rightarrow> nat \<Rightarrow> ('k, 'v) tree \<Rightarrow> nat" where
  "cap Lm Im t = (if is_leaf t then Lm else Im)"

fun entries :: "('k, 'v) tree \<Rightarrow> ('k \<times> 'v) list" where
  "entries (Leaf p es) = es"
| "entries (Node p kts) = concat (map (\<lambda>kt. entries (snd kt)) kts)"

fun page_ids :: "('k, 'v) tree \<Rightarrow> page_id list" where
  "page_ids (Leaf p es) = [p]"
| "page_ids (Node p kts) = p # concat (map (\<lambda>kt. page_ids (snd kt)) kts)"

fun leaf_ids :: "('k, 'v) tree \<Rightarrow> page_id list" where
  "leaf_ids (Leaf p es) = [p]"
| "leaf_ids (Node p kts) = concat (map (\<lambda>kt. leaf_ids (snd kt)) kts)"

abbreviation kids_entries :: "('k, 'v) kids \<Rightarrow> ('k \<times> 'v) list" where
  "kids_entries kts \<equiv> concat (map (\<lambda>kt. entries (snd kt)) kts)"

abbreviation kids_page_ids :: "('k, 'v) kids \<Rightarrow> page_id list" where
  "kids_page_ids kts \<equiv> concat (map (\<lambda>kt. page_ids (snd kt)) kts)"

abbreviation kids_leaf_ids :: "('k, 'v) kids \<Rightarrow> page_id list" where
  "kids_leaf_ids kts \<equiv> concat (map (\<lambda>kt. leaf_ids (snd kt)) kts)"

text \<open>The slots of an internal page.\<close>

definition kid_slots :: "('k, 'v) kids \<Rightarrow> ('k \<times> page_id) list" where
  "kid_slots kts = map (\<lambda>kt. (fst kt, tree_id (snd kt))) kts"

lemma kid_slots_simps [simp]:
  "kid_slots [] = []" "kid_slots (kt # kts) = (fst kt, tree_id (snd kt)) # kid_slots kts"
  "kid_slots (xs @ ys) = kid_slots xs @ kid_slots ys" "length (kid_slots kts) = length kts"
  "take n (kid_slots kts) = kid_slots (take n kts)" "drop n (kid_slots kts) = kid_slots (drop n kts)"
  by (simp_all add: kid_slots_def take_map drop_map)

text \<open>A frame is a node without one of its children: the page id, the children before it, the separator
  of the missing child and the children after it.  The first frame of a path is the innermost one.\<close>

type_synonym ('k, 'v) tree_frame = "page_id \<times> ('k, 'v) kids \<times> 'k \<times> ('k, 'v) kids"

fun plug :: "('k, 'v) tree_frame list \<Rightarrow> ('k, 'v) tree \<Rightarrow> ('k, 'v) tree" where
  "plug [] t = t"
| "plug ((p, L, k, R) # fs) t = plug fs (Node p (L @ (k, t) # R))"

fun before_hole :: "(('k, 'v) kids \<Rightarrow> 'a list) \<Rightarrow> ('k, 'v) tree_frame list \<Rightarrow> 'a list" where
  "before_hole f [] = []"
| "before_hole f ((p, L, k, R) # fs) = before_hole f fs @ f L"

fun behind_hole :: "(('k, 'v) kids \<Rightarrow> 'a list) \<Rightarrow> ('k, 'v) tree_frame list \<Rightarrow> 'a list" where
  "behind_hole f [] = []"
| "behind_hole f ((p, L, k, R) # fs) = f R @ behind_hole f fs"

lemma entries_plug:
  "entries (plug fs t) = before_hole kids_entries fs @ entries t @ behind_hole kids_entries fs"
  by (induction fs t rule: plug.induct) simp_all

lemma leaf_ids_plug:
  "leaf_ids (plug fs t) = before_hole kids_leaf_ids fs @ leaf_ids t @ behind_hole kids_leaf_ids fs"
  by (induction fs t rule: plug.induct) simp_all

text \<open>The page ids of the frames and of what hangs off them.\<close>

definition frame_ids :: "('k, 'v) tree_frame list \<Rightarrow> page_id list" where
  "frame_ids fs = map fst fs"

fun side_ids :: "('k, 'v) tree_frame list \<Rightarrow> page_id list" where
  "side_ids [] = []"
| "side_ids ((p, L, k, R) # fs) = p # kids_page_ids L @ kids_page_ids R @ side_ids fs"

lemma mset_page_ids_plug: "mset (page_ids (plug fs t)) = mset (page_ids t) + mset (side_ids fs)"
  by (induction fs t rule: plug.induct) (simp_all add: add.assoc)

lemma set_page_ids_plug: "set (page_ids (plug fs t)) = set (page_ids t) \<union> set (side_ids fs)"
  using arg_cong [OF mset_page_ids_plug [of fs t], of set_mset] by simp

lemma distinct_page_ids_plug:
  "distinct (page_ids (plug fs t)) \<longleftrightarrow> distinct (page_ids t @ side_ids fs)"
  using mset_page_ids_plug [of fs t] by (metis mset_append mset_eq_imp_distinct_iff)

lemma tree_id_page_ids [simp]: "tree_id t \<in> set (page_ids t)"
  by (cases t) simp_all

lemma leaf_ids_page_ids: "set (leaf_ids t) \<subseteq> set (page_ids t)"
  by (induction t rule: leaf_ids.induct) auto

lemma frame_ids_side_ids: "set (frame_ids fs) \<subseteq> set (side_ids fs)"
  by (induction fs rule: side_ids.induct) (auto simp: frame_ids_def)

section \<open>Order\<close>

text \<open>The separator of a child is above the entries of its left neighbour and not above its own.\<close>

definition sep_ok :: "('k \<Rightarrow> 'k \<Rightarrow> int) \<Rightarrow> 'k set \<Rightarrow> 'k \<times> ('k \<times> 'v) list \<Rightarrow> 'k \<times> ('k \<times> 'v) list \<Rightarrow> bool" where
  "sep_ok cmp K x y \<longleftrightarrow> fst y \<in> K \<and> cmp (fst (last (snd x))) (fst y) < 0 \<and> cmp (fst y) (fst (hd (snd y))) \<le> 0"

definition kid_view :: "'k \<times> ('k, 'v) tree \<Rightarrow> 'k \<times> ('k \<times> 'v) list" where
  "kid_view kt = (fst kt, entries (snd kt))"

lemma kid_view_simps [simp]: "fst (kid_view kt) = fst kt" "snd (kid_view kt) = entries (snd kt)"
  by (simp_all add: kid_view_def)

definition seps_ok :: "('k \<Rightarrow> 'k \<Rightarrow> int) \<Rightarrow> 'k set \<Rightarrow> ('k \<times> ('k \<times> 'v) list) list \<Rightarrow> bool" where
  "seps_ok cmp K xs \<longleftrightarrow> successively (sep_ok cmp K) xs \<and> (\<forall>x \<in> set xs. snd x \<noteq> [])"

fun search_ok :: "('k \<Rightarrow> 'k \<Rightarrow> int) \<Rightarrow> 'k set \<Rightarrow> ('k, 'v) tree \<Rightarrow> bool" where
  "search_ok cmp K (Leaf p es) = True"
| "search_ok cmp K (Node p kts) \<longleftrightarrow> seps_ok cmp K (map kid_view kts) \<and> (\<forall>kt \<in> set kts. search_ok cmp K (snd kt))"

text \<open>The same for a path whose hole holds the entries \<open>es\<close>.\<close>

fun path_ok :: "('k \<Rightarrow> 'k \<Rightarrow> int) \<Rightarrow> 'k set \<Rightarrow> ('k, 'v) tree_frame list \<Rightarrow> ('k \<times> 'v) list \<Rightarrow> bool" where
  "path_ok cmp K [] es = True"
| "path_ok cmp K ((p, L, k, R) # fs) es \<longleftrightarrow>
     seps_ok cmp K (map kid_view L @ (k, es) # map kid_view R) \<and>
     (\<forall>kt \<in> set (L @ R). search_ok cmp K (snd kt)) \<and>
     path_ok cmp K fs (kids_entries L @ es @ kids_entries R)"

lemma search_ok_plug: "search_ok cmp K (plug fs t) \<longleftrightarrow> search_ok cmp K t \<and> path_ok cmp K fs (entries t)"
  by (induction fs t rule: plug.induct) (auto simp: kid_view_def)

text \<open>A key belongs into the hole of a path.\<close>

fun in_hole :: "('k \<Rightarrow> 'k \<Rightarrow> int) \<Rightarrow> 'k \<Rightarrow> ('k, 'v) tree_frame list \<Rightarrow> bool" where
  "in_hole cmp key [] = True"
| "in_hole cmp key ((p, L, k, R) # fs) \<longleftrightarrow>
     (L \<noteq> [] \<longrightarrow> cmp k key \<le> 0) \<and> (R \<noteq> [] \<longrightarrow> cmp key (fst (hd R)) < 0) \<and> in_hole cmp key fs"

section \<open>First slots\<close>

text \<open>The key in the first slot of a node, which the search does not read, is the separator of the node itself.\<close>

fun heads_ok :: "'k \<Rightarrow> ('k, 'v) tree \<Rightarrow> bool" where
  "heads_ok k (Leaf p es) = True"
| "heads_ok k (Node p kts) \<longleftrightarrow> (kts \<noteq> [] \<longrightarrow> fst (hd kts) = k) \<and> (\<forall>kt \<in> set kts. heads_ok (fst kt) (snd kt))"

fun path_head :: "'k \<Rightarrow> ('k, 'v) tree_frame list \<Rightarrow> 'k" where
  "path_head z [] = z"
| "path_head z ((p, L, k, R) # fs) = k"

fun path_heads :: "'k \<Rightarrow> ('k, 'v) tree_frame list \<Rightarrow> bool" where
  "path_heads z [] = True"
| "path_heads z ((p, L, k, R) # fs) \<longleftrightarrow> (if L = [] then k else fst (hd L)) = path_head z fs \<and>
     (\<forall>kt \<in> set (L @ R). heads_ok (fst kt) (snd kt)) \<and> path_heads z fs"

lemma heads_ok_plug: "heads_ok z (plug fs t) \<longleftrightarrow> heads_ok (path_head z fs) t \<and> path_heads z fs"
  by (induction fs t rule: plug.induct) (auto simp: hd_append)

section \<open>Shape\<close>

text \<open>The height, the same for all leaves, and the sizes of the nodes: \<open>Lm\<close> and \<open>Im\<close> are the maximal sizes of
  leaf and internal pages, and every node but the root is filled to one half.\<close>

fun shape :: "nat \<Rightarrow> nat \<Rightarrow> bool \<Rightarrow> nat \<Rightarrow> ('k, 'v) tree \<Rightarrow> bool" where
  "shape Lm Im root h (Leaf p es) \<longleftrightarrow> h = 0 \<and> (if root then 1 else Lm div 2) \<le> length es \<and> length es \<le> Lm"
| "shape Lm Im root h (Node p kts) \<longleftrightarrow> 0 < h \<and> (if root then 2 else Im div 2) \<le> length kts \<and> length kts \<le> Im \<and>
     (\<forall>kt \<in> set kts. shape Lm Im False (h - 1) (snd kt))"

fun path_shape :: "nat \<Rightarrow> nat \<Rightarrow> nat \<Rightarrow> ('k, 'v) tree_frame list \<Rightarrow> bool" where
  "path_shape Lm Im h [] = True"
| "path_shape Lm Im h ((p, L, k, R) # fs) \<longleftrightarrow> (if fs = [] then 2 else Im div 2) \<le> Suc (length L + length R) \<and>
     Suc (length L + length R) \<le> Im \<and> (\<forall>kt \<in> set (L @ R). shape Lm Im False h (snd kt)) \<and> path_shape Lm Im (Suc h) fs"

lemma shape_plug:
  "shape Lm Im True (h + length fs) (plug fs t) \<longleftrightarrow> shape Lm Im (fs = []) h t \<and> path_shape Lm Im h fs"
proof (induction fs t arbitrary: h rule: plug.induct)
  case (2 p L k R fs t)
  from 2 [of "Suc h"] show ?case by auto
qed simp

lemma shape_plug_height:
  "shape Lm Im True H (plug fs t) \<Longrightarrow> length fs \<le> H"
proof (induction fs t arbitrary: H rule: plug.induct)
  case (2 p L k R fs t)
  then have "length fs \<le> H" by simp
  with 2(2) show ?case
    using shape_plug [of Lm Im "H - length fs" fs "Node p (L @ (k, t) # R)"] by auto
qed simp

lemma shape_entries: "shape Lm Im root h t \<Longrightarrow> 2 \<le> Lm \<Longrightarrow> 4 \<le> Im \<Longrightarrow> entries t \<noteq> []"
proof (induction Lm Im root h t rule: shape.induct)
  case (2 Lm Im root h p kts)
  then have "kts \<noteq> []" by (auto split: if_splits)
  then obtain kt where "kt \<in> set kts" by (cases kts) auto
  with 2 show ?case by fastforce
qed (auto split: if_splits)

section \<open>Search\<close>

lemma seps_ok_append:
  "seps_ok cmp K (xs @ ys) \<longleftrightarrow>
   seps_ok cmp K xs \<and> seps_ok cmp K ys \<and> (xs = [] \<or> ys = [] \<or> sep_ok cmp K (last xs) (hd ys))"
  by (auto simp: seps_ok_def successively_append_iff)

lemma seps_ok_Cons:
  "seps_ok cmp K (x # xs) \<longleftrightarrow> snd x \<noteq> [] \<and> seps_ok cmp K xs \<and> (xs = [] \<or> sep_ok cmp K x (hd xs))"
  by (auto simp: seps_ok_def successively_Cons)

lemma seps_ok_Nil [simp]: "seps_ok cmp K []"
  by (simp add: seps_ok_def)

lemma kids_entries_hd:
  "kts \<noteq> [] \<Longrightarrow> entries (snd (hd kts)) \<noteq> [] \<Longrightarrow> hd (kids_entries kts) = hd (entries (snd (hd kts)))"
  by (cases kts) simp_all

lemma kids_entries_last:
  "kts \<noteq> [] \<Longrightarrow> entries (snd (last kts)) \<noteq> [] \<Longrightarrow> last (kids_entries kts) = last (entries (snd (last kts)))"
  by (cases kts rule: rev_cases) simp_all

lemma seps_ok_nonempty: "seps_ok cmp K (map kid_view kts) \<Longrightarrow> kt \<in> set kts \<Longrightarrow> entries (snd kt) \<noteq> []"
  by (auto simp: seps_ok_def)

lemma seps_ok_sep:
  assumes "seps_ok cmp K (map kid_view kts)" and "0 < i" and "i < length kts"
  shows "fst (kts ! i) \<in> K"
proof -
  have "kts = take i kts @ kts ! i # drop (Suc i) kts" using assms(3) by (simp add: id_take_nth_drop)
  then have "seps_ok cmp K (map kid_view (take i kts) @ kid_view (kts ! i) # map kid_view (drop (Suc i) kts))"
    using assms(1) by (metis list.simps(9) map_append)
  moreover have "take i kts \<noteq> []" using assms by auto
  ultimately show ?thesis by (auto simp: seps_ok_append sep_ok_def)
qed

lemma path_ok_nonempty: "path_ok cmp K fs es \<Longrightarrow> fs \<noteq> [] \<Longrightarrow> es \<noteq> []"
  by (cases fs) (auto simp: seps_ok_def)

context key_order begin

lemma key_sorted_last:
  assumes "key_sorted cmp K es" and "e \<in> set es" and "k \<in> K" and "cmp (fst (last es)) k < 0"
  shows "cmp (fst e) k < 0"
proof -
  obtain xs x where es: "es = xs @ [x]" using assms(2) by (cases es rule: rev_cases) auto
  then have "fst e \<in> K" "fst x \<in> K" and x: "cmp (fst x) k < 0"
    using assms(1,2,4) key_sorted_in [OF assms(1)] by auto
  moreover have "e = x \<or> cmp (fst e) (fst x) < 0" using assms(1,2) by (auto simp: es key_sorted_append)
  ultimately show ?thesis using assms(3) cmp_trans [of "fst e" "fst x" k] by blast
qed

lemma key_sorted_hd:
  assumes "key_sorted cmp K es" and "e \<in> set es" and "k \<in> K" and "cmp k (fst (hd es)) < 0"
  shows "cmp k (fst e) < 0"
proof -
  obtain x xs where es: "es = x # xs" using assms(2) by (cases es) auto
  then have "fst e \<in> K" "fst x \<in> K" and x: "cmp k (fst x) < 0"
    using assms(1,2,4) key_sorted_in [OF assms(1)] by auto
  moreover have "e = x \<or> cmp (fst x) (fst e) < 0" using assms(1,2) by (auto simp: es key_sorted_Cons)
  ultimately show ?thesis using assms(3) cmp_trans [of k "fst x" "fst e"] by blast
qed

text \<open>The child that \<open>Lookup\<close> chooses.\<close>

lemma child_pos_in_hole:
  assumes "seps_ok cmp K (map kid_view kts)" and "kts \<noteq> []" and "key \<in> K" and "in_hole cmp key fs"
    and i: "i = child_pos cmp key (kid_slots kts)"
  shows "i < length kts" and "in_hole cmp key ((p, take i kts, fst (kts ! i), drop (Suc i) kts) # fs)"
proof -
  have "kid_slots kts \<noteq> []" using assms(2) by (cases kts) auto
  from child_pos_less [OF this] show l: "i < length kts" by (simp add: i)
  let ?tw = "takeWhile (\<lambda>e. cmp (fst e) key \<le> 0) (tl (kid_slots kts))"
  have nth: "fst (tl (kid_slots kts) ! j) = fst (kts ! Suc j)" if "Suc j < length kts" for j
    using that by (simp add: nth_tl kid_slots_def)
  have len: "length ?tw = i" by (simp add: i child_pos_def)
  have low: "cmp (fst (kts ! i)) key \<le> 0" if "0 < i"
  proof -
    have "?tw ! (i - 1) \<in> set ?tw" using that len by (intro nth_mem) simp
    then have "cmp (fst (?tw ! (i - 1))) key \<le> 0" by (auto dest: set_takeWhileD)
    moreover have "?tw ! (i - 1) = tl (kid_slots kts) ! (i - 1)" using that len by (intro takeWhile_nth) simp
    ultimately show ?thesis using nth [of "i - 1"] that l by simp
  qed
  have high: "cmp key (fst (kts ! Suc i)) < 0" if "Suc i < length kts"
  proof -
    have "\<not> cmp (fst (tl (kid_slots kts) ! i)) key \<le> 0"
      using nth_length_takeWhile [of "\<lambda>e. cmp (fst e) key \<le> 0" "tl (kid_slots kts)"] that len by simp
    moreover have "fst (kts ! Suc i) \<in> K" using seps_ok_sep [OF assms(1), of "Suc i"] that by simp
    ultimately show ?thesis using nth [OF that] cmp_pos_iff [OF _ \<open>key \<in> K\<close>, of "fst (kts ! Suc i)"] by simp
  qed
  show "in_hole cmp key ((p, take i kts, fst (kts ! i), drop (Suc i) kts) # fs)"
    using l low high assms(4) by (auto simp: hd_drop_conv_nth)
qed

lemma successively_seps:
  assumes "seps_ok cmp K xs" and "\<forall>x \<in> set xs. cmp (fst (hd (snd x))) (fst (last (snd x))) \<le> 0"
    and "\<forall>x \<in> set xs. fst ` set (snd x) \<subseteq> K"
  shows "successively (\<lambda>a b. cmp (fst a) (fst b) < 0) (tl xs) \<and> fst ` set (tl xs) \<subseteq> K"
  using assms
proof (induction xs)
  case (Cons x xs)
  show ?case
  proof (cases xs)
    case (Cons y ys)
    have IH: "successively (\<lambda>a b. cmp (fst a) (fst b) < 0) ys" "fst ` set ys \<subseteq> K" and y: "fst y \<in> K" "snd y \<noteq> []"
      "cmp (fst y) (fst (hd (snd y))) \<le> 0" "cmp (fst (hd (snd y))) (fst (last (snd y))) \<le> 0"
      "fst (hd (snd y)) \<in> K" "fst (last (snd y)) \<in> K"
      using Cons.IH Cons.prems by (auto simp: local.Cons seps_ok_Cons sep_ok_def image_subset_iff)
    have "cmp (fst y) (fst (hd ys)) < 0" if "ys \<noteq> []"
    proof -
      have "cmp (fst (last (snd y))) (fst (hd ys)) < 0" "fst (hd ys) \<in> K"
        using Cons.prems(1) that by (auto simp: local.Cons seps_ok_Cons sep_ok_def)
      then show ?thesis using y cmp_le_less_trans by blast
    qed
    then show ?thesis using IH y(1) by (auto simp: local.Cons successively_Cons)
  qed simp
qed simp

lemma key_sorted_ends:
  assumes "key_sorted cmp K es" and "es \<noteq> []"
  shows "cmp (fst (hd es)) (fst (last es)) \<le> 0"
proof (cases "hd es = last es")
  case True
  then show ?thesis using assms cmp_refl [of "fst (last es)"] key_sorted_in [of cmp K es "last es"] by simp
next
  case False
  then obtain x xs where "es = x # xs" "last es \<in> set xs" using assms(2) by (cases es) (auto split: if_splits)
  then show ?thesis using assms(1) by (auto simp: key_sorted_Cons intro: less_imp_le)
qed

lemma key_sorted_kids:
  "key_sorted cmp K (kids_entries kts) \<Longrightarrow> kt \<in> set kts \<Longrightarrow> key_sorted cmp K (entries (snd kt))"
  by (induction kts) (auto simp: key_sorted_append)

text \<open>The separators of a node are sorted.\<close>

lemma seps_sorted:
  assumes "seps_ok cmp K (map kid_view kts)" and "key_sorted cmp K (kids_entries kts)"
  shows "key_sorted cmp K (tl (kid_slots kts))"
proof -
  have k: "cmp (fst (hd (snd x))) (fst (last (snd x))) \<le> 0 \<and> fst ` set (snd x) \<subseteq> K" if x: "x \<in> set (map kid_view kts)" for x
  proof -
    obtain kt where kt: "kt \<in> set kts" "x = kid_view kt" using x unfolding set_map by blast
    then show ?thesis
      using key_sorted_ends [OF key_sorted_kids [OF assms(2) kt(1)]] seps_ok_nonempty [OF assms(1) kt(1)]
        key_sorted_in [OF key_sorted_kids [OF assms(2) kt(1)]] by auto
  qed
  have s: "successively (\<lambda>a b. cmp (fst a) (fst b) < 0) (map kid_view (tl kts))" "fst ` set (map kid_view (tl kts)) \<subseteq> K"
    using successively_seps [OF assms(1)] k by (auto simp: map_tl)
  have "successively (\<lambda>a b. cmp a b < 0) (map fst (tl kts))" using s(1) by (simp add: successively_map)
  then have "sorted_wrt (\<lambda>a b. cmp a b < 0) (map fst (tl kts))"
  proof (subst (asm) successively_iff_sorted_wrt_strong)
    fix x y z assume "x \<in> set (map fst (tl kts))" "y \<in> set (map fst (tl kts))" "z \<in> set (map fst (tl kts))"
      "cmp x y < 0" "cmp y z < 0"
    moreover have "set (map fst (tl kts)) \<subseteq> K" using s(2) by (simp add: image_image)
    ultimately show "cmp x z < 0" using cmp_trans by blast
  qed
  then show ?thesis using s(2) by (simp add: key_sorted_def kid_slots_def sorted_wrt_map map_tl [symmetric] image_image)
qed

text \<open>Where a key belongs, the entries outside the hole are below and above it.\<close>

lemma in_hole_outside:
  assumes "path_ok cmp K fs es" and "key \<in> K" and "in_hole cmp key fs"
    and "key_sorted cmp K (before_hole kids_entries fs @ es @ behind_hole kids_entries fs)"
  shows "(\<forall>e \<in> set (before_hole kids_entries fs). cmp (fst e) key < 0) \<and>
    (\<forall>e \<in> set (behind_hole kids_entries fs). cmp key (fst e) < 0)"
  using assms
proof (induction fs arbitrary: es rule: side_ids.induct)
  case (2 p L k R fs)
  let ?l = "kids_entries L" and ?r = "kids_entries R"
  have IH: "(\<forall>e \<in> set (before_hole kids_entries fs). cmp (fst e) key < 0) \<and>
      (\<forall>e \<in> set (behind_hole kids_entries fs). cmp key (fst e) < 0)"
    using 2 by (intro "2.IH" [of "?l @ es @ ?r"]) simp_all
  have s: "seps_ok cmp K (map kid_view L @ (k, es) # map kid_view R)" using 2 by simp
  have sorted: "key_sorted cmp K ?l" "key_sorted cmp K ?r" using "2.prems"(4) by (simp_all add: key_sorted_append)
  have "cmp (fst e) key < 0" if e: "e \<in> set ?l" for e
  proof -
    have L: "L \<noteq> []" using e by auto
    then have "sep_ok cmp K (kid_view (last L)) (k, es)" using s by (simp add: seps_ok_append last_map)
    moreover have "entries (snd (last L)) \<noteq> []"
      using s L seps_ok_nonempty [of cmp K L "last L"] by (simp add: seps_ok_append)
    ultimately have "cmp (fst (last ?l)) k < 0" "k \<in> K" using kids_entries_last [OF L] by (simp_all add: sep_ok_def)
    then have "cmp (fst e) k < 0" using key_sorted_last [OF sorted(1) e] by blast
    then show ?thesis
      using "2.prems"(2,3) L \<open>k \<in> K\<close> key_sorted_in [OF sorted(1) e] cmp_less_le_trans [of "fst e" k key] by simp
  qed
  note low = this
  have high: "cmp key (fst e) < 0" if e: "e \<in> set ?r" for e
  proof -
    have R: "R \<noteq> []" using e by auto
    then have "sep_ok cmp K (k, es) (kid_view (hd R))" using s by (simp add: seps_ok_append seps_ok_Cons hd_map)
    moreover have "entries (snd (hd R)) \<noteq> []"
      using s R seps_ok_nonempty [of cmp K R "hd R"] by (simp add: seps_ok_append seps_ok_Cons)
    ultimately have h: "cmp (fst (hd R)) (fst (hd ?r)) \<le> 0" "fst (hd R) \<in> K"
      using kids_entries_hd [OF R] by (simp_all add: sep_ok_def)
    have "?r \<noteq> []" using e by (cases ?r) auto
    then have "fst (hd ?r) \<in> K" using key_sorted_in [OF sorted(2) hd_in_set] by blast
    then have "cmp key (fst (hd ?r)) < 0" using "2.prems"(2,3) R h cmp_less_le_trans [of key "fst (hd R)" "fst (hd ?r)"] by simp
    then show ?thesis using key_sorted_hd [OF sorted(2) e] "2.prems"(2) by blast
  qed
  show ?case
    unfolding before_hole.simps behind_hole.simps set_append ball_Un using IH low high by blast
qed simp

lemma map_of_hole:
  assumes "path_ok cmp K fs es" and "key \<in> K" and "in_hole cmp key fs"
    and "key_sorted cmp K (before_hole kids_entries fs @ es @ behind_hole kids_entries fs)"
  shows "map_of (before_hole kids_entries fs @ es @ behind_hole kids_entries fs) key = map_of es key"
proof -
  note o = in_hole_outside [OF assms]
  have "map_of (before_hole kids_entries fs) key = None" "map_of (behind_hole kids_entries fs) key = None"
    using o cmp_refl [OF assms(2)] by (fastforce simp: map_of_eq_None_iff)+
  then show ?thesis by (simp add: map_add_def split: option.splits)
qed

end

end
