(* ===== verification/BTreePages.thy ===== *)
theory BTreePages imports BTreeInsert BTreeShape begin

text \<open>
  How a tree lies on the pages of the store: the page of each node with its header, the slots it holds,
  and the chain of the leaves.
\<close>

section \<open>The pages of a tree\<close>

datatype ('k, 'v) node_data = LeafData "('k \<times> 'v) list" | NodeData "('k \<times> page_id) list"

text \<open>A cell is a page id, the id of its parent and what the page holds.\<close>

type_synonym ('k, 'v) cell = "page_id \<times> page_id \<times> ('k, 'v) node_data"

fun cells :: "page_id \<Rightarrow> ('k, 'v) tree \<Rightarrow> ('k, 'v) cell list" where
  "cells par (Leaf p es) = [(p, par, LeafData es)]"
| "cells par (Node p kts) = (p, par, NodeData (kid_slots kts)) # concat (map (\<lambda>kt. cells p (snd kt)) kts)"

abbreviation kids_cells :: "page_id \<Rightarrow> ('k, 'v) kids \<Rightarrow> ('k, 'v) cell list" where
  "kids_cells p kts \<equiv> concat (map (\<lambda>kt. cells p (snd kt)) kts)"

fun path_parent :: "('k, 'v) tree_frame list \<Rightarrow> page_id" where
  "path_parent [] = INVALID_PAGE_ID"
| "path_parent (f # fs) = fst f"

fun path_cells :: "page_id \<Rightarrow> ('k, 'v) tree_frame list \<Rightarrow> ('k, 'v) cell list" where
  "path_cells h [] = []"
| "path_cells h ((p, L, k, R) # fs) =
     (p, path_parent fs, NodeData (kid_slots L @ (k, h) # kid_slots R)) # kids_cells p L @ kids_cells p R @ path_cells p fs"

lemma set_cells_plug:
  "set (cells INVALID_PAGE_ID (plug fs t)) = set (cells (path_parent fs) t) \<union> set (path_cells (tree_id t) fs)"
  by (induction fs t rule: plug.induct) auto

lemma map_fst_cells: "map fst (cells par t) = page_ids t"
  by (induction par t rule: cells.induct) (auto simp: map_concat intro!: arg_cong [of _ _ concat])

lemma fst_cells: "fst ` set (cells par t) = set (page_ids t)"
  by (metis map_fst_cells set_map)

lemma fst_kids_cells: "fst ` set (kids_cells p kts) = set (kids_page_ids kts)"
  by (induction kts) (auto simp: image_Un fst_cells)

lemma fst_path_cells: "fst ` set (path_cells h fs) = set (side_ids fs)"
  by (induction h fs rule: path_cells.induct) (simp_all add: image_Un image_UN fst_cells)

text \<open>What a page holds for a cell.\<close>

definition page_is :: "('k, 'v) tree_params \<Rightarrow> page_id \<Rightarrow> page_id \<Rightarrow> ('k, 'v) node_data \<Rightarrow> ('k, 'v) page \<Rightarrow> bool" where
  "page_is c p par nd d \<longleftrightarrow> (case nd of
     LeafData es \<Rightarrow> \<exists>l. d = LeafP l \<and> wf_leaf l \<and> leaf_entries l = es \<and> page_id_m l = p \<and> parent_page_id_m l = par \<and>
       max_size_m l + 1 = leaf_slots (key_size c) \<and> int (length (leaf_array l)) = leaf_slots (key_size c)
   | NodeData kps \<Rightarrow> \<exists>n. d = InternalP n \<and> wf_internal n \<and> internal_entries n = kps \<and> page_id_m n = p \<and>
       parent_page_id_m n = par \<and> max_size_m n + 1 = internal_slots (key_size c) \<and>
       int (length (internal_array n)) = internal_slots (key_size c))"

definition cell_at :: "('k, 'v) tree_params \<Rightarrow> (page_id \<Rightarrow> ('k, 'v) page option) \<Rightarrow> ('k, 'v) cell \<Rightarrow> bool" where
  "cell_at c m x \<longleftrightarrow> (\<exists>d. m (fst x) = Some d \<and> page_is c (fst x) (fst (snd x)) (snd (snd x)) d)"

definition next_at :: "(page_id \<Rightarrow> ('k, 'v) page option) \<Rightarrow> page_id \<Rightarrow> page_id \<Rightarrow> bool" where
  "next_at m p q \<longleftrightarrow> (\<exists>l. m p = Some (LeafP l) \<and> next_page_id_m l = q)"

definition stored :: "('k, 'v) tree_params \<Rightarrow> ('k, 'v) tree \<Rightarrow> (page_id \<Rightarrow> ('k, 'v) page option) \<Rightarrow> bool" where
  "stored c t m \<longleftrightarrow> (\<forall>x \<in> set (cells INVALID_PAGE_ID t). cell_at c m x) \<and>
     successively (next_at m) (leaf_ids t @ [INVALID_PAGE_ID]) \<and> distinct (page_ids t) \<and> (\<forall>p \<in> set (page_ids t). 0 < p)"

lemma cell_at_cong: "m (fst x) = m' (fst x) \<Longrightarrow> cell_at c m x \<longleftrightarrow> cell_at c m' x"
  by (simp add: cell_at_def)

lemma next_at_cong: "m p = m' p \<Longrightarrow> next_at m p q \<longleftrightarrow> next_at m' p q"
  by (simp add: next_at_def)

lemma leaf_cell:
  assumes "cell_at c m (p, par, LeafData es)"
  obtains l where "m p = Some (LeafP l)" "wf_leaf l" "leaf_entries l = es" "page_id_m l = p" "parent_page_id_m l = par"
    "max_size_m l + 1 = leaf_slots (key_size c)" "int (length (leaf_array l)) = leaf_slots (key_size c)"
  using assms by (auto simp: cell_at_def page_is_def)

lemma node_cell:
  assumes "cell_at c m (p, par, NodeData kps)"
  obtains n where "m p = Some (InternalP n)" "wf_internal n" "internal_entries n = kps" "page_id_m n = p"
    "parent_page_id_m n = par" "max_size_m n + 1 = internal_slots (key_size c)"
    "int (length (internal_array n)) = internal_slots (key_size c)"
  using assms by (auto simp: cell_at_def page_is_def)

text \<open>The header of the page a cell describes.\<close>

lemma cell_header:
  assumes "cell_at c m (p, par, nd)"
  obtains d h where "m p = Some d" "tree_header d = Some h" "page_id_m h = p" "parent_page_id_m h = par"
    "IsLeafPage h \<longleftrightarrow> (\<exists>es. nd = LeafData es)"
    "size_m h = (case nd of LeafData es \<Rightarrow> int (length es) | NodeData kps \<Rightarrow> int (length kps))"
    "max_size_m h + 1 = (case nd of LeafData es \<Rightarrow> leaf_slots (key_size c) | NodeData kps \<Rightarrow> internal_slots (key_size c))"
proof (cases nd)
  case (LeafData es)
  from assms obtain l where "m p = Some (LeafP l)" "wf_leaf l" "leaf_entries l = es" "page_id_m l = p" "parent_page_id_m l = par"
    "max_size_m l + 1 = leaf_slots (key_size c)" unfolding LeafData by (rule leaf_cell)
  then show ?thesis
    by (intro that [of "LeafP l" "bpt_header.truncate l"])
      (auto simp: tree_header_def LeafData bpt_header.truncate_def IsLeafPage_def wf_leaf_def leaf_entries_def)
next
  case (NodeData kps)
  from assms obtain n where "m p = Some (InternalP n)" "wf_internal n" "internal_entries n = kps" "page_id_m n = p"
    "parent_page_id_m n = par" "max_size_m n + 1 = internal_slots (key_size c)" unfolding NodeData by (rule node_cell)
  then show ?thesis
    by (intro that [of "InternalP n" "bpt_header.truncate n"])
      (auto simp: tree_header_def NodeData bpt_header.truncate_def IsLeafPage_def wf_internal_def internal_entries_def)
qed

lemma tree_cell: "\<exists>nd. (tree_id t, par, nd) \<in> set (cells par t)"
  by (cases t) auto

section \<open>Reading\<close>

text \<open>A state in which a reader gets every latch: no writer, and the thread holds no root latch.\<close>

definition readable :: "('k, 'v) btree \<Rightarrow> bool" where
  "readable s \<longleftrightarrow> store_inv s \<and> (\<forall>p. 0 \<le> latch s p) \<and> 0 \<le> root_latch s \<and> root_locked_cnt s = 0 \<and> txn s = None"

text \<open>The state while a search reads page \<open>p\<close>, with or without the latch of the root.\<close>

definition root_read :: "int \<Rightarrow> ('k, 'v) btree \<Rightarrow> ('k, 'v) btree" where
  "root_read n s = s\<lparr>root_latch := root_latch s + n, root_locked_cnt := root_locked_cnt s + n\<rparr>"

definition reading :: "page_id \<Rightarrow> ('k, 'v) btree \<Rightarrow> ('k, 'v) btree" where
  "reading p s = s\<lparr>pins := (pins s)(p := pins s p + 1), latch := (latch s)(p := latch s p + 1)\<rparr>"

lemma LockRoot_read: "readable s \<Longrightarrow> LockRootPageId False s = Some (root_read 1 s)"
  by (simp add: LockRootPageId_def readable_def root_read_def)

lemma root_read_0 [simp]: "root_read 0 s = s"
  by (simp add: root_read_def)

lemma TryUnlockRoot_held:
  assumes "root_locked_cnt s = 0" and "0 \<le> root_latch s"
  shows "TryUnlockRootPageId False (root_read 1 s) = Some s"
proof -
  have "root_read 1 s\<lparr>root_latch := root_latch s, root_locked_cnt := root_locked_cnt s\<rparr> = s"
    by (simp add: root_read_def)
  then show ?thesis using assms by (simp add: TryUnlockRootPageId_def root_read_def)
qed

lemma TryUnlockRoot_read:
  assumes "readable s" and "n = 0 \<or> n = 1"
  shows "TryUnlockRootPageId False (reading p (root_read n s)) = Some (reading p s)"
    and "TryUnlockRootPageId False (root_read n s) = Some s"
proof -
  have free: "TryUnlockRootPageId False t = Some t" if "root_locked_cnt t = 0" for t :: "('a, 'b) btree"
    using that by (simp add: TryUnlockRootPageId_def)
  have c: "reading p (root_read n s) = root_read n (reading p s)" by (simp add: reading_def root_read_def)
  have r: "root_locked_cnt s = 0" "0 \<le> root_latch s" "root_locked_cnt (reading p s) = 0" "0 \<le> root_latch (reading p s)"
    using assms(1) by (simp_all add: readable_def reading_def)
  show "TryUnlockRootPageId False (reading p (root_read n s)) = Some (reading p s)"
    unfolding c using assms(2) TryUnlockRoot_held [OF r(3,4)] free [OF r(3)] by auto
  show "TryUnlockRootPageId False (root_read n s) = Some s"
    using assms(2) TryUnlockRoot_held [OF r(1,2)] free [OF r(1)] by auto
qed

lemma store_inv_pins: "store_inv s \<Longrightarrow> 0 \<le> pins s p"
  by (simp add: store_inv_def)

lemma store_inv_pending: "store_inv s \<Longrightarrow> p \<in> pending s \<Longrightarrow> 0 < pins s p"
  by (simp add: store_inv_def)

lemma Free_read:
  assumes s: "readable s" and p: "contents s p \<noteq> None" "0 \<le> p" and n: "n = 0 \<or> n = 1"
  shows "FreePagesInTransaction False p (reading p (root_read n s)) = Some s"
proof -
  obtain d where d: "contents s p = Some d" using p by auto
  have i: "0 \<le> pins s p" "0 \<le> latch s p" "p \<in> pending s \<Longrightarrow> 0 < pins s p" "txn s = None"
    using s store_inv_pins [of s p] store_inv_pending [of s p] by (auto simp: readable_def)
  show ?thesis
    unfolding FreePagesInTransaction_def TryUnlockRoot_read [OF s n] Option.bind.bind_lunit
    using i p(2) d by (auto simp: reading_def Unlock_id_def Unlock_def st_fetch_def st_runlatch_def st_unpin_def Let_def)
qed

lemma Crab_read_root:
  assumes s: "readable s" and d: "contents s p = Some d" "tree_header d = Some h"
  shows "CrabingProtocalFetchPage p OP_READ (- 1) (root_read 1 s) = Some (reading p (root_read 1 s))"
  using assms store_inv_pins [of s p]
  by (simp add: CrabingProtocalFetchPage_def st_fetch_def Lock_def st_rlatch_def st_get_def readable_def root_read_def reading_def)

lemma Crab_read_next:
  assumes s: "readable s" and d: "contents s p = Some d" "tree_header d = Some h"
    and cur: "contents s cur \<noteq> None" "0 < cur" "cur \<noteq> p" and n: "n = 0 \<or> n = 1"
  shows "CrabingProtocalFetchPage p OP_READ cur (reading cur (root_read n s)) = Some (reading p s)"
proof -
  have i: "0 \<le> pins s p" "0 \<le> latch s p" using s store_inv_pins by (auto simp: readable_def)
  have r: "readable (reading p s)"
    using s d(1) by (auto simp: readable_def reading_def store_inv_def add_nonneg_pos)
  have eq: "reading p (reading cur (root_read n s)) = reading cur (root_read n (reading p s))"
    using cur(3) by (simp add: reading_def root_read_def fun_upd_twist)
  have f: "FreePagesInTransaction False cur (reading cur (root_read n (reading p s))) = Some (reading p s)"
    using Free_read [OF r, of cur n] cur n by (simp add: reading_def)
  let ?u = "reading cur (root_read n s)"
  have l: "0 \<le> latch ?u p" using i cur(3) by (simp add: reading_def root_read_def)
  have f1: "st_fetch p ?u = Some (?u\<lparr>pins := (pins ?u)(p := pins ?u p + 1)\<rparr>)" using d(1) by (simp add: st_fetch_def reading_def root_read_def)
  have f2: "Lock False p (?u\<lparr>pins := (pins ?u)(p := pins ?u p + 1)\<rparr>) = Some (reading p ?u)"
    using l by (simp add: Lock_def st_rlatch_def reading_def)
  have f3: "st_get p (reading p ?u) = Some d" using i cur(3) d(1) by (simp add: st_get_def reading_def root_read_def)
  have "txn (reading p s) = None" using s by (simp add: readable_def reading_def)
  then show ?thesis unfolding CrabingProtocalFetchPage_def Let_def
    using cur(2) f d(2) by (simp add: f1 f2 f3 [unfolded eq] eq)
qed

end
