(* ===== verification/BTreeSteps.thy ===== *)
theory BTreeSteps imports BTreePages begin

text \<open>
  What the writing operations of the B+ tree do to the store, in terms of two relations: \<open>kept\<close> when
  pins, latches and the page set are as before, and \<open>grown N\<close> when the pages \<open>N\<close> were added, pinned,
  latched and put into the page set.  The contents are stated beside them.
\<close>

section \<open>The control state\<close>

definition kept :: "('k, 'v) btree \<Rightarrow> ('k, 'v) btree \<Rightarrow> bool" where
  "kept s s' \<longleftrightarrow> store_inv s' \<and> pins s' = pins s \<and> latch s' = latch s \<and> next_id s' = next_id s \<and>
     root_page_id s' = root_page_id s \<and> root_latch s' = root_latch s \<and> root_locked_cnt s' = root_locked_cnt s \<and> txn s' = txn s"

definition add_pages :: "page_id list \<Rightarrow> txn_pages \<Rightarrow> txn_pages" where
  "add_pages N t = t\<lparr>page_set := page_set t @ N\<rparr>"

definition grown :: "page_id list \<Rightarrow> ('k, 'v) btree \<Rightarrow> ('k, 'v) btree \<Rightarrow> bool" where
  "grown N s s' \<longleftrightarrow> store_inv s' \<and> next_id s \<le> next_id s' \<and> distinct N \<and> set N \<subseteq> {next_id s..<next_id s'} \<and>
     pins s' = (\<lambda>q. if q \<in> set N then 1 else pins s q) \<and> latch s' = (\<lambda>q. if q \<in> set N then - 1 else latch s q) \<and>
     root_latch s' = root_latch s \<and> root_locked_cnt s' = root_locked_cnt s \<and> txn s' = map_option (add_pages N) (txn s)"

lemma keptD:
  assumes "kept s s'"
  shows "store_inv s'" "pins s' = pins s" "latch s' = latch s" "next_id s' = next_id s" "root_page_id s' = root_page_id s"
    "root_latch s' = root_latch s" "root_locked_cnt s' = root_locked_cnt s" "txn s' = txn s"
  using assms by (simp_all add: kept_def)

lemma kept_refl: "store_inv s \<Longrightarrow> kept s s"
  by (simp add: kept_def)

lemma kept_trans: "kept s s' \<Longrightarrow> kept s' s'' \<Longrightarrow> kept s s''"
  by (simp add: kept_def)

lemma add_pages_Nil [simp]: "add_pages [] t = t"
  by (simp add: add_pages_def)

lemma add_pages_append: "add_pages (N @ M) t = add_pages M (add_pages N t)"
  by (simp add: add_pages_def)

lemma map_add_pages_Nil [simp]: "map_option (add_pages []) x = x"
  by (cases x) simp_all

lemma kept_grown: "kept s s' \<Longrightarrow> grown [] s s'"
  by (simp add: kept_def grown_def)

lemma grown_trans:
  assumes "grown N s s'" and "grown M s' s''"
  shows "grown (N @ M) s s''"
proof -
  have "set N \<inter> set M = {}" using assms unfolding grown_def by fastforce
  moreover have "map_option (add_pages M) (map_option (add_pages N) x) = map_option (add_pages (N @ M)) x" for x
    by (cases x) (simp_all add: add_pages_append)
  ultimately show ?thesis using assms unfolding grown_def by (auto simp: fun_eq_iff)
qed

lemma grown_kept: "grown N s s' \<Longrightarrow> kept s' s'' \<Longrightarrow> grown N s s''"
  using grown_trans [of N s s' "[]" s''] kept_grown by force

lemma kept_grown_trans: "kept s s' \<Longrightarrow> grown N s' s'' \<Longrightarrow> grown N s s''"
  using grown_trans [of "[]" s s' N s''] kept_grown by force

lemma grownD:
  assumes "grown N s s'"
  shows "store_inv s'" "next_id s \<le> next_id s'" "distinct N" "set N \<subseteq> {next_id s..<next_id s'}"
    "pins s' q = (if q \<in> set N then 1 else pins s q)" "latch s' q = (if q \<in> set N then - 1 else latch s q)"
    "root_latch s' = root_latch s" "root_locked_cnt s' = root_locked_cnt s" "txn s' = map_option (add_pages N) (txn s)"
  using assms by (auto simp: grown_def)

section \<open>Single operations\<close>

lemma store_inv_less: "store_inv s \<Longrightarrow> contents s p = Some d \<Longrightarrow> 0 \<le> p \<and> p < next_id s"
  unfolding store_inv_def by (metis option.distinct(1))

lemma store_inv_fresh: "store_inv s \<Longrightarrow> next_id s \<le> p \<Longrightarrow> contents s p = None \<and> pins s p = 0"
  unfolding store_inv_def by (metis less_le not_less option.exhaust)

lemma put_step:
  assumes "store_inv s" and "0 < pins s p"
  obtains s' where "st_put p d s = Some s'" "kept s s'" "contents s' = (contents s)(p \<mapsto> d)"
proof -
  have put: "st_put p d s = Some (s\<lparr>contents := (contents s)(p \<mapsto> d), pending := insert p (pending s)\<rparr>)"
    using assms(2) by (simp add: st_put_def)
  show ?thesis using store_inv_put [OF assms(1) put] by (intro that [OF put]) (simp_all add: kept_def)
qed

text \<open>A page is fetched, worked on and given back.\<close>

definition pinned :: "page_id \<Rightarrow> ('k, 'v) btree \<Rightarrow> ('k, 'v) btree" where
  "pinned p s = s\<lparr>pins := (pins s)(p := pins s p + 1)\<rparr>"

lemma pinned_simps [simp]:
  "contents (pinned p s) = contents s" "latch (pinned p s) = latch s" "next_id (pinned p s) = next_id s"
  "root_page_id (pinned p s) = root_page_id s" "root_latch (pinned p s) = root_latch s"
  "root_locked_cnt (pinned p s) = root_locked_cnt s" "txn (pinned p s) = txn s"
  "pins (pinned p s) q = (if q = p then pins s p + 1 else pins s q)"
  by (simp_all add: pinned_def)

lemma fetch_step: "contents s p = Some d \<Longrightarrow> st_fetch p s = Some (pinned p s)"
  by (simp add: st_fetch_def pinned_def)

lemma store_inv_pinned: "store_inv s \<Longrightarrow> contents s p = Some d \<Longrightarrow> store_inv (pinned p s)"
  using store_inv_fetch fetch_step by blast

lemma unpin_step:
  assumes "grown N (pinned p s) s'" and "store_inv s" and "contents s p = Some d"
  obtains s'' where "st_unpin p True s' = Some s''" "grown N s s''" "contents s'' = contents s'" "next_id s'' = next_id s'"
    "root_page_id s'' = root_page_id s'"
proof -
  have "p \<notin> set N" using grownD(4) [OF assms(1)] store_inv_less [OF assms(2,3)] by auto
  then have pin: "pins s' p = pins s p + 1" "0 \<le> pins s p"
    using grownD(5) [OF assms(1), of p] store_inv_pins [OF assms(2)] by simp_all
  define s'' where "s'' = s'\<lparr>pins := (pins s')(p := pins s p), pending := pending s' - {p}\<rparr>"
  have u: "st_unpin p True s' = Some s''" using pin by (simp add: st_unpin_def s''_def)
  have i: "store_inv s''" using store_inv_unpin [OF grownD(1) [OF assms(1)] u] .
  have "grown N s s''"
    using assms(1) i \<open>p \<notin> set N\<close> by (auto simp: grown_def s''_def fun_eq_iff)
  then show ?thesis using u by (intro that [of s'']) (simp_all add: s''_def)
qed

lemma unpin_kept:
  assumes "kept (pinned p s) s'" and "store_inv s" and "contents s p = Some d"
  obtains s'' where "st_unpin p True s' = Some s''" "kept s s''" "contents s'' = contents s'"
proof -
  obtain s'' where u: "st_unpin p True s' = Some s''" "grown [] s s''" "contents s'' = contents s'" "next_id s'' = next_id s'"
    "root_page_id s'' = root_page_id s'"
    using unpin_step [OF kept_grown [OF assms(1)] assms(2,3)] .
  have "kept s s''" using u(2,4,5) assms(1) by (auto simp: grown_def kept_def fun_eq_iff)
  then show ?thesis using that u by blast
qed

section \<open>Parents\<close>

text \<open>The memory when pages get a new parent.\<close>

definition set_parents :: "page_id \<Rightarrow> page_id set \<Rightarrow> (page_id \<Rightarrow> ('k, 'v) page option) \<Rightarrow> page_id \<Rightarrow> ('k, 'v) page option" where
  "set_parents par X m q = (if q \<in> X then m q \<bind> page_SetParentPageId par else m q)"

lemma set_parents_empty [simp]: "set_parents par {} m = m"
  by (simp add: set_parents_def fun_eq_iff)

lemma page_SetParent_again: "page_SetParentPageId par d = Some d' \<Longrightarrow> page_SetParentPageId par d' = Some d'"
  by (auto simp: page_SetParentPageId_def header_defs split: page.splits)

lemma page_SetParent_twice: "page_SetParentPageId par d \<bind> page_SetParentPageId par = page_SetParentPageId par d"
  by (auto simp: page_SetParentPageId_def header_defs split: page.splits)

lemma set_parents_insert: "set_parents par (insert x X) m = set_parents par X (set_parents par {x} m)"
proof
  fix q
  show "set_parents par (insert x X) m q = set_parents par X (set_parents par {x} m) q"
    by (simp add: set_parents_def page_SetParent_twice)
qed

lemma put_parent_step:
  assumes "store_inv s" and "0 < pins s q" and "contents s q = Some d" and "page_SetParentPageId par d = Some d'"
  obtains s' where "put_parent q par s = Some s'" "kept s s'" "contents s' = set_parents par {q} (contents s)"
proof -
  obtain s' where s': "st_put q d' s = Some s'" "kept s s'" "contents s' = (contents s)(q \<mapsto> d')"
    using put_step [OF assms(1,2)] .
  moreover have "put_parent q par s = st_put q d' s" using assms by (simp add: put_parent_def st_get_def)
  moreover have "(contents s)(q \<mapsto> d') = set_parents par {q} (contents s)"
    using assms(3,4) by (auto simp: set_parents_def fun_eq_iff)
  ultimately show ?thesis using that by simp
qed

lemma reparent_step:
  assumes "store_inv s" and "\<forall>e \<in> set es. \<exists>d d'. contents s (snd e) = Some d \<and> page_SetParentPageId par d = Some d'"
  shows "\<exists>s'. reparent_children par es s = Some s' \<and> kept s s' \<and> contents s' = set_parents par (snd ` set es) (contents s)"
  using assms
proof (induction es arbitrary: s)
  case Nil
  then show ?case by (simp add: kept_refl)
next
  case (Cons e es)
  obtain d d' where d: "contents s (snd e) = Some d" "page_SetParentPageId par d = Some d'" using Cons.prems(2) by auto
  have pin: "0 < pins (pinned (snd e) s) (snd e)" using store_inv_pins [OF Cons.prems(1), of "snd e"] by simp
  obtain s1 where s1: "put_parent (snd e) par (pinned (snd e) s) = Some s1" "kept (pinned (snd e) s) s1"
    "contents s1 = set_parents par {snd e} (contents s)"
    using put_parent_step [OF store_inv_pinned [OF Cons.prems(1) d(1)] pin, of d par d'] d by (metis pinned_simps(1))
  obtain s2 where s2: "st_unpin (snd e) True s1 = Some s2" "kept s s2" "contents s2 = contents s1"
    using unpin_kept [OF s1(2) Cons.prems(1) d(1)] .
  have "\<forall>e' \<in> set es. \<exists>d d'. contents s2 (snd e') = Some d \<and> page_SetParentPageId par d = Some d'"
  proof
    fix e' assume "e' \<in> set es"
    then obtain d1 d1' where "contents s (snd e') = Some d1" "page_SetParentPageId par d1 = Some d1'" using Cons.prems(2) by auto
    then show "\<exists>d d'. contents s2 (snd e') = Some d \<and> page_SetParentPageId par d = Some d'"
      using page_SetParent_again [of par d1 d1'] by (cases "snd e' = snd e") (simp_all add: s2(3) s1(3) set_parents_def)
  qed
  then obtain s3 where s3: "reparent_children par es s2 = Some s3" "kept s2 s3"
    "contents s3 = set_parents par (snd ` set es) (contents s2)"
    using Cons.IH [OF keptD(1) [OF s2(2)]] by blast
  have "reparent_children par (e # es) s = Some s3" by (simp add: fetch_step [OF d(1)] s1(1) s2(1) s3(1))
  moreover have "contents s3 = set_parents par (snd ` set (e # es)) (contents s)"
    unfolding s3(3) s2(3) s1(3) list.set image_insert by (rule set_parents_insert [symmetric])
  ultimately show ?case using kept_trans [OF s2(2) s3(2)] by blast
qed

section \<open>Cells\<close>

lemma page_is_parent:
  assumes "page_is c p par nd d"
  obtains d' where "page_SetParentPageId par' d = Some d'" "page_is c p par' nd d'"
    "\<And>l. d = LeafP l \<Longrightarrow> \<exists>l'. d' = LeafP l' \<and> next_page_id_m l' = next_page_id_m l"
proof (cases nd)
  case (LeafData es)
  then obtain l where l: "d = LeafP l" using assms by (auto simp: page_is_def)
  have "leaf_entries (SetParentPageId par' l) = leaf_entries l" "wf_leaf (SetParentPageId par' l) = wf_leaf l"
    by (simp_all add: leaf_entries_def wf_leaf_def header_defs)
  then show ?thesis using assms
    by (intro that [of "LeafP (SetParentPageId par' l)"]) (auto simp: l page_is_def LeafData page_SetParentPageId_def header_defs)
next
  case (NodeData kps)
  then obtain n where n: "d = InternalP n" using assms by (auto simp: page_is_def)
  have "internal_entries (SetParentPageId par' n) = internal_entries n" "wf_internal (SetParentPageId par' n) = wf_internal n"
    by (simp_all add: internal_entries_def wf_internal_def header_defs)
  then show ?thesis using assms
    by (intro that [of "InternalP (SetParentPageId par' n)"]) (auto simp: n page_is_def NodeData page_SetParentPageId_def header_defs)
qed

lemma set_parents_cell:
  assumes "cell_at c m (q, par, nd)" and "q \<in> X"
  shows "cell_at c (set_parents par' X m) (q, par', nd)"
proof -
  obtain d where d: "m q = Some d" "page_is c q par nd d" using assms(1) by (auto simp: cell_at_def)
  obtain d' where "page_SetParentPageId par' d = Some d'" "page_is c q par' nd d'" using page_is_parent [OF d(2)] by metis
  then show ?thesis using d(1) assms(2) by (simp add: cell_at_def set_parents_def)
qed

lemma cells_root: "\<exists>nd xs. \<forall>par. cells par t = (tree_id t, par, nd) # xs"
  by (cases t) auto

definition on_pages :: "('k, 'v) tree_params \<Rightarrow> (page_id \<Rightarrow> ('k, 'v) page option) \<Rightarrow> ('k, 'v) cell set \<Rightarrow> bool" where
  "on_pages c m X \<longleftrightarrow> (\<forall>x \<in> X. cell_at c m x)"

lemma on_pages_Un [simp]: "on_pages c m (X \<union> Y) \<longleftrightarrow> on_pages c m X \<and> on_pages c m Y"
  by (auto simp: on_pages_def)

lemma on_pages_insert [simp]: "on_pages c m (insert x X) \<longleftrightarrow> cell_at c m x \<and> on_pages c m X"
  by (auto simp: on_pages_def)

lemma on_pages_empty [simp]: "on_pages c m {}"
  by (simp add: on_pages_def)

lemma on_pages_cong:
  assumes "on_pages c m X" and "\<And>q. q \<in> fst ` X \<Longrightarrow> m' q = m q"
  shows "on_pages c m' X"
  using assms unfolding on_pages_def by (metis cell_at_cong imageI)

lemma on_pages_subset: "on_pages c m X \<Longrightarrow> Y \<subseteq> X \<Longrightarrow> on_pages c m Y"
  by (auto simp: on_pages_def)

text \<open>The pages of a subtree when its root gets a new parent.\<close>

lemma set_parents_tree:
  assumes "on_pages c m (set (cells par t))" and "distinct (page_ids t)" and "tree_id t \<in> X"
    and "X \<inter> set (page_ids t) \<subseteq> {tree_id t}"
  shows "on_pages c (set_parents par' X m) (set (cells par' t))"
proof -
  obtain nd xs where x: "\<And>par. cells par t = (tree_id t, par, nd) # xs" using cells_root by metis
  have ids: "page_ids t = tree_id t # map fst xs" using map_fst_cells [of par t] x by simp
  have "cell_at c (set_parents par' X m) (tree_id t, par', nd)"
    using assms(1,3) by (intro set_parents_cell [of c m _ par]) (simp_all add: x)
  moreover have "on_pages c (set_parents par' X m) (set xs)"
  proof (rule on_pages_cong)
    show "on_pages c m (set xs)" using assms(1) by (simp add: x)
    fix q assume "q \<in> fst ` set xs"
    then have "q \<in> set (map fst xs)" by simp
    moreover have "tree_id t \<notin> set (map fst xs)" using assms(2) unfolding ids distinct.simps by blast
    ultimately have "q \<in> set (page_ids t)" "q \<noteq> tree_id t" unfolding ids by (metis list.set_intros(2), metis)
    then show "set_parents par' X m q = m q" using assms(4) by (auto simp: set_parents_def)
  qed
  ultimately show ?thesis by (simp add: x)
qed

lemma set_parents_kids:
  assumes "on_pages c m (set (kids_cells par kts))" and "distinct (kids_page_ids kts)"
    and "X \<inter> set (kids_page_ids kts) = (\<lambda>kt. tree_id (snd kt)) ` set kts"
  shows "on_pages c (set_parents par' X m) (set (kids_cells par' kts))"
proof -
  have "on_pages c (set_parents par' X m) (set (cells par' (snd kt)))" if k: "kt \<in> set kts" for kt
  proof (rule set_parents_tree)
    obtain L R where e: "kts = L @ kt # R" using k by (metis split_list)
    then show "on_pages c m (set (cells par (snd kt)))" "distinct (page_ids (snd kt))" using assms(1,2) by simp_all
    have t: "tree_id (snd kt') \<in> set (page_ids (snd kt'))" for kt' :: "'a \<times> ('a, 'b) tree" by simp
    show "tree_id (snd kt) \<in> X" using assms(3) k by blast
    have "tree_id (snd kt') \<notin> set (page_ids (snd kt))" if "kt' \<in> set L \<union> set R" for kt'
    proof -
      have "set (page_ids (snd kt')) \<inter> set (page_ids (snd kt)) = {}" using that assms(2) unfolding e by auto
      then show ?thesis using t by blast
    qed
    then show "X \<inter> set (page_ids (snd kt)) \<subseteq> {tree_id (snd kt)}" using assms(3) k e by fastforce
  qed
  then show ?thesis by (auto simp: on_pages_def)
qed

text \<open>The chain of the leaves does not see a change of a parent.\<close>

lemma set_parents_next:
  assumes "next_at m q x"
  shows "next_at (set_parents par X m) q x"
proof -
  obtain l where "m q = Some (LeafP l)" "next_page_id_m l = x" using assms by (auto simp: next_at_def)
  then show ?thesis by (auto simp: next_at_def set_parents_def page_SetParentPageId_def header_defs)
qed

end
