(* ===== verification/BTreeLookup.thy ===== *)
theory BTreeLookup imports BTreePages begin

text \<open>
  The search of the B+ tree: the loop of \<open>FindLeafPage\<close> ends in the leaf the key belongs into, whatever
  its steps do to pins and latches, and \<open>GetValue\<close> answers as the map of the entries.
\<close>

section \<open>The invariant of a tree\<close>

definition leaf_max :: "('k, 'v) tree_params \<Rightarrow> nat" where
  "leaf_max c = nat (leaf_slots (key_size c) - 1)"

definition internal_max :: "('k, 'v) tree_params \<Rightarrow> nat" where
  "internal_max c = nat (internal_slots (key_size c) - 1)"

text \<open>The pages hold enough slots; this is so for the key sizes of the source, which are at most 64.\<close>

definition slots_ok :: "('k, 'v) tree_params \<Rightarrow> bool" where
  "slots_ok c \<longleftrightarrow> 5 \<le> leaf_slots (key_size c) \<and> 5 \<le> internal_slots (key_size c)"

lemma slots_ok_key_sizes: "key_size c \<in> {4, 8, 16, 32, 64} \<Longrightarrow> slots_ok c"
  by (auto simp: slots_ok_def leaf_slots_def internal_slots_def PAGE_SIZE_def)

lemma slots_max:
  assumes "slots_ok c"
  shows "2 \<le> leaf_max c" and "4 \<le> internal_max c"
    and "leaf_slots (key_size c) = int (leaf_max c) + 1" and "internal_slots (key_size c) = int (internal_max c) + 1"
    and "4 \<le> leaf_max c"
  using assms unfolding slots_ok_def leaf_max_def internal_max_def by linarith+

definition tree_inv :: "('k, 'v) tree_params \<Rightarrow> 'k set \<Rightarrow> ('k, 'v) tree \<Rightarrow> bool" where
  "tree_inv c K t \<longleftrightarrow> key_sorted (comparator c) K (entries t) \<and> search_ok (comparator c) K t \<and>
     (\<exists>h. shape (leaf_max c) (internal_max c) True h t) \<and> heads_ok (zero_key c) t"

text \<open>Every subtree of a tree that meets the invariant: what it needs from the path above it.\<close>

lemma tree_inv_node:
  assumes "tree_inv c K (plug fs (Node p kts))" and "slots_ok c"
  shows "2 \<le> length kts" and "length kts \<le> internal_max c" and "seps_ok (comparator c) K (map kid_view kts)"
    and "key_sorted (comparator c) K (kids_entries kts)"
proof -
  obtain h where h: "shape (leaf_max c) (internal_max c) True h (plug fs (Node p kts))"
    using assms(1) by (auto simp: tree_inv_def)
  have "h = (h - length fs) + length fs" using shape_plug_height [OF h] by simp
  then have "shape (leaf_max c) (internal_max c) (fs = []) (h - length fs) (Node p kts)" using h shape_plug by metis
  moreover have "4 \<le> internal_max c" by (rule slots_max(2) [OF assms(2)])
  ultimately show "2 \<le> length kts" "length kts \<le> internal_max c" by (auto split: if_splits)
  show "seps_ok (comparator c) K (map kid_view kts)" "key_sorted (comparator c) K (kids_entries kts)"
    using assms(1) by (auto simp: tree_inv_def search_ok_plug entries_plug key_sorted_append)
qed

lemma tree_inv_leaf:
  assumes "tree_inv c K (plug fs (Leaf p es))" and "slots_ok c"
  shows "es \<noteq> []" and "length es \<le> leaf_max c" and "key_sorted (comparator c) K es"
proof -
  obtain h where h: "shape (leaf_max c) (internal_max c) True h (plug fs (Leaf p es))"
    using assms(1) by (auto simp: tree_inv_def)
  have "h = (h - length fs) + length fs" using shape_plug_height [OF h] by simp
  then have "shape (leaf_max c) (internal_max c) (fs = []) (h - length fs) (Leaf p es)" using h shape_plug by metis
  moreover have "2 \<le> leaf_max c" by (rule slots_max(1) [OF assms(2)])
  ultimately show "es \<noteq> []" "length es \<le> leaf_max c" by (auto split: if_splits)
  show "key_sorted (comparator c) K es" using assms(1) by (auto simp: tree_inv_def entries_plug key_sorted_append)
qed

section \<open>The loop of the search\<close>

definition pick_child :: "('k, 'v) tree_params \<Rightarrow> 'k \<Rightarrow> bool \<Rightarrow> ('k, 'v) kids \<Rightarrow> nat" where
  "pick_child c key leftMost kts = (if leftMost then 0 else child_pos (comparator c) key (kid_slots kts))"

definition sub_frame :: "page_id \<Rightarrow> ('k, 'v) kids \<Rightarrow> nat \<Rightarrow> ('k, 'v) tree_frame" where
  "sub_frame p kts i = (p, take i kts, fst (kts ! i), drop (Suc i) kts)"

lemma plug_sub_frame: "i < length kts \<Longrightarrow> plug (sub_frame p kts i # fs) (snd (kts ! i)) = plug fs (Node p kts)"
  by (simp add: sub_frame_def id_take_nth_drop [symmetric])

text \<open>The path a search for a key, or for the first leaf, takes.\<close>

definition on_path :: "('k, 'v) tree_params \<Rightarrow> 'k \<Rightarrow> bool \<Rightarrow> ('k, 'v) tree_frame list \<Rightarrow> bool" where
  "on_path c key leftMost fs = (if leftMost then \<forall>f \<in> set fs. fst (snd f) = [] else in_hole (comparator c) key fs)"

lemma stored_cells: "stored c (plug fs t) m \<Longrightarrow> x \<in> set (cells (path_parent fs) t) \<Longrightarrow> cell_at c m x"
  by (auto simp: stored_def set_cells_plug)

lemma stored_leaf:
  assumes "stored c (plug fs (Leaf p es)) m"
  obtains l where "m p = Some (LeafP l)" "wf_leaf l" "leaf_entries l = es" "page_id_m l = p"
    "parent_page_id_m l = path_parent fs" "max_size_m l + 1 = leaf_slots (key_size c)"
    "int (length (leaf_array l)) = leaf_slots (key_size c)"
proof -
  have "cell_at c m (p, path_parent fs, LeafData es)" by (rule stored_cells [OF assms]) simp
  then show ?thesis by (rule leaf_cell) (rule that)
qed

lemma stored_node:
  assumes "stored c (plug fs (Node p kts)) m"
  obtains n where "m p = Some (InternalP n)" "wf_internal n" "internal_entries n = kid_slots kts" "page_id_m n = p"
    "parent_page_id_m n = path_parent fs" "max_size_m n + 1 = internal_slots (key_size c)"
    "int (length (internal_array n)) = internal_slots (key_size c)"
proof -
  have "cell_at c m (p, path_parent fs, NodeData (kid_slots kts))" by (rule stored_cells [OF assms]) simp
  then show ?thesis by (rule node_cell) (rule that)
qed

lemma stored_page:
  assumes "stored c (plug fs t) m"
  obtains d h where "m (tree_id t) = Some d" "tree_header d = Some h" "0 < tree_id t"
proof -
  obtain nd where "(tree_id t, path_parent fs, nd) \<in> set (cells (path_parent fs) t)" using tree_cell by blast
  then have c: "cell_at c m (tree_id t, path_parent fs, nd)" using stored_cells [OF assms] by blast
  have "tree_id t \<in> set (page_ids (plug fs t))" by (simp add: set_page_ids_plug)
  then have "0 < tree_id t" using assms by (simp add: stored_def)
  with c that show ?thesis by (elim cell_header) blast
qed

context key_order begin

lemma on_path_step:
  assumes inv: "tree_inv c K (plug fs (Node p kts))" "slots_ok c" and c: "comparator c = cmp" and "leftMost \<or> key \<in> K"
    and "on_path c key leftMost fs" and i: "i = pick_child c key leftMost kts"
  shows "i < length kts" and "on_path c key leftMost (sub_frame p kts i # fs)"
proof -
  note n = tree_inv_node [OF inv]
  have ne: "kts \<noteq> []" using n(1) by auto
  have "i < length kts \<and> on_path c key leftMost (sub_frame p kts i # fs)"
  proof (cases leftMost)
    case True
    then show ?thesis using assms(5) i ne by (auto simp: on_path_def pick_child_def sub_frame_def)
  next
    case False
    then have "i = child_pos cmp key (kid_slots kts)" "in_hole cmp key fs" "key \<in> K"
      using assms by (auto simp: on_path_def pick_child_def)
    note h = child_pos_in_hole [OF n(3) [unfolded c] ne this(3,2,1)]
    show ?thesis using False h(1) h(2) [of p] by (simp add: on_path_def sub_frame_def c)
  qed
  then show "i < length kts" and "on_path c key leftMost (sub_frame p kts i # fs)" by simp_all
qed

lemma next_child:
  assumes st: "stored c (plug fs (Node p kts)) m" and inv: "tree_inv c K (plug fs (Node p kts))" "slots_ok c"
    and c: "comparator c = cmp" and "leftMost \<or> key \<in> K" and n: "m p = Some (InternalP n)"
  shows "(if leftMost then internal_ValueAt 0 n else internal_Lookup (comparator c) key n) =
    Some (tree_id (snd (kts ! pick_child c key leftMost kts)))"
proof -
  obtain n' where n': "m p = Some (InternalP n')" "wf_internal n'" "internal_entries n' = kid_slots kts"
    using stored_node [OF st] by metis
  then have w: "wf_internal n" "internal_entries n = kid_slots kts" using n by auto
  note t = tree_inv_node [OF inv]
  have l: "size_m n = int (length kts)" using w length_internal_entries [OF w(1)] by (auto simp: wf_internal_def)
  have pos: "child_pos cmp key (kid_slots kts) < length kts"
    using t(1) child_pos_less [of "kid_slots kts" cmp key] by (cases kts) auto
  show ?thesis
  proof (cases leftMost)
    case True
    have "internal_entries n ! 0 = internal_array n ! 0" by (rule internal_entries_nth [OF w(1)]) (use l t(1) in linarith)
    then have "internal_array n ! 0 = kid_slots kts ! 0" unfolding w(2) by (rule sym)
    moreover have "kts \<noteq> []" using t(1) by auto
    ultimately show ?thesis using True l by (cases kts) (auto simp: internal_ValueAt_def header_defs pick_child_def)
  next
    case False
    have "internal_Lookup cmp key n = Some (snd (kid_slots kts ! child_pos cmp key (kid_slots kts)))"
      using internal_Lookup_eq [OF w(1), of key] seps_sorted [OF t(3) [unfolded c] t(4) [unfolded c]] False assms(5) l t(1) w(2)
      by simp
    then show ?thesis using False pos by (simp add: c pick_child_def kid_slots_def)
  qed
qed

text \<open>The search ends in the leaf of its path, if each step from a page to its child succeeds.\<close>

lemma FindLeafPage_loop_spec:
  assumes T: "stored c T m" "tree_inv c K T" "slots_ok c" and c: "comparator c = cmp" and key: "leftMost \<or> key \<in> K"
    and J: "\<And>fs t s. J fs t s \<Longrightarrow> contents s = m \<and> 0 < pins s (tree_id t)"
    and step: "\<And>fs p kts s i. J fs (Node p kts) s \<Longrightarrow> plug fs (Node p kts) = T \<Longrightarrow> i < length kts \<Longrightarrow>
      \<exists>s'. CrabingProtocalFetchPage (tree_id (snd (kts ! i))) op p s = Some s' \<and> J (sub_frame p kts i # fs) (snd (kts ! i)) s'"
    and start: "J fs t s" "plug fs t = T" "on_path c key leftMost fs"
  shows "\<exists>fs' p es s'. FindLeafPage_loop c key leftMost op (tree_id t) s = Some (p, s') \<and> J fs' (Leaf p es) s' \<and>
    plug fs' (Leaf p es) = T \<and> on_path c key leftMost fs'"
  using start
proof (induction t arbitrary: fs s)
  case (Leaf p es)
  obtain l where l: "m p = Some (LeafP l)" "wf_leaf l"
    using T(1) stored_leaf [of c fs p es m] Leaf(2) by blast
  have "st_get p s = Some (LeafP l)" using J [OF Leaf(1)] l(1) by (simp add: st_get_def)
  then have "FindLeafPage_loop c key leftMost op p s = Some (p, s)"
    using l(2) by (subst FindLeafPage_loop.simps) (simp add: tree_header_def IsLeafPage_def wf_leaf_def bpt_header.truncate_def)
  then show ?case using Leaf by auto
next
  case (Node p kts)
  have st: "stored c (plug fs (Node p kts)) m" and inv: "tree_inv c K (plug fs (Node p kts))" using T Node.prems(2) by simp_all
  obtain n where n: "m p = Some (InternalP n)" "wf_internal n" using stored_node [OF st] by metis
  define i where "i = pick_child c key leftMost kts"
  note p = on_path_step [OF inv T(3) c key Node.prems(3) i_def]
  from step [OF Node.prems(1,2) p(1)] obtain s' where s': "CrabingProtocalFetchPage (tree_id (snd (kts ! i))) op p s = Some s'"
    "J (sub_frame p kts i # fs) (snd (kts ! i)) s'" by blast
  have get: "st_get p s = Some (InternalP n)" using J [OF Node.prems(1)] n(1) by (simp add: st_get_def)
  have nx: "(if leftMost then internal_ValueAt 0 n else internal_Lookup (comparator c) key n) = Some (tree_id (snd (kts ! i)))"
    using next_child [OF st inv T(3) c key n(1)] by (simp add: i_def)
  have "FindLeafPage_loop c key leftMost op p s = FindLeafPage_loop c key leftMost op (tree_id (snd (kts ! i))) s'"
    by (subst FindLeafPage_loop.simps)
      (use n(2) get nx s'(1) in \<open>simp add: tree_header_def IsLeafPage_def wf_internal_def bpt_header.truncate_def as_internal_def\<close>)
  moreover have "\<exists>fs' q es s''. FindLeafPage_loop c key leftMost op (tree_id (snd (kts ! i))) s' = Some (q, s'') \<and>
      J fs' (Leaf q es) s'' \<and> plug fs' (Leaf q es) = T \<and> on_path c key leftMost fs'"
  proof (rule Node.IH)
    show "kts ! i \<in> set kts" using p(1) by simp
    show "snd (kts ! i) \<in> Basic_BNFs.snds (kts ! i)" by (metis prod.collapse snds.intros)
    show "J (sub_frame p kts i # fs) (snd (kts ! i)) s'" by (rule s'(2))
    show "plug (sub_frame p kts i # fs) (snd (kts ! i)) = T" using plug_sub_frame [OF p(1)] Node.prems(2) by simp
  qed (rule p(2))
  ultimately show ?case by simp
qed

end

section \<open>Look up\<close>

text \<open>The pages of the index: the tree with its root, or no tree.\<close>

definition index_is :: "('k, 'v) tree_params \<Rightarrow> 'k set \<Rightarrow> ('k, 'v) tree option \<Rightarrow> ('k, 'v) btree \<Rightarrow> bool" where
  "index_is c K T s \<longleftrightarrow> slots_ok c \<and> (case T of None \<Rightarrow> root_page_id s = INVALID_PAGE_ID
     | Some t \<Rightarrow> root_page_id s = tree_id t \<and> stored c t (contents s) \<and> tree_inv c K t)"

definition index_entries :: "('k, 'v) tree option \<Rightarrow> ('k \<times> 'v) list" where
  "index_entries T = (case T of None \<Rightarrow> [] | Some t \<Rightarrow> entries t)"

context key_order begin

lemma FindLeafPage_read:
  assumes idx: "index_is c K (Some T) s" and s: "readable s" and c: "comparator c = cmp" and key: "leftMost \<or> key \<in> K"
  obtains fs p es n where "FindLeafPage c key leftMost OP_READ s = Some (Some p, reading p (root_read n s))"
    and "plug fs (Leaf p es) = T" and "on_path c key leftMost fs" and "n = 0 \<or> n = 1"
proof -
  have T: "root_page_id s = tree_id T" "stored c T (contents s)" "tree_inv c K T" "slots_ok c"
    using idx by (simp_all add: index_is_def)
  define J where "J = (\<lambda>fs t s'. plug fs t = T \<and> (\<exists>n. (n = 0 \<or> n = 1) \<and> s' = reading (tree_id t) (root_read n s)))"
  have page: "contents s (tree_id t) \<noteq> None \<and> 0 < tree_id t" if "plug fs t = T" for fs t
  proof -
    have "stored c (plug fs t) (contents s)" using T(2) that by simp
    then show ?thesis by (rule stored_page) simp
  qed
  have "\<exists>fs' p es s'. FindLeafPage_loop c key leftMost OP_READ (tree_id T) (reading (tree_id T) (root_read 1 s)) = Some (p, s') \<and>
    J fs' (Leaf p es) s' \<and> plug fs' (Leaf p es) = T \<and> on_path c key leftMost fs'"
  proof (rule FindLeafPage_loop_spec [OF T(2-4) c key])
    fix fs t s' assume "J fs t s'"
    then show "contents s' = contents s \<and> 0 < pins s' (tree_id t)"
      using store_inv_pins [of s "tree_id t"] s by (auto simp: J_def reading_def root_read_def readable_def)
  next
    fix fs p kts s' i assume j: "J fs (Node p kts) s'" and e: "plug fs (Node p kts) = T" and i: "i < length kts"
    obtain n where n: "n = 0 \<or> n = 1" "s' = reading p (root_read n s)" using j by (auto simp: J_def)
    let ?q = "tree_id (snd (kts ! i))"
    have e': "plug (sub_frame p kts i # fs) (snd (kts ! i)) = T" using e plug_sub_frame [OF i] by simp
    obtain d h where d: "contents s ?q = Some d" "tree_header d = Some h"
      using stored_page [of c "sub_frame p kts i # fs" "snd (kts ! i)" "contents s"] T(2) e' by metis
    have "distinct (page_ids (plug fs (Node p kts)))" using T(2) e by (simp add: stored_def)
    then have "p \<notin> set (kids_page_ids kts)" unfolding distinct_page_ids_plug distinct_append by simp
    moreover have "?q \<in> set (kids_page_ids kts)" using i by (auto intro!: bexI [of _ "kts ! i"])
    ultimately have "p \<noteq> ?q" by auto
    then have "CrabingProtocalFetchPage ?q OP_READ p s' = Some (reading ?q s)"
      unfolding n(2) using Crab_read_next [OF s d _ _ _ n(1)] page [OF e] by simp
    then show "\<exists>s''. CrabingProtocalFetchPage ?q OP_READ p s' = Some s'' \<and> J (sub_frame p kts i # fs) (snd (kts ! i)) s''"
      using e' unfolding J_def by (intro exI [of _ "reading ?q s"]) (auto intro!: exI [of _ 0])
  next
    show "J [] T (reading (tree_id T) (root_read 1 s))" by (auto simp: J_def)
  qed (simp_all add: on_path_def)
  then obtain fs p es s' where l: "FindLeafPage_loop c key leftMost OP_READ (tree_id T) (reading (tree_id T) (root_read 1 s)) = Some (p, s')"
    "J fs (Leaf p es) s'" "plug fs (Leaf p es) = T" "on_path c key leftMost fs" by blast
  obtain d h where d: "contents s (tree_id T) = Some d" "tree_header d = Some h" "0 < tree_id T"
    using stored_page [of c "[]" T "contents s"] T(2) by auto
  have "root_page_id (root_read 1 s) = tree_id T" "root_page_id (reading (tree_id T) (root_read 1 s)) = tree_id T"
    "\<not> IsEmpty (root_read 1 s)"
    using T(1) d(3) by (simp_all add: root_read_def reading_def IsEmpty_def INVALID_PAGE_ID_def)
  then have "FindLeafPage c key leftMost OP_READ s = Some (Some p, s')"
    using l(1) LockRoot_read [OF s] Crab_read_root [OF s d(1,2)] by (simp add: FindLeafPage_def)
  moreover obtain n where "n = 0 \<or> n = 1" "s' = reading p (root_read n s)" using l(2) by (auto simp: J_def)
  ultimately show ?thesis using that l(3,4) by blast
qed

lemma map_of_leaf:
  assumes "tree_inv c K (plug fs (Leaf p es))" and "comparator c = cmp" and "key \<in> K" and "in_hole cmp key fs"
  shows "map_of (entries (plug fs (Leaf p es))) key = map_of es key"
  using map_of_hole [of fs es key] assms by (simp add: tree_inv_def search_ok_plug entries_plug)

lemma GetValue_spec:
  assumes idx: "index_is c K T s" and s: "readable s" and c: "comparator c = cmp" and key: "key \<in> K"
  shows "GetValue c key s = Some (map_of (index_entries T) key, s)"
proof (cases T)
  case None
  then have "root_page_id (root_read 1 s) = INVALID_PAGE_ID" using idx by (simp add: index_is_def root_read_def)
  then have "FindLeafPage c key False OP_READ s = Some (None, s)"
    using LockRoot_read [OF s] TryUnlockRoot_read(2) [OF s, of 1] by (simp add: FindLeafPage_def IsEmpty_def)
  then show ?thesis using None by (simp add: GetValue_def index_entries_def)
next
  case (Some t)
  then have idx': "index_is c K (Some t) s" using idx by simp
  then have t: "stored c t (contents s)" "tree_inv c K t" "slots_ok c" by (simp_all add: index_is_def)
  obtain fs p es n where f: "FindLeafPage c key False OP_READ s = Some (Some p, reading p (root_read n s))"
    "plug fs (Leaf p es) = t" "on_path c key False fs" "n = 0 \<or> n = 1"
    using FindLeafPage_read [OF idx' s c disjI2 [OF key]] by metis
  obtain l where l: "contents s p = Some (LeafP l)" "wf_leaf l" "leaf_entries l = es" "page_id_m l = p"
    using stored_leaf [of c fs p es "contents s"] t(1) f(2) by metis
  have "st_get p (reading p (root_read n s)) = Some (LeafP l)"
    using l(1) store_inv_pins [of s p] s by (simp add: st_get_def reading_def root_read_def readable_def)
  moreover have "leaf_Lookup cmp key l = map_of es key"
    using leaf_Lookup_eq [OF l(2)] l(3) tree_inv_leaf(3) [of c K fs p es] t f(2) key c by simp
  moreover have "FreePagesInTransaction False p (reading p (root_read n s)) = Some s"
    using Free_read [OF s _ _ f(4), of p] l(1) stored_page [of c fs "Leaf p es" "contents s"] t(1) f(2) by force
  moreover have "map_of (entries t) key = map_of es key"
    using map_of_leaf [of c fs p es key] t(2) f(2,3) c key by (simp add: on_path_def)
  ultimately show ?thesis
    using f(1) l(4) by (simp add: GetValue_def c as_leaf_def header_defs Let_def Some index_entries_def)
qed

end

end
