(* ===== verification/BTreeGrow.thy ===== *)
theory BTreeGrow imports BTreeShape begin

text \<open>
  Insertion on trees: the split of the nodes along a path, from the leaf up.  \<open>grow_up\<close> is what
  \<open>InsertIntoParent\<close> does to the tree; the lemmas say that order, shape, entries and leaves are as
  they have to be.
\<close>

section \<open>The split nodes of a path\<close>

text \<open>The hole of the path held a subtree that was split into \<open>t\<close> and \<open>r\<close> with separator \<open>k\<close>.  The
  nodes get the page ids from \<open>n\<close> on; \<open>z\<close> is the key in the first slot of a new root.\<close>

fun grow_up :: "nat \<Rightarrow> 'k \<Rightarrow> page_id \<Rightarrow> ('k, 'v) tree_frame list \<Rightarrow> ('k, 'v) tree \<Rightarrow> 'k \<Rightarrow> ('k, 'v) tree \<Rightarrow> ('k, 'v) tree" where
  "grow_up Im z n [] t k r = Node n [(z, t), (k, r)]"
| "grow_up Im z n ((p, L, k0, R) # fs) t k r =
     (let kts = L @ (k0, t) # (k, r) # R; m = (Im + 1) div 2 in
      if length kts \<le> Im then plug fs (Node p kts)
      else grow_up Im z (n + 1) fs (Node p (take m kts)) (fst (kts ! m)) (Node n (drop m kts)))"

declare grow_up.simps(2) [simp del]

lemma grow_up_fits:
  "length L + length R + 2 \<le> Im \<Longrightarrow>
   grow_up Im z n ((p, L, k0, R) # fs) t k r = plug fs (Node p (L @ (k0, t) # (k, r) # R))"
  by (simp add: grow_up.simps(2) Let_def)

lemma grow_up_split:
  "Im < length kts \<Longrightarrow> kts = L @ (k0, t) # (k, r) # R \<Longrightarrow> m = (Im + 1) div 2 \<Longrightarrow>
   grow_up Im z n ((p, L, k0, R) # fs) t k r =
   grow_up Im z (n + 1) fs (Node p (take m kts)) (fst (kts ! m)) (Node n (drop m kts))"
  by (simp add: grow_up.simps(2) Let_def)

lemma kids_split: "concat (map f (take m kts)) @ concat (map f (drop m kts)) = concat (map f kts)"
  by (metis append_take_drop_id concat_append map_append)

lemma entries_grow_up:
  "entries (grow_up Im z n fs t k r) = before_hole kids_entries fs @ entries t @ entries r @ behind_hole kids_entries fs"
proof (induction fs arbitrary: n t k r rule: side_ids.induct)
  case (2 p L k0 R fs)
  show ?case
  proof (cases "length L + length R + 2 \<le> Im")
    case True
    then show ?thesis by (simp add: grow_up_fits entries_plug)
  next
    case False
    then show ?thesis
      using kids_split [of "\<lambda>kt. entries (snd kt)" "(Im + 1) div 2" "L @ (k0, t) # (k, r) # R"]
      by (subst grow_up_split [OF _ refl refl]) (simp_all add: 2)
  qed
qed simp

lemma leaf_ids_grow_up:
  "leaf_ids (grow_up Im z n fs t k r) = before_hole kids_leaf_ids fs @ leaf_ids t @ leaf_ids r @ behind_hole kids_leaf_ids fs"
proof (induction fs arbitrary: n t k r rule: side_ids.induct)
  case (2 p L k0 R fs)
  show ?case
  proof (cases "length L + length R + 2 \<le> Im")
    case True
    then show ?thesis by (simp add: grow_up_fits leaf_ids_plug)
  next
    case False
    then show ?thesis
      using kids_split [of "\<lambda>kt. leaf_ids (snd kt)" "(Im + 1) div 2" "L @ (k0, t) # (k, r) # R"]
      by (subst grow_up_split [OF _ refl refl]) (simp_all add: 2)
  qed
qed simp

text \<open>The page ids: the old ones and fresh ones.\<close>

lemma page_ids_grow_up:
  "\<exists>N. mset (page_ids (grow_up Im z n fs t k r)) = mset (page_ids t @ page_ids r @ side_ids fs @ N) \<and>
     distinct N \<and> (\<forall>p \<in> set N. n \<le> p)"
proof (induction fs arbitrary: n t k r rule: side_ids.induct)
  case 1
  show ?case by (intro exI [of _ "[n]"]) simp
next
  case (2 p L k0 R fs)
  show ?case
  proof (cases "length L + length R + 2 \<le> Im")
    case True
    then show ?thesis by (intro exI [of _ "[]"]) (simp add: grow_up_fits mset_page_ids_plug)
  next
    case False
    define kts where "kts = L @ (k0, t) # (k, r) # R"
    define m where "m = (Im + 1) div 2"
    obtain N where N: "mset (page_ids (grow_up Im z (n + 1) fs (Node p (take m kts)) (fst (kts ! m)) (Node n (drop m kts)))) =
        mset (page_ids (Node p (take m kts)) @ page_ids (Node n (drop m kts)) @ side_ids fs @ N)"
      "distinct N" "\<forall>q \<in> set N. n + 1 \<le> q" using 2 [of "n + 1"] by blast
    have "mset (kids_page_ids (take m kts)) + mset (kids_page_ids (drop m kts)) = mset (kids_page_ids kts)"
      using arg_cong [OF kids_split [of "\<lambda>kt. page_ids (snd kt)" m kts], of mset] by simp
    also have "\<dots> = mset (page_ids t) + mset (page_ids r) + mset (kids_page_ids L) + mset (kids_page_ids R)"
      by (simp add: kts_def)
    finally have k: "mset (kids_page_ids (take m kts)) + mset (kids_page_ids (drop m kts)) =
        mset (page_ids t) + mset (page_ids r) + mset (kids_page_ids L) + mset (kids_page_ids R)" .
    have "Im < length kts" using False by (simp add: kts_def)
    from grow_up_split [OF this kts_def m_def]
    have "mset (page_ids (grow_up Im z n ((p, L, k0, R) # fs) t k r)) =
        add_mset p (add_mset n ((mset (kids_page_ids (take m kts)) + mset (kids_page_ids (drop m kts))) + mset (side_ids fs) + mset N))"
      by (simp add: N(1) del: take_append drop_append)
    then have "mset (page_ids (grow_up Im z n ((p, L, k0, R) # fs) t k r)) =
        mset (page_ids t @ page_ids r @ side_ids ((p, L, k0, R) # fs) @ (n # N))"
      unfolding k by simp
    moreover have "distinct (n # N)" "\<forall>q \<in> set (n # N). n \<le> q" using N(2,3) by auto
    ultimately show ?thesis by blast
  qed
qed

lemma distinct_grow_up:
  assumes "distinct (page_ids t @ page_ids r @ side_ids fs)" and "\<forall>p \<in> set (page_ids t @ page_ids r @ side_ids fs). 0 < p \<and> p < n"
    and "0 < n"
  shows "distinct (page_ids (grow_up Im z n fs t k r)) \<and> (\<forall>p \<in> set (page_ids (grow_up Im z n fs t k r)). 0 < p)"
proof -
  obtain N where N: "mset (page_ids (grow_up Im z n fs t k r)) = mset ((page_ids t @ page_ids r @ side_ids fs) @ N)"
    "distinct N" "\<forall>p \<in> set N. n \<le> p" using page_ids_grow_up [of Im z n fs t k r] by auto
  let ?X = "page_ids t @ page_ids r @ side_ids fs"
  have "set ?X \<inter> set N = {}" using assms(2) N(3) by (meson disjoint_iff not_le)
  then have "distinct (?X @ N)" using assms(1) N(2) by (simp only: distinct_append)
  moreover have "\<forall>p \<in> set (?X @ N). 0 < p" using assms(2,3) N(3) by (metis Un_iff set_append order_less_le_trans)
  ultimately show ?thesis
    unfolding mset_eq_imp_distinct_iff [OF N(1)] mset_eq_setD [OF N(1)] by (rule conjI)
qed

text \<open>The shape: the root grows by one level or the height stays.\<close>

lemma shape_grow_up:
  assumes "shape Lm Im False h t" and "shape Lm Im False h r" and "path_shape Lm Im h fs" and "4 \<le> Im"
  shows "\<exists>H. shape Lm Im True H (grow_up Im z n fs t k r)"
  using assms
proof (induction fs arbitrary: n t k r h rule: side_ids.induct)
  case 1
  then show ?case by (intro exI [of _ "Suc h"]) simp
next
  case (2 p L k0 R fs)
  show ?case
  proof (cases "length L + length R + 2 \<le> Im")
    case True
    then have "shape Lm Im (fs = []) (Suc h) (Node p (L @ (k0, t) # (k, r) # R))" "path_shape Lm Im (Suc h) fs"
      using "2.prems" by (auto split: if_splits)
    then show ?thesis
      using True shape_plug [of Lm Im "Suc h" fs "Node p (L @ (k0, t) # (k, r) # R)"]
      by (auto simp: grow_up_fits intro!: exI [of _ "Suc h + length fs"])
  next
    case False
    define kts where "kts = L @ (k0, t) # (k, r) # R"
    define m where "m = (Im + 1) div 2"
    have l: "length kts = Im + 1" using False "2.prems"(3) by (simp add: kts_def)
    have s: "shape Lm Im False h (snd kt)" if "kt \<in> set kts" for kt using that "2.prems" by (auto simp: kts_def)
    have "shape Lm Im False (Suc h) (Node p (take m kts))" "shape Lm Im False (Suc h) (Node n (drop m kts))"
      using l s in_set_takeD [of _ m kts] in_set_dropD [of _ m kts] "2.prems"(4) by (auto simp: m_def)
    then have "\<exists>H. shape Lm Im True H (grow_up Im z (n + 1) fs (Node p (take m kts)) (fst (kts ! m)) (Node n (drop m kts)))"
      using "2.prems"(3,4) by (intro "2.IH") (auto split: if_splits)
    then show ?thesis using l by (subst grow_up_split [OF _ kts_def m_def]) simp_all
  qed
qed

section \<open>The order\<close>

text \<open>A list of entries may change its first or last key to a new key only.\<close>

definition same_ends :: "'k \<Rightarrow> ('k \<times> 'v) list \<Rightarrow> ('k \<times> 'v) list \<Rightarrow> bool" where
  "same_ends key es es' \<longleftrightarrow> es' \<noteq> [] \<and> fst (hd es') \<in> {fst (hd es), key} \<and> fst (last es') \<in> {fst (last es), key}"

lemma same_ends_in_context: "same_ends key es es' \<Longrightarrow> es \<noteq> [] \<Longrightarrow> same_ends key (xs @ es @ ys) (xs @ es' @ ys)"
  by (auto simp: same_ends_def hd_append last_append)

lemma path_ok_replace:
  assumes "path_ok cmp K fs es" and "same_ends key es es'" and "in_hole cmp key fs"
  shows "path_ok cmp K fs es'"
  using assms
proof (induction fs arbitrary: es es' rule: side_ids.induct)
  case (2 p L k R fs)
  have ne: "es \<noteq> []" "es' \<noteq> []" using "2.prems"(1,2) path_ok_nonempty [of cmp K "(p, L, k, R) # fs" es]
    by (auto simp: same_ends_def)
  have "path_ok cmp K fs (kids_entries L @ es' @ kids_entries R)"
  proof (rule "2.IH")
    show "path_ok cmp K fs (kids_entries L @ es @ kids_entries R)" "in_hole cmp key fs" using "2.prems"(1,3) by simp_all
    show "same_ends key (kids_entries L @ es @ kids_entries R) (kids_entries L @ es' @ kids_entries R)"
      by (rule same_ends_in_context [OF "2.prems"(2) ne(1)])
  qed
  moreover have "sep_ok cmp K (kid_view (last L)) (k, es')" if "L \<noteq> []" "sep_ok cmp K (kid_view (last L)) (k, es)"
    using that "2.prems"(2,3) by (auto simp: sep_ok_def same_ends_def)
  moreover have "sep_ok cmp K (k, es') (kid_view (hd R))" if "R \<noteq> []" "sep_ok cmp K (k, es) (kid_view (hd R))"
    using that "2.prems"(2,3) by (auto simp: sep_ok_def same_ends_def)
  moreover have "seps_ok cmp K (map kid_view L)" "seps_ok cmp K (map kid_view R)"
    "L \<noteq> [] \<Longrightarrow> sep_ok cmp K (kid_view (last L)) (k, es)" "R \<noteq> [] \<Longrightarrow> sep_ok cmp K (k, es) (kid_view (hd R))"
    "\<forall>kt \<in> set (L @ R). search_ok cmp K (snd kt)"
    using "2.prems"(1) by (simp_all add: seps_ok_append seps_ok_Cons last_map hd_map)
  ultimately show ?case
    using ne(2) by (cases "L = []"; cases "R = []") (simp_all add: seps_ok_append seps_ok_Cons last_map hd_map)
qed simp

text \<open>A child of a node may be split in two.\<close>

lemma seps_ok_split:
  assumes "seps_ok cmp K (xs @ (k0, es @ es') # ys)" and "sep_ok cmp K (k0, es) (k, es')" and "es \<noteq> []" and "es' \<noteq> []"
  shows "seps_ok cmp K (xs @ (k0, es) # (k, es') # ys)"
  using assms by (auto simp: seps_ok_append seps_ok_Cons sep_ok_def)

lemma seps_ok_halves:
  assumes "seps_ok cmp K (map kid_view kts)" and "0 < m" and "m < length kts"
  shows "seps_ok cmp K (map kid_view (take m kts))" and "seps_ok cmp K (map kid_view (drop m kts))"
    and "sep_ok cmp K (k0, kids_entries (take m kts)) (fst (kts ! m), kids_entries (drop m kts))"
proof -
  have s: "seps_ok cmp K (map kid_view (take m kts) @ map kid_view (drop m kts))"
    using assms(1) by (metis append_take_drop_id map_append)
  then show ok: "seps_ok cmp K (map kid_view (take m kts))" "seps_ok cmp K (map kid_view (drop m kts))"
    by (simp_all add: seps_ok_append)
  have ne: "take m kts \<noteq> []" "drop m kts \<noteq> []" using assms(2,3) by auto
  then have "sep_ok cmp K (kid_view (last (take m kts))) (kid_view (hd (drop m kts)))"
    using s by (simp add: seps_ok_append last_map hd_map)
  moreover have "entries (snd (last (take m kts))) \<noteq> []" "entries (snd (hd (drop m kts))) \<noteq> []"
    using seps_ok_nonempty [OF ok(1)] seps_ok_nonempty [OF ok(2)] ne by simp_all
  moreover have "fst (hd (drop m kts)) = fst (kts ! m)" using assms(3) by (simp add: hd_drop_conv_nth)
  ultimately show "sep_ok cmp K (k0, kids_entries (take m kts)) (fst (kts ! m), kids_entries (drop m kts))"
    using kids_entries_last [OF ne(1)] kids_entries_hd [OF ne(2)] by (simp add: sep_ok_def)
qed

lemma kids_entries_nonempty: "seps_ok cmp K (map kid_view kts) \<Longrightarrow> kts \<noteq> [] \<Longrightarrow> kids_entries kts \<noteq> []"
  using seps_ok_nonempty [of cmp K kts "hd kts"] by (cases kts) auto

lemma search_ok_grow_up:
  assumes "search_ok cmp K t" and "search_ok cmp K r" and "entries t \<noteq> []" and "entries r \<noteq> []"
    and "path_ok cmp K fs (entries t @ entries r)" and "sep_ok cmp K (k0, entries t) (k, entries r)" and "4 \<le> Im"
    and "path_shape Lm Im h fs"
  shows "search_ok cmp K (grow_up Im z n fs t k r)"
  using assms
proof (induction fs arbitrary: n t k r k0 h rule: side_ids.induct)
  case 1
  then show ?case by (auto simp: seps_ok_def sep_ok_def)
next
  case (2 p L kp R fs)
  define kts where "kts = L @ (kp, t) # (k, r) # R"
  define m where "m = (Im + 1) div 2"
  have sep: "sep_ok cmp K (kp, entries t) (k, entries r)" using "2.prems"(6) by (simp add: sep_ok_def)
  have s: "seps_ok cmp K (map kid_view kts)"
    using seps_ok_split [OF _ sep "2.prems"(3,4)] "2.prems"(5) by (simp add: kts_def kid_view_def)
  have k: "\<forall>kt \<in> set kts. search_ok cmp K (snd kt)" using "2.prems" by (auto simp: kts_def)
  have up: "path_ok cmp K fs (kids_entries kts)" using "2.prems"(5) by (simp add: kts_def)
  show ?case
  proof (cases "length L + length R + 2 \<le> Im")
    case True
    then show ?thesis using s k up by (simp add: grow_up_fits search_ok_plug kts_def)
  next
    case False
    have l: "length kts = Im + 1" "0 < m" "m < length kts"
      using False "2.prems"(7,8) by (simp_all add: kts_def m_def)
    note h = seps_ok_halves [OF s l(2,3)]
    have ne: "kids_entries (take m kts) \<noteq> []" "kids_entries (drop m kts) \<noteq> []"
    proof -
      have "take m kts \<noteq> []" "drop m kts \<noteq> []" using l(2,3) by auto
      then show "kids_entries (take m kts) \<noteq> []" "kids_entries (drop m kts) \<noteq> []"
        using kids_entries_nonempty [OF h(1)] kids_entries_nonempty [OF h(2)] by blast+
    qed
    have "search_ok cmp K (grow_up Im z (n + 1) fs (Node p (take m kts)) (fst (kts ! m)) (Node n (drop m kts)))"
    proof (rule "2.IH")
      show "search_ok cmp K (Node p (take m kts))" "search_ok cmp K (Node n (drop m kts))"
        using h(1,2) k in_set_takeD [of _ m kts] in_set_dropD [of _ m kts] by auto
      show "path_ok cmp K fs (entries (Node p (take m kts)) @ entries (Node n (drop m kts)))"
        using up kids_split [of "\<lambda>kt. entries (snd kt)" m kts] by simp
      show "sep_ok cmp K (k0, entries (Node p (take m kts))) (fst (kts ! m), entries (Node n (drop m kts)))"
        using h(3) by simp
      show "path_shape Lm Im (Suc h) fs" using "2.prems"(8) by simp
    qed (use ne "2.prems"(7) in simp_all)
    then show ?thesis using l(1) by (subst grow_up_split [OF _ kts_def m_def]) simp_all
  qed
qed

lemma heads_ok_grow_up:
  assumes "heads_ok (path_head z fs) t" and "heads_ok k r" and "path_heads z fs" and "4 \<le> Im"
  shows "heads_ok z (grow_up Im z n fs t k r)"
  using assms
proof (induction fs arbitrary: n t k r rule: side_ids.induct)
  case (2 p L k0 R fs)
  define kts where "kts = L @ (k0, t) # (k, r) # R"
  define m where "m = (Im + 1) div 2"
  have hd: "fst (hd kts) = path_head z fs" and k: "\<forall>kt \<in> set kts. heads_ok (fst kt) (snd kt)"
    using "2.prems" by (auto simp: kts_def hd_append)
  show ?case
  proof (cases "length L + length R + 2 \<le> Im")
    case True
    then show ?thesis using hd k "2.prems"(3) by (simp add: grow_up_fits heads_ok_plug kts_def)
  next
    case False
    then have l: "Im < length kts" "0 < m" "m < length kts" using "2.prems"(4) by (simp_all add: kts_def m_def)
    have "heads_ok z (grow_up Im z (n + 1) fs (Node p (take m kts)) (fst (kts ! m)) (Node n (drop m kts)))"
      using hd k l "2.prems"(3,4) in_set_takeD [of _ m kts] in_set_dropD [of _ m kts]
      by (intro "2.IH") (auto simp: hd_drop_conv_nth)
    then show ?thesis by (subst grow_up_split [OF l(1) kts_def m_def])
  qed
qed simp

end
