(* ===== verification/BTreeSplit.thy ===== *)
theory BTreeSplit imports BTreeSteps BTreeLookup BTreeGrow begin

text \<open>
  \<open>Split\<close> for leaf and internal pages and \<open>UpdateRootPageId\<close>: what they leave on the pages.
\<close>

section \<open>A new page\<close>

lemma new_page_step:
  assumes "store_inv s" and "latch s (next_id s) = 0" and "txn s \<noteq> None"
  obtains s0 s1 s' where "st_new RawPage s = (next_id s, s0)" "st_wlatch (next_id s) s0 = Some s1"
    "AddIntoPageSet (next_id s) s1 = Some s'" "grown [next_id s] s s'" "contents s' = (contents s)(next_id s \<mapsto> RawPage)"
    "next_id s' = next_id s + 1" "root_page_id s' = root_page_id s"
proof -
  let ?n = "next_id s"
  obtain t where t: "txn s = Some t" using assms(3) by auto
  define s0 where "s0 = s\<lparr>contents := (contents s)(?n \<mapsto> RawPage), pins := (pins s)(?n := 1), pending := insert ?n (pending s),
    next_id := ?n + 1\<rparr>"
  have new: "st_new RawPage s = (?n, s0)" by (simp add: st_new_def s0_def Let_def)
  have i: "store_inv s0" using store_inv_new [OF assms(1) new] .
  define s1 where "s1 = s0\<lparr>latch := (latch s)(?n := - 1)\<rparr>"
  have w: "st_wlatch ?n s0 = Some s1" using assms(2) by (simp add: st_wlatch_def s1_def s0_def)
  define s' where "s' = s1\<lparr>txn := Some (add_pages [?n] t)\<rparr>"
  have a: "AddIntoPageSet ?n s1 = Some s'" using t by (simp add: AddIntoPageSet_def s'_def s1_def s0_def add_pages_def)
  have "store_inv s'" using i by (simp add: store_inv_def s'_def s1_def)
  then have "grown [?n] s s'" using t by (auto simp: grown_def s'_def s1_def s0_def fun_eq_iff)
  then show ?thesis using that [OF new w a] by (simp add: s'_def s1_def s0_def)
qed

text \<open>What zeroed memory is initialised to.\<close>

lemma leaf_Init_fields:
  assumes "l = leaf_Init (key_size c) n par (zero_leaf c)"
  shows "page_type_m l = LEAF_PAGE" "size_m l = 0" "page_id_m l = n" "parent_page_id_m l = par" "next_page_id_m l = INVALID_PAGE_ID"
    "max_size_m l = leaf_slots (key_size c) - 1" "length (leaf_array l) = nat (leaf_slots (key_size c))"
  by (simp_all add: assms leaf_Init_def zero_leaf_def zero_header_def header_defs leaf_SetNextPageId_def Let_def bpt_header.extend_def)

lemma internal_Init_fields:
  assumes "l = internal_Init (key_size c) n par (zero_internal c)"
  shows "page_type_m l = INTERNAL_PAGE" "size_m l = 0" "page_id_m l = n" "parent_page_id_m l = par"
    "max_size_m l = internal_slots (key_size c) - 1" "length (internal_array l) = nat (internal_slots (key_size c))"
  by (simp_all add: assms internal_Init_def zero_internal_def zero_header_def header_defs Let_def bpt_header.extend_def)

lemma leaf_cellI:
  assumes "wf_leaf l" "page_id_m l = p" "parent_page_id_m l = par" "max_size_m l + 1 = leaf_slots (key_size c)"
    "int (length (leaf_array l)) = leaf_slots (key_size c)" "m p = Some (LeafP l)"
  shows "cell_at c m (p, par, LeafData (leaf_entries l))"
  using assms by (simp add: cell_at_def page_is_def)

lemma node_cellI:
  assumes "wf_internal n" "page_id_m n = p" "parent_page_id_m n = par" "max_size_m n + 1 = internal_slots (key_size c)"
    "int (length (internal_array n)) = internal_slots (key_size c)" "m p = Some (InternalP n)"
  shows "cell_at c m (p, par, NodeData (internal_entries n))"
  using assms by (simp add: cell_at_def page_is_def)

section \<open>The split of a leaf\<close>

lemma leaf_MoveHalfTo_fields:
  assumes "leaf_MoveHalfTo p r = (p', r')"
  shows "page_id_m p' = page_id_m p" "parent_page_id_m p' = parent_page_id_m p" "max_size_m p' = max_size_m p"
    "leaf_array p' = leaf_array p" "page_id_m r' = page_id_m r" "parent_page_id_m r' = parent_page_id_m r"
    "max_size_m r' = max_size_m r" "length (leaf_array r') = length (leaf_array r)"
  using assms by (auto simp: leaf_MoveHalfTo_def header_defs leaf_SetNextPageId_def Let_def)

lemma Split_leaf_spec:
  assumes s: "store_inv s" "latch s (next_id s) = 0" "txn s \<noteq> None" and c: "slots_ok c" and pin: "0 < pins s p"
    and cell: "cell_at c (contents s) (p, par, LeafData es)" and full: "length es = leaf_max c + 1"
    and mid: "mid = (leaf_max c + 1) div 2"
  obtains s' where "Split_leaf c p s = Some (next_id s, s')" "grown [next_id s] s s'" "next_id s' = next_id s + 1"
    "root_page_id s' = root_page_id s" "cell_at c (contents s') (p, par, LeafData (take mid es))"
    "cell_at c (contents s') (next_id s, par, LeafData (drop mid es))"
    "\<And>q. q \<noteq> p \<Longrightarrow> q \<noteq> next_id s \<Longrightarrow> contents s' q = contents s q"
    "next_at (contents s') p (next_id s)" "\<And>x. next_at (contents s) p x \<Longrightarrow> next_at (contents s') (next_id s) x"
proof -
  let ?n = "next_id s"
  obtain s0 s1 s2 where new: "st_new RawPage s = (?n, s0)" "st_wlatch ?n s0 = Some s1" "AddIntoPageSet ?n s1 = Some s2"
    "grown [?n] s s2" "contents s2 = (contents s)(?n \<mapsto> RawPage)" "next_id s2 = ?n + 1" "root_page_id s2 = root_page_id s"
    using new_page_step [OF s] .
  obtain l where l: "contents s p = Some (LeafP l)" "wf_leaf l" "leaf_entries l = es" "page_id_m l = p" "parent_page_id_m l = par"
    "max_size_m l + 1 = leaf_slots (key_size c)" "int (length (leaf_array l)) = leaf_slots (key_size c)"
    using leaf_cell [OF cell] .
  have pn: "p \<noteq> ?n" using store_inv_less [OF s(1) l(1)] by simp
  define r where "r = leaf_Init (key_size c) ?n par (zero_leaf c)"
  note r = leaf_Init_fields [OF r_def]
  obtain l' r' where h: "leaf_MoveHalfTo l r = (l', r')" by (cases "leaf_MoveHalfTo l r")
  have sz: "size_m l = max_size_m l + 1" "nat ((max_size_m l + 1) div 2) = mid"
    using l(2,3,6) full slots_max(3) [OF c] leaf_size_entries [OF l(2)] by (simp_all add: mid nat_div_distrib nat_add_distrib)
  have len: "length (leaf_array r) = length (leaf_array l)" "max_size_m r = max_size_m l" using r l(6,7) by simp_all
  note H = leaf_MoveHalfTo_spec [OF l(2) sz(1) len(2,1) r(1) h, unfolded sz(2) l(3)] and F = leaf_MoveHalfTo_fields [OF h]
  have get: "get_leaf c ?n s2 = Some (zero_leaf c)" "get_leaf c p s2 = Some l"
    using new(5) l(1) pn grownD(5) [OF new(4)] pin by (simp_all add: get_leaf_def st_get_def as_leaf_def)
  obtain s3 where s3: "st_put p (LeafP l') s2 = Some s3" "kept s2 s3" "contents s3 = (contents s2)(p \<mapsto> LeafP l')"
    using put_step [OF grownD(1) [OF new(4)], of p "LeafP l'"] pin pn grownD(5) [OF new(4), of p] by auto
  have "0 < pins s3 ?n" using keptD(2) [OF s3(2)] grownD(5) [OF new(4), of ?n] by simp
  then obtain s4 where s4: "st_put ?n (LeafP r') s3 = Some s4" "kept s3 s4" "contents s4 = (contents s3)(?n \<mapsto> LeafP r')"
    using put_step [OF keptD(1) [OF s3(2)], of ?n "LeafP r'"] by auto
  have m: "contents s4 p = Some (LeafP l')" "contents s4 ?n = Some (LeafP r')" using pn by (simp_all add: s4(3) s3(3))
  show ?thesis
  proof (rule that [of s4])
    show "Split_leaf c p s = Some (?n, s4)"
      using h s3(1) s4(1) l(5) by (simp add: Split_leaf_def new(1-3) get put_leaf_def r_def [symmetric] GetParentPageId_def)
    show "grown [?n] s s4" using new(4) s3(2) s4(2) grown_kept by blast
    show "next_id s4 = ?n + 1" "root_page_id s4 = root_page_id s"
      using keptD(4,5) [OF s3(2)] keptD(4,5) [OF s4(2)] new(6,7) by simp_all
    show "cell_at c (contents s4) (p, par, LeafData (take mid es))"
      using leaf_cellI [OF H(5), of p par c "contents s4"] F l(4-7) m(1) H(1) by simp
    show "cell_at c (contents s4) (?n, par, LeafData (drop mid es))"
      using leaf_cellI [OF H(6), of ?n par c "contents s4"] F r(3-7) l(6,7) len m(2) H(2) by simp
    show "contents s4 q = contents s q" if "q \<noteq> p" "q \<noteq> ?n" for q using that by (simp add: s4(3) s3(3) new(5))
    show "next_at (contents s4) p ?n" using m(1) H(7) r(3) by (simp add: next_at_def)
    show "next_at (contents s4) ?n x" if "next_at (contents s) p x" for x
      using that m(2) H(8) l(1) by (simp add: next_at_def)
  qed
qed

section \<open>The split of an internal page\<close>

lemma cell_SetParent:
  assumes "cell_at c m (q, par, nd)"
  shows "\<exists>d d'. m q = Some d \<and> page_SetParentPageId par' d = Some d'"
proof -
  obtain d where d: "m q = Some d" "page_is c q par nd d" using assms by (auto simp: cell_at_def)
  then show ?thesis using page_is_parent [OF d(2)] by metis
qed

lemma on_pages_ids:
  assumes "on_pages c m (set (cells par t))" and "q \<in> set (page_ids t)"
  shows "m q \<noteq> None"
proof -
  have "q \<in> fst ` set (cells par t)" using assms(2) unfolding fst_cells .
  then obtain x where "x \<in> set (cells par t)" "fst x = q" by blast
  then show ?thesis using assms(1) unfolding on_pages_def cell_at_def by fastforce
qed

lemma tree_id_cells: "\<exists>nd. (tree_id t, par, nd) \<in> set (cells par t)"
  using cells_root [of t] by (metis list.set_intros(1))

lemma Split_internal_spec:
  assumes s: "store_inv s" "latch s (next_id s) = 0" "txn s \<noteq> None" and c: "slots_ok c" and pin: "0 < pins s p"
    and cells: "on_pages c (contents s) (set (cells par (Node p kts)))" and ids: "distinct (page_ids (Node p kts))"
    and full: "length kts = internal_max c + 1" and mid: "mid = (internal_max c + 1) div 2"
  obtains s' where "Split_internal c p s = Some (next_id s, s')" "grown [next_id s] s s'" "next_id s' = next_id s + 1"
    "root_page_id s' = root_page_id s" "on_pages c (contents s') (set (cells par (Node p (take mid kts))))"
    "on_pages c (contents s') (set (cells par (Node (next_id s) (drop mid kts))))"
    "\<And>q. q \<notin> set (page_ids (Node p kts)) \<Longrightarrow> q \<noteq> next_id s \<Longrightarrow> contents s' q = contents s q"
    "\<And>q x. next_at (contents s) q x \<Longrightarrow> next_at (contents s') q x"
proof -
  let ?n = "next_id s"
  obtain s0 s1 s2 where new: "st_new RawPage s = (?n, s0)" "st_wlatch ?n s0 = Some s1" "AddIntoPageSet ?n s1 = Some s2"
    "grown [?n] s s2" "contents s2 = (contents s)(?n \<mapsto> RawPage)" "next_id s2 = ?n + 1" "root_page_id s2 = root_page_id s"
    using new_page_step [OF s] .
  have cell: "cell_at c (contents s) (p, par, NodeData (kid_slots kts))" and kids: "on_pages c (contents s) (set (kids_cells p kts))"
    using cells by (simp_all add: on_pages_def)
  obtain l where l: "contents s p = Some (InternalP l)" "wf_internal l" "internal_entries l = kid_slots kts" "page_id_m l = p"
    "parent_page_id_m l = par" "max_size_m l + 1 = internal_slots (key_size c)"
    "int (length (internal_array l)) = internal_slots (key_size c)"
    using node_cell [OF cell] .
  have pn: "p \<noteq> ?n" using store_inv_less [OF s(1) l(1)] by simp
  have n_new: "?n \<notin> set (page_ids (Node p kts))" using on_pages_ids [OF cells] store_inv_fresh [OF s(1) order_refl] by blast
  define r where "r = internal_Init (key_size c) ?n par (zero_internal c)"
  note r = internal_Init_fields [OF r_def]
  have sz: "size_m l = max_size_m l + 1" "nat ((max_size_m l + 1) div 2) = mid" "nat (max_size_m l + 1) = length kts"
    using l(2,3,6) full slots_max(4) [OF c] length_internal_entries [OF l(2)]
    by (simp_all add: mid nat_div_distrib nat_add_distrib wf_internal_def)
  have len: "length (internal_array r) = length (internal_array l)" "max_size_m r = max_size_m l" using r l(6,7) by simp_all
  obtain l' r' where h: "internal_MoveHalfTo_local l r = Some (l', r')"
    "internal_entries l' = kid_slots (take mid kts)" "internal_entries r' = kid_slots (drop mid kts)"
    "wf_internal l'" "wf_internal r'" "internal_meta l' = internal_meta l" "internal_meta r' = internal_meta r"
    using internal_MoveHalfTo_spec [OF l(2) sz(1) len(2,1) r(1), unfolded sz(2) l(3)] by (simp add: kid_slots_def take_map drop_map) blast
  have get: "get_internal c ?n s2 = Some (zero_internal c)" "get_internal c p s2 = Some l"
    using new(5) l(1) pn grownD(5) [OF new(4)] pin by (simp_all add: get_internal_def st_get_def as_internal_def)
  have pins: "0 < pins s2 ?n" "0 < pins s2 p" using grownD(5) [OF new(4)] pin by simp_all
  obtain s3 where s3: "st_put ?n (InternalP r) s2 = Some s3" "kept s2 s3" "contents s3 = (contents s2)(?n \<mapsto> InternalP r)"
    using put_step [OF grownD(1) [OF new(4)] pins(1)] .
  obtain s4 where s4: "st_put p (InternalP l') s3 = Some s4" "kept s3 s4" "contents s4 = (contents s3)(p \<mapsto> InternalP l')"
    using put_step [OF keptD(1) [OF s3(2)], of p "InternalP l'"] pins(2) keptD(2) [OF s3(2)] by auto
  obtain s5 where s5: "st_put ?n (InternalP r') s4 = Some s5" "kept s4 s5" "contents s5 = (contents s4)(?n \<mapsto> InternalP r')"
    using put_step [OF keptD(1) [OF s4(2)], of ?n "InternalP r'"] pins(1) keptD(2) [OF s3(2)] keptD(2) [OF s4(2)] by auto
  have get3: "get_internal c p s3 = Some l" "get_internal c ?n s3 = Some r"
    using pins pn l(1) new(5) keptD(2) [OF s3(2)] by (simp_all add: get_internal_def st_get_def as_internal_def s3(3))
  have m5: "contents s5 = (contents s)(p \<mapsto> InternalP l', ?n \<mapsto> InternalP r')" by (simp add: s5(3) s4(3) s3(3) new(5) fun_upd_twist)
  have kids_ids: "p \<notin> set (kids_page_ids kts)" "distinct (kids_page_ids kts)" "?n \<notin> set (kids_page_ids kts)"
    using ids n_new by simp_all
  have kids5: "on_pages c (contents s5) (set (kids_cells p kts))"
    by (rule on_pages_cong [OF kids]) (use kids_ids fst_kids_cells [of p kts] in \<open>auto simp: m5\<close>)
  let ?es = "kid_slots (drop mid kts)"
  have kid: "\<exists>d d'. contents s5 (snd e) = Some d \<and> page_SetParentPageId ?n d = Some d'" if e: "e \<in> set ?es" for e
  proof -
    obtain kt where kt: "kt \<in> set (drop mid kts)" "snd e = tree_id (snd kt)" using e by (auto simp: kid_slots_def)
    then have "kt \<in> set kts" by (meson in_set_dropD)
    moreover obtain nd where "(tree_id (snd kt), p, nd) \<in> set (cells p (snd kt))" using tree_id_cells by blast
    ultimately have "cell_at c (contents s5) (snd e, p, nd)" using kids5 kt(2) by (auto simp: on_pages_def)
    then show ?thesis by (rule cell_SetParent)
  qed
  obtain s6 where s6: "reparent_children ?n ?es s5 = Some s6" "kept s5 s6"
    "contents s6 = set_parents ?n (snd ` set ?es) (contents s5)"
    using reparent_step [OF keptD(1) [OF s5(2)], of ?es ?n] kid by blast
  have X: "snd ` set ?es = (\<lambda>kt. tree_id (snd kt)) ` set (drop mid kts)" by (simp add: kid_slots_def image_image)
  have Xin: "snd ` set ?es \<subseteq> set (kids_page_ids (drop mid kts))" unfolding X by (auto intro: tree_id_page_ids)
  have sub: "set (kids_page_ids (drop mid kts)) \<subseteq> set (kids_page_ids kts)" "set (kids_page_ids (take mid kts)) \<subseteq> set (kids_page_ids kts)"
    using set_drop_subset [of mid kts] set_take_subset [of mid kts] by fastforce+
  have halves: "distinct (kids_page_ids (drop mid kts))" "set (kids_page_ids (take mid kts)) \<inter> set (kids_page_ids (drop mid kts)) = {}"
    using kids_ids(2) kids_split [of "\<lambda>kt. page_ids (snd kt)" mid kts] by (metis distinct_append)+
  have es: "drop mid (take (length kts) (internal_array l)) = ?es"
    using l(3) sz(1,3) by (simp add: internal_entries_def)
  have entries: "on_pages c (contents s5) (set (kids_cells p (take mid kts)))" "on_pages c (contents s5) (set (kids_cells p (drop mid kts)))"
    using kids5 set_take_subset [of mid kts] set_drop_subset [of mid kts] by (auto simp: on_pages_def)
  have p_out: "p \<notin> snd ` set ?es" "?n \<notin> snd ` set ?es" using Xin sub(1) kids_ids(1,3) by auto
  note meta = internal_meta_simps
  show ?thesis
  proof (rule that [of s6])
    have "GetPageId r = ?n" "GetMaxSize l = max_size_m l" "GetParentPageId l = par" using r(3) l(5) by (simp_all add: header_defs)
    then show "Split_internal c p s = Some (?n, s6)"
      using h(1) s3(1) s4(1) s5(1) s6(1) es
      by (simp add: Split_internal_def new(1-3) get internal_MoveHalfTo_def get3 put_internal_def r_def [symmetric] sz(2,3))
    show "grown [?n] s s6"
      using new(4) s3(2) s4(2) s5(2) s6(2) grown_kept kept_trans by meson
    show "next_id s6 = ?n + 1" "root_page_id s6 = root_page_id s"
      using keptD(4,5) [OF s3(2)] keptD(4,5) [OF s4(2)] keptD(4,5) [OF s5(2)] keptD(4,5) [OF s6(2)] new(6,7) by simp_all
    have "cell_at c (contents s6) (p, par, NodeData (kid_slots (take mid kts)))"
      using node_cellI [OF h(4), of p par c "contents s6"] meta [OF h(6)] l(4-7) h(2) p_out pn
      by (simp add: s6(3) set_parents_def m5)
    moreover have "on_pages c (contents s6) (set (kids_cells p (take mid kts)))"
    proof (rule on_pages_cong [OF entries(1)])
      fix q assume "q \<in> fst ` set (kids_cells p (take mid kts))"
      then have "q \<notin> snd ` set ?es" using Xin halves(2) fst_kids_cells [of p "take mid kts"] by blast
      then show "contents s6 q = contents s5 q" by (simp add: s6(3) set_parents_def)
    qed
    ultimately show "on_pages c (contents s6) (set (cells par (Node p (take mid kts))))" by simp
    have "cell_at c (contents s6) (?n, par, NodeData (kid_slots (drop mid kts)))"
      using node_cellI [OF h(5), of ?n par c "contents s6"] meta [OF h(7)] r(3-6) l(6,7) h(3) p_out len
      by (simp add: s6(3) set_parents_def m5)
    moreover have "on_pages c (contents s6) (set (kids_cells ?n (drop mid kts)))"
      unfolding s6(3)
      by (rule set_parents_kids [OF entries(2) halves(1)]) (use Xin X in blast)
    ultimately show "on_pages c (contents s6) (set (cells par (Node ?n (drop mid kts))))" by simp
    show "contents s6 q = contents s q" if "q \<notin> set (page_ids (Node p kts))" "q \<noteq> ?n" for q
    proof -
      have "q \<noteq> p" "q \<notin> snd ` set ?es" using that(1) Xin sub(1) by auto
      then show ?thesis using that(2) by (simp add: s6(3) set_parents_def m5)
    qed
    show "next_at (contents s6) q x" if "next_at (contents s) q x" for q x
    proof -
      have "q \<noteq> ?n" "q \<noteq> p" using that l(1) store_inv_fresh [OF s(1), of ?n] by (auto simp: next_at_def)
      then have "next_at (contents s5) q x" using that by (simp add: next_at_def m5)
      then show ?thesis unfolding s6(3) by (rule set_parents_next)
    qed
  qed
qed

section \<open>The record of the root\<close>

text \<open>The header page has a record for the index; when \<open>e\<close>, the record is its root.\<close>

definition root_recorded :: "bool \<Rightarrow> ('k, 'v) tree_params \<Rightarrow> page_id \<Rightarrow> (page_id \<Rightarrow> ('k, 'v) page option) \<Rightarrow> bool" where
  "root_recorded e c root m \<longleftrightarrow> length (index_name c) < 32 \<and>
     (\<exists>rs r. m HEADER_PAGE_ID = Some (HeaderP rs) \<and> map_of rs (index_name c) = Some r \<and> (e \<longrightarrow> r = root))"

lemma header_update_map: "name \<in> fst ` set rs \<Longrightarrow> map_of (header_update name root rs) name = Some root"
  by (induction rs) auto

lemma UpdateRoot_spec:
  assumes "store_inv s" and "root_recorded e c old (contents s)"
  obtains s' where "UpdateRootPageId c False s = Some s'" "kept s s'" "root_recorded e c (root_page_id s) (contents s')"
    "\<And>q. q \<noteq> HEADER_PAGE_ID \<Longrightarrow> contents s' q = contents s q"
proof -
  obtain rs r where rs: "length (index_name c) < 32" "contents s HEADER_PAGE_ID = Some (HeaderP rs)" "map_of rs (index_name c) = Some r"
    using assms(2) by (auto simp: root_recorded_def)
  let ?s0 = "pinned HEADER_PAGE_ID s" and ?rs = "header_update (index_name c) (root_page_id s) rs"
  have "0 < pins ?s0 HEADER_PAGE_ID" using store_inv_pins [OF assms(1), of HEADER_PAGE_ID] by simp
  note pin = this
  obtain s1 where s1: "st_put HEADER_PAGE_ID (HeaderP ?rs) ?s0 = Some s1" "kept ?s0 s1"
    "contents s1 = (contents ?s0)(HEADER_PAGE_ID \<mapsto> HeaderP ?rs)"
    using put_step [OF store_inv_pinned [OF assms(1) rs(2)] pin] .
  obtain s2 where s2: "st_unpin HEADER_PAGE_ID True s1 = Some s2" "kept s s2" "contents s2 = contents s1"
    using unpin_kept [OF s1(2) assms(1) rs(2)] .
  have f: "index_name c \<in> fst ` set rs" using rs(3) by (force dest: map_of_SomeD)
  have get: "st_get HEADER_PAGE_ID ?s0 \<bind> as_header = Some rs" using pin rs(2) by (simp add: st_get_def as_header_def)
  have "UpdateRootPageId c False s = Some s2"
    unfolding UpdateRootPageId_def fetch_step [OF rs(2)] Option.bind.bind_lunit get
    using f rs(1) s1(1) s2(1) by (simp add: header_UpdateRecord_def header_FindRecord_def)
  moreover have "root_recorded e c (root_page_id s) (contents s2)"
    using rs(1) header_update_map [OF f] by (simp add: root_recorded_def s2(3) s1(3))
  ultimately show ?thesis using that s2(2,3) s1(3) by simp
qed

end
