(* ===== verification/BTreeInsertProps.thy ===== *)
theory BTreeInsertProps imports BTreeSplit begin

text \<open>
  Insertion into the B+ tree: \<open>InsertIntoParent\<close> does to the pages what \<open>grow_up\<close> does to the tree, and
  an insertion adds its entry and keeps the invariant of the tree.
\<close>

section \<open>Auxiliary facts\<close>

lemma cell_parent_unique: "cell_at c m (q, par, nd) \<Longrightarrow> cell_at c m (q, par', nd') \<Longrightarrow> par = par'"
  by (elim cell_header) auto

lemma on_pages_tree_cong:
  "on_pages c m (set (cells par t)) \<Longrightarrow> \<forall>q \<in> set (page_ids t). m' q = m q \<Longrightarrow> on_pages c m' (set (cells par t))"
  by (rule on_pages_cong) (simp_all add: fst_cells)

lemma on_pages_same_parent:
  assumes "on_pages c m X" and "cell_at c m (q, par, nd)"
  shows "on_pages c (set_parents par {q} m) X"
  unfolding on_pages_def
proof
  fix x assume "x \<in> X"
  then have x: "cell_at c m x" using assms(1) by (simp add: on_pages_def)
  obtain q' par' nd' where e: "x = (q', par', nd')" by (cases x)
  show "cell_at c (set_parents par {q} m) x"
  proof (cases "q' = q")
    case True
    then have "par' = par" using cell_parent_unique [OF assms(2)] x e by blast
    then show ?thesis using set_parents_cell [of c m q par nd' "{q}" par] x e True by simp
  next
    case False
    then show ?thesis using x cell_at_cong [of "set_parents par {q} m" x m c] e by (simp add: set_parents_def)
  qed
qed

lemma tree_id_plug: "tree_id t = tree_id t' \<Longrightarrow> tree_id (plug fs t) = tree_id (plug fs t')"
proof (cases fs)
  case (Cons f fs')
  obtain p L k R where f: "f = (p, L, k, R)" by (cases f)
  have "tree_id (plug fs' (Node p kts)) = tree_id (plug fs' (Node p kts'))" for kts kts' :: "('a, 'b) kids"
  proof (induction fs' arbitrary: p kts kts')
    case (Cons f' fs')
    obtain q L' k' R' where "f' = (q, L', k', R')" by (cases f')
    then show ?case using Cons by simp
  qed simp
  then show ?thesis by (simp add: Cons f)
qed simp

lemma kids_ids_UN: "set (kids_page_ids kts) = (\<Union>kt \<in> set kts. set (page_ids (snd kt)))"
  by simp

lemma distinct_kid_slots:
  assumes "distinct (kids_page_ids kts)"
  shows "distinct (map snd (kid_slots kts))"
  using assms
proof (induction kts)
  case (Cons kt kts)
  have "tree_id (snd kt) \<notin> (\<lambda>x. tree_id (snd x)) ` set kts"
  proof
    assume "tree_id (snd kt) \<in> (\<lambda>x. tree_id (snd x)) ` set kts"
    then obtain x where x: "x \<in> set kts" "tree_id (snd kt) = tree_id (snd x)" by blast
    have "tree_id (snd kt) \<in> set (kids_page_ids kts)"
      unfolding kids_ids_UN x(2) using x(1) tree_id_page_ids [of "snd x"] by blast
    moreover have "set (page_ids (snd kt)) \<inter> set (kids_page_ids kts) = {}" using Cons.prems by simp
    ultimately show False using tree_id_page_ids [of "snd kt"] by blast
  qed
  then show ?case using Cons by (simp add: kid_slots_def image_image)
qed simp

lemma get_header_cell:
  assumes "cell_at c (contents s) (q, par, nd)" and "0 < pins s q"
  obtains h where "get_header q s = Some h" "page_id_m h = q" "parent_page_id_m h = par"
  using assms(2) cell_header [OF assms(1)] by (metis get_header_def st_get_def bind.bind_lunit)

lemma on_pages_root:
  assumes "on_pages c m (set (cells par t))"
  obtains nd where "cell_at c m (tree_id t, par, nd)"
  using assms tree_id_cells [of t par] by (auto simp: on_pages_def)

lemma internal_PopulateNewRoot_entries:
  assumes "1 \<le> max_size_m p" and "max_size_m p + 1 \<le> int (length (internal_array p))"
  shows "internal_entries (internal_PopulateNewRoot ov k nv p) = [(fst (internal_array p ! 0), ov), (k, nv)]"
proof -
  obtain x y zs where a: "internal_array p = x # y # zs"
    using assms by (cases "internal_array p"; cases "tl (internal_array p)") auto
  show ?thesis by (simp add: internal_PopulateNewRoot_def header_defs Let_def internal_entries_def a)
qed

section \<open>The contract of \<open>InsertIntoParent\<close>\<close>

text \<open>The hole of a path holds a node that was split in two; both halves are pinned.\<close>

definition split_in :: "bool \<Rightarrow> ('k, 'v) tree_params \<Rightarrow> ('k, 'v) tree_frame list \<Rightarrow> ('k, 'v) tree \<Rightarrow> ('k, 'v) tree \<Rightarrow> ('k, 'v) btree \<Rightarrow> bool" where
  "split_in e c fs t r s \<longleftrightarrow> store_inv s \<and> (\<forall>q. next_id s \<le> q \<longrightarrow> latch s q = 0) \<and> txn s \<noteq> None \<and>
     0 < pins s (tree_id t) \<and> 0 < pins s (tree_id r) \<and>
     on_pages c (contents s) (set (cells (path_parent fs) t) \<union> set (cells (path_parent fs) r) \<union> set (path_cells (tree_id t) fs)) \<and>
     distinct (page_ids t @ page_ids r @ side_ids fs) \<and> (\<forall>p \<in> set (page_ids t @ page_ids r @ side_ids fs). 0 < p) \<and>
     root_page_id s = tree_id (plug fs t) \<and> root_recorded e c (root_page_id s) (contents s)"

text \<open>Afterwards the pages are those of the new tree; the chain of the leaves and the pages of others are
  as before.\<close>

definition tree_grown :: "bool \<Rightarrow> ('k, 'v) tree_params \<Rightarrow> page_id set \<Rightarrow> ('k, 'v) tree \<Rightarrow> page_id list \<Rightarrow> ('k, 'v) btree \<Rightarrow> ('k, 'v) btree \<Rightarrow> bool" where
  "tree_grown e c X T N s s' \<longleftrightarrow> grown N s s' \<and> on_pages c (contents s') (set (cells INVALID_PAGE_ID T)) \<and>
     root_page_id s' = tree_id T \<and> root_recorded e c (tree_id T) (contents s') \<and>
     (\<forall>q x. next_at (contents s) q x \<longrightarrow> next_at (contents s') q x) \<and>
     (\<forall>q. q \<notin> X \<longrightarrow> q \<noteq> HEADER_PAGE_ID \<longrightarrow> q < next_id s \<longrightarrow> contents s' q = contents s q)"

definition split_ids :: "('k, 'v) tree_frame list \<Rightarrow> ('k, 'v) tree \<Rightarrow> ('k, 'v) tree \<Rightarrow> page_id set" where
  "split_ids fs t r = set (page_ids t @ page_ids r @ side_ids fs)"

lemma InsertIntoParent_root:
  assumes pre: "split_in e c [] t r s" and c: "slots_ok c"
  shows "\<exists>s'. InsertIntoParent c (tree_id t) k (tree_id r) s = Some s' \<and>
    tree_grown e c (split_ids [] t r) (Node (next_id s) [(zero_key c, t), (k, r)]) [] s s'"
proof -
  let ?n = "next_id s" and ?o = "tree_id t" and ?w = "tree_id r"
  have s: "store_inv s" "0 < pins s ?o" "0 < pins s ?w" "root_recorded e c (root_page_id s) (contents s)"
    and on: "on_pages c (contents s) (set (cells INVALID_PAGE_ID t))" "on_pages c (contents s) (set (cells INVALID_PAGE_ID r))"
    and ids: "distinct (page_ids t)" "distinct (page_ids r)" "set (page_ids t) \<inter> set (page_ids r) = {}"
      "\<forall>p \<in> set (page_ids t). 0 < p" "\<forall>p \<in> set (page_ids r). 0 < p"
    using pre by (auto simp: split_in_def)
  obtain nt where ct: "cell_at c (contents s) (?o, INVALID_PAGE_ID, nt)" using on_pages_root [OF on(1)] .
  obtain nr where cr: "cell_at c (contents s) (?w, INVALID_PAGE_ID, nr)" using on_pages_root [OF on(2)] .
  obtain ho where ho: "get_header ?o s = Some ho" "page_id_m ho = ?o" "parent_page_id_m ho = INVALID_PAGE_ID"
    using get_header_cell [OF ct s(2)] .
  have fresh: "?n \<notin> set (page_ids t)" "?n \<notin> set (page_ids r)" "contents s ?n = None" "pins s ?n = 0"
    using on_pages_ids [OF on(1)] on_pages_ids [OF on(2)] store_inv_fresh [OF s(1) order_refl] by blast+
  have n0: "0 < ?n" using store_inv_less [OF s(1)] ct ids(4) by (force simp: cell_at_def)
  obtain s0 where new: "st_new RawPage s = (?n, s0)" by (simp add: st_new_def Let_def)
  have i0: "store_inv s0" using store_inv_new [OF s(1) new] .
  have s0: "s0 = s\<lparr>contents := (contents s)(?n \<mapsto> RawPage), pins := (pins s)(?n := 1), pending := insert ?n (pending s), next_id := ?n + 1\<rparr>"
    using new by (simp add: st_new_def Let_def)
  define s1 where "s1 = s0\<lparr>root_page_id := ?n\<rparr>"
  have i1: "store_inv s1" using i0 by (simp add: store_inv_def s1_def)
  have ne: "?o \<noteq> ?n" "?w \<noteq> ?n" "?o \<noteq> ?w" using fresh(1,2) ids(3) by (metis tree_id_page_ids, metis tree_id_page_ids, metis disjoint_iff tree_id_page_ids)
  have out: "?o \<notin> set (page_ids r)" "?w \<notin> set (page_ids t)" using ids(3) by (metis disjoint_iff tree_id_page_ids)+
  have m1: "contents s1 = (contents s)(?n \<mapsto> RawPage)" "pins s1 = (pins s)(?n := 1)" by (simp_all add: s1_def s0)
  have on1: "on_pages c (contents s1) (set (cells INVALID_PAGE_ID t))" "on_pages c (contents s1) (set (cells INVALID_PAGE_ID r))"
    using on_pages_tree_cong [OF on(1)] on_pages_tree_cong [OF on(2)] fresh(1,2) by (simp_all add: m1)
  define r0 where "r0 = internal_Init (key_size c) ?n INVALID_PAGE_ID (zero_internal c)"
  note r0 = internal_Init_fields [OF r0_def]
  define r1 where "r1 = internal_PopulateNewRoot ?o k ?w r0"
  have size0: "1 \<le> max_size_m r0" "max_size_m r0 + 1 \<le> int (length (internal_array r0))"
    using r0(5,6) c by (simp_all add: slots_ok_def)
  have z: "fst (internal_array r0 ! 0) = zero_key c"
    using c by (simp add: r0_def internal_Init_def zero_internal_def header_defs Let_def bpt_header.extend_def slots_ok_def)
  have r1: "internal_entries r1 = [(zero_key c, ?o), (k, ?w)]" "wf_internal r1" "internal_meta r1 = internal_meta r0"
    using internal_PopulateNewRoot_entries [OF size0] internal_PopulateNewRoot_spec [OF r0(1) size0, of ?o k ?w] z
    unfolding r1_def by metis+
  have meta: "max_size_m r1 = max_size_m r0" "page_id_m r1 = ?n" "parent_page_id_m r1 = INVALID_PAGE_ID"
    "length (internal_array r1) = length (internal_array r0)"
    using internal_meta_simps [OF r1(3)] r0 by simp_all
  obtain s2 where s2: "st_put ?n (InternalP r1) s1 = Some s2" "kept s1 s2" "contents s2 = (contents s1)(?n \<mapsto> InternalP r1)"
    using put_step [OF i1, of ?n] m1(2) by auto
  have on2: "on_pages c (contents s2) (set (cells INVALID_PAGE_ID t))" "on_pages c (contents s2) (set (cells INVALID_PAGE_ID r))"
    using on_pages_tree_cong [OF on1(1)] on_pages_tree_cong [OF on1(2)] fresh(1,2) by (simp_all add: s2(3))
  obtain dt dt' where dt: "contents s2 ?o = Some dt" "page_SetParentPageId ?n dt = Some dt'"
    using on_pages_root [OF on2(1)] cell_SetParent by metis
  obtain s3 where s3: "put_parent ?o ?n s2 = Some s3" "kept s2 s3" "contents s3 = set_parents ?n {?o} (contents s2)"
    using put_parent_step [OF keptD(1) [OF s2(2)] _ dt] s(2) ne m1(2) keptD(2) [OF s2(2)] by auto
  have on3t: "on_pages c (contents s3) (set (cells ?n t))"
    unfolding s3(3) by (rule set_parents_tree [OF on2(1) ids(1)]) simp_all
  have on3r: "on_pages c (contents s3) (set (cells INVALID_PAGE_ID r))"
    by (rule on_pages_tree_cong [OF on2(2)]) (use out in \<open>auto simp: s3(3) set_parents_def\<close>)
  obtain dr dr' where dr: "contents s3 ?w = Some dr" "page_SetParentPageId ?n dr = Some dr'"
    using on_pages_root [OF on3r] cell_SetParent by metis
  obtain s4 where s4: "put_parent ?w ?n s3 = Some s4" "kept s3 s4" "contents s4 = set_parents ?n {?w} (contents s3)"
    using put_parent_step [OF keptD(1) [OF s3(2)] _ dr] s(3) ne m1(2) keptD(2) [OF s2(2)] keptD(2) [OF s3(2)] by auto
  have on4r: "on_pages c (contents s4) (set (cells ?n r))"
    unfolding s4(3) by (rule set_parents_tree [OF on3r ids(2)]) simp_all
  have on4t: "on_pages c (contents s4) (set (cells ?n t))"
    by (rule on_pages_tree_cong [OF on3t]) (use out in \<open>auto simp: s4(3) set_parents_def\<close>)
  have k14: "kept s1 s4" using kept_trans [OF s2(2) kept_trans [OF s3(2) s4(2)]] .
  have m4: "contents s4 q = contents s q" if "q \<noteq> ?n" "q \<noteq> ?o" "q \<noteq> ?w" for q
    using that by (simp add: s4(3) s3(3) s2(3) m1 set_parents_def)
  have hd4: "HEADER_PAGE_ID \<noteq> ?n" "HEADER_PAGE_ID \<noteq> ?o" "HEADER_PAGE_ID \<noteq> ?w"
    using n0 bspec [OF ids(4) tree_id_page_ids] bspec [OF ids(5) tree_id_page_ids] by (auto simp: HEADER_PAGE_ID_def)
  have "root_recorded e c (root_page_id s) (contents s4)" using s(4) m4 hd4 by (simp add: root_recorded_def)
  then obtain s5 where s5: "UpdateRootPageId c False s4 = Some s5" "kept s4 s5" "root_recorded e c (root_page_id s4) (contents s5)"
    "\<And>q. q \<noteq> HEADER_PAGE_ID \<Longrightarrow> contents s5 q = contents s4 q"
    using UpdateRoot_spec [OF keptD(1) [OF s4(2)]] by blast
  have k15: "kept s1 s5" using kept_trans [OF k14 s5(2)] .
  have p5: "pins s5 ?n = 1" using keptD(2) [OF k15] m1(2) by simp
  define s6 where "s6 = s5\<lparr>pins := (pins s5)(?n := 0), pending := pending s5 - {?n}\<rparr>"
  have u: "st_unpin ?n True s5 = Some s6" using p5 by (simp add: st_unpin_def s6_def)
  have i6: "store_inv s6" using store_inv_unpin [OF keptD(1) [OF k15] u] .
  note k = keptD [OF k15]
  have g: "grown [] s s6"
    unfolding grown_def using i6
  proof (intro conjI)
    show "pins s6 = (\<lambda>q. if q \<in> set [] then 1 else pins s q)" using k(2) fresh(4) by (auto simp: s6_def s1_def s0)
  qed (use k in \<open>simp_all add: s6_def s1_def s0\<close>)
  have hdr: "get_header ?w s1 = Some hw \<Longrightarrow> page_id_m hw = ?w" for hw
    using on_pages_root [OF on1(2)] get_header_cell [of c s1 ?w INVALID_PAGE_ID] s(3) ne m1(2) by (metis fun_upd_other option.inject)
  obtain hw where hw: "get_header ?w s1 = Some hw"
    using on_pages_root [OF on1(2)] get_header_cell [of c s1 ?w INVALID_PAGE_ID] s(3) ne m1(2) by (metis fun_upd_other)
  have get: "get_internal c ?n s1 = Some (zero_internal c)" by (simp add: get_internal_def st_get_def m1 as_internal_def)
  have run: "InsertIntoParent c ?o k ?w s = Some s6"
    unfolding InsertIntoParent.simps [of c ?o k ?w s] ho(1) Option.bind.bind_lunit
    using ho(2,3) new hw hdr [OF hw] get s2(1) s3(1) s4(1) s5(1) u meta(2)
    by (simp add: IsRootPage_def s1_def [symmetric] r0_def [symmetric] r1_def [symmetric] GetPageId_def put_internal_def)
  have root6: "root_page_id s6 = ?n" using k(5) by (simp add: s6_def s1_def)
  have on5: "on_pages c (contents s6) (set (cells ?n t))" "on_pages c (contents s6) (set (cells ?n r))"
  proof -
    have "contents s6 q = contents s4 q" if "0 < q" for q using that s5(4) by (simp add: s6_def HEADER_PAGE_ID_def)
    then show "on_pages c (contents s6) (set (cells ?n t))" "on_pages c (contents s6) (set (cells ?n r))"
      using on_pages_tree_cong [OF on4t] on_pages_tree_cong [OF on4r] ids(4,5) by simp_all
  qed
  have "cell_at c (contents s6) (?n, INVALID_PAGE_ID, NodeData [(zero_key c, ?o), (k, ?w)])"
    using node_cellI [OF r1(2), of ?n INVALID_PAGE_ID c "contents s6"] r1(1) meta r0(5,6) c ne hd4 s5(4) [of ?n]
    by (simp add: s6_def s4(3) s3(3) s2(3) set_parents_def slots_ok_def)
  then have "on_pages c (contents s6) (set (cells INVALID_PAGE_ID (Node ?n [(zero_key c, t), (k, r)])))"
    using on5 by simp
  moreover have "next_at (contents s6) q x" if "next_at (contents s) q x" for q x
  proof -
    have "q \<noteq> ?n" using that fresh(3) by (auto simp: next_at_def)
    moreover have "q \<noteq> HEADER_PAGE_ID" using that s(4) by (auto simp: next_at_def root_recorded_def)
    ultimately have "next_at (contents s2) q x" "contents s6 q = contents s4 q"
      using that by (simp_all add: next_at_def s2(3) m1 s6_def s5(4))
    then show ?thesis using set_parents_next next_at_cong [of "contents s6" q "contents s4"] by (metis s3(3) s4(3))
  qed
  moreover have "contents s6 q = contents s q" if "q \<notin> split_ids [] t r" "q \<noteq> HEADER_PAGE_ID" "q < ?n" for q
  proof -
    have "q \<noteq> ?o" "q \<noteq> ?w" using that(1) by (auto simp: split_ids_def)
    then show ?thesis using that m4 [of q] s5(4) [of q] by (simp add: s6_def)
  qed
  moreover have "root_recorded e c ?n (contents s6)"
    using s5(3) keptD(5) [OF k14] by (simp add: s6_def s1_def)
  ultimately have "tree_grown e c (split_ids [] t r) (Node ?n [(zero_key c, t), (k, r)]) [] s s6"
    using g root6 by (simp add: tree_grown_def)
  then show ?thesis using run by blast
qed

text \<open>Below the root: the new node gets its slot in the parent, which may be split in turn.\<close>

lemma on_pages_path_cong:
  "on_pages c m (set (path_cells h fs)) \<Longrightarrow> \<forall>q \<in> set (side_ids fs). m' q = m q \<Longrightarrow> on_pages c m' (set (path_cells h fs))"
  by (rule on_pages_cong) (simp_all add: fst_path_cells)

lemma on_pages_kids_cong:
  "on_pages c m (set (kids_cells p kts)) \<Longrightarrow> \<forall>q \<in> set (kids_page_ids kts). m' q = m q \<Longrightarrow> on_pages c m' (set (kids_cells p kts))"
proof (rule on_pages_cong)
  fix q assume "\<forall>q \<in> set (kids_page_ids kts). m' q = m q" "q \<in> fst ` set (kids_cells p kts)"
  then show "m' q = m q" unfolding fst_kids_cells by blast
qed

lemma InsertIntoParent_step:
  assumes pre: "split_in e c ((p, L, k0, R) # fs) t r s" and c: "slots_ok c"
    and sz: "length L + length R < internal_max c" and kts: "kts = L @ (k0, t) # (k, r) # R"
  obtains s2 where "InsertIntoParent c (tree_id t) k (tree_id r) s =
      do { s \<leftarrow> (if length kts > internal_max c then
                   do { (new_page, s) \<leftarrow> Split_internal c p s2;
                        n \<leftarrow> get_internal c new_page s;
                        k \<leftarrow> internal_KeyAt 0 n;
                        InsertIntoParent c p k new_page s }
                 else Some s2);
           st_unpin p True s }"
    "kept (pinned p s) s2" "contents s p \<noteq> None"
    "on_pages c (contents s2) (set (cells (path_parent fs) (Node p kts)) \<union> set (path_cells p fs))"
    "\<And>q x. next_at (contents s) q x \<Longrightarrow> next_at (contents s2) q x"
    "\<And>q. q \<noteq> p \<Longrightarrow> q \<noteq> tree_id r \<Longrightarrow> contents s2 q = contents s q"
proof -
  let ?o = "tree_id t" and ?w = "tree_id r"
  have s: "store_inv s" "0 < pins s ?o" "0 < pins s ?w"
    and on: "on_pages c (contents s) (set (cells p t))" "on_pages c (contents s) (set (cells p r))"
      "on_pages c (contents s) (set (kids_cells p L))" "on_pages c (contents s) (set (kids_cells p R))"
      "on_pages c (contents s) (set (path_cells p fs))"
    and cell: "cell_at c (contents s) (p, path_parent fs, NodeData (kid_slots L @ (k0, ?o) # kid_slots R))"
    using pre by (auto simp: split_in_def)
  have ids: "distinct (page_ids t @ page_ids r @ side_ids ((p, L, k0, R) # fs))"
    "\<forall>q \<in> set (page_ids t @ page_ids r @ side_ids ((p, L, k0, R) # fs)). 0 < q"
    using pre unfolding split_in_def by blast+
  have p0: "0 < p" using ids(2) by simp
  obtain nt where ct: "cell_at c (contents s) (?o, p, nt)" using on_pages_root [OF on(1)] .
  obtain nr where cr: "cell_at c (contents s) (?w, p, nr)" using on_pages_root [OF on(2)] .
  obtain ho where ho: "get_header ?o s = Some ho" "page_id_m ho = ?o" "parent_page_id_m ho = p"
    using get_header_cell [OF ct s(2)] .
  have ne: "p \<noteq> ?w" "p \<notin> set (page_ids t)" "p \<notin> set (page_ids r)" "p \<notin> set (kids_page_ids L)" "p \<notin> set (kids_page_ids R)"
      "p \<notin> set (side_ids fs)"
    using ids(1) tree_id_page_ids [of r] by auto
  obtain n where n: "contents s p = Some (InternalP n)" "wf_internal n" "internal_entries n = kid_slots L @ (k0, ?o) # kid_slots R"
    "page_id_m n = p" "parent_page_id_m n = path_parent fs" "max_size_m n + 1 = internal_slots (key_size c)"
    "int (length (internal_array n)) = internal_slots (key_size c)"
    using node_cell [OF cell] .
  let ?s0 = "pinned p s"
  have i0: "store_inv ?s0" using store_inv_pinned [OF s(1) n(1)] .
  obtain dr dr' where dr: "contents s ?w = Some dr" "page_SetParentPageId p dr = Some dr'" using cell_SetParent [OF cr] by blast
  obtain s1 where s1: "put_parent ?w p ?s0 = Some s1" "kept ?s0 s1" "contents s1 = set_parents p {?w} (contents s)"
  proof -
    have "0 < pins ?s0 ?w" "contents ?s0 ?w = Some dr" using s(3) ne(1) dr(1) by simp_all
    from put_parent_step [OF i0 this dr(2)] obtain s1 where "put_parent ?w p ?s0 = Some s1" "kept ?s0 s1"
      "contents s1 = set_parents p {?w} (contents ?s0)" .
    then show ?thesis using that by simp
  qed
  have on1: "on_pages c (contents s1) X" if "on_pages c (contents s) X" for X
    unfolding s1(3) by (rule on_pages_same_parent [OF that cr])
  have cr1: "cell_at c (contents s1) (?w, p, nr)" using on1 [of "{(?w, p, nr)}"] cr by simp
  have pin1: "0 < pins s1 ?w" "0 < pins s1 p"
    using keptD(2) [OF s1(2)] s(3) ne(1) store_inv_pins [OF s(1), of p] by simp_all
  obtain hw where hw: "get_header ?w s1 = Some hw" "page_id_m hw = ?w" using get_header_cell [OF cr1 pin1(1)] .
  have n1: "contents s1 p = Some (InternalP n)" using n(1) ne(1) by (simp add: s1(3) set_parents_def)
  have kids_ids: "distinct (kids_page_ids (L @ (k0, t) # R))" using ids(1) by auto
  have slots: "internal_entries n = kid_slots (L @ (k0, t) # R)" using n(3) by simp
  have size: "size_m n = int (Suc (length L + length R))"
    using length_internal_entries [OF n(2)] n(2,3) by (simp add: wf_internal_def)
  have room: "size_m n \<le> max_size_m n" using size sz n(6) slots_max(4) [OF c] by simp
  have at: "length L < length (internal_entries n)" "snd (internal_entries n ! length L) = ?o"
      "distinct (map snd (internal_entries n))"
    using distinct_kid_slots [OF kids_ids] slots by (simp_all add: nth_append)
  obtain n' where n': "internal_InsertNodeAfter ?o k ?w n = Some (size_m n + 1, n')"
    "internal_entries n' = take (Suc (length L)) (internal_entries n) @ (k, ?w) # drop (Suc (length L)) (internal_entries n)"
    "wf_internal n'" "internal_meta n' = internal_meta n" "size_m n' = size_m n + 1"
    using internal_InsertNodeAfter_spec [OF n(2) room at] .
  have entries': "internal_entries n' = kid_slots kts" using n'(2) by (simp add: n(3) kts)
  obtain s2 where s2: "st_put p (InternalP n') s1 = Some s2" "kept s1 s2" "contents s2 = (contents s1)(p \<mapsto> InternalP n')"
    using put_step [OF keptD(1) [OF s1(2)] pin1(2)] .
  have get: "get_internal c p s1 = Some n" using n1 pin1(2) by (simp add: get_internal_def st_get_def as_internal_def)
  have more: "GetSize n' > GetMaxSize n' \<longleftrightarrow> length kts > internal_max c"
    using n'(5) size internal_meta_simps(1) [OF n'(4)] n(6) slots_max(4) [OF c] by (auto simp: header_defs kts)
  have run: "InsertIntoParent c ?o k ?w s =
      do { s \<leftarrow> (if length kts > internal_max c then
                   do { (new_page, s) \<leftarrow> Split_internal c p s2;
                        n \<leftarrow> get_internal c new_page s;
                        k \<leftarrow> internal_KeyAt 0 n;
                        InsertIntoParent c p k new_page s }
                 else Some s2);
           st_unpin p True s }"
    unfolding InsertIntoParent.simps [of c ?o k ?w s] ho(1) Option.bind.bind_lunit
    using ho(2,3) p0 fetch_step [OF n(1)] s1(1) hw get n'(1) s2(1) more
    by (simp add: IsRootPage_def GetPageId_def GetParentPageId_def put_internal_def INVALID_PAGE_ID_def)
  have cong: "contents s2 q = contents s1 q" if "q \<noteq> p" for q using that by (simp add: s2(3))
  have "cell_at c (contents s2) (p, path_parent fs, NodeData (kid_slots kts))"
    using node_cellI [OF n'(3), of p "path_parent fs" c "contents s2"] internal_meta_simps [OF n'(4)] n(4-7) entries'
    by (simp add: s2(3))
  moreover have "on_pages c (contents s2) (set (kids_cells p kts))"
  proof -
    have "on_pages c (contents s1) (set (kids_cells p kts))" using on1 on(1-4) by (simp add: kts)
    moreover have "p \<notin> set (kids_page_ids kts)" using ne(2-5) by (simp add: kts)
    ultimately show ?thesis using on_pages_kids_cong cong by metis
  qed
  moreover have "on_pages c (contents s2) (set (path_cells p fs))"
    by (rule on_pages_path_cong [OF on1 [OF on(5)]]) (use ne(6) cong in metis)
  ultimately have "on_pages c (contents s2) (set (cells (path_parent fs) (Node p kts)) \<union> set (path_cells p fs))" by simp
  moreover have "next_at (contents s2) q x" if "next_at (contents s) q x" for q x
  proof -
    have "q \<noteq> p" using that n(1) by (auto simp: next_at_def)
    moreover have "next_at (contents s1) q x" unfolding s1(3) by (rule set_parents_next [OF that])
    ultimately show ?thesis using cong by (simp add: next_at_def)
  qed
  moreover have "contents s2 q = contents s q" if "q \<noteq> p" "q \<noteq> ?w" for q using that by (simp add: s2(3) s1(3) set_parents_def)
  ultimately show ?thesis using that [OF run kept_trans [OF s1(2) s2(2)]] n(1) by auto
qed

lemma distinct_halves:
  "distinct (p # X @ S) \<Longrightarrow> n \<notin> set (p # X @ S) \<Longrightarrow> set A \<union> set B = set X \<Longrightarrow> distinct (A @ B) \<Longrightarrow> distinct (p # A @ n # B @ S)"
  by auto

text \<open>The contract, by induction on the path.\<close>

lemma split_in_next_id:
  assumes "split_in e c fs t r s"
  shows "0 < next_id s"
proof -
  obtain nt where "cell_at c (contents s) (tree_id t, path_parent fs, nt)"
    using assms on_pages_root [of c "contents s" "path_parent fs" t] by (auto simp: split_in_def)
  then have "tree_id t < next_id s" using store_inv_less assms by (force simp: cell_at_def split_in_def)
  moreover have "0 < tree_id t" using assms tree_id_page_ids [of t] by (auto simp: split_in_def)
  ultimately show ?thesis by simp
qed

lemma InsertIntoParent_spec:
  assumes "split_in e c fs t r s" and "slots_ok c" and "path_shape Lm (internal_max c) h fs"
  shows "\<exists>s' N. InsertIntoParent c (tree_id t) k (tree_id r) s = Some s' \<and>
    tree_grown e c (split_ids fs t r) (grow_up (internal_max c) (zero_key c) (next_id s) fs t k r) N s s'"
  using assms
proof (induction fs arbitrary: t r s k h rule: side_ids.induct)
  case 1
  then show ?case using InsertIntoParent_root by force
next
  case (2 p L k0 R fs)
  note pre = "2.prems"(1) and c = "2.prems"(2)
  define kts where "kts = L @ (k0, t) # (k, r) # R"
  have sz: "length L + length R < internal_max c" using "2.prems"(3) by simp
  obtain s2 where step: "InsertIntoParent c (tree_id t) k (tree_id r) s =
      do { s \<leftarrow> (if length kts > internal_max c then
                   do { (new_page, s) \<leftarrow> Split_internal c p s2;
                        n \<leftarrow> get_internal c new_page s;
                        k \<leftarrow> internal_KeyAt 0 n;
                        InsertIntoParent c p k new_page s }
                 else Some s2);
           st_unpin p True s }"
    "kept (pinned p s) s2" "contents s p \<noteq> None"
    "on_pages c (contents s2) (set (cells (path_parent fs) (Node p kts)) \<union> set (path_cells p fs))"
    "\<And>q x. next_at (contents s) q x \<Longrightarrow> next_at (contents s2) q x"
    "\<And>q. q \<noteq> p \<Longrightarrow> q \<noteq> tree_id r \<Longrightarrow> contents s2 q = contents s q"
    by (rule InsertIntoParent_step [OF pre c sz kts_def]) blast
  obtain dp where dp: "contents s p = Some dp" using step(3) by blast
  have s: "store_inv s" "\<forall>q. next_id s \<le> q \<longrightarrow> latch s q = 0" "txn s \<noteq> None"
    "root_page_id s = tree_id (plug ((p, L, k0, R) # fs) t)" "root_recorded e c (root_page_id s) (contents s)"
    and ids: "distinct (page_ids t @ page_ids r @ side_ids ((p, L, k0, R) # fs))"
      "\<forall>q \<in> set (page_ids t @ page_ids r @ side_ids ((p, L, k0, R) # fs)). 0 < q"
    using pre unfolding split_in_def by blast+
  note n0 = split_in_next_id [OF pre]
  have idset: "split_ids ((p, L, k0, R) # fs) t r = set (page_ids (Node p kts)) \<union> set (side_ids fs)"
    by (auto simp: split_ids_def kts_def)
  have dist: "distinct (page_ids (Node p kts) @ side_ids fs)" using ids(1) by (auto simp: kts_def)
  have pos: "\<forall>q \<in> set (page_ids (Node p kts) @ side_ids fs). 0 < q" using ids(2) by (auto simp: kts_def)
  have p0: "p \<noteq> HEADER_PAGE_ID" "tree_id r \<noteq> HEADER_PAGE_ID"
  proof -
    have "tree_id r \<in> set (page_ids t @ page_ids r @ side_ids ((p, L, k0, R) # fs))" by simp
    then have "0 < tree_id r" using ids(2) by blast
    then show "p \<noteq> HEADER_PAGE_ID" "tree_id r \<noteq> HEADER_PAGE_ID" using pos by (auto simp: HEADER_PAGE_ID_def)
  qed
  have in_ids: "p \<in> split_ids ((p, L, k0, R) # fs) t r" "tree_id r \<in> split_ids ((p, L, k0, R) # fs) t r"
    by (auto simp: split_ids_def)
  have rec2: "root_recorded e c (root_page_id s2) (contents s2)" "root_page_id s2 = root_page_id s"
    using s(5) step(6) p0 keptD(5) [OF step(2)] by (simp_all add: root_recorded_def)
  have root: "root_page_id s = tree_id (plug fs (Node p kts'))" for kts'
    using s(4) tree_id_plug [of "Node p (L @ (k0, t) # R)" "Node p kts'" fs] by simp
  have pin2: "0 < pins s2 p" using keptD(2) [OF step(2)] store_inv_pins [OF s(1), of p] by simp
  show ?case
  proof (cases "length L + length R + 2 \<le> internal_max c")
    case True
    let ?T = "plug fs (Node p kts)"
    obtain s3 where s3: "st_unpin p True s2 = Some s3" "kept s s3" "contents s3 = contents s2"
      using unpin_kept [OF step(2) s(1) dp] .
    have run: "InsertIntoParent c (tree_id t) k (tree_id r) s = Some s3" using True s3(1) by (simp add: step(1) kts_def)
    have T: "grow_up (internal_max c) (zero_key c) (next_id s) ((p, L, k0, R) # fs) t k r = ?T"
      using True by (simp add: grow_up_fits kts_def)
    have "tree_grown e c (split_ids ((p, L, k0, R) # fs) t r) ?T [] s s3"
      unfolding tree_grown_def
    proof (intro conjI)
      show "grown [] s s3" by (rule kept_grown [OF s3(2)])
      show "on_pages c (contents s3) (set (cells INVALID_PAGE_ID ?T))" using step(4) by (simp only: s3(3) set_cells_plug tree_id.simps)
      show "root_page_id s3 = tree_id ?T" using keptD(5) [OF s3(2)] root by simp
      show "root_recorded e c (tree_id ?T) (contents s3)" using rec2 root by (simp add: s3(3))
      show "\<forall>q x. next_at (contents s) q x \<longrightarrow> next_at (contents s3) q x" using step(5) by (simp add: s3(3))
      show "\<forall>q. q \<notin> split_ids ((p, L, k0, R) # fs) t r \<longrightarrow> q \<noteq> HEADER_PAGE_ID \<longrightarrow> q < next_id s \<longrightarrow> contents s3 q = contents s q"
        using step(6) in_ids by (metis s3(3))
    qed
    then show ?thesis using run unfolding T by blast
  next
    case False
    define m where "m = (internal_max c + 1) div 2"
    have l: "length kts = internal_max c + 1" "m < length kts" using False sz slots_max(2) [OF c] by (simp_all add: kts_def m_def)
    let ?n = "next_id s2" and ?A = "Node p (take m kts)" and ?B = "Node (next_id s2) (drop m kts)"
    have n: "?n = next_id s" using keptD(4) [OF step(2)] by simp
    have k2: "store_inv s2" "latch s2 ?n = 0" "txn s2 \<noteq> None"
      using keptD(1,3,8) [OF step(2)] s(2,3) n by simp_all
    have on2: "on_pages c (contents s2) (set (cells (path_parent fs) (Node p kts)))" "on_pages c (contents s2) (set (path_cells p fs))"
      using step(4) by simp_all
    have dn: "distinct (page_ids (Node p kts))" using dist by (simp only: distinct_append)
    obtain s3 where s3: "Split_internal c p s2 = Some (?n, s3)" "grown [?n] s2 s3" "next_id s3 = ?n + 1"
      "root_page_id s3 = root_page_id s2" "on_pages c (contents s3) (set (cells (path_parent fs) ?A))"
      "on_pages c (contents s3) (set (cells (path_parent fs) ?B))"
      "\<And>q. q \<notin> set (page_ids (Node p kts)) \<Longrightarrow> q \<noteq> ?n \<Longrightarrow> contents s3 q = contents s2 q"
      "\<And>q x. next_at (contents s2) q x \<Longrightarrow> next_at (contents s3) q x"
      by (rule Split_internal_spec [OF k2 c pin2 on2(1) dn l(1) m_def]) blast
    have side_old: "contents s2 q \<noteq> None" if "q \<in> set (side_ids fs)" for q
    proof -
      have "q \<in> fst ` set (path_cells p fs)" using that unfolding fst_path_cells .
      then show ?thesis using on2(2) unfolding on_pages_def cell_at_def by fastforce
    qed
    have n_new: "?n \<notin> set (page_ids (Node p kts))" "?n \<notin> set (side_ids fs)"
      using on_pages_ids [OF on2(1)] side_old store_inv_fresh [OF k2(1) order_refl] by blast+
    have path3: "on_pages c (contents s3) (set (path_cells p fs))"
    proof (rule on_pages_path_cong [OF on2(2)], rule ballI)
      fix q assume "q \<in> set (side_ids fs)"
      then show "contents s3 q = contents s2 q" using s3(7) n_new(2) dist by (metis disjoint_iff distinct_append)
    qed
    have ids3: "page_ids ?A @ page_ids ?B @ side_ids fs = p # kids_page_ids (take m kts) @ ?n # kids_page_ids (drop m kts) @ side_ids fs"
      by simp
    have halves: "set (kids_page_ids (take m kts)) \<union> set (kids_page_ids (drop m kts)) = set (kids_page_ids kts)"
      "distinct (kids_page_ids (take m kts) @ kids_page_ids (drop m kts))"
      using kids_split [of "\<lambda>kt. page_ids (snd kt)" m kts] dn by (metis set_append, simp del: concat_append)
    have pre3: "split_in e c fs ?A ?B s3"
      unfolding split_in_def
    proof (intro conjI)
      show "store_inv s3" "txn s3 \<noteq> None" using grownD(1,9) [OF s3(2)] k2(3) by simp_all
      show "\<forall>q. next_id s3 \<le> q \<longrightarrow> latch s3 q = 0"
        using grownD(6) [OF s3(2)] s(2) keptD(3) [OF step(2)] n s3(3) by simp
      show "0 < pins s3 (tree_id ?A)" "0 < pins s3 (tree_id ?B)" using grownD(5) [OF s3(2)] pin2 by simp_all
      show "on_pages c (contents s3) (set (cells (path_parent fs) ?A) \<union> set (cells (path_parent fs) ?B) \<union> set (path_cells (tree_id ?A) fs))"
        using s3(5,6) path3 by simp
      show "distinct (page_ids ?A @ page_ids ?B @ side_ids fs)"
        unfolding ids3
        by (rule distinct_halves [OF _ _ halves]) (use dist n_new in \<open>simp_all only: page_ids.simps append_Cons set_append set_simps\<close>, blast)
      show "\<forall>q \<in> set (page_ids ?A @ page_ids ?B @ side_ids fs). 0 < q"
        unfolding ids3 using pos halves(1) n0 n by auto
      show "root_page_id s3 = tree_id (plug fs ?A)" using s3(4) rec2(2) root by simp
      show "root_recorded e c (root_page_id s3) (contents s3)"
      proof -
        have "\<forall>q \<in> set (page_ids (Node p kts)). 0 < q" using pos unfolding set_append ball_Un by blast
        then have "0 \<notin> set (page_ids (Node p kts))" by blast
        then have "contents s3 HEADER_PAGE_ID = contents s2 HEADER_PAGE_ID" using s3(7) [of HEADER_PAGE_ID] n0 n
          by (simp only: HEADER_PAGE_ID_def) simp
        then show ?thesis using rec2(1) s3(4) by (simp only: root_recorded_def)
      qed
    qed
    have key: "\<exists>x. get_internal c ?n s3 = Some x \<and> internal_KeyAt 0 x = Some (fst (kts ! m))"
    proof -
      have "cell_at c (contents s3) (?n, path_parent fs, NodeData (kid_slots (drop m kts)))" using s3(6) by simp
      then obtain x where x: "contents s3 ?n = Some (InternalP x)" "wf_internal x" "internal_entries x = kid_slots (drop m kts)"
        by (rule node_cell)
      have "get_internal c ?n s3 = Some x"
        using x(1) grownD(5) [OF s3(2), of ?n] by (simp add: get_internal_def st_get_def as_internal_def)
      moreover have "0 < size_m x" using length_internal_entries [OF x(2)] x(3) l(2) by simp
      moreover have "internal_array x ! 0 = internal_entries x ! 0" using internal_entries_nth [OF x(2), of 0] \<open>0 < size_m x\<close> by simp
      ultimately show ?thesis using x(3) l(2) by (simp add: internal_KeyAt_def header_defs kid_slots_def)
    qed
    have shape: "path_shape Lm (internal_max c) (Suc h) fs" using "2.prems"(3) by simp
    let ?T = "grow_up (internal_max c) (zero_key c) (next_id s3) fs ?A (fst (kts ! m)) ?B"
    obtain s4 N where s4: "InsertIntoParent c (tree_id ?A) (fst (kts ! m)) (tree_id ?B) s3 = Some s4"
      "tree_grown e c (split_ids fs ?A ?B) ?T N s3 s4"
      using "2.IH" [OF pre3 c shape] by blast
    have g: "grown ([?n] @ N) (pinned p s) s4"
      using kept_grown_trans [OF step(2) grown_trans [OF s3(2)]] s4(2) by (simp add: tree_grown_def)
    obtain s5 where s5: "st_unpin p True s4 = Some s5" "grown ([?n] @ N) s s5" "contents s5 = contents s4"
      "next_id s5 = next_id s4" "root_page_id s5 = root_page_id s4"
      using unpin_step [OF g s(1) dp] .
    have run: "InsertIntoParent c (tree_id t) k (tree_id r) s = Some s5"
      using key s4(1) s5(1) l(1) s3(1) by (auto simp: step(1))
    have "length kts > internal_max c" using l(1) by simp
    then have T: "grow_up (internal_max c) (zero_key c) (next_id s) ((p, L, k0, R) # fs) t k r = ?T"
      by (subst grow_up_split [OF _ kts_def m_def]) (simp_all add: s3(3) n)
    have "tree_grown e c (split_ids ((p, L, k0, R) # fs) t r) ?T ([?n] @ N) s s5"
      unfolding tree_grown_def
    proof (intro conjI)
      show "grown ([?n] @ N) s s5" by (rule s5(2))
      show "on_pages c (contents s5) (set (cells INVALID_PAGE_ID ?T))" "root_page_id s5 = tree_id ?T"
        "root_recorded e c (tree_id ?T) (contents s5)"
        using s4(2) by (simp_all add: tree_grown_def s5(3,5))
      show "\<forall>q x. next_at (contents s) q x \<longrightarrow> next_at (contents s5) q x"
        using s4(2) step(5) s3(8) by (simp add: tree_grown_def s5(3))
      show "\<forall>q. q \<notin> split_ids ((p, L, k0, R) # fs) t r \<longrightarrow> q \<noteq> HEADER_PAGE_ID \<longrightarrow> q < next_id s \<longrightarrow> contents s5 q = contents s q"
      proof (intro allI impI)
        fix q assume q: "q \<notin> split_ids ((p, L, k0, R) # fs) t r" "q \<noteq> HEADER_PAGE_ID" "q < next_id s"
        have "q \<noteq> ?n" using q(3) n by simp
        moreover have "q \<notin> set (page_ids (Node p kts))" "q \<notin> set (side_ids fs)" using q(1) unfolding idset by blast+
        moreover have "q \<notin> split_ids fs ?A ?B"
          unfolding split_ids_def ids3 using calculation halves(1) by auto
        moreover have "q < next_id s3" using q(3) s3(3) n by simp
        ultimately have "contents s4 q = contents s3 q" "contents s3 q = contents s2 q"
          using s4(2) q(2) s3(7) by (simp_all add: tree_grown_def)
        moreover have "contents s2 q = contents s q" using step(6) q(1) in_ids by metis
        ultimately show "contents s5 q = contents s q" by (simp add: s5(3))
      qed
    qed
    then show ?thesis using run unfolding T by blast
  qed
qed

end
