(* ===== verification/BTreeShrink.thy ===== *)
theory BTreeShrink imports BTreeGrow begin

text \<open>
  Deletion on the trees: a node that lost an entry is merged with a neighbour or takes an entry from it,
  and the node above loses a child in turn.
\<close>

section \<open>Merging and sharing\<close>

fun kids_of :: "('k, 'v) tree \<Rightarrow> ('k, 'v) kids" where
  "kids_of (Leaf p es) = []"
| "kids_of (Node p kts) = kts"

fun merge_nodes :: "('k, 'v) tree \<Rightarrow> ('k, 'v) tree \<Rightarrow> ('k, 'v) tree" where
  "merge_nodes (Leaf p es) b = Leaf p (es @ entries b)"
| "merge_nodes (Node p kts) b = Node p (kts @ kids_of b)"

text \<open>A node is cut before slot \<open>m\<close>; the upper part goes to page \<open>q\<close>.\<close>

fun cut_node :: "nat \<Rightarrow> page_id \<Rightarrow> ('k, 'v) tree \<Rightarrow> ('k, 'v) tree \<times> 'k \<times> ('k, 'v) tree" where
  "cut_node m q (Leaf p es) = (Leaf p (take m es), fst (es ! m), Leaf q (drop m es))"
| "cut_node m q (Node p kts) = (Node p (take m kts), fst (kts ! m), Node q (drop m kts))"

lemma merge_simps:
  assumes "is_leaf a = is_leaf b"
  shows "entries (merge_nodes a b) = entries a @ entries b" and "node_size (merge_nodes a b) = node_size a + node_size b"
    and "tree_id (merge_nodes a b) = tree_id a" and "is_leaf (merge_nodes a b) = is_leaf a"
  using assms by (cases a; cases b; simp)+

lemma merge_leaf_ids: "\<not> is_leaf a \<Longrightarrow> \<not> is_leaf b \<Longrightarrow> leaf_ids (merge_nodes a b) = leaf_ids a @ leaf_ids b"
  by (cases a; cases b) simp_all

lemma merge_page_ids:
  "is_leaf a = is_leaf b \<Longrightarrow> add_mset (tree_id b) (mset (page_ids (merge_nodes a b))) = mset (page_ids a) + mset (page_ids b)"
  by (cases a; cases b) simp_all

lemma cut_simps:
  assumes "cut_node m q t = (a, k, b)"
  shows "entries a @ entries b = entries t" and "is_leaf a = is_leaf t" and "is_leaf b = is_leaf t" and "tree_id a = tree_id t"
    and "tree_id b = q" and "m \<le> node_size t \<Longrightarrow> node_size a = m" and "node_size b = node_size t - m"
    and "mset (page_ids a) + mset (page_ids b) = add_mset q (mset (page_ids t))"
    and "\<not> is_leaf t \<Longrightarrow> leaf_ids a @ leaf_ids b = leaf_ids t"
proof -
  show "entries a @ entries b = entries t" "is_leaf a = is_leaf t" "is_leaf b = is_leaf t" "tree_id a = tree_id t"
    "tree_id b = q" "m \<le> node_size t \<Longrightarrow> node_size a = m" "node_size b = node_size t - m"
    "\<not> is_leaf t \<Longrightarrow> leaf_ids a @ leaf_ids b = leaf_ids t"
    using assms by (cases t; auto simp: kids_split)+
  show "mset (page_ids a) + mset (page_ids b) = add_mset q (mset (page_ids t))"
  proof (cases t)
    case (Node p kts)
    then show ?thesis using assms arg_cong [OF kids_split [of "\<lambda>kt. page_ids (snd kt)" m kts], of mset] by auto
  qed (use assms in auto)
qed

section \<open>Shape\<close>

text \<open>A node of height \<open>h\<close> of any size, with children of the right shape.\<close>

definition loose :: "nat \<Rightarrow> nat \<Rightarrow> nat \<Rightarrow> ('k, 'v) tree \<Rightarrow> bool" where
  "loose Lm Im h t \<longleftrightarrow> (is_leaf t \<longleftrightarrow> h = 0) \<and> (\<forall>kt \<in> set (kids_of t). shape Lm Im False (h - 1) (snd kt))"

lemma shape_loose:
  "shape Lm Im root h t \<longleftrightarrow> loose Lm Im h t \<and>
     (if root then (if is_leaf t then 1 else 2) else cap Lm Im t div 2) \<le> node_size t \<and> node_size t \<le> cap Lm Im t"
  by (cases t) (auto simp: loose_def cap_def)

lemma loose_merge: "loose Lm Im h a \<Longrightarrow> loose Lm Im h b \<Longrightarrow> loose Lm Im h (merge_nodes a b)"
  by (cases a; cases b) (auto simp: loose_def)

lemma loose_cut: "loose Lm Im h t \<Longrightarrow> cut_node m q t = (a, k, b) \<Longrightarrow> loose Lm Im h a \<and> loose Lm Im h b"
  by (cases t) (fastforce simp: loose_def dest: in_set_takeD in_set_dropD)+

lemma loose_same: "loose Lm Im h a \<Longrightarrow> loose Lm Im h b \<Longrightarrow> is_leaf a = is_leaf b"
  by (simp add: loose_def)

section \<open>Order\<close>

lemma seps_ok_merge:
  "seps_ok cmp K (xs @ (k, es) # (k', es') # ys) \<Longrightarrow> seps_ok cmp K (xs @ (k, es @ es') # ys)"
  by (auto simp: seps_ok_append seps_ok_Cons sep_ok_def)

lemma seps_ok_pair: "seps_ok cmp K (xs @ (k, es) # (k', es') # ys) \<Longrightarrow> sep_ok cmp K (k, es) (k', es') \<and> es \<noteq> [] \<and> es' \<noteq> []"
  by (auto simp: seps_ok_append seps_ok_Cons)

lemma search_ok_merge:
  assumes "search_ok cmp K a" and "search_ok cmp K b" and "sep_ok cmp K (ka, entries a) (kb, entries b)"
    and "heads_ok kb b" and "entries a \<noteq> []" and "entries b \<noteq> []" and "is_leaf a = is_leaf b"
  shows "search_ok cmp K (merge_nodes a b)"
proof (cases a)
  case (Leaf p es)
  then show ?thesis by simp
next
  case (Node p kts)
  obtain q kts' where b: "b = Node q kts'" using assms(7) Node by (cases b) auto
  have ne: "kts \<noteq> []" "kts' \<noteq> []" using assms(5,6) by (auto simp: Node b)
  have s: "seps_ok cmp K (map kid_view kts)" "seps_ok cmp K (map kid_view kts')" using assms(1,2) by (simp_all add: Node b)
  have e: "entries (snd (last kts)) \<noteq> []" "entries (snd (hd kts')) \<noteq> []"
    using seps_ok_nonempty [OF s(1)] seps_ok_nonempty [OF s(2)] ne by simp_all
  have "sep_ok cmp K (kid_view (last kts)) (kid_view (hd kts'))"
    using assms(3,4) ne kids_entries_last [OF ne(1) e(1)] kids_entries_hd [OF ne(2) e(2)] by (simp add: sep_ok_def Node b)
  then show ?thesis using assms(1,2) ne by (simp add: Node b seps_ok_append last_map hd_map ball_Un)
qed

lemma search_ok_cut:
  assumes "search_ok cmp K t" and "\<not> is_leaf t" and "0 < m" and "m < node_size t" and "cut_node m q t = (a, k, b)"
  shows "search_ok cmp K a" and "search_ok cmp K b" and "sep_ok cmp K (k0, entries a) (k, entries b)"
    and "entries a \<noteq> []" and "entries b \<noteq> []"
proof -
  obtain p kts where t: "t = Node p kts" using assms(2) by (cases t) auto
  have s: "seps_ok cmp K (map kid_view kts)" and m: "m < length kts" using assms(1,4) by (simp_all add: t)
  note h = seps_ok_halves [OF s assms(3) m]
  have eq: "a = Node p (take m kts)" "k = fst (kts ! m)" "b = Node q (drop m kts)" using assms(5) by (simp_all add: t)
  have "take m kts \<noteq> []" "drop m kts \<noteq> []" using assms(3) m by auto
  then show "search_ok cmp K a" "search_ok cmp K b" "sep_ok cmp K (k0, entries a) (k, entries b)" "entries a \<noteq> []" "entries b \<noteq> []"
    using h kids_entries_nonempty [OF h(1)] kids_entries_nonempty [OF h(2)] assms(1) in_set_takeD [of _ m kts] in_set_dropD [of _ m kts]
    by (auto simp: eq t)
qed

lemma heads_ok_merge: "heads_ok ka a \<Longrightarrow> heads_ok kb b \<Longrightarrow> 0 < node_size a \<Longrightarrow> heads_ok ka (merge_nodes a b)"
  by (cases a; cases b) (auto simp: hd_append)

lemma heads_ok_cut:
  "heads_ok ka t \<Longrightarrow> cut_node m q t = (a, k, b) \<Longrightarrow> 0 < m \<Longrightarrow> m < node_size t \<Longrightarrow> heads_ok ka a \<and> heads_ok k b"
  by (cases t) (fastforce simp: hd_drop_conv_nth dest: in_set_takeD in_set_dropD)+

context key_order begin

lemma leaf_cut:
  assumes "key_sorted cmp K es" and "0 < m" and "m < length es"
  shows "sep_ok cmp K (k0, take m es) (fst (es ! m), drop m es)"
proof -
  have ne: "take m es \<noteq> []" using assms(2,3) by auto
  have k: "fst (es ! m) \<in> K" using key_sorted_nth_in [OF assms(1,3)] .
  have "cmp (fst (es ! (m - 1))) (fst (es ! m)) < 0" using key_sorted_nth [OF assms(1), of "m - 1" m] assms(2,3) by simp
  moreover have "last (take m es) = es ! (m - 1)" using assms(2,3) by (subst last_conv_nth [OF ne]) simp
  ultimately show ?thesis using k assms(3) cmp_refl [OF k] by (simp add: sep_ok_def hd_drop_conv_nth)
qed

lemma cut_order:
  assumes "search_ok cmp K t" and "key_sorted cmp K (entries t)" and "0 < m" and "m < node_size t" and "cut_node m q t = (a, k, b)"
  shows "search_ok cmp K a \<and> search_ok cmp K b \<and> sep_ok cmp K (k0, entries a) (k, entries b) \<and> entries a \<noteq> [] \<and> entries b \<noteq> []"
proof (cases t)
  case (Leaf p es)
  then show ?thesis using leaf_cut [of es m k0] assms by auto
next
  case (Node p kts)
  then have "\<not> is_leaf t" by simp
  from search_ok_cut [OF assms(1) this assms(3-5)] show ?thesis by blast
qed

end

section \<open>The way up\<close>

text \<open>The node in the hole with its left neighbour, or with the right one when it is the first child.\<close>

definition pair_at :: "('k, 'v) kids \<Rightarrow> 'k \<Rightarrow> ('k, 'v) tree \<Rightarrow> ('k, 'v) kids \<Rightarrow>
    ('k, 'v) kids \<times> 'k \<times> ('k, 'v) tree \<times> 'k \<times> ('k, 'v) tree \<times> ('k, 'v) kids" where
  "pair_at L k t R = (if L = [] then ([], k, t, fst (hd R), snd (hd R), tl R)
     else (butlast L, fst (last L), snd (last L), k, t, R))"

lemma pair_at_first: "pair_at [] k t ((kb, b) # B) = ([], k, t, kb, b, B)"
  and pair_at_later: "pair_at (A @ [(ka, a)]) k t R = (A, ka, a, k, t, R)"
  by (simp_all add: pair_at_def)

text \<open>The node in the hole lost an entry.  The result is the tree, if one is left, with the pages that went.\<close>

fun shrink_up :: "nat \<Rightarrow> nat \<Rightarrow> ('k, 'v) tree_frame list \<Rightarrow> ('k, 'v) tree \<Rightarrow> ('k, 'v) tree option \<times> page_id list" where
  "shrink_up Lm Im [] t = (if is_leaf t \<and> node_size t = 0 then (None, [tree_id t])
     else if \<not> is_leaf t \<and> node_size t = 1 then (Some (snd (hd (kids_of t))), [tree_id t]) else (Some t, []))"
| "shrink_up Lm Im ((p, L, k, R) # fs) t =
     (let (A, ka, a, kb, b, B) = pair_at L k t R in
      if node_size a + node_size b \<le> cap Lm Im t then
        let kts = A @ (ka, merge_nodes a b) # B in
        if length kts \<le> (if fs = [] then 2 else Im div 2)
        then let (T, D) = shrink_up Lm Im fs (Node p kts) in (T, D @ [tree_id b])
        else (Some (plug fs (Node p kts)), [tree_id b])
      else
        let (a', k', b') = cut_node (if L = [] then Suc (node_size a) else node_size a - 1) (tree_id b) (merge_nodes a b) in
        (Some (plug fs (Node p (A @ (ka, a') # (k', b') # B))), []))"

declare shrink_up.simps(2) [simp del]

text \<open>What a frame with at least two children looks like around the hole.\<close>

lemma frame_pair:
  assumes "L \<noteq> [] \<or> R \<noteq> []"
  obtains A ka a kb b B where "pair_at L k t R = (A, ka, a, kb, b, B)" "L @ (k, t) # R = A @ (ka, a) # (kb, b) # B"
    "L = [] \<longrightarrow> a = t \<and> A = []" "L \<noteq> [] \<longrightarrow> b = t \<and> L = A @ [(ka, a)]"
proof (cases "L = []")
  case True
  then obtain x B where "R = x # B" using assms by (cases R) auto
  then show ?thesis using that [of "[]" k t "fst x" "snd x" B] True by (simp add: pair_at_def)
next
  case False
  then obtain A x where "L = A @ [x]" by (cases L rule: rev_cases) auto
  then show ?thesis using that [of A "fst x" "snd x" k t R] False by (simp add: pair_at_def)
qed

section \<open>Order of the children\<close>

definition kids_fit :: "('k \<Rightarrow> 'k \<Rightarrow> int) \<Rightarrow> 'k set \<Rightarrow> ('k, 'v) kids \<Rightarrow> bool" where
  "kids_fit cmp K kts \<longleftrightarrow> seps_ok cmp K (map kid_view kts) \<and> (\<forall>kt \<in> set kts. search_ok cmp K (snd kt) \<and> heads_ok (fst kt) (snd kt))"

lemma kids_fit_search: "kids_fit cmp K kts \<Longrightarrow> search_ok cmp K (Node p kts)"
  by (simp add: kids_fit_def)

lemma kids_fit_heads: "kids_fit cmp K kts \<Longrightarrow> fst (hd kts) = k \<Longrightarrow> heads_ok k (Node p kts)"
  by (simp add: kids_fit_def)

lemma kids_fit_frame:
  "search_ok cmp K t \<Longrightarrow> path_ok cmp K ((p, L, k, R) # fs) (entries t) \<Longrightarrow> heads_ok k t \<Longrightarrow> path_heads z ((p, L, k, R) # fs) \<Longrightarrow>
   kids_fit cmp K (L @ (k, t) # R)"
  by (auto simp: kids_fit_def kid_view_def)

lemma kids_fit_merge:
  assumes "kids_fit cmp K (A @ (ka, a) # (kb, b) # B)" and "is_leaf a = is_leaf b" and "0 < node_size a"
  shows "kids_fit cmp K (A @ (ka, merge_nodes a b) # B)"
proof -
  have s: "seps_ok cmp K (map kid_view A @ (ka, entries a) # (kb, entries b) # map kid_view B)"
    using assms(1) by (simp add: kids_fit_def kid_view_def)
  note p = seps_ok_pair [OF s]
  have "search_ok cmp K (merge_nodes a b)"
    using assms(1,2) p by (intro search_ok_merge) (auto simp: kids_fit_def)
  moreover have "heads_ok ka (merge_nodes a b)" using assms(1,3) by (intro heads_ok_merge) (auto simp: kids_fit_def)
  ultimately show ?thesis
    using assms(1) seps_ok_merge [OF s] by (simp add: kids_fit_def kid_view_def merge_simps(1) [OF assms(2)])
qed

context key_order begin

lemma kids_fit_cut:
  assumes "kids_fit cmp K (A @ (ka, t) # B)" and "key_sorted cmp K (entries t)" and "0 < m" and "m < node_size t"
    and "cut_node m q t = (a, k, b)"
  shows "kids_fit cmp K (A @ (ka, a) # (k, b) # B)"
proof -
  have t: "search_ok cmp K t" "heads_ok ka t" using assms(1) by (simp_all add: kids_fit_def)
  note c = cut_order [OF t(1) assms(2-5), of ka] and h = heads_ok_cut [OF t(2) assms(5,3,4)]
  have "seps_ok cmp K (map kid_view A @ (ka, entries a @ entries b) # map kid_view B)"
    using assms(1) by (simp add: kids_fit_def kid_view_def cut_simps(1) [OF assms(5)])
  then have "seps_ok cmp K (map kid_view A @ (ka, entries a) # (k, entries b) # map kid_view B)"
    using c by (intro seps_ok_split) simp_all
  then show ?thesis using assms(1) c h by (simp add: kids_fit_def kid_view_def)
qed

end

section \<open>The tree after a deletion\<close>

text \<open>What the way up needs: the order of everything around the hole, and a node of the right height that lacks at
  most one entry.\<close>

definition hole_fit :: "('k \<Rightarrow> 'k \<Rightarrow> int) \<Rightarrow> 'k set \<Rightarrow> 'k \<Rightarrow> ('k, 'v) tree_frame list \<Rightarrow> ('k, 'v) tree \<Rightarrow> bool" where
  "hole_fit cmp K z fs t \<longleftrightarrow> search_ok cmp K t \<and> path_ok cmp K fs (entries t) \<and> heads_ok (path_head z fs) t \<and> path_heads z fs \<and>
     key_sorted cmp K (before_hole kids_entries fs @ entries t @ behind_hole kids_entries fs)"

definition hole_size :: "nat \<Rightarrow> nat \<Rightarrow> nat \<Rightarrow> ('k, 'v) tree_frame list \<Rightarrow> ('k, 'v) tree \<Rightarrow> bool" where
  "hole_size Lm Im h fs t \<longleftrightarrow> path_shape Lm Im h fs \<and> loose Lm Im h t \<and> node_size t \<le> cap Lm Im t \<and>
     (if fs = [] then \<not> is_leaf t \<longrightarrow> 0 < node_size t else cap Lm Im t div 2 \<le> Suc (node_size t) \<and> node_size t \<le> cap Lm Im t div 2)"

definition tree_fit :: "('k \<Rightarrow> 'k \<Rightarrow> int) \<Rightarrow> 'k set \<Rightarrow> nat \<Rightarrow> nat \<Rightarrow> 'k \<Rightarrow> ('k \<times> 'v) list \<Rightarrow> ('k, 'v) tree option \<Rightarrow> bool" where
  "tree_fit cmp K Lm Im z es T \<longleftrightarrow> (case T of None \<Rightarrow> es = []
     | Some t \<Rightarrow> entries t = es \<and> search_ok cmp K t \<and> heads_ok z t \<and> (\<exists>h. shape Lm Im True h t))"

lemma tree_fit_plug:
  assumes "kids_fit cmp K kts" and "fst (hd kts) = path_head z fs" and "path_ok cmp K fs (kids_entries kts)" and "path_heads z fs"
    and "path_shape Lm Im (Suc h) fs" and "\<forall>kt \<in> set kts. shape Lm Im False h (snd kt)"
    and "(if fs = [] then 2 else Im div 2) \<le> length kts" and "length kts \<le> Im"
  shows "tree_fit cmp K Lm Im z (before_hole kids_entries fs @ kids_entries kts @ behind_hole kids_entries fs)
    (Some (plug fs (Node p kts)))"
proof -
  have "shape Lm Im True (Suc h + length fs) (plug fs (Node p kts))"
    unfolding shape_plug using assms(5-8) by simp
  moreover have "search_ok cmp K (plug fs (Node p kts))"
    unfolding search_ok_plug using kids_fit_search [OF assms(1)] assms(3) by simp
  moreover have "heads_ok z (plug fs (Node p kts))"
    unfolding heads_ok_plug using kids_fit_heads [OF assms(1,2)] assms(4) by simp
  ultimately show ?thesis by (auto simp: tree_fit_def entries_plug)
qed

text \<open>The sizes of the two nodes: one lacks an entry, the other one has its half.\<close>

lemma pair_sizes:
  assumes "hole_size Lm Im h ((p, L, k, R) # fs) t" and "L @ (k, t) # R = A @ (ka, a) # (kb, b) # B"
    and "L = [] \<longrightarrow> a = t \<and> A = []" and "L \<noteq> [] \<longrightarrow> b = t \<and> L = A @ [(ka, a)]" and "4 \<le> Lm" and "4 \<le> Im"
  shows "loose Lm Im h a" and "loose Lm Im h b" and "cap Lm Im a = cap Lm Im t" and "cap Lm Im b = cap Lm Im t" and "4 \<le> cap Lm Im t"
    and "0 < node_size a" and "0 < node_size b" and "cap Lm Im t div 2 \<le> node_size a + node_size b"
    and "\<forall>kt \<in> set A \<union> set B. shape Lm Im False h (snd kt)"
    and "cap Lm Im t < node_size a + node_size b \<Longrightarrow> m = (if L = [] then Suc (node_size a) else node_size a - 1) \<Longrightarrow>
      0 < m \<and> m < node_size a + node_size b \<and> cap Lm Im t div 2 \<le> m \<and> m \<le> cap Lm Im t \<and>
      cap Lm Im t div 2 \<le> node_size a + node_size b - m \<and> node_size a + node_size b - m \<le> cap Lm Im t"
proof -
  define sib where "sib = (if L = [] then b else a)"
  have t: "loose Lm Im h t" "cap Lm Im t div 2 \<le> Suc (node_size t)" "node_size t \<le> cap Lm Im t div 2" "\<forall>kt \<in> set (L @ R). shape Lm Im False h (snd kt)"
    using assms(1) by (simp_all add: hole_size_def)
  have rest: "set A \<union> set B \<subseteq> set (L @ R) \<and> (\<exists>k'. (k', sib) \<in> set (L @ R))"
  proof (cases "L = []")
    case True
    then show ?thesis using assms(2,3) by (auto simp: sib_def)
  next
    case False
    then have "L = A @ [(ka, a)] \<and> (k, t) # R = (kb, b) # B" using assms(2,4) by simp
    then show ?thesis using False by (auto simp: sib_def)
  qed
  then show "\<forall>kt \<in> set A \<union> set B. shape Lm Im False h (snd kt)" using t(4) by blast
  have "shape Lm Im False h sib" using rest t(4) by force
  then have sib: "loose Lm Im h sib" "cap Lm Im sib div 2 \<le> node_size sib" "node_size sib \<le> cap Lm Im sib"
    by (auto simp: shape_loose)
  have same: "cap Lm Im sib = cap Lm Im t" using loose_same [OF sib(1) t(1)] by (simp add: cap_def)
  have ab: "a = (if L = [] then t else sib)" "b = (if L = [] then sib else t)" using assms(3,4) by (auto simp: sib_def)
  show c4: "4 \<le> cap Lm Im t" using assms(5,6) by (simp add: cap_def)
  show "loose Lm Im h a" "loose Lm Im h b" "cap Lm Im a = cap Lm Im t" "cap Lm Im b = cap Lm Im t"
    using t(1) sib(1) same by (simp_all add: ab)
  show "0 < node_size a" "0 < node_size b" "cap Lm Im t div 2 \<le> node_size a + node_size b"
    using t(2) sib(2) same c4 by (auto simp: ab)
  show "cap Lm Im t < node_size a + node_size b \<Longrightarrow> m = (if L = [] then Suc (node_size a) else node_size a - 1) \<Longrightarrow>
      0 < m \<and> m < node_size a + node_size b \<and> cap Lm Im t div 2 \<le> m \<and> m \<le> cap Lm Im t \<and>
      cap Lm Im t div 2 \<le> node_size a + node_size b - m \<and> node_size a + node_size b - m \<le> cap Lm Im t"
    using t(2,3) sib(2,3) same c4 by (auto simp: ab)
qed

lemma merged_parent:
  assumes "hole_size Lm Im h ((p, L, k, R) # fs) t" and pair: "L @ (k, t) # R = A @ (ka, a) # (kb, b) # B"
    "L = [] \<longrightarrow> a = t \<and> A = []" "L \<noteq> [] \<longrightarrow> b = t \<and> L = A @ [(ka, a)]" and Lm: "4 \<le> Lm" "4 \<le> Im"
    and fits: "node_size a + node_size b \<le> cap Lm Im t"
  shows "\<forall>kt \<in> set (A @ (ka, merge_nodes a b) # B). shape Lm Im False h (snd kt)"
    and "length (A @ (ka, merge_nodes a b) # B) \<le> (if fs = [] then 2 else Im div 2) \<Longrightarrow>
      hole_size Lm Im (Suc h) fs (Node p (A @ (ka, merge_nodes a b) # B))"
proof -
  note sz = pair_sizes [OF assms(1) pair Lm]
  note M = merge_simps [OF loose_same [OF sz(1,2)]]
  have len: "length L + length R = Suc (length A + length B)" using arg_cong [OF pair(1), of length] by simp
  have "shape Lm Im False h (merge_nodes a b)"
    using loose_merge [OF sz(1,2)] M(2,4) sz(3,8) fits by (simp add: shape_loose cap_def)
  then show kids: "\<forall>kt \<in> set (A @ (ka, merge_nodes a b) # B). shape Lm Im False h (snd kt)" using sz(9) by auto
  assume small: "length (A @ (ka, merge_nodes a b) # B) \<le> (if fs = [] then 2 else Im div 2)"
  have "path_shape Lm Im (Suc h) fs" "(if fs = [] then 2 else Im div 2) \<le> Suc (length L + length R)"
    "Suc (length L + length R) \<le> Im" using assms(1) by (simp_all add: hole_size_def)
  then show "hole_size Lm Im (Suc h) fs (Node p (A @ (ka, merge_nodes a b) # B))"
    using len small kids by (auto simp: hole_size_def loose_def cap_def)
qed

lemma frame_has_pair: "hole_size Lm Im h ((p, L, k, R) # fs) t \<Longrightarrow> 4 \<le> Im \<Longrightarrow> L \<noteq> [] \<or> R \<noteq> []"
  by (auto simp: hole_size_def split: if_splits)

text \<open>Which pages the tree keeps, and its leaves.\<close>

definition opt_page_ids :: "('k, 'v) tree option \<Rightarrow> page_id list" where
  "opt_page_ids T = (case T of None \<Rightarrow> [] | Some t \<Rightarrow> page_ids t)"

lemma opt_page_ids_simps [simp]: "opt_page_ids None = []" "opt_page_ids (Some t) = page_ids t"
  by (simp_all add: opt_page_ids_def)

lemma shrink_up_page_ids:
  assumes "hole_size Lm Im h fs t" and Lm: "4 \<le> Lm" "4 \<le> Im"
  shows "mset (opt_page_ids (fst (shrink_up Lm Im fs t))) + mset (snd (shrink_up Lm Im fs t)) = mset (page_ids t) + mset (side_ids fs)"
  using assms(1)
proof (induction fs arbitrary: t h)
  case Nil
  show ?case
  proof (cases t)
    case (Node p kts)
    then show ?thesis using Nil by (cases kts) (auto simp: hole_size_def)
  qed simp
next
  case (Cons f fs)
  obtain p L k R where f: "f = (p, L, k, R)" by (cases f)
  note size = Cons.prems [unfolded f]
  obtain A ka a kb b B where pair: "pair_at L k t R = (A, ka, a, kb, b, B)" "L @ (k, t) # R = A @ (ka, a) # (kb, b) # B"
    "L = [] \<longrightarrow> a = t \<and> A = []" "L \<noteq> [] \<longrightarrow> b = t \<and> L = A @ [(ka, a)]"
    by (rule frame_pair [OF frame_has_pair [OF size Lm(2)]])
  note sz = pair_sizes [OF size pair(2-4) Lm]
  note P = merge_page_ids [OF loose_same [OF sz(1,2)]]
  have sides: "mset (page_ids t) + mset (side_ids (f # fs)) = add_mset p (mset (kids_page_ids (A @ (ka, a) # (kb, b) # B)) + mset (side_ids fs))"
    unfolding pair(2) [symmetric] by (simp add: f)
  show ?case
  proof (cases "node_size a + node_size b \<le> cap Lm Im t")
    case True
    let ?kts = "A @ (ka, merge_nodes a b) # B"
    have ids: "add_mset (tree_id b) (mset (page_ids (Node p ?kts))) = add_mset p (mset (kids_page_ids (A @ (ka, a) # (kb, b) # B)))"
      using P by (simp add: add_mset_commute [of "tree_id b" p] add_ac)
    show ?thesis
    proof (cases "length ?kts \<le> (if fs = [] then 2 else Im div 2)")
      case small: True
      from Cons.IH [OF merged_parent(2) [OF size pair(2-4) Lm True small]]
      show ?thesis unfolding sides using True small ids
        by (simp add: f shrink_up.simps(2) pair(1) Let_def split_beta del: page_ids.simps)
    next
      case False
      then show ?thesis unfolding sides using True ids
        by (simp add: f shrink_up.simps(2) pair(1) Let_def mset_page_ids_plug del: page_ids.simps)
    qed
  next
    case False
    define m where "m = (if L = [] then Suc (node_size a) else node_size a - 1)"
    obtain a' k' b' where cut: "cut_node m (tree_id b) (merge_nodes a b) = (a', k', b')" by (metis prod_cases3)
    have "mset (page_ids a') + mset (page_ids b') = mset (page_ids a) + mset (page_ids b)" using cut_simps(8) [OF cut] P by simp
    then have "mset (kids_page_ids (A @ (ka, a') # (k', b') # B)) = mset (kids_page_ids (A @ (ka, a) # (kb, b) # B))"
      by (simp add: ac_simps)
    then show ?thesis unfolding sides using False cut
      by (simp add: f shrink_up.simps(2) pair(1) Let_def m_def mset_page_ids_plug)
  qed
qed

lemma shrink_up_leaf_ids:
  assumes "hole_size Lm Im h fs t" and Lm: "4 \<le> Lm" "4 \<le> Im" and "\<not> is_leaf t"
  shows "\<exists>T. fst (shrink_up Lm Im fs t) = Some T \<and>
    leaf_ids T = before_hole kids_leaf_ids fs @ leaf_ids t @ behind_hole kids_leaf_ids fs"
  using assms(1,4)
proof (induction fs arbitrary: t h)
  case Nil
  obtain p kts where t: "t = Node p kts" using Nil(2) by (cases t) auto
  then show ?case using Nil by (cases kts) (auto simp: hole_size_def)
next
  case (Cons f fs)
  obtain p L k R where f: "f = (p, L, k, R)" by (cases f)
  note size = Cons.prems(1) [unfolded f]
  obtain A ka a kb b B where pair: "pair_at L k t R = (A, ka, a, kb, b, B)" "L @ (k, t) # R = A @ (ka, a) # (kb, b) # B"
    "L = [] \<longrightarrow> a = t \<and> A = []" "L \<noteq> [] \<longrightarrow> b = t \<and> L = A @ [(ka, a)]"
    by (rule frame_pair [OF frame_has_pair [OF size Lm(2)]])
  note sz = pair_sizes [OF size pair(2-4) Lm]
  have leaf: "\<not> is_leaf a" "\<not> is_leaf b" using Cons.prems(2) pair(3,4) loose_same [OF sz(1,2)] by (cases "L = []"; simp)+
  note P = merge_leaf_ids [OF leaf]
  have all: "before_hole kids_leaf_ids (f # fs) @ leaf_ids t @ behind_hole kids_leaf_ids (f # fs) =
      before_hole kids_leaf_ids fs @ kids_leaf_ids (A @ (ka, a) # (kb, b) # B) @ behind_hole kids_leaf_ids fs"
    unfolding pair(2) [symmetric] by (simp add: f)
  show ?case
  proof (cases "node_size a + node_size b \<le> cap Lm Im t")
    case True
    let ?kts = "A @ (ka, merge_nodes a b) # B"
    show ?thesis
    proof (cases "length ?kts \<le> (if fs = [] then 2 else Im div 2)")
      case small: True
      from Cons.IH [OF merged_parent(2) [OF size pair(2-4) Lm True small]] P
      show ?thesis unfolding all using True small by (simp add: f shrink_up.simps(2) pair(1) Let_def split_beta)
    next
      case False
      then show ?thesis unfolding all using True P
        by (simp add: f shrink_up.simps(2) pair(1) Let_def leaf_ids_plug)
    qed
  next
    case False
    define m where "m = (if L = [] then Suc (node_size a) else node_size a - 1)"
    obtain a' k' b' where cut: "cut_node m (tree_id b) (merge_nodes a b) = (a', k', b')" by (metis prod_cases3)
    have "leaf_ids a' @ leaf_ids b' = leaf_ids a @ leaf_ids b"
      using cut_simps(9) [OF cut] P merge_simps(4) [OF loose_same [OF sz(1,2)]] leaf by simp
    then have "kids_leaf_ids (A @ (ka, a') # (k', b') # B) = kids_leaf_ids (A @ (ka, a) # (kb, b) # B)" by simp
    then show ?thesis unfolding all using False cut
      by (simp add: f shrink_up.simps(2) pair(1) Let_def m_def leaf_ids_plug)
  qed
qed

context key_order begin

lemma shrink_up_fit:
  assumes "hole_fit cmp K z fs t" and "hole_size Lm Im h fs t" and "4 \<le> Lm" and "4 \<le> Im"
  shows "tree_fit cmp K Lm Im z (before_hole kids_entries fs @ entries t @ behind_hole kids_entries fs) (fst (shrink_up Lm Im fs t))"
  using assms(1,2)
proof (induction fs arbitrary: t h)
  case Nil
  show ?case
  proof (cases t)
    case (Leaf p es)
    then show ?thesis using Nil by (auto simp: tree_fit_def hole_fit_def hole_size_def cap_def Suc_le_eq intro!: exI [of _ 0])
  next
    case (Node p kts)
    have l: "loose Lm Im h t" "0 < length kts" "length kts \<le> Im" using Nil(2) Node by (simp_all add: hole_size_def cap_def)
    show ?thesis
    proof (cases "length kts = 1")
      case True
      then obtain kt where kts: "kts = [kt]" by (cases kts) auto
      have "shape Lm Im False (h - 1) (snd kt)" using l(1) by (simp add: loose_def Node kts)
      then have "shape Lm Im True (h - 1) (snd kt)" using assms(3,4) by (auto simp: shape_loose cap_def split: if_splits)
      then show ?thesis using Nil(1) by (auto simp: tree_fit_def hole_fit_def Node kts)
    next
      case False
      then have "2 \<le> length kts" using l(2) by linarith
      then have "shape Lm Im True h t" using l by (simp add: shape_loose Node cap_def)
      then show ?thesis using Nil(1) False by (auto simp: tree_fit_def hole_fit_def Node)
    qed
  qed
next
  case (Cons f fs)
  obtain p L k R where f: "f = (p, L, k, R)" by (cases f)
  note fit = Cons.prems(1) [unfolded f] and size = Cons.prems(2) [unfolded f]
  have path: "path_shape Lm Im (Suc h) fs" "(if fs = [] then 2 else Im div 2) \<le> Suc (length L + length R)"
    "Suc (length L + length R) \<le> Im" using size by (simp_all add: hole_size_def)
  have "L \<noteq> [] \<or> R \<noteq> []" using path(2) assms(4) by (auto split: if_splits)
  then obtain A ka a kb b B where pair: "pair_at L k t R = (A, ka, a, kb, b, B)" "L @ (k, t) # R = A @ (ka, a) # (kb, b) # B"
    "L = [] \<longrightarrow> a = t \<and> A = []" "L \<noteq> [] \<longrightarrow> b = t \<and> L = A @ [(ka, a)]"
    by (rule frame_pair)
  note sz = pair_sizes [OF size pair(2-4) assms(3,4)]
  have same: "is_leaf a = is_leaf b" by (rule loose_same [OF sz(1,2)])
  have len: "length L + length R = Suc (length A + length B)" using arg_cong [OF pair(2), of length] by simp
  have fit0: "kids_fit cmp K (A @ (ka, a) # (kb, b) # B)"
    unfolding pair(2) [symmetric] using fit by (intro kids_fit_frame [where fs = fs and z = z and p = p]) (simp_all add: hole_fit_def)
  have up: "path_ok cmp K fs (kids_entries (A @ (ka, a) # (kb, b) # B))" "path_heads z fs"
    "fst (hd (A @ (ka, a) # (kb, b) # B)) = path_head z fs"
    unfolding pair(2) [symmetric] using fit by (auto simp: hole_fit_def hd_append)
  have sorted: "key_sorted cmp K (before_hole kids_entries fs @ kids_entries (A @ (ka, a) # (kb, b) # B) @ behind_hole kids_entries fs)"
    unfolding pair(2) [symmetric] using fit by (simp add: hole_fit_def)
  have all: "before_hole kids_entries (f # fs) @ entries t @ behind_hole kids_entries (f # fs) =
      before_hole kids_entries fs @ kids_entries (A @ (ka, a) # (kb, b) # B) @ behind_hole kids_entries fs"
    unfolding pair(2) [symmetric] by (simp add: f)
  let ?M = "merge_nodes a b"
  note M = merge_simps [OF same]
  have fitM: "kids_fit cmp K (A @ (ka, ?M) # B)" by (rule kids_fit_merge [OF fit0 same sz(6)])
  have looseM: "loose Lm Im h ?M" by (rule loose_merge [OF sz(1,2)])
  have entM: "kids_entries (A @ (ka, ?M) # B) = kids_entries (A @ (ka, a) # (kb, b) # B)" by (simp add: M(1))
  have hdM: "fst (hd (A @ (ka, x) # B')) = path_head z fs" for x B' using up(3) by (cases A) simp_all
  show ?case
  proof (cases "node_size a + node_size b \<le> cap Lm Im t")
    case True
    let ?kts = "A @ (ka, ?M) # B"
    note parent = merged_parent [OF size pair(2-4) assms(3,4) True]
    show ?thesis
    proof (cases "length ?kts \<le> (if fs = [] then 2 else Im div 2)")
      case small: True
      have "hole_fit cmp K z fs (Node p ?kts)"
        unfolding hole_fit_def entries.simps entM
        using kids_fit_search [OF fitM] kids_fit_heads [OF fitM hdM] up sorted by blast
      moreover note parent(2) [OF small]
      ultimately have "tree_fit cmp K Lm Im z (before_hole kids_entries fs @ kids_entries ?kts @ behind_hole kids_entries fs)
          (fst (shrink_up Lm Im fs (Node p ?kts)))" using Cons.IH by fastforce
      then show ?thesis
        unfolding all entM using True small by (simp add: f shrink_up.simps(2) pair(1) Let_def split_beta)
    next
      case False
      have "tree_fit cmp K Lm Im z (before_hole kids_entries fs @ kids_entries ?kts @ behind_hole kids_entries fs)
          (Some (plug fs (Node p ?kts)))"
        by (rule tree_fit_plug [OF fitM hdM _ up(2) path(1) parent(1)]) (use up(1) entM False path(3) len in auto)
      then show ?thesis
        unfolding all entM using True False by (simp add: f shrink_up.simps(2) pair(1) Let_def split_beta)
    qed
  next
    case False
    define m where "m = (if L = [] then Suc (node_size a) else node_size a - 1)"
    obtain a' k' b' where cut: "cut_node m (tree_id b) ?M = (a', k', b')" by (metis prod_cases3)
    have m: "0 < m" "m < node_size ?M" "cap Lm Im t div 2 \<le> m" "m \<le> cap Lm Im t"
      "cap Lm Im t div 2 \<le> node_size ?M - m" "node_size ?M - m \<le> cap Lm Im t"
      using sz(10) [OF _ m_def] False unfolding M(2) by simp_all
    note C = cut_simps [OF cut]
    let ?kts = "A @ (ka, a') # (k', b') # B"
    have ent: "kids_entries ?kts = kids_entries (A @ (ka, a) # (kb, b) # B)" using C(1) M(1) by simp
    have upC: "path_ok cmp K fs (kids_entries ?kts)" unfolding ent by (rule up(1))
    have "key_sorted cmp K (entries ?M)" using sorted unfolding entM [symmetric] by (simp add: key_sorted_append)
    then have fitC: "kids_fit cmp K ?kts" by (rule kids_fit_cut [OF fitM _ m(1,2) cut])
    have "loose Lm Im h a' \<and> loose Lm Im h b'" by (rule loose_cut [OF looseM cut])
    then have "shape Lm Im False h a'" "shape Lm Im False h b'"
      using C(2,3,6,7) m M(4) sz(3) by (simp_all add: shape_loose cap_def)
    then have kids: "\<forall>kt \<in> set ?kts. shape Lm Im False h (snd kt)" using sz(9) by auto
    have "tree_fit cmp K Lm Im z (before_hole kids_entries fs @ kids_entries ?kts @ behind_hole kids_entries fs)
        (Some (plug fs (Node p ?kts)))"
      by (rule tree_fit_plug [OF fitC hdM upC up(2) path(1) kids]) (use path(2,3) len in auto)
    then show ?thesis
      unfolding all ent using False cut m_def by (simp add: f shrink_up.simps(2) pair(1) Let_def)
  qed
qed

end

end
