(* ===== verification/BTreeMerge.thy ===== *)
theory BTreeMerge imports BTreeRemove BTreeInsertProps BTreeShrink begin

text \<open>
  The page operations of a deletion on two neighbours and their parent: moving all slots of a page into its
  left neighbour, and moving one slot over.
\<close>

section \<open>Two neighbours on the pages\<close>

definition pair_in :: "('k, 'v) tree_params \<Rightarrow> page_id \<Rightarrow> page_id \<Rightarrow> ('k, 'v) kids \<Rightarrow> 'k \<Rightarrow> ('k, 'v) tree \<Rightarrow> 'k \<Rightarrow> ('k, 'v) tree \<Rightarrow>
    ('k, 'v) kids \<Rightarrow> ('k, 'v) btree \<Rightarrow> bool" where
  "pair_in c gp p A ka a kb b B s \<longleftrightarrow> store_inv s \<and> 0 < pins s p \<and> 0 < pins s (tree_id a) \<and> 0 < pins s (tree_id b) \<and>
     cell_at c (contents s) (p, gp, NodeData (kid_slots (A @ (ka, a) # (kb, b) # B))) \<and>
     on_pages c (contents s) (set (cells p a) \<union> set (cells p b)) \<and> distinct (p # page_ids a @ page_ids b) \<and>
     distinct (map snd (kid_slots (A @ (ka, a) # (kb, b) # B))) \<and> is_leaf a = is_leaf b"

definition kind_of :: "('k, 'v) tree \<Rightarrow> node_kind" where
  "kind_of t = (if is_leaf t then LeafNode else InternalNode)"

text \<open>The parent page is fetched, a changed copy is written, and it is given back.\<close>

lemma edit_page:
  assumes "store_inv s" and "contents s p = Some d"
  obtains s1 s2 where "st_fetch p s = Some (pinned p s)" "st_put p d' (pinned p s) = Some s1" "st_unpin p True s1 = Some s2"
    "kept s s2" "contents s2 = (contents s)(p \<mapsto> d')"
proof -
  have "0 < pins (pinned p s) p" using store_inv_pins [OF assms(1), of p] by simp
  then obtain s1 where s1: "st_put p d' (pinned p s) = Some s1" "kept (pinned p s) s1" "contents s1 = (contents (pinned p s))(p \<mapsto> d')"
    using put_step [OF store_inv_pinned [OF assms]] by blast
  obtain s2 where "st_unpin p True s1 = Some s2" "kept s s2" "contents s2 = contents s1"
    using unpin_kept [OF s1(2) assms] .
  then show ?thesis using that [OF fetch_step [OF assms(2)] s1(1)] s1(3) by simp
qed

lemma unpin_clean: "store_inv s \<Longrightarrow> st_unpin p False (pinned p s) = Some s"
  using store_inv_pins [of s p] store_inv_pending [of s p] by (auto simp: st_unpin_def pinned_def Let_def)

lemma get_pinned_internal:
  "store_inv s \<Longrightarrow> contents s p = Some (InternalP n) \<Longrightarrow> get_internal c p (pinned p s) = Some n"
  using store_inv_pins [of s p] by (simp add: get_internal_def st_get_def as_internal_def)

lemma next_at_leaf: "cell_at c m (q, par, NodeData kps) \<Longrightarrow> \<not> next_at m q x"
  by (elim node_cell) (auto simp: next_at_def)

lemma reparent_kids:
  assumes "store_inv s" and on: "on_pages c (contents s) (set (kids_cells p kts))" and dist: "distinct (kids_page_ids kts)"
  obtains s' where "reparent_children n (kid_slots kts) s = Some s'" "kept s s'"
    "on_pages c (contents s') (set (kids_cells n kts))" "\<And>q. q \<notin> set (kids_page_ids kts) \<Longrightarrow> contents s' q = contents s q"
    "\<And>q x. next_at (contents s) q x \<Longrightarrow> next_at (contents s') q x"
proof -
  have kid: "\<exists>d d'. contents s (snd e) = Some d \<and> page_SetParentPageId n d = Some d'" if e: "e \<in> set (kid_slots kts)" for e
  proof -
    obtain kt where kt: "kt \<in> set kts" "snd e = tree_id (snd kt)" using e by (auto simp: kid_slots_def)
    obtain nd where "(tree_id (snd kt), p, nd) \<in> set (cells p (snd kt))" using tree_id_cells by blast
    then have "cell_at c (contents s) (snd e, p, nd)" using on kt by (auto simp: on_pages_def)
    then show ?thesis by (rule cell_SetParent)
  qed
  let ?X = "snd ` set (kid_slots kts)"
  obtain s' where s': "reparent_children n (kid_slots kts) s = Some s'" "kept s s'" "contents s' = set_parents n ?X (contents s)"
    using reparent_step [OF assms(1), of "kid_slots kts" n] kid by blast
  have X: "?X = (\<lambda>kt. tree_id (snd kt)) ` set kts" by (simp add: kid_slots_def image_image)
  have Xin: "?X \<subseteq> set (kids_page_ids kts)" unfolding X by (auto intro: tree_id_page_ids)
  show ?thesis
  proof (rule that [OF s'(1,2)])
    show "on_pages c (contents s') (set (kids_cells n kts))"
      unfolding s'(3) by (rule set_parents_kids [OF on dist]) (use Xin X in blast)
    show "contents s' q = contents s q" if "q \<notin> set (kids_page_ids kts)" for q
      using that Xin by (auto simp: s'(3) set_parents_def)
    show "next_at (contents s') q x" if "next_at (contents s) q x" for q x
      unfolding s'(3) by (rule set_parents_next [OF that])
  qed
qed

section \<open>Merging\<close>

lemma MoveAllTo_leaf:
  assumes P: "pair_in c gp p A ka a kb b B s" and ab: "a = Leaf pa ea" "b = Leaf pb eb" and sl: "slots_ok c"
    and fits: "length ea + length eb \<le> leaf_max c"
  obtains s' where "MoveAllTo c LeafNode pb pa i s = Some s'" "kept s s'" "cell_at c (contents s') (pa, p, LeafData (ea @ eb))"
    "\<And>q. q \<noteq> pa \<Longrightarrow> q \<noteq> pb \<Longrightarrow> contents s' q = contents s q" "\<exists>h. get_header pb s' = Some h \<and> page_id_m h = pb"
    "\<And>x. next_at (contents s) pb x \<Longrightarrow> next_at (contents s') pa x"
proof -
  have inv: "store_inv s" "0 < pins s pa" "0 < pins s pb" "pa \<noteq> pb"
    and ca: "cell_at c (contents s) (pa, p, LeafData ea)" and cb: "cell_at c (contents s) (pb, p, LeafData eb)"
    using P by (simp_all add: pair_in_def ab on_pages_def)
  obtain r where r: "contents s pa = Some (LeafP r)" "wf_leaf r" "leaf_entries r = ea" "page_id_m r = pa" "parent_page_id_m r = p"
    "max_size_m r + 1 = leaf_slots (key_size c)" "int (length (leaf_array r)) = leaf_slots (key_size c)" using leaf_cell [OF ca] .
  obtain n where n: "contents s pb = Some (LeafP n)" "wf_leaf n" "leaf_entries n = eb" "page_id_m n = pb" "parent_page_id_m n = p"
    using leaf_cell [OF cb] by metis
  obtain n' r' where h: "leaf_MoveAllTo n r = (n', r')" by (cases "leaf_MoveAllTo n r")
  have room: "size_m n + size_m r \<le> max_size_m r + 1"
    using fits r(3,6) n(3) leaf_size_entries [OF r(2)] leaf_size_entries [OF n(2)] slots_max(3) [OF sl] by simp
  note H = leaf_MoveAllTo_spec [OF n(2) r(2) room h] and F = leaf_MoveAllTo_fields [OF h]
  obtain s1 where s1: "st_put pb (LeafP n') s = Some s1" "kept s s1" "contents s1 = (contents s)(pb \<mapsto> LeafP n')"
    using put_step [OF inv(1,3)] .
  obtain s2 where s2: "st_put pa (LeafP r') s1 = Some s2" "kept s1 s2" "contents s2 = (contents s1)(pa \<mapsto> LeafP r')"
    using put_step [OF keptD(1) [OF s1(2)], of pa "LeafP r'"] inv(2) keptD(2) [OF s1(2)] by auto
  have k: "kept s s2" by (rule kept_trans [OF s1(2) s2(2)])
  have m: "contents s2 pa = Some (LeafP r')" "contents s2 pb = Some (LeafP n')" using inv(4) by (simp_all add: s2(3) s1(3))
  show ?thesis
  proof (rule that [OF _ k])
    show "MoveAllTo c LeafNode pb pa i s = Some s2"
      using inv(2,3) r(1) n(1) h s1(1) s2(1) by (simp add: MoveAllTo_def get_leaf_def st_get_def as_leaf_def put_leaf_def)
    show "cell_at c (contents s2) (pa, p, LeafData (ea @ eb))"
      using leaf_cellI [OF H(4), of pa p c "contents s2"] F r(3-7) H(1) m(1) n(3) by simp
    show "contents s2 q = contents s q" if "q \<noteq> pa" "q \<noteq> pb" for q using that by (simp add: s2(3) s1(3))
    show "\<exists>h. get_header pb s2 = Some h \<and> page_id_m h = pb"
      using m(2) inv(3) keptD(2) [OF k] F(1) n(4)
      by (simp add: get_header_def st_get_def tree_header_def bpt_header.truncate_def)
    show "next_at (contents s2) pa x" if "next_at (contents s) pb x" for x
      using that m(1) H(6) n(1) by (simp add: next_at_def)
  qed
qed

lemma MoveAllTo_internal:
  assumes P: "pair_in c gp p A ka a kb b B s" and ab: "a = Node pa A'" "b = Node pb B'" and sl: "slots_ok c"
    and fits: "length A' + length B' \<le> internal_max c" and heads: "heads_ok kb b" "B' \<noteq> []"
  obtains s' where "MoveAllTo c InternalNode pb pa (int (Suc (length A))) s = Some s'" "kept s s'"
    "on_pages c (contents s') (set (cells p (Node pa (A' @ B'))))"
    "\<And>q. q \<noteq> pa \<Longrightarrow> q \<noteq> pb \<Longrightarrow> q \<notin> set (kids_page_ids B') \<Longrightarrow> contents s' q = contents s q"
    "\<exists>h. get_header pb s' = Some h \<and> page_id_m h = pb" "\<And>q x. next_at (contents s) q x \<Longrightarrow> next_at (contents s') q x"
proof -
  have inv: "store_inv s" "0 < pins s pa" "0 < pins s pb" "pa \<noteq> pb"
    and ca: "cell_at c (contents s) (pa, p, NodeData (kid_slots A'))" and cb: "cell_at c (contents s) (pb, p, NodeData (kid_slots B'))"
    and cp: "cell_at c (contents s) (p, gp, NodeData (kid_slots (A @ (ka, a) # (kb, b) # B)))"
    and on: "on_pages c (contents s) (set (kids_cells pa A'))" "on_pages c (contents s) (set (kids_cells pb B'))"
    and ids: "pa \<notin> set (kids_page_ids A')" "pa \<notin> set (kids_page_ids B')" "pb \<notin> set (kids_page_ids A')" "pb \<notin> set (kids_page_ids B')"
      "distinct (kids_page_ids B')" "set (kids_page_ids A') \<inter> set (kids_page_ids B') = {}"
    using P by (auto simp: pair_in_def ab on_pages_def)
  obtain r where r: "contents s pa = Some (InternalP r)" "wf_internal r" "internal_entries r = kid_slots A'" "page_id_m r = pa"
    "parent_page_id_m r = p" "max_size_m r + 1 = internal_slots (key_size c)" "int (length (internal_array r)) = internal_slots (key_size c)"
    using node_cell [OF ca] .
  obtain n where n: "contents s pb = Some (InternalP n)" "wf_internal n" "internal_entries n = kid_slots B'" "page_id_m n = pb"
    "parent_page_id_m n = p" "max_size_m n + 1 = internal_slots (key_size c)" using node_cell [OF cb] by metis
  obtain g where g: "contents s p = Some (InternalP g)" "wf_internal g"
    "internal_entries g = kid_slots (A @ (ka, a) # (kb, b) # B)" "page_id_m g = p" using node_cell [OF cp] by metis
  have sizes: "size_m n = int (length B')" "size_m r = int (length A')" "size_m g = int (length (A @ (ka, a) # (kb, b) # B))"
    using length_internal_entries [OF n(2)] length_internal_entries [OF r(2)] length_internal_entries [OF g(2)] n(2,3) r(2,3) g(2,3)
    by (auto simp: wf_internal_def)
  let ?i = "int (Suc (length A))"
  have "Suc (length A) < nat (size_m g)" unfolding sizes by simp
  from internal_entries_nth [OF g(2) this] have "internal_array g ! Suc (length A) = (kb, pb)" unfolding g(3) by (simp add: ab nth_append)
  moreover have "nat ?i = Suc (length A)" by (rule nat_int)
  ultimately have key: "internal_KeyAt ?i g = Some kb" using sizes(3) unfolding internal_KeyAt_def header_defs by simp
  obtain n1 where n1: "internal_SetKeyAt 0 kb n = Some n1" "wf_internal n1" "internal_meta n1 = internal_meta n" "size_m n1 = size_m n"
    "internal_entries n1 = (internal_entries n)[nat 0 := (kb, snd (internal_entries n ! nat 0))]"
    using internal_SetKeyAt_spec [OF n(2), of 0 kb] sizes(1) heads(2) by (metis length_greater_0_conv of_nat_0_less_iff order_refl)
  have e1: "internal_entries n1 = kid_slots B'"
  proof -
    obtain kt B'' where B: "B' = kt # B''" using heads(2) by (cases B') auto
    then have "fst kt = kb" using heads(1) by (simp add: ab)
    then show ?thesis unfolding n1(5) n(3) by (simp add: B)
  qed
  have room: "size_m n1 + size_m r \<le> max_size_m n1" "max_size_m r = max_size_m n1"
    using sizes(1,2) n1(4) fits internal_meta_simps(1) [OF n1(3)] n(6) r(6) slots_max(4) [OF sl] by simp_all
  obtain n' r' where h: "internal_MoveAllTo_local n1 r = Some (n', r')" "internal_entries r' = kid_slots (A' @ B')"
    "wf_internal r'" "internal_meta n' = internal_meta n1" "internal_meta r' = internal_meta r"
    using internal_MoveAllTo_spec [OF n1(2) r(2) room] by (metis e1 r(3) kid_slots_simps(3))
  obtain s1 where s1: "st_put pb (InternalP n') s = Some s1" "kept s s1" "contents s1 = (contents s)(pb \<mapsto> InternalP n')"
    using put_step [OF inv(1,3)] .
  obtain s2 where s2: "st_put pa (InternalP r') s1 = Some s2" "kept s1 s2" "contents s2 = (contents s1)(pa \<mapsto> InternalP r')"
    using put_step [OF keptD(1) [OF s1(2)], of pa "InternalP r'"] inv(2) keptD(2) [OF s1(2)] by auto
  have m2: "contents s2 = (contents s)(pb \<mapsto> InternalP n', pa \<mapsto> InternalP r')" by (simp add: s2(3) s1(3))
  have on2: "on_pages c (contents s2) (set (kids_cells pa A'))"
    by (rule on_pages_cong [OF on(1)]) (use ids fst_kids_cells [of pa A'] in \<open>auto simp: m2\<close>)
  have on2b: "on_pages c (contents s2) (set (kids_cells pb B'))"
    by (rule on_pages_cong [OF on(2)]) (use ids fst_kids_cells [of pb B'] in \<open>auto simp: m2\<close>)
  obtain s3 where s3: "reparent_children pa (kid_slots B') s2 = Some s3" "kept s2 s3" "on_pages c (contents s3) (set (kids_cells pa B'))"
    "\<And>q. q \<notin> set (kids_page_ids B') \<Longrightarrow> contents s3 q = contents s2 q" "\<And>q x. next_at (contents s2) q x \<Longrightarrow> next_at (contents s3) q x"
    by (rule reparent_kids [OF keptD(1) [OF s2(2)] on2b ids(5)]) blast
  have k: "kept s s3" by (rule kept_trans [OF s1(2) kept_trans [OF s2(2) s3(2)]])
  have m3: "contents s3 pa = Some (InternalP r')" "contents s3 pb = Some (InternalP n')" using inv(4) ids s3(4) by (simp_all add: m2)
  have arr: "take (nat (size_m n1)) (internal_array n1) = kid_slots B'" using e1 by (simp add: internal_entries_def)
  show ?thesis
  proof (rule that [OF _ k])
    have get: "get_internal c pb s = Some n" "get_internal c pa s = Some r"
      using inv(2,3) r(1) n(1) by (simp_all add: get_internal_def st_get_def as_internal_def)
    show "MoveAllTo c InternalNode pb pa ?i s = Some s3"
      unfolding MoveAllTo_def node_kind.case internal_MoveAllTo_def get Option.bind.bind_lunit GetParentPageId_def n(5)
        fetch_step [OF g(1)] get_pinned_internal [OF inv(1) g(1)] key n1(1) GetPageId_def g(4) unpin_clean [OF inv(1)]
      using h(1) s1(1) s2(1) s3(1) arr r(4) by (simp add: put_internal_def GetSize_def)
    have "cell_at c (contents s3) (pa, p, NodeData (kid_slots (A' @ B')))"
      using node_cellI [OF h(3), of pa p c "contents s3"] internal_meta_simps [OF h(5)] r(4-7) h(2) m3(1) by simp
    moreover have "on_pages c (contents s3) (set (kids_cells pa A'))"
      by (rule on_pages_cong [OF on2]) (use s3(4) ids(6) fst_kids_cells [of pa A'] in blast)
    ultimately show "on_pages c (contents s3) (set (cells p (Node pa (A' @ B'))))" using s3(3) by simp
    show "contents s3 q = contents s q" if "q \<noteq> pa" "q \<noteq> pb" "q \<notin> set (kids_page_ids B')" for q
      using that s3(4) by (simp add: m2)
    show "\<exists>h. get_header pb s3 = Some h \<and> page_id_m h = pb"
      using m3(2) inv(3) keptD(2) [OF k] internal_meta_simps(3) [OF h(4)] internal_meta_simps(3) [OF n1(3)] n(4)
      by (simp add: get_header_def st_get_def tree_header_def bpt_header.truncate_def)
    show "next_at (contents s3) q x" if "next_at (contents s) q x" for q x
    proof -
      have "q \<noteq> pa" "q \<noteq> pb" using that next_at_leaf [OF ca] next_at_leaf [OF cb] by auto
      then show ?thesis using that s3(5) by (simp add: m2 next_at_def)
    qed
  qed
qed

section \<open>Moving one slot\<close>

text \<open>After a move both pages hold their part and the parent the new separator.\<close>

definition pair_moved :: "('k, 'v) tree_params \<Rightarrow> page_id \<Rightarrow> page_id \<Rightarrow> ('k, 'v) kids \<Rightarrow> 'k \<Rightarrow> ('k, 'v) tree \<Rightarrow> 'k \<Rightarrow> ('k, 'v) tree \<Rightarrow>
    ('k, 'v) kids \<Rightarrow> ('k, 'v) btree \<Rightarrow> ('k, 'v) btree \<Rightarrow> bool" where
  "pair_moved c gp p A ka a k b B s s' \<longleftrightarrow> kept s s' \<and>
     cell_at c (contents s') (p, gp, NodeData (kid_slots (A @ (ka, a) # (k, b) # B))) \<and>
     on_pages c (contents s') (set (cells p a) \<union> set (cells p b)) \<and>
     (\<forall>q. q \<noteq> p \<longrightarrow> q \<notin> set (page_ids a) \<longrightarrow> q \<notin> set (page_ids b) \<longrightarrow> contents s' q = contents s q) \<and>
     (\<forall>q x. next_at (contents s) q x \<longrightarrow> next_at (contents s') q x)"

text \<open>The separator before \<open>b\<close> in the parent is replaced.\<close>

lemma set_separator:
  assumes "cell_at c m (p, gp, NodeData (kid_slots (A @ (ka, a) # (kb, b) # B)))"
    and "distinct (map snd (kid_slots (A @ (ka, a) # (kb, b) # B)))" and "tree_id a' = tree_id a" and "tree_id b' = tree_id b"
  obtains g g' where "m p = Some (InternalP g)" "internal_ValueIndex (tree_id b) g = int (Suc (length A))"
    "internal_ValueIndex (tree_id a) g = int (length A)"
    "internal_SetKeyAt (int (Suc (length A))) k g = Some g'"
    "\<And>m'. m' p = Some (InternalP g') \<Longrightarrow> cell_at c m' (p, gp, NodeData (kid_slots (A @ (ka, a') # (k, b') # B)))"
proof -
  let ?kts = "A @ (ka, a) # (kb, b) # B" and ?i = "Suc (length A)"
  obtain g where g: "m p = Some (InternalP g)" "wf_internal g" "internal_entries g = kid_slots ?kts" "page_id_m g = p"
    "parent_page_id_m g = gp" "max_size_m g + 1 = internal_slots (key_size c)" "int (length (internal_array g)) = internal_slots (key_size c)"
    using node_cell [OF assms(1)] .
  have size: "size_m g = int (length ?kts)"
    using length_internal_entries [OF g(2)] g(2,3) by (auto simp: wf_internal_def)
  have vi: "internal_ValueIndex (snd (kid_slots ?kts ! j)) g = int j" if "j < length ?kts" for j
    using internal_ValueIndex_nth [OF g(2), of j] assms(2) that unfolding g(3) by simp
  obtain g' where g': "internal_SetKeyAt (int ?i) k g = Some g'"
    "internal_entries g' = (internal_entries g)[?i := (k, snd (internal_entries g ! ?i))]" "wf_internal g'" "internal_meta g' = internal_meta g"
    using internal_SetKeyAt_spec [OF g(2), of "int ?i" k] size by (metis (no_types, lifting) nat_int of_nat_0_le_iff of_nat_less_iff
        length_append length_Cons less_add_same_cancel1 add_Suc_right add_Suc zero_less_Suc less_Suc_eq_le le_add1 Suc_le_mono)
  have e: "internal_entries g' = kid_slots (A @ (ka, a') # (k, b') # B)"
    unfolding g'(2) g(3) using assms(3,4) by (simp add: list_update_append nth_append)
  show ?thesis
  proof (rule that [OF g(1) _ _ g'(1)])
    show "internal_ValueIndex (tree_id b) g = int ?i" using vi [of ?i] by (simp add: nth_append)
    show "internal_ValueIndex (tree_id a) g = int (length A)" using vi [of "length A"] by (simp add: nth_append)
    show "cell_at c m' (p, gp, NodeData (kid_slots (A @ (ka, a') # (k, b') # B)))" if "m' p = Some (InternalP g')" for m'
      using node_cellI [OF g'(3), of p gp c m'] internal_meta_simps [OF g'(4)] g(4-7) that e by simp
  qed
qed

lemma reparent_child:
  assumes "store_inv s" and on: "on_pages c (contents s) (set (cells par t))" and dist: "distinct (page_ids t)"
  obtains s1 s2 h where "st_fetch (tree_id t) s = Some (pinned (tree_id t) s)" "put_parent (tree_id t) par' (pinned (tree_id t) s) = Some s1"
    "get_header (tree_id t) s1 = Some h" "GetPageId h = tree_id t" "st_unpin (tree_id t) True s1 = Some s2" "kept s s2"
    "on_pages c (contents s2) (set (cells par' t))" "\<And>q. q \<noteq> tree_id t \<Longrightarrow> contents s2 q = contents s q"
    "\<And>q x. next_at (contents s) q x \<Longrightarrow> next_at (contents s2) q x"
proof -
  let ?q = "tree_id t"
  obtain nd where cell: "cell_at c (contents s) (?q, par, nd)" using on_pages_root [OF on] .
  obtain d d' where d: "contents s ?q = Some d" "page_SetParentPageId par' d = Some d'" using cell_SetParent [OF cell] by blast
  have pin: "0 < pins (pinned ?q s) ?q" using store_inv_pins [OF assms(1), of ?q] by simp
  obtain s1 where s1: "put_parent ?q par' (pinned ?q s) = Some s1" "kept (pinned ?q s) s1" "contents s1 = set_parents par' {?q} (contents s)"
    using put_parent_step [OF store_inv_pinned [OF assms(1) d(1)] pin, of d par' d'] d by (metis pinned_simps(1))
  have on1: "on_pages c (contents s1) (set (cells par' t))"
    unfolding s1(3) by (rule set_parents_tree [OF on dist]) simp_all
  obtain nd' where cell': "cell_at c (contents s1) (?q, par', nd')" using on_pages_root [OF on1] .
  obtain h where h: "get_header ?q s1 = Some h" "page_id_m h = ?q"
    using get_header_cell [OF cell'] pin keptD(2) [OF s1(2)] by metis
  obtain s2 where s2: "st_unpin ?q True s1 = Some s2" "kept s s2" "contents s2 = contents s1"
    using unpin_kept [OF s1(2) assms(1) d(1)] .
  show ?thesis
    by (rule that [OF fetch_step [OF d(1)] s1(1) h(1) _ s2(1,2)])
      (use h(2) on1 set_parents_next in \<open>simp_all add: GetPageId_def s2(3) s1(3) set_parents_def\<close>)
qed

lemma Redistribute_leaf:
  assumes P: "pair_in c gp p A ka a kb b B s" and ab: "a = Leaf pa ea" "b = Leaf pb eb" and sl: "slots_ok c"
    and cut: "cut_node m pb (Leaf pa (ea @ eb)) = (a', k', b')"
    and how: "i = 0 \<and> nb = pb \<and> node = pa \<and> m = Suc (length ea) \<and> 2 \<le> length eb \<and> length ea < leaf_max c \<or>
      i = int (Suc (length A)) \<and> nb = pa \<and> node = pb \<and> Suc m = length ea \<and> length eb < leaf_max c"
  shows "\<exists>s'. Redistribute c LeafNode nb node i s = Some s' \<and> pair_moved c gp p A ka a' k' b' B s s'"
proof -
  have inv: "store_inv s" "0 < pins s pa" "0 < pins s pb" "pa \<noteq> pb" "p \<noteq> pa" "p \<noteq> pb"
    and ca: "cell_at c (contents s) (pa, p, LeafData ea)" and cb: "cell_at c (contents s) (pb, p, LeafData eb)"
    and cp: "cell_at c (contents s) (p, gp, NodeData (kid_slots (A @ (ka, a) # (kb, b) # B)))"
    and dist: "distinct (map snd (kid_slots (A @ (ka, a) # (kb, b) # B)))"
    using P by (simp_all add: pair_in_def ab on_pages_def)
  obtain x where x: "contents s pa = Some (LeafP x)" "wf_leaf x" "leaf_entries x = ea" "page_id_m x = pa" "parent_page_id_m x = p"
    "max_size_m x + 1 = leaf_slots (key_size c)" "int (length (leaf_array x)) = leaf_slots (key_size c)" using leaf_cell [OF ca] .
  obtain y where y: "contents s pb = Some (LeafP y)" "wf_leaf y" "leaf_entries y = eb" "page_id_m y = pb" "parent_page_id_m y = p"
    "max_size_m y + 1 = leaf_slots (key_size c)" "int (length (leaf_array y)) = leaf_slots (key_size c)" using leaf_cell [OF cb] .
  have a': "a' = Leaf pa (take m (ea @ eb))" "k' = fst ((ea @ eb) ! m)" "b' = Leaf pb (drop m (ea @ eb))" using cut by simp_all
  have ids: "tree_id a' = tree_id a" "tree_id b' = tree_id b" by (simp_all add: a' ab)
  obtain g g' where g: "contents s p = Some (InternalP g)" "internal_ValueIndex pb g = int (Suc (length A))"
    "internal_SetKeyAt (int (Suc (length A))) k' g = Some g'"
    "\<And>m'. m' p = Some (InternalP g') \<Longrightarrow> cell_at c m' (p, gp, NodeData (kid_slots (A @ (ka, a') # (k', b') # B)))"
    by (rule set_separator [OF cp dist ids, of k']) (simp add: ab)
  have sizes: "size_m x = int (length ea)" "size_m y = int (length eb)" "max_size_m x = int (leaf_max c)" "max_size_m y = int (leaf_max c)"
    using leaf_size_entries [OF x(2)] leaf_size_entries [OF y(2)] x(3,6) y(3,6) slots_max(3) [OF sl] by simp_all
  have mm: "m < length (ea @ eb)" using how by auto
  text \<open>Both directions leave the same pages.\<close>
  have finish: "\<exists>s'. (do { s \<leftarrow> put_leaf q1 l1 s; s \<leftarrow> put_leaf q2 l2 s; s \<leftarrow> st_fetch p s; parent \<leftarrow> get_internal c p s;
        parent \<leftarrow> internal_SetKeyAt (f parent) (fst (leaf_array y' ! 0)) parent; s \<leftarrow> put_internal p parent s; st_unpin p True s }) = Some s' \<and>
      pair_moved c gp p A ka a' k' b' B s s'"
    if q: "q1 = pa \<and> l1 = x' \<and> q2 = pb \<and> l2 = y' \<or> q1 = pb \<and> l1 = y' \<and> q2 = pa \<and> l2 = x'" and f: "f g = int (Suc (length A))"
      and x': "leaf_entries x' = take m (ea @ eb)" "wf_leaf x'" "leaf_meta x' = leaf_meta x"
      and y': "leaf_entries y' = drop m (ea @ eb)" "wf_leaf y'" "leaf_meta y' = leaf_meta y" for q1 l1 q2 l2 x' y' f
  proof -
    have "0 < size_m y'" using leaf_size_entries [OF y'(2)] y'(1) mm by simp
    then have k': "fst (leaf_array y' ! 0) = k'"
      using leaf_entries_nth [OF y'(2), of 0] nth_drop [of m "ea @ eb" 0] y'(1) mm by (simp add: a'(2) del: drop_append)
    have q12: "0 < pins s q1" "0 < pins s q2" using q inv(2,3) by auto
    obtain s1 where s1: "st_put q1 (LeafP l1) s = Some s1" "kept s s1" "contents s1 = (contents s)(q1 \<mapsto> LeafP l1)"
      using put_step [OF inv(1) q12(1)] .
    obtain s2 where s2: "st_put q2 (LeafP l2) s1 = Some s2" "kept s1 s2" "contents s2 = (contents s1)(q2 \<mapsto> LeafP l2)"
      using put_step [OF keptD(1) [OF s1(2)], of q2 "LeafP l2"] q12(2) keptD(2) [OF s1(2)] by auto
    have m2: "contents s2 = (contents s)(pa \<mapsto> LeafP x', pb \<mapsto> LeafP y')"
      using q inv(4) by (auto simp: s2(3) s1(3) fun_upd_twist)
    have gp2: "contents s2 p = Some (InternalP g)" using g(1) inv(5,6) by (simp add: m2)
    obtain s3 s4 where s4: "st_fetch p s2 = Some (pinned p s2)" "st_put p (InternalP g') (pinned p s2) = Some s3"
      "st_unpin p True s3 = Some s4" "kept s2 s4" "contents s4 = (contents s2)(p \<mapsto> InternalP g')"
      using edit_page [OF keptD(1) [OF s2(2)] gp2] .
    have "(do { s \<leftarrow> put_leaf q1 l1 s; s \<leftarrow> put_leaf q2 l2 s; s \<leftarrow> st_fetch p s; parent \<leftarrow> get_internal c p s;
        parent \<leftarrow> internal_SetKeyAt (f parent) (fst (leaf_array y' ! 0)) parent; s \<leftarrow> put_internal p parent s; st_unpin p True s }) = Some s4"
      using s1(1) s2(1) s4(1-3) get_pinned_internal [OF keptD(1) [OF s2(2)] gp2] g(3) f k' by (simp add: put_leaf_def put_internal_def)
    moreover have "pair_moved c gp p A ka a' k' b' B s s4"
      unfolding pair_moved_def
    proof (intro conjI allI impI)
      show "kept s s4" using kept_trans [OF s1(2) kept_trans [OF s2(2) s4(4)]] .
      show "cell_at c (contents s4) (p, gp, NodeData (kid_slots (A @ (ka, a') # (k', b') # B)))" by (rule g(4)) (simp add: s4(5))
      have m4: "contents s4 pa = Some (LeafP x')" "contents s4 pb = Some (LeafP y')" using inv(4-6) by (simp_all add: s4(5) m2)
      show "on_pages c (contents s4) (set (cells p a') \<union> set (cells p b'))"
        using leaf_cellI [OF x'(2), of pa p c "contents s4"] leaf_cellI [OF y'(2), of pb p c "contents s4"] leaf_meta_simps [OF x'(3)]
          leaf_meta_simps [OF y'(3)] x(4-7) y(4-7) x'(1) y'(1) m4 by (simp add: a')
      show "contents s4 q = contents s q" if "q \<noteq> p" "q \<notin> set (page_ids a')" "q \<notin> set (page_ids b')" for q
        using that by (simp add: s4(5) m2 a')
      show "next_at (contents s4) q z" if "next_at (contents s) q z" for q z
        using that x(1) y(1) g(1) leaf_meta_simps(4) [OF x'(3)] leaf_meta_simps(4) [OF y'(3)] by (auto simp: next_at_def s4(5) m2)
    qed
    ultimately show ?thesis by blast
  qed
  have get: "get_leaf c pa s = Some x" "get_leaf c pb s = Some y"
    using inv(2,3) x(1) y(1) by (simp_all add: get_leaf_def st_get_def as_leaf_def)
  from how show ?thesis
  proof (elim disjE conjE)
    assume h: "i = 0" "nb = pb" "node = pa" "m = Suc (length ea)" "2 \<le> length eb" "length ea < leaf_max c"
    obtain y' x' where l: "leaf_MoveFirstToEndOf_local y x = (y', x')" by (cases "leaf_MoveFirstToEndOf_local y x")
    have sz: "0 < size_m y" "size_m x \<le> max_size_m x" using sizes h(5,6) by linarith+
    note H = leaf_MoveFirstToEndOf_spec [OF y(2) x(2) sz l]
    have e: "leaf_entries x' = take m (ea @ eb)" "leaf_entries y' = drop m (ea @ eb)"
      using H(1,2) x(3) y(3) h(4,5) by (cases eb; simp)+
    have "GetParentPageId y' = p" "GetPageId y' = pb" using leaf_meta_simps [OF H(5)] y(4,5) by (simp_all add: header_defs)
    then show ?thesis
      using finish [where x' = x' and y' = y' and f = "internal_ValueIndex pb", OF disjI2 [OF conjI [OF refl conjI [OF refl conjI [OF refl refl]]]] g(2) e(1) H(4,6) e(2) H(3,5)]
      by (simp add: Redistribute_def h leaf_MoveFirstToEndOf_def get l)
  next
    assume h: "i = int (Suc (length A))" "nb = pa" "node = pb" "Suc m = length ea" "length eb < leaf_max c"
    obtain x' y' where l: "leaf_MoveLastToFrontOf_local x y = (x', y')" by (cases "leaf_MoveLastToFrontOf_local x y")
    have sz: "0 < size_m x" "size_m y \<le> max_size_m y" using sizes h(4,5) by linarith+
    note H = leaf_MoveLastToFrontOf_spec [OF x(2) y(2) sz l]
    obtain xs z where ea: "ea = xs @ [z]" using h(4) by (cases ea rule: rev_cases) auto
    have e: "leaf_entries x' = take m (ea @ eb)" "leaf_entries y' = drop m (ea @ eb)"
      using H(1,2) x(3) y(3) h(4) by (simp_all add: ea)
    have "GetParentPageId y' = p" using leaf_meta_simps [OF H(6)] y(5) by (simp add: header_defs)
    then show ?thesis
      using finish [where x' = x' and y' = y' and f = "\<lambda>_. i", OF disjI1 [OF conjI [OF refl conjI [OF refl conjI [OF refl refl]]]] h(1) e(1) H(3,5) e(2) H(4,6)] h(1)
      by (simp add: Redistribute_def h leaf_MoveLastToFrontOf_def get l)
  qed
qed

lemma Redistribute_internal:
  assumes P: "pair_in c gp p A ka a kb b B s" and ab: "a = Node pa A'" "b = Node pb B'" and sl: "slots_ok c"
    and cut: "cut_node m pb (Node pa (A' @ B')) = (a', k', b')" and p_out: "p \<notin> set (page_ids a)" "p \<notin> set (page_ids b)"
    and how: "i = 0 \<and> nb = pb \<and> node = pa \<and> m = Suc (length A') \<and> 2 \<le> length B' \<and> length A' < internal_max c \<or>
      i = int (Suc (length A)) \<and> nb = pa \<and> node = pb \<and> Suc m = length A' \<and> length B' + 1 < internal_max c"
  shows "\<exists>s'. Redistribute c InternalNode nb node i s = Some s' \<and> pair_moved c gp p A ka a' k' b' B s s'"
proof -
  have inv: "store_inv s" "0 < pins s pa" "0 < pins s pb" "pa \<noteq> pb" "p \<noteq> pa" "p \<noteq> pb"
    and ca: "cell_at c (contents s) (pa, p, NodeData (kid_slots A'))" and cb: "cell_at c (contents s) (pb, p, NodeData (kid_slots B'))"
    and on: "on_pages c (contents s) (set (kids_cells pa A'))" "on_pages c (contents s) (set (kids_cells pb B'))"
    and cp: "cell_at c (contents s) (p, gp, NodeData (kid_slots (A @ (ka, a) # (kb, b) # B)))"
    and dist: "distinct (map snd (kid_slots (A @ (ka, a) # (kb, b) # B)))"
    and ids: "distinct (pa # pb # kids_page_ids (A' @ B'))"
    using P by (auto simp: pair_in_def ab on_pages_def)
  obtain x where x: "contents s pa = Some (InternalP x)" "wf_internal x" "internal_entries x = kid_slots A'" "page_id_m x = pa"
    "parent_page_id_m x = p" "max_size_m x + 1 = internal_slots (key_size c)" "int (length (internal_array x)) = internal_slots (key_size c)"
    using node_cell [OF ca] .
  obtain y where y: "contents s pb = Some (InternalP y)" "wf_internal y" "internal_entries y = kid_slots B'" "page_id_m y = pb"
    "parent_page_id_m y = p" "max_size_m y + 1 = internal_slots (key_size c)" "int (length (internal_array y)) = internal_slots (key_size c)"
    using node_cell [OF cb] .
  let ?L = "A' @ B'"
  have a': "a' = Node pa (take m ?L)" "k' = fst (?L ! m)" "b' = Node pb (drop m ?L)" using cut by simp_all
  have tids: "tree_id a' = tree_id a" "tree_id b' = tree_id b" by (simp_all add: a' ab)
  obtain g g' where g: "contents s p = Some (InternalP g)" "internal_ValueIndex pb g = int (Suc (length A))"
    "internal_SetKeyAt (int (Suc (length A))) k' g = Some g'"
    "\<And>m'. m' p = Some (InternalP g') \<Longrightarrow> cell_at c m' (p, gp, NodeData (kid_slots (A @ (ka, a') # (k', b') # B)))"
    by (rule set_separator [OF cp dist tids, of k']) (simp add: ab)
  have sizes: "size_m x = int (length A')" "size_m y = int (length B')" "max_size_m x = int (internal_max c)" "max_size_m y = int (internal_max c)"
    using length_internal_entries [OF x(2)] length_internal_entries [OF y(2)] x(2,3,6) y(2,3,6) slots_max(4) [OF sl] by (auto simp: wf_internal_def)
  have mm: "m < length ?L" using how by auto
  text \<open>Both directions leave the same pages; \<open>kt\<close> is the child that moves from the page \<open>from\<close> to the page \<open>to\<close>.\<close>
  have finish: "\<exists>s'. (do { s \<leftarrow> put_internal q1 l1 s; s \<leftarrow> put_internal q2 l2 s; s \<leftarrow> st_fetch (tree_id (snd kt)) s;
        s \<leftarrow> put_parent (tree_id (snd kt)) to s; child \<leftarrow> get_header (tree_id (snd kt)) s; s \<leftarrow> st_unpin (GetPageId child) True s;
        s \<leftarrow> st_fetch p s; parent \<leftarrow> get_internal c p s;
        parent \<leftarrow> internal_SetKeyAt (f parent) (fst (internal_array y' ! 0)) parent; s \<leftarrow> put_internal p parent s; st_unpin p True s }) = Some s' \<and>
      pair_moved c gp p A ka a' k' b' B s s'"
    if q: "q1 = pa \<and> l1 = x' \<and> q2 = pb \<and> l2 = y' \<or> q1 = pb \<and> l1 = y' \<and> q2 = pa \<and> l2 = x'" and f: "f g = int (Suc (length A))"
      and x': "internal_entries x' = kid_slots (take m ?L)" "wf_internal x'" "internal_meta x' = internal_meta x"
      and y': "internal_entries y' = kid_slots (drop m ?L)" "wf_internal y'" "internal_meta y' = internal_meta y"
      and kt: "to = pa \<and> A' = X \<and> B' = kt # Y \<and> take m ?L = X @ [kt] \<and> drop m ?L = Y \<or>
        to = pb \<and> A' = X @ [kt] \<and> B' = Y \<and> take m ?L = X \<and> drop m ?L = kt # Y" for q1 l1 q2 l2 x' y' f kt X Y to
  proof -
    have "0 < size_m y'" using length_internal_entries [OF y'(2)] y'(1) mm by simp
    then have "internal_array y' ! 0 = (fst (?L ! m), tree_id (snd (?L ! m)))"
      using internal_entries_nth [OF y'(2), of 0] nth_drop [of m ?L 0] y'(1) mm by (simp add: kid_slots_def del: drop_append)
    then have k': "fst (internal_array y' ! 0) = k'" by (simp add: a'(2))
    have q12: "0 < pins s q1" "0 < pins s q2" using q inv(2,3) by auto
    obtain s1 where s1: "st_put q1 (InternalP l1) s = Some s1" "kept s s1" "contents s1 = (contents s)(q1 \<mapsto> InternalP l1)"
      using put_step [OF inv(1) q12(1)] .
    obtain s2 where s2: "st_put q2 (InternalP l2) s1 = Some s2" "kept s1 s2" "contents s2 = (contents s1)(q2 \<mapsto> InternalP l2)"
      using put_step [OF keptD(1) [OF s1(2)], of q2 "InternalP l2"] q12(2) keptD(2) [OF s1(2)] by auto
    have m2: "contents s2 = (contents s)(pa \<mapsto> InternalP x', pb \<mapsto> InternalP y')"
      using q inv(4) by (auto simp: s2(3) s1(3) fun_upd_twist)
    have L: "?L = X @ kt # Y" using kt by auto
    have keep2: "\<forall>q \<in> set (page_ids (snd kt')). contents s2 q = contents s q" if "kt' \<in> set ?L" for kt'
      using ids that by (auto simp: m2)
    have kidA: "on_pages c (contents s2) (set (cells pa (snd kt')))" if "kt' \<in> set A'" for kt'
      by (rule on_pages_tree_cong [OF _ keep2]) (use on(1) that in \<open>auto simp: on_pages_def\<close>)
    have kidB: "on_pages c (contents s2) (set (cells pb (snd kt')))" if "kt' \<in> set B'" for kt'
      by (rule on_pages_tree_cong [OF _ keep2]) (use on(2) that in \<open>auto simp: on_pages_def\<close>)
    have kid: "on_pages c (contents s2) (set (cells (if to = pa then pb else pa) (snd kt)))"
      using kt kidA [of kt] kidB [of kt] inv(4) by auto
    have kd: "distinct (page_ids (snd kt))" using ids unfolding L by simp
    obtain s3 s4 h where s4: "st_fetch (tree_id (snd kt)) s2 = Some (pinned (tree_id (snd kt)) s2)"
      "put_parent (tree_id (snd kt)) to (pinned (tree_id (snd kt)) s2) = Some s3" "get_header (tree_id (snd kt)) s3 = Some h"
      "GetPageId h = tree_id (snd kt)" "st_unpin (tree_id (snd kt)) True s3 = Some s4" "kept s2 s4"
      "on_pages c (contents s4) (set (cells to (snd kt)))" "\<And>q. q \<noteq> tree_id (snd kt) \<Longrightarrow> contents s4 q = contents s2 q"
      "\<And>q z. next_at (contents s2) q z \<Longrightarrow> next_at (contents s4) q z"
      by (rule reparent_child [OF keptD(1) [OF s2(2)] kid kd, of to]) blast
    have ktid: "tree_id (snd kt) \<in> set (kids_page_ids ?L)" unfolding L by simp
    have LAB: "set (kids_page_ids ?L) = set (kids_page_ids A') \<union> set (kids_page_ids B')" by simp
    have out: "tree_id (snd kt) \<noteq> pa" "tree_id (snd kt) \<noteq> pb" "tree_id (snd kt) \<noteq> p"
      using ids p_out ktid by (auto simp: ab)
    have rest: "on_pages c (contents s4) (set (cells r (snd kt')))"
      if "kt' \<in> set X \<union> set Y" and r: "on_pages c (contents s2) (set (cells r (snd kt')))" for kt' r
    proof (rule on_pages_tree_cong [OF r])
      have "set (page_ids (snd kt)) \<inter> set (page_ids (snd kt')) = {}" using ids that(1) unfolding L by fastforce
      then have "tree_id (snd kt) \<notin> set (page_ids (snd kt'))" using tree_id_page_ids [of "snd kt"] by blast
      then show "\<forall>q \<in> set (page_ids (snd kt')). contents s4 q = contents s2 q" using s4(8) by metis
    qed
    have p_kids: "p \<notin> set (kids_page_ids ?L)" using p_out by (auto simp: ab)
    have gp4: "contents s4 p = Some (InternalP g)" using g(1) inv(5,6) out s4(8) [of p] by (simp add: m2)
    obtain s5 s6 where s6: "st_fetch p s4 = Some (pinned p s4)" "st_put p (InternalP g') (pinned p s4) = Some s5"
      "st_unpin p True s5 = Some s6" "kept s4 s6" "contents s6 = (contents s4)(p \<mapsto> InternalP g')"
      using edit_page [OF keptD(1) [OF s4(6)] gp4] .
    have "(do { s \<leftarrow> put_internal q1 l1 s; s \<leftarrow> put_internal q2 l2 s; s \<leftarrow> st_fetch (tree_id (snd kt)) s;
        s \<leftarrow> put_parent (tree_id (snd kt)) to s; child \<leftarrow> get_header (tree_id (snd kt)) s; s \<leftarrow> st_unpin (GetPageId child) True s;
        s \<leftarrow> st_fetch p s; parent \<leftarrow> get_internal c p s;
        parent \<leftarrow> internal_SetKeyAt (f parent) (fst (internal_array y' ! 0)) parent; s \<leftarrow> put_internal p parent s; st_unpin p True s }) = Some s6"
      using s1(1) s2(1) s4(1-5) s6(1-3) get_pinned_internal [OF keptD(1) [OF s4(6)] gp4] g(3) f k' by (simp add: put_internal_def)
    moreover have "pair_moved c gp p A ka a' k' b' B s s6"
      unfolding pair_moved_def
    proof (intro conjI allI impI)
      show "kept s s6" using kept_trans [OF s1(2) kept_trans [OF s2(2) kept_trans [OF s4(6) s6(4)]]] .
      show "cell_at c (contents s6) (p, gp, NodeData (kid_slots (A @ (ka, a') # (k', b') # B)))" by (rule g(4)) (simp add: s6(5))
      have m6: "contents s6 pa = Some (InternalP x')" "contents s6 pb = Some (InternalP y')"
        using inv(4-6) out s4(8) by (simp_all add: s6(5) m2)
      have kids6: "on_pages c (contents s6) (set (cells r (snd kt')))"
        if "kt' \<in> set ?L" and r: "on_pages c (contents s4) (set (cells r (snd kt')))" for kt' r
        by (rule on_pages_tree_cong [OF r]) (use that(1) p_kids in \<open>auto simp: s6(5)\<close>)
      have kt6: "on_pages c (contents s6) (set (cells to (snd kt)))" by (rule kids6 [OF _ s4(7)]) (simp add: L)
      have A6: "on_pages c (contents s6) (set (cells pa (snd kt')))" if "kt' \<in> set X" for kt'
        by (rule kids6 [OF _ rest [OF _ kidA]]) (use that kt in auto)
      have B6: "on_pages c (contents s6) (set (cells pb (snd kt')))" if "kt' \<in> set Y" for kt'
        by (rule kids6 [OF _ rest [OF _ kidB]]) (use that kt in auto)
      have "\<forall>kt' \<in> set (take m ?L). on_pages c (contents s6) (set (cells pa (snd kt')))"
        "\<forall>kt' \<in> set (drop m ?L). on_pages c (contents s6) (set (cells pb (snd kt')))"
        using kt A6 B6 kt6 inv(4) by (auto simp del: take_append drop_append)
      then have "on_pages c (contents s6) (set (kids_cells pa (take m ?L))) \<and> on_pages c (contents s6) (set (kids_cells pb (drop m ?L)))"
        unfolding on_pages_def by (simp del: take_append drop_append)
      moreover have "cell_at c (contents s6) (pa, p, NodeData (kid_slots (take m ?L)))" "cell_at c (contents s6) (pb, p, NodeData (kid_slots (drop m ?L)))"
        using node_cellI [OF x'(2), of pa p c "contents s6"] node_cellI [OF y'(2), of pb p c "contents s6"] internal_meta_simps [OF x'(3)]
          internal_meta_simps [OF y'(3)] x(4-7) y(4-7) x'(1) y'(1) m6 by simp_all
      ultimately show "on_pages c (contents s6) (set (cells p a') \<union> set (cells p b'))" unfolding a' by (simp del: take_append drop_append)
      have ids': "set (page_ids a') \<union> set (page_ids b') = {pa, pb} \<union> set (kids_page_ids ?L)"
      proof -
        have "set (kids_page_ids ?L) = set (kids_page_ids (take m ?L)) \<union> set (kids_page_ids (drop m ?L))"
          using kids_split [of "\<lambda>kt. page_ids (snd kt)" m ?L] by (metis set_append)
        then show ?thesis unfolding a' by auto
      qed
      show "contents s6 q = contents s q" if "q \<noteq> p" "q \<notin> set (page_ids a')" "q \<notin> set (page_ids b')" for q
      proof -
        have "q \<notin> {pa, pb} \<union> set (kids_page_ids ?L)" using that(2,3) ids' by blast
        then have "q \<noteq> pa" "q \<noteq> pb" "q \<noteq> tree_id (snd kt)" using ktid by auto
        then show ?thesis using that(1) s4(8) by (simp add: s6(5) m2)
      qed
      show "next_at (contents s6) q z" if "next_at (contents s) q z" for q z
      proof -
        have "q \<noteq> pa" "q \<noteq> pb" "q \<noteq> p" using that next_at_leaf [OF ca] next_at_leaf [OF cb] next_at_leaf [OF cp] by auto
        then show ?thesis using that s4(9) [of q z] by (simp add: s6(5) m2 next_at_def)
      qed
    qed
    ultimately show ?thesis by blast
  qed
  have get: "get_internal c pa s = Some x" "get_internal c pb s = Some y"
    using inv(2,3) x(1) y(1) by (simp_all add: get_internal_def st_get_def as_internal_def)
  from how show ?thesis
  proof (elim disjE conjE)
    assume h: "i = 0" "nb = pb" "node = pa" "m = Suc (length A')" "2 \<le> length B'" "length A' < internal_max c"
    obtain kt Y where B': "B' = kt # Y" using h(5) by (cases B') auto
    have sz: "0 < size_m y" "size_m x + 1 \<le> max_size_m x" using sizes h(5,6) by linarith+
    obtain y' x' where l: "internal_MoveFirstToEndOf_local y x = Some (hd (internal_entries y), y', x')"
      "internal_entries x' = internal_entries x @ [hd (internal_entries y)]" "internal_entries y' = tl (internal_entries y)"
      "wf_internal y'" "wf_internal x'" "internal_meta y' = internal_meta y" "internal_meta x' = internal_meta x"
      using internal_MoveFirstToEndOf_spec [OF y(2) x(2) sz] .
    have e: "internal_entries x' = kid_slots (take m ?L)" "internal_entries y' = kid_slots (drop m ?L)"
      unfolding l(2,3) x(3) y(3) h(4) B' by simp_all
    have meta: "GetParentPageId y' = p" "GetPageId y' = pb" "GetPageId x' = pa"
      using internal_meta_simps [OF l(6)] internal_meta_simps [OF l(7)] x(4) y(4,5) by (simp_all add: header_defs)
    have "snd (hd (internal_entries y)) = tree_id (snd kt)" by (simp add: y(3) B')
    then show ?thesis
      using finish [where ?q1.0 = pb and ?l1.0 = y' and ?q2.0 = pa and ?l2.0 = x' and x' = x' and y' = y' and f = "internal_ValueIndex pb" and kt = kt and X = A' and Y = Y and to = pa, OF _ g(2) e(1) l(5,7) e(2) l(4,6)] meta
      by (simp add: Redistribute_def h internal_MoveFirstToEndOf_def get l(1) B')
  next
    assume h: "i = int (Suc (length A))" "nb = pa" "node = pb" "Suc m = length A'" "length B' + 1 < internal_max c"
    obtain X kt where A': "A' = X @ [kt]" using h(4) by (cases A' rule: rev_cases) auto
    have sz: "0 < size_m x" "size_m y + 1 < max_size_m y" using sizes h(4,5) by linarith+
    obtain x' y' where l: "internal_MoveLastToFrontOf_local x y = Some (last (internal_entries x), x', y')"
      "internal_entries y' = last (internal_entries x) # internal_entries y" "internal_entries x' = butlast (internal_entries x)"
      "wf_internal x'" "wf_internal y'" "internal_meta x' = internal_meta x" "internal_meta y' = internal_meta y"
      using internal_MoveLastToFrontOf_spec [OF x(2) y(2) sz] .
    have m: "m = length X" using h(4) by (simp add: A')
    have e: "internal_entries x' = kid_slots (take m ?L)" "internal_entries y' = kid_slots (drop m ?L)"
      unfolding l(2,3) x(3) y(3) m A' by simp_all
    have meta: "GetParentPageId y' = p" "GetPageId y' = pb"
      using internal_meta_simps [OF l(7)] y(4,5) by (simp_all add: header_defs)
    have "snd (last (internal_entries x)) = tree_id (snd kt)" by (simp add: x(3) A')
    then show ?thesis
      using finish [where ?q1.0 = pa and ?l1.0 = x' and ?q2.0 = pb and ?l2.0 = y' and x' = x' and y' = y' and f = "\<lambda>_. i" and kt = kt and X = X and Y = B' and to = pb, OF _ h(1) e(1) l(4,6) e(2) l(5,7)] meta h(1) m
      by (simp add: Redistribute_def h internal_MoveLastToFrontOf_def get l(1) A')
  qed
qed

end
