(* ===== verification/BTreeHold.thy ===== *)
theory BTreeHold imports BTreeInsertProps begin

text \<open>
  The pages a transaction holds while it changes the tree: each is pinned and write-latched and listed in
  its page set.  Latch crabbing adds pages on the way down and gives the ones above a safe page
  back, and the end of the operation gives all of them back.
\<close>

section \<open>Giving pages back\<close>

lemma store_inv_updates [simp]:
  "store_inv (s\<lparr>latch := f\<rparr>) = store_inv s" "store_inv (s\<lparr>root_latch := n\<rparr>) = store_inv s"
  "store_inv (s\<lparr>root_locked_cnt := n\<rparr>) = store_inv s" "store_inv (s\<lparr>txn := t\<rparr>) = store_inv s"
  "store_inv (s\<lparr>root_page_id := n\<rparr>) = store_inv s"
  by (simp_all add: store_inv_def)

text \<open>The pages \<open>P\<close> were given back, and \<open>D\<close> of them deleted.\<close>

definition given_back :: "page_id set \<Rightarrow> page_id set \<Rightarrow> ('k, 'v) btree \<Rightarrow> ('k, 'v) btree \<Rightarrow> bool" where
  "given_back P D s s' \<longleftrightarrow> store_inv s' \<and> contents s' = (\<lambda>q. if q \<in> D then None else contents s q) \<and>
     pins s' = (\<lambda>q. if q \<in> P then pins s q - 1 else pins s q) \<and> latch s' = (\<lambda>q. if q \<in> P then 0 else latch s q) \<and>
     next_id s' = next_id s \<and> root_page_id s' = root_page_id s"

lemma free_pages_spec:
  assumes "store_inv s" and "distinct P" and "\<forall>p \<in> set P. latch s p = - 1 \<and> 0 < pins s p"
    and "txn s = Some t" and "deleted_page_set t = D" and "distinct D" and "set D \<subseteq> set P" and "\<forall>p \<in> set D. pins s p = 1"
  shows "\<exists>s'. free_pages True P s = Some s' \<and> given_back (set P) (set D) s s' \<and> root_latch s' = root_latch s \<and>
    root_locked_cnt s' = root_locked_cnt s \<and> txn s' = Some (t\<lparr>deleted_page_set := []\<rparr>)"
  using assms
proof (induction P arbitrary: s t D)
  case Nil
  then have "given_back (set []) (set D) s s" by (simp add: given_back_def fun_eq_iff)
  moreover have "t\<lparr>deleted_page_set := []\<rparr> = t" using Nil by (simp add: txn_pages.equality)
  ultimately show ?case using Nil by simp
next
  case (Cons p P)
  define s1 where "s1 = s\<lparr>latch := (latch s)(p := 0)\<rparr>"
  have u1: "Unlock True p s = Some s1" using Cons.prems(3) by (simp add: Unlock_def st_wunlatch_def s1_def)
  have i1: "store_inv s1" using Cons.prems(1) by (simp add: s1_def)
  define s2 where "s2 = s1\<lparr>pins := (pins s)(p := pins s p - 1), pending := pending s - {p}\<rparr>"
  have u2: "st_unpin p True s1 = Some s2" using Cons.prems(3) by (simp add: st_unpin_def s2_def s1_def)
  have i2: "store_inv s2" by (rule store_inv_unpin [OF i1 u2])
  have t2: "txn s2 = Some t" using Cons.prems(4) by (simp add: s2_def s1_def)
  define s3 where "s3 = (if p \<in> set D then (snd (st_delete p s2))\<lparr>txn := Some (t\<lparr>deleted_page_set := remove1 p D\<rparr>)\<rparr> else s2)"
  have run: "free_pages True (p # P) s = free_pages True P s3"
    using u1 u2 t2 Cons.prems(5) by (simp add: s3_def)
  have del: "st_delete p s2 = (True, s2\<lparr>contents := (contents s2)(p := None), pending := pending s2 - {p}\<rparr>)" if "p \<in> set D"
    using that Cons.prems(8) by (simp add: st_delete_def s2_def)
  have i3: "store_inv s3"
    using i2 store_inv_delete [OF i2 del] by (auto simp: s3_def del)
  have f3: "contents s3 = (\<lambda>q. if q = p \<and> p \<in> set D then None else contents s q)" "pins s3 = (pins s)(p := pins s p - 1)"
    "latch s3 = (latch s)(p := 0)" "next_id s3 = next_id s" "root_page_id s3 = root_page_id s" "root_latch s3 = root_latch s"
    "root_locked_cnt s3 = root_locked_cnt s" "txn s3 = Some (t\<lparr>deleted_page_set := remove1 p D\<rparr>)"
    using del t2 Cons.prems(5) by (auto simp: s3_def s2_def s1_def fun_eq_iff remove1_idem)
  have "\<exists>s'. free_pages True P s3 = Some s' \<and> given_back (set P) (set (remove1 p D)) s3 s' \<and> root_latch s' = root_latch s3 \<and>
    root_locked_cnt s' = root_locked_cnt s3 \<and> txn s' = Some ((t\<lparr>deleted_page_set := remove1 p D\<rparr>)\<lparr>deleted_page_set := []\<rparr>)"
  proof (rule Cons.IH)
    show "\<forall>q \<in> set P. latch s3 q = - 1 \<and> 0 < pins s3 q" using Cons.prems(2,3) by (auto simp: f3)
    show "set (remove1 p D) \<subseteq> set P" "\<forall>q \<in> set (remove1 p D). pins s3 q = 1"
      using Cons.prems(6-8) by (auto simp: f3 set_remove1_eq)
  qed (use i3 f3(8) Cons.prems(2,6) in simp_all)
  then obtain s' where s': "free_pages True P s3 = Some s'" "given_back (set P) (set (remove1 p D)) s3 s'"
    "root_latch s' = root_latch s3" "root_locked_cnt s' = root_locked_cnt s3" "txn s' = Some (t\<lparr>deleted_page_set := []\<rparr>)" by auto
  have "given_back (set (p # P)) (set D) s s'"
    using s'(2) Cons.prems(2,6) by (auto simp: given_back_def f3 set_remove1_eq fun_eq_iff)
  then show ?case using s' by (simp add: run f3 del: free_pages.simps)
qed

lemma Free_write:
  assumes "store_inv s" and "txn s = Some t" and "distinct (page_set t)"
    and "\<forall>p \<in> set (page_set t). latch s p = - 1 \<and> 0 < pins s p"
    and "distinct (deleted_page_set t)" and "set (deleted_page_set t) \<subseteq> set (page_set t)"
    and "\<forall>p \<in> set (deleted_page_set t). pins s p = 1"
    and root: "root_latch s = (if b then - 1 else 0)" "root_locked_cnt s = (if b then 1 else 0)"
  shows "\<exists>s'. FreePagesInTransaction True cur s = Some s' \<and> given_back (set (page_set t)) (set (deleted_page_set t)) s s' \<and>
    root_latch s' = 0 \<and> root_locked_cnt s' = 0 \<and> txn s' = Some \<lparr>page_set = [], deleted_page_set = []\<rparr>"
proof -
  define s0 where "s0 = s\<lparr>root_latch := 0, root_locked_cnt := 0\<rparr>"
  have t0: "TryUnlockRootPageId True s = Some s0" using root by (auto simp: TryUnlockRootPageId_def s0_def)
  have i0: "store_inv s0" using assms(1) by (simp add: s0_def)
  obtain s1 where s1: "free_pages True (page_set t) s0 = Some s1" "given_back (set (page_set t)) (set (deleted_page_set t)) s0 s1"
    "root_latch s1 = 0" "root_locked_cnt s1 = 0" "txn s1 = Some (t\<lparr>deleted_page_set := []\<rparr>)"
    using free_pages_spec [OF i0 assms(3), of t "deleted_page_set t"] assms(2,4-7) by (auto simp: s0_def)
  define s2 where "s2 = s1\<lparr>txn := Some \<lparr>page_set = [], deleted_page_set = []\<rparr>\<rparr>"
  have "FreePagesInTransaction True cur s = Some s2"
    using t0 s1(1,5) assms(2) by (simp add: FreePagesInTransaction_def s0_def s2_def)
  moreover have "given_back (set (page_set t)) (set (deleted_page_set t)) s s2"
    using s1(2) by (simp add: given_back_def s2_def s0_def cong: if_cong)
  ultimately show ?thesis using s1(3,4) by (auto simp: s2_def)
qed

section \<open>Holding pages\<close>

text \<open>A writer starts with no latch taken and an empty transaction.\<close>

definition no_pages :: txn_pages where
  "no_pages = \<lparr>page_set = [], deleted_page_set = []\<rparr>"

definition writable :: "('k, 'v) btree \<Rightarrow> bool" where
  "writable s \<longleftrightarrow> store_inv s \<and> (\<forall>q. latch s q = 0) \<and> root_latch s = 0 \<and> root_locked_cnt s = 0 \<and> txn s = Some no_pages"

text \<open>From the state \<open>s\<close> on it has taken the pages \<open>P\<close>, and the root when \<open>b\<close>.\<close>

definition holding :: "page_id list \<Rightarrow> bool \<Rightarrow> ('k, 'v) btree \<Rightarrow> ('k, 'v) btree \<Rightarrow> bool" where
  "holding P b s s' \<longleftrightarrow> store_inv s' \<and> distinct P \<and> contents s' = contents s \<and>
     pins s' = (\<lambda>q. if q \<in> set P then pins s q + 1 else pins s q) \<and> latch s' = (\<lambda>q. if q \<in> set P then - 1 else 0) \<and>
     next_id s' = next_id s \<and> root_page_id s' = root_page_id s \<and> root_latch s' = (if b then - 1 else 0) \<and>
     root_locked_cnt s' = (if b then 1 else 0) \<and> txn s' = Some (add_pages P no_pages)"

lemma holdingD:
  assumes "holding P b s s'"
  shows "store_inv s'" "distinct P" "contents s' = contents s" "pins s' q = (if q \<in> set P then pins s q + 1 else pins s q)"
    "latch s' q = (if q \<in> set P then - 1 else 0)" "next_id s' = next_id s" "root_page_id s' = root_page_id s"
    "root_latch s' = (if b then - 1 else 0)" "root_locked_cnt s' = (if b then 1 else 0)" "txn s' = Some (add_pages P no_pages)"
  using assms by (simp_all add: holding_def)

lemma add_pages_simps [simp]:
  "page_set (add_pages P t) = page_set t @ P" "deleted_page_set (add_pages P t) = deleted_page_set t"
  "page_set no_pages = []" "deleted_page_set no_pages = []"
  by (simp_all add: add_pages_def no_pages_def)

lemma holding_pins: "holding P b s s' \<Longrightarrow> store_inv s \<Longrightarrow> q \<in> set P \<Longrightarrow> 0 < pins s' q"
  using holdingD(4) [of P b s s' q] store_inv_pins [of s q] by simp

text \<open>Taking one more page.\<close>

definition take_page :: "page_id \<Rightarrow> ('k, 'v) btree \<Rightarrow> ('k, 'v) btree" where
  "take_page p s = s\<lparr>pins := (pins s)(p := pins s p + 1), latch := (latch s)(p := - 1)\<rparr>"

lemma take_page_steps:
  assumes "contents s p = Some d" and "latch s p = 0"
  shows "st_fetch p s = Some (pinned p s)" and "Lock True p (pinned p s) = Some (take_page p s)"
  using assms by (simp_all add: st_fetch_def pinned_def Lock_def st_wlatch_def take_page_def)

lemma holding_take:
  assumes "holding P b s s'" and "p \<notin> set P" and "contents s p = Some d"
  shows "\<exists>s''. AddIntoPageSet p (take_page p s') = Some s'' \<and> holding (P @ [p]) b s s''"
proof -
  note h = holdingD [OF assms(1)]
  define s'' where "s'' = (take_page p s')\<lparr>txn := Some (add_pages (P @ [p]) no_pages)\<rparr>"
  have "AddIntoPageSet p (take_page p s') = Some s''"
    using h(10) by (simp add: AddIntoPageSet_def take_page_def s''_def add_pages_def)
  moreover have "store_inv s''"
    using store_inv_pinned [OF h(1), of p d] assms(3) h(3) by (simp add: pinned_def take_page_def s''_def)
  then have "holding (P @ [p]) b s s''"
    using assms(1,2) by (auto simp: holding_def s''_def take_page_def fun_eq_iff)
  ultimately show ?thesis by blast
qed

lemma holding_release:
  assumes hold: "holding P b s s'" and s: "writable s" and p: "p \<notin> set P" "contents s p = Some d"
  shows "\<exists>s1 s2. FreePagesInTransaction True cur (take_page p s') = Some s1 \<and> AddIntoPageSet p s1 = Some s2 \<and> holding [p] False s s2"
proof -
  note h = holdingD [OF hold]
  let ?u = "take_page p s'"
  have i: "store_inv ?u"
    using store_inv_pinned [OF h(1), of p d] p(2) h(3) by (simp add: pinned_def take_page_def)
  have inv: "store_inv s" using s by (simp add: writable_def)
  obtain s1 where s1: "FreePagesInTransaction True cur ?u = Some s1" "given_back (set P) {} ?u s1" "root_latch s1 = 0"
    "root_locked_cnt s1 = 0" "txn s1 = Some no_pages"
  proof -
    have P: "\<forall>q \<in> set P. latch ?u q = - 1 \<and> 0 < pins ?u q"
      using h(5) holding_pins [OF hold inv] p(1) by (auto simp: take_page_def)
    have t: "txn ?u = Some (add_pages P no_pages)" "root_latch ?u = (if b then - 1 else 0)" "root_locked_cnt ?u = (if b then 1 else 0)"
      using h(8-10) by (simp_all add: take_page_def)
    show ?thesis using Free_write [OF i t(1) _ _ _ _ _ t(2,3), of cur] P h(2) that by (auto simp: no_pages_def [symmetric])
  qed
  define s2 where "s2 = s1\<lparr>txn := Some (add_pages [p] no_pages)\<rparr>"
  have "AddIntoPageSet p s1 = Some s2" using s1(5) by (simp add: AddIntoPageSet_def s2_def add_pages_def)
  moreover have "holding [p] False s s2"
    using s1 h(2-10) p(1) by (auto simp: holding_def given_back_def s2_def take_page_def fun_eq_iff)
  ultimately show ?thesis using s1(1) by blast
qed

section \<open>Latch crabbing\<close>

lemma Crab_write_root:
  assumes s: "writable s" and d: "contents s p = Some d" "tree_header d = Some h" and op: "op \<noteq> OP_READ"
    and lock: "LockRootPageId True s = Some s0"
  shows "\<exists>s'. CrabingProtocalFetchPage p op (- 1) s0 = Some s' \<and> holding [p] True s s'"
proof -
  have s0: "s0 = s\<lparr>root_latch := - 1, root_locked_cnt := 1\<rparr>" using s lock by (simp add: LockRootPageId_def writable_def)
  have hold: "holding [] True s s0"
    using s by (auto simp: holding_def s0 writable_def)
  obtain s' where s': "AddIntoPageSet p (take_page p s0) = Some s'" "holding [p] True s s'"
    using holding_take [OF hold, of p d] d(1) by auto
  have steps: "st_fetch p s0 = Some (pinned p s0)" "Lock True p (pinned p s0) = Some (take_page p s0)"
    using take_page_steps [of s0 p d] holdingD(3,5) [OF hold] d(1) by simp_all
  have "st_get p (take_page p s0) = Some d" "txn (take_page p s0) \<noteq> None"
    using d(1) holdingD(3,10) [OF hold] store_inv_pins [of s p] s by (simp_all add: st_get_def take_page_def s0 writable_def)
  then have "CrabingProtocalFetchPage p op (- 1) s0 = Some s'"
    using op steps d(2) s'(1) by (auto simp: CrabingProtocalFetchPage_def)
  then show ?thesis using s'(2) by blast
qed

lemma Crab_write_next:
  assumes s: "writable s" and d: "contents s p = Some d" "tree_header d = Some h" and op: "op \<noteq> OP_READ"
    and hold: "holding P b s s'" and p: "p \<notin> set P" and cur: "cur \<in> set P" "0 < cur" and safe: "isSafe op h = Some safe"
  shows "\<exists>s''. CrabingProtocalFetchPage p op cur s' = Some s'' \<and>
    (if safe then holding [p] False s s'' else holding (P @ [p]) b s s'')"
proof -
  have "contents s' p = Some d" "latch s' p = 0" using d(1) p holdingD(3,5) [OF hold] by simp_all
  note steps = take_page_steps [OF this]
  have get: "st_get p (take_page p s') = Some d" "txn (take_page p s') = Some (add_pages P no_pages)"
    using d(1) holdingD(1,3,10) [OF hold] store_inv_pins [of s' p] by (simp_all add: st_get_def take_page_def)
  show ?thesis
  proof (cases safe)
    case True
    obtain s1 s2 where r: "FreePagesInTransaction True cur (take_page p s') = Some s1" "AddIntoPageSet p s1 = Some s2"
      "holding [p] False s s2" using holding_release [OF hold s p d(1)] by blast
    have "txn s1 \<noteq> None" using r(2) by (auto simp: AddIntoPageSet_def split: option.splits)
    then have "CrabingProtocalFetchPage p op cur s' = Some s2"
      using op steps d(2) r(1,2) get cur(2) safe True by (auto simp: CrabingProtocalFetchPage_def)
    then show ?thesis using r(3) True by simp
  next
    case False
    obtain s2 where r: "AddIntoPageSet p (take_page p s') = Some s2" "holding (P @ [p]) b s s2"
      using holding_take [OF hold p d(1)] by blast
    have "CrabingProtocalFetchPage p op cur s' = Some s2"
      using op steps d(2) r(1) get cur(2) safe False by (auto simp: CrabingProtocalFetchPage_def)
    then show ?thesis using r(2) False by simp
  qed
qed

end
