(* ===== verification/BTreeInsertRun.thy ===== *)
theory BTreeInsertRun imports BTreeHold begin

text \<open>
  The search of a writer with latch crabbing, and an insertion from its call to its return: it
  returns whether the key was new, the tree has the entry, and nothing stays pinned or latched.
\<close>

section \<open>The search of a writer\<close>

definition node_max :: "('k, 'v) tree_params \<Rightarrow> ('k, 'v) tree \<Rightarrow> nat" where
  "node_max c t = cap (leaf_max c) (internal_max c) t"

text \<open>When a node below the root is safe for a writer.\<close>

definition node_safe :: "('k, 'v) tree_params \<Rightarrow> eOpType \<Rightarrow> ('k, 'v) tree \<Rightarrow> bool" where
  "node_safe c op t = (if op = OP_INSERT then node_size t < node_max c t
     else if is_leaf t then node_max c t div 2 + 1 \<le> node_size t else node_max c t div 2 + 1 < node_size t)"

text \<open>The pages of a path that a writer holds: from the last safe one on, or from the root, with
  the latch of the root id.\<close>

inductive crabbed :: "('k, 'v) tree_params \<Rightarrow> eOpType \<Rightarrow> ('k, 'v) tree_frame list \<Rightarrow> ('k, 'v) tree \<Rightarrow> page_id list \<Rightarrow> bool \<Rightarrow> bool"
  for c op where
  root: "crabbed c op [] t [tree_id t] True"
| safe: "node_safe c op t \<Longrightarrow> crabbed c op (f # fs) t [tree_id t] False"
| unsafe: "\<not> node_safe c op t \<Longrightarrow> crabbed c op fs (Node p (L @ (k, t) # R)) P b \<Longrightarrow>
    crabbed c op ((p, L, k, R) # fs) t (P @ [tree_id t]) b"

lemma crabbed_in: "crabbed c op fs t P b \<Longrightarrow> tree_id t \<in> set P \<and> set P \<subseteq> set (tree_id t # frame_ids fs)"
  by (induction rule: crabbed.induct) (auto simp: frame_ids_def)

lemma tree_cell_size:
  "\<exists>nd. (tree_id t, par, nd) \<in> set (cells par t) \<and> (is_leaf t \<longleftrightarrow> (\<exists>es. nd = LeafData es)) \<and>
     (case nd of LeafData es \<Rightarrow> length es | NodeData kps \<Rightarrow> length kps) = node_size t"
  by (cases t) auto

lemma stored_header:
  assumes st: "stored c (plug fs t) m" and c: "slots_ok c"
  obtains d h where "m (tree_id t) = Some d" "tree_header d = Some h" "0 < tree_id t" "page_id_m h = tree_id t"
    "parent_page_id_m h = path_parent fs" "IsLeafPage h \<longleftrightarrow> is_leaf t" "size_m h = int (node_size t)"
    "max_size_m h = int (node_max c t)"
proof -
  obtain nd where nd: "(tree_id t, path_parent fs, nd) \<in> set (cells (path_parent fs) t)"
    "is_leaf t \<longleftrightarrow> (\<exists>es. nd = LeafData es)"
    "(case nd of LeafData es \<Rightarrow> length es | NodeData kps \<Rightarrow> length kps) = node_size t"
    using tree_cell_size by blast
  have cell: "cell_at c m (tree_id t, path_parent fs, nd)" using stored_cells [OF st nd(1)] .
  have pos: "0 < tree_id t" using st by (auto simp: stored_def set_page_ids_plug)
  obtain d h where h: "m (tree_id t) = Some d" "tree_header d = Some h" "page_id_m h = tree_id t"
    "parent_page_id_m h = path_parent fs" "IsLeafPage h \<longleftrightarrow> (\<exists>es. nd = LeafData es)"
    "size_m h = (case nd of LeafData es \<Rightarrow> int (length es) | NodeData kps \<Rightarrow> int (length kps))"
    "max_size_m h + 1 = (case nd of LeafData es \<Rightarrow> leaf_slots (key_size c) | NodeData kps \<Rightarrow> internal_slots (key_size c))"
    using cell_header [OF cell] .
  have "size_m h = int (node_size t)" using h(6) nd(3) by (cases nd) simp_all
  moreover have "max_size_m h = int (node_max c t)"
    using h(7) nd(2) slots_max(3,4) [OF c] by (cases nd) (simp_all add: node_max_def cap_def)
  ultimately show ?thesis using that h(1-5) pos nd(2) by blast
qed

lemma path_parent_pos:
  assumes "stored c (plug (f # fs) t) m"
  shows "0 < path_parent (f # fs)"
proof -
  obtain p L k R where "f = (p, L, k, R)" by (cases f)
  then show ?thesis using assms by (simp add: stored_def set_page_ids_plug)
qed

lemma isSafe_node:
  assumes "op \<noteq> OP_READ" and "parent_page_id_m h \<noteq> INVALID_PAGE_ID" and "IsLeafPage h \<longleftrightarrow> is_leaf t"
    and "size_m h = int (node_size t)" and "max_size_m h = int (node_max c t)"
  shows "isSafe op h = Some (node_safe c op t)"
  using assms by (cases op) (auto simp: isSafe_def node_safe_def GetMinSize_def IsRootPage_def GetSize_def GetMaxSize_def Let_def)

context key_order begin

lemma FindLeafPage_write:
  assumes idx: "index_is c K (Some T) s" and s: "writable s" and c: "comparator c = cmp" and key: "key \<in> K" and op: "op \<noteq> OP_READ"
  obtains fs p es P b s' where "FindLeafPage c key False op s = Some (Some p, s')"
    and "plug fs (Leaf p es) = T" and "in_hole cmp key fs" and "holding P b s s'" and "crabbed c op fs (Leaf p es) P b"
proof -
  have T: "root_page_id s = tree_id T" "stored c T (contents s)" "tree_inv c K T" "slots_ok c"
    using idx by (simp_all add: index_is_def)
  define J where "J = (\<lambda>fs t s'. plug fs t = T \<and> (\<exists>P b. holding P b s s' \<and> crabbed c op fs t P b))"
  have inv: "store_inv s" using s by (simp add: writable_def)
  obtain s0 where lock: "LockRootPageId True s = Some s0" using s by (simp add: LockRootPageId_def writable_def)
  obtain d h where d: "contents s (tree_id T) = Some d" "tree_header d = Some h" "0 < tree_id T"
  proof -
    have "stored c (plug [] T) (contents s)" using T(2) by simp
    from stored_header [OF this T(4)] show ?thesis using that by metis
  qed
  obtain s1 where s1: "CrabingProtocalFetchPage (tree_id T) op (- 1) s0 = Some s1" "holding [tree_id T] True s s1"
    using Crab_write_root [OF s d(1,2) op lock] by blast
  have "\<exists>fs' p es s'. FindLeafPage_loop c key False op (tree_id T) s1 = Some (p, s') \<and>
    J fs' (Leaf p es) s' \<and> plug fs' (Leaf p es) = T \<and> on_path c key False fs'"
  proof (rule FindLeafPage_loop_spec [OF T(2-4) c disjI2 [OF key]])
    fix fs t s' assume "J fs t s'"
    then obtain P b where P: "holding P b s s'" "crabbed c op fs t P b" by (auto simp: J_def)
    then have "tree_id t \<in> set P" using crabbed_in by blast
    then show "contents s' = contents s \<and> 0 < pins s' (tree_id t)"
      using holdingD(3) [OF P(1)] holding_pins [OF P(1) inv] by blast
  next
    fix fs p kts s' i assume j: "J fs (Node p kts) s'" and e: "plug fs (Node p kts) = T" and i: "i < length kts"
    obtain P b where P: "holding P b s s'" "crabbed c op fs (Node p kts) P b" using j by (auto simp: J_def)
    let ?t = "snd (kts ! i)" and ?fs = "sub_frame p kts i # fs"
    have e': "plug ?fs ?t = T" using e plug_sub_frame [OF i] by simp
    have st: "stored c (plug ?fs ?t) (contents s)" using T(2) e' by simp
    obtain d h where d: "contents s (tree_id ?t) = Some d" "tree_header d = Some h" "0 < tree_id ?t"
      "parent_page_id_m h = path_parent ?fs" "IsLeafPage h \<longleftrightarrow> is_leaf ?t" "size_m h = int (node_size ?t)"
      "max_size_m h = int (node_max c ?t)"
      using stored_header [OF st T(4)] by metis
    have "distinct (page_ids ?t @ side_ids ?fs)" using st distinct_page_ids_plug by (auto simp: stored_def)
    then have "tree_id ?t \<notin> set (side_ids ?fs)" using tree_id_page_ids [of ?t] by (simp only: distinct_append) blast
    then have "tree_id ?t \<notin> set (frame_ids ?fs)" using frame_ids_side_ids by blast
    then have out: "tree_id ?t \<notin> set P" using crabbed_in [OF P(2)] by (auto simp: frame_ids_def sub_frame_def)
    have cur: "p \<in> set P" "0 < p" using crabbed_in [OF P(2)] path_parent_pos [OF st] by (simp_all add: sub_frame_def)
    have "isSafe op h = Some (node_safe c op ?t)"
      using isSafe_node [OF op _ d(5-7)] d(4) cur(2) by (simp add: sub_frame_def INVALID_PAGE_ID_def)
    from Crab_write_next [OF s d(1,2) op P(1) out cur this]
    obtain s'' where s'': "CrabingProtocalFetchPage (tree_id ?t) op p s' = Some s''"
      "if node_safe c op ?t then holding [tree_id ?t] False s s'' else holding (P @ [tree_id ?t]) b s s''" by blast
    have "kts = take i kts @ (fst (kts ! i), ?t) # drop (Suc i) kts" using i by (simp add: id_take_nth_drop [symmetric])
    then have P': "crabbed c op fs (Node p (take i kts @ (fst (kts ! i), ?t) # drop (Suc i) kts)) P b" using P(2) by simp
    have "J ?fs ?t s''"
    proof (cases "node_safe c op ?t")
      case True
      then have "holding [tree_id ?t] False s s''" using s''(2) by simp
      moreover have "crabbed c op ?fs ?t [tree_id ?t] False" by (rule crabbed.safe [OF True])
      ultimately show ?thesis using e' unfolding J_def by blast
    next
      case False
      then show ?thesis using s''(2) e' crabbed.unsafe [OF False P'] by (auto simp: J_def sub_frame_def)
    qed
    then show "\<exists>s''. CrabingProtocalFetchPage (tree_id ?t) op p s' = Some s'' \<and> J ?fs ?t s''" using s''(1) by blast
  next
    have "crabbed c op [] T [tree_id T] True" by (rule crabbed.root)
    then show "J [] T s1" using s1(2) unfolding J_def by auto
  qed (simp_all add: on_path_def)
  then obtain fs p es s' where l: "FindLeafPage_loop c key False op (tree_id T) s1 = Some (p, s')"
    "J fs (Leaf p es) s'" "plug fs (Leaf p es) = T" "on_path c key False fs" by blast
  have "s0 = s\<lparr>root_latch := - 1, root_locked_cnt := 1\<rparr>" using s lock by (simp add: LockRootPageId_def writable_def)
  then have "root_page_id s0 = tree_id T" "\<not> IsEmpty s0" "root_page_id s1 = tree_id T"
    using T(1) d(3) holdingD(7) [OF s1(2)] by (simp_all add: IsEmpty_def INVALID_PAGE_ID_def)
  then have "FindLeafPage c key False op s = Some (Some p, s')"
    using l(1) lock s1(1) op by (simp add: FindLeafPage_def)
  moreover obtain P b where "holding P b s s'" "crabbed c op fs (Leaf p es) P b" using l(2) by (auto simp: J_def)
  ultimately show ?thesis using that l(3,4) c by (auto simp: on_path_def)
qed

end

section \<open>Insertion into a tree\<close>

definition ins_entry :: "('k \<Rightarrow> 'k \<Rightarrow> int) \<Rightarrow> 'k \<Rightarrow> 'v \<Rightarrow> ('k \<times> 'v) list \<Rightarrow> ('k \<times> 'v) list" where
  "ins_entry cmp key v es = take (key_pos cmp key es) es @ (key, v) # drop (key_pos cmp key es) es"

text \<open>The tree after an insertion at a leaf; the next page id is \<open>n\<close>.\<close>

definition ins_leaf :: "('k, 'v) tree_params \<Rightarrow> page_id \<Rightarrow> ('k, 'v) tree_frame list \<Rightarrow> page_id \<Rightarrow> ('k \<times> 'v) list \<Rightarrow> ('k, 'v) tree" where
  "ins_leaf c n fs p es = (if length es \<le> leaf_max c then plug fs (Leaf p es)
     else let m = (leaf_max c + 1) div 2 in
       grow_up (internal_max c) (zero_key c) (n + 1) fs (Leaf p (take m es)) (fst (es ! m)) (Leaf n (drop m es)))"

lemma same_ends_ins: "es \<noteq> [] \<Longrightarrow> same_ends key es (ins_entry cmp key v es)"
proof -
  assume ne: "es \<noteq> []"
  let ?i = "key_pos cmp key es"
  have "fst (hd (ins_entry cmp key v es)) \<in> {fst (hd es), key}"
    using hd_take [of ?i es] by (cases "?i = 0") (auto simp: ins_entry_def hd_append)
  moreover have "fst (last (ins_entry cmp key v es)) \<in> {fst (last es), key}"
    using ne by (auto simp: ins_entry_def last_append last_drop)
  ultimately show ?thesis by (simp add: same_ends_def ins_entry_def)
qed

lemma entries_ins_leaf:
  "entries (ins_leaf c n fs p es) = before_hole kids_entries fs @ es @ behind_hole kids_entries fs"
  by (simp add: ins_leaf_def entries_plug entries_grow_up Let_def)

context key_order begin

lemma tree_inv_ins:
  assumes inv: "tree_inv c K (plug fs (Leaf p es))" and sl: "slots_ok c" and c: "comparator c = cmp" and key: "key \<in> K"
    and hole: "in_hole cmp key fs" and new: "map_of es key = None" and es': "es' = ins_entry cmp key v es"
  shows "tree_inv c K (ins_leaf c n fs p es')"
    and "map_of (entries (ins_leaf c n fs p es')) = (map_of (entries (plug fs (Leaf p es))))(key \<mapsto> v)"
proof -
  let ?b = "before_hole kids_entries fs" and ?a = "behind_hole kids_entries fs"
  note leaf = tree_inv_leaf [OF inv sl, unfolded c]
  have sorted: "key_sorted cmp K (?b @ es @ ?a)" and path: "path_ok cmp K fs es"
    using inv by (simp_all add: tree_inv_def c entries_plug search_ok_plug)
  note out = in_hole_outside [OF path key hole sorted]
  have es'_sorted: "key_sorted cmp K es'" using key_sorted_ins [OF leaf(3) key new] by (simp add: es' ins_entry_def)
  have set': "set es' = insert (key, v) (set es)" 
  proof -
    have "set es = set (take (key_pos cmp key es) es) \<union> set (drop (key_pos cmp key es) es)"
      by (metis append_take_drop_id set_append)
    then show ?thesis by (auto simp: es' ins_entry_def)
  qed
  have sorted': "key_sorted cmp K (?b @ es' @ ?a)"
    using sorted es'_sorted out unfolding key_sorted_append set_append set' by auto
  have "same_ends key es es'" unfolding es' by (rule same_ends_ins [OF leaf(1)])
  then have path': "path_ok cmp K fs es'" using path_ok_replace [OF path _ hole] by blast
  obtain h where h: "shape (leaf_max c) (internal_max c) True h (plug fs (Leaf p es))" using inv by (auto simp: tree_inv_def)
  have "h = (h - length fs) + length fs" using shape_plug_height [OF h] by simp
  then have sh: "shape (leaf_max c) (internal_max c) (fs = []) (h - length fs) (Leaf p es)"
    "path_shape (leaf_max c) (internal_max c) (h - length fs) fs" using h shape_plug by metis+
  have h0: "h - length fs = 0" using sh(1) by simp
  have len: "length es' = Suc (length es)" by (simp add: es' ins_entry_def)
  show "tree_inv c K (ins_leaf c n fs p es')"
    unfolding tree_inv_def c entries_ins_leaf
  proof (intro conjI)
    show "key_sorted cmp K (?b @ es' @ ?a)" by (rule sorted')
    show "search_ok cmp K (ins_leaf c n fs p es')"
    proof (cases "length es' \<le> leaf_max c")
      case True
      then show ?thesis using path' by (simp add: ins_leaf_def search_ok_plug)
    next
      case False
      define m where "m = (leaf_max c + 1) div 2"
      have l: "length es' = leaf_max c + 1" "0 < m" "m < length es'"
        using False len leaf(2) slots_max(1) [OF sl] by (simp_all add: m_def)
      have ne: "take m es' \<noteq> []" "drop m es' \<noteq> []" using l by auto
      have k: "fst (es' ! m) \<in> K" using key_sorted_nth_in [OF es'_sorted l(3)] .
      have "cmp (fst (es' ! (m - 1))) (fst (es' ! m)) < 0" using key_sorted_nth [OF es'_sorted, of "m - 1" m] l(2,3) by simp
      moreover have "last (take m es') = es' ! (m - 1)" using l by (subst last_conv_nth [OF ne(1)]) simp
      ultimately have sep: "sep_ok cmp K (key, take m es') (fst (es' ! m), drop m es')"
        using k l(3) cmp_refl [OF k] by (simp add: sep_ok_def hd_drop_conv_nth)
      have "search_ok cmp K (grow_up (internal_max c) (zero_key c) (n + 1) fs (Leaf p (take m es')) (fst (es' ! m)) (Leaf n (drop m es')))"
      proof (rule search_ok_grow_up)
        show "sep_ok cmp K (key, entries (Leaf p (take m es'))) (fst (es' ! m), entries (Leaf n (drop m es')))" using sep by simp
        show "path_shape (leaf_max c) (internal_max c) 0 fs" using sh(2) h0 by simp
      qed (use ne path' slots_max(2) [OF sl] in simp_all)
      then show ?thesis using False by (simp add: ins_leaf_def m_def Let_def)
    qed
    show "\<exists>h. shape (leaf_max c) (internal_max c) True h (ins_leaf c n fs p es')"
    proof (cases "length es' \<le> leaf_max c")
      case True
      have "shape (leaf_max c) (internal_max c) (fs = []) 0 (Leaf p es')" using True sh(1) len by (auto split: if_splits)
      then show ?thesis
        using shape_plug [of "leaf_max c" "internal_max c" 0 fs "Leaf p es'"] sh(2) h0 True by (auto simp: ins_leaf_def)
    next
      case False
      then have l: "length es' = leaf_max c + 1" using len leaf(2) by simp
      have "\<exists>H. shape (leaf_max c) (internal_max c) True H (grow_up (internal_max c) (zero_key c) (n + 1) fs
          (Leaf p (take ((leaf_max c + 1) div 2) es')) (fst (es' ! ((leaf_max c + 1) div 2))) (Leaf n (drop ((leaf_max c + 1) div 2) es')))"
        by (rule shape_grow_up [where h = 0]) (use l sh(2) h0 slots_max [OF sl] in auto)
      then show ?thesis using False by (simp add: ins_leaf_def Let_def)
    qed
    have "path_heads (zero_key c) fs" using inv by (simp add: tree_inv_def heads_ok_plug)
    then show "heads_ok (zero_key c) (ins_leaf c n fs p es')"
      using slots_max(2) [OF sl] by (simp add: ins_leaf_def heads_ok_plug heads_ok_grow_up Let_def)
  qed
  have "map_of (?b @ es' @ ?a) = (map_of (?b @ es @ ?a))(key \<mapsto> v)"
  proof -
    have "map_of es' = (map_of es)(key \<mapsto> v)" using map_of_ins [OF new] by (simp add: es' ins_entry_def)
    moreover have "key \<notin> dom (map_of ?b)"
    proof -
      have "fst e \<noteq> key" if "e \<in> set ?b" for e using out that cmp_refl [OF key] by fastforce
      then show ?thesis by (auto simp: dom_map_of_conv_image_fst)
    qed
    ultimately show ?thesis by (auto simp: map_add_def fun_eq_iff split: option.splits)
  qed
  then show "map_of (entries (ins_leaf c n fs p es')) = (map_of (entries (plug fs (Leaf p es))))(key \<mapsto> v)"
    by (simp add: entries_ins_leaf entries_plug)
qed

end

section \<open>An insertion from call to return\<close>

text \<open>All held pages, old and new, are given back.\<close>

lemma holding_finish:
  assumes hold: "holding P b s s1" and g: "grown N s1 s2" and s: "writable s"
  shows "\<exists>s3. FreePagesInTransaction True cur s2 = Some s3 \<and> writable s3 \<and> pins s3 = pins s \<and> contents s3 = contents s2 \<and>
    next_id s3 = next_id s2 \<and> root_page_id s3 = root_page_id s2"
proof -
  note h = holdingD [OF hold] and gr = grownD [OF g]
  have inv: "store_inv s" using s by (simp add: writable_def)
  have old: "p < next_id s1" if "p \<in> set P" for p
    using holding_pins [OF hold inv that] h(1) unfolding store_inv_def by (metis)
  have disj: "set P \<inter> set N = {}" using old gr(4) by fastforce
  have t: "txn s2 = Some (add_pages (P @ N) no_pages)" using gr(9) h(10) by (simp add: add_pages_append)
  have pages: "\<forall>p \<in> set (page_set (add_pages (P @ N) no_pages)). latch s2 p = - 1 \<and> 0 < pins s2 p"
    using gr(5,6) h(5) holding_pins [OF hold inv] by auto
  have root: "root_latch s2 = (if b then - 1 else 0)" "root_locked_cnt s2 = (if b then 1 else 0)" using gr(7,8) h(8,9) by simp_all
  have d: "distinct (page_set (add_pages (P @ N) no_pages))" using disj h(2) gr(3) by simp
  obtain s3 where s3: "FreePagesInTransaction True cur s2 = Some s3" "given_back (set (P @ N)) {} s2 s3"
    "root_latch s3 = 0" "root_locked_cnt s3 = 0" "txn s3 = Some no_pages"
    using Free_write [OF gr(1) t d pages _ _ _ root, of cur] by (auto simp: no_pages_def [symmetric])
  have "pins s3 = pins s"
  proof
    fix q
    have "pins s q = 0" if "q \<in> set N"
      using that gr(4) h(6) store_inv_fresh [OF inv, of q] by auto
    then show "pins s3 q = pins s q" using s3(2) gr(5) h(4) disj by (auto simp: given_back_def)
  qed
  moreover have "latch s3 q = 0" for q using s3(2) gr(6) h(5) by (auto simp: given_back_def)
  ultimately show ?thesis using s3 by (auto simp: writable_def given_back_def)
qed

text \<open>A new leaf in the chain of the leaves.\<close>

lemma chain_split:
  assumes "successively (next_at m) (A @ p # B)" and "p \<notin> set A" "p \<notin> set B" and "B \<noteq> []"
    and "\<And>q x. q \<noteq> p \<Longrightarrow> next_at m q x \<Longrightarrow> next_at m' q x" and "next_at m' p n"
    and "\<And>x. next_at m p x \<Longrightarrow> next_at m' n x"
  shows "successively (next_at m') (A @ p # n # B)"
proof -
  have keep: "successively (next_at m') xs" if xs: "successively (next_at m) xs" "p \<notin> set xs" for xs
  proof (rule successively_mono [OF xs(1)])
    fix x y assume "x \<in> set xs" "next_at m x y"
    then show "next_at m' x y" using xs(2) assms(5) [of x y] by metis
  qed
  have s: "successively (next_at m) A" "successively (next_at m) B" "next_at m p (hd B)" "A \<noteq> [] \<longrightarrow> next_at m (last A) p"
    using assms(1,4) by (auto simp: successively_append_iff successively_Cons)
  have "A \<noteq> [] \<longrightarrow> next_at m' (last A) p" using s(4) assms(2,5) last_in_set by metis
  then show ?thesis
    using keep [OF s(1) assms(2)] keep [OF s(2) assms(3)] assms(6,7) s(3)
    by (auto simp: successively_append_iff successively_Cons)
qed

lemma leaf_chain_hole:
  assumes "stored c (plug fs (Leaf p es)) m"
  shows "p \<notin> set (before_hole kids_leaf_ids fs)" and "p \<notin> set (behind_hole kids_leaf_ids fs @ [INVALID_PAGE_ID])"
proof -
  have sub: "set (kids_leaf_ids kts) \<subseteq> set (kids_page_ids kts)" for kts :: "('a, 'b) kids"
    using leaf_ids_page_ids by fastforce
  have b: "set (before_hole kids_leaf_ids fs) \<union> set (behind_hole kids_leaf_ids fs) \<subseteq> set (side_ids fs)"
  proof (induction fs rule: side_ids.induct)
    case (2 q L k R fs)
    then show ?case using sub [of L] sub [of R] by (simp only: before_hole.simps behind_hole.simps side_ids.simps set_append set_simps) blast
  qed simp
  have "distinct (page_ids (Leaf p es) @ side_ids fs)" "0 < p"
    using assms distinct_page_ids_plug [of fs "Leaf p es"] by (auto simp: stored_def set_page_ids_plug)
  then show "p \<notin> set (before_hole kids_leaf_ids fs)" and "p \<notin> set (behind_hole kids_leaf_ids fs @ [INVALID_PAGE_ID])"
    using b by (auto simp: INVALID_PAGE_ID_def)
qed

definition insert_done ::
  "bool \<Rightarrow> ('k, 'v) tree_params \<Rightarrow> 'k set \<Rightarrow> ('k, 'v) tree \<Rightarrow> ('k \<rightharpoonup> 'v) \<Rightarrow> ('k, 'v) btree \<Rightarrow> ('k, 'v) btree \<Rightarrow> bool" where
  "insert_done e c K T m s s' \<longleftrightarrow> index_is c K (Some T) s' \<and> writable s' \<and> pins s' = pins s \<and>
     root_recorded e c (tree_id T) (contents s') \<and> map_of (entries T) = m"

context key_order begin

lemma InsertIntoLeaf_spec:
  assumes idx: "index_is c K (Some T) s" and s: "writable s" and c: "comparator c = cmp" and key: "key \<in> K"
    and recorded: "root_recorded e c (tree_id T) (contents s)"
  shows "\<exists>s' T'. InsertIntoLeaf c key v s = Some (map_of (entries T) key = None, s') \<and>
    insert_done e c K T' (if map_of (entries T) key = None then (map_of (entries T))(key \<mapsto> v) else map_of (entries T)) s s'"
proof -
  have T: "root_page_id s = tree_id T" "stored c T (contents s)" "tree_inv c K T" "slots_ok c"
    using idx by (simp_all add: index_is_def)
  have inv: "store_inv s" using s by (simp add: writable_def)
  obtain fs p es P b s1 where f: "FindLeafPage c key False OP_INSERT s = Some (Some p, s1)" "plug fs (Leaf p es) = T"
    "in_hole cmp key fs" "holding P b s s1" "crabbed c OP_INSERT fs (Leaf p es) P b"
    by (rule FindLeafPage_write [OF idx s c key eOpType.distinct(2)]) blast
  note h = holdingD [OF f(4)]
  have st: "stored c (plug fs (Leaf p es)) (contents s)" and ti: "tree_inv c K (plug fs (Leaf p es))" using T f(2) by simp_all
  note leaf = tree_inv_leaf [OF ti T(4), unfolded c]
  obtain l where l: "contents s p = Some (LeafP l)" "wf_leaf l" "leaf_entries l = es" "page_id_m l = p"
    "parent_page_id_m l = path_parent fs" "max_size_m l + 1 = leaf_slots (key_size c)"
    "int (length (leaf_array l)) = leaf_slots (key_size c)"
    using stored_leaf [OF st] .
  have "p \<in> set P" using crabbed_in [OF f(5)] by simp
  then have pin: "0 < pins s1 p" using holding_pins [OF f(4) inv] by blast
  have get: "get_leaf c p s1 = Some l" using l(1) pin h(3) by (simp add: get_leaf_def st_get_def as_leaf_def)
  have look: "leaf_Lookup cmp key l = map_of (entries T) key"
    using leaf_Lookup_eq [OF l(2), of key] map_of_leaf [OF ti c key f(3)] leaf(3) l(3) key f(2) by simp
  show ?thesis
  proof (cases "map_of (entries T) key")
    case (Some w)
    obtain s3 where s3: "FreePagesInTransaction True (- 1) s1 = Some s3" "writable s3" "pins s3 = pins s"
      "contents s3 = contents s1" "root_page_id s3 = root_page_id s1"
      using holding_finish [OF f(4) kept_grown [OF kept_refl [OF h(1)]] s] by blast
    have "InsertIntoLeaf c key v s = Some (False, s3)"
      using f(1) get look Some s3(1) by (simp add: InsertIntoLeaf_def c)
    moreover have "index_is c K (Some T) s3" using T h(3,7) s3(4,5) by (simp add: index_is_def)
    ultimately show ?thesis using Some s3 recorded h(3) by (auto simp: insert_done_def)
  next
    case None
    then have new: "map_of es key = None" using map_of_leaf [OF ti c key f(3)] f(2) by simp
    let ?es = "ins_entry cmp key v es" and ?n = "next_id s"
    have room: "size_m l \<le> max_size_m l"
      using leaf(2) l(3,6) leaf_size_entries [OF l(2)] slots_max(3) [OF T(4)] by simp
    obtain l' where l': "leaf_Insert cmp key v l = Some (size_m l + 1, l')" "leaf_entries l' = ?es" "wf_leaf l'"
      "leaf_meta l' = leaf_meta l" "size_m l' = size_m l + 1"
      using leaf_Insert_spec [OF l(2) _ key room] leaf(3) l(3) by (metis ins_entry_def)
    obtain s2 where s2: "st_put p (LeafP l') s1 = Some s2" "kept s1 s2" "contents s2 = (contents s1)(p \<mapsto> LeafP l')"
      using put_step [OF h(1) pin] .
    have m2: "contents s2 = (contents s)(p \<mapsto> LeafP l')" using s2(3) h(3) by simp
    have len: "length ?es = Suc (length es)" by (simp add: ins_entry_def)
    have more: "GetSize l' > GetMaxSize l' \<longleftrightarrow> leaf_max c < length ?es"
      using l'(5) internal_meta_simps leaf_meta_simps(1) [OF l'(4)] l(3,6) leaf_size_entries [OF l(2)] slots_max(3) [OF T(4)] len
      by (auto simp: header_defs)
    have cell2: "cell_at c (contents s2) (p, path_parent fs, LeafData ?es)"
      using leaf_cellI [OF l'(3), of p "path_parent fs" c "contents s2"] leaf_meta_simps [OF l'(4)] l(4-7) l'(2) by (simp add: m2)
    have ids: "distinct (page_ids (Leaf p es) @ side_ids fs)" "\<forall>q \<in> set (page_ids (Leaf p es) @ side_ids fs). 0 < q"
      using st distinct_page_ids_plug [of fs "Leaf p es"] by (auto simp: stored_def set_page_ids_plug)
    have path2: "on_pages c (contents s2) (set (path_cells p fs))"
    proof (rule on_pages_path_cong)
      show "on_pages c (contents s) (set (path_cells p fs))" using st by (simp add: on_pages_def stored_def set_cells_plug)
      show "\<forall>q \<in> set (side_ids fs). contents s2 q = contents s q" using ids(1) by (auto simp: m2)
    qed
    have next2: "next_at (contents s2) q x" if "next_at (contents s) q x" for q x
      using that l(1) leaf_meta_simps(4) [OF l'(4)] by (auto simp: next_at_def m2)
    have chain: "successively (next_at (contents s)) (before_hole kids_leaf_ids fs @ p # behind_hole kids_leaf_ids fs @ [INVALID_PAGE_ID])"
      using st by (simp add: stored_def leaf_ids_plug)
    have hdr2: "root_recorded e c (tree_id T) (contents s2)"
      using recorded ids(2) by (auto simp: root_recorded_def m2 HEADER_PAGE_ID_def)
    let ?T = "ins_leaf c ?n fs p ?es"
    note ins = tree_inv_ins [OF ti T(4) c key f(3) new refl, of ?n v]
    have "\<exists>N s4. (if GetSize l' > GetMaxSize l' then
                    do { (new_leaf_page, s) \<leftarrow> Split_leaf c p s2;
                         n \<leftarrow> get_leaf c new_leaf_page s;
                         k \<leftarrow> leaf_KeyAt 0 n;
                         InsertIntoParent c p k new_leaf_page s }
                  else Some s2) = Some s4 \<and> grown N s1 s4 \<and> stored c ?T (contents s4) \<and> root_page_id s4 = tree_id ?T \<and>
        root_recorded e c (tree_id ?T) (contents s4)"
    proof (cases "leaf_max c < length ?es")
      case False
      then have T': "?T = plug fs (Leaf p ?es)" by (simp add: ins_leaf_def)
      have tid: "tree_id ?T = tree_id T" unfolding T' f(2) [symmetric] by (rule tree_id_plug) simp
      have "stored c ?T (contents s2)"
        unfolding stored_def T'
      proof (intro conjI)
        show "\<forall>x \<in> set (cells INVALID_PAGE_ID (plug fs (Leaf p ?es))). cell_at c (contents s2) x"
          using cell2 path2 by (auto simp: set_cells_plug on_pages_def)
        show "successively (next_at (contents s2)) (leaf_ids (plug fs (Leaf p ?es)) @ [INVALID_PAGE_ID])"
          using chain by (simp add: leaf_ids_plug) (erule successively_mono, rule next2)
        show "distinct (page_ids (plug fs (Leaf p ?es)))" using ids(1) by (simp add: distinct_page_ids_plug)
        show "\<forall>q \<in> set (page_ids (plug fs (Leaf p ?es))). 0 < q" using ids(2) by (simp add: set_page_ids_plug)
      qed
      moreover have "root_page_id s2 = tree_id ?T" using keptD(5) [OF s2(2)] h(7) T(1) tid by simp
      ultimately show ?thesis using False more kept_grown [OF s2(2)] hdr2 tid by (intro exI [of _ "[]"] exI [of _ s2]) simp
    next
      case True
      define m where "m = (leaf_max c + 1) div 2"
      have full: "length ?es = leaf_max c + 1" using True len leaf(2) by simp
      have ml: "0 < m" "m < length ?es" using full slots_max(1) [OF T(4)] by (simp_all add: m_def)
      note k2 = keptD [OF s2(2)]
      have n2: "next_id s2 = ?n" using k2(4) h(6) by simp
      have old: "p < ?n" using store_inv_less [OF inv l(1)] by simp
      have lt: "latch s2 q = 0" if "?n \<le> q" for q
      proof -
        have "q \<notin> set P" using that holding_pins [OF f(4) inv, of q] h(1,6) store_inv_fresh [OF h(1), of q] by fastforce
        then show ?thesis using h(5) k2(3) by simp
      qed
      have tx: "txn s2 \<noteq> None" using k2(8) h(10) by simp
      have pin2: "0 < pins s2 p" using k2(2) pin by simp
      obtain s3 where s3: "Split_leaf c p s2 = Some (?n, s3)" "grown [?n] s2 s3" "next_id s3 = ?n + 1"
        "root_page_id s3 = root_page_id s2" "cell_at c (contents s3) (p, path_parent fs, LeafData (take m ?es))"
        "cell_at c (contents s3) (?n, path_parent fs, LeafData (drop m ?es))"
        "\<And>q. q \<noteq> p \<Longrightarrow> q \<noteq> ?n \<Longrightarrow> contents s3 q = contents s2 q"
        "next_at (contents s3) p ?n" "\<And>x. next_at (contents s2) p x \<Longrightarrow> next_at (contents s3) ?n x"
        by (rule Split_leaf_spec [OF k2(1) _ tx T(4) pin2 cell2 full m_def, unfolded n2]) (use lt in auto)
      have key0: "\<exists>x. get_leaf c ?n s3 = Some x \<and> leaf_KeyAt 0 x = Some (fst (?es ! m))"
      proof -
        obtain x where x: "contents s3 ?n = Some (LeafP x)" "wf_leaf x" "leaf_entries x = drop m ?es"
          using leaf_cell [OF s3(6)] by metis
        have "get_leaf c ?n s3 = Some x" using x(1) grownD(5) [OF s3(2), of ?n] by (simp add: get_leaf_def st_get_def as_leaf_def)
        moreover have sz: "0 < size_m x" using leaf_size_entries [OF x(2)] x(3) ml(2) by simp
        moreover have "leaf_array x ! 0 = leaf_entries x ! 0" using leaf_entries_nth [OF x(2), of 0] sz by simp
        ultimately show ?thesis using x(3) ml(2) by (simp add: leaf_KeyAt_def header_defs)
      qed
      let ?A = "Leaf p (take m ?es)" and ?B = "Leaf ?n (drop m ?es)"
      have side: "p \<notin> set (side_ids fs)" "?n \<notin> set (side_ids fs)"
      proof -
        show "p \<notin> set (side_ids fs)" using ids(1) by simp
        show "?n \<notin> set (side_ids fs)"
        proof
          assume "?n \<in> set (side_ids fs)"
          then have "?n \<in> fst ` set (path_cells p fs)" by (simp add: fst_path_cells)
          then show False
            using path2 store_inv_fresh [OF inv order_refl] old unfolding on_pages_def cell_at_def by (fastforce simp: m2)
        qed
      qed
      have path3: "on_pages c (contents s3) (set (path_cells p fs))"
      proof (rule on_pages_path_cong [OF path2], rule ballI)
        fix q assume "q \<in> set (side_ids fs)"
        then show "contents s3 q = contents s2 q" using s3(7) side by metis
      qed
      have n0: "0 < ?n" using old ids(2) by simp
      have ids3: "distinct (page_ids ?A @ page_ids ?B @ side_ids fs)" "\<forall>q \<in> set (page_ids ?A @ page_ids ?B @ side_ids fs). 0 < q"
        using ids side old n0 by auto
      have hd3: "root_recorded e c (tree_id T) (contents s3)"
        using hdr2 s3(7) [of HEADER_PAGE_ID] ids(2) n0 by (auto simp: root_recorded_def HEADER_PAGE_ID_def)
      have root3: "root_page_id s3 = tree_id (plug fs ?A)"
        using s3(4) k2(5) h(7) T(1) f(2) tree_id_plug [of "Leaf p es" ?A fs] by simp
      have pre: "split_in e c fs ?A ?B s3"
        unfolding split_in_def
      proof (intro conjI)
        show "store_inv s3" "txn s3 \<noteq> None" using grownD(1,9) [OF s3(2)] tx by simp_all
        show "\<forall>q. next_id s3 \<le> q \<longrightarrow> latch s3 q = 0" using grownD(6) [OF s3(2)] lt s3(3) by simp
        show "0 < pins s3 (tree_id ?A)" "0 < pins s3 (tree_id ?B)" using grownD(5) [OF s3(2)] pin2 by simp_all
        show "on_pages c (contents s3) (set (cells (path_parent fs) ?A) \<union> set (cells (path_parent fs) ?B) \<union> set (path_cells (tree_id ?A) fs))"
          using s3(5,6) path3 by simp
        show "root_recorded e c (root_page_id s3) (contents s3)"
          using hd3 s3(4) k2(5) h(7) T(1) by simp
      qed (rule ids3 root3)+
      obtain H where H: "shape (leaf_max c) (internal_max c) True H (plug fs (Leaf p es))" using ti by (auto simp: tree_inv_def)
      have "H = (H - length fs) + length fs" using shape_plug_height [OF H] by simp
      then have shape: "path_shape (leaf_max c) (internal_max c) (H - length fs) fs" using H shape_plug by metis
      have T': "?T = grow_up (internal_max c) (zero_key c) (next_id s3) fs ?A (fst (?es ! m)) ?B"
        using True by (simp add: ins_leaf_def m_def Let_def s3(3))
      obtain s4 N where s4: "InsertIntoParent c (tree_id ?A) (fst (?es ! m)) (tree_id ?B) s3 = Some s4"
        "tree_grown e c (split_ids fs ?A ?B) ?T N s3 s4"
        using InsertIntoParent_spec [OF pre T(4) shape] unfolding T' by blast
      have "stored c ?T (contents s4)"
        unfolding stored_def
      proof (intro conjI)
        show "\<forall>x \<in> set (cells INVALID_PAGE_ID ?T). cell_at c (contents s4) x"
          using s4(2) by (simp add: tree_grown_def on_pages_def)
        note hole = leaf_chain_hole [OF st]
        have "successively (next_at (contents s3)) (before_hole kids_leaf_ids fs @ p # ?n # behind_hole kids_leaf_ids fs @ [INVALID_PAGE_ID])"
        proof (rule chain_split [OF chain hole])
          show "next_at (contents s3) q x" if "q \<noteq> p" "next_at (contents s) q x" for q x
          proof -
            have "q \<noteq> ?n" using that(2) store_inv_fresh [OF inv order_refl] by (auto simp: next_at_def)
            then show ?thesis using next2 [OF that(2)] s3(7) [OF that(1)] by (simp add: next_at_def)
          qed
        qed (use s3(8,9) next2 in auto)
        then show "successively (next_at (contents s4)) (leaf_ids ?T @ [INVALID_PAGE_ID])"
          unfolding T' leaf_ids_grow_up using s4(2) by (simp add: tree_grown_def) (erule successively_mono, blast)
        have lt3: "\<forall>q \<in> set (page_ids ?A @ page_ids ?B @ side_ids fs). 0 < q \<and> q < next_id s3"
        proof
          fix q assume q: "q \<in> set (page_ids ?A @ page_ids ?B @ side_ids fs)"
          have "contents s3 q \<noteq> None"
          proof (cases "q \<in> set (side_ids fs)")
            case True
            then have "q \<in> fst ` set (path_cells p fs)" by (simp add: fst_path_cells)
            then show ?thesis using path3 unfolding on_pages_def cell_at_def by fastforce
          next
            case False
            then show ?thesis using q s3(5,6) by (auto simp: cell_at_def)
          qed
          then show "0 < q \<and> q < next_id s3" using ids3(2) q store_inv_less [OF grownD(1) [OF s3(2)]] by blast
        qed
        have "0 < next_id s3" using n0 s3(3) by simp
        from distinct_grow_up [OF ids3(1) lt3 this, of "internal_max c" "zero_key c" "fst (?es ! m)"]
        show "distinct (page_ids ?T)" "\<forall>q \<in> set (page_ids ?T). 0 < q" unfolding T' by blast+
      qed
      moreover have "grown ([?n] @ N) s1 s4"
        using kept_grown_trans [OF s2(2) grown_trans [OF s3(2)]] s4(2) by (simp add: tree_grown_def)
      moreover have "(if GetSize l' > GetMaxSize l' then
                    do { (new_leaf_page, s) \<leftarrow> Split_leaf c p s2;
                         n \<leftarrow> get_leaf c new_leaf_page s;
                         k \<leftarrow> leaf_KeyAt 0 n;
                         InsertIntoParent c p k new_leaf_page s }
                  else Some s2) = Some s4"
        using key0 s4(1) s3(1) True more by auto
      ultimately show ?thesis using s4(2) unfolding tree_grown_def by blast
    qed
    then obtain N s4 where s4: "(if GetSize l' > GetMaxSize l' then
                    do { (new_leaf_page, s) \<leftarrow> Split_leaf c p s2;
                         n \<leftarrow> get_leaf c new_leaf_page s;
                         k \<leftarrow> leaf_KeyAt 0 n;
                         InsertIntoParent c p k new_leaf_page s }
                  else Some s2) = Some s4" "grown N s1 s4" "stored c ?T (contents s4)" "root_page_id s4 = tree_id ?T"
        "root_recorded e c (tree_id ?T) (contents s4)" by blast
    obtain s5 where s5: "FreePagesInTransaction True (- 1) s4 = Some s5" "writable s5" "pins s5 = pins s"
      "contents s5 = contents s4" "root_page_id s5 = root_page_id s4"
      using holding_finish [OF f(4) s4(2) s] by blast
    have "InsertIntoLeaf c key v s = Some (True, s5)"
      unfolding InsertIntoLeaf_def f(1) Option.bind.bind_lunit
      using get look None l'(1) s2(1) s4(1) s5(1) by (simp add: c put_leaf_def)
    moreover have "index_is c K (Some ?T) s5" using s4(3,4) s5(4,5) T(4) ins(1) by (simp add: index_is_def)
    ultimately show ?thesis
      using None s5 s4(5) ins(2) f(2) by (intro exI [of _ s5] exI [of _ ?T]) (simp add: insert_done_def)
  qed
qed

end

end
