(* ===== verification/BTreeSibling.thy ===== *)
theory BTreeSibling imports BTreeMerge BTreeInsertRun begin

text \<open>
  The steps of \<open>CoalesceOrRedistribute\<close> on the store: the sibling is taken into the page set, two
  nodes are merged or share a slot, and the root hands over to its only child.
\<close>

section \<open>Pages taken\<close>

definition take_pages :: "page_id list \<Rightarrow> page_id list \<Rightarrow> txn_pages \<Rightarrow> txn_pages" where
  "take_pages N D t = \<lparr>page_set = page_set t @ N, deleted_page_set = D @ deleted_page_set t\<rparr>"

text \<open>The pages \<open>N\<close> were pinned, latched and put into the page set, and \<open>D\<close> into the set of deleted pages.\<close>

definition taken :: "page_id list \<Rightarrow> page_id list \<Rightarrow> ('k, 'v) btree \<Rightarrow> ('k, 'v) btree \<Rightarrow> bool" where
  "taken N D s s' \<longleftrightarrow> store_inv s' \<and> distinct N \<and> pins s' = (\<lambda>q. if q \<in> set N then pins s q + 1 else pins s q) \<and>
     latch s' = (\<lambda>q. if q \<in> set N then - 1 else latch s q) \<and> next_id s' = next_id s \<and> root_latch s' = root_latch s \<and>
     root_locked_cnt s' = root_locked_cnt s \<and> txn s' = map_option (take_pages N D) (txn s)"

lemma takenD:
  assumes "taken N D s s'"
  shows "store_inv s'" "distinct N" "pins s' q = (if q \<in> set N then pins s q + 1 else pins s q)"
    "latch s' q = (if q \<in> set N then - 1 else latch s q)" "next_id s' = next_id s" "root_latch s' = root_latch s"
    "root_locked_cnt s' = root_locked_cnt s" "txn s' = map_option (take_pages N D) (txn s)"
  using assms by (simp_all add: taken_def)

lemma take_pages_Nil [simp]: "take_pages [] [] t = t"
  by (simp add: take_pages_def)

lemma take_pages_take [simp]: "take_pages M E (take_pages N D t) = take_pages (N @ M) (E @ D) t"
  by (simp add: take_pages_def)

lemma take_pages_sel [simp]:
  "page_set (take_pages N D t) = page_set t @ N" "deleted_page_set (take_pages N D t) = D @ deleted_page_set t"
  by (simp_all add: take_pages_def)

lemma kept_taken: "kept s s' \<Longrightarrow> taken [] [] s s'"
  by (cases "txn s") (simp_all add: kept_def taken_def)

lemma taken_trans: "taken N D s s' \<Longrightarrow> taken M E s' s'' \<Longrightarrow> set N \<inter> set M = {} \<Longrightarrow> taken (N @ M) (E @ D) s s''"
  by (cases "txn s") (auto simp: taken_def fun_eq_iff)

lemma taken_kept: "taken N D s s' \<Longrightarrow> kept s' s'' \<Longrightarrow> taken N D s s''"
  using taken_trans [of N D s s' "[]" "[]" s''] kept_taken by force

lemma kept_taken_trans: "kept s s' \<Longrightarrow> taken N D s' s'' \<Longrightarrow> taken N D s s''"
  using taken_trans [of "[]" "[]" s s' N D s''] kept_taken by force

lemma taken_unpin:
  assumes "taken N D (pinned p s) s'" and "store_inv s" and "p \<notin> set N" and "b \<or> 0 < pins s p"
  obtains s'' where "st_unpin p b s' = Some s''" "taken N D s s''" "contents s'' = contents s'" "root_page_id s'' = root_page_id s'"
proof -
  have pin: "pins s' p = pins s p + 1" "0 \<le> pins s p" using takenD(3) [OF assms(1), of p] assms(3) store_inv_pins [OF assms(2)] by simp_all
  define s'' where "s'' = s'\<lparr>pins := (pins s')(p := pins s p), pending := (if b then pending s' - {p} else pending s')\<rparr>"
  have u: "st_unpin p b s' = Some s''" using pin assms(4) by (auto simp: st_unpin_def s''_def)
  have i: "store_inv s''" using store_inv_unpin [OF takenD(1) [OF assms(1)] u] .
  have "taken N D s s''" using assms(1,3) i by (auto simp: taken_def s''_def fun_eq_iff)
  then show ?thesis using u by (intro that [of s'']) (simp_all add: s''_def)
qed

lemma taken_pins: "taken N D s s' \<Longrightarrow> 0 < pins s q \<Longrightarrow> 0 < pins s' q"
  using takenD(3) [of N D s s' q] by simp

section \<open>The sibling\<close>

lemma Crab_sibling:
  assumes "store_inv s" and "contents s p = Some d" and "tree_header d = Some h" and "latch s p = 0" and "txn s = Some tx"
  obtains s' where "CrabingProtocalFetchPage p OP_DELETE (- 1) s = Some s'" "taken [p] [] s s'" "contents s' = contents s"
    "root_page_id s' = root_page_id s"
proof -
  define s' where "s' = (take_page p s)\<lparr>txn := Some (take_pages [p] [] tx)\<rparr>"
  have get: "st_get p (take_page p s) = Some d" using assms(2) store_inv_pins [OF assms(1), of p] by (simp add: st_get_def take_page_def)
  have t: "txn (take_page p s) = Some tx" using assms(5) by (simp add: take_page_def)
  have "AddIntoPageSet p (take_page p s) = Some s'"
    unfolding AddIntoPageSet_def t s'_def by (simp add: take_pages_def)
  then have run: "CrabingProtocalFetchPage p OP_DELETE (- 1) s = Some s'"
    using take_page_steps [OF assms(2,4)] get t assms(3) by (simp add: CrabingProtocalFetchPage_def)
  have "store_inv s'"
    using store_inv_pinned [OF assms(1,2)] by (simp add: pinned_def take_page_def s'_def)
  then have "taken [p] [] s s'" using assms(5) by (auto simp: taken_def s'_def take_page_def fun_eq_iff)
  then show ?thesis using that [OF run] by (simp add: s'_def take_page_def)
qed

lemma node_kid:
  assumes "cell_at c m (p, gp, NodeData (kid_slots kts))" and "distinct (map snd (kid_slots kts))"
  obtains g where "m p = Some (InternalP g)" "wf_internal g" "internal_entries g = kid_slots kts" "page_id_m g = p"
    "size_m g = int (length kts)" "\<And>j. j < length kts \<Longrightarrow> internal_ValueIndex (tree_id (snd (kts ! j))) g = int j"
    "\<And>j. j < length kts \<Longrightarrow> internal_ValueAt (int j) g = Some (tree_id (snd (kts ! j)))"
proof -
  obtain g where g: "m p = Some (InternalP g)" "wf_internal g" "internal_entries g = kid_slots kts" "page_id_m g = p"
    using node_cell [OF assms(1)] by metis
  have size: "size_m g = int (length kts)"
    using length_internal_entries [OF g(2)] g(2,3) by (auto simp: wf_internal_def)
  have nth: "kid_slots kts ! j = (fst (kts ! j), tree_id (snd (kts ! j)))" if "j < length kts" for j
    using that by (simp add: kid_slots_def)
  have "internal_ValueIndex (tree_id (snd (kts ! j))) g = int j" if "j < length kts" for j
    using internal_ValueIndex_nth [OF g(2), of j] assms(2) that nth [OF that] unfolding g(3) by simp
  moreover have "internal_ValueAt (int j) g = Some (tree_id (snd (kts ! j)))" if "j < length kts" for j
  proof -
    have "j < nat (size_m g)" using size that by simp
    then have "internal_array g ! j = (fst (kts ! j), tree_id (snd (kts ! j)))"
      using internal_entries_nth [OF g(2), of j] nth [OF that] unfolding g(3) by metis
    then show ?thesis using size that by (simp add: internal_ValueAt_def header_defs)
  qed
  ultimately show ?thesis using that [OF g size] by blast
qed

text \<open>The node in the hole and its sibling; the sibling is the right one for the first child.\<close>

lemma FindLeftSibling_spec:
  assumes s: "store_inv s" "txn s = Some tx" and pin: "0 < pins s (tree_id t)"
    and cp: "cell_at c (contents s) (p, gp, NodeData (kid_slots (L @ (k, t) # R)))" and ct: "cell_at c (contents s) (tree_id t, p, nt)"
    and dist: "distinct (map snd (kid_slots (L @ (k, t) # R)))"
    and sib: "sib = (if L = [] then snd (hd R) else snd (last L))" and ne: "L \<noteq> [] \<or> R \<noteq> []"
    and cs: "cell_at c (contents s) (tree_id sib, p, ns)" and free: "latch s (tree_id sib) = 0" and np: "p \<noteq> tree_id sib"
  obtains s' where "FindLeftSibling c (tree_id t) s = Some (L = [], tree_id sib, s')" "taken [tree_id sib] [] s s'"
    "contents s' = contents s" "root_page_id s' = root_page_id s"
proof -
  let ?kts = "L @ (k, t) # R"
  obtain h where h: "get_header (tree_id t) s = Some h" "page_id_m h = tree_id t" "parent_page_id_m h = p"
    using get_header_cell [OF ct pin] .
  obtain g where g: "contents s p = Some (InternalP g)" "page_id_m g = p"
    "\<And>j. j < length ?kts \<Longrightarrow> internal_ValueIndex (tree_id (snd (?kts ! j))) g = int j"
    "\<And>j. j < length ?kts \<Longrightarrow> internal_ValueAt (int j) g = Some (tree_id (snd (?kts ! j)))"
    using node_kid [OF cp dist] by metis
  have index: "internal_ValueIndex (tree_id t) g = int (length L)" using g(3) [of "length L"] by simp
  have val: "internal_ValueAt (if length L = 0 then 1 else int (length L) - 1) g = Some (tree_id sib)"
  proof (cases "L = []")
    case True
    then obtain x R' where "R = x # R'" using ne by (cases R) auto
    then show ?thesis using g(4) [of 1] True sib by simp
  next
    case False
    then obtain L' x where L: "L = L' @ [x]" by (cases L rule: rev_cases) auto
    then show ?thesis using g(4) [of "length L'"] sib by (simp add: nth_append)
  qed
  let ?s0 = "pinned p s"
  have i0: "store_inv ?s0" by (rule store_inv_pinned [OF s(1) g(1)])
  obtain d hs where d: "contents ?s0 (tree_id sib) = Some d" "tree_header d = Some hs" using cell_header [OF cs] by (metis pinned_simps(1))
  obtain s1 where s1: "CrabingProtocalFetchPage (tree_id sib) OP_DELETE (- 1) ?s0 = Some s1" "taken [tree_id sib] [] ?s0 s1"
    "contents s1 = contents ?s0" "root_page_id s1 = root_page_id ?s0"
    using Crab_sibling [OF i0 d, of tx] free s(2) by auto
  have "pending s1 = pending s"
    using s1(1) d np free s(2) take_page_steps [of ?s0 "tree_id sib" d] store_inv_pins [OF i0, of "tree_id sib"]
    by (auto simp: CrabingProtocalFetchPage_def st_get_def take_page_def AddIntoPageSet_def pinned_def)
  then have clean: "st_unpin p False s1 = Some (s1\<lparr>pins := (pins s1)(p := pins s p)\<rparr>)"
    using takenD(3) [OF s1(2), of p] np store_inv_pins [OF s(1), of p] store_inv_pending [OF s(1), of p]
    by (auto simp: st_unpin_def Let_def)
  define s2 where "s2 = s1\<lparr>pins := (pins s1)(p := pins s p)\<rparr>"
  have i2: "store_inv s2" using store_inv_unpin [OF takenD(1) [OF s1(2)] clean] by (simp add: s2_def)
  have "taken [tree_id sib] [] s s2"
    using s1(2) i2 np by (auto simp: taken_def s2_def fun_eq_iff)
  moreover have "FindLeftSibling c (tree_id t) s = Some (L = [], tree_id sib, s2)"
    unfolding FindLeftSibling_def h(1) Option.bind.bind_lunit GetParentPageId_def h(3) fetch_step [OF g(1)] Let_def
      get_pinned_internal [OF s(1) g(1)] GetPageId_def h(2) index
    using val s1(1) clean by (cases "L = []") (simp_all add: g(2) s2_def)
  ultimately show ?thesis using that s1(3,4) by (simp add: s2_def)
qed

section \<open>Merging and sharing\<close>

lemma kind_cases:
  assumes "is_leaf a = is_leaf b"
  obtains (leaves) pa ea pb eb where "a = Leaf pa ea" "b = Leaf pb eb"
  | (nodes) pa A pb B where "a = Node pa A" "b = Node pb B"
  using assms by (cases a; cases b) auto

lemma MoveAllTo_pair:
  assumes P: "pair_in c gp p A ka a kb b B s" and sl: "slots_ok c" and fits: "node_size a + node_size b \<le> node_max c a"
    and heads: "heads_ok kb b" "0 < node_size b"
  obtains s' where "MoveAllTo c (kind_of a) (tree_id b) (tree_id a) (int (Suc (length A))) s = Some s'" "kept s s'"
    "on_pages c (contents s') (set (cells p (merge_nodes a b)))"
    "\<And>q. q \<notin> set (page_ids a) \<Longrightarrow> q \<notin> set (page_ids b) \<Longrightarrow> contents s' q = contents s q"
    "\<exists>h. get_header (tree_id b) s' = Some h \<and> page_id_m h = tree_id b"
    "\<And>q x. q \<noteq> tree_id a \<Longrightarrow> q \<noteq> tree_id b \<Longrightarrow> next_at (contents s) q x \<Longrightarrow> next_at (contents s') q x"
    "\<And>x. next_at (contents s) (tree_id b) x \<Longrightarrow> next_at (contents s') (tree_id a) x"
proof -
  have "is_leaf a = is_leaf b" using P by (simp add: pair_in_def)
  then show ?thesis
  proof (cases rule: kind_cases)
    case (leaves pa ea pb eb)
    have f: "length ea + length eb \<le> leaf_max c" using fits by (simp add: leaves node_max_def cap_def)
    obtain s' where s': "MoveAllTo c LeafNode pb pa (int (Suc (length A))) s = Some s'" "kept s s'"
      "cell_at c (contents s') (pa, p, LeafData (ea @ eb))"
      "\<And>q. q \<noteq> pa \<Longrightarrow> q \<noteq> pb \<Longrightarrow> contents s' q = contents s q" "\<exists>h. get_header pb s' = Some h \<and> page_id_m h = pb"
      "\<And>x. next_at (contents s) pb x \<Longrightarrow> next_at (contents s') pa x"
      by (rule MoveAllTo_leaf [OF P leaves sl f]) blast
    show ?thesis
      by (rule that [of s']) (use s' in \<open>simp_all add: leaves kind_of_def next_at_def\<close>)
  next
    case (nodes pa A' pb B')
    have f: "length A' + length B' \<le> internal_max c" using fits by (simp add: nodes node_max_def cap_def)
    have ne: "B' \<noteq> []" using heads(2) by (simp add: nodes)
    have "cell_at c (contents s) (pb, p, NodeData (kid_slots B'))" using P by (simp add: pair_in_def nodes on_pages_def)
    note no_next = next_at_leaf [OF this]
    obtain s' where s': "MoveAllTo c InternalNode pb pa (int (Suc (length A))) s = Some s'" "kept s s'"
      "on_pages c (contents s') (set (cells p (Node pa (A' @ B'))))"
      "\<And>q. q \<noteq> pa \<Longrightarrow> q \<noteq> pb \<Longrightarrow> q \<notin> set (kids_page_ids B') \<Longrightarrow> contents s' q = contents s q"
      "\<exists>h. get_header pb s' = Some h \<and> page_id_m h = pb" "\<And>q x. next_at (contents s) q x \<Longrightarrow> next_at (contents s') q x"
      by (rule MoveAllTo_internal [OF P nodes sl f heads(1) ne]) blast
    show ?thesis
      by (rule that [of s']) (use s' no_next in \<open>simp_all add: nodes kind_of_def\<close>)
  qed
qed

lemma merge_ids: "is_leaf a = is_leaf b \<Longrightarrow> insert (tree_id b) (set (page_ids (merge_nodes a b))) = set (page_ids a) \<union> set (page_ids b)"
  using arg_cong [OF merge_page_ids [of a b], of set_mset] by simp

text \<open>After \<open>Coalesce\<close>, up to its recursive call.\<close>

lemma Coalesce_step_spec:
  assumes P: "pair_in c gp p A ka a kb b B s" and sl: "slots_ok c" and fits: "node_size a + node_size b \<le> node_max c a"
    and heads: "heads_ok kb b" "0 < node_size b" and dist: "distinct (p # kids_page_ids (A @ (ka, a) # (kb, b) # B))"
    and sides: "on_pages c (contents s) (set (kids_cells p A))" "on_pages c (contents s) (set (kids_cells p B))"
    and tx: "txn s = Some tx" "tree_id b \<notin> set (deleted_page_set tx)" and kts: "kts = A @ (ka, merge_nodes a b) # B"
  obtains s' where "Coalesce_step c (kind_of a) (tree_id a) (tree_id b) p (int (Suc (length A))) s =
      Some (length kts \<le> (if gp = INVALID_PAGE_ID then 2 else internal_max c div 2), s')"
    "taken [] [tree_id b] s s'" "root_page_id s' = root_page_id s" "on_pages c (contents s') (set (cells gp (Node p kts)))"
    "\<And>q. q \<noteq> p \<Longrightarrow> q \<notin> set (page_ids a) \<Longrightarrow> q \<notin> set (page_ids b) \<Longrightarrow> contents s' q = contents s q"
    "\<And>q x. q \<noteq> tree_id a \<Longrightarrow> q \<noteq> tree_id b \<Longrightarrow> next_at (contents s) q x \<Longrightarrow> next_at (contents s') q x"
    "\<And>x. next_at (contents s) (tree_id b) x \<Longrightarrow> next_at (contents s') (tree_id a) x"
proof -
  have same: "is_leaf a = is_leaf b" and inv: "store_inv s" and pin: "0 < pins s p"
    and cp: "cell_at c (contents s) (p, gp, NodeData (kid_slots (A @ (ka, a) # (kb, b) # B)))"
    using P by (simp_all add: pair_in_def)
  obtain s1 where s1: "MoveAllTo c (kind_of a) (tree_id b) (tree_id a) (int (Suc (length A))) s = Some s1" "kept s s1"
    "on_pages c (contents s1) (set (cells p (merge_nodes a b)))"
    "\<And>q. q \<notin> set (page_ids a) \<Longrightarrow> q \<notin> set (page_ids b) \<Longrightarrow> contents s1 q = contents s q"
    "\<exists>h. get_header (tree_id b) s1 = Some h \<and> page_id_m h = tree_id b"
    "\<And>q x. q \<noteq> tree_id a \<Longrightarrow> q \<noteq> tree_id b \<Longrightarrow> next_at (contents s) q x \<Longrightarrow> next_at (contents s1) q x"
    "\<And>x. next_at (contents s) (tree_id b) x \<Longrightarrow> next_at (contents s1) (tree_id a) x"
    by (rule MoveAllTo_pair [OF P sl fits heads]) blast
  obtain h where h: "get_header (tree_id b) s1 = Some h" "page_id_m h = tree_id b" using s1(5) by blast
  define s2 where "s2 = s1\<lparr>txn := Some (take_pages [] [tree_id b] tx)\<rparr>"
  have t1: "txn s1 = Some tx" using keptD(8) [OF s1(2)] tx(1) by simp
  have s2: "AddIntoDeletedPageSet (tree_id b) s1 = Some s2"
    unfolding AddIntoDeletedPageSet_def t1 s2_def using tx(2) by (simp add: take_pages_def)
  have "store_inv s2" using keptD(1) [OF s1(2)] by (simp add: s2_def)
  then have k2: "taken [] [tree_id b] s s2" using keptD [OF s1(2)] tx(1) by (simp add: taken_def s2_def)
  have out: "p \<notin> set (page_ids a)" "p \<notin> set (page_ids b)" "p \<notin> set (kids_page_ids A)" "p \<notin> set (kids_page_ids B)"
    using dist by auto
  obtain g where g: "contents s p = Some (InternalP g)" "wf_internal g" "internal_entries g = kid_slots (A @ (ka, a) # (kb, b) # B)"
    "page_id_m g = p" "parent_page_id_m g = gp" "max_size_m g + 1 = internal_slots (key_size c)"
    "int (length (internal_array g)) = internal_slots (key_size c)" using node_cell [OF cp] .
  have size: "size_m g = int (length (A @ (ka, a) # (kb, b) # B))"
    using length_internal_entries [OF g(2)] g(2,3) by (auto simp: wf_internal_def)
  have i: "0 \<le> int (Suc (length A))" "int (Suc (length A)) < size_m g" unfolding size by simp_all
  have ni: "nat (int (Suc (length A))) = Suc (length A)" by (rule nat_int)
  obtain g' where g': "internal_Remove (int (Suc (length A))) g = Some g'"
    "internal_entries g' = take (Suc (length A)) (internal_entries g) @ drop (Suc (Suc (length A))) (internal_entries g)"
    "wf_internal g'" "internal_meta g' = internal_meta g" "size_m g' = size_m g - 1"
    using internal_Remove_spec [OF g(2) i] unfolding ni .
  have e: "internal_entries g' = kid_slots kts" unfolding g'(2) g(3) by (simp add: kts merge_simps(3) [OF same])
  have p2: "0 < pins s2 p" "contents s2 p = Some (InternalP g)"
    using pin keptD(2) [OF s1(2)] s1(4) [OF out(1,2)] g(1) by (simp_all add: s2_def)
  obtain s3 where s3: "st_put p (InternalP g') s2 = Some s3" "kept s2 s3" "contents s3 = (contents s2)(p \<mapsto> InternalP g')"
    using put_step [OF takenD(1) [OF k2] p2(1)] .
  have m3: "contents s3 = (contents s1)(p \<mapsto> InternalP g')" by (simp add: s3(3) s2_def)
  have flag: "GetSize g' \<le> GetMinSize g' \<longleftrightarrow> length kts \<le> (if gp = INVALID_PAGE_ID then 2 else internal_max c div 2)"
    using g'(5) size internal_meta_simps [OF g'(4)] g(5,6) g'(3) slots_max(4) [OF sl]
    by (auto simp: header_defs GetMinSize_def IsRootPage_def IsLeafPage_def wf_internal_def kts)
  show ?thesis
  proof (rule that)
    show "Coalesce_step c (kind_of a) (tree_id a) (tree_id b) p (int (Suc (length A))) s =
        Some (length kts \<le> (if gp = INVALID_PAGE_ID then 2 else internal_max c div 2), s3)"
      unfolding Coalesce_step_def s1(1) Option.bind.bind_lunit h(1) GetPageId_def h(2) s2 flag [symmetric]
      using p2 g'(1) s3(1) by (simp add: get_internal_def st_get_def as_internal_def put_internal_def)
    show "taken [] [tree_id b] s s3" by (rule taken_kept [OF k2 s3(2)])
    show "root_page_id s3 = root_page_id s" using keptD(5) [OF s3(2)] keptD(5) [OF s1(2)] by (simp add: s2_def)
    have sides1: "on_pages c (contents s3) (set (kids_cells p X))"
      if X: "on_pages c (contents s) (set (kids_cells p X))" "set (kids_page_ids X) \<inter> (set (page_ids a) \<union> set (page_ids b)) = {}"
        "p \<notin> set (kids_page_ids X)" for X
      by (rule on_pages_kids_cong [OF X(1)]) (use X(2,3) s1(4) in \<open>auto simp: m3\<close>)
    have "set (kids_page_ids A) \<inter> (set (page_ids a) \<union> set (page_ids b)) = {}"
      "set (kids_page_ids B) \<inter> (set (page_ids a) \<union> set (page_ids b)) = {}" using dist by auto
    then have "on_pages c (contents s3) (set (kids_cells p A))" "on_pages c (contents s3) (set (kids_cells p B))"
      using sides1 [of A] sides1 [of B] sides out(3,4) by blast+
    moreover have "on_pages c (contents s3) (set (cells p (merge_nodes a b)))"
    proof (rule on_pages_tree_cong [OF s1(3)])
      show "\<forall>q \<in> set (page_ids (merge_nodes a b)). contents s3 q = contents s1 q"
        using merge_ids [OF same] out(1,2) by (auto simp: m3)
    qed
    moreover have "cell_at c (contents s3) (p, gp, NodeData (kid_slots kts))"
      using node_cellI [OF g'(3), of p gp c "contents s3"] internal_meta_simps [OF g'(4)] g(4-7) e by (simp add: m3)
    ultimately show "on_pages c (contents s3) (set (cells gp (Node p kts)))" by (simp add: kts)
    show "contents s3 q = contents s q" if "q \<noteq> p" "q \<notin> set (page_ids a)" "q \<notin> set (page_ids b)" for q
      using that s1(4) by (simp add: m3)
    have np: "q \<noteq> p" if "next_at (contents s) q x" for q x using that next_at_leaf [OF cp] by auto
    show "next_at (contents s3) q x" if "q \<noteq> tree_id a" "q \<noteq> tree_id b" "next_at (contents s) q x" for q x
      using s1(6) [OF that] np [OF that(3)] by (simp add: m3 next_at_def)
    have "tree_id a \<noteq> p" using out(1) by auto
    then show "next_at (contents s3) (tree_id a) x" if "next_at (contents s) (tree_id b) x" for x
      using s1(7) [OF that] by (simp add: m3 next_at_def)
  qed
qed

lemma Redistribute_pair:
  assumes P: "pair_in c gp p A ka a kb b B s" and sl: "slots_ok c"
    and cut: "cut_node m (tree_id b) (merge_nodes a b) = (a', k', b')" and p_out: "p \<notin> set (page_ids a)" "p \<notin> set (page_ids b)"
    and how: "i = 0 \<and> nb = tree_id b \<and> node = tree_id a \<and> m = Suc (node_size a) \<and> 2 \<le> node_size b \<and> node_size a < node_max c a \<or>
      i = int (Suc (length A)) \<and> nb = tree_id a \<and> node = tree_id b \<and> Suc m = node_size a \<and> node_size b + 1 < node_max c a"
  shows "\<exists>s'. Redistribute c (kind_of a) nb node i s = Some s' \<and> pair_moved c gp p A ka a' k' b' B s s'"
proof -
  have "is_leaf a = is_leaf b" using P by (simp add: pair_in_def)
  then show ?thesis
  proof (cases rule: kind_cases)
    case (leaves pa ea pb eb)
    have "cut_node m pb (Leaf pa (ea @ eb)) = (a', k', b')" using cut by (simp add: leaves)
    moreover have "i = 0 \<and> nb = pb \<and> node = pa \<and> m = Suc (length ea) \<and> 2 \<le> length eb \<and> length ea < leaf_max c \<or>
      i = int (Suc (length A)) \<and> nb = pa \<and> node = pb \<and> Suc m = length ea \<and> length eb < leaf_max c"
      using how by (auto simp: leaves node_max_def cap_def)
    ultimately have "\<exists>s'. Redistribute c LeafNode nb node i s = Some s' \<and> pair_moved c gp p A ka a' k' b' B s s'"
      by (rule Redistribute_leaf [OF P leaves sl])
    then show ?thesis by (simp add: leaves kind_of_def)
  next
    case (nodes pa A' pb B')
    have "cut_node m pb (Node pa (A' @ B')) = (a', k', b')" using cut by (simp add: nodes)
    moreover have "i = 0 \<and> nb = pb \<and> node = pa \<and> m = Suc (length A') \<and> 2 \<le> length B' \<and> length A' < internal_max c \<or>
      i = int (Suc (length A)) \<and> nb = pa \<and> node = pb \<and> Suc m = length A' \<and> length B' + 1 < internal_max c"
      using how by (simp add: nodes node_max_def cap_def)
    ultimately have "\<exists>s'. Redistribute c InternalNode nb node i s = Some s' \<and> pair_moved c gp p A ka a' k' b' B s s'"
      by (rule Redistribute_internal [OF P nodes sl _ p_out])
    then show ?thesis by (simp add: nodes kind_of_def)
  qed
qed

section \<open>The root\<close>

text \<open>The root is an empty leaf, or a node; with one child it hands over to it.\<close>

lemma AdjustRoot_leaf:
  assumes s: "store_inv s" and pin: "0 < pins s p" and ct: "cell_at c (contents s) (p, par, LeafData es)"
    and rec: "root_recorded e c old (contents s)"
  obtains s' where "AdjustRoot c p s = Some (True, s')" "taken [] [] s s'" "root_page_id s' = INVALID_PAGE_ID"
    "root_recorded e c INVALID_PAGE_ID (contents s')" "\<And>q. q \<noteq> HEADER_PAGE_ID \<Longrightarrow> contents s' q = contents s q"
proof -
  obtain d h where "contents s p = Some d" "tree_header d = Some h" and leaf: "IsLeafPage h"
    using cell_header [OF ct] by (metis node_data.distinct(1))
  then have h: "get_header p s = Some h" using pin by (simp add: get_header_def st_get_def)
  define s1 where "s1 = s\<lparr>root_page_id := INVALID_PAGE_ID\<rparr>"
  have "store_inv s1" "root_recorded e c old (contents s1)" using s rec by (simp_all add: s1_def)
  then obtain s2 where s2: "UpdateRootPageId c False s1 = Some s2" "kept s1 s2" "root_recorded e c (root_page_id s1) (contents s2)"
    "\<And>q. q \<noteq> HEADER_PAGE_ID \<Longrightarrow> contents s2 q = contents s1 q" using UpdateRoot_spec by blast
  have "taken [] [] s s1" using \<open>store_inv s1\<close> by (cases "txn s") (simp_all add: taken_def s1_def)
  from taken_kept [OF this s2(2)] show ?thesis
    using that [of s2] leaf h s2 keptD(5) [OF s2(2)] by (simp add: AdjustRoot_def s1_def [symmetric]) (simp add: s1_def)
qed

lemma AdjustRoot_node:
  assumes s: "store_inv s" and pin: "0 < pins s p" and on: "on_pages c (contents s) (set (cells INVALID_PAGE_ID (Node p kts)))"
    and dist: "distinct (page_ids (Node p kts))" and rec: "root_recorded e c p (contents s)" and pos: "\<forall>q \<in> set (page_ids (Node p kts)). 0 < q"
    and root: "root_page_id s = p" and ne: "kts \<noteq> []"
  obtains s' where "AdjustRoot c p s = Some (length kts = 1, s')" "taken [] [] s s'"
    "let T = (if length kts = 1 then snd (hd kts) else Node p kts) in root_page_id s' = tree_id T \<and>
       root_recorded e c (tree_id T) (contents s') \<and> on_pages c (contents s') (set (cells INVALID_PAGE_ID T))"
    "\<And>q. q \<noteq> HEADER_PAGE_ID \<Longrightarrow> q \<notin> set (page_ids (Node p kts)) \<Longrightarrow> contents s' q = contents s q"
    "\<And>q x. next_at (contents s) q x \<Longrightarrow> next_at (contents s') q x"
proof -
  have cell: "cell_at c (contents s) (p, INVALID_PAGE_ID, NodeData (kid_slots kts))" using on by simp
  obtain d h where h: "contents s p = Some d" "tree_header d = Some h" "\<not> IsLeafPage h" "size_m h = int (length kts)"
    using cell_header [OF cell] by (metis node_data.distinct(1) node_data.simps(6) kid_slots_simps(4))
  have hd: "get_header p s = Some h" using h(1,2) pin by (simp add: get_header_def st_get_def)
  show ?thesis
  proof (cases "length kts = 1")
    case False
    have "AdjustRoot c p s = Some (False, s)" using hd h(3,4) False by (simp add: AdjustRoot_def header_defs)
    then show ?thesis using that [of s] False s on rec root kept_taken [OF kept_refl [OF s]] by simp
  next
    case True
    then obtain kt where kts: "kts = [kt]" by (cases kts) auto
    let ?t = "snd kt"
    have ont: "on_pages c (contents s) (set (cells p ?t))" and dt: "distinct (page_ids ?t)" "p \<notin> set (page_ids ?t)"
      "\<forall>q \<in> set (page_ids ?t). 0 < q" "0 < p" using on dist pos by (simp_all add: kts)
    obtain g where g: "contents s p = Some (InternalP g)" "wf_internal g" "internal_entries g = kid_slots [kt]" "page_id_m g = p"
      "size_m g = 1" "internal_ValueAt 0 g = Some (tree_id ?t)"
    proof (rule node_kid [OF cell [unfolded kts]])
      fix g assume "contents s p = Some (InternalP g)" "wf_internal g" "internal_entries g = kid_slots [kt]" "page_id_m g = p"
        "size_m g = int (length [kt])" "\<And>j. j < length [kt] \<Longrightarrow> internal_ValueAt (int j) g = Some (tree_id (snd ([kt] ! j)))"
      then show ?thesis using that [of g] by (metis int_ops(1) int_ops(2) length_Cons list.size(3) nth_Cons_0 One_nat_def zero_less_one)
    qed simp
    define g' where "g' = IncreaseSize (- 1) g"
    have rem: "internal_RemoveAndReturnOnlyChild g = Some (tree_id ?t, g')"
      using g(5,6) by (simp add: internal_RemoveAndReturnOnlyChild_def g'_def header_defs)
    obtain s1 where s1: "st_put p (InternalP g') s = Some s1" "kept s s1" "contents s1 = (contents s)(p \<mapsto> InternalP g')"
      using put_step [OF s pin] .
    define s2 where "s2 = s1\<lparr>root_page_id := tree_id ?t\<rparr>"
    have p0: "p \<noteq> HEADER_PAGE_ID" "\<forall>q \<in> set (page_ids ?t). q \<noteq> HEADER_PAGE_ID" using dt(3,4) by (auto simp: HEADER_PAGE_ID_def)
    have "store_inv s2" "root_recorded e c p (contents s2)"
      using keptD(1) [OF s1(2)] rec p0(1) by (simp_all add: s2_def s1(3) root_recorded_def)
    then obtain s3 where s3: "UpdateRootPageId c False s2 = Some s3" "kept s2 s3" "root_recorded e c (root_page_id s2) (contents s3)"
      "\<And>q. q \<noteq> HEADER_PAGE_ID \<Longrightarrow> contents s3 q = contents s2 q" using UpdateRoot_spec by blast
    have on3: "on_pages c (contents s3) (set (cells p ?t))"
      by (rule on_pages_tree_cong [OF ont]) (use s3(4) p0(2) dt(2) in \<open>auto simp: s2_def s1(3)\<close>)
    obtain s4 s5 h' where s5: "st_fetch (tree_id ?t) s3 = Some (pinned (tree_id ?t) s3)"
      "put_parent (tree_id ?t) INVALID_PAGE_ID (pinned (tree_id ?t) s3) = Some s4"
      "get_header (tree_id ?t) s4 = Some h'" "GetPageId h' = tree_id ?t" "st_unpin (tree_id ?t) True s4 = Some s5" "kept s3 s5"
      "on_pages c (contents s5) (set (cells INVALID_PAGE_ID ?t))" "\<And>q. q \<noteq> tree_id ?t \<Longrightarrow> contents s5 q = contents s3 q"
      "\<And>q x. next_at (contents s3) q x \<Longrightarrow> next_at (contents s5) q x"
      by (rule reparent_child [OF keptD(1) [OF s3(2)] on3 dt(1), of INVALID_PAGE_ID]) blast
    have get: "get_internal c p s = Some g" using g(1) pin by (simp add: get_internal_def st_get_def as_internal_def)
    have run: "AdjustRoot c p s = Some (True, s5)"
      using hd h(3,4) get rem s1(1) s3(1) s5(1,2,5) by (simp add: AdjustRoot_def header_defs kts put_internal_def s2_def [symmetric])
    have "taken [] [] s s2" using \<open>store_inv s2\<close> keptD [OF s1(2)] by (cases "txn s") (simp_all add: taken_def s2_def)
    then have "taken [] [] s s5" using taken_kept s3(2) s5(6) by blast
    moreover have "root_page_id s5 = tree_id ?t" using keptD(5) [OF s5(6)] keptD(5) [OF s3(2)] by (simp add: s2_def)
    moreover have "tree_id ?t \<noteq> HEADER_PAGE_ID" using p0(2) tree_id_page_ids by blast
    then have "root_recorded e c (tree_id ?t) (contents s5)"
      using s3(3) s5(8) [of HEADER_PAGE_ID] by (simp add: root_recorded_def s2_def)
    moreover have "contents s5 q = contents s q" if "q \<noteq> HEADER_PAGE_ID" "q \<notin> set (page_ids (Node p kts))" for q
    proof -
      have "q \<noteq> p" "q \<noteq> tree_id ?t" using that(2) by (auto simp: kts)
      then show ?thesis using s5(8) s3(4) that(1) by (simp add: s2_def s1(3))
    qed
    moreover have "next_at (contents s5) q x" if n: "next_at (contents s) q x" for q x
    proof (rule s5(9))
      have "q \<noteq> p" using n next_at_leaf [OF cell] by auto
      moreover have "q \<noteq> HEADER_PAGE_ID" using n rec by (auto simp: next_at_def root_recorded_def)
      ultimately show "next_at (contents s3) q x" using n s3(4) by (simp add: next_at_def s2_def s1(3))
    qed
    ultimately show ?thesis using that [of s5] run True s5(7) by (simp add: kts)
  qed
qed

end
