(* ===== verification/BTreeCoalesce.thy ===== *)
theory BTreeCoalesce imports BTreeSibling begin

text \<open>
  \<open>CoalesceOrRedistribute\<close> does to the pages what \<open>shrink_up\<close> does to the tree, and takes the sibling of
  each node on its way up into the page set.
\<close>

section \<open>The contract\<close>

definition chained :: "(page_id \<Rightarrow> ('k, 'v) page option) \<Rightarrow> page_id list \<Rightarrow> bool" where
  "chained m xs \<longleftrightarrow> successively (next_at m) (xs @ [INVALID_PAGE_ID])"

text \<open>The hole of a path holds a node that lost an entry; the pages \<open>X\<close> are pinned, and the nodes off the
  path are free.\<close>

definition hole_in :: "bool \<Rightarrow> ('k, 'v) tree_params \<Rightarrow> page_id set \<Rightarrow> ('k, 'v) tree_frame list \<Rightarrow> ('k, 'v) tree \<Rightarrow> ('k, 'v) btree \<Rightarrow> bool" where
  "hole_in e c X fs t s \<longleftrightarrow> store_inv s \<and> 0 < pins s (tree_id t) \<and> (\<forall>q \<in> X. 0 < pins s q) \<and>
     on_pages c (contents s) (set (cells (path_parent fs) t) \<union> set (path_cells (tree_id t) fs)) \<and>
     distinct (page_ids t @ side_ids fs) \<and> (\<forall>q \<in> set (page_ids t @ side_ids fs). 0 < q) \<and>
     (\<forall>q \<in> set (side_ids fs) - set (frame_ids fs). latch s q = 0) \<and>
     (\<exists>tx. txn s = Some tx \<and> (\<forall>q \<in> set (page_ids t @ side_ids fs). q \<notin> set (deleted_page_set tx))) \<and>
     root_page_id s = tree_id (plug fs t) \<and> root_recorded e c (root_page_id s) (contents s) \<and>
     chained (contents s) (leaf_ids (plug fs t))"

lemma hole_inD:
  assumes "hole_in e c X fs t s"
  shows "store_inv s" "0 < pins s (tree_id t)" "\<And>q. q \<in> X \<Longrightarrow> 0 < pins s q"
    "on_pages c (contents s) (set (cells (path_parent fs) t))" "on_pages c (contents s) (set (path_cells (tree_id t) fs))"
    "distinct (page_ids t @ side_ids fs)" "\<forall>q \<in> set (page_ids t @ side_ids fs). 0 < q"
    "\<And>q. q \<in> set (side_ids fs) \<Longrightarrow> q \<notin> set (frame_ids fs) \<Longrightarrow> latch s q = 0"
    "\<exists>tx. txn s = Some tx \<and> (\<forall>q \<in> set (page_ids t @ side_ids fs). q \<notin> set (deleted_page_set tx))"
    "root_page_id s = tree_id (plug fs t)" "root_recorded e c (root_page_id s) (contents s)"
    "chained (contents s) (leaf_ids (plug fs t))"
  using assms unfolding hole_in_def by (blast | simp)+

text \<open>The frames that the way up may reach are held.\<close>

fun held_up :: "nat \<Rightarrow> page_id set \<Rightarrow> ('k, 'v) tree_frame list \<Rightarrow> bool" where
  "held_up Im X [] = True"
| "held_up Im X ((p, L, k, R) # fs) \<longleftrightarrow> p \<in> X \<and> (length L + length R \<le> (if fs = [] then 2 else Im div 2) \<longrightarrow> held_up Im X fs)"

text \<open>The siblings it takes.\<close>

fun taken_sibs :: "nat \<Rightarrow> nat \<Rightarrow> ('k, 'v) tree_frame list \<Rightarrow> ('k, 'v) tree \<Rightarrow> page_id list" where
  "taken_sibs Lm Im [] t = []"
| "taken_sibs Lm Im ((p, L, k, R) # fs) t =
     (let (A, ka, a, kb, b, B) = pair_at L k t R; kts = A @ (ka, merge_nodes a b) # B in
      (if L = [] then tree_id b else tree_id a) #
      (if node_size a + node_size b \<le> cap Lm Im t \<and> length kts \<le> (if fs = [] then 2 else Im div 2)
       then taken_sibs Lm Im fs (Node p kts) else []))"

declare taken_sibs.simps(2) [simp del]

definition opt_stored :: "bool \<Rightarrow> ('k, 'v) tree_params \<Rightarrow> ('k, 'v) tree option \<Rightarrow> ('k, 'v) btree \<Rightarrow> bool" where
  "opt_stored e c T s \<longleftrightarrow> (case T of None \<Rightarrow> root_page_id s = INVALID_PAGE_ID \<and> root_recorded e c INVALID_PAGE_ID (contents s)
     | Some t \<Rightarrow> root_page_id s = tree_id t \<and> root_recorded e c (tree_id t) (contents s) \<and>
         on_pages c (contents s) (set (cells INVALID_PAGE_ID t)) \<and> chained (contents s) (leaf_ids t))"

definition tree_shrunk :: "bool \<Rightarrow> ('k, 'v) tree_params \<Rightarrow> ('k, 'v) tree_frame list \<Rightarrow> ('k, 'v) tree \<Rightarrow> ('k, 'v) btree \<Rightarrow> ('k, 'v) btree \<Rightarrow> bool" where
  "tree_shrunk e c fs t s s' \<longleftrightarrow> (case shrink_up (leaf_max c) (internal_max c) fs t of (T, D) \<Rightarrow>
     taken (taken_sibs (leaf_max c) (internal_max c) fs t) D s s' \<and> opt_stored e c T s' \<and>
     (\<forall>q. q \<notin> set (page_ids t) \<longrightarrow> q \<notin> set (side_ids fs) \<longrightarrow> q \<noteq> HEADER_PAGE_ID \<longrightarrow> contents s' q = contents s q))"

section \<open>One level\<close>

lemma kids_ids_in: "kt \<in> set kts \<Longrightarrow> set (page_ids (snd kt)) \<subseteq> set (kids_page_ids kts)"
  by auto

lemma CoalesceOrRedistribute_level:
  assumes pre: "hole_in e c X ((p, L, k, R) # fs) t s" and sl: "slots_ok c"
    and pair: "pair_at L k t R = (A, ka, a, kb, b, B)" "L @ (k, t) # R = A @ (ka, a) # (kb, b) # B"
      "L = [] \<longrightarrow> a = t \<and> A = []" "L \<noteq> [] \<longrightarrow> b = t \<and> L = A @ [(ka, a)]"
    and same: "is_leaf a = is_leaf b" and sib: "sib = (if L = [] then b else a)"
  obtains s1 where "CoalesceOrRedistribute c (kind_of t) (tree_id t) s =
      (if node_size a + node_size b \<le> node_max c t then
         do { (small, s) \<leftarrow> Coalesce_step c (kind_of t) (tree_id a) (tree_id b) p (int (Suc (length A))) (pinned p s1);
              (_, s) \<leftarrow> (if small then CoalesceOrRedistribute c InternalNode p s else Some (False, s));
              s \<leftarrow> st_unpin p True s;
              Some (True, s) }
       else
         do { s \<leftarrow> Redistribute c (kind_of t) (tree_id sib) (tree_id t) (if L = [] then 0 else int (Suc (length A))) (pinned p s1);
              s \<leftarrow> st_unpin p False s;
              Some (False, s) })"
    "taken [tree_id sib] [] s s1" "contents s1 = contents s" "root_page_id s1 = root_page_id s"
    "pair_in c (path_parent fs) p A ka a kb b B (pinned p s1)"
proof -
  note h = hole_inD [OF pre]
  let ?kts = "L @ (k, t) # R"
  have ts: "{a, b} = {t, sib}" "is_leaf t = is_leaf a" "is_leaf sib = is_leaf a" using pair(3,4) same by (auto simp: sib)
  have ids: "distinct (p # kids_page_ids ?kts)" using h(6) by auto
  have dist: "distinct (map snd (kid_slots ?kts))" by (rule distinct_kid_slots) (use ids in simp)
  have cp: "cell_at c (contents s) (p, path_parent fs, NodeData (kid_slots ?kts))" using h(5) by simp
  have kids: "on_pages c (contents s) (set (cells p (snd kt)))" if "kt \<in> set ?kts" for kt
    using that h(4,5) by (auto simp: on_pages_def)
  have on: "on_pages c (contents s) (set (cells p a))" "on_pages c (contents s) (set (cells p b))"
    using kids [of "(ka, a)"] kids [of "(kb, b)"] by (simp_all add: pair(2))
  have onsib: "on_pages c (contents s) (set (cells p sib))" using on by (simp add: sib)
  obtain nt where ct: "cell_at c (contents s) (tree_id t, p, nt)" using on_pages_root [OF h(4)] by auto
  have dab: "p \<notin> set (page_ids a)" "p \<notin> set (page_ids b)" "set (page_ids a) \<inter> set (page_ids b) = {}" "distinct (page_ids a)" "distinct (page_ids b)"
    using ids unfolding pair(2) by auto
  have np: "p \<noteq> tree_id sib" using dab(1,2) by (auto simp: sib)
  obtain ns where cs: "cell_at c (contents s) (tree_id sib, p, ns)" using on_pages_root [OF onsib] .
  have free: "latch s (tree_id sib) = 0"
  proof (rule h(8))
    have "set (page_ids sib) \<subseteq> set (kids_page_ids L) \<union> set (kids_page_ids R)"
    proof (cases "L = []")
      case True
      then have "(kb, b) \<in> set R" using pair by auto
      then show ?thesis using kids_ids_in [of "(kb, b)" R] True by (auto simp: sib)
    next
      case False
      then have "(ka, a) \<in> set L" using pair by auto
      then show ?thesis using kids_ids_in [of "(ka, a)" L] False by (auto simp: sib)
    qed
    then have in_side: "tree_id sib \<in> set (kids_page_ids L) \<union> set (kids_page_ids R)" using tree_id_page_ids [of sib] by blast
    then show "tree_id sib \<in> set (side_ids ((p, L, k, R) # fs))" by auto
    have "(set (kids_page_ids L) \<union> set (kids_page_ids R)) \<inter> set (side_ids fs) = {}" using h(6) by auto
    then show "tree_id sib \<notin> set (frame_ids ((p, L, k, R) # fs))"
      using in_side np frame_ids_side_ids [of fs] by (auto simp: frame_ids_def)
  qed
  obtain tx where tx: "txn s = Some tx" using h(9) by blast
  have ne: "L \<noteq> [] \<or> R \<noteq> []" using arg_cong [OF pair(2), of length] by auto
  have sib': "sib = (if L = [] then snd (hd R) else snd (last L))" using pair(1) by (auto simp: sib pair_at_def)
  obtain s1 where s1: "FindLeftSibling c (tree_id t) s = Some (L = [], tree_id sib, s1)" "taken [tree_id sib] [] s s1"
    "contents s1 = contents s" "root_page_id s1 = root_page_id s"
    by (rule FindLeftSibling_spec [OF h(1) tx h(2) cp ct dist sib' ne cs free np])
  note k1 = takenD [OF s1(2)]
  obtain g where g: "contents s p = Some (InternalP g)" "page_id_m g = p"
    "\<And>j. j < length ?kts \<Longrightarrow> internal_ValueIndex (tree_id (snd (?kts ! j))) g = int j"
    using node_kid [OF cp dist] by metis
  have vi: "internal_ValueIndex (tree_id a) g = int (length A)" "internal_ValueIndex (tree_id b) g = int (Suc (length A))"
    using g(3) [of "length A"] g(3) [of "Suc (length A)"] unfolding pair(2) by (simp_all add: nth_append)
  let ?s2 = "pinned p s1"
  have P: "pair_in c (path_parent fs) p A ka a kb b B ?s2"
  proof -
    have "0 < pins ?s2 p" "0 < pins ?s2 (tree_id t)" "0 < pins ?s2 (tree_id sib)"
      using k1(3) h(2) store_inv_pins [OF h(1)] by (simp_all add: add_nonneg_pos add_pos_nonneg)
    then have "0 < pins ?s2 p" "0 < pins ?s2 (tree_id a)" "0 < pins ?s2 (tree_id b)" using pair(3,4) by (auto simp: sib split: if_splits)
    moreover have "store_inv ?s2" by (rule store_inv_pinned [OF k1(1), of p]) (simp add: s1(3) g(1))
    moreover have "distinct (p # page_ids a @ page_ids b)" using dab by simp
    ultimately show ?thesis using cp dist on same unfolding pair(2) by (simp add: pair_in_def s1(3))
  qed
  have pins1: "0 < pins s1 (tree_id t)" using taken_pins [OF s1(2) h(2)] .
  obtain ht where ht: "get_header (tree_id t) s = Some ht" "page_id_m ht = tree_id t" "parent_page_id_m ht = p"
    "size_m ht = int (node_size t)" "max_size_m ht = int (node_max c t)"
  proof -
    obtain nd where nd: "(tree_id t, p, nd) \<in> set (cells p t)" "is_leaf t \<longleftrightarrow> (\<exists>es. nd = LeafData es)"
      "(case nd of LeafData es \<Rightarrow> length es | NodeData kps \<Rightarrow> length kps) = node_size t" using tree_cell_size by blast
    have "cell_at c (contents s) (tree_id t, p, nd)" using h(4) nd(1) by (simp add: on_pages_def)
    from cell_header [OF this] obtain d h' where h': "contents s (tree_id t) = Some d" "tree_header d = Some h'" "page_id_m h' = tree_id t"
      "parent_page_id_m h' = p" "size_m h' = (case nd of LeafData es \<Rightarrow> int (length es) | NodeData kps \<Rightarrow> int (length kps))"
      "max_size_m h' + 1 = (case nd of LeafData es \<Rightarrow> leaf_slots (key_size c) | NodeData kps \<Rightarrow> internal_slots (key_size c))" by metis
    have "size_m h' = int (node_size t)" "max_size_m h' = int (node_max c t)"
      using h'(5,6) nd(2,3) slots_max(3,4) [OF sl] by (cases nd; simp add: node_max_def cap_def)+
    then show ?thesis using that h' h(2) by (simp add: get_header_def st_get_def)
  qed
  obtain hs where hs: "get_header (tree_id sib) ?s2 = Some hs" "page_id_m hs = tree_id sib" "size_m hs = int (node_size sib)"
  proof -
    obtain nd where nd: "(tree_id sib, p, nd) \<in> set (cells p sib)"
      "(case nd of LeafData es \<Rightarrow> length es | NodeData kps \<Rightarrow> length kps) = node_size sib" using tree_cell_size by blast
    have "cell_at c (contents s) (tree_id sib, p, nd)" using onsib nd(1) by (simp add: on_pages_def)
    from cell_header [OF this] obtain d h' where h': "contents s (tree_id sib) = Some d" "tree_header d = Some h'" "page_id_m h' = tree_id sib"
      "size_m h' = (case nd of LeafData es \<Rightarrow> int (length es) | NodeData kps \<Rightarrow> int (length kps))" by metis
    have "size_m h' = int (node_size sib)" using h'(4) nd(2) by (cases nd) simp_all
    moreover have "0 < pins ?s2 (tree_id sib)" using k1(3) [of "tree_id sib"] np store_inv_pins [OF h(1), of "tree_id sib"] by simp
    ultimately show ?thesis using that h' by (simp add: get_header_def st_get_def s1(3))
  qed
  have p0: "p \<noteq> INVALID_PAGE_ID" using h(7) by (auto simp: INVALID_PAGE_ID_def)
  have fetch: "st_fetch p s1 = Some ?s2" by (rule fetch_step [of _ _ "InternalP g"]) (simp add: s1(3) g(1))
  have getp: "get_internal c p ?s2 = Some g" by (rule get_pinned_internal [OF k1(1)]) (simp add: s1(3) g(1))
  have sizes: "node_size t + node_size sib = node_size a + node_size b" using pair(3,4) by (auto simp: sib)
  have fits: "int (node_size t) + int (node_size sib) \<le> int (node_max c t) \<longleftrightarrow> node_size a + node_size b \<le> node_max c t"
    using sizes by linarith
  have run: "CoalesceOrRedistribute c (kind_of t) (tree_id t) s =
      (if node_size a + node_size b \<le> node_max c t then
         do { (small, s) \<leftarrow> Coalesce_step c (kind_of t) (tree_id a) (tree_id b) p (int (Suc (length A))) ?s2;
              (_, s) \<leftarrow> (if small then CoalesceOrRedistribute c InternalNode p s else Some (False, s));
              s \<leftarrow> st_unpin p True s;
              Some (True, s) }
       else
         do { s \<leftarrow> Redistribute c (kind_of t) (tree_id sib) (tree_id t) (if L = [] then 0 else int (Suc (length A))) ?s2;
              s \<leftarrow> st_unpin p False s;
              Some (False, s) })"
    unfolding CoalesceOrRedistribute.simps [of c "kind_of t" "tree_id t" s] ht(1) Option.bind.bind_lunit IsRootPage_def ht(3)
      s1(1) GetParentPageId_def Let_def GetPageId_def GetSize_def GetMaxSize_def
    using p0 fetch hs getp ht vi g(2) fits pair(3,4) by (cases "L = []") (simp_all add: sib Let_def)
  show ?thesis by (rule that [OF run s1(2-4) P])
qed

section \<open>What stays true on the way up\<close>

lemma chained_mono: "chained m xs \<Longrightarrow> (\<And>q x. next_at m q x \<Longrightarrow> next_at m' q x) \<Longrightarrow> chained m' xs"
  unfolding chained_def by (erule successively_mono) blast

lemma chain_merge:
  assumes "successively (next_at m) (xs @ p # q # ys)" and "distinct (xs @ p # q # ys)" and "ys \<noteq> []"
    and keep: "\<And>r x. r \<noteq> p \<Longrightarrow> r \<noteq> q \<Longrightarrow> next_at m r x \<Longrightarrow> next_at m' r x" and "\<And>x. next_at m q x \<Longrightarrow> next_at m' p x"
  shows "successively (next_at m') (xs @ p # ys)"
proof -
  have mono: "successively (next_at m') zs" if z: "successively (next_at m) zs" "p \<notin> set zs" "q \<notin> set zs" for zs
  proof (rule successively_mono [OF z(1)])
    fix x y assume "x \<in> set zs" "next_at m x y"
    then show "next_at m' x y" using z(2,3) keep [of x y] by metis
  qed
  have s: "successively (next_at m) xs" "successively (next_at m) ys" "next_at m q (hd ys)" "xs \<noteq> [] \<longrightarrow> next_at m (last xs) p"
    using assms(1,3) by (auto simp: successively_append_iff successively_Cons)
  have out: "p \<notin> set xs" "q \<notin> set xs" "p \<notin> set ys" "q \<notin> set ys" using assms(2) by auto
  have "xs \<noteq> [] \<longrightarrow> next_at m' (last xs) p" using s(4) out(1,2) keep last_in_set by metis
  then show ?thesis
    using mono [OF s(1) out(1,2)] mono [OF s(2) out(3,4)] assms(3,5) s(3) by (auto simp: successively_append_iff successively_Cons)
qed

lemma heads_up:
  assumes "heads_ok k t" and "path_heads z ((p, L, k, R) # fs)" and "L @ (k, t) # R = A @ (ka, a) # (kb, b) # B"
    and "is_leaf a = is_leaf b" and "0 < node_size a"
  shows "heads_ok (path_head z fs) (Node p (A @ (ka, merge_nodes a b) # B))" and "path_heads z fs" and "heads_ok kb b"
proof -
  have kids: "\<forall>kt \<in> set (A @ (ka, a) # (kb, b) # B). heads_ok (fst kt) (snd kt)"
    unfolding assms(3) [symmetric] using assms(1,2) by auto
  have "fst (hd (A @ (ka, a) # (kb, b) # B)) = path_head z fs" 
    unfolding assms(3) [symmetric] using assms(2) by (auto simp: hd_append)
  then have "fst (hd (A @ (ka, merge_nodes a b) # B)) = path_head z fs" by (cases A) simp_all
  moreover have "heads_ok ka (merge_nodes a b)" by (rule heads_ok_merge) (use kids assms(5) in auto)
  ultimately show "heads_ok (path_head z fs) (Node p (A @ (ka, merge_nodes a b) # B))" using kids by simp
  show "path_heads z fs" "heads_ok kb b" using assms(2) kids by simp_all
qed

lemma merged_ids:
  assumes "L @ (k, t) # R = A @ (ka, a) # (kb, b) # B" and "is_leaf a = is_leaf b"
  shows "mset (page_ids t @ side_ids ((p, L, k, R) # fs)) =
    mset (tree_id b # page_ids (Node p (A @ (ka, merge_nodes a b) # B)) @ side_ids fs)"
proof -
  have "mset (page_ids t @ side_ids ((p, L, k, R) # fs)) = add_mset p (mset (kids_page_ids (A @ (ka, a) # (kb, b) # B)) + mset (side_ids fs))"
    unfolding assms(1) [symmetric] by simp
  then show ?thesis using merge_page_ids [OF assms(2)] by (simp add: add_mset_commute [of "tree_id b" p] add_ac)
qed

lemma off_lists: "distinct (p # K @ K' @ S) \<Longrightarrow> x \<in> set K \<union> set K' \<Longrightarrow> set F \<subseteq> set S \<Longrightarrow> x \<in> set (p # K @ K' @ S) - set (p # F)"
  by auto

lemma off_path:
  "distinct (side_ids ((p, L, k, R) # fs)) \<Longrightarrow> x \<in> set (kids_page_ids L) \<union> set (kids_page_ids R) \<Longrightarrow>
   x \<in> set (side_ids ((p, L, k, R) # fs)) - set (frame_ids ((p, L, k, R) # fs))"
  using off_lists [of p "kids_page_ids L" "kids_page_ids R" "side_ids fs" x "frame_ids fs"] frame_ids_side_ids [of fs]
  by (simp only: side_ids.simps frame_ids_def list.map fst_conv)

lemma taken_sibs_off:
  assumes "hole_size Lm Im h fs t" and Lm: "4 \<le> Lm" "4 \<le> Im" and "distinct (side_ids fs)"
  shows "set (taken_sibs Lm Im fs t) \<subseteq> set (side_ids fs) - set (frame_ids fs)"
  using assms(1,4)
proof (induction fs arbitrary: t h)
  case (Cons f fs)
  obtain p L k R where f: "f = (p, L, k, R)" by (cases f)
  note size = Cons.prems(1) [unfolded f]
  obtain A ka a kb b B where pair: "pair_at L k t R = (A, ka, a, kb, b, B)" "L @ (k, t) # R = A @ (ka, a) # (kb, b) # B"
    "L = [] \<longrightarrow> a = t \<and> A = []" "L \<noteq> [] \<longrightarrow> b = t \<and> L = A @ [(ka, a)]"
    by (rule frame_pair [OF frame_has_pair [OF size Lm(2)]])
  let ?sib = "if L = [] then b else a"
  have sib_in: "tree_id ?sib \<in> set (kids_page_ids L) \<union> set (kids_page_ids R)"
  proof (cases "L = []")
    case True
    then have "R = (kb, b) # B" using pair by auto
    then show ?thesis using True by simp
  next
    case False
    then have "L = A @ [(ka, a)]" using pair by simp
    then show ?thesis by simp
  qed
  have sib: "tree_id ?sib \<in> set (side_ids (f # fs)) - set (frame_ids (f # fs))"
    unfolding f by (rule off_path [OF Cons.prems(2) [unfolded f] sib_in])
  have up: "X \<subseteq> set (side_ids (f # fs)) - set (frame_ids (f # fs))" if "X \<subseteq> set (side_ids fs) - set (frame_ids fs)" for X
    using that Cons.prems(2) by (auto simp: f frame_ids_def)
  have d: "distinct (side_ids fs)" using Cons.prems(2) by (simp add: f)
  define go where "go \<longleftrightarrow> node_size a + node_size b \<le> cap Lm Im t \<and> length (A @ (ka, merge_nodes a b) # B) \<le> (if fs = [] then 2 else Im div 2)"
  have "set (taken_sibs Lm Im fs (Node p (A @ (ka, merge_nodes a b) # B))) \<subseteq> set (side_ids fs) - set (frame_ids fs)" if go
    by (rule Cons.IH [OF merged_parent(2) [OF size pair(2-4) Lm] d]) (use that in \<open>simp_all add: go_def\<close>)
  from up [OF this] have rest: "(if go then set (taken_sibs Lm Im fs (Node p (A @ (ka, merge_nodes a b) # B))) else {}) \<subseteq>
      set (side_ids (f # fs)) - set (frame_ids (f # fs))" by (cases go) simp_all
  have "taken_sibs Lm Im (f # fs) t = tree_id ?sib # (if go then taken_sibs Lm Im fs (Node p (A @ (ka, merge_nodes a b) # B)) else [])"
    by (simp add: f taken_sibs.simps(2) pair(1) Let_def go_def)
  then have "set (taken_sibs Lm Im (f # fs) t) = insert (tree_id ?sib) (if go then set (taken_sibs Lm Im fs (Node p (A @ (ka, merge_nodes a b) # B))) else {})"
    by (cases go) simp_all
  then show ?case using sib rest by (simp only: insert_subset simp_thms)
qed simp

section \<open>Sharing\<close>

lemma dist_parts:
  assumes "distinct (p # xs @ as @ bs @ ys @ zs)"
  shows "p \<notin> set xs \<union> set as \<union> set bs \<union> set ys \<union> set zs" and "set xs \<inter> (set as \<union> set bs) = {}" and "set ys \<inter> (set as \<union> set bs) = {}"
    and "set zs \<inter> (set as \<union> set bs) = {}" and "distinct (p # xs @ as @ bs @ ys)"
  using assms by auto

lemma cut_merge_leaf_ids:
  assumes "is_leaf a = is_leaf b" and "cut_node m (tree_id b) (merge_nodes a b) = (a', k', b')"
  shows "leaf_ids a' @ leaf_ids b' = leaf_ids a @ leaf_ids b"
proof (cases "is_leaf a")
  case True
  then show ?thesis using assms by (cases a; cases b) auto
next
  case False
  then show ?thesis using cut_simps(9) [OF assms(2)] merge_leaf_ids [of a b] merge_simps(4) [OF assms(1)] assms(1) by simp
qed

lemma mset_leaf_ids: "mset (leaf_ids t) \<subseteq># mset (page_ids t)"
proof (induction t rule: leaf_ids.induct)
  case (2 p kts)
  then have "mset (kids_leaf_ids kts) \<subseteq># mset (kids_page_ids kts)"
  proof (induction kts)
    case (Cons kt kts)
    then show ?case by (simp add: subset_mset.add_mono)
  qed simp
  then show ?case by (simp add: subset_mset.add_increasing2 subset_mset.order_trans [OF _ subset_mset.less_imp_le [OF multi_psub_of_add_self]])
qed simp

lemma distinct_leaf_ids: "distinct (page_ids t) \<Longrightarrow> distinct (leaf_ids t)"
  unfolding distinct_count_atmost_1
proof
  fix x assume d: "\<forall>a. count (mset (page_ids t)) a = (if a \<in> set (page_ids t) then 1 else 0)"
  have "count (mset (leaf_ids t)) x \<le> count (mset (page_ids t)) x" by (rule mset_subset_eq_count [OF mset_leaf_ids])
  also have "\<dots> \<le> 1" using d by simp
  finally show "count (mset (leaf_ids t)) x = (if x \<in> set (leaf_ids t) then 1 else 0)"
    using count_mset_gt_0 [of x "leaf_ids t"] by (cases "x \<in> set (leaf_ids t)") (simp_all add: le_Suc_eq)
qed

lemma level_ids:
  assumes "distinct (page_ids t @ side_ids ((p, L, k, R) # fs))" and "L @ (k, t) # R = A @ (ka, a) # (kb, b) # B"
  shows "distinct (p # kids_page_ids A @ page_ids a @ page_ids b @ kids_page_ids B @ side_ids fs)"
proof -
  have "distinct (p # kids_page_ids (L @ (k, t) # R) @ side_ids fs)" using assms(1) by auto
  then show ?thesis unfolding assms(2) by simp
qed

lemma share_level:
  assumes pre: "hole_in e c X ((p, L, k, R) # fs) t s" and sl: "slots_ok c" and held: "p \<in> X"
    and size: "hole_size (leaf_max c) (internal_max c) h ((p, L, k, R) # fs) t"
    and pair: "pair_at L k t R = (A, ka, a, kb, b, B)" "L @ (k, t) # R = A @ (ka, a) # (kb, b) # B"
      "L = [] \<longrightarrow> a = t \<and> A = []" "L \<noteq> [] \<longrightarrow> b = t \<and> L = A @ [(ka, a)]"
    and more: "node_max c t < node_size a + node_size b"
  shows "\<exists>s'. CoalesceOrRedistribute c (kind_of t) (tree_id t) s = Some (False, s') \<and> tree_shrunk e c ((p, L, k, R) # fs) t s s'"
proof -
  note h = hole_inD [OF pre]
  have Lm: "4 \<le> leaf_max c" "4 \<le> internal_max c" using slots_max [OF sl] by simp_all
  note sz = pair_sizes [OF size pair(2-4) Lm]
  have same: "is_leaf a = is_leaf b" by (rule loose_same [OF sz(1,2)])
  define sib where "sib = (if L = [] then b else a)"
  define m where "m = (if L = [] then Suc (node_size a) else node_size a - 1)"
  obtain a' k' b' where cut: "cut_node m (tree_id b) (merge_nodes a b) = (a', k', b')" by (metis prod_cases3)
  note C = cut_simps [OF cut] and M = merge_simps [OF same]
  obtain s1 where s1: "CoalesceOrRedistribute c (kind_of t) (tree_id t) s =
      (if node_size a + node_size b \<le> node_max c t then
         do { (small, s) \<leftarrow> Coalesce_step c (kind_of t) (tree_id a) (tree_id b) p (int (Suc (length A))) (pinned p s1);
              (_, s) \<leftarrow> (if small then CoalesceOrRedistribute c InternalNode p s else Some (False, s));
              s \<leftarrow> st_unpin p True s;
              Some (True, s) }
       else
         do { s \<leftarrow> Redistribute c (kind_of t) (tree_id sib) (tree_id t) (if L = [] then 0 else int (Suc (length A))) (pinned p s1);
              s \<leftarrow> st_unpin p False s;
              Some (False, s) })"
    "taken [tree_id sib] [] s s1" "contents s1 = contents s" "root_page_id s1 = root_page_id s"
    "pair_in c (path_parent fs) p A ka a kb b B (pinned p s1)"
    by (rule CoalesceOrRedistribute_level [OF pre sl pair same sib_def])
  have kind: "kind_of t = kind_of a" "node_max c a = node_max c t"
    using pair(3,4) same by (auto simp: kind_of_def node_max_def cap_def)
  note dp = dist_parts [OF level_ids [OF h(6) pair(2)]]
  have out: "p \<notin> set (page_ids a)" "p \<notin> set (page_ids b)" using dp(1) by blast+
  have how: "(if L = [] then 0 else int (Suc (length A))) = 0 \<and> tree_id sib = tree_id b \<and> tree_id t = tree_id a \<and> m = Suc (node_size a) \<and>
        2 \<le> node_size b \<and> node_size a < node_max c a \<or>
      (if L = [] then 0 else int (Suc (length A))) = int (Suc (length A)) \<and> tree_id sib = tree_id a \<and> tree_id t = tree_id b \<and>
        Suc m = node_size a \<and> node_size b + 1 < node_max c a"
  proof -
    have t: "node_size t \<le> node_max c t div 2" using size by (simp add: hole_size_def node_max_def)
    have big: "4 \<le> node_max c t" using sz(5) by (simp add: node_max_def)
    show ?thesis
    proof (cases "L = []")
      case True
      then have "a = t" using pair(3) by simp
      then show ?thesis using True t big more kind(2) by (auto simp: sib_def m_def)
    next
      case False
      then have "b = t" using pair(4) by simp
      then show ?thesis using False t big more kind(2) sz(6) by (auto simp: sib_def m_def)
    qed
  qed
  obtain s2 where s2: "Redistribute c (kind_of a) (tree_id sib) (tree_id t) (if L = [] then 0 else int (Suc (length A))) (pinned p s1) = Some s2"
    "pair_moved c (path_parent fs) p A ka a' k' b' B (pinned p s1) s2"
    using Redistribute_pair [OF s1(5) sl cut out how] by blast
  have k2: "kept (pinned p s1) s2"
    and cell2: "cell_at c (contents s2) (p, path_parent fs, NodeData (kid_slots (A @ (ka, a') # (k', b') # B)))"
    and on2: "on_pages c (contents s2) (set (cells p a'))" "on_pages c (contents s2) (set (cells p b'))"
    and m2: "\<And>q. q \<noteq> p \<Longrightarrow> q \<notin> set (page_ids a') \<Longrightarrow> q \<notin> set (page_ids b') \<Longrightarrow> contents s2 q = contents s q"
    and next2: "\<And>q x. next_at (contents s) q x \<Longrightarrow> next_at (contents s2) q x"
    using s2(2) by (simp_all add: pair_moved_def s1(3))
  have pin1: "0 < pins s1 p" by (rule taken_pins [OF s1(2) h(3) [OF held]])
  obtain s3 where s3: "st_unpin p False s2 = Some s3" "taken [] [] s1 s3" "contents s3 = contents s2" "root_page_id s3 = root_page_id s2"
    using taken_unpin [OF kept_taken [OF k2] takenD(1) [OF s1(2)], of False] pin1 by auto
  let ?kts = "A @ (ka, a') # (k', b') # B"
  let ?T = "plug fs (Node p ?kts)"
  have ids': "mset (page_ids a') + mset (page_ids b') = mset (page_ids a) + mset (page_ids b)"
    using C(8) merge_page_ids [OF same] by simp
  from arg_cong [OF this, of set_mset] have set': "set (page_ids a') \<union> set (page_ids b') = set (page_ids a) \<union> set (page_ids b)" by simp
  have run: "CoalesceOrRedistribute c (kind_of t) (tree_id t) s = Some (False, s3)"
    unfolding s1(1) using more s2(1) s3(1) by (simp add: kind(1))
  have not_fits: "\<not> node_size a + node_size b \<le> cap (leaf_max c) (internal_max c) t" using more by (simp add: node_max_def)
  have up: "shrink_up (leaf_max c) (internal_max c) ((p, L, k, R) # fs) t = (Some ?T, [])"
    "taken_sibs (leaf_max c) (internal_max c) ((p, L, k, R) # fs) t = [tree_id sib]"
    using not_fits cut by (simp_all add: shrink_up.simps(2) taken_sibs.simps(2) pair(1) Let_def m_def sib_def)
  have "taken [tree_id sib] [] s s3" using taken_trans [OF s1(2) s3(2)] by simp
  moreover have "opt_stored e c (Some ?T) s3"
  proof -
    have keep: "contents s3 q = contents s q" if "q \<noteq> p" "q \<notin> set (page_ids a)" "q \<notin> set (page_ids b)" for q
      using that m2 set' by (auto simp: s3(3))
    have kids: "on_pages c (contents s3) (set (kids_cells p Y))" if "Y = A \<or> Y = B" for Y
    proof (rule on_pages_kids_cong)
      have "set (kids_cells p Y) \<subseteq> set (kids_cells p (L @ (k, t) # R))" unfolding pair(2) using that by auto
      moreover have "on_pages c (contents s) (set (kids_cells p (L @ (k, t) # R)))" using h(4,5) by simp
      ultimately show "on_pages c (contents s) (set (kids_cells p Y))" using on_pages_subset by blast
      show "\<forall>q \<in> set (kids_page_ids Y). contents s3 q = contents s q"
      proof
        fix q assume "q \<in> set (kids_page_ids Y)"
        then have q: "q \<in> set (kids_page_ids A) \<union> set (kids_page_ids B)" using that by (elim disjE) (simp_all only: Un_iff simp_thms)
        then have "q \<noteq> p" using dp(1) by (simp only: Un_iff) metis
        moreover have "q \<notin> set (page_ids a)" "q \<notin> set (page_ids b)" using q dp(2,3) by (simp_all only: Un_iff) blast+
        ultimately show "contents s3 q = contents s q" by (rule keep)
      qed
    qed
    have path: "on_pages c (contents s3) (set (path_cells p fs))"
    proof (rule on_pages_path_cong)
      show "on_pages c (contents s) (set (path_cells p fs))" using h(5) by simp
      show "\<forall>q \<in> set (side_ids fs). contents s3 q = contents s q"
      proof
        fix q assume "q \<in> set (side_ids fs)"
        then have "q \<noteq> p" "q \<notin> set (page_ids a)" "q \<notin> set (page_ids b)" using dp(1,4) by (simp_all only: Un_iff) blast+
        then show "contents s3 q = contents s q" by (rule keep)
      qed
    qed
    have "0 \<notin> set (page_ids t @ side_ids ((p, L, k, R) # fs))" using h(7) by blast
    then have "0 \<notin> set (p # kids_page_ids (A @ (ka, a) # (kb, b) # B) @ side_ids fs)" unfolding pair(2) [symmetric] by simp
    then have "0 \<noteq> p" "0 \<notin> set (page_ids a)" "0 \<notin> set (page_ids b)" by auto
    then have "contents s3 HEADER_PAGE_ID = contents s HEADER_PAGE_ID" using keep by (simp add: HEADER_PAGE_ID_def)
    moreover have "tree_id (plug fs (Node p (L @ (k, t) # R))) = tree_id ?T" by (rule tree_id_plug) simp
    then have r: "root_page_id s3 = tree_id ?T" "root_page_id s = tree_id ?T" using h(10) s3(4) keptD(5) [OF k2] s1(4) by simp_all
    ultimately have "root_recorded e c (tree_id ?T) (contents s3)" using h(11) by (simp add: root_recorded_def)
    moreover have "on_pages c (contents s3) (set (cells INVALID_PAGE_ID ?T))"
      unfolding set_cells_plug using kids cell2 on2 path by (simp add: s3(3))
    moreover have "leaf_ids a' @ leaf_ids b' = leaf_ids a @ leaf_ids b"
      by (rule cut_merge_leaf_ids [OF same cut])
    then have "leaf_ids ?T = leaf_ids (plug fs (Node p (L @ (k, t) # R)))" by (simp add: leaf_ids_plug pair(2))
    then have "chained (contents s3) (leaf_ids ?T)" using h(12) next2 chained_mono by (metis plug.simps(2) s3(3))
    ultimately show ?thesis using r by (simp add: opt_stored_def)
  qed
  moreover have "contents s3 q = contents s q" if "q \<notin> set (page_ids t)" "q \<notin> set (side_ids ((p, L, k, R) # fs))" for q
  proof -
    have "q \<notin> set (p # kids_page_ids (L @ (k, t) # R))" using that by auto
    then have "q \<noteq> p" "q \<notin> set (page_ids a)" "q \<notin> set (page_ids b)" unfolding pair(2) by auto
    then show ?thesis using m2 set' by (auto simp: s3(3))
  qed
  ultimately have "tree_shrunk e c ((p, L, k, R) # fs) t s s3" unfolding tree_shrunk_def up by simp
  then show ?thesis using run by blast
qed

section \<open>Merging\<close>

lemma merge_level:
  assumes pre: "hole_in e c X ((p, L, k, R) # fs) t s" and sl: "slots_ok c"
    and size: "hole_size (leaf_max c) (internal_max c) h ((p, L, k, R) # fs) t"
    and pair: "pair_at L k t R = (A, ka, a, kb, b, B)" "L @ (k, t) # R = A @ (ka, a) # (kb, b) # B"
      "L = [] \<longrightarrow> a = t \<and> A = []" "L \<noteq> [] \<longrightarrow> b = t \<and> L = A @ [(ka, a)]"
    and fits: "node_size a + node_size b \<le> node_max c t" and heads: "heads_ok kb b" and kts: "kts = A @ (ka, merge_nodes a b) # B"
    and sib: "sib = (if L = [] then b else a)"
  obtains s1 s2 where "CoalesceOrRedistribute c (kind_of t) (tree_id t) s =
      do { (_, s) \<leftarrow> (if length kts \<le> (if fs = [] then 2 else internal_max c div 2)
                     then CoalesceOrRedistribute c InternalNode p s2 else Some (False, s2));
           s \<leftarrow> st_unpin p True s;
           Some (True, s) }"
    "taken [tree_id sib] [] s s1" "taken [] [tree_id b] (pinned p s1) s2" "hole_in e c X fs (Node p kts) s2"
    "\<And>q. q \<notin> set (page_ids t) \<Longrightarrow> q \<notin> set (side_ids ((p, L, k, R) # fs)) \<Longrightarrow> contents s2 q = contents s q"
proof -
  note h = hole_inD [OF pre]
  have Lm: "4 \<le> leaf_max c" "4 \<le> internal_max c" using slots_max [OF sl] by simp_all
  note sz = pair_sizes [OF size pair(2-4) Lm]
  have same: "is_leaf a = is_leaf b" by (rule loose_same [OF sz(1,2)])
  note dp = dist_parts [OF level_ids [OF h(6) pair(2)]]
  have kind: "kind_of t = kind_of a" "node_max c a = node_max c t"
    using pair(3,4) same by (auto simp: kind_of_def node_max_def cap_def)
  obtain s1 where s1: "CoalesceOrRedistribute c (kind_of t) (tree_id t) s =
      (if node_size a + node_size b \<le> node_max c t then
         do { (small, s) \<leftarrow> Coalesce_step c (kind_of t) (tree_id a) (tree_id b) p (int (Suc (length A))) (pinned p s1);
              (_, s) \<leftarrow> (if small then CoalesceOrRedistribute c InternalNode p s else Some (False, s));
              s \<leftarrow> st_unpin p True s;
              Some (True, s) }
       else
         do { s \<leftarrow> Redistribute c (kind_of t) (tree_id sib) (tree_id t) (if L = [] then 0 else int (Suc (length A))) (pinned p s1);
              s \<leftarrow> st_unpin p False s;
              Some (False, s) })"
    "taken [tree_id sib] [] s s1" "contents s1 = contents s" "root_page_id s1 = root_page_id s"
    "pair_in c (path_parent fs) p A ka a kb b B (pinned p s1)"
    by (rule CoalesceOrRedistribute_level [OF pre sl pair same sib])
  obtain tx where tx: "txn s = Some tx" "\<forall>q \<in> set (page_ids t @ side_ids ((p, L, k, R) # fs)). q \<notin> set (deleted_page_set tx)"
    using h(9) by blast
  note ids = merged_ids [OF pair(2) same, folded kts, of p fs]
  have all: "set (page_ids t @ side_ids ((p, L, k, R) # fs)) = insert (tree_id b) (set (page_ids (Node p kts) @ side_ids fs))"
    using arg_cong [OF ids, of set_mset] unfolding set_mset_mset set_simps .
  have dist': "tree_id b \<notin> set (page_ids (Node p kts) @ side_ids fs)" "distinct (page_ids (Node p kts) @ side_ids fs)"
    using h(6) unfolding mset_eq_imp_distinct_iff [OF ids] distinct.simps by blast+
  have b_ok: "tree_id b \<notin> set (deleted_page_set tx)" using tx(2) unfolding all by blast
  let ?tx1 = "take_pages [tree_id sib] [] tx"
  have tx1: "txn (pinned p s1) = Some ?tx1" "tree_id b \<notin> set (deleted_page_set ?tx1)"
    using takenD(8) [OF s1(2)] tx(1) b_ok by simp_all
  have onkids: "on_pages c (contents (pinned p s1)) (set (kids_cells p A))" "on_pages c (contents (pinned p s1)) (set (kids_cells p B))"
  proof -
    have "on_pages c (contents s) (set (kids_cells p (L @ (k, t) # R)))" using h(4,5) by simp
    then show "on_pages c (contents (pinned p s1)) (set (kids_cells p A))" "on_pages c (contents (pinned p s1)) (set (kids_cells p B))"
      unfolding pair(2) by (simp_all add: s1(3))
  qed
  have dk: "distinct (p # kids_page_ids (A @ (ka, a) # (kb, b) # B))" using dp(5) by simp
  obtain s2 where s2: "Coalesce_step c (kind_of a) (tree_id a) (tree_id b) p (int (Suc (length A))) (pinned p s1) =
      Some (length kts \<le> (if path_parent fs = INVALID_PAGE_ID then 2 else internal_max c div 2), s2)"
    "taken [] [tree_id b] (pinned p s1) s2" "root_page_id s2 = root_page_id (pinned p s1)"
    "on_pages c (contents s2) (set (cells (path_parent fs) (Node p kts)))"
    "\<And>q. q \<noteq> p \<Longrightarrow> q \<notin> set (page_ids a) \<Longrightarrow> q \<notin> set (page_ids b) \<Longrightarrow> contents s2 q = contents (pinned p s1) q"
    "\<And>q x. q \<noteq> tree_id a \<Longrightarrow> q \<noteq> tree_id b \<Longrightarrow> next_at (contents (pinned p s1)) q x \<Longrightarrow> next_at (contents s2) q x"
    "\<And>x. next_at (contents (pinned p s1)) (tree_id b) x \<Longrightarrow> next_at (contents s2) (tree_id a) x"
    by (rule Coalesce_step_spec [OF s1(5) sl fits [folded kind(2)] heads sz(7) dk onkids tx1 kts]) blast
  have keep: "contents s2 q = contents s q" if "q \<noteq> p" "q \<notin> set (page_ids a)" "q \<notin> set (page_ids b)" for q
    using s2(5) [OF that] by (simp add: s1(3))
  have side: "contents s2 q = contents s q" if "q \<in> set (side_ids fs)" for q
  proof (rule keep)
    show "q \<noteq> p" "q \<notin> set (page_ids a)" "q \<notin> set (page_ids b)" using that dp(1,4) by (simp_all only: Un_iff) blast+
  qed
  have parent: "path_parent fs = INVALID_PAGE_ID \<longleftrightarrow> fs = []"
  proof (cases fs)
    case (Cons f fs')
    obtain p' L' k' R' where f: "f = (p', L', k', R')" by (cases f)
    have "0 < p'" using h(7) by (simp add: Cons f)
    then show ?thesis by (simp add: Cons f INVALID_PAGE_ID_def)
  qed simp
  have run: "CoalesceOrRedistribute c (kind_of t) (tree_id t) s =
      do { (_, s) \<leftarrow> (if length kts \<le> (if fs = [] then 2 else internal_max c div 2)
                     then CoalesceOrRedistribute c InternalNode p s2 else Some (False, s2));
           s \<leftarrow> st_unpin p True s;
           Some (True, s) }"
    unfolding s1(1) unfolding kind(1) s2(1) parent using fits by simp
  have "hole_in e c X fs (Node p kts) s2"
    unfolding hole_in_def
  proof (intro conjI)
    show "store_inv s2" by (rule takenD(1) [OF s2(2)])
    have "0 < pins (pinned p s1) p" using s1(5) by (simp add: pair_in_def)
    then show "0 < pins s2 (tree_id (Node p kts))" using taken_pins [OF s2(2)] by simp
    show "\<forall>q \<in> X. 0 < pins s2 q"
    proof
      fix q assume "q \<in> X"
      then have "0 < pins s1 q" using taken_pins [OF s1(2) h(3)] by blast
      then have "0 < pins (pinned p s1) q" by (cases "q = p") simp_all
      then show "0 < pins s2 q" by (rule taken_pins [OF s2(2)])
    qed
    have "on_pages c (contents s) (set (path_cells p fs))" using h(5) by simp
    then have "on_pages c (contents s2) (set (path_cells p fs))" by (rule on_pages_path_cong) (use side in blast)
    then show "on_pages c (contents s2) (set (cells (path_parent fs) (Node p kts)) \<union> set (path_cells (tree_id (Node p kts)) fs))"
      using s2(4) by (simp only: on_pages_Un tree_id.simps simp_thms)
    show "distinct (page_ids (Node p kts) @ side_ids fs)" by (rule dist'(2))
    show "\<forall>q \<in> set (page_ids (Node p kts) @ side_ids fs). 0 < q" using h(7) unfolding all by blast
    show "\<forall>q \<in> set (side_ids fs) - set (frame_ids fs). latch s2 q = 0"
    proof
      fix q assume q: "q \<in> set (side_ids fs) - set (frame_ids fs)"
      have "tree_id sib \<in> set (page_ids a) \<union> set (page_ids b)" by (simp add: sib)
      then have ne: "q \<noteq> tree_id sib" "q \<noteq> p" using q dp(1,4) by (simp_all only: Un_iff) blast+
      have "latch s q = 0" by (rule h(8)) (use q ne(2) in \<open>auto simp: frame_ids_def\<close>)
      then show "latch s2 q = 0" using takenD(4) [OF s2(2), of q] takenD(4) [OF s1(2), of q] ne(1) by simp
    qed
    show "\<exists>tx. txn s2 = Some tx \<and> (\<forall>q \<in> set (page_ids (Node p kts) @ side_ids fs). q \<notin> set (deleted_page_set tx))"
    proof (intro exI conjI)
      show "txn s2 = Some (take_pages [] [tree_id b] ?tx1)" using takenD(8) [OF s2(2)] tx1(1) by simp
      show "\<forall>q \<in> set (page_ids (Node p kts) @ side_ids fs). q \<notin> set (deleted_page_set (take_pages [] [tree_id b] ?tx1))"
      proof
        fix q assume q: "q \<in> set (page_ids (Node p kts) @ side_ids fs)"
        then have "q \<notin> set (deleted_page_set tx)" "q \<noteq> tree_id b" using tx(2) dist'(1) unfolding all by blast+
        then show "q \<notin> set (deleted_page_set (take_pages [] [tree_id b] ?tx1))" by simp
      qed
    qed
    have "tree_id (plug fs (Node p (L @ (k, t) # R))) = tree_id (plug fs (Node p kts))" by (rule tree_id_plug) simp
    then have r: "root_page_id s2 = tree_id (plug fs (Node p kts))" "root_page_id s2 = root_page_id s"
      using h(10) s2(3) s1(4) by simp_all
    show "root_page_id s2 = tree_id (plug fs (Node p kts))" by (rule r(1))
    have "0 \<notin> set (page_ids t @ side_ids ((p, L, k, R) # fs))" using h(7) by blast
    then have "0 \<notin> set (p # kids_page_ids (A @ (ka, a) # (kb, b) # B))" unfolding pair(2) [symmetric] by simp
    then have "contents s2 HEADER_PAGE_ID = contents s HEADER_PAGE_ID" using keep [of 0] by (simp add: HEADER_PAGE_ID_def)
    then show "root_recorded e c (root_page_id s2) (contents s2)" using h(11) r(2) by (simp add: root_recorded_def)
    show "chained (contents s2) (leaf_ids (plug fs (Node p kts)))"
    proof (cases "is_leaf a")
      case True
      then obtain pa ea pb eb where ab: "a = Leaf pa ea" "b = Leaf pb eb" using same by (cases a; cases b) auto
      let ?xs = "before_hole kids_leaf_ids fs @ kids_leaf_ids A" and ?ys = "kids_leaf_ids B @ behind_hole kids_leaf_ids fs @ [INVALID_PAGE_ID]"
      let ?T = "plug fs (Node p (L @ (k, t) # R))"
      have l: "leaf_ids ?T @ [INVALID_PAGE_ID] = ?xs @ pa # pb # ?ys" by (simp add: leaf_ids_plug pair(2) ab)
      have chain: "successively (next_at (contents s)) (?xs @ pa # pb # ?ys)" using h(12) l by (simp add: chained_def)
      have "distinct (page_ids ?T)" using h(6) distinct_page_ids_plug [of "(p, L, k, R) # fs" t] by simp
      moreover have "\<forall>q \<in> set (page_ids ?T). 0 < q" using h(7) set_page_ids_plug [of "(p, L, k, R) # fs" t] by auto
      then have "- 1 \<notin> set (page_ids ?T)" by force
      ultimately have "distinct (leaf_ids ?T @ [INVALID_PAGE_ID])"
        using distinct_leaf_ids [of ?T] leaf_ids_page_ids [of ?T] by (auto simp: INVALID_PAGE_ID_def)
      then have d: "distinct (?xs @ pa # pb # ?ys)" unfolding l .
      have "successively (next_at (contents s2)) (?xs @ pa # ?ys)"
        by (rule chain_merge [OF chain d]) (use s2(6,7) in \<open>simp_all add: s1(3) ab\<close>)
      then show ?thesis by (simp add: chained_def leaf_ids_plug kts ab)
    next
      case False
      then obtain pa A' pb B' where ab: "a = Node pa A'" "b = Node pb B'" using same by (cases a; cases b) auto
      have ca: "on_pages c (contents s) (set (cells p a))" "on_pages c (contents s) (set (cells p b))"
        using s1(5) by (simp_all add: pair_in_def s1(3))
      have "leaf_ids (plug fs (Node p kts)) = leaf_ids (plug ((p, L, k, R) # fs) t)" by (simp add: leaf_ids_plug pair(2) kts ab)
      moreover have "next_at (contents s2) q x" if "next_at (contents s) q x" for q x
      proof -
        have "q \<noteq> pa" "q \<noteq> pb" using that ca next_at_leaf by (fastforce simp: ab)+
        then show ?thesis using s2(6) [of q x] that by (simp add: s1(3) ab)
      qed
      ultimately show ?thesis using h(12) chained_mono by metis
    qed
  qed
  moreover have "contents s2 q = contents s q" if "q \<notin> set (page_ids t)" "q \<notin> set (side_ids ((p, L, k, R) # fs))" for q
  proof (rule keep)
    have "q \<notin> set (p # kids_page_ids (L @ (k, t) # R))" using that by auto
    then show "q \<noteq> p" "q \<notin> set (page_ids a)" "q \<notin> set (page_ids b)" unfolding pair(2) by auto
  qed
  ultimately show ?thesis using that [OF run s1(2) s2(2)] by blast
qed

section \<open>The way up\<close>

lemma root_level:
  assumes pre: "hole_in e c X [] t s" and nonempty: "\<not> is_leaf t \<Longrightarrow> 0 < node_size t" and empty: "is_leaf t \<Longrightarrow> node_size t = 0"
  shows "\<exists>b s'. CoalesceOrRedistribute c (kind_of t) (tree_id t) s = Some (b, s') \<and> tree_shrunk e c [] t s s'"
proof -
  note h = hole_inD [OF pre]
  obtain tx where tx: "txn s = Some tx" "\<forall>q \<in> set (page_ids t). q \<notin> set (deleted_page_set tx)" using h(9) by auto
  obtain nt where ct: "cell_at c (contents s) (tree_id t, INVALID_PAGE_ID, nt)" using on_pages_root [OF h(4)] by auto
  obtain h0 where h0: "get_header (tree_id t) s = Some h0" "page_id_m h0 = tree_id t" "parent_page_id_m h0 = INVALID_PAGE_ID"
    using get_header_cell [OF ct h(2)] .
  have run: "CoalesceOrRedistribute c (kind_of t) (tree_id t) s =
      do { (delOldRoot, s) \<leftarrow> AdjustRoot c (tree_id t) s;
           s \<leftarrow> (if delOldRoot then AddIntoDeletedPageSet (tree_id t) s else Some s);
           Some (delOldRoot, s) }"
    unfolding CoalesceOrRedistribute.simps [of c "kind_of t" "tree_id t" s] h0(1) Option.bind.bind_lunit IsRootPage_def h0(3) GetPageId_def h0(2)
    by simp
  have delete: "\<exists>s''. AddIntoDeletedPageSet (tree_id t) s' = Some s'' \<and> taken [] [tree_id t] s s'' \<and> contents s'' = contents s' \<and>
      root_page_id s'' = root_page_id s'" if k: "taken [] [] s s'" for s'
  proof -
    have t: "txn s' = Some tx" using takenD(8) [OF k] tx(1) by simp
    have "AddIntoDeletedPageSet (tree_id t) s' = Some (s'\<lparr>txn := Some (take_pages [] [tree_id t] tx)\<rparr>)"
      using tx(2) by (simp add: AddIntoDeletedPageSet_def t take_pages_def)
    moreover have "taken [] [tree_id t] s (s'\<lparr>txn := Some (take_pages [] [tree_id t] tx)\<rparr>)"
      using k tx(1) by (simp add: taken_def)
    ultimately show ?thesis by simp
  qed
  have root: "root_page_id s = tree_id t" "root_recorded e c (tree_id t) (contents s)" "chained (contents s) (leaf_ids t)"
    using h(10-12) by simp_all
  show ?thesis
  proof (cases t)
    case (Leaf p es)
    have es: "es = []" using empty by (simp add: Leaf)
    have cl: "cell_at c (contents s) (p, INVALID_PAGE_ID, LeafData es)" using h(4) by (simp add: Leaf)
    have pp: "0 < pins s p" using h(2) by (simp add: Leaf)
    obtain s1 where s1: "AdjustRoot c p s = Some (True, s1)" "taken [] [] s s1" "root_page_id s1 = INVALID_PAGE_ID"
      "root_recorded e c INVALID_PAGE_ID (contents s1)" "\<And>q. q \<noteq> HEADER_PAGE_ID \<Longrightarrow> contents s1 q = contents s q"
      using AdjustRoot_leaf [OF h(1) pp cl root(2)] by blast
    obtain s2 where s2: "AddIntoDeletedPageSet (tree_id t) s1 = Some s2" "taken [] [tree_id t] s s2" "contents s2 = contents s1"
      "root_page_id s2 = root_page_id s1" using delete [OF s1(2)] by blast
    have "tree_shrunk e c [] t s s2"
      using s1 s2 by (simp add: tree_shrunk_def opt_stored_def Leaf es)
    moreover have "CoalesceOrRedistribute c (kind_of t) (tree_id t) s = Some (True, s2)"
      unfolding run using s1(1) s2(1) by (simp add: Leaf)
    ultimately show ?thesis by blast
  next
    case (Node p kts)
    have ne: "kts \<noteq> []" using nonempty by (simp add: Node)
    have on: "on_pages c (contents s) (set (cells INVALID_PAGE_ID (Node p kts)))" "0 < pins s p" "root_page_id s = p"
      "root_recorded e c p (contents s)" "distinct (page_ids (Node p kts))" "\<forall>q \<in> set (page_ids (Node p kts)). 0 < q"
      using h(2,4,6,7) root by (simp_all add: Node)
    let ?T = "if length kts = 1 then snd (hd kts) else Node p kts"
    obtain s1 where s1: "AdjustRoot c p s = Some (length kts = 1, s1)" "taken [] [] s s1"
      "let T = ?T in root_page_id s1 = tree_id T \<and>
       root_recorded e c (tree_id T) (contents s1) \<and> on_pages c (contents s1) (set (cells INVALID_PAGE_ID T))"
      "\<And>q. q \<noteq> HEADER_PAGE_ID \<Longrightarrow> q \<notin> set (page_ids (Node p kts)) \<Longrightarrow> contents s1 q = contents s q"
      "\<And>q x. next_at (contents s) q x \<Longrightarrow> next_at (contents s1) q x"
      using AdjustRoot_node [OF h(1) on(2,1,5,4,6,3) ne] by blast
    have "leaf_ids ?T = leaf_ids t" using ne by (cases kts) (auto simp: Node)
    then have chain: "chained (contents s1) (leaf_ids ?T)" using chained_mono [OF root(3) s1(5)] by simp
    show ?thesis
    proof (cases "length kts = 1")
      case True
      obtain s2 where s2: "AddIntoDeletedPageSet (tree_id t) s1 = Some s2" "taken [] [tree_id t] s s2" "contents s2 = contents s1"
        "root_page_id s2 = root_page_id s1" using delete [OF s1(2)] by blast
      have "tree_shrunk e c [] t s s2"
        using s1(3,4) s2 chain True by (simp add: tree_shrunk_def opt_stored_def Node Let_def)
      moreover have "CoalesceOrRedistribute c (kind_of t) (tree_id t) s = Some (True, s2)"
        unfolding run using s1(1) s2(1) True by (simp add: Node)
      ultimately show ?thesis by blast
    next
      case False
      have "tree_shrunk e c [] t s s1"
        using s1(2-4) chain False by (simp add: tree_shrunk_def opt_stored_def Node Let_def)
      moreover have "CoalesceOrRedistribute c (kind_of t) (tree_id t) s = Some (False, s1)"
        unfolding run using s1(1) False by (simp add: Node)
      ultimately show ?thesis by blast
    qed
  qed
qed

lemma CoalesceOrRedistribute_spec:
  assumes "hole_in e c X fs t s" and sl: "slots_ok c" and "held_up (internal_max c) X fs"
    and "hole_size (leaf_max c) (internal_max c) h fs t" and "heads_ok (path_head z fs) t" and "path_heads z fs"
    and "fs = [] \<and> is_leaf t \<longrightarrow> node_size t = 0"
  shows "\<exists>b s'. CoalesceOrRedistribute c (kind_of t) (tree_id t) s = Some (b, s') \<and> tree_shrunk e c fs t s s'"
  using assms(1,3-)
proof (induction fs arbitrary: t s h)
  case Nil
  have "0 < node_size t" if "\<not> is_leaf t" using Nil.prems(3) that by (simp add: hole_size_def)
  then show ?case using root_level [OF Nil.prems(1)] Nil.prems(6) by simp
next
  case (Cons f fs)
  obtain p L k R where f: "f = (p, L, k, R)" by (cases f)
  note pre = Cons.prems(1) [unfolded f] and held = Cons.prems(2) [unfolded f] and size = Cons.prems(3) [unfolded f]
  note h = hole_inD [OF pre]
  have Lm: "4 \<le> leaf_max c" "4 \<le> internal_max c" using slots_max [OF sl] by simp_all
  obtain A ka a kb b B where pair: "pair_at L k t R = (A, ka, a, kb, b, B)" "L @ (k, t) # R = A @ (ka, a) # (kb, b) # B"
    "L = [] \<longrightarrow> a = t \<and> A = []" "L \<noteq> [] \<longrightarrow> b = t \<and> L = A @ [(ka, a)]"
    by (rule frame_pair [OF frame_has_pair [OF size Lm(2)]])
  note sz = pair_sizes [OF size pair(2-4) Lm]
  have same: "is_leaf a = is_leaf b" by (rule loose_same [OF sz(1,2)])
  have pX: "p \<in> X" using held by simp
  show ?case
  proof (cases "node_size a + node_size b \<le> node_max c t")
    case False
    then have "node_max c t < node_size a + node_size b" by simp
    from share_level [OF pre sl pX size pair this] show ?thesis unfolding f by blast
  next
    case True
    then have fits: "node_size a + node_size b \<le> cap (leaf_max c) (internal_max c) t" by (simp add: node_max_def)
    define kts where "kts = A @ (ka, merge_nodes a b) # B"
    define sib where "sib = (if L = [] then b else a)"
    have hk: "heads_ok k t" using Cons.prems(4) by (simp add: f)
    note up = heads_up [OF hk Cons.prems(5) [unfolded f] pair(2) same sz(6), folded kts_def]
    obtain s1 s2 where lev: "CoalesceOrRedistribute c (kind_of t) (tree_id t) s =
        do { (_, s) \<leftarrow> (if length kts \<le> (if fs = [] then 2 else internal_max c div 2)
                       then CoalesceOrRedistribute c InternalNode p s2 else Some (False, s2));
             s \<leftarrow> st_unpin p True s;
             Some (True, s) }"
      "taken [tree_id sib] [] s s1" "taken [] [tree_id b] (pinned p s1) s2" "hole_in e c X fs (Node p kts) s2"
      "\<And>q. q \<notin> set (page_ids t) \<Longrightarrow> q \<notin> set (side_ids ((p, L, k, R) # fs)) \<Longrightarrow> contents s2 q = contents s q"
      by (rule merge_level [OF pre sl size pair True up(3) kts_def sib_def]) blast
    let ?small = "length kts \<le> (if fs = [] then 2 else internal_max c div 2)"
    let ?up = "if ?small then shrink_up (leaf_max c) (internal_max c) fs (Node p kts) else (Some (plug fs (Node p kts)), [])"
    let ?sibs = "if ?small then taken_sibs (leaf_max c) (internal_max c) fs (Node p kts) else []"
    have len: "length kts = length L + length R" using arg_cong [OF pair(2), of length] by (simp add: kts_def)
    note level = level_ids [OF h(6) pair(2)] and ids = merged_ids [OF pair(2) same, folded kts_def, of p fs]
    have all: "set (page_ids t @ side_ids ((p, L, k, R) # fs)) = insert (tree_id b) (set (page_ids (Node p kts) @ side_ids fs))"
      using arg_cong [OF ids, of set_mset] unfolding set_mset_mset set_simps .
    have rest: "\<exists>b' s3. (if ?small then CoalesceOrRedistribute c InternalNode p s2 else Some (False, s2)) = Some (b', s3) \<and>
        taken ?sibs (snd ?up) s2 s3 \<and> opt_stored e c (fst ?up) s3 \<and> set ?sibs \<subseteq> set (side_ids fs) - set (frame_ids fs) \<and>
        (\<forall>q. q \<notin> set (page_ids (Node p kts)) \<longrightarrow> q \<notin> set (side_ids fs) \<longrightarrow> q \<noteq> HEADER_PAGE_ID \<longrightarrow> contents s3 q = contents s2 q)"
    proof (cases ?small)
      case small: True
      have size': "hole_size (leaf_max c) (internal_max c) (Suc h) fs (Node p kts)"
        unfolding kts_def by (rule merged_parent(2) [OF size pair(2-4) Lm fits]) (use small in \<open>simp only: kts_def\<close>)
      have held': "held_up (internal_max c) X fs" using held small len by simp
      have "\<exists>b' s3. CoalesceOrRedistribute c (kind_of (Node p kts)) (tree_id (Node p kts)) s2 = Some (b', s3) \<and> tree_shrunk e c fs (Node p kts) s2 s3"
        by (rule Cons.IH [OF lev(4) held' size' up(1,2)]) simp
      then obtain b' s3 where s3: "CoalesceOrRedistribute c InternalNode p s2 = Some (b', s3)" "tree_shrunk e c fs (Node p kts) s2 s3"
        by (auto simp: kind_of_def)
      have "set ?sibs \<subseteq> set (side_ids fs) - set (frame_ids fs)"
        using taken_sibs_off [OF size' Lm] level small by simp
      then show ?thesis using s3 small by (auto simp: tree_shrunk_def split_beta)
    next
      case False
      have "opt_stored e c (Some (plug fs (Node p kts))) s2"
        using hole_inD(4,5,10-12) [OF lev(4)] by (simp add: opt_stored_def set_cells_plug del: cells.simps)
      then show ?thesis using False kept_taken [OF kept_refl [OF hole_inD(1) [OF lev(4)]]] by (intro exI [of _ False] exI [of _ s2]) simp
    qed
    then obtain b' s3 where s3: "(if ?small then CoalesceOrRedistribute c InternalNode p s2 else Some (False, s2)) = Some (b', s3)"
      "taken ?sibs (snd ?up) s2 s3" "opt_stored e c (fst ?up) s3" "set ?sibs \<subseteq> set (side_ids fs) - set (frame_ids fs)"
      "\<And>q. q \<notin> set (page_ids (Node p kts)) \<Longrightarrow> q \<notin> set (side_ids fs) \<Longrightarrow> q \<noteq> HEADER_PAGE_ID \<Longrightarrow> contents s3 q = contents s2 q" by blast
    have "taken ?sibs (snd ?up @ [tree_id b]) (pinned p s1) s3" using taken_trans [OF lev(3) s3(2)] by simp
    moreover have "p \<notin> set ?sibs" using s3(4) level by auto
    ultimately obtain s4 where s4: "st_unpin p True s3 = Some s4" "taken ?sibs (snd ?up @ [tree_id b]) s1 s4"
      "contents s4 = contents s3" "root_page_id s4 = root_page_id s3"
      using taken_unpin [OF _ takenD(1) [OF lev(2)]] by blast
    have "tree_id sib \<in> set (page_ids a) \<union> set (page_ids b)" by (simp add: sib_def)
    then have "tree_id sib \<notin> set (side_ids fs)" using dist_parts(4) [OF level] by blast
    then have dis: "set [tree_id sib] \<inter> set ?sibs = {}" using s3(4) by auto
    have t4: "taken (tree_id sib # ?sibs) (snd ?up @ [tree_id b]) s s4" using taken_trans [OF lev(2) s4(2) dis] by simp
    have e1: "shrink_up (leaf_max c) (internal_max c) (f # fs) t = (fst ?up, snd ?up @ [tree_id b])"
      using fits by (simp add: f shrink_up.simps(2) pair(1) Let_def kts_def split_beta)
    have e2: "taken_sibs (leaf_max c) (internal_max c) (f # fs) t = tree_id sib # ?sibs"
      using fits by (simp add: f taken_sibs.simps(2) pair(1) Let_def kts_def sib_def)
    have "contents s4 q = contents s q" if q: "q \<notin> set (page_ids t)" "q \<notin> set (side_ids (f # fs))" "q \<noteq> HEADER_PAGE_ID" for q
    proof -
      have "q \<notin> set (page_ids t @ side_ids ((p, L, k, R) # fs))" using q(1,2) unfolding f set_append by blast
      then have "q \<notin> set (page_ids (Node p kts))" "q \<notin> set (side_ids fs)" unfolding all by simp_all
      then have "contents s4 q = contents s2 q" using s3(5) q(3) by (simp only: s4(3))
      also have "contents s2 q = contents s q" using lev(5) q(1,2) unfolding f by blast
      finally show ?thesis .
    qed
    moreover have "opt_stored e c (fst ?up) s4" using s3(3) unfolding opt_stored_def s4(3,4) .
    ultimately have "tree_shrunk e c (f # fs) t s s4" unfolding tree_shrunk_def e1 e2 using t4 by simp
    moreover have "CoalesceOrRedistribute c (kind_of t) (tree_id t) s = Some (True, s4)" unfolding lev(1) s3(1) using s4(1) by simp
    ultimately show ?thesis by blast
  qed
qed

end
