(* ===== verification/BTreeRemoveRun.thy ===== *)
theory BTreeRemoveRun imports BTreeCoalesce begin

text \<open>
  A deletion from its call to its return: the entry of the key is gone, the tree meets its invariant, the
  pages that went are deleted, and nothing stays pinned or latched.
\<close>

section \<open>What the writer holds\<close>

lemma held_up_mono: "held_up Im X fs \<Longrightarrow> X \<subseteq> Y \<Longrightarrow> held_up Im Y fs"
  by (induction Im X fs rule: held_up.induct) auto

lemma crabbed_held:
  assumes "crabbed c OP_DELETE fs t P b" and "fs = [] \<or> \<not> node_safe c OP_DELETE t"
  shows "held_up (internal_max c) (set P) fs"
  using assms
proof (induction rule: crabbed.induct)
  case (unsafe t fs p L k R P b)
  have "p \<in> set P" using crabbed_in [OF unsafe.hyps(2)] by simp
  moreover have "held_up (internal_max c) (set P) fs" if "length L + length R \<le> (if fs = [] then 2 else internal_max c div 2)"
    using that unsafe.IH by (auto simp: node_safe_def node_max_def cap_def split: if_splits)
  ultimately have "held_up (internal_max c) (set P) ((p, L, k, R) # fs)" by simp
  then show ?case by (rule held_up_mono) auto
qed auto

text \<open>What it deletes is held by then.\<close>

lemma shrink_up_deleted:
  "tree_id t \<in> X \<Longrightarrow> held_up Im X fs \<Longrightarrow> set (snd (shrink_up Lm Im fs t)) \<subseteq> X \<union> set (taken_sibs Lm Im fs t)"
proof (induction fs arbitrary: t)
  case (Cons f fs)
  obtain p L k R where f: "f = (p, L, k, R)" by (cases f)
  obtain A ka a kb b B where pair: "pair_at L k t R = (A, ka, a, kb, b, B)" by (metis prod_cases6)
  have b: "L \<noteq> [] \<Longrightarrow> b = t" and len: "L \<noteq> [] \<or> R \<noteq> [] \<Longrightarrow> Suc (length A + length B) = length L + length R"
    using pair by (auto simp: pair_at_def split: if_splits)
  have p: "p \<in> X" using Cons.prems(2) by (simp add: f)
  let ?kts = "A @ (ka, merge_nodes a b) # B"
  show ?case
  proof (cases "node_size a + node_size b \<le> cap Lm Im t \<and> length ?kts \<le> (if fs = [] then 2 else Im div 2)")
    case True
    have "length L + length R \<le> (if fs = [] then 2 else Im div 2)" using True len by (cases "L = [] \<and> R = []") auto
    then have "held_up Im X fs" using Cons.prems(2) by (simp add: f)
    then have "set (snd (shrink_up Lm Im fs (Node p ?kts))) \<subseteq> X \<union> set (taken_sibs Lm Im fs (Node p ?kts))" using Cons.IH p by simp
    then show ?thesis using True b Cons.prems(1)
      by (auto simp: f shrink_up.simps(2) taken_sibs.simps(2) pair Let_def split_beta)
  next
    case False
    then show ?thesis using b Cons.prems(1)
      by (auto simp: f shrink_up.simps(2) taken_sibs.simps(2) pair Let_def split_beta)
  qed
qed simp

section \<open>The order after a removal\<close>

context key_order begin

lemma key_sorted_hd_le:
  assumes "key_sorted cmp K es" and "e \<in> set es" and "k \<in> K" and "cmp k (fst (hd es)) \<le> 0"
  shows "cmp k (fst e) \<le> 0"
proof -
  obtain x xs where es: "es = x # xs" using assms(2) by (cases es) auto
  have K: "fst e \<in> K" "fst x \<in> K" using assms(1,2) key_sorted_in [OF assms(1)] by (auto simp: es)
  have "e = x \<or> cmp (fst x) (fst e) < 0" using assms(1,2) by (auto simp: es key_sorted_Cons)
  then show ?thesis using assms(3,4) K cmp_le_less_trans [of k "fst x" "fst e"] by (auto simp: es)
qed

text \<open>The hole may hold fewer entries.\<close>

lemma path_ok_inside:
  assumes "path_ok cmp K fs es" and "key_sorted cmp K (before_hole kids_entries fs @ es @ behind_hole kids_entries fs)"
    and "es' \<noteq> []" and "set es' \<subseteq> set es"
  shows "path_ok cmp K fs es'"
  using assms
proof (induction fs arbitrary: es es' rule: side_ids.induct)
  case (2 p L k R fs)
  have sorted: "key_sorted cmp K es" using "2.prems"(2) by (simp add: key_sorted_append)
  have s: "seps_ok cmp K (map kid_view L @ (k, es) # map kid_view R)" using "2.prems"(1) by simp
  have ends: "hd es' \<in> set es" "last es' \<in> set es" using "2.prems"(3,4) by auto
  have low: "sep_ok cmp K x (k, es')" if "sep_ok cmp K x (k, es)" for x
    using that key_sorted_hd_le [OF sorted ends(1), of k] by (simp add: sep_ok_def)
  have high: "sep_ok cmp K (k, es') x" if "sep_ok cmp K (k, es) x" for x
    using that key_sorted_last [OF sorted ends(2), of "fst x"] by (simp add: sep_ok_def)
  have "seps_ok cmp K (map kid_view L @ (k, es') # map kid_view R)"
    using s "2.prems"(3) low high by (cases "L = []"; cases "R = []") (simp_all add: seps_ok_append seps_ok_Cons last_map hd_map)
  moreover have "path_ok cmp K fs (kids_entries L @ es' @ kids_entries R)"
    by (rule "2.IH" [of "kids_entries L @ es @ kids_entries R"]) (use "2.prems" in auto)
  ultimately show ?case using "2.prems"(1) by simp
qed simp

lemma key_sorted_removed:
  assumes "key_sorted cmp K es" and "key_sorted cmp K es'" and "map_of es' = (map_of es)(key := None)"
  shows "set es' \<subseteq> set es"
proof
  fix x assume x: "x \<in> set es'"
  obtain k v where kv: "x = (k, v)" by (cases x)
  have "map_of es' k = Some v" using x key_sorted_distinct [OF assms(2)] by (simp add: kv)
  then have "map_of es k = Some v" using assms(3) by (auto split: if_splits)
  then show "x \<in> set es" by (simp add: kv map_of_SomeD)
qed

text \<open>What the tree is when its leaf lost the key, and the order around it.\<close>

lemma removed_context:
  assumes inv: "tree_inv c K (plug fs (Leaf p es))" and sl: "slots_ok c" and c: "comparator c = cmp" and key: "key \<in> K"
    and hole: "in_hole cmp key fs" and es': "key_sorted cmp K es'" "map_of es' = (map_of es)(key := None)"
  shows "key_sorted cmp K (before_hole kids_entries fs @ es' @ behind_hole kids_entries fs)"
    and "map_of (before_hole kids_entries fs @ es' @ behind_hole kids_entries fs) = (map_of (entries (plug fs (Leaf p es))))(key := None)"
    and "es' \<noteq> [] \<Longrightarrow> path_ok cmp K fs es'"
proof -
  let ?b = "before_hole kids_entries fs" and ?a = "behind_hole kids_entries fs"
  have sorted: "key_sorted cmp K (?b @ es @ ?a)" and path: "path_ok cmp K fs es"
    using inv by (simp_all add: tree_inv_def c entries_plug search_ok_plug)
  have sub: "set es' \<subseteq> set es" by (rule key_sorted_removed [OF _ es']) (use sorted in \<open>simp add: key_sorted_append\<close>)
  show "key_sorted cmp K (?b @ es' @ ?a)" using sorted es'(1) sub unfolding key_sorted_append set_append by blast
  show "path_ok cmp K fs es'" if "es' \<noteq> []" by (rule path_ok_inside [OF path sorted that sub])
  note out = in_hole_outside [OF path key hole sorted]
  have "fst x \<noteq> key" if "x \<in> set ?b \<union> set ?a" for x using out that cmp_refl [OF key] by fastforce
  then have "map_of ?b key = None" "map_of ?a key = None" by (auto simp: map_of_eq_None_iff)
  then show "map_of (?b @ es' @ ?a) = (map_of (entries (plug fs (Leaf p es))))(key := None)"
    using es'(2) by (auto simp: entries_plug map_add_def fun_eq_iff split: option.splits)
qed

lemma removed_sizes:
  assumes inv: "tree_inv c K (plug fs (Leaf p es))" and sl: "slots_ok c" and len: "length es' \<le> length es" "length es \<le> Suc (length es')"
  shows "path_shape (leaf_max c) (internal_max c) 0 fs" and "(if fs = [] then 1 else leaf_max c div 2) \<le> length es"
    and "fs \<noteq> [] \<Longrightarrow> es' \<noteq> []" and "length es' \<le> leaf_max c"
    and "length es' < (if fs = [] then 1 else leaf_max c div 2) \<Longrightarrow> hole_size (leaf_max c) (internal_max c) 0 fs (Leaf p es')"
proof -
  obtain h where h: "shape (leaf_max c) (internal_max c) True h (plug fs (Leaf p es))" using inv by (auto simp: tree_inv_def)
  have "h = (h - length fs) + length fs" using shape_plug_height [OF h] by simp
  then have sh: "shape (leaf_max c) (internal_max c) (fs = []) (h - length fs) (Leaf p es)"
    "path_shape (leaf_max c) (internal_max c) (h - length fs) fs" using h shape_plug by metis+
  then have h0: "h - length fs = 0" by simp
  show path: "path_shape (leaf_max c) (internal_max c) 0 fs" using sh(2) h0 by simp
  show low: "(if fs = [] then 1 else leaf_max c div 2) \<le> length es" using sh(1) by simp
  show "es' \<noteq> []" if "fs \<noteq> []" using that low len(2) slots_max(5) [OF sl] by auto
  show "length es' \<le> leaf_max c" using sh(1) len(1) by simp
  show "hole_size (leaf_max c) (internal_max c) 0 fs (Leaf p es')" if "length es' < (if fs = [] then 1 else leaf_max c div 2)"
    using that path low len sh(1) by (auto simp: hole_size_def loose_def cap_def)
qed

lemma removed_in_place:
  assumes inv: "tree_inv c K (plug fs (Leaf p es))" and sl: "slots_ok c" and c: "comparator c = cmp" and key: "key \<in> K"
    and hole: "in_hole cmp key fs" and es': "key_sorted cmp K es'" "map_of es' = (map_of es)(key := None)"
    and len: "length es' \<le> length es" "length es \<le> Suc (length es')" and big: "(if fs = [] then 1 else leaf_max c div 2) \<le> length es'"
  shows "tree_inv c K (plug fs (Leaf p es'))"
proof -
  note r = removed_context [OF inv sl c key hole es'] and z = removed_sizes [OF inv sl len]
  have ne: "es' \<noteq> []" using big slots_max(5) [OF sl] by (auto split: if_splits)
  have "shape (leaf_max c) (internal_max c) True (0 + length fs) (plug fs (Leaf p es'))"
    unfolding shape_plug using z(1,4) big by simp
  moreover have "heads_ok (zero_key c) (plug fs (Leaf p es'))" using inv by (simp add: tree_inv_def heads_ok_plug)
  ultimately show ?thesis
    using r(1,3) ne by (auto simp: tree_inv_def c entries_plug search_ok_plug)
qed

lemma removed_up:
  assumes inv: "tree_inv c K (plug fs (Leaf p es))" and sl: "slots_ok c" and c: "comparator c = cmp" and key: "key \<in> K"
    and hole: "in_hole cmp key fs" and es': "key_sorted cmp K es'" "map_of es' = (map_of es)(key := None)"
    and len: "length es' \<le> length es" "length es \<le> Suc (length es')" and small: "length es' < (if fs = [] then 1 else leaf_max c div 2)"
    and T: "T = fst (shrink_up (leaf_max c) (internal_max c) fs (Leaf p es'))"
  shows "\<And>t. T = Some t \<Longrightarrow> tree_inv c K t" and "index_entries T = before_hole kids_entries fs @ es' @ behind_hole kids_entries fs"
proof -
  note r = removed_context [OF inv sl c key hole es'] and z = removed_sizes [OF inv sl len]
  have "path_ok cmp K fs es'" using r(3) z(3) by (cases "fs = []") simp_all
  then have "hole_fit cmp K (zero_key c) fs (Leaf p es')"
    using inv r(1) by (simp add: hole_fit_def tree_inv_def heads_ok_plug)
  from shrink_up_fit [OF this z(5) [OF small] slots_max(5,2) [OF sl]]
  have fit: "tree_fit cmp K (leaf_max c) (internal_max c) (zero_key c) (before_hole kids_entries fs @ es' @ behind_hole kids_entries fs) T"
    by (simp add: T)
  then show "index_entries T = before_hole kids_entries fs @ es' @ behind_hole kids_entries fs"
    by (auto simp: tree_fit_def index_entries_def split: option.splits)
  show "tree_inv c K t" if "T = Some t" for t
    using fit that r(1) by (auto simp: tree_fit_def tree_inv_def c)
qed

end

section \<open>Giving the pages back\<close>

lemma remove_finish:
  assumes hold: "holding P b s s1" and tk: "taken N D s1 s3" and s: "writable s" "\<forall>q. pins s q = 0"
    and D: "distinct D" "set D \<subseteq> set P \<union> set N" and disj: "set P \<inter> set N = {}"
  shows "\<exists>s4. FreePagesInTransaction True cur s3 = Some s4 \<and> writable s4 \<and> (\<forall>q. pins s4 q = 0) \<and>
    contents s4 = (\<lambda>q. if q \<in> set D then None else contents s3 q) \<and> root_page_id s4 = root_page_id s3"
proof -
  note h = holdingD [OF hold] and k = takenD [OF tk]
  let ?t = "take_pages N D (add_pages P no_pages)"
  have t: "txn s3 = Some ?t" "page_set ?t = P @ N" "deleted_page_set ?t = D" using k(8) h(10) by simp_all
  have pins: "pins s3 q = (if q \<in> set P \<union> set N then 1 else 0)" for q using k(3) [of q] h(4) [of q] s(2) disj by auto
  have latch: "latch s3 q = (if q \<in> set P \<union> set N then - 1 else 0)" for q using k(4) [of q] h(5) [of q] by auto
  have root: "root_latch s3 = (if b then - 1 else 0)" "root_locked_cnt s3 = (if b then 1 else 0)" using k(6,7) h(8,9) by simp_all
  have set_t: "set (page_set ?t) = set P \<union> set N" unfolding t(2) by simp
  have p1: "distinct (page_set ?t)" "\<forall>p \<in> set (page_set ?t). latch s3 p = - 1 \<and> 0 < pins s3 p"
    using h(2) k(2) disj pins latch unfolding t(2) by simp_all
  have p2: "distinct (deleted_page_set ?t)" "set (deleted_page_set ?t) \<subseteq> set (page_set ?t)" "\<forall>p \<in> set (deleted_page_set ?t). pins s3 p = 1"
    using D pins unfolding t(3) set_t by auto
  obtain s4 where s4: "FreePagesInTransaction True cur s3 = Some s4" "given_back (set P \<union> set N) (set D) s3 s4"
    "root_latch s4 = 0" "root_locked_cnt s4 = 0" "txn s4 = Some no_pages"
    using Free_write [OF k(1) t(1) p1 p2 root, of cur] unfolding set_t t(3) no_pages_def [symmetric] by blast
  have "writable s4" "\<forall>q. pins s4 q = 0" using s4 latch pins by (simp_all add: writable_def given_back_def)
  then show ?thesis using s4(1,2) by (simp add: given_back_def)
qed

definition remove_done ::
  "bool \<Rightarrow> ('k, 'v) tree_params \<Rightarrow> 'k set \<Rightarrow> ('k, 'v) tree option \<Rightarrow> ('k \<rightharpoonup> 'v) \<Rightarrow> ('k, 'v) btree \<Rightarrow> bool" where
  "remove_done e c K T m s \<longleftrightarrow> index_is c K T s \<and> writable s \<and> (\<forall>q. pins s q = 0) \<and>
     root_recorded e c (root_page_id s) (contents s) \<and> map_of (index_entries T) = m"

text \<open>The tree of the last state lies on pages that were not deleted.\<close>

lemma opt_stored_done:
  assumes st: "opt_stored e c T s3" and m: "contents s4 = (\<lambda>q. if q \<in> D then None else contents s3 q)"
    and root: "root_page_id s4 = root_page_id s3" and D: "D \<inter> set (opt_page_ids T) = {}" "\<forall>q \<in> D. 0 < q"
    and ids: "distinct (opt_page_ids T)" "\<forall>q \<in> set (opt_page_ids T). 0 < q" and inv: "\<And>t. T = Some t \<Longrightarrow> tree_inv c K t" and sl: "slots_ok c"
  shows "index_is c K T s4" and "root_recorded e c (root_page_id s4) (contents s4)"
proof -
  have "HEADER_PAGE_ID \<notin> D" using D(2) by (auto simp: HEADER_PAGE_ID_def)
  then have hd: "contents s4 HEADER_PAGE_ID = contents s3 HEADER_PAGE_ID" by (simp add: m)
  then show "root_recorded e c (root_page_id s4) (contents s4)"
    using st by (auto simp: opt_stored_def root_recorded_def root split: option.splits)
  show "index_is c K T s4"
  proof (cases T)
    case None
    then show ?thesis using st sl by (simp add: index_is_def opt_stored_def root)
  next
    case (Some t)
    have keep: "contents s4 q = contents s3 q" if "q \<in> set (page_ids t)" for q using that D(1) by (auto simp: m Some)
    have "on_pages c (contents s4) (set (cells INVALID_PAGE_ID t))"
      by (rule on_pages_tree_cong) (use st keep in \<open>auto simp: opt_stored_def Some\<close>)
    moreover have "successively (next_at (contents s4)) (leaf_ids t @ [INVALID_PAGE_ID])"
    proof -
      have chain: "successively (next_at (contents s3)) (leaf_ids t @ [INVALID_PAGE_ID])" using st by (simp add: opt_stored_def Some chained_def)
      have "next_at (contents s4) x y" if "x \<in> set (leaf_ids t @ [INVALID_PAGE_ID])" "next_at (contents s3) x y" for x y
      proof -
        have "x \<notin> D"
        proof
          assume "x \<in> D"
          then have "0 < x" "x \<notin> set (page_ids t)" using D by (auto simp: Some)
          then show False using that(1) leaf_ids_page_ids [of t] by (auto simp: INVALID_PAGE_ID_def)
        qed
        then show ?thesis using that(2) by (simp add: next_at_def m)
      qed
      then show ?thesis using successively_mono [OF chain] by blast
    qed
    ultimately show ?thesis
      using st ids inv sl by (simp add: index_is_def opt_stored_def Some root stored_def on_pages_def)
  qed
qed

section \<open>A deletion from call to return\<close>

lemma crabbed_hole_free:
  assumes "crabbed c op fs t P b" and "distinct (page_ids t @ side_ids fs)" and "q \<in> set (side_ids fs)" and "q \<notin> set (frame_ids fs)"
  shows "q \<notin> set P"
proof -
  have "q \<noteq> tree_id t" using assms(2,3) tree_id_page_ids [of t] by (simp only: distinct_append) blast
  then show ?thesis using crabbed_in [OF assms(1)] assms(4) by auto
qed

context key_order begin

lemma Remove_key_spec:
  assumes idx: "index_is c K (Some T) s" and s: "writable s" "\<forall>q. pins s q = 0" and c: "comparator c = cmp" and key: "key \<in> K"
    and recorded: "root_recorded e c (tree_id T) (contents s)"
  shows "\<exists>s' T'. Remove_key c key s = Some s' \<and> remove_done e c K T' ((map_of (entries T))(key := None)) s'"
proof -
  have T: "root_page_id s = tree_id T" "stored c T (contents s)" "tree_inv c K T" "slots_ok c"
    using idx by (simp_all add: index_is_def)
  have inv: "store_inv s" using s by (simp add: writable_def)
  have "0 < tree_id T" using T(2) tree_id_page_ids [of T] by (auto simp: stored_def)
  then have e0: "\<not> IsEmpty s" using T(1) by (simp add: IsEmpty_def INVALID_PAGE_ID_def)
  obtain fs p es P b s1 where f: "FindLeafPage c key False OP_DELETE s = Some (Some p, s1)" "plug fs (Leaf p es) = T"
    "in_hole cmp key fs" "holding P b s s1" "crabbed c OP_DELETE fs (Leaf p es) P b"
    by (rule FindLeafPage_write [OF idx s(1) c key eOpType.distinct(4)]) blast
  note h = holdingD [OF f(4)]
  have st: "stored c (plug fs (Leaf p es)) (contents s)" and ti: "tree_inv c K (plug fs (Leaf p es))" using T f(2) by simp_all
  note leaf = tree_inv_leaf [OF ti T(4), unfolded c]
  obtain l where l: "contents s p = Some (LeafP l)" "wf_leaf l" "leaf_entries l = es" "page_id_m l = p"
    "parent_page_id_m l = path_parent fs" "max_size_m l + 1 = leaf_slots (key_size c)"
    "int (length (leaf_array l)) = leaf_slots (key_size c)"
    using stored_leaf [OF st] .
  have pP: "p \<in> set P" using crabbed_in [OF f(5)] by simp
  then have pin: "0 < pins s1 p" using holding_pins [OF f(4) inv] by blast
  have get: "get_leaf c p s1 = Some l" using l(1) pin h(3) by (simp add: get_leaf_def st_get_def as_leaf_def)
  obtain l' where l': "leaf_RemoveAndDeleteRecord cmp key l = Some (size_m l', l')" "key_sorted cmp K (leaf_entries l')"
    "map_of (leaf_entries l') = (map_of es)(key := None)" "wf_leaf l'" "leaf_meta l' = leaf_meta l"
    "size_m l' = (if map_of es key = None then size_m l else size_m l - 1)"
    using leaf_RemoveAndDeleteRecord_spec [OF l(2) _ key] leaf(3) l(3) by metis
  define es' where "es' = leaf_entries l'"
  have size: "size_m l' = int (length es')" "size_m l = int (length es)"
    using leaf_size_entries [OF l'(4)] leaf_size_entries [OF l(2)] l(3) by (simp_all add: es'_def)
  have len: "length es' \<le> length es" "length es \<le> Suc (length es')" using l'(6) size by (auto split: if_splits)
  note es' = l'(2,3) [folded es'_def]
  note ctx = removed_context [OF ti T(4) c key f(3) es'] and sizes = removed_sizes [OF ti T(4) len]
  obtain s2 where s2: "st_put p (LeafP l') s1 = Some s2" "kept s1 s2" "contents s2 = (contents s1)(p \<mapsto> LeafP l')"
    using put_step [OF h(1) pin] .
  have m2: "contents s2 = (contents s)(p \<mapsto> LeafP l')" using s2(3) h(3) by simp
  have ids: "distinct (page_ids (Leaf p es') @ side_ids fs)" "\<forall>q \<in> set (page_ids (Leaf p es') @ side_ids fs). 0 < q"
    using st distinct_page_ids_plug [of fs "Leaf p es"] by (auto simp: stored_def set_page_ids_plug)
  have cell2: "cell_at c (contents s2) (p, path_parent fs, LeafData es')"
    using leaf_cellI [OF l'(4), of p "path_parent fs" c "contents s2"] leaf_meta_simps [OF l'(5)] l(4-7) by (simp add: m2 es'_def)
  have path2: "on_pages c (contents s2) (set (path_cells p fs))"
  proof (rule on_pages_path_cong)
    show "on_pages c (contents s) (set (path_cells p fs))" using st by (simp add: on_pages_def stored_def set_cells_plug)
    show "\<forall>q \<in> set (side_ids fs). contents s2 q = contents s q" using ids(1) by (auto simp: m2)
  qed
  have chain2: "chained (contents s2) (leaf_ids (plug fs (Leaf p es')))"
  proof (rule chained_mono)
    show "chained (contents s) (leaf_ids (plug fs (Leaf p es')))" using st by (simp add: stored_def chained_def leaf_ids_plug)
    show "next_at (contents s2) q x" if "next_at (contents s) q x" for q x
      using that l(1) leaf_meta_simps(4) [OF l'(5)] by (auto simp: next_at_def m2)
  qed
  have tid: "tree_id (plug fs (Leaf p es')) = tree_id T" unfolding f(2) [symmetric] by (rule tree_id_plug) simp
  have root2: "root_page_id s2 = tree_id (plug fs (Leaf p es'))" using keptD(5) [OF s2(2)] h(7) T(1) tid by simp
  have p0: "p \<noteq> HEADER_PAGE_ID" using ids(2) by (auto simp: HEADER_PAGE_ID_def)
  then have rec2: "root_recorded e c (root_page_id s2) (contents s2)"
    using recorded root2 tid by (auto simp: root_recorded_def m2)
  have small: "size_m l' < GetMinSize l' \<longleftrightarrow> length es' < (if fs = [] then 1 else leaf_max c div 2)"
  proof -
    have "path_parent fs = INVALID_PAGE_ID \<longleftrightarrow> fs = []"
      using path_parent_pos [of c _ _ "Leaf p es" "contents s"] st by (cases fs) (force simp: INVALID_PAGE_ID_def)+
    moreover have "max_size_m l' = int (leaf_max c)" using leaf_meta_simps(1) [OF l'(5)] l(6) slots_max(3) [OF T(4)] by simp
    moreover have "parent_page_id_m l' = path_parent fs" using leaf_meta_simps [OF l'(5)] l(5) by simp
    moreover have "page_type_m l' = LEAF_PAGE" using l'(4) by (simp add: wf_leaf_def)
    ultimately show ?thesis using size(1) by (auto simp: GetMinSize_def IsRootPage_def IsLeafPage_def)
  qed
  let ?Lm = "leaf_max c" and ?Im = "internal_max c" and ?t = "Leaf p es'"
  define up where "up = (if length es' < (if fs = [] then 1 else ?Lm div 2) then shrink_up ?Lm ?Im fs ?t else (Some (plug fs ?t), []))"
  have "\<exists>N s3. (if size_m l' < GetMinSize l' then do { (_, s) \<leftarrow> CoalesceOrRedistribute c LeafNode p s2; Some s } else Some s2) = Some s3 \<and>
      taken N (snd up) s1 s3 \<and> opt_stored e c (fst up) s3 \<and> set P \<inter> set N = {} \<and> set (snd up) \<subseteq> set P \<union> set N \<and>
      (\<forall>t. fst up = Some t \<longrightarrow> tree_inv c K t) \<and>
      index_entries (fst up) = before_hole kids_entries fs @ es' @ behind_hole kids_entries fs \<and>
      mset (opt_page_ids (fst up)) + mset (snd up) = mset (page_ids ?t) + mset (side_ids fs)"
  proof (cases "length es' < (if fs = [] then 1 else ?Lm div 2)")
    case True
    have up: "up = shrink_up ?Lm ?Im fs ?t" using True by (simp add: up_def)
    note size0 = sizes(5) [OF True]
    have node: "fs = [] \<or> \<not> node_safe c OP_DELETE (Leaf p es)"
      using True len(2) by (auto simp: node_safe_def node_max_def cap_def)
    have held: "held_up ?Im (set P) fs" by (rule crabbed_held [OF f(5) node])
    have hole: "hole_in e c (set P) fs ?t s2"
      unfolding hole_in_def
    proof (intro conjI)
      show "store_inv s2" "0 < pins s2 (tree_id ?t)" using keptD(1,2) [OF s2(2)] pin by simp_all
      show "\<forall>q \<in> set P. 0 < pins s2 q" using keptD(2) [OF s2(2)] holding_pins [OF f(4) inv] by simp
      show "on_pages c (contents s2) (set (cells (path_parent fs) ?t) \<union> set (path_cells (tree_id ?t) fs))" using cell2 path2 by simp
      show "\<forall>q \<in> set (side_ids fs) - set (frame_ids fs). latch s2 q = 0"
      proof
        fix q assume "q \<in> set (side_ids fs) - set (frame_ids fs)"
        then have "q \<notin> set P" using crabbed_hole_free [OF f(5)] ids(1) by simp
        then show "latch s2 q = 0" using keptD(3) [OF s2(2)] h(5) by simp
      qed
      show "\<exists>tx. txn s2 = Some tx \<and> (\<forall>q \<in> set (page_ids ?t @ side_ids fs). q \<notin> set (deleted_page_set tx))"
        using keptD(8) [OF s2(2)] h(10) by simp
    qed (rule ids root2 rec2 chain2)+
    have hd: "heads_ok (path_head (zero_key c) fs) ?t" "path_heads (zero_key c) fs" using ti by (simp_all add: tree_inv_def heads_ok_plug)
    have "fs = [] \<and> is_leaf ?t \<longrightarrow> node_size ?t = 0" using True by (cases "fs = []") simp_all
    from CoalesceOrRedistribute_spec [OF hole T(4) held size0 hd this] obtain b' s3 where s3: "CoalesceOrRedistribute c (kind_of ?t) (tree_id ?t) s2 = Some (b', s3)" "tree_shrunk e c fs ?t s2 s3" by blast
    let ?N = "taken_sibs ?Lm ?Im fs ?t"
    have t3: "taken ?N (snd up) s2 s3" "opt_stored e c (fst up) s3" using s3(2) by (auto simp: tree_shrunk_def up split_beta)
    have off: "set ?N \<subseteq> set (side_ids fs) - set (frame_ids fs)"
      by (rule taken_sibs_off [OF size0 slots_max(5,2) [OF T(4)]]) (use ids(1) in simp)
    then have "set P \<inter> set ?N = {}" using crabbed_hole_free [OF f(5)] ids(1) by auto
    moreover have "set (snd up) \<subseteq> set P \<union> set ?N" unfolding up by (rule shrink_up_deleted [OF _ held]) (use pP in simp)
    moreover have "(if size_m l' < GetMinSize l' then do { (_, s) \<leftarrow> CoalesceOrRedistribute c LeafNode p s2; Some s } else Some s2) = Some s3"
      using s3(1) True small by (simp add: kind_of_def)
    moreover note kept_taken_trans [OF s2(2) t3(1)] t3(2)
    moreover have "mset (opt_page_ids (fst up)) + mset (snd up) = mset (page_ids ?t) + mset (side_ids fs)"
      unfolding up by (rule shrink_up_page_ids [OF size0 slots_max(5,2) [OF T(4)]])
    moreover have "\<forall>t. fst up = Some t \<longrightarrow> tree_inv c K t"
      "index_entries (fst up) = before_hole kids_entries fs @ es' @ behind_hole kids_entries fs"
      using removed_up [OF ti T(4) c key f(3) es' len True, of "fst up"] by (simp_all add: up)
    ultimately show ?thesis by blast
  next
    case False
    have up: "up = (Some (plug fs ?t), [])" using False by (simp add: up_def)
    have "opt_stored e c (fst up) s2"
      using root2 rec2 chain2 cell2 path2 by (simp add: up opt_stored_def set_cells_plug)
    moreover have "tree_inv c K (plug fs ?t)"
      by (rule removed_in_place [OF ti T(4) c key f(3) es' len]) (use False in simp)
    moreover have "(if size_m l' < GetMinSize l' then do { (_, s) \<leftarrow> CoalesceOrRedistribute c LeafNode p s2; Some s } else Some s2) = Some s2"
      using False small by simp
    ultimately show ?thesis using kept_taken [OF s2(2)]
      by (intro exI [of _ "[]"] exI [of _ s2]) (simp add: up index_entries_def entries_plug mset_page_ids_plug)
  qed
  then obtain N s3 where s3: "(if size_m l' < GetMinSize l' then do { (_, s) \<leftarrow> CoalesceOrRedistribute c LeafNode p s2; Some s } else Some s2) = Some s3"
    "taken N (snd up) s1 s3" "opt_stored e c (fst up) s3" "set P \<inter> set N = {}" "set (snd up) \<subseteq> set P \<union> set N"
    "\<And>t. fst up = Some t \<Longrightarrow> tree_inv c K t" "index_entries (fst up) = before_hole kids_entries fs @ es' @ behind_hole kids_entries fs"
    "mset (opt_page_ids (fst up)) + mset (snd up) = mset (page_ids ?t) + mset (side_ids fs)" by blast
  have m: "mset (opt_page_ids (fst up) @ snd up) = mset (page_ids ?t @ side_ids fs)" using s3(8) by simp
  have d: "distinct (opt_page_ids (fst up) @ snd up)" using ids(1) unfolding mset_eq_imp_distinct_iff [OF m] .
  have pos: "\<forall>q \<in> set (opt_page_ids (fst up) @ snd up). 0 < q" using ids(2) unfolding mset_eq_setD [OF m] .
  obtain s4 where s4: "FreePagesInTransaction True (- 1) s3 = Some s4" "writable s4" "\<forall>q. pins s4 q = 0"
    "contents s4 = (\<lambda>q. if q \<in> set (snd up) then None else contents s3 q)" "root_page_id s4 = root_page_id s3"
    using remove_finish [OF f(4) s3(2) s _ s3(5,4), of "- 1"] d by auto
  have run: "Remove_key c key s = Some s4"
    unfolding Remove_key_def f(1) Option.bind.bind_lunit
    using e0 get l'(1) s2(1) s3(1) s4(1) by (simp add: c put_leaf_def)
  have "index_is c K (fst up) s4" "root_recorded e c (root_page_id s4) (contents s4)"
    using opt_stored_done [OF s3(3) s4(4,5) _ _ _ _ s3(6) T(4)] d pos by auto
  moreover have "map_of (index_entries (fst up)) = (map_of (entries T))(key := None)"
    unfolding s3(7) ctx(2) f(2) ..
  ultimately show ?thesis using run s4(2,3) by (auto simp: remove_done_def)
qed

end

end
