(* ===== verification/BTreeIndex.thy ===== *)
theory BTreeIndex imports BTreeRemoveRun begin

text \<open>
  The index between two calls: a tree or none, its root recorded in the header page, nothing pinned,
  latched or held.  Starting a tree, and insertion, deletion and look up as calls.
\<close>

section \<open>The first entry\<close>

text \<open>The header page of an index without a tree; when \<open>e\<close>, there is no record for it yet.\<close>

definition none_recorded :: "bool \<Rightarrow> ('k, 'v) tree_params \<Rightarrow> (page_id \<Rightarrow> ('k, 'v) page option) \<Rightarrow> bool" where
  "none_recorded e c m \<longleftrightarrow> length (index_name c) < 32 \<and>
     (\<exists>d rs. m HEADER_PAGE_ID = Some d \<and> as_header d = Some rs \<and> (e \<longrightarrow> index_name c \<notin> fst ` set rs))"

lemma header_insert_recorded:
  assumes "length (index_name c) < 32" and "0 < root" and "e \<longrightarrow> index_name c \<notin> fst ` set rs"
  obtains b rs' where "header_InsertRecord (index_name c) root rs = Some (b, rs')"
    and "\<exists>r. map_of rs' (index_name c) = Some r \<and> (e \<longrightarrow> r = root)" and "index_name c \<in> fst ` set rs \<Longrightarrow> rs' = rs"
proof (cases "index_name c \<in> fst ` set rs")
  case True
  then obtain r where "map_of rs (index_name c) = Some r" by (metis map_of_eq_None_iff not_None_eq)
  then show ?thesis
    using True assms by (intro that [of False rs]) (auto simp: header_InsertRecord_def header_FindRecord_def INVALID_PAGE_ID_def)
next
  case False
  then have "map_of rs (index_name c) = None" by (simp add: map_of_eq_None_iff)
  then show ?thesis
    using False assms by (intro that [of True "rs @ [(index_name c, root)]"])
      (auto simp: header_InsertRecord_def header_FindRecord_def INVALID_PAGE_ID_def map_add_def)
qed

lemma StartNewTree_spec:
  assumes s: "store_inv s" and hdr: "none_recorded e c (contents s)" and sl: "slots_ok c" and c: "key_order (comparator c) K"
    and key: "key \<in> K"
  shows "\<exists>s'. StartNewTree c key v s = Some s' \<and> store_inv s' \<and> pins s' = pins s \<and> latch s' = latch s \<and>
    root_latch s' = root_latch s \<and> root_locked_cnt s' = root_locked_cnt s \<and> txn s' = txn s \<and> root_page_id s' = next_id s \<and>
    stored c (Leaf (next_id s) [(key, v)]) (contents s') \<and> root_recorded e c (next_id s) (contents s') \<and>
    (\<forall>r. root_recorded True c r (contents s) \<longrightarrow> root_recorded True c r (contents s'))"
proof -
  let ?n = "next_id s"
  obtain d rs where rs: "length (index_name c) < 32" "contents s HEADER_PAGE_ID = Some d" "as_header d = Some rs"
    "e \<longrightarrow> index_name c \<notin> fst ` set rs" using hdr by (auto simp: none_recorded_def)
  have n0: "0 < ?n" using store_inv_less [OF s rs(2)] by (simp add: HEADER_PAGE_ID_def)
  have fresh: "contents s ?n = None" "pins s ?n = 0" using store_inv_fresh [OF s order_refl] by simp_all
  obtain s0 where new: "st_new RawPage s = (?n, s0)" by (simp add: st_new_def Let_def)
  have i0: "store_inv s0" using store_inv_new [OF s new] .
  have s0: "s0 = s\<lparr>contents := (contents s)(?n \<mapsto> RawPage), pins := (pins s)(?n := 1), pending := insert ?n (pending s), next_id := ?n + 1\<rparr>"
    using new by (simp add: st_new_def Let_def)
  define r where "r = leaf_Init (key_size c) ?n INVALID_PAGE_ID (zero_leaf c)"
  note r = leaf_Init_fields [OF r_def]
  have p0: "0 < pins s0 ?n" by (simp add: s0)
  obtain s1 where s1: "st_put ?n (LeafP r) s0 = Some s1" "kept s0 s1" "contents s1 = (contents s0)(?n \<mapsto> LeafP r)"
    using put_step [OF i0 p0] .
  define s2 where "s2 = s1\<lparr>root_page_id := ?n\<rparr>"
  have i2: "store_inv s2" using keptD(1) [OF s1(2)] by (simp add: s2_def)
  have h2: "contents s2 HEADER_PAGE_ID = Some d" using rs(2) n0 by (simp add: s2_def s1(3) s0 HEADER_PAGE_ID_def)
  obtain b rs' where ins: "header_InsertRecord (index_name c) ?n rs = Some (b, rs')"
    "\<exists>r. map_of rs' (index_name c) = Some r \<and> (e \<longrightarrow> r = ?n)" "index_name c \<in> fst ` set rs \<Longrightarrow> rs' = rs"
    by (rule header_insert_recorded [OF rs(1) n0 rs(4)]) blast
  have pin: "0 < pins (pinned HEADER_PAGE_ID s2) HEADER_PAGE_ID" using store_inv_pins [OF i2, of HEADER_PAGE_ID] by simp
  obtain s3 where s3: "st_put HEADER_PAGE_ID (HeaderP rs') (pinned HEADER_PAGE_ID s2) = Some s3" "kept (pinned HEADER_PAGE_ID s2) s3"
    "contents s3 = (contents (pinned HEADER_PAGE_ID s2))(HEADER_PAGE_ID \<mapsto> HeaderP rs')"
    using put_step [OF store_inv_pinned [OF i2 h2] pin] .
  obtain s4 where s4: "st_unpin HEADER_PAGE_ID True s3 = Some s4" "kept s2 s4" "contents s4 = contents s3"
    using unpin_kept [OF s3(2) i2 h2] .
  have get_hdr: "st_get HEADER_PAGE_ID (pinned HEADER_PAGE_ID s2) \<bind> as_header = Some rs"
    using pin h2 rs(3) by (simp add: st_get_def)
  have upd: "UpdateRootPageId c True s2 = Some s4"
    unfolding UpdateRootPageId_def fetch_step [OF h2] Option.bind.bind_lunit get_hdr
    using ins(1) s3(1) s4(1) by (simp add: s2_def)
  have m4: "contents s4 = (contents s)(?n \<mapsto> LeafP r, HEADER_PAGE_ID \<mapsto> HeaderP rs')"
    by (simp add: s4(3) s3(3) s2_def s1(3) s0)
  have p4: "pins s4 ?n = 1" using keptD(2) [OF s4(2)] keptD(2) [OF s1(2)] by (simp add: s2_def s0)
  have hn: "HEADER_PAGE_ID \<noteq> ?n" using n0 by (simp add: HEADER_PAGE_ID_def)
  have wf: "wf_leaf r" "leaf_entries r = []" using r sl by (simp_all add: wf_leaf_def slots_ok_def leaf_entries_def)
  have room: "size_m r \<le> max_size_m r" using r sl by (simp add: slots_ok_def)
  obtain l where l: "leaf_Insert (comparator c) key v r = Some (size_m r + 1, l)" "leaf_entries l = [(key, v)]" "wf_leaf l"
    "leaf_meta l = leaf_meta r"
    using key_order.leaf_Insert_spec [OF c wf(1) _ key room, of v] wf(2) by auto
  obtain s5 where s5: "st_put ?n (LeafP l) s4 = Some s5" "kept s4 s5" "contents s5 = (contents s4)(?n \<mapsto> LeafP l)"
    using put_step [OF keptD(1) [OF s4(2)], of ?n "LeafP l"] p4 by auto
  have p5: "pins s5 ?n = 1" using p4 keptD(2) [OF s5(2)] by simp
  define s6 where "s6 = s5\<lparr>pins := (pins s5)(?n := 0), pending := pending s5 - {?n}\<rparr>"
  have u: "st_unpin ?n True s5 = Some s6" using p5 by (simp add: st_unpin_def s6_def)
  have i6: "store_inv s6" using store_inv_unpin [OF keptD(1) [OF s5(2)] u] .
  have get0: "get_leaf c ?n s0 = Some (zero_leaf c)" using p0 by (simp add: get_leaf_def st_get_def s0 as_leaf_def)
  have get4: "get_leaf c ?n s4 = Some r" using p4 hn by (simp add: get_leaf_def st_get_def m4 as_leaf_def)
  have run: "StartNewTree c key v s = Some s6"
    using new get0 s1(1) upd get4 l(1) s5(1) u by (simp add: StartNewTree_def put_leaf_def r_def [symmetric] s2_def [symmetric])
  note k = keptD [OF s1(2)] keptD [OF s4(2)] keptD [OF s5(2)]
  have "pins s6 = pins s" using k(2,10,18) fresh(2) by (auto simp: s6_def s2_def s0)
  moreover have "latch s6 = latch s" "root_latch s6 = root_latch s" "root_locked_cnt s6 = root_locked_cnt s" "txn s6 = txn s"
    "root_page_id s6 = ?n"
    using k by (simp_all add: s6_def s2_def s0)
  moreover have m6: "contents s6 ?n = Some (LeafP l)" "contents s6 HEADER_PAGE_ID = Some (HeaderP rs')"
    using hn by (simp_all add: s6_def s5(3) m4)
  have "cell_at c (contents s6) (?n, INVALID_PAGE_ID, LeafData [(key, v)])"
    using leaf_cellI [OF l(3), of ?n INVALID_PAGE_ID c "contents s6"] leaf_meta_simps [OF l(4)] r sl l(2) m6(1)
    by (simp add: slots_ok_def)
  then have "stored c (Leaf ?n [(key, v)]) (contents s6)"
    using m6(1) leaf_meta_simps(4) [OF l(4)] r(5) n0 by (simp add: stored_def next_at_def)
  moreover have "root_recorded e c ?n (contents s6)" using rs(1) m6(2) ins(2) by (auto simp: root_recorded_def)
  moreover have "root_recorded True c r (contents s6)" if r: "root_recorded True c r (contents s)" for r
  proof -
    have "map_of rs (index_name c) = Some r" using r rs(2,3) by (auto simp: root_recorded_def as_header_def)
    moreover from this have "rs' = rs" using ins(3) by (force dest: map_of_SomeD)
    ultimately show ?thesis using rs(1) m6(2) by (simp add: root_recorded_def)
  qed
  ultimately show ?thesis using run i6 by blast
qed

section \<open>The state between calls\<close>

definition idle :: "('k, 'v) btree \<Rightarrow> bool" where
  "idle s \<longleftrightarrow> store_inv s \<and> (\<forall>q. pins s q = 0) \<and> (\<forall>q. latch s q = 0) \<and> root_latch s = 0 \<and> root_locked_cnt s = 0"

text \<open>The index stores the tree \<open>T\<close>; when \<open>e\<close>, the header page names its root.\<close>

definition index_ok :: "bool \<Rightarrow> ('k, 'v) tree_params \<Rightarrow> 'k set \<Rightarrow> ('k, 'v) tree option \<Rightarrow> ('k, 'v) btree \<Rightarrow> bool" where
  "index_ok e c K T s \<longleftrightarrow> idle s \<and> index_is c K T s \<and>
     (case T of None \<Rightarrow> none_recorded e c (contents s) | Some t \<Rightarrow> root_recorded e c (tree_id t) (contents s))"

text \<open>A call with a transaction of its own, and one without.\<close>

definition with_txn :: "('k, 'v) btree \<Rightarrow> ('k, 'v) btree" where
  "with_txn s = s\<lparr>txn := Some no_pages\<rparr>"

definition without_txn :: "('k, 'v) btree \<Rightarrow> ('k, 'v) btree" where
  "without_txn s = s\<lparr>txn := None\<rparr>"

lemma index_ok_txn [simp]: "index_ok e c K T (with_txn s) = index_ok e c K T s" "index_ok e c K T (without_txn s) = index_ok e c K T s"
  by (simp_all add: index_ok_def idle_def index_is_def with_txn_def without_txn_def split: option.splits)

lemma idle_writable: "idle s \<Longrightarrow> writable (with_txn s)"
  by (simp add: idle_def writable_def with_txn_def)

lemma idle_readable: "idle s \<Longrightarrow> readable (without_txn s)"
  by (simp add: idle_def readable_def without_txn_def)

lemma writable_idle: "writable s \<Longrightarrow> \<forall>q. pins s q = 0 \<Longrightarrow> idle s"
  by (simp add: idle_def writable_def)

definition InsertEntry :: "('k, 'v) tree_params \<Rightarrow> 'k \<Rightarrow> 'v \<Rightarrow> ('k, 'v) btree \<Rightarrow> (bool \<times> ('k, 'v) btree) option" where
  "InsertEntry c key v s = do { (b, s) \<leftarrow> Insert c key v (with_txn s); Some (b, without_txn s) }"

definition RemoveEntry :: "('k, 'v) tree_params \<Rightarrow> 'k \<Rightarrow> ('k, 'v) btree \<Rightarrow> ('k, 'v) btree option" where
  "RemoveEntry c key s = do { s \<leftarrow> Remove_key c key (with_txn s); Some (without_txn s) }"

definition LookupKey :: "('k, 'v) tree_params \<Rightarrow> 'k \<Rightarrow> ('k, 'v) btree \<Rightarrow> ('v option \<times> ('k, 'v) btree) option" where
  "LookupKey c key s = GetValue c key (without_txn s)"

context key_order begin

lemma LookupKey_spec:
  assumes "index_ok e c K T s" and "comparator c = cmp" and "key \<in> K"
  shows "LookupKey c key s = Some (map_of (index_entries T) key, without_txn s)"
proof -
  have "index_is c K T (without_txn s)" "readable (without_txn s)"
    using assms(1) index_ok_txn(2) [of e c K T s] idle_readable by (auto simp: index_ok_def)
  then show ?thesis using GetValue_spec assms(2,3) by (simp add: LookupKey_def)
qed

text \<open>The first entry starts a tree; the record of the header page is inserted only when there is none.\<close>

lemma InsertEntry_first:
  assumes ok: "index_ok e c K None s" and c: "comparator c = cmp" and key: "key \<in> K"
  shows "\<exists>s'. InsertEntry c key v s = Some (True, s') \<and> index_ok e c K (Some (Leaf (next_id s) [(key, v)])) s' \<and>
    (\<forall>r. root_recorded True c r (contents s) \<longrightarrow> root_recorded True c r (contents s'))"
proof -
  define w where "w = with_txn s"
  have okw: "index_ok e c K None w" using ok by (simp add: w_def)
  have w: "writable w" "\<forall>q. pins w q = 0" "index_is c K None w" "none_recorded e c (contents w)"
    using ok okw idle_writable [of s] unfolding index_ok_def idle_def by (simp_all add: w_def)
  have sl: "slots_ok c" using w(3) by (simp add: index_is_def)
  define w0 where "w0 = w\<lparr>root_latch := - 1, root_locked_cnt := 1\<rparr>"
  have lock: "LockRootPageId True w = Some w0" using w(1) by (simp add: LockRootPageId_def w0_def writable_def)
  have e0: "IsEmpty w0" using w(3) by (simp add: index_is_def IsEmpty_def w0_def)
  have i0: "store_inv w0" "none_recorded e c (contents w0)" using w(1,4) by (simp_all add: writable_def w0_def)
  have ko: "key_order (comparator c) K" unfolding c by (rule key_order_axioms)
  obtain s1 where s1: "StartNewTree c key v w0 = Some s1" "store_inv s1" "pins s1 = pins w0" "latch s1 = latch w0"
    "root_latch s1 = - 1" "root_locked_cnt s1 = 1" "txn s1 = txn w0" "root_page_id s1 = next_id w0"
    "stored c (Leaf (next_id w0) [(key, v)]) (contents s1)" "root_recorded e c (next_id w0) (contents s1)"
    "\<And>r. root_recorded True c r (contents w0) \<Longrightarrow> root_recorded True c r (contents s1)"
    using StartNewTree_spec [OF i0 sl ko key, of v] by (auto simp: w0_def)
  define s2 where "s2 = s1\<lparr>root_latch := 0, root_locked_cnt := 0\<rparr>"
  have un: "TryUnlockRootPageId True s1 = Some s2" using s1(5,6) by (simp add: TryUnlockRootPageId_def s2_def)
  have n: "next_id w0 = next_id s" "contents w0 = contents s" by (simp_all add: w0_def w_def with_txn_def)
  let ?t = "Leaf (next_id s) [(key, v)]"
  have run: "InsertEntry c key v s = Some (True, without_txn s2)"
    using lock e0 s1(1) un by (simp add: InsertEntry_def Insert_def w_def [symmetric])
  have "idle s2" using s1(2-4) w(1,2) by (simp add: idle_def s2_def w0_def writable_def)
  moreover have "tree_inv c K ?t"
    using key slots_max(1) [OF sl] by (auto simp: tree_inv_def c key_sorted_Cons intro!: exI [of _ 0])
  ultimately have "index_ok e c K (Some ?t) s2"
    using sl s1(8-10) unfolding n by (simp add: index_ok_def index_is_def s2_def)
  moreover have "\<forall>r. root_recorded True c r (contents s) \<longrightarrow> root_recorded True c r (contents (without_txn s2))"
    using s1(11) unfolding n by (simp add: s2_def without_txn_def)
  ultimately show ?thesis using run by auto
qed

lemma InsertEntry_spec:
  assumes ok: "index_ok e c K T s" and c: "comparator c = cmp" and key: "key \<in> K"
  shows "\<exists>s' t. InsertEntry c key v s = Some (map_of (index_entries T) key = None, s') \<and> index_ok e c K (Some t) s' \<and>
    map_of (entries t) = (if map_of (index_entries T) key = None then (map_of (index_entries T))(key \<mapsto> v)
      else map_of (index_entries T))"
proof -
  define w where "w = with_txn s"
  have okw: "index_ok e c K T w" using ok by (simp add: w_def)
  have w: "idle w" "index_is c K T w"
    and hdr: "case T of None \<Rightarrow> none_recorded e c (contents w) | Some t \<Rightarrow> root_recorded e c (tree_id t) (contents w)"
    using okw unfolding index_ok_def by iprover+
  have pins: "\<forall>q. pins w q = 0" using w(1) by (simp add: idle_def)
  have "idle s" using ok by (simp add: index_ok_def)
  then have w: "writable w" "index_is c K T w" using idle_writable w(2) by (simp_all add: w_def)
  define w0 where "w0 = w\<lparr>root_latch := - 1, root_locked_cnt := 1\<rparr>"
  have lock: "LockRootPageId True w = Some w0" using w(1) by (simp add: LockRootPageId_def w0_def writable_def)
  have unlock: "TryUnlockRootPageId True w0 = Some w"
    using w(1) by (simp add: TryUnlockRootPageId_def w0_def writable_def)
  have sl: "slots_ok c" using w(2) by (simp add: index_is_def)
  show ?thesis
  proof (cases T)
    case None
    from InsertEntry_first [OF ok [unfolded None] c key, of v] obtain s'
      where "InsertEntry c key v s = Some (True, s')" "index_ok e c K (Some (Leaf (next_id s) [(key, v)])) s'" by blast
    then show ?thesis using None by (intro exI [of _ s'] exI [of _ "Leaf (next_id s) [(key, v)]"]) (simp add: index_entries_def)
  next
    case (Some t)
    have idx: "index_is c K (Some t) w" "root_recorded e c (tree_id t) (contents w)" using w(2) hdr Some by simp_all
    have "0 < tree_id t" using idx(1) tree_id_page_ids [of t] by (auto simp: index_is_def stored_def)
    then have e0: "\<not> IsEmpty w0" using idx(1) by (simp add: index_is_def IsEmpty_def w0_def INVALID_PAGE_ID_def)
    obtain s' T' where ins: "InsertIntoLeaf c key v w = Some (map_of (entries t) key = None, s')"
      "insert_done e c K T' (if map_of (entries t) key = None then (map_of (entries t))(key \<mapsto> v) else map_of (entries t)) w s'"
      using InsertIntoLeaf_spec [OF idx(1) w(1) c key idx(2), of v] by blast
    have run: "InsertEntry c key v s = Some (map_of (entries t) key = None, without_txn s')"
      using lock e0 unlock ins(1) by (simp add: InsertEntry_def Insert_def w_def [symmetric])
    have "index_ok e c K (Some T') s'"
      using ins(2) pins writable_idle [of s'] by (simp add: insert_done_def index_ok_def)
    then show ?thesis using run ins(2) Some
      by (intro exI [of _ "without_txn s'"] exI [of _ T']) (auto simp: insert_done_def index_entries_def)
  qed
qed

lemma index_entries_empty: "index_ok e c K T s \<Longrightarrow> map_of (index_entries T) = Map.empty \<longleftrightarrow> T = None"
  using shape_entries slots_max(1,2)
  by (fastforce simp: index_ok_def index_is_def index_entries_def tree_inv_def split: option.splits)

text \<open>When the last entry goes, the record of the header page stays and names no page.\<close>

lemma RemoveEntry_spec:
  assumes ok: "index_ok e c K T s" and c: "comparator c = cmp" and key: "key \<in> K"
  shows "\<exists>s' T'. RemoveEntry c key s = Some s' \<and> index_ok (e \<and> (T = None \<or> T' \<noteq> None)) c K T' s' \<and>
    map_of (index_entries T') = (map_of (index_entries T))(key := None) \<and>
    (T \<noteq> None \<longrightarrow> root_recorded e c (root_page_id s') (contents s'))"
proof (cases T)
  case None
  have "IsEmpty (with_txn s)" using ok by (simp add: None index_ok_def index_is_def IsEmpty_def with_txn_def)
  then have "RemoveEntry c key s = Some (without_txn (with_txn s))" by (simp add: RemoveEntry_def Remove_key_def)
  then show ?thesis using ok None by (intro exI [of _ "without_txn (with_txn s)"] exI [of _ None]) (simp add: index_entries_def)
next
  case (Some t)
  have w: "index_ok e c K (Some t) (with_txn s)" using ok Some by simp
  then have "writable (with_txn s)" "\<forall>q. pins (with_txn s) q = 0" using ok idle_writable [of s] by (simp_all add: index_ok_def idle_def)
  from Remove_key_spec [OF _ this c key, of t e] w
  obtain s' T' where r: "Remove_key c key (with_txn s) = Some s'" "remove_done e c K T' ((map_of (entries t))(key := None)) s'"
    by (auto simp: index_ok_def)
  have "index_ok (e \<and> T' \<noteq> None) c K T' s'"
    using r(2) writable_idle [of s']
    by (auto simp: remove_done_def index_ok_def index_is_def none_recorded_def root_recorded_def as_header_def split: option.splits)
  moreover have "root_recorded e c (root_page_id (without_txn s')) (contents (without_txn s'))"
    using r(2) by (simp add: remove_done_def without_txn_def)
  ultimately show ?thesis using r Some
    by (intro exI [of _ "without_txn s'"] exI [of _ T']) (simp add: RemoveEntry_def remove_done_def index_entries_def)
qed

end

end
