(* ===== verification/BTreeRun.thy ===== *)
theory BTreeRun imports BTreeIndex begin

text \<open>
  Sequences of calls on an index, against the map they stand for.
\<close>

section \<open>Calls\<close>

datatype ('k, 'v) index_call = Put 'k 'v | Find 'k | Del 'k

datatype 'v index_reply = Inserted bool | Found "'v option" | Removed

primrec call_key :: "('k, 'v) index_call \<Rightarrow> 'k" where
  "call_key (Put k v) = k"
| "call_key (Find k) = k"
| "call_key (Del k) = k"

primrec index_step :: "('k, 'v) tree_params \<Rightarrow> ('k, 'v) index_call \<Rightarrow> ('k, 'v) btree \<Rightarrow> ('v index_reply \<times> ('k, 'v) btree) option" where
  "index_step c (Put k v) s = do { (b, s) \<leftarrow> InsertEntry c k v s; Some (Inserted b, s) }"
| "index_step c (Find k) s = do { (r, s) \<leftarrow> LookupKey c k s; Some (Found r, s) }"
| "index_step c (Del k) s = do { s \<leftarrow> RemoveEntry c k s; Some (Removed, s) }"

fun index_run :: "('k, 'v) tree_params \<Rightarrow> ('k, 'v) index_call list \<Rightarrow> ('k, 'v) btree \<Rightarrow> ('v index_reply list \<times> ('k, 'v) btree) option" where
  "index_run c [] s = Some ([], s)"
| "index_run c (x # xs) s = do { (r, s) \<leftarrow> index_step c x s; (rs, s) \<leftarrow> index_run c xs s; Some (r # rs, s) }"

text \<open>The same calls on a map.\<close>

primrec map_call :: "('k, 'v) index_call \<Rightarrow> ('k \<Rightarrow> 'v option) \<Rightarrow> 'v index_reply \<times> ('k \<Rightarrow> 'v option)" where
  "map_call (Put k v) m = (if m k = None then (Inserted True, m(k \<mapsto> v)) else (Inserted False, m))"
| "map_call (Find k) m = (Found (m k), m)"
| "map_call (Del k) m = (Removed, m(k := None))"

fun map_run :: "('k, 'v) index_call list \<Rightarrow> ('k \<Rightarrow> 'v option) \<Rightarrow> 'v index_reply list \<times> ('k \<Rightarrow> 'v option)" where
  "map_run [] m = ([], m)"
| "map_run (x # xs) m = (let (r, m) = map_call x m; (rs, m) = map_run xs m in (r # rs, m))"

text \<open>No call of a sequence removes the last entry.\<close>

fun never_emptied :: "('k, 'v) index_call list \<Rightarrow> ('k \<Rightarrow> 'v option) \<Rightarrow> bool" where
  "never_emptied [] m = True"
| "never_emptied (x # xs) m = (let m' = snd (map_call x m) in (m = Map.empty \<or> m' \<noteq> Map.empty) \<and> never_emptied xs m')"

text \<open>An index that was just constructed, over a pool with a header page: nothing is pinned or latched.\<close>

definition fresh_index :: "('k, 'v) tree_params \<Rightarrow> ('k, 'v) btree \<Rightarrow> bool" where
  "fresh_index c s \<longleftrightarrow> idle s \<and> root_page_id s = INVALID_PAGE_ID \<and> none_recorded True c (contents s)"

definition new_index :: "('k, 'v) btree" where
  "new_index = \<lparr>contents = [HEADER_PAGE_ID \<mapsto> RawPage], pins = (\<lambda>_. 0), pending = {}, latch = (\<lambda>_. 0), next_id = 1,
     root_page_id = INVALID_PAGE_ID, root_latch = 0, root_locked_cnt = 0, txn = None\<rparr>"

lemma new_index_fresh: "length (index_name c) < 32 \<Longrightarrow> fresh_index c new_index"
  by (simp add: fresh_index_def new_index_def idle_def store_inv_def none_recorded_def HEADER_PAGE_ID_def as_header_def)

lemma fresh_index_ok: "fresh_index c s \<Longrightarrow> slots_ok c \<Longrightarrow> index_ok True c K None s"
  by (simp add: fresh_index_def index_ok_def index_is_def)

lemma index_run_append:
  "index_run c (xs @ ys) s = do { (rs, s) \<leftarrow> index_run c xs s; (rs', s) \<leftarrow> index_run c ys s; Some (rs @ rs', s) }"
proof (induction xs arbitrary: s)
  case Nil
  show ?case by (cases "index_run c ys s") auto
next
  case (Cons x xs)
  show ?case
  proof (cases "index_step c x s")
    case (Some r)
    obtain y s1 where "r = (y, s1)" by (cases r)
    then show ?thesis using Some by (cases "index_run c xs s1") (auto simp: Cons split: Option.bind_splits)
  qed simp
qed

context key_order begin

lemma index_step_spec:
  assumes ok: "index_ok e c K T s" and c: "comparator c = cmp" and key: "call_key x \<in> K"
    and m: "map_of (index_entries T) = m"
  shows "\<exists>T' s'. index_step c x s = Some (fst (map_call x m), s') \<and> index_ok (e \<and> never_emptied [x] m) c K T' s' \<and>
    map_of (index_entries T') = snd (map_call x m)"
proof (cases x)
  case (Put k v)
  then obtain s' t where s': "InsertEntry c k v s = Some (m k = None, s')" "index_ok e c K (Some t) s'"
    "map_of (entries t) = (if m k = None then m(k \<mapsto> v) else m)"
    using InsertEntry_spec [OF ok c, of k v] key m by auto
  have "never_emptied [x] m" using Put by auto
  then show ?thesis using Put s' by (intro exI [of _ "Some t"] exI [of _ s']) (auto simp: index_entries_def)
next
  case (Find k)
  then have "LookupKey c k s = Some (m k, without_txn s)" using LookupKey_spec [OF ok c, of k] key m by simp
  then show ?thesis using Find ok m by (intro exI [of _ T] exI [of _ "without_txn s"]) simp
next
  case (Del k)
  obtain s' T' where s': "RemoveEntry c k s = Some s'" "index_ok (e \<and> (T = None \<or> T' \<noteq> None)) c K T' s'"
    "map_of (index_entries T') = m(k := None)"
    using RemoveEntry_spec [OF ok c, of k] key m Del by auto
  have "T = None \<longleftrightarrow> m = Map.empty" "T' = None \<longleftrightarrow> m(k := None) = Map.empty"
    using index_entries_empty [OF ok] index_entries_empty [OF s'(2)] m s'(3) by simp_all
  then have "never_emptied [x] m \<longleftrightarrow> T = None \<or> T' \<noteq> None" by (simp add: Del)
  then show ?thesis using Del s' by (intro exI [of _ T'] exI [of _ s']) simp
qed

lemma never_emptied_append: "never_emptied (xs @ ys) m \<longleftrightarrow> never_emptied xs m \<and> never_emptied ys (snd (map_run xs m))"
  by (induction xs arbitrary: m) (simp_all add: Let_def split_beta)

lemma index_run_spec:
  assumes "index_ok e c K T s" and "comparator c = cmp" and "\<forall>x \<in> set xs. call_key x \<in> K"
    and "map_of (index_entries T) = m"
  shows "\<exists>T' s'. index_run c xs s = Some (fst (map_run xs m), s') \<and> index_ok (e \<and> never_emptied xs m) c K T' s' \<and>
    map_of (index_entries T') = snd (map_run xs m)"
  using assms
proof (induction xs arbitrary: e T s m)
  case (Cons x xs)
  obtain T1 s1 where s1: "index_step c x s = Some (fst (map_call x m), s1)" "index_ok (e \<and> never_emptied [x] m) c K T1 s1"
    "map_of (index_entries T1) = snd (map_call x m)"
    using index_step_spec [OF Cons.prems(1,2) _ Cons.prems(4), of x] Cons.prems(3) by auto
  show ?case using Cons.IH [OF s1(2) Cons.prems(2) _ s1(3)] Cons.prems(3) s1(1) by (auto simp: Let_def split_beta conj_assoc)
qed auto

text \<open>When the last entry is removed and another one inserted, the record names no page, but there is a root.\<close>

lemma restart_spec:
  assumes ok: "index_ok True c K T s" and c: "comparator c = cmp" and key: "j \<in> K" "k \<in> K"
    and m: "map_of (index_entries T) = m" "m \<noteq> Map.empty" "m(j := None) = Map.empty"
    and run: "index_run c [Del j, Put k v] s = Some (rs, s')"
  shows "root_page_id s' \<noteq> INVALID_PAGE_ID \<and> root_recorded True c INVALID_PAGE_ID (contents s')"
proof -
  have T: "T \<noteq> None" using index_entries_empty [OF ok] m(1,2) by blast
  obtain s1 T1 where s1: "RemoveEntry c j s = Some s1" "index_ok (True \<and> (T = None \<or> T1 \<noteq> None)) c K T1 s1"
    "map_of (index_entries T1) = m(j := None)" "root_recorded True c (root_page_id s1) (contents s1)"
    using RemoveEntry_spec [OF ok c key(1)] m(1) T by blast
  have T1: "T1 = None" using index_entries_empty [OF s1(2)] s1(3) m(3) by simp
  have ok1: "index_ok False c K None s1" and root1: "root_page_id s1 = INVALID_PAGE_ID"
    using s1(2) T T1 by (simp_all add: index_ok_def index_is_def)
  obtain s2 where s2: "InsertEntry c k v s1 = Some (True, s2)" "index_ok False c K (Some (Leaf (next_id s1) [(k, v)])) s2"
    "root_recorded True c INVALID_PAGE_ID (contents s2)"
    using InsertEntry_first [OF ok1 c key(2), of v] s1(4) root1 by auto
  have "root_page_id s2 \<noteq> INVALID_PAGE_ID" using s2(2) by (auto simp: index_ok_def index_is_def stored_def INVALID_PAGE_ID_def)
  moreover have "s' = s2" using run s1(1) s2(1) by simp
  ultimately show ?thesis using s2(3) by simp
qed

end

end
