(* ===== verification/BTreeScan.thy ===== *)
theory BTreeScan imports BTree begin

text \<open>
  The iterator of \<open>index/index_iterator.cpp\<close>, the two \<open>Begin\<close> functions and the integrity checks of
  \<open>index/b_plus_tree.cpp\<close>.  The iterator keeps its leaf pinned and read-latched.
\<close>

section \<open>The iterator\<close>

record index_iterator =
  mIndex_m :: int
  mLeafPage_m :: "page_id option"

definition UnlockAndUnPin :: "page_id \<Rightarrow> ('k, 'v) btree \<Rightarrow> ('k, 'v) btree option" where
  "UnlockAndUnPin p s =
     do { s \<leftarrow> st_fetch p s; s \<leftarrow> st_runlatch p s; s \<leftarrow> st_unpin p False s; st_unpin p False s }"

definition isEnd :: "index_iterator \<Rightarrow> bool" where
  "isEnd it = (if mLeafPage_m it = None then True else False)"

definition it_deref ::
  "('k, 'v) tree_params \<Rightarrow> index_iterator \<Rightarrow> ('k, 'v) btree \<Rightarrow> ('k \<times> 'v) option" where
  "it_deref c it s =
     do { p \<leftarrow> mLeafPage_m it;
          l \<leftarrow> st_get p s \<bind> as_leaf c;
          Some (leaf_GetItem (mIndex_m it) l) }"

definition it_next ::
  "('k, 'v) tree_params \<Rightarrow> index_iterator \<Rightarrow> ('k, 'v) btree \<Rightarrow>
   (index_iterator \<times> ('k, 'v) btree) option" where
  "it_next c it s =
     do { p \<leftarrow> mLeafPage_m it;
          l \<leftarrow> st_get p s \<bind> as_leaf c;
          let it = it\<lparr>mIndex_m := mIndex_m it + 1\<rparr>;
          if mIndex_m it \<ge> GetSize l then
            do { let next = leaf_GetNextPageId l;
                 s \<leftarrow> UnlockAndUnPin (GetPageId l) s;
                 if next = INVALID_PAGE_ID then Some (it\<lparr>mLeafPage_m := None\<rparr>, s)
                 else do { s \<leftarrow> st_fetch next s;
                           s \<leftarrow> st_rlatch next s;
                           Some (\<lparr>mIndex_m = 0, mLeafPage_m = Some next\<rparr>, s) } }
          else Some (it, s) }"

definition it_destroy ::
  "('k, 'v) tree_params \<Rightarrow> index_iterator \<Rightarrow> ('k, 'v) btree \<Rightarrow> ('k, 'v) btree option" where
  "it_destroy c it s = (case mLeafPage_m it of None \<Rightarrow> Some s
     | Some p \<Rightarrow> do { l \<leftarrow> st_get p s \<bind> as_leaf c; UnlockAndUnPin (GetPageId l) s })"

definition Begin :: "('k, 'v) tree_params \<Rightarrow> ('k, 'v) btree \<Rightarrow> (index_iterator \<times> ('k, 'v) btree) option" where
  "Begin c s =
     do { (start_leaf, s) \<leftarrow> FindLeafPage c (zero_key c) True OP_READ s;
          s \<leftarrow> TryUnlockRootPageId False s;
          Some (\<lparr>mIndex_m = 0, mLeafPage_m = start_leaf\<rparr>, s) }"

definition Begin_key ::
  "('k, 'v) tree_params \<Rightarrow> 'k \<Rightarrow> ('k, 'v) btree \<Rightarrow> (index_iterator \<times> ('k, 'v) btree) option" where
  "Begin_key c key s =
     do { (start_leaf, s) \<leftarrow> FindLeafPage c key False OP_READ s;
          s \<leftarrow> TryUnlockRootPageId False s;
          case start_leaf of
            None \<Rightarrow> Some (\<lparr>mIndex_m = 0, mLeafPage_m = None\<rparr>, s)
          | Some p \<Rightarrow> do { l \<leftarrow> st_get p s \<bind> as_leaf c;
                          Some (\<lparr>mIndex_m = leaf_KeyIndex (comparator c) key l, mLeafPage_m = Some p\<rparr>, s) } }"

section \<open>Integrity checks\<close>

text \<open>\<open>isBalanced\<close>: the height of the subtree, or \<open>-1\<close> when its children differ in height.  The
  loop over the children keeps \<open>last\<close> and \<open>ret\<close>, as the code does.\<close>

partial_function (option) isBalanced ::
  "('k, 'v) tree_params \<Rightarrow> page_id + (page_id list \<times> int \<times> int) \<Rightarrow> ('k, 'v) btree \<Rightarrow>
   (int \<times> ('k, 'v) btree) option" where
  "isBalanced c x s =
     (if IsEmpty s then Some (1, s) else
      case x of
        Inl pid \<Rightarrow>
          do { s \<leftarrow> st_fetch pid s;
               h \<leftarrow> st_get pid s \<bind> tree_header;
               (ret, s) \<leftarrow> (if \<not> IsLeafPage h then
                    do { page \<leftarrow> st_get pid s \<bind> as_internal c;
                         isBalanced c (Inr (map snd (take (nat (GetSize page)) (internal_array page)), - 2, 0)) s }
                  else Some (0, s));
               s \<leftarrow> st_unpin pid False s;
               Some (ret, s) }
      | Inr (children, prev, ret) \<Rightarrow>
          (case children of
             [] \<Rightarrow> Some (ret, s)
           | v # vs \<Rightarrow>
               do { (cur, s) \<leftarrow> isBalanced c (Inl v) s;
                    if cur \<ge> 0 \<and> prev = - 2 then isBalanced c (Inr (vs, cur, cur + 1)) s
                    else if prev \<noteq> cur then Some (- 1, s)
                    else isBalanced c (Inr (vs, prev, ret)) s }))"

text \<open>The order test of \<open>isPageCorr\<close> on a leaf.\<close>

definition leaf_in_order :: "('k, 'v) tree_params \<Rightarrow> ('k, 'v) leaf_page \<Rightarrow> bool" where
  "leaf_in_order c l =
     (let keys = map fst (take (nat (GetSize l)) (leaf_array l)) in
      \<forall>i \<in> {1..<length keys}. \<not> comparator c (keys ! (i - 1)) (keys ! i) > 0)"

text \<open>\<open>isPageCorr\<close>: the sizes, the order of the keys and the separators of a subtree, with its
  smallest and largest key; the loop over the children of an internal page carries \<open>left\<close>.\<close>

datatype 'k corr_call = CorrPage page_id | CorrLoop "('k \<times> page_id) list" nat bool "'k \<times> 'k"

partial_function (option) isPageCorr ::
  "('k, 'v) tree_params \<Rightarrow> 'k corr_call \<Rightarrow> ('k, 'v) btree \<Rightarrow>
   (bool \<times> ('k \<times> 'k) \<times> ('k, 'v) btree) option" where
  "isPageCorr c x s =
     (if IsEmpty s then Some (True, (zero_key c, zero_key c), s) else
      case x of
        CorrPage pid \<Rightarrow>
          do { s \<leftarrow> st_fetch pid s;
               h \<leftarrow> st_get pid s \<bind> tree_header;
               let size = GetSize h;
               let ret = (size \<ge> GetMinSize h \<and> size \<le> GetMaxSize h);
               if IsLeafPage h then
                 do { l \<leftarrow> st_get pid s \<bind> as_leaf c;
                      let ret = (ret \<and> leaf_in_order c l);
                      lo \<leftarrow> leaf_KeyAt 0 l;
                      hi \<leftarrow> leaf_KeyAt (size - 1) l;
                      s \<leftarrow> st_unpin pid False s;
                      Some (ret, (lo, hi), s) }
               else
                 do { page \<leftarrow> st_get pid s \<bind> as_internal c;
                      (ret, _, s) \<leftarrow> isPageCorr c (CorrLoop (take (nat size) (internal_array page)) 1 ret
                                        (zero_key c, zero_key c)) s;
                      lo \<leftarrow> internal_KeyAt 0 page;
                      hi \<leftarrow> internal_KeyAt (size - 1) page;
                      s \<leftarrow> st_unpin pid False s;
                      Some (ret, (lo, hi), s) } }
      | CorrLoop es i ret left \<Rightarrow>
          (if i < length es then
             do { (ret, left, s) \<leftarrow> (if i = 1 \<and> ret
                     then isPageCorr c (CorrPage (snd (es ! 0))) s
                     else Some (ret, left, s));
                  if \<not> ret then Some (False, left, s)
                  else
                    do { (ret, right, s) \<leftarrow> isPageCorr c (CorrPage (snd (es ! i))) s;
                         let k = fst (es ! i);
                         let ret = (ret \<and> comparator c k (snd left) > 0 \<and> comparator c k (fst right) \<le> 0
                                  \<and> (i = 1 \<or> comparator c (fst (es ! (i - 1))) k < 0));
                         if \<not> ret then Some (False, left, s)
                         else isPageCorr c (CorrLoop es (i + 1) ret right) s } }
           else Some (ret, left, s)))"

text \<open>\<open>Check\<close>; \<open>CheckAllUnpined\<close> of the buffer pool is whether no page is pinned.\<close>

definition Check ::
  "('k, 'v) tree_params \<Rightarrow> bool \<Rightarrow> bool \<Rightarrow> (('k, 'v) btree \<Rightarrow> bool) \<Rightarrow> ('k, 'v) btree \<Rightarrow>
   (bool \<times> ('k, 'v) btree) option" where
  "Check c openCheck forceCheck CheckAllUnpined s =
     (if \<not> forceCheck \<and> \<not> openCheck then Some (True, s)
      else do { (isPageInOrderAndSizeCorr, _, s) \<leftarrow> isPageCorr c (CorrPage (root_page_id s)) s;
                (b, s) \<leftarrow> isBalanced c (Inl (root_page_id s)) s;
                let isBal = (b \<ge> 0);
                let isAllUnpin = CheckAllUnpined s;
                Some (isPageInOrderAndSizeCorr \<and> isBal \<and> isAllUnpin, s) })"

end
