(* ===== verification/BTreeScanProps.thy ===== *)
theory BTreeScanProps imports BTreeRun BTreeScan begin

text \<open>
  Scans: an iterator from \<open>Begin\<close> visits the entries of all leaves along the chain of the leaves and gives
  every pin and latch back.
\<close>

section \<open>The leaves of a tree\<close>

fun leaves :: "('k, 'v) tree \<Rightarrow> (page_id \<times> ('k \<times> 'v) list) list" where
  "leaves (Leaf p es) = [(p, es)]"
| "leaves (Node p kts) = concat (map (\<lambda>kt. leaves (snd kt)) kts)"

abbreviation kids_leaves :: "('k, 'v) kids \<Rightarrow> (page_id \<times> ('k \<times> 'v) list) list" where
  "kids_leaves kts \<equiv> concat (map (\<lambda>kt. leaves (snd kt)) kts)"

lemma concat_map_kids:
  "(\<And>kt. kt \<in> set kts \<Longrightarrow> concat (map f (g (snd kt))) = h (snd kt)) \<Longrightarrow>
   concat (map f (concat (map (\<lambda>kt. g (snd kt)) kts))) = concat (map (\<lambda>kt. h (snd kt)) kts)"
  by (induction kts) simp_all

lemma leaves_entries: "concat (map snd (leaves t)) = entries t"
  by (induction t rule: leaves.induct) (simp_all add: concat_map_kids)

lemma leaves_ids: "map fst (leaves t) = leaf_ids t"
proof (induction t rule: leaves.induct)
  case (2 p kts)
  show ?case using concat_map_kids [of kts "\<lambda>x. [fst x]" leaves leaf_ids] 2 by (simp add: concat_map_singleton)
qed simp

lemma leaves_cell: "(p, es) \<in> set (leaves t) \<Longrightarrow> \<exists>par'. (p, par', LeafData es) \<in> set (cells par t)"
proof (induction t arbitrary: par rule: leaves.induct)
  case (2 q kts)
  then obtain kt where kt: "kt \<in> set kts" "(p, es) \<in> set (leaves (snd kt))" by auto
  with 2(1) [of kt q] show ?case by auto
qed simp

lemma leaves_nonempty:
  "shape Lm Im root h t \<Longrightarrow> 2 \<le> Lm \<Longrightarrow> (p, es) \<in> set (leaves t) \<Longrightarrow> es \<noteq> []"
  by (induction Lm Im root h t rule: shape.induct) (auto split: if_splits)

lemma leaves_plug_first: "on_path c key True fs \<Longrightarrow> \<exists>ls. leaves (plug fs t) = leaves t @ ls"
proof (induction fs t rule: plug.induct)
  case (2 p L k R fs t)
  then have "L = []" "on_path c key True fs" by (simp_all add: on_path_def)
  with 2(1) show ?case by auto
qed simp

lemma leaves_plug: "leaves (plug fs t) = before_hole kids_leaves fs @ leaves t @ behind_hole kids_leaves fs"
  by (induction fs t rule: plug.induct) simp_all

lemma kids_leaves_entries: "concat (map snd (kids_leaves kts)) = kids_entries kts"
  by (simp add: concat_map_kids [of _ snd leaves entries] leaves_entries)

lemma before_leaves: "concat (map snd (before_hole kids_leaves fs)) = before_hole kids_entries fs"
  by (induction fs rule: side_ids.induct) (simp_all add: kids_leaves_entries)

lemma behind_leaves: "concat (map snd (behind_hole kids_leaves fs)) = behind_hole kids_entries fs"
  by (induction fs rule: side_ids.induct) (simp_all add: kids_leaves_entries)

section \<open>The iterator\<close>

text \<open>A chain of leaves, the last one without a successor.\<close>

definition leaf_chain :: "('k, 'v) tree_params \<Rightarrow> (page_id \<Rightarrow> ('k, 'v) page option) \<Rightarrow> (page_id \<times> ('k \<times> 'v) list) list \<Rightarrow> bool" where
  "leaf_chain c m ls \<longleftrightarrow> (\<forall>x \<in> set ls. snd x \<noteq> [] \<and> 0 < fst x \<and> (\<exists>par. cell_at c m (fst x, par, LeafData (snd x)))) \<and>
     successively (next_at m) (map fst ls @ [INVALID_PAGE_ID])"

lemma leaf_chain_suffix: "leaf_chain c m (B @ A) \<Longrightarrow> leaf_chain c m A"
  by (auto simp: leaf_chain_def successively_append_iff)

lemma tree_leaf_chain:
  assumes "stored c t m" and "tree_inv c K t" and "slots_ok c"
  shows "leaf_chain c m (leaves t)"
proof -
  obtain h where h: "shape (leaf_max c) (internal_max c) True h t" using assms(2) by (auto simp: tree_inv_def)
  have "snd x \<noteq> [] \<and> 0 < fst x \<and> (\<exists>par. cell_at c m (fst x, par, LeafData (snd x)))" if x: "x \<in> set (leaves t)" for x
  proof -
    have x': "(fst x, snd x) \<in> set (leaves t)" using x by simp
    have "fst x \<in> set (leaf_ids t)" using x leaves_ids [of t] by (metis image_eqI set_map)
    then have "0 < fst x" using assms(1) leaf_ids_page_ids [of t] by (auto simp: stored_def)
    moreover have "snd x \<noteq> []" by (rule leaves_nonempty [OF h slots_max(1) [OF assms(3)] x'])
    moreover obtain par where "(fst x, par, LeafData (snd x)) \<in> set (cells INVALID_PAGE_ID t)" using leaves_cell [OF x'] by blast
    ultimately show ?thesis using assms(1) by (auto simp: stored_def)
  qed
  then show ?thesis using assms(1) by (simp add: leaf_chain_def leaves_ids stored_def)
qed

lemma reading_simps [simp]:
  "contents (reading p s) = contents s" "pins (reading p s) p = pins s p + 1"
  by (simp_all add: reading_def)

lemma UnlockAndUnPin_reading:
  assumes s: "readable s" and p: "contents s p \<noteq> None"
  shows "UnlockAndUnPin p (reading p s) = Some s"
proof -
  have i: "0 \<le> pins s p" "0 \<le> latch s p" "p \<in> pending s \<Longrightarrow> 0 < pins s p"
    using s store_inv_pins [of s p] store_inv_pending [of s p] by (auto simp: readable_def)
  then show ?thesis using p
    by (auto simp: UnlockAndUnPin_def reading_def st_fetch_def st_runlatch_def st_unpin_def Let_def)
qed

lemma it_leaf:
  assumes s: "readable s" and "cell_at c (contents s) (p, par, LeafData es)"
  obtains l where "st_get p (reading p s) = Some (LeafP l)" "wf_leaf l" "leaf_entries l = es" "page_id_m l = p"
    "contents s p = Some (LeafP l)"
proof -
  obtain l where l: "contents s p = Some (LeafP l)" "wf_leaf l" "leaf_entries l = es" "page_id_m l = p"
    using leaf_cell [OF assms(2)] by metis
  moreover have "0 \<le> pins s p" using s store_inv_pins [of s p] by (simp add: readable_def)
  ultimately show ?thesis by (intro that [of l]) (simp_all add: st_get_def as_leaf_def)
qed

lemma it_deref_spec:
  assumes s: "readable s" and "cell_at c (contents s) (p, par, LeafData es)" and i: "i < length es"
  shows "it_deref c \<lparr>mIndex_m = int i, mLeafPage_m = Some p\<rparr> (reading p s) = Some (es ! i)"
proof -
  obtain l where l: "st_get p (reading p s) = Some (LeafP l)" "wf_leaf l" "leaf_entries l = es"
    using it_leaf [OF assms(1,2)] by metis
  have "i < nat (size_m l)" using leaf_size_entries [OF l(2)] l(3) i by simp
  then have "leaf_array l ! i = es ! i" using leaf_entries_nth [OF l(2), of i] l(3) by simp
  then show ?thesis using l(1) by (simp add: it_deref_def as_leaf_def leaf_GetItem_def)
qed

lemma it_next_within:
  assumes s: "readable s" and "cell_at c (contents s) (p, par, LeafData es)" and i: "Suc i < length es"
  shows "it_next c \<lparr>mIndex_m = int i, mLeafPage_m = Some p\<rparr> (reading p s) =
    Some (\<lparr>mIndex_m = int (Suc i), mLeafPage_m = Some p\<rparr>, reading p s)"
proof -
  obtain l where l: "st_get p (reading p s) = Some (LeafP l)" "wf_leaf l" "leaf_entries l = es"
    using it_leaf [OF assms(1,2)] by metis
  have "\<not> int i + 1 \<ge> GetSize l" using leaf_size_entries [OF l(2)] l(3) i by (simp add: header_defs)
  then show ?thesis using l(1) by (simp add: it_next_def as_leaf_def add.commute)
qed

lemma it_next_across:
  assumes s: "readable s" and cell: "cell_at c (contents s) (p, par, LeafData es)" and i: "length es \<le> Suc i"
    and q: "next_at (contents s) p q" "q \<noteq> INVALID_PAGE_ID \<Longrightarrow> contents s q \<noteq> None"
  shows "it_next c \<lparr>mIndex_m = int i, mLeafPage_m = Some p\<rparr> (reading p s) =
    Some (if q = INVALID_PAGE_ID then (\<lparr>mIndex_m = int (Suc i), mLeafPage_m = None\<rparr>, s)
      else (\<lparr>mIndex_m = 0, mLeafPage_m = Some q\<rparr>, reading q s))"
proof -
  obtain l where l: "st_get p (reading p s) = Some (LeafP l)" "wf_leaf l" "leaf_entries l = es" "page_id_m l = p"
    "contents s p = Some (LeafP l)"
    using it_leaf [OF s cell] by metis
  have g: "int i + 1 \<ge> GetSize l" "GetPageId l = p" "leaf_GetNextPageId l = q"
    using leaf_size_entries [OF l(2)] l(3-5) i q(1) by (simp_all add: header_defs next_at_def leaf_GetNextPageId_def)
  have u: "UnlockAndUnPin p (reading p s) = Some s" using UnlockAndUnPin_reading [OF s] l(5) by simp
  have r: "\<exists>s'. st_fetch q s = Some s' \<and> st_rlatch q s' = Some (reading q s)" if "q \<noteq> INVALID_PAGE_ID"
  proof -
    obtain d where d: "contents s q = Some d" using q(2) \<open>q \<noteq> INVALID_PAGE_ID\<close> by auto
    have "0 \<le> latch s q" using s by (simp add: readable_def)
    then show ?thesis using fetch_step [OF d] by (simp add: st_rlatch_def reading_def pinned_def)
  qed
  show ?thesis using l(1) g u r by (auto simp: it_next_def as_leaf_def add.commute)
qed

text \<open>The loop of a client, \<open>for (it = Begin(); !it.isEnd(); ++it)\<close>, which collects the entries.\<close>

partial_function (option) scan_loop ::
  "('k, 'v) tree_params \<Rightarrow> index_iterator \<Rightarrow> ('k, 'v) btree \<Rightarrow> (('k \<times> 'v) list \<times> ('k, 'v) btree) option" where
  "scan_loop c it s =
     (if isEnd it then Some ([], s)
      else do { e \<leftarrow> it_deref c it s;
                (it, s) \<leftarrow> it_next c it s;
                (es, s) \<leftarrow> scan_loop c it s;
                Some (e # es, s) })"

lemma scan_loop_spec:
  assumes s: "readable s" and "leaf_chain c (contents s) ((p, es) # ls)" and "i < length es"
  shows "scan_loop c \<lparr>mIndex_m = int i, mLeafPage_m = Some p\<rparr> (reading p s) = Some (drop i es @ concat (map snd ls), s)"
  using assms(2,3)
proof (induction "length (drop i es @ concat (map snd ls))" arbitrary: p es ls i rule: less_induct)
  case less
  let ?it = "\<lparr>mIndex_m = int i, mLeafPage_m = Some p\<rparr>"
  obtain par where cell: "cell_at c (contents s) (p, par, LeafData es)" using less.prems(1) by (auto simp: leaf_chain_def)
  have deref: "it_deref c ?it (reading p s) = Some (es ! i)" by (rule it_deref_spec [OF s cell less.prems(2)])
  have unfold: "scan_loop c ?it (reading p s) =
      do { (it, s) \<leftarrow> it_next c ?it (reading p s); (es', s) \<leftarrow> scan_loop c it s; Some (es ! i # es', s) }"
    by (subst scan_loop.simps) (simp add: isEnd_def deref)
  have split: "drop i es = es ! i # drop (Suc i) es" by (rule Cons_nth_drop_Suc [OF less.prems(2), symmetric])
  show ?case
  proof (cases "Suc i < length es")
    case True
    have "scan_loop c \<lparr>mIndex_m = int (Suc i), mLeafPage_m = Some p\<rparr> (reading p s) = Some (drop (Suc i) es @ concat (map snd ls), s)"
      by (rule less.hyps [OF _ less.prems(1) True]) (simp add: split)
    then show ?thesis unfolding unfold it_next_within [OF s cell True] by (simp add: split)
  next
    case False
    then have last: "drop (Suc i) es = []" "length es \<le> Suc i" by simp_all
    show ?thesis
    proof (cases ls)
      case Nil
      then have "next_at (contents s) p INVALID_PAGE_ID" using less.prems(1) by (simp add: leaf_chain_def)
      moreover have "scan_loop c \<lparr>mIndex_m = n, mLeafPage_m = None\<rparr> s = Some ([], s)" for n
        by (subst scan_loop.simps) (simp add: isEnd_def)
      ultimately show ?thesis unfolding unfold
        using it_next_across [OF s cell last(2), of INVALID_PAGE_ID] last(1) Nil by (simp add: split)
    next
      case (Cons x ls')
      obtain q es' where x: "x = (q, es')" by (cases x)
      have chain: "leaf_chain c (contents s) ((q, es') # ls')" and q: "next_at (contents s) p q" "0 < q" "es' \<noteq> []"
        using less.prems(1) by (auto simp: leaf_chain_def Cons x successively_Cons)
      have "contents s q \<noteq> None" using chain by (auto simp: leaf_chain_def cell_at_def)
      moreover have "q \<noteq> INVALID_PAGE_ID" using q(2) by (simp add: INVALID_PAGE_ID_def)
      ultimately have nx: "it_next c ?it (reading p s) = Some (\<lparr>mIndex_m = 0, mLeafPage_m = Some q\<rparr>, reading q s)"
        using it_next_across [OF s cell last(2) q(1)] by simp
      have "scan_loop c \<lparr>mIndex_m = int 0, mLeafPage_m = Some q\<rparr> (reading q s) = Some (drop 0 es' @ concat (map snd ls'), s)"
        by (rule less.hyps [OF _ chain]) (use q(3) in \<open>simp_all add: split Cons x\<close>)
      then show ?thesis unfolding unfold nx using last(1) by (simp add: split Cons x)
    qed
  qed
qed

section \<open>Begin\<close>

text \<open>A scan of the index from its first entry, and one from a key.\<close>

definition index_scan :: "('k, 'v) tree_params \<Rightarrow> ('k, 'v) btree \<Rightarrow> (('k \<times> 'v) list \<times> ('k, 'v) btree) option" where
  "index_scan c s = do { (it, s) \<leftarrow> Begin c (without_txn s); scan_loop c it s }"

definition index_scan_from :: "('k, 'v) tree_params \<Rightarrow> 'k \<Rightarrow> ('k, 'v) btree \<Rightarrow> (('k \<times> 'v) list \<times> ('k, 'v) btree) option" where
  "index_scan_from c key s = do { (it, s) \<leftarrow> Begin_key c key (without_txn s); scan_loop c it s }"

lemma scan_loop_end: "scan_loop c \<lparr>mIndex_m = n, mLeafPage_m = None\<rparr> s = Some ([], s)"
  by (subst scan_loop.simps) (simp add: isEnd_def)

lemma TryUnlockRoot_free: "root_locked_cnt s = 0 \<Longrightarrow> TryUnlockRootPageId b s = Some s"
  by (simp add: TryUnlockRootPageId_def)

context key_order begin

lemma FindLeafPage_empty:
  assumes "index_is c K None s" and "readable s"
  shows "FindLeafPage c key leftMost OP_READ s = Some (None, s)"
proof -
  have "root_page_id (root_read 1 s) = INVALID_PAGE_ID" using assms(1) by (simp add: index_is_def root_read_def)
  then show ?thesis
    using LockRoot_read [OF assms(2)] TryUnlockRoot_read(2) [OF assms(2), of 1] by (simp add: FindLeafPage_def IsEmpty_def)
qed

lemma index_scan_spec:
  assumes ok: "index_ok e c K T s" and c: "comparator c = cmp"
  shows "index_scan c s = Some (index_entries T, without_txn s)"
proof -
  define r where "r = without_txn s"
  have r: "index_is c K T r" "readable r"
    using ok index_ok_txn(2) [of e c K T s] idle_readable by (auto simp: index_ok_def r_def)
  have cnt: "root_locked_cnt r = 0" using r(2) by (simp add: readable_def)
  show ?thesis
  proof (cases T)
    case None
    then have "FindLeafPage c (zero_key c) True OP_READ r = Some (None, r)" using FindLeafPage_empty [of c r] r by simp
    then show ?thesis using None TryUnlockRoot_free [OF cnt]
      by (simp add: index_scan_def r_def [symmetric] Begin_def scan_loop_end index_entries_def)
  next
    case (Some t)
    then have idx: "index_is c K (Some t) r" using r(1) by simp
    then have t: "stored c t (contents r)" "tree_inv c K t" "slots_ok c" by (simp_all add: index_is_def)
    obtain fs p es n where f: "FindLeafPage c (zero_key c) True OP_READ r = Some (Some p, reading p (root_read n r))"
      "plug fs (Leaf p es) = t" "on_path c (zero_key c) True fs" "n = 0 \<or> n = 1"
      using FindLeafPage_read [OF idx r(2) c disjI1 [OF TrueI]] by metis
    obtain ls where ls: "leaves t = (p, es) # ls" using leaves_plug_first [OF f(3), of "Leaf p es"] f(2) by auto
    have chain: "leaf_chain c (contents r) ((p, es) # ls)" using tree_leaf_chain [OF t] ls by simp
    then have "0 < length es" by (auto simp: leaf_chain_def)
    then have "scan_loop c \<lparr>mIndex_m = 0, mLeafPage_m = Some p\<rparr> (reading p r) = Some (es @ concat (map snd ls), r)"
      using scan_loop_spec [OF r(2) chain, of 0] by simp
    moreover have "es @ concat (map snd ls) = entries t" using leaves_entries [of t] ls by simp
    ultimately show ?thesis
      using f(1) TryUnlockRoot_read(1) [OF r(2) f(4)] by (simp add: index_scan_def r_def [symmetric] Begin_def Some index_entries_def)
  qed
qed

text \<open>\<open>Begin\<close> with a key stops in the leaf of the key, behind all entries below it.\<close>

lemma Begin_key_spec:
  assumes idx: "index_is c K (Some t) r" and r: "readable r" and c: "comparator c = cmp" and key: "key \<in> K"
  obtains B p es A where "Begin_key c key r = Some (\<lparr>mIndex_m = int (key_pos cmp key es), mLeafPage_m = Some p\<rparr>, reading p r)"
    and "leaf_chain c (contents r) ((p, es) # A)" and "entries t = B @ es @ concat (map snd A)"
    and "\<forall>e \<in> set B. cmp (fst e) key < 0" and "\<forall>e \<in> set (concat (map snd A)). cmp key (fst e) < 0"
    and "key_sorted cmp K es"
proof -
  have t: "stored c t (contents r)" "tree_inv c K t" "slots_ok c" using idx by (simp_all add: index_is_def)
  obtain fs p es n where f: "FindLeafPage c key False OP_READ r = Some (Some p, reading p (root_read n r))"
    "plug fs (Leaf p es) = t" "on_path c key False fs" "n = 0 \<or> n = 1"
    using FindLeafPage_read [OF idx r c disjI2 [OF key]] by metis
  have hole: "in_hole cmp key fs" using f(3) by (simp add: on_path_def c)
  have "path_ok cmp K fs es" "key_sorted cmp K (before_hole kids_entries fs @ es @ behind_hole kids_entries fs)"
    using t(2) unfolding f(2) [symmetric] tree_inv_def search_ok_plug entries_plug c by simp_all
  note o = in_hole_outside [OF this(1) key hole this(2)]
  obtain l where l: "contents r p = Some (LeafP l)" "wf_leaf l" "leaf_entries l = es"
    using stored_leaf [of c fs p es "contents r"] t(1) f(2) by metis
  have es: "key_sorted cmp K es" using tree_inv_leaf(3) [of c K fs p es] t(2,3) f(2) by (simp add: c)
  have "0 \<le> pins r p" using r store_inv_pins [of r p] by (simp add: readable_def)
  then have start: "Begin_key c key r = Some (\<lparr>mIndex_m = int (key_pos cmp key es), mLeafPage_m = Some p\<rparr>, reading p r)"
    using f(1) TryUnlockRoot_read(1) [OF r f(4)] l leaf_KeyIndex_eq [OF l(2)] es key
    by (simp add: Begin_key_def st_get_def as_leaf_def c)
  have "leaves t = before_hole kids_leaves fs @ (p, es) # behind_hole kids_leaves fs"
    using leaves_plug [of fs "Leaf p es"] f(2) by simp
  then have "leaf_chain c (contents r) ((p, es) # behind_hole kids_leaves fs)"
    using tree_leaf_chain [OF t] leaf_chain_suffix by metis
  moreover have "entries t = before_hole kids_entries fs @ es @ concat (map snd (behind_hole kids_leaves fs))"
    using entries_plug [of fs "Leaf p es"] f(2) by (simp add: behind_leaves)
  moreover have "\<forall>e \<in> set (concat (map snd (behind_hole kids_leaves fs))). cmp key (fst e) < 0"
    unfolding behind_leaves using o by blast
  ultimately show ?thesis using that [OF start] o es by blast
qed

lemma index_scan_from_spec:
  assumes ok: "index_ok e c K T s" and c: "comparator c = cmp" and key: "key \<in> K" "map_of (index_entries T) key \<noteq> None"
  shows "index_scan_from c key s = Some (dropWhile (\<lambda>e. cmp (fst e) key < 0) (index_entries T), without_txn s)"
proof -
  define r where "r = without_txn s"
  have r: "index_is c K T r" "readable r"
    using ok index_ok_txn(2) [of e c K T s] idle_readable by (auto simp: index_ok_def r_def)
  obtain t where T: "T = Some t" using key(2) by (cases T) (auto simp: index_entries_def)
  obtain B p es A where b: "Begin_key c key r = Some (\<lparr>mIndex_m = int (key_pos cmp key es), mLeafPage_m = Some p\<rparr>, reading p r)"
    "leaf_chain c (contents r) ((p, es) # A)" "entries t = B @ es @ concat (map snd A)"
    "\<forall>e \<in> set B. cmp (fst e) key < 0" "\<forall>e \<in> set (concat (map snd A)). cmp key (fst e) < 0" "key_sorted cmp K es"
    using Begin_key_spec [OF r(1) [unfolded T] r(2) c key(1)] .
  have "map_of B key = None" "map_of (concat (map snd A)) key = None"
    using b(4,5) cmp_refl [OF key(1)] by (fastforce simp: map_of_eq_None_iff)+
  then have "map_of es key \<noteq> None"
    using key(2) b(3) by (auto simp: T index_entries_def map_add_def split: option.splits)
  then have i: "key_pos cmp key es < length es"
    using map_of_key_pos [OF b(6) key(1)] by (auto split: if_splits)
  then have ne: "dropWhile (\<lambda>e. cmp (fst e) key < 0) es \<noteq> []" by (simp add: drop_key_pos [symmetric])
  have "dropWhile (\<lambda>e. cmp (fst e) key < 0) (entries t) = dropWhile (\<lambda>e. cmp (fst e) key < 0) (es @ concat (map snd A))"
    unfolding b(3) using b(4) by (intro dropWhile_append2) simp
  also have "\<dots> = drop (key_pos cmp key es) es @ concat (map snd A)"
    using ne unfolding drop_key_pos by (metis dropWhile_append dropWhile_eq_Nil_conv)
  finally show ?thesis
    using scan_loop_spec [OF r(2) b(2) i] b(1) by (simp add: index_scan_from_def r_def [symmetric] T index_entries_def)
qed

text \<open>From a key above all entries, the iterator is not at its end.\<close>

lemma Begin_key_above:
  assumes ok: "index_ok e c K T s" and c: "comparator c = cmp" and key: "key \<in> K"
    and T: "index_entries T \<noteq> []" and above: "\<forall>x \<in> set (index_entries T). cmp (fst x) key < 0"
  shows "\<exists>it s' p l. Begin_key c key (without_txn s) = Some (it, s') \<and> \<not> isEnd it \<and> mLeafPage_m it = Some p \<and>
    st_get p s' = Some (LeafP l) \<and> mIndex_m it = GetSize l"
proof -
  define r where "r = without_txn s"
  have r: "index_is c K T r" "readable r"
    using ok index_ok_txn(2) [of e c K T s] idle_readable by (auto simp: index_ok_def r_def)
  obtain t where t: "T = Some t" using T by (cases T) (auto simp: index_entries_def)
  obtain B p es A where b: "Begin_key c key r = Some (\<lparr>mIndex_m = int (key_pos cmp key es), mLeafPage_m = Some p\<rparr>, reading p r)"
    "leaf_chain c (contents r) ((p, es) # A)" "entries t = B @ es @ concat (map snd A)"
    using Begin_key_spec [OF r(1) [unfolded t] r(2) c key] by metis
  obtain par where cell: "cell_at c (contents r) (p, par, LeafData es)" using b(2) by (auto simp: leaf_chain_def)
  obtain l where l: "st_get p (reading p r) = Some (LeafP l)" "wf_leaf l" "leaf_entries l = es" using it_leaf [OF r(2) cell] by metis
  have "takeWhile (\<lambda>e. cmp (fst e) key < 0) es = es"
    using above b(3) by (intro takeWhile_eq_all_conv [THEN iffD2]) (auto simp: t index_entries_def)
  then have "key_pos cmp key es = length es" unfolding key_pos_def by (rule arg_cong)
  then have "int (key_pos cmp key es) = GetSize l" using leaf_size_entries [OF l(2)] l(3) by (simp add: header_defs)
  then show ?thesis using b(1) l(1) by (auto simp: r_def isEnd_def)
qed

end

end
