(* ===== verification/TypeCore.thy ===== *)
theory TypeCore imports Base "HOL-Library.Word" "HOL-Library.Signed_Division" begin

text \<open>
  SQL values: \<open>type/type_id.h\<close>, \<open>type/limits.h\<close>, \<open>type/value.h\<close>, \<open>type/value.cpp\<close>, the exception
  kinds of \<open>common/exception.h\<close> and the arithmetic of \<open>type/integer_parent_type.h\<close>.  Integers are
  mathematical with every narrowing of the code written out by \<open>wrap_s\<close>; a double is a value of
  the parameter type \<open>'d\<close> and its operations the record \<open>fp\<close>, since IEEE arithmetic is not part of
  the library.
\<close>

section \<open>Kinds of types and errors\<close>

datatype TypeId = INVALID | BOOLEAN | TINYINT | SMALLINT | INTEGER | BIGINT | DECIMAL | VARCHAR | TIMESTAMP

datatype ExceptionType =
    EXCEPTION_TYPE_INVALID | EXCEPTION_TYPE_OUT_OF_RANGE | EXCEPTION_TYPE_CONVERSION
  | EXCEPTION_TYPE_UNKNOWN_TYPE | EXCEPTION_TYPE_DECIMAL | EXCEPTION_TYPE_MISMATCH_TYPE
  | EXCEPTION_TYPE_DIVIDE_BY_ZERO | EXCEPTION_TYPE_OBJECT_SIZE | EXCEPTION_TYPE_INCOMPATIBLE_TYPE
  | EXCEPTION_TYPE_SERIALIZATION | EXCEPTION_TYPE_TRANSACTION | EXCEPTION_TYPE_NOT_IMPLEMENTED
  | EXCEPTION_TYPE_EXPRESSION | EXCEPTION_TYPE_CATALOG | EXCEPTION_TYPE_PARSER
  | EXCEPTION_TYPE_PLANNER | EXCEPTION_TYPE_SCHEDULER | EXCEPTION_TYPE_EXECUTOR
  | EXCEPTION_TYPE_CONSTRAINT | EXCEPTION_TYPE_INDEX | EXCEPTION_TYPE_STAT
  | EXCEPTION_TYPE_CONNECTION | EXCEPTION_TYPE_SYNTAX

text \<open>What ends a computation early: a failed assertion, a call through a null pointer, an access
  outside an array, an exception
  of the program, and the two exceptions of the library's number parsers.\<close>

datatype error = AssertionFailed | NullPointer | OutOfBounds | Thrown ExceptionType | InvalidArgument | StdOutOfRange

type_synonym 'a result = "error + 'a"

definition guard :: "bool \<Rightarrow> 'a result \<Rightarrow> 'a result" where
  "guard b r = (if b then r else Inl AssertionFailed)"

definition and_then :: "'a result \<Rightarrow> ('a \<Rightarrow> 'b result) \<Rightarrow> 'b result" where
  "and_then r f = (case r of Inl e \<Rightarrow> Inl e | Inr x \<Rightarrow> f x)"

lemma guard_simps [simp]: "guard True r = r" "guard False r = Inl AssertionFailed"
  by (simp_all add: guard_def)

lemma and_then_simps [simp]: "and_then (Inr x) f = f x" "and_then (Inl e) f = Inl e"
  by (simp_all add: and_then_def)

definition type_error :: "'a result" where
  "type_error = Inl (Thrown EXCEPTION_TYPE_INVALID)"

definition not_implemented :: "'a result" where
  "not_implemented = Inl (Thrown EXCEPTION_TYPE_NOT_IMPLEMENTED)"

definition ExpectionTypeToString :: "ExceptionType \<Rightarrow> string" where
  "ExpectionTypeToString t = (case t of
     EXCEPTION_TYPE_INVALID \<Rightarrow> ''Invalid''
   | EXCEPTION_TYPE_OUT_OF_RANGE \<Rightarrow> ''Out of Range''
   | EXCEPTION_TYPE_CONVERSION \<Rightarrow> ''Conversion''
   | EXCEPTION_TYPE_UNKNOWN_TYPE \<Rightarrow> ''Unknown Type''
   | EXCEPTION_TYPE_DECIMAL \<Rightarrow> ''Decimal''
   | EXCEPTION_TYPE_MISMATCH_TYPE \<Rightarrow> ''Mismatch Type''
   | EXCEPTION_TYPE_DIVIDE_BY_ZERO \<Rightarrow> ''Divide by Zero''
   | EXCEPTION_TYPE_OBJECT_SIZE \<Rightarrow> ''Object Size''
   | EXCEPTION_TYPE_INCOMPATIBLE_TYPE \<Rightarrow> ''Incompatible type''
   | EXCEPTION_TYPE_SERIALIZATION \<Rightarrow> ''Serialization''
   | EXCEPTION_TYPE_TRANSACTION \<Rightarrow> ''Transaction''
   | EXCEPTION_TYPE_NOT_IMPLEMENTED \<Rightarrow> ''Not implemented''
   | EXCEPTION_TYPE_EXPRESSION \<Rightarrow> ''Expression''
   | EXCEPTION_TYPE_CATALOG \<Rightarrow> ''Catalog''
   | EXCEPTION_TYPE_PARSER \<Rightarrow> ''Parser''
   | EXCEPTION_TYPE_PLANNER \<Rightarrow> ''Planner''
   | EXCEPTION_TYPE_SCHEDULER \<Rightarrow> ''Scheduler''
   | EXCEPTION_TYPE_EXECUTOR \<Rightarrow> ''Executor''
   | EXCEPTION_TYPE_CONSTRAINT \<Rightarrow> ''Constraint''
   | EXCEPTION_TYPE_INDEX \<Rightarrow> ''Index''
   | EXCEPTION_TYPE_STAT \<Rightarrow> ''Stat''
   | EXCEPTION_TYPE_CONNECTION \<Rightarrow> ''Connection''
   | EXCEPTION_TYPE_SYNTAX \<Rightarrow> ''Syntax'')"

text \<open>The limits: the smallest value of an integer type stands for NULL.\<close>

definition PELOTON_VALUE_NULL :: int where "PELOTON_VALUE_NULL = 2 ^ 32 - 1"

definition int_null :: "nat \<Rightarrow> int" where "int_null w = - (2 ^ (w - 1))"

definition int_min :: "nat \<Rightarrow> int" where "int_min w = - (2 ^ (w - 1)) + 1"

definition int_max :: "nat \<Rightarrow> int" where "int_max w = 2 ^ (w - 1) - 1"

definition PELOTON_TIMESTAMP_NULL :: int where "PELOTON_TIMESTAMP_NULL = 2 ^ 64 - 1"

definition PELOTON_TIMESTAMP_MAX :: int where "PELOTON_TIMESTAMP_MAX = 11231999986399999999"

definition PELOTON_VARCHAR_MAX_LEN :: int where "PELOTON_VARCHAR_MAX_LEN = 2 ^ 32 - 1"

section \<open>Doubles\<close>

record 'd fp =
  fp_add :: "'d \<Rightarrow> 'd \<Rightarrow> 'd"
  fp_sub :: "'d \<Rightarrow> 'd \<Rightarrow> 'd"
  fp_mul :: "'d \<Rightarrow> 'd \<Rightarrow> 'd"
  fp_div :: "'d \<Rightarrow> 'd \<Rightarrow> 'd"
  fp_trunc :: "'d \<Rightarrow> 'd"
  fp_sqrt :: "'d \<Rightarrow> 'd"
  fp_of_int :: "int \<Rightarrow> 'd"
  fp_to_int :: "'d \<Rightarrow> int"
  fp_eq :: "'d \<Rightarrow> 'd \<Rightarrow> bool"
  fp_less :: "'d \<Rightarrow> 'd \<Rightarrow> bool"
  fp_lowest :: 'd
  fp_flt_lowest :: 'd
  fp_max :: 'd
  fp_to_string :: "'d \<Rightarrow> string"
  fp_stod :: "string \<Rightarrow> 'd result"
  fp_bytes :: "'d \<Rightarrow> 8 word list"
  fp_of_bytes :: "8 word list \<Rightarrow> 'd"

definition ValMod :: "'d fp \<Rightarrow> 'd \<Rightarrow> 'd \<Rightarrow> 'd" where
  "ValMod fp x y = fp_sub fp x (fp_mul fp (fp_trunc fp (fp_div fp x y)) y)"

section \<open>Values\<close>

text \<open>The union of the code is read by the tag of the value.  The bytes of a VARCHAR include its
  terminating zero; a null pointer has no bytes.\<close>

datatype 'd val = IntVal int | DecVal 'd | StrVal "8 word list option"

record 'd Value =
  type_id_m :: TypeId
  len_m :: int
  manage_data_m :: bool
  val_m :: "'d val"

definition IsNull :: "'d Value \<Rightarrow> bool" where
  "IsNull v = (len_m v = PELOTON_VALUE_NULL)"

definition value_int :: "'d Value \<Rightarrow> int" where
  "value_int v = (case val_m v of IntVal x \<Rightarrow> x | _ \<Rightarrow> 0)"

definition value_bytes :: "'d Value \<Rightarrow> 8 word list" where
  "value_bytes v = (case val_m v of StrVal (Some bs) \<Rightarrow> bs | _ \<Rightarrow> [])"

definition value_dec :: "'d fp \<Rightarrow> 'd Value \<Rightarrow> 'd" where
  "value_dec fp v = (case val_m v of DecVal d \<Rightarrow> d | _ \<Rightarrow> fp_lowest fp)"

definition null_len :: "bool \<Rightarrow> int" where
  "null_len b = (if b then PELOTON_VALUE_NULL else 0)"

definition mk_int :: "TypeId \<Rightarrow> int \<Rightarrow> bool \<Rightarrow> 'd Value" where
  "mk_int t x b = \<lparr>type_id_m = t, len_m = null_len b, manage_data_m = False, val_m = IntVal x\<rparr>"

text \<open>The body the four integer constructors share: the member is assigned with the narrowing of
  the member's type, and the value is NULL when it then holds the type's sentinel.\<close>

definition Value_integral :: "TypeId \<Rightarrow> int \<Rightarrow> 'd Value result" where
  "Value_integral t i = (case t of
     BOOLEAN \<Rightarrow> let x = wrap_s 8 i in Inr (mk_int t x (x = int_null 8))
   | TINYINT \<Rightarrow> let x = wrap_s 8 i in Inr (mk_int t x (x = int_null 8))
   | SMALLINT \<Rightarrow> let x = wrap_s 16 i in Inr (mk_int t x (x = int_null 16))
   | INTEGER \<Rightarrow> let x = wrap_s 32 i in Inr (mk_int t x (x = int_null 32))
   | BIGINT \<Rightarrow> let x = wrap_s 64 i in Inr (mk_int t x (x = int_null 64))
   | TIMESTAMP \<Rightarrow> let x = i mod 2 ^ 64 in Inr (mk_int t x (x = PELOTON_TIMESTAMP_NULL))
   | _ \<Rightarrow> Inl (Thrown EXCEPTION_TYPE_INCOMPATIBLE_TYPE))"

definition Value_int8 :: "TypeId \<Rightarrow> int \<Rightarrow> 'd Value result" where
  "Value_int8 t i = Value_integral t (wrap_s 8 i)"

definition Value_int16 :: "TypeId \<Rightarrow> int \<Rightarrow> 'd Value result" where
  "Value_int16 t i = Value_integral t (wrap_s 16 i)"

definition Value_int32 :: "TypeId \<Rightarrow> int \<Rightarrow> 'd Value result" where
  "Value_int32 t i = Value_integral t (wrap_s 32 i)"

definition Value_int64 :: "TypeId \<Rightarrow> int \<Rightarrow> 'd Value result" where
  "Value_int64 t i = Value_integral t (wrap_s 64 i)"

definition Value_double :: "'d fp \<Rightarrow> TypeId \<Rightarrow> 'd \<Rightarrow> 'd Value result" where
  "Value_double fp t d = (if t = DECIMAL
     then Inr \<lparr>type_id_m = t, len_m = null_len (fp_eq fp d (fp_lowest fp)), manage_data_m = False,
               val_m = DecVal d\<rparr>
     else Inl (Thrown EXCEPTION_TYPE_INCOMPATIBLE_TYPE))"

text \<open>\<open>Value(type, data, len, manage_data)\<close>: a null pointer makes a NULL; otherwise the value holds
  (or points to) the first \<open>len\<close> bytes.\<close>

definition Value_varlen :: "TypeId \<Rightarrow> 8 word list option \<Rightarrow> int \<Rightarrow> bool \<Rightarrow> 'd Value result" where
  "Value_varlen t bytes n manage = (if t = VARCHAR then
     (case bytes of
        None \<Rightarrow> Inr \<lparr>type_id_m = t, len_m = PELOTON_VALUE_NULL, manage_data_m = False, val_m = StrVal None\<rparr>
      | Some bs \<Rightarrow>
          if manage \<and> \<not> n < PELOTON_VARCHAR_MAX_LEN then Inl AssertionFailed
          else Inr \<lparr>type_id_m = t, len_m = n, manage_data_m = manage, val_m = StrVal (Some (take (nat n) bs))\<rparr>)
     else Inl (Thrown EXCEPTION_TYPE_INCOMPATIBLE_TYPE))"

definition char_byte :: "char \<Rightarrow> 8 word" where
  "char_byte c = word_of_nat (of_char c)"

definition Value_string :: "TypeId \<Rightarrow> string \<Rightarrow> 'd Value result" where
  "Value_string t s = (if t = VARCHAR
     then let bs = map char_byte s @ [0] in
       Inr \<lparr>type_id_m = t, len_m = int (length s) + 1, manage_data_m = True, val_m = StrVal (Some bs)\<rparr>
     else Inl (Thrown EXCEPTION_TYPE_INCOMPATIBLE_TYPE))"

text \<open>The copy constructor copies a managed buffer and shares an unmanaged one; both hold the same
  bytes.\<close>

definition Value_copy :: "'d Value \<Rightarrow> 'd Value" where
  "Value_copy v = (if type_id_m v = VARCHAR \<and> IsNull v then v\<lparr>val_m := StrVal None\<rparr> else v)"

definition CheckComparable :: "'d Value \<Rightarrow> 'd Value \<Rightarrow> bool" where
  "CheckComparable v other = (case type_id_m v of
     BOOLEAN \<Rightarrow> type_id_m other = BOOLEAN \<or> type_id_m other = VARCHAR
   | VARCHAR \<Rightarrow> True
   | t \<Rightarrow> if t \<in> {TINYINT, SMALLINT, INTEGER, BIGINT, DECIMAL}
          then type_id_m other \<in> {TINYINT, SMALLINT, INTEGER, BIGINT, DECIMAL, VARCHAR}
          else False)"

definition CheckInteger :: "'d Value \<Rightarrow> bool" where
  "CheckInteger v = (type_id_m v \<in> {TINYINT, SMALLINT, INTEGER, BIGINT})"

datatype CmpBool = CMP_FALSE | CMP_TRUE | CMP_NULL

definition GetCmpBool :: "bool \<Rightarrow> CmpBool" where
  "GetCmpBool b = (if b then CMP_TRUE else CMP_FALSE)"

section \<open>Comparison operators\<close>

text \<open>The operator argument of the comparison macros.\<close>

datatype cmp_op = OpEQ | OpNE | OpLT | OpLE | OpGT | OpGE

definition cmp_int :: "cmp_op \<Rightarrow> int \<Rightarrow> int \<Rightarrow> bool" where
  "cmp_int r x y = (case r of OpEQ \<Rightarrow> x = y | OpNE \<Rightarrow> x \<noteq> y | OpLT \<Rightarrow> x < y | OpLE \<Rightarrow> x \<le> y
     | OpGT \<Rightarrow> x > y | OpGE \<Rightarrow> x \<ge> y)"

definition cmp_fp :: "'d fp \<Rightarrow> cmp_op \<Rightarrow> 'd \<Rightarrow> 'd \<Rightarrow> bool" where
  "cmp_fp fp r x y = (case r of OpEQ \<Rightarrow> fp_eq fp x y | OpNE \<Rightarrow> \<not> fp_eq fp x y | OpLT \<Rightarrow> fp_less fp x y
     | OpLE \<Rightarrow> fp_less fp x y \<or> fp_eq fp x y | OpGT \<Rightarrow> fp_less fp y x
     | OpGE \<Rightarrow> fp_less fp y x \<or> fp_eq fp x y)"

section \<open>Integer arithmetic\<close>

text \<open>The operands are promoted to the wider of their types and \<open>int\<close>; the result type is that of
  the wider operand.\<close>

definition arith_width :: "nat \<Rightarrow> nat \<Rightarrow> nat" where
  "arith_width w1 w2 = max 32 (max w1 w2)"

definition out_of_range :: "'a result" where
  "out_of_range = Inl (Thrown EXCEPTION_TYPE_OUT_OF_RANGE)"

definition divide_by_zero :: "'a result" where
  "divide_by_zero = Inl (Thrown EXCEPTION_TYPE_DIVIDE_BY_ZERO)"

definition AddValue :: "nat \<Rightarrow> nat \<Rightarrow> 'd Value \<Rightarrow> 'd Value \<Rightarrow> 'd Value result" where
  "AddValue w1 w2 left right =
     (let x = value_int left; y = value_int right;
          s = wrap_s (arith_width w1 w2) (x + y);
          sum1 = wrap_s w1 s; sum2 = wrap_s w2 s in
      if s \<noteq> sum1 \<and> s \<noteq> sum2 then out_of_range
      else if w1 \<ge> w2 then
        if (x > 0 \<and> y > 0 \<and> sum1 < 0) \<or> (x < 0 \<and> y < 0 \<and> sum1 > 0) then out_of_range
        else Value_integral (type_id_m left) sum1
      else
        if (x > 0 \<and> y > 0 \<and> sum2 < 0) \<or> (x < 0 \<and> y < 0 \<and> sum2 > 0) then out_of_range
        else Value_integral (type_id_m right) sum2)"

definition SubtractValue :: "nat \<Rightarrow> nat \<Rightarrow> 'd Value \<Rightarrow> 'd Value \<Rightarrow> 'd Value result" where
  "SubtractValue w1 w2 left right =
     (let x = value_int left; y = value_int right;
          s = wrap_s (arith_width w1 w2) (x - y);
          diff1 = wrap_s w1 s; diff2 = wrap_s w2 s in
      if s \<noteq> diff1 \<and> s \<noteq> diff2 then out_of_range
      else if w1 \<ge> w2 then
        if (x > 0 \<and> y < 0 \<and> diff1 < 0) \<or> (x < 0 \<and> y > 0 \<and> diff1 > 0) then out_of_range
        else Value_integral (type_id_m left) diff1
      else
        if (x > 0 \<and> y < 0 \<and> diff2 < 0) \<or> (x < 0 \<and> y > 0 \<and> diff2 > 0) then out_of_range
        else Value_integral (type_id_m right) diff2)"

definition MultiplyValue :: "nat \<Rightarrow> nat \<Rightarrow> 'd Value \<Rightarrow> 'd Value \<Rightarrow> 'd Value result" where
  "MultiplyValue w1 w2 left right =
     (let x = value_int left; y = value_int right;
          s = wrap_s (arith_width w1 w2) (x * y);
          prod1 = wrap_s w1 s; prod2 = wrap_s w2 s in
      if s \<noteq> prod1 \<and> s \<noteq> prod2 then out_of_range
      else if w1 \<ge> w2 then
        if y \<noteq> 0 \<and> prod1 sdiv y \<noteq> x then out_of_range
        else Value_integral (type_id_m left) prod1
      else
        if y \<noteq> 0 \<and> prod2 sdiv y \<noteq> x then out_of_range
        else Value_integral (type_id_m right) prod2)"

definition DivideValue :: "nat \<Rightarrow> nat \<Rightarrow> 'd Value \<Rightarrow> 'd Value \<Rightarrow> 'd Value result" where
  "DivideValue w1 w2 left right =
     (let x = value_int left; y = value_int right in
      if y = 0 then divide_by_zero
      else let q = wrap_s (arith_width w1 w2) (x sdiv y) in
        if w1 \<ge> w2 then Value_integral (type_id_m left) (wrap_s w1 q)
        else Value_integral (type_id_m right) (wrap_s w2 q))"

definition ModuloValue :: "nat \<Rightarrow> nat \<Rightarrow> 'd Value \<Rightarrow> 'd Value \<Rightarrow> 'd Value result" where
  "ModuloValue w1 w2 left right =
     (let x = value_int left; y = value_int right in
      if y = 0 then divide_by_zero
      else let q = wrap_s (arith_width w1 w2) (x smod y) in
        if w1 \<ge> w2 then Value_integral (type_id_m left) (wrap_s w1 q)
        else Value_integral (type_id_m right) (wrap_s w2 q))"

section \<open>The arithmetic is exact or reports an overflow\<close>

text \<open>A number of a width that is not its NULL sentinel.\<close>

definition non_null :: "nat \<Rightarrow> int \<Rightarrow> bool" where
  "non_null w x \<longleftrightarrow> int_min w \<le> x \<and> x \<le> int_max w"

lemma non_null_abs: "non_null w x \<longleftrightarrow> \<bar>x\<bar> < 2 ^ (w - 1)"
  by (auto simp: non_null_def int_min_def int_max_def)

lemma non_null_mono: "non_null w x \<Longrightarrow> w \<le> v \<Longrightarrow> non_null v x"
proof -
  assume "non_null w x" "w \<le> v"
  moreover from this have "(2::int) ^ (w - 1) \<le> 2 ^ (v - 1)" by (intro power_increasing) auto
  ultimately show ?thesis unfolding non_null_abs by linarith
qed

lemma in_range_mono: "in_range_s w x \<Longrightarrow> w \<le> v \<Longrightarrow> in_range_s v x"
proof -
  assume "in_range_s w x" "w \<le> v"
  moreover from this have "(2::int) ^ (w - 1) \<le> 2 ^ (v - 1)" by (intro power_increasing) auto
  ultimately show ?thesis unfolding in_range_s_def by linarith
qed

lemma non_null_range: "non_null w x \<Longrightarrow> in_range_s w x"
  by (auto simp: non_null_abs in_range_s_def)

lemma wrap_s_pos: "0 < w \<Longrightarrow> 2 ^ (w - 1) \<le> z \<Longrightarrow> z < 2 ^ w \<Longrightarrow> wrap_s w z = z - 2 ^ w"
proof -
  assume w: "0 < w" and z: "2 ^ (w - 1) \<le> z" "z < 2 ^ w"
  note p = two_power_split [OF w]
  have "0 < (2::int) ^ (w - 1)" by simp
  then have "z - 2 ^ (w - 1) < 2 ^ w" "0 \<le> z - 2 ^ (w - 1)" using z p by linarith+
  then have "(z - 2 ^ (w - 1)) mod 2 ^ w = z - 2 ^ (w - 1)" by (rule mod_pos_pos_trivial [rotated])
  moreover have "(z - 2 ^ (w - 1) + 2 ^ w) mod 2 ^ w = (z - 2 ^ (w - 1)) mod 2 ^ w" by (rule mod_add_self2)
  moreover have "z - 2 ^ (w - 1) + 2 ^ w = z + 2 ^ (w - 1)" using p by linarith
  ultimately have "(z + 2 ^ (w - 1)) mod 2 ^ w = z - 2 ^ (w - 1)" by metis
  then show ?thesis using p unfolding wrap_s_def by linarith
qed

lemma wrap_s_neg: "0 < w \<Longrightarrow> - (2 ^ w) \<le> z \<Longrightarrow> z < - (2 ^ (w - 1)) \<Longrightarrow> wrap_s w z = z + 2 ^ w"
proof -
  assume w: "0 < w" and z: "- (2 ^ w) \<le> z" "z < - (2 ^ (w - 1))"
  note p = two_power_split [OF w]
  have "z + 2 ^ (w - 1) + 2 ^ w < 2 ^ w" "0 \<le> z + 2 ^ (w - 1) + 2 ^ w" using z p by linarith+
  then have "(z + 2 ^ (w - 1) + 2 ^ w) mod 2 ^ w = z + 2 ^ (w - 1) + 2 ^ w"
    by (rule mod_pos_pos_trivial [rotated])
  then show ?thesis by (simp add: wrap_s_def)
qed

lemma wrap_s_cong: "wrap_s w z = z - 2 ^ w * ((z + 2 ^ (w - 1)) div 2 ^ w)"
  using mult_div_mod_eq [of "2 ^ w" "z + 2 ^ (w - 1)"] unfolding wrap_s_def by linarith

text \<open>The overflow tests of \<open>AddValue\<close> and \<open>SubtractValue\<close> are exact on numbers that are not NULL.\<close>

lemma add_overflow:
  assumes "0 < w" and "non_null w x" and "non_null w y"
  shows "(x > 0 \<and> y > 0 \<and> wrap_s w (x + y) < 0) \<or> (x < 0 \<and> y < 0 \<and> wrap_s w (x + y) > 0)
    \<longleftrightarrow> \<not> in_range_s w (x + y)"
proof -
  note p = two_power_split [OF assms(1)] and xy = assms(2,3) [unfolded non_null_abs]
  consider "in_range_s w (x + y)" | "2 ^ (w - 1) \<le> x + y" | "x + y < - (2 ^ (w - 1))"
    unfolding in_range_s_def by linarith
  then show ?thesis
  proof cases
    case 1
    then show ?thesis using wrap_s_id [OF assms(1) 1] by auto
  next
    case 2
    then have "wrap_s w (x + y) = x + y - 2 ^ w" using xy p by (intro wrap_s_pos [OF assms(1)]) linarith+
    moreover have "x > 0" "y > 0" "x + y - 2 ^ w < 0" using 2 xy p by linarith+
    moreover have "\<not> in_range_s w (x + y)" using 2 by (simp add: in_range_s_def)
    ultimately show ?thesis by simp
  next
    case 3
    then have "wrap_s w (x + y) = x + y + 2 ^ w" using xy p by (intro wrap_s_neg [OF assms(1)]) linarith+
    moreover have "x < 0" "y < 0" "x + y + 2 ^ w > 0" using 3 xy p by linarith+
    moreover have "\<not> in_range_s w (x + y)" using 3 by (simp add: in_range_s_def)
    ultimately show ?thesis by simp
  qed
qed

lemma non_null_uminus: "non_null w (- y) \<longleftrightarrow> non_null w y"
  by (simp add: non_null_abs)

lemma sub_overflow:
  assumes "0 < w" and "non_null w x" and "non_null w y"
  shows "(x > 0 \<and> y < 0 \<and> wrap_s w (x - y) < 0) \<or> (x < 0 \<and> y > 0 \<and> wrap_s w (x - y) > 0)
    \<longleftrightarrow> \<not> in_range_s w (x - y)"
  using add_overflow [of w x "- y"] assms by (simp add: non_null_uminus)

text \<open>Dividing the wrapped product back detects every overflow.\<close>

lemma abs_sdiv_mult_le: "\<bar>(a::int) - (a sdiv b) * b\<bar> < \<bar>b\<bar>" if "b \<noteq> 0"
proof -
  have "\<bar>a\<bar> mod \<bar>b\<bar> < \<bar>b\<bar>" "0 \<le> \<bar>a\<bar> mod \<bar>b\<bar>" using that by simp_all
  moreover have "a - (a sdiv b) * b = sgn a * (\<bar>a\<bar> mod \<bar>b\<bar>)"
  proof -
    have "(a sdiv b) * b = sgn a * (\<bar>b\<bar> * (\<bar>a\<bar> div \<bar>b\<bar>))"
      by (cases a "0::int" rule: linorder_cases; cases b "0::int" rule: linorder_cases)
        (simp_all add: signed_divide_int_def sgn_mult)
    moreover have "a = sgn a * (\<bar>b\<bar> * (\<bar>a\<bar> div \<bar>b\<bar>) + \<bar>a\<bar> mod \<bar>b\<bar>)"
      by (simp only: mult_div_mod_eq sgn_mult_abs)
    ultimately show ?thesis by (metis add_diff_cancel_left' distrib_left)
  qed
  ultimately show ?thesis by (simp add: abs_mult sgn_if split: if_splits)
qed

lemma sdiv_mult_cancel: "(y::int) \<noteq> 0 \<Longrightarrow> (x * y) sdiv y = x"
proof -
  assume y: "y \<noteq> 0"
  then have "sgn (x * y) * sgn y = sgn x" by (simp add: sgn_mult)
  moreover have "\<bar>x * y\<bar> div \<bar>y\<bar> = \<bar>x\<bar>" using y by (simp add: abs_mult)
  ultimately show ?thesis by (simp only: signed_divide_int_def sgn_mult_abs)
qed

lemma mul_overflow:
  assumes w: "0 < w" and y: "non_null w y"
  shows "y \<noteq> 0 \<and> wrap_s w (x * y) sdiv y \<noteq> x \<longleftrightarrow> y \<noteq> 0 \<and> wrap_s w (x * y) \<noteq> x * y"
proof (cases "y = 0")
  case False
  have "wrap_s w (x * y) = x * y" if eq: "wrap_s w (x * y) sdiv y = x"
  proof -
    define k where "k = (x * y + 2 ^ (w - 1)) div 2 ^ w"
    have wk: "wrap_s w (x * y) = x * y - 2 ^ w * k" by (simp add: wrap_s_cong k_def)
    then have "\<bar>2 ^ w * k\<bar> < \<bar>y\<bar>" using abs_sdiv_mult_le [OF False, of "wrap_s w (x * y)"] eq by simp
    moreover have "\<bar>y\<bar> < 2 ^ w" using y two_power_split [OF w] unfolding non_null_abs by linarith
    ultimately have "\<bar>2 ^ w * k\<bar> < 2 ^ w" by (rule less_trans)
    then have small: "2 ^ w * \<bar>k\<bar> < 2 ^ w" by (simp only: abs_mult power_abs abs_numeral)
    have "k = 0"
    proof (rule ccontr)
      assume "k \<noteq> 0"
      then have "(2::int) ^ w * 1 \<le> 2 ^ w * \<bar>k\<bar>" by (intro mult_left_mono) auto
      then show False using small by linarith
    qed
    then show ?thesis using wk by simp
  qed
  then show ?thesis using False sdiv_mult_cancel by auto
qed simp

text \<open>The width of an integer type, and the value an operation on two of them answers.\<close>

definition wide_value :: "nat \<Rightarrow> nat \<Rightarrow> 'd Value \<Rightarrow> 'd Value \<Rightarrow> int \<Rightarrow> 'd Value" where
  "wide_value w1 w2 left right z =
     mk_int (type_id_m (if w1 \<ge> w2 then left else right)) z (z = int_null (max w1 w2))"

definition type_width :: "TypeId \<Rightarrow> nat \<Rightarrow> bool" where
  "type_width t w \<longleftrightarrow> (t, w) \<in> {(TINYINT, 8), (SMALLINT, 16), (INTEGER, 32), (BIGINT, 64)}"

lemma type_width_pos: "type_width t w \<Longrightarrow> 0 < w"
  by (auto simp: type_width_def)

lemma Value_integral_width:
  "type_width t w \<Longrightarrow> Value_integral t z = Inr (mk_int t (wrap_s w z) (wrap_s w z = int_null w))"
  by (auto simp: type_width_def Value_integral_def Let_def)

lemma wrap_s_wrap_s: "w \<le> v \<Longrightarrow> 0 < w \<Longrightarrow> wrap_s w (wrap_s v z) = wrap_s w z"
proof -
  assume wv: "w \<le> v" "0 < w"
  then have d: "(2::int) ^ w dvd 2 ^ v" by (simp add: le_imp_power_dvd)
  have "wrap_s v z = z - 2 ^ v * ((z + 2 ^ (v - 1)) div 2 ^ v)" by (rule wrap_s_cong)
  moreover obtain c where "(2::int) ^ v = 2 ^ w * c" using d by (elim dvdE)
  ultimately obtain k where "wrap_s v z = z + 2 ^ w * k"
    by (metis mult.assoc mult_minus_right uminus_add_conv_diff add.commute)
  then have "(wrap_s v z + 2 ^ (w - 1)) mod 2 ^ w = (z + 2 ^ (w - 1) + 2 ^ w * k) mod 2 ^ w"
    by (simp add: algebra_simps)
  then show ?thesis unfolding wrap_s_def [of w] by (simp only: mod_mult_self2)
qed

lemma wide_operand:
  assumes "type_width (type_id_m left) w1" and "type_width (type_id_m right) w2"
    and "w = max w1 w2" and "W = arith_width w1 w2"
  shows "wrap_s w (wrap_s W z) = wrap_s w z" and "in_range_s w z \<Longrightarrow> wrap_s W z = z"
proof -
  have w: "0 < w" "w \<le> W" "0 < W" using assms type_width_pos [OF assms(1)] by (auto simp: arith_width_def)
  show "wrap_s w (wrap_s W z) = wrap_s w z" by (rule wrap_s_wrap_s [OF w(2,1)])
  show "wrap_s W z = z" if "in_range_s w z" by (rule wrap_s_id [OF w(3) in_range_mono [OF that w(2)]])
qed

lemma wide_answer:
  assumes "type_width (type_id_m left) w1" and "type_width (type_id_m right) w2" and "in_range_s (max w1 w2) z"
  shows "w1 \<ge> w2 \<Longrightarrow> Value_integral (type_id_m left) z = Inr (wide_value w1 w2 left right z)"
    and "\<not> w1 \<ge> w2 \<Longrightarrow> Value_integral (type_id_m right) z = Inr (wide_value w1 w2 left right z)"
  using assms type_width_pos [OF assms(1)] type_width_pos [OF assms(2)]
  by (simp_all add: Value_integral_width wide_value_def max_def wrap_s_id)

text \<open>What the operations answer on numbers that are not NULL.\<close>

definition arith_ok :: "nat \<Rightarrow> nat \<Rightarrow> 'd Value \<Rightarrow> 'd Value \<Rightarrow> bool" where
  "arith_ok w1 w2 left right \<longleftrightarrow> type_width (type_id_m left) w1 \<and> type_width (type_id_m right) w2 \<and>
     non_null w1 (value_int left) \<and> non_null w2 (value_int right)"

definition exact_or_range :: "nat \<Rightarrow> nat \<Rightarrow> 'd Value \<Rightarrow> 'd Value \<Rightarrow> int \<Rightarrow> 'd Value result" where
  "exact_or_range w1 w2 left right z =
     (if in_range_s (max w1 w2) z then Inr (wide_value w1 w2 left right z) else out_of_range)"

lemma arith_okD:
  assumes "arith_ok w1 w2 left right"
  shows "type_width (type_id_m left) w1" and "type_width (type_id_m right) w2" and "0 < max w1 w2"
    and "non_null (max w1 w2) (value_int left)" and "non_null (max w1 w2) (value_int right)"
  using assms non_null_mono type_width_pos unfolding arith_ok_def by (auto simp: less_max_iff_disj)

text \<open>The shape \<open>AddValue\<close>, \<open>SubtractValue\<close> and \<open>MultiplyValue\<close> share: a first test on both
  narrowed results, then the overflow test of the operation on the wider one.\<close>

lemma checked_arith:
  assumes ok: "arith_ok w1 w2 left right"
    and test: "P (wrap_s (max w1 w2) z) \<longleftrightarrow> \<not> in_range_s (max w1 w2) z"
  shows "(let s = wrap_s (arith_width w1 w2) z; r1 = wrap_s w1 s; r2 = wrap_s w2 s in
      if s \<noteq> r1 \<and> s \<noteq> r2 then out_of_range
      else if w1 \<ge> w2 then if P r1 then out_of_range else Value_integral (type_id_m left) r1
      else if P r2 then out_of_range else Value_integral (type_id_m right) r2)
    = exact_or_range w1 w2 left right z"
proof -
  note d = arith_okD [OF ok]
  note wide = wide_operand [OF d(1,2) refl refl, of z] wide_answer [OF d(1,2), of z]
  show ?thesis
  proof (cases "in_range_s (max w1 w2) z")
    case True
    then have "wrap_s (max w1 w2) z = z" by (rule wrap_s_id [OF d(3)])
    with True wide test show ?thesis
      by (cases "w1 \<ge> w2") (simp_all add: exact_or_range_def Let_def max_def)
  next
    case False
    with wide test show ?thesis
      by (cases "w1 \<ge> w2") (simp_all add: exact_or_range_def Let_def max_def)
  qed
qed

lemma AddValue_exact:
  assumes "arith_ok w1 w2 left right"
  shows "AddValue w1 w2 left right = exact_or_range w1 w2 left right (value_int left + value_int right)"
  using checked_arith [where z = "value_int left + value_int right" and
      P = "\<lambda>r. (value_int left > 0 \<and> value_int right > 0 \<and> r < 0) \<or>
        (value_int left < 0 \<and> value_int right < 0 \<and> r > 0)",
      OF assms add_overflow [OF arith_okD(3-5) [OF assms]]]
  by (simp only: AddValue_def Let_def)

lemma SubtractValue_exact:
  assumes "arith_ok w1 w2 left right"
  shows "SubtractValue w1 w2 left right = exact_or_range w1 w2 left right (value_int left - value_int right)"
  using checked_arith [where z = "value_int left - value_int right" and
      P = "\<lambda>r. (value_int left > 0 \<and> value_int right < 0 \<and> r < 0) \<or>
        (value_int left < 0 \<and> value_int right > 0 \<and> r > 0)",
      OF assms sub_overflow [OF arith_okD(3-5) [OF assms]]]
  by (simp only: SubtractValue_def Let_def)

lemma MultiplyValue_exact:
  assumes "arith_ok w1 w2 left right"
  shows "MultiplyValue w1 w2 left right = exact_or_range w1 w2 left right (value_int left * value_int right)"
proof -
  let ?w = "max w1 w2" and ?x = "value_int left" and ?y = "value_int right"
  have "?y \<noteq> 0 \<and> wrap_s ?w (?x * ?y) sdiv ?y \<noteq> ?x \<longleftrightarrow> \<not> in_range_s ?w (?x * ?y)"
    using mul_overflow [OF arith_okD(3,5) [OF assms], of ?x] arith_okD(3,4) [OF assms]
      wrap_s_iff [of ?w "?x * ?y"] by (cases "?y = 0") (simp_all add: in_range_s_def)
  from checked_arith [where z = "?x * ?y" and P = "\<lambda>r. ?y \<noteq> 0 \<and> r sdiv ?y \<noteq> ?x", OF assms this] show ?thesis by (simp only: MultiplyValue_def Let_def)
qed

lemma sdiv_abs_le: "\<bar>x sdiv (y::int)\<bar> \<le> \<bar>x\<bar>"
proof (cases "y = 0")
  case False
  have "\<bar>x\<bar> div \<bar>y\<bar> \<le> \<bar>x\<bar>" using False by (intro zdiv_mono2 [of "\<bar>x\<bar>" 1, simplified]) auto
  moreover have "0 \<le> \<bar>x\<bar> div \<bar>y\<bar>" by (simp add: div_int_pos_iff)
  ultimately show ?thesis by (auto simp: signed_divide_int_def abs_mult sgn_if)
qed (simp add: signed_divide_int_def)

lemma smod_abs_le: "\<bar>x smod (y::int)\<bar> \<le> \<bar>x\<bar>"
proof -
  have "\<bar>x\<bar> mod \<bar>y\<bar> \<le> \<bar>x\<bar>" "0 \<le> \<bar>x\<bar> mod \<bar>y\<bar>" if "y \<noteq> 0"
    using that by (auto intro: zmod_le_nonneg_dividend)
  then show ?thesis by (cases "y = 0") (auto simp: signed_modulo_int_def sgn_if)
qed

text \<open>A quotient or remainder fits the wider type and is never the NULL sentinel.\<close>

lemma quotient_answer:
  assumes ok: "arith_ok w1 w2 left right" and z: "\<bar>z\<bar> \<le> \<bar>value_int left\<bar>"
  shows "(let q = wrap_s (arith_width w1 w2) z in
      if w1 \<ge> w2 then Value_integral (type_id_m left) (wrap_s w1 q)
      else Value_integral (type_id_m right) (wrap_s w2 q)) = Inr (wide_value w1 w2 left right z)"
    and "\<not> IsNull (wide_value w1 w2 left right z)"
proof -
  note d = arith_okD [OF ok]
  have nn: "non_null (max w1 w2) z" using d(4) z unfolding non_null_abs by linarith
  then have r: "in_range_s (max w1 w2) z" by (rule non_null_range)
  have "wrap_s (max w1 w2) z = z" by (rule wrap_s_id [OF d(3) r])
  with wide_operand [OF d(1,2) refl refl, of z] wide_answer [OF d(1,2) r] r
  show "(let q = wrap_s (arith_width w1 w2) z in
      if w1 \<ge> w2 then Value_integral (type_id_m left) (wrap_s w1 q)
      else Value_integral (type_id_m right) (wrap_s w2 q)) = Inr (wide_value w1 w2 left right z)"
    by (cases "w1 \<ge> w2") (simp_all add: Let_def max_def)
  show "\<not> IsNull (wide_value w1 w2 left right z)"
    using nn unfolding non_null_abs wide_value_def
    by (auto simp: IsNull_def mk_int_def null_len_def int_null_def PELOTON_VALUE_NULL_def)
qed

lemma DivideValue_exact:
  assumes "arith_ok w1 w2 left right" and "value_int right \<noteq> 0"
  shows "DivideValue w1 w2 left right = Inr (wide_value w1 w2 left right (value_int left sdiv value_int right))"
  using quotient_answer(1) [OF assms(1) sdiv_abs_le] assms(2) by (simp add: DivideValue_def Let_def)

lemma ModuloValue_exact:
  assumes "arith_ok w1 w2 left right" and "value_int right \<noteq> 0"
  shows "ModuloValue w1 w2 left right = Inr (wide_value w1 w2 left right (value_int left smod value_int right))"
  using quotient_answer(1) [OF assms(1) smod_abs_le] assms(2) by (simp add: ModuloValue_def Let_def)

end
