(* ===== verification/TypeCast.thy ===== *)
theory TypeCast imports TypeCore begin

text \<open>
  The conversions of the SQL types: \<open>ToString\<close>, \<open>Copy\<close>, \<open>OperateNull\<close>, \<open>IsZero\<close> and \<open>CastAs\<close> of
  every class under \<open>type/\<close>, and the dispatch of \<open>Value\<close> through \<open>Type::GetInstance\<close>.  The array of
  instances has none for TIMESTAMP, so a call on such a value goes through a null pointer.
\<close>

section \<open>Numbers as text\<close>

definition digit_char :: "nat \<Rightarrow> char" where
  "digit_char n = char_of (48 + n)"

definition is_digit :: "char \<Rightarrow> bool" where
  "is_digit c \<longleftrightarrow> 48 \<le> (of_char c :: nat) \<and> (of_char c :: nat) \<le> 57"

definition is_space :: "char \<Rightarrow> bool" where
  "is_space c \<longleftrightarrow> c = CHR '' '' \<or> (9 \<le> (of_char c :: nat) \<and> (of_char c :: nat) \<le> 13)"

fun nat_digits :: "nat \<Rightarrow> string" where
  "nat_digits n = (if n < 10 then [digit_char n] else nat_digits (n div 10) @ [digit_char (n mod 10)])"

declare nat_digits.simps [simp del]

text \<open>\<open>std::to_string\<close> of an integer.\<close>

definition int_to_string :: "int \<Rightarrow> string" where
  "int_to_string z = (if z < 0 then CHR ''-'' # nat_digits (nat (- z)) else nat_digits (nat z))"

definition digits_value :: "string \<Rightarrow> int" where
  "digits_value ds = foldl (\<lambda>a c. 10 * a + (int (of_char c) - 48)) 0 ds"

definition read_digits :: "nat \<Rightarrow> bool \<Rightarrow> string \<Rightarrow> int result" where
  "read_digits w neg s =
     (let ds = takeWhile is_digit s; v = (if neg then - digits_value ds else digits_value ds) in
      if ds = [] then Inl InvalidArgument else if in_range_s w v then Inr v else Inl StdOutOfRange)"

text \<open>\<open>std::stoi\<close> (width 32) and \<open>std::stoll\<close> (width 64): leading white space, a sign, the longest run
  of digits; what follows is ignored.\<close>

definition stoi :: "nat \<Rightarrow> string \<Rightarrow> int result" where
  "stoi w s = (case dropWhile is_space s of
      [] \<Rightarrow> Inl InvalidArgument
    | c # cs \<Rightarrow>
        if c = CHR ''-'' then read_digits w True cs
        else if c = CHR ''+'' then read_digits w False cs
        else read_digits w False (c # cs))"

text \<open>The handler around the parsers turns \<open>std::out_of_range\<close> into the program's exception.\<close>

definition catch_range :: "'a result \<Rightarrow> 'a result" where
  "catch_range r = (if r = Inl StdOutOfRange then out_of_range else r)"

definition to_lower :: "char \<Rightarrow> char" where
  "to_lower c = (if 65 \<le> (of_char c :: nat) \<and> (of_char c :: nat) \<le> 90
     then char_of ((of_char c :: nat) + 32) else c)"

section \<open>ToString\<close>

definition Tinyint_ToString :: "'d Value \<Rightarrow> string result" where
  "Tinyint_ToString val = guard (CheckInteger val)
     (Inr (if IsNull val then ''tinyint_null'' else int_to_string (value_int val)))"

definition Smallint_ToString :: "'d Value \<Rightarrow> string result" where
  "Smallint_ToString val = guard (CheckInteger val) (case type_id_m val of
     TINYINT \<Rightarrow> Inr (if IsNull val then ''tinyint_null'' else int_to_string (value_int val))
   | SMALLINT \<Rightarrow> Inr (if IsNull val then ''smallint_null'' else int_to_string (value_int val))
   | INTEGER \<Rightarrow> Inr (if IsNull val then ''integer_null'' else int_to_string (value_int val))
   | BIGINT \<Rightarrow> Inr (if IsNull val then ''bigint_null'' else int_to_string (value_int val))
   | _ \<Rightarrow> type_error)"

definition Integer_ToString :: "'d Value \<Rightarrow> string result" where
  "Integer_ToString val = guard (CheckInteger val)
     (Inr (if IsNull val then ''integer_null'' else int_to_string (value_int val)))"

definition Bigint_ToString :: "'d Value \<Rightarrow> string result" where
  "Bigint_ToString val = guard (CheckInteger val)
     (Inr (if IsNull val then ''bigint_null'' else int_to_string (value_int val)))"

definition Decimal_ToString :: "'d fp \<Rightarrow> 'd Value \<Rightarrow> string result" where
  "Decimal_ToString fp val = Inr (if IsNull val then ''decimal_null'' else fp_to_string fp (value_dec fp val))"

definition Boolean_ToString :: "'d Value \<Rightarrow> string result" where
  "Boolean_ToString val = Inr (if value_int val = 1 then ''true'' else if value_int val = 0 then ''false''
     else ''boolean_null'')"

definition byte_char :: "8 word \<Rightarrow> char" where
  "byte_char b = char_of (unat b)"

definition Varlen_ToString :: "'d Value \<Rightarrow> string result" where
  "Varlen_ToString val = Inr (
     if IsNull val then ''varlen_null''
     else if len_m val = PELOTON_VARCHAR_MAX_LEN then ''varlen_max''
     else if len_m val = 0 then []
     else map byte_char (take (nat (len_m val - 1)) (value_bytes val)))"

definition value_ToString :: "'d fp \<Rightarrow> 'd Value \<Rightarrow> string result" where
  "value_ToString fp val = (case type_id_m val of
     INVALID \<Rightarrow> not_implemented
   | BOOLEAN \<Rightarrow> Boolean_ToString val
   | TINYINT \<Rightarrow> Tinyint_ToString val
   | SMALLINT \<Rightarrow> Smallint_ToString val
   | INTEGER \<Rightarrow> Integer_ToString val
   | BIGINT \<Rightarrow> Bigint_ToString val
   | DECIMAL \<Rightarrow> Decimal_ToString fp val
   | VARCHAR \<Rightarrow> Varlen_ToString val
   | TIMESTAMP \<Rightarrow> Inl NullPointer)"

section \<open>Copy\<close>

definition Tinyint_Copy :: "'d Value \<Rightarrow> 'd Value result" where
  "Tinyint_Copy val = guard (CheckInteger val) (Value_int8 TINYINT (value_int val))"

definition Smallint_Copy :: "'d Value \<Rightarrow> 'd Value result" where
  "Smallint_Copy val = guard (CheckInteger val) (Value_int16 SMALLINT (value_int val))"

definition Integer_Copy :: "'d Value \<Rightarrow> 'd Value result" where
  "Integer_Copy val = guard (CheckInteger val) (Value_int32 (type_id_m val) (value_int val))"

definition Bigint_Copy :: "'d Value \<Rightarrow> 'd Value result" where
  "Bigint_Copy val = Value_int64 BIGINT (value_int val)"

definition Decimal_Copy :: "'d fp \<Rightarrow> 'd Value \<Rightarrow> 'd Value result" where
  "Decimal_Copy fp val = Value_double fp DECIMAL (value_dec fp val)"

definition Boolean_Copy :: "'d Value \<Rightarrow> 'd Value result" where
  "Boolean_Copy val = Value_int8 BOOLEAN (value_int val)"

definition Varlen_Copy :: "'d Value \<Rightarrow> 'd Value result" where
  "Varlen_Copy val = Inr (Value_copy val)"

definition value_Copy :: "'d fp \<Rightarrow> 'd Value \<Rightarrow> 'd Value result" where
  "value_Copy fp val = (case type_id_m val of
     INVALID \<Rightarrow> not_implemented
   | BOOLEAN \<Rightarrow> Boolean_Copy val
   | TINYINT \<Rightarrow> Tinyint_Copy val
   | SMALLINT \<Rightarrow> Smallint_Copy val
   | INTEGER \<Rightarrow> Integer_Copy val
   | BIGINT \<Rightarrow> Bigint_Copy val
   | DECIMAL \<Rightarrow> Decimal_Copy fp val
   | VARCHAR \<Rightarrow> Varlen_Copy val
   | TIMESTAMP \<Rightarrow> Inl NullPointer)"

section \<open>NULL results and zero tests\<close>

definition Tinyint_OperateNull :: "'d fp \<Rightarrow> 'd Value \<Rightarrow> 'd Value \<Rightarrow> 'd Value result" where
  "Tinyint_OperateNull fp left right = (case type_id_m right of
     TINYINT \<Rightarrow> Value_int8 TINYINT (int_null 8)
   | SMALLINT \<Rightarrow> Value_int16 SMALLINT (int_null 16)
   | INTEGER \<Rightarrow> Value_int32 INTEGER (int_null 32)
   | BIGINT \<Rightarrow> Value_int64 BIGINT (int_null 64)
   | DECIMAL \<Rightarrow> Value_double fp DECIMAL (fp_lowest fp)
   | _ \<Rightarrow> type_error)"

definition Smallint_OperateNull :: "'d fp \<Rightarrow> 'd Value \<Rightarrow> 'd Value \<Rightarrow> 'd Value result" where
  "Smallint_OperateNull fp left right = (case type_id_m right of
     TINYINT \<Rightarrow> Value_int8 TINYINT (int_null 8)
   | SMALLINT \<Rightarrow> Value_int16 SMALLINT (int_null 16)
   | INTEGER \<Rightarrow> Value_int32 INTEGER (int_null 32)
   | BIGINT \<Rightarrow> Value_int64 BIGINT (int_null 64)
   | DECIMAL \<Rightarrow> Value_double fp DECIMAL (fp_lowest fp)
   | _ \<Rightarrow> type_error)"

definition Integer_OperateNull :: "'d fp \<Rightarrow> 'd Value \<Rightarrow> 'd Value \<Rightarrow> 'd Value result" where
  "Integer_OperateNull fp left right = (case type_id_m right of
     TINYINT \<Rightarrow> Value_int8 TINYINT (int_null 8)
   | SMALLINT \<Rightarrow> Value_int16 SMALLINT (int_null 16)
   | INTEGER \<Rightarrow> Value_int32 INTEGER (int_null 32)
   | BIGINT \<Rightarrow> Value_int64 BIGINT (int_null 64)
   | DECIMAL \<Rightarrow> Value_double fp DECIMAL (fp_lowest fp)
   | _ \<Rightarrow> type_error)"

definition Bigint_OperateNull :: "'d fp \<Rightarrow> 'd Value \<Rightarrow> 'd Value \<Rightarrow> 'd Value result" where
  "Bigint_OperateNull fp left right = (case type_id_m right of
     TINYINT \<Rightarrow> Value_int8 TINYINT (int_null 8)
   | SMALLINT \<Rightarrow> Value_int16 SMALLINT (int_null 16)
   | INTEGER \<Rightarrow> Value_int32 INTEGER (int_null 32)
   | BIGINT \<Rightarrow> Value_int64 BIGINT (int_null 64)
   | DECIMAL \<Rightarrow> Value_double fp DECIMAL (fp_lowest fp)
   | _ \<Rightarrow> type_error)"

definition Decimal_OperateNull :: "'d fp \<Rightarrow> 'd Value \<Rightarrow> 'd Value \<Rightarrow> 'd Value result" where
  "Decimal_OperateNull fp left right = Value_double fp DECIMAL (fp_lowest fp)"

definition value_OperateNull :: "'d fp \<Rightarrow> 'd Value \<Rightarrow> 'd Value \<Rightarrow> 'd Value result" where
  "value_OperateNull fp left right = (case type_id_m left of
     INVALID \<Rightarrow> not_implemented
   | BOOLEAN \<Rightarrow> not_implemented
   | TINYINT \<Rightarrow> Tinyint_OperateNull fp left right
   | SMALLINT \<Rightarrow> Smallint_OperateNull fp left right
   | INTEGER \<Rightarrow> Integer_OperateNull fp left right
   | BIGINT \<Rightarrow> Bigint_OperateNull fp left right
   | DECIMAL \<Rightarrow> Decimal_OperateNull fp left right
   | VARCHAR \<Rightarrow> not_implemented
   | TIMESTAMP \<Rightarrow> Inl NullPointer)"

definition Tinyint_IsZero :: "'d Value \<Rightarrow> bool result" where
  "Tinyint_IsZero val = Inr (value_int val = 0)"

definition Smallint_IsZero :: "'d Value \<Rightarrow> bool result" where
  "Smallint_IsZero val = Inr (value_int val = 0)"

definition Integer_IsZero :: "'d Value \<Rightarrow> bool result" where
  "Integer_IsZero val = Inr (value_int val = 0)"

definition Bigint_IsZero :: "'d Value \<Rightarrow> bool result" where
  "Bigint_IsZero val = Inr (value_int val = 0)"

definition Decimal_IsZero :: "'d fp \<Rightarrow> 'd Value \<Rightarrow> bool result" where
  "Decimal_IsZero fp val = Inr (fp_eq fp (value_dec fp val) (fp_of_int fp 0))"

definition value_IsZero :: "'d fp \<Rightarrow> 'd Value \<Rightarrow> bool result" where
  "value_IsZero fp val = (case type_id_m val of
     INVALID \<Rightarrow> not_implemented
   | BOOLEAN \<Rightarrow> not_implemented
   | TINYINT \<Rightarrow> Tinyint_IsZero val
   | SMALLINT \<Rightarrow> Smallint_IsZero val
   | INTEGER \<Rightarrow> Integer_IsZero val
   | BIGINT \<Rightarrow> Bigint_IsZero val
   | DECIMAL \<Rightarrow> Decimal_IsZero fp val
   | VARCHAR \<Rightarrow> not_implemented
   | TIMESTAMP \<Rightarrow> Inl NullPointer)"

section \<open>CastAs\<close>

text \<open>The check before a narrowing, and the text form every class casts to.\<close>

definition range_check :: "nat \<Rightarrow> int \<Rightarrow> 'a result \<Rightarrow> 'a result" where
  "range_check w x r = (if x > int_max w \<or> x < int_min w then out_of_range else r)"

definition as_varchar :: "'d fp \<Rightarrow> 'd Value \<Rightarrow> 'd Value result" where
  "as_varchar fp val = (if IsNull val then Value_varlen VARCHAR None 0 False
     else and_then (value_ToString fp val) (Value_string VARCHAR))"

definition Tinyint_CastAs :: "'d fp \<Rightarrow> 'd Value \<Rightarrow> TypeId \<Rightarrow> 'd Value result" where
  "Tinyint_CastAs fp val t = (case t of
     TINYINT \<Rightarrow> if IsNull val then Value_int8 t (int_null 8) else Tinyint_Copy val
   | SMALLINT \<Rightarrow> if IsNull val then Value_int16 t (int_null 16) else Value_int16 t (value_int val)
   | INTEGER \<Rightarrow> if IsNull val then Value_int32 t (int_null 32) else Value_int32 t (value_int val)
   | BIGINT \<Rightarrow> if IsNull val then Value_int64 t (int_null 64) else Value_int64 t (value_int val)
   | DECIMAL \<Rightarrow> if IsNull val then Value_double fp t (fp_lowest fp)
       else Value_double fp t (fp_of_int fp (value_int val))
   | VARCHAR \<Rightarrow> as_varchar fp val
   | _ \<Rightarrow> type_error)"

definition Smallint_CastAs :: "'d fp \<Rightarrow> 'd Value \<Rightarrow> TypeId \<Rightarrow> 'd Value result" where
  "Smallint_CastAs fp val t = (case t of
     TINYINT \<Rightarrow> if IsNull val then Value_int8 t (int_null 8) else range_check 8 (value_int val) (Value_int8 t (value_int val))
   | SMALLINT \<Rightarrow> if IsNull val then Value_int16 t (int_null 16) else Smallint_Copy val
   | INTEGER \<Rightarrow> if IsNull val then Value_int32 t (int_null 32) else Value_int32 t (value_int val)
   | BIGINT \<Rightarrow> if IsNull val then Value_int64 t (int_null 64) else Value_int64 t (value_int val)
   | DECIMAL \<Rightarrow> if IsNull val then Value_double fp t (fp_lowest fp)
       else Value_double fp t (fp_of_int fp (value_int val))
   | VARCHAR \<Rightarrow> as_varchar fp val
   | _ \<Rightarrow> type_error)"

definition Integer_CastAs :: "'d fp \<Rightarrow> 'd Value \<Rightarrow> TypeId \<Rightarrow> 'd Value result" where
  "Integer_CastAs fp val t = (case t of
     TINYINT \<Rightarrow> if IsNull val then Value_int8 t (int_null 8) else range_check 8 (value_int val) (Value_int8 t (value_int val))
   | SMALLINT \<Rightarrow> if IsNull val then Value_int16 t (int_null 16) else range_check 16 (value_int val) (Value_int16 t (value_int val))
   | INTEGER \<Rightarrow> if IsNull val then Value_int32 t (int_null 32) else Value_int32 t (value_int val)
   | BIGINT \<Rightarrow> if IsNull val then Value_int64 t (int_null 64) else Value_int64 t (value_int val)
   | DECIMAL \<Rightarrow> if IsNull val then Value_double fp t (fp_lowest fp)
       else Value_double fp t (fp_of_int fp (value_int val))
   | VARCHAR \<Rightarrow> as_varchar fp val
   | _ \<Rightarrow> type_error)"

definition Bigint_CastAs :: "'d fp \<Rightarrow> 'd Value \<Rightarrow> TypeId \<Rightarrow> 'd Value result" where
  "Bigint_CastAs fp val t = (case t of
     TINYINT \<Rightarrow> if IsNull val then Value_int8 t (int_null 8) else range_check 8 (value_int val) (Value_int8 t (value_int val))
   | SMALLINT \<Rightarrow> if IsNull val then Value_int16 t (int_null 16) else range_check 16 (value_int val) (Value_int16 t (value_int val))
   | INTEGER \<Rightarrow> if IsNull val then Value_int32 t (int_null 32) else range_check 32 (value_int val) (Value_int32 t (value_int val))
   | BIGINT \<Rightarrow> if IsNull val then Value_int64 t (int_null 64) else Bigint_Copy val
   | DECIMAL \<Rightarrow> if IsNull val then Value_double fp t (fp_lowest fp)
       else Value_double fp t (fp_of_int fp (value_int val))
   | VARCHAR \<Rightarrow> as_varchar fp val
   | _ \<Rightarrow> type_error)"

definition fp_range_check :: "'d fp \<Rightarrow> nat \<Rightarrow> 'd \<Rightarrow> 'a result \<Rightarrow> 'a result" where
  "fp_range_check fp w d r =
     (if fp_less fp (fp_of_int fp (int_max w)) d \<or> fp_less fp d (fp_of_int fp (int_min w)) then out_of_range else r)"

definition Decimal_CastAs :: "'d fp \<Rightarrow> 'd Value \<Rightarrow> TypeId \<Rightarrow> 'd Value result" where
  "Decimal_CastAs fp val t = (let d = value_dec fp val in case t of
     TINYINT \<Rightarrow> if IsNull val then Value_int8 t (int_null 8)
       else fp_range_check fp 8 d (Value_int8 t (fp_to_int fp d))
   | SMALLINT \<Rightarrow> if IsNull val then Value_int16 t (int_null 16)
       else fp_range_check fp 16 d (Value_int16 t (fp_to_int fp d))
   | INTEGER \<Rightarrow> if IsNull val then Value_int32 t (int_null 32)
       else fp_range_check fp 32 d (Value_int32 t (fp_to_int fp d))
   | BIGINT \<Rightarrow> if IsNull val then Value_int64 t (int_null 64)
       else fp_range_check fp 64 d (Value_int64 t (fp_to_int fp d))
   | DECIMAL \<Rightarrow> value_Copy fp val
   | VARCHAR \<Rightarrow> as_varchar fp val
   | _ \<Rightarrow> type_error)"

definition Boolean_CastAs :: "'d fp \<Rightarrow> 'd Value \<Rightarrow> TypeId \<Rightarrow> 'd Value result" where
  "Boolean_CastAs fp val t = (case t of
     BOOLEAN \<Rightarrow> Boolean_Copy val
   | VARCHAR \<Rightarrow> as_varchar fp val
   | _ \<Rightarrow> type_error)"

text \<open>The two small casts narrow the parsed number first and then test its lower bound only.\<close>

definition Varlen_CastAs :: "'d fp \<Rightarrow> 'd Value \<Rightarrow> TypeId \<Rightarrow> 'd Value result" where
  "Varlen_CastAs fp val t = (case t of
     BOOLEAN \<Rightarrow> and_then (value_ToString fp val) (\<lambda>str. let str = map to_lower str in
       if str = ''true'' \<or> str = ''1'' \<or> str = ''t'' then Value_int32 t 1
       else if str = ''false'' \<or> str = ''0'' \<or> str = ''f'' then Value_int32 t 0
       else type_error)
   | TINYINT \<Rightarrow> and_then (value_ToString fp val) (\<lambda>str. and_then (catch_range (stoi 32 str)) (\<lambda>x.
       let i = wrap_s 8 x in if i < int_min 8 then out_of_range else Value_int8 t i))
   | SMALLINT \<Rightarrow> and_then (value_ToString fp val) (\<lambda>str. and_then (catch_range (stoi 32 str)) (\<lambda>x.
       let i = wrap_s 16 x in if i < int_min 16 then out_of_range else Value_int16 t i))
   | INTEGER \<Rightarrow> and_then (value_ToString fp val) (\<lambda>str. and_then (catch_range (stoi 32 str)) (\<lambda>x.
       range_check 32 x (Value_int32 t x)))
   | BIGINT \<Rightarrow> and_then (value_ToString fp val) (\<lambda>str. and_then (catch_range (stoi 64 str)) (\<lambda>x.
       range_check 64 x (Value_int64 t x)))
   | DECIMAL \<Rightarrow> and_then (value_ToString fp val) (\<lambda>str. and_then (catch_range (fp_stod fp str)) (\<lambda>d.
       if fp_less fp (fp_max fp) d \<or> fp_less fp d (fp_flt_lowest fp) then out_of_range
       else Value_double fp t d))
   | VARCHAR \<Rightarrow> value_Copy fp val
   | _ \<Rightarrow> type_error)"

definition value_CastAs :: "'d fp \<Rightarrow> 'd Value \<Rightarrow> TypeId \<Rightarrow> 'd Value result" where
  "value_CastAs fp val t = (case type_id_m val of
     INVALID \<Rightarrow> not_implemented
   | BOOLEAN \<Rightarrow> Boolean_CastAs fp val t
   | TINYINT \<Rightarrow> Tinyint_CastAs fp val t
   | SMALLINT \<Rightarrow> Smallint_CastAs fp val t
   | INTEGER \<Rightarrow> Integer_CastAs fp val t
   | BIGINT \<Rightarrow> Bigint_CastAs fp val t
   | DECIMAL \<Rightarrow> Decimal_CastAs fp val t
   | VARCHAR \<Rightarrow> Varlen_CastAs fp val t
   | TIMESTAMP \<Rightarrow> Inl NullPointer)"

end
