(* ===== verification/TypeCompare.thy ===== *)
theory TypeCompare imports TypeCast begin

text \<open>
  The comparisons of the SQL types, class by class, each through the class's own comparison macro,
  the dispatch of \<open>Value\<close>, and \<open>Min\<close> and \<open>Max\<close>.
\<close>

section \<open>Integer types\<close>

text \<open>The opening of every binary operation of an integer class: two assertions and the NULL case.\<close>

definition int_operands :: "'d Value \<Rightarrow> 'd Value \<Rightarrow> 'a result \<Rightarrow> 'a result \<Rightarrow> 'a result" where
  "int_operands left right null_result body =
     guard (CheckInteger left) (guard (CheckComparable left right)
       (if IsNull left \<or> IsNull right then null_result else body))"

definition TINYINT_COMPARE_FUNC :: "'d fp \<Rightarrow> cmp_op \<Rightarrow> 'd Value \<Rightarrow> 'd Value \<Rightarrow> CmpBool result" where
  "TINYINT_COMPARE_FUNC fp op left right = (case type_id_m right of
     TINYINT \<Rightarrow> Inr (GetCmpBool (cmp_int op (value_int left) (value_int right)))
   | SMALLINT \<Rightarrow> Inr (GetCmpBool (cmp_int op (value_int left) (value_int right)))
   | INTEGER \<Rightarrow> Inr (GetCmpBool (cmp_int op (value_int left) (value_int right)))
   | BIGINT \<Rightarrow> Inr (GetCmpBool (cmp_int op (value_int left) (value_int right)))
   | DECIMAL \<Rightarrow> Inr (GetCmpBool (cmp_fp fp op (fp_of_int fp (value_int left)) (value_dec fp right)))
   | VARCHAR \<Rightarrow> and_then (value_CastAs fp right TINYINT) (\<lambda>r_value.
       Inr (GetCmpBool (cmp_int op (value_int left) (value_int r_value))))
   | _ \<Rightarrow> type_error)"

definition Tinyint_CompareEquals :: "'d fp \<Rightarrow> 'd Value \<Rightarrow> 'd Value \<Rightarrow> CmpBool result" where
  "Tinyint_CompareEquals fp left right = int_operands left right (Inr CMP_NULL) (TINYINT_COMPARE_FUNC fp OpEQ left right)"

definition Tinyint_CompareNotEquals :: "'d fp \<Rightarrow> 'd Value \<Rightarrow> 'd Value \<Rightarrow> CmpBool result" where
  "Tinyint_CompareNotEquals fp left right = int_operands left right (Inr CMP_NULL) (TINYINT_COMPARE_FUNC fp OpNE left right)"

definition Tinyint_CompareLessThan :: "'d fp \<Rightarrow> 'd Value \<Rightarrow> 'd Value \<Rightarrow> CmpBool result" where
  "Tinyint_CompareLessThan fp left right = int_operands left right (Inr CMP_NULL) (TINYINT_COMPARE_FUNC fp OpLT left right)"

definition Tinyint_CompareLessThanEquals :: "'d fp \<Rightarrow> 'd Value \<Rightarrow> 'd Value \<Rightarrow> CmpBool result" where
  "Tinyint_CompareLessThanEquals fp left right = int_operands left right (Inr CMP_NULL) (TINYINT_COMPARE_FUNC fp OpLE left right)"

definition Tinyint_CompareGreaterThan :: "'d fp \<Rightarrow> 'd Value \<Rightarrow> 'd Value \<Rightarrow> CmpBool result" where
  "Tinyint_CompareGreaterThan fp left right = int_operands left right (Inr CMP_NULL) (TINYINT_COMPARE_FUNC fp OpGT left right)"

definition Tinyint_CompareGreaterThanEquals :: "'d fp \<Rightarrow> 'd Value \<Rightarrow> 'd Value \<Rightarrow> CmpBool result" where
  "Tinyint_CompareGreaterThanEquals fp left right = int_operands left right (Inr CMP_NULL) (TINYINT_COMPARE_FUNC fp OpGE left right)"

definition SMALLINT_COMPARE_FUNC :: "'d fp \<Rightarrow> cmp_op \<Rightarrow> 'd Value \<Rightarrow> 'd Value \<Rightarrow> CmpBool result" where
  "SMALLINT_COMPARE_FUNC fp op left right = (case type_id_m right of
     TINYINT \<Rightarrow> Inr (GetCmpBool (cmp_int op (value_int left) (value_int right)))
   | SMALLINT \<Rightarrow> Inr (GetCmpBool (cmp_int op (value_int left) (value_int right)))
   | INTEGER \<Rightarrow> Inr (GetCmpBool (cmp_int op (value_int left) (value_int right)))
   | BIGINT \<Rightarrow> Inr (GetCmpBool (cmp_int op (value_int left) (value_int right)))
   | DECIMAL \<Rightarrow> Inr (GetCmpBool (cmp_fp fp op (fp_of_int fp (value_int left)) (value_dec fp right)))
   | VARCHAR \<Rightarrow> and_then (value_CastAs fp right SMALLINT) (\<lambda>r_value.
       Inr (GetCmpBool (cmp_int op (value_int left) (value_int r_value))))
   | _ \<Rightarrow> type_error)"

definition Smallint_CompareEquals :: "'d fp \<Rightarrow> 'd Value \<Rightarrow> 'd Value \<Rightarrow> CmpBool result" where
  "Smallint_CompareEquals fp left right = int_operands left right (Inr CMP_NULL) (SMALLINT_COMPARE_FUNC fp OpEQ left right)"

definition Smallint_CompareNotEquals :: "'d fp \<Rightarrow> 'd Value \<Rightarrow> 'd Value \<Rightarrow> CmpBool result" where
  "Smallint_CompareNotEquals fp left right = int_operands left right (Inr CMP_NULL) (SMALLINT_COMPARE_FUNC fp OpNE left right)"

definition Smallint_CompareLessThan :: "'d fp \<Rightarrow> 'd Value \<Rightarrow> 'd Value \<Rightarrow> CmpBool result" where
  "Smallint_CompareLessThan fp left right = int_operands left right (Inr CMP_NULL) (SMALLINT_COMPARE_FUNC fp OpLT left right)"

definition Smallint_CompareLessThanEquals :: "'d fp \<Rightarrow> 'd Value \<Rightarrow> 'd Value \<Rightarrow> CmpBool result" where
  "Smallint_CompareLessThanEquals fp left right = int_operands left right (Inr CMP_NULL) (SMALLINT_COMPARE_FUNC fp OpLE left right)"

definition Smallint_CompareGreaterThan :: "'d fp \<Rightarrow> 'd Value \<Rightarrow> 'd Value \<Rightarrow> CmpBool result" where
  "Smallint_CompareGreaterThan fp left right = int_operands left right (Inr CMP_NULL) (SMALLINT_COMPARE_FUNC fp OpGT left right)"

definition Smallint_CompareGreaterThanEquals :: "'d fp \<Rightarrow> 'd Value \<Rightarrow> 'd Value \<Rightarrow> CmpBool result" where
  "Smallint_CompareGreaterThanEquals fp left right = int_operands left right (Inr CMP_NULL) (SMALLINT_COMPARE_FUNC fp OpGE left right)"

definition INT_COMPARE_FUNC :: "'d fp \<Rightarrow> cmp_op \<Rightarrow> 'd Value \<Rightarrow> 'd Value \<Rightarrow> CmpBool result" where
  "INT_COMPARE_FUNC fp op left right = (case type_id_m right of
     TINYINT \<Rightarrow> Inr (GetCmpBool (cmp_int op (value_int left) (value_int right)))
   | SMALLINT \<Rightarrow> Inr (GetCmpBool (cmp_int op (value_int left) (value_int right)))
   | INTEGER \<Rightarrow> Inr (GetCmpBool (cmp_int op (value_int left) (value_int right)))
   | BIGINT \<Rightarrow> Inr (GetCmpBool (cmp_int op (value_int left) (value_int right)))
   | DECIMAL \<Rightarrow> Inr (GetCmpBool (cmp_fp fp op (fp_of_int fp (value_int left)) (value_dec fp right)))
   | VARCHAR \<Rightarrow> and_then (value_CastAs fp right INTEGER) (\<lambda>r_value.
       Inr (GetCmpBool (cmp_int op (value_int left) (value_int r_value))))
   | _ \<Rightarrow> type_error)"

definition Integer_CompareEquals :: "'d fp \<Rightarrow> 'd Value \<Rightarrow> 'd Value \<Rightarrow> CmpBool result" where
  "Integer_CompareEquals fp left right = int_operands left right (Inr CMP_NULL) (INT_COMPARE_FUNC fp OpEQ left right)"

definition Integer_CompareNotEquals :: "'d fp \<Rightarrow> 'd Value \<Rightarrow> 'd Value \<Rightarrow> CmpBool result" where
  "Integer_CompareNotEquals fp left right = int_operands left right (Inr CMP_NULL) (INT_COMPARE_FUNC fp OpNE left right)"

definition Integer_CompareLessThan :: "'d fp \<Rightarrow> 'd Value \<Rightarrow> 'd Value \<Rightarrow> CmpBool result" where
  "Integer_CompareLessThan fp left right = int_operands left right (Inr CMP_NULL) (INT_COMPARE_FUNC fp OpLT left right)"

definition Integer_CompareLessThanEquals :: "'d fp \<Rightarrow> 'd Value \<Rightarrow> 'd Value \<Rightarrow> CmpBool result" where
  "Integer_CompareLessThanEquals fp left right = int_operands left right (Inr CMP_NULL) (INT_COMPARE_FUNC fp OpLE left right)"

definition Integer_CompareGreaterThan :: "'d fp \<Rightarrow> 'd Value \<Rightarrow> 'd Value \<Rightarrow> CmpBool result" where
  "Integer_CompareGreaterThan fp left right = int_operands left right (Inr CMP_NULL) (INT_COMPARE_FUNC fp OpGT left right)"

definition Integer_CompareGreaterThanEquals :: "'d fp \<Rightarrow> 'd Value \<Rightarrow> 'd Value \<Rightarrow> CmpBool result" where
  "Integer_CompareGreaterThanEquals fp left right = int_operands left right (Inr CMP_NULL) (INT_COMPARE_FUNC fp OpGE left right)"

definition BIGINT_COMPARE_FUNC :: "'d fp \<Rightarrow> cmp_op \<Rightarrow> 'd Value \<Rightarrow> 'd Value \<Rightarrow> CmpBool result" where
  "BIGINT_COMPARE_FUNC fp op left right = (case type_id_m right of
     TINYINT \<Rightarrow> Inr (GetCmpBool (cmp_int op (value_int left) (value_int right)))
   | SMALLINT \<Rightarrow> Inr (GetCmpBool (cmp_int op (value_int left) (value_int right)))
   | INTEGER \<Rightarrow> Inr (GetCmpBool (cmp_int op (value_int left) (value_int right)))
   | BIGINT \<Rightarrow> Inr (GetCmpBool (cmp_int op (value_int left) (value_int right)))
   | DECIMAL \<Rightarrow> Inr (GetCmpBool (cmp_fp fp op (fp_of_int fp (value_int left)) (value_dec fp right)))
   | VARCHAR \<Rightarrow> and_then (value_CastAs fp right BIGINT) (\<lambda>r_value.
       Inr (GetCmpBool (cmp_int op (value_int left) (value_int r_value))))
   | _ \<Rightarrow> type_error)"

definition Bigint_CompareEquals :: "'d fp \<Rightarrow> 'd Value \<Rightarrow> 'd Value \<Rightarrow> CmpBool result" where
  "Bigint_CompareEquals fp left right = int_operands left right (Inr CMP_NULL) (BIGINT_COMPARE_FUNC fp OpEQ left right)"

definition Bigint_CompareNotEquals :: "'d fp \<Rightarrow> 'd Value \<Rightarrow> 'd Value \<Rightarrow> CmpBool result" where
  "Bigint_CompareNotEquals fp left right = int_operands left right (Inr CMP_NULL) (BIGINT_COMPARE_FUNC fp OpNE left right)"

definition Bigint_CompareLessThan :: "'d fp \<Rightarrow> 'd Value \<Rightarrow> 'd Value \<Rightarrow> CmpBool result" where
  "Bigint_CompareLessThan fp left right = int_operands left right (Inr CMP_NULL) (BIGINT_COMPARE_FUNC fp OpLT left right)"

definition Bigint_CompareLessThanEquals :: "'d fp \<Rightarrow> 'd Value \<Rightarrow> 'd Value \<Rightarrow> CmpBool result" where
  "Bigint_CompareLessThanEquals fp left right = int_operands left right (Inr CMP_NULL) (BIGINT_COMPARE_FUNC fp OpLE left right)"

definition Bigint_CompareGreaterThan :: "'d fp \<Rightarrow> 'd Value \<Rightarrow> 'd Value \<Rightarrow> CmpBool result" where
  "Bigint_CompareGreaterThan fp left right = int_operands left right (Inr CMP_NULL) (BIGINT_COMPARE_FUNC fp OpGT left right)"

definition Bigint_CompareGreaterThanEquals :: "'d fp \<Rightarrow> 'd Value \<Rightarrow> 'd Value \<Rightarrow> CmpBool result" where
  "Bigint_CompareGreaterThanEquals fp left right = int_operands left right (Inr CMP_NULL) (BIGINT_COMPARE_FUNC fp OpGE left right)"

section \<open>Decimals\<close>

text \<open>The assertion on the class's own type always holds, as the instance is the DECIMAL one.\<close>

definition dec_operands :: "'d Value \<Rightarrow> 'd Value \<Rightarrow> 'a result \<Rightarrow> 'a result \<Rightarrow> 'a result" where
  "dec_operands left right null_result body =
     guard (CheckComparable left right) (if IsNull left \<or> IsNull right then null_result else body)"

definition DECIMAL_COMPARE_FUNC :: "'d fp \<Rightarrow> cmp_op \<Rightarrow> 'd Value \<Rightarrow> 'd Value \<Rightarrow> CmpBool result" where
  "DECIMAL_COMPARE_FUNC fp op left right = (case type_id_m right of
     TINYINT \<Rightarrow> Inr (GetCmpBool (cmp_fp fp op (value_dec fp left) (fp_of_int fp (value_int right))))
   | SMALLINT \<Rightarrow> Inr (GetCmpBool (cmp_fp fp op (value_dec fp left) (fp_of_int fp (value_int right))))
   | INTEGER \<Rightarrow> Inr (GetCmpBool (cmp_fp fp op (value_dec fp left) (fp_of_int fp (value_int right))))
   | BIGINT \<Rightarrow> Inr (GetCmpBool (cmp_fp fp op (value_dec fp left) (fp_of_int fp (value_int right))))
   | DECIMAL \<Rightarrow> Inr (GetCmpBool (cmp_fp fp op (value_dec fp left) (value_dec fp right)))
   | VARCHAR \<Rightarrow> and_then (value_CastAs fp right DECIMAL) (\<lambda>r_value.
       Inr (GetCmpBool (cmp_fp fp op (value_dec fp left) (value_dec fp r_value))))
   | _ \<Rightarrow> type_error)"

definition Decimal_CompareEquals :: "'d fp \<Rightarrow> 'd Value \<Rightarrow> 'd Value \<Rightarrow> CmpBool result" where
  "Decimal_CompareEquals fp left right = dec_operands left right (Inr CMP_NULL) (DECIMAL_COMPARE_FUNC fp OpEQ left right)"

definition Decimal_CompareNotEquals :: "'d fp \<Rightarrow> 'd Value \<Rightarrow> 'd Value \<Rightarrow> CmpBool result" where
  "Decimal_CompareNotEquals fp left right = dec_operands left right (Inr CMP_NULL) (DECIMAL_COMPARE_FUNC fp OpNE left right)"

definition Decimal_CompareLessThan :: "'d fp \<Rightarrow> 'd Value \<Rightarrow> 'd Value \<Rightarrow> CmpBool result" where
  "Decimal_CompareLessThan fp left right = dec_operands left right (Inr CMP_NULL) (DECIMAL_COMPARE_FUNC fp OpLT left right)"

definition Decimal_CompareLessThanEquals :: "'d fp \<Rightarrow> 'd Value \<Rightarrow> 'd Value \<Rightarrow> CmpBool result" where
  "Decimal_CompareLessThanEquals fp left right = dec_operands left right (Inr CMP_NULL) (DECIMAL_COMPARE_FUNC fp OpLE left right)"

definition Decimal_CompareGreaterThan :: "'d fp \<Rightarrow> 'd Value \<Rightarrow> 'd Value \<Rightarrow> CmpBool result" where
  "Decimal_CompareGreaterThan fp left right = dec_operands left right (Inr CMP_NULL) (DECIMAL_COMPARE_FUNC fp OpGT left right)"

definition Decimal_CompareGreaterThanEquals :: "'d fp \<Rightarrow> 'd Value \<Rightarrow> 'd Value \<Rightarrow> CmpBool result" where
  "Decimal_CompareGreaterThanEquals fp left right = dec_operands left right (Inr CMP_NULL) (DECIMAL_COMPARE_FUNC fp OpGE left right)"

section \<open>Booleans\<close>

definition BOOLEAN_COMPARE_FUNC :: "'d fp \<Rightarrow> cmp_op \<Rightarrow> 'd Value \<Rightarrow> 'd Value \<Rightarrow> CmpBool result" where
  "BOOLEAN_COMPARE_FUNC fp op left right = and_then (value_CastAs fp right BOOLEAN) (\<lambda>r.
     Inr (GetCmpBool (cmp_int op (value_int left) (value_int r))))"

definition Boolean_CompareEquals :: "'d fp \<Rightarrow> 'd Value \<Rightarrow> 'd Value \<Rightarrow> CmpBool result" where
  "Boolean_CompareEquals fp left right = guard (CheckComparable left right)
     (if IsNull left \<or> IsNull right then Inr CMP_NULL else BOOLEAN_COMPARE_FUNC fp OpEQ left right)"

definition Boolean_CompareNotEquals :: "'d fp \<Rightarrow> 'd Value \<Rightarrow> 'd Value \<Rightarrow> CmpBool result" where
  "Boolean_CompareNotEquals fp left right = guard (CheckComparable left right)
     (if IsNull left \<or> IsNull right then Inr CMP_NULL else BOOLEAN_COMPARE_FUNC fp OpNE left right)"

definition Boolean_CompareLessThan :: "'d fp \<Rightarrow> 'd Value \<Rightarrow> 'd Value \<Rightarrow> CmpBool result" where
  "Boolean_CompareLessThan fp left right = guard (CheckComparable left right)
     (if IsNull left \<or> IsNull right then Inr CMP_NULL else BOOLEAN_COMPARE_FUNC fp OpLT left right)"

definition Boolean_CompareLessThanEquals :: "'d fp \<Rightarrow> 'd Value \<Rightarrow> 'd Value \<Rightarrow> CmpBool result" where
  "Boolean_CompareLessThanEquals fp left right = guard (CheckComparable left right)
     (if IsNull left \<or> IsNull right then Inr CMP_NULL else BOOLEAN_COMPARE_FUNC fp OpLE left right)"

definition Boolean_CompareGreaterThan :: "'d fp \<Rightarrow> 'd Value \<Rightarrow> 'd Value \<Rightarrow> CmpBool result" where
  "Boolean_CompareGreaterThan fp left right = guard (CheckComparable left right)
     (if IsNull left \<or> IsNull right then Inr CMP_NULL else BOOLEAN_COMPARE_FUNC fp OpGT left right)"

definition Boolean_CompareGreaterThanEquals :: "'d fp \<Rightarrow> 'd Value \<Rightarrow> 'd Value \<Rightarrow> CmpBool result" where
  "Boolean_CompareGreaterThanEquals fp left right = guard (CheckComparable left right)
     (if IsNull left \<or> IsNull right then Inr CMP_NULL else BOOLEAN_COMPARE_FUNC fp OpGE left right)"

section \<open>Strings\<close>

text \<open>\<open>memcmp\<close> compares bytes as unsigned numbers; only the sign of its result is used.\<close>

fun memcmp :: "8 word list \<Rightarrow> 8 word list \<Rightarrow> nat \<Rightarrow> int" where
  "memcmp (x # xs) (y # ys) (Suc n) = (if x = y then memcmp xs ys n else if x < y then -1 else 1)"
| "memcmp _ _ _ = 0"

text \<open>The lengths are \<open>int\<close> parameters: an unsigned length above \<open>2 ^ 31\<close> arrives negative.  A null
  pointer is \<open>None\<close>.\<close>

definition CompareStrings :: "8 word list option \<Rightarrow> int \<Rightarrow> 8 word list option \<Rightarrow> int \<Rightarrow> int result" where
  "CompareStrings str1 len1 str2 len2 =
     guard (str1 \<noteq> None) (guard (len1 \<ge> 0) (guard (str2 \<noteq> None) (guard (len2 \<ge> 0)
       (let ret = memcmp (the str1) (the str2) (nat (min len1 len2)) in
        Inr (if ret = 0 \<and> len1 \<noteq> len2 then len1 - len2 else ret)))))"

definition Varlen_GetData :: "'d Value \<Rightarrow> 8 word list option" where
  "Varlen_GetData val = (case val_m val of StrVal p \<Rightarrow> p | _ \<Rightarrow> None)"

definition Varlen_GetLength :: "'d Value \<Rightarrow> int" where
  "Varlen_GetLength val = len_m val"

definition VARLEN_COMPARE_FUNC :: "'d fp \<Rightarrow> cmp_op \<Rightarrow> 'd Value \<Rightarrow> 'd Value \<Rightarrow> CmpBool result" where
  "VARLEN_COMPARE_FUNC fp op left right =
     (let str1 = Varlen_GetData left; len1 = (Varlen_GetLength left - 1) mod 2 ^ 32;
          cmp = (\<lambda>r. and_then (CompareStrings str1 (wrap_s 32 len1) (Varlen_GetData r)
             (wrap_s 32 ((Varlen_GetLength r - 1) mod 2 ^ 32))) (\<lambda>c. Inr (GetCmpBool (cmp_int op c 0)))) in
      if type_id_m right = VARCHAR then cmp right else and_then (value_CastAs fp right VARCHAR) cmp)"

definition varlen_compare :: "'d fp \<Rightarrow> cmp_op \<Rightarrow> 'd Value \<Rightarrow> 'd Value \<Rightarrow> CmpBool result" where
  "varlen_compare fp op left right = guard (CheckComparable left right)
     (if IsNull left \<or> IsNull right then Inr CMP_NULL
      else if Varlen_GetLength left = PELOTON_VARCHAR_MAX_LEN \<or> Varlen_GetLength right = PELOTON_VARCHAR_MAX_LEN
        then Inr (GetCmpBool (cmp_int op (Varlen_GetLength left) (Varlen_GetLength right)))
      else VARLEN_COMPARE_FUNC fp op left right)"

definition Varlen_CompareEquals :: "'d fp \<Rightarrow> 'd Value \<Rightarrow> 'd Value \<Rightarrow> CmpBool result" where
  "Varlen_CompareEquals fp left right = varlen_compare fp OpEQ left right"

definition Varlen_CompareNotEquals :: "'d fp \<Rightarrow> 'd Value \<Rightarrow> 'd Value \<Rightarrow> CmpBool result" where
  "Varlen_CompareNotEquals fp left right = varlen_compare fp OpNE left right"

definition Varlen_CompareLessThan :: "'d fp \<Rightarrow> 'd Value \<Rightarrow> 'd Value \<Rightarrow> CmpBool result" where
  "Varlen_CompareLessThan fp left right = varlen_compare fp OpLT left right"

definition Varlen_CompareLessThanEquals :: "'d fp \<Rightarrow> 'd Value \<Rightarrow> 'd Value \<Rightarrow> CmpBool result" where
  "Varlen_CompareLessThanEquals fp left right = varlen_compare fp OpLE left right"

definition Varlen_CompareGreaterThan :: "'d fp \<Rightarrow> 'd Value \<Rightarrow> 'd Value \<Rightarrow> CmpBool result" where
  "Varlen_CompareGreaterThan fp left right = varlen_compare fp OpGT left right"

definition Varlen_CompareGreaterThanEquals :: "'d fp \<Rightarrow> 'd Value \<Rightarrow> 'd Value \<Rightarrow> CmpBool result" where
  "Varlen_CompareGreaterThanEquals fp left right = varlen_compare fp OpGE left right"

section \<open>Dispatch\<close>

definition value_CompareEquals :: "'d fp \<Rightarrow> 'd Value \<Rightarrow> 'd Value \<Rightarrow> CmpBool result" where
  "value_CompareEquals fp left right = (case type_id_m left of
     INVALID \<Rightarrow> not_implemented
   | BOOLEAN \<Rightarrow> Boolean_CompareEquals fp left right
   | TINYINT \<Rightarrow> Tinyint_CompareEquals fp left right
   | SMALLINT \<Rightarrow> Smallint_CompareEquals fp left right
   | INTEGER \<Rightarrow> Integer_CompareEquals fp left right
   | BIGINT \<Rightarrow> Bigint_CompareEquals fp left right
   | DECIMAL \<Rightarrow> Decimal_CompareEquals fp left right
   | VARCHAR \<Rightarrow> Varlen_CompareEquals fp left right
   | TIMESTAMP \<Rightarrow> Inl NullPointer)"

definition value_CompareNotEquals :: "'d fp \<Rightarrow> 'd Value \<Rightarrow> 'd Value \<Rightarrow> CmpBool result" where
  "value_CompareNotEquals fp left right = (case type_id_m left of
     INVALID \<Rightarrow> not_implemented
   | BOOLEAN \<Rightarrow> Boolean_CompareNotEquals fp left right
   | TINYINT \<Rightarrow> Tinyint_CompareNotEquals fp left right
   | SMALLINT \<Rightarrow> Smallint_CompareNotEquals fp left right
   | INTEGER \<Rightarrow> Integer_CompareNotEquals fp left right
   | BIGINT \<Rightarrow> Bigint_CompareNotEquals fp left right
   | DECIMAL \<Rightarrow> Decimal_CompareNotEquals fp left right
   | VARCHAR \<Rightarrow> Varlen_CompareNotEquals fp left right
   | TIMESTAMP \<Rightarrow> Inl NullPointer)"

definition value_CompareLessThan :: "'d fp \<Rightarrow> 'd Value \<Rightarrow> 'd Value \<Rightarrow> CmpBool result" where
  "value_CompareLessThan fp left right = (case type_id_m left of
     INVALID \<Rightarrow> not_implemented
   | BOOLEAN \<Rightarrow> Boolean_CompareLessThan fp left right
   | TINYINT \<Rightarrow> Tinyint_CompareLessThan fp left right
   | SMALLINT \<Rightarrow> Smallint_CompareLessThan fp left right
   | INTEGER \<Rightarrow> Integer_CompareLessThan fp left right
   | BIGINT \<Rightarrow> Bigint_CompareLessThan fp left right
   | DECIMAL \<Rightarrow> Decimal_CompareLessThan fp left right
   | VARCHAR \<Rightarrow> Varlen_CompareLessThan fp left right
   | TIMESTAMP \<Rightarrow> Inl NullPointer)"

definition value_CompareLessThanEquals :: "'d fp \<Rightarrow> 'd Value \<Rightarrow> 'd Value \<Rightarrow> CmpBool result" where
  "value_CompareLessThanEquals fp left right = (case type_id_m left of
     INVALID \<Rightarrow> not_implemented
   | BOOLEAN \<Rightarrow> Boolean_CompareLessThanEquals fp left right
   | TINYINT \<Rightarrow> Tinyint_CompareLessThanEquals fp left right
   | SMALLINT \<Rightarrow> Smallint_CompareLessThanEquals fp left right
   | INTEGER \<Rightarrow> Integer_CompareLessThanEquals fp left right
   | BIGINT \<Rightarrow> Bigint_CompareLessThanEquals fp left right
   | DECIMAL \<Rightarrow> Decimal_CompareLessThanEquals fp left right
   | VARCHAR \<Rightarrow> Varlen_CompareLessThanEquals fp left right
   | TIMESTAMP \<Rightarrow> Inl NullPointer)"

definition value_CompareGreaterThan :: "'d fp \<Rightarrow> 'd Value \<Rightarrow> 'd Value \<Rightarrow> CmpBool result" where
  "value_CompareGreaterThan fp left right = (case type_id_m left of
     INVALID \<Rightarrow> not_implemented
   | BOOLEAN \<Rightarrow> Boolean_CompareGreaterThan fp left right
   | TINYINT \<Rightarrow> Tinyint_CompareGreaterThan fp left right
   | SMALLINT \<Rightarrow> Smallint_CompareGreaterThan fp left right
   | INTEGER \<Rightarrow> Integer_CompareGreaterThan fp left right
   | BIGINT \<Rightarrow> Bigint_CompareGreaterThan fp left right
   | DECIMAL \<Rightarrow> Decimal_CompareGreaterThan fp left right
   | VARCHAR \<Rightarrow> Varlen_CompareGreaterThan fp left right
   | TIMESTAMP \<Rightarrow> Inl NullPointer)"

definition value_CompareGreaterThanEquals :: "'d fp \<Rightarrow> 'd Value \<Rightarrow> 'd Value \<Rightarrow> CmpBool result" where
  "value_CompareGreaterThanEquals fp left right = (case type_id_m left of
     INVALID \<Rightarrow> not_implemented
   | BOOLEAN \<Rightarrow> Boolean_CompareGreaterThanEquals fp left right
   | TINYINT \<Rightarrow> Tinyint_CompareGreaterThanEquals fp left right
   | SMALLINT \<Rightarrow> Smallint_CompareGreaterThanEquals fp left right
   | INTEGER \<Rightarrow> Integer_CompareGreaterThanEquals fp left right
   | BIGINT \<Rightarrow> Bigint_CompareGreaterThanEquals fp left right
   | DECIMAL \<Rightarrow> Decimal_CompareGreaterThanEquals fp left right
   | VARCHAR \<Rightarrow> Varlen_CompareGreaterThanEquals fp left right
   | TIMESTAMP \<Rightarrow> Inl NullPointer)"

section \<open>Min and Max\<close>

text \<open>The copy one of the operands answers with, after a comparison.\<close>

definition pick :: "'d fp \<Rightarrow> CmpBool result \<Rightarrow> 'd Value \<Rightarrow> 'd Value \<Rightarrow> 'd Value result" where
  "pick fp c left right = and_then c (\<lambda>b. if b = CMP_TRUE then value_Copy fp left else value_Copy fp right)"

definition IntegerParent_Min :: "'d fp \<Rightarrow> 'd Value \<Rightarrow> 'd Value \<Rightarrow> 'd Value result" where
  "IntegerParent_Min fp left right = int_operands left right (value_OperateNull fp left right)
     (pick fp (value_CompareLessThan fp left right) left right)"

definition IntegerParent_Max :: "'d fp \<Rightarrow> 'd Value \<Rightarrow> 'd Value \<Rightarrow> 'd Value result" where
  "IntegerParent_Max fp left right = int_operands left right (value_OperateNull fp left right)
     (pick fp (value_CompareGreaterThanEquals fp left right) left right)"

definition Decimal_Min :: "'d fp \<Rightarrow> 'd Value \<Rightarrow> 'd Value \<Rightarrow> 'd Value result" where
  "Decimal_Min fp left right = dec_operands left right (value_OperateNull fp left right)
     (pick fp (value_CompareLessThanEquals fp left right) left right)"

definition Decimal_Max :: "'d fp \<Rightarrow> 'd Value \<Rightarrow> 'd Value \<Rightarrow> 'd Value result" where
  "Decimal_Max fp left right = dec_operands left right (value_OperateNull fp left right)
     (pick fp (value_CompareGreaterThanEquals fp left right) left right)"

definition Varlen_Min :: "'d fp \<Rightarrow> 'd Value \<Rightarrow> 'd Value \<Rightarrow> 'd Value result" where
  "Varlen_Min fp left right = guard (CheckComparable left right)
     (if IsNull left \<or> IsNull right then value_OperateNull fp left right
      else pick fp (value_CompareLessThan fp left right) left right)"

definition Varlen_Max :: "'d fp \<Rightarrow> 'd Value \<Rightarrow> 'd Value \<Rightarrow> 'd Value result" where
  "Varlen_Max fp left right = guard (CheckComparable left right)
     (if IsNull left \<or> IsNull right then value_OperateNull fp left right
      else pick fp (value_CompareGreaterThan fp left right) left right)"

definition value_Min :: "'d fp \<Rightarrow> 'd Value \<Rightarrow> 'd Value \<Rightarrow> 'd Value result" where
  "value_Min fp left right = (case type_id_m left of
     INVALID \<Rightarrow> not_implemented
   | BOOLEAN \<Rightarrow> not_implemented
   | TINYINT \<Rightarrow> IntegerParent_Min fp left right
   | SMALLINT \<Rightarrow> IntegerParent_Min fp left right
   | INTEGER \<Rightarrow> IntegerParent_Min fp left right
   | BIGINT \<Rightarrow> IntegerParent_Min fp left right
   | DECIMAL \<Rightarrow> Decimal_Min fp left right
   | VARCHAR \<Rightarrow> Varlen_Min fp left right
   | TIMESTAMP \<Rightarrow> Inl NullPointer)"

definition value_Max :: "'d fp \<Rightarrow> 'd Value \<Rightarrow> 'd Value \<Rightarrow> 'd Value result" where
  "value_Max fp left right = (case type_id_m left of
     INVALID \<Rightarrow> not_implemented
   | BOOLEAN \<Rightarrow> not_implemented
   | TINYINT \<Rightarrow> IntegerParent_Max fp left right
   | SMALLINT \<Rightarrow> IntegerParent_Max fp left right
   | INTEGER \<Rightarrow> IntegerParent_Max fp left right
   | BIGINT \<Rightarrow> IntegerParent_Max fp left right
   | DECIMAL \<Rightarrow> Decimal_Max fp left right
   | VARCHAR \<Rightarrow> Varlen_Max fp left right
   | TIMESTAMP \<Rightarrow> Inl NullPointer)"

end
