(* ===== verification/TypeArith.thy ===== *)
theory TypeArith imports TypeCompare begin

text \<open>
  The arithmetic of the SQL types: the modify macro of every class with the operations of
  \<open>IntegerParentType\<close>, division and modulo with their zero test, and square roots.  A VARCHAR right
  operand is cast to the class's type first.
\<close>

section \<open>Integer types\<close>

text \<open>The zero test before a division.\<close>

definition nonzero :: "'d fp \<Rightarrow> 'd Value \<Rightarrow> 'a result \<Rightarrow> 'a result" where
  "nonzero fp right r = and_then (value_IsZero fp right) (\<lambda>z. if z then divide_by_zero else r)"

definition TINYINT_MODIFY_FUNC ::
  "'d fp \<Rightarrow> (nat \<Rightarrow> nat \<Rightarrow> 'd Value \<Rightarrow> 'd Value \<Rightarrow> 'd Value result) \<Rightarrow> ('d \<Rightarrow> 'd \<Rightarrow> 'd) \<Rightarrow>
   'd Value \<Rightarrow> 'd Value \<Rightarrow> 'd Value result" where
  "TINYINT_MODIFY_FUNC fp method op left right = (case type_id_m right of
     TINYINT \<Rightarrow> method 8 8 left right
   | SMALLINT \<Rightarrow> method 8 16 left right
   | INTEGER \<Rightarrow> method 8 32 left right
   | BIGINT \<Rightarrow> method 8 64 left right
   | DECIMAL \<Rightarrow> Value_double fp DECIMAL (op (fp_of_int fp (value_int left)) (value_dec fp right))
   | VARCHAR \<Rightarrow> and_then (value_CastAs fp right TINYINT) (\<lambda>r_value. method 8 8 left r_value)
   | _ \<Rightarrow> type_error)"

definition Tinyint_Add :: "'d fp \<Rightarrow> 'd Value \<Rightarrow> 'd Value \<Rightarrow> 'd Value result" where
  "Tinyint_Add fp left right = int_operands left right (value_OperateNull fp left right)
     (TINYINT_MODIFY_FUNC fp AddValue (fp_add fp) left right)"

definition Tinyint_Subtract :: "'d fp \<Rightarrow> 'd Value \<Rightarrow> 'd Value \<Rightarrow> 'd Value result" where
  "Tinyint_Subtract fp left right = int_operands left right (value_OperateNull fp left right)
     (TINYINT_MODIFY_FUNC fp SubtractValue (fp_sub fp) left right)"

definition Tinyint_Multiply :: "'d fp \<Rightarrow> 'd Value \<Rightarrow> 'd Value \<Rightarrow> 'd Value result" where
  "Tinyint_Multiply fp left right = int_operands left right (value_OperateNull fp left right)
     (TINYINT_MODIFY_FUNC fp MultiplyValue (fp_mul fp) left right)"

definition Tinyint_Divide :: "'d fp \<Rightarrow> 'd Value \<Rightarrow> 'd Value \<Rightarrow> 'd Value result" where
  "Tinyint_Divide fp left right = int_operands left right (value_OperateNull fp left right)
     (nonzero fp right (TINYINT_MODIFY_FUNC fp DivideValue (fp_div fp) left right))"

definition Tinyint_Modulo :: "'d fp \<Rightarrow> 'd Value \<Rightarrow> 'd Value \<Rightarrow> 'd Value result" where
  "Tinyint_Modulo fp left right = int_operands left right (value_OperateNull fp left right)
     (nonzero fp right (case type_id_m right of
        TINYINT \<Rightarrow> ModuloValue 8 8 left right
      | SMALLINT \<Rightarrow> ModuloValue 8 16 left right
      | INTEGER \<Rightarrow> ModuloValue 8 32 left right
      | BIGINT \<Rightarrow> ModuloValue 8 64 left right
      | DECIMAL \<Rightarrow> Value_double fp DECIMAL (ValMod fp (fp_of_int fp (value_int left)) (value_dec fp right))
      | VARCHAR \<Rightarrow> and_then (value_CastAs fp right TINYINT) (\<lambda>r_value. ModuloValue 8 8 left r_value)
      | _ \<Rightarrow> type_error))"

definition Tinyint_Sqrt :: "'d fp \<Rightarrow> 'd Value \<Rightarrow> 'd Value result" where
  "Tinyint_Sqrt fp val = guard (CheckInteger val)
     (if IsNull val then Value_double fp DECIMAL (fp_lowest fp)
      else if value_int val < 0 then Inl (Thrown EXCEPTION_TYPE_DECIMAL)
      else Value_double fp DECIMAL (fp_sqrt fp (fp_of_int fp (value_int val))))"

definition SMALLINT_MODIFY_FUNC ::
  "'d fp \<Rightarrow> (nat \<Rightarrow> nat \<Rightarrow> 'd Value \<Rightarrow> 'd Value \<Rightarrow> 'd Value result) \<Rightarrow> ('d \<Rightarrow> 'd \<Rightarrow> 'd) \<Rightarrow>
   'd Value \<Rightarrow> 'd Value \<Rightarrow> 'd Value result" where
  "SMALLINT_MODIFY_FUNC fp method op left right = (case type_id_m right of
     TINYINT \<Rightarrow> method 16 8 left right
   | SMALLINT \<Rightarrow> method 16 16 left right
   | INTEGER \<Rightarrow> method 16 32 left right
   | BIGINT \<Rightarrow> method 16 64 left right
   | DECIMAL \<Rightarrow> Value_double fp DECIMAL (op (fp_of_int fp (value_int left)) (value_dec fp right))
   | VARCHAR \<Rightarrow> and_then (value_CastAs fp right SMALLINT) (\<lambda>r_value. method 16 16 left r_value)
   | _ \<Rightarrow> type_error)"

definition Smallint_Add :: "'d fp \<Rightarrow> 'd Value \<Rightarrow> 'd Value \<Rightarrow> 'd Value result" where
  "Smallint_Add fp left right = int_operands left right (value_OperateNull fp left right)
     (SMALLINT_MODIFY_FUNC fp AddValue (fp_add fp) left right)"

definition Smallint_Subtract :: "'d fp \<Rightarrow> 'd Value \<Rightarrow> 'd Value \<Rightarrow> 'd Value result" where
  "Smallint_Subtract fp left right = int_operands left right (value_OperateNull fp left right)
     (SMALLINT_MODIFY_FUNC fp SubtractValue (fp_sub fp) left right)"

definition Smallint_Multiply :: "'d fp \<Rightarrow> 'd Value \<Rightarrow> 'd Value \<Rightarrow> 'd Value result" where
  "Smallint_Multiply fp left right = int_operands left right (value_OperateNull fp left right)
     (SMALLINT_MODIFY_FUNC fp MultiplyValue (fp_mul fp) left right)"

definition Smallint_Divide :: "'d fp \<Rightarrow> 'd Value \<Rightarrow> 'd Value \<Rightarrow> 'd Value result" where
  "Smallint_Divide fp left right = int_operands left right (value_OperateNull fp left right)
     (nonzero fp right (SMALLINT_MODIFY_FUNC fp DivideValue (fp_div fp) left right))"

definition Smallint_Modulo :: "'d fp \<Rightarrow> 'd Value \<Rightarrow> 'd Value \<Rightarrow> 'd Value result" where
  "Smallint_Modulo fp left right = int_operands left right (value_OperateNull fp left right)
     (nonzero fp right (case type_id_m right of
        TINYINT \<Rightarrow> ModuloValue 16 8 left right
      | SMALLINT \<Rightarrow> ModuloValue 16 16 left right
      | INTEGER \<Rightarrow> ModuloValue 16 32 left right
      | BIGINT \<Rightarrow> ModuloValue 16 64 left right
      | DECIMAL \<Rightarrow> Value_double fp DECIMAL (ValMod fp (fp_of_int fp (value_int left)) (value_dec fp right))
      | VARCHAR \<Rightarrow> and_then (value_CastAs fp right SMALLINT) (\<lambda>r_value. ModuloValue 16 16 left r_value)
      | _ \<Rightarrow> type_error))"

definition Smallint_Sqrt :: "'d fp \<Rightarrow> 'd Value \<Rightarrow> 'd Value result" where
  "Smallint_Sqrt fp val = guard (CheckInteger val)
     (if IsNull val then Value_double fp DECIMAL (fp_lowest fp)
      else if value_int val < 0 then Inl (Thrown EXCEPTION_TYPE_DECIMAL)
      else Value_double fp DECIMAL (fp_sqrt fp (fp_of_int fp (value_int val))))"

definition INT_MODIFY_FUNC ::
  "'d fp \<Rightarrow> (nat \<Rightarrow> nat \<Rightarrow> 'd Value \<Rightarrow> 'd Value \<Rightarrow> 'd Value result) \<Rightarrow> ('d \<Rightarrow> 'd \<Rightarrow> 'd) \<Rightarrow>
   'd Value \<Rightarrow> 'd Value \<Rightarrow> 'd Value result" where
  "INT_MODIFY_FUNC fp method op left right = (case type_id_m right of
     TINYINT \<Rightarrow> method 32 8 left right
   | SMALLINT \<Rightarrow> method 32 16 left right
   | INTEGER \<Rightarrow> method 32 32 left right
   | BIGINT \<Rightarrow> method 32 64 left right
   | DECIMAL \<Rightarrow> Value_double fp DECIMAL (op (fp_of_int fp (value_int left)) (value_dec fp right))
   | VARCHAR \<Rightarrow> and_then (value_CastAs fp right INTEGER) (\<lambda>r_value. method 32 32 left r_value)
   | _ \<Rightarrow> type_error)"

definition Integer_Add :: "'d fp \<Rightarrow> 'd Value \<Rightarrow> 'd Value \<Rightarrow> 'd Value result" where
  "Integer_Add fp left right = int_operands left right (value_OperateNull fp left right)
     (INT_MODIFY_FUNC fp AddValue (fp_add fp) left right)"

definition Integer_Subtract :: "'d fp \<Rightarrow> 'd Value \<Rightarrow> 'd Value \<Rightarrow> 'd Value result" where
  "Integer_Subtract fp left right = int_operands left right (value_OperateNull fp left right)
     (INT_MODIFY_FUNC fp SubtractValue (fp_sub fp) left right)"

definition Integer_Multiply :: "'d fp \<Rightarrow> 'd Value \<Rightarrow> 'd Value \<Rightarrow> 'd Value result" where
  "Integer_Multiply fp left right = int_operands left right (value_OperateNull fp left right)
     (INT_MODIFY_FUNC fp MultiplyValue (fp_mul fp) left right)"

definition Integer_Divide :: "'d fp \<Rightarrow> 'd Value \<Rightarrow> 'd Value \<Rightarrow> 'd Value result" where
  "Integer_Divide fp left right = int_operands left right (value_OperateNull fp left right)
     (nonzero fp right (INT_MODIFY_FUNC fp DivideValue (fp_div fp) left right))"

definition Integer_Modulo :: "'d fp \<Rightarrow> 'd Value \<Rightarrow> 'd Value \<Rightarrow> 'd Value result" where
  "Integer_Modulo fp left right = int_operands left right (value_OperateNull fp left right)
     (nonzero fp right (case type_id_m right of
        TINYINT \<Rightarrow> ModuloValue 32 8 left right
      | SMALLINT \<Rightarrow> ModuloValue 32 16 left right
      | INTEGER \<Rightarrow> ModuloValue 32 32 left right
      | BIGINT \<Rightarrow> ModuloValue 32 64 left right
      | DECIMAL \<Rightarrow> Value_double fp DECIMAL (ValMod fp (fp_of_int fp (value_int left)) (value_dec fp right))
      | VARCHAR \<Rightarrow> and_then (value_CastAs fp right INTEGER) (\<lambda>r_value. ModuloValue 32 32 left r_value)
      | _ \<Rightarrow> type_error))"

definition Integer_Sqrt :: "'d fp \<Rightarrow> 'd Value \<Rightarrow> 'd Value result" where
  "Integer_Sqrt fp val = guard (CheckInteger val)
     (if IsNull val then Integer_OperateNull fp val val
      else if value_int val < 0 then Inl (Thrown EXCEPTION_TYPE_DECIMAL)
      else Value_double fp DECIMAL (fp_sqrt fp (fp_of_int fp (value_int val))))"

definition BIGINT_MODIFY_FUNC ::
  "'d fp \<Rightarrow> (nat \<Rightarrow> nat \<Rightarrow> 'd Value \<Rightarrow> 'd Value \<Rightarrow> 'd Value result) \<Rightarrow> ('d \<Rightarrow> 'd \<Rightarrow> 'd) \<Rightarrow>
   'd Value \<Rightarrow> 'd Value \<Rightarrow> 'd Value result" where
  "BIGINT_MODIFY_FUNC fp method op left right = (case type_id_m right of
     TINYINT \<Rightarrow> method 64 8 left right
   | SMALLINT \<Rightarrow> method 64 16 left right
   | INTEGER \<Rightarrow> method 64 32 left right
   | BIGINT \<Rightarrow> method 64 64 left right
   | DECIMAL \<Rightarrow> Value_double fp DECIMAL (op (fp_of_int fp (value_int left)) (value_dec fp right))
   | VARCHAR \<Rightarrow> and_then (value_CastAs fp right BIGINT) (\<lambda>r_value. method 64 64 left r_value)
   | _ \<Rightarrow> type_error)"

definition Bigint_Add :: "'d fp \<Rightarrow> 'd Value \<Rightarrow> 'd Value \<Rightarrow> 'd Value result" where
  "Bigint_Add fp left right = int_operands left right (value_OperateNull fp left right)
     (BIGINT_MODIFY_FUNC fp AddValue (fp_add fp) left right)"

definition Bigint_Subtract :: "'d fp \<Rightarrow> 'd Value \<Rightarrow> 'd Value \<Rightarrow> 'd Value result" where
  "Bigint_Subtract fp left right = int_operands left right (value_OperateNull fp left right)
     (BIGINT_MODIFY_FUNC fp SubtractValue (fp_sub fp) left right)"

definition Bigint_Multiply :: "'d fp \<Rightarrow> 'd Value \<Rightarrow> 'd Value \<Rightarrow> 'd Value result" where
  "Bigint_Multiply fp left right = int_operands left right (value_OperateNull fp left right)
     (BIGINT_MODIFY_FUNC fp MultiplyValue (fp_mul fp) left right)"

definition Bigint_Divide :: "'d fp \<Rightarrow> 'd Value \<Rightarrow> 'd Value \<Rightarrow> 'd Value result" where
  "Bigint_Divide fp left right = int_operands left right (value_OperateNull fp left right)
     (nonzero fp right (BIGINT_MODIFY_FUNC fp DivideValue (fp_div fp) left right))"

definition Bigint_Modulo :: "'d fp \<Rightarrow> 'd Value \<Rightarrow> 'd Value \<Rightarrow> 'd Value result" where
  "Bigint_Modulo fp left right = int_operands left right (value_OperateNull fp left right)
     (nonzero fp right (case type_id_m right of
        TINYINT \<Rightarrow> ModuloValue 64 8 left right
      | SMALLINT \<Rightarrow> ModuloValue 64 16 left right
      | INTEGER \<Rightarrow> ModuloValue 64 32 left right
      | BIGINT \<Rightarrow> ModuloValue 64 64 left right
      | DECIMAL \<Rightarrow> Value_double fp DECIMAL (ValMod fp (fp_of_int fp (value_int left)) (value_dec fp right))
      | VARCHAR \<Rightarrow> and_then (value_CastAs fp right BIGINT) (\<lambda>r_value. ModuloValue 64 64 left r_value)
      | _ \<Rightarrow> type_error))"

definition Bigint_Sqrt :: "'d fp \<Rightarrow> 'd Value \<Rightarrow> 'd Value result" where
  "Bigint_Sqrt fp val = guard (CheckInteger val)
     (if IsNull val then Value_double fp DECIMAL (fp_lowest fp)
      else if value_int val < 0 then Inl (Thrown EXCEPTION_TYPE_DECIMAL)
      else Value_double fp DECIMAL (fp_sqrt fp (fp_of_int fp (value_int val))))"

section \<open>Decimals\<close>

definition DECIMAL_MODIFY_FUNC :: "'d fp \<Rightarrow> ('d \<Rightarrow> 'd \<Rightarrow> 'd) \<Rightarrow> 'd Value \<Rightarrow> 'd Value \<Rightarrow> 'd Value result" where
  "DECIMAL_MODIFY_FUNC fp op left right = (case type_id_m right of
     TINYINT \<Rightarrow> Value_double fp DECIMAL (op (value_dec fp left) (fp_of_int fp (value_int right)))
   | SMALLINT \<Rightarrow> Value_double fp DECIMAL (op (value_dec fp left) (fp_of_int fp (value_int right)))
   | INTEGER \<Rightarrow> Value_double fp DECIMAL (op (value_dec fp left) (fp_of_int fp (value_int right)))
   | BIGINT \<Rightarrow> Value_double fp DECIMAL (op (value_dec fp left) (fp_of_int fp (value_int right)))
   | DECIMAL \<Rightarrow> Value_double fp DECIMAL (op (value_dec fp left) (value_dec fp right))
   | VARCHAR \<Rightarrow> and_then (value_CastAs fp right DECIMAL) (\<lambda>r_value.
       Value_double fp DECIMAL (op (value_dec fp left) (value_dec fp r_value)))
   | _ \<Rightarrow> type_error)"

definition Decimal_Add :: "'d fp \<Rightarrow> 'd Value \<Rightarrow> 'd Value \<Rightarrow> 'd Value result" where
  "Decimal_Add fp left right = dec_operands left right (value_OperateNull fp left right)
     (DECIMAL_MODIFY_FUNC fp (fp_add fp) left right)"

definition Decimal_Subtract :: "'d fp \<Rightarrow> 'd Value \<Rightarrow> 'd Value \<Rightarrow> 'd Value result" where
  "Decimal_Subtract fp left right = dec_operands left right (value_OperateNull fp left right)
     (DECIMAL_MODIFY_FUNC fp (fp_sub fp) left right)"

definition Decimal_Multiply :: "'d fp \<Rightarrow> 'd Value \<Rightarrow> 'd Value \<Rightarrow> 'd Value result" where
  "Decimal_Multiply fp left right = dec_operands left right (value_OperateNull fp left right)
     (DECIMAL_MODIFY_FUNC fp (fp_mul fp) left right)"

definition Decimal_Divide :: "'d fp \<Rightarrow> 'd Value \<Rightarrow> 'd Value \<Rightarrow> 'd Value result" where
  "Decimal_Divide fp left right = dec_operands left right (value_OperateNull fp left right)
     (nonzero fp right (DECIMAL_MODIFY_FUNC fp (fp_div fp) left right))"

definition Decimal_Modulo :: "'d fp \<Rightarrow> 'd Value \<Rightarrow> 'd Value \<Rightarrow> 'd Value result" where
  "Decimal_Modulo fp left right = dec_operands left right (Decimal_OperateNull fp left right)
     (nonzero fp right (DECIMAL_MODIFY_FUNC fp (ValMod fp) left right))"

definition Decimal_Sqrt :: "'d fp \<Rightarrow> 'd Value \<Rightarrow> 'd Value result" where
  "Decimal_Sqrt fp val =
     (if IsNull val then Value_double fp DECIMAL (fp_lowest fp)
      else if fp_less fp (value_dec fp val) (fp_of_int fp 0) then Inl (Thrown EXCEPTION_TYPE_DECIMAL)
      else Value_double fp DECIMAL (fp_sqrt fp (value_dec fp val)))"

section \<open>Dispatch\<close>

definition value_Add :: "'d fp \<Rightarrow> 'd Value \<Rightarrow> 'd Value \<Rightarrow> 'd Value result" where
  "value_Add fp left right = (case type_id_m left of
     INVALID \<Rightarrow> not_implemented
   | BOOLEAN \<Rightarrow> not_implemented
   | TINYINT \<Rightarrow> Tinyint_Add fp left right
   | SMALLINT \<Rightarrow> Smallint_Add fp left right
   | INTEGER \<Rightarrow> Integer_Add fp left right
   | BIGINT \<Rightarrow> Bigint_Add fp left right
   | DECIMAL \<Rightarrow> Decimal_Add fp left right
   | VARCHAR \<Rightarrow> not_implemented
   | TIMESTAMP \<Rightarrow> Inl NullPointer)"

definition value_Subtract :: "'d fp \<Rightarrow> 'd Value \<Rightarrow> 'd Value \<Rightarrow> 'd Value result" where
  "value_Subtract fp left right = (case type_id_m left of
     INVALID \<Rightarrow> not_implemented
   | BOOLEAN \<Rightarrow> not_implemented
   | TINYINT \<Rightarrow> Tinyint_Subtract fp left right
   | SMALLINT \<Rightarrow> Smallint_Subtract fp left right
   | INTEGER \<Rightarrow> Integer_Subtract fp left right
   | BIGINT \<Rightarrow> Bigint_Subtract fp left right
   | DECIMAL \<Rightarrow> Decimal_Subtract fp left right
   | VARCHAR \<Rightarrow> not_implemented
   | TIMESTAMP \<Rightarrow> Inl NullPointer)"

definition value_Multiply :: "'d fp \<Rightarrow> 'd Value \<Rightarrow> 'd Value \<Rightarrow> 'd Value result" where
  "value_Multiply fp left right = (case type_id_m left of
     INVALID \<Rightarrow> not_implemented
   | BOOLEAN \<Rightarrow> not_implemented
   | TINYINT \<Rightarrow> Tinyint_Multiply fp left right
   | SMALLINT \<Rightarrow> Smallint_Multiply fp left right
   | INTEGER \<Rightarrow> Integer_Multiply fp left right
   | BIGINT \<Rightarrow> Bigint_Multiply fp left right
   | DECIMAL \<Rightarrow> Decimal_Multiply fp left right
   | VARCHAR \<Rightarrow> not_implemented
   | TIMESTAMP \<Rightarrow> Inl NullPointer)"

definition value_Divide :: "'d fp \<Rightarrow> 'd Value \<Rightarrow> 'd Value \<Rightarrow> 'd Value result" where
  "value_Divide fp left right = (case type_id_m left of
     INVALID \<Rightarrow> not_implemented
   | BOOLEAN \<Rightarrow> not_implemented
   | TINYINT \<Rightarrow> Tinyint_Divide fp left right
   | SMALLINT \<Rightarrow> Smallint_Divide fp left right
   | INTEGER \<Rightarrow> Integer_Divide fp left right
   | BIGINT \<Rightarrow> Bigint_Divide fp left right
   | DECIMAL \<Rightarrow> Decimal_Divide fp left right
   | VARCHAR \<Rightarrow> not_implemented
   | TIMESTAMP \<Rightarrow> Inl NullPointer)"

definition value_Modulo :: "'d fp \<Rightarrow> 'd Value \<Rightarrow> 'd Value \<Rightarrow> 'd Value result" where
  "value_Modulo fp left right = (case type_id_m left of
     INVALID \<Rightarrow> not_implemented
   | BOOLEAN \<Rightarrow> not_implemented
   | TINYINT \<Rightarrow> Tinyint_Modulo fp left right
   | SMALLINT \<Rightarrow> Smallint_Modulo fp left right
   | INTEGER \<Rightarrow> Integer_Modulo fp left right
   | BIGINT \<Rightarrow> Bigint_Modulo fp left right
   | DECIMAL \<Rightarrow> Decimal_Modulo fp left right
   | VARCHAR \<Rightarrow> not_implemented
   | TIMESTAMP \<Rightarrow> Inl NullPointer)"

definition value_Sqrt :: "'d fp \<Rightarrow> 'd Value \<Rightarrow> 'd Value result" where
  "value_Sqrt fp val = (case type_id_m val of
     INVALID \<Rightarrow> not_implemented
   | BOOLEAN \<Rightarrow> not_implemented
   | TINYINT \<Rightarrow> Tinyint_Sqrt fp val
   | SMALLINT \<Rightarrow> Smallint_Sqrt fp val
   | INTEGER \<Rightarrow> Integer_Sqrt fp val
   | BIGINT \<Rightarrow> Bigint_Sqrt fp val
   | DECIMAL \<Rightarrow> Decimal_Sqrt fp val
   | VARCHAR \<Rightarrow> not_implemented
   | TIMESTAMP \<Rightarrow> Inl NullPointer)"

end
