(* ===== verification/TypeStore.thy ===== *)
theory TypeStore imports TypeArith begin

text \<open>
  The storage form of the SQL types (\<open>SerializeTo\<close>, \<open>DeserializeFrom\<close>) and the static functions of
  \<open>type/type.cpp\<close>.  Storage is the list of bytes from the address on; integers are little endian, as
  on the machines the program runs on.
\<close>

section \<open>Integers in memory\<close>

fun le_bytes :: "nat \<Rightarrow> int \<Rightarrow> 8 word list" where
  "le_bytes 0 z = []"
| "le_bytes (Suc n) z = word_of_int z # le_bytes n (z div 256)"

fun le_value :: "8 word list \<Rightarrow> int" where
  "le_value [] = 0"
| "le_value (b # bs) = uint b + 256 * le_value bs"

text \<open>Writing bytes at the start of a storage area, and reading a number of some bytes there.\<close>

definition store_bytes :: "8 word list \<Rightarrow> 8 word list \<Rightarrow> 8 word list" where
  "store_bytes bs storage = bs @ drop (length bs) storage"

definition load_int :: "nat \<Rightarrow> 8 word list \<Rightarrow> int" where
  "load_int n storage = wrap_s (8 * n) (le_value (take n storage))"

definition load_uint :: "nat \<Rightarrow> 8 word list \<Rightarrow> int" where
  "load_uint n storage = le_value (take n storage)"

section \<open>SerializeTo and DeserializeFrom\<close>

definition Boolean_SerializeTo :: "'d Value \<Rightarrow> 8 word list \<Rightarrow> 8 word list" where
  "Boolean_SerializeTo val storage = store_bytes (le_bytes 1 (value_int val)) storage"

definition Boolean_DeserializeFrom :: "8 word list \<Rightarrow> 'd Value result" where
  "Boolean_DeserializeFrom storage = Value_int8 BOOLEAN (load_int 1 storage)"

definition Tinyint_SerializeTo :: "'d Value \<Rightarrow> 8 word list \<Rightarrow> 8 word list" where
  "Tinyint_SerializeTo val storage = store_bytes (le_bytes 1 (value_int val)) storage"

definition Tinyint_DeserializeFrom :: "8 word list \<Rightarrow> 'd Value result" where
  "Tinyint_DeserializeFrom storage = Value_int8 TINYINT (load_int 1 storage)"

definition Smallint_SerializeTo :: "'d Value \<Rightarrow> 8 word list \<Rightarrow> 8 word list" where
  "Smallint_SerializeTo val storage = store_bytes (le_bytes 2 (value_int val)) storage"

definition Smallint_DeserializeFrom :: "8 word list \<Rightarrow> 'd Value result" where
  "Smallint_DeserializeFrom storage = Value_int16 SMALLINT (load_int 2 storage)"

definition Integer_SerializeTo :: "'d Value \<Rightarrow> 8 word list \<Rightarrow> 8 word list" where
  "Integer_SerializeTo val storage = store_bytes (le_bytes 4 (value_int val)) storage"

definition Integer_DeserializeFrom :: "8 word list \<Rightarrow> 'd Value result" where
  "Integer_DeserializeFrom storage = Value_int32 INTEGER (load_int 4 storage)"

definition Bigint_SerializeTo :: "'d Value \<Rightarrow> 8 word list \<Rightarrow> 8 word list" where
  "Bigint_SerializeTo val storage = store_bytes (le_bytes 8 (value_int val)) storage"

definition Bigint_DeserializeFrom :: "8 word list \<Rightarrow> 'd Value result" where
  "Bigint_DeserializeFrom storage = Value_int64 BIGINT (load_int 8 storage)"

definition Decimal_SerializeTo :: "'d fp \<Rightarrow> 'd Value \<Rightarrow> 8 word list \<Rightarrow> 8 word list" where
  "Decimal_SerializeTo fp val storage = store_bytes (fp_bytes fp (value_dec fp val)) storage"

definition Decimal_DeserializeFrom :: "'d fp \<Rightarrow> 8 word list \<Rightarrow> 'd Value result" where
  "Decimal_DeserializeFrom fp storage = Value_double fp DECIMAL (fp_of_bytes fp (take 8 storage))"

definition Varlen_SerializeTo :: "'d Value \<Rightarrow> 8 word list \<Rightarrow> 8 word list" where
  "Varlen_SerializeTo val storage =
     (let n = Varlen_GetLength val in
      if n = PELOTON_VALUE_NULL then store_bytes (le_bytes 4 n) storage
      else store_bytes (le_bytes 4 n @ take (nat n) (value_bytes val)) storage)"

definition Varlen_DeserializeFrom :: "8 word list \<Rightarrow> 'd Value result" where
  "Varlen_DeserializeFrom storage =
     (let n = load_uint 4 storage in
      if n = PELOTON_VALUE_NULL then Value_varlen VARCHAR None n False
      else Value_varlen VARCHAR (Some (drop 4 storage)) n True)"

definition value_SerializeTo :: "'d fp \<Rightarrow> 'd Value \<Rightarrow> 8 word list \<Rightarrow> 8 word list result" where
  "value_SerializeTo fp val storage = (case type_id_m val of
     INVALID \<Rightarrow> not_implemented
   | BOOLEAN \<Rightarrow> Inr (Boolean_SerializeTo val storage)
   | TINYINT \<Rightarrow> Inr (Tinyint_SerializeTo val storage)
   | SMALLINT \<Rightarrow> Inr (Smallint_SerializeTo val storage)
   | INTEGER \<Rightarrow> Inr (Integer_SerializeTo val storage)
   | BIGINT \<Rightarrow> Inr (Bigint_SerializeTo val storage)
   | DECIMAL \<Rightarrow> Inr (Decimal_SerializeTo fp val storage)
   | VARCHAR \<Rightarrow> Inr (Varlen_SerializeTo val storage)
   | TIMESTAMP \<Rightarrow> Inl NullPointer)"

definition value_DeserializeFrom :: "'d fp \<Rightarrow> 8 word list \<Rightarrow> TypeId \<Rightarrow> 'd Value result" where
  "value_DeserializeFrom fp storage t = (case t of
     INVALID \<Rightarrow> not_implemented
   | BOOLEAN \<Rightarrow> Boolean_DeserializeFrom storage
   | TINYINT \<Rightarrow> Tinyint_DeserializeFrom storage
   | SMALLINT \<Rightarrow> Smallint_DeserializeFrom storage
   | INTEGER \<Rightarrow> Integer_DeserializeFrom storage
   | BIGINT \<Rightarrow> Bigint_DeserializeFrom storage
   | DECIMAL \<Rightarrow> Decimal_DeserializeFrom fp storage
   | VARCHAR \<Rightarrow> Varlen_DeserializeFrom storage
   | TIMESTAMP \<Rightarrow> Inl NullPointer)"

section \<open>Static functions\<close>

definition GetTypeSize :: "TypeId \<Rightarrow> nat result" where
  "GetTypeSize t = (case t of
     BOOLEAN \<Rightarrow> Inr 1
   | TINYINT \<Rightarrow> Inr 1
   | SMALLINT \<Rightarrow> Inr 2
   | INTEGER \<Rightarrow> Inr 4
   | BIGINT \<Rightarrow> Inr 8
   | DECIMAL \<Rightarrow> Inr 8
   | TIMESTAMP \<Rightarrow> Inr 8
   | VARCHAR \<Rightarrow> Inr 0
   | INVALID \<Rightarrow> Inl (Thrown EXCEPTION_TYPE_UNKNOWN_TYPE))"

text \<open>The first argument is the type of the instance.\<close>

definition IsCoercableFrom :: "TypeId \<Rightarrow> TypeId \<Rightarrow> bool" where
  "IsCoercableFrom self t = (case self of
     INVALID \<Rightarrow> False
   | BOOLEAN \<Rightarrow> True
   | TIMESTAMP \<Rightarrow> t = VARCHAR \<or> t = TIMESTAMP
   | VARCHAR \<Rightarrow> t \<in> {BOOLEAN, TINYINT, SMALLINT, INTEGER, BIGINT, DECIMAL, TIMESTAMP, VARCHAR}
   | _ \<Rightarrow> t \<in> {TINYINT, SMALLINT, INTEGER, BIGINT, DECIMAL, VARCHAR})"

definition TypeIdToString :: "TypeId \<Rightarrow> string" where
  "TypeIdToString t = (case t of
     INVALID \<Rightarrow> ''INVALID''
   | BOOLEAN \<Rightarrow> ''BOOLEAN''
   | TINYINT \<Rightarrow> ''TINYINT''
   | SMALLINT \<Rightarrow> ''SMALLINT''
   | INTEGER \<Rightarrow> ''INTEGER''
   | BIGINT \<Rightarrow> ''BIGINT''
   | DECIMAL \<Rightarrow> ''DECIMAL''
   | TIMESTAMP \<Rightarrow> ''TIMESTAMP''
   | VARCHAR \<Rightarrow> ''VARCHAR'')"

text \<open>The constructor from an unsigned number sets a single byte of a BIGINT, so that the other seven
  keep what the memory of the union held, here \<open>old\<close>.\<close>

definition Value_uint64 :: "int \<Rightarrow> TypeId \<Rightarrow> int \<Rightarrow> 'd Value result" where
  "Value_uint64 old t i = (case t of
     BIGINT \<Rightarrow> Inr (mk_int t (wrap_s 64 (old - old mod 256 + i mod 256)) (wrap_s 8 i = int_null 8))
   | TIMESTAMP \<Rightarrow> let x = i mod 2 ^ 64 in Inr (mk_int t x (x = PELOTON_TIMESTAMP_NULL))
   | _ \<Rightarrow> Inl (Thrown EXCEPTION_TYPE_INCOMPATIBLE_TYPE))"

definition GetMinValue :: "'d fp \<Rightarrow> TypeId \<Rightarrow> 'd Value result" where
  "GetMinValue fp t = (case t of
     BOOLEAN \<Rightarrow> Value_int32 t 0
   | TINYINT \<Rightarrow> Value_int8 t (int_min 8)
   | SMALLINT \<Rightarrow> Value_int16 t (int_min 16)
   | INTEGER \<Rightarrow> Value_int32 t (int_min 32)
   | BIGINT \<Rightarrow> Value_int64 t (int_min 64)
   | DECIMAL \<Rightarrow> Value_double fp t (fp_flt_lowest fp)
   | TIMESTAMP \<Rightarrow> Value_int32 t 0
   | VARCHAR \<Rightarrow> Value_string t []
   | INVALID \<Rightarrow> Inl (Thrown EXCEPTION_TYPE_MISMATCH_TYPE))"

definition GetMaxValue :: "'d fp \<Rightarrow> TypeId \<Rightarrow> 'd Value result" where
  "GetMaxValue fp t = (case t of
     BOOLEAN \<Rightarrow> Value_int32 t 1
   | TINYINT \<Rightarrow> Value_int8 t (int_max 8)
   | SMALLINT \<Rightarrow> Value_int16 t (int_max 16)
   | INTEGER \<Rightarrow> Value_int32 t (int_max 32)
   | BIGINT \<Rightarrow> Value_int64 t (int_max 64)
   | DECIMAL \<Rightarrow> Value_double fp t (fp_max fp)
   | TIMESTAMP \<Rightarrow> Value_uint64 0 t PELOTON_TIMESTAMP_MAX
   | VARCHAR \<Rightarrow> Value_varlen t None 0 False
   | INVALID \<Rightarrow> Inl (Thrown EXCEPTION_TYPE_MISMATCH_TYPE))"

end
