(* ===== verification/TypeProps.thy ===== *)
theory TypeProps imports TypeStore begin

text \<open>
  What makes the SQL types correct: the conversions lose nothing silently, the storage form reads
  back, the comparisons are the orders of the numbers and of the byte strings, and the arithmetic is
  exact or reports an error.
\<close>

section \<open>Numbers survive their text form\<close>

lemma of_digit_char: "n < 10 \<Longrightarrow> of_char (digit_char n) = 48 + n"
  by (simp add: digit_char_def)

lemma digits_value_append: "digits_value (xs @ [c]) = 10 * digits_value xs + (int (of_char c) - 48)"
  by (simp add: digits_value_def)

lemma nat_digits_digits: "c \<in> set (nat_digits n) \<Longrightarrow> is_digit c"
proof (induction n rule: nat_digits.induct)
  case (1 n)
  then show ?case
    by (subst (asm) nat_digits.simps) (auto simp: is_digit_def of_digit_char split: if_splits)
qed

lemma nat_digits_not_Nil: "nat_digits n \<noteq> []"
  by (subst nat_digits.simps) simp

lemma digits_value_nat_digits: "digits_value (nat_digits n) = int n"
proof (induction n rule: nat_digits.induct)
  case (1 n)
  show ?case
  proof (cases "n < 10")
    case True
    then show ?thesis by (subst nat_digits.simps) (simp add: digits_value_def of_digit_char)
  next
    case False
    have "10 * int (n div 10) + int (n mod 10) = int n" using mult_div_mod_eq [of 10 n] by linarith
    then show ?thesis using 1 False by (subst nat_digits.simps) (simp add: digits_value_append of_digit_char)
  qed
qed

lemma length_nat_digits: "n < 10 ^ Suc k \<Longrightarrow> length (nat_digits n) \<le> Suc k"
proof (induction k arbitrary: n)
  case (Suc k)
  have "n div 10 < 10 ^ Suc k" using Suc.prems by simp
  from Suc.IH [OF this] show ?case by (subst nat_digits.simps) simp
qed (simp add: nat_digits.simps)

lemma length_int_to_string: "in_range_s 64 x \<Longrightarrow> length (int_to_string x) \<le> 20"
proof -
  assume "in_range_s 64 x"
  then have "nat x < 10 ^ Suc 18" "nat (- x) < 10 ^ Suc 18" by auto
  from this [THEN length_nat_digits] show ?thesis by (simp add: int_to_string_def)
qed

lemma takeWhile_nat_digits: "takeWhile is_digit (nat_digits n) = nat_digits n"
  using nat_digits_digits by (simp add: takeWhile_eq_all_conv)

lemma digit_not_special: "is_digit c \<Longrightarrow> \<not> is_space c \<and> c \<noteq> CHR ''-'' \<and> c \<noteq> CHR ''+''"
  by (auto simp: is_digit_def is_space_def)

lemma read_digits_nat_digits:
  "in_range_s w (if neg then - int n else int n) \<Longrightarrow>
   read_digits w neg (nat_digits n) = Inr (if neg then - int n else int n)"
  by (auto simp: read_digits_def takeWhile_nat_digits digits_value_nat_digits nat_digits_not_Nil)

lemma stoi_int_to_string: "in_range_s w z \<Longrightarrow> stoi w (int_to_string z) = Inr z"
proof -
  assume r: "in_range_s w z"
  show ?thesis
  proof (cases "z < 0")
    case True
    then show ?thesis using r read_digits_nat_digits [of w True "nat (- z)"]
      by (simp add: stoi_def int_to_string_def is_space_def)
  next
    case False
    obtain c cs where c: "nat_digits (nat z) = c # cs" using nat_digits_not_Nil by (metis neq_Nil_conv)
    then have "\<not> is_space c \<and> c \<noteq> CHR ''-'' \<and> c \<noteq> CHR ''+''"
      using nat_digits_digits [of c "nat z"] by (intro digit_not_special) simp
    then show ?thesis using False r c read_digits_nat_digits [of w False "nat z"]
      by (simp add: stoi_def int_to_string_def)
  qed
qed

lemma byte_char_char_byte: "byte_char (char_byte c) = c"
  by (simp add: byte_char_def char_byte_def unat_of_nat)

lemma map_byte_char [simp]: "map (byte_char \<circ> char_byte) s = s"
  by (simp add: byte_char_char_byte comp_def)

lemma Value_string_text:
  assumes "int (length s) + 1 < 2 ^ 32 - 1"
  shows "Value_string VARCHAR s = Inr v \<Longrightarrow> Varlen_ToString v = Inr s"
proof -
  assume "Value_string VARCHAR s = Inr v"
  then have v: "v = \<lparr>type_id_m = VARCHAR, len_m = int (length s) + 1, manage_data_m = True,
      val_m = StrVal (Some (map char_byte s @ [0]))\<rparr>"
    by (simp add: Value_string_def Let_def)
  then have "value_bytes v = map char_byte s @ [0]" "len_m v = int (length s) + 1" by (simp_all add: value_bytes_def)
  then show ?thesis using assms
    by (simp add: Varlen_ToString_def IsNull_def PELOTON_VALUE_NULL_def PELOTON_VARCHAR_MAX_LEN_def)
qed

section \<open>Integer values\<close>

text \<open>The value of an integer type that holds a number, and the values that are well formed.\<close>

definition int_value :: "TypeId \<Rightarrow> nat \<Rightarrow> 'd Value \<Rightarrow> bool" where
  "int_value t w v \<longleftrightarrow> type_width t w \<and> (\<exists>x. in_range_s w x \<and> v = mk_int t x (x = int_null w))"

lemma type_width_cases [consumes 1, case_names tiny small integer big]:
  assumes "type_width t w"
  obtains "t = TINYINT" "w = 8" | "t = SMALLINT" "w = 16" | "t = INTEGER" "w = 32" | "t = BIGINT" "w = 64"
  using assms by (auto simp: type_width_def)

lemma value_int_mk [simp]: "value_int (mk_int t x b) = x"
  by (simp add: value_int_def mk_int_def)

lemma type_id_mk [simp]: "type_id_m (mk_int t x b) = t"
  by (simp add: mk_int_def)

lemma IsNull_mk [simp]: "IsNull (mk_int t x b) \<longleftrightarrow> b"
  by (simp add: IsNull_def mk_int_def null_len_def PELOTON_VALUE_NULL_def)

lemma int_value_mk: "int_value t w v \<Longrightarrow> v = mk_int t (value_int v) (value_int v = int_null w)"
  by (auto simp: int_value_def)

lemma int_value_range: "int_value t w v \<Longrightarrow> in_range_s w (value_int v)"
  by (auto simp: int_value_def)

lemma int_value_type: "int_value t w v \<Longrightarrow> type_id_m v = t"
  by (auto simp: int_value_def)

lemma int_value_IsNull: "int_value t w v \<Longrightarrow> IsNull v \<longleftrightarrow> value_int v = int_null w"
  by (auto simp: int_value_def)

lemma int_value_non_null: "int_value t w v \<Longrightarrow> \<not> IsNull v \<longleftrightarrow> non_null w (value_int v)"
  using int_value_range [of t w v] by (auto simp: int_value_IsNull int_null_def non_null_abs in_range_s_def)

lemma int_value_CheckInteger: "int_value t w v \<Longrightarrow> CheckInteger v"
  by (auto simp: CheckInteger_def int_value_def type_width_def)

lemma int_value_CheckComparable:
  "int_value t w v \<Longrightarrow> int_value t' w' v' \<Longrightarrow> CheckComparable v v'"
  by (auto simp: CheckComparable_def int_value_def type_width_def)

lemma wide_value_int_value:
  assumes "int_value t1 w1 left" and "int_value t2 w2 right" and "in_range_s (max w1 w2) z"
  shows "int_value (if w1 \<ge> w2 then t1 else t2) (max w1 w2) (wide_value w1 w2 left right z)"
  using assms int_value_type [OF assms(1)] int_value_type [OF assms(2)]
  by (auto simp: int_value_def wide_value_def max_def)

lemma int_value_arith_ok:
  assumes "int_value t1 w1 left" and "int_value t2 w2 right" and "\<not> IsNull left" and "\<not> IsNull right"
  shows "arith_ok w1 w2 left right"
  using assms int_value_non_null [OF assms(1)] int_value_non_null [OF assms(2)] int_value_type [OF assms(1)]
    int_value_type [OF assms(2)] by (auto simp: arith_ok_def int_value_def)

lemma int_operands_simps:
  assumes "int_value t1 w1 left" and "int_value t2 w2 right"
  shows "int_operands left right n r = (if IsNull left \<or> IsNull right then n else r)"
  using assms by (simp add: int_operands_def int_value_CheckInteger int_value_CheckComparable)

section \<open>Arithmetic\<close>

lemma int_arith:
  assumes l: "int_value t1 w1 left" and r: "int_value t2 w2 right"
    and nn: "\<not> IsNull left" "\<not> IsNull right"
  shows "value_Add fp left right = AddValue w1 w2 left right"
    and "value_Subtract fp left right = SubtractValue w1 w2 left right"
    and "value_Multiply fp left right = MultiplyValue w1 w2 left right"
    and "value_Divide fp left right = (if value_int right = 0 then divide_by_zero else DivideValue w1 w2 left right)"
    and "value_Modulo fp left right = (if value_int right = 0 then divide_by_zero else ModuloValue w1 w2 left right)"
proof -
  have "type_width t1 w1" "type_width t2 w2" using l r by (simp_all add: int_value_def)
  note t = this int_value_type [OF l] int_value_type [OF r] and ops = int_operands_simps [OF l r] nn if_False disj_not1 simp_thms
  show "value_Add fp left right = AddValue w1 w2 left right"
    using t(1,2)
    by (elim type_width_cases)
      (simp_all only: t(3,4) TypeId.case value_Add_def Tinyint_Add_def Smallint_Add_def Integer_Add_def Bigint_Add_def ops
        TINYINT_MODIFY_FUNC_def SMALLINT_MODIFY_FUNC_def INT_MODIFY_FUNC_def BIGINT_MODIFY_FUNC_def)
  show "value_Subtract fp left right = SubtractValue w1 w2 left right"
    using t(1,2)
    by (elim type_width_cases)
      (simp_all only: t(3,4) TypeId.case value_Subtract_def Tinyint_Subtract_def Smallint_Subtract_def Integer_Subtract_def Bigint_Subtract_def ops
        TINYINT_MODIFY_FUNC_def SMALLINT_MODIFY_FUNC_def INT_MODIFY_FUNC_def BIGINT_MODIFY_FUNC_def)
  show "value_Multiply fp left right = MultiplyValue w1 w2 left right"
    using t(1,2)
    by (elim type_width_cases)
      (simp_all only: t(3,4) TypeId.case value_Multiply_def Tinyint_Multiply_def Smallint_Multiply_def Integer_Multiply_def Bigint_Multiply_def ops
        TINYINT_MODIFY_FUNC_def SMALLINT_MODIFY_FUNC_def INT_MODIFY_FUNC_def BIGINT_MODIFY_FUNC_def)
  have z: "nonzero fp right k = (if value_int right = 0 then divide_by_zero else k)" for k :: "'d result" using t(2)
    by (elim type_width_cases) (simp_all add: nonzero_def value_IsZero_def t(4)
      Tinyint_IsZero_def Smallint_IsZero_def Integer_IsZero_def Bigint_IsZero_def)
  show "value_Divide fp left right = (if value_int right = 0 then divide_by_zero else DivideValue w1 w2 left right)"
    using t(1,2)
    by (elim type_width_cases)
      (simp_all only: t(3,4) TypeId.case value_Divide_def Tinyint_Divide_def Smallint_Divide_def Integer_Divide_def Bigint_Divide_def ops
        TINYINT_MODIFY_FUNC_def SMALLINT_MODIFY_FUNC_def INT_MODIFY_FUNC_def BIGINT_MODIFY_FUNC_def z)
  show "value_Modulo fp left right = (if value_int right = 0 then divide_by_zero else ModuloValue w1 w2 left right)"
    using t(1,2)
    by (elim type_width_cases)
      (simp_all only: t(3,4) TypeId.case value_Modulo_def Tinyint_Modulo_def Smallint_Modulo_def Integer_Modulo_def Bigint_Modulo_def ops z)
qed

section \<open>Comparisons\<close>

text \<open>The six comparisons as one function of the operator.\<close>

definition value_Compare :: "'d fp \<Rightarrow> cmp_op \<Rightarrow> 'd Value \<Rightarrow> 'd Value \<Rightarrow> CmpBool result" where
  "value_Compare fp op left right = (case op of
     OpEQ \<Rightarrow> value_CompareEquals fp left right
   | OpNE \<Rightarrow> value_CompareNotEquals fp left right
   | OpLT \<Rightarrow> value_CompareLessThan fp left right
   | OpLE \<Rightarrow> value_CompareLessThanEquals fp left right
   | OpGT \<Rightarrow> value_CompareGreaterThan fp left right
   | OpGE \<Rightarrow> value_CompareGreaterThanEquals fp left right)"

lemma int_compare:
  assumes l: "int_value t1 w1 left" and r: "int_value t2 w2 right"
  shows "value_Compare fp op left right = Inr (if IsNull left \<or> IsNull right then CMP_NULL
     else GetCmpBool (cmp_int op (value_int left) (value_int right)))"
proof -
  have "type_width t1 w1" "type_width t2 w2" using l r by (simp_all add: int_value_def)
  note t = this int_value_type [OF l] int_value_type [OF r] and ops = int_operands_simps [OF l r]
  have m: "TINYINT_COMPARE_FUNC fp op left right = Inr (GetCmpBool (cmp_int op (value_int left) (value_int right)))"
    "SMALLINT_COMPARE_FUNC fp op left right = Inr (GetCmpBool (cmp_int op (value_int left) (value_int right)))"
    "INT_COMPARE_FUNC fp op left right = Inr (GetCmpBool (cmp_int op (value_int left) (value_int right)))"
    "BIGINT_COMPARE_FUNC fp op left right = Inr (GetCmpBool (cmp_int op (value_int left) (value_int right)))" for op
    using t(2) by (elim type_width_cases; simp add: t(4) TINYINT_COMPARE_FUNC_def SMALLINT_COMPARE_FUNC_def
      INT_COMPARE_FUNC_def BIGINT_COMPARE_FUNC_def)+
  have "value_CompareEquals fp left right = Inr (if IsNull left \<or> IsNull right then CMP_NULL
     else GetCmpBool (cmp_int OpEQ (value_int left) (value_int right)))"
    using t(1) by (elim type_width_cases) (simp_all add: t(3) value_CompareEquals_def Tinyint_CompareEquals_def
      Smallint_CompareEquals_def Integer_CompareEquals_def Bigint_CompareEquals_def ops m)
  moreover
  have "value_CompareNotEquals fp left right = Inr (if IsNull left \<or> IsNull right then CMP_NULL
     else GetCmpBool (cmp_int OpNE (value_int left) (value_int right)))"
    using t(1) by (elim type_width_cases) (simp_all add: t(3) value_CompareNotEquals_def Tinyint_CompareNotEquals_def
      Smallint_CompareNotEquals_def Integer_CompareNotEquals_def Bigint_CompareNotEquals_def ops m)
  moreover
  have "value_CompareLessThan fp left right = Inr (if IsNull left \<or> IsNull right then CMP_NULL
     else GetCmpBool (cmp_int OpLT (value_int left) (value_int right)))"
    using t(1) by (elim type_width_cases) (simp_all add: t(3) value_CompareLessThan_def Tinyint_CompareLessThan_def
      Smallint_CompareLessThan_def Integer_CompareLessThan_def Bigint_CompareLessThan_def ops m)
  moreover
  have "value_CompareLessThanEquals fp left right = Inr (if IsNull left \<or> IsNull right then CMP_NULL
     else GetCmpBool (cmp_int OpLE (value_int left) (value_int right)))"
    using t(1) by (elim type_width_cases) (simp_all add: t(3) value_CompareLessThanEquals_def Tinyint_CompareLessThanEquals_def
      Smallint_CompareLessThanEquals_def Integer_CompareLessThanEquals_def Bigint_CompareLessThanEquals_def ops m)
  moreover
  have "value_CompareGreaterThan fp left right = Inr (if IsNull left \<or> IsNull right then CMP_NULL
     else GetCmpBool (cmp_int OpGT (value_int left) (value_int right)))"
    using t(1) by (elim type_width_cases) (simp_all add: t(3) value_CompareGreaterThan_def Tinyint_CompareGreaterThan_def
      Smallint_CompareGreaterThan_def Integer_CompareGreaterThan_def Bigint_CompareGreaterThan_def ops m)
  moreover
  have "value_CompareGreaterThanEquals fp left right = Inr (if IsNull left \<or> IsNull right then CMP_NULL
     else GetCmpBool (cmp_int OpGE (value_int left) (value_int right)))"
    using t(1) by (elim type_width_cases) (simp_all add: t(3) value_CompareGreaterThanEquals_def Tinyint_CompareGreaterThanEquals_def
      Smallint_CompareGreaterThanEquals_def Integer_CompareGreaterThanEquals_def Bigint_CompareGreaterThanEquals_def ops m)
  ultimately show ?thesis by (cases op) (simp_all add: value_Compare_def)
qed

section \<open>Casts between integer types\<close>

lemma Value_int_width:
  "Value_int8 TINYINT z = Inr (mk_int TINYINT (wrap_s 8 z) (wrap_s 8 z = int_null 8))"
  "Value_int16 SMALLINT z = Inr (mk_int SMALLINT (wrap_s 16 z) (wrap_s 16 z = int_null 16))"
  "Value_int32 INTEGER z = Inr (mk_int INTEGER (wrap_s 32 z) (wrap_s 32 z = int_null 32))"
  "Value_int64 BIGINT z = Inr (mk_int BIGINT (wrap_s 64 z) (wrap_s 64 z = int_null 64))"
  by (simp_all add: Value_int8_def Value_int16_def Value_int32_def Value_int64_def Value_integral_def Let_def)

lemma wrap_s_null [simp]: "0 < w \<Longrightarrow> wrap_s w (int_null w) = int_null w"
  by (rule wrap_s_id) (simp_all add: in_range_s_def int_null_def)

lemma range_check_fits:
  "range_check w x r = (if non_null w x then r else out_of_range)"
  by (auto simp: range_check_def non_null_def)

lemma int_cast:
  assumes v: "int_value t w v" and t': "type_width t' w'"
  shows "value_CastAs fp v t' =
    (if IsNull v then Inr (mk_int t' (int_null w') True)
     else if non_null w' (value_int v) then Inr (mk_int t' (value_int v) False) else out_of_range)"
proof -
  obtain x where x: "type_width t w" "in_range_s w x" "v = mk_int t x (x = int_null w)"
    using v by (auto simp: int_value_def)
  have n: "x \<noteq> int_null w \<longleftrightarrow> non_null w x" using int_value_non_null [OF v] x by simp
  have up: "non_null w' x" if "x \<noteq> int_null w" "w \<le> w'" using that n non_null_mono by blast
  have self: "x \<noteq> int_null w' \<and> wrap_s w' x = x" if "non_null w' x"
    using that type_width_pos [OF t'] wrap_s_id [OF _ non_null_range [OF that]]
    by (auto simp: non_null_abs int_null_def)
  show ?thesis
    using x(1) t' n up self
    by (elim type_width_cases; cases "x = int_null w"; cases "non_null w' x")
      (simp_all add: x(3) value_CastAs_def Tinyint_CastAs_def Smallint_CastAs_def Integer_CastAs_def Bigint_CastAs_def
        Tinyint_Copy_def Smallint_Copy_def Bigint_Copy_def CheckInteger_def range_check_fits Value_int_width)
qed

lemma text_roundtrip:
  assumes v: "int_value t w v" and nn: "\<not> IsNull v"
  shows "\<exists>s. value_CastAs fp v VARCHAR = Inr s \<and> value_CastAs fp s t = Inr v"
proof -
  obtain x where x: "type_width t w" "in_range_s w x" "v = mk_int t x (x = int_null w)"
    using v by (auto simp: int_value_def)
  let ?s = "int_to_string x"
  obtain s :: "'a Value" where s: "Value_string VARCHAR ?s = Inr s" "type_id_m s = VARCHAR"
    by (auto simp: Value_string_def Let_def)
  have "in_range_s 64 x" using x(1) by (intro in_range_mono [OF x(2)]) (auto simp: type_width_def)
  then have len: "int (length ?s) + 1 < 2 ^ 32 - 1" using length_int_to_string by fastforce
  have 1: "value_CastAs fp v VARCHAR = Inr s"
    using x(1) nn s(1)
    by (elim type_width_cases)
      (simp_all add: x(3) value_CastAs_def Tinyint_CastAs_def Smallint_CastAs_def Integer_CastAs_def Bigint_CastAs_def
        as_varchar_def value_ToString_def Tinyint_ToString_def Smallint_ToString_def Integer_ToString_def
        Bigint_ToString_def CheckInteger_def)
  have str: "value_ToString fp s = Inr ?s"
    using Value_string_text [OF len s(1)] s(2) by (simp add: value_ToString_def)
  have "non_null w x" using nn int_value_non_null [OF v] x(3) by simp
  then have nn': "\<not> x < int_min w" "\<not> x > int_max w" "x \<noteq> int_null w"
    by (auto simp: non_null_def int_null_def int_min_def)
  have wr: "wrap_s w x = x" using x type_width_pos wrap_s_id by blast
  have st: "stoi 32 ?s = Inr x" if "w \<le> 32" using stoi_int_to_string in_range_mono [OF x(2) that] by blast
  have st64: "stoi 64 ?s = Inr x" if "w = 64" using stoi_int_to_string x(2) that by blast
  have "value_CastAs fp s t = Inr v"
    using x(1) st st64 nn' wr
    by (elim type_width_cases)
      (simp_all add: s(2) x(3) value_CastAs_def Varlen_CastAs_def str catch_range_def Let_def
        range_check_def Value_int_width)
  with 1 show ?thesis by blast
qed

section \<open>Storage\<close>

lemma length_le_bytes [simp]: "length (le_bytes n z) = n"
  by (induction n arbitrary: z) auto

lemma le_value_le_bytes: "le_value (le_bytes n z) = z mod 256 ^ n"
proof (induction n arbitrary: z)
  case (Suc n)
  have "uint (word_of_int z :: 8 word) = z mod 256" by (simp add: uint_word_of_int)
  then show ?case using Suc by (simp add: zmod_zmult2_eq)
qed simp

lemma take_store_bytes [simp]: "take (length bs) (store_bytes bs st) = bs"
  by (simp add: store_bytes_def)

lemma drop_store_bytes [simp]: "length bs \<le> n \<Longrightarrow> drop n (store_bytes bs st) = drop n st"
  by (simp add: store_bytes_def)

lemma pow_256: "(256::int) ^ n = 2 ^ (8 * n)"
  by (simp add: power_mult)

lemma load_int_store:
  "0 < n \<Longrightarrow> in_range_s (8 * n) z \<Longrightarrow> load_int n (store_bytes (le_bytes n z) st) = z"
proof -
  assume n: "0 < n" and z: "in_range_s (8 * n) z"
  have "take n (store_bytes (le_bytes n z) st) = le_bytes n z"
    using take_store_bytes [of "le_bytes n z"] by simp
  then have "load_int n (store_bytes (le_bytes n z) st) = wrap_s (8 * n) (z mod 2 ^ (8 * n))"
    by (simp add: load_int_def le_value_le_bytes pow_256)
  also have "\<dots> = wrap_s (8 * n) z" unfolding wrap_s_def by (simp add: mod_simps)
  finally show ?thesis using n z by (simp add: wrap_s_id)
qed

definition storable :: "'d fp \<Rightarrow> 'd Value \<Rightarrow> bool" where
  "storable fp v \<longleftrightarrow> (\<exists>t w. int_value t w v)
     \<or> (\<exists>x. in_range_s 8 x \<and> v = mk_int BOOLEAN x (x = int_null 8))
     \<or> (\<exists>d. Value_double fp DECIMAL d = Inr v)
     \<or> (\<exists>bs. int (length bs) < PELOTON_VALUE_NULL \<and> Value_varlen VARCHAR (Some bs) (int (length bs)) True = Inr v)
     \<or> Value_varlen VARCHAR None 0 False = Inr v"

text \<open>How many bytes of storage a value takes.\<close>

definition stored_size :: "'d Value \<Rightarrow> nat" where
  "stored_size v = (if type_id_m v = VARCHAR then (if IsNull v then 4 else 4 + nat (len_m v))
     else case GetTypeSize (type_id_m v) of Inr n \<Rightarrow> n | Inl _ \<Rightarrow> 0)"

definition fp_bytes_ok :: "'d fp \<Rightarrow> bool" where
  "fp_bytes_ok fp \<longleftrightarrow> (\<forall>d. length (fp_bytes fp d) = 8 \<and> fp_of_bytes fp (fp_bytes fp d) = d)"

lemma storage_int:
  assumes "int_value t w v"
  shows "\<exists>s. value_SerializeTo fp v storage = Inr s \<and> value_DeserializeFrom fp s t = Inr v
    \<and> drop (stored_size v) s = drop (stored_size v) storage"
proof -
  obtain x where x: "type_width t w" "in_range_s w x" "v = mk_int t x (x = int_null w)"
    using assms by (auto simp: int_value_def)
  have ld: "load_int n (store_bytes (le_bytes n x) storage) = x" if "w = 8 * n" "0 < n" for n
    using load_int_store [of n x storage] that x(2) by simp
  have "wrap_s w x = x" using x type_width_pos wrap_s_id by blast
  with x(1) show ?thesis using ld [of 1] ld [of 2] ld [of 4] ld [of 8]
    by (elim type_width_cases)
      (simp_all add: x(3) value_SerializeTo_def value_DeserializeFrom_def Value_int_width stored_size_def GetTypeSize_def
        Tinyint_SerializeTo_def Tinyint_DeserializeFrom_def Smallint_SerializeTo_def Smallint_DeserializeFrom_def
        Integer_SerializeTo_def Integer_DeserializeFrom_def Bigint_SerializeTo_def Bigint_DeserializeFrom_def
        drop_store_bytes del: le_bytes.simps One_nat_def)
qed

lemma storage_varchar:
  assumes "int (length bs) < PELOTON_VALUE_NULL"
    and v: "v = \<lparr>type_id_m = VARCHAR, len_m = int (length bs), manage_data_m = True, val_m = StrVal (Some bs)\<rparr>"
  shows "\<exists>s. value_SerializeTo fp v storage = Inr s \<and> value_DeserializeFrom fp s VARCHAR = Inr v
    \<and> drop (stored_size v) s = drop (stored_size v) storage"
proof -
  let ?n = "int (length bs)"
  let ?b = "le_bytes 4 ?n @ bs"
  let ?s = "store_bytes ?b storage"
  have n: "?n \<noteq> PELOTON_VALUE_NULL" "?n < 2 ^ 32" using assms(1) by (auto simp: PELOTON_VALUE_NULL_def)
  have ser: "value_SerializeTo fp v storage = Inr ?s"
    using n by (simp add: v value_SerializeTo_def Varlen_SerializeTo_def Varlen_GetLength_def value_bytes_def Let_def)
  have "le_value (le_bytes 4 ?n) = ?n" using n(2) by (simp only: le_value_le_bytes pow_256) simp
  then have ld: "load_uint 4 ?s = ?n" by (simp add: load_uint_def store_bytes_def)
  have "take (length bs) (drop 4 ?s) = bs" by (simp add: store_bytes_def)
  then have "value_DeserializeFrom fp ?s VARCHAR = Inr v"
    using n assms(1) by (simp add: value_DeserializeFrom_def Varlen_DeserializeFrom_def ld Let_def Value_varlen_def v
      PELOTON_VARCHAR_MAX_LEN_def PELOTON_VALUE_NULL_def)
  moreover have "stored_size v = length ?b" using n by (simp add: stored_size_def v IsNull_def)
  ultimately show ?thesis using ser by simp
qed

lemma storage_null_varchar:
  assumes v: "v = \<lparr>type_id_m = VARCHAR, len_m = PELOTON_VALUE_NULL, manage_data_m = False, val_m = StrVal None\<rparr>"
  shows "\<exists>s. value_SerializeTo fp v storage = Inr s \<and> value_DeserializeFrom fp s VARCHAR = Inr v
    \<and> drop (stored_size v) s = drop (stored_size v) storage"
proof -
  let ?s = "store_bytes (le_bytes 4 PELOTON_VALUE_NULL) storage"
  have "value_SerializeTo fp v storage = Inr ?s"
    by (simp add: v value_SerializeTo_def Varlen_SerializeTo_def Varlen_GetLength_def Let_def)
  moreover have "le_value (le_bytes 4 PELOTON_VALUE_NULL) = PELOTON_VALUE_NULL"
    by (simp only: le_value_le_bytes pow_256) (simp add: PELOTON_VALUE_NULL_def)
  then have "load_uint 4 ?s = PELOTON_VALUE_NULL" by (simp add: load_uint_def store_bytes_def)
  then have "value_DeserializeFrom fp ?s VARCHAR = Inr v"
    by (simp add: value_DeserializeFrom_def Varlen_DeserializeFrom_def Let_def Value_varlen_def v)
  moreover have "stored_size v = 4" by (simp add: stored_size_def v IsNull_def)
  ultimately show ?thesis by simp
qed

lemma storage_boolean:
  assumes "in_range_s 8 x" and v: "v = mk_int BOOLEAN x (x = int_null 8)"
  shows "\<exists>s. value_SerializeTo fp v storage = Inr s \<and> value_DeserializeFrom fp s BOOLEAN = Inr v
    \<and> drop (stored_size v) s = drop (stored_size v) storage"
proof -
  have "load_int 1 (store_bytes (le_bytes 1 x) storage) = x" using load_int_store [of 1 x storage] assms(1) by simp
  moreover have "wrap_s 8 x = x" using assms(1) by (intro wrap_s_id) simp_all
  ultimately show ?thesis
    by (simp add: v value_SerializeTo_def value_DeserializeFrom_def Boolean_SerializeTo_def Boolean_DeserializeFrom_def
      stored_size_def GetTypeSize_def Value_int8_def Value_integral_def Let_def drop_store_bytes
      del: le_bytes.simps One_nat_def)
qed

lemma storage_decimal:
  assumes fp: "fp_bytes_ok fp" and v: "Value_double fp DECIMAL d = Inr v"
  shows "\<exists>s. value_SerializeTo fp v storage = Inr s \<and> value_DeserializeFrom fp s DECIMAL = Inr v
    \<and> drop (stored_size v) s = drop (stored_size v) storage"
proof -
  have v': "type_id_m v = DECIMAL" "value_dec fp v = d"
    using v by (auto simp: Value_double_def value_dec_def)
  let ?s = "store_bytes (fp_bytes fp d) storage"
  have "take 8 ?s = fp_bytes fp d" "drop 8 ?s = drop 8 storage"
    using fp take_store_bytes [of "fp_bytes fp d" storage] by (auto simp: fp_bytes_ok_def)
  then show ?thesis using fp v v'
    by (simp add: value_SerializeTo_def value_DeserializeFrom_def Decimal_SerializeTo_def Decimal_DeserializeFrom_def
      stored_size_def GetTypeSize_def fp_bytes_ok_def)
qed

lemma storage_roundtrip:
  assumes "storable fp v" and "fp_bytes_ok fp"
  shows "\<exists>s. value_SerializeTo fp v storage = Inr s \<and> value_DeserializeFrom fp s (type_id_m v) = Inr v
    \<and> drop (stored_size v) s = drop (stored_size v) storage"
  using assms(1) unfolding storable_def
proof (elim disjE exE conjE)
  fix t w
  assume v: "int_value t w v"
  show ?thesis using storage_int [OF v] int_value_type [OF v] by simp
next
  fix x
  assume "in_range_s 8 x" and v: "v = mk_int BOOLEAN x (x = int_null 8)"
  then show ?thesis using storage_boolean by (metis type_id_mk)
next
  fix d
  assume v: "Value_double fp DECIMAL d = Inr v"
  then have "type_id_m v = DECIMAL" by (auto simp: Value_double_def)
  then show ?thesis using storage_decimal [OF assms(2) v] by simp
next
  fix bs
  assume b: "int (length bs) < PELOTON_VALUE_NULL"
    and v: "Value_varlen VARCHAR (Some bs) (int (length bs)) True = Inr v"
  then have "v = \<lparr>type_id_m = VARCHAR, len_m = int (length bs), manage_data_m = True, val_m = StrVal (Some bs)\<rparr>"
    by (simp add: Value_varlen_def split: if_splits)
  note v' = this
  from storage_varchar [OF b v'] v' show ?thesis by simp
next
  assume "Value_varlen VARCHAR None 0 False = Inr v"
  then have "v = \<lparr>type_id_m = VARCHAR, len_m = PELOTON_VALUE_NULL, manage_data_m = False, val_m = StrVal None\<rparr>"
    by (simp add: Value_varlen_def)
  note v' = this
  from storage_null_varchar [OF v'] v' show ?thesis by simp
qed

section \<open>Strings\<close>

text \<open>The order of byte strings: the first different byte decides, a prefix comes first.\<close>

definition bytes_order :: "8 word list \<Rightarrow> 8 word list \<Rightarrow> int" where
  "bytes_order a b = (if a = b then 0 else if ord_class.lexordp a b then -1 else 1)"

lemma bytes_order_simps [simp]:
  "bytes_order [] [] = 0" "bytes_order [] (y # ys) = -1" "bytes_order (x # xs) [] = 1"
  "bytes_order (x # xs) (y # ys) = (if x < y then -1 else if y < x then 1 else bytes_order xs ys)"
  by (auto simp: bytes_order_def)

definition compare_result :: "8 word list \<Rightarrow> 8 word list \<Rightarrow> int" where
  "compare_result a b = (let c = memcmp a b (min (length a) (length b)) in
     if c = 0 \<and> length a \<noteq> length b then int (length a) - int (length b) else c)"

lemma compare_result_order: "sgn (compare_result a b) = bytes_order a b"
  by (induction a b rule: list_induct2') (auto simp: compare_result_def Let_def)

lemma memcmp_append: "n \<le> length a \<Longrightarrow> n \<le> length b \<Longrightarrow> memcmp (a @ a') (b @ b') n = memcmp a b n"
  by (induction a b n rule: memcmp.induct) auto

lemma cmp_int_sgn: "cmp_int op (sgn c) 0 = cmp_int op c 0"
  by (cases op) (auto simp: cmp_int_def sgn_if)

lemma varlen_compare_strings:
  assumes l: "Value_string VARCHAR s1 = Inr l" "int (length s1) < 2 ^ 31"
    and r: "Value_string VARCHAR s2 = Inr r" "int (length s2) < 2 ^ 31"
  shows "varlen_compare fp op l r =
    Inr (GetCmpBool (cmp_int op (bytes_order (map char_byte s1) (map char_byte s2)) 0))"
proof -
  let ?a = "map char_byte s1" and ?b = "map char_byte s2"
  have v: "l = \<lparr>type_id_m = VARCHAR, len_m = int (length s1) + 1, manage_data_m = True, val_m = StrVal (Some (?a @ [0]))\<rparr>"
    "r = \<lparr>type_id_m = VARCHAR, len_m = int (length s2) + 1, manage_data_m = True, val_m = StrVal (Some (?b @ [0]))\<rparr>"
    using l(1) r(1) by (simp_all add: Value_string_def Let_def)
  have w: "wrap_s 32 (int (length s1)) = int (length s1)" "wrap_s 32 (int (length s2)) = int (length s2)"
    using l(2) r(2) by (simp_all add: wrap_s_id)
  have cs: "CompareStrings (Some (?a @ [0])) (int (length s1)) (Some (?b @ [0])) (int (length s2)) = Inr (compare_result ?a ?b)"
    by (simp add: CompareStrings_def Let_def compare_result_def memcmp_append nat_minus_as_int flip: of_nat_min)
  have small: "int (length s1) mod 2 ^ 32 = int (length s1)" "int (length s2) mod 2 ^ 32 = int (length s2)"
    using l(2) r(2) by (simp_all add: mod_pos_pos_trivial)
  have "varlen_compare fp op l r = and_then (CompareStrings (Some (?a @ [0])) (int (length s1)) (Some (?b @ [0]))
      (int (length s2))) (\<lambda>c. Inr (GetCmpBool (cmp_int op c 0)))"
    using l(2) r(2) small w
    by (simp add: varlen_compare_def v CheckComparable_def IsNull_def PELOTON_VALUE_NULL_def PELOTON_VARCHAR_MAX_LEN_def
      VARLEN_COMPARE_FUNC_def Varlen_GetLength_def Varlen_GetData_def Let_def)
  also have "\<dots> = Inr (GetCmpBool (cmp_int op (sgn (compare_result ?a ?b)) 0))"
    by (simp only: cs and_then_simps cmp_int_sgn)
  finally show ?thesis by (simp only: compare_result_order)
qed

lemma value_Compare_varchar:
  "type_id_m left = VARCHAR \<Longrightarrow> value_Compare fp op left right = varlen_compare fp op left right"
  by (cases op) (simp_all add: value_Compare_def value_CompareEquals_def value_CompareNotEquals_def
    value_CompareLessThan_def value_CompareLessThanEquals_def value_CompareGreaterThan_def
    value_CompareGreaterThanEquals_def Varlen_CompareEquals_def Varlen_CompareNotEquals_def Varlen_CompareLessThan_def
    Varlen_CompareLessThanEquals_def Varlen_CompareGreaterThan_def Varlen_CompareGreaterThanEquals_def)

section \<open>The properties\<close>

text \<open>Doubles as their bit patterns with trivial arithmetic, to instantiate the parameter.\<close>

definition fp_bits :: "64 word fp" where
  "fp_bits = \<lparr>fp_add = (+), fp_sub = (-), fp_mul = (*), fp_div = (\<lambda>x y. x), fp_trunc = (\<lambda>x. x), fp_sqrt = (\<lambda>x. x),
     fp_of_int = word_of_int, fp_to_int = uint, fp_eq = (=), fp_less = (<), fp_lowest = 0, fp_flt_lowest = 1,
     fp_max = - 1, fp_to_string = (\<lambda>x. int_to_string (uint x)), fp_stod = (\<lambda>s. and_then (stoi 64 s) (\<lambda>z. Inr (word_of_int z))),
     fp_bytes = (\<lambda>d. le_bytes 8 (uint d)), fp_of_bytes = (\<lambda>bs. word_of_int (le_value bs))\<rparr>"

lemma fp_bits_ok: "fp_bytes_ok fp_bits"
proof -
  have "uint d mod 256 ^ 8 = uint d" for d :: "64 word"
    using uint_lt2p [of d] by (intro mod_pos_pos_trivial) simp_all
  then show ?thesis by (simp add: fp_bytes_ok_def fp_bits_def le_value_le_bytes del: le_bytes.simps)
qed

lemma int_value_mk_int [intro]: "type_width t w \<Longrightarrow> in_range_s w x \<Longrightarrow> b = (x = int_null w) \<Longrightarrow> int_value t w (mk_int t x b)"
  by (auto simp: int_value_def)

text \<open>C27. Arithmetic on two integer values of any widths that are not NULL is exact or reports an
  error: the result of an addition, subtraction or multiplication that fits the wider type is the
  number itself, in the wider type, any other is an out-of-range error; a division or modulo by zero
  is a division error, any other is exact (rounding to zero) and never NULL.\<close>

theorem integer_arithmetic_exact:
  assumes "int_value t1 w1 left" and "int_value t2 w2 right" and "\<not> IsNull left" and "\<not> IsNull right"
  shows "value_Add fp left right = exact_or_range w1 w2 left right (value_int left + value_int right) \<and>
    value_Subtract fp left right = exact_or_range w1 w2 left right (value_int left - value_int right) \<and>
    value_Multiply fp left right = exact_or_range w1 w2 left right (value_int left * value_int right) \<and>
    value_Divide fp left right = (if value_int right = 0 then divide_by_zero
      else Inr (wide_value w1 w2 left right (value_int left sdiv value_int right))) \<and>
    value_Modulo fp left right = (if value_int right = 0 then divide_by_zero
      else Inr (wide_value w1 w2 left right (value_int left smod value_int right))) \<and>
    \<not> IsNull (wide_value w1 w2 left right (value_int left sdiv value_int right))"
proof -
  note ok = int_value_arith_ok [OF assms]
  show ?thesis
    using AddValue_exact [OF ok] SubtractValue_exact [OF ok] MultiplyValue_exact [OF ok] DivideValue_exact [OF ok]
      ModuloValue_exact [OF ok] quotient_answer(2) [OF ok sdiv_abs_le]
    by (simp add: int_arith [OF assms])
qed

theorem integer_arithmetic_exact_witness:
  "value_Multiply fp_bits (mk_int TINYINT 100 False) (mk_int SMALLINT 400 False) = out_of_range \<and>
   value_Divide fp_bits (mk_int TINYINT 100 False) (mk_int SMALLINT (- 7) False) = Inr (mk_int SMALLINT (- 14) False)"
proof -
  have l: "int_value TINYINT 8 (mk_int TINYINT 100 False)" and r: "int_value SMALLINT 16 (mk_int SMALLINT (- 7) False)"
    "int_value SMALLINT 16 (mk_int SMALLINT 400 False)"
    by (auto simp: type_width_def int_null_def)
  show ?thesis
    using integer_arithmetic_exact [OF l r(1), of fp_bits] integer_arithmetic_exact [OF l r(2), of fp_bits]
    by (simp add: exact_or_range_def wide_value_def int_null_def signed_divide_int_def)
qed

text \<open>Comparing two integer values of any widths answers as comparing the numbers does, and the
  third truth value exactly when one of them is NULL.\<close>

theorem integer_comparison_numeric:
  assumes "int_value t1 w1 left" and "int_value t2 w2 right"
  shows "value_Compare fp op left right = Inr (if IsNull left \<or> IsNull right then CMP_NULL
     else GetCmpBool (cmp_int op (value_int left) (value_int right)))"
  by (rule int_compare [OF assms])

theorem integer_comparison_numeric_witness:
  "value_Compare fp_bits OpLT (mk_int BIGINT (- 5) False) (mk_int TINYINT 3 False) = Inr CMP_TRUE"
proof -
  have l: "int_value BIGINT 64 (mk_int BIGINT (- 5) False)" and r: "int_value TINYINT 8 (mk_int TINYINT 3 False)"
    by (auto simp: type_width_def int_null_def)
  show ?thesis using integer_comparison_numeric [OF l r, of fp_bits OpLT] by (simp add: cmp_int_def GetCmpBool_def)
qed

text \<open>C30. A cast between integer types keeps NULL and every number the target type has; any other
  number is an out-of-range error.\<close>

theorem integer_cast_exact:
  assumes "int_value t w v" and "type_width t' w'"
  shows "value_CastAs fp v t' =
    (if IsNull v then Inr (mk_int t' (int_null w') True)
     else if non_null w' (value_int v) then Inr (mk_int t' (value_int v) False) else out_of_range)"
  by (rule int_cast [OF assms])

theorem integer_cast_exact_witness:
  "value_CastAs fp_bits (mk_int INTEGER 300 False) TINYINT = out_of_range \<and>
   value_CastAs fp_bits (mk_int INTEGER 300 False) SMALLINT = Inr (mk_int SMALLINT 300 False)"
proof -
  have v: "int_value INTEGER 32 (mk_int INTEGER 300 False)" by (auto simp: type_width_def int_null_def)
  have t: "type_width TINYINT 8" "type_width SMALLINT 16" by (simp_all add: type_width_def)
  show ?thesis using integer_cast_exact [OF v t(1), of fp_bits] integer_cast_exact [OF v t(2), of fp_bits]
    by (simp add: non_null_def int_min_def int_max_def)
qed

text \<open>C31. An integer value that is not NULL, cast to VARCHAR and back to its type, is the same value.\<close>

theorem integer_text_roundtrip:
  assumes "int_value t w v" and "\<not> IsNull v"
  shows "\<exists>s. value_CastAs fp v VARCHAR = Inr s \<and> value_CastAs fp s t = Inr v"
  by (rule text_roundtrip [OF assms])

theorem integer_text_roundtrip_witness:
  "\<exists>s. value_CastAs fp_bits (mk_int SMALLINT (- 12345) False) VARCHAR = Inr s \<and>
    value_CastAs fp_bits s SMALLINT = Inr (mk_int SMALLINT (- 12345) False)"
proof -
  have "int_value SMALLINT 16 (mk_int SMALLINT (- 12345) False)" by (auto simp: type_width_def int_null_def)
  from integer_text_roundtrip [OF this, of fp_bits] show ?thesis by simp
qed

text \<open>C29. Every storable value (NULL and strings included) serialized into storage reads back as it
  was, and the bytes behind its stored form are not touched.\<close>

theorem value_storage_roundtrip:
  assumes "storable fp v" and "fp_bytes_ok fp"
  shows "\<exists>s. value_SerializeTo fp v storage = Inr s \<and> value_DeserializeFrom fp s (type_id_m v) = Inr v
    \<and> drop (stored_size v) s = drop (stored_size v) storage"
  by (rule storage_roundtrip [OF assms])

theorem value_storage_roundtrip_witness:
  "\<exists>s. value_SerializeTo fp_bits (mk_int INTEGER (- 2) False) [1, 2, 3, 4, 5] = Inr s \<and>
    value_DeserializeFrom fp_bits s INTEGER = Inr (mk_int INTEGER (- 2) False) \<and> drop 4 s = [5]"
proof -
  have "int_value INTEGER 32 (mk_int INTEGER (- 2) False)" by (auto simp: type_width_def int_null_def)
  then have "storable fp_bits (mk_int INTEGER (- 2) False)" unfolding storable_def by blast
  from value_storage_roundtrip [OF this fp_bits_ok, of "[1, 2, 3, 4, 5]"] show ?thesis
    by (simp add: stored_size_def GetTypeSize_def)
qed

text \<open>The six comparisons of two strings follow the order of their bytes: the first byte that
  differs decides, as an unsigned number, and a proper prefix is smaller.\<close>

theorem varchar_comparison_lexicographic:
  assumes "Value_string VARCHAR s1 = Inr l" and "int (length s1) < 2 ^ 31"
    and "Value_string VARCHAR s2 = Inr r" and "int (length s2) < 2 ^ 31"
  shows "value_Compare fp op l r =
    Inr (GetCmpBool (cmp_int op (bytes_order (map char_byte s1) (map char_byte s2)) 0))"
proof -
  have "type_id_m l = VARCHAR" using assms(1) by (auto simp: Value_string_def Let_def)
  then show ?thesis using varlen_compare_strings [OF assms] by (simp add: value_Compare_varchar)
qed

theorem varchar_comparison_lexicographic_witness:
  "\<exists>l r. Value_string VARCHAR ''ab'' = Inr l \<and> Value_string VARCHAR ''b'' = Inr r \<and>
    value_Compare fp_bits OpLT l r = Inr CMP_TRUE"
proof -
  obtain l r :: "64 word Value" where lr: "Value_string VARCHAR ''ab'' = Inr l" "Value_string VARCHAR ''b'' = Inr r"
    by (auto simp: Value_string_def Let_def)
  then show ?thesis using varchar_comparison_lexicographic [of "''ab''" l "''b''" r fp_bits OpLT]
    by (simp add: char_byte_def cmp_int_def GetCmpBool_def)
qed

text \<open>A string is cast to TINYINT by narrowing the parsed number, so that a number the type does
  not have is not reported but becomes another one (unless it becomes the NULL sentinel).\<close>

theorem varchar_to_tinyint_narrows:
  assumes "in_range_s 32 x" and "Value_string VARCHAR (int_to_string x) = Inr s"
  shows "value_CastAs fp s TINYINT =
    (if wrap_s 8 x = int_null 8 then out_of_range else Inr (mk_int TINYINT (wrap_s 8 x) False))"
proof -
  have "in_range_s 64 x" using assms(1) by (rule in_range_mono) simp
  then have "int (length (int_to_string x)) + 1 < 2 ^ 32 - 1" using length_int_to_string by fastforce
  from Value_string_text [OF this assms(2)] have str: "Varlen_ToString s = Inr (int_to_string x)" .
  have t: "type_id_m s = VARCHAR" using assms(2) by (auto simp: Value_string_def Let_def)
  have "in_range_s 8 (wrap_s 8 x)" by (rule wrap_s_range) simp
  then have "wrap_s 8 x < int_min 8 \<longleftrightarrow> wrap_s 8 x = int_null 8" by (auto simp: int_min_def int_null_def)
  then show ?thesis using stoi_int_to_string [OF assms(1)]
    by (simp add: t value_CastAs_def Varlen_CastAs_def value_ToString_def str catch_range_def Let_def Value_int_width)
qed

theorem varchar_to_tinyint_narrows_witness:
  "\<exists>s. Value_string VARCHAR (int_to_string 300) = Inr s \<and> value_CastAs fp_bits s TINYINT = Inr (mk_int TINYINT 44 False)"
proof -
  obtain s :: "64 word Value" where s: "Value_string VARCHAR (int_to_string 300) = Inr s"
    by (auto simp: Value_string_def Let_def)
  have "wrap_s 8 300 = 44" by (simp add: wrap_s_def)
  with varchar_to_tinyint_narrows [OF _ s, of fp_bits] s show ?thesis by (simp add: int_null_def)
qed

end
