(* ===== verification/Tuple.thy ===== *)
theory Tuple imports TypeProps begin

text \<open>
  The catalog and the tuples: \<open>common/rid.h\<close>, \<open>catalog/column.cpp\<close>, \<open>catalog/schema.cpp\<close>,
  \<open>table/tuple.cpp\<close> and the keys of \<open>index/generic_key.h\<close>.  A tuple is a fixed part, with the
  inlined values and the offsets of the others, followed by the strings with their lengths.
\<close>

section \<open>Record ids\<close>

record RID =
  rid_page_id :: int
  slot_num :: int

definition RID_default :: RID where
  "RID_default = \<lparr>rid_page_id = INVALID_PAGE_ID, slot_num = -1\<rparr>"

definition RID_of_int64 :: "int \<Rightarrow> RID" where
  "RID_of_int64 x = \<lparr>rid_page_id = wrap_s 32 (x div 2 ^ 32), slot_num = wrap_s 32 x\<rparr>"

definition RID_Get :: "RID \<Rightarrow> int" where
  "RID_Get r = Bit_Operations.or (wrap_s 64 (rid_page_id r * 2 ^ 32)) (slot_num r)"

definition RID_Set :: "int \<Rightarrow> int \<Rightarrow> RID \<Rightarrow> RID" where
  "RID_Set p s r = r\<lparr>rid_page_id := p, slot_num := s\<rparr>"

definition RID_ToString :: "RID \<Rightarrow> string" where
  "RID_ToString r = ''page_id: '' @ int_to_string (rid_page_id r) @ '' slot_num: '' @ int_to_string (slot_num r) @ ''\<newline>''"

definition RID_eq :: "RID \<Rightarrow> RID \<Rightarrow> bool" where
  "RID_eq r other = (rid_page_id r = rid_page_id other \<and> slot_num r = slot_num other)"

section \<open>Columns\<close>

record column =
  column_type :: TypeId
  fixed_length :: int
  variable_length :: int
  column_name :: string
  is_inlined :: bool
  column_offset :: int

definition SetInlined :: "column \<Rightarrow> column" where
  "SetInlined c = c\<lparr>is_inlined := (case column_type c of VARCHAR \<Rightarrow> False | _ \<Rightarrow> True)\<rparr>"

definition SetLength :: "int \<Rightarrow> column \<Rightarrow> column" where
  "SetLength n c =
     (if is_inlined c then c\<lparr>fixed_length := n, variable_length := 0\<rparr>
      else c\<lparr>fixed_length := 4, variable_length := n\<rparr>)"

definition Column_default :: column where
  "Column_default = \<lparr>column_type = INVALID, fixed_length = -1, variable_length = -1, column_name = [],
     is_inlined = False, column_offset = -1\<rparr>"

definition Column_new :: "TypeId \<Rightarrow> int \<Rightarrow> string \<Rightarrow> column result" where
  "Column_new t n name =
     (let c = SetInlined (Column_default\<lparr>column_type := t, column_name := name\<rparr>) in
      if is_inlined c \<and> n \<le> 0 then Inl (Thrown EXCEPTION_TYPE_CONSTRAINT) else Inr (SetLength n c))"

definition Column_GetLength :: "column \<Rightarrow> int" where
  "Column_GetLength c = (if is_inlined c then fixed_length c else variable_length c)"

definition Column_eq :: "column \<Rightarrow> column \<Rightarrow> bool" where
  "Column_eq c other = (if column_type other \<noteq> column_type c \<or> is_inlined other \<noteq> is_inlined c then False else True)"

definition Column_ToString :: "column \<Rightarrow> string" where
  "Column_ToString c =
     ''Column['' @ column_name c @ '', '' @ TypeIdToString (column_type c) @ '', ''
     @ ''Offset:'' @ int_to_string (column_offset c) @ '', ''
     @ (if is_inlined c then ''FixedLength:'' @ int_to_string (fixed_length c)
        else ''VarLength:'' @ int_to_string (variable_length c)) @ '']''"

section \<open>Schemas\<close>

record schema =
  length_m :: int
  columns :: "column list"
  tuple_is_inlined :: bool
  uninlined_columns :: "nat list"

fun Schema_loop :: "column list \<Rightarrow> nat \<Rightarrow> int \<Rightarrow> schema \<Rightarrow> schema" where
  "Schema_loop [] index offset s = s\<lparr>length_m := offset\<rparr>"
| "Schema_loop (c # cs) index offset s =
     (let s = (if \<not> is_inlined c
        then s\<lparr>tuple_is_inlined := False, uninlined_columns := uninlined_columns s @ [index]\<rparr> else s) in
      Schema_loop cs (index + 1) (offset + fixed_length c)
        (s\<lparr>columns := columns s @ [c\<lparr>column_offset := offset\<rparr>]\<rparr>))"

definition Schema_new :: "column list \<Rightarrow> schema" where
  "Schema_new cs = Schema_loop cs 0 0 \<lparr>length_m = 0, columns = [], tuple_is_inlined = True, uninlined_columns = []\<rparr>"

definition GetColumnCount :: "schema \<Rightarrow> int" where
  "GetColumnCount s = int (length (columns s))"

text \<open>The copy checks the indices against the end of the schema only.\<close>

fun copy_columns :: "schema \<Rightarrow> int list \<Rightarrow> column list result" where
  "copy_columns s [] = Inr []"
| "copy_columns s (i # is) = guard (i < GetColumnCount s)
     (if i < 0 then Inl OutOfBounds
      else and_then (copy_columns s is) (\<lambda>cs. Inr (columns s ! nat i # cs)))"

definition CopySchema :: "schema \<Rightarrow> int list \<Rightarrow> schema result" where
  "CopySchema s ids = and_then (copy_columns s ids) (\<lambda>cs. Inr (Schema_new cs))"

definition GetOffset :: "nat \<Rightarrow> schema \<Rightarrow> int" where
  "GetOffset i s = column_offset (columns s ! i)"

definition GetType :: "nat \<Rightarrow> schema \<Rightarrow> TypeId" where
  "GetType i s = column_type (columns s ! i)"

definition Schema_IsInlined :: "nat \<Rightarrow> schema \<Rightarrow> bool" where
  "Schema_IsInlined i s = is_inlined (columns s ! i)"

definition GetAppropriateLength :: "nat \<Rightarrow> schema \<Rightarrow> int" where
  "GetAppropriateLength i s =
     (if is_inlined (columns s ! i) then fixed_length (columns s ! i) else variable_length (columns s ! i))"

fun find_column :: "string \<Rightarrow> column list \<Rightarrow> int \<Rightarrow> int" where
  "find_column name [] i = -1"
| "find_column name (c # cs) i = (if column_name c = name then i else find_column name cs (i + 1))"

definition GetColumnID :: "string \<Rightarrow> schema \<Rightarrow> int" where
  "GetColumnID name s = find_column name (columns s) 0"

definition bool_string :: "bool \<Rightarrow> string" where
  "bool_string b = (if b then ''1'' else ''0'')"

fun columns_string :: "bool \<Rightarrow> column list \<Rightarrow> string" where
  "columns_string first [] = []"
| "columns_string first (c # cs) = (if first then [] else '', '') @ Column_ToString c @ columns_string False cs"

definition Schema_ToString :: "schema \<Rightarrow> string" where
  "Schema_ToString s =
     ''Schema['' @ ''NumColumns:'' @ int_to_string (GetColumnCount s) @ '', ''
     @ ''IsInlined:'' @ bool_string (tuple_is_inlined s) @ '', ''
     @ ''Length:'' @ int_to_string (length_m s) @ '']'' @ '' :: ('' @ columns_string True (columns s) @ '')''"

definition Schema_eq :: "schema \<Rightarrow> schema \<Rightarrow> bool" where
  "Schema_eq s other =
     (if GetColumnCount other \<noteq> GetColumnCount s \<or> tuple_is_inlined other \<noteq> tuple_is_inlined s then False
      else list_all2 Column_eq (columns s) (columns other))"

section \<open>Tuples\<close>

record tuple =
  allocated_m :: bool
  rid_m :: RID
  size_m :: int
  data_t :: "8 word list option"

definition Tuple_default :: tuple where
  "Tuple_default = \<lparr>allocated_m = False, rid_m = RID_default, size_m = 0, data_t = None\<rparr>"

text \<open>\<open>GetLength\<close> of a value: a class without a body of its own has that of \<open>Type\<close>.\<close>

definition value_GetLength :: "'d Value \<Rightarrow> int result" where
  "value_GetLength v = (case type_id_m v of
     VARCHAR \<Rightarrow> Inr (Varlen_GetLength v) | TIMESTAMP \<Rightarrow> Inl NullPointer | _ \<Rightarrow> not_implemented)"

text \<open>The size of a tuple is an \<open>int32_t\<close>; a string adds its length, an unsigned number, and four.\<close>

fun tuple_size_loop :: "'d Value list \<Rightarrow> nat list \<Rightarrow> int \<Rightarrow> int result" where
  "tuple_size_loop values [] sz = Inr sz"
| "tuple_size_loop values (i # is) sz =
     and_then (value_GetLength (values ! i)) (\<lambda>n. tuple_size_loop values is (wrap_s 32 (sz + (n + 4))))"

text \<open>A value written at an offset of the tuple's buffer, which it may not leave.\<close>

definition serialize_at :: "'d fp \<Rightarrow> 'd Value \<Rightarrow> int \<Rightarrow> 8 word list \<Rightarrow> 8 word list result" where
  "serialize_at fp v off buf = (if off < 0 \<or> off > int (length buf) then Inl OutOfBounds
     else and_then (value_SerializeTo fp v (drop (nat off) buf)) (\<lambda>s.
       if length s = length (drop (nat off) buf) then Inr (take (nat off) buf @ s) else Inl OutOfBounds))"

definition write_int32 :: "int \<Rightarrow> int \<Rightarrow> 8 word list \<Rightarrow> 8 word list result" where
  "write_int32 x off buf = (if off < 0 \<or> off + 4 > int (length buf) then Inl OutOfBounds
     else Inr (take (nat off) buf @ store_bytes (le_bytes 4 x) (drop (nat off) buf)))"

fun serialize_loop ::
  "'d fp \<Rightarrow> schema \<Rightarrow> nat \<Rightarrow> 'd Value list \<Rightarrow> int \<Rightarrow> 8 word list \<Rightarrow> 8 word list result" where
  "serialize_loop fp s i [] offset buf = Inr buf"
| "serialize_loop fp s i (v # vs) offset buf =
     (if \<not> Schema_IsInlined i s then
        and_then (write_int32 offset (GetOffset i s) buf) (\<lambda>buf.
        and_then (serialize_at fp v offset buf) (\<lambda>buf.
        and_then (value_GetLength v) (\<lambda>n.
          serialize_loop fp s (i + 1) vs (wrap_s 32 (offset + (n + 4))) buf)))
      else and_then (serialize_at fp v (GetOffset i s) buf) (serialize_loop fp s (i + 1) vs offset))"

text \<open>The constructor from values; \<open>mem\<close> is what the memory the allocator returns holds.\<close>

definition Tuple_new :: "'d fp \<Rightarrow> 'd Value list \<Rightarrow> schema \<Rightarrow> (nat \<Rightarrow> 8 word) \<Rightarrow> tuple result" where
  "Tuple_new fp values s mem = guard (int (length values) = GetColumnCount s)
     (and_then (tuple_size_loop values (uninlined_columns s) (length_m s)) (\<lambda>sz.
      and_then (serialize_loop fp s 0 values (length_m s) (map mem [0..<nat sz])) (\<lambda>buf.
        Inr \<lparr>allocated_m = True, rid_m = RID_default, size_m = sz, data_t = Some buf\<rparr>)))"

text \<open>A pointer into the tuple is the part of the buffer from there on.\<close>

definition pointer_at :: "int \<Rightarrow> 8 word list \<Rightarrow> 8 word list result" where
  "pointer_at off buf = (if off < 0 \<or> off > int (length buf) then Inl OutOfBounds else Inr (drop (nat off) buf))"

definition GetDataPtr :: "schema \<Rightarrow> nat \<Rightarrow> tuple \<Rightarrow> 8 word list result" where
  "GetDataPtr s i t = (case data_t t of None \<Rightarrow> Inl AssertionFailed
     | Some buf \<Rightarrow>
         if Schema_IsInlined i s then pointer_at (GetOffset i s) buf
         else and_then (pointer_at (GetOffset i s) buf) (\<lambda>p. pointer_at (load_int 4 p) buf))"

definition Tuple_GetValue :: "'d fp \<Rightarrow> schema \<Rightarrow> nat \<Rightarrow> tuple \<Rightarrow> 'd Value result" where
  "Tuple_GetValue fp s i t = guard (data_t t \<noteq> None)
     (and_then (GetDataPtr s i t) (\<lambda>p. value_DeserializeFrom fp p (GetType i s)))"

definition Tuple_IsNull :: "'d fp \<Rightarrow> schema \<Rightarrow> nat \<Rightarrow> tuple \<Rightarrow> bool result" where
  "Tuple_IsNull fp s i t = and_then (Tuple_GetValue fp s i t) (\<lambda>v. Inr (IsNull v))"

fun tuple_string_loop :: "'d fp \<Rightarrow> schema \<Rightarrow> tuple \<Rightarrow> nat list \<Rightarrow> bool \<Rightarrow> string result" where
  "tuple_string_loop fp s t [] first = Inr []"
| "tuple_string_loop fp s t (i # is) first =
     and_then (Tuple_IsNull fp s i t) (\<lambda>null.
     and_then (if null then Inr ''<NULL>''
       else and_then (Tuple_GetValue fp s i t) (value_ToString fp)) (\<lambda>str.
     and_then (tuple_string_loop fp s t is False) (\<lambda>rest. Inr ((if first then [] else '', '') @ str @ rest))))"

definition Tuple_ToString :: "'d fp \<Rightarrow> schema \<Rightarrow> tuple \<Rightarrow> string result" where
  "Tuple_ToString fp s t = and_then (tuple_string_loop fp s t [0..<length (columns s)] True)
     (\<lambda>str. Inr (''('' @ str @ '')'' @ '' Tuple size is '' @ int_to_string (size_m t)))"

definition Tuple_SerializeTo :: "tuple \<Rightarrow> 8 word list \<Rightarrow> 8 word list" where
  "Tuple_SerializeTo t storage =
     store_bytes (le_bytes 4 (size_m t) @ take (nat (size_m t)) (case data_t t of None \<Rightarrow> [] | Some buf \<Rightarrow> buf)) storage"

definition Tuple_DeserializeFrom :: "8 word list \<Rightarrow> tuple \<Rightarrow> tuple" where
  "Tuple_DeserializeFrom storage t =
     (let n = load_int 4 storage in
      t\<lparr>size_m := n, data_t := Some (take (nat n) (drop 4 storage)), allocated_m := True\<rparr>)"

text \<open>Copying and assigning a tuple copy the buffer of one that owns it and share the buffer of one
  that does not; the contents are the same either way.\<close>

definition Tuple_copy :: "tuple \<Rightarrow> tuple" where
  "Tuple_copy other = \<lparr>allocated_m = allocated_m other, rid_m = rid_m other, size_m = size_m other, data_t = data_t other\<rparr>"

section \<open>Keys\<close>

text \<open>A key of the index: \<open>KeySize\<close> bytes.\<close>

type_synonym generic_key = "8 word list"

definition SetFromKey :: "nat \<Rightarrow> tuple \<Rightarrow> generic_key result" where
  "SetFromKey KeySize t =
     (let bs = take (nat (size_m t)) (case data_t t of None \<Rightarrow> [] | Some buf \<Rightarrow> buf);
          key = store_bytes bs (replicate KeySize 0) in
      if length key = KeySize then Inr key else Inl OutOfBounds)"

definition SetFromInteger :: "nat \<Rightarrow> int \<Rightarrow> generic_key result" where
  "SetFromInteger KeySize x =
     (let key = store_bytes (le_bytes 8 x) (replicate KeySize 0) in
      if length key = KeySize then Inr key else Inl OutOfBounds)"

definition ToValue :: "'d fp \<Rightarrow> schema \<Rightarrow> nat \<Rightarrow> generic_key \<Rightarrow> 'd Value result" where
  "ToValue fp s i key =
     (let t = GetType i s in
      and_then (if Schema_IsInlined i s then pointer_at (GetOffset i s) key
        else and_then (pointer_at (GetOffset i s) key) (\<lambda>p. pointer_at (load_int 4 p) key))
      (\<lambda>p. value_DeserializeFrom fp p t))"

definition key_ToString :: "generic_key \<Rightarrow> int" where
  "key_ToString key = load_int 8 key"

fun compare_loop :: "'d fp \<Rightarrow> schema \<Rightarrow> generic_key \<Rightarrow> generic_key \<Rightarrow> nat list \<Rightarrow> int result" where
  "compare_loop fp s lhs rhs [] = Inr 0"
| "compare_loop fp s lhs rhs (i # is) =
     and_then (ToValue fp s i lhs) (\<lambda>l.
     and_then (ToValue fp s i rhs) (\<lambda>r.
     and_then (value_CompareLessThan fp l r) (\<lambda>c.
       if c = CMP_TRUE then Inr (- 1)
       else and_then (value_CompareGreaterThan fp l r) (\<lambda>c.
         if c = CMP_TRUE then Inr 1 else compare_loop fp s lhs rhs is))))"

definition GenericComparator :: "'d fp \<Rightarrow> schema \<Rightarrow> generic_key \<Rightarrow> generic_key \<Rightarrow> int result" where
  "GenericComparator fp s lhs rhs = compare_loop fp s lhs rhs [0..<length (columns s)]"

end
