(* ===== verification/TupleProps.thy ===== *)
theory TupleProps imports Tuple begin

text \<open>
  What makes tuples and keys correct: the values a tuple is built from are the values read from its
  columns, a tuple survives its storage form, and on the keys built from non-NULL values the
  comparator is a total order, so that it meets the contract \<open>key_order\<close> of the index pages.
\<close>

section \<open>Bytes placed in a buffer\<close>

definition placed :: "nat \<Rightarrow> 8 word list \<Rightarrow> 8 word list \<Rightarrow> bool" where
  "placed o' bs buf \<longleftrightarrow> o' + length bs \<le> length buf \<and> take (length bs) (drop o' buf) = bs"

definition place :: "nat \<Rightarrow> 8 word list \<Rightarrow> 8 word list \<Rightarrow> 8 word list" where
  "place o' bs buf = take o' buf @ bs @ drop (o' + length bs) buf"

lemma length_place [simp]: "o' + length bs \<le> length buf \<Longrightarrow> length (place o' bs buf) = length buf"
  by (simp add: place_def)

lemma placed_place: "o' + length bs \<le> length buf \<Longrightarrow> placed o' bs (place o' bs buf)"
  by (simp add: placed_def place_def)

lemma nth_place:
  "o' + length bs \<le> length buf \<Longrightarrow> i < length buf \<Longrightarrow>
   place o' bs buf ! i = (if o' \<le> i \<and> i < o' + length bs then bs ! (i - o') else buf ! i)"
  by (auto simp: place_def nth_append)

lemma placed_iff_nth:
  "placed o' bs buf \<longleftrightarrow> o' + length bs \<le> length buf \<and> (\<forall>i < length bs. buf ! (o' + i) = bs ! i)"
  by (auto simp: placed_def list_eq_iff_nth_eq)

lemma placed_other:
  assumes "placed a xs buf" and "o' + length bs \<le> length buf" and "a + length xs \<le> o' \<or> o' + length bs \<le> a"
  shows "placed a xs (place o' bs buf)"
  using assms unfolding placed_iff_nth by (auto simp: nth_place)

lemma placed_drop: "placed o' bs buf \<Longrightarrow> drop o' buf = bs @ drop (o' + length bs) buf"
  unfolding placed_def by (metis append_take_drop_id drop_drop add.commute)

section \<open>The stored form of a value\<close>

definition enc :: "'d fp \<Rightarrow> 'd Value \<Rightarrow> 8 word list" where
  "enc fp v = (case value_SerializeTo fp v [] of Inr s \<Rightarrow> s | Inl _ \<Rightarrow> [])"

lemma serialize_form:
  assumes "storable fp v" and "fp_bytes_ok fp"
  shows "\<exists>bs. length bs = stored_size v \<and> (\<forall>st. value_SerializeTo fp v st = Inr (store_bytes bs st))"
  using assms(1) unfolding storable_def
proof (elim disjE exE conjE)
  fix t w
  assume "int_value t w v"
  then obtain x where x: "type_width t w" "v = mk_int t x (x = int_null w)" by (auto simp: int_value_def)
  let ?bs = "le_bytes (w div 8) x"
  have "length ?bs = stored_size v \<and> (\<forall>st. value_SerializeTo fp v st = Inr (store_bytes ?bs st))"
    using x(1) by (elim type_width_cases)
      (simp_all add: x(2) stored_size_def GetTypeSize_def value_SerializeTo_def Tinyint_SerializeTo_def
        Smallint_SerializeTo_def Integer_SerializeTo_def Bigint_SerializeTo_def del: le_bytes.simps)
  then show ?thesis by blast
next
  fix x
  assume v: "v = mk_int BOOLEAN x (x = int_null 8)"
  then have "length (le_bytes 1 x) = stored_size v \<and>
      (\<forall>st. value_SerializeTo fp v st = Inr (store_bytes (le_bytes 1 x) st))"
    by (simp add: stored_size_def GetTypeSize_def value_SerializeTo_def Boolean_SerializeTo_def
        del: le_bytes.simps One_nat_def)
  then show ?thesis by blast
next
  fix d
  assume v: "Value_double fp DECIMAL d = Inr v"
  then have "length (fp_bytes fp d) = stored_size v \<and>
      (\<forall>st. value_SerializeTo fp v st = Inr (store_bytes (fp_bytes fp d) st))"
    using assms(2) by (auto simp: Value_double_def value_dec_def fp_bytes_ok_def stored_size_def GetTypeSize_def
        value_SerializeTo_def Decimal_SerializeTo_def)
  then show ?thesis by blast
next
  fix bs
  assume b: "int (length bs) < PELOTON_VALUE_NULL"
    and "Value_varlen VARCHAR (Some bs) (int (length bs)) True = Inr v"
  then have v: "v = \<lparr>type_id_m = VARCHAR, len_m = int (length bs), manage_data_m = True, val_m = StrVal (Some bs)\<rparr>"
    by (simp add: Value_varlen_def split: if_splits)
  have "length (le_bytes 4 (int (length bs)) @ bs) = stored_size v \<and>
      (\<forall>st. value_SerializeTo fp v st = Inr (store_bytes (le_bytes 4 (int (length bs)) @ bs) st))"
    using b by (simp add: v stored_size_def IsNull_def value_SerializeTo_def Varlen_SerializeTo_def Varlen_GetLength_def
        value_bytes_def Let_def del: le_bytes.simps)
  then show ?thesis by blast
next
  assume "Value_varlen VARCHAR None 0 False = Inr v"
  then have v: "v = \<lparr>type_id_m = VARCHAR, len_m = PELOTON_VALUE_NULL, manage_data_m = False, val_m = StrVal None\<rparr>"
    by (simp add: Value_varlen_def)
  have "length (le_bytes 4 PELOTON_VALUE_NULL) = stored_size v \<and>
      (\<forall>st. value_SerializeTo fp v st = Inr (store_bytes (le_bytes 4 PELOTON_VALUE_NULL) st))"
    by (simp add: v stored_size_def IsNull_def value_SerializeTo_def Varlen_SerializeTo_def Varlen_GetLength_def
        Let_def del: le_bytes.simps)
  then show ?thesis by blast
qed

lemma enc_spec:
  assumes "storable fp v" and "fp_bytes_ok fp"
  shows "value_SerializeTo fp v st = Inr (store_bytes (enc fp v) st)" and "length (enc fp v) = stored_size v"
    and "value_DeserializeFrom fp (enc fp v @ rest) (type_id_m v) = Inr v"
proof -
  obtain bs where bs: "length bs = stored_size v" "\<And>st. value_SerializeTo fp v st = Inr (store_bytes bs st)"
    using serialize_form [OF assms] by blast
  then have e: "enc fp v = bs" by (simp add: enc_def store_bytes_def)
  show "value_SerializeTo fp v st = Inr (store_bytes (enc fp v) st)" "length (enc fp v) = stored_size v"
    by (simp_all add: e bs)
  have "store_bytes bs (replicate (length bs) 0 @ rest) = bs @ rest" by (simp add: store_bytes_def)
  then show "value_DeserializeFrom fp (enc fp v @ rest) (type_id_m v) = Inr v"
    using storage_roundtrip [OF assms, of "replicate (length bs) 0 @ rest"] by (simp add: e bs(2))
qed

lemma serialize_at_place:
  assumes "storable fp v" and "fp_bytes_ok fp" and "o' + stored_size v \<le> length buf"
  shows "serialize_at fp v (int o') buf = Inr (place o' (enc fp v) buf)"
  using enc_spec(1,2) [OF assms(1,2)] assms(3) by (simp add: serialize_at_def place_def store_bytes_def add.commute)

lemma write_int32_place:
  assumes "o' + 4 \<le> length buf"
  shows "write_int32 x (int o') buf = Inr (place o' (le_bytes 4 x) buf)"
  using assms by (simp add: write_int32_def place_def store_bytes_def add.commute del: le_bytes.simps)

section \<open>The layout of a schema\<close>

definition fixed_before :: "column list \<Rightarrow> nat \<Rightarrow> nat" where
  "fixed_before cs k = sum_list (map (\<lambda>c. nat (fixed_length c)) (take k cs))"

lemma fixed_before_Suc: "k < length cs \<Longrightarrow> fixed_before cs (Suc k) = fixed_before cs k + nat (fixed_length (cs ! k))"
  by (simp add: fixed_before_def take_Suc_conv_app_nth)

lemma fixed_before_mono: "j \<le> k \<Longrightarrow> fixed_before cs j \<le> fixed_before cs k"
proof -
  assume "j \<le> k"
  then have "take k cs = take j cs @ drop j (take k cs)" by (metis append_take_drop_id min.absorb1 take_take)
  then show ?thesis by (metis fixed_before_def le_add1 map_append sum_list_append)
qed

lemma fixed_before_Cons: "fixed_before (c # cs) (Suc k) = nat (fixed_length c) + fixed_before cs k"
  by (simp add: fixed_before_def)

lemma Schema_loop_columns:
  "\<forall>c \<in> set cs. 0 \<le> fixed_length c \<Longrightarrow> columns (Schema_loop cs i off s) = columns s @
    map (\<lambda>k. (cs ! k)\<lparr>column_offset := off + int (fixed_before cs k)\<rparr>) [0..<length cs]"
proof (induction cs arbitrary: i off s)
  case (Cons c cs)
  have up: "[0..<length (c # cs)] = 0 # map Suc [0..<length cs]"
    by (simp only: list.size upt_conv_Cons map_Suc_upt) simp
  have "fixed_before (c # cs) 0 = 0" by (simp add: fixed_before_def)
  then show ?case using Cons
    by (simp only: Schema_loop.simps Let_def up) (simp add: fixed_before_Cons comp_def add.assoc)
qed simp

lemma Schema_loop_length:
  "\<forall>c \<in> set cs. 0 \<le> fixed_length c \<Longrightarrow>
   length_m (Schema_loop cs i off s) = off + int (fixed_before cs (length cs))"
  by (induction cs arbitrary: i off s) (simp_all add: fixed_before_Cons Let_def fixed_before_def)

lemma Schema_loop_uninlined:
  "uninlined_columns (Schema_loop cs i off s) = uninlined_columns s @
    filter (\<lambda>k. \<not> is_inlined (cs ! (k - i))) [i..<i + length cs]"
proof (induction cs arbitrary: i off s)
  case (Cons c cs)
  have "[i..<i + length (c # cs)] = i # [i + 1..<i + 1 + length cs]"
    using upt_conv_Cons [of i "i + length (c # cs)"] by simp
  moreover have "filter (\<lambda>k. \<not> is_inlined ((c # cs) ! (k - i))) [i + 1..<i + 1 + length cs] =
      filter (\<lambda>k. \<not> is_inlined (cs ! (k - (i + 1)))) [i + 1..<i + 1 + length cs]"
    by (rule filter_cong) (auto simp: nth_Cons')
  ultimately show ?case using Cons.IH by (simp add: Let_def)
qed simp

text \<open>A column that takes a value: strings are not inlined and have four bytes in the fixed part.\<close>

definition col_takes :: "'d fp \<Rightarrow> column \<Rightarrow> 'd Value \<Rightarrow> bool" where
  "col_takes fp c v \<longleftrightarrow> type_id_m v = column_type c \<and> storable fp v \<and> (is_inlined c \<longleftrightarrow> column_type c \<noteq> VARCHAR) \<and>
     (if is_inlined c then int (stored_size v) \<le> fixed_length c else fixed_length c = 4 \<and> \<not> IsNull v)"

definition var_size :: "'d Value \<Rightarrow> nat" where
  "var_size v = (if type_id_m v = VARCHAR then stored_size v else 0)"

definition var_before :: "'d Value list \<Rightarrow> nat \<Rightarrow> nat" where
  "var_before vs k = sum_list (map var_size (take k vs))"

lemma var_before_Suc: "k < length vs \<Longrightarrow> var_before vs (Suc k) = var_before vs k + var_size (vs ! k)"
  by (simp add: var_before_def take_Suc_conv_app_nth)

lemma var_before_mono: "j \<le> k \<Longrightarrow> var_before vs j \<le> var_before vs k"
proof -
  assume "j \<le> k"
  then have "take k vs = take j vs @ drop j (take k vs)" by (metis append_take_drop_id min.absorb1 take_take)
  then show ?thesis by (metis var_before_def le_add1 map_append sum_list_append)
qed

text \<open>The schema's columns with the values of a row.\<close>

definition row_ok :: "'d fp \<Rightarrow> column list \<Rightarrow> 'd Value list \<Rightarrow> bool" where
  "row_ok fp cs vs \<longleftrightarrow> length vs = length cs \<and> (\<forall>i < length cs. col_takes fp (cs ! i) (vs ! i)) \<and>
     int (fixed_before cs (length cs) + var_before vs (length vs)) < 2 ^ 31"

lemma col_takes_length: "col_takes fp c v \<Longrightarrow> 0 \<le> fixed_length c"
  by (auto simp: col_takes_def split: if_splits)

lemma row_ok_lengths: "row_ok fp cs vs \<Longrightarrow> \<forall>c \<in> set cs. 0 \<le> fixed_length c"
  by (metis in_set_conv_nth row_ok_def col_takes_length)

lemma Schema_new_simps:
  assumes "\<forall>c \<in> set cs. 0 \<le> fixed_length c"
  shows "length (columns (Schema_new cs)) = length cs" and "length_m (Schema_new cs) = int (fixed_before cs (length cs))"
    and "uninlined_columns (Schema_new cs) = filter (\<lambda>k. \<not> is_inlined (cs ! k)) [0..<length cs]"
    and "i < length cs \<Longrightarrow> GetOffset i (Schema_new cs) = int (fixed_before cs i)"
    and "i < length cs \<Longrightarrow> GetType i (Schema_new cs) = column_type (cs ! i)"
    and "i < length cs \<Longrightarrow> Schema_IsInlined i (Schema_new cs) = is_inlined (cs ! i)"
  using Schema_loop_columns [OF assms] Schema_loop_length [OF assms]
  by (simp_all add: Schema_new_def Schema_loop_uninlined GetOffset_def GetType_def Schema_IsInlined_def)

section \<open>Building a tuple\<close>

lemma value_GetLength_var: "type_id_m v = VARCHAR \<Longrightarrow> \<not> IsNull v \<Longrightarrow> storable fp v \<Longrightarrow>
  \<exists>n. value_GetLength v = Inr n \<and> n + 4 = int (var_size v)"
  by (auto simp: value_GetLength_def var_size_def stored_size_def Varlen_GetLength_def storable_def Value_varlen_def
      int_value_def type_width_def Value_double_def mk_int_def PELOTON_VALUE_NULL_def split: if_splits)

lemma tuple_size_loop_spec:
  assumes "\<forall>i \<in> set is. type_id_m (vs ! i) = VARCHAR \<and> \<not> IsNull (vs ! i) \<and> storable fp (vs ! i)"
    and "0 \<le> sz" and "sz + int (sum_list (map (\<lambda>i. var_size (vs ! i)) is)) < 2 ^ 31"
  shows "tuple_size_loop vs is sz = Inr (sz + int (sum_list (map (\<lambda>i. var_size (vs ! i)) is)))"
  using assms
proof (induction "is" arbitrary: sz)
  case (Cons i "is")
  obtain n where n: "value_GetLength (vs ! i) = Inr n" "n + 4 = int (var_size (vs ! i))"
    using value_GetLength_var Cons.prems(1) by (metis list.set_intros(1))
  have "wrap_s 32 (sz + (n + 4)) = sz + int (var_size (vs ! i))"
    using n(2) Cons.prems(2,3) by (subst wrap_s_id) simp_all
  then show ?case using n(1) Cons by simp
qed simp

lemma sum_filter_var:
  "\<forall>i < length vs. P i \<longleftrightarrow> type_id_m (vs ! i) = VARCHAR \<Longrightarrow>
   sum_list (map (\<lambda>i. var_size (vs ! i)) (filter P [0..<length vs])) = var_before vs (length vs)"
proof -
  assume P: "\<forall>i < length vs. P i \<longleftrightarrow> type_id_m (vs ! i) = VARCHAR"
  have "sum_list (map (\<lambda>i. var_size (vs ! i)) (filter P [0..<length vs])) =
      sum_list (map (\<lambda>i. if P i then var_size (vs ! i) else 0) [0..<length vs])"
    by (rule sum_list_map_filter' [THEN trans]) simp
  also have "map (\<lambda>i. if P i then var_size (vs ! i) else 0) [0..<length vs] = map var_size vs"
    using P by (intro nth_equalityI) (auto simp: var_size_def)
  finally show ?thesis by (simp add: var_before_def)
qed

definition total_size :: "column list \<Rightarrow> 'd Value list \<Rightarrow> nat" where
  "total_size cs vs = fixed_before cs (length cs) + var_before vs (length vs)"

text \<open>The value of column \<open>j\<close> is where the schema says.\<close>

definition col_placed :: "'d fp \<Rightarrow> column list \<Rightarrow> 'd Value list \<Rightarrow> nat \<Rightarrow> 8 word list \<Rightarrow> bool" where
  "col_placed fp cs vs j buf \<longleftrightarrow>
     (if is_inlined (cs ! j) then placed (fixed_before cs j) (enc fp (vs ! j)) buf
      else placed (fixed_before cs j) (le_bytes 4 (int (fixed_before cs (length cs) + var_before vs j))) buf \<and>
        placed (fixed_before cs (length cs) + var_before vs j) (enc fp (vs ! j)) buf)"

lemma row_bounds:
  assumes "row_ok fp cs vs" and "j < length cs"
  shows "fixed_before cs j + nat (fixed_length (cs ! j)) \<le> fixed_before cs (length cs)"
    and "var_before vs j + var_size (vs ! j) \<le> var_before vs (length vs)"
  using fixed_before_mono [of "Suc j" "length cs" cs] var_before_mono [of "Suc j" "length vs" vs] assms
  by (simp_all add: fixed_before_Suc var_before_Suc row_ok_def)

lemma row_bounds_less:
  assumes "row_ok fp cs vs" and "j < k" and "k < length cs"
  shows "fixed_before cs j + nat (fixed_length (cs ! j)) \<le> fixed_before cs k"
    and "var_before vs j + var_size (vs ! j) \<le> var_before vs k"
  using fixed_before_mono [of "Suc j" k cs] var_before_mono [of "Suc j" k vs] assms
  by (simp_all add: fixed_before_Suc var_before_Suc row_ok_def)

text \<open>Writing into the fixed part of column \<open>k\<close>, or at its place in the variable part, leaves the
  columns before it alone.\<close>

lemma enc_length: "row_ok fp cs vs \<Longrightarrow> fp_bytes_ok fp \<Longrightarrow> j < length cs \<Longrightarrow>
  length (enc fp (vs ! j)) = stored_size (vs ! j) \<and>
  (is_inlined (cs ! j) \<longrightarrow> stored_size (vs ! j) \<le> nat (fixed_length (cs ! j)) \<and> var_size (vs ! j) = 0) \<and>
  (\<not> is_inlined (cs ! j) \<longrightarrow> fixed_length (cs ! j) = 4 \<and> var_size (vs ! j) = stored_size (vs ! j))"
  using enc_spec(2) [of fp "vs ! j"] by (auto simp: row_ok_def col_takes_def var_size_def nat_le_iff split: if_splits)

lemma col_placed_fixed:
  assumes row: "row_ok fp cs vs" "fp_bytes_ok fp" and jk: "j < k" "k < length cs"
    and len: "length buf = total_size cs vs" and bs: "int (length bs) \<le> fixed_length (cs ! k)"
    and pl: "col_placed fp cs vs j buf"
  shows "col_placed fp cs vs j (place (fixed_before cs k) bs buf)"
proof -
  note e = enc_length [OF row less_trans [OF jk]] and b = row_bounds_less [OF row(1) jk] row_bounds [OF row(1) jk(2)]
    row_bounds [OF row(1) less_trans [OF jk]]
  have fit: "fixed_before cs k + length bs \<le> length buf" using b(3) bs len by (simp add: total_size_def)
  show ?thesis
  proof (cases "is_inlined (cs ! j)")
    case True
    then show ?thesis using pl fit e b(1) by (auto simp: col_placed_def intro!: placed_other)
  next
    case False
    then show ?thesis using pl fit e b bs by (auto simp: col_placed_def intro!: placed_other simp del: le_bytes.simps)
  qed
qed

lemma col_placed_var:
  assumes row: "row_ok fp cs vs" "fp_bytes_ok fp" and jk: "j < k" "k < length cs"
    and len: "length buf = total_size cs vs" and bs: "length bs \<le> var_size (vs ! k)"
    and pl: "col_placed fp cs vs j buf"
  shows "col_placed fp cs vs j (place (fixed_before cs (length cs) + var_before vs k) bs buf)"
proof -
  note e = enc_length [OF row less_trans [OF jk]] and b = row_bounds_less [OF row(1) jk] row_bounds [OF row(1) jk(2)]
    row_bounds [OF row(1) less_trans [OF jk]]
  have fit: "fixed_before cs (length cs) + var_before vs k + length bs \<le> length buf"
    using b(4) bs len by (simp add: total_size_def)
  show ?thesis
  proof (cases "is_inlined (cs ! j)")
    case True
    then show ?thesis using pl fit e b by (auto simp: col_placed_def intro!: placed_other)
  next
    case False
    then show ?thesis using pl fit e b by (auto simp: col_placed_def intro!: placed_other simp del: le_bytes.simps)
  qed
qed

lemma serialize_step:
  assumes row: "row_ok fp cs vs" "fp_bytes_ok fp" and k: "k < length cs"
    and len: "length buf = total_size cs vs" and pl: "\<forall>j < k. col_placed fp cs vs j buf"
  shows "\<exists>buf'. serialize_loop fp (Schema_new cs) k (vs ! k # rest) (int (fixed_before cs (length cs) + var_before vs k)) buf =
      serialize_loop fp (Schema_new cs) (k + 1) rest (int (fixed_before cs (length cs) + var_before vs (k + 1))) buf' \<and>
    length buf' = total_size cs vs \<and> (\<forall>j < k + 1. col_placed fp cs vs j buf')"
proof -
  let ?s = "Schema_new cs" and ?v = "vs ! k" and ?o = "fixed_before cs k"
  let ?L = "fixed_before cs (length cs)" and ?w = "var_before vs k"
  note S = Schema_new_simps [OF row_ok_lengths [OF row(1)]]
  note e = enc_length [OF row k] and b = row_bounds [OF row(1) k]
  have c: "col_takes fp (cs ! k) ?v" and st: "storable fp ?v" and n: "length vs = length cs"
    using row(1) k by (auto simp: row_ok_def col_takes_def)
  show ?thesis
  proof (cases "is_inlined (cs ! k)")
    case True
    let ?buf = "place ?o (enc fp ?v) buf"
    have fit: "?o + stored_size ?v \<le> length buf" using e b(1) True len by (simp add: total_size_def)
    have "serialize_loop fp ?s k (?v # rest) (int (?L + ?w)) buf =
        serialize_loop fp ?s (k + 1) rest (int (?L + var_before vs (k + 1))) ?buf"
      using S(4,6) [OF k] True serialize_at_place [OF st row(2) fit] e k n by (simp add: var_before_Suc)
    moreover have "col_placed fp cs vs j ?buf" if "j < k + 1" for j
    proof (cases "j = k")
      case True
      then show ?thesis using \<open>is_inlined (cs ! k)\<close> fit e by (simp add: col_placed_def placed_place)
    next
      case False
      then have j: "j < k" using that by simp
      have "int (length (enc fp ?v)) \<le> fixed_length (cs ! k)" using e True c by (simp add: col_takes_def)
      from col_placed_fixed [OF row j k len this] pl j show ?thesis by blast
    qed
    ultimately show ?thesis using fit e len by (intro exI [of _ ?buf]) simp
  next
    case False
    let ?b1 = "place ?o (le_bytes 4 (int (?L + ?w))) buf"
    let ?buf = "place (?L + ?w) (enc fp ?v) ?b1"
    have t: "type_id_m ?v = VARCHAR" "\<not> IsNull ?v" "fixed_length (cs ! k) = 4"
      using c False by (simp_all add: col_takes_def)
    have fit1: "?o + 4 \<le> length buf" using b(1) t(3) len by (simp add: total_size_def)
    then have len1: "length ?b1 = total_size cs vs" using len by (simp del: le_bytes.simps)
    have fit2: "?L + ?w + stored_size ?v \<le> length ?b1"
      unfolding len1 using b(2) e False by (simp add: total_size_def)
    obtain m where m: "value_GetLength ?v = Inr m" "m + 4 = int (var_size ?v)"
      using value_GetLength_var [OF t(1,2) st] by blast
    have "int (?L + ?w) + int (var_size ?v) < 2 ^ 31"
      using row(1) b(2) unfolding row_ok_def by linarith
    then have w: "wrap_s 32 (int (?L + ?w) + (m + 4)) = int (?L + var_before vs (k + 1))"
      using k n m(2) by (subst wrap_s_id) (simp_all add: var_before_Suc)
    have "serialize_loop fp ?s k (?v # rest) (int (?L + ?w)) buf =
        serialize_loop fp ?s (k + 1) rest (int (?L + var_before vs (k + 1))) ?buf"
      using S(4,6) [OF k] False write_int32_place [OF fit1] serialize_at_place [OF st row(2) fit2] m(1) w
      by (simp del: of_nat_add le_bytes.simps)
    moreover have "col_placed fp cs vs j ?buf" if "j < k + 1" for j
    proof (cases "j = k")
      case True
      have p1: "placed ?o (le_bytes 4 (int (?L + ?w))) ?b1" using fit1 by (intro placed_place) (simp del: le_bytes.simps)
      have "placed ?o (le_bytes 4 (int (?L + ?w))) ?buf"
        by (rule placed_other [OF p1]) (use fit2 e b(1) t(3) in \<open>simp_all del: le_bytes.simps\<close>)
      moreover have "placed (?L + ?w) (enc fp ?v) ?buf" using fit2 e by (intro placed_place) simp
      ultimately show ?thesis using True False by (simp add: col_placed_def)
    next
      case False
      then have j: "j < k" using that by simp
      have "int (length (le_bytes 4 (int (?L + ?w)))) \<le> fixed_length (cs ! k)" using t(3) by (simp del: le_bytes.simps)
      from col_placed_fixed [OF row j k len this] pl j have "col_placed fp cs vs j ?b1" by blast
      moreover have "length (enc fp ?v) \<le> var_size ?v" using e \<open>\<not> is_inlined (cs ! k)\<close> by simp
      ultimately show ?thesis using col_placed_var [OF row j k len1] by blast
    qed
    moreover have "length ?buf = total_size cs vs" using fit2 e len1 by simp
    ultimately show ?thesis by blast
  qed
qed

lemma serialize_loop_spec:
  assumes row: "row_ok fp cs vs" "fp_bytes_ok fp" and "k \<le> length cs" and "rest = drop k vs"
    and "length buf = total_size cs vs" and "\<forall>j < k. col_placed fp cs vs j buf"
  shows "\<exists>buf'. serialize_loop fp (Schema_new cs) k rest (int (fixed_before cs (length cs) + var_before vs k)) buf = Inr buf' \<and>
    length buf' = total_size cs vs \<and> (\<forall>j < length cs. col_placed fp cs vs j buf')"
  using assms(3-6)
proof (induction rest arbitrary: k buf)
  case Nil
  then have "k = length cs" using row(1) by (simp add: row_ok_def)
  then show ?case using Nil by auto
next
  case (Cons v rest)
  have k: "k < length cs" using Cons.prems(1,2) row(1) by (metis drop_all le_neq_implies_less list.discI order_refl row_ok_def)
  then have v: "v = vs ! k" "rest = drop (k + 1) vs"
    using Cons.prems(2) row(1) by (metis Cons_nth_drop_Suc Suc_eq_plus1 list.inject row_ok_def)+
  obtain buf' where b: "serialize_loop fp (Schema_new cs) k (v # rest) (int (fixed_before cs (length cs) + var_before vs k)) buf =
      serialize_loop fp (Schema_new cs) (k + 1) rest (int (fixed_before cs (length cs) + var_before vs (k + 1))) buf'"
    "length buf' = total_size cs vs" "\<forall>j < k + 1. col_placed fp cs vs j buf'"
    using serialize_step [OF row k Cons.prems(3,4), of rest] v(1) by blast
  show ?case using Cons.IH [OF _ v(2) b(2,3)] k b(1) by simp
qed

section \<open>Reading a tuple\<close>

text \<open>What is read at a column, by \<open>GetValue\<close> of a tuple and by \<open>ToValue\<close> of a key.\<close>

lemma read_column:
  assumes row: "row_ok fp cs vs" "fp_bytes_ok fp" and j: "j < length cs" and pl: "col_placed fp cs vs j buf"
  shows "and_then (if Schema_IsInlined j (Schema_new cs) then pointer_at (GetOffset j (Schema_new cs)) buf
      else and_then (pointer_at (GetOffset j (Schema_new cs)) buf) (\<lambda>p. pointer_at (load_int 4 p) buf))
    (\<lambda>p. value_DeserializeFrom fp p (GetType j (Schema_new cs))) = Inr (vs ! j)"
proof -
  note S = Schema_new_simps(4-6) [OF row_ok_lengths [OF row(1)] j]
  have c: "type_id_m (vs ! j) = column_type (cs ! j)" and st: "storable fp (vs ! j)"
    using row(1) j by (auto simp: row_ok_def col_takes_def)
  have ptr: "pointer_at (int o') buf = Inr (bs @ drop (o' + length bs) buf)" if "placed o' bs buf" for o' bs
    using that placed_drop [OF that] by (simp add: pointer_at_def placed_def)
  have des: "value_DeserializeFrom fp (enc fp (vs ! j) @ r) (column_type (cs ! j)) = Inr (vs ! j)" for r
    using enc_spec(3) [OF st row(2)] c by simp
  show ?thesis
  proof (cases "is_inlined (cs ! j)")
    case True
    then show ?thesis using pl ptr des by (simp add: S col_placed_def)
  next
    case False
    let ?w = "int (fixed_before cs (length cs) + var_before vs j)"
    have "var_before vs j \<le> var_before vs (length vs)"
      using var_before_mono [of j "length vs" vs] j row(1) by (simp add: row_ok_def)
    then have "?w < 2 ^ 31" using row(1) unfolding row_ok_def by linarith
    then have "load_int 4 (le_bytes 4 ?w @ r) = ?w" for r
      using load_int_store [of 4 ?w "replicate 4 0 @ r"] by (simp add: store_bytes_def in_range_s_def del: le_bytes.simps)
    moreover have "placed (fixed_before cs j) (le_bytes 4 ?w) buf"
      "placed (fixed_before cs (length cs) + var_before vs j) (enc fp (vs ! j)) buf"
      using pl False by (simp_all add: col_placed_def)
    note this [THEN ptr]
    ultimately show ?thesis using des False by (simp add: S del: of_nat_add le_bytes.simps)
  qed
qed

lemma uninlined_sum:
  assumes row: "row_ok fp cs vs"
  shows "tuple_size_loop vs (uninlined_columns (Schema_new cs)) (length_m (Schema_new cs)) = Inr (int (total_size cs vs))"
proof -
  note S = Schema_new_simps(2,3) [OF row_ok_lengths [OF row]]
  let ?is = "filter (\<lambda>k. \<not> is_inlined (cs ! k)) [0..<length cs]"
  have n: "length vs = length cs" using row by (simp add: row_ok_def)
  have v: "i < length cs \<Longrightarrow> (\<not> is_inlined (cs ! i)) = (type_id_m (vs ! i) = VARCHAR) \<and> storable fp (vs ! i) \<and>
      (\<not> is_inlined (cs ! i) \<longrightarrow> \<not> IsNull (vs ! i))" for i
    using row by (auto simp: row_ok_def col_takes_def split: if_splits)
  have sum: "sum_list (map (\<lambda>i. var_size (vs ! i)) ?is) = var_before vs (length vs)"
    using sum_filter_var [of vs "\<lambda>k. \<not> is_inlined (cs ! k)"] v n by auto
  have "\<forall>i \<in> set ?is. type_id_m (vs ! i) = VARCHAR \<and> \<not> IsNull (vs ! i) \<and> storable fp (vs ! i)"
    using v by auto
  moreover have "length_m (Schema_new cs) + int (var_before vs (length vs)) < 2 ^ 31"
    using row unfolding S row_ok_def by linarith
  ultimately show ?thesis
    using tuple_size_loop_spec [of ?is vs fp "length_m (Schema_new cs)"] unfolding S sum total_size_def by simp
qed

lemma Tuple_new_spec:
  assumes row: "row_ok fp cs vs" "fp_bytes_ok fp"
  shows "\<exists>t buf. Tuple_new fp vs (Schema_new cs) mem = Inr t \<and> data_t t = Some buf \<and> size_m t = int (total_size cs vs) \<and>
    length buf = total_size cs vs \<and> (\<forall>j < length cs. col_placed fp cs vs j buf)"
proof -
  have n: "length vs = length cs" using row(1) by (simp add: row_ok_def)
  have z: "var_before vs 0 = 0" by (simp add: var_before_def)
  obtain buf where "serialize_loop fp (Schema_new cs) 0 vs (int (fixed_before cs (length cs) + var_before vs 0))
      (map mem [0..<total_size cs vs]) = Inr buf" "length buf = total_size cs vs"
      "\<forall>j < length cs. col_placed fp cs vs j buf"
    using serialize_loop_spec [OF row, of 0 vs "map mem [0..<total_size cs vs]"] by auto
  then show ?thesis
    using uninlined_sum [OF row(1)] Schema_new_simps(1,2) [OF row_ok_lengths [OF row(1)]] n z
    by (simp add: Tuple_new_def GetColumnCount_def)
qed

text \<open>C10. A tuple built from a row of values that fit its schema (a string that is NULL does not)
  has exactly these values in its columns, whatever the memory it was built in held.\<close>

theorem tuple_roundtrip:
  assumes "row_ok fp cs vs" and "fp_bytes_ok fp"
  shows "\<exists>t. Tuple_new fp vs (Schema_new cs) mem = Inr t \<and>
    (\<forall>j < length cs. Tuple_GetValue fp (Schema_new cs) j t = Inr (vs ! j))"
proof -
  obtain t buf where t: "Tuple_new fp vs (Schema_new cs) mem = Inr t" "data_t t = Some buf"
    "\<forall>j < length cs. col_placed fp cs vs j buf"
    using Tuple_new_spec [OF assms] by blast
  have "Tuple_GetValue fp (Schema_new cs) j t = Inr (vs ! j)" if j: "j < length cs" for j
    using read_column [OF assms j] t(2,3) j by (simp add: Tuple_GetValue_def GetDataPtr_def)
  with t(1) show ?thesis by blast
qed

text \<open>A row with an integer and a string.\<close>

definition sample_columns :: "column list" where
  "sample_columns = [\<lparr>column_type = INTEGER, fixed_length = 4, variable_length = 0, column_name = ''a'',
      is_inlined = True, column_offset = -1\<rparr>,
    \<lparr>column_type = VARCHAR, fixed_length = 4, variable_length = 16, column_name = ''b'', is_inlined = False,
      column_offset = -1\<rparr>]"

definition sample_rows :: "int \<Rightarrow> 64 word Value list" where
  "sample_rows n = [mk_int INTEGER n False,
    \<lparr>type_id_m = VARCHAR, len_m = 2, manage_data_m = True, val_m = StrVal (Some [104, 0])\<rparr>]"

lemma sample_int:
  assumes "\<bar>n\<bar> < 1000"
  shows "int_value INTEGER 32 (mk_int INTEGER n False)"
proof -
  have "in_range_s 32 n \<and> \<not> n = int_null 32" using assms by (auto simp: in_range_s_def int_null_def)
  moreover have "type_width INTEGER 32" by (simp add: type_width_def)
  ultimately show ?thesis unfolding int_value_def by (intro conjI exI [of _ n]) simp_all
qed

lemma sample_row_ok:
  assumes "\<bar>n\<bar> < 1000"
  shows "row_ok fp_bits sample_columns (sample_rows n)"
proof -
  have "int_value INTEGER 32 (mk_int INTEGER n False)" by (rule sample_int [OF assms])
  then have 1: "storable fp_bits (mk_int INTEGER n False)" unfolding storable_def by blast
  have "Value_varlen VARCHAR (Some [104, 0]) (int (length [104, 0 :: 8 word])) True =
      Inr \<lparr>type_id_m = VARCHAR, len_m = 2, manage_data_m = True, val_m = StrVal (Some [104, 0])\<rparr>"
    by (simp add: Value_varlen_def PELOTON_VARCHAR_MAX_LEN_def)
  moreover have "int (length [104, 0 :: 8 word]) < PELOTON_VALUE_NULL" by (simp add: PELOTON_VALUE_NULL_def)
  ultimately have 2: "storable fp_bits \<lparr>type_id_m = VARCHAR, len_m = 2, manage_data_m = True, val_m = StrVal (Some [104, 0])\<rparr>"
    unfolding storable_def by blast
  show ?thesis using 1 2
    by (auto simp: row_ok_def sample_columns_def sample_rows_def less_Suc_eq col_takes_def stored_size_def GetTypeSize_def
        IsNull_def PELOTON_VALUE_NULL_def fixed_before_def var_before_def var_size_def mk_int_def null_len_def)
qed

theorem tuple_roundtrip_witness:
  "\<exists>t. Tuple_new fp_bits (sample_rows 7) (Schema_new sample_columns) (\<lambda>_. 255) = Inr t \<and>
    Tuple_GetValue fp_bits (Schema_new sample_columns) 1 t = Inr (sample_rows 7 ! 1)"
proof -
  have "1 < length sample_columns" by (simp add: sample_columns_def)
  then show ?thesis using tuple_roundtrip [OF sample_row_ok fp_bits_ok, of 7 "\<lambda>_. 255"] by auto
qed

text \<open>C33. A NULL string takes four bytes of storage but is counted as three, so that building a tuple
  of one such column writes outside its buffer.\<close>

theorem null_varchar_overflows:
  assumes "Column_new VARCHAR n name = Inr c" and "Value_varlen VARCHAR None 0 False = Inr v"
  shows "Tuple_new fp [v] (Schema_new [c]) mem = Inl OutOfBounds"
proof -
  have c: "column_type c = VARCHAR" "\<not> is_inlined c" "fixed_length c = 4"
    using assms(1) by (auto simp: Column_new_def SetInlined_def SetLength_def Column_default_def Let_def)
  have v: "v = \<lparr>type_id_m = VARCHAR, len_m = PELOTON_VALUE_NULL, manage_data_m = False, val_m = StrVal None\<rparr>"
    using assms(2) by (simp add: Value_varlen_def)
  have "tuple_size_loop [v] [0] 4 = Inr 7"
    by (simp add: v value_GetLength_def Varlen_GetLength_def PELOTON_VALUE_NULL_def wrap_s_def)
  moreover have "serialize_at fp v 4 buf = Inl OutOfBounds" if "length buf = 7" for buf
    using that by (simp add: v serialize_at_def value_SerializeTo_def Varlen_SerializeTo_def Varlen_GetLength_def
        store_bytes_def Let_def del: le_bytes.simps)
  ultimately show ?thesis
    by (simp add: Tuple_new_def Schema_new_def GetColumnCount_def Schema_IsInlined_def GetOffset_def c write_int32_def
        store_bytes_def Let_def del: le_bytes.simps upt.simps upt_rec_numeral)
qed

theorem null_varchar_overflows_witness:
  "\<exists>c v. Column_new VARCHAR 8 ''s'' = Inr c \<and> Value_varlen VARCHAR None 0 False = Inr v \<and>
    Tuple_new fp_bits [v] (Schema_new [c]) (\<lambda>_. 0) = Inl OutOfBounds"
proof -
  obtain c where c: "Column_new VARCHAR 8 ''s'' = Inr c"
    by (auto simp: Column_new_def SetInlined_def Column_default_def Let_def)
  obtain v :: "64 word Value" where v: "Value_varlen VARCHAR None 0 False = Inr v" by (auto simp: Value_varlen_def)
  show ?thesis using null_varchar_overflows [OF c v] c v by blast
qed

end
