(* ===== verification/KeyOrder.thy ===== *)
theory KeyOrder imports TupleProps BPage begin

text \<open>
  The comparator of \<open>index/generic_key.h\<close> is a total order on the keys made from rows of non-NULL
  integers and strings, so that it meets the contract of the index pages.
\<close>

section \<open>The order of values\<close>

text \<open>The values an index can order: integers that are not NULL, and strings.\<close>

definition orderable :: "'d Value \<Rightarrow> bool" where
  "orderable v \<longleftrightarrow> (\<exists>t w. int_value t w v \<and> \<not> IsNull v) \<or>
     (\<exists>s. Value_string VARCHAR s = Inr v \<and> int (length s) < 2 ^ 31)"

definition value_order :: "'d Value \<Rightarrow> 'd Value \<Rightarrow> int" where
  "value_order v v' = (if type_id_m v = VARCHAR then bytes_order (butlast (value_bytes v)) (butlast (value_bytes v'))
     else value_int v - value_int v')"

lemma bytes_order_refl [simp]: "bytes_order a a = 0"
  by (simp add: bytes_order_def)

lemma bytes_order_eq: "bytes_order a b = 0 \<longleftrightarrow> a = b"
  by (simp add: bytes_order_def)

lemma bytes_order_sym: "bytes_order b a = - bytes_order a b"
  by (induction a b rule: list_induct2') auto

lemma bytes_order_trans: "bytes_order a b < 0 \<Longrightarrow> bytes_order b c < 0 \<Longrightarrow> bytes_order a c < 0"
proof (induction a arbitrary: b c)
  case Nil
  then show ?case by (cases b; cases c) (auto split: if_splits)
next
  case (Cons x a)
  from Cons.prems show ?case
    by (cases b; cases c) (auto split: if_splits intro: Cons.IH)
qed

lemma orderable_cases [consumes 1, case_names int str]:
  assumes "orderable v"
  obtains t w where "int_value t w v" "\<not> IsNull v" "type_id_m v = t" "t \<noteq> VARCHAR"
  | s where "Value_string VARCHAR s = Inr v" "int (length s) < 2 ^ 31" "type_id_m v = VARCHAR"
    "value_bytes v = map char_byte s @ [0]"
proof -
  from assms consider t w where "int_value t w v" "\<not> IsNull v"
    | s where "Value_string VARCHAR s = Inr v" "int (length s) < 2 ^ 31" unfolding orderable_def by blast
  then show ?thesis
  proof cases
    case 1
    moreover from this have "t \<noteq> VARCHAR" by (auto simp: int_value_def type_width_def)
    ultimately show ?thesis using that(1) int_value_type by blast
  next
    case (2 s)
    moreover from this have "type_id_m v = VARCHAR" "value_bytes v = map char_byte s @ [0]"
      by (auto simp: Value_string_def Let_def value_bytes_def)
    ultimately show ?thesis using that(2) by blast
  qed
qed

lemma value_order_compare:
  assumes "orderable v" and "orderable v'" and "type_id_m v = type_id_m v'"
  shows "value_Compare fp op v v' = Inr (GetCmpBool (cmp_int op (value_order v v') 0))"
  using assms(1)
proof (cases rule: orderable_cases)
  case (int t w)
  from assms(2) int assms(3) obtain w' where v': "int_value t w' v'" "\<not> IsNull v'"
    by (cases rule: orderable_cases) auto
  have "cmp_int op (value_int v) (value_int v') = cmp_int op (value_int v - value_int v') 0"
    by (cases op) (auto simp: cmp_int_def)
  then show ?thesis using int_compare [OF int(1) v'(1), of fp op] int(2-4) v'(2) by (simp add: value_order_def)
next
  case (str s)
  from assms(2) str assms(3) obtain s' where v': "Value_string VARCHAR s' = Inr v'" "int (length s') < 2 ^ 31"
    "value_bytes v' = map char_byte s' @ [0]"
    by (cases rule: orderable_cases) auto
  show ?thesis using varlen_compare_strings [OF str(1,2) v'(1,2), of fp op] str(3,4) v'(3)
    by (simp add: value_order_def value_Compare_varchar)
qed

lemma value_order_sym:
  "type_id_m v = type_id_m v' \<Longrightarrow> value_order v' v = - value_order v v'"
  by (auto simp: value_order_def bytes_order_sym [of "butlast (value_bytes v)"])

lemma value_order_trans:
  "type_id_m u = type_id_m v \<Longrightarrow> type_id_m v = type_id_m w \<Longrightarrow> value_order u v < 0 \<Longrightarrow> value_order v w < 0 \<Longrightarrow>
   value_order u w < 0"
  by (auto simp: value_order_def intro: bytes_order_trans split: if_splits)

lemma map_char_byte_inj: "map char_byte s = map char_byte s' \<Longrightarrow> s = s'"
  by (metis map_byte_char map_map)

lemma type_width_fun: "type_width t w \<Longrightarrow> type_width t w' \<Longrightarrow> w = w'"
  by (auto simp: type_width_def)

lemma value_order_eq:
  assumes "orderable v" and "orderable v'" and "type_id_m v = type_id_m v'" and "value_order v v' = 0"
  shows "v = v'"
  using assms(1)
proof (cases rule: orderable_cases)
  case (int t w)
  from assms(2) int assms(3) obtain w' where v': "int_value t w' v'" by (cases rule: orderable_cases) auto
  have "value_int v = value_int v'" using assms(4) int(3,4) by (simp add: value_order_def)
  moreover have "w = w'" using int(1) v' type_width_fun by (auto simp: int_value_def)
  ultimately show ?thesis using int_value_mk [OF int(1)] int_value_mk [OF v'] by metis
next
  case (str s)
  from assms(2) str assms(3) obtain s' where v': "Value_string VARCHAR s' = Inr v'" "value_bytes v' = map char_byte s' @ [0]"
    by (cases rule: orderable_cases) auto
  have "s = s'" using assms(4) str(3,4) v'(2) by (intro map_char_byte_inj) (simp add: value_order_def bytes_order_eq)
  then show ?thesis using str(1) v'(1) by simp
qed

section \<open>The order of rows\<close>

fun row_order :: "'d Value list \<Rightarrow> 'd Value list \<Rightarrow> int" where
  "row_order (v # vs) (v' # vs') =
     (if value_order v v' < 0 then - 1 else if 0 < value_order v v' then 1 else row_order vs vs')"
| "row_order _ _ = 0"

definition same_types :: "'d Value list \<Rightarrow> 'd Value list \<Rightarrow> bool" where
  "same_types vs vs' \<longleftrightarrow> map type_id_m vs = map type_id_m vs'"

lemma row_order_refl: "row_order vs vs = 0"
  by (induction vs) (auto simp: value_order_def)

lemma row_order_sym: "same_types vs vs' \<Longrightarrow> row_order vs' vs = - row_order vs vs'"
proof (induction vs vs' rule: row_order.induct)
  case (1 v vs v' vs')
  then have "value_order v' v = - value_order v v'" "same_types vs vs'"
    by (auto simp: same_types_def intro: value_order_sym)
  then show ?case using 1 by simp
qed (simp_all add: same_types_def)

lemma row_order_eq:
  "same_types vs vs' \<Longrightarrow> \<forall>v \<in> set vs. orderable v \<Longrightarrow> \<forall>v \<in> set vs'. orderable v \<Longrightarrow> row_order vs vs' = 0 \<Longrightarrow> vs = vs'"
  by (induction vs vs' rule: row_order.induct) (auto simp: same_types_def split: if_splits intro: value_order_eq)

lemma row_order_trans:
  assumes "same_types us vs" and "same_types vs ws" and "\<forall>v \<in> set us \<union> set vs \<union> set ws. orderable v"
    and "row_order us vs < 0" and "row_order vs ws < 0"
  shows "row_order us ws < 0"
  using assms
proof (induction us arbitrary: vs ws)
  case (Cons u us)
  then obtain v vs' w ws' where e: "vs = v # vs'" "ws = w # ws'"
    by (auto simp: same_types_def map_eq_Cons_conv)
  have t: "type_id_m u = type_id_m v" "type_id_m v = type_id_m w" "same_types us vs'" "same_types vs' ws'"
    using Cons.prems(1,2) by (auto simp: same_types_def e)
  have o: "orderable u" "orderable v" "orderable w" using Cons.prems(3) by (auto simp: e)
  consider "value_order u v < 0" | "value_order u v = 0" "row_order us vs' < 0"
    using Cons.prems(4) by (auto simp: e split: if_splits)
  then show ?case
  proof cases
    case 1
    have "value_order v w \<le> 0" using Cons.prems(5) by (auto simp: e split: if_splits)
    then have "value_order u w < 0"
      using 1 value_order_trans [OF t(1,2)] value_order_eq [OF o(2,3) t(2)] by (cases "value_order v w = 0") auto
    then show ?thesis by (simp add: e)
  next
    case 2
    then have "u = v" using value_order_eq [OF o(1,2) t(1)] by blast
    moreover have "row_order us ws' < 0" if "row_order vs' ws' < 0"
      using Cons.IH [OF t(3,4)] Cons.prems(3) 2(2) that by (auto simp: e)
    ultimately show ?thesis using Cons.prems(5) by (auto simp: e split: if_splits)
  qed
qed simp

section \<open>Keys\<close>

text \<open>The inlined columns take exactly the bytes of their type, as \<open>Column\<close> makes them.\<close>

definition exact_cols :: "column list \<Rightarrow> bool" where
  "exact_cols cs \<longleftrightarrow> (\<forall>c \<in> set cs. is_inlined c \<longrightarrow> (\<exists>n. GetTypeSize (column_type c) = Inr n \<and> fixed_length c = int n))"

text \<open>A key of \<open>N\<close> bytes made from a row of values an index can order, in whatever memory.\<close>

definition key_of_row :: "'d fp \<Rightarrow> column list \<Rightarrow> nat \<Rightarrow> 'd Value list \<Rightarrow> generic_key \<Rightarrow> bool" where
  "key_of_row fp cs N vs key \<longleftrightarrow> row_ok fp cs vs \<and> (\<forall>v \<in> set vs. orderable v) \<and>
     (\<exists>mem t. Tuple_new fp vs (Schema_new cs) mem = Inr t \<and> SetFromKey N t = Inr key)"

definition key_set :: "'d fp \<Rightarrow> column list \<Rightarrow> nat \<Rightarrow> generic_key set" where
  "key_set fp cs N = {key. fp_bytes_ok fp \<and> exact_cols cs \<and> (\<exists>vs. key_of_row fp cs N vs key)}"

definition key_cmp :: "'d fp \<Rightarrow> column list \<Rightarrow> generic_key \<Rightarrow> generic_key \<Rightarrow> int" where
  "key_cmp fp cs l r = (case GenericComparator fp (Schema_new cs) l r of Inr i \<Rightarrow> i | Inl _ \<Rightarrow> 0)"

lemma key_of_row_bytes:
  assumes "key_of_row fp cs N vs key" and "fp_bytes_ok fp"
  shows "\<exists>buf. key = buf @ replicate (N - total_size cs vs) 0 \<and> length buf = total_size cs vs \<and>
    (\<forall>j < length cs. col_placed fp cs vs j buf)"
proof -
  have row: "row_ok fp cs vs" using assms(1) by (simp add: key_of_row_def)
  obtain mem t where t: "Tuple_new fp vs (Schema_new cs) mem = Inr t" "SetFromKey N t = Inr key"
    using assms(1) by (auto simp: key_of_row_def)
  obtain buf where b: "data_t t = Some buf" "tuple.size_m t = int (total_size cs vs)" "length buf = total_size cs vs"
    "\<forall>j < length cs. col_placed fp cs vs j buf"
    using Tuple_new_spec [OF row assms(2), of mem] t(1) by auto
  have "key = buf @ replicate (N - total_size cs vs) 0"
    using t(2) b(1-3) by (auto simp: SetFromKey_def store_bytes_def Let_def split: if_splits)
  then show ?thesis using b(3,4) by blast
qed

lemma placed_append: "placed a xs buf \<Longrightarrow> placed a xs (buf @ ys)"
  by (auto simp: placed_def)

lemma col_placed_append: "col_placed fp cs vs j buf \<Longrightarrow> col_placed fp cs vs j (buf @ ys)"
  by (auto simp: col_placed_def placed_append split: if_splits)

lemma key_values:
  assumes "key_of_row fp cs N vs key" and "fp_bytes_ok fp" and "j < length cs"
  shows "ToValue fp (Schema_new cs) j key = Inr (vs ! j)"
proof -
  obtain buf where "key = buf @ replicate (N - total_size cs vs) 0" "\<forall>j < length cs. col_placed fp cs vs j buf"
    using key_of_row_bytes [OF assms(1,2)] by blast
  then have "col_placed fp cs vs j key" using assms(3) col_placed_append by blast
  then show ?thesis using read_column [of fp cs vs j key] assms by (simp add: ToValue_def key_of_row_def Let_def)
qed

lemma row_same_types: "row_ok fp cs vs \<Longrightarrow> row_ok fp cs vs' \<Longrightarrow> same_types vs vs'"
  by (auto simp: same_types_def row_ok_def col_takes_def intro!: nth_equalityI)

lemma compare_loop_row_order:
  assumes k: "key_of_row fp cs N vs l" "key_of_row fp cs N vs' r" and fp: "fp_bytes_ok fp" and "k \<le> length cs"
  shows "compare_loop fp (Schema_new cs) l r [k..<length cs] = Inr (row_order (drop k vs) (drop k vs'))"
  using assms(4)
proof (induction "length cs - k" arbitrary: k)
  case 0
  then have "drop k vs = []" using k(1) by (simp add: key_of_row_def row_ok_def)
  then show ?case using 0 by simp
next
  case (Suc n)
  then have j: "k < length cs" by simp
  have len: "length vs = length cs" "length vs' = length cs" using k by (simp_all add: key_of_row_def row_ok_def)
  have o: "orderable (vs ! k)" "orderable (vs' ! k)" using k j len by (auto simp: key_of_row_def)
  have "same_types vs vs'" using k row_same_types by (auto simp: key_of_row_def)
  then have "map type_id_m vs ! k = map type_id_m vs' ! k" by (simp add: same_types_def)
  then have t: "type_id_m (vs ! k) = type_id_m (vs' ! k)" using j len by (simp only: nth_map)
  have C: "value_CompareLessThan fp (vs ! k) (vs' ! k) = Inr (GetCmpBool (value_order (vs ! k) (vs' ! k) < 0))"
    "value_CompareGreaterThan fp (vs ! k) (vs' ! k) = Inr (GetCmpBool (0 < value_order (vs ! k) (vs' ! k)))"
    using value_order_compare [OF o t, of fp OpLT] value_order_compare [OF o t, of fp OpGT]
    by (simp_all add: value_Compare_def cmp_int_def)
  have "compare_loop fp (Schema_new cs) l r [Suc k..<length cs] = Inr (row_order (drop (Suc k) vs) (drop (Suc k) vs'))"
    using Suc.hyps(1) [of "Suc k"] Suc.hyps(2) j by simp
  moreover have "drop k vs = vs ! k # drop (Suc k) vs" "drop k vs' = vs' ! k # drop (Suc k) vs'"
    using j len by (simp_all add: Cons_nth_drop_Suc)
  moreover have "[k..<length cs] = k # [Suc k..<length cs]" using j by (simp add: upt_rec)
  ultimately show ?case
    by (simp only: compare_loop.simps row_order.simps key_values [OF k(1) fp j] key_values [OF k(2) fp j])
      (simp add: C GetCmpBool_def)
qed

lemma comparator_row_order:
  assumes "key_of_row fp cs N vs l" and "key_of_row fp cs N vs' r" and "fp_bytes_ok fp"
  shows "GenericComparator fp (Schema_new cs) l r = Inr (row_order vs vs')"
proof -
  have "row_ok fp cs vs" using assms(1) by (simp add: key_of_row_def)
  then have "length (columns (Schema_new cs)) = length cs" by (simp add: Schema_new_simps(1) [OF row_ok_lengths])
  then show ?thesis using compare_loop_row_order [OF assms, of 0] by (simp add: GenericComparator_def)
qed

text \<open>The bytes of the columns are all of a tuple, so that a row has one key.\<close>

lemma covered:
  fixes f :: "nat \<Rightarrow> nat"
  assumes "f 0 = 0" and "i < f n"
  shows "\<exists>j < n. f j \<le> i \<and> i < f (Suc j)"
  using assms(2)
proof (induction n)
  case (Suc n)
  then show ?case by (cases "i < f n") (auto intro: less_SucI)
qed (simp add: assms(1))

lemma enc_size: "row_ok fp cs vs \<Longrightarrow> fp_bytes_ok fp \<Longrightarrow> j < length cs \<Longrightarrow> length (enc fp (vs ! j)) = stored_size (vs ! j)"
  using enc_spec [of fp "vs ! j"] by (auto simp: row_ok_def col_takes_def)

lemma col_bytes_same:
  assumes row: "row_ok fp cs vs" and fp: "fp_bytes_ok fp" and ex: "exact_cols cs"
    and b: "length b = total_size cs vs" "\<forall>j < length cs. col_placed fp cs vs j b"
    and b': "length b' = total_size cs vs" "\<forall>j < length cs. col_placed fp cs vs j b'"
  shows "b = b'"
proof (rule nth_equalityI)
  show "length b = length b'" using b(1) b'(1) by simp
  fix i assume i: "i < length b"
  have same: "b ! i = b' ! i" if "placed a xs b" "placed a xs b'" "a \<le> i" "i < a + length xs" for a xs
    using that unfolding placed_iff_nth by (metis le_add_diff_inverse less_diff_conv2 add.commute)
  have len: "length vs = length cs" using row by (simp add: row_ok_def)
  show "b ! i = b' ! i"
  proof (cases "i < fixed_before cs (length cs)")
    case True
    then obtain j where j: "j < length cs" "fixed_before cs j \<le> i" "i < fixed_before cs (Suc j)"
      using covered [of "fixed_before cs" i "length cs"] by (auto simp: fixed_before_def)
    have c: "col_takes fp (cs ! j) (vs ! j)" using row j(1) by (simp add: row_ok_def)
    show ?thesis
    proof (cases "is_inlined (cs ! j)")
      case True
      then have "type_id_m (vs ! j) \<noteq> VARCHAR" "type_id_m (vs ! j) = column_type (cs ! j)" using c by (auto simp: col_takes_def)
      moreover obtain n where "GetTypeSize (column_type (cs ! j)) = Inr n" "fixed_length (cs ! j) = int n"
        using ex True j(1) by (auto simp: exact_cols_def)
      ultimately have "nat (fixed_length (cs ! j)) = length (enc fp (vs ! j))"
        using enc_size [OF row fp j(1)] by (simp add: stored_size_def)
      then show ?thesis
        using same [of "fixed_before cs j" "enc fp (vs ! j)"] b(2) b'(2) j True by (simp add: col_placed_def fixed_before_Suc)
    next
      case False
      then have "nat (fixed_length (cs ! j)) = 4" using c by (simp add: col_takes_def)
      then have k: "i < fixed_before cs j + length (le_bytes 4 (int (fixed_before cs (length cs) + var_before vs j)))"
        using j(1,3) by (simp add: fixed_before_Suc)
      have "placed (fixed_before cs j) (le_bytes 4 (int (fixed_before cs (length cs) + var_before vs j))) b"
        "placed (fixed_before cs j) (le_bytes 4 (int (fixed_before cs (length cs) + var_before vs j))) b'"
        using b(2) b'(2) j(1) False by (simp_all add: col_placed_def del: of_nat_add)
      then show ?thesis using same j(2) k by blast
    qed
  next
    case False
    then have "i - fixed_before cs (length cs) < var_before vs (length vs)" using i b(1) by (simp add: total_size_def)
    then obtain j where j: "j < length vs" "var_before vs j \<le> i - fixed_before cs (length cs)"
      "i - fixed_before cs (length cs) < var_before vs (Suc j)"
      using covered [of "var_before vs" "i - fixed_before cs (length cs)" "length vs"] by (auto simp: var_before_def)
    then have v: "type_id_m (vs ! j) = VARCHAR" by (auto simp: var_before_Suc var_size_def split: if_splits)
    have jc: "j < length cs" using j(1) len by simp
    have "col_takes fp (cs ! j) (vs ! j)" using row jc by (simp add: row_ok_def)
    then have ni: "\<not> is_inlined (cs ! j)" using v by (auto simp: col_takes_def)
    have "var_size (vs ! j) = length (enc fp (vs ! j))" using v enc_size [OF row fp jc] by (simp add: var_size_def)
    then have "fixed_before cs (length cs) + var_before vs j \<le> i"
      "i < fixed_before cs (length cs) + var_before vs j + length (enc fp (vs ! j))"
      using j False by (simp_all add: var_before_Suc)
    then show ?thesis
      using same [of "fixed_before cs (length cs) + var_before vs j" "enc fp (vs ! j)"] b(2) b'(2) jc ni by (simp add: col_placed_def)
  qed
qed

lemma key_of_row_fun:
  assumes "key_of_row fp cs N vs key" and "key_of_row fp cs N vs key'" and "fp_bytes_ok fp" and "exact_cols cs"
  shows "key = key'"
proof -
  obtain b where b: "key = b @ replicate (N - total_size cs vs) 0" "length b = total_size cs vs"
    "\<forall>j < length cs. col_placed fp cs vs j b" using key_of_row_bytes [OF assms(1,3)] by blast
  obtain b' where b': "key' = b' @ replicate (N - total_size cs vs) 0" "length b' = total_size cs vs"
    "\<forall>j < length cs. col_placed fp cs vs j b'" using key_of_row_bytes [OF assms(2,3)] by blast
  have "row_ok fp cs vs" using assms(1) by (simp add: key_of_row_def)
  from col_bytes_same [OF this assms(3,4) b(2,3) b'(2,3)] show ?thesis using b(1) b'(1) by simp
qed

section \<open>The contract of the index pages\<close>

lemma key_cmp_row:
  "key_of_row fp cs N vs l \<Longrightarrow> key_of_row fp cs N vs' r \<Longrightarrow> fp_bytes_ok fp \<Longrightarrow> key_cmp fp cs l r = row_order vs vs'"
  by (simp add: key_cmp_def comparator_row_order)

lemma key_rowE:
  assumes "key \<in> key_set fp cs N"
  obtains vs where "key_of_row fp cs N vs key" "fp_bytes_ok fp" "exact_cols cs" "row_ok fp cs vs" "\<forall>v \<in> set vs. orderable v"
  using assms by (auto simp: key_set_def key_of_row_def)

interpretation gk: key_order "key_cmp fp cs" "key_set fp cs N" for fp cs N
proof unfold_locales
  fix x assume "x \<in> key_set fp cs N"
  then show "key_cmp fp cs x x = 0" by (elim key_rowE) (simp add: key_cmp_row row_order_refl)
next
  fix x y assume xy: "x \<in> key_set fp cs N" "y \<in> key_set fp cs N" and "key_cmp fp cs x y = 0"
  obtain vs where vs: "key_of_row fp cs N vs x" "fp_bytes_ok fp" "exact_cols cs" "row_ok fp cs vs" "\<forall>v \<in> set vs. orderable v"
    using xy(1) by (rule key_rowE)
  obtain ws where ws: "key_of_row fp cs N ws y" "row_ok fp cs ws" "\<forall>v \<in> set ws. orderable v" using xy(2) by (rule key_rowE)
  have "row_order vs ws = 0" using \<open>key_cmp fp cs x y = 0\<close> key_cmp_row [OF vs(1) ws(1) vs(2)] by simp
  then have "vs = ws" using row_order_eq [OF row_same_types [OF vs(4) ws(2)] vs(5) ws(3)] by blast
  then show "x = y" using key_of_row_fun [OF vs(1) _ vs(2,3)] ws(1) by blast
next
  fix x y assume xy: "x \<in> key_set fp cs N" "y \<in> key_set fp cs N"
  obtain vs where vs: "key_of_row fp cs N vs x" "fp_bytes_ok fp" "row_ok fp cs vs" using xy(1) by (rule key_rowE)
  obtain ws where ws: "key_of_row fp cs N ws y" "row_ok fp cs ws" using xy(2) by (rule key_rowE)
  show "key_cmp fp cs x y < 0 \<longleftrightarrow> 0 < key_cmp fp cs y x"
    using row_order_sym [OF row_same_types [OF vs(3) ws(2)]] key_cmp_row [OF vs(1) ws(1) vs(2)] key_cmp_row [OF ws(1) vs(1) vs(2)]
    by simp
next
  fix x y z assume xyz: "x \<in> key_set fp cs N" "y \<in> key_set fp cs N" "z \<in> key_set fp cs N"
    and lt: "key_cmp fp cs x y < 0" "key_cmp fp cs y z < 0"
  obtain us where us: "key_of_row fp cs N us x" "fp_bytes_ok fp" "row_ok fp cs us" "\<forall>v \<in> set us. orderable v"
    using xyz(1) by (rule key_rowE)
  obtain vs where vs: "key_of_row fp cs N vs y" "row_ok fp cs vs" "\<forall>v \<in> set vs. orderable v" using xyz(2) by (rule key_rowE)
  obtain ws where ws: "key_of_row fp cs N ws z" "row_ok fp cs ws" "\<forall>v \<in> set ws. orderable v" using xyz(3) by (rule key_rowE)
  have "row_order us ws < 0"
    using row_order_trans [OF row_same_types [OF us(3) vs(2)] row_same_types [OF vs(2) ws(2)]] us(4) vs(3) ws(3) lt
      key_cmp_row [OF us(1) vs(1) us(2)] key_cmp_row [OF vs(1) ws(1) us(2)] by auto
  then show "key_cmp fp cs x z < 0" using key_cmp_row [OF us(1) ws(1) us(2)] by simp
qed

text \<open>C26. The comparator of the indexes is the lexicographic order of the rows its keys were made from: the first
  column in which two rows differ decides, by the order of the numbers or of the bytes of the strings.\<close>

theorem comparator_is_row_order:
  assumes "key_of_row fp cs N vs l" and "key_of_row fp cs N vs' r" and "fp_bytes_ok fp"
  shows "GenericComparator fp (Schema_new cs) l r = Inr (row_order vs vs')"
  by (rule comparator_row_order [OF assms])

lemma key_of_row_exists:
  assumes row: "row_ok fp cs vs" and fp: "fp_bytes_ok fp" and "\<forall>v \<in> set vs. orderable v" and "total_size cs vs \<le> N"
  shows "\<exists>key. key_of_row fp cs N vs key"
proof -
  obtain t where t: "Tuple_new fp vs (Schema_new cs) (\<lambda>_. 0) = Inr t" "tuple.size_m t = int (total_size cs vs)"
    "\<exists>buf. data_t t = Some buf \<and> length buf = total_size cs vs"
    using Tuple_new_spec [OF row fp, of "\<lambda>_. 0"] by auto
  then obtain key where "SetFromKey N t = Inr key"
    using assms(4) by (auto simp: SetFromKey_def store_bytes_def Let_def)
  then show ?thesis using t(1) assms(1,3) unfolding key_of_row_def by blast
qed

lemma sample_key_exists:
  assumes n: "\<bar>n\<bar> < 1000"
  shows "\<exists>key. key_of_row fp_bits sample_columns 64 (sample_rows n) key"
proof (rule key_of_row_exists [OF sample_row_ok [OF n] fp_bits_ok])
  have "orderable (mk_int INTEGER n False)"
    using sample_int [OF n] unfolding orderable_def by (auto simp: IsNull_def mk_int_def null_len_def PELOTON_VALUE_NULL_def)
  moreover have "Value_string VARCHAR ''h'' = Inr (sample_rows n ! 1)"
    by (simp add: Value_string_def sample_rows_def char_byte_def)
  then have "orderable (sample_rows n ! 1)" unfolding orderable_def by fastforce
  ultimately show "\<forall>v \<in> set (sample_rows n). orderable v" by (simp add: sample_rows_def)
  show "total_size sample_columns (sample_rows n) \<le> 64"
    by (simp add: total_size_def sample_columns_def sample_rows_def fixed_before_def var_before_def var_size_def stored_size_def)
qed

theorem comparator_is_row_order_witness:
  "\<exists>l r. key_of_row fp_bits sample_columns 64 (sample_rows 7) l \<and> key_of_row fp_bits sample_columns 64 (sample_rows 9) r \<and>
    GenericComparator fp_bits (Schema_new sample_columns) l r = Inr (- 1)"
proof -
  obtain l r where l: "key_of_row fp_bits sample_columns 64 (sample_rows 7) l" and r: "key_of_row fp_bits sample_columns 64 (sample_rows 9) r"
    using sample_key_exists [of 7] sample_key_exists [of 9] by auto
  have "row_order (sample_rows 7) (sample_rows 9) = - 1" by (simp add: sample_rows_def value_order_def)
  then show ?thesis using comparator_is_row_order [OF l r fp_bits_ok] l r by auto
qed

end
