(* ===== verification/BTreeClaims.thy ===== *)
theory BTreeClaims imports BTreeScanProps KeyOrder begin

text \<open>
  The properties of the index as its callers see it, for the comparator of the source and keys made from
  rows.
\<close>

section \<open>A sample index\<close>

text \<open>The index whose keys are 64 bytes made from rows of the columns of \<open>f\<close> and \<open>cs\<close>.\<close>

definition index_of :: "'d fp \<Rightarrow> column list \<Rightarrow> int \<Rightarrow> 'v \<Rightarrow> string \<Rightarrow> (generic_key, 'v) tree_params" where
  "index_of fp cs n v name = \<lparr>comparator = key_cmp fp cs, key_size = n, zero_key = replicate (nat n) 0, zero_value = v,
     index_name = name\<rparr>"

definition key_sizes :: "int set" where
  "key_sizes = {4, 8, 16, 32, 64}"

lemma index_of_simps [simp]:
  "comparator (index_of fp cs n v name) = key_cmp fp cs" "key_size (index_of fp cs n v name) = n"
  "index_name (index_of fp cs n v name) = name"
  by (simp_all add: index_of_def)

lemma sample_keys:
  obtains l r where "l \<in> key_set fp_bits sample_columns 64" "r \<in> key_set fp_bits sample_columns 64"
    "key_cmp fp_bits sample_columns l r = - 1"
proof -
  obtain l r where k: "key_of_row fp_bits sample_columns 64 (sample_rows 7) l" "key_of_row fp_bits sample_columns 64 (sample_rows 9) r"
    using sample_key_exists [of 7] sample_key_exists [of 9] by auto
  have "row_order (sample_rows 7) (sample_rows 9) = - 1" by (simp add: sample_rows_def value_order_def)
  then have "key_cmp fp_bits sample_columns l r = - 1" using key_cmp_row [OF k fp_bits_ok] by simp
  moreover have "exact_cols sample_columns" by (simp add: exact_cols_def sample_columns_def GetTypeSize_def)
  ultimately show ?thesis using k that fp_bits_ok by (auto simp: key_set_def)
qed

lemma fresh_index_slots:
  assumes "key_size c \<in> key_sizes" and "fresh_index c s"
  shows "index_ok True c K None s"
  using assms fresh_index_ok slots_ok_key_sizes unfolding key_sizes_def by blast

lemma index_run_ok:
  assumes "comparator c = key_cmp fp cs" and "key_size c \<in> key_sizes" and "fresh_index c s"
    and "\<forall>x \<in> set xs. call_key x \<in> key_set fp cs (nat (key_size c))"
  obtains T s' where "index_run c xs s = Some (fst (map_run xs Map.empty), s')"
    and "index_ok (never_emptied xs Map.empty) c (key_set fp cs (nat (key_size c))) T s'" and "map_of (index_entries T) = snd (map_run xs Map.empty)"
  using key_order.index_run_spec [OF gk.key_order_axioms, OF fresh_index_slots [OF assms(2,3)] assms(1,4)]
  by (fastforce simp: index_entries_def)

text \<open>The index of the witnesses, and what the theorems ask of it.\<close>

definition sample_index :: "(generic_key, int) tree_params" where
  "sample_index = index_of fp_bits sample_columns 64 0 ''i''"

lemma sample_index:
  "comparator sample_index = key_cmp fp_bits sample_columns" "key_size sample_index \<in> key_sizes"
  "fresh_index sample_index new_index" "nat (key_size sample_index) = 64"
  by (simp_all add: sample_index_def key_sizes_def new_index_fresh)

lemma sample_run:
  obtains k l s' where "k \<in> key_set fp_bits sample_columns 64" "l \<in> key_set fp_bits sample_columns 64"
    "key_cmp fp_bits sample_columns k l = - 1" "k \<noteq> l" "index_run sample_index [Put k 1] new_index = Some ([Inserted True], s')"
proof -
  obtain k l where k: "k \<in> key_set fp_bits sample_columns 64" "l \<in> key_set fp_bits sample_columns 64"
    "key_cmp fp_bits sample_columns k l = - 1" by (rule sample_keys)
  have "k \<noteq> l" using k(3) gk.cmp_refl [OF k(1)] by auto
  moreover obtain s' where "index_run sample_index [Put k 1] new_index = Some ([Inserted True], s')"
    using index_run_ok [OF sample_index(1-3), of "[Put k 1]"] k(1) sample_index(4) by auto
  ultimately show ?thesis using k that by blast
qed

section \<open>Calls on an index\<close>





text \<open>C13. A scan from \<open>Begin\<close> to the end returns after any sequence of calls; it visits exactly the entries of the index, in the
  order of their keys, and leaves nothing pinned or latched.\<close>

theorem index_scan_sorted:
  assumes "comparator c = key_cmp fp cs" and "key_size c \<in> key_sizes" and "fresh_index c s"
    and "\<forall>x \<in> set xs. call_key x \<in> key_set fp cs (nat (key_size c))" and "index_run c xs s = Some (rs, s')"
  shows "\<exists>es s''. index_scan c s' = Some (es, s'') \<and> idle s'' \<and> map_of es = snd (map_run xs Map.empty) \<and>
    sorted_wrt (\<lambda>a b. key_cmp fp cs (fst a) (fst b) < 0) es"
proof -
  obtain T where ok: "index_ok (never_emptied xs Map.empty) c (key_set fp cs (nat (key_size c))) T s'" "map_of (index_entries T) = snd (map_run xs Map.empty)"
    using index_run_ok [OF assms(1-4)] assms(5) by (metis option.inject prod.inject)
  have "index_scan c s' = Some (index_entries T, without_txn s')"
    by (rule key_order.index_scan_spec [OF gk.key_order_axioms, OF ok(1) assms(1)])
  moreover have "idle (without_txn s')" using ok(1) index_ok_txn(2) by (metis index_ok_def)
  moreover have "sorted_wrt (\<lambda>a b. key_cmp fp cs (fst a) (fst b) < 0) (index_entries T)"
    using ok(1) assms(1) by (auto simp: index_ok_def index_is_def index_entries_def tree_inv_def key_sorted_def split: option.splits)
  ultimately show ?thesis using ok(2) by blast
qed

theorem index_scan_sorted_witness:
  "\<exists>k s' s''. index_run sample_index [Put k 1] new_index = Some ([Inserted True], s') \<and>
     (\<exists>es. index_scan sample_index s' = Some (es, s'') \<and> map_of es = [k \<mapsto> 1] \<and> idle s'')"
proof -
  obtain k l s' where k: "k \<in> key_set fp_bits sample_columns 64" "index_run sample_index [Put k 1] new_index = Some ([Inserted True], s')"
    by (rule sample_run)
  have "\<forall>x \<in> set [Put k (1 :: int)]. call_key x \<in> key_set fp_bits sample_columns (nat (key_size sample_index))"
    using k(1) by (simp add: sample_index)
  from index_scan_sorted [OF sample_index(1-3) this k(2)] show ?thesis using k(2) by auto
qed



text \<open>\<open>Begin\<close> with a key above every key of an index that has entries answers an iterator that is not at its end but points
  behind the last entry of its leaf: the caller reads a slot that holds no entry.\<close>

theorem begin_above_reads_free_slot:
  assumes "comparator c = key_cmp fp cs" and "key_size c \<in> key_sizes" and "fresh_index c s"
    and "\<forall>x \<in> set xs. call_key x \<in> key_set fp cs (nat (key_size c))" and "index_run c xs s = Some (rs, s')"
    and "key \<in> key_set fp cs (nat (key_size c))" and "dom (snd (map_run xs Map.empty)) \<noteq> {}"
    and "\<forall>k \<in> dom (snd (map_run xs Map.empty)). key_cmp fp cs k key < 0"
  shows "\<exists>it p l s''. Begin_key c key (without_txn s') = Some (it, s'') \<and> \<not> isEnd it \<and> mLeafPage_m it = Some p \<and>
    st_get p s'' = Some (LeafP l) \<and> mIndex_m it = GetSize l"
proof -
  obtain T where ok: "index_ok (never_emptied xs Map.empty) c (key_set fp cs (nat (key_size c))) T s'" "map_of (index_entries T) = snd (map_run xs Map.empty)"
    using index_run_ok [OF assms(1-4)] assms(5) by (metis option.inject prod.inject)
  have "index_entries T \<noteq> []" using ok(2) assms(7) by auto
  moreover have "\<forall>x \<in> set (index_entries T). key_cmp fp cs (fst x) key < 0"
    using assms(8) ok(2) by (metis dom_map_of_conv_image_fst image_eqI)
  ultimately show ?thesis using key_order.Begin_key_above [OF gk.key_order_axioms, OF ok(1) assms(1,6)] by blast
qed

theorem begin_above_reads_free_slot_witness:
  "\<exists>k l s' it s''. index_run sample_index [Put k 1] new_index = Some ([Inserted True], s') \<and>
     Begin_key sample_index l (without_txn s') = Some (it, s'') \<and> \<not> isEnd it"
proof -
  obtain k l s' where k: "k \<in> key_set fp_bits sample_columns 64" "l \<in> key_set fp_bits sample_columns 64"
    "key_cmp fp_bits sample_columns k l = - 1" "index_run sample_index [Put k 1] new_index = Some ([Inserted True], s')"
    by (rule sample_run)
  have ks: "\<forall>x \<in> set [Put k (1 :: int)]. call_key x \<in> key_set fp_bits sample_columns (nat (key_size sample_index))"
    using k(1) by (simp add: sample_index)
  have "l \<in> key_set fp_bits sample_columns (nat (key_size sample_index))" "dom (snd (map_run [Put k (1 :: int)] Map.empty)) \<noteq> {}"
    "\<forall>k' \<in> dom (snd (map_run [Put k (1 :: int)] Map.empty)). key_cmp fp_bits sample_columns k' l < 0"
    using k(2,3) by (simp_all add: sample_index)
  from begin_above_reads_free_slot [OF sample_index(1-3) ks k(4) this] show ?thesis using k(4) by blast
qed

text \<open>C36. When a call removed the last entry of an index and another entry is inserted, the index has a root again, but the
  header page keeps a record without a page id: an index that is opened by its record does not find the tree.\<close>

theorem restart_not_recorded:
  assumes "comparator c = key_cmp fp cs" and "key_size c \<in> key_sizes" and "fresh_index c s"
    and "\<forall>x \<in> set (xs @ [Del j, Put k v]). call_key x \<in> key_set fp cs (nat (key_size c))" and "never_emptied xs Map.empty"
    and "snd (map_run xs Map.empty) \<noteq> Map.empty" and "(snd (map_run xs Map.empty))(j := None) = Map.empty"
    and "index_run c (xs @ [Del j, Put k v]) s = Some (rs, s')"
  shows "root_page_id s' \<noteq> INVALID_PAGE_ID \<and>
    (\<exists>hs. contents s' HEADER_PAGE_ID = Some (HeaderP hs) \<and> map_of hs (index_name c) = Some INVALID_PAGE_ID)"
proof -
  have keys: "\<forall>x \<in> set xs. call_key x \<in> key_set fp cs (nat (key_size c))" "j \<in> key_set fp cs (nat (key_size c))"
    "k \<in> key_set fp cs (nat (key_size c))" using assms(4) by simp_all
  obtain T s1 where s1: "index_run c xs s = Some (fst (map_run xs Map.empty), s1)"
    "index_ok (never_emptied xs Map.empty) c (key_set fp cs (nat (key_size c))) T s1"
    "map_of (index_entries T) = snd (map_run xs Map.empty)" using index_run_ok [OF assms(1-3) keys(1)] .
  obtain rs' where "index_run c [Del j, Put k v] s1 = Some (rs', s')"
    using assms(8) s1(1) unfolding index_run_append by (auto split: Option.bind_splits)
  then show ?thesis
    using key_order.restart_spec [OF gk.key_order_axioms, OF _ assms(1) keys(2,3) s1(3) assms(6,7)] s1(2) assms(5)
    by (auto simp: root_recorded_def)
qed

theorem restart_not_recorded_witness:
  "\<exists>k rs s' hs. index_run sample_index [Put k 1, Del k, Put k 2] new_index = Some (rs, s') \<and> root_page_id s' \<noteq> INVALID_PAGE_ID \<and>
     contents s' HEADER_PAGE_ID = Some (HeaderP hs) \<and> map_of hs ''i'' = Some INVALID_PAGE_ID"
proof -
  obtain k l s' where k: "k \<in> key_set fp_bits sample_columns 64" by (rule sample_run)
  let ?xs = "[Put k (1 :: int)]"
  have ks: "\<forall>x \<in> set (?xs @ [Del k, Put k 2]). call_key x \<in> key_set fp_bits sample_columns (nat (key_size sample_index))"
    using k by (simp add: sample_index)
  obtain rs s' where r: "index_run sample_index (?xs @ [Del k, Put k 2]) new_index = Some (rs, s')"
    using index_run_ok [OF sample_index(1-3) ks] by metis
  have e: "never_emptied ?xs Map.empty" "snd (map_run ?xs Map.empty) \<noteq> Map.empty" "(snd (map_run ?xs Map.empty))(k := None) = Map.empty"
    by simp_all
  have n: "index_name sample_index = ''i''" by (simp add: sample_index_def)
  from restart_not_recorded [OF sample_index(1-3) ks e r] r show ?thesis unfolding n append_Cons append_Nil by blast
qed

end
