(* ===== verification/RawPage.thy ===== *)
theory RawPage imports TypeProps begin

text \<open>
  The bytes of a page as the page classes touch them: 32 bit integers at an offset, blocks that are
  copied in and out, and \<open>memmove\<close>.  An access outside the page is \<open>None\<close>.  The laws say what a
  read finds after a write, at the same place and elsewhere.
\<close>

section \<open>Operations\<close>

type_synonym bytes = "8 word list"

definition get_int :: "nat \<Rightarrow> bytes \<Rightarrow> int" where
  "get_int a d = load_int 4 (drop a d)"

definition put_int :: "nat \<Rightarrow> int \<Rightarrow> bytes \<Rightarrow> bytes" where
  "put_int a x d = take a d @ store_bytes (le_bytes 4 x) (drop a d)"

definition get_bytes :: "nat \<Rightarrow> nat \<Rightarrow> bytes \<Rightarrow> bytes" where
  "get_bytes a n d = take n (drop a d)"

definition put_bytes :: "nat \<Rightarrow> bytes \<Rightarrow> bytes \<Rightarrow> bytes" where
  "put_bytes a bs d = take a d @ store_bytes bs (drop a d)"

definition inside :: "int \<Rightarrow> int \<Rightarrow> bytes \<Rightarrow> bool" where
  "inside a n d \<longleftrightarrow> 0 \<le> a \<and> 0 \<le> n \<and> a + n \<le> int (length d)"

definition page_get :: "int \<Rightarrow> bytes \<Rightarrow> int option" where
  "page_get a d = (if inside a 4 d then Some (get_int (nat a) d) else None)"

definition page_put :: "int \<Rightarrow> int \<Rightarrow> bytes \<Rightarrow> bytes option" where
  "page_put a x d = (if inside a 4 d then Some (put_int (nat a) x d) else None)"

definition page_read :: "int \<Rightarrow> int \<Rightarrow> bytes \<Rightarrow> bytes option" where
  "page_read a n d = (if inside a n d then Some (get_bytes (nat a) (nat n) d) else None)"

definition page_write :: "int \<Rightarrow> bytes \<Rightarrow> bytes \<Rightarrow> bytes option" where
  "page_write a bs d = (if inside a (int (length bs)) d then Some (put_bytes (nat a) bs d) else None)"

definition page_move :: "int \<Rightarrow> int \<Rightarrow> int \<Rightarrow> bytes \<Rightarrow> bytes option" where
  "page_move dst src n d = (if inside dst n d \<and> inside src n d
     then Some (memmove (nat dst) (nat src) (nat n) d) else None)"

section \<open>Laws\<close>

lemma length_put_bytes [simp]: "a + length bs \<le> length d \<Longrightarrow> length (put_bytes a bs d) = length d"
  by (simp add: put_bytes_def store_bytes_def)

lemma length_put_int [simp]: "a + 4 \<le> length d \<Longrightarrow> length (put_int a x d) = length d"
  by (simp add: put_int_def store_bytes_def)

lemma put_int_bytes: "put_int a x d = put_bytes a (le_bytes 4 x) d"
  by (simp add: put_int_def put_bytes_def)

lemma nth_put_bytes:
  "a + length bs \<le> length d \<Longrightarrow> j < length d \<Longrightarrow>
   put_bytes a bs d ! j = (if a \<le> j \<and> j < a + length bs then bs ! (j - a) else d ! j)"
  by (auto simp: put_bytes_def store_bytes_def nth_append)

lemma length_get_bytes [simp]: "a + n \<le> length d \<Longrightarrow> length (get_bytes a n d) = n"
  by (simp add: get_bytes_def)

lemma nth_get_bytes [simp]: "a + n \<le> length d \<Longrightarrow> j < n \<Longrightarrow> get_bytes a n d ! j = d ! (a + j)"
  by (simp add: get_bytes_def)

lemma get_bytes_cong:
  assumes "a + n \<le> length d" and "b + n \<le> length d'" and "\<And>j. j < n \<Longrightarrow> d ! (a + j) = d' ! (b + j)"
  shows "get_bytes a n d = get_bytes b n d'"
  using assms by (intro nth_equalityI) simp_all

lemma get_int_bytes: "get_int a d = load_int 4 (get_bytes a 4 d)"
  by (simp add: get_int_def load_int_def get_bytes_def)

lemma get_int_cong: "get_bytes a 4 d = get_bytes b 4 d' \<Longrightarrow> get_int a d = get_int b d'"
  by (simp add: get_int_bytes)

lemma get_bytes_put_same [simp]:
  "a + length bs \<le> length d \<Longrightarrow> n = length bs \<Longrightarrow> get_bytes a n (put_bytes a bs d) = bs"
  by (simp add: put_bytes_def get_bytes_def store_bytes_def)

lemma get_bytes_put_other:
  "b + length bs \<le> length d \<Longrightarrow> a + n \<le> length d \<Longrightarrow> a + n \<le> b \<or> b + length bs \<le> a \<Longrightarrow>
   get_bytes a n (put_bytes b bs d) = get_bytes a n d"
  by (rule get_bytes_cong) (auto simp: nth_put_bytes)

lemma get_bytes_put_int_other:
  "b + 4 \<le> length d \<Longrightarrow> a + n \<le> length d \<Longrightarrow> a + n \<le> b \<or> b + 4 \<le> a \<Longrightarrow>
   get_bytes a n (put_int b x d) = get_bytes a n d"
  by (simp add: put_int_bytes get_bytes_put_other)

lemma get_int_put_same [simp]: "a + 4 \<le> length d \<Longrightarrow> get_int a (put_int a x d) = wrap_s 32 x"
proof -
  assume "a + 4 \<le> length d"
  then have "get_bytes a 4 (put_int a x d) = le_bytes 4 x" by (simp add: put_int_bytes)
  then have "get_int a (put_int a x d) = wrap_s 32 (x mod 2 ^ 32)"
    by (simp add: get_int_bytes load_int_def le_value_le_bytes)
  then show ?thesis unfolding wrap_s_def by (simp add: mod_simps)
qed

lemma get_int_put_other:
  "b + 4 \<le> length d \<Longrightarrow> a + 4 \<le> length d \<Longrightarrow> a + 4 \<le> b \<or> b + 4 \<le> a \<Longrightarrow> get_int a (put_int b x d) = get_int a d"
  by (intro get_int_cong get_bytes_put_int_other)

lemma get_int_write_other:
  "b + length bs \<le> length d \<Longrightarrow> a + 4 \<le> length d \<Longrightarrow> a + 4 \<le> b \<or> b + length bs \<le> a \<Longrightarrow>
   get_int a (put_bytes b bs d) = get_int a d"
  by (intro get_int_cong get_bytes_put_other)

lemma get_bytes_move_other:
  "dst + k \<le> length d \<Longrightarrow> src + k \<le> length d \<Longrightarrow> a + n \<le> length d \<Longrightarrow> a + n \<le> dst \<or> dst + k \<le> a \<Longrightarrow>
   get_bytes a n (memmove dst src k d) = get_bytes a n d"
  by (rule get_bytes_cong) (auto simp: nth_memmove)

lemma get_int_move_other:
  "dst + k \<le> length d \<Longrightarrow> src + k \<le> length d \<Longrightarrow> a + 4 \<le> length d \<Longrightarrow> a + 4 \<le> dst \<or> dst + k \<le> a \<Longrightarrow>
   get_int a (memmove dst src k d) = get_int a d"
  by (intro get_int_cong get_bytes_move_other)

lemma get_bytes_move_inside:
  "dst + k \<le> length d \<Longrightarrow> src + k \<le> length d \<Longrightarrow> j + n \<le> k \<Longrightarrow>
   get_bytes (dst + j) n (memmove dst src k d) = get_bytes (src + j) n d"
  by (rule get_bytes_cong) (auto simp: nth_memmove add.assoc)

end
