(* ===== verification/Transactions.thy ===== *)
theory Transactions imports Tuple begin

text \<open>
  The transactions of \<open>concurrency/transaction.h\<close> and the lock manager of
  \<open>concurrency/lock_manager.cpp\<close>, which refuses every lock.  The write set belongs to tables; a table
  heap is known by the id of its first page.  The unordered sets are lists without duplicates.
\<close>

section \<open>Transactions\<close>

datatype TransactionState = GROWING | SHRINKING | COMMITTED | ABORTED

datatype WType = INSERT | DELETE | UPDATE

record WriteRecord =
  rid_w :: RID
  wtype_w :: WType
  tuple_w :: tuple
  table_w :: int

record transaction =
  state_t :: TransactionState
  txn_id_t :: int
  write_set :: "WriteRecord list"
  prev_lsn_t :: int
  page_set_t :: "int list"
  deleted_page_set_t :: "int list"
  shared_lock_set :: "RID list"
  exclusive_lock_set :: "RID list"

definition Transaction_new :: "int \<Rightarrow> transaction" where
  "Transaction_new i = \<lparr>state_t = GROWING, txn_id_t = i, write_set = [], prev_lsn_t = -1, page_set_t = [],
     deleted_page_set_t = [], shared_lock_set = [], exclusive_lock_set = []\<rparr>"

definition SetState :: "TransactionState \<Rightarrow> transaction \<Rightarrow> transaction" where
  "SetState st txn = txn\<lparr>state_t := st\<rparr>"

definition SetPrevLSN :: "int \<Rightarrow> transaction \<Rightarrow> transaction" where
  "SetPrevLSN lsn txn = txn\<lparr>prev_lsn_t := lsn\<rparr>"

definition Transaction_AddIntoPageSet :: "int \<Rightarrow> transaction \<Rightarrow> transaction" where
  "Transaction_AddIntoPageSet p txn = txn\<lparr>page_set_t := page_set_t txn @ [p]\<rparr>"

text \<open>A page that is not in the page set is added all the same: the exception is built, not thrown.\<close>

definition Transaction_AddIntoDeletedPageSet :: "int \<Rightarrow> transaction \<Rightarrow> transaction" where
  "Transaction_AddIntoDeletedPageSet p txn = txn\<lparr>deleted_page_set_t := List.insert p (deleted_page_set_t txn)\<rparr>"

text \<open>\<open>GetWriteSet()->emplace_back(rid, type, tuple, table)\<close>.\<close>

definition add_write :: "RID \<Rightarrow> WType \<Rightarrow> tuple \<Rightarrow> int \<Rightarrow> transaction \<Rightarrow> transaction" where
  "add_write rid w t table txn =
     txn\<lparr>write_set := write_set txn @ [\<lparr>rid_w = rid, wtype_w = w, tuple_w = Tuple_copy t, table_w = table\<rparr>]\<rparr>"

section \<open>Locks\<close>

definition LockShared :: "transaction \<Rightarrow> RID \<Rightarrow> bool \<times> transaction" where
  "LockShared txn rid = (False, txn)"

definition LockExclusive :: "transaction \<Rightarrow> RID \<Rightarrow> bool \<times> transaction" where
  "LockExclusive txn rid = (False, txn)"

definition LockUpgrade :: "transaction \<Rightarrow> RID \<Rightarrow> bool \<times> transaction" where
  "LockUpgrade txn rid = (False, txn)"

definition LockManager_Unlock :: "transaction \<Rightarrow> RID \<Rightarrow> bool \<times> transaction" where
  "LockManager_Unlock txn rid = (False, txn)"

end
