(* ===== verification/TablePage.thy ===== *)
theory TablePage imports RawPage Transactions begin

text \<open>
  The slotted pages of \<open>page/table_page.cpp\<close> on the bytes of a page: page id, LSN, previous and next
  page id, free space pointer and tuple count at the offsets \<open>0\<close> to \<open>20\<close>, then a slot of offset and
  size for each tuple, and the tuples from the free space pointer to the end.  A deleted tuple keeps
  its bytes under a negative size until the deletion is applied.  \<open>logging\<close> is the global
  \<open>ENABLE_LOGGING\<close>.  A failed assertion or an access outside the page is \<open>None\<close>.
\<close>

section \<open>Header and slots\<close>

definition tp_GetPageId :: "bytes \<Rightarrow> int option" where
  "tp_GetPageId d = page_get 0 d"

definition tp_GetPrevPageId :: "bytes \<Rightarrow> int option" where
  "tp_GetPrevPageId d = page_get 8 d"

definition tp_GetNextPageId :: "bytes \<Rightarrow> int option" where
  "tp_GetNextPageId d = page_get 12 d"

definition tp_SetPrevPageId :: "int \<Rightarrow> bytes \<Rightarrow> bytes option" where
  "tp_SetPrevPageId i d = page_put 8 i d"

definition tp_SetNextPageId :: "int \<Rightarrow> bytes \<Rightarrow> bytes option" where
  "tp_SetNextPageId i d = page_put 12 i d"

definition tp_GetTupleOffset :: "int \<Rightarrow> bytes \<Rightarrow> int option" where
  "tp_GetTupleOffset slot d = page_get (24 + 8 * slot) d"

definition tp_GetTupleSize :: "int \<Rightarrow> bytes \<Rightarrow> int option" where
  "tp_GetTupleSize slot d = page_get (28 + 8 * slot) d"

definition tp_SetTupleOffset :: "int \<Rightarrow> int \<Rightarrow> bytes \<Rightarrow> bytes option" where
  "tp_SetTupleOffset slot offset d = page_put (24 + 8 * slot) offset d"

definition tp_SetTupleSize :: "int \<Rightarrow> int \<Rightarrow> bytes \<Rightarrow> bytes option" where
  "tp_SetTupleSize slot offset d = page_put (28 + 8 * slot) offset d"

definition tp_GetFreeSpacePointer :: "bytes \<Rightarrow> int option" where
  "tp_GetFreeSpacePointer d = page_get 16 d"

definition tp_SetFreeSpacePointer :: "int \<Rightarrow> bytes \<Rightarrow> bytes option" where
  "tp_SetFreeSpacePointer p d = page_put 16 p d"

definition tp_GetTupleCount :: "bytes \<Rightarrow> int option" where
  "tp_GetTupleCount d = page_get 20 d"

definition tp_SetTupleCount :: "int \<Rightarrow> bytes \<Rightarrow> bytes option" where
  "tp_SetTupleCount n d = page_put 20 n d"

definition tp_GetFreeSpaceSize :: "bytes \<Rightarrow> int option" where
  "tp_GetFreeSpaceSize d =
     do { p \<leftarrow> tp_GetFreeSpacePointer d; n \<leftarrow> tp_GetTupleCount d; Some (p - 24 - n * 8) }"

definition tp_Init :: "int \<Rightarrow> int \<Rightarrow> int \<Rightarrow> bytes \<Rightarrow> bytes option" where
  "tp_Init page_id page_size prev_page_id d =
     do { d \<leftarrow> page_put 0 page_id d;
          d \<leftarrow> tp_SetPrevPageId prev_page_id d;
          d \<leftarrow> tp_SetNextPageId INVALID_PAGE_ID d;
          d \<leftarrow> tp_SetFreeSpacePointer page_size d;
          tp_SetTupleCount 0 d }"

section \<open>Insertion\<close>

text \<open>The first \<open>n\<close> bytes behind the data pointer of a tuple.\<close>

definition tuple_bytes :: "int \<Rightarrow> tuple \<Rightarrow> bytes option" where
  "tuple_bytes n t = (case data_t t of None \<Rightarrow> None | Some bs \<Rightarrow> page_read 0 n bs)"

text \<open>The search for an empty slot; it leaves the last id it looked at in \<open>rid\<close>, and \<open>n\<close> in the
  loop variable when it finds none.\<close>

fun tp_find_slot :: "bool \<Rightarrow> transaction \<Rightarrow> bytes \<Rightarrow> int \<Rightarrow> int list \<Rightarrow> RID \<Rightarrow> (int \<times> RID) option" where
  "tp_find_slot logging txn d n [] rid = Some (n, rid)"
| "tp_find_slot logging txn d n (i # is) rid =
     do { pid \<leftarrow> tp_GetPageId d;
          let rid = RID_Set pid i rid;
          sz \<leftarrow> tp_GetTupleSize i d;
          if sz = 0 then
            do { _ \<leftarrow> assert_that (logging \<longrightarrow> rid \<notin> set (shared_lock_set txn) \<and> rid \<notin> set (exclusive_lock_set txn));
                 Some (i, rid) }
          else tp_find_slot logging txn d n is rid }"

definition tp_InsertTuple ::
  "bool \<Rightarrow> tuple \<Rightarrow> RID \<Rightarrow> transaction \<Rightarrow> bytes \<Rightarrow> (bool \<times> RID \<times> transaction \<times> bytes) option" where
  "tp_InsertTuple logging tuple rid txn d =
     do { _ \<leftarrow> assert_that (size_m tuple > 0);
          free \<leftarrow> tp_GetFreeSpaceSize d;
          if free < size_m tuple then Some (False, rid, txn, d)
          else do {
            n \<leftarrow> tp_GetTupleCount d;
            (i, rid) \<leftarrow> tp_find_slot logging txn d (max 0 n) [0..n - 1] rid;
            if i = n \<and> free < size_m tuple + 8 then Some (False, rid, txn, d)
            else do {
              p \<leftarrow> tp_GetFreeSpacePointer d;
              d \<leftarrow> tp_SetFreeSpacePointer (p - size_m tuple) d;
              p \<leftarrow> tp_GetFreeSpacePointer d;
              bs \<leftarrow> tuple_bytes (size_m tuple) tuple;
              d \<leftarrow> page_write p bs d;
              p \<leftarrow> tp_GetFreeSpacePointer d;
              d \<leftarrow> tp_SetTupleOffset i p d;
              d \<leftarrow> tp_SetTupleSize i (size_m tuple) d;
              n \<leftarrow> tp_GetTupleCount d;
              (rid, d) \<leftarrow> (if i = n
                then do { pid \<leftarrow> tp_GetPageId d; d \<leftarrow> tp_SetTupleCount (n + 1) d; Some (RID_Set pid i rid, d) }
                else Some (rid, d));
              let (locked, txn) = (if logging then LockExclusive txn (RID_of_int64 (RID_Get rid)) else (True, txn));
              _ \<leftarrow> assert_that locked;
              Some (True, rid, txn, d) } } }"

section \<open>Deletion and update\<close>

text \<open>The part of \<open>MarkDelete\<close> and \<open>UpdateTuple\<close> that takes the exclusive lock when logging is on.\<close>

definition take_exclusive :: "bool \<Rightarrow> RID \<Rightarrow> transaction \<Rightarrow> bool \<times> transaction" where
  "take_exclusive logging rid txn =
     (if \<not> logging then (True, txn)
      else if rid \<in> set (shared_lock_set txn) then LockUpgrade txn rid
      else if rid \<notin> set (exclusive_lock_set txn) then LockExclusive txn rid
      else (True, txn))"

definition abort_if :: "bool \<Rightarrow> transaction \<Rightarrow> transaction" where
  "abort_if logging txn = (if logging then SetState ABORTED txn else txn)"

definition tp_MarkDelete :: "bool \<Rightarrow> RID \<Rightarrow> transaction \<Rightarrow> bytes \<Rightarrow> (bool \<times> transaction \<times> bytes) option" where
  "tp_MarkDelete logging rid txn d =
     do { n \<leftarrow> tp_GetTupleCount d;
          if slot_num rid \<ge> n then Some (False, abort_if logging txn, d)
          else do {
            sz \<leftarrow> tp_GetTupleSize (slot_num rid) d;
            if sz < 0 then Some (False, abort_if logging txn, d)
            else do {
              let (locked, txn) = take_exclusive logging rid txn;
              if \<not> locked then Some (False, txn, d)
              else do {
                d \<leftarrow> (if sz > 0 then tp_SetTupleSize (slot_num rid) (- sz) d else Some d);
                Some (True, txn, d) } } } }"

text \<open>A tuple copied out of the page.\<close>

definition copy_out :: "int \<Rightarrow> int \<Rightarrow> RID \<Rightarrow> bytes \<Rightarrow> tuple option" where
  "copy_out off sz rid d =
     do { bs \<leftarrow> page_read off sz d;
          Some \<lparr>allocated_m = True, rid_m = rid, size_m = sz, data_t = Some bs\<rparr> }"

fun tp_update_offsets :: "int \<Rightarrow> int \<Rightarrow> int \<Rightarrow> int list \<Rightarrow> bytes \<Rightarrow> bytes option" where
  "tp_update_offsets tuple_offset tuple_size new_size [] d = Some d"
| "tp_update_offsets tuple_offset tuple_size new_size (i # is) d =
     do { off \<leftarrow> tp_GetTupleOffset i d;
          sz \<leftarrow> tp_GetTupleSize i d;
          d \<leftarrow> (if sz > 0 \<and> off < tuple_offset + tuple_size
                then tp_SetTupleOffset i (off + tuple_size - new_size) d else Some d);
          tp_update_offsets tuple_offset tuple_size new_size is d }"

definition tp_UpdateTuple ::
  "bool \<Rightarrow> tuple \<Rightarrow> tuple \<Rightarrow> RID \<Rightarrow> transaction \<Rightarrow> bytes \<Rightarrow> (bool \<times> tuple \<times> transaction \<times> bytes) option" where
  "tp_UpdateTuple logging new old rid txn d =
     do { n \<leftarrow> tp_GetTupleCount d;
          if slot_num rid \<ge> n then Some (False, old, abort_if logging txn, d)
          else do {
            sz \<leftarrow> tp_GetTupleSize (slot_num rid) d;
            if sz \<le> 0 then Some (False, old, abort_if logging txn, d)
            else do {
              free \<leftarrow> tp_GetFreeSpaceSize d;
              if free < size_m new - sz then Some (False, old, txn, d)
              else do {
                off \<leftarrow> tp_GetTupleOffset (slot_num rid) d;
                old \<leftarrow> copy_out off sz rid d;
                let (locked, txn) = take_exclusive logging rid txn;
                if \<not> locked then Some (False, old, txn, d)
                else do {
                  p \<leftarrow> tp_GetFreeSpacePointer d;
                  _ \<leftarrow> assert_that (off \<ge> p);
                  d \<leftarrow> page_move (p + sz - size_m new) p (off - p) d;
                  d \<leftarrow> tp_SetFreeSpacePointer (p + sz - size_m new) d;
                  bs \<leftarrow> tuple_bytes (size_m new) new;
                  d \<leftarrow> page_write (off + sz - size_m new) bs d;
                  d \<leftarrow> tp_SetTupleSize (slot_num rid) (size_m new) d;
                  n \<leftarrow> tp_GetTupleCount d;
                  d \<leftarrow> tp_update_offsets off sz (size_m new) [0..n - 1] d;
                  Some (True, old, txn, d) } } } } }"

fun tp_shift_offsets :: "int \<Rightarrow> int \<Rightarrow> int list \<Rightarrow> bytes \<Rightarrow> bytes option" where
  "tp_shift_offsets tuple_offset tuple_size [] d = Some d"
| "tp_shift_offsets tuple_offset tuple_size (i # is) d =
     do { off \<leftarrow> tp_GetTupleOffset i d;
          sz \<leftarrow> tp_GetTupleSize i d;
          d \<leftarrow> (if sz \<noteq> 0 \<and> off < tuple_offset then tp_SetTupleOffset i (off + tuple_size) d else Some d);
          tp_shift_offsets tuple_offset tuple_size is d }"

definition tp_ApplyDelete :: "bool \<Rightarrow> RID \<Rightarrow> transaction \<Rightarrow> bytes \<Rightarrow> bytes option" where
  "tp_ApplyDelete logging rid txn d =
     do { n \<leftarrow> tp_GetTupleCount d;
          _ \<leftarrow> assert_that (slot_num rid < n);
          off \<leftarrow> tp_GetTupleOffset (slot_num rid) d;
          sz \<leftarrow> tp_GetTupleSize (slot_num rid) d;
          let sz = (if sz < 0 then - sz else sz);
          _ \<leftarrow> copy_out off sz rid d;
          _ \<leftarrow> assert_that (logging \<longrightarrow> rid \<in> set (exclusive_lock_set txn));
          p \<leftarrow> tp_GetFreeSpacePointer d;
          _ \<leftarrow> assert_that (off \<ge> p);
          d \<leftarrow> page_move (p + sz) p (off - p) d;
          d \<leftarrow> tp_SetFreeSpacePointer (p + sz) d;
          d \<leftarrow> tp_SetTupleSize (slot_num rid) 0 d;
          d \<leftarrow> tp_SetTupleOffset (slot_num rid) 0 d;
          n \<leftarrow> tp_GetTupleCount d;
          tp_shift_offsets off sz [0..n - 1] d }"

definition tp_RollbackDelete :: "bool \<Rightarrow> RID \<Rightarrow> transaction \<Rightarrow> bytes \<Rightarrow> bytes option" where
  "tp_RollbackDelete logging rid txn d =
     do { _ \<leftarrow> assert_that (logging \<longrightarrow> rid \<in> set (exclusive_lock_set txn));
          n \<leftarrow> tp_GetTupleCount d;
          _ \<leftarrow> assert_that (slot_num rid < n);
          sz \<leftarrow> tp_GetTupleSize (slot_num rid) d;
          if sz < 0 then tp_SetTupleSize (slot_num rid) (- sz) d else Some d }"

section \<open>Reading\<close>

definition tp_GetTuple :: "bool \<Rightarrow> RID \<Rightarrow> tuple \<Rightarrow> transaction \<Rightarrow> bytes \<Rightarrow> (bool \<times> tuple \<times> transaction) option" where
  "tp_GetTuple logging rid tuple txn d =
     do { n \<leftarrow> tp_GetTupleCount d;
          if slot_num rid \<ge> n then Some (False, tuple, abort_if logging txn)
          else do {
            sz \<leftarrow> tp_GetTupleSize (slot_num rid) d;
            if sz \<le> 0 then Some (False, tuple, abort_if logging txn)
            else do {
              let (locked, txn) = (if logging \<and> rid \<notin> set (exclusive_lock_set txn) \<and> rid \<notin> set (shared_lock_set txn)
                then LockShared txn rid else (True, txn));
              if \<not> locked then Some (False, tuple, txn)
              else do {
                off \<leftarrow> tp_GetTupleOffset (slot_num rid) d;
                tuple \<leftarrow> copy_out off sz rid d;
                Some (True, tuple, txn) } } } }"

fun tp_first_valid :: "bytes \<Rightarrow> int list \<Rightarrow> int option option" where
  "tp_first_valid d [] = Some None"
| "tp_first_valid d (i # is) =
     do { sz \<leftarrow> tp_GetTupleSize i d; if sz > 0 then Some (Some i) else tp_first_valid d is }"

definition tp_GetFirstTupleRid :: "RID \<Rightarrow> bytes \<Rightarrow> (bool \<times> RID) option" where
  "tp_GetFirstTupleRid first_rid d =
     do { n \<leftarrow> tp_GetTupleCount d;
          r \<leftarrow> tp_first_valid d [0..n - 1];
          case r of
            Some i \<Rightarrow> do { pid \<leftarrow> tp_GetPageId d; Some (True, RID_Set pid i first_rid) }
          | None \<Rightarrow> Some (False, RID_Set INVALID_PAGE_ID (-1) first_rid) }"

definition tp_GetNextTupleRid :: "RID \<Rightarrow> RID \<Rightarrow> bytes \<Rightarrow> (bool \<times> RID) option" where
  "tp_GetNextTupleRid cur_rid next_rid d =
     do { pid \<leftarrow> tp_GetPageId d;
          _ \<leftarrow> assert_that (rid_page_id cur_rid = pid);
          n \<leftarrow> tp_GetTupleCount d;
          r \<leftarrow> tp_first_valid d [slot_num cur_rid + 1..n - 1];
          case r of
            Some i \<Rightarrow> Some (True, RID_Set pid i next_rid)
          | None \<Rightarrow> Some (False, next_rid) }"

end
