(* ===== verification/TableHeap.thy ===== *)
theory TableHeap imports TablePage PageStore begin

text \<open>
  The table heaps of \<open>table/table_heap.cpp\<close> and their iterator in \<open>table/table_iterator.cpp\<close>: a chain
  of table pages over the page store, whose pages are bytes here.  A heap is known by its first
  page.  The state adds to the store the number of frames of the buffer pool, which decides when a
  page cannot be had (a null pointer), and the transaction that runs.
\<close>

section \<open>State\<close>

record table_state = "bytes store" +
  frames :: nat
  txn_m :: transaction

definition set_txn :: "transaction \<Rightarrow> table_state \<Rightarrow> table_state" where
  "set_txn t s = s\<lparr>txn_m := t\<rparr>"

definition set_abort :: "table_state \<Rightarrow> table_state" where
  "set_abort s = s\<lparr>txn_m := SetState ABORTED (txn_m s)\<rparr>"

text \<open>How many pages are pinned; every frame is taken when that many frames there are.\<close>

definition pinned_count :: "table_state \<Rightarrow> nat" where
  "pinned_count s = length (filter (\<lambda>p. 0 < pins s p) [0..next_id s - 1])"

definition pool_full :: "table_state \<Rightarrow> bool" where
  "pool_full s \<longleftrightarrow> frames s \<le> pinned_count s"

text \<open>\<open>FetchPage\<close> and \<open>NewPage\<close> with the null pointer as \<open>False\<close> and \<open>None\<close>.\<close>

definition try_fetch :: "page_id \<Rightarrow> table_state \<Rightarrow> (bool \<times> table_state) option" where
  "try_fetch p s = (if pins s p = 0 \<and> pool_full s then Some (False, s)
     else do { s \<leftarrow> st_fetch p s; Some (True, s) })"

definition try_new :: "table_state \<Rightarrow> page_id option \<times> table_state" where
  "try_new s = (if pool_full s then (None, s)
     else (case st_new (replicate 512 0) s of (p, s) \<Rightarrow> (Some p, s)))"

text \<open>The id in the bytes of a pinned page, and the release of a page under it.\<close>

definition page_id_at :: "page_id \<Rightarrow> table_state \<Rightarrow> page_id option" where
  "page_id_at p s = do { d \<leftarrow> st_get p s; tp_GetPageId d }"

definition unpin_at :: "page_id \<Rightarrow> bool \<Rightarrow> table_state \<Rightarrow> table_state option" where
  "unpin_at p dirty s = do { q \<leftarrow> page_id_at p s; st_unpin q dirty s }"

section \<open>Operations\<close>

definition th_create :: "table_state \<Rightarrow> (page_id \<times> table_state) option" where
  "th_create s = (case try_new s of
     (None, s) \<Rightarrow> None
   | (Some p, s) \<Rightarrow>
       do { s \<leftarrow> st_wlatch p s;
            d \<leftarrow> st_get p s;
            d \<leftarrow> tp_Init p PAGE_SIZE INVALID_LSN d;
            s \<leftarrow> st_put p d s;
            s \<leftarrow> st_wunlatch p s;
            s \<leftarrow> st_unpin p True s;
            Some (p, s) })"

text \<open>The loop of \<open>InsertTuple\<close>: it holds the pin and the write latch of page \<open>cur\<close>, and ends with
  those of the page the tuple is on, or with none when there is no frame for a new page.\<close>

partial_function (option) th_insert_loop ::
  "bool \<Rightarrow> tuple \<Rightarrow> RID \<Rightarrow> page_id \<Rightarrow> table_state \<Rightarrow> (page_id option \<times> RID \<times> table_state) option" where
  "th_insert_loop logging tuple rid cur s =
     do { d \<leftarrow> st_get cur s;
          (ok, rid, t, d) \<leftarrow> tp_InsertTuple logging tuple rid (txn_m s) d;
          let s = set_txn t s;
          if ok then do { s \<leftarrow> st_put cur d s; Some (Some cur, rid, s) }
          else do {
            next \<leftarrow> tp_GetNextPageId d;
            if next \<noteq> INVALID_PAGE_ID then do {
              s \<leftarrow> st_wunlatch cur s;
              s \<leftarrow> unpin_at cur False s;
              (got, s) \<leftarrow> try_fetch next s;
              _ \<leftarrow> assert_that got;
              s \<leftarrow> st_wlatch next s;
              th_insert_loop logging tuple rid next s }
            else (case try_new s of
                (None, s) \<Rightarrow> do {
                  s \<leftarrow> st_wunlatch cur s;
                  s \<leftarrow> unpin_at cur False s;
                  Some (None, rid, set_abort s) }
              | (Some new, s) \<Rightarrow> do {
                  s \<leftarrow> st_wlatch new s;
                  d \<leftarrow> st_get cur s;
                  d \<leftarrow> tp_SetNextPageId new d;
                  s \<leftarrow> st_put cur d s;
                  prev \<leftarrow> page_id_at cur s;
                  d \<leftarrow> st_get new s;
                  d \<leftarrow> tp_Init new PAGE_SIZE prev d;
                  s \<leftarrow> st_put new d s;
                  s \<leftarrow> st_wunlatch cur s;
                  s \<leftarrow> unpin_at cur True s;
                  th_insert_loop logging tuple rid new s }) } }"

definition th_InsertTuple :: "bool \<Rightarrow> page_id \<Rightarrow> tuple \<Rightarrow> RID \<Rightarrow> table_state \<Rightarrow> (bool \<times> RID \<times> table_state) option" where
  "th_InsertTuple logging table tuple rid s =
     (if size_m tuple + 32 > PAGE_SIZE then Some (False, rid, set_abort s)
      else do {
        (got, s) \<leftarrow> try_fetch table s;
        if \<not> got then Some (False, rid, set_abort s)
        else do {
          s \<leftarrow> st_wlatch table s;
          (cur, rid, s) \<leftarrow> th_insert_loop logging tuple rid table s;
          case cur of
            None \<Rightarrow> Some (False, rid, s)
          | Some p \<Rightarrow> do {
              s \<leftarrow> st_wunlatch p s;
              s \<leftarrow> unpin_at p True s;
              Some (True, rid, set_txn (add_write rid INSERT Tuple_default table (txn_m s)) s) } } })"

definition th_MarkDelete :: "bool \<Rightarrow> page_id \<Rightarrow> RID \<Rightarrow> table_state \<Rightarrow> (bool \<times> table_state) option" where
  "th_MarkDelete logging table rid s =
     do { let p = rid_page_id rid;
          (got, s) \<leftarrow> try_fetch p s;
          if \<not> got then Some (False, set_abort s)
          else do {
            s \<leftarrow> st_wlatch p s;
            d \<leftarrow> st_get p s;
            (_, t, d) \<leftarrow> tp_MarkDelete logging rid (txn_m s) d;
            s \<leftarrow> st_put p d (set_txn t s);
            s \<leftarrow> st_wunlatch p s;
            s \<leftarrow> unpin_at p True s;
            Some (True, set_txn (add_write rid DELETE Tuple_default table (txn_m s)) s) } }"

definition th_UpdateTuple :: "bool \<Rightarrow> page_id \<Rightarrow> tuple \<Rightarrow> RID \<Rightarrow> table_state \<Rightarrow> (bool \<times> table_state) option" where
  "th_UpdateTuple logging table tuple rid s =
     do { let p = rid_page_id rid;
          (got, s) \<leftarrow> try_fetch p s;
          if \<not> got then Some (False, set_abort s)
          else do {
            s \<leftarrow> st_wlatch p s;
            d \<leftarrow> st_get p s;
            (is_updated, old, t, d) \<leftarrow> tp_UpdateTuple logging tuple Tuple_default rid (txn_m s) d;
            let s = set_txn t s;
            s \<leftarrow> (if is_updated then st_put p d s else Some s);
            s \<leftarrow> st_wunlatch p s;
            s \<leftarrow> unpin_at p is_updated s;
            Some (is_updated, if is_updated \<and> state_t (txn_m s) \<noteq> ABORTED
              then set_txn (add_write rid UPDATE old table (txn_m s)) s else s) } }"

definition th_ApplyDelete :: "bool \<Rightarrow> RID \<Rightarrow> table_state \<Rightarrow> table_state option" where
  "th_ApplyDelete logging rid s =
     do { let p = rid_page_id rid;
          (got, s) \<leftarrow> try_fetch p s;
          _ \<leftarrow> assert_that got;
          s \<leftarrow> st_wlatch p s;
          d \<leftarrow> st_get p s;
          d \<leftarrow> tp_ApplyDelete logging rid (txn_m s) d;
          s \<leftarrow> st_put p d s;
          let s = set_txn (snd (LockManager_Unlock (txn_m s) rid)) s;
          s \<leftarrow> st_wunlatch p s;
          unpin_at p True s }"

definition th_RollbackDelete :: "bool \<Rightarrow> RID \<Rightarrow> table_state \<Rightarrow> table_state option" where
  "th_RollbackDelete logging rid s =
     do { let p = rid_page_id rid;
          (got, s) \<leftarrow> try_fetch p s;
          _ \<leftarrow> assert_that got;
          s \<leftarrow> st_wlatch p s;
          d \<leftarrow> st_get p s;
          d \<leftarrow> tp_RollbackDelete logging rid (txn_m s) d;
          s \<leftarrow> st_put p d s;
          s \<leftarrow> st_wunlatch p s;
          unpin_at p True s }"

definition th_GetTuple :: "bool \<Rightarrow> RID \<Rightarrow> tuple \<Rightarrow> table_state \<Rightarrow> (bool \<times> tuple \<times> table_state) option" where
  "th_GetTuple logging rid tuple s =
     do { let p = rid_page_id rid;
          (got, s) \<leftarrow> try_fetch p s;
          if \<not> got then Some (False, tuple, set_abort s)
          else do {
            s \<leftarrow> st_rlatch p s;
            d \<leftarrow> st_get p s;
            (res, tuple, t) \<leftarrow> tp_GetTuple logging rid tuple (txn_m s) d;
            let s = set_txn t s;
            s \<leftarrow> st_runlatch p s;
            s \<leftarrow> st_unpin p False s;
            Some (res, tuple, s) } }"

definition th_DeleteTableHeap :: "table_state \<Rightarrow> bool \<times> table_state" where
  "th_DeleteTableHeap s = (True, s)"

section \<open>The iterator\<close>

text \<open>An iterator is its heap and its tuple.  A tuple made from an id alone has no data.\<close>

record table_iterator =
  heap_i :: page_id
  tuple_i :: tuple

definition Tuple_of_rid :: "RID \<Rightarrow> tuple" where
  "Tuple_of_rid rid = Tuple_default\<lparr>rid_m := rid\<rparr>"

definition ti_new :: "bool \<Rightarrow> page_id \<Rightarrow> RID \<Rightarrow> table_state \<Rightarrow> (table_iterator \<times> table_state) option" where
  "ti_new logging table rid s =
     (if rid_page_id rid \<noteq> INVALID_PAGE_ID then do {
        (_, t, s) \<leftarrow> th_GetTuple logging rid (Tuple_of_rid rid) s;
        Some (\<lparr>heap_i = table, tuple_i = t\<rparr>, s) }
      else Some (\<lparr>heap_i = table, tuple_i = Tuple_of_rid rid\<rparr>, s))"

definition th_end :: "page_id \<Rightarrow> table_iterator" where
  "th_end table = \<lparr>heap_i = table, tuple_i = Tuple_of_rid \<lparr>rid_page_id = INVALID_PAGE_ID, slot_num = -1\<rparr>\<rparr>"

definition ti_eq :: "table_iterator \<Rightarrow> table_iterator \<Rightarrow> bool" where
  "ti_eq i j = (RID_Get (rid_m (tuple_i i)) = RID_Get (rid_m (tuple_i j)))"

definition ti_deref :: "table_iterator \<Rightarrow> tuple option" where
  "ti_deref i = do { _ \<leftarrow> assert_that (\<not> ti_eq i (th_end (heap_i i))); Some (tuple_i i) }"

definition th_begin :: "bool \<Rightarrow> page_id \<Rightarrow> table_state \<Rightarrow> (table_iterator \<times> table_state) option" where
  "th_begin logging table s =
     do { (got, s) \<leftarrow> try_fetch table s;
          _ \<leftarrow> assert_that got;
          s \<leftarrow> st_rlatch table s;
          d \<leftarrow> st_get table s;
          (_, rid) \<leftarrow> tp_GetFirstTupleRid RID_default d;
          s \<leftarrow> st_runlatch table s;
          s \<leftarrow> st_unpin table False s;
          ti_new logging table rid s }"

text \<open>The loop of \<open>operator++\<close> over the pages behind one without a further tuple.\<close>

partial_function (option) ti_next_page :: "page_id \<Rightarrow> RID \<Rightarrow> table_state \<Rightarrow> (page_id \<times> RID \<times> table_state) option" where
  "ti_next_page cur rid s =
     do { d \<leftarrow> st_get cur s;
          next \<leftarrow> tp_GetNextPageId d;
          if next = INVALID_PAGE_ID then Some (cur, rid, s)
          else do {
            (got, s) \<leftarrow> try_fetch next s;
            s \<leftarrow> st_runlatch cur s;
            s \<leftarrow> unpin_at cur False s;
            _ \<leftarrow> assert_that got;
            s \<leftarrow> st_rlatch next s;
            d \<leftarrow> st_get next s;
            (found, rid) \<leftarrow> tp_GetFirstTupleRid rid d;
            if found then Some (next, rid, s) else ti_next_page next rid s } }"

definition ti_next :: "bool \<Rightarrow> table_iterator \<Rightarrow> table_state \<Rightarrow> (table_iterator \<times> table_state) option" where
  "ti_next logging i s =
     do { let p = rid_page_id (rid_m (tuple_i i));
          (got, s) \<leftarrow> try_fetch p s;
          _ \<leftarrow> assert_that got;
          s \<leftarrow> st_rlatch p s;
          d \<leftarrow> st_get p s;
          (found, rid) \<leftarrow> tp_GetNextTupleRid (rid_m (tuple_i i)) RID_default d;
          (cur, rid, s) \<leftarrow> (if found then Some (p, rid, s) else ti_next_page p rid s);
          let t = (tuple_i i)\<lparr>rid_m := rid\<rparr>;
          (t, s) \<leftarrow> (if \<not> ti_eq (i\<lparr>tuple_i := t\<rparr>) (th_end (heap_i i))
            then do { (_, t, s) \<leftarrow> th_GetTuple logging rid t s; Some (t, s) } else Some (t, s));
          s \<leftarrow> st_runlatch cur s;
          s \<leftarrow> unpin_at cur False s;
          Some (i\<lparr>tuple_i := t\<rparr>, s) }"

section \<open>The transaction manager\<close>

definition tm_Begin :: "int \<Rightarrow> transaction \<times> int" where
  "tm_Begin next_txn_id = (Transaction_new next_txn_id, wrap_s 32 (next_txn_id + 1))"

text \<open>The locks are released in the order of a list; the lock manager ignores them.\<close>

definition release_locks :: "table_state \<Rightarrow> table_state" where
  "release_locks s = fold (\<lambda>rid s. set_txn (snd (LockManager_Unlock (txn_m s) rid)) s)
     (remdups (shared_lock_set (txn_m s) @ exclusive_lock_set (txn_m s))) s"

definition pop_write :: "table_state \<Rightarrow> table_state" where
  "pop_write s = s\<lparr>txn_m := (txn_m s)\<lparr>write_set := butlast (write_set (txn_m s))\<rparr>\<rparr>"

partial_function (option) commit_loop :: "bool \<Rightarrow> table_state \<Rightarrow> table_state option" where
  "commit_loop logging s =
     (if write_set (txn_m s) = [] then Some s
      else do {
        let item = last (write_set (txn_m s));
        s \<leftarrow> (if wtype_w item = DELETE then th_ApplyDelete logging (rid_w item) s else Some s);
        commit_loop logging (pop_write s) })"

definition tm_Commit :: "bool \<Rightarrow> table_state \<Rightarrow> table_state option" where
  "tm_Commit logging s =
     do { let s = set_txn (SetState COMMITTED (txn_m s)) s;
          s \<leftarrow> commit_loop logging s;
          Some (release_locks (set_txn ((txn_m s)\<lparr>write_set := []\<rparr>) s)) }"

partial_function (option) abort_loop :: "bool \<Rightarrow> table_state \<Rightarrow> table_state option" where
  "abort_loop logging s =
     (if write_set (txn_m s) = [] then Some s
      else do {
        let item = last (write_set (txn_m s));
        s \<leftarrow> (if wtype_w item = DELETE then th_RollbackDelete logging (rid_w item) s
          else if wtype_w item = INSERT then th_ApplyDelete logging (rid_w item) s
          else do { (_, s) \<leftarrow> th_UpdateTuple logging (table_w item) (tuple_w item) (rid_w item) s; Some s });
        abort_loop logging (pop_write s) })"

definition tm_Abort :: "bool \<Rightarrow> table_state \<Rightarrow> table_state option" where
  "tm_Abort logging s =
     do { let s = set_txn (SetState ABORTED (txn_m s)) s;
          s \<leftarrow> abort_loop logging s;
          Some (release_locks (set_txn ((txn_m s)\<lparr>write_set := []\<rparr>) s)) }"

end
