(* ===== verification/SlottedPage.thy ===== *)
theory SlottedPage imports TablePage begin

text \<open>
  The slotted page as a list of slots, each free, live or marked as deleted: the abstract operations,
  the layout of slots and free space pointer that keeps the tuples apart, and the relation between
  the bytes of a page and its layout.
\<close>

section \<open>Slots as data\<close>

datatype slot = Free | Live bytes | Dead bytes

fun slot_bytes :: "slot \<Rightarrow> bytes" where
  "slot_bytes Free = []"
| "slot_bytes (Live bs) = bs"
| "slot_bytes (Dead bs) = bs"

definition room :: "slot list \<Rightarrow> int" where
  "room ss = 512 - 24 - 8 * int (length ss) - (\<Sum>s\<leftarrow>ss. int (length (slot_bytes s)))"

fun first_free :: "slot list \<Rightarrow> nat" where
  "first_free [] = 0"
| "first_free (s # ss) = (if s = Free then 0 else Suc (first_free ss))"

definition slots_insert :: "bytes \<Rightarrow> slot list \<Rightarrow> (nat \<times> slot list) option" where
  "slots_insert bs ss =
     (let i = first_free ss in
      if room ss < int (length bs) then None
      else if i < length ss then Some (i, ss[i := Live bs])
      else if room ss < int (length bs) + 8 then None
      else Some (i, ss @ [Live bs]))"

fun mark :: "slot \<Rightarrow> slot" where
  "mark (Live bs) = Dead bs"
| "mark s = s"

fun unmark :: "slot \<Rightarrow> slot" where
  "unmark (Dead bs) = Live bs"
| "unmark s = s"

lemma first_free_le: "first_free ss \<le> length ss"
  by (induction ss) auto

lemma first_free_nth: "first_free ss < length ss \<Longrightarrow> ss ! first_free ss = Free"
  by (induction ss) auto

section \<open>Layouts\<close>

text \<open>The slot array \<open>(offset, size)\<close> and the free space pointer: the used tuples lie between the
  pointer and the end of the page, do not overlap, and leave no hole.\<close>

abbreviation slot_end :: "int \<times> int \<Rightarrow> int" where
  "slot_end e \<equiv> fst e + \<bar>snd e\<bar>"

definition apart :: "int \<times> int \<Rightarrow> int \<times> int \<Rightarrow> bool" where
  "apart e e' \<longleftrightarrow> snd e = 0 \<or> snd e' = 0 \<or> slot_end e \<le> fst e' \<or> slot_end e' \<le> fst e"

definition sizes :: "(int \<times> int) list \<Rightarrow> int" where
  "sizes s = (\<Sum>e\<leftarrow>s. \<bar>snd e\<bar>)"

definition layout :: "int \<Rightarrow> (int \<times> int) list \<Rightarrow> bool" where
  "layout f s \<longleftrightarrow> 24 + 8 * int (length s) \<le> f \<and> f \<le> 512 \<and>
     (\<forall>i < length s. snd (s ! i) \<noteq> 0 \<longrightarrow> f \<le> fst (s ! i) \<and> slot_end (s ! i) \<le> 512) \<and>
     (\<forall>i < length s. \<forall>j < length s. i \<noteq> j \<longrightarrow> apart (s ! i) (s ! j)) \<and>
     sizes s = 512 - f"

lemma apart_sym: "apart e e' \<longleftrightarrow> apart e' e"
  by (auto simp: apart_def)

lemma sizes_update: "i < length s \<Longrightarrow> sizes (s[i := e]) = sizes s - \<bar>snd (s ! i)\<bar> + \<bar>snd e\<bar>"
proof (induction s arbitrary: i)
  case (Cons a s)
  then show ?case by (cases i) (simp_all add: sizes_def)
qed simp

lemma sizes_append: "sizes (s @ [e]) = sizes s + \<bar>snd e\<bar>"
  by (simp add: sizes_def)

lemma sizes_map: "(\<And>e. \<bar>snd (g e)\<bar> = \<bar>snd e\<bar>) \<Longrightarrow> sizes (map g s) = sizes s"
  by (simp add: sizes_def comp_def)

lemma layout_bounds:
  assumes "layout f s" and "i < length s" and "snd (s ! i) \<noteq> 0"
  shows "f \<le> fst (s ! i)" and "slot_end (s ! i) \<le> 512"
  using assms by (auto simp: layout_def)

lemma layout_apart: "layout f s \<Longrightarrow> i < length s \<Longrightarrow> j < length s \<Longrightarrow> i \<noteq> j \<Longrightarrow> apart (s ! i) (s ! j)"
  by (auto simp: layout_def)

lemma layout_init: "layout 512 []"
  by (simp add: layout_def sizes_def)

text \<open>A new tuple of size \<open>n\<close> goes below the free space pointer, into a free slot or a new one.\<close>

lemma layout_insert:
  assumes l: "layout f s" and i: "i < length s" "snd (s ! i) = 0" and n: "0 < n" "24 + 8 * int (length s) \<le> f - n"
  shows "layout (f - n) (s[i := (f - n, n)])"
  unfolding layout_def
proof (intro conjI allI impI)
  fix j k assume jk: "j < length (s[i := (f - n, n)])" "k < length (s[i := (f - n, n)])" "j \<noteq> k"
  show "apart (s[i := (f - n, n)] ! j) (s[i := (f - n, n)] ! k)"
    using i(1) jk layout_apart [OF l, of j k] layout_bounds [OF l, of j] layout_bounds [OF l, of k] n(1)
    by (cases "j = i"; cases "k = i") (auto simp: apart_def)
next
  fix j assume "j < length (s[i := (f - n, n)])" "snd (s[i := (f - n, n)] ! j) \<noteq> 0"
  then show "f - n \<le> fst (s[i := (f - n, n)] ! j)" "slot_end (s[i := (f - n, n)] ! j) \<le> 512"
    using i(1) layout_bounds [OF l, of j] l n by (cases "j = i"; auto simp: layout_def)+
qed (use l i n in \<open>auto simp: layout_def sizes_update\<close>)

lemma layout_append:
  assumes l: "layout f s" and n: "0 < n" "32 + 8 * int (length s) \<le> f - n"
  shows "layout (f - n) (s @ [(f - n, n)])"
  unfolding layout_def
proof (intro conjI allI impI)
  fix j k assume jk: "j < length (s @ [(f - n, n)])" "k < length (s @ [(f - n, n)])" "j \<noteq> k"
  show "apart ((s @ [(f - n, n)]) ! j) ((s @ [(f - n, n)]) ! k)"
    using jk layout_apart [OF l, of j k] layout_bounds [OF l, of j] layout_bounds [OF l, of k] n(1)
    by (auto simp: nth_append apart_def)
next
  fix j assume "j < length (s @ [(f - n, n)])" "snd ((s @ [(f - n, n)]) ! j) \<noteq> 0"
  then show "f - n \<le> fst ((s @ [(f - n, n)]) ! j)" "slot_end ((s @ [(f - n, n)]) ! j) \<le> 512"
    using layout_bounds [OF l, of j] l n by (auto simp: nth_append layout_def split: if_splits)
qed (use l n in \<open>auto simp: layout_def sizes_append\<close>)

text \<open>Changing the sign of a size, or the offset of a free slot, keeps the layout.\<close>

lemma layout_sign:
  assumes l: "layout f s" and i: "i < length s" and e: "fst e = fst (s ! i) \<or> snd e = 0" "\<bar>snd e\<bar> = \<bar>snd (s ! i)\<bar>"
  shows "layout f (s[i := e])"
  unfolding layout_def
proof (intro conjI allI impI)
  have z: "snd e = 0 \<longleftrightarrow> snd (s ! i) = 0" using e(2) by auto
  fix j k assume jk: "j < length (s[i := e])" "k < length (s[i := e])" "j \<noteq> k"
  show "apart (s[i := e] ! j) (s[i := e] ! k)"
    using i jk layout_apart [OF l, of j k] e z by (cases "j = i"; cases "k = i") (auto simp: apart_def)
next
  have z: "snd e = 0 \<longleftrightarrow> snd (s ! i) = 0" using e(2) by auto
  fix j assume "j < length (s[i := e])" "snd (s[i := e] ! j) \<noteq> 0"
  then show "f \<le> fst (s[i := e] ! j)" "slot_end (s[i := e] ! j) \<le> 512"
    using layout_bounds [OF l, of j] e i z by (cases "j = i"; auto)+
qed (use l i e in \<open>auto simp: layout_def sizes_update\<close>)

text \<open>Replacing the tuple of slot \<open>i\<close> by one of size \<open>m\<close>, possibly none, moves the tuples below it.\<close>

definition moved :: "int \<Rightarrow> int \<Rightarrow> int \<times> int \<Rightarrow> int \<times> int" where
  "moved off dist e = (if snd e \<noteq> 0 \<and> fst e < off then (fst e + dist, snd e) else e)"

lemma moved_size [simp]: "snd (moved off dist e) = snd e"
  by (simp add: moved_def)

lemma layout_resize:
  assumes l: "layout f s" and i: "i < length s" "snd (s ! i) \<noteq> 0"
    and m: "0 \<le> m" "24 + 8 * int (length s) \<le> f + \<bar>snd (s ! i)\<bar> - m"
  defines "dist \<equiv> \<bar>snd (s ! i)\<bar> - m"
  shows "layout (f + dist) ((map (moved (fst (s ! i)) dist) s)[i := (fst (s ! i) + dist, m)])"
    (is "layout _ ?s")
  unfolding layout_def
proof (intro conjI allI impI)
  have b: "f \<le> fst (s ! j)" "slot_end (s ! j) \<le> 512" if "j < length s" "snd (s ! j) \<noteq> 0" for j
    using layout_bounds [OF l that] .
  note bi = b [OF i]
  have a: "slot_end (s ! j) \<le> fst (s ! i) \<or> slot_end (s ! i) \<le> fst (s ! j)"
    if "j < length s" "j \<noteq> i" "snd (s ! j) \<noteq> 0" for j
    using layout_apart [OF l that(1) i(1) that(2)] that(3) i(2) by (auto simp: apart_def)
  fix j k assume jk: "j < length ?s" "k < length ?s" "j \<noteq> k"
  then have jk': "j < length s" "k < length s" by auto
  have new: "apart (fst (s ! i) + dist, m) (moved (fst (s ! i)) dist (s ! k))" if "k < length s" "k \<noteq> i" for k
    using a [OF that] i(2) m(1) unfolding apart_def moved_def dist_def by (cases "snd (s ! k) = 0") (simp, simp, arith)
  show "apart (?s ! j) (?s ! k)"
  proof (cases "j = i \<or> k = i")
    case True
    then show ?thesis
      using jk jk' i(1) new [of j] new [of k] by (auto simp: apart_sym [of _ "(_, m)"])
  next
    case False
    show ?thesis
    proof (cases "snd (s ! j) = 0 \<or> snd (s ! k) = 0")
      case False': False
      then show ?thesis
        using False jk' a [of j] a [of k] layout_apart [OF l jk' jk(3)] m(1)
        by (auto simp: nth_list_update apart_def moved_def dist_def)
    qed (use False jk' in \<open>auto simp: nth_list_update apart_def\<close>)
  qed
next
  have b: "f \<le> fst (s ! j)" "slot_end (s ! j) \<le> 512" if "j < length s" "snd (s ! j) \<noteq> 0" for j
    using layout_bounds [OF l that] .
  note bi = b [OF i]
  fix j assume j: "j < length ?s" "snd (?s ! j) \<noteq> 0"
  then have j': "j < length s" by simp
  have a: "slot_end (s ! j) \<le> fst (s ! i) \<or> slot_end (s ! i) \<le> fst (s ! j)"
    if "j \<noteq> i" "snd (s ! j) \<noteq> 0"
    using layout_apart [OF l j' i(1) that(1)] that(2) i(2) by (auto simp: apart_def)
  show "f + dist \<le> fst (?s ! j)"
    using j j' a b [of j] bi m(1) i(2) by (cases "j = i") (auto simp: nth_list_update moved_def dist_def)
  show "slot_end (?s ! j) \<le> 512"
    using j j' a b [of j] bi m(1) i(2) by (cases "j = i") (auto simp: nth_list_update moved_def dist_def)
next
  have "sizes ?s = sizes s - \<bar>snd (s ! i)\<bar> + m"
    using i m(1) by (simp add: sizes_update sizes_map)
  then show "sizes ?s = 512 - (f + dist)" using l by (simp add: layout_def dist_def)
next
  show "24 + 8 * int (length ?s) \<le> f + dist" using m by (simp add: dist_def)
  show "f + dist \<le> 512" using layout_bounds [OF l i] m(1) by (simp add: dist_def)
qed

text \<open>Free slots have offset \<open>0\<close>.\<close>

definition free_zero :: "(int \<times> int) list \<Rightarrow> bool" where
  "free_zero s \<longleftrightarrow> (\<forall>e \<in> set s. snd e = 0 \<longrightarrow> fst e = 0)"

lemma free_zero_simps [simp]:
  "free_zero []" "free_zero (s @ [e]) \<longleftrightarrow> free_zero s \<and> (snd e = 0 \<longrightarrow> fst e = 0)"
  by (auto simp: free_zero_def)

lemma free_zero_update: "free_zero s \<Longrightarrow> (snd e = 0 \<Longrightarrow> fst e = 0) \<Longrightarrow> free_zero (s[i := e])"
  unfolding free_zero_def using set_update_subset_insert by fastforce

lemma free_zero_moved: "free_zero s \<Longrightarrow> free_zero (map (moved off dist) s)"
  by (auto simp: free_zero_def moved_def)

end
