(* ===== verification/TablePageProps.thy ===== *)
theory TablePageProps imports SlottedPage begin

text \<open>
  The operations of the table page on the bytes of a page implement the abstract operations on its
  slots: inserting, marking, updating, deleting, restoring and reading a tuple.
\<close>

section \<open>The bytes of a page and its slots\<close>

text \<open>A page with the first four header fields \<open>h\<close>, the free space pointer \<open>f\<close> and the slots \<open>s\<close>.\<close>

definition tp_rep :: "bytes \<Rightarrow> int \<Rightarrow> (int \<times> int) list \<Rightarrow> bytes \<Rightarrow> bool" where
  "tp_rep h f s d \<longleftrightarrow> length d = 512 \<and> get_bytes 0 16 d = h \<and> get_int 16 d = f \<and> get_int 20 d = int (length s) \<and>
     24 + 8 * length s \<le> 512 \<and>
     (\<forall>i < length s. get_int (24 + 8 * i) d = fst (s ! i) \<and> get_int (28 + 8 * i) d = snd (s ! i))"

lemma tp_repD:
  assumes "tp_rep h f s d"
  shows "length d = 512" "get_bytes 0 16 d = h" "get_int 16 d = f" "get_int 20 d = int (length s)"
    "24 + 8 * length s \<le> 512"
    "i < length s \<Longrightarrow> get_int (24 + 8 * i) d = fst (s ! i)" "i < length s \<Longrightarrow> get_int (28 + 8 * i) d = snd (s ! i)"
  using assms by (auto simp: tp_rep_def)

lemma slot_disjoint: "i \<noteq> j \<Longrightarrow> 8 * i + 8 \<le> 8 * j \<or> 8 * j + 8 \<le> (8 * i :: nat)"
  by arith

text \<open>The setters.\<close>

lemma rep_put_fsp: "tp_rep h f s d \<Longrightarrow> in_range_s 32 x \<Longrightarrow> tp_rep h x s (put_int 16 x d)"
  unfolding tp_rep_def by (auto simp: get_int_put_other get_bytes_put_int_other wrap_s_id)

lemma rep_put_body:
  "tp_rep h f s d \<Longrightarrow> 24 + 8 * length s \<le> a \<Longrightarrow> a + length bs \<le> 512 \<Longrightarrow> tp_rep h f s (put_bytes a bs d)"
  unfolding tp_rep_def by (auto simp: get_int_write_other get_bytes_put_other)

lemma rep_move:
  "tp_rep h f s d \<Longrightarrow> 24 + 8 * length s \<le> dst \<Longrightarrow> dst + n \<le> 512 \<Longrightarrow> src + n \<le> 512 \<Longrightarrow>
   tp_rep h f s (memmove dst src n d)"
  unfolding tp_rep_def by (auto simp: get_int_move_other get_bytes_move_other)

lemma rep_put_off:
  assumes r: "tp_rep h f s d" and i: "i < length s" and x: "in_range_s 32 x"
  shows "tp_rep h f (s[i := (x, snd (s ! i))]) (put_int (24 + 8 * i) x d)"
proof -
  note D = tp_repD [OF r]
  have "get_int (24 + 8 * j) (put_int (24 + 8 * i) x d) = fst (s[i := (x, snd (s ! i))] ! j) \<and>
    get_int (28 + 8 * j) (put_int (24 + 8 * i) x d) = snd (s[i := (x, snd (s ! i))] ! j)" if j: "j < length s" for j
    using D i j slot_disjoint [of i j] x
    by (cases "j = i") (auto simp: get_int_put_other wrap_s_id)
  then show ?thesis using D i by (auto simp: tp_rep_def get_int_put_other get_bytes_put_int_other)
qed

lemma rep_put_size:
  assumes r: "tp_rep h f s d" and i: "i < length s" and x: "in_range_s 32 x"
  shows "tp_rep h f (s[i := (fst (s ! i), x)]) (put_int (28 + 8 * i) x d)"
proof -
  note D = tp_repD [OF r]
  have "get_int (24 + 8 * j) (put_int (28 + 8 * i) x d) = fst (s[i := (fst (s ! i), x)] ! j) \<and>
    get_int (28 + 8 * j) (put_int (28 + 8 * i) x d) = snd (s[i := (fst (s ! i), x)] ! j)" if j: "j < length s" for j
    using D i j slot_disjoint [of i j] x
    by (cases "j = i") (auto simp: get_int_put_other wrap_s_id)
  then show ?thesis using D i by (auto simp: tp_rep_def get_int_put_other get_bytes_put_int_other)
qed

lemma rep_put_new:
  "tp_rep h f s d \<Longrightarrow> 24 + 8 * length s \<le> a \<Longrightarrow> a + 4 \<le> 512 \<Longrightarrow> tp_rep h f s (put_int a x d)"
  unfolding tp_rep_def by (auto simp: get_int_put_other get_bytes_put_int_other)

lemma rep_grow:
  assumes r: "tp_rep h f s d" and len: "32 + 8 * length s \<le> 512"
    and e: "get_int (24 + 8 * length s) d = fst e" "get_int (28 + 8 * length s) d = snd e"
  shows "tp_rep h f (s @ [e]) (put_int 20 (int (length s) + 1) d)"
proof -
  note D = tp_repD [OF r]
  have "wrap_s 32 (int (length s) + 1) = int (length s) + 1" using len by (intro wrap_s_id) auto
  then show ?thesis using D len e
    by (auto simp: tp_rep_def get_int_put_other get_bytes_put_int_other nth_append less_Suc_eq)
qed

text \<open>The getters.\<close>

lemma rep_gets:
  assumes r: "tp_rep h f s d"
  shows "tp_GetTupleCount d = Some (int (length s))" "tp_GetFreeSpacePointer d = Some f"
    "tp_GetFreeSpaceSize d = Some (f - 24 - int (length s) * 8)"
    "i < length s \<Longrightarrow> tp_GetTupleOffset (int i) d = Some (fst (s ! i))"
    "i < length s \<Longrightarrow> tp_GetTupleSize (int i) d = Some (snd (s ! i))"
proof -
  note D = tp_repD [OF r]
  show c: "tp_GetTupleCount d = Some (int (length s))" and p: "tp_GetFreeSpacePointer d = Some f"
    using D by (auto simp: tp_GetTupleCount_def tp_GetFreeSpacePointer_def page_get_def inside_def)
  show "tp_GetFreeSpaceSize d = Some (f - 24 - int (length s) * 8)" by (simp add: tp_GetFreeSpaceSize_def c p)
  assume i: "i < length s"
  have n: "nat (24 + 8 * int i) = 24 + 8 * i" "nat (28 + 8 * int i) = 28 + 8 * i" by auto
  show "tp_GetTupleOffset (int i) d = Some (fst (s ! i))" and "tp_GetTupleSize (int i) d = Some (snd (s ! i))"
    using D i by (auto simp: tp_GetTupleOffset_def tp_GetTupleSize_def page_get_def inside_def n)
qed

lemma rep_sets:
  assumes r: "tp_rep h f s d"
  shows "tp_SetFreeSpacePointer x d = Some (put_int 16 x d)"
    "tp_SetTupleCount x d = Some (put_int 20 x d)"
    "24 + 8 * i + 4 \<le> 512 \<Longrightarrow> tp_SetTupleOffset (int i) x d = Some (put_int (24 + 8 * i) x d)"
    "24 + 8 * i + 8 \<le> 512 \<Longrightarrow> tp_SetTupleSize (int i) x d = Some (put_int (28 + 8 * i) x d)"
proof -
  have n: "nat (24 + 8 * int i) = 24 + 8 * i" "nat (28 + 8 * int i) = 28 + 8 * i" by auto
  show "tp_SetFreeSpacePointer x d = Some (put_int 16 x d)" "tp_SetTupleCount x d = Some (put_int 20 x d)"
    "24 + 8 * i + 4 \<le> 512 \<Longrightarrow> tp_SetTupleOffset (int i) x d = Some (put_int (24 + 8 * i) x d)"
    "24 + 8 * i + 8 \<le> 512 \<Longrightarrow> tp_SetTupleSize (int i) x d = Some (put_int (28 + 8 * i) x d)"
    using tp_repD(1) [OF r]
    by (auto simp: tp_SetFreeSpacePointer_def tp_SetTupleCount_def tp_SetTupleOffset_def tp_SetTupleSize_def
      page_put_def inside_def n)
qed

lemma rep_bytes:
  assumes r: "tp_rep h f s d"
  shows "0 \<le> a \<Longrightarrow> 0 \<le> n \<Longrightarrow> a + n \<le> 512 \<Longrightarrow> page_read a n d = Some (get_bytes (nat a) (nat n) d)"
    "0 \<le> a \<Longrightarrow> a + int (length bs) \<le> 512 \<Longrightarrow> page_write a bs d = Some (put_bytes (nat a) bs d)"
    "0 \<le> a \<Longrightarrow> 0 \<le> b \<Longrightarrow> 0 \<le> n \<Longrightarrow> a + n \<le> 512 \<Longrightarrow> b + n \<le> 512 \<Longrightarrow>
      page_move a b n d = Some (memmove (nat a) (nat b) (nat n) d)"
  using tp_repD(1) [OF r] by (auto simp: page_read_def page_write_def page_move_def inside_def)

text \<open>The page id is the first header field.\<close>

lemma rep_page_id: "tp_rep h f s d \<Longrightarrow> tp_GetPageId d = Some (get_int 0 h)"
proof -
  assume r: "tp_rep h f s d"
  have "get_int 0 d = get_int 0 (get_bytes 0 16 d)" by (simp add: get_int_def load_int_def get_bytes_def min_def)
  then show ?thesis using tp_repD(1,2) [OF r] by (simp add: tp_GetPageId_def page_get_def inside_def)
qed

section \<open>The tuples of a page\<close>

definition slot_of :: "bytes \<Rightarrow> int \<times> int \<Rightarrow> slot" where
  "slot_of d e = (let bs = get_bytes (nat (fst e)) (nat \<bar>snd e\<bar>) d in
     if snd e = 0 then Free else if snd e > 0 then Live bs else Dead bs)"

definition tp_slots :: "bytes \<Rightarrow> slot list" where
  "tp_slots d = map (\<lambda>i. slot_of d (get_int (24 + 8 * i) d, get_int (28 + 8 * i) d)) [0..<nat (get_int 20 d)]"

definition tp_inv :: "bytes \<Rightarrow> bool" where
  "tp_inv d \<longleftrightarrow> (\<exists>h f s. tp_rep h f s d \<and> layout f s \<and> free_zero s)"

lemma tp_slots_rep: "tp_rep h f s d \<Longrightarrow> tp_slots d = map (slot_of d) s"
  by (rule nth_equalityI) (auto simp: tp_slots_def tp_rep_def)

lemma slot_of_cong:
  assumes "snd e = snd e'" and "get_bytes (nat (fst e)) (nat \<bar>snd e\<bar>) d = get_bytes (nat (fst e')) (nat \<bar>snd e\<bar>) d'"
  shows "slot_of d e = slot_of d' e'"
  using assms by (cases "0 < snd e'") (simp_all add: slot_of_def Let_def)

lemma slot_of_simps [simp]:
  "snd e = 0 \<Longrightarrow> slot_of d e = Free"
  "slot_of d e = Free \<longleftrightarrow> snd e = 0"
  "0 < snd e \<Longrightarrow> slot_of d e = Live (get_bytes (nat (fst e)) (nat (snd e)) d)"
  "snd e < 0 \<Longrightarrow> slot_of d e = Dead (get_bytes (nat (fst e)) (nat (- snd e)) d)"
  by (auto simp: slot_of_def Let_def)

lemma slot_length:
  assumes "layout f s" and "length d = 512" and "i < length s"
  shows "int (length (slot_bytes (slot_of d (s ! i)))) = \<bar>snd (s ! i)\<bar>"
proof (cases "snd (s ! i) = 0")
  case False
  have "length (get_bytes (nat (fst (s ! i))) (nat \<bar>snd (s ! i)\<bar>) d) = nat \<bar>snd (s ! i)\<bar>"
    using layout_bounds [OF assms(1,3) False] assms(1,2) by (intro length_get_bytes) (auto simp: layout_def)
  then show ?thesis using False by (cases "0 < snd (s ! i)") (simp_all add: slot_of_def Let_def)
qed simp

lemma room_rep:
  assumes r: "tp_rep h f s d" and l: "layout f s"
  shows "room (tp_slots d) = f - 24 - int (length s) * 8"
proof -
  have "map (\<lambda>x. int (length (slot_bytes (slot_of d x)))) s = map (\<lambda>e. \<bar>snd e\<bar>) s"
    using slot_length [OF l tp_repD(1) [OF r]] by (intro map_cong) (metis in_set_conv_nth)+
  then have "(\<Sum>x\<leftarrow>tp_slots d. int (length (slot_bytes x))) = sizes s"
    by (simp only: tp_slots_rep [OF r] sizes_def map_map comp_def)
  then show ?thesis using l by (simp add: room_def tp_slots_rep [OF r] layout_def)
qed

lemma first_free_rep: "first_free (map (slot_of d) s) = length (takeWhile (\<lambda>e. snd e \<noteq> 0) s)"
  by (induction s) auto

section \<open>Insertion\<close>

text \<open>A tuple that owns the bytes \<open>bs\<close>.\<close>

definition holds :: "tuple \<Rightarrow> bytes \<Rightarrow> bool" where
  "holds t bs \<longleftrightarrow> data_t t = Some bs \<and> size_m t = int (length bs)"

lemma tuple_bytes_holds: "holds t bs \<Longrightarrow> tuple_bytes (size_m t) t = Some bs"
  by (simp add: holds_def tuple_bytes_def page_read_def inside_def get_bytes_def)

lemma find_slot:
  assumes r: "tp_rep h f s d" and "k \<le> length s"
  shows "\<exists>rid'. tp_find_slot False txn d (int (length s)) [int k..int (length s) - 1] rid =
      Some (int (k + first_free (map (slot_of d) (drop k s))), rid') \<and>
    (k + first_free (map (slot_of d) (drop k s)) < length s \<longrightarrow>
      rid' = \<lparr>rid_page_id = get_int 0 h, slot_num = int (k + first_free (map (slot_of d) (drop k s)))\<rparr>)"
  using assms(2)
proof (induction "length s - k" arbitrary: k rid)
  case 0
  then show ?case by simp
next
  case (Suc m)
  then have k: "k < length s" by simp
  have u: "[int k..int (length s) - 1] = int k # [int (Suc k)..int (length s) - 1]"
    using k upto_rec1 [of "int k" "int (length s) - 1"] by (simp add: add.commute)
  have dr: "drop k s = s ! k # drop (Suc k) s" using k by (simp add: Cons_nth_drop_Suc)
  show ?case
  proof (cases "snd (s ! k) = 0")
    case True
    then show ?thesis using k
      by (simp add: u dr rep_page_id [OF r] rep_gets(5) [OF r] Let_def RID_Set_def del: upto.simps)
  next
    case False
    have "m = length s - Suc k" "Suc k \<le> length s" using Suc.hyps(2) k by auto
    from Suc.hyps(1) [OF this, of "RID_Set (get_int 0 h) (int k) rid"] False k show ?thesis
      by (simp add: u dr rep_page_id [OF r] rep_gets(5) [OF r] Let_def del: upto.simps)
  qed
qed

lemma layout_room: "layout f s \<Longrightarrow> 24 + 8 * int (length s) \<le> f \<and> f \<le> 512"
  by (simp add: layout_def)

text \<open>What the writes of an insertion leave behind.\<close>

definition after_insert :: "nat \<Rightarrow> int \<Rightarrow> bytes \<Rightarrow> bytes \<Rightarrow> bytes" where
  "after_insert i p bs d = put_int (28 + 8 * i) (int (length bs))
     (put_int (24 + 8 * i) p (put_bytes (nat p) bs (put_int 16 p d)))"

lemma after_insert_old:
  assumes "length d = 512" and "24 + 8 * i + 8 \<le> nat p" and "nat p + length bs \<le> a" and "a + n \<le> 512"
  shows "get_bytes a n (after_insert i p bs d) = get_bytes a n d"
  using assms by (simp add: after_insert_def get_bytes_put_int_other get_bytes_put_other)

lemma after_insert_new:
  assumes "length d = 512" and "24 + 8 * i + 8 \<le> nat p" and "nat p + length bs \<le> 512"
  shows "get_bytes (nat p) (length bs) (after_insert i p bs d) = bs"
  using assms by (simp add: after_insert_def get_bytes_put_int_other)

lemma after_insert_rep:
  assumes r: "tp_rep h f s d" and i: "i < length s" and p: "24 + 8 * int (length s) \<le> p" "p + int (length bs) \<le> 512"
  shows "tp_rep h p (s[i := (p, int (length bs))]) (after_insert i p bs d)"
proof -
  have v: "in_range_s 32 p" "in_range_s 32 (int (length bs))" using p by auto
  have "tp_rep h p s (put_bytes (nat p) bs (put_int 16 p d))"
    using p by (intro rep_put_body rep_put_fsp [OF r v(1)]) auto
  from rep_put_off [OF this i v(1)]
  have r2: "tp_rep h p (s[i := (p, snd (s ! i))]) (put_int (24 + 8 * i) p (put_bytes (nat p) bs (put_int 16 p d)))" .
  from rep_put_size [OF r2, of i "int (length bs)"] show ?thesis using i v(2) by (simp add: after_insert_def)
qed

lemma after_insert_append:
  assumes r: "tp_rep h f s d" and p: "32 + 8 * int (length s) \<le> p" "p + int (length bs) \<le> 512"
  shows "tp_rep h p (s @ [(p, int (length bs))])
    (put_int 20 (int (length s) + 1) (after_insert (length s) p bs d))"
proof -
  have v: "in_range_s 32 p" "in_range_s 32 (int (length bs))" using p by auto
  have r1: "tp_rep h p s (put_bytes (nat p) bs (put_int 16 p d))"
    using p by (intro rep_put_body rep_put_fsp [OF r v(1)]) auto
  have len: "32 + 8 * length s \<le> 512" using p by simp
  have "tp_rep h p s (after_insert (length s) p bs d)"
    unfolding after_insert_def using len by (intro rep_put_new r1) auto
  moreover have "get_int (24 + 8 * length s) (after_insert (length s) p bs d) = p"
    "get_int (28 + 8 * length s) (after_insert (length s) p bs d) = int (length bs)"
    using len v tp_repD(1) [OF r1] by (simp_all add: after_insert_def get_int_put_other wrap_s_id)
  ultimately show ?thesis by (intro rep_grow len) simp_all
qed

lemma insert_step:
  assumes r: "tp_rep h f s d" and l: "layout f s" and t: "holds t bs" "bs \<noteq> []"
    and i: "i = first_free (map (slot_of d) s)"
    and n: "int (length bs) \<le> f - 24 - int (length s) * 8"
      "i = length s \<Longrightarrow> int (length bs) + 8 \<le> f - 24 - int (length s) * 8"
  defines "p \<equiv> f - int (length bs)"
  shows "tp_InsertTuple False t rid txn d = Some (True, \<lparr>rid_page_id = get_int 0 h, slot_num = int i\<rparr>, txn,
    if i = length s then put_int 20 (int (length s) + 1) (after_insert i p bs d) else after_insert i p bs d)"
proof -
  have i': "i \<le> length s" using first_free_le [of "map (slot_of d) s"] i by simp
  obtain rid' where fs: "tp_find_slot False txn d (int (length s)) [0..int (length s) - 1] rid = Some (int i, rid')"
    "i < length s \<Longrightarrow> rid' = \<lparr>rid_page_id = get_int 0 h, slot_num = int i\<rparr>"
    using find_slot [OF r, of 0 txn rid] i by auto
  have b: "24 + 8 * int i + 8 \<le> p" "24 + 8 * int (length s) \<le> p" "p + int (length bs) \<le> 512" "0 \<le> p"
    using n i' layout_room [OF l] by (cases "i = length s"; auto simp: p_def)+
  have sz: "size_m t = int (length bs)" "0 < length bs" using t by (auto simp: holds_def)
  have v: "in_range_s 32 p" using b by auto
  have r1: "tp_rep h p s (put_int 16 p d)" by (rule rep_put_fsp [OF r v])
  have r2: "tp_rep h p s (put_bytes (nat p) bs (put_int 16 p d))" using b by (intro rep_put_body r1) auto
  have i8: "24 + 8 * i + 8 \<le> 512" "24 + 8 * i + 4 \<le> 512" using b by auto
  let ?d3 = "put_int (24 + 8 * i) p (put_bytes (nat p) bs (put_int 16 p d))"
  have d4: "after_insert i p bs d = put_int (28 + 8 * i) (int (length bs)) ?d3" by (simp add: after_insert_def)
  have r4: "\<exists>s'. tp_rep h p s' ?d3 \<and> length s' = length s"
    "\<exists>s'. tp_rep h p s' (after_insert i p bs d) \<and> length s' = length s"
  proof -
    show "\<exists>s'. tp_rep h p s' ?d3 \<and> length s' = length s"
    proof (cases "i = length s")
      case True
      then show ?thesis using rep_put_new [OF r2, of "24 + 8 * i" p] i8 by auto
    next
      case False
      then show ?thesis using rep_put_off [OF r2, of i p] v i' by fastforce
    qed
    show "\<exists>s'. tp_rep h p s' (after_insert i p bs d) \<and> length s' = length s"
    proof (cases "i = length s")
      case True
      have "tp_rep h p s ?d3" using rep_put_new [OF r2, of "24 + 8 * i" p] i8 True by auto
      then show ?thesis using rep_put_new [of h p s ?d3 "28 + 8 * i"] i8 True by (auto simp: d4 [unfolded True])
    next
      case False
      then show ?thesis using after_insert_rep [OF r _ b(2,3), of i] i' by fastforce
    qed
  qed
  obtain s3 where r3: "tp_rep h p s3 ?d3" "length s3 = length s" using r4(1) by blast
  obtain s4 where r4: "tp_rep h p s4 (after_insert i p bs d)" "length s4 = length s" using r4(2) by blast
  note E = tp_InsertTuple_def rep_gets [OF r] p_def [symmetric] rep_sets [OF r] rep_gets [OF r1]
      tuple_bytes_holds [OF t(1), unfolded sz(1)] rep_bytes(2) [OF r1 b(4,3)] rep_gets [OF r2] rep_sets(3) [OF r2 i8(2)]
      rep_sets(4) [OF r3(1) i8(1)] d4 [symmetric] rep_gets [OF r4(1)] r4(2)
  show ?thesis
  proof (cases "i = length s")
    case True
    note P = rep_page_id [OF r4(1)] rep_sets(2) [OF r4(1)]
    have g: "\<not> f - 24 - int (length s) * 8 < int (length bs)" "\<not> f - 24 - int (length s) * 8 < int (length bs) + 8"
      using n True by auto
    show ?thesis using fs(1) sz g by (simp add: E P True [symmetric] RID_Set_def Let_def)
  next
    case False
    have g: "\<not> f - 24 - int (length s) * 8 < int (length bs)" using n by auto
    show ?thesis using fs i' False sz g by (simp add: E Let_def)
  qed
qed

lemma rep_id: "tp_rep h f s d \<Longrightarrow> get_int 0 h = get_int 0 d"
  using tp_repD(2) by (fastforce simp: get_int_def load_int_def get_bytes_def min_def)

lemma layout_slot_bytes:
  assumes "layout f s" and "j < length s" and "snd (s ! j) \<noteq> 0"
    and "\<And>a n. nat f \<le> a \<Longrightarrow> a + n \<le> 512 \<Longrightarrow> get_bytes a n d' = get_bytes a n d"
  shows "slot_of d' (s ! j) = slot_of d (s ! j)"
proof (rule slot_of_cong)
  show "get_bytes (nat (fst (s ! j))) (nat \<bar>snd (s ! j)\<bar>) d' = get_bytes (nat (fst (s ! j))) (nat \<bar>snd (s ! j)\<bar>) d"
    using layout_bounds [OF assms(1-3)] layout_room [OF assms(1)] by (intro assms(4)) auto
qed simp

lemma tp_InsertTuple_some:
  assumes "tp_inv d" and t: "holds t bs" "bs \<noteq> []" and ins: "slots_insert bs (tp_slots d) = Some (i, ss)"
  shows "\<exists>d'. tp_InsertTuple False t rid txn d =
      Some (True, \<lparr>rid_page_id = get_int 0 d, slot_num = int i\<rparr>, txn, d') \<and>
    tp_inv d' \<and> tp_slots d' = ss \<and> get_bytes 0 16 d' = get_bytes 0 16 d"
proof -
  obtain h f s where r: "tp_rep h f s d" and l: "layout f s" and fz: "free_zero s" using assms(1) by (auto simp: tp_inv_def)
  have sl: "tp_slots d = map (slot_of d) s" by (rule tp_slots_rep [OF r])
  define p where "p = f - int (length bs)"
  from ins have i: "i = first_free (map (slot_of d) s)" by (auto simp: slots_insert_def Let_def sl split: if_splits)
  have n: "int (length bs) \<le> f - 24 - int (length s) * 8"
    "i = length s \<Longrightarrow> int (length bs) + 8 \<le> f - 24 - int (length s) * 8"
    using ins room_rep [OF r l] i by (auto simp: slots_insert_def Let_def sl split: if_splits)
  have ss: "ss = (if i < length s then (map (slot_of d) s)[i := Live bs] else map (slot_of d) s @ [Live bs])"
    using ins i by (auto simp: slots_insert_def Let_def sl split: if_splits)
  let ?d = "if i = length s then put_int 20 (int (length s) + 1) (after_insert i p bs d) else after_insert i p bs d"
  let ?s = "if i = length s then s @ [(p, int (length bs))] else s[i := (p, int (length bs))]"
  have il: "i \<le> length s" using first_free_le [of "map (slot_of d) s"] i by simp
  have f: "f \<le> 512" using layout_room [OF l] by simp
  have p: "24 + 8 * int i + 8 \<le> p" "24 + 8 * int (length s) \<le> p" "p + int (length bs) = f"
    using n il layout_room [OF l] by (cases "i = length s"; auto simp: p_def)+
  have r': "tp_rep h p ?s ?d"
    using after_insert_append [OF r, of p bs] after_insert_rep [OF r, of i p bs] p f il by auto
  have l': "layout p ?s"
  proof (cases "i = length s")
    case True
    then show ?thesis using layout_append [OF l, of "int (length bs)"] p t(2) by (simp add: p_def)
  next
    case False
    then have "snd (s ! i) = 0" using first_free_nth [of "map (slot_of d) s"] i il by simp
    then show ?thesis using layout_insert [OF l, of i "int (length bs)"] False il p t(2) by (simp add: p_def)
  qed
  note D = tp_repD(1) [OF r]
  have len: "length (after_insert i p bs d) = 512" using D p f by (simp add: after_insert_def)
  have cnt: "get_bytes a m (if i = length s then put_int 20 x e else e) = get_bytes a m e"
    if "length e = 512" "24 \<le> a" "a + m \<le> 512" for e x a m
    using that by (auto intro: get_bytes_put_int_other)
  have old: "get_bytes a m ?d = get_bytes a m d" if "nat f \<le> a" "a + m \<le> 512" for a m
  proof -
    have "24 \<le> a" using that p by linarith
    then show ?thesis using cnt [OF len _ that(2)] after_insert_old [OF D, of i p bs a m] that p by simp
  qed
  have new: "get_bytes (nat p) (length bs) ?d = bs"
  proof -
    have "24 \<le> nat p" "nat p + length bs \<le> 512" using p f by linarith+
    then show ?thesis using cnt [OF len] after_insert_new [OF D, of i p bs] p f by simp
  qed
  have sp: "slot_of ?d (p, int (length bs)) = Live bs" using new t(2) by simp
  have same: "slot_of ?d (s ! j) = slot_of d (s ! j)" if "j < length s" for j
    using layout_slot_bytes [OF l that _ old] by (cases "snd (s ! j) = 0") simp_all
  have "tp_slots ?d = ss"
  proof -
    define d' where "d' = ?d"
    have "map (slot_of d') s = map (slot_of d) s"
      by (rule nth_equalityI) (use same in \<open>simp_all add: d'_def\<close>)
    moreover have "slot_of d' (p, int (length bs)) = Live bs" using sp by (simp add: d'_def)
    moreover have "tp_slots d' = map (slot_of d') ?s" using tp_slots_rep [OF r'] by (simp add: d'_def)
    ultimately show ?thesis using il by (simp add: ss map_update d'_def [symmetric] del: map_eq_conv split: if_splits)
  qed
  moreover have "get_bytes 0 16 ?d = get_bytes 0 16 d" using tp_repD(2) [OF r] tp_repD(2) [OF r'] by simp
  moreover have "free_zero ?s" using fz t(2) by (auto intro: free_zero_update)
  then have "tp_inv ?d" unfolding tp_inv_def using r' l' by blast
  moreover note insert_step [OF r l t i n, of rid txn, folded p_def]
  ultimately show ?thesis by (auto simp: rep_id [OF r])
qed

lemma tp_InsertTuple_none:
  assumes "tp_inv d" and t: "holds t bs" "bs \<noteq> []" and ins: "slots_insert bs (tp_slots d) = None"
  shows "\<exists>rid'. tp_InsertTuple False t rid txn d = Some (False, rid', txn, d)"
proof -
  obtain h f s where r: "tp_rep h f s d" and l: "layout f s" and fz: "free_zero s" using assms(1) by (auto simp: tp_inv_def)
  have sl: "tp_slots d = map (slot_of d) s" by (rule tp_slots_rep [OF r])
  obtain rid' where fs: "tp_find_slot False txn d (int (length s)) [0..int (length s) - 1] rid =
      Some (int (first_free (map (slot_of d) s)), rid')"
    using find_slot [OF r, of 0 txn rid] by auto
  have sz: "size_m t = int (length bs)" "0 < length bs" using t by (auto simp: holds_def)
  have "room (tp_slots d) < int (length bs) \<or> first_free (map (slot_of d) s) = length s \<and> room (tp_slots d) < int (length bs) + 8"
    using ins first_free_le [of "map (slot_of d) s"] by (auto simp: slots_insert_def Let_def sl split: if_splits)
  then show ?thesis using fs sz
    by (auto simp: tp_InsertTuple_def rep_gets [OF r] room_rep [OF r l])
qed

section \<open>Marking and restoring\<close>

lemma resign_step:
  assumes r: "tp_rep h f s d" and l: "layout f s" and i: "i < length s" and x: "\<bar>x\<bar> = \<bar>snd (s ! i)\<bar>"
  shows "tp_rep h f (s[i := (fst (s ! i), x)]) (put_int (28 + 8 * i) x d)"
    and "layout f (s[i := (fst (s ! i), x)])"
    and "tp_slots (put_int (28 + 8 * i) x d) = (tp_slots d)[i := slot_of d (fst (s ! i), x)]"
proof -
  have "\<bar>snd (s ! i)\<bar> \<le> 512"
    using layout_bounds [OF l i] layout_room [OF l] by (cases "snd (s ! i) = 0") auto
  then have v: "in_range_s 32 x" using x by auto
  show r': "tp_rep h f (s[i := (fst (s ! i), x)]) (put_int (28 + 8 * i) x d)" by (rule rep_put_size [OF r i v])
  show l': "layout f (s[i := (fst (s ! i), x)])" using x by (intro layout_sign [OF l i]) auto
  have old: "get_bytes a n (put_int (28 + 8 * i) x d) = get_bytes a n d" if "nat f \<le> a" "a + n \<le> 512" for a n
    using tp_repD(1) [OF r] layout_room [OF l] i that by (intro get_bytes_put_int_other) auto
  have s: "slot_of (put_int (28 + 8 * i) x d) ((s[i := (fst (s ! i), x)]) ! j) = slot_of d ((s[i := (fst (s ! i), x)]) ! j)"
    if "j < length s" for j
    using layout_slot_bytes [OF l' _ _ old, of j] that by (cases "snd ((s[i := (fst (s ! i), x)]) ! j) = 0") simp_all
  show "tp_slots (put_int (28 + 8 * i) x d) = (tp_slots d)[i := slot_of d (fst (s ! i), x)]"
    unfolding tp_slots_rep [OF r'] tp_slots_rep [OF r] map_update [symmetric]
    by (rule nth_equalityI) (simp_all add: s [simplified])
qed

lemma slots_same: "(map (slot_of d) s)[i := slot_of d (s ! i)] = map (slot_of d) s"
  by (simp only: map_update [symmetric] list_update_id)

lemma rep_header: "tp_rep h f s d \<Longrightarrow> tp_rep h' f' s' d' \<Longrightarrow> h = h' \<Longrightarrow> get_bytes 0 16 d' = get_bytes 0 16 d"
  by (simp add: tp_rep_def)

text \<open>The operations take a slot number from the record id.\<close>

lemma tp_MarkDelete_refines:
  assumes "tp_inv d" and i: "slot_num rid = int i"
  shows "\<exists>d'. tp_MarkDelete False rid txn d =
      Some (i < length (tp_slots d) \<and> (\<forall>bs. tp_slots d ! i \<noteq> Dead bs), txn, d') \<and> tp_inv d' \<and>
    tp_slots d' = (if i < length (tp_slots d) then (tp_slots d)[i := mark (tp_slots d ! i)] else tp_slots d) \<and>
    get_bytes 0 16 d' = get_bytes 0 16 d"
proof -
  obtain h f s where r: "tp_rep h f s d" and l: "layout f s" and fz: "free_zero s" using assms(1) by (auto simp: tp_inv_def)
  have sl: "tp_slots d = map (slot_of d) s" by (rule tp_slots_rep [OF r])
  consider "length s \<le> i" | "i < length s" "snd (s ! i) \<le> 0" | "i < length s" "0 < snd (s ! i)" by linarith
  then show ?thesis
  proof cases
    case 3
    note st = resign_step [OF r l 3(1), of "- snd (s ! i)"]
    have "24 + 8 * i + 8 \<le> 512" using tp_repD(5) [OF r] 3 by simp
    then have "tp_MarkDelete False rid txn d = Some (True, txn, put_int (28 + 8 * i) (- snd (s ! i)) d)"
      using 3 by (simp add: tp_MarkDelete_def i rep_gets [OF r] rep_sets [OF r] take_exclusive_def)
    moreover have "get_bytes 0 16 (put_int (28 + 8 * i) (- snd (s ! i)) d) = get_bytes 0 16 d"
      using rep_header [OF r st(1)] by simp
    moreover have "free_zero (s[i := (fst (s ! i), - snd (s ! i))])" using fz 3(2) by (intro free_zero_update) auto
    ultimately show ?thesis using 3 st by (auto simp: sl tp_inv_def)
  next
    case 2
    have "mark (slot_of d (s ! i)) = slot_of d (s ! i)" using 2 by (cases "snd (s ! i) = 0") simp_all
    then show ?thesis
      using 2 assms(1) slots_same [of d s i] by (cases "snd (s ! i) = 0") (simp_all add: tp_MarkDelete_def i rep_gets [OF r] take_exclusive_def sl abort_if_def)
  next
    case 1
    then show ?thesis using assms(1) by (simp add: tp_MarkDelete_def i rep_gets [OF r] sl abort_if_def)
  qed
qed

lemma tp_RollbackDelete_refines:
  assumes "tp_inv d" and i: "slot_num rid = int i" "i < length (tp_slots d)"
  shows "\<exists>d'. tp_RollbackDelete False rid txn d = Some d' \<and> tp_inv d' \<and>
    tp_slots d' = (tp_slots d)[i := unmark (tp_slots d ! i)] \<and> get_bytes 0 16 d' = get_bytes 0 16 d"
proof -
  obtain h f s where r: "tp_rep h f s d" and l: "layout f s" and fz: "free_zero s" using assms(1) by (auto simp: tp_inv_def)
  have sl: "tp_slots d = map (slot_of d) s" by (rule tp_slots_rep [OF r])
  have il: "i < length s" using i(2) by (simp add: sl)
  show ?thesis
  proof (cases "snd (s ! i) < 0")
    case True
    note st = resign_step [OF r l il, of "- snd (s ! i)"]
    have "24 + 8 * i + 8 \<le> 512" using tp_repD(5) [OF r] il by simp
    then have "tp_RollbackDelete False rid txn d = Some (put_int (28 + 8 * i) (- snd (s ! i)) d)"
      using True il by (simp add: tp_RollbackDelete_def i rep_gets [OF r] rep_sets [OF r])
    moreover have "get_bytes 0 16 (put_int (28 + 8 * i) (- snd (s ! i)) d) = get_bytes 0 16 d"
      using rep_header [OF r st(1)] by simp
    moreover have "free_zero (s[i := (fst (s ! i), - snd (s ! i))])" using fz True by (intro free_zero_update) auto
    ultimately show ?thesis using True il st by (auto simp: sl tp_inv_def)
  next
    case False
    then have "unmark (slot_of d (s ! i)) = slot_of d (s ! i)" by (cases "snd (s ! i) = 0") simp_all
    then show ?thesis using assms(1) il False slots_same [of d s i] by (simp add: tp_RollbackDelete_def i rep_gets [OF r] sl)
  qed
qed

section \<open>Moving tuples\<close>

text \<open>The loops over the slots are instances of one.\<close>

fun slot_loop :: "(int \<Rightarrow> int \<Rightarrow> bool) \<Rightarrow> (int \<Rightarrow> int) \<Rightarrow> int list \<Rightarrow> bytes \<Rightarrow> bytes option" where
  "slot_loop c g [] d = Some d"
| "slot_loop c g (i # is) d =
     do { off \<leftarrow> tp_GetTupleOffset i d;
          sz \<leftarrow> tp_GetTupleSize i d;
          d \<leftarrow> (if c off sz then tp_SetTupleOffset i (g off) d else Some d);
          slot_loop c g is d }"

lemma update_offsets_loop:
  "tp_update_offsets a z m is = slot_loop (\<lambda>off sz. sz > 0 \<and> off < a + z) (\<lambda>off. off + z - m) is"
proof (induction "is")
  case (Cons i "is")
  show ?case by (rule ext) (simp add: Cons.IH)
qed (rule ext, simp)

lemma shift_offsets_loop:
  "tp_shift_offsets a z is = slot_loop (\<lambda>off sz. sz \<noteq> 0 \<and> off < a) (\<lambda>off. off + z) is"
proof (induction "is")
  case (Cons i "is")
  show ?case by (rule ext) (simp add: Cons.IH)
qed (rule ext, simp)

definition new_off :: "(int \<Rightarrow> int \<Rightarrow> bool) \<Rightarrow> (int \<Rightarrow> int) \<Rightarrow> int \<times> int \<Rightarrow> int \<times> int" where
  "new_off c g e = (if c (fst e) (snd e) then (g (fst e), snd e) else e)"

lemma slot_loop_rep:
  assumes "tp_rep h f s d" and "k \<le> length s"
    and "\<And>i. k \<le> i \<Longrightarrow> i < length s \<Longrightarrow> c (fst (s ! i)) (snd (s ! i)) \<Longrightarrow> in_range_s 32 (g (fst (s ! i)))"
  shows "\<exists>d'. slot_loop c g [int k..int (length s) - 1] d = Some d' \<and>
    tp_rep h f (take k s @ map (new_off c g) (drop k s)) d' \<and>
    (\<forall>a n. 24 + 8 * length s \<le> a \<longrightarrow> a + n \<le> 512 \<longrightarrow> get_bytes a n d' = get_bytes a n d)"
  using assms
proof (induction "length s - k" arbitrary: k s d)
  case 0
  then show ?case by simp
next
  case (Suc m)
  then have k: "k < length s" by simp
  note r = Suc.prems(1)
  have u: "[int k..int (length s) - 1] = int k # [int (Suc k)..int (length s) - 1]"
    using k upto_rec1 [of "int k" "int (length s) - 1"] by (simp add: add.commute)
  have dr: "drop k s = s ! k # drop (Suc k) s" using k by (simp add: Cons_nth_drop_Suc)
  have len: "24 + 8 * k + 4 \<le> 512" "24 + 8 * length s \<le> 512" using tp_repD(5) [OF r] k by auto
  define d1 where "d1 = (if c (fst (s ! k)) (snd (s ! k)) then put_int (24 + 8 * k) (g (fst (s ! k))) d else d)"
  define s1 where "s1 = s[k := new_off c g (s ! k)]"
  have r1: "tp_rep h f s1 d1"
    using rep_put_off [OF r k] Suc.prems(3) [OF order_refl k] r by (simp add: d1_def s1_def new_off_def)
  have b1: "get_bytes a n d1 = get_bytes a n d" if "24 + 8 * length s \<le> a" "a + n \<le> 512" for a n
    using tp_repD(1) [OF r] k that by (auto simp: d1_def intro!: get_bytes_put_int_other)
  have step: "slot_loop c g [int k..int (length s) - 1] d = slot_loop c g [int (Suc k)..int (length s) - 1] d1"
    using len(1) by (simp add: u rep_gets(4,5) [OF r k] rep_sets(3) [OF r] d1_def del: upto.simps of_nat_Suc)
  have "m = length s1 - Suc k" "Suc k \<le> length s1" using Suc.hyps(2) k by (auto simp: s1_def)
  moreover have "in_range_s 32 (g (fst (s1 ! i)))" if "Suc k \<le> i" "i < length s1" "c (fst (s1 ! i)) (snd (s1 ! i))" for i
    using Suc.prems(3) [of i] that by (simp add: s1_def)
  ultimately obtain d' where d': "slot_loop c g [int (Suc k)..int (length s1) - 1] d1 = Some d'"
    "tp_rep h f (take (Suc k) s1 @ map (new_off c g) (drop (Suc k) s1)) d'"
    "\<And>a n. 24 + 8 * length s1 \<le> a \<Longrightarrow> a + n \<le> 512 \<Longrightarrow> get_bytes a n d' = get_bytes a n d1"
    using Suc.hyps(1) [OF _ r1, of "Suc k"] by blast
  have "take (Suc k) s1 @ map (new_off c g) (drop (Suc k) s1) = take k s @ map (new_off c g) (drop k s)"
    using k by (simp add: s1_def dr take_Suc_conv_app_nth)
  then show ?case using d' b1 step by (auto simp: s1_def)
qed

section \<open>Replacing a tuple\<close>

text \<open>The bytes after the tuple of \<open>z\<close> bytes at \<open>o\<close> made room for \<open>bs\<close>, before the slots are touched.\<close>

definition after_resize :: "int \<Rightarrow> int \<Rightarrow> int \<Rightarrow> bytes \<Rightarrow> bytes \<Rightarrow> bytes" where
  "after_resize f off z bs d = (let dist = z - int (length bs) in
     put_bytes (nat (off + dist)) bs
       (put_int 16 (f + dist) (memmove (nat (f + dist)) (nat f) (nat (off - f)) d)))"

text \<open>The bounds the bytes need: the tuple lies between the pointer and the end, and the slots keep
  their room.\<close>

definition resize_ok :: "nat \<Rightarrow> int \<Rightarrow> int \<Rightarrow> int \<Rightarrow> nat \<Rightarrow> bool" where
  "resize_ok len f off z m \<longleftrightarrow> 24 + 8 * int len \<le> f \<and> 24 + 8 * int len \<le> f + z - int m \<and> f \<le> off \<and> off + z \<le> 512 \<and> 0 < z"

lemma resize_ok_layout:
  assumes l: "layout f s" and i: "i < length s" "snd (s ! i) \<noteq> 0"
    and m: "24 + 8 * int (length s) \<le> f + \<bar>snd (s ! i)\<bar> - int m"
  shows "resize_ok (length s) f (fst (s ! i)) \<bar>snd (s ! i)\<bar> m"
  using layout_bounds [OF l i] layout_room [OF l] m i(2) by (simp add: resize_ok_def)

lemma resize_okD:
  assumes "resize_ok len f off z m"
  shows "24 \<le> f" "f \<le> off" "off + z \<le> 512" "24 + 8 * len \<le> nat (f + (z - int m))"
    "nat (f + (z - int m)) + nat (off - f) = nat (off + (z - int m))"
    "nat (off + (z - int m)) + m = nat (off + z)" "nat (off + z) \<le> 512" "nat f + nat (off - f) \<le> 512"
    "nat (f + (z - int m)) + nat (off - f) \<le> 512" "24 \<le> f + (z - int m)" "f + (z - int m) \<le> 512"
    "24 \<le> nat (f + (z - int m))"
  using assms unfolding resize_ok_def by linarith+

lemma after_resize_rep:
  assumes r: "tp_rep h f s d" and ok: "resize_ok (length s) f off z (length bs)"
  shows "tp_rep h (f + (z - int (length bs))) s (after_resize f off z bs d)"
proof -
  note F = resize_okD [OF ok]
  let ?dist = "z - int (length bs)"
  have v: "in_range_s 32 (f + ?dist)" using F by simp
  have "tp_rep h f s (memmove (nat (f + ?dist)) (nat f) (nat (off - f)) d)"
    by (rule rep_move [OF r F(4,9,8)])
  then have "tp_rep h (f + ?dist) s (put_int 16 (f + ?dist) (memmove (nat (f + ?dist)) (nat f) (nat (off - f)) d))"
    by (rule rep_put_fsp [OF _ v])
  moreover have "24 + 8 * length s \<le> nat (off + ?dist)" "nat (off + ?dist) + length bs \<le> 512" using F by linarith+
  ultimately show ?thesis unfolding after_resize_def Let_def by (rule rep_put_body)
qed

lemma after_resize_bytes:
  assumes d: "length d = 512" and ok: "resize_ok len f off z (length bs)"
  defines "dist \<equiv> z - int (length bs)" and "d' \<equiv> after_resize f off z bs d"
  shows "get_bytes (nat (off + dist)) (length bs) d' = bs"
    and "f \<le> a \<Longrightarrow> 0 \<le> n \<Longrightarrow> a + n \<le> off \<Longrightarrow> get_bytes (nat (a + dist)) (nat n) d' = get_bytes (nat a) (nat n) d"
    and "off + z \<le> a \<Longrightarrow> 0 \<le> n \<Longrightarrow> a + n \<le> 512 \<Longrightarrow> get_bytes (nat a) (nat n) d' = get_bytes (nat a) (nat n) d"
proof -
  note F = resize_okD [OF ok, folded dist_def]
  let ?d1 = "memmove (nat (f + dist)) (nat f) (nat (off - f)) d"
  let ?d2 = "put_int 16 (f + dist) ?d1"
  have len: "length ?d1 = 512" using F(8,9) d by simp
  then have len2: "length ?d2 = 512" by simp
  have d': "d' = put_bytes (nat (off + dist)) bs ?d2" by (simp add: d'_def after_resize_def Let_def dist_def)
  have w: "nat (off + dist) + length bs \<le> length ?d2" using F(6,7) len2 by linarith
  show "get_bytes (nat (off + dist)) (length bs) d' = bs" unfolding d' using w by (rule get_bytes_put_same) simp
  show "get_bytes (nat (a + dist)) (nat n) d' = get_bytes (nat a) (nat n) d"
    if a: "f \<le> a" "0 \<le> n" "a + n \<le> off"
  proof -
    have b: "nat (a + dist) + nat n \<le> nat (off + dist)" "20 \<le> nat (a + dist)"
      "nat (a + dist) = nat (f + dist) + nat (a - f)" "nat a = nat f + nat (a - f)"
      "nat (a - f) + nat n \<le> nat (off - f)" "nat (a + dist) + nat n \<le> 512"
      using a F(1,2,10,5,9) by linarith+
    have "get_bytes (nat (a + dist)) (nat n) d' = get_bytes (nat (a + dist)) (nat n) ?d2"
      unfolding d' using b(1,6) len2 by (intro get_bytes_put_other [OF w]) auto
    also have "\<dots> = get_bytes (nat (a + dist)) (nat n) ?d1"
      using b(2,6) len by (intro get_bytes_put_int_other) auto
    also have "\<dots> = get_bytes (nat a) (nat n) d"
      unfolding b(3,4) using F(8,9) b(5) d by (intro get_bytes_move_inside) auto
    finally show ?thesis .
  qed
  show "get_bytes (nat a) (nat n) d' = get_bytes (nat a) (nat n) d"
    if a: "off + z \<le> a" "0 \<le> n" "a + n \<le> 512"
  proof -
    have b: "nat (off + dist) + length bs \<le> nat a" "nat a + nat n \<le> 512" "20 \<le> nat a"
      "nat (f + dist) + nat (off - f) \<le> nat a" using a F(12,5,6) by linarith+
    have "get_bytes (nat a) (nat n) d' = get_bytes (nat a) (nat n) ?d2"
      unfolding d' using b len2 by (intro get_bytes_put_other [OF w]) auto
    also have "\<dots> = get_bytes (nat a) (nat n) ?d1"
      using b len by (intro get_bytes_put_int_other) auto
    also have "\<dots> = get_bytes (nat a) (nat n) d"
      using b(2,4) F(8,9) d by (intro get_bytes_move_other) auto
    finally show ?thesis .
  qed
qed

text \<open>The other tuples are where the moved slots say, with the same bytes.\<close>

lemma after_resize_slots:
  assumes r: "tp_rep h f s d" and l: "layout f s" and i: "i < length s" "snd (s ! i) \<noteq> 0"
    and ok: "resize_ok (length s) f (fst (s ! i)) \<bar>snd (s ! i)\<bar> (length bs)"
    and same: "\<And>a n. 24 + 8 * length s \<le> a \<Longrightarrow> a + n \<le> 512 \<Longrightarrow>
      get_bytes a n d' = get_bytes a n (after_resize f (fst (s ! i)) \<bar>snd (s ! i)\<bar> bs d)"
  defines "dist \<equiv> \<bar>snd (s ! i)\<bar> - int (length bs)"
  shows "j < length s \<Longrightarrow> j \<noteq> i \<Longrightarrow> slot_of d' (moved (fst (s ! i)) dist (s ! j)) = slot_of d (s ! j)"
    and "bs \<noteq> [] \<Longrightarrow> slot_of d' (fst (s ! i) + dist, int (length bs)) = Live bs"
proof -
  note F = resize_okD [OF ok, folded dist_def]
  note B = after_resize_bytes [OF tp_repD(1) [OF r] ok, folded dist_def]
  show "slot_of d' (fst (s ! i) + dist, int (length bs)) = Live bs" if "bs \<noteq> []"
  proof -
    have "24 + 8 * length s \<le> nat (fst (s ! i) + dist)" "nat (fst (s ! i) + dist) + length bs \<le> 512"
      using F(4-7) by linarith+
    then show ?thesis using B(1) same that by simp
  qed
  assume j: "j < length s" "j \<noteq> i"
  show "slot_of d' (moved (fst (s ! i)) dist (s ! j)) = slot_of d (s ! j)"
  proof (cases "snd (s ! j) = 0")
    case False
    note b = layout_bounds [OF l j(1) False]
    define n where "n = \<bar>snd (s ! j)\<bar>"
    define a where "a = fst (s ! j)"
    have n: "0 < n" "f \<le> a" "a + n \<le> 512" using b False by (auto simp: n_def a_def)
    have z: "0 < \<bar>snd (s ! i)\<bar>" using i(2) by simp
    have ap: "a + n \<le> fst (s ! i) \<or> fst (s ! i) + \<bar>snd (s ! i)\<bar> \<le> a"
      using layout_apart [OF l j(1) i(1) j(2)] False i(2) by (auto simp: apart_def n_def a_def)
    define a' where "a' = (if a < fst (s ! i) then a + dist else a)"
    have "get_bytes (nat a') (nat n) d' = get_bytes (nat a) (nat n) d"
    proof (cases "a < fst (s ! i)")
      case True
      then have e: "a + n \<le> fst (s ! i)" using ap z by linarith
      have "24 + 8 * length s \<le> nat (a + dist)" "nat (a + dist) + nat n \<le> 512"
        using F(4-7) e n by linarith+
      then show ?thesis using B(2) [OF n(2) _ e] n(1) same True by (simp add: a'_def)
    next
      case False
      then have e: "fst (s ! i) + \<bar>snd (s ! i)\<bar> \<le> a" using ap n(1) by linarith
      have "24 + 8 * length s \<le> nat a" "nat a + nat n \<le> 512" using F(4-6) e n by linarith+
      then show ?thesis using B(3) [OF e _ n(3)] n(1) same False by (simp add: a'_def)
    qed
    then show ?thesis using False by (intro slot_of_cong) (auto simp: moved_def a'_def a_def n_def)
  next
    case True
    then show ?thesis by simp
  qed
qed

lemma copy_out_rep:
  assumes r: "tp_rep h f s d" and l: "layout f s" and i: "i < length s" "snd (s ! i) \<noteq> 0"
  shows "copy_out (fst (s ! i)) \<bar>snd (s ! i)\<bar> rid d = Some \<lparr>allocated_m = True, rid_m = rid,
    size_m = \<bar>snd (s ! i)\<bar>, data_t = Some (slot_bytes (slot_of d (s ! i)))\<rparr>"
proof -
  have "page_read (fst (s ! i)) \<bar>snd (s ! i)\<bar> d = Some (get_bytes (nat (fst (s ! i))) (nat \<bar>snd (s ! i)\<bar>) d)"
    using layout_bounds [OF l i] layout_room [OF l] by (intro rep_bytes(1) [OF r]) auto
  moreover have "slot_bytes (slot_of d (s ! i)) = get_bytes (nat (fst (s ! i))) (nat \<bar>snd (s ! i)\<bar>) d"
    using i(2) by (cases "0 < snd (s ! i)") simp_all
  ultimately show ?thesis by (simp add: copy_out_def)
qed

text \<open>The end of \<open>ApplyDelete\<close> and \<open>UpdateTuple\<close>: the slot gets its new entry, the loop moves the
  others.\<close>

lemma resize_finish:
  assumes r: "tp_rep h f s d" and l: "layout f s" and fz: "free_zero s" and i: "i < length s" "snd (s ! i) \<noteq> 0"
    and ok: "resize_ok (length s) f (fst (s ! i)) \<bar>snd (s ! i)\<bar> (length bs)"
    and r4: "tp_rep h (f + (\<bar>snd (s ! i)\<bar> - int (length bs))) (s[i := e]) d4"
    and b4: "\<And>a n. 24 + 8 * length s \<le> a \<Longrightarrow> a + n \<le> 512 \<Longrightarrow>
      get_bytes a n d4 = get_bytes a n (after_resize f (fst (s ! i)) \<bar>snd (s ! i)\<bar> bs d)"
    and e': "new_off c g e = e'" "snd e' = int (length bs)" "fst e' = fst (s ! i) + (\<bar>snd (s ! i)\<bar> - int (length bs)) \<or> e' = (0, 0)"
    and e0: "bs \<noteq> [] \<or> e' = (0, 0)"
    and c: "\<And>j. j < length s \<Longrightarrow> j \<noteq> i \<Longrightarrow> new_off c g (s ! j) = moved (fst (s ! i)) (\<bar>snd (s ! i)\<bar> - int (length bs)) (s ! j)"
    and g: "\<And>j. j < length s \<Longrightarrow> c (fst (s[i := e] ! j)) (snd (s[i := e] ! j)) \<Longrightarrow> in_range_s 32 (g (fst (s[i := e] ! j)))"
  shows "\<exists>d'. slot_loop c g [0..int (length s) - 1] d4 = Some d' \<and> tp_inv d' \<and>
    tp_slots d' = (tp_slots d)[i := if bs = [] then Free else Live bs] \<and> get_bytes 0 16 d' = get_bytes 0 16 d"
proof -
  define dist where "dist = \<bar>snd (s ! i)\<bar> - int (length bs)"
  let ?s = "(map (moved (fst (s ! i)) dist) s)[i := e']"
  obtain d' where d': "slot_loop c g [0..int (length s) - 1] d4 = Some d'"
    "tp_rep h (f + dist) (map (new_off c g) (s[i := e])) d'"
    "\<And>a n. 24 + 8 * length s \<le> a \<Longrightarrow> a + n \<le> 512 \<Longrightarrow> get_bytes a n d' = get_bytes a n d4"
    using slot_loop_rep [OF r4, of 0 c g] g by (auto simp: dist_def)
  have s: "map (new_off c g) (s[i := e]) = ?s"
    by (rule nth_equalityI) (use c i(1) e'(1) in \<open>auto simp: nth_list_update dist_def\<close>)
  have m: "24 + 8 * int (length s) \<le> f + \<bar>snd (s ! i)\<bar> - int (length bs)" using ok by (simp add: resize_ok_def)
  have l0: "layout (f + dist) ((map (moved (fst (s ! i)) dist) s)[i := (fst (s ! i) + dist, int (length bs))])"
    using layout_resize [OF l i _ m] by (simp add: dist_def)
  have "layout (f + dist) (((map (moved (fst (s ! i)) dist) s)[i := (fst (s ! i) + dist, int (length bs))])[i := e'])"
    by (rule layout_sign [OF l0]) (use e'(2,3) i(1) in \<open>auto simp: dist_def\<close>)
  then have l': "layout (f + dist) ?s" by simp
  have same: "get_bytes a n d' = get_bytes a n (after_resize f (fst (s ! i)) \<bar>snd (s ! i)\<bar> bs d)"
    if "24 + 8 * length s \<le> a" "a + n \<le> 512" for a n using d'(3) b4 that by simp
  note S = after_resize_slots [OF r l i ok same, folded dist_def]
  have at: "slot_of d' e' = (if bs = [] then Free else Live bs)"
    using S(2) e'(2,3) by (cases e') (auto simp: dist_def)
  have at': "bs \<noteq> [] \<or> e' = (0, 0)" using e0 .
  have "tp_slots d' = (tp_slots d)[i := if bs = [] then Free else Live bs]"
    unfolding tp_slots_rep [OF d'(2)] tp_slots_rep [OF r] s
    by (rule nth_equalityI) (use S(1) at i(1) in \<open>auto simp: nth_list_update\<close>)
  moreover have "free_zero ?s" if "bs \<noteq> [] \<or> e' = (0, 0)"
    using that free_zero_moved [OF fz] e'(2) by (auto intro: free_zero_update)
  then have "tp_inv d'" using d'(2) l' s at' by (auto simp: tp_inv_def)
  moreover have "get_bytes 0 16 d' = get_bytes 0 16 d" using rep_header [OF r d'(2)] by simp
  ultimately show ?thesis using d'(1) by blast
qed

lemma tp_ApplyDelete_refines:
  assumes "tp_inv d" and i: "slot_num rid = int i" "i < length (tp_slots d)" "tp_slots d ! i \<noteq> Free"
  shows "\<exists>d'. tp_ApplyDelete False rid txn d = Some d' \<and> tp_inv d' \<and>
    tp_slots d' = (tp_slots d)[i := Free] \<and> get_bytes 0 16 d' = get_bytes 0 16 d"
proof -
  obtain h f s where r: "tp_rep h f s d" and l: "layout f s" and fz: "free_zero s" using assms(1) by (auto simp: tp_inv_def)
  have sl: "tp_slots d = map (slot_of d) s" by (rule tp_slots_rep [OF r])
  have il: "i < length s" "snd (s ! i) \<noteq> 0" using i(2,3) by (auto simp: sl)
  define off where "off = fst (s ! i)"
  define z where "z = \<bar>snd (s ! i)\<bar>"
  have ok: "resize_ok (length s) f off z (length ([]::bytes))"
  proof -
    have "24 + 8 * int (length s) \<le> f + \<bar>snd (s ! i)\<bar> - int 0" using layout_room [OF l] by linarith
    from resize_ok_layout [OF l il this] show ?thesis by (simp add: off_def z_def)
  qed
  note F = resize_okD [OF ok, simplified]
  let ?d2 = "after_resize f off z [] d"
  have r2: "tp_rep h (f + z) s ?d2" using after_resize_rep [OF r ok] by simp
  have v: "in_range_s 32 0" by simp
  have r3: "tp_rep h (f + z) (s[i := (off, 0)]) (put_int (28 + 8 * i) 0 ?d2)"
    using rep_put_size [OF r2 il(1) v] by (simp add: off_def)
  have r4: "tp_rep h (f + z) (s[i := (0, 0)]) (put_int (24 + 8 * i) 0 (put_int (28 + 8 * i) 0 ?d2))"
    using rep_put_off [OF r3 _ v, of i] il(1) by simp
  let ?d4 = "put_int (24 + 8 * i) 0 (put_int (28 + 8 * i) 0 ?d2)"
  have i8: "24 + 8 * i + 8 \<le> 512" "24 + 8 * i + 4 \<le> 512" using tp_repD(5) [OF r] il by auto
  have b4: "get_bytes a n ?d4 = get_bytes a n ?d2" if "24 + 8 * length s \<le> a" "a + n \<le> 512" for a n
    using tp_repD(1) [OF r2] tp_repD(1) [OF r3] il(1) that by (simp add: get_bytes_put_int_other)
  have mv: "new_off (\<lambda>o' z'. z' \<noteq> 0 \<and> o' < off) (\<lambda>o'. o' + z) e = moved off z e" for e
    by (simp add: new_off_def moved_def)
  have rng: "in_range_s 32 (fst (s[i := (0, 0)] ! j) + z)"
    if "j < length s" "snd (s[i := (0, 0)] ! j) \<noteq> 0 \<and> fst (s[i := (0, 0)] ! j) < off" for j
  proof -
    have "0 \<le> z" by (simp add: z_def)
    then show ?thesis using that layout_bounds [OF l that(1)] F(1-3) il(1) by (cases "j = i") auto
  qed
  have "\<exists>d'. slot_loop (\<lambda>o' z'. z' \<noteq> 0 \<and> o' < off) (\<lambda>o'. o' + z) [0..int (length s) - 1] ?d4 = Some d' \<and> tp_inv d' \<and>
    tp_slots d' = (tp_slots d)[i := Free] \<and> get_bytes 0 16 d' = get_bytes 0 16 d"
    using resize_finish [OF r l fz il ok [unfolded off_def z_def], folded off_def z_def, OF _ b4, where e = "(0, 0)" and e' = "(0, 0)" and g = "\<lambda>o'. o' + z"
      and c = "\<lambda>o' z'. z' \<noteq> 0 \<and> o' < off"] r4 mv rng by (simp add: new_off_def moved_def)
  moreover have "tp_ApplyDelete False rid txn d = slot_loop (\<lambda>o' z'. z' \<noteq> 0 \<and> o' < off) (\<lambda>o'. o' + z) [0..int (length s) - 1] ?d4"
  proof -
    let ?d1 = "memmove (nat (f + z)) (nat f) (nat (off - f)) d"
    have "page_move (f + z) f (off - f) d = Some ?d1"
      using F by (intro rep_bytes(3) [OF r]) auto
    moreover have "tp_SetFreeSpacePointer (f + z) ?d1 = Some ?d2"
      using F rep_sets(1) [OF rep_move [OF r, of "nat (f + z)" "nat (off - f)" "nat f"]]
      by (simp add: after_resize_def put_bytes_def store_bytes_def)
    moreover have "(if snd (s ! i) < 0 then - snd (s ! i) else snd (s ! i)) = z" by (simp add: z_def)
    moreover have "copy_out off z rid d \<noteq> None" using copy_out_rep [OF r l il] by (simp add: off_def z_def)
    ultimately show ?thesis
      using il F(2)
      by (auto simp: tp_ApplyDelete_def i rep_gets [OF r] off_def [symmetric] rep_sets(4) [OF r2 i8(1)]
        rep_sets(3) [OF r3 i8(2)] rep_gets(1) [OF r4] shift_offsets_loop Let_def)
  qed
  ultimately show ?thesis by simp
qed

text \<open>What an update does on the bytes, whatever the other slots are.\<close>

lemma tp_UpdateTuple_exec:
  assumes r: "tp_rep h f s d" and l: "layout f s" and t: "holds t bs"
    and i: "slot_num rid = int i" "i < length s" "0 < snd (s ! i)"
    and fit: "int (length bs) - snd (s ! i) \<le> f - 24 - int (length s) * 8"
  defines "off \<equiv> fst (s ! i)" and "z \<equiv> \<bar>snd (s ! i)\<bar>" and "m \<equiv> int (length bs)"
  defines "d3 \<equiv> put_int (28 + 8 * i) m (after_resize f off z bs d)"
  shows "resize_ok (length s) f off z (length bs)"
    and "tp_rep h (f + (z - m)) (s[i := (off, m)]) d3"
    and "24 + 8 * length s \<le> a \<Longrightarrow> a + n \<le> 512 \<Longrightarrow> get_bytes a n d3 = get_bytes a n (after_resize f off z bs d)"
    and "tp_UpdateTuple False t out rid txn d =
      do { d' \<leftarrow> slot_loop (\<lambda>o' z'. z' > 0 \<and> o' < off + z) (\<lambda>o'. o' + z - m) [0..int (length s) - 1] d3;
           Some (True, \<lparr>allocated_m = True, rid_m = rid, size_m = z, data_t = Some (slot_bytes (slot_of d (s ! i)))\<rparr>, txn, d') }"
proof -
  have nz: "snd (s ! i) \<noteq> 0" using i(3) by simp
  have z: "snd (s ! i) = z" "0 < z" using i(3) by (auto simp: z_def)
  show ok: "resize_ok (length s) f off z (length bs)"
  proof -
    have "24 + 8 * int (length s) \<le> f + \<bar>snd (s ! i)\<bar> - int (length bs)" using fit i(3) by simp
    from resize_ok_layout [OF l i(2) nz this] show ?thesis by (simp add: off_def z_def)
  qed
  note F = resize_okD [OF ok, folded m_def]
  let ?d2 = "after_resize f off z bs d"
  have r2: "tp_rep h (f + (z - m)) s ?d2" using after_resize_rep [OF r ok] by (simp add: m_def)
  have v: "in_range_s 32 m" using F(3,6,7) by (simp add: m_def)
  show r3: "tp_rep h (f + (z - m)) (s[i := (off, m)]) d3"
    unfolding d3_def using rep_put_size [OF r2 i(2) v] by (simp add: off_def)
  have i8: "24 + 8 * i + 8 \<le> 512" using tp_repD(5) [OF r] i(2) by auto
  show "get_bytes a n d3 = get_bytes a n ?d2" if "24 + 8 * length s \<le> a" "a + n \<le> 512"
    unfolding d3_def using tp_repD(1) [OF r2] i(2) that by (simp add: get_bytes_put_int_other)
  let ?d1 = "memmove (nat (f + (z - m))) (nat f) (nat (off - f)) d"
  let ?d1' = "put_int 16 (f + (z - m)) ?d1"
  have sz: "size_m t = m" using t(1) by (simp add: holds_def m_def)
  have r1: "tp_rep h f s ?d1" by (rule rep_move [OF r F(4,9,8)])
  have r1': "tp_rep h (f + (z - m)) s ?d1'" using F by (intro rep_put_fsp [OF r1]) simp
  have "page_move (f + (z - m)) f (off - f) d = Some ?d1"
    using F by (intro rep_bytes(3) [OF r]) auto
  moreover have "tp_SetFreeSpacePointer (f + (z - m)) ?d1 = Some ?d1'" by (rule rep_sets(1) [OF r1])
  moreover have "page_write (off + (z - m)) bs ?d1' = Some ?d2"
    using F by (subst rep_bytes(2) [OF r1']) (auto simp: after_resize_def Let_def m_def)
  moreover have "copy_out off z rid d =
    Some \<lparr>allocated_m = True, rid_m = rid, size_m = z, data_t = Some (slot_bytes (slot_of d (s ! i)))\<rparr>"
    using copy_out_rep [OF r l i(2) nz] by (simp add: off_def z_def)
  moreover have "\<not> f - 24 - int (length s) * 8 < m - z" "f \<le> off" using fit F(2) z by (auto simp: m_def)
  moreover have "tuple_bytes m t = Some bs" using tuple_bytes_holds [OF t(1)] sz by simp
  ultimately show "tp_UpdateTuple False t out rid txn d =
      do { d' \<leftarrow> slot_loop (\<lambda>o' z'. z' > 0 \<and> o' < off + z) (\<lambda>o'. o' + z - m) [0..int (length s) - 1] d3;
           Some (True, \<lparr>allocated_m = True, rid_m = rid, size_m = z, data_t = Some (slot_bytes (slot_of d (s ! i)))\<rparr>, txn, d') }"
    using i z
    by (simp add: tp_UpdateTuple_def rep_gets [OF r] off_def [symmetric] sz take_exclusive_def add_diff_eq [symmetric]
      rep_sets(4) [OF r2 i8] d3_def [symmetric] rep_gets(1) [OF r3] update_offsets_loop Let_def cong: if_cong)
qed

text \<open>An update moves the tuples below, but not the offsets of those marked as deleted: it is correct
  when nothing moves or no tuple is marked.\<close>

lemma tp_UpdateTuple_refines:
  assumes "tp_inv d" and t: "holds t bs" "bs \<noteq> []"
    and i: "slot_num rid = int i" "i < length (tp_slots d)" "tp_slots d ! i = Live old"
    and fits: "int (length bs) - int (length old) \<le> room (tp_slots d)"
    and no_dead: "length bs = length old \<or> (\<forall>b. Dead b \<notin> set (tp_slots d))"
  shows "\<exists>d'. tp_UpdateTuple False t out rid txn d =
      Some (True, \<lparr>allocated_m = True, rid_m = rid, size_m = int (length old), data_t = Some old\<rparr>, txn, d') \<and>
    tp_inv d' \<and> tp_slots d' = (tp_slots d)[i := Live bs] \<and> get_bytes 0 16 d' = get_bytes 0 16 d"
proof -
  obtain h f s where r: "tp_rep h f s d" and l: "layout f s" and fz: "free_zero s" using assms(1) by (auto simp: tp_inv_def)
  have sl: "tp_slots d = map (slot_of d) s" by (rule tp_slots_rep [OF r])
  have il: "i < length s" using i(2) by (simp add: sl)
  then have live: "slot_of d (s ! i) = Live old" using i(3) by (simp add: sl)
  have pos: "0 < snd (s ! i)"
    using live by (cases "snd (s ! i)" "0 :: int" rule: linorder_cases) simp_all
  then have nz: "snd (s ! i) \<noteq> 0" by simp
  define off where "off = fst (s ! i)"
  define z where "z = \<bar>snd (s ! i)\<bar>"
  define m where "m = int (length bs)"
  have z: "snd (s ! i) = z" "0 < z" using pos by (auto simp: z_def)
  have lo: "int (length old) = z" using slot_length [OF l tp_repD(1) [OF r] il] live by (simp add: z_def)
  have fit: "m - z \<le> f - 24 - int (length s) * 8" using fits room_rep [OF r l] lo by (simp add: m_def)
  have mp: "0 < m" using t(2) by (simp add: m_def)
  have "int (length bs) - snd (s ! i) \<le> f - 24 - int (length s) * 8" using fit z by (simp add: m_def)
  note X = tp_UpdateTuple_exec [OF r l t(1) i(1) il pos this, folded off_def z_def m_def]
  have ok: "resize_ok (length s) f off z (length bs)" by (rule X(1))
  note F = resize_okD [OF ok, folded m_def]
  let ?d2 = "after_resize f off z bs d"
  let ?d3 = "put_int (28 + 8 * i) m ?d2"
  note r3 = X(2) and b4 = X(3)
  have v: "in_range_s 32 m" using F(3,6,7) by (simp add: m_def)
  let ?c = "\<lambda>o' z'. z' > 0 \<and> o' < off + z"
  let ?g = "\<lambda>o'. o' + z - m"
  have mv: "new_off ?c ?g (s ! j) = moved off (z - m) (s ! j)" if "j < length s" "j \<noteq> i" for j
  proof -
    have a: "snd (s ! j) = 0 \<or> fst (s ! j) + \<bar>snd (s ! j)\<bar> \<le> off \<or> off + z \<le> fst (s ! j)"
      using layout_apart [OF l that(1) il that(2)] pos by (auto simp: apart_def off_def z_def)
    have nd: "m = z \<or> 0 \<le> snd (s ! j)"
    proof (cases "m = z")
      case False
      then have "\<forall>b. Dead b \<noteq> slot_of d (s ! j)" using no_dead lo that(1) by (force simp: sl m_def)
      then show ?thesis by (cases "snd (s ! j) < 0") simp_all
    qed simp
    show ?thesis
    proof (cases "m = z")
      case True
      then show ?thesis by (simp add: new_off_def moved_def)
    next
      case False
      then have "0 \<le> snd (s ! j)" using nd by blast
      then show ?thesis using a z(2) by (auto simp: new_off_def moved_def)
    qed
  qed
  have rng: "in_range_s 32 (?g (fst (s[i := (off, m)] ! j)))"
    if "j < length s" "?c (fst (s[i := (off, m)] ! j)) (snd (s[i := (off, m)] ! j))" for j
    using that layout_bounds [OF l that(1)] F(1-3) v il z(2) mp by (cases "j = i") auto
  have "\<exists>d'. slot_loop ?c ?g [0..int (length s) - 1] ?d3 = Some d' \<and> tp_inv d' \<and>
    tp_slots d' = (tp_slots d)[i := if bs = [] then Free else Live bs] \<and> get_bytes 0 16 d' = get_bytes 0 16 d"
  proof (rule resize_finish [OF r l fz il nz, where e = "(off, m)" and e' = "(off + (z - m), m)"])
    show "resize_ok (length s) f (fst (s ! i)) \<bar>snd (s ! i)\<bar> (length bs)" using ok by (simp add: off_def z_def)
    show "bs \<noteq> [] \<or> (off + (z - m), m) = (0, 0)" using t(2) by blast
    show "tp_rep h (f + (\<bar>snd (s ! i)\<bar> - int (length bs))) (s[i := (off, m)]) ?d3"
      using r3 by (simp add: z_def m_def)
    show "get_bytes a n ?d3 = get_bytes a n (after_resize f (fst (s ! i)) \<bar>snd (s ! i)\<bar> bs d)"
      if "24 + 8 * length s \<le> a" "a + n \<le> 512" for a n using b4 [OF that] by (simp add: off_def z_def)
    show "new_off ?c ?g (off, m) = (off + (z - m), m)" using mp z(2) by (simp add: new_off_def)
  qed (use mv rng in \<open>simp_all add: off_def z_def m_def\<close>)
  moreover note X(4) [of out txn] lo live
  ultimately show ?thesis using t(2) by auto
qed

text \<open>A free slot points in front of the tuples, which the assertion in \<open>ApplyDelete\<close> refuses.\<close>

lemma tp_ApplyDelete_free:
  assumes "tp_inv d" and i: "slot_num rid = int i" "i < length (tp_slots d) \<Longrightarrow> tp_slots d ! i = Free"
  shows "tp_ApplyDelete False rid txn d = None"
proof -
  obtain h f s where r: "tp_rep h f s d" and l: "layout f s" and fz: "free_zero s" using assms(1) by (auto simp: tp_inv_def)
  show ?thesis
  proof (cases "i < length s")
    case True
    then have "snd (s ! i) = 0" using i(2) by (auto simp: tp_slots_rep [OF r])
    then have "fst (s ! i) = 0" using fz nth_mem True by (fastforce simp: free_zero_def)
    then show ?thesis using True \<open>snd (s ! i) = 0\<close> layout_room [OF l]
      by (simp add: tp_ApplyDelete_def i rep_gets [OF r] Let_def bind_eq_None_conv)
  next
    case False
    then show ?thesis by (simp add: tp_ApplyDelete_def i rep_gets [OF r])
  qed
qed

section \<open>Reading\<close>

fun live_bytes :: "slot \<Rightarrow> bytes option" where
  "live_bytes (Live bs) = Some bs"
| "live_bytes _ = None"

lemma live_bytes_slot: "live_bytes (slot_of d e) = (if 0 < snd e then Some (slot_bytes (slot_of d e)) else None)"
  by (cases "snd e" "0 :: int" rule: linorder_cases) simp_all

lemma tp_GetTuple_refines:
  assumes "tp_inv d" and i: "slot_num rid = int i"
  shows "tp_GetTuple False rid t txn d =
    (case (if i < length (tp_slots d) then live_bytes (tp_slots d ! i) else None) of
       Some bs \<Rightarrow> Some (True, \<lparr>allocated_m = True, rid_m = rid, size_m = int (length bs), data_t = Some bs\<rparr>, txn)
     | None \<Rightarrow> Some (False, t, txn))"
proof -
  obtain h f s where r: "tp_rep h f s d" and l: "layout f s" and fz: "free_zero s" using assms(1) by (auto simp: tp_inv_def)
  have sl: "tp_slots d = map (slot_of d) s" by (rule tp_slots_rep [OF r])
  consider "length s \<le> i" | "i < length s" "snd (s ! i) \<le> 0" | "i < length s" "0 < snd (s ! i)" by linarith
  then show ?thesis
  proof cases
    case 3
    then have "snd (s ! i) \<noteq> 0" "\<bar>snd (s ! i)\<bar> = snd (s ! i)" by auto
    then show ?thesis using 3 copy_out_rep [OF r l 3(1), of rid] slot_length [OF l tp_repD(1) [OF r] 3(1)]
      by (simp add: tp_GetTuple_def i rep_gets [OF r] sl)
  qed (simp_all add: tp_GetTuple_def i rep_gets [OF r] sl abort_if_def live_bytes_slot)
qed

text \<open>The first live slot from \<open>k\<close> on.\<close>

fun next_live :: "nat \<Rightarrow> slot list \<Rightarrow> nat option" where
  "next_live k [] = None"
| "next_live k (s # ss) = (if live_bytes s \<noteq> None then Some k else next_live (Suc k) ss)"

lemma first_valid_rep:
  assumes r: "tp_rep h f s d"
  shows "tp_first_valid d [int k..int (length s) - 1] = Some (map_option int (next_live k (drop k (tp_slots d))))"
proof (induction "length s - k" arbitrary: k)
  case 0
  then show ?case by (simp add: tp_slots_rep [OF r])
next
  case (Suc m)
  then have k: "k < length s" by simp
  have u: "[int k..int (length s) - 1] = int k # [int (Suc k)..int (length s) - 1]"
    using k upto_rec1 [of "int k" "int (length s) - 1"] by (simp add: add.commute)
  have dr: "drop k (tp_slots d) = slot_of d (s ! k) # drop (Suc k) (tp_slots d)"
    using k by (simp add: tp_slots_rep [OF r] drop_map Cons_nth_drop_Suc [symmetric])
  have m: "m = length s - Suc k" using Suc.hyps(2) by simp
  show ?case using Suc.hyps(1) [OF m] k
    by (simp add: u dr rep_gets(5) [OF r] live_bytes_slot del: upto.simps of_nat_Suc)
qed

lemma tp_GetFirstTupleRid_refines:
  assumes "tp_inv d"
  shows "tp_GetFirstTupleRid rid d = Some (case next_live 0 (tp_slots d) of
      Some i \<Rightarrow> (True, \<lparr>rid_page_id = get_int 0 d, slot_num = int i\<rparr>)
    | None \<Rightarrow> (False, \<lparr>rid_page_id = INVALID_PAGE_ID, slot_num = -1\<rparr>))"
proof -
  obtain h f s where r: "tp_rep h f s d" and l: "layout f s" and fz: "free_zero s" using assms(1) by (auto simp: tp_inv_def)
  show ?thesis using first_valid_rep [OF r, of 0]
    by (simp add: tp_GetFirstTupleRid_def rep_gets [OF r] rep_page_id [OF r] rep_id [OF r] RID_Set_def split: option.splits)
qed

lemma tp_GetNextTupleRid_refines:
  assumes "tp_inv d" and i: "slot_num cur = int i" "rid_page_id cur = get_int 0 d"
  shows "tp_GetNextTupleRid cur rid d = Some (case next_live (Suc i) (drop (Suc i) (tp_slots d)) of
      Some j \<Rightarrow> (True, \<lparr>rid_page_id = get_int 0 d, slot_num = int j\<rparr>)
    | None \<Rightarrow> (False, rid))"
proof -
  obtain h f s where r: "tp_rep h f s d" and l: "layout f s" and fz: "free_zero s" using assms(1) by (auto simp: tp_inv_def)
  show ?thesis using first_valid_rep [OF r, of "Suc i"] i
    by (simp add: tp_GetNextTupleRid_def rep_gets [OF r] rep_page_id [OF r] rep_id [OF r] RID_Set_def add.commute split: option.splits)
qed

section \<open>Initialization\<close>

lemma tp_Init_refines:
  assumes "length d = 512" and "in_range_s 32 pid" "in_range_s 32 prev"
  shows "\<exists>d'. tp_Init pid 512 prev d = Some d' \<and> tp_inv d' \<and> tp_slots d' = [] \<and>
    get_int 0 d' = pid \<and> get_int 8 d' = prev \<and> get_int 12 d' = INVALID_PAGE_ID"
proof -
  let ?d = "put_int 20 0 (put_int 16 512 (put_int 12 INVALID_PAGE_ID (put_int 8 prev (put_int 0 pid d))))"
  have ok: "tp_Init pid 512 prev d = Some ?d"
    using assms(1) by (simp add: tp_Init_def page_put_def inside_def tp_SetPrevPageId_def tp_SetNextPageId_def
      tp_SetFreeSpacePointer_def tp_SetTupleCount_def)
  have "tp_rep (get_bytes 0 16 ?d) 512 [] ?d"
    using assms(1) by (simp add: tp_rep_def get_int_put_other wrap_s_id)
  moreover from this have "tp_slots ?d = []" by (simp add: tp_slots_rep)
  moreover have "get_int 0 ?d = pid" "get_int 8 ?d = prev" "get_int 12 ?d = INVALID_PAGE_ID"
    using assms by (simp_all add: get_int_put_other wrap_s_id INVALID_PAGE_ID_def)
  moreover have "tp_inv ?d" unfolding tp_inv_def using calculation(1) layout_init free_zero_simps(1) by blast
  ultimately show ?thesis using ok by blast
qed

end
