(* ===== verification/TablePageRun.thy ===== *)
theory TablePageRun imports TablePageProps begin

text \<open>
  Whole runs of a table page: every sequence of permitted calls on a new page returns, and answers as
  the list of its slots does.  What is not permitted is what the page does not check: applying a
  deletion to a free slot, and an update that moves a tuple marked as deleted.
\<close>

section \<open>Calls\<close>

datatype page_call =
    PInsert bytes | PMark nat | PUpdate nat bytes | PApply nat | PRollback nat | PGet nat | PFirst | PNext nat

datatype page_answer =
    Inserted "nat option" | Done bool | Updated "bytes option" | Applied | Got "bytes option" | At "nat option"

definition tuple_of :: "bytes \<Rightarrow> tuple" where
  "tuple_of bs = \<lparr>allocated_m = True, rid_m = RID_default, size_m = int (length bs), data_t = Some bs\<rparr>"

lemma holds_tuple_of [simp]: "holds (tuple_of bs) bs"
  by (simp add: holds_def tuple_of_def)

definition rid_at :: "int \<Rightarrow> nat \<Rightarrow> RID" where
  "rid_at pid i = \<lparr>rid_page_id = pid, slot_num = int i\<rparr>"

definition slot_answer :: "bool \<Rightarrow> RID \<Rightarrow> nat option" where
  "slot_answer found rid = (if found then Some (nat (slot_num rid)) else None)"

definition data_answer :: "bool \<Rightarrow> tuple \<Rightarrow> bytes option" where
  "data_answer found t = (if found then data_t t else None)"

text \<open>A call on the bytes of page \<open>pid\<close>, by the transaction \<open>txn\<close>, with logging off.\<close>

fun page_step :: "int \<Rightarrow> transaction \<Rightarrow> page_call \<Rightarrow> bytes \<Rightarrow> (page_answer \<times> bytes) option" where
  "page_step pid txn (PInsert bs) d =
     do { (ok, rid, _, d) \<leftarrow> tp_InsertTuple False (tuple_of bs) RID_default txn d;
          Some (Inserted (slot_answer ok rid), d) }"
| "page_step pid txn (PMark i) d =
     do { (ok, _, d) \<leftarrow> tp_MarkDelete False (rid_at pid i) txn d; Some (Done ok, d) }"
| "page_step pid txn (PUpdate i bs) d =
     do { (ok, old, _, d) \<leftarrow> tp_UpdateTuple False (tuple_of bs) Tuple_default (rid_at pid i) txn d;
          Some (Updated (data_answer ok old), d) }"
| "page_step pid txn (PApply i) d = do { d \<leftarrow> tp_ApplyDelete False (rid_at pid i) txn d; Some (Applied, d) }"
| "page_step pid txn (PRollback i) d = do { d \<leftarrow> tp_RollbackDelete False (rid_at pid i) txn d; Some (Applied, d) }"
| "page_step pid txn (PGet i) d =
     do { (ok, t, _) \<leftarrow> tp_GetTuple False (rid_at pid i) Tuple_default txn d; Some (Got (data_answer ok t), d) }"
| "page_step pid txn PFirst d =
     do { (ok, rid) \<leftarrow> tp_GetFirstTupleRid RID_default d; Some (At (slot_answer ok rid), d) }"
| "page_step pid txn (PNext i) d =
     do { (ok, rid) \<leftarrow> tp_GetNextTupleRid (rid_at pid i) RID_default d; Some (At (slot_answer ok rid), d) }"

fun page_run :: "int \<Rightarrow> transaction \<Rightarrow> page_call list \<Rightarrow> bytes \<Rightarrow> page_answer list option" where
  "page_run pid txn [] d = Some []"
| "page_run pid txn (c # cs) d =
     do { (a, d) \<leftarrow> page_step pid txn c d; as \<leftarrow> page_run pid txn cs d; Some (a # as) }"

text \<open>The same calls on the slots.\<close>

fun slots_step :: "page_call \<Rightarrow> slot list \<Rightarrow> page_answer \<times> slot list" where
  "slots_step (PInsert bs) ss =
     (case slots_insert bs ss of None \<Rightarrow> (Inserted None, ss) | Some (i, ss') \<Rightarrow> (Inserted (Some i), ss'))"
| "slots_step (PMark i) ss =
     (if i < length ss then (Done (\<forall>bs. ss ! i \<noteq> Dead bs), ss[i := mark (ss ! i)]) else (Done False, ss))"
| "slots_step (PUpdate i bs) ss =
     (case (if i < length ss then live_bytes (ss ! i) else None) of
        Some old \<Rightarrow> if int (length bs) - int (length old) \<le> room ss then (Updated (Some old), ss[i := Live bs])
                    else (Updated None, ss)
      | None \<Rightarrow> (Updated None, ss))"
| "slots_step (PApply i) ss = (Applied, ss[i := Free])"
| "slots_step (PRollback i) ss = (Applied, ss[i := unmark (ss ! i)])"
| "slots_step (PGet i) ss = (Got (if i < length ss then live_bytes (ss ! i) else None), ss)"
| "slots_step PFirst ss = (At (next_live 0 ss), ss)"
| "slots_step (PNext i) ss = (At (next_live (Suc i) (drop (Suc i) ss)), ss)"

fun slots_run :: "page_call list \<Rightarrow> slot list \<Rightarrow> page_answer list" where
  "slots_run [] ss = []"
| "slots_run (c # cs) ss = (case slots_step c ss of (a, ss') \<Rightarrow> a # slots_run cs ss')"

fun is_dead :: "slot \<Rightarrow> bool" where
  "is_dead (Dead bs) = True"
| "is_dead _ = False"

fun permitted :: "page_call \<Rightarrow> slot list \<Rightarrow> bool" where
  "permitted (PInsert bs) ss = (bs \<noteq> [])"
| "permitted (PUpdate i bs) ss = (bs \<noteq> [] \<and>
     (i < length ss \<and> live_bytes (ss ! i) \<noteq> None \<longrightarrow>
      length bs = length (slot_bytes (ss ! i)) \<or> list_all (\<lambda>s. \<not> is_dead s) ss))"
| "permitted (PApply i) ss = (i < length ss \<and> ss ! i \<noteq> Free)"
| "permitted (PRollback i) ss = (i < length ss)"
| "permitted _ ss = True"

fun permitted_run :: "page_call list \<Rightarrow> slot list \<Rightarrow> bool" where
  "permitted_run [] ss = True"
| "permitted_run (c # cs) ss = (permitted c ss \<and> permitted_run cs (snd (slots_step c ss)))"

section \<open>Refinement\<close>

lemma live_bytes_Some: "live_bytes s = Some bs \<longleftrightarrow> s = Live bs"
  by (cases s) auto

lemma tp_UpdateTuple_refused:
  assumes "tp_inv d" and i: "slot_num rid = int i"
    and t: "size_m t = int (length bs)"
    and no: "(if i < length (tp_slots d) then live_bytes (tp_slots d ! i) else None) = None \<or>
      (i < length (tp_slots d) \<and> room (tp_slots d) < int (length bs) - int (length (slot_bytes (tp_slots d ! i))))"
  shows "tp_UpdateTuple False t out rid txn d = Some (False, out, txn, d)"
proof -
  obtain h f s where r: "tp_rep h f s d" and l: "layout f s" using assms(1) by (auto simp: tp_inv_def)
  have sl: "tp_slots d = map (slot_of d) s" by (rule tp_slots_rep [OF r])
  consider "length s \<le> i" | "i < length s" "snd (s ! i) \<le> 0" | "i < length s" "0 < snd (s ! i)" by linarith
  then show ?thesis
  proof cases
    case 3
    then have "f - 24 - int (length s) * 8 < size_m t - snd (s ! i)"
      using no slot_length [OF l tp_repD(1) [OF r] 3(1)] t
      by (simp add: sl live_bytes_slot room_rep [OF r l, unfolded sl])
    then show ?thesis using 3 by (simp add: tp_UpdateTuple_def i rep_gets [OF r])
  qed (simp_all add: tp_UpdateTuple_def i rep_gets [OF r] abort_if_def)
qed

lemma header_id: "get_bytes 0 16 d' = get_bytes 0 16 d \<Longrightarrow> get_int 0 d' = get_int 0 d"
proof -
  assume e: "get_bytes 0 16 d' = get_bytes 0 16 d"
  have "get_int 0 x = get_int 0 (get_bytes 0 16 x)" for x by (simp add: get_int_def load_int_def get_bytes_def min_def)
  from this [of d'] have "get_int 0 d' = get_int 0 (get_bytes 0 16 d)" by (simp only: e)
  also have "\<dots> = get_int 0 d" by (rule \<open>\<And>x. get_int 0 x = get_int 0 (get_bytes 0 16 x)\<close> [symmetric])
  finally show ?thesis .
qed

lemma page_step_refines:
  assumes inv: "tp_inv d" and pid: "get_int 0 d = pid" and ok: "permitted c (tp_slots d)"
  shows "\<exists>d'. page_step pid txn c d = Some (fst (slots_step c (tp_slots d)), d') \<and> tp_inv d' \<and>
    get_int 0 d' = pid \<and> tp_slots d' = snd (slots_step c (tp_slots d))"
proof (cases c)
  case (PInsert bs)
  then have bs: "bs \<noteq> []" using ok by simp
  show ?thesis
  proof (cases "slots_insert bs (tp_slots d)")
    case None
    from tp_InsertTuple_none [OF inv holds_tuple_of bs None, of RID_default txn]
    show ?thesis using None inv pid by (auto simp: PInsert slot_answer_def)
  next
    case (Some p)
    obtain i ss where p: "p = (i, ss)" by fastforce
    obtain d' where d': "tp_InsertTuple False (tuple_of bs) RID_default txn d =
      Some (True, \<lparr>rid_page_id = get_int 0 d, slot_num = int i\<rparr>, txn, d')" "tp_inv d'" "tp_slots d' = ss"
      "get_bytes 0 16 d' = get_bytes 0 16 d"
      using tp_InsertTuple_some [OF inv holds_tuple_of bs Some [unfolded p], of RID_default txn] by blast
    then show ?thesis using Some pid header_id [OF d'(4)] by (simp add: PInsert p slot_answer_def)
  qed
next
  case (PMark i)
  obtain d' where d': "tp_MarkDelete False (rid_at pid i) txn d =
      Some (i < length (tp_slots d) \<and> (\<forall>bs. tp_slots d ! i \<noteq> Dead bs), txn, d')" "tp_inv d'"
    "tp_slots d' = (if i < length (tp_slots d) then (tp_slots d)[i := mark (tp_slots d ! i)] else tp_slots d)"
    "get_bytes 0 16 d' = get_bytes 0 16 d"
    using tp_MarkDelete_refines [OF inv, of "rid_at pid i" i txn] by (auto simp: rid_at_def)
  then show ?thesis using pid header_id [OF d'(4)] by (auto simp: PMark)
next
  case (PUpdate i bs)
  have rid: "slot_num (rid_at pid i) = int i" by (simp add: rid_at_def)
  have bs: "bs \<noteq> []" using ok by (simp add: PUpdate)
  show ?thesis
  proof (cases "i < length (tp_slots d) \<and> live_bytes (tp_slots d ! i) \<noteq> None \<and>
      int (length bs) - int (length (slot_bytes (tp_slots d ! i))) \<le> room (tp_slots d)")
    case True
    then obtain old where old: "tp_slots d ! i = Live old" by (auto simp: live_bytes_Some)
    have nd: "length bs = length old \<or> (\<forall>b. Dead b \<notin> set (tp_slots d))"
      using ok True old by (auto simp: PUpdate list_all_iff)
    obtain d' where d': "tp_UpdateTuple False (tuple_of bs) Tuple_default (rid_at pid i) txn d =
      Some (True, \<lparr>allocated_m = True, rid_m = rid_at pid i, size_m = int (length old), data_t = Some old\<rparr>, txn, d')"
      "tp_inv d'" "tp_slots d' = (tp_slots d)[i := Live bs]" "get_bytes 0 16 d' = get_bytes 0 16 d"
      using tp_UpdateTuple_refines [OF inv holds_tuple_of bs rid _ old _ nd] True old by auto
    then show ?thesis using True old pid header_id [OF d'(4)] by (simp add: PUpdate data_answer_def)
  next
    case False
    then have "tp_UpdateTuple False (tuple_of bs) Tuple_default (rid_at pid i) txn d = Some (False, Tuple_default, txn, d)"
      by (intro tp_UpdateTuple_refused [OF inv rid, of _ bs]) (auto simp: tuple_of_def)
    then show ?thesis using False inv pid
      by (auto simp: PUpdate data_answer_def live_bytes_Some split: option.splits)
  qed
next
  case (PApply i)
  obtain d' where d': "tp_ApplyDelete False (rid_at pid i) txn d = Some d'" "tp_inv d'"
    "tp_slots d' = (tp_slots d)[i := Free]" "get_bytes 0 16 d' = get_bytes 0 16 d"
    using tp_ApplyDelete_refines [OF inv, of "rid_at pid i" i txn] ok by (auto simp: PApply rid_at_def)
  then show ?thesis using pid header_id [OF d'(4)] by (simp add: PApply)
next
  case (PRollback i)
  obtain d' where d': "tp_RollbackDelete False (rid_at pid i) txn d = Some d'" "tp_inv d'"
    "tp_slots d' = (tp_slots d)[i := unmark (tp_slots d ! i)]" "get_bytes 0 16 d' = get_bytes 0 16 d"
    using tp_RollbackDelete_refines [OF inv, of "rid_at pid i" i txn] ok by (auto simp: PRollback rid_at_def)
  then show ?thesis using pid header_id [OF d'(4)] by (simp add: PRollback)
next
  case (PGet i)
  show ?thesis using inv pid tp_GetTuple_refines [OF inv, of "rid_at pid i" i]
    by (auto simp: PGet rid_at_def data_answer_def split: option.splits)
next
  case PFirst
  show ?thesis using inv pid tp_GetFirstTupleRid_refines [OF inv]
    by (auto simp: PFirst slot_answer_def split: option.splits)
next
  case (PNext i)
  show ?thesis using inv pid tp_GetNextTupleRid_refines [OF inv, of "rid_at pid i" i]
    by (auto simp: PNext rid_at_def slot_answer_def split: option.splits)
qed

lemma page_run_refines:
  "tp_inv d \<Longrightarrow> get_int 0 d = pid \<Longrightarrow> permitted_run cs (tp_slots d) \<Longrightarrow>
   page_run pid txn cs d = Some (slots_run cs (tp_slots d))"
proof (induction cs arbitrary: d)
  case (Cons c cs)
  obtain d' where d': "page_step pid txn c d = Some (fst (slots_step c (tp_slots d)), d')" "tp_inv d'"
    "get_int 0 d' = pid" "tp_slots d' = snd (slots_step c (tp_slots d))"
    using page_step_refines [OF Cons.prems(1,2)] Cons.prems(3) by auto
  then show ?case using Cons.IH [OF d'(2,3)] Cons.prems(3) by (simp add: split_beta)
qed simp



section \<open>What is not permitted\<close>

lemma insert_append_step:
  assumes r: "tp_rep h f s d" and l: "layout f s" and full: "\<forall>e \<in> set s. snd e \<noteq> 0" and bs: "bs \<noteq> []"
    and n: "int (length bs) + 8 \<le> f - 24 - int (length s) * 8"
  defines "p \<equiv> f - int (length bs)"
  shows "\<exists>d'. tp_InsertTuple False (tuple_of bs) rid txn d =
      Some (True, \<lparr>rid_page_id = get_int 0 h, slot_num = int (length s)\<rparr>, txn, d') \<and>
    tp_rep h p (s @ [(p, int (length bs))]) d' \<and> layout p (s @ [(p, int (length bs))]) \<and>
    get_bytes (nat p) (length bs) d' = bs \<and> (\<forall>a n. f \<le> int a \<longrightarrow> a + n \<le> 512 \<longrightarrow> get_bytes a n d' = get_bytes a n d)"
proof -
  let ?d = "put_int 20 (int (length s) + 1) (after_insert (length s) p bs d)"
  have tw: "takeWhile (\<lambda>e. snd e \<noteq> 0) s = s" using full by (simp add: takeWhile_eq_all_conv)
  have i: "length s = first_free (map (slot_of d) s)" by (simp only: first_free_rep tw)
  have b: "32 + 8 * int (length s) \<le> p" "p + int (length bs) = f" "p + int (length bs) \<le> 512" "f \<le> 512"
    using n layout_room [OF l] by (auto simp: p_def)
  have len: "length (after_insert (length s) p bs d) = 512" using tp_repD(1) [OF r] b by (simp add: after_insert_def)
  have c: "get_bytes a m ?d = get_bytes a m (after_insert (length s) p bs d)" if "24 \<le> a" "a + m \<le> 512" for a m
    using that len by (simp add: get_bytes_put_int_other)
  have "get_bytes (nat p) (length bs) ?d = bs"
    using after_insert_new [OF tp_repD(1) [OF r], of "length s" p bs] b by (subst c) auto
  moreover have "get_bytes a m ?d = get_bytes a m d" if "f \<le> int a" "a + m \<le> 512" for a m
    using after_insert_old [OF tp_repD(1) [OF r], of "length s" p bs a m] b that by (subst c) auto
  moreover have "tp_rep h p (s @ [(p, int (length bs))]) ?d" by (rule after_insert_append [OF r b(1,3)])
  moreover have "layout p (s @ [(p, int (length bs))])"
    using layout_append [OF l, of "int (length bs)"] b bs by (simp add: p_def)
  moreover have "tp_InsertTuple False (tuple_of bs) rid txn d =
    Some (True, \<lparr>rid_page_id = get_int 0 h, slot_num = int (length s)\<rparr>, txn, ?d)"
    using insert_step [OF r l holds_tuple_of bs i] n by (simp add: p_def)
  ultimately show ?thesis by blast
qed

text \<open>C35. An update that changes the size of a tuple moves the bytes of a tuple marked as deleted below it
  but not its offset, so that rolling the deletion back exposes other bytes.\<close>

theorem update_corrupts_marked:
  assumes "length d = 512" and "in_range_s 32 pid" and "in_range_s 32 prev"
  shows "(tp_Init pid PAGE_SIZE prev d \<bind>
     page_run pid txn [PInsert [1], PInsert [2], PMark 1, PUpdate 0 [3, 4], PRollback 1, PGet 1]) =
   Some [Inserted (Some 0), Inserted (Some 1), Done True, Updated (Some [1]), Applied, Got (Some [3])]"
proof -
  obtain d1 where d1: "tp_Init pid PAGE_SIZE prev d = Some d1" "tp_inv d1" "tp_slots d1 = []" "get_int 0 d1 = pid"
    using tp_Init_refines [OF assms(1-3)] by (auto simp: PAGE_SIZE_def)
  then obtain h where r1: "tp_rep h 512 [] d1"
    by (auto simp: tp_inv_def layout_def tp_slots_rep sizes_def)
  obtain d2 where d2: "tp_InsertTuple False (tuple_of [1]) RID_default txn d1 =
      Some (True, \<lparr>rid_page_id = get_int 0 h, slot_num = 0\<rparr>, txn, d2)" "tp_rep h 511 [(511, 1)] d2" "layout 511 [(511, 1)]"
    "get_bytes 511 1 d2 = [1]"
    using insert_append_step [OF r1 layout_init, of "[1]" RID_default txn] by auto
  obtain d3 where d3: "tp_InsertTuple False (tuple_of [2]) RID_default txn d2 =
      Some (True, \<lparr>rid_page_id = get_int 0 h, slot_num = 1\<rparr>, txn, d3)" "tp_rep h 510 [(511, 1), (510, 1)] d3"
    "layout 510 [(511, 1), (510, 1)]" "get_bytes 511 1 d3 = [1]"
    using insert_append_step [OF d2(2,3), of "[2]" RID_default txn] d2(4) by auto
  let ?d4 = "put_int 36 (- 1) d3"
  have r4: "tp_rep h 510 [(511, 1), (510, - 1)] ?d4" and l4: "layout 510 [(511, 1), (510, - 1)]"
    using resign_step(1,2) [OF d3(2,3), of 1 "- 1"] by simp_all
  have b4: "get_bytes 511 1 ?d4 = [1]" using d3(4) tp_repD(1) [OF d3(2)] by (simp add: get_bytes_put_int_other)
  have m: "tp_MarkDelete False (rid_at pid 1) txn d3 = Some (True, txn, ?d4)"
    using rep_gets(5) [OF d3(2), of 1] rep_sets(4) [OF d3(2), of 1 "- 1"]
    by (simp add: tp_MarkDelete_def rid_at_def rep_gets(1) [OF d3(2)] take_exclusive_def)
  let ?rid = "rid_at pid 0"
  have "slot_num ?rid = int 0" by (simp add: rid_at_def)
  note X = tp_UpdateTuple_exec [OF r4 l4 holds_tuple_of [of "[3, 4]"] this, simplified]
  let ?d5 = "put_int 28 2 (after_resize 510 511 1 [3, 4] ?d4)"
  obtain d6 where d6: "slot_loop (\<lambda>o' z'. z' > 0 \<and> o' < 512) (\<lambda>o'. o' - 1) [0..1] ?d5 = Some d6"
    "tp_rep h 509 [(510, 2), (510, - 1)] d6" "\<And>a n. 40 \<le> a \<Longrightarrow> a + n \<le> 512 \<Longrightarrow> get_bytes a n d6 = get_bytes a n ?d5"
  proof -
    have "in_range_s 32 (fst ([(511, 2), (510, - 1)] ! j) - 1)" if "j < 2" for j :: nat
      using that by (cases j) (auto simp: less_Suc_eq numeral_2_eq_2)
    then show thesis using that slot_loop_rep [OF X(2), of 0 "\<lambda>o' z'. z' > 0 \<and> o' < 512" "\<lambda>o'. o' - 1"]
      by (fastforce simp: new_off_def numeral_2_eq_2)
  qed
  have u: "tp_UpdateTuple False (tuple_of [3, 4]) Tuple_default ?rid txn ?d4 =
    Some (True, \<lparr>allocated_m = True, rid_m = ?rid, size_m = 1, data_t = Some [1]\<rparr>, txn, d6)"
    using X(4) [of Tuple_default txn] d6(1) b4 by simp
  have ok: "resize_ok 2 510 511 1 (length [3 :: 8 word, 4])" using X(1) by (simp add: numeral_2_eq_2)
  have b6: "get_bytes 510 2 d6 = [3, 4]"
    using after_resize_bytes(1) [OF tp_repD(1) [OF r4] ok] X(3) [of 510 2] d6(3) [of 510 2] by (simp add: numeral_2_eq_2)
  let ?d7 = "put_int 36 1 d6"
  have r7: "tp_rep h 509 [(510, 2), (510, 1)] ?d7"
    using rep_put_size [OF d6(2), of 1 1] by simp
  have "get_bytes 510 2 ?d7 = [3, 4]" using b6 tp_repD(1) [OF d6(2)] by (simp add: get_bytes_put_int_other)
  moreover have "get_bytes 510 1 x = take 1 (get_bytes 510 2 x)" for x by (simp add: get_bytes_def min_def)
  ultimately have b7: "get_bytes 510 1 ?d7 = [3]" by simp
  have ro: "tp_RollbackDelete False (rid_at pid 1) txn d6 = Some ?d7"
    using rep_gets(5) [OF d6(2), of 1] rep_sets(4) [OF d6(2), of 1 1]
    by (simp add: tp_RollbackDelete_def rid_at_def rep_gets(1) [OF d6(2)])
  have "tp_GetTuple False (rid_at pid 1) Tuple_default txn ?d7 =
    Some (True, \<lparr>allocated_m = True, rid_m = rid_at pid 1, size_m = 1, data_t = Some [3]\<rparr>, txn)"
    using rep_gets(4,5) [OF r7, of 1] rep_bytes(1) [OF r7, of 510 1] b7
    by (simp add: tp_GetTuple_def rid_at_def rep_gets(1) [OF r7] copy_out_def)
  then show ?thesis using d1 d2 d3 m u ro by (simp add: slot_answer_def data_answer_def)
qed

theorem update_corrupts_marked_witness:
  "(tp_Init 5 PAGE_SIZE (- 1) (replicate 512 0) \<bind>
     page_run 5 (Transaction_new 0) [PInsert [1], PInsert [2], PMark 1, PUpdate 0 [3, 4], PRollback 1, PGet 1]) =
   Some [Inserted (Some 0), Inserted (Some 1), Done True, Updated (Some [1]), Applied, Got (Some [3])]"
  using update_corrupts_marked [of "replicate 512 0" 5 "- 1" "Transaction_new 0"] by simp

text \<open>A second application of the same deletion fails the assertion of \<open>ApplyDelete\<close>.\<close>

lemma apply_twice_aborts:
  assumes "tp_inv d" and "slot_num rid = int i" and "tp_ApplyDelete False rid txn d = Some d'"
    and "i < length (tp_slots d)"
  shows "tp_ApplyDelete False rid txn d' = None"
proof -
  have "tp_slots d ! i \<noteq> Free" using tp_ApplyDelete_free [OF assms(1,2), of txn] assms(3) by auto
  from tp_ApplyDelete_refines [OF assms(1,2,4) this, of txn] assms(3)
  have "tp_inv d'" "tp_slots d' = (tp_slots d)[i := Free]" by auto
  then show ?thesis using tp_ApplyDelete_free [of d' rid i txn] assms(2,4) by simp
qed

end
