(* ===== verification/TableHeapProps.thy ===== *)
theory TableHeapProps imports TableHeap TablePageRun begin

text \<open>
  A table heap as a map from record ids to tuples: the chain of pages is an invariant, every
  operation acts on one page and gives its pin and latch back, and insertion walks the chain to the
  first page with room or adds one.
\<close>

section \<open>Opening a page\<close>

text \<open>A page that no one holds.\<close>

definition page_free :: "page_id \<Rightarrow> table_state \<Rightarrow> bool" where
  "page_free p s \<longleftrightarrow> contents s p \<noteq> None \<and> pins s p = 0 \<and> latch s p = 0 \<and> p \<notin> pending s"

text \<open>The state with the page pinned once and latched, and the one with new contents.\<close>

definition opened :: "int \<Rightarrow> page_id \<Rightarrow> table_state \<Rightarrow> table_state" where
  "opened w p s = s\<lparr>pins := (pins s)(p := 1), latch := (latch s)(p := w)\<rparr>"

definition stored :: "page_id \<Rightarrow> bytes \<Rightarrow> table_state \<Rightarrow> table_state" where
  "stored p d s = s\<lparr>contents := (contents s)(p \<mapsto> d)\<rparr>"

definition marked :: "page_id \<Rightarrow> table_state \<Rightarrow> table_state" where
  "marked p s = s\<lparr>pending := insert p (pending s)\<rparr>"

lemma open_fields [simp]:
  "contents (opened w p s) = contents s" "pending (opened w p s) = pending s" "next_id (opened w p s) = next_id s"
  "frames (opened w p s) = frames s" "txn_m (opened w p s) = txn_m s"
  "pins (opened w p s) = (pins s)(p := 1)" "latch (opened w p s) = (latch s)(p := w)"
  "contents (stored p d s) = (contents s)(p \<mapsto> d)" "pending (stored p d s) = pending s" "next_id (stored p d s) = next_id s"
  "frames (stored p d s) = frames s" "txn_m (stored p d s) = txn_m s" "pins (stored p d s) = pins s" "latch (stored p d s) = latch s"
  "contents (marked p s) = contents s" "pending (marked p s) = insert p (pending s)" "next_id (marked p s) = next_id s"
  "frames (marked p s) = frames s" "txn_m (marked p s) = txn_m s" "pins (marked p s) = pins s" "latch (marked p s) = latch s"
  "contents (set_txn t s) = contents s" "pending (set_txn t s) = pending s" "next_id (set_txn t s) = next_id s"
  "frames (set_txn t s) = frames s" "txn_m (set_txn t s) = t" "pins (set_txn t s) = pins s" "latch (set_txn t s) = latch s"
  by (simp_all add: opened_def stored_def marked_def set_txn_def)

lemma set_txn_same [simp]: "set_txn (txn_m s) s = s"
  by (simp add: set_txn_def)

lemma state_eqI:
  "contents s = contents s' \<Longrightarrow> pins s = pins s' \<Longrightarrow> pending s = pending s' \<Longrightarrow> latch s = latch s' \<Longrightarrow>
   next_id s = next_id s' \<Longrightarrow> frames s = frames s' \<Longrightarrow> txn_m s = txn_m s' \<Longrightarrow> s = (s' :: table_state)"
  by (cases s; cases s') simp

lemma pinned_count_card: "pinned_count s = card {p \<in> {0..next_id s - 1}. 0 < pins s p}"
  by (simp add: pinned_count_def distinct_length_filter Int_def conj_commute)

lemma pinned_count_le:
  "next_id s' = next_id s \<Longrightarrow> (\<And>q. 0 < pins s' q \<Longrightarrow> 0 < pins s q \<or> q = p) \<Longrightarrow> pinned_count s' \<le> pinned_count s + 1"
proof -
  assume n: "next_id s' = next_id s" and q: "\<And>q. 0 < pins s' q \<Longrightarrow> 0 < pins s q \<or> q = p"
  have fin: "finite {q \<in> {0..next_id s - 1}. 0 < pins s q}"
    by (rule finite_subset [of _ "{0..next_id s - 1}"]) auto
  have "{q \<in> {0..next_id s' - 1}. 0 < pins s' q} \<subseteq> insert p {q \<in> {0..next_id s - 1}. 0 < pins s q}" using n q by auto
  then have "card {q \<in> {0..next_id s' - 1}. 0 < pins s' q} \<le> card (insert p {q \<in> {0..next_id s - 1}. 0 < pins s q})"
    using fin by (intro card_mono) simp_all
  also have "\<dots> \<le> card {q \<in> {0..next_id s - 1}. 0 < pins s q} + 1" using fin by (simp add: card_insert_if)
  finally show ?thesis by (simp add: pinned_count_card)
qed

text \<open>The steps of an operation on one page.\<close>

lemma open_write:
  "page_free p s \<Longrightarrow> \<not> pool_full s \<Longrightarrow> try_fetch p s = Some (True, s\<lparr>pins := (pins s)(p := 1)\<rparr>)"
  "page_free p s \<Longrightarrow> st_wlatch p (s\<lparr>pins := (pins s)(p := 1)\<rparr>) = Some (opened (- 1) p s)"
  "page_free p s \<Longrightarrow> st_rlatch p (s\<lparr>pins := (pins s)(p := 1)\<rparr>) = Some (opened 1 p s)"
  by (auto simp: page_free_def try_fetch_def store_defs opened_def split: option.splits)

lemma close_write:
  assumes "page_free p s" and "tp_GetPageId d = Some p"
  shows "(st_wunlatch p (set_txn t (marked p (stored p d (opened (- 1) p s)))) \<bind> unpin_at p True) = Some (set_txn t (stored p d s))"
    and "(st_wunlatch p (set_txn t (marked p (stored p d (opened (- 1) p s)))) \<bind> (\<lambda>s. unpin_at p True s \<bind> f)) =
      f (set_txn t (stored p d s))"
proof -
  show a: "(st_wunlatch p (set_txn t (marked p (stored p d (opened (- 1) p s)))) \<bind> unpin_at p True) = Some (set_txn t (stored p d s))"
    using assms by (auto simp: page_free_def store_defs unpin_at_def page_id_at_def intro!: state_eqI)
  have "(st_wunlatch p (set_txn t (marked p (stored p d (opened (- 1) p s)))) \<bind> (\<lambda>s. unpin_at p True s \<bind> f)) =
    ((st_wunlatch p (set_txn t (marked p (stored p d (opened (- 1) p s)))) \<bind> unpin_at p True) \<bind> f)"
    by simp
  then show "(st_wunlatch p (set_txn t (marked p (stored p d (opened (- 1) p s)))) \<bind> (\<lambda>s. unpin_at p True s \<bind> f)) =
      f (set_txn t (stored p d s))" by (simp only: a) simp
qed

lemma close_clean:
  assumes "page_free p s" and "contents s p = Some d" and "tp_GetPageId d = Some p"
  shows "(st_wunlatch p (set_txn t (opened (- 1) p s)) \<bind> (\<lambda>s. unpin_at p False s \<bind> f)) = f (set_txn t s)"
proof -
  have "(st_wunlatch p (set_txn t (opened (- 1) p s)) \<bind> unpin_at p False) = Some (set_txn t s)"
    using assms by (auto simp: page_free_def store_defs unpin_at_def page_id_at_def intro!: state_eqI)
  moreover have "(st_wunlatch p (set_txn t (opened (- 1) p s)) \<bind> (\<lambda>s. unpin_at p False s \<bind> f)) =
    ((st_wunlatch p (set_txn t (opened (- 1) p s)) \<bind> unpin_at p False) \<bind> f)" by simp
  ultimately show ?thesis by simp
qed

lemma close_read:
  assumes "page_free p s" and "contents s p = Some d"
  shows "(st_runlatch p (set_txn t (opened 1 p s)) \<bind> (\<lambda>s. st_unpin p False s \<bind> f)) = f (set_txn t s)"
proof -
  have "(st_runlatch p (set_txn t (opened 1 p s)) \<bind> st_unpin p False) = Some (set_txn t s)"
    using assms by (auto simp: page_free_def store_defs intro!: state_eqI)
  moreover have "(st_runlatch p (set_txn t (opened 1 p s)) \<bind> (\<lambda>s. st_unpin p False s \<bind> f)) =
    ((st_runlatch p (set_txn t (opened 1 p s)) \<bind> st_unpin p False) \<bind> f)" by simp
  ultimately show ?thesis by simp
qed

lemma get_opened: "page_free p s \<Longrightarrow> contents s p = Some d \<Longrightarrow> st_get p (opened w p s) = Some d"
  by (simp add: st_get_def)

lemma put_opened: "st_put p d (opened w p s) = Some (marked p (stored p d (opened w p s)))"
  by (auto simp: st_put_def intro!: state_eqI)

lemma put_opened_txn: "st_put p d (set_txn t (opened w p s)) = Some (set_txn t (marked p (stored p d (opened w p s))))"
  by (auto simp: st_put_def intro!: state_eqI)

section \<open>Operations on one page\<close>

definition heap_page :: "page_id \<Rightarrow> table_state \<Rightarrow> bytes \<Rightarrow> bool" where
  "heap_page p s d \<longleftrightarrow> page_free p s \<and> contents s p = Some d \<and> tp_inv d \<and> get_int 0 d = p"

lemma heap_page_id: "tp_inv d \<Longrightarrow> tp_GetPageId d = Some (get_int 0 d)"
  by (auto simp: tp_inv_def rep_page_id rep_id)

lemma heap_pageD:
  assumes "heap_page p s d"
  shows "page_free p s" "contents s p = Some d" "tp_inv d" "get_int 0 d = p" "tp_GetPageId d = Some p"
  using assms heap_page_id by (auto simp: heap_page_def)

lemma page_free_stored [simp]: "page_free p s \<Longrightarrow> page_free p (stored q d s)"
  by (auto simp: page_free_def)

lemma page_free_txn [simp]: "page_free p (set_txn t s) = page_free p s"
  by (auto simp: page_free_def)

lemma heap_page_stored: "page_free p s \<Longrightarrow> tp_inv d \<Longrightarrow> get_int 0 d = p \<Longrightarrow> heap_page p (set_txn t (stored p d s)) d"
  by (simp add: heap_page_def)

lemma rid_at_simps [simp]: "rid_page_id (rid_at p i) = p" "slot_num (rid_at p i) = int i"
  by (simp_all add: rid_at_def)

lemma th_MarkDelete_page:
  assumes h: "heap_page p s d" and f: "\<not> pool_full s"
  shows "\<exists>d'. th_MarkDelete False table (rid_at p i) s =
      Some (True, set_txn (add_write (rid_at p i) DELETE Tuple_default table (txn_m s)) (stored p d' s)) \<and>
    tp_inv d' \<and> get_bytes 0 16 d' = get_bytes 0 16 d \<and>
    tp_slots d' = (if i < length (tp_slots d) then (tp_slots d)[i := mark (tp_slots d ! i)] else tp_slots d)"
proof -
  note H = heap_pageD [OF h]
  obtain d' where d': "tp_MarkDelete False (rid_at p i) (txn_m s) d =
      Some (i < length (tp_slots d) \<and> (\<forall>bs. tp_slots d ! i \<noteq> Dead bs), txn_m s, d')" "tp_inv d'"
    "tp_slots d' = (if i < length (tp_slots d) then (tp_slots d)[i := mark (tp_slots d ! i)] else tp_slots d)"
    "get_bytes 0 16 d' = get_bytes 0 16 d"
    using tp_MarkDelete_refines [OF H(3), of "rid_at p i" i] by auto
  have "tp_GetPageId d' = Some p" using heap_page_id [OF d'(2)] header_id [OF d'(4)] H(4) by simp
  note C = close_write(2) [OF H(1) this]
  have "th_MarkDelete False table (rid_at p i) s =
      Some (True, set_txn (add_write (rid_at p i) DELETE Tuple_default table (txn_m s)) (stored p d' s))"
    using d'(1) by (simp add: th_MarkDelete_def open_write [OF H(1)] f get_opened [OF H(1,2)] put_opened_txn C
      del: set_txn_same)
  then show ?thesis using d' by blast
qed

lemma set_txn_marked: "set_txn (txn_m s) (marked p (stored p d (opened w p s))) = marked p (stored p d (opened w p s))"
  by (rule state_eqI) simp_all

lemma set_txn_stored: "set_txn (txn_m s) (stored p d s) = stored p d s"
  by (rule state_eqI) simp_all

lemma th_ApplyDelete_page:
  assumes h: "heap_page p s d" and f: "\<not> pool_full s" and i: "i < length (tp_slots d)" "tp_slots d ! i \<noteq> Free"
  shows "\<exists>d'. th_ApplyDelete False (rid_at p i) s = Some (stored p d' s) \<and>
    tp_inv d' \<and> get_bytes 0 16 d' = get_bytes 0 16 d \<and> tp_slots d' = (tp_slots d)[i := Free]"
proof -
  note H = heap_pageD [OF h]
  obtain d' where d': "tp_ApplyDelete False (rid_at p i) (txn_m s) d = Some d'" "tp_inv d'"
    "tp_slots d' = (tp_slots d)[i := Free]" "get_bytes 0 16 d' = get_bytes 0 16 d"
    using tp_ApplyDelete_refines [OF H(3) _ i, of "rid_at p i"] by auto
  have "tp_GetPageId d' = Some p" using heap_page_id [OF d'(2)] header_id [OF d'(4)] H(4) by simp
  note C = close_write(1) [OF H(1) this, of "txn_m s", unfolded set_txn_marked set_txn_stored]
  have "th_ApplyDelete False (rid_at p i) s = Some (stored p d' s)"
    using d'(1) C by (simp add: th_ApplyDelete_def open_write [OF H(1)] f get_opened [OF H(1,2)] put_opened
      LockManager_Unlock_def set_txn_marked Let_def)
  then show ?thesis using d' by blast
qed

lemma th_ApplyDelete_page_free:
  assumes h: "heap_page p s d" and f: "\<not> pool_full s" and i: "i < length (tp_slots d) \<Longrightarrow> tp_slots d ! i = Free"
  shows "th_ApplyDelete False (rid_at p i) s = None"
proof -
  note H = heap_pageD [OF h]
  have "tp_ApplyDelete False (rid_at p i) (txn_m s) d = None"
    using tp_ApplyDelete_free [OF H(3), of "rid_at p i" i] i by simp
  then show ?thesis by (simp add: th_ApplyDelete_def open_write [OF H(1)] f get_opened [OF H(1,2)])
qed

lemma th_RollbackDelete_page:
  assumes h: "heap_page p s d" and f: "\<not> pool_full s" and i: "i < length (tp_slots d)"
  shows "\<exists>d'. th_RollbackDelete False (rid_at p i) s = Some (stored p d' s) \<and>
    tp_inv d' \<and> get_bytes 0 16 d' = get_bytes 0 16 d \<and> tp_slots d' = (tp_slots d)[i := unmark (tp_slots d ! i)]"
proof -
  note H = heap_pageD [OF h]
  obtain d' where d': "tp_RollbackDelete False (rid_at p i) (txn_m s) d = Some d'" "tp_inv d'"
    "tp_slots d' = (tp_slots d)[i := unmark (tp_slots d ! i)]" "get_bytes 0 16 d' = get_bytes 0 16 d"
    using tp_RollbackDelete_refines [OF H(3) _ i, of "rid_at p i"] by auto
  have "tp_GetPageId d' = Some p" using heap_page_id [OF d'(2)] header_id [OF d'(4)] H(4) by simp
  note C = close_write(1) [OF H(1) this, of "txn_m s", unfolded set_txn_marked set_txn_stored]
  have "th_RollbackDelete False (rid_at p i) s = Some (stored p d' s)"
    using d'(1) C by (simp add: th_RollbackDelete_def open_write [OF H(1)] f get_opened [OF H(1,2)] put_opened)
  then show ?thesis using d' by blast
qed

lemma th_GetTuple_page:
  assumes h: "heap_page p s d" and f: "\<not> pool_full s"
  shows "th_GetTuple False (rid_at p i) t s =
    (case (if i < length (tp_slots d) then live_bytes (tp_slots d ! i) else None) of
       Some bs \<Rightarrow> Some (True, \<lparr>allocated_m = True, rid_m = rid_at p i, size_m = int (length bs), data_t = Some bs\<rparr>, s)
     | None \<Rightarrow> Some (False, t, s))"
proof -
  note H = heap_pageD [OF h]
  note G = tp_GetTuple_refines [OF H(3), of "rid_at p i" i t "txn_m s", OF rid_at_simps(2)]
  show ?thesis
    by (simp add: th_GetTuple_def open_write [OF H(1)] f get_opened [OF H(1,2)] G close_read [OF H(1,2)]
      split: option.splits)
qed

lemma th_UpdateTuple_page:
  assumes h: "heap_page p s d" and f: "\<not> pool_full s" and t: "holds t bs" "bs \<noteq> []"
    and i: "i < length (tp_slots d)" "tp_slots d ! i = Live old"
    and fits: "int (length bs) - int (length old) \<le> room (tp_slots d)"
    and no_dead: "length bs = length old \<or> (\<forall>b. Dead b \<notin> set (tp_slots d))"
  defines "old_t \<equiv> \<lparr>allocated_m = True, rid_m = rid_at p i, size_m = int (length old), data_t = Some old\<rparr>"
  shows "\<exists>d'. th_UpdateTuple False table t (rid_at p i) s =
      Some (True, set_txn (if state_t (txn_m s) = ABORTED then txn_m s else add_write (rid_at p i) UPDATE old_t table (txn_m s))
        (stored p d' s)) \<and>
    tp_inv d' \<and> get_bytes 0 16 d' = get_bytes 0 16 d \<and> tp_slots d' = (tp_slots d)[i := Live bs]"
proof -
  note H = heap_pageD [OF h]
  obtain d' where d': "tp_UpdateTuple False t Tuple_default (rid_at p i) (txn_m s) d = Some (True, old_t, txn_m s, d')" "tp_inv d'"
    "tp_slots d' = (tp_slots d)[i := Live bs]" "get_bytes 0 16 d' = get_bytes 0 16 d"
    using tp_UpdateTuple_refines [OF H(3) t rid_at_simps(2) i fits no_dead, where out = Tuple_default and p1 = p and txn = "txn_m s"]
    by (auto simp: old_t_def)
  have "tp_GetPageId d' = Some p" using heap_page_id [OF d'(2)] header_id [OF d'(4)] H(4) by simp
  note C = close_write(2) [OF H(1) this]
  have "th_UpdateTuple False table t (rid_at p i) s =
      Some (True, set_txn (if state_t (txn_m s) = ABORTED then txn_m s else add_write (rid_at p i) UPDATE old_t table (txn_m s))
        (stored p d' s))"
    using d'(1) by (simp add: th_UpdateTuple_def open_write [OF H(1)] f get_opened [OF H(1,2)] put_opened_txn C
      set_txn_stored)
  then show ?thesis using d' by blast
qed

lemma th_UpdateTuple_page_refused:
  assumes h: "heap_page p s d" and f: "\<not> pool_full s" and t: "size_m t = int (length bs)"
    and no: "(if i < length (tp_slots d) then live_bytes (tp_slots d ! i) else None) = None \<or>
      (i < length (tp_slots d) \<and> room (tp_slots d) < int (length bs) - int (length (slot_bytes (tp_slots d ! i))))"
  shows "th_UpdateTuple False table t (rid_at p i) s = Some (False, s)"
proof -
  note H = heap_pageD [OF h]
  note C = close_clean [OF H(1,2,5)]
  show ?thesis
    by (simp add: th_UpdateTuple_def open_write [OF H(1)] f get_opened [OF H(1,2)] C
      tp_UpdateTuple_refused [OF H(3) rid_at_simps(2) t no])
qed

section \<open>The chain of pages\<close>

definition next_page :: "bytes \<Rightarrow> page_id" where
  "next_page d = get_int 12 d"

fun chain :: "page_id list \<Rightarrow> table_state \<Rightarrow> bool" where
  "chain [] s = True"
| "chain (p # ps) s = (\<exists>d. heap_page p s d \<and>
     next_page d = (case ps of [] \<Rightarrow> INVALID_PAGE_ID | q # _ \<Rightarrow> q) \<and> chain ps s)"

definition slots_at :: "table_state \<Rightarrow> page_id \<Rightarrow> slot list" where
  "slots_at s p = tp_slots (the (contents s p))"

lemma header_next: "get_bytes 0 16 d' = get_bytes 0 16 d \<Longrightarrow> next_page d' = next_page d"
proof -
  assume e: "get_bytes 0 16 d' = get_bytes 0 16 d"
  have g: "get_int 12 x = get_int 12 (get_bytes 0 16 x)" for x
    by (simp add: get_int_def load_int_def get_bytes_def min_def drop_take)
  from g [of d'] have "get_int 12 d' = get_int 12 (get_bytes 0 16 d)" by (simp only: e)
  also have "\<dots> = get_int 12 d" by (rule g [symmetric])
  finally show ?thesis by (simp add: next_page_def)
qed

lemma tp_inv_length: "tp_inv d \<Longrightarrow> length d = 512"
  by (auto simp: tp_inv_def tp_rep_def)

lemma tp_GetNextPageId_inv: "tp_inv d \<Longrightarrow> tp_GetNextPageId d = Some (next_page d)"
  by (simp add: tp_GetNextPageId_def page_get_def inside_def tp_inv_length next_page_def)

lemma heap_page_frame:
  "heap_page p s d \<Longrightarrow> contents s' p = contents s p \<Longrightarrow> pins s' p = pins s p \<Longrightarrow> latch s' p = latch s p \<Longrightarrow>
   (p \<in> pending s' \<longleftrightarrow> p \<in> pending s) \<Longrightarrow> heap_page p s' d"
  by (auto simp: heap_page_def page_free_def)

text \<open>Two states that agree on what concerns the pages \<open>A\<close>.\<close>

definition agree :: "page_id set \<Rightarrow> table_state \<Rightarrow> table_state \<Rightarrow> bool" where
  "agree A s s' \<longleftrightarrow> (\<forall>p \<in> A. contents s' p = contents s p \<and> pins s' p = pins s p \<and> latch s' p = latch s p \<and>
     (p \<in> pending s' \<longleftrightarrow> p \<in> pending s))"

lemma chain_agree: "chain ps s \<Longrightarrow> agree (set ps) s s' \<Longrightarrow> chain ps s'"
  by (induction ps) (auto simp: agree_def intro: heap_page_frame)

lemma slots_agree: "agree (set ps) s s' \<Longrightarrow> map (slots_at s') ps = map (slots_at s) ps"
  by (simp add: agree_def slots_at_def)

lemma agree_stored: "p \<notin> A \<Longrightarrow> agree A s (stored p d s)"
  by (auto simp: agree_def)

lemma agree_txn: "agree A s (set_txn t s)"
  by (simp add: agree_def)

lemma agree_trans: "agree A s s' \<Longrightarrow> agree A s' s'' \<Longrightarrow> agree A s s''"
  by (simp add: agree_def)

text \<open>Storing other bytes with the same header keeps the chain.\<close>

lemma chain_store:
  assumes "chain ps s" and "distinct ps" and "contents s p = Some d" and "tp_inv d'"
    and "get_bytes 0 16 d' = get_bytes 0 16 d"
  shows "chain ps (stored p d' s)"
  using assms(1,2)
proof (induction ps)
  case (Cons q qs)
  obtain e where e: "heap_page q s e" "next_page e = (case qs of [] \<Rightarrow> INVALID_PAGE_ID | r # _ \<Rightarrow> r)" "chain qs s"
    using Cons.prems by auto
  show ?case
  proof (cases "q = p")
    case True
    then have "e = d" using e(1) assms(3) by (simp add: heap_page_def)
    then have "heap_page q (stored p d' s) d'" "next_page d' = next_page e"
      using e(1) True assms(4,5) header_id [OF assms(5)] header_next [OF assms(5)] by (auto simp: heap_page_def page_free_def)
    then show ?thesis using e Cons by auto
  next
    case False
    have "heap_page q (stored p d' s) e" using e(1) False by (auto intro: heap_page_frame)
    then show ?thesis using e Cons by auto
  qed
qed simp

section \<open>Insertion\<close>

text \<open>The heap as the slots of its pages: the first page with room takes the tuple.\<close>

fun chain_insert :: "bytes \<Rightarrow> slot list list \<Rightarrow> nat \<times> nat \<times> slot list list" where
  "chain_insert bs [] = (0, 0, [[Live bs]])"
| "chain_insert bs (ss # rest) = (case slots_insert bs ss of
     Some (i, ss') \<Rightarrow> (0, i, ss' # rest)
   | None \<Rightarrow> (case chain_insert bs rest of (k, i, rest') \<Rightarrow> (Suc k, i, ss # rest')))"

definition heap_ok :: "table_state \<Rightarrow> bool" where
  "heap_ok s \<longleftrightarrow> store_inv s \<and> (\<forall>p. contents s p = None \<longrightarrow> latch s p = 0) \<and> pinned_count s + 2 \<le> frames s"

lemma heap_ok_not_full: "heap_ok s \<Longrightarrow> \<not> pool_full s"
  by (simp add: heap_ok_def pool_full_def)

lemma tp_set_next:
  assumes "tp_inv d" and x: "in_range_s 32 x"
  shows "\<exists>d'. tp_SetNextPageId x d = Some d' \<and> tp_inv d' \<and> tp_slots d' = tp_slots d \<and> get_int 0 d' = get_int 0 d \<and> next_page d' = x"
proof -
  obtain h f s where r: "tp_rep h f s d" and l: "layout f s" "free_zero s" using assms(1) by (auto simp: tp_inv_def)
  let ?d = "put_int 12 x d"
  have len: "length d = 512" by (rule tp_repD(1) [OF r])
  have r': "tp_rep (get_bytes 0 16 ?d) f s ?d"
    using r by (auto simp: tp_rep_def get_int_put_other)
  have "slot_of ?d (s ! j) = slot_of d (s ! j)" if "j < length s" for j
  proof (cases "snd (s ! j) = 0")
    case False
    show ?thesis
    proof (rule layout_slot_bytes [OF l(1) that False])
      fix a n assume "nat f \<le> a" "a + n \<le> 512"
      then show "get_bytes a n ?d = get_bytes a n d"
        using layout_room [OF l(1)] len by (intro get_bytes_put_int_other) auto
    qed
  qed simp
  then have "map (slot_of ?d) s = map (slot_of d) s" by (intro nth_equalityI) simp_all
  then have "tp_slots ?d = tp_slots d" by (simp only: tp_slots_rep [OF r'] tp_slots_rep [OF r])
  moreover have "tp_inv ?d" unfolding tp_inv_def using r' l by blast
  moreover have "get_int 0 ?d = get_int 0 d" "next_page ?d = x"
    using len x by (simp_all add: next_page_def get_int_put_other wrap_s_id)
  moreover have "tp_SetNextPageId x d = Some ?d" using len by (simp add: tp_SetNextPageId_def page_put_def inside_def)
  ultimately show ?thesis by blast
qed

lemma set_txn_opened [simp]: "set_txn (txn_m s) (opened w p s) = opened w p s"
  by (rule state_eqI) simp_all

lemma set_txn_marked_opened [simp]: "set_txn (txn_m s) (marked q (opened w p s)) = marked q (opened w p s)"
  by (rule state_eqI) simp_all

lemma insert_here:
  assumes h: "heap_page p s d" and t: "holds t bs" "bs \<noteq> []" and ins: "slots_insert bs (tp_slots d) = Some (i, ss)"
    and x: "x = opened (- 1) p s \<or> x = marked p (opened (- 1) p s)"
  shows "\<exists>d'. th_insert_loop False t rid p x = Some (Some p, rid_at p i, marked p (stored p d' (opened (- 1) p s))) \<and>
    tp_inv d' \<and> tp_slots d' = ss \<and> get_bytes 0 16 d' = get_bytes 0 16 d"
proof -
  note H = heap_pageD [OF h]
  obtain d' where d': "tp_InsertTuple False t rid (txn_m s) d = Some (True, rid_at p i, txn_m s, d')" "tp_inv d'"
    "tp_slots d' = ss" "get_bytes 0 16 d' = get_bytes 0 16 d"
    using tp_InsertTuple_some [OF H(3) t ins, of rid "txn_m s"] H(4) by (auto simp: rid_at_def)
  have g: "st_get p x = Some d" "txn_m x = txn_m s" "set_txn (txn_m s) x = x"
    "st_put p d' x = Some (marked p (stored p d' (opened (- 1) p s)))"
    using x H(2) by (auto simp: st_get_def st_put_def intro!: state_eqI)
  have "th_insert_loop False t rid p x = Some (Some p, rid_at p i, marked p (stored p d' (opened (- 1) p s)))"
    by (subst th_insert_loop.simps) (simp add: g d'(1))
  then show ?thesis using d' by blast
qed

lemma pinned_opened: "heap_ok s \<Longrightarrow> \<not> pool_full (opened w p s)"
proof -
  assume "heap_ok s"
  moreover have "pinned_count (opened w p s) \<le> pinned_count s + 1"
    by (rule pinned_count_le [of _ _ p]) (simp_all split: if_splits)
  ultimately show ?thesis by (simp add: pool_full_def heap_ok_def)
qed

lemma heap_ok_new:
  assumes "heap_ok s"
  shows "contents s (next_id s) = None" "pins s (next_id s) = 0" "latch s (next_id s) = 0" "next_id s \<notin> pending s" "0 \<le> next_id s"
proof -
  have inv: "store_inv s" using assms by (simp add: heap_ok_def)
  then show c: "contents s (next_id s) = None" "0 \<le> next_id s" by (force simp: store_inv_def)+
  show p: "pins s (next_id s) = 0" using inv c unfolding store_inv_def by (metis order_le_less)
  show "next_id s \<notin> pending s" using inv p by (force simp: store_inv_def)
  show "latch s (next_id s) = 0" using assms c by (auto simp: heap_ok_def)
qed

definition grown :: "bytes \<Rightarrow> page_id \<Rightarrow> bytes \<Rightarrow> table_state \<Rightarrow> table_state" where
  "grown d0 p d s = s\<lparr>contents := (contents s)(p \<mapsto> d, next_id s \<mapsto> d0), next_id := next_id s + 1\<rparr>"

lemma insert_new_page:
  assumes ok: "heap_ok s" and h: "heap_page p s d" and t: "holds t bs" "bs \<noteq> []" "length bs \<le> 480"
    and full: "slots_insert bs (tp_slots d) = None" and last: "next_page d = INVALID_PAGE_ID" and n: "next_id s < 2 ^ 31"
  shows "\<exists>d1 d0 d'. th_insert_loop False t rid p (opened (- 1) p s) =
      Some (Some (next_id s), rid_at (next_id s) 0, marked (next_id s) (stored (next_id s) d' (opened (- 1) (next_id s) (grown d0 p d1 s)))) \<and>
    page_free (next_id s) (grown d0 p d1 s) \<and>
    tp_inv d' \<and> tp_slots d' = [Live bs] \<and> get_int 0 d' = next_id s \<and> next_page d' = INVALID_PAGE_ID \<and>
    tp_inv d1 \<and> tp_slots d1 = tp_slots d \<and> get_int 0 d1 = p \<and> next_page d1 = next_id s"
proof -
  note H = heap_pageD [OF h]
  define m where "m = next_id s"
  note N = heap_ok_new [OF ok, folded m_def]
  have pm: "p \<noteq> m" using N(1) H(2) by auto
  have v: "in_range_s 32 m" using N(5) n by (simp add: m_def)
  have pv: "in_range_s 32 p"
    using ok H(2) N(5) n by (auto simp: heap_ok_def store_inv_def m_def)
  obtain d1 where d1: "tp_SetNextPageId m d = Some d1" "tp_inv d1" "tp_slots d1 = tp_slots d" "get_int 0 d1 = get_int 0 d"
    "next_page d1 = m" using tp_set_next [OF H(3) v] by auto
  obtain d0 where d0: "tp_Init m PAGE_SIZE p (replicate 512 0) = Some d0" "tp_inv d0" "tp_slots d0 = []" "get_int 0 d0 = m"
    "get_int 12 d0 = INVALID_PAGE_ID"
    using tp_Init_refines [OF _ v pv, of "replicate 512 0"] by (auto simp: PAGE_SIZE_def)
  obtain rid' where ins: "tp_InsertTuple False t rid (txn_m s) d = Some (False, rid', txn_m s, d)"
    using tp_InsertTuple_none [OF H(3) t(1,2) full] by blast
  let ?s1 = "grown d0 p d1 s"
  have hp: "heap_page m ?s1 d0" using N d0 pm by (simp add: heap_page_def page_free_def grown_def m_def)
  have "slots_insert bs (tp_slots d0) = Some (0, [Live bs])"
    using t(3) by (simp add: slots_insert_def d0(3) room_def)
  from insert_here [OF hp t(1,2) this, of "marked m (opened (- 1) m ?s1)" rid']
  obtain d' where d': "th_insert_loop False t rid' m (marked m (opened (- 1) m ?s1)) =
      Some (Some m, rid_at m 0, marked m (stored m d' (opened (- 1) m ?s1)))"
    "tp_inv d'" "tp_slots d' = [Live bs]" "get_bytes 0 16 d' = get_bytes 0 16 d0" by auto
  define sa where "sa = (opened (- 1) p s)\<lparr>contents := (contents s)(m \<mapsto> replicate 512 0),
    pins := (pins s)(p := 1, m := 1), pending := insert m (pending s), next_id := m + 1\<rparr>"
  define sb where "sb = sa\<lparr>latch := (latch sa)(m := - 1)\<rparr>"
  define sc where "sc = sb\<lparr>contents := (contents sb)(p \<mapsto> d1), pending := insert p (pending sb)\<rparr>"
  define sd where "sd = sc\<lparr>contents := (contents sc)(m \<mapsto> d0), pending := insert m (pending sc)\<rparr>"
  define se where "se = sd\<lparr>latch := (latch sd)(p := 0)\<rparr>"
  have new: "try_new (opened (- 1) p s) = (Some m, sa)"
    by (simp add: try_new_def pinned_opened [OF ok] st_new_def sa_def m_def Let_def)
  have w: "st_wlatch m sa = Some sb" using N pm by (simp add: st_wlatch_def sb_def sa_def)
  have gp: "st_get p sb = Some d" using H(2) pm by (simp add: st_get_def sb_def sa_def)
  have pp: "st_put p d1 sb = Some sc" using pm by (simp add: st_put_def sc_def) (simp add: sb_def sa_def)
  have idp: "page_id_at p sc = Some p"
    using pm heap_page_id [OF d1(2)] d1(4) H(4) by (simp add: page_id_at_def st_get_def sc_def) (simp add: sb_def sa_def)
  have gm: "st_get m sc = Some (replicate 512 0)" using pm by (simp add: st_get_def sc_def sb_def sa_def)
  have pt: "st_put m d0 sc = Some sd" by (simp add: st_put_def sd_def) (simp add: sc_def sb_def sa_def)
  have ul: "st_wunlatch p sd = Some se" using pm by (simp add: st_wunlatch_def se_def) (simp add: sd_def sc_def sb_def sa_def)
  have up: "unpin_at p True se = Some (marked m (opened (- 1) m ?s1))"
    using pm heap_page_id [OF d1(2)] d1(4) H(1,4) N
    by (auto simp: unpin_at_def page_id_at_def st_get_def st_unpin_def se_def sd_def sc_def sb_def sa_def grown_def m_def
      page_free_def intro!: state_eqI)
  have "th_insert_loop False t rid p (opened (- 1) p s) = th_insert_loop False t rid' m (marked m (opened (- 1) m ?s1))"
    by (subst th_insert_loop.simps)
      (simp add: get_opened [OF H(1,2)] ins tp_GetNextPageId_inv [OF H(3)] last new w gp d1(1) pp idp gm d0(1) pt ul up)
  then show ?thesis
    using d' d0 d1 H(4) header_id [OF d'(4)] header_next [OF d'(4)] heap_pageD(1) [OF hp]
    by (intro exI [of _ d1] exI [of _ d0] exI [of _ d']) (simp add: m_def [symmetric] next_page_def)
qed

lemma insert_next_page:
  assumes ok: "heap_ok s" and h: "heap_page p s d" and h': "heap_page q s d'" and t: "holds t bs" "bs \<noteq> []"
    and full: "slots_insert bs (tp_slots d) = None" and nx: "next_page d = q" "q \<noteq> INVALID_PAGE_ID"
  shows "\<exists>rid'. th_insert_loop False t rid p (opened (- 1) p s) = th_insert_loop False t rid' q (opened (- 1) q s)"
proof -
  note H = heap_pageD [OF h] and H' = heap_pageD [OF h']
  obtain rid' where ins: "tp_InsertTuple False t rid (txn_m s) d = Some (False, rid', txn_m s, d)"
    using tp_InsertTuple_none [OF H(3) t full] by blast
  have "th_insert_loop False t rid p (opened (- 1) p s) = th_insert_loop False t rid' q (opened (- 1) q s)"
    by (subst th_insert_loop.simps)
      (simp add: close_clean [OF H(1,2,5), of "txn_m s", unfolded set_txn_opened set_txn_same] get_opened [OF H(1,2)] ins tp_GetNextPageId_inv [OF H(3)] nx open_write [OF H'(1)] heap_ok_not_full [OF ok])
  then show ?thesis by blast
qed

text \<open>What an insertion has done when it gives the page back.\<close>

definition inserted :: "page_id list \<Rightarrow> table_state \<Rightarrow> page_id list \<Rightarrow> table_state \<Rightarrow> bool" where
  "inserted ps s ps' s' \<longleftrightarrow> chain ps' s' \<and> ps' \<noteq> [] \<and> hd ps' = hd ps \<and>
     (ps' = ps \<and> next_id s' = next_id s \<or> ps' = ps @ [next_id s] \<and> next_id s' = next_id s + 1) \<and>
     pins s' = pins s \<and> latch s' = latch s \<and> pending s' = pending s \<and> frames s' = frames s \<and> txn_m s' = txn_m s \<and>
     (\<forall>p. p \<notin> set ps' \<longrightarrow> contents s' p = contents s p) \<and> (\<forall>p. contents s p \<noteq> None \<longrightarrow> contents s' p \<noteq> None)"

lemma chain_ids: "chain ps s \<Longrightarrow> p \<in> set ps \<Longrightarrow> contents s p \<noteq> None"
  by (induction ps) (auto simp: heap_page_def)

lemma insert_loop_refines:
  assumes ok: "heap_ok s" and "chain ps s" and "distinct ps" and "ps \<noteq> []" and t: "holds t bs" "bs \<noteq> []" "length bs \<le> 480"
    and n: "next_id s < 2 ^ 31" and k: "chain_insert bs (map (slots_at s) ps) = (k, i, sss)"
  shows "\<exists>ps' s1 d'. th_insert_loop False t rid (hd ps) (opened (- 1) (hd ps) s) =
      Some (Some (ps' ! k), rid_at (ps' ! k) i, marked (ps' ! k) (stored (ps' ! k) d' (opened (- 1) (ps' ! k) s1))) \<and>
    page_free (ps' ! k) s1 \<and> tp_GetPageId d' = Some (ps' ! k) \<and>
    inserted ps s ps' (stored (ps' ! k) d' s1) \<and> txn_m s1 = txn_m s \<and>
    map (slots_at (stored (ps' ! k) d' s1)) ps' = sss \<and> k < length ps'"
  using assms(2-4) k
proof (induction ps arbitrary: k sss rid)
  case (Cons p qs)
  obtain d where h: "heap_page p s d" "next_page d = (case qs of [] \<Rightarrow> INVALID_PAGE_ID | q # _ \<Rightarrow> q)" "chain qs s"
    using Cons.prems(1) by auto
  note H = heap_pageD [OF h(1)]
  have sl: "slots_at s p = tp_slots d" using H(2) by (simp add: slots_at_def)
  show ?case
  proof (cases "slots_insert bs (tp_slots d)")
    case (Some r)
    obtain j ss where r: "r = (j, ss)" by fastforce
    have k: "k = 0" "i = j" "sss = ss # map (slots_at s) qs" using Cons.prems(4) Some r sl by auto
    from insert_here [OF h(1) t(1,2) Some [unfolded r], of "opened (- 1) p s" rid]
    obtain d' where d': "th_insert_loop False t rid p (opened (- 1) p s) = Some (Some p, rid_at p j, marked p (stored p d' (opened (- 1) p s)))"
      "tp_inv d'" "tp_slots d' = ss" "get_bytes 0 16 d' = get_bytes 0 16 d" by auto
    have "chain (p # qs) (stored p d' s)"
      by (rule chain_store [OF Cons.prems(1,2) H(2) d'(2,4)])
    moreover have "map (slots_at (stored p d' s)) qs = map (slots_at s) qs"
      using Cons.prems(2) by (intro slots_agree agree_stored) simp
    ultimately show ?thesis
      using d' H(1) k heap_page_id [OF d'(2)] header_id [OF d'(4)] H(4)
      by (intro exI [of _ "p # qs"] exI [of _ s] exI [of _ d']) (auto simp: inserted_def slots_at_def)
  next
    case None
    obtain k' sss' where k': "chain_insert bs (map (slots_at s) qs) = (k', i, sss')" "k = Suc k'" "sss = tp_slots d # sss'"
      using Cons.prems(4) None sl by (auto split: prod.splits)
    show ?thesis
    proof (cases qs)
      case Nil
      have last: "next_page d = INVALID_PAGE_ID" using h(2) Nil by simp
      have r: "k' = 0" "i = 0" "sss' = [[Live bs]]" using k'(1) Nil by auto
      let ?m = "next_id s"
      obtain d1 d0 d' where I: "th_insert_loop False t rid p (opened (- 1) p s) =
          Some (Some ?m, rid_at ?m 0, marked ?m (stored ?m d' (opened (- 1) ?m (grown d0 p d1 s))))"
        "page_free ?m (grown d0 p d1 s)" "tp_inv d'" "tp_slots d' = [Live bs]" "get_int 0 d' = ?m" "next_page d' = INVALID_PAGE_ID"
        "tp_inv d1" "tp_slots d1 = tp_slots d" "get_int 0 d1 = p" "next_page d1 = ?m"
        using insert_new_page [OF ok h(1) t None last n] by blast
      note N = heap_ok_new [OF ok]
      have pm: "p \<noteq> ?m" using N(1) H(2) by auto
      let ?s = "stored ?m d' (grown d0 p d1 s)"
      have "heap_page p ?s d1" using pm H(1) I(7,9) by (auto simp: heap_page_def page_free_def grown_def)
      moreover have "heap_page ?m ?s d'" using I(2,3,5) by (simp add: heap_page_def)
      ultimately have "chain [p, ?m] ?s" using I(6,10) by auto
      then show ?thesis
        using I r k' pm heap_page_id [OF I(3)] Nil
        by (intro exI [of _ "[p, ?m]"] exI [of _ "grown d0 p d1 s"] exI [of _ d'])
          (auto simp: inserted_def slots_at_def grown_def)
    next
      case (Cons q rs)
      obtain e where e: "heap_page q s e" using h(3) Cons by auto
      have nx: "next_page d = q" using h(2) Cons by simp
      have "q \<noteq> INVALID_PAGE_ID"
      proof -
        have "contents s q \<noteq> None" using e by (simp add: heap_page_def)
        then have "0 \<le> q" using ok by (auto simp: heap_ok_def store_inv_def)
        then show ?thesis by (simp add: INVALID_PAGE_ID_def)
      qed
      from insert_next_page [OF ok h(1) e t(1,2) None nx this, of rid]
      obtain rid' where step: "th_insert_loop False t rid p (opened (- 1) p s) = th_insert_loop False t rid' (hd qs) (opened (- 1) (hd qs) s)"
        using Cons by auto
      have "distinct qs" "qs \<noteq> []" using Cons.prems(2) Cons by auto
      from Cons.IH [OF h(3) this k'(1), of rid']
      obtain ps' s1 d' where I: "th_insert_loop False t rid' (hd qs) (opened (- 1) (hd qs) s) =
          Some (Some (ps' ! k'), rid_at (ps' ! k') i, marked (ps' ! k') (stored (ps' ! k') d' (opened (- 1) (ps' ! k') s1)))"
        "page_free (ps' ! k') s1" "tp_GetPageId d' = Some (ps' ! k')" "inserted qs s ps' (stored (ps' ! k') d' s1)"
        "txn_m s1 = txn_m s" "map (slots_at (stored (ps' ! k') d' s1)) ps' = sss'" "k' < length ps'" by blast
      let ?s = "stored (ps' ! k') d' s1"
      note J = I(4) [unfolded inserted_def]
      have pn: "p \<notin> set ps'" using J Cons.prems(2) heap_ok_new(1) [OF ok] H(2) by auto
      have ag: "agree {p} s ?s" using J pn by (simp add: agree_def)
      have "heap_page p ?s d" by (rule heap_page_frame [OF h(1)]) (use ag in \<open>auto simp: agree_def\<close>)
      moreover have "next_page d = hd ps'" using nx J Cons by auto
      ultimately have "chain (p # ps') ?s" using J by (cases ps') auto
      moreover have "slots_at ?s p = tp_slots d" using ag sl by (simp add: agree_def slots_at_def)
      ultimately show ?thesis
        using I(1-3,5-7) J step k' pn
        by (intro exI [of _ "p # ps'"] exI [of _ s1] exI [of _ d']) (auto simp: inserted_def)
    qed
  qed
qed simp

end
