(* ===== verification/TableTxn.thy ===== *)
theory TableTxn imports TableHeapProps begin

text \<open>
  A table heap as a map from record ids to slots, and what committing and aborting a transaction do
  to it.
\<close>

section \<open>The heap as a map\<close>

definition heap_inv :: "page_id \<Rightarrow> page_id list \<Rightarrow> table_state \<Rightarrow> bool" where
  "heap_inv table ps s \<longleftrightarrow> ps \<noteq> [] \<and> hd ps = table \<and> distinct ps \<and> chain ps s \<and> heap_ok s"

text \<open>The slot of a record id; what is outside the heap is free.\<close>

definition slot_map :: "page_id list \<Rightarrow> table_state \<Rightarrow> RID \<Rightarrow> slot" where
  "slot_map ps s rid = (if rid_page_id rid \<in> set ps \<and> 0 \<le> slot_num rid \<and>
       nat (slot_num rid) < length (slots_at s (rid_page_id rid))
     then slots_at s (rid_page_id rid) ! nat (slot_num rid) else Free)"

lemma rid_at_conv: "0 \<le> slot_num rid \<Longrightarrow> rid_at (rid_page_id rid) (nat (slot_num rid)) = rid"
  by (cases rid) (simp add: rid_at_def)

lemma rid_eq_rid_at: "rid = rid_at p i \<longleftrightarrow> rid_page_id rid = p \<and> slot_num rid = int i"
  by (cases rid) (auto simp: rid_at_def)

lemma chain_page: "chain ps s \<Longrightarrow> p \<in> set ps \<Longrightarrow> \<exists>d. heap_page p s d \<and> slots_at s p = tp_slots d"
  by (induction ps) (auto simp: slots_at_def heap_page_def)

lemma slot_map_at:
  assumes "heap_inv table ps s" and "slot_map ps s rid \<noteq> Free"
  obtains p i d where "rid = rid_at p i" "p \<in> set ps" "heap_page p s d" "slots_at s p = tp_slots d"
    "i < length (tp_slots d)" "tp_slots d ! i = slot_map ps s rid"
proof -
  have c: "rid_page_id rid \<in> set ps" "0 \<le> slot_num rid" "nat (slot_num rid) < length (slots_at s (rid_page_id rid))"
    using assms(2) by (auto simp: slot_map_def split: if_splits)
  obtain d where d: "heap_page (rid_page_id rid) s d" "slots_at s (rid_page_id rid) = tp_slots d"
    using chain_page [of ps s "rid_page_id rid"] assms(1) c(1) by (auto simp: heap_inv_def)
  show ?thesis
    using that [of "rid_page_id rid" "nat (slot_num rid)" d] c d by (simp add: rid_at_conv slot_map_def)
qed

lemma heap_ok_txn [simp]: "heap_ok (set_txn t s) = heap_ok s"
  by (simp add: heap_ok_def store_inv_def pinned_count_def)

lemma heap_ok_stored: "heap_ok s \<Longrightarrow> contents s p \<noteq> None \<Longrightarrow> heap_ok (stored p d s)"
  unfolding heap_ok_def store_inv_def by (auto simp: pinned_count_def)

lemma chain_txn [simp]: "chain ps (set_txn t s) = chain ps s"
  by (induction ps) (simp_all add: heap_page_def)

lemma slots_at_txn [simp]: "slots_at (set_txn t s) p = slots_at s p"
  by (simp add: slots_at_def)

lemma heap_inv_txn [simp]: "heap_inv table ps (set_txn t s) = heap_inv table ps s"
  by (simp add: heap_inv_def)

lemma slot_map_txn [simp]: "slot_map ps (set_txn t s) = slot_map ps s"
  by (simp add: slot_map_def fun_eq_iff)

lemma heap_store:
  assumes h: "heap_inv table ps s" and p: "p \<in> set ps" "contents s p = Some d" and d': "tp_inv d'" "get_bytes 0 16 d' = get_bytes 0 16 d"
    and i: "i < length (tp_slots d)" "tp_slots d' = (tp_slots d)[i := x]"
  shows "heap_inv table ps (stored p d' s)" and "slot_map ps (stored p d' s) = (slot_map ps s)(rid_at p i := x)"
proof -
  show "heap_inv table ps (stored p d' s)"
    using h chain_store [OF _ _ p(2) d', of ps] heap_ok_stored p(2) by (auto simp: heap_inv_def)
  show "slot_map ps (stored p d' s) = (slot_map ps s)(rid_at p i := x)"
    using p i by (auto simp: slot_map_def slots_at_def fun_eq_iff rid_eq_rid_at nth_list_update)
qed

text \<open>What no operation that returns changes: who holds pages, and which ids have a page, apart from new ones.\<close>

definition undisturbed :: "table_state \<Rightarrow> table_state \<Rightarrow> bool" where
  "undisturbed s s' \<longleftrightarrow> pins s' = pins s \<and> latch s' = latch s \<and> pending s' = pending s \<and> frames s' = frames s \<and>
     next_id s \<le> next_id s' \<and> (\<forall>p. contents s' p \<noteq> None \<longrightarrow> contents s p \<noteq> None \<or> next_id s \<le> p)"

lemma undisturbed_refl [simp]: "undisturbed s s"
  by (simp add: undisturbed_def)

lemma undisturbed_trans: "undisturbed s s' \<Longrightarrow> undisturbed s' s'' \<Longrightarrow> undisturbed s s''"
  by (auto simp: undisturbed_def) (meson order_trans)

lemma undisturbed_txn [simp]: "undisturbed s (set_txn t s') = undisturbed s s'" "undisturbed (set_txn t s) s' = undisturbed s s'"
  by (simp_all add: undisturbed_def)

lemma undisturbed_stored: "contents s p = Some d \<Longrightarrow> undisturbed s (stored p d' s)"
  by (auto simp: undisturbed_def)

section \<open>Operations on the map\<close>

lemma th_MarkDelete_map:
  assumes h: "heap_inv table ps s" and live: "slot_map ps s rid = Live bs"
  shows "\<exists>s'. th_MarkDelete False table rid s = Some (True, set_txn (add_write rid DELETE Tuple_default table (txn_m s)) s') \<and>
    heap_inv table ps s' \<and> slot_map ps s' = (slot_map ps s)(rid := Dead bs) \<and> txn_m s' = txn_m s \<and> next_id s' = next_id s \<and> undisturbed s s'"
proof -
  obtain p i d where r: "rid = rid_at p i" "p \<in> set ps" "heap_page p s d" "slots_at s p = tp_slots d"
    "i < length (tp_slots d)" "tp_slots d ! i = slot_map ps s rid"
    using slot_map_at [OF h, of rid] live by (metis slot.distinct(1))
  have f: "\<not> pool_full s" using h heap_ok_not_full by (simp add: heap_inv_def)
  obtain d' where d': "th_MarkDelete False table rid s =
      Some (True, set_txn (add_write rid DELETE Tuple_default table (txn_m s)) (stored p d' s))"
    "tp_inv d'" "get_bytes 0 16 d' = get_bytes 0 16 d" "tp_slots d' = (tp_slots d)[i := Dead bs]"
    using th_MarkDelete_page [OF r(3) f, of table i] r live by auto
  show ?thesis using d' heap_store [OF h r(2) heap_pageD(2) [OF r(3)] d'(2,3) r(5) d'(4)] r(1) undisturbed_stored [OF heap_pageD(2) [OF r(3)], of d'] by auto
qed

lemma th_UpdateTuple_map:
  assumes h: "heap_inv table ps s" and live: "slot_map ps s rid = Live old"
    and t: "holds t bs" "bs \<noteq> []" and len: "length bs = length old"
  defines "old_t \<equiv> \<lparr>allocated_m = True, rid_m = rid, size_m = int (length old), data_t = Some old\<rparr>"
  shows "\<exists>s'. th_UpdateTuple False table' t rid s = Some (True, set_txn
      (if state_t (txn_m s) = ABORTED then txn_m s else add_write rid UPDATE old_t table' (txn_m s)) s') \<and>
    heap_inv table ps s' \<and> slot_map ps s' = (slot_map ps s)(rid := Live bs) \<and> txn_m s' = txn_m s \<and> next_id s' = next_id s \<and> undisturbed s s'"
proof -
  obtain p i d where r: "rid = rid_at p i" "p \<in> set ps" "heap_page p s d" "slots_at s p = tp_slots d"
    "i < length (tp_slots d)" "tp_slots d ! i = slot_map ps s rid"
    using slot_map_at [OF h, of rid] live by (metis slot.distinct(1))
  have f: "\<not> pool_full s" using h heap_ok_not_full by (simp add: heap_inv_def)
  obtain h' f' s' where rep: "tp_rep h' f' s' d" "layout f' s'" using heap_pageD(3) [OF r(3)] by (auto simp: tp_inv_def)
  have "0 \<le> room (tp_slots d)" using room_rep [OF rep] layout_room [OF rep(2)] by simp
  then have fits: "int (length bs) - int (length old) \<le> room (tp_slots d)" using len by simp
  have l: "tp_slots d ! i = Live old" using r(6) live by simp
  obtain d' where d': "th_UpdateTuple False table' t rid s = Some (True, set_txn
      (if state_t (txn_m s) = ABORTED then txn_m s else add_write rid UPDATE old_t table' (txn_m s)) (stored p d' s))"
    "tp_inv d'" "get_bytes 0 16 d' = get_bytes 0 16 d" "tp_slots d' = (tp_slots d)[i := Live bs]"
    using th_UpdateTuple_page [OF r(3) f t r(5) l fits disjI1 [OF len], of table'] unfolding old_t_def r(1) by blast
  show ?thesis using d' heap_store [OF h r(2) heap_pageD(2) [OF r(3)] d'(2,3) r(5) d'(4)] r(1) undisturbed_stored [OF heap_pageD(2) [OF r(3)], of d']
    by (intro exI [of _ "stored p d' s"]) simp
qed

lemma th_ApplyDelete_map:
  assumes h: "heap_inv table ps s" and nf: "slot_map ps s rid \<noteq> Free"
  shows "\<exists>s'. th_ApplyDelete False rid s = Some s' \<and> heap_inv table ps s' \<and>
    slot_map ps s' = (slot_map ps s)(rid := Free) \<and> txn_m s' = txn_m s \<and> next_id s' = next_id s \<and> undisturbed s s'"
proof -
  obtain p i d where r: "rid = rid_at p i" "p \<in> set ps" "heap_page p s d" "slots_at s p = tp_slots d"
    "i < length (tp_slots d)" "tp_slots d ! i = slot_map ps s rid"
    using slot_map_at [OF h nf] by metis
  have f: "\<not> pool_full s" using h heap_ok_not_full by (simp add: heap_inv_def)
  obtain d' where d': "th_ApplyDelete False rid s = Some (stored p d' s)"
    "tp_inv d'" "get_bytes 0 16 d' = get_bytes 0 16 d" "tp_slots d' = (tp_slots d)[i := Free]"
    using th_ApplyDelete_page [OF r(3) f r(5)] r nf by auto
  show ?thesis using d' heap_store [OF h r(2) heap_pageD(2) [OF r(3)] d'(2,3) r(5) d'(4)] r(1) undisturbed_stored [OF heap_pageD(2) [OF r(3)], of d'] by auto
qed

lemma th_RollbackDelete_map:
  assumes h: "heap_inv table ps s" and nf: "slot_map ps s rid \<noteq> Free"
  shows "\<exists>s'. th_RollbackDelete False rid s = Some s' \<and> heap_inv table ps s' \<and>
    slot_map ps s' = (slot_map ps s)(rid := unmark (slot_map ps s rid)) \<and> txn_m s' = txn_m s \<and> next_id s' = next_id s \<and> undisturbed s s'"
proof -
  obtain p i d where r: "rid = rid_at p i" "p \<in> set ps" "heap_page p s d" "slots_at s p = tp_slots d"
    "i < length (tp_slots d)" "tp_slots d ! i = slot_map ps s rid"
    using slot_map_at [OF h nf] by metis
  have f: "\<not> pool_full s" using h heap_ok_not_full by (simp add: heap_inv_def)
  obtain d' where d': "th_RollbackDelete False rid s = Some (stored p d' s)"
    "tp_inv d'" "get_bytes 0 16 d' = get_bytes 0 16 d" "tp_slots d' = (tp_slots d)[i := unmark (slot_map ps s rid)]"
    using th_RollbackDelete_page [OF r(3) f r(5)] r by auto
  show ?thesis using d' heap_store [OF h r(2) heap_pageD(2) [OF r(3)] d'(2,3) r(5) d'(4)] r(1) undisturbed_stored [OF heap_pageD(2) [OF r(3)], of d'] by auto
qed

lemma th_GetTuple_map:
  assumes h: "heap_inv table ps s" and p: "rid_page_id rid \<in> set ps" "0 \<le> slot_num rid"
  shows "th_GetTuple False rid t s = (case live_bytes (slot_map ps s rid) of
      Some bs \<Rightarrow> Some (True, \<lparr>allocated_m = True, rid_m = rid, size_m = int (length bs), data_t = Some bs\<rparr>, s)
    | None \<Rightarrow> Some (False, t, s))"
proof -
  obtain d where d: "heap_page (rid_page_id rid) s d" "slots_at s (rid_page_id rid) = tp_slots d"
    using chain_page [of ps s "rid_page_id rid"] h p(1) by (auto simp: heap_inv_def)
  have f: "\<not> pool_full s" using h heap_ok_not_full by (simp add: heap_inv_def)
  have "slot_map ps s rid = (if nat (slot_num rid) < length (tp_slots d) then tp_slots d ! nat (slot_num rid) else Free)"
    using p by (simp add: slot_map_def d(2))
  then show ?thesis
    using th_GetTuple_page [OF d(1) f, of "nat (slot_num rid)" t, unfolded rid_at_conv [OF p(2)]] by simp
qed

section \<open>Insertion\<close>

lemma chain_insert_at:
  "chain_insert bs sss = (k, i, sss') \<Longrightarrow>
   (length sss' = length sss \<or> (length sss' = Suc (length sss) \<and> k = length sss)) \<and> k < length sss' \<and>
   i < length (sss' ! k) \<and> sss' ! k ! i = Live bs \<and>
   (k < length sss \<and> i < length (sss ! k) \<longrightarrow> sss ! k ! i = Free) \<and>
   (\<forall>k' i'. (k', i') \<noteq> (k, i) \<longrightarrow> k' < length sss' \<longrightarrow> i' < length (sss' ! k') \<longrightarrow>
      k' < length sss \<and> i' < length (sss ! k') \<and> sss' ! k' ! i' = sss ! k' ! i') \<and>
   (\<forall>k' i'. k' < length sss \<longrightarrow> i' < length (sss ! k') \<longrightarrow> k' < length sss' \<and> i' < length (sss' ! k'))"
proof (induction sss arbitrary: k sss')
  case Nil
  then show ?case by auto
next
  case (Cons ss sss)
  show ?case
  proof (cases "slots_insert bs ss")
    case (Some p)
    obtain j ss' where p: "p = (j, ss')" by fastforce
    have e: "k = 0" "i = j" "sss' = ss' # sss" using Cons.prems Some p by auto
    have j: "j = first_free ss" "ss' = (if j < length ss then ss[j := Live bs] else ss @ [Live bs])" "j \<le> length ss"
      using Some p first_free_le [of ss] by (auto simp: slots_insert_def Let_def split: if_splits)
    show ?thesis unfolding e using j first_free_nth [of ss]
      by (auto simp: nth_Cons nth_list_update nth_append split: nat.splits if_splits)
  next
    case None
    obtain k' sss'' where r: "chain_insert bs sss = (k', i, sss'')" "k = Suc k'" "sss' = ss # sss''"
      using Cons.prems None by (auto split: prod.splits)
    show ?thesis using Cons.IH [OF r(1)] unfolding r(2,3)
      by (auto simp: nth_Cons split: nat.splits)
  qed
qed

lemma pinned_count_same:
  assumes "store_inv s" and "pins s' = pins s" and "next_id s \<le> next_id s'"
  shows "pinned_count s' = pinned_count s"
proof -
  have "0 < pins s p \<Longrightarrow> p < next_id s" for p using assms(1) by (force simp: store_inv_def)
  then have "{p \<in> {0..next_id s' - 1}. 0 < pins s' p} = {p \<in> {0..next_id s - 1}. 0 < pins s p}"
    using assms(2,3) by fastforce
  then show ?thesis by (simp add: pinned_count_card)
qed

lemma inserted_heap_inv:
  assumes h: "heap_inv table ps s" and ins: "inserted ps s ps' s'"
  shows "heap_inv table ps' s'"
proof -
  note I = ins [unfolded inserted_def]
  have ok: "heap_ok s" using h by (simp add: heap_inv_def)
  have nx: "next_id s \<le> next_id s'" using I by auto
  have inv: "store_inv s" using ok by (simp add: heap_ok_def)
  have ps': "distinct ps'"
    using I h heap_ok_new(1) [OF ok] chain_ids [of ps s "next_id s"] by (auto simp: heap_inv_def)
  have rng: "0 \<le> p \<and> p < next_id s'" if "contents s' p \<noteq> None" for p
  proof (cases "p \<in> set ps'")
    case True
    then have "p \<in> set ps \<or> p = next_id s \<and> next_id s' = next_id s + 1" using I by auto
    moreover have "p \<in> set ps \<Longrightarrow> contents s p \<noteq> None" using chain_ids h by (auto simp: heap_inv_def)
    ultimately show ?thesis using inv nx heap_ok_new(5) [OF ok] by (force simp: store_inv_def)
  next
    case False
    then have "contents s p \<noteq> None" using that I by auto
    then show ?thesis using inv nx by (force simp: store_inv_def)
  qed
  have "store_inv s'" unfolding store_inv_def
  proof (intro conjI allI impI)
    fix p
    show "contents s' p \<noteq> None \<Longrightarrow> 0 \<le> p" "contents s' p \<noteq> None \<Longrightarrow> p < next_id s'" using rng by auto
    show "0 \<le> pins s' p" "0 < pins s' p \<Longrightarrow> contents s' p \<noteq> None" "p \<in> pending s' \<Longrightarrow> 0 < pins s' p"
      using inv I by (auto simp: store_inv_def)
  qed (use inv nx in \<open>auto simp: store_inv_def\<close>)
  moreover have "pinned_count s' = pinned_count s" using I nx by (intro pinned_count_same [OF inv]) auto
  moreover have "latch s' p = 0" if "contents s' p = None" for p
  proof -
    have "contents s p = None" using that I by blast
    then show ?thesis using ok I by (simp add: heap_ok_def)
  qed
  moreover have "pinned_count s + 2 \<le> frames s'" using ok I by (simp add: heap_ok_def)
  ultimately have "heap_ok s'" by (simp add: heap_ok_def)
  then show ?thesis using I h ps' by (auto simp: heap_inv_def)
qed

lemma slot_map_nth:
  assumes "k < length ps" and "distinct ps" and "i < length (map (slots_at s) ps ! k)"
  shows "slot_map ps s (rid_at (ps ! k) i) = map (slots_at s) ps ! k ! i"
  using assms by (simp add: slot_map_def)

lemma slot_map_index:
  assumes "slot_map ps s rid \<noteq> Free"
  obtains k i where "k < length ps" "i < length (map (slots_at s) ps ! k)" "rid = rid_at (ps ! k) i"
proof -
  have c: "rid_page_id rid \<in> set ps" "0 \<le> slot_num rid" "nat (slot_num rid) < length (slots_at s (rid_page_id rid))"
    using assms by (auto simp: slot_map_def split: if_splits)
  then obtain k where k: "k < length ps" "ps ! k = rid_page_id rid" by (auto simp: in_set_conv_nth)
  then show ?thesis using that [of k "nat (slot_num rid)"] c by (simp add: rid_at_conv)
qed

lemma th_InsertTuple_chain:
  assumes h: "heap_inv table ps s" and t: "holds t bs" "bs \<noteq> []" "length bs \<le> 480" and n: "next_id s < 2 ^ 31"
    and k: "chain_insert bs (map (slots_at s) ps) = (k, i, sss)"
  shows "\<exists>ps' s'. th_InsertTuple False table t rid s =
      Some (True, rid_at (ps' ! k) i, set_txn (add_write (rid_at (ps' ! k) i) INSERT Tuple_default table (txn_m s)) s') \<and>
    heap_inv table ps' s' \<and> inserted ps s ps' s' \<and> map (slots_at s') ps' = sss \<and> k < length ps'"
proof -
  have ok: "heap_ok s" and ch: "chain ps s" "distinct ps" "ps \<noteq> []" "hd ps = table" using h by (auto simp: heap_inv_def)
  obtain ps' s1 d' where L: "th_insert_loop False t rid table (opened (- 1) table s) =
      Some (Some (ps' ! k), rid_at (ps' ! k) i, marked (ps' ! k) (stored (ps' ! k) d' (opened (- 1) (ps' ! k) s1)))"
    "page_free (ps' ! k) s1" "tp_GetPageId d' = Some (ps' ! k)"
    "inserted ps s ps' (stored (ps' ! k) d' s1)" "txn_m s1 = txn_m s"
    "map (slots_at (stored (ps' ! k) d' s1)) ps' = sss" "k < length ps'"
    using insert_loop_refines [OF ok ch(1-3) t n k, of rid] ch(4) by blast
  let ?s = "stored (ps' ! k) d' s1" and ?rid = "rid_at (ps' ! k) i"
  have inv: "heap_inv table ps' ?s" by (rule inserted_heap_inv [OF h L(4)])
  have tab: "table \<in> set ps" using ch by auto
  obtain d where d: "heap_page table s d" using chain_page [OF ch(1) tab] by blast
  have cw: "(st_wunlatch (ps' ! k) (marked (ps' ! k) (stored (ps' ! k) d' (opened (- 1) (ps' ! k) s1))) \<bind> (\<lambda>s. unpin_at (ps' ! k) True s \<bind> f)) = f ?s" for f
    using close_write(2) [OF L(2,3), of "txn_m s1" f] by (simp add: set_txn_marked set_txn_stored)
  have sz: "\<not> size_m t + 32 > PAGE_SIZE" using t by (simp add: holds_def PAGE_SIZE_def)
  have "th_InsertTuple False table t rid s = Some (True, ?rid, set_txn (add_write ?rid INSERT Tuple_default table (txn_m s)) ?s)"
    using sz L(1,5) by (simp add: th_InsertTuple_def open_write [OF heap_pageD(1) [OF d]] heap_ok_not_full [OF ok] cw)
  then show ?thesis using inv L(4,6,7) by blast
qed

lemma th_InsertTuple_map:
  assumes h: "heap_inv table ps s" and t: "holds t bs" "bs \<noteq> []" "length bs \<le> 480" and n: "next_id s < 2 ^ 31"
  shows "\<exists>rid' ps' s'. th_InsertTuple False table t rid s =
      Some (True, rid', set_txn (add_write rid' INSERT Tuple_default table (txn_m s)) s') \<and>
    heap_inv table ps' s' \<and> slot_map ps s rid' = Free \<and> slot_map ps' s' = (slot_map ps s)(rid' := Live bs) \<and>
    txn_m s' = txn_m s \<and> next_id s' \<le> next_id s + 1 \<and> set ps \<subseteq> set ps' \<and> rid_page_id rid' \<in> set ps' \<and> 0 \<le> slot_num rid' \<and>
    pins s' = pins s \<and> latch s' = latch s \<and> undisturbed s s'"
proof -
  have ch: "chain ps s" "distinct ps" using h by (auto simp: heap_inv_def)
  obtain k i sss where k: "chain_insert bs (map (slots_at s) ps) = (k, i, sss)" using prod_cases3 by blast
  obtain ps' s2 where run: "th_InsertTuple False table t rid s =
      Some (True, rid_at (ps' ! k) i, set_txn (add_write (rid_at (ps' ! k) i) INSERT Tuple_default table (txn_m s)) s2)"
    and inv: "heap_inv table ps' s2" and L: "inserted ps s ps' s2" "map (slots_at s2) ps' = sss" "k < length ps'"
    using th_InsertTuple_chain [OF h t n k, of rid] by blast
  let ?rid = "rid_at (ps' ! k) i"
  note I = L(1) [unfolded inserted_def]
  have d': "distinct ps'" using inv by (simp add: heap_inv_def)
  note A = chain_insert_at [OF k]
  note A' = A [THEN conjunct2, THEN conjunct2]
  note A1 = A' [THEN conjunct1] A' [THEN conjunct2, THEN conjunct1]
  have A2: "k < length (map (slots_at s) ps) \<and> i < length (map (slots_at s) ps ! k) \<Longrightarrow> map (slots_at s) ps ! k ! i = Free"
    by (rule A' [THEN conjunct2, THEN conjunct2, THEN conjunct1, THEN mp])
  note A3 = A' [THEN conjunct2, THEN conjunct2, THEN conjunct2, THEN conjunct1, rule_format]
  note A4 = A' [THEN conjunct2, THEN conjunct2, THEN conjunct2, THEN conjunct2, rule_format]
  have len: "length sss = length ps'" using L(2) by auto
  have pre: "ps' ! j = ps ! j" if "j < length ps" for j using I that by (auto simp: nth_append)
  have at: "slot_map ps' s2 (rid_at (ps' ! j) m) = sss ! j ! m" if "j < length ps'" "m < length (sss ! j)" for j m
    using slot_map_nth [OF that(1) d', of m s2] that L(2) by simp
  have old: "slot_map ps s (rid_at (ps ! j) m) = map (slots_at s) ps ! j ! m" if "j < length ps" "m < length (map (slots_at s) ps ! j)" for j m
    using slot_map_nth [OF that(1) ch(2) that(2)] .
  have fresh: "slot_map ps s ?rid = Free"
  proof (rule ccontr)
    assume nf: "slot_map ps s ?rid \<noteq> Free"
    then obtain j m where j: "j < length ps" "m < length (map (slots_at s) ps ! j)" "?rid = rid_at (ps ! j) m"
      by (rule slot_map_index)
    then have "ps' ! k = ps' ! j" and mi: "m = i" using pre by (auto simp: rid_at_def)
    moreover have "j < length ps'" using j(1) I by auto
    ultimately have "k = j" using nth_eq_iff_index_eq [OF d' L(3)] by blast
    then have "k < length (map (slots_at s) ps)" "i < length (map (slots_at s) ps ! k)" using j(1,2) mi by simp_all
    then have "map (slots_at s) ps ! k ! i = Free" using A2 by blast
    then have "slot_map ps s (rid_at (ps ! j) m) = Free" using old [OF j(1,2)] mi \<open>k = j\<close> by simp
    then show False using nf j(3) by simp
  qed
  have "slot_map ps' s2 r = ((slot_map ps s)(?rid := Live bs)) r" for r
  proof (cases "r = ?rid")
    case True
    then show ?thesis using at [OF L(3) A1(1)] A1(2) by simp
  next
    case False
    show ?thesis
    proof (cases "slot_map ps' s2 r = Free \<and> slot_map ps s r = Free")
      case nf: False
      have "\<exists>j m. j < length ps \<and> m < length (map (slots_at s) ps ! j) \<and> r = rid_at (ps ! j) m \<and>
        j < length ps' \<and> m < length (sss ! j) \<and> sss ! j ! m = map (slots_at s) ps ! j ! m"
      proof (cases "slot_map ps s r = Free")
        case True
        then have "slot_map ps' s2 r \<noteq> Free" using nf by blast
        then obtain j m where j: "j < length ps'" "m < length (map (slots_at s2) ps' ! j)" "r = rid_at (ps' ! j) m"
          by (rule slot_map_index)
        have "(j, m) \<noteq> (k, i)" using False j(3) by auto
        then have "j < length ps" "m < length (map (slots_at s) ps ! j)" "sss ! j ! m = map (slots_at s) ps ! j ! m"
          using A3 [of j m] j(1,2) L(2) len by auto
        moreover have "r = rid_at (ps ! j) m" using j(3) pre [OF calculation(1)] by simp
        ultimately show ?thesis using j(1,2) L(2) by blast
      next
        case nf': False
        then obtain j m where j: "j < length ps" "m < length (map (slots_at s) ps ! j)" "r = rid_at (ps ! j) m"
          by (rule slot_map_index)
        have "(j, m) \<noteq> (k, i)" using False j pre by auto
        moreover have "j < length sss" "m < length (sss ! j)" using A4 [of j m] j(1,2) by auto
        ultimately have "sss ! j ! m = map (slots_at s) ps ! j ! m" using A3 [of j m] by blast
        then show ?thesis using j \<open>j < length sss\<close> \<open>m < length (sss ! j)\<close> len
          by (intro exI [of _ j] exI [of _ m]) simp
      qed
      then obtain j m where j: "j < length ps" "m < length (map (slots_at s) ps ! j)" "r = rid_at (ps ! j) m"
        "j < length ps'" "m < length (sss ! j)" "sss ! j ! m = map (slots_at s) ps ! j ! m" by blast
      then show ?thesis using at [OF j(4,5)] old [OF j(1,2)] pre [OF j(1)] False by simp
    qed (use False in simp)
  qed
  then have "slot_map ps' s2 = (slot_map ps s)(?rid := Live bs)" by (rule ext)
  moreover have "next_id s2 \<le> next_id s + 1" "set ps \<subseteq> set ps'" "txn_m s2 = txn_m s" "pins s2 = pins s" "latch s2 = latch s"
    using I by auto
  moreover have "rid_page_id ?rid \<in> set ps'" "0 \<le> slot_num ?rid" using L(3) by simp_all
  moreover have "undisturbed s s2"
  proof -
    have "contents s p \<noteq> None \<or> next_id s \<le> p" if "contents s2 p \<noteq> None" for p
      using that I chain_ids [OF ch(1), of p] by (cases "p \<in> set ps'") auto
    then show ?thesis using I by (auto simp: undisturbed_def)
  qed
  ultimately show ?thesis using run inv fresh by blast
qed

section \<open>Runs of a transaction\<close>

text \<open>What a transaction asks of a heap; the tuples it writes own their bytes.\<close>

datatype txn_call = TInsert bytes | TDelete RID | TUpdate RID bytes

definition txn_step :: "page_id \<Rightarrow> txn_call \<Rightarrow> table_state \<Rightarrow> (RID \<times> table_state) option" where
  "txn_step table c s = (case c of
     TInsert bs \<Rightarrow> do { (_, rid, s) \<leftarrow> th_InsertTuple False table (tuple_of bs) RID_default s; Some (rid, s) }
   | TDelete rid \<Rightarrow> do { (_, s) \<leftarrow> th_MarkDelete False table rid s; Some (rid, s) }
   | TUpdate rid bs \<Rightarrow> do { (_, s) \<leftarrow> th_UpdateTuple False table (tuple_of bs) rid s; Some (rid, s) })"

fun txn_run :: "page_id \<Rightarrow> txn_call list \<Rightarrow> table_state \<Rightarrow> (RID list \<times> table_state) option" where
  "txn_run table [] s = Some ([], s)"
| "txn_run table (c # cs) s =
     do { (rid, s) \<leftarrow> txn_step table c s; (rids, s) \<leftarrow> txn_run table cs s; Some (rid # rids, s) }"

text \<open>The same calls on the slots, given the record ids they were answered with.\<close>

fun map_call :: "txn_call \<Rightarrow> RID \<Rightarrow> (RID \<Rightarrow> slot) \<Rightarrow> (RID \<Rightarrow> slot)" where
  "map_call (TInsert bs) rid m = m(rid := Live bs)"
| "map_call (TDelete _) rid m = m(rid := mark (m rid))"
| "map_call (TUpdate _ bs) rid m = m(rid := Live bs)"

text \<open>Calls whose effect the heap can take back: a delete or update is of a live tuple, and an update
  keeps the length.\<close>

fun call_ok :: "txn_call \<Rightarrow> (RID \<Rightarrow> slot) \<Rightarrow> bool" where
  "call_ok (TInsert bs) m = (bs \<noteq> [] \<and> length bs \<le> 480)"
| "call_ok (TDelete rid) m = (live_bytes (m rid) \<noteq> None)"
| "call_ok (TUpdate rid bs) m = (bs \<noteq> [] \<and> live_bytes (m rid) \<noteq> None \<and> length bs = length (slot_bytes (m rid)))"

fun calls_ok :: "txn_call list \<Rightarrow> RID list \<Rightarrow> (RID \<Rightarrow> slot) \<Rightarrow> bool" where
  "calls_ok (c # cs) (rid # rids) m = (call_ok c m \<and> calls_ok cs rids (map_call c rid m))"
| "calls_ok _ _ m = True"

text \<open>What aborting does with a record of the write set.\<close>

definition undo :: "WriteRecord \<Rightarrow> (RID \<Rightarrow> slot) \<Rightarrow> (RID \<Rightarrow> slot)" where
  "undo w m = m(rid_w w := (case wtype_w w of
     DELETE \<Rightarrow> unmark (m (rid_w w)) | INSERT \<Rightarrow> Free | UPDATE \<Rightarrow> Live (the (data_t (tuple_w w)))))"

definition undo_ok :: "WriteRecord \<Rightarrow> (RID \<Rightarrow> slot) \<Rightarrow> bool" where
  "undo_ok w m \<longleftrightarrow> m (rid_w w) \<noteq> Free \<and> (wtype_w w = UPDATE \<longrightarrow>
     (\<exists>bs old. m (rid_w w) = Live old \<and> holds (tuple_w w) bs \<and> bs \<noteq> [] \<and> length bs = length old))"

fun undo_all :: "WriteRecord list \<Rightarrow> (RID \<Rightarrow> slot) \<Rightarrow> (RID \<Rightarrow> slot)" where
  "undo_all [] m = m"
| "undo_all (w # ws) m = undo_all ws (undo w m)"

fun undo_all_ok :: "WriteRecord list \<Rightarrow> (RID \<Rightarrow> slot) \<Rightarrow> bool" where
  "undo_all_ok [] m = True"
| "undo_all_ok (w # ws) m = (undo_ok w m \<and> undo_all_ok ws (undo w m))"

lemma txn_step_map:
  assumes h: "heap_inv table ps s" and c: "call_ok c (slot_map ps s)" and n: "next_id s < 2 ^ 31"
    and a: "state_t (txn_m s) \<noteq> ABORTED"
  shows "\<exists>rid ps' s' w. txn_step table c s = Some (rid, s') \<and> heap_inv table ps' s' \<and>
    slot_map ps' s' = map_call c rid (slot_map ps s) \<and> next_id s' \<le> next_id s + 1 \<and>
    txn_m s' = (txn_m s)\<lparr>write_set := write_set (txn_m s) @ [w]\<rparr> \<and> rid_w w = rid \<and>
    wtype_w w = (case c of TInsert _ \<Rightarrow> INSERT | TDelete _ \<Rightarrow> DELETE | TUpdate _ _ \<Rightarrow> UPDATE) \<and>
    (case c of TInsert _ \<Rightarrow> slot_map ps s rid = Free | TDelete r \<Rightarrow> r = rid | TUpdate r _ \<Rightarrow> r = rid) \<and>
    undo w (slot_map ps' s') = slot_map ps s \<and> undo_ok w (slot_map ps' s')"
proof (cases c)
  case (TInsert bs)
  obtain rid ps' s' where r: "th_InsertTuple False table (tuple_of bs) RID_default s =
      Some (True, rid, set_txn (add_write rid INSERT Tuple_default table (txn_m s)) s')"
    "heap_inv table ps' s'" "slot_map ps s rid = Free" "slot_map ps' s' = (slot_map ps s)(rid := Live bs)"
    "txn_m s' = txn_m s" "next_id s' \<le> next_id s + 1"
    using th_InsertTuple_map [OF h holds_tuple_of, of bs RID_default] c n TInsert by auto
  let ?s = "set_txn (add_write rid INSERT Tuple_default table (txn_m s)) s'"
  show ?thesis
    using r by (intro exI [of _ rid] exI [of _ ps'] exI [of _ ?s] exI [of _ "last (write_set (txn_m ?s))"])
      (simp add: TInsert txn_step_def add_write_def undo_def undo_ok_def fun_upd_idem)
next
  case (TDelete rid)
  then obtain bs where bs: "slot_map ps s rid = Live bs" using c by (auto simp: live_bytes_Some)
  obtain s' where r: "th_MarkDelete False table rid s = Some (True, set_txn (add_write rid DELETE Tuple_default table (txn_m s)) s')"
    "heap_inv table ps s'" "slot_map ps s' = (slot_map ps s)(rid := Dead bs)" "txn_m s' = txn_m s" "next_id s' = next_id s"
    using th_MarkDelete_map [OF h bs] by blast
  let ?s = "set_txn (add_write rid DELETE Tuple_default table (txn_m s)) s'"
  show ?thesis
    using r bs by (intro exI [of _ rid] exI [of _ ps] exI [of _ ?s] exI [of _ "last (write_set (txn_m ?s))"])
      (simp add: TDelete txn_step_def add_write_def undo_def undo_ok_def fun_upd_idem)
next
  case (TUpdate rid bs)
  then obtain old where old: "slot_map ps s rid = Live old" using c by (auto simp: live_bytes_Some)
  have bs: "bs \<noteq> []" "length bs = length old" using c TUpdate old by auto
  let ?t = "\<lparr>allocated_m = True, rid_m = rid, size_m = int (length old), data_t = Some old\<rparr>"
  obtain s' where r: "th_UpdateTuple False table (tuple_of bs) rid s = Some (True, set_txn (add_write rid UPDATE ?t table (txn_m s)) s')"
    "heap_inv table ps s'" "slot_map ps s' = (slot_map ps s)(rid := Live bs)" "txn_m s' = txn_m s" "next_id s' = next_id s"
    using th_UpdateTuple_map [OF h old holds_tuple_of bs, of table] a by auto
  let ?s = "set_txn (add_write rid UPDATE ?t table (txn_m s)) s'"
  have "old \<noteq> []" using bs by auto
  then show ?thesis
    using r bs old by (intro exI [of _ rid] exI [of _ ps] exI [of _ ?s] exI [of _ "last (write_set (txn_m ?s))"])
      (simp add: TUpdate txn_step_def add_write_def undo_def undo_ok_def fun_upd_idem Tuple_copy_def holds_def)
qed

section \<open>Abort and commit\<close>

lemma pop_write_eq: "pop_write s = set_txn ((txn_m s)\<lparr>write_set := butlast (write_set (txn_m s))\<rparr>) s"
  by (simp add: pop_write_def set_txn_def)

lemma abort_item:
  assumes h: "heap_inv table ps s" and a: "state_t (txn_m s) = ABORTED" and ok: "undo_ok w (slot_map ps s)"
  shows "\<exists>s'. (if wtype_w w = DELETE then th_RollbackDelete False (rid_w w) s
      else if wtype_w w = INSERT then th_ApplyDelete False (rid_w w) s
      else do { (_, s) \<leftarrow> th_UpdateTuple False (table_w w) (tuple_w w) (rid_w w) s; Some s }) = Some s' \<and>
    heap_inv table ps s' \<and> slot_map ps s' = undo w (slot_map ps s) \<and> txn_m s' = txn_m s"
proof (cases "wtype_w w")
  case INSERT
  then show ?thesis using th_ApplyDelete_map [OF h, of "rid_w w"] ok by (auto simp: undo_def undo_ok_def)
next
  case DELETE
  then show ?thesis using th_RollbackDelete_map [OF h, of "rid_w w"] ok by (auto simp: undo_def undo_ok_def)
next
  case UPDATE
  then obtain bs old where o: "slot_map ps s (rid_w w) = Live old" "holds (tuple_w w) bs" "bs \<noteq> []" "length bs = length old"
    using ok by (auto simp: undo_ok_def)
  from th_UpdateTuple_map [OF h this, of "table_w w"] obtain s' where
    "th_UpdateTuple False (table_w w) (tuple_w w) (rid_w w) s = Some (True, set_txn (txn_m s) s')"
    "heap_inv table ps s'" "slot_map ps s' = (slot_map ps s)(rid_w w := Live bs)" "txn_m s' = txn_m s"
    using a by auto
  then show ?thesis using UPDATE o(2) by (intro exI [of _ "set_txn (txn_m s) s'"]) (simp add: undo_def holds_def)
qed

lemma abort_loop_map:
  assumes "heap_inv table ps s" and "write_set (txn_m s) = rev ws" and "state_t (txn_m s) = ABORTED"
    and "undo_all_ok ws (slot_map ps s)"
  shows "\<exists>s'. abort_loop False s = Some s' \<and> heap_inv table ps s' \<and> slot_map ps s' = undo_all ws (slot_map ps s) \<and>
    txn_m s' = (txn_m s)\<lparr>write_set := []\<rparr>"
  using assms
proof (induction ws arbitrary: s)
  case Nil
  then show ?case by (subst abort_loop.simps) simp
next
  case (Cons w ws)
  obtain s1 where s1: "(if wtype_w w = DELETE then th_RollbackDelete False (rid_w w) s
      else if wtype_w w = INSERT then th_ApplyDelete False (rid_w w) s
      else do { (_, s) \<leftarrow> th_UpdateTuple False (table_w w) (tuple_w w) (rid_w w) s; Some s }) = Some s1"
    "heap_inv table ps s1" "slot_map ps s1 = undo w (slot_map ps s)" "txn_m s1 = txn_m s"
    using abort_item [OF Cons.prems(1,3)] Cons.prems(4) by auto
  have step: "abort_loop False s = abort_loop False (pop_write s1)"
    using Cons.prems(2) s1(1) by (subst abort_loop.simps) (simp add: Let_def)
  have "heap_inv table ps (pop_write s1)" "write_set (txn_m (pop_write s1)) = rev ws" "state_t (txn_m (pop_write s1)) = ABORTED"
    "undo_all_ok ws (slot_map ps (pop_write s1))"
    using s1(2-4) Cons.prems(2-4) by (simp_all add: pop_write_eq)
  from Cons.IH [OF this] show ?case using step s1(3,4) by (simp add: pop_write_eq)
qed

lemma release_locks_same: "release_locks s = s"
proof -
  have "fold (\<lambda>rid s. set_txn (snd (LockManager_Unlock (txn_m s) rid)) s) rids s = s" for rids
    by (induction rids) (simp_all add: LockManager_Unlock_def)
  then show ?thesis by (simp add: release_locks_def)
qed

text \<open>A run keeps the heap and logs how to take it back.\<close>

lemma txn_run_undo:
  assumes "heap_inv table ps s" and "txn_run table cs s = Some (rids, s')" and "calls_ok cs rids (slot_map ps s)"
    and "next_id s + int (length cs) \<le> 2 ^ 31" and "state_t (txn_m s) \<noteq> ABORTED"
  shows "\<exists>ps' ws. heap_inv table ps' s' \<and> txn_m s' = (txn_m s)\<lparr>write_set := write_set (txn_m s) @ rev ws\<rparr> \<and>
    undo_all ws (slot_map ps' s') = slot_map ps s \<and> undo_all_ok ws (slot_map ps' s')"
  using assms
proof (induction cs arbitrary: s ps rids)
  case Nil
  then show ?case by (intro exI [of _ ps] exI [of _ "[]"]) auto
next
  case (Cons c cs)
  obtain rid s1 rids' where r: "txn_step table c s = Some (rid, s1)" "txn_run table cs s1 = Some (rids', s')" "rids = rid # rids'"
    using Cons.prems(2) by (auto simp: bind_Some_iff split: prod.splits)
  have c: "call_ok c (slot_map ps s)" "next_id s < 2 ^ 31" using Cons.prems(3,4) r(3) by auto
  from txn_step_map [OF Cons.prems(1) c Cons.prems(5)] r(1) obtain ps1 w where
    w: "heap_inv table ps1 s1" "slot_map ps1 s1 = map_call c rid (slot_map ps s)" "next_id s1 \<le> next_id s + 1"
    "txn_m s1 = (txn_m s)\<lparr>write_set := write_set (txn_m s) @ [w]\<rparr>" "undo w (slot_map ps1 s1) = slot_map ps s"
    "undo_ok w (slot_map ps1 s1)" by auto
  have "calls_ok cs rids' (slot_map ps1 s1)" "next_id s1 + int (length cs) \<le> 2 ^ 31" "state_t (txn_m s1) \<noteq> ABORTED"
    using Cons.prems(3-5) r(3) w by auto
  from Cons.IH [OF w(1) r(2) this] obtain ps' ws where
    x: "heap_inv table ps' s'" "txn_m s' = (txn_m s1)\<lparr>write_set := write_set (txn_m s1) @ rev ws\<rparr>"
    "undo_all ws (slot_map ps' s') = slot_map ps1 s1" "undo_all_ok ws (slot_map ps' s')" by blast
  have "undo_all (ws @ [w]) m = undo w (undo_all ws m)" "undo_all_ok (ws @ [w]) m = (undo_all_ok ws m \<and> undo_ok w (undo_all ws m))" for m
    by (induction ws arbitrary: m) auto
  then show ?case using x w by (intro exI [of _ ps'] exI [of _ "ws @ [w]"]) simp
qed

text \<open>The heap before a transaction: the transaction is new, and there are page ids left.\<close>

definition txn_start :: "page_id \<Rightarrow> page_id list \<Rightarrow> nat \<Rightarrow> table_state \<Rightarrow> bool" where
  "txn_start table ps n s \<longleftrightarrow> heap_inv table ps s \<and> write_set (txn_m s) = [] \<and> state_t (txn_m s) \<noteq> ABORTED \<and>
     next_id s + int n \<le> 2 ^ 31"

lemma tm_Abort_restores:
  assumes "txn_start table ps (length cs) s" and "txn_run table cs s = Some (rids, s')"
    and "calls_ok cs rids (slot_map ps s)"
  shows "\<exists>ps' s''. tm_Abort False s' = Some s'' \<and> heap_inv table ps' s'' \<and> slot_map ps' s'' = slot_map ps s \<and>
    write_set (txn_m s'') = [] \<and> state_t (txn_m s'') = ABORTED"
proof -
  obtain ps' ws where r: "heap_inv table ps' s'" "txn_m s' = (txn_m s)\<lparr>write_set := rev ws\<rparr>"
    "undo_all ws (slot_map ps' s') = slot_map ps s" "undo_all_ok ws (slot_map ps' s')"
    using txn_run_undo [OF _ assms(2,3)] assms(1) by (auto simp: txn_start_def)
  let ?s = "set_txn (SetState ABORTED (txn_m s')) s'"
  have "heap_inv table ps' ?s" "write_set (txn_m ?s) = rev ws" "state_t (txn_m ?s) = ABORTED"
    "undo_all_ok ws (slot_map ps' ?s)" using r by (simp_all add: SetState_def)
  from abort_loop_map [OF this] obtain s1 where s1: "abort_loop False ?s = Some s1" "heap_inv table ps' s1"
    "slot_map ps' s1 = slot_map ps s" "txn_m s1 = (txn_m ?s)\<lparr>write_set := []\<rparr>" using r(3) by auto
  then have "tm_Abort False s' = Some (set_txn ((txn_m s1)\<lparr>write_set := []\<rparr>) s1)"
    by (simp add: tm_Abort_def release_locks_same)
  then show ?thesis using s1 by (auto simp: SetState_def)
qed

section \<open>Commit\<close>

text \<open>The live tuples as a map, and the calls on it.\<close>

definition live_map :: "(RID \<Rightarrow> slot) \<Rightarrow> RID \<Rightarrow> bytes option" where
  "live_map m rid = live_bytes (m rid)"

fun tuple_call :: "txn_call \<Rightarrow> RID \<Rightarrow> (RID \<Rightarrow> bytes option) \<Rightarrow> (RID \<Rightarrow> bytes option)" where
  "tuple_call (TInsert bs) rid m = m(rid \<mapsto> bs)"
| "tuple_call (TDelete _) rid m = m(rid := None)"
| "tuple_call (TUpdate _ bs) rid m = m(rid \<mapsto> bs)"

definition deleted_rids :: "WriteRecord list \<Rightarrow> RID list" where
  "deleted_rids ws = map rid_w (filter (\<lambda>w. wtype_w w = DELETE) ws)"

lemma commit_loop_map:
  assumes "heap_inv table ps s" and "write_set (txn_m s) = rev ws" and "distinct (deleted_rids ws)"
    and "\<forall>rid \<in> set (deleted_rids ws). slot_map ps s rid \<noteq> Free"
  shows "\<exists>s'. commit_loop False s = Some s' \<and> heap_inv table ps s' \<and>
    slot_map ps s' = (\<lambda>rid. if rid \<in> set (deleted_rids ws) then Free else slot_map ps s rid) \<and>
    txn_m s' = (txn_m s)\<lparr>write_set := []\<rparr> \<and> undisturbed s s'"
  using assms
proof (induction ws arbitrary: s)
  case Nil
  then show ?case by (subst commit_loop.simps) (simp add: deleted_rids_def)
next
  case (Cons w ws)
  have nf: "wtype_w w = DELETE \<Longrightarrow> slot_map ps s (rid_w w) \<noteq> Free" using Cons.prems(4) by (simp add: deleted_rids_def)
  obtain s1 where s1: "(if wtype_w w = DELETE then th_ApplyDelete False (rid_w w) s else Some s) = Some s1"
    "heap_inv table ps s1" "slot_map ps s1 = (if wtype_w w = DELETE then (slot_map ps s)(rid_w w := Free) else slot_map ps s)"
    "txn_m s1 = txn_m s" "undisturbed s s1"
    using th_ApplyDelete_map [OF Cons.prems(1) nf] Cons.prems(1) by (cases "wtype_w w = DELETE") auto
  have step: "commit_loop False s = commit_loop False (pop_write s1)"
    using Cons.prems(2) s1(1) by (subst commit_loop.simps) (simp add: Let_def)
  have dl: "deleted_rids (w # ws) = (if wtype_w w = DELETE then rid_w w # deleted_rids ws else deleted_rids ws)"
    by (simp add: deleted_rids_def)
  have "slot_map ps (pop_write s1) rid \<noteq> Free" if "rid \<in> set (deleted_rids ws)" for rid
    using that s1(3) Cons.prems(3,4) by (auto simp: pop_write_eq dl split: if_splits)
  then have "heap_inv table ps (pop_write s1)" "write_set (txn_m (pop_write s1)) = rev ws"
    "distinct (deleted_rids ws)" "\<forall>rid \<in> set (deleted_rids ws). slot_map ps (pop_write s1) rid \<noteq> Free"
    using s1(2,4) Cons.prems(2,3) by (auto simp: pop_write_eq dl split: if_splits)
  from Cons.IH [OF this] obtain s' where s': "commit_loop False (pop_write s1) = Some s'" "heap_inv table ps s'"
    "slot_map ps s' = (\<lambda>rid. if rid \<in> set (deleted_rids ws) then Free else slot_map ps (pop_write s1) rid)"
    "txn_m s' = (txn_m (pop_write s1))\<lparr>write_set := []\<rparr>" "undisturbed (pop_write s1) s'" by blast
  have "undisturbed s s'" using undisturbed_trans [OF s1(5)] s'(5) by (simp add: pop_write_eq)
  then show ?case using step s1(3,4) s'
    by (auto simp: pop_write_eq deleted_rids_def fun_eq_iff)
qed

fun tuple_run :: "txn_call list \<Rightarrow> RID list \<Rightarrow> (RID \<Rightarrow> bytes option) \<Rightarrow> (RID \<Rightarrow> bytes option)" where
  "tuple_run (c # cs) (rid # rids) m = tuple_run cs rids (tuple_call c rid m)"
| "tuple_run _ _ m = m"

lemma live_map_call: "live_map (map_call c rid m) = tuple_call c rid (live_map m)"
  by (cases c; cases "m rid") (auto simp: live_map_def fun_eq_iff)

lemma txn_run_deleted:
  assumes "heap_inv table ps s" and "txn_run table cs s = Some (rids, s')" and "calls_ok cs rids (slot_map ps s)"
    and "next_id s + int (length cs) \<le> 2 ^ 31" and "state_t (txn_m s) \<noteq> ABORTED"
    and "distinct (deleted_rids (write_set (txn_m s)))"
    and "\<forall>rid. is_dead (slot_map ps s rid) \<longleftrightarrow> rid \<in> set (deleted_rids (write_set (txn_m s)))"
  shows "\<exists>ps'. heap_inv table ps' s' \<and> distinct (deleted_rids (write_set (txn_m s'))) \<and>
    (\<forall>rid. is_dead (slot_map ps' s' rid) \<longleftrightarrow> rid \<in> set (deleted_rids (write_set (txn_m s')))) \<and>
    live_map (slot_map ps' s') = tuple_run cs rids (live_map (slot_map ps s))"
  using assms
proof (induction cs arbitrary: s ps rids)
  case Nil
  then show ?case by (intro exI [of _ ps]) auto
next
  case (Cons c cs)
  obtain rid s1 rids' where r: "txn_step table c s = Some (rid, s1)" "txn_run table cs s1 = Some (rids', s')" "rids = rid # rids'"
    using Cons.prems(2) by (auto simp: bind_Some_iff split: prod.splits)
  have c: "call_ok c (slot_map ps s)" "next_id s < 2 ^ 31" using Cons.prems(3,4) r(3) by auto
  from txn_step_map [OF Cons.prems(1) c Cons.prems(5)] r(1) obtain ps1 w where
    w: "heap_inv table ps1 s1" "slot_map ps1 s1 = map_call c rid (slot_map ps s)" "next_id s1 \<le> next_id s + 1"
    "txn_m s1 = (txn_m s)\<lparr>write_set := write_set (txn_m s) @ [w]\<rparr>" "rid_w w = rid"
    "wtype_w w = (case c of TInsert _ \<Rightarrow> INSERT | TDelete _ \<Rightarrow> DELETE | TUpdate _ _ \<Rightarrow> UPDATE)"
    "case c of TInsert _ \<Rightarrow> slot_map ps s rid = Free | TDelete r \<Rightarrow> r = rid | TUpdate r _ \<Rightarrow> r = rid" by auto
  have live: "live_bytes (slot_map ps s rid) \<noteq> None \<or> slot_map ps s rid = Free" using c(1) w(7) by (cases c) auto
  then have nd: "\<not> is_dead (slot_map ps s rid)" by (cases "slot_map ps s rid") auto
  have dl: "deleted_rids (write_set (txn_m s1)) = deleted_rids (write_set (txn_m s)) @ (if wtype_w w = DELETE then [rid] else [])"
    using w(4,5) by (simp add: deleted_rids_def)
  have "distinct (deleted_rids (write_set (txn_m s1)))" using Cons.prems(6,7) nd dl by auto
  moreover have "is_dead (slot_map ps1 s1 r) \<longleftrightarrow> r \<in> set (deleted_rids (write_set (txn_m s1)))" for r
    using Cons.prems(7) nd dl w(6,7) c(1) w(2) by (cases c) (auto simp: live_bytes_Some)
  moreover have "calls_ok cs rids' (slot_map ps1 s1)" "next_id s1 + int (length cs) \<le> 2 ^ 31" "state_t (txn_m s1) \<noteq> ABORTED"
    using Cons.prems(3-5) r(3) w by auto
  ultimately obtain ps' where "heap_inv table ps' s'" "distinct (deleted_rids (write_set (txn_m s')))"
    "\<forall>rid. is_dead (slot_map ps' s' rid) \<longleftrightarrow> rid \<in> set (deleted_rids (write_set (txn_m s')))"
    "live_map (slot_map ps' s') = tuple_run cs rids' (live_map (slot_map ps1 s1))"
    using Cons.IH [OF w(1) r(2)] by blast
  then show ?case using r(3) w(2) by (auto simp: live_map_call)
qed

lemma tm_Commit_map:
  assumes h: "heap_inv table ps s" and d: "distinct (deleted_rids (write_set (txn_m s)))"
    and dead: "\<forall>rid. is_dead (slot_map ps s rid) \<longleftrightarrow> rid \<in> set (deleted_rids (write_set (txn_m s)))"
  shows "\<exists>s'. tm_Commit False s = Some s' \<and> heap_inv table ps s' \<and> (\<forall>rid. \<not> is_dead (slot_map ps s' rid)) \<and>
    live_map (slot_map ps s') = live_map (slot_map ps s) \<and> write_set (txn_m s') = [] \<and> state_t (txn_m s') = COMMITTED \<and> undisturbed s s'"
proof -
  let ?s = "set_txn (SetState COMMITTED (txn_m s)) s"
  let ?ws = "rev (write_set (txn_m s))"
  have dr: "deleted_rids ?ws = rev (deleted_rids (write_set (txn_m s)))" by (simp add: deleted_rids_def rev_filter rev_map)
  have "heap_inv table ps ?s" "write_set (txn_m ?s) = rev ?ws" "distinct (deleted_rids ?ws)"
    using h d by (simp_all add: SetState_def dr)
  moreover have "\<forall>rid \<in> set (deleted_rids ?ws). slot_map ps ?s rid \<noteq> Free"
  proof
    fix rid assume "rid \<in> set (deleted_rids ?ws)"
    then have "is_dead (slot_map ps s rid)" using dead by (simp add: dr)
    then show "slot_map ps ?s rid \<noteq> Free" by (cases "slot_map ps s rid") auto
  qed
  ultimately obtain s1 where s1: "commit_loop False ?s = Some s1" "heap_inv table ps s1"
    "slot_map ps s1 = (\<lambda>rid. if rid \<in> set (deleted_rids ?ws) then Free else slot_map ps ?s rid)"
    "txn_m s1 = (txn_m ?s)\<lparr>write_set := []\<rparr>" "undisturbed ?s s1"
    using commit_loop_map by blast
  let ?s2 = "set_txn ((txn_m s1)\<lparr>write_set := []\<rparr>) s1"
  have run: "tm_Commit False s = Some ?s2" using s1(1) by (simp add: tm_Commit_def release_locks_same)
  have nd: "\<not> is_dead (slot_map ps ?s2 rid)" for rid using dead s1(3) by (simp add: dr)
  have "live_map (slot_map ps ?s2) = live_map (slot_map ps s)"
  proof
    fix rid
    show "live_map (slot_map ps ?s2) rid = live_map (slot_map ps s) rid"
      using dead [rule_format, of rid] s1(3) by (cases "slot_map ps s rid") (simp_all add: live_map_def dr)
  qed
  then show ?thesis using run s1(2,4,5) nd by (auto simp: SetState_def)
qed

lemma tm_Commit_applies:
  assumes "txn_start table ps (length cs) s" and "txn_run table cs s = Some (rids, s')"
    and "calls_ok cs rids (slot_map ps s)" and "\<forall>rid. \<not> is_dead (slot_map ps s rid)"
  shows "\<exists>ps' s''. tm_Commit False s' = Some s'' \<and> heap_inv table ps' s'' \<and>
    (\<forall>rid. \<not> is_dead (slot_map ps' s'' rid)) \<and>
    live_map (slot_map ps' s'') = tuple_run cs rids (live_map (slot_map ps s)) \<and>
    write_set (txn_m s'') = [] \<and> state_t (txn_m s'') = COMMITTED"
proof -
  obtain ps' where r: "heap_inv table ps' s'" "distinct (deleted_rids (write_set (txn_m s')))"
    "\<forall>rid. is_dead (slot_map ps' s' rid) \<longleftrightarrow> rid \<in> set (deleted_rids (write_set (txn_m s')))"
    "live_map (slot_map ps' s') = tuple_run cs rids (live_map (slot_map ps s))"
    using txn_run_deleted [OF _ assms(2,3)] assms(1,4) by (auto simp: txn_start_def deleted_rids_def)
  from tm_Commit_map [OF r(1-3)] show ?thesis using r(4) by auto
qed

end
