(* ===== verification/TableScan.thy ===== *)
theory TableScan imports TableTxn begin

text \<open>
  Creating a heap, and scanning it with the iterator: a scan visits the live tuples in the order of
  the pages and slots, provided the first page has one.
\<close>

section \<open>A new heap\<close>

definition new_state :: "nat \<Rightarrow> table_state" where
  "new_state n = \<lparr>contents = Map.empty, pins = (\<lambda>_. 0), pending = {}, latch = (\<lambda>_. 0), next_id = 1,
     frames = n, txn_m = Transaction_new 0\<rparr>"

lemma heap_ok_new_state: "2 \<le> n \<Longrightarrow> heap_ok (new_state n)"
  by (simp add: heap_ok_def store_inv_def new_state_def pinned_count_def)

lemma th_create_inv:
  assumes ok: "heap_ok s" and n: "next_id s < 2 ^ 31"
  shows "\<exists>s'. th_create s = Some (next_id s, s') \<and> heap_inv (next_id s) [next_id s] s' \<and>
    slot_map [next_id s] s' = (\<lambda>_. Free) \<and> txn_m s' = txn_m s \<and> next_id s' = next_id s + 1 \<and> slots_at s' (next_id s) = []"
proof -
  define m where "m = next_id s"
  note N = heap_ok_new [OF ok, folded m_def]
  have v: "in_range_s 32 m" "in_range_s 32 INVALID_LSN" using N(5) n by (auto simp: m_def INVALID_LSN_def)
  obtain d where d: "tp_Init m PAGE_SIZE INVALID_LSN (replicate 512 0) = Some d" "tp_inv d" "tp_slots d = []" "get_int 0 d = m"
    "get_int 12 d = INVALID_PAGE_ID"
    using tp_Init_refines [OF _ v, of "replicate 512 0"] by (auto simp: PAGE_SIZE_def)
  define s' where "s' = s\<lparr>contents := (contents s)(m \<mapsto> d), next_id := m + 1\<rparr>"
  have "th_create s = Some (m, s')"
    using N d(1) heap_ok_not_full [OF ok]
    by (auto simp: th_create_def try_new_def st_new_def st_wlatch_def st_get_def st_put_def st_wunlatch_def st_unpin_def
      Let_def s'_def m_def intro!: state_eqI)
  moreover have "heap_page m s' d" using N d by (simp add: heap_page_def page_free_def s'_def)
  moreover have "heap_ok s'"
  proof -
    have inv: "store_inv s" using ok by (simp add: heap_ok_def)
    then have "store_inv s'" unfolding store_inv_def s'_def using N by (auto simp: m_def intro: add_nonneg_nonneg)
    moreover have "pinned_count s' = pinned_count s" by (rule pinned_count_same [OF inv]) (simp_all add: s'_def m_def)
    ultimately show ?thesis using ok by (auto simp: heap_ok_def s'_def split: if_splits)
  qed
  ultimately have "heap_inv m [m] s'" using d(5) by (simp add: heap_inv_def next_page_def) blast
  moreover have "slot_map [m] s' = (\<lambda>_. Free)" using d(3) by (simp add: slot_map_def slots_at_def s'_def fun_eq_iff)
  moreover have "slots_at s' m = []" using d(3) by (simp add: slots_at_def s'_def)
  ultimately show ?thesis using \<open>th_create s = Some (m, s')\<close> by (auto simp: s'_def m_def)
qed

section \<open>Steps of the iterator\<close>

lemma th_GetTuple_opened:
  assumes h: "heap_page p s d"
  shows "th_GetTuple False (rid_at p i) t (opened 1 p s) =
    (case (if i < length (tp_slots d) then live_bytes (tp_slots d ! i) else None) of
       Some bs \<Rightarrow> Some (True, \<lparr>allocated_m = True, rid_m = rid_at p i, size_m = int (length bs), data_t = Some bs\<rparr>, opened 1 p s)
     | None \<Rightarrow> Some (False, t, opened 1 p s))"
proof -
  note H = heap_pageD [OF h]
  note G = tp_GetTuple_refines [OF H(3), of "rid_at p i" i t "txn_m s", OF rid_at_simps(2)]
  define x where "x = (opened 1 p s)\<lparr>pins := (pins s)(p := 2), latch := (latch s)(p := 2)\<rparr>"
  have a: "(try_fetch p (opened 1 p s) \<bind> (\<lambda>(got, s). if \<not> got then Some (False, t, set_abort s) else st_rlatch p s \<bind> f)) = f x" for f
    using H(2) by (simp add: try_fetch_def st_fetch_def st_rlatch_def x_def)
  have b: "st_get p x = Some d" "txn_m x = txn_m s" "set_txn (txn_m s) x = x" using H(2)
    by (auto simp: st_get_def x_def intro!: state_eqI)
  have c: "(st_runlatch p x \<bind> (\<lambda>s. st_unpin p False s \<bind> f)) = f (opened 1 p s)" for f
  proof -
    have "(st_runlatch p x \<bind> st_unpin p False) = Some (opened 1 p s)"
      using H(1) by (auto simp: x_def st_runlatch_def st_unpin_def page_free_def intro!: state_eqI)
    moreover have "(st_runlatch p x \<bind> (\<lambda>s. st_unpin p False s \<bind> f)) = ((st_runlatch p x \<bind> st_unpin p False) \<bind> f)" by simp
    ultimately show ?thesis by simp
  qed
  show ?thesis by (simp add: th_GetTuple_def a b G c split: option.splits)
qed

lemma close_read_at:
  assumes "page_free p s" and "contents s p = Some d" and "tp_GetPageId d = Some p"
  shows "(st_runlatch p (opened 1 p s) \<bind> (\<lambda>s. unpin_at p False s \<bind> f)) = f s"
proof -
  have "(st_runlatch p (opened 1 p s) \<bind> unpin_at p False) = Some s"
    using assms by (auto simp: page_free_def store_defs unpin_at_def page_id_at_def intro!: state_eqI)
  moreover have "(st_runlatch p (opened 1 p s) \<bind> (\<lambda>s. unpin_at p False s \<bind> f)) =
    ((st_runlatch p (opened 1 p s) \<bind> unpin_at p False) \<bind> f)" by simp
  ultimately show ?thesis by simp
qed

text \<open>Going on to the next page while the current one is held.\<close>

lemma turn_page:
  assumes ok: "heap_ok s" and h: "heap_page p s d" and h': "heap_page q s e" and pq: "p \<noteq> q"
  shows "(try_fetch q (opened 1 p s) \<bind> (\<lambda>(got, s). st_runlatch p s \<bind> (\<lambda>s. unpin_at p False s \<bind>
    (\<lambda>s. assert_that got \<bind> (\<lambda>_. st_rlatch q s \<bind> f))))) = f (opened 1 q s)"
proof -
  note H = heap_pageD [OF h] and H' = heap_pageD [OF h']
  define x where "x = (opened 1 p s)\<lparr>pins := (pins s)(p := 1, q := 1)\<rparr>"
  have a: "try_fetch q (opened 1 p s) = Some (True, x)"
    using pinned_opened [OF ok, of 1 p] H'(1,2) pq by (auto simp: try_fetch_def st_fetch_def page_free_def x_def)
  have b: "(st_runlatch p x \<bind> unpin_at p False) = Some (s\<lparr>pins := (pins s)(q := 1)\<rparr>)"
    using H pq by (auto simp: x_def page_free_def store_defs unpin_at_def page_id_at_def intro!: state_eqI)
  have c: "st_rlatch q (s\<lparr>pins := (pins s)(q := 1)\<rparr>) = Some (opened 1 q s)" by (rule open_write(3) [OF H'(1)])
  have "(st_runlatch p x \<bind> (\<lambda>s. unpin_at p False s \<bind> g)) = ((st_runlatch p x \<bind> unpin_at p False) \<bind> g)" for g by simp
  note d = this [unfolded b, simplified]
  show ?thesis by (simp add: a c d)
qed

section \<open>The order of a scan\<close>

text \<open>The live slots of the pages behind the current position.\<close>

fun later :: "page_id list \<Rightarrow> table_state \<Rightarrow> (page_id \<times> nat) option" where
  "later [] s = None"
| "later (q # qs) s = (case next_live 0 (slots_at s q) of Some j \<Rightarrow> Some (q, j) | None \<Rightarrow> later qs s)"

definition position :: "(page_id \<times> nat) option \<Rightarrow> RID" where
  "position x = (case x of Some (p, i) \<Rightarrow> rid_at p i | None \<Rightarrow> RID_default)"

lemma RID_default_eq: "RID_default = \<lparr>rid_page_id = INVALID_PAGE_ID, slot_num = -1\<rparr>"
  by (simp add: RID_default_def)

lemma next_page_scan:
  assumes ok: "heap_ok s" and "chain (p # qs) s" and "distinct (p # qs)" and "rid = RID_default"
  shows "\<exists>r d. ti_next_page p rid (opened 1 p s) = Some (r, position (later qs s), opened 1 r s) \<and> heap_page r s d \<and>
    (\<forall>q j. later qs s = Some (q, j) \<longrightarrow> r = q)"
  using assms(2-4)
proof (induction qs arbitrary: p rid)
  case Nil
  then obtain d where d: "heap_page p s d" "next_page d = INVALID_PAGE_ID" by auto
  note H = heap_pageD [OF d(1)]
  have "ti_next_page p rid (opened 1 p s) = Some (p, rid, opened 1 p s)"
    by (subst ti_next_page.simps) (simp add: get_opened [OF H(1,2)] tp_GetNextPageId_inv [OF H(3)] d(2))
  then show ?case using d Nil by (auto simp: position_def)
next
  case (Cons q qs)
  obtain d where d: "heap_page p s d" "next_page d = q" "chain (q # qs) s" using Cons.prems by auto
  note H = heap_pageD [OF d(1)]
  obtain e where e: "heap_page q s e" using d(3) by auto
  note E = heap_pageD [OF e]
  have sl: "slots_at s q = tp_slots e" using E(2) by (simp add: slots_at_def)
  have pq: "p \<noteq> q" using Cons.prems(2) by auto
  have nq: "q \<noteq> INVALID_PAGE_ID"
    using E(2) ok by (force simp: heap_ok_def store_inv_def INVALID_PAGE_ID_def)
  note F = tp_GetFirstTupleRid_refines [OF E(3), of rid]
  have step: "ti_next_page p rid (opened 1 p s) = do { (found, rid) \<leftarrow> tp_GetFirstTupleRid rid e;
      if found then Some (q, rid, opened 1 q s) else ti_next_page q rid (opened 1 q s) }"
    by (subst ti_next_page.simps) (simp add: get_opened [OF H(1,2)] tp_GetNextPageId_inv [OF H(3)] d(2) nq
      turn_page [OF ok d(1) e pq] get_opened [OF E(1,2)])
  show ?case
  proof (cases "next_live 0 (tp_slots e)")
    case (Some j)
    then show ?thesis using step F E(4) e by (intro exI [of _ q] exI [of _ e]) (simp add: sl position_def rid_at_def)
  next
    case None
    have "ti_next_page p rid (opened 1 p s) = ti_next_page q RID_default (opened 1 q s)"
      using step F None by (simp add: RID_default_eq)
    then show ?thesis using Cons.IH [OF d(3) _ refl] Cons.prems(2) None by (simp add: sl)
  qed
qed

text \<open>The iterator at a position: its id, and the tuple copied out when there is one.\<close>

definition iter_at :: "page_id \<Rightarrow> table_state \<Rightarrow> (page_id \<times> nat) option \<Rightarrow> table_iterator \<Rightarrow> bool" where
  "iter_at table s pos it \<longleftrightarrow> heap_i it = table \<and> rid_m (tuple_i it) = position pos \<and>
     (case pos of None \<Rightarrow> True | Some (p, i) \<Rightarrow> data_t (tuple_i it) = live_bytes (slots_at s p ! i))"

lemma RID_Get_position:
  "0 \<le> p \<Longrightarrow> p < 2 ^ 31 \<Longrightarrow> RID_Get (rid_at p i) \<noteq> RID_Get \<lparr>rid_page_id = INVALID_PAGE_ID, slot_num = -1\<rparr>"
proof -
  assume p: "0 \<le> p" "p < 2 ^ 31"
  have "wrap_s 64 (p * 2 ^ 32) = p * 2 ^ 32" using p by (intro wrap_s_id) auto
  then have "0 \<le> RID_Get (rid_at p i)" using p(1) by (simp add: RID_Get_def)
  moreover have "RID_Get \<lparr>rid_page_id = INVALID_PAGE_ID, slot_num = -1\<rparr> = - 1" by (simp add: RID_Get_def)
  ultimately show ?thesis by simp
qed

lemma ti_eq_end:
  assumes "heap_ok s" and "next_id s \<le> 2 ^ 31" and "iter_at table s pos it" and "\<And>p i. pos = Some (p, i) \<Longrightarrow> contents s p \<noteq> None"
  shows "ti_eq it (th_end table) \<longleftrightarrow> pos = None"
proof (cases pos)
  case None
  then show ?thesis using assms(3) by (simp add: iter_at_def ti_eq_def th_end_def Tuple_of_rid_def position_def RID_default_eq)
next
  case (Some x)
  obtain p i where x: "x = (p, i)" by fastforce
  have "0 \<le> p" "p < 2 ^ 31" using assms(1,2) assms(4) [OF Some [unfolded x]] by (force simp: heap_ok_def store_inv_def)+
  from RID_Get_position [OF this] show ?thesis
    using assms(3) Some x by (simp add: iter_at_def ti_eq_def th_end_def Tuple_of_rid_def position_def)
qed

lemma next_live_Some:
  "next_live k ss = Some j \<Longrightarrow> k \<le> j \<and> j - k < length ss \<and> (\<exists>bs. ss ! (j - k) = Live bs)"
proof (induction ss arbitrary: k)
  case (Cons s ss)
  show ?case
  proof (cases "live_bytes s")
    case None
    then have "next_live (Suc k) ss = Some j" using Cons.prems by simp
    from Cons.IH [OF this] have "Suc k \<le> j" "j - Suc k < length ss" "\<exists>bs. ss ! (j - Suc k) = Live bs" by auto
    moreover from this(1) have "j - k = Suc (j - Suc k)" by simp
    ultimately show ?thesis by simp
  next
    case (Some bs)
    then show ?thesis using Cons.prems by (auto simp: live_bytes_Some)
  qed
qed simp

lemma later_Some: "later qs s = Some (q, j) \<Longrightarrow> q \<in> set qs \<and> j < length (slots_at s q) \<and> (\<exists>bs. slots_at s q ! j = Live bs)"
  by (induction qs) (auto split: option.splits dest: next_live_Some)

definition after :: "page_id \<Rightarrow> nat \<Rightarrow> page_id list \<Rightarrow> table_state \<Rightarrow> (page_id \<times> nat) option" where
  "after p i qs s = (case next_live (Suc i) (drop (Suc i) (slots_at s p)) of Some j \<Rightarrow> Some (p, j) | None \<Rightarrow> later qs s)"

lemma ti_next_after:
  assumes ok: "heap_ok s" "next_id s \<le> 2 ^ 31" and ch: "chain (p # qs) s" "distinct (p # qs)"
    and it: "iter_at table s (Some (p, i)) it"
  shows "\<exists>it'. ti_next False it s = Some (it', s) \<and> iter_at table s (after p i qs s) it'"
proof -
  obtain d where d: "heap_page p s d" using ch by auto
  note H = heap_pageD [OF d]
  have sl: "slots_at s p = tp_slots d" using H(2) by (simp add: slots_at_def)
  have rid: "rid_m (tuple_i it) = rid_at p i" "heap_i it = table" using it by (auto simp: iter_at_def position_def)
  have nf: "\<not> pool_full s" by (rule heap_ok_not_full [OF ok(1)])
  have N: "tp_GetNextTupleRid (rid_at p i) RID_default d = Some (case next_live (Suc i) (drop (Suc i) (tp_slots d)) of
      Some j \<Rightarrow> (True, \<lparr>rid_page_id = get_int 0 d, slot_num = int j\<rparr>) | None \<Rightarrow> (False, RID_default))"
    by (rule tp_GetNextTupleRid_refines [OF H(3)]) (simp_all add: H(4))
  define pos where "pos = after p i qs s"
  obtain found rid' r e where r: "tp_GetNextTupleRid (rid_at p i) RID_default d = Some (found, rid')"
    "heap_page r s e" "\<And>q j. pos = Some (q, j) \<Longrightarrow> q = r"
    "(if found then Some (p, rid', opened 1 p s) else ti_next_page p rid' (opened 1 p s)) = Some (r, position pos, opened 1 r s)"
  proof (cases "next_live (Suc i) (drop (Suc i) (tp_slots d))")
    case (Some j)
    then have "pos = Some (p, j)" by (simp add: pos_def after_def sl)
    then show ?thesis
      using N Some d H(4) by (intro that [of True "rid_at p j" p d]) (simp_all add: position_def rid_at_def)
  next
    case None
    then have "pos = later qs s" by (simp add: pos_def after_def sl)
    moreover obtain r e where "ti_next_page p RID_default (opened 1 p s) = Some (r, position (later qs s), opened 1 r s)"
      "heap_page r s e" "\<forall>q j. later qs s = Some (q, j) \<longrightarrow> r = q"
      using next_page_scan [OF ok(1) ch refl] by blast
    ultimately show ?thesis using N None by (intro that [of False RID_default r e]) (simp_all, metis)
  qed
  note E = heap_pageD [OF r(2)]
  let ?t = "(tuple_i it)\<lparr>rid_m := position pos\<rparr>"
  have pos_live: "\<exists>bs. slots_at s q ! j = Live bs \<and> j < length (slots_at s q)" if "pos = Some (q, j)" for q j
    using that later_Some [of qs s q j] next_live_Some [of "Suc i" "drop (Suc i) (slots_at s p)"]
    by (auto simp: pos_def after_def split: option.splits)
  define it0 where "it0 = it\<lparr>tuple_i := ?t\<rparr>"
  have eq: "ti_eq it0 (th_end table) \<longleftrightarrow> pos = None"
  proof (cases pos)
    case None
    then show ?thesis by (simp add: it0_def ti_eq_def th_end_def Tuple_of_rid_def position_def RID_default_eq)
  next
    case (Some x)
    obtain q j where x: "x = (q, j)" by fastforce
    have "q = r" using r(3) Some x by simp
    then have "0 \<le> q" "q < 2 ^ 31" using ok E(2) by (force simp: heap_ok_def store_inv_def)+
    from RID_Get_position [OF this] show ?thesis
      using Some x by (simp add: it0_def ti_eq_def th_end_def Tuple_of_rid_def position_def)
  qed
  have step: "ti_next False it s = do {
      (t, s') \<leftarrow> (if pos \<noteq> None then do { (_, t, s') \<leftarrow> th_GetTuple False (position pos) ?t (opened 1 r s); Some (t, s') }
        else Some (?t, opened 1 r s));
      s' \<leftarrow> st_runlatch r s'; s' \<leftarrow> unpin_at r False s'; Some (it\<lparr>tuple_i := t\<rparr>, s') }"
    using r(1,4) eq rid by (simp add: ti_next_def open_write [OF H(1)] nf get_opened [OF H(1,2)] it0_def Let_def)
  show ?thesis
  proof (cases pos)
    case None
    then have "ti_next False it s = Some (it\<lparr>tuple_i := ?t\<rparr>, s)"
      using step by (simp add: close_read_at [OF E(1,2,5)])
    then show ?thesis using None rid by (auto simp: pos_def [symmetric] iter_at_def)
  next
    case (Some x)
    obtain q j where x: "x = (q, j)" by fastforce
    have q: "q = r" using r(3) Some x by simp
    obtain bs where bs: "slots_at s q ! j = Live bs" "j < length (slots_at s q)" using pos_live Some x by blast
    have se: "slots_at s r = tp_slots e" using E(2) by (simp add: slots_at_def)
    let ?u = "\<lparr>allocated_m = True, rid_m = rid_at r j, size_m = int (length bs), data_t = Some bs\<rparr>"
    have "th_GetTuple False (rid_at r j) ?t (opened 1 r s) = Some (True, ?u, opened 1 r s)"
      using th_GetTuple_opened [OF r(2), of j ?t] bs by (simp add: q se)
    then have "ti_next False it s = Some (it\<lparr>tuple_i := ?u\<rparr>, s)"
      using step by (simp add: Some x q position_def close_read_at [OF E(1,2,5)])
    then show ?thesis using Some x q bs rid by (auto simp: pos_def [symmetric] iter_at_def position_def)
  qed
qed

lemma th_begin_at:
  assumes h: "heap_inv table (table # qs) s"
  shows "\<exists>it. th_begin False table s = Some (it, s) \<and>
    iter_at table s (map_option (\<lambda>j. (table, j)) (next_live 0 (slots_at s table))) it"
proof -
  obtain d where d: "heap_page table s d" using h by (auto simp: heap_inv_def)
  note H = heap_pageD [OF d]
  have ok: "heap_ok s" using h by (simp add: heap_inv_def)
  have nf: "\<not> pool_full s" by (rule heap_ok_not_full [OF ok])
  have sl: "slots_at s table = tp_slots d" using H(2) by (simp add: slots_at_def)
  note F = tp_GetFirstTupleRid_refines [OF H(3), of RID_default]
  note C = close_read [OF H(1,2), of "txn_m s", unfolded set_txn_opened set_txn_same]
  have step: "th_begin False table s = do { (_, rid) \<leftarrow> tp_GetFirstTupleRid RID_default d; ti_new False table rid s }"
    by (simp add: th_begin_def open_write [OF H(1)] nf get_opened [OF H(1,2)] C split_beta)
  show ?thesis
  proof (cases "next_live 0 (tp_slots d)")
    case None
    then show ?thesis using step F by (simp add: ti_new_def iter_at_def sl position_def Tuple_of_rid_def RID_default_eq)
  next
    case (Some j)
    obtain bs where bs: "tp_slots d ! j = Live bs" "j < length (tp_slots d)" using next_live_Some [OF Some] by auto
    have "0 \<le> table" using H(2) ok by (force simp: heap_ok_def store_inv_def)
    then have ni: "table \<noteq> INVALID_PAGE_ID" by (simp add: INVALID_PAGE_ID_def)
    have "ti_new False table (rid_at table j) s = Some (\<lparr>heap_i = table, tuple_i =
        \<lparr>allocated_m = True, rid_m = rid_at table j, size_m = int (length bs), data_t = Some bs\<rparr>\<rparr>, s)"
      using th_GetTuple_page [OF d nf, of j "Tuple_of_rid (rid_at table j)"] bs ni by (simp add: ti_new_def)
    then show ?thesis using step F Some H(4) bs by (simp add: iter_at_def sl position_def rid_at_def)
  qed
qed

lemma heap_inv_first: "heap_inv table ps s \<Longrightarrow> \<exists>qs. ps = table # qs"
  by (cases ps) (auto simp: heap_inv_def)

section \<open>Whole scans\<close>

text \<open>The loop of a client over a heap: \<open>for (it = begin(); it != end(); ++it)\<close>, collecting the data.\<close>

partial_function (option) scan_from :: "table_iterator \<Rightarrow> table_state \<Rightarrow> (bytes list \<times> table_state) option" where
  "scan_from it s =
     (if ti_eq it (th_end (heap_i it)) then Some ([], s)
      else do {
        t \<leftarrow> ti_deref it;
        bs \<leftarrow> data_t t;
        (it, s) \<leftarrow> ti_next False it s;
        (rest, s) \<leftarrow> scan_from it s;
        Some (bs # rest, s) })"

definition scan_table :: "page_id \<Rightarrow> table_state \<Rightarrow> (bytes list \<times> table_state) option" where
  "scan_table table s = do { (it, s) \<leftarrow> th_begin False table s; scan_from it s }"

fun live_rows :: "slot list \<Rightarrow> bytes list" where
  "live_rows [] = []"
| "live_rows (s # ss) = (case live_bytes s of Some bs \<Rightarrow> bs # live_rows ss | None \<Rightarrow> live_rows ss)"

definition table_rows :: "page_id list \<Rightarrow> table_state \<Rightarrow> bytes list" where
  "table_rows ps s = concat (map (\<lambda>p. live_rows (slots_at s p)) ps)"

lemma next_live_rows:
  "live_rows ss = (case next_live k ss of None \<Rightarrow> []
     | Some j \<Rightarrow> slot_bytes (ss ! (j - k)) # live_rows (drop (Suc (j - k)) ss))"
proof (induction ss arbitrary: k)
  case (Cons s ss)
  show ?case
  proof (cases "live_bytes s")
    case None
    then have "live_rows (s # ss) = live_rows ss" "next_live k (s # ss) = next_live (Suc k) ss" by simp_all
    moreover have "j - k = Suc (j - Suc k)" if "next_live (Suc k) ss = Some j" for j
      using next_live_Some [OF that] by auto
    ultimately show ?thesis using Cons.IH [of "Suc k"] by (auto split: option.splits)
  next
    case (Some bs)
    then show ?thesis by (auto simp: live_bytes_Some)
  qed
qed simp

definition rows_at :: "(page_id \<times> nat) option \<Rightarrow> page_id list \<Rightarrow> table_state \<Rightarrow> bytes list" where
  "rows_at pos qs s = (case pos of None \<Rightarrow> []
     | Some (p, i) \<Rightarrow> slot_bytes (slots_at s p ! i) # live_rows (drop (Suc i) (slots_at s p)) @ table_rows qs s)"

text \<open>The pages behind a position.\<close>

definition behind :: "page_id list \<Rightarrow> (page_id \<times> nat) option \<Rightarrow> page_id list" where
  "behind ps pos = (case pos of None \<Rightarrow> [] | Some (p, i) \<Rightarrow> tl (dropWhile (\<lambda>q. q \<noteq> p) ps))"

lemma later_rows:
  "distinct qs \<Longrightarrow> table_rows qs s = rows_at (later qs s) (behind qs (later qs s)) s"
proof (induction qs)
  case (Cons q qs)
  show ?case
  proof (cases "next_live 0 (slots_at s q)")
    case None
    then have e: "later (q # qs) s = later qs s" "live_rows (slots_at s q) = []"
      using next_live_rows [of "slots_at s q" 0] by simp_all
    have "behind (q # qs) (later qs s) = behind qs (later qs s)"
      using later_Some [of qs s] Cons.prems by (auto simp: behind_def split: option.splits)
    then show ?thesis using Cons e by (simp add: table_rows_def)
  next
    case (Some j)
    then show ?thesis using next_live_rows [of "slots_at s q" 0] by (simp add: table_rows_def rows_at_def behind_def)
  qed
qed (simp add: table_rows_def rows_at_def)

lemma after_rows:
  assumes "distinct (p # qs)"
  shows "live_rows (drop (Suc i) (slots_at s p)) @ table_rows qs s = rows_at (after p i qs s) (behind (p # qs) (after p i qs s)) s"
proof (cases "next_live (Suc i) (drop (Suc i) (slots_at s p))")
  case None
  then have e: "after p i qs s = later qs s" "live_rows (drop (Suc i) (slots_at s p)) = []"
    using next_live_rows [of "drop (Suc i) (slots_at s p)" "Suc i"] by (simp_all add: after_def)
  have "behind (p # qs) (later qs s) = behind qs (later qs s)"
    using later_Some [of qs s] assms by (auto simp: behind_def split: option.splits)
  then show ?thesis using e later_rows [of qs s] assms by simp
next
  case (Some j)
  then have "drop (Suc i) (slots_at s p) ! (j - Suc i) = slots_at s p ! j" "Suc i \<le> j"
    using next_live_Some [OF Some] by auto
  then show ?thesis
    using next_live_rows [of "drop (Suc i) (slots_at s p)" "Suc i"] Some
    by (simp add: after_def rows_at_def behind_def)
qed

lemma chain_suffix: "chain (pre @ ps) s \<Longrightarrow> chain ps s"
  by (induction pre) auto

lemma dropWhile_skip: "q \<notin> set pre \<Longrightarrow> dropWhile (\<lambda>x. x \<noteq> q) (pre @ xs) = dropWhile (\<lambda>x. x \<noteq> q) xs"
  by (induction pre) auto

lemma scan_from_rows:
  assumes ok: "heap_ok s" "next_id s \<le> 2 ^ 31" and ch: "chain ps s" "distinct ps"
    and "iter_at table s pos it"
    and "case pos of None \<Rightarrow> True | Some (p, i) \<Rightarrow> p \<in> set ps \<and> live_bytes (slots_at s p ! i) \<noteq> None"
    and "n = length (rows_at pos (behind ps pos) s)"
  shows "scan_from it s = Some (rows_at pos (behind ps pos) s, s)"
  using assms(5-)
proof (induction n arbitrary: pos it rule: less_induct)
  case (less n)
  have hp: "heap_i it = table" using less.prems(1) by (simp add: iter_at_def)
  have ids: "contents s p \<noteq> None" if "pos = Some (p, i)" for p i
    using less.prems(2) that chain_ids [OF ch(1)] by auto
  note end_iff = ti_eq_end [OF ok less.prems(1) ids]
  show ?case
  proof (cases pos)
    case None
    then show ?thesis using end_iff hp by (subst scan_from.simps) (simp add: rows_at_def)
  next
    case (Some x)
    obtain p i where x: "x = (p, i)" by fastforce
    have p: "p \<in> set ps" "live_bytes (slots_at s p ! i) \<noteq> None" using less.prems(2) Some x by auto
    then obtain bs where bs: "slots_at s p ! i = Live bs" by (auto simp: live_bytes_Some)
    obtain pre qs where split: "ps = pre @ p # qs" using p(1) by (auto simp: in_set_conv_decomp)
    have ch': "chain (p # qs) s" "distinct (p # qs)" "p \<notin> set pre"
      using ch(2) chain_suffix [of pre "p # qs" s] ch(1) unfolding split by simp_all
    have bh: "behind ps pos = qs" using ch'(3) by (simp add: behind_def Some x split dropWhile_skip)
    obtain it' where it': "ti_next False it s = Some (it', s)" "iter_at table s (after p i qs s) it'"
      using ti_next_after [OF ok ch'(1,2)] less.prems(1) Some x by blast
    let ?pos = "after p i qs s"
    have at: "case ?pos of None \<Rightarrow> True | Some (q, j) \<Rightarrow> q \<in> set (p # qs) \<and> live_bytes (slots_at s q ! j) \<noteq> None"
      using next_live_Some [of "Suc i" "drop (Suc i) (slots_at s p)"] later_Some [of qs s]
      by (auto simp: after_def live_bytes_Some split: option.splits)
    have bh': "behind ps ?pos = behind (p # qs) ?pos"
    proof (cases ?pos)
      case (Some y)
      obtain q j where y: "y = (q, j)" by fastforce
      have "q \<notin> set pre" using at Some y ch(2) by (auto simp: split)
      then show ?thesis by (simp add: behind_def Some y split dropWhile_skip del: dropWhile.simps)
    qed (simp add: behind_def)
    have rows: "rows_at pos qs s = bs # rows_at ?pos (behind ps ?pos) s"
      using after_rows [OF ch'(2), of i s] bs by (simp add: rows_at_def Some x bh')
    have "scan_from it' s = Some (rows_at ?pos (behind ps ?pos) s, s)"
      by (rule less.IH [OF _ it'(2) _ refl])
        (use less.prems(3) rows bh at in \<open>auto simp: split split: option.splits\<close>)
    moreover have "ti_deref it = Some (tuple_i it)" using end_iff hp Some by (simp add: ti_deref_def)
    moreover have "data_t (tuple_i it) = Some bs" using less.prems(1) bs Some x by (simp add: iter_at_def)
    ultimately show ?thesis
      using it'(1) end_iff hp Some bh rows by (subst scan_from.simps) simp
  qed
qed

end
