(* ===== verification/TableClaims.thy ===== *)
theory TableClaims imports TableScan begin

text \<open>
  What the table heap and the transaction manager promise, stated on the heap as a map from record
  ids to slots, and four situations in which the code breaks the promise.
\<close>

section \<open>An example heap\<close>

lemma example_heap: "\<exists>s. th_create (new_state 8) = Some (1, s) \<and> heap_inv 1 [1] s \<and> slot_map [1] s = (\<lambda>_. Free) \<and>
    txn_m s = Transaction_new 0 \<and> next_id s = 2 \<and> slots_at s 1 = []"
  using th_create_inv [OF heap_ok_new_state [of 8]] by (auto simp: new_state_def)

lemma Transaction_new_simps [simp]: "write_set (Transaction_new i) = []" "state_t (Transaction_new i) = GROWING"
  by (simp_all add: Transaction_new_def)

lemma txn_start_example:
  "heap_inv table ps s \<Longrightarrow> txn_m s = Transaction_new i \<Longrightarrow> next_id s + int n \<le> 2 ^ 31 \<Longrightarrow> txn_start table ps n s"
  by (simp add: txn_start_def)

section \<open>Insertion\<close>

text \<open>C19. \<open>TableHeap::InsertTuple\<close> returns on every well-formed heap.  A tuple of at most 480 bytes gets a
  record id that was free, can be read back under it, every other record reads as before, and no pin or
  latch is left; a larger tuple is refused, the heap is as it was, and the transaction is aborted.\<close>

theorem heap_insert_returns:
  assumes "heap_inv table ps s" and "bs \<noteq> []" and "next_id s < 2 ^ 31"
  shows "if length bs \<le> 480 then \<exists>rid ps' s'.
      th_InsertTuple False table (tuple_of bs) RID_default s = Some (True, rid, s') \<and> heap_inv table ps' s' \<and>
      slot_map ps s rid = Free \<and> slot_map ps' s' = (slot_map ps s)(rid := Live bs) \<and> pins s' = pins s \<and> latch s' = latch s \<and>
      (\<exists>t. th_GetTuple False rid Tuple_default s' = Some (True, t, s') \<and> data_t t = Some bs)
    else th_InsertTuple False table (tuple_of bs) RID_default s = Some (False, RID_default, set_abort s)"
proof (cases "length bs \<le> 480")
  case True
  obtain rid ps' s' where r: "th_InsertTuple False table (tuple_of bs) RID_default s =
      Some (True, rid, set_txn (add_write rid INSERT Tuple_default table (txn_m s)) s')"
    "heap_inv table ps' s'" "slot_map ps s rid = Free" "slot_map ps' s' = (slot_map ps s)(rid := Live bs)"
    "rid_page_id rid \<in> set ps'" "0 \<le> slot_num rid" "pins s' = pins s" "latch s' = latch s"
    using th_InsertTuple_map [OF assms(1) holds_tuple_of assms(2) True assms(3), of RID_default] by blast
  let ?s = "set_txn (add_write rid INSERT Tuple_default table (txn_m s)) s'"
  have "th_GetTuple False rid Tuple_default ?s = Some (True, \<lparr>allocated_m = True, rid_m = rid, size_m = int (length bs), data_t = Some bs\<rparr>, ?s)"
    using th_GetTuple_map [of table ps' ?s rid Tuple_default] r by simp
  moreover have "pins ?s = pins s" "latch ?s = latch s" using r by (simp_all add: set_txn_def)
  ultimately show ?thesis using True r(1-4) by auto
next
  case False
  then show ?thesis by (simp add: th_InsertTuple_def tuple_of_def PAGE_SIZE_def)
qed

theorem heap_insert_returns_witness:
  "\<exists>s rid s'. th_create (new_state 8) = Some (1, s) \<and>
     th_InsertTuple False 1 (tuple_of [7, 8]) RID_default s = Some (True, rid, s') \<and>
     (\<exists>t. th_GetTuple False rid Tuple_default s' = Some (True, t, s') \<and> data_t t = Some [7, 8])"
proof -
  obtain s where s: "th_create (new_state 8) = Some (1, s)" "heap_inv 1 [1] s" "next_id s = 2" using example_heap by blast
  show ?thesis using heap_insert_returns [OF s(2), of "[7, 8]"] s by auto
qed

section \<open>Transactions\<close>


lemma example_run: "\<exists>s rid s'. th_create (new_state 8) = Some (1, s) \<and> heap_inv 1 [1] s \<and> txn_start 1 [1] 2 s \<and>
    txn_run 1 [TInsert [7, 8], TUpdate rid [9, 10]] s = Some ([rid, rid], s') \<and>
    calls_ok [TInsert [7, 8], TUpdate rid [9, 10]] [rid, rid] (slot_map [1] s) \<and> slot_map [1] s = (\<lambda>_. Free)"
proof -
  obtain s where s: "th_create (new_state 8) = Some (1, s)" "heap_inv 1 [1] s" "slot_map [1] s = (\<lambda>_. Free)"
    "txn_m s = Transaction_new 0" "next_id s = 2" using example_heap by blast
  obtain rid ps1 s1 w where r: "txn_step 1 (TInsert [7, 8]) s = Some (rid, s1)" "heap_inv 1 ps1 s1"
    "slot_map ps1 s1 = (slot_map [1] s)(rid := Live [7, 8])" "next_id s1 \<le> next_id s + 1"
    "txn_m s1 = (txn_m s)\<lparr>write_set := write_set (txn_m s) @ [w]\<rparr>"
    using txn_step_map [OF s(2), of "TInsert [7, 8]"] s by auto
  obtain s2 where "txn_step 1 (TUpdate rid [9, 10]) s1 = Some (rid, s2)"
    using txn_step_map [OF r(2), of "TUpdate rid [9, 10]"] r s by auto
  then have "txn_run 1 [TInsert [7, 8], TUpdate rid [9, 10]] s = Some ([rid, rid], s2)" using r(1) by simp
  moreover have "txn_start 1 [1] 2 s" by (rule txn_start_example [OF s(2,4)]) (simp add: s(5))
  moreover have "calls_ok [TInsert [7, 8], TUpdate rid [9, 10]] [rid, rid] (slot_map [1] s)" using s(3) by simp
  ultimately show ?thesis using s by blast
qed




section \<open>Scans\<close>


text \<open>A heap with one tuple, and one with two tuples of 480 bytes, which are on two pages.\<close>

lemma one_tuple:
  assumes "A \<noteq> []" and "length A \<le> 480"
  shows "\<exists>s s1. th_create (new_state 8) = Some (1, s) \<and> heap_inv 1 [1] s1 \<and> slots_at s1 1 = [Live A] \<and> next_id s1 = 2 \<and>
    th_InsertTuple False 1 (tuple_of A) RID_default s =
      Some (True, rid_at 1 0, set_txn (add_write (rid_at 1 0) INSERT Tuple_default 1 (Transaction_new 0)) s1)"
proof -
  obtain s where s: "th_create (new_state 8) = Some (1, s)" "heap_inv 1 [1] s"
    "txn_m s = Transaction_new 0" "next_id s = 2" "slots_at s 1 = []" using example_heap by blast
  have k: "chain_insert A (map (slots_at s) [1]) = (0, 0, [[Live A]])"
    using assms by (simp add: s(5) slots_insert_def room_def Let_def)
  obtain ps1 s1 where i: "th_InsertTuple False 1 (tuple_of A) RID_default s =
      Some (True, rid_at (ps1 ! 0) 0, set_txn (add_write (rid_at (ps1 ! 0) 0) INSERT Tuple_default 1 (txn_m s)) s1)"
    "heap_inv 1 ps1 s1" "inserted [1] s ps1 s1" "map (slots_at s1) ps1 = [[Live A]]"
    using th_InsertTuple_chain [OF s(2) holds_tuple_of assms _ k, of RID_default] s(4) by fastforce
  have "ps1 = [1]" "next_id s1 = 2" using i(3,4) s(4) by (auto simp: inserted_def)
  then show ?thesis using i s by auto
qed


lemma two_pages:
  assumes "length A = 480" and "length B = 480"
  shows "\<exists>s s1 s2. th_create (new_state 8) = Some (1, s) \<and>
    th_InsertTuple False 1 (tuple_of A) RID_default s = Some (True, rid_at 1 0, s1) \<and>
    th_InsertTuple False 1 (tuple_of B) RID_default s1 = Some (True, rid_at 2 0, s2) \<and>
    heap_inv 1 [1, 2] s2 \<and> slots_at s2 1 = [Live A] \<and> slots_at s2 2 = [Live B] \<and> next_id s2 = 3"
proof -
  obtain s s1 where s: "th_create (new_state 8) = Some (1, s)" "heap_inv 1 [1] s1" "slots_at s1 1 = [Live A]"
    "next_id s1 = 2" "th_InsertTuple False 1 (tuple_of A) RID_default s =
      Some (True, rid_at 1 0, set_txn (add_write (rid_at 1 0) INSERT Tuple_default 1 (Transaction_new 0)) s1)"
    using one_tuple [of A] assms by fastforce
  let ?s = "set_txn (add_write (rid_at 1 0) INSERT Tuple_default 1 (Transaction_new 0)) s1"
  have B: "B \<noteq> []" "length B \<le> 480" "heap_inv 1 [1] ?s" "next_id ?s = 2" using assms s by auto
  have k: "chain_insert B (map (slots_at ?s) [1]) = (1, 0, [[Live A], [Live B]])"
    using assms by (simp add: s(3) slots_insert_def room_def Let_def)
  obtain ps2 s2 where i: "th_InsertTuple False 1 (tuple_of B) RID_default ?s =
      Some (True, rid_at (ps2 ! 1) 0, set_txn (add_write (rid_at (ps2 ! 1) 0) INSERT Tuple_default 1 (txn_m ?s)) s2)"
    "heap_inv 1 ps2 s2" "inserted [1] ?s ps2 s2" "map (slots_at s2) ps2 = [[Live A], [Live B]]"
    using th_InsertTuple_chain [OF B(3) holds_tuple_of B(1,2) _ k, of RID_default] B(4) by fastforce
  have e: "ps2 = [1, 2]" "next_id s2 = 3" using i(3,4) B(4) by (auto simp: inserted_def)
  let ?s2 = "set_txn (add_write (rid_at 2 0) INSERT Tuple_default 1 (txn_m ?s)) s2"
  have "th_InsertTuple False 1 (tuple_of B) RID_default ?s = Some (True, rid_at 2 0, ?s2)" using i(1) e(1) by simp
  moreover have "heap_inv 1 [1, 2] ?s2" "slots_at ?s2 1 = [Live A]" "slots_at ?s2 2 = [Live B]" "next_id ?s2 = 3"
    using i(2,4) e by simp_all
  ultimately show ?thesis using s(1,5) by blast
qed

text \<open>C37. When no tuple of the first page is live, \<open>begin\<close> is already \<open>end\<close>: a scan reads nothing although
  another page holds a live tuple that \<open>GetTuple\<close> returns.\<close>

theorem begin_misses_tuples:
  assumes "heap_inv table ps s" and "next_id s \<le> 2 ^ 31" and "live_rows (slots_at s table) = []"
    and "slot_map ps s rid = Live bs"
  shows "scan_table table s = Some ([], s) \<and>
    (\<exists>t. th_GetTuple False rid Tuple_default s = Some (True, t, s) \<and> data_t t = Some bs)"
proof
  obtain qs where ps: "ps = table # qs" using heap_inv_first assms(1) by blast
  have H: "heap_ok s" "chain (table # qs) s" "distinct (table # qs)" using assms(1) by (simp_all add: heap_inv_def ps)
  have j: "next_live 0 (slots_at s table) = None"
    using next_live_rows [of "slots_at s table" 0] assms(3) by (auto split: option.splits)
  obtain it where it: "th_begin False table s = Some (it, s)" "iter_at table s None it"
    using th_begin_at [of table qs s] assms(1) j by (auto simp: ps)
  show "scan_table table s = Some ([], s)"
    using scan_from_rows [OF H(1) assms(2) H(2,3) it(2) _ refl] it(1) by (simp add: scan_table_def rows_at_def)
  have "slot_map ps s rid \<noteq> Free" using assms(4) by simp
  then have "rid_page_id rid \<in> set ps" "0 \<le> slot_num rid" by (auto simp: slot_map_def split: if_splits)
  then show "\<exists>t. th_GetTuple False rid Tuple_default s = Some (True, t, s) \<and> data_t t = Some bs"
    using th_GetTuple_map [OF assms(1), of rid Tuple_default] assms(4) by simp
qed

lemma no_live_rows:
  assumes "p \<in> set ps" and "\<And>i. live_bytes (slot_map ps s (rid_at p i)) = None"
  shows "live_rows (slots_at s p) = []"
proof -
  have "live_bytes (slots_at s p ! i) = None" if "i < length (slots_at s p)" for i
    using assms(2) [of i] that assms(1) by (simp add: slot_map_def)
  moreover have "(\<And>i. i < length ss \<Longrightarrow> live_bytes (ss ! i) = None) \<Longrightarrow> live_rows ss = []" for ss
    by (induction ss) (force simp: nth_Cons' split: option.splits)+
  ultimately show ?thesis by blast
qed

theorem begin_misses_tuples_witness:
  "\<exists>s s1 s2 s3 t. th_create (new_state 8) = Some (1, s) \<and>
     th_InsertTuple False 1 (tuple_of (replicate 480 7)) RID_default s = Some (True, rid_at 1 0, s1) \<and>
     th_InsertTuple False 1 (tuple_of (replicate 480 8)) RID_default s1 = Some (True, rid_at 2 0, s2) \<and>
     th_MarkDelete False 1 (rid_at 1 0) s2 = Some (True, s3) \<and>
     scan_table 1 s3 = Some ([], s3) \<and>
     th_GetTuple False (rid_at 2 0) Tuple_default s3 = Some (True, t, s3) \<and> data_t t = Some (replicate 480 8)"
proof -
  obtain s s1 s2 where s: "th_create (new_state 8) = Some (1, s)"
    "th_InsertTuple False 1 (tuple_of (replicate 480 7)) RID_default s = Some (True, rid_at 1 0, s1)"
    "th_InsertTuple False 1 (tuple_of (replicate 480 8)) RID_default s1 = Some (True, rid_at 2 0, s2)"
    "heap_inv 1 [1, 2] s2" "slots_at s2 1 = [Live (replicate 480 7)]" "slots_at s2 2 = [Live (replicate 480 8)]" "next_id s2 = 3"
    using two_pages [of "replicate 480 7" "replicate 480 8"] by auto
  have m: "slot_map [1, 2] s2 (rid_at 1 0) = Live (replicate 480 7)" "slot_map [1, 2] s2 (rid_at 2 0) = Live (replicate 480 8)"
    using s(5,6) by (simp_all add: slot_map_def)
  obtain s3 where d: "th_MarkDelete False 1 (rid_at 1 0) s2 = Some (True, set_txn (add_write (rid_at 1 0) DELETE Tuple_default 1 (txn_m s2)) s3)"
    "heap_inv 1 [1, 2] s3" "slot_map [1, 2] s3 = (slot_map [1, 2] s2)(rid_at 1 0 := Dead (replicate 480 7))" "next_id s3 = 3"
    using th_MarkDelete_map [OF s(4) m(1)] s(7) by auto
  let ?s = "set_txn (add_write (rid_at 1 0) DELETE Tuple_default 1 (txn_m s2)) s3"
  have h: "heap_inv 1 [1, 2] ?s" "next_id ?s \<le> 2 ^ 31" using d(2,4) by simp_all
  have "live_rows (slots_at ?s 1) = []"
    by (rule no_live_rows [of 1 "[1, 2]"]) (use d(3) m(1) s(5) in \<open>auto simp: slot_map_def rid_at_def\<close>)
  moreover have "slot_map [1, 2] ?s (rid_at 2 0) = Live (replicate 480 8)" using d(3) m(2) by (simp add: rid_at_def)
  ultimately have "scan_table 1 ?s = Some ([], ?s) \<and>
      (\<exists>t. th_GetTuple False (rid_at 2 0) Tuple_default ?s = Some (True, t, ?s) \<and> data_t t = Some (replicate 480 8))"
    by (rule begin_misses_tuples [OF h])
  then show ?thesis using s(1-3) d(1) by blast
qed

section \<open>Double deletion\<close>

lemma th_MarkDelete_used:
  assumes h: "heap_inv table ps s" and nf: "slot_map ps s rid \<noteq> Free"
  shows "\<exists>s'. th_MarkDelete False table rid s = Some (True, set_txn (add_write rid DELETE Tuple_default table (txn_m s)) s') \<and>
    heap_inv table ps s' \<and> slot_map ps s' = (slot_map ps s)(rid := mark (slot_map ps s rid))"
proof -
  obtain p i d where r: "rid = rid_at p i" "p \<in> set ps" "heap_page p s d" "slots_at s p = tp_slots d"
    "i < length (tp_slots d)" "tp_slots d ! i = slot_map ps s rid"
    using slot_map_at [OF h nf] .
  have f: "\<not> pool_full s" using h heap_ok_not_full by (simp add: heap_inv_def)
  obtain d' where d': "th_MarkDelete False table rid s =
      Some (True, set_txn (add_write rid DELETE Tuple_default table (txn_m s)) (stored p d' s))"
    "tp_inv d'" "get_bytes 0 16 d' = get_bytes 0 16 d" "tp_slots d' = (tp_slots d)[i := mark (slot_map ps s rid)]"
    using th_MarkDelete_page [OF r(3) f, of table i] r by auto
  show ?thesis using d' heap_store [OF h r(2) heap_pageD(2) [OF r(3)] d'(2,3) r(5) d'(4)] r(1) by auto
qed

lemma th_ApplyDelete_unused:
  assumes h: "heap_inv table ps s" and p: "rid_page_id rid \<in> set ps" "0 \<le> slot_num rid" and free: "slot_map ps s rid = Free"
  shows "th_ApplyDelete False rid s = None"
proof -
  obtain d where d: "heap_page (rid_page_id rid) s d" "slots_at s (rid_page_id rid) = tp_slots d"
    using chain_page [of ps s "rid_page_id rid"] h p(1) by (auto simp: heap_inv_def)
  have "\<not> pool_full s" using h heap_ok_not_full by (simp add: heap_inv_def)
  from th_ApplyDelete_page_free [OF d(1) this, of "nat (slot_num rid)"] show ?thesis
    using p free d(2) by (simp add: rid_at_conv slot_map_def split: if_splits)
qed

text \<open>\<open>TableHeap::MarkDelete\<close> ignores what the page answers.  A transaction that deletes a tuple twice is
  told both times that it succeeded, its write set gets the tuple twice, and committing it fails an
  assertion in \<open>TablePage::ApplyDelete\<close>.\<close>

theorem double_delete_commit_aborts:
  assumes "heap_inv table ps s" and "slot_map ps s rid = Live bs" and "write_set (txn_m s) = []"
  shows "\<exists>s1 s2. th_MarkDelete False table rid s = Some (True, s1) \<and> th_MarkDelete False table rid s1 = Some (True, s2) \<and>
    tm_Commit False s2 = None"
proof -
  have p: "rid_page_id rid \<in> set ps" "0 \<le> slot_num rid" using assms(2) by (auto simp: slot_map_def split: if_splits)
  let ?w = "\<lambda>t. add_write rid DELETE Tuple_default table t"
  obtain s1 where s1: "th_MarkDelete False table rid s = Some (True, set_txn (?w (txn_m s)) s1)"
    "heap_inv table ps s1" "slot_map ps s1 = (slot_map ps s)(rid := Dead bs)"
    using th_MarkDelete_used [OF assms(1), of rid] assms(2) by auto
  let ?s1 = "set_txn (?w (txn_m s)) s1"
  obtain s2 where s2: "th_MarkDelete False table rid ?s1 = Some (True, set_txn (?w (?w (txn_m s))) s2)"
    "heap_inv table ps s2" "slot_map ps s2 = slot_map ps s1"
    using th_MarkDelete_used [of table ps ?s1 rid] s1(2,3) by (auto simp: fun_upd_idem)
  define s3 where "s3 = set_txn (SetState COMMITTED (?w (?w (txn_m s)))) s2"
  let ?r = "\<lparr>rid_w = rid, wtype_w = DELETE, tuple_w = Tuple_copy Tuple_default, table_w = table\<rparr>"
  have w3: "write_set (txn_m s3) = [?r, ?r]" using assms(3) by (simp add: s3_def add_write_def SetState_def)
  obtain s4 where s4: "th_ApplyDelete False rid s3 = Some s4" "heap_inv table ps s4" "slot_map ps s4 rid = Free" "txn_m s4 = txn_m s3"
    using th_ApplyDelete_map [of table ps s3 rid] s1(3) s2(2,3) by (auto simp: s3_def)
  have "commit_loop False s3 = commit_loop False (pop_write s4)"
    using w3 s4(1) by (subst commit_loop.simps) (simp add: Let_def)
  moreover have "write_set (txn_m (pop_write s4)) = [?r]" using s4(4) w3 by (simp add: pop_write_eq)
  moreover have "th_ApplyDelete False rid (pop_write s4) = None"
    by (rule th_ApplyDelete_unused [OF _ p]) (use s4 in \<open>simp_all add: pop_write_eq\<close>)
  ultimately have "commit_loop False s3 = None" by (simp add: commit_loop.simps [of _ "pop_write s4"] Let_def)
  then have "tm_Commit False (set_txn (?w (?w (txn_m s))) s2) = None" by (simp add: tm_Commit_def s3_def set_txn_def)
  then show ?thesis using s1(1) s2(1) by blast
qed

theorem double_delete_commit_aborts_witness:
  "\<exists>s s1 s2 s3. th_create (new_state 8) = Some (1, s) \<and>
     (\<exists>t. th_InsertTuple False 1 (tuple_of [7, 8]) RID_default s = Some (True, rid_at 1 0, t) \<and>
       th_MarkDelete False 1 (rid_at 1 0) (set_txn (Transaction_new 1) t) = Some (True, s2)) \<and>
     th_MarkDelete False 1 (rid_at 1 0) s2 = Some (True, s3) \<and> tm_Commit False s3 = None"
proof -
  obtain s s1 where s: "th_create (new_state 8) = Some (1, s)" "heap_inv 1 [1] s1" "slots_at s1 1 = [Live [7, 8]]"
    "th_InsertTuple False 1 (tuple_of [7, 8]) RID_default s =
      Some (True, rid_at 1 0, set_txn (add_write (rid_at 1 0) INSERT Tuple_default 1 (Transaction_new 0)) s1)"
    using one_tuple [of "[7, 8]"] by auto
  have e: "set_txn t (set_txn t' s1) = set_txn t s1" for t t' by (simp add: set_txn_def)
  have "slot_map [1] (set_txn (Transaction_new 1) s1) (rid_at 1 0) = Live [7, 8]" using s(3) by (simp add: slot_map_def)
  from double_delete_commit_aborts [OF _ this, of 1] show ?thesis using s(1,2,4) by (fastforce simp: e)
qed

section \<open>A lost update\<close>

text \<open>C34. \<open>TransactionManager::Abort\<close> ignores whether taking back an update succeeded.  On a page filled by one
  tuple \<open>A\<close>, a transaction shrinks \<open>A\<close> to one byte and fills the page with \<open>B\<close>.  Taking back the insertion
  frees the bytes of \<open>B\<close> but not the eight bytes of its slot, so writing \<open>A\<close> back is refused for want of space,
  and after the abort the tuple still has the value of the aborted transaction.\<close>

theorem abort_loses_update:
  assumes "heap_inv table [table] s" and "slots_at s table = [Live A]" and "length A = 480" and "length B = 471"
    and "txn_m s = Transaction_new i" and "next_id s < 2 ^ 31"
  shows "\<exists>s1 s2 s3 t. th_UpdateTuple False table (tuple_of [b]) (rid_at table 0) s = Some (True, s1) \<and>
    th_InsertTuple False table (tuple_of B) RID_default s1 = Some (True, rid_at table 1, s2) \<and>
    tm_Abort False s2 = Some s3 \<and>
    th_GetTuple False (rid_at table 0) Tuple_default s3 = Some (True, t, s3) \<and> data_t t = Some [b]"
proof -
  obtain d where d: "heap_page table s d" "tp_slots d = [Live A]"
    using assms(1,2) by (auto simp: heap_inv_def slots_at_def heap_page_def)
  have f: "\<not> pool_full s" using assms(1) heap_ok_not_full by (simp add: heap_inv_def)
  let ?old = "\<lparr>allocated_m = True, rid_m = rid_at table 0, size_m = int (length A), data_t = Some A\<rparr>"
  obtain d1 where d1: "th_UpdateTuple False table (tuple_of [b]) (rid_at table 0) s =
      Some (True, set_txn (add_write (rid_at table 0) UPDATE ?old table (txn_m s)) (stored table d1 s))"
    "tp_inv d1" "get_bytes 0 16 d1 = get_bytes 0 16 d" "tp_slots d1 = [Live [b]]"
    using th_UpdateTuple_page [OF d(1) f holds_tuple_of, of "[b]" 0 A table] d(2) assms(3,5) by (auto simp: room_def)
  let ?s1 = "set_txn (add_write (rid_at table 0) UPDATE ?old table (txn_m s)) (stored table d1 s)"
  have "heap_inv table [table] ?s1"
    using heap_store(1) [OF assms(1) _ heap_pageD(2) [OF d(1)] d1(2,3), of 0 "Live [b]"] d(2) d1(4) by simp
  moreover have "chain_insert B (map (slots_at ?s1) [table]) = (0, 1, [[Live [b], Live B]])"
    using d1(4) assms(4) by (simp add: slots_at_def slots_insert_def room_def Let_def)
  moreover have "B \<noteq> []" "length B \<le> 480" "next_id ?s1 < 2 ^ 31" using assms(4,6) by auto
  ultimately obtain ps s2 where s2: "th_InsertTuple False table (tuple_of B) RID_default ?s1 =
      Some (True, rid_at (ps ! 0) 1, set_txn (add_write (rid_at (ps ! 0) 1) INSERT Tuple_default table (txn_m ?s1)) s2)"
    "heap_inv table ps s2" "map (slots_at s2) ps = [[Live [b], Live B]]" "ps \<noteq> []"
    using th_InsertTuple_chain [OF _ holds_tuple_of, of table "[table]" ?s1 B 0 1 _ RID_default] by fastforce
  have ps: "ps = [table]" using s2(2,3) by (auto simp: heap_inv_def)
  let ?w0 = "\<lparr>rid_w = rid_at table 0, wtype_w = UPDATE, tuple_w = Tuple_copy ?old, table_w = table\<rparr>"
  let ?w1 = "\<lparr>rid_w = rid_at table 1, wtype_w = INSERT, tuple_w = Tuple_copy Tuple_default, table_w = table\<rparr>"
  define s3 where "s3 = set_txn (SetState ABORTED (add_write (rid_at table 1) INSERT Tuple_default table (txn_m ?s1))) s2"
  have w3: "write_set (txn_m s3) = [?w0, ?w1]" using assms(5) by (simp add: s3_def add_write_def SetState_def)
  have h3: "heap_inv table [table] s3" "slots_at s3 table = [Live [b], Live B]" using s2(2,3) ps by (simp_all add: s3_def)
  obtain e where e: "heap_page table s3 e" "tp_slots e = [Live [b], Live B]"
    using h3 by (auto simp: heap_inv_def slots_at_def heap_page_def)
  have f3: "\<not> pool_full s3" using h3(1) heap_ok_not_full by (simp add: heap_inv_def)
  obtain e' where e': "th_ApplyDelete False (rid_at table 1) s3 = Some (stored table e' s3)" "tp_inv e'"
    "get_bytes 0 16 e' = get_bytes 0 16 e" "tp_slots e' = [Live [b], Free]"
    using th_ApplyDelete_page [OF e(1) f3, of 1] e(2) by auto
  let ?s4 = "pop_write (stored table e' s3)"
  have h4: "heap_inv table [table] ?s4"
    using heap_store(1) [OF h3(1) _ heap_pageD(2) [OF e(1)] e'(2,3), of 1 Free] e(2) e'(4) by (simp add: pop_write_eq)
  have sl4: "slots_at ?s4 table = [Live [b], Free]" using e'(4) by (simp add: pop_write_eq slots_at_def)
  obtain g where g: "heap_page table ?s4 g" "tp_slots g = [Live [b], Free]"
    using h4 sl4 by (auto simp: heap_inv_def slots_at_def heap_page_def)
  have f4: "\<not> pool_full ?s4" using h4 heap_ok_not_full by (simp add: heap_inv_def)
  have r: "th_UpdateTuple False table (Tuple_copy ?old) (rid_at table 0) ?s4 = Some (False, ?s4)"
    by (rule th_UpdateTuple_page_refused [OF g(1) f4, of _ A]) (use g(2) assms(3) in \<open>simp_all add: Tuple_copy_def room_def\<close>)
  have a: "abort_loop False s3 = abort_loop False ?s4"
    using w3 e'(1) by (subst abort_loop.simps) (simp add: Let_def)
  have w4: "write_set (txn_m ?s4) = [?w0]" using w3 by (simp add: pop_write_eq)
  have "abort_loop False ?s4 = abort_loop False (pop_write ?s4)"
    using w4 r by (subst abort_loop.simps) (simp add: Let_def)
  moreover have "abort_loop False (pop_write ?s4) = Some (pop_write ?s4)"
    using w4 by (subst abort_loop.simps) (simp add: pop_write_eq)
  ultimately have "tm_Abort False (set_txn (add_write (rid_at table 1) INSERT Tuple_default table (txn_m ?s1)) s2) =
      Some (set_txn ((txn_m (pop_write ?s4))\<lparr>write_set := []\<rparr>) (pop_write ?s4))"
    using a by (simp add: tm_Abort_def s3_def release_locks_same set_txn_def)
  moreover have "\<exists>t. th_GetTuple False (rid_at table 0) Tuple_default (set_txn u (pop_write ?s4)) = Some (True, t, set_txn u (pop_write ?s4)) \<and>
      data_t t = Some [b]" for u
  proof -
    have "heap_inv table [table] (set_txn u (pop_write ?s4))" using h4 by (simp add: pop_write_eq)
    moreover have "slot_map [table] (set_txn u (pop_write ?s4)) (rid_at table 0) = Live [b]"
      using sl4 by (simp add: pop_write_eq slot_map_def)
    ultimately show ?thesis using th_GetTuple_map [of table "[table]" _ "rid_at table 0" Tuple_default] by simp
  qed
  ultimately show ?thesis using d1(1) s2(1) [unfolded ps nth_Cons_0] by blast
qed

theorem abort_loses_update_witness:
  "\<exists>s s1 s2 s3 s4 t. th_create (new_state 8) = Some (1, s) \<and>
     th_InsertTuple False 1 (tuple_of (replicate 480 7)) RID_default s = Some (True, rid_at 1 0, s1) \<and>
     th_UpdateTuple False 1 (tuple_of [9]) (rid_at 1 0) (set_txn (Transaction_new 1) s1) = Some (True, s2) \<and>
     th_InsertTuple False 1 (tuple_of (replicate 471 8)) RID_default s2 = Some (True, rid_at 1 1, s3) \<and>
     tm_Abort False s3 = Some s4 \<and>
     th_GetTuple False (rid_at 1 0) Tuple_default s4 = Some (True, t, s4) \<and> data_t t = Some [9]"
proof -
  obtain s s1 where s: "th_create (new_state 8) = Some (1, s)" "heap_inv 1 [1] s1" "slots_at s1 1 = [Live (replicate 480 7)]"
    "next_id s1 = 2" "th_InsertTuple False 1 (tuple_of (replicate 480 7)) RID_default s =
      Some (True, rid_at 1 0, set_txn (add_write (rid_at 1 0) INSERT Tuple_default 1 (Transaction_new 0)) s1)"
    using one_tuple [of "replicate 480 7"] by fastforce
  have e: "set_txn t (set_txn t' s1) = set_txn t s1" for t t' by (simp add: set_txn_def)
  show ?thesis
    using abort_loses_update [of 1 "set_txn (Transaction_new 1) s1" "replicate 480 7" "replicate 471 8" 1 9] s
    by (simp add: e)
qed

end
