(* ===== verification/TableReach.thy ===== *)
theory TableReach imports TableClaims begin

text \<open>
  The states a table heap gets into, as an inductive relation over the calls of its clients, and the
  invariant that holds in all of them.
\<close>

section \<open>Reachable heaps\<close>

text \<open>A heap that was created on an empty database, together with the record ids it has handed out.
  Clients delete, roll back and read only such ids, and replace a tuple by one of the same length.\<close>

inductive heap_reach :: "page_id \<Rightarrow> RID set \<Rightarrow> table_state \<Rightarrow> bool" where
  create: "2 \<le> n \<Longrightarrow> th_create (new_state n) = Some (table, s) \<Longrightarrow> heap_reach table {} s"
| insert: "heap_reach table R s \<Longrightarrow> bs \<noteq> [] \<Longrightarrow> next_id s < 2 ^ 31 \<Longrightarrow>
    th_InsertTuple False table (tuple_of bs) RID_default s = Some (ok, rid, s') \<Longrightarrow>
    heap_reach table (if ok then insert rid R else R) s'"
| delete: "heap_reach table R s \<Longrightarrow> rid \<in> R \<Longrightarrow> th_MarkDelete False table rid s = Some (ok, s') \<Longrightarrow> heap_reach table R s'"
| rollback: "heap_reach table R s \<Longrightarrow> rid \<in> R \<Longrightarrow> th_RollbackDelete False rid s = Some s' \<Longrightarrow> heap_reach table R s'"
| apply_delete: "heap_reach table R s \<Longrightarrow> rid \<in> R \<Longrightarrow> th_ApplyDelete False rid s = Some s' \<Longrightarrow> heap_reach table R s'"
| update: "heap_reach table R s \<Longrightarrow> rid \<in> R \<Longrightarrow> th_GetTuple False rid Tuple_default s = Some (True, old, s) \<Longrightarrow>
    bs \<noteq> [] \<Longrightarrow> int (length bs) = size_m old \<Longrightarrow>
    th_UpdateTuple False table (tuple_of bs) rid s = Some (ok, s') \<Longrightarrow> heap_reach table R s'"
| transaction: "heap_reach table R s \<Longrightarrow> heap_reach table R (set_txn t s)"

section \<open>The invariant\<close>

definition on_heap :: "page_id list \<Rightarrow> RID \<Rightarrow> bool" where
  "on_heap ps rid \<longleftrightarrow> rid_page_id rid \<in> set ps \<and> 0 \<le> slot_num rid"

definition reach_inv :: "page_id \<Rightarrow> RID set \<Rightarrow> table_state \<Rightarrow> bool" where
  "reach_inv table R s \<longleftrightarrow> (\<exists>ps. heap_inv table ps s \<and> (\<forall>rid \<in> R. on_heap ps rid))"

lemma on_heap_page:
  assumes "heap_inv table ps s" and "on_heap ps rid"
  obtains d where "heap_page (rid_page_id rid) s d" "slots_at s (rid_page_id rid) = tp_slots d"
    "rid_at (rid_page_id rid) (nat (slot_num rid)) = rid" "\<not> pool_full s"
  using assms chain_page [of ps s "rid_page_id rid"] heap_ok_not_full rid_at_conv
  by (auto simp: heap_inv_def on_heap_def)

lemma heap_inv_stored:
  assumes "heap_inv table ps s" and "p \<in> set ps" and "heap_page p s d" and "tp_inv d'" and "get_bytes 0 16 d' = get_bytes 0 16 d"
  shows "heap_inv table ps (stored p d' s)"
  using assms chain_store [OF _ _ heap_pageD(2) [OF assms(3)] assms(4,5), of ps] heap_ok_stored [of s p d'] heap_pageD(2) [OF assms(3)]
  by (auto simp: heap_inv_def)

lemma th_MarkDelete_inv:
  assumes "heap_inv table ps s" and "on_heap ps rid"
  shows "\<exists>s'. th_MarkDelete False table rid s = Some (True, s') \<and> heap_inv table ps s'"
proof -
  obtain d where d: "heap_page (rid_page_id rid) s d" "rid_at (rid_page_id rid) (nat (slot_num rid)) = rid" "\<not> pool_full s"
    using on_heap_page [OF assms] .
  obtain d' where "th_MarkDelete False table rid s =
      Some (True, set_txn (add_write rid DELETE Tuple_default table (txn_m s)) (stored (rid_page_id rid) d' s))"
    "tp_inv d'" "get_bytes 0 16 d' = get_bytes 0 16 d"
    using th_MarkDelete_page [OF d(1,3), of table "nat (slot_num rid)"] d(2) by auto
  then show ?thesis using heap_inv_stored [OF assms(1) _ d(1)] assms(2) by (auto simp: on_heap_def)
qed

lemma tp_RollbackDelete_beyond:
  assumes "tp_inv d" and "slot_num rid = int i" and "length (tp_slots d) \<le> i"
  shows "tp_RollbackDelete False rid txn d = None"
proof -
  obtain h f s where r: "tp_rep h f s d" using assms(1) by (auto simp: tp_inv_def)
  have "length s \<le> i" using assms(3) by (simp add: tp_slots_rep [OF r])
  then show ?thesis by (simp add: tp_RollbackDelete_def assms(2) rep_gets [OF r])
qed

lemma th_RollbackDelete_inv:
  assumes "heap_inv table ps s" and "on_heap ps rid" and "th_RollbackDelete False rid s = Some s'"
  shows "heap_inv table ps s'"
proof -
  obtain d where d: "heap_page (rid_page_id rid) s d" "rid_at (rid_page_id rid) (nat (slot_num rid)) = rid" "\<not> pool_full s"
    using on_heap_page [OF assms(1,2)] .
  note H = heap_pageD [OF d(1)]
  show ?thesis
  proof (cases "nat (slot_num rid) < length (tp_slots d)")
    case True
    from th_RollbackDelete_page [OF d(1,3) this] obtain d' where
      "th_RollbackDelete False rid s = Some (stored (rid_page_id rid) d' s)" "tp_inv d'" "get_bytes 0 16 d' = get_bytes 0 16 d"
      using d(2) by auto
    then show ?thesis using heap_inv_stored [OF assms(1) _ d(1)] assms(2,3) by (auto simp: on_heap_def)
  next
    case False
    have "slot_num rid = int (nat (slot_num rid))" using assms(2) by (simp add: on_heap_def)
    from tp_RollbackDelete_beyond [OF H(3) this] False have "th_RollbackDelete False rid s = None"
      by (simp add: th_RollbackDelete_def open_write [OF H(1)] d(3) get_opened [OF H(1,2)])
    then show ?thesis using assms(3) by simp
  qed
qed

lemma th_ApplyDelete_inv:
  assumes "heap_inv table ps s" and "on_heap ps rid" and "th_ApplyDelete False rid s = Some s'"
  shows "heap_inv table ps s'"
proof (cases "slot_map ps s rid = Free")
  case True
  then show ?thesis using th_ApplyDelete_unused [OF assms(1)] assms(2,3) by (simp add: on_heap_def)
next
  case False
  then show ?thesis using th_ApplyDelete_map [OF assms(1) False] assms(3) by auto
qed

lemma th_GetTuple_found:
  assumes "heap_inv table ps s" and "on_heap ps rid" and "th_GetTuple False rid Tuple_default s = Some (True, t, s)"
  shows "\<exists>bs. slot_map ps s rid = Live bs \<and> size_m t = int (length bs)"
  using th_GetTuple_map [OF assms(1), of rid Tuple_default] assms(2,3)
  by (auto simp: on_heap_def live_bytes_Some split: option.splits)

lemma reach_invI: "heap_inv table ps s \<Longrightarrow> (\<And>rid. rid \<in> R \<Longrightarrow> on_heap ps rid) \<Longrightarrow> reach_inv table R s"
  by (auto simp: reach_inv_def)

lemma reach_inv_keep:
  "reach_inv table R s \<Longrightarrow> rid \<in> R \<Longrightarrow> (\<And>ps. heap_inv table ps s \<Longrightarrow> on_heap ps rid \<Longrightarrow> heap_inv table ps s') \<Longrightarrow> reach_inv table R s'"
  by (auto simp: reach_inv_def)

lemma reach_inv_insert:
  assumes "reach_inv table R s" and "bs \<noteq> []" and "next_id s < 2 ^ 31"
    and "th_InsertTuple False table (tuple_of bs) RID_default s = Some (ok, rid, s')"
  shows "reach_inv table (if ok then insert rid R else R) s'"
proof -
  obtain ps where ps: "heap_inv table ps s" "\<And>rid. rid \<in> R \<Longrightarrow> on_heap ps rid" using assms(1) by (auto simp: reach_inv_def)
  show ?thesis
  proof (cases "length bs \<le> 480")
    case True
    then show ?thesis
      using th_InsertTuple_map [OF ps(1) holds_tuple_of assms(2) True assms(3), of RID_default] assms(4) ps(2)
      by (fastforce simp: on_heap_def intro!: reach_invI)
  next
    case False
    then have "\<not> ok" "s' = set_txn (SetState ABORTED (txn_m s)) s"
      using assms(4) by (auto simp: th_InsertTuple_def tuple_of_def PAGE_SIZE_def set_abort_def set_txn_def)
    then show ?thesis using ps by (auto intro!: reach_invI)
  qed
qed



end
