(* ===== verification/HeaderPage.thy ===== *)
theory HeaderPage imports RawPage BTreeInsert begin

text \<open>
  The header page of \<open>page/header_page.cpp\<close>: the root page ids of the indexes under their names, in
  records of 36 bytes behind a count.  The operations work on the bytes of the page; \<open>hp_records\<close> reads off
  the records, on which the tree's own model of the header page works, and the lemmas show that the bytes
  implement it as long as there is room.
\<close>

section \<open>Operations\<close>

text \<open>\<open>strcmp(raw, name.c_str()) == 0\<close>, reading the page byte by byte; \<open>None\<close> behind its end.\<close>

fun c_str_equal :: "bytes \<Rightarrow> bytes \<Rightarrow> bool option" where
  "c_str_equal (x # xs) (y # ys) = (if x \<noteq> y then Some False else if x = 0 then Some True else c_str_equal xs ys)"
| "c_str_equal _ _ = None"

definition c_str :: "string \<Rightarrow> bytes" where
  "c_str name = map char_byte name @ [0]"

definition hp_GetRecordCount :: "bytes \<Rightarrow> int option" where
  "hp_GetRecordCount d = page_get 0 d"

definition hp_SetRecordCount :: "int \<Rightarrow> bytes \<Rightarrow> bytes option" where
  "hp_SetRecordCount record_count d = page_put 0 record_count d"

definition hp_Init :: "bytes \<Rightarrow> bytes option" where
  "hp_Init d = hp_SetRecordCount 0 d"

fun hp_find :: "string \<Rightarrow> int list \<Rightarrow> bytes \<Rightarrow> int option" where
  "hp_find name [] d = Some (- 1)"
| "hp_find name (i # is) d =
     do { eq \<leftarrow> c_str_equal (drop (nat (4 + i * 36)) d) (c_str name);
          if eq then Some i else hp_find name is d }"

definition hp_FindRecord :: "string \<Rightarrow> bytes \<Rightarrow> int option" where
  "hp_FindRecord name d = do { record_num \<leftarrow> hp_GetRecordCount d; hp_find name [0..record_num - 1] d }"

definition hp_InsertRecord :: "string \<Rightarrow> page_id \<Rightarrow> bytes \<Rightarrow> (bool \<times> bytes) option" where
  "hp_InsertRecord name root_id d =
     do { _ \<leftarrow> assert_that (length name < 32);
          _ \<leftarrow> assert_that (root_id > INVALID_PAGE_ID);
          record_num \<leftarrow> hp_GetRecordCount d;
          let offset = 4 + record_num * 36;
          found \<leftarrow> hp_FindRecord name d;
          if found \<noteq> - 1 then Some (False, d)
          else do {
            d \<leftarrow> page_write offset (c_str name) d;
            d \<leftarrow> page_put (offset + 32) root_id d;
            d \<leftarrow> hp_SetRecordCount (record_num + 1) d;
            Some (True, d) } }"

definition hp_DeleteRecord :: "string \<Rightarrow> bytes \<Rightarrow> (bool \<times> bytes) option" where
  "hp_DeleteRecord name d =
     do { record_num \<leftarrow> hp_GetRecordCount d;
          _ \<leftarrow> assert_that (record_num > 0);
          index \<leftarrow> hp_FindRecord name d;
          if index = - 1 then Some (False, d)
          else do {
            let offset = index * 36 + 4;
            d \<leftarrow> page_move offset (offset + 36) ((record_num - index - 1) * 36) d;
            d \<leftarrow> hp_SetRecordCount (record_num - 1) d;
            Some (True, d) } }"

definition hp_UpdateRecord :: "string \<Rightarrow> page_id \<Rightarrow> bytes \<Rightarrow> (bool \<times> bytes) option" where
  "hp_UpdateRecord name root_id d =
     do { _ \<leftarrow> assert_that (length name < 32);
          index \<leftarrow> hp_FindRecord name d;
          if index = - 1 then Some (False, d)
          else do {
            let offset = index * 36 + 4;
            d \<leftarrow> page_put (offset + 32) root_id d;
            Some (True, d) } }"

definition hp_GetRootId :: "string \<Rightarrow> bytes \<Rightarrow> page_id option option" where
  "hp_GetRootId name d =
     do { _ \<leftarrow> assert_that (length name < 32);
          index \<leftarrow> hp_FindRecord name d;
          if index = - 1 then Some None
          else do { root_id \<leftarrow> page_get ((index + 1) * 36) d; Some (Some root_id) } }"

section \<open>The records\<close>

text \<open>A name the page can hold: fewer than 32 characters, none of them NUL.\<close>

definition hp_name_ok :: "string \<Rightarrow> bool" where
  "hp_name_ok name \<longleftrightarrow> length name < 32 \<and> 0 \<notin> set (map char_byte name)"

definition hp_name :: "nat \<Rightarrow> bytes \<Rightarrow> string" where
  "hp_name i d = map byte_char (takeWhile (\<lambda>b. b \<noteq> 0) (get_bytes (4 + 36 * i) 32 d))"

definition hp_records :: "bytes \<Rightarrow> (string \<times> page_id) list" where
  "hp_records d = map (\<lambda>i. (hp_name i d, get_int (36 + 36 * i) d)) [0..<nat (get_int 0 d)]"

definition hp_inv :: "bytes \<Rightarrow> bool" where
  "hp_inv d \<longleftrightarrow> length d = 512 \<and> 0 \<le> get_int 0 d \<and> get_int 0 d \<le> 14 \<and>
     (\<forall>i < nat (get_int 0 d). 0 \<in> set (get_bytes (4 + 36 * i) 32 d)) \<and> distinct (map fst (hp_records d))"

lemma length_hp_records [simp]: "length (hp_records d) = nat (get_int 0 d)"
  by (simp add: hp_records_def)

lemma nth_hp_records [simp]: "i < nat (get_int 0 d) \<Longrightarrow> hp_records d ! i = (hp_name i d, get_int (36 + 36 * i) d)"
  by (simp add: hp_records_def)

lemma char_byte_inj [simp]: "char_byte a = char_byte b \<longleftrightarrow> a = b"
  by (metis byte_char_char_byte)

lemma char_byte_byte_char [simp]: "char_byte (byte_char b) = b"
proof -
  have "unat b < 256" using unsigned_less [of b] by simp
  then show ?thesis by (simp add: byte_char_def char_byte_def)
qed

lemma c_str_equal_spec:
  "0 \<in> set xs \<Longrightarrow> c_str_equal (xs @ zs) (ys @ [0]) = Some (takeWhile (\<lambda>b. b \<noteq> 0) xs = takeWhile (\<lambda>b. b \<noteq> 0) ys)"
  by (induction xs arbitrary: ys) (case_tac ys; auto)+

lemma takeWhile_c_str: "hp_name_ok name \<Longrightarrow> takeWhile (\<lambda>b. b \<noteq> 0) (map char_byte name) = map char_byte name"
  by (auto simp: hp_name_ok_def takeWhile_eq_all_conv)

lemma hp_name_eq: "map char_byte (hp_name i d) = takeWhile (\<lambda>b. b \<noteq> 0) (get_bytes (4 + 36 * i) 32 d)"
  by (simp add: hp_name_def comp_def)

lemma hp_compare:
  assumes "hp_inv d" and "i < nat (get_int 0 d)" and "hp_name_ok name"
  shows "c_str_equal (drop (nat (4 + int i * 36)) d) (c_str name) = Some (hp_name i d = name)"
proof -
  define x where "x = get_bytes (4 + 36 * i) 32 d"
  have d: "drop (4 + 36 * i) d = x @ drop 32 (drop (4 + 36 * i) d)"
    by (simp only: x_def get_bytes_def append_take_drop_id)
  have "0 \<in> set x" using assms by (simp add: hp_inv_def x_def)
  from c_str_equal_spec [OF this, of "drop 32 (drop (4 + 36 * i) d)" "map char_byte name"]
  have "c_str_equal (drop (4 + 36 * i) d) (c_str name) = Some (map char_byte (hp_name i d) = map char_byte name)"
    by (simp only: c_str_def takeWhile_c_str [OF assms(3)] hp_name_eq x_def [symmetric] d [symmetric])
  moreover have "map char_byte (hp_name i d) = map char_byte name \<longleftrightarrow> hp_name i d = name"
    by (simp add: inj_map_eq_map inj_def)
  moreover have "nat (4 + int i * 36) = 4 + 36 * i" by simp
  ultimately show ?thesis by simp
qed

lemma hp_find_spec:
  assumes "hp_inv d" and "hp_name_ok name" and "set is \<subseteq> {0..get_int 0 d - 1}"
  shows "hp_find name is d = Some (case find (\<lambda>i. hp_name (nat i) d = name) is of Some i \<Rightarrow> i | None \<Rightarrow> - 1)"
  using assms(3)
proof (induction "is")
  case (Cons i "is")
  then have "c_str_equal (drop (nat (4 + i * 36)) d) (c_str name) = Some (hp_name (nat i) d = name)"
    using hp_compare [OF assms(1) _ assms(2), of "nat i"] by simp
  then show ?case using Cons by simp
qed simp

text \<open>Finding a record is a search of the list.\<close>

lemma hp_FindRecord_spec:
  assumes "hp_inv d" and "hp_name_ok name"
  shows "(name \<notin> fst ` set (hp_records d) \<and> hp_FindRecord name d = Some (- 1)) \<or>
    (\<exists>i < nat (get_int 0 d). hp_name i d = name \<and> hp_FindRecord name d = Some (int i))"
proof -
  have c: "hp_GetRecordCount d = Some (get_int 0 d)"
    using assms(1) by (simp add: hp_GetRecordCount_def page_get_def inside_def hp_inv_def)
  have f: "hp_FindRecord name d = Some (case find (\<lambda>i. hp_name (nat i) d = name) [0..get_int 0 d - 1] of Some i \<Rightarrow> i | None \<Rightarrow> - 1)"
    using hp_find_spec [OF assms, of "[0..get_int 0 d - 1]"] by (simp add: hp_FindRecord_def c)
  show ?thesis
  proof (cases "find (\<lambda>i. hp_name (nat i) d = name) [0..get_int 0 d - 1]")
    case None
    then have "\<forall>i \<in> {0..get_int 0 d - 1}. hp_name (nat i) d \<noteq> name" by (simp add: find_None_iff)
    then have "hp_name i d \<noteq> name" if "i < nat (get_int 0 d)" for i using that by (force dest: bspec [of _ _ "int i"])
    then have "name \<notin> fst ` set (hp_records d)" unfolding hp_records_def by fastforce
    then show ?thesis using f None by simp
  next
    case (Some i)
    then obtain j where "j < length [0..get_int 0 d - 1]" "hp_name (nat ([0..get_int 0 d - 1] ! j)) d = name" "i = [0..get_int 0 d - 1] ! j"
      by (auto simp: find_Some_iff)
    then have "0 \<le> i" "i < get_int 0 d" "hp_name (nat i) d = name" by (auto simp: nth_upto)
    then show ?thesis using f Some by (intro disjI2 exI [of _ "nat i"]) simp
  qed
qed

section \<open>What the operations do to the records\<close>

lemma hp_inv_length: "hp_inv d \<Longrightarrow> length d = 512"
  by (simp add: hp_inv_def)

lemma hp_count: "hp_inv d \<Longrightarrow> hp_GetRecordCount d = Some (get_int 0 d)"
  by (simp add: hp_GetRecordCount_def page_get_def inside_def hp_inv_def)

lemma hp_entry_cong:
  assumes "get_bytes (4 + 36 * i) 32 d' = get_bytes (4 + 36 * j) 32 d" and "get_int (36 + 36 * i) d' = get_int (36 + 36 * j) d"
  shows "(hp_name i d', get_int (36 + 36 * i) d') = (hp_name j d, get_int (36 + 36 * j) d)"
  using assms by (simp add: hp_name_def)

lemma c_str_name:
  assumes "hp_name_ok name" and "4 + 36 * i + length name + 1 \<le> length d" and "4 + 36 * i + 32 \<le> length d"
    and "get_bytes (4 + 36 * i) (length name + 1) d = c_str name"
  shows "hp_name i d = name" and "0 \<in> set (get_bytes (4 + 36 * i) 32 d)"
proof -
  have l: "length name < 32" using assms(1) by (simp add: hp_name_ok_def)
  have "get_bytes (4 + 36 * i) 32 d = take 32 (drop (4 + 36 * i) d)" by (simp add: get_bytes_def)
  also have "\<dots> = take (length name + 1) (drop (4 + 36 * i) d) @ take (31 - length name) (drop (length name + 1) (drop (4 + 36 * i) d))"
    using l by (simp only: take_add [symmetric]) simp
  finally have e: "get_bytes (4 + 36 * i) 32 d = c_str name @ take (31 - length name) (drop (length name + 1) (drop (4 + 36 * i) d))"
    using assms(4) by (simp add: get_bytes_def)
  show "0 \<in> set (get_bytes (4 + 36 * i) 32 d)" by (simp add: e c_str_def)
  have "takeWhile (\<lambda>b. b \<noteq> 0) (map char_byte name @ 0 # r) = map char_byte name" for r
    using assms(1) by (subst takeWhile_append2) (auto simp: hp_name_ok_def)
  then show "hp_name i d = name" by (simp add: hp_name_def e c_str_def)
qed

lemma hp_InsertRecord_spec:
  assumes inv: "hp_inv d" and name: "hp_name_ok name" and root: "0 \<le> root" "in_range_s 32 root"
  shows "if name \<in> fst ` set (hp_records d) then hp_InsertRecord name root d = Some (False, d)
    else if length (hp_records d) = 14 then hp_InsertRecord name root d = None
    else \<exists>d'. hp_InsertRecord name root d = Some (True, d') \<and> hp_inv d' \<and> hp_records d' = hp_records d @ [(name, root)]"
proof -
  have len: "length d = 512" and n32: "length name < 32" using inv name by (simp_all add: hp_inv_def hp_name_ok_def)
  have a: "root > INVALID_PAGE_ID" using root by (simp add: INVALID_PAGE_ID_def)
  from hp_FindRecord_spec [OF inv name] show ?thesis
  proof (elim disjE)
    assume "\<exists>i < nat (get_int 0 d). hp_name i d = name \<and> hp_FindRecord name d = Some (int i)"
    then obtain i where i: "i < nat (get_int 0 d)" "hp_name i d = name" "hp_FindRecord name d = Some (int i)" by blast
    then have "name \<in> fst ` set (hp_records d)" by (force simp: hp_records_def)
    then show ?thesis using i(3) a n32 by (simp add: hp_InsertRecord_def hp_count [OF inv])
  next
    assume f: "name \<notin> fst ` set (hp_records d) \<and> hp_FindRecord name d = Some (- 1)"
    define n where "n = nat (get_int 0 d)"
    have n: "get_int 0 d = int n" "n \<le> 14" using inv by (simp_all add: n_def hp_inv_def nat_le_iff)
    have off: "nat (4 + int n * 36) = 4 + 36 * n" "nat (36 + int n * 36) = 36 + 36 * n" by simp_all
    have cl: "length (c_str name) = length name + 1" by (simp add: c_str_def)
    show ?thesis
    proof (cases "n = 14")
      case True
      have "hp_InsertRecord name root d = None"
        using f a n32 n len True
        by (auto simp: hp_InsertRecord_def hp_count [OF inv] page_write_def page_put_def inside_def cl bind_eq_None_conv)
      then show ?thesis using f True n by simp
    next
      case False
      then have n14: "n < 14" using n by simp
      define d1 where "d1 = put_bytes (4 + 36 * n) (c_str name) d"
      define d2 where "d2 = put_int (36 + 36 * n) root d1"
      define d3 where "d3 = put_int 0 (int n + 1) d2"
      have l1: "length d1 = 512" using len n14 n32 by (simp add: d1_def cl)
      have l2: "length d2 = 512" using l1 n14 by (simp add: d2_def)
      have l3: "length d3 = 512" using l2 by (simp add: d3_def)
      have run: "hp_InsertRecord name root d = Some (True, d3)"
        using f a n32 n14 len l1 l2
        by (simp add: hp_InsertRecord_def hp_count [OF inv] n page_write_def page_put_def inside_def off cl
            hp_SetRecordCount_def d1_def [symmetric] d2_def [symmetric] d3_def [symmetric])
      have c3: "get_int 0 d3 = int n + 1" using l2 n14 by (simp add: d3_def wrap_s_id)
      have old: "get_bytes (4 + 36 * i) 32 d3 = get_bytes (4 + 36 * i) 32 d" "get_int (36 + 36 * i) d3 = get_int (36 + 36 * i) d"
        if "i < n" for i
      proof -
        have "get_bytes (4 + 36 * i) 32 d3 = get_bytes (4 + 36 * i) 32 d2" "get_int (36 + 36 * i) d3 = get_int (36 + 36 * i) d2"
          using that n14 l2 by (simp_all add: d3_def get_bytes_put_int_other get_int_put_other)
        moreover have "get_bytes (4 + 36 * i) 32 d2 = get_bytes (4 + 36 * i) 32 d1" "get_int (36 + 36 * i) d2 = get_int (36 + 36 * i) d1"
          using that n14 l1 by (simp_all add: d2_def get_bytes_put_int_other get_int_put_other)
        moreover have "get_bytes (4 + 36 * i) 32 d1 = get_bytes (4 + 36 * i) 32 d" "get_int (36 + 36 * i) d1 = get_int (36 + 36 * i) d"
          using that n14 n32 len by (simp_all add: d1_def get_bytes_put_other get_int_write_other cl)
        ultimately show "get_bytes (4 + 36 * i) 32 d3 = get_bytes (4 + 36 * i) 32 d"
          "get_int (36 + 36 * i) d3 = get_int (36 + 36 * i) d" by simp_all
      qed
      have nm: "get_bytes (4 + 36 * n) (length name + 1) d3 = c_str name"
      proof -
        have "get_bytes (4 + 36 * n) (length name + 1) d3 = get_bytes (4 + 36 * n) (length name + 1) d2"
          using n14 n32 l2 by (simp add: d3_def get_bytes_put_int_other)
        moreover have "get_bytes (4 + 36 * n) (length name + 1) d2 = get_bytes (4 + 36 * n) (length name + 1) d1"
          using n14 n32 l1 by (simp add: d2_def get_bytes_put_int_other)
        moreover have "get_bytes (4 + 36 * n) (length name + 1) d1 = c_str name"
          using n14 n32 len by (simp add: d1_def cl)
        ultimately show ?thesis by simp
      qed
      have new: "hp_name n d3 = name" "0 \<in> set (get_bytes (4 + 36 * n) 32 d3)"
        using c_str_name [OF name _ _ nm] n14 n32 l3 by simp_all
      have rt: "get_int (36 + 36 * n) d3 = root"
        using n14 l1 l2 root unfolding d3_def by (simp add: get_int_put_other) (simp add: d2_def wrap_s_id)
      have recs: "hp_records d3 = hp_records d @ [(name, root)]"
        using old new rt n by (simp add: hp_records_def c3 nat_add_distrib hp_name_def)
      have "0 \<in> set (get_bytes (4 + 36 * i) 32 d3)" if "i < Suc n" for i
        using that new(2) old(1) [of i] inv n by (cases "i = n") (auto simp: hp_inv_def)
      then have "hp_inv d3" using l3 c3 n14 recs f inv by (auto simp: hp_inv_def nat_add_distrib)
      then show ?thesis using f n n14 run recs by auto
    qed
  qed
qed

lemma hp_UpdateRecord_spec:
  assumes inv: "hp_inv d" and name: "hp_name_ok name" and root: "in_range_s 32 root"
  shows "\<exists>d'. hp_UpdateRecord name root d = Some (name \<in> fst ` set (hp_records d), d') \<and> hp_inv d' \<and>
    hp_records d' = header_update name root (hp_records d)"
proof -
  have len: "length d = 512" and n32: "length name < 32" using inv name by (simp_all add: hp_inv_def hp_name_ok_def)
  have upd: "name \<notin> fst ` set rs \<Longrightarrow> header_update name root rs = rs" for rs by (induction rs) auto
  from hp_FindRecord_spec [OF inv name] show ?thesis
  proof (elim disjE)
    assume "name \<notin> fst ` set (hp_records d) \<and> hp_FindRecord name d = Some (- 1)"
    then show ?thesis using n32 inv upd by (simp add: hp_UpdateRecord_def)
  next
    assume "\<exists>i < nat (get_int 0 d). hp_name i d = name \<and> hp_FindRecord name d = Some (int i)"
    then obtain i where i: "i < nat (get_int 0 d)" "hp_name i d = name" "hp_FindRecord name d = Some (int i)" by blast
    have i14: "i < 14" using i(1) inv by (auto simp: hp_inv_def)
    define d' where "d' = put_int (36 + 36 * i) root d"
    have l': "length d' = 512" using len i14 by (simp add: d'_def)
    have off: "nat (36 + int i * 36) = 36 + 36 * i" by simp
    have run: "hp_UpdateRecord name root d = Some (True, d')"
      using i(3) n32 i14 len by (simp add: hp_UpdateRecord_def page_put_def inside_def off d'_def)
    have b: "get_bytes (4 + 36 * j) 32 d' = get_bytes (4 + 36 * j) 32 d" if "j < 14" for j
      using that i14 len unfolding d'_def by (cases "j < i"; cases "j = i"; simp add: get_bytes_put_int_other)+
    have c: "get_int 0 d' = get_int 0 d" using i14 len unfolding d'_def by (simp add: get_int_put_other)
    have g: "get_int (36 + 36 * j) d' = (if j = i then root else get_int (36 + 36 * j) d)" if "j < 14" for j
      using that i14 len root unfolding d'_def by (cases "j < i"; cases "j = i") (simp_all add: get_int_put_other wrap_s_id)
    have n14: "nat (get_int 0 d) \<le> 14" using inv by (simp add: hp_inv_def nat_le_iff)
    have recs: "hp_records d' = (hp_records d)[i := (name, root)]"
    proof (rule nth_equalityI)
      fix j assume "j < length (hp_records d')"
      then have j: "j < nat (get_int 0 d)" "j < 14" using n14 c by simp_all
      have "hp_name j d' = hp_name j d" using b [OF j(2)] by (simp add: hp_name_def)
      then show "hp_records d' ! j = (hp_records d)[i := (name, root)] ! j"
        using g [OF j(2)] j(1) i(1,2) c by (cases "j = i") simp_all
    qed (simp add: c)
    have upd': "j < length rs \<Longrightarrow> fst (rs ! j) = name \<Longrightarrow> distinct (map fst rs) \<Longrightarrow> header_update name root rs = rs[j := (name, root)]" for j rs
    proof (induction rs arbitrary: j)
      case (Cons r rs)
      then show ?case using upd by (cases j) (auto simp: image_iff dest: nth_mem)
    qed simp
    have "header_update name root (hp_records d) = (hp_records d)[i := (name, root)]"
      using inv i by (intro upd') (auto simp: hp_inv_def)
    moreover have "hp_inv d'"
    proof -
      have "map fst (hp_records d') = map fst (hp_records d)" using i by (simp add: recs map_update list_update_same_conv)
      moreover have "0 \<in> set (get_bytes (4 + 36 * j) 32 d')" if "j < nat (get_int 0 d)" for j
        using that inv b [of j] n14 by (simp add: hp_inv_def)
      ultimately show ?thesis using inv c l' by (simp add: hp_inv_def)
    qed
    moreover have "name \<in> fst ` set (hp_records d)" using i by (force simp: hp_records_def)
    ultimately show ?thesis using run recs by auto
  qed
qed

lemma hp_GetRootId_spec:
  assumes inv: "hp_inv d" and name: "hp_name_ok name"
  shows "hp_GetRootId name d = Some (map_of (hp_records d) name)"
proof -
  have len: "length d = 512" and n32: "length name < 32" using inv name by (simp_all add: hp_inv_def hp_name_ok_def)
  from hp_FindRecord_spec [OF inv name] show ?thesis
  proof (elim disjE)
    assume f: "name \<notin> fst ` set (hp_records d) \<and> hp_FindRecord name d = Some (- 1)"
    then have "map_of (hp_records d) name = None" by (simp add: map_of_eq_None_iff)
    then show ?thesis using f n32 by (simp add: hp_GetRootId_def)
  next
    assume "\<exists>i < nat (get_int 0 d). hp_name i d = name \<and> hp_FindRecord name d = Some (int i)"
    then obtain i where i: "i < nat (get_int 0 d)" "hp_name i d = name" "hp_FindRecord name d = Some (int i)" by blast
    have i14: "i < 14" using i(1) inv by (auto simp: hp_inv_def)
    have "(name, get_int (36 + 36 * i) d) \<in> set (hp_records d)" using i by (force simp: hp_records_def)
    then have "map_of (hp_records d) name = Some (get_int (36 + 36 * i) d)" using inv by (simp add: hp_inv_def)
    moreover have "nat ((int i + 1) * 36) = 36 + 36 * i" by simp
    ultimately show ?thesis using i(3) n32 i14 len by (simp add: hp_GetRootId_def page_get_def inside_def)
  qed
qed

lemma hp_DeleteRecord_spec:
  assumes inv: "hp_inv d" and name: "hp_name_ok name" and ne: "hp_records d \<noteq> []"
  shows "\<exists>d'. hp_DeleteRecord name d = Some (name \<in> fst ` set (hp_records d), d') \<and> hp_inv d' \<and>
    hp_records d' = filter (\<lambda>r. fst r \<noteq> name) (hp_records d)"
proof -
  have len: "length d = 512" using inv by (simp add: hp_inv_def)
  have pos: "0 < get_int 0 d" using ne inv by (cases "get_int 0 d = 0") (auto simp: hp_inv_def hp_records_def)
  from hp_FindRecord_spec [OF inv name] show ?thesis
  proof (elim disjE)
    assume f: "name \<notin> fst ` set (hp_records d) \<and> hp_FindRecord name d = Some (- 1)"
    then have "filter (\<lambda>r. fst r \<noteq> name) (hp_records d) = hp_records d" by (auto simp: filter_id_conv)
    then show ?thesis using f inv pos by (simp add: hp_DeleteRecord_def hp_count [OF inv])
  next
    assume "\<exists>i < nat (get_int 0 d). hp_name i d = name \<and> hp_FindRecord name d = Some (int i)"
    then obtain i where i: "i < nat (get_int 0 d)" "hp_name i d = name" "hp_FindRecord name d = Some (int i)" by blast
    define n where "n = nat (get_int 0 d)"
    have n: "get_int 0 d = int n" "n \<le> 14" "i < n" using inv i(1) by (simp_all add: n_def hp_inv_def nat_le_iff)
    obtain r where nr: "n = i + 1 + r" using n(3) by (metis Suc_eq_plus1 Suc_leI le_iff_add)
    define k where "k = 36 * r"
    define d1 where "d1 = memmove (4 + 36 * i) (4 + 36 * i + 36) k d"
    define d2 where "d2 = put_int 0 (int n - 1) d1"
    have k: "4 + 36 * i + 36 + k = 4 + 36 * n" "4 + 36 * i + k \<le> 512" "4 + 36 * i + 36 + k \<le> 512"
      using n(2) by (simp_all add: k_def nr)
    have move: "page_move (int i * 36 + 4) (int i * 36 + 4 + 36) ((int n - int i - 1) * 36) d = Some d1"
    proof -
      have "(int n - int i - 1) * 36 = int k" "int i * 36 + 4 = int (4 + 36 * i)" "int (4 + 36 * i) + 36 = int (4 + 36 * i + 36)"
        by (simp_all add: nr k_def)
      then show ?thesis using k(2,3) len by (simp only: page_move_def inside_def d1_def nat_int) simp
    qed
    have l1: "length d1 = 512" using k len by (simp add: d1_def)
    have l2: "length d2 = 512" using l1 by (simp add: d2_def)
    have run: "hp_DeleteRecord name d = Some (True, d2)"
      using i(3) pos l1 move by (simp add: hp_DeleteRecord_def hp_count [OF inv] n(1) hp_SetRecordCount_def page_put_def inside_def d2_def)
    have c2: "get_int 0 d2 = int n - 1" using l1 n by (simp add: d2_def wrap_s_id)
    have m: "get_bytes (4 + 36 * j) 32 d2 = get_bytes (4 + 36 * (if j < i then j else Suc j)) 32 d"
      "get_bytes (36 + 36 * j) 4 d2 = get_bytes (36 + 36 * (if j < i then j else Suc j)) 4 d" if "j < n - 1" for j
    proof -
      have "get_bytes (4 + 36 * j) 32 d2 = get_bytes (4 + 36 * j) 32 d1" "get_bytes (36 + 36 * j) 4 d2 = get_bytes (36 + 36 * j) 4 d1"
        using that n l1 by (simp_all add: d2_def get_bytes_put_int_other)
      moreover have "get_bytes (4 + 36 * j) 32 d1 = get_bytes (4 + 36 * j) 32 d \<and> get_bytes (36 + 36 * j) 4 d1 = get_bytes (36 + 36 * j) 4 d"
        if "j < i" using that n k len by (simp add: d1_def get_bytes_move_other)
      moreover have "get_bytes (4 + 36 * j) 32 d1 = get_bytes (4 + 36 * Suc j) 32 d \<and> get_bytes (36 + 36 * j) 4 d1 = get_bytes (36 + 36 * Suc j) 4 d"
        if ij: "i \<le> j"
      proof -
        obtain m where m: "j = i + m" using le_Suc_ex [OF ij] by blast
        have "m < r" using \<open>j < n - 1\<close> m nr by linarith
        then have kr: "36 * m + 36 \<le> k" by (simp add: k_def)
        define x where "x = 36 * m"
        have x: "4 + 36 * j = (4 + 36 * i) + x" "4 + 36 * Suc j = (4 + 36 * i + 36) + x" "36 + 36 * j = (4 + 36 * i) + (x + 32)"
          "36 + 36 * Suc j = (4 + 36 * i + 36) + (x + 32)" "x + 32 \<le> k" "x + 32 + 4 \<le> k"
          using kr by (simp_all add: x_def m)
        show ?thesis unfolding x(1-4) d1_def
          using get_bytes_move_inside [of "4 + 36 * i" k d "4 + 36 * i + 36" x 32]
            get_bytes_move_inside [of "4 + 36 * i" k d "4 + 36 * i + 36" "x + 32" 4] x(5,6) k(2,3) len by simp
      qed
      ultimately show "get_bytes (4 + 36 * j) 32 d2 = get_bytes (4 + 36 * (if j < i then j else Suc j)) 32 d"
        "get_bytes (36 + 36 * j) 4 d2 = get_bytes (36 + 36 * (if j < i then j else Suc j)) 4 d" by auto
    qed
    have e: "hp_records d2 ! j = hp_records d ! (if j < i then j else Suc j)" if "j < n - 1" for j
    proof -
      have "get_int (36 + 36 * j) d2 = get_int (36 + 36 * (if j < i then j else Suc j)) d" by (rule get_int_cong [OF m(2) [OF that]])
      moreover have "(if j < i then j else Suc j) < nat (get_int 0 d)" "j < nat (get_int 0 d2)" using that n c2 by auto
      ultimately show ?thesis using m(1) [OF that] by (simp add: hp_name_def del: if_split)
    qed
    have recs: "hp_records d2 = take i (hp_records d) @ drop (Suc i) (hp_records d)"
    proof (rule nth_equalityI)
      show "length (hp_records d2) = length (take i (hp_records d) @ drop (Suc i) (hp_records d))" using c2 n by simp
      fix j assume "j < length (hp_records d2)"
      then have "j < n - 1" using c2 by simp
      then show "hp_records d2 ! j = (take i (hp_records d) @ drop (Suc i) (hp_records d)) ! j"
        using e [OF \<open>j < n - 1\<close>] n by (auto simp: nth_append simp del: nth_hp_records)
    qed
    have split: "hp_records d = take i (hp_records d) @ (name, get_int (36 + 36 * i) d) # drop (Suc i) (hp_records d)"
      using id_take_nth_drop [of i "hp_records d"] i by simp
    have dist: "distinct (map fst (hp_records d))" using inv by (simp add: hp_inv_def)
    define L where "L = take i (hp_records d)"
    define R where "R = drop (Suc i) (hp_records d)"
    have LR: "hp_records d = L @ (name, get_int (36 + 36 * i) d) # R" using split by (simp add: L_def R_def)
    have "name \<notin> fst ` set L" "name \<notin> fst ` set R" using dist unfolding LR by auto
    moreover from this have "filter (\<lambda>r. fst r \<noteq> name) L = L" "filter (\<lambda>r. fst r \<noteq> name) R = R"
      by (auto simp: filter_id_conv)
    ultimately have "filter (\<lambda>r. fst r \<noteq> name) (hp_records d) = L @ R" by (simp add: LR)
    then have recs': "hp_records d2 = filter (\<lambda>r. fst r \<noteq> name) (hp_records d)" using recs by (simp add: L_def R_def)
    have "0 \<in> set (get_bytes (4 + 36 * j) 32 d2)" if "j < n - 1" for j
    proof -
      have "(if j < i then j else Suc j) < nat (get_int 0 d)" using that n by (cases "j < i") auto
      then show ?thesis using inv unfolding m(1) [OF that] hp_inv_def by blast
    qed
    moreover have "distinct (map fst (hp_records d2))" using dist by (simp add: recs' distinct_map_filter)
    ultimately have "hp_inv d2" using l2 c2 n by (simp add: hp_inv_def nat_diff_distrib)
    moreover have "name \<in> fst ` set (hp_records d)" by (simp add: LR)
    ultimately show ?thesis using run recs' by auto
  qed
qed

section \<open>Runs\<close>

text \<open>The operations on the page and on the list of records.\<close>

datatype header_call = HInsert string page_id | HDelete string | HUpdate string page_id | HGet string

datatype header_answer = HBool bool | HRoot "page_id option"

fun header_step :: "header_call \<Rightarrow> bytes \<Rightarrow> (header_answer \<times> bytes) option" where
  "header_step (HInsert name r) d = do { (b, d) \<leftarrow> hp_InsertRecord name r d; Some (HBool b, d) }"
| "header_step (HDelete name) d = do { (b, d) \<leftarrow> hp_DeleteRecord name d; Some (HBool b, d) }"
| "header_step (HUpdate name r) d = do { (b, d) \<leftarrow> hp_UpdateRecord name r d; Some (HBool b, d) }"
| "header_step (HGet name) d = do { r \<leftarrow> hp_GetRootId name d; Some (HRoot r, d) }"

fun header_run :: "header_call list \<Rightarrow> bytes \<Rightarrow> (header_answer list \<times> bytes) option" where
  "header_run [] d = Some ([], d)"
| "header_run (c # cs) d = do { (a, d) \<leftarrow> header_step c d; (as, d) \<leftarrow> header_run cs d; Some (a # as, d) }"

fun map_step :: "header_call \<Rightarrow> (string \<rightharpoonup> page_id) \<Rightarrow> header_answer \<times> (string \<rightharpoonup> page_id)" where
  "map_step (HInsert name r) m = (if m name = None then (HBool True, m(name \<mapsto> r)) else (HBool False, m))"
| "map_step (HDelete name) m = (HBool (m name \<noteq> None), m(name := None))"
| "map_step (HUpdate name r) m = (if m name = None then (HBool False, m) else (HBool True, m(name \<mapsto> r)))"
| "map_step (HGet name) m = (HRoot (m name), m)"

fun map_run :: "header_call list \<Rightarrow> (string \<rightharpoonup> page_id) \<Rightarrow> header_answer list \<times> (string \<rightharpoonup> page_id)" where
  "map_run [] m = ([], m)"
| "map_run (c # cs) m = (case map_step c m of (a, m) \<Rightarrow> (case map_run cs m of (as, m) \<Rightarrow> (a # as, m)))"

text \<open>Calls the page serves: the names fit, root ids are page ids, a deletion meets at least one record and an
  insertion fewer than 14.\<close>

fun header_call_ok :: "header_call \<Rightarrow> (string \<rightharpoonup> page_id) \<Rightarrow> bool" where
  "header_call_ok (HInsert name r) m = (hp_name_ok name \<and> 0 \<le> r \<and> r < 2 ^ 31 \<and> (m name = None \<longrightarrow> card (dom m) < 14))"
| "header_call_ok (HDelete name) m = (hp_name_ok name \<and> m \<noteq> Map.empty)"
| "header_call_ok (HUpdate name r) m = (hp_name_ok name \<and> 0 \<le> r \<and> r < 2 ^ 31)"
| "header_call_ok (HGet name) m = hp_name_ok name"

fun header_calls_ok :: "header_call list \<Rightarrow> (string \<rightharpoonup> page_id) \<Rightarrow> bool" where
  "header_calls_ok [] m = True"
| "header_calls_ok (c # cs) m = (header_call_ok c m \<and> header_calls_ok cs (snd (map_step c m)))"

lemma map_of_header_update:
  "map_of (header_update name r rs) = (if name \<in> fst ` set rs then (map_of rs)(name \<mapsto> r) else map_of rs)"
  by (induction rs) (auto simp: fun_eq_iff)

lemma card_dom_records: "hp_inv d \<Longrightarrow> card (dom (map_of (hp_records d))) = length (hp_records d)"
  using distinct_card [of "map fst (hp_records d)"] by (simp add: dom_map_of_conv_image_fst hp_inv_def)

lemma header_step_map:
  assumes inv: "hp_inv d" and ok: "header_call_ok c (map_of (hp_records d))"
  shows "\<exists>d'. header_step c d = Some (fst (map_step c (map_of (hp_records d))), d') \<and> hp_inv d' \<and>
    map_of (hp_records d') = snd (map_step c (map_of (hp_records d)))"
proof (cases c)
  case (HInsert name r)
  have r: "hp_name_ok name" "0 \<le> r" "in_range_s 32 r" using ok by (simp_all add: HInsert)
  note I = hp_InsertRecord_spec [OF inv r]
  show ?thesis
  proof (cases "name \<in> fst ` set (hp_records d)")
    case True
    then have "map_of (hp_records d) name \<noteq> None" by (simp add: map_of_eq_None_iff)
    then show ?thesis using I [unfolded if_P [OF True]] inv by (simp add: HInsert)
  next
    case False
    then have none: "map_of (hp_records d) name = None" by (simp add: map_of_eq_None_iff)
    then have "length (hp_records d) \<noteq> 14" using ok card_dom_records [OF inv] by (simp add: HInsert)
    from I [unfolded if_not_P [OF False] if_not_P [OF this]] obtain d' where
      d': "hp_InsertRecord name r d = Some (True, d')" "hp_inv d'" "hp_records d' = hp_records d @ [(name, r)]" by blast
    have "map_of (hp_records d') = (map_of (hp_records d))(name \<mapsto> r)"
      using none by (auto simp: d'(3) map_add_def fun_eq_iff split: option.splits)
    then show ?thesis using d'(1,2) none by (simp add: HInsert)
  qed
next
  case (HDelete name)
  have "hp_records d \<noteq> []" using ok by (auto simp: HDelete)
  moreover have "map_of (filter (\<lambda>r. fst r \<noteq> name) rs) = (map_of rs)(name := None)" for rs :: "(string \<times> page_id) list"
    by (induction rs) auto
  ultimately show ?thesis using hp_DeleteRecord_spec [OF inv, of name] ok by (auto simp: HDelete map_of_eq_None_iff)
next
  case (HUpdate name r)
  then have r: "hp_name_ok name" "in_range_s 32 r" using ok by simp_all
  define b where "b \<longleftrightarrow> name \<in> fst ` set (hp_records d)"
  have n: "map_of (hp_records d) name = None \<longleftrightarrow> \<not> b" unfolding b_def by (rule map_of_eq_None_iff)
  obtain d' where d': "hp_UpdateRecord name r d = Some (b, d')" "hp_inv d'" "hp_records d' = header_update name r (hp_records d)"
    using hp_UpdateRecord_spec [OF inv r] b_def by blast
  have "map_of (hp_records d') = (if b then (map_of (hp_records d))(name \<mapsto> r) else map_of (hp_records d))"
    by (simp only: d'(3) map_of_header_update b_def)
  then show ?thesis using d'(1,2) n by (cases b) (simp_all add: HUpdate)
next
  case (HGet name)
  then show ?thesis using hp_GetRootId_spec [OF inv, of name] ok inv by simp
qed

lemma header_run_map:
  assumes "hp_inv d" and "header_calls_ok cs (map_of (hp_records d))"
  shows "\<exists>d'. header_run cs d = Some (fst (map_run cs (map_of (hp_records d))), d') \<and> hp_inv d' \<and>
    map_of (hp_records d') = snd (map_run cs (map_of (hp_records d)))"
  using assms
proof (induction cs arbitrary: d)
  case (Cons c cs)
  obtain d1 where d1: "header_step c d = Some (fst (map_step c (map_of (hp_records d))), d1)" "hp_inv d1"
    "map_of (hp_records d1) = snd (map_step c (map_of (hp_records d)))"
    using header_step_map [OF Cons.prems(1), of c] Cons.prems(2) by auto
  have "header_calls_ok cs (map_of (hp_records d1))" using Cons.prems(2) d1(3) by simp
  from Cons.IH [OF d1(2) this] show ?case using d1 by (auto simp: split_beta)
qed simp

lemma hp_Init_spec: "length d = 512 \<Longrightarrow> \<exists>d'. hp_Init d = Some d' \<and> hp_inv d' \<and> hp_records d' = []"
  by (intro exI [of _ "put_int 0 0 d"])
    (simp add: hp_Init_def hp_SetRecordCount_def page_put_def inside_def hp_inv_def hp_records_def wrap_s_id)



text \<open>\<open>InsertRecord\<close> does not test whether a record fits: the fifteenth one is written behind the page.\<close>

theorem header_page_overflows:
  assumes "hp_inv d" and "length (hp_records d) = 14" and "hp_name_ok name" and "name \<notin> fst ` set (hp_records d)"
    and "0 \<le> root" and "root < 2 ^ 31"
  shows "hp_InsertRecord name root d = None"
  using hp_InsertRecord_spec [OF assms(1,3), of root] assms by simp

lemma filled_header: "n \<le> 14 \<Longrightarrow> \<exists>d. hp_inv d \<and> map fst (hp_records d) = map (\<lambda>i. replicate i CHR ''a'') [0..<n]"
proof (induction n)
  case 0
  then show ?case using hp_Init_spec [of "replicate 512 0"] by auto
next
  case (Suc n)
  then obtain d where d: "hp_inv d" "map fst (hp_records d) = map (\<lambda>i. replicate i CHR ''a'') [0..<n]" by auto
  let ?name = "replicate n CHR ''a''"
  have ok: "hp_name_ok ?name" using Suc.prems by (simp add: hp_name_ok_def char_byte_def)
  have "fst ` set (hp_records d) = set (map (\<lambda>i. replicate i CHR ''a'') [0..<n])" by (simp only: d(2) [symmetric] set_map)
  then have new: "?name \<notin> fst ` set (hp_records d)" by (auto dest: arg_cong [of _ _ length])
  have "length (map fst (hp_records d)) = length (map (\<lambda>i. replicate i CHR ''a'') [0..<n])" by (simp only: d(2))
  then have "length (hp_records d) \<noteq> 14" using Suc.prems by simp
  from hp_InsertRecord_spec [OF d(1) ok, of 0, unfolded if_not_P [OF new] if_not_P [OF this]]
  obtain d' where "hp_inv d'" "hp_records d' = hp_records d @ [(?name, 0)]" by auto
  then show ?case using d(2) by (intro exI [of _ d']) simp
qed

theorem header_page_overflows_witness: "\<exists>d. length d = 512 \<and> hp_InsertRecord ''foo'' 1 d = None"
proof -
  obtain d where d: "hp_inv d" "map fst (hp_records d) = map (\<lambda>i. replicate i CHR ''a'') [0..<14]" using filled_header [of 14] by auto
  have ok: "hp_name_ok ''foo''" by (simp add: hp_name_ok_def char_byte_def)
  have "fst ` set (hp_records d) = set (map (\<lambda>i. replicate i CHR ''a'') [0..<14])" by (simp only: d(2) [symmetric] set_map)
  moreover have "''foo'' \<noteq> replicate i CHR ''a''" for i by (cases i) auto
  ultimately have "''foo'' \<notin> fst ` set (hp_records d)" by auto
  moreover have "length (map fst (hp_records d)) = length (map (\<lambda>i. replicate i CHR ''a'') [0..<14])" by (simp only: d(2))
  ultimately show ?thesis using header_page_overflows [OF d(1) _ ok] d(1) by (auto simp: hp_inv_def)
qed

end
