(* ===== verification/RWMutex.thy ===== *)
theory RWMutex imports Base "HOL-Library.Word" begin

text \<open>
  The reader-writer lock of \<open>common/rwmutex.h\<close>, which every page and the root of a B+ tree latch with.
  Its mutex makes the code between two waits one step, so the lock is a step relation over the states of
  its threads.  A thread that waits on a condition variable goes on after a notification (\<open>woken\<close>), or
  without one, which condition variables allow, and tests its loop condition again.
\<close>

section \<open>The state\<close>

text \<open>Where a thread is: outside, in the first or second loop of \<open>WLock\<close>, in the loop of \<open>RLock\<close>, or
  holding the lock.\<close>

datatype rw_pc = Outside | WaitEnter | WaitDrain | WaitRead | Writing | Reading

record rw_lock =
  reader_count :: "32 word"
  writer_entered :: bool
  pc :: "nat \<Rightarrow> rw_pc"
  woken :: "nat set"

definition max_readers :: "32 word" where
  "max_readers = - 1"

definition RWMutex_new :: rw_lock where
  "RWMutex_new = \<lparr>reader_count = 0, writer_entered = False, pc = (\<lambda>_. Outside), woken = {}\<rparr>"

text \<open>The threads that wait on the condition variables \<open>reader_\<close> and \<open>writer_\<close>.\<close>

definition on_reader :: "rw_lock \<Rightarrow> nat \<Rightarrow> bool" where
  "on_reader s t \<longleftrightarrow> pc s t = WaitEnter \<or> pc s t = WaitRead"

definition on_writer :: "rw_lock \<Rightarrow> nat \<Rightarrow> bool" where
  "on_writer s t \<longleftrightarrow> pc s t = WaitDrain"

section \<open>The operations\<close>

definition move :: "nat \<Rightarrow> rw_pc \<Rightarrow> rw_lock \<Rightarrow> rw_lock" where
  "move t q s = s\<lparr>pc := (pc s)(t := q), woken := woken s - {t}\<rparr>"

text \<open>\<open>WLock\<close> from its second loop on, from its first loop on, and \<open>RLock\<close>: one test of the condition,
  which ends in the wait or behind the loop.\<close>

definition try_drain :: "nat \<Rightarrow> rw_lock \<Rightarrow> rw_lock" where
  "try_drain t s = (if reader_count s > 0 then move t WaitDrain s else move t Writing s)"

definition try_enter :: "nat \<Rightarrow> rw_lock \<Rightarrow> rw_lock" where
  "try_enter t s = (if writer_entered s then move t WaitEnter s else try_drain t (s\<lparr>writer_entered := True\<rparr>))"

definition try_read :: "nat \<Rightarrow> rw_lock \<Rightarrow> rw_lock" where
  "try_read t s = (if writer_entered s \<or> reader_count s = max_readers then move t WaitRead s
     else move t Reading (s\<lparr>reader_count := reader_count s + 1\<rparr>))"

text \<open>\<open>notify_all\<close> wakes every waiting thread; \<open>notify_one\<close> wakes one that is still asleep, if there is any.\<close>

definition notify_all :: "(rw_lock \<Rightarrow> nat \<Rightarrow> bool) \<Rightarrow> rw_lock \<Rightarrow> rw_lock" where
  "notify_all cv s = s\<lparr>woken := woken s \<union> {t. cv s t}\<rparr>"

inductive notify_one :: "(rw_lock \<Rightarrow> nat \<Rightarrow> bool) \<Rightarrow> rw_lock \<Rightarrow> rw_lock \<Rightarrow> bool" for cv where
  some: "cv s t \<Longrightarrow> t \<notin> woken s \<Longrightarrow> notify_one cv s (s\<lparr>woken := insert t (woken s)\<rparr>)"
| none: "\<forall>t. cv s t \<longrightarrow> t \<in> woken s \<Longrightarrow> notify_one cv s s"

definition WUnlock :: "nat \<Rightarrow> rw_lock \<Rightarrow> rw_lock" where
  "WUnlock t s = notify_all on_reader (move t Outside (s\<lparr>writer_entered := False\<rparr>))"

inductive RUnlock :: "nat \<Rightarrow> rw_lock \<Rightarrow> rw_lock \<Rightarrow> bool" for t s where
  last_for_writer: "s' = move t Outside (s\<lparr>reader_count := reader_count s - 1\<rparr>) \<Longrightarrow> writer_entered s' \<Longrightarrow>
    reader_count s' = 0 \<Longrightarrow> notify_one on_writer s' s'' \<Longrightarrow> RUnlock t s s''"
| for_writer: "s' = move t Outside (s\<lparr>reader_count := reader_count s - 1\<rparr>) \<Longrightarrow> writer_entered s' \<Longrightarrow>
    reader_count s' \<noteq> 0 \<Longrightarrow> RUnlock t s s'"
| full: "s' = move t Outside (s\<lparr>reader_count := reader_count s - 1\<rparr>) \<Longrightarrow> \<not> writer_entered s' \<Longrightarrow>
    reader_count s' = max_readers - 1 \<Longrightarrow> notify_one on_reader s' s'' \<Longrightarrow> RUnlock t s s''"
| plain: "s' = move t Outside (s\<lparr>reader_count := reader_count s - 1\<rparr>) \<Longrightarrow> \<not> writer_entered s' \<Longrightarrow>
    reader_count s' \<noteq> max_readers - 1 \<Longrightarrow> RUnlock t s s'"

text \<open>One step of a thread.  Only a thread that holds the lock gives it back.\<close>

inductive rw_step :: "nat \<Rightarrow> rw_lock \<Rightarrow> rw_lock \<Rightarrow> bool" for t s where
  WLock: "pc s t = Outside \<Longrightarrow> rw_step t s (try_enter t s)"
| RLock: "pc s t = Outside \<Longrightarrow> rw_step t s (try_read t s)"
| retry_enter: "pc s t = WaitEnter \<Longrightarrow> rw_step t s (try_enter t s)"
| retry_drain: "pc s t = WaitDrain \<Longrightarrow> rw_step t s (try_drain t s)"
| retry_read: "pc s t = WaitRead \<Longrightarrow> rw_step t s (try_read t s)"
| wunlock: "pc s t = Writing \<Longrightarrow> rw_step t s (WUnlock t s)"
| runlock: "pc s t = Reading \<Longrightarrow> RUnlock t s s' \<Longrightarrow> rw_step t s s'"

text \<open>The states that \<open>n\<close> threads reach.\<close>

inductive rw_reach :: "nat \<Rightarrow> rw_lock \<Rightarrow> bool" for n where
  start: "rw_reach n RWMutex_new"
| step: "rw_reach n s \<Longrightarrow> t < n \<Longrightarrow> rw_step t s s' \<Longrightarrow> rw_reach n s'"

inductive_cases rw_stepE: "rw_step t s s'"

section \<open>The invariant\<close>

definition readers :: "rw_lock \<Rightarrow> nat set" where
  "readers s = {t. pc s t = Reading}"

definition writers :: "rw_lock \<Rightarrow> nat set" where
  "writers s = {t. pc s t = Writing \<or> pc s t = WaitDrain}"

text \<open>The count is the number of readers, a writer has entered exactly when one thread is behind the first
  loop of \<open>WLock\<close>, and it holds the lock only when there is no reader.\<close>

definition rw_inv :: "nat \<Rightarrow> rw_lock \<Rightarrow> bool" where
  "rw_inv n s \<longleftrightarrow> (\<forall>t. pc s t \<noteq> Outside \<longrightarrow> t < n) \<and> unat (reader_count s) = card (readers s) \<and>
     (if writer_entered s then \<exists>t. writers s = {t} else writers s = {}) \<and>
     (\<forall>t. pc s t = Writing \<longrightarrow> readers s = {}) \<and>
     woken s \<subseteq> {t. on_reader s t \<or> on_writer s t}"

lemma rw_inv_finite: "rw_inv n s \<Longrightarrow> finite (readers s)"
  by (rule finite_subset [of _ "{..<n}"]) (auto simp: rw_inv_def readers_def)

lemma rw_inv_start: "rw_inv n RWMutex_new"
  by (simp add: rw_inv_def RWMutex_new_def readers_def writers_def)

lemma move_simps [simp]:
  "reader_count (move t q s) = reader_count s" "writer_entered (move t q s) = writer_entered s"
  "pc (move t q s) = (pc s)(t := q)" "woken (move t q s) = woken s - {t}"
  by (simp_all add: move_def)

lemma readers_move: "readers (move t q s) = (if q = Reading then insert t (readers s) else readers s - {t})"
  by (auto simp: readers_def)

lemma writers_move: "writers (move t q s) = (if q = Writing \<or> q = WaitDrain then insert t (writers s) else writers s - {t})"
  by (auto simp: writers_def)

lemma update_readers [simp]:
  "readers (s\<lparr>reader_count := x\<rparr>) = readers s" "readers (s\<lparr>writer_entered := b\<rparr>) = readers s" "readers (s\<lparr>woken := W\<rparr>) = readers s"
  "writers (s\<lparr>reader_count := x\<rparr>) = writers s" "writers (s\<lparr>writer_entered := b\<rparr>) = writers s" "writers (s\<lparr>woken := W\<rparr>) = writers s"
  by (simp_all add: readers_def writers_def)

lemma on_cv_updates [simp]:
  "on_reader (s\<lparr>woken := W\<rparr>) = on_reader s" "on_writer (s\<lparr>woken := W\<rparr>) = on_writer s"
  by (simp_all add: on_reader_def on_writer_def fun_eq_iff)

lemma rw_inv_woken: "rw_inv n s \<Longrightarrow> W \<subseteq> {t. on_reader s t \<or> on_writer s t} \<Longrightarrow> rw_inv n (s\<lparr>woken := W\<rparr>)"
  by (simp add: rw_inv_def)

lemma count_positive: "rw_inv n s \<Longrightarrow> 0 < reader_count s \<longleftrightarrow> readers s \<noteq> {}"
  using rw_inv_finite [of n s] by (auto simp: rw_inv_def word_less_nat_alt unat_eq_zero)

lemma rw_inv_wait:
  assumes "rw_inv n s" and "t < n" and "q = WaitEnter \<or> q = WaitRead" and "pc s t \<in> {Outside, WaitEnter, WaitRead}"
  shows "rw_inv n (move t q s)"
proof -
  have "t \<notin> readers s" "t \<notin> writers s" using assms(4) by (auto simp: readers_def writers_def)
  then have "readers (move t q s) = readers s" "writers (move t q s) = writers s"
    using assms(3) by (auto simp: readers_move writers_move)
  then show ?thesis using assms by (auto simp: rw_inv_def on_reader_def on_writer_def)
qed

lemma rw_inv_drain:
  assumes "\<forall>t. pc s t \<noteq> Outside \<longrightarrow> t < n" and "unat (reader_count s) = card (readers s)" and "writer_entered s"
    and "writers s \<subseteq> {t}" and "woken s \<subseteq> {t. on_reader s t \<or> on_writer s t}" and "t < n" and "t \<notin> readers s"
  shows "rw_inv n (try_drain t s)"
proof -
  have fin: "finite (readers s)" by (rule finite_subset [of _ "{..<n}"]) (use assms(1) in \<open>auto simp: readers_def\<close>)
  have pos: "0 < reader_count s \<longleftrightarrow> readers s \<noteq> {}" using assms(2) fin by (auto simp: word_less_nat_alt unat_eq_zero)
  have W: "pc s u = Writing \<Longrightarrow> u = t" for u using assms(4) by (auto simp: writers_def)
  have r: "readers (move t q s) = readers s" if "q \<noteq> Reading" for q using that assms(7) by (auto simp: readers_move)
  have w: "writers (move t q s) = {t}" if "q = Writing \<or> q = WaitDrain" for q using that assms(4) by (auto simp: writers_move)
  have o: "woken (move t q s) \<subseteq> {u. on_reader (move t q s) u \<or> on_writer (move t q s) u}" for q
    using assms(5) by (auto simp: on_reader_def on_writer_def)
  have f: "\<forall>u. pc (move t q s) u \<noteq> Outside \<longrightarrow> u < n" for q using assms(1,6) by auto
  show ?thesis
  proof (cases "0 < reader_count s")
    case True
    have "pc (move t WaitDrain s) u \<noteq> Writing" for u using W by auto
    then show ?thesis using True assms(2,3) f o by (auto simp: try_drain_def rw_inv_def r w)
  next
    case False
    then show ?thesis using pos assms(2,3) f o by (auto simp: try_drain_def rw_inv_def r w)
  qed
qed

lemma rw_inv_enter:
  assumes inv: "rw_inv n s" and "t < n" and "pc s t = Outside \<or> pc s t = WaitEnter"
  shows "rw_inv n (try_enter t s)"
proof (cases "writer_entered s")
  case True
  then show ?thesis using assms by (auto simp: try_enter_def intro!: rw_inv_wait)
next
  case False
  let ?s = "s\<lparr>writer_entered := True\<rparr>"
  have "rw_inv n (try_drain t ?s)"
    by (rule rw_inv_drain) (use False assms in \<open>auto simp: rw_inv_def readers_def on_reader_def on_writer_def\<close>)
  then show ?thesis using False by (simp add: try_enter_def)
qed

lemma rw_inv_read:
  assumes inv: "rw_inv n s" and "t < n" and "pc s t = Outside \<or> pc s t = WaitRead"
  shows "rw_inv n (try_read t s)"
proof (cases "writer_entered s \<or> reader_count s = max_readers")
  case True
  then show ?thesis using assms by (auto simp: try_read_def intro!: rw_inv_wait)
next
  case False
  then have "1 + reader_count s \<noteq> 0" by (auto simp: max_readers_def add_eq_0_iff)
  then have "unat (reader_count s + 1) = unat (reader_count s) + 1" using unatSuc [of "reader_count s"] by (simp add: add.commute)
  moreover have "t \<notin> readers s" using assms(3) by (auto simp: readers_def)
  ultimately have c: "unat (reader_count s + 1) = card (insert t (readers s))"
    using rw_inv_finite [OF inv] inv by (simp add: rw_inv_def)
  have w: "writers s = {}" using inv False by (simp add: rw_inv_def)
  then have nw: "pc s u \<noteq> Writing" for u by (auto simp: writers_def)
  have "woken s - {t} \<subseteq> {u. on_reader (move t Reading s) u \<or> on_writer (move t Reading s) u}"
    using inv by (auto simp: rw_inv_def on_reader_def on_writer_def)
  then have "rw_inv n (move t Reading (s\<lparr>reader_count := reader_count s + 1\<rparr>))"
    using inv False c w nw assms(2) unfolding rw_inv_def
    by (auto simp: readers_move writers_move on_reader_def on_writer_def)
  then show ?thesis using False by (simp add: try_read_def)
qed

lemma rw_inv_wunlock:
  assumes inv: "rw_inv n s" and "pc s t = Writing"
  shows "rw_inv n (WUnlock t s)"
proof -
  have "t \<in> writers s" using assms(2) by (simp add: writers_def)
  then have w: "writers s = {t}" using inv by (auto simp: rw_inv_def split: if_splits)
  then have "pc s u = Writing \<Longrightarrow> u = t" for u by (auto simp: writers_def)
  moreover have "t \<notin> readers s" using assms(2) by (simp add: readers_def)
  ultimately have "rw_inv n (move t Outside (s\<lparr>writer_entered := False\<rparr>))"
    using inv w by (auto simp: rw_inv_def readers_move writers_move on_reader_def on_writer_def)
  moreover from this have "woken (move t Outside (s\<lparr>writer_entered := False\<rparr>)) \<union> {u. on_reader (move t Outside (s\<lparr>writer_entered := False\<rparr>)) u}
      \<subseteq> {u. on_reader (move t Outside (s\<lparr>writer_entered := False\<rparr>)) u \<or> on_writer (move t Outside (s\<lparr>writer_entered := False\<rparr>)) u}"
    unfolding rw_inv_def by blast
  ultimately show ?thesis unfolding WUnlock_def notify_all_def by (rule rw_inv_woken)
qed

lemma rw_inv_leave:
  assumes inv: "rw_inv n s" and "pc s t = Reading"
  shows "rw_inv n (move t Outside (s\<lparr>reader_count := reader_count s - 1\<rparr>))"
proof -
  have t: "t \<in> readers s" using assms(2) by (simp add: readers_def)
  then have "0 < reader_count s" using count_positive [OF inv] by blast
  then have "unat (reader_count s - 1) = unat (reader_count s) - 1" by (simp add: unat_minus_one word_neq_0_conv)
  moreover have "writers (move t Outside (s\<lparr>reader_count := reader_count s - 1\<rparr>)) = writers s"
    using assms(2) by (auto simp: writers_move writers_def)
  ultimately show ?thesis
    using inv t rw_inv_finite [OF inv]
    by (auto simp: rw_inv_def readers_move on_reader_def on_writer_def split: if_splits)
qed

lemma rw_inv_notify:
  assumes "rw_inv n s" and "notify_one cv s s'" and "\<And>t. cv s t \<Longrightarrow> on_reader s t \<or> on_writer s t"
  shows "rw_inv n s'"
  using assms(2)
proof (cases rule: notify_one.cases)
  case (some t)
  then show ?thesis using assms(1,3) by (auto intro!: rw_inv_woken simp: rw_inv_def)
qed (use assms(1) in simp)

lemma rw_inv_runlock:
  assumes inv: "rw_inv n s" and "pc s t = Reading" and "RUnlock t s s'"
  shows "rw_inv n s'"
  using assms(3)
proof (cases rule: RUnlock.cases)
  case (last_for_writer x)
  then show ?thesis using rw_inv_notify [of n x on_writer s'] rw_inv_leave [OF assms(1,2)] by blast
next
  case (full x)
  then show ?thesis using rw_inv_notify [of n x on_reader s'] rw_inv_leave [OF assms(1,2)] by blast
qed (use rw_inv_leave [OF assms(1,2)] in simp_all)

lemma rw_inv_step: "rw_step t s s' \<Longrightarrow> rw_inv n s \<Longrightarrow> t < n \<Longrightarrow> rw_inv n s'"
proof (induction rule: rw_step.induct)
  case retry_drain
  then have "t \<in> writers s" by (simp add: writers_def)
  then have "writer_entered s" "writers s = {t}" using retry_drain by (auto simp: rw_inv_def split: if_splits)
  then show ?case using retry_drain by (intro rw_inv_drain) (auto simp: rw_inv_def readers_def)
qed (auto intro: rw_inv_enter rw_inv_read rw_inv_wunlock rw_inv_runlock)

lemma rw_reach_inv: "rw_reach n s \<Longrightarrow> rw_inv n s"
  by (induction rule: rw_reach.induct) (auto intro: rw_inv_start rw_inv_step)

end
