(* ===== verification/RWMutexProps.thy ===== *)
theory RWMutexProps imports RWMutex begin

text \<open>
  What the reader-writer lock promises: exclusion, no lost notification and progress for a bounded number
  of threads, and the notification it loses when as many readers as it can count hold it.
\<close>

section \<open>Exclusion\<close>

text \<open>C22. In every state the threads reach, the lock counts its readers exactly, at most one thread writes, and
  no thread reads while one writes.\<close>

theorem rwmutex_excludes:
  assumes "rw_reach n s"
  shows "unat (reader_count s) = card (readers s) \<and>
    (\<forall>t. pc s t = Writing \<longrightarrow> (\<forall>u. pc s u \<noteq> Reading \<and> (pc s u = Writing \<longrightarrow> u = t)))"
proof -
  have inv: "rw_inv n s" by (rule rw_reach_inv [OF assms])
  have "u = t" if "pc s t = Writing" "pc s u = Writing" for t u
  proof -
    have "t \<in> writers s" "u \<in> writers s" using that by (simp_all add: writers_def)
    then show ?thesis using inv by (auto simp: rw_inv_def split: if_splits)
  qed
  moreover have "pc s u \<noteq> Reading" if "pc s t = Writing" for t u using inv that by (auto simp: rw_inv_def readers_def)
  moreover have "unat (reader_count s) = card (readers s)" using inv by (simp add: rw_inv_def)
  ultimately show ?thesis by blast
qed

text \<open>Thread 0 reads, and thread 1 asks to write.\<close>

definition rw_sample :: rw_lock where
  "rw_sample = try_enter 1 (try_read 0 RWMutex_new)"

lemma rw_sample_reach: "rw_reach 2 rw_sample"
proof -
  have "rw_reach 2 (try_read 0 RWMutex_new)"
    by (rule rw_reach.step [OF rw_reach.start _ rw_step.RLock]) (simp_all add: RWMutex_new_def)
  then show ?thesis unfolding rw_sample_def
    by (rule rw_reach.step [OF _ _ rw_step.WLock]) (simp_all add: try_read_def RWMutex_new_def max_readers_def)
qed

lemma rw_sample_pc: "pc rw_sample = (\<lambda>_. Outside)(0 := Reading, 1 := WaitDrain)" "woken rw_sample = {}"
  by (simp_all add: rw_sample_def try_enter_def try_drain_def try_read_def RWMutex_new_def max_readers_def)

theorem rwmutex_excludes_witness: "rw_reach 2 rw_sample \<and> card (readers rw_sample) = 1 \<and> pc rw_sample 1 = WaitDrain"
proof -
  have "readers rw_sample = {0}" by (auto simp: readers_def rw_sample_pc)
  then show ?thesis using rwmutex_excludes [OF rw_sample_reach] rw_sample_reach by (simp add: rw_sample_pc)
qed

section \<open>No lost notification\<close>

text \<open>A thread that is asleep waits for something that another thread still has to do.\<close>

definition rw_awake :: "rw_lock \<Rightarrow> bool" where
  "rw_awake s \<longleftrightarrow> (\<forall>t. on_reader s t \<longrightarrow> t \<notin> woken s \<longrightarrow> writer_entered s) \<and>
     (\<forall>t. on_writer s t \<longrightarrow> t \<notin> woken s \<longrightarrow> 0 < reader_count s)"

lemma not_full:
  assumes "rw_inv n s" and "n \<le> unat max_readers" and "t < n" and "pc s t \<noteq> Reading"
  shows "reader_count s \<noteq> max_readers"
proof
  assume full: "reader_count s = max_readers"
  have "readers s \<subseteq> {..<n} - {t}" using assms by (auto simp: rw_inv_def readers_def)
  then have "card (readers s) \<le> card ({..<n} - {t})" by (intro card_mono) auto
  also have "\<dots> < n" using assms(3) by simp
  finally show False using full assms(1,2) by (simp add: rw_inv_def)
qed

lemma awake_enter: "rw_awake s \<Longrightarrow> rw_awake (try_enter t s)"
  by (auto simp: try_enter_def try_drain_def rw_awake_def on_reader_def on_writer_def)

lemma awake_drain: "rw_awake s \<Longrightarrow> rw_awake (try_drain t s)"
  by (auto simp: try_drain_def rw_awake_def on_reader_def on_writer_def)

lemma awake_read:
  assumes "rw_awake s" and "reader_count s \<noteq> max_readers" and "writers s = {} \<or> writer_entered s"
  shows "rw_awake (try_read t s)"
  using assms by (auto simp: try_read_def rw_awake_def on_reader_def on_writer_def writers_def)

lemma awake_wunlock:
  assumes "rw_awake s" and "rw_inv n s" and "pc s t = Writing"
  shows "rw_awake (WUnlock t s)"
proof -
  have "t \<in> writers s" using assms(3) by (simp add: writers_def)
  then have "writers s = {t}" using assms(2) by (auto simp: rw_inv_def split: if_splits)
  moreover have "pc s u = WaitDrain \<Longrightarrow> u \<in> writers s" for u by (simp add: writers_def)
  ultimately have "pc s u \<noteq> WaitDrain" for u using assms(3) by fastforce
  then show ?thesis by (auto simp: WUnlock_def notify_all_def rw_awake_def on_reader_def on_writer_def)
qed

lemma awake_runlock:
  assumes "rw_awake s" and inv: "rw_inv n s" and "pc s t = Reading" and "RUnlock t s s'" and "n \<le> unat max_readers"
  shows "rw_awake s'"
proof -
  let ?m = "move t Outside (s\<lparr>reader_count := reader_count s - 1\<rparr>)"
  have R: "on_reader ?m u \<Longrightarrow> u \<notin> woken ?m \<Longrightarrow> writer_entered ?m" for u
    using assms(1) by (auto simp: rw_awake_def on_reader_def split: if_splits)
  have W: "u = v" if "on_writer ?m u" "on_writer ?m v" for u v
  proof -
    have "u \<in> writers s" "v \<in> writers s" using that by (auto simp: on_writer_def writers_def split: if_splits)
    then show ?thesis using inv by (auto simp: rw_inv_def split: if_splits)
  qed
  have E: "on_writer ?m u \<Longrightarrow> writer_entered ?m" for u
  proof -
    assume "on_writer ?m u"
    then have "u \<in> writers s" by (auto simp: on_writer_def writers_def split: if_splits)
    then show ?thesis using inv by (auto simp: rw_inv_def split: if_splits)
  qed
  from assms(4) show ?thesis
  proof (cases rule: RUnlock.cases)
    case (last_for_writer x)
    from last_for_writer(4) show ?thesis
    proof (cases rule: notify_one.cases)
      case (some v)
      then show ?thesis using last_for_writer R W by (auto simp: rw_awake_def)
    next
      case none
      then show ?thesis using last_for_writer R by (auto simp: rw_awake_def)
    qed
  next
    case for_writer
    then have "0 < reader_count s'" by (simp only: word_neq_0_conv)
    then show ?thesis using R for_writer by (simp add: rw_awake_def)
  next
    case (full x)
    from full(4) show ?thesis
    proof (cases rule: notify_one.cases)
      case (some v)
      then show ?thesis using full R E by (auto simp: rw_awake_def)
    next
      case none
      then show ?thesis using full R E by (auto simp: rw_awake_def)
    qed
  next
    case plain
    then show ?thesis using R E by (auto simp: rw_awake_def)
  qed
qed

lemma awake_step:
  assumes "rw_step t s s'" and "rw_inv n s" and "rw_awake s" and "t < n" and "n \<le> unat max_readers"
  shows "rw_awake s'"
  using assms(1)
proof (cases rule: rw_step.cases)
  case RLock
  then show ?thesis using not_full [of n s t] assms by (auto intro!: awake_read simp: rw_inv_def split: if_splits)
next
  case retry_read
  then show ?thesis using not_full [of n s t] assms by (auto intro!: awake_read simp: rw_inv_def split: if_splits)
next
  case wunlock
  then show ?thesis using awake_wunlock assms by blast
next
  case runlock
  then show ?thesis using awake_runlock assms by blast
qed (use assms in \<open>simp_all add: awake_enter awake_drain\<close>)

lemma rw_reach_awake: "rw_reach n s \<Longrightarrow> n \<le> unat max_readers \<Longrightarrow> rw_awake s"
proof (induction rule: rw_reach.induct)
  case start
  then show ?case by (simp add: rw_awake_def RWMutex_new_def on_reader_def on_writer_def)
next
  case (step s t s')
  then show ?case using awake_step rw_reach_inv by blast
qed

text \<open>C23. When there are fewer threads than readers the lock can count, no notification is lost: a thread asleep
  in the first loop of \<open>WLock\<close> or in \<open>RLock\<close> has a writer before it, and one asleep in the second loop of \<open>WLock\<close>
  has a reader before it.\<close>

theorem rwmutex_no_lost_wakeup:
  assumes "rw_reach n s" and "n \<le> unat max_readers" and "t \<notin> woken s"
  shows "(pc s t = WaitEnter \<or> pc s t = WaitRead \<longrightarrow> (\<exists>w. w \<noteq> t \<and> (pc s w = Writing \<or> pc s w = WaitDrain))) \<and>
    (pc s t = WaitDrain \<longrightarrow> (\<exists>r. pc s r = Reading))"
proof -
  have inv: "rw_inv n s" and awake: "rw_awake s" using assms rw_reach_inv rw_reach_awake by blast+
  have "\<exists>w. w \<noteq> t \<and> (pc s w = Writing \<or> pc s w = WaitDrain)" if w: "pc s t = WaitEnter \<or> pc s t = WaitRead"
  proof -
    have "writer_entered s" using awake w assms(3) by (auto simp: rw_awake_def on_reader_def)
    then obtain u where "u \<in> writers s" using inv by (auto simp: rw_inv_def)
    then show ?thesis using w by (intro exI [of _ u]) (auto simp: writers_def)
  qed
  moreover have "\<exists>r. pc s r = Reading" if "pc s t = WaitDrain"
  proof -
    have "0 < reader_count s" using awake that assms(3) by (auto simp: rw_awake_def on_writer_def)
    then show ?thesis using count_positive [OF inv] by (auto simp: readers_def)
  qed
  ultimately show ?thesis by blast
qed

lemma unat_max_readers: "unat max_readers = 2 ^ 32 - 1"
  by (simp add: max_readers_def unsigned_minus_1_eq_mask mask_eq_exp_minus_1)

lemma two_le_max: "2 \<le> unat max_readers"
  by (simp add: unat_max_readers)

theorem rwmutex_no_lost_wakeup_witness: "rw_reach 2 rw_sample \<and> pc rw_sample 1 = WaitDrain \<and> (\<exists>r. pc rw_sample r = Reading)"
  using rwmutex_no_lost_wakeup [OF rw_sample_reach two_le_max, of 1] rw_sample_reach by (simp add: rw_sample_pc)

section \<open>Progress\<close>

text \<open>A step without spurious wakeups and without new requests: a holder gives the lock back, or a thread that
  was notified goes on.\<close>

definition rw_calm_step :: "nat \<Rightarrow> rw_lock \<Rightarrow> rw_lock \<Rightarrow> bool" where
  "rw_calm_step n s s' \<longleftrightarrow> (\<exists>t < n. rw_step t s s' \<and> (pc s t = Reading \<or> pc s t = Writing \<or> t \<in> woken s))"

definition rw_calm :: "nat \<Rightarrow> rw_lock \<Rightarrow> rw_lock \<Rightarrow> bool" where
  "rw_calm n = (rw_calm_step n)\<^sup>*\<^sup>*"

lemma calm_step_good:
  "rw_calm_step n s s' \<Longrightarrow> rw_inv n s \<Longrightarrow> rw_awake s \<Longrightarrow> n \<le> unat max_readers \<Longrightarrow> rw_inv n s' \<and> rw_awake s'"
  using awake_step rw_inv_step by (auto simp: rw_calm_step_def)

lemma calm_good:
  "rw_calm n s s' \<Longrightarrow> rw_inv n s \<Longrightarrow> rw_awake s \<Longrightarrow> n \<le> unat max_readers \<Longrightarrow> rw_inv n s' \<and> rw_awake s'"
  unfolding rw_calm_def
  by (induction rule: rtranclp_induct) (use calm_step_good in blast)+

lemma calm_trans: "rw_calm n s s' \<Longrightarrow> rw_calm n s' s'' \<Longrightarrow> rw_calm n s s''"
  unfolding rw_calm_def by simp

lemma calm_one: "t < n \<Longrightarrow> rw_step t s s' \<Longrightarrow> pc s t = Reading \<or> pc s t = Writing \<or> t \<in> woken s \<Longrightarrow> rw_calm n s s'"
  unfolding rw_calm_def rw_calm_step_def by blast

lemma notify_one_total: "\<exists>s'. notify_one cv s s' \<and> pc s' = pc s"
proof (cases "\<forall>t. cv s t \<longrightarrow> t \<in> woken s")
  case True
  then show ?thesis using notify_one.none by blast
next
  case False
  then obtain t where "notify_one cv s (s\<lparr>woken := insert t (woken s)\<rparr>)" using notify_one.some by metis
  then show ?thesis by (intro exI [of _ "s\<lparr>woken := insert t (woken s)\<rparr>"]) simp
qed

lemma RUnlock_total: "\<exists>s'. RUnlock t s s' \<and> pc s' = (pc s)(t := Outside)"
proof -
  let ?m = "move t Outside (s\<lparr>reader_count := reader_count s - 1\<rparr>)"
  obtain w where w: "notify_one on_writer ?m w" "pc w = pc ?m" using notify_one_total by blast
  obtain r where r: "notify_one on_reader ?m r" "pc r = pc ?m" using notify_one_total by blast
  consider "writer_entered ?m" "reader_count ?m = 0" | "writer_entered ?m" "reader_count ?m \<noteq> 0"
    | "\<not> writer_entered ?m" "reader_count ?m = max_readers - 1" | "\<not> writer_entered ?m" "reader_count ?m \<noteq> max_readers - 1"
    by blast
  then show ?thesis
  proof cases
    case 1
    from RUnlock.last_for_writer [OF refl this w(1)] show ?thesis using w(2) by (intro exI [of _ w]) simp
  next
    case 2
    from RUnlock.for_writer [OF refl this] show ?thesis by (intro exI [of _ ?m]) simp
  next
    case 3
    from RUnlock.full [OF refl this r(1)] show ?thesis using r(2) by (intro exI [of _ r]) simp
  next
    case 4
    from RUnlock.plain [OF refl this] show ?thesis by (intro exI [of _ ?m]) simp
  qed
qed

text \<open>A writer behind its first loop gets the lock when the readers have left.\<close>

lemma drain_progress:
  assumes "rw_inv n s" and "rw_awake s" and n: "n \<le> unat max_readers" and "pc s t = WaitDrain \<or> pc s t = Writing"
  shows "\<exists>s'. rw_calm n s s' \<and> pc s' t = Writing \<and> (\<forall>u. u \<noteq> t \<longrightarrow> pc s u \<noteq> Reading \<longrightarrow> pc s' u = pc s u)"
  using assms(1,2,4)
proof (induction "card (readers s)" arbitrary: s rule: less_induct)
  case less
  show ?case
  proof (cases "pc s t = Writing")
    case True
    then show ?thesis by (intro exI [of _ s]) (simp add: rw_calm_def)
  next
    case False
    then have drain: "pc s t = WaitDrain" using less.prems by blast
    have t: "t < n" using less.prems(1) drain by (auto simp: rw_inv_def)
    show ?thesis
    proof (cases "readers s = {}")
      case True
      then have c: "reader_count s = 0" using less.prems(1) by (simp add: rw_inv_def unat_eq_zero)
      then have w: "t \<in> woken s" using less.prems(2) drain by (auto simp: rw_awake_def on_writer_def)
      have "rw_calm n s (try_drain t s)" by (rule calm_one [OF t rw_step.retry_drain [OF drain]]) (use w in simp)
      moreover have "pc (try_drain t s) = (pc s)(t := Writing)" using c by (simp add: try_drain_def)
      ultimately show ?thesis by (intro exI [of _ "try_drain t s"]) auto
    next
      case False
      then obtain r where r: "pc s r = Reading" by (auto simp: readers_def)
      have rn: "r < n" using r less.prems(1) by (auto simp: rw_inv_def)
      obtain s1 where s1: "RUnlock r s s1" "pc s1 = (pc s)(r := Outside)" using RUnlock_total by blast
      have calm: "rw_calm n s s1" by (rule calm_one [OF rn rw_step.runlock [OF r s1(1)]]) (use r in simp)
      have "readers s1 = readers s - {r}" using s1(2) by (auto simp: readers_def)
      then have smaller: "card (readers s1) < card (readers s)"
        using card_Diff1_less [OF rw_inv_finite [OF less.prems(1)], of r] r by (simp add: readers_def)
      have good: "rw_inv n s1" "rw_awake s1" using calm_good [OF calm less.prems(1,2) n] by blast+
      have "pc s1 t = WaitDrain \<or> pc s1 t = Writing" using drain r s1(2) by auto
      from less.hyps [OF smaller good this] obtain s' where
        s': "rw_calm n s1 s'" "pc s' t = Writing" "\<forall>u. u \<noteq> t \<longrightarrow> pc s1 u \<noteq> Reading \<longrightarrow> pc s' u = pc s1 u" by blast
      have "\<forall>u. u \<noteq> t \<longrightarrow> pc s u \<noteq> Reading \<longrightarrow> pc s' u = pc s u" using s'(3) s1(2) r by auto
      then show ?thesis using s'(2) calm_trans [OF calm s'(1)] by blast
    qed
  qed
qed

text \<open>A thread in front of a writer is woken when the writer is done.\<close>

lemma wait_progress:
  assumes inv: "rw_inv n s" and awake: "rw_awake s" and n: "n \<le> unat max_readers" and t: "on_reader s t"
  shows "\<exists>s'. rw_calm n s s' \<and> pc s' t = pc s t \<and> t \<in> woken s' \<and> \<not> writer_entered s'"
proof (cases "writer_entered s")
  case False
  then have "t \<in> woken s" using awake t by (auto simp: rw_awake_def)
  then show ?thesis using False by (intro exI [of _ s]) (simp add: rw_calm_def)
next
  case True
  then obtain w where w: "writers s = {w}" using inv by (auto simp: rw_inv_def)
  then have "w \<in> writers s" by simp
  then have ww: "pc s w = WaitDrain \<or> pc s w = Writing" by (auto simp: writers_def)
  obtain s1 where s1: "rw_calm n s s1" "pc s1 w = Writing" "\<forall>u. u \<noteq> w \<longrightarrow> pc s u \<noteq> Reading \<longrightarrow> pc s1 u = pc s u"
    using drain_progress [OF inv awake n ww] by blast
  have tw: "t \<noteq> w" "pc s t \<noteq> Reading" using t ww by (auto simp: on_reader_def)
  have good: "rw_inv n s1" using calm_good [OF s1(1) inv awake n] by blast
  have wn: "w < n" using good s1(2) by (auto simp: rw_inv_def)
  have "rw_calm n s1 (WUnlock w s1)" by (rule calm_one [OF wn rw_step.wunlock [OF s1(2)]]) (use s1(2) in simp)
  moreover have "pc s1 t = pc s t" using s1(3) tw by simp
  moreover have "pc (WUnlock w s1) t = pc s t" "t \<in> woken (WUnlock w s1)" "\<not> writer_entered (WUnlock w s1)"
    using t tw \<open>pc s1 t = pc s t\<close> by (auto simp: WUnlock_def notify_all_def on_reader_def)
  ultimately show ?thesis using calm_trans [OF s1(1)] by blast
qed

text \<open>C24. Progress: from every state that fewer threads than the lock can count reach, each waiting thread gets the
  lock when the holders give it back and the notified threads go on, without a spurious wakeup.\<close>

theorem rwmutex_progress:
  assumes "rw_reach n s" and "n \<le> unat max_readers"
  shows "(pc s t = WaitEnter \<or> pc s t = WaitDrain \<longrightarrow> (\<exists>s'. rw_calm n s s' \<and> pc s' t = Writing)) \<and>
    (pc s t = WaitRead \<longrightarrow> (\<exists>s'. rw_calm n s s' \<and> pc s' t = Reading))"
proof -
  have inv: "rw_inv n s" and awake: "rw_awake s" using assms rw_reach_inv rw_reach_awake by blast+
  note n = assms(2)
  have tn: "t < n" if "pc s t \<noteq> Outside" using inv that by (auto simp: rw_inv_def)
  have "\<exists>s'. rw_calm n s s' \<and> pc s' t = Writing" if w: "pc s t = WaitEnter \<or> pc s t = WaitDrain"
  proof (cases "pc s t = WaitDrain")
    case True
    then show ?thesis using drain_progress [OF inv awake n] by blast
  next
    case False
    then have e: "pc s t = WaitEnter" using w by blast
    then obtain s1 where s1: "rw_calm n s s1" "pc s1 t = WaitEnter" "t \<in> woken s1" "\<not> writer_entered s1"
      using wait_progress [OF inv awake n, of t] by (auto simp: on_reader_def)
    have step: "rw_calm n s1 (try_enter t s1)" by (rule calm_one [OF tn rw_step.retry_enter [OF s1(2)]]) (use e s1(3) in simp_all)
    then have good: "rw_inv n (try_enter t s1)" "rw_awake (try_enter t s1)"
      using calm_good [OF calm_trans [OF s1(1) step] inv awake n] by blast+
    have "pc (try_enter t s1) t = WaitDrain \<or> pc (try_enter t s1) t = Writing"
      using s1(4) by (simp add: try_enter_def try_drain_def)
    from drain_progress [OF good n this] show ?thesis using calm_trans [OF calm_trans [OF s1(1) step]] by blast
  qed
  moreover have "\<exists>s'. rw_calm n s s' \<and> pc s' t = Reading" if r: "pc s t = WaitRead"
  proof -
    obtain s1 where s1: "rw_calm n s s1" "pc s1 t = WaitRead" "t \<in> woken s1" "\<not> writer_entered s1"
      using wait_progress [OF inv awake n, of t] r by (auto simp: on_reader_def)
    have "rw_inv n s1" using calm_good [OF s1(1) inv awake n] by blast
    then have nf: "reader_count s1 \<noteq> max_readers" by (rule not_full [OF _ n tn]) (use r s1(2) in simp_all)
    have "rw_calm n s1 (try_read t s1)" by (rule calm_one [OF tn rw_step.retry_read [OF s1(2)]]) (use r s1(3) in simp_all)
    moreover have "pc (try_read t s1) t = Reading" using nf s1(4) by (simp add: try_read_def)
    ultimately show ?thesis using calm_trans [OF s1(1)] by blast
  qed
  ultimately show ?thesis by blast
qed

theorem rwmutex_progress_witness: "\<exists>s. rw_calm 2 rw_sample s \<and> pc s 1 = Writing"
  using rwmutex_progress [OF rw_sample_reach two_le_max, of 1] by (simp add: rw_sample_pc)

section \<open>A full lock\<close>

text \<open>\<open>k\<close> readers hold the lock, and the threads in \<open>A\<close> wait to read.\<close>

definition rw_full :: "nat set \<Rightarrow> nat set \<Rightarrow> 32 word \<Rightarrow> nat set \<Rightarrow> rw_lock" where
  "rw_full R A c W = \<lparr>reader_count = c, writer_entered = False,
     pc = (\<lambda>t. if t \<in> R then Reading else if t \<in> A then WaitRead else Outside), woken = W\<rparr>"

lemma rw_full_simps [simp]:
  "reader_count (rw_full R A c W) = c" "\<not> writer_entered (rw_full R A c W)" "woken (rw_full R A c W) = W"
  "pc (rw_full R A c W) = (\<lambda>t. if t \<in> R then Reading else if t \<in> A then WaitRead else Outside)"
  by (simp_all add: rw_full_def)

lemma fill: "k \<le> n \<Longrightarrow> k < 2 ^ 32 \<Longrightarrow> rw_reach n (rw_full {..<k} {} (of_nat k) {})"
proof (induction k)
  case 0
  have "rw_full {..<0} {} 0 {} = RWMutex_new" by (simp add: rw_full_def RWMutex_new_def)
  then show ?case using rw_reach.start [of n] by simp
next
  case (Suc k)
  have "(of_nat k :: 32 word) \<noteq> max_readers"
  proof
    assume "(of_nat k :: 32 word) = max_readers"
    then have "unat (of_nat k :: 32 word) = unat max_readers" by simp
    then show False using Suc.prems(2) by (simp add: unat_of_nat unat_max_readers)
  qed
  then have "try_read k (rw_full {..<k} {} (of_nat k) {}) = rw_full {..<Suc k} {} (of_nat (Suc k)) {}"
    by (auto simp: try_read_def move_def rw_full_def fun_eq_iff add.commute)
  moreover have "rw_step k (rw_full {..<k} {} (of_nat k) {}) (try_read k (rw_full {..<k} {} (of_nat k) {}))"
    by (rule rw_step.RLock) simp
  ultimately show ?case using Suc rw_reach.step [of n "rw_full {..<k} {} (of_nat k) {}" k] by auto
qed

text \<open>When \<open>UINT_MAX\<close> readers hold the lock, \<open>RUnlock\<close> notifies one waiting reader and the next \<open>RUnlock\<close>
  none.  So a reader can be asleep although the lock has room, no writer waits and no notification is under way.\<close>

theorem rwmutex_full_loses_wakeup:
  "\<exists>s t. rw_reach (2 ^ 32 + 1) s \<and> pc s t = WaitRead \<and> woken s = {} \<and> \<not> writer_entered s \<and> reader_count s < max_readers"
proof -
  let ?M = "2 ^ 32 - 1 :: nat" and ?n = "2 ^ 32 + 1 :: nat"
  let ?a = ?M and ?b = "2 ^ 32 :: nat"
  have m: "(of_nat ?M :: 32 word) = max_readers" by (simp add: max_readers_def)
  have r0: "rw_reach ?n (rw_full {..<?M} {} max_readers {})" using fill [of ?M ?n] unfolding m by simp
  have "try_read ?a (rw_full {..<?M} {} max_readers {}) = rw_full {..<?M} {?a} max_readers {}"
    by (auto simp: try_read_def move_def rw_full_def fun_eq_iff)
  with rw_reach.step [OF r0 _ rw_step.RLock, of ?a] have r1: "rw_reach ?n (rw_full {..<?M} {?a} max_readers {})" by simp
  have "try_read ?b (rw_full {..<?M} {?a} max_readers {}) = rw_full {..<?M} {?a, ?b} max_readers {}"
    by (auto simp: try_read_def move_def rw_full_def fun_eq_iff)
  with rw_reach.step [OF r1 _ rw_step.RLock, of ?b] have r2: "rw_reach ?n (rw_full {..<?M} {?a, ?b} max_readers {})" by simp
  have leave: "move t Outside ((rw_full R A c W)\<lparr>reader_count := c - 1\<rparr>) = rw_full (R - {t}) A (c - 1) W"
    if "t \<notin> A" "t \<notin> W" for t R A c W
    using that by (auto simp: move_def rw_full_def fun_eq_iff)
  have "notify_one on_reader (rw_full ({..<?M} - {0}) {?a, ?b} (max_readers - 1) {})
      ((rw_full ({..<?M} - {0}) {?a, ?b} (max_readers - 1) {})\<lparr>woken := {?a}\<rparr>)"
    using notify_one.some [of on_reader "rw_full ({..<?M} - {0}) {?a, ?b} (max_readers - 1) {}" ?a] by (simp add: on_reader_def)
  then have "RUnlock 0 (rw_full {..<?M} {?a, ?b} max_readers {}) (rw_full ({..<?M} - {0}) {?a, ?b} (max_readers - 1) {?a})"
    by (intro RUnlock.full [OF refl]) (simp_all add: leave, simp add: rw_full_def)
  from rw_reach.step [OF r2 _ rw_step.runlock [OF _ this]]
  have r3: "rw_reach ?n (rw_full ({..<?M} - {0}) {?a, ?b} (max_readers - 1) {?a})" by simp
  have "RUnlock 1 (rw_full ({..<?M} - {0}) {?a, ?b} (max_readers - 1) {?a})
      (move 1 Outside ((rw_full ({..<?M} - {0}) {?a, ?b} (max_readers - 1) {?a})\<lparr>reader_count := max_readers - 1 - 1\<rparr>))"
    using RUnlock.plain [OF refl, of 1 "rw_full ({..<?M} - {0}) {?a, ?b} (max_readers - 1) {?a}"] by (simp add: max_readers_def)
  moreover have "move 1 Outside ((rw_full ({..<?M} - {0}) {?a, ?b} (max_readers - 1) {?a})\<lparr>reader_count := max_readers - 1 - 1\<rparr>) =
      rw_full ({..<?M} - {0} - {1}) {?a, ?b} (max_readers - 1 - 1) {?a}"
    by (rule leave) simp_all
  ultimately have "RUnlock 1 (rw_full ({..<?M} - {0}) {?a, ?b} (max_readers - 1) {?a})
      (rw_full ({..<?M} - {0} - {1}) {?a, ?b} (max_readers - 1 - 1) {?a})" by simp
  from rw_reach.step [OF r3 _ rw_step.runlock [OF _ this]]
  have r4: "rw_reach ?n (rw_full ({..<?M} - {0} - {1}) {?a, ?b} (max_readers - 1 - 1) {?a})" by simp
  have "try_read ?a (rw_full ({..<?M} - {0} - {1}) {?a, ?b} (max_readers - 1 - 1) {?a}) =
      rw_full (insert ?a ({..<?M} - {0} - {1})) {?a, ?b} (max_readers - 1) {}"
    by (auto simp: try_read_def move_def rw_full_def fun_eq_iff max_readers_def)
  with rw_reach.step [OF r4 _ rw_step.retry_read, of ?a]
  have "rw_reach ?n (rw_full (insert ?a ({..<?M} - {0} - {1})) {?a, ?b} (max_readers - 1) {})" by simp
  then show ?thesis
    by (intro exI [of _ "rw_full (insert ?a ({..<?M} - {0} - {1})) {?a, ?b} (max_readers - 1) {}"] exI [of _ ?b])
      (simp add: max_readers_def)
qed

end
