(* ===== verification/TypeSound.thy ===== *)
theory TypeSound imports TypeProps begin

text \<open>
  Type soundness of the SQL values: expressions over the operations of \<open>Value\<close>, a typing relation that
  says which classes a result may have, and the proof that a well-typed expression evaluates to a
  well-formed value of such a class or throws an exception that is about its numbers.  It never fails an
  assertion, calls through the missing instance of TIMESTAMP, or throws a type error.
\<close>

section \<open>Well-formed values\<close>

definition int_width :: "TypeId \<Rightarrow> nat option" where
  "int_width t = (case t of BOOLEAN \<Rightarrow> Some 8 | TINYINT \<Rightarrow> Some 8 | SMALLINT \<Rightarrow> Some 16 | INTEGER \<Rightarrow> Some 32
     | BIGINT \<Rightarrow> Some 64 | _ \<Rightarrow> None)"

text \<open>An integer is in the range of its class and NULL exactly when it is the sentinel of the class; a
  string is as long as its length says.\<close>

definition value_ok :: "'d fp \<Rightarrow> 'd Value \<Rightarrow> bool" where
  "value_ok fp v = (case (int_width (type_id_m v), val_m v) of
     (Some w, IntVal x) \<Rightarrow> in_range_s w x \<and> v = mk_int (type_id_m v) x (x = int_null w)
   | (None, DecVal d) \<Rightarrow> type_id_m v = DECIMAL \<and> len_m v = null_len (fp_eq fp d (fp_lowest fp))
   | (None, StrVal None) \<Rightarrow> type_id_m v = VARCHAR \<and> IsNull v
   | (None, StrVal (Some bs)) \<Rightarrow> type_id_m v = VARCHAR \<and> len_m v = int (length bs)
   | _ \<Rightarrow> False)"

definition integers :: "TypeId set" where "integers = {TINYINT, SMALLINT, INTEGER, BIGINT}"

definition numeric :: "TypeId set" where "numeric = {TINYINT, SMALLINT, INTEGER, BIGINT, DECIMAL}"

text \<open>The exceptions a well-typed expression may throw: they tell of the numbers and texts it meets.\<close>

definition value_error :: "error \<Rightarrow> bool" where
  "value_error e \<longleftrightarrow> e \<in> {Thrown EXCEPTION_TYPE_OUT_OF_RANGE, Thrown EXCEPTION_TYPE_DIVIDE_BY_ZERO,
     Thrown EXCEPTION_TYPE_DECIMAL, InvalidArgument}"

text \<open>\<open>std::stod\<close> throws nothing but the two exceptions of the number parsers.\<close>

definition stod_throws :: "'d fp \<Rightarrow> bool" where
  "stod_throws fp \<longleftrightarrow> (\<forall>s e. fp_stod fp s = Inl e \<longrightarrow> e = InvalidArgument \<or> e = StdOutOfRange)"

definition answers :: "'d fp \<Rightarrow> TypeId set \<Rightarrow> 'd Value result \<Rightarrow> bool" where
  "answers fp A r = (case r of Inr v \<Rightarrow> value_ok fp v \<and> type_id_m v \<in> A | Inl e \<Rightarrow> value_error e)"

named_theorems sound

lemma Value_integral_int_width:
  "int_width t = Some w \<Longrightarrow> Value_integral t z = Inr (mk_int t (wrap_s w z) (wrap_s w z = int_null w)) \<and> 0 < w"
  by (auto simp: int_width_def Value_integral_def Let_def split: TypeId.splits)

lemma value_ok_mk_int: "int_width t = Some w \<Longrightarrow> in_range_s w x \<Longrightarrow> value_ok fp (mk_int t x (x = int_null w))"
  by (simp add: value_ok_def mk_int_def)

lemma answers_Value_integral:
  assumes "t \<in> insert BOOLEAN integers" and "t \<in> A"
  shows "answers fp A (Value_integral t z)"
proof -
  obtain w where w: "int_width t = Some w" using assms(1) by (auto simp: integers_def int_width_def)
  then show ?thesis using value_ok_mk_int [OF w wrap_s_range] assms(2)
    by (simp add: answers_def Value_integral_int_width) (simp add: mk_int_def)
qed

lemma answers_Value_int [sound]:
  "t \<in> insert BOOLEAN integers \<Longrightarrow> t \<in> A \<Longrightarrow> answers fp A (Value_int8 t z)"
  "t \<in> insert BOOLEAN integers \<Longrightarrow> t \<in> A \<Longrightarrow> answers fp A (Value_int16 t z)"
  "t \<in> insert BOOLEAN integers \<Longrightarrow> t \<in> A \<Longrightarrow> answers fp A (Value_int32 t z)"
  "t \<in> insert BOOLEAN integers \<Longrightarrow> t \<in> A \<Longrightarrow> answers fp A (Value_int64 t z)"
  unfolding Value_int8_def Value_int16_def Value_int32_def Value_int64_def by (rule answers_Value_integral; assumption)+

lemma answers_Value_double [sound]: "DECIMAL \<in> A \<Longrightarrow> t = DECIMAL \<Longrightarrow> answers fp A (Value_double fp t d)"
  by (simp add: answers_def value_ok_def Value_double_def int_width_def)

lemma answers_Value_string: "VARCHAR \<in> A \<Longrightarrow> answers fp A (Value_string VARCHAR s)"
  by (simp add: answers_def value_ok_def Value_string_def int_width_def Let_def)

lemma answers_errors [sound]: "answers fp A out_of_range" "answers fp A divide_by_zero"
    "answers fp A (Inl (Thrown EXCEPTION_TYPE_DECIMAL))"
  by (simp_all add: answers_def value_error_def out_of_range_def divide_by_zero_def)

lemma answers_if [sound]: "answers fp A r \<Longrightarrow> answers fp A r' \<Longrightarrow> answers fp A (if b then r else r')"
  by simp

lemma answers_and_then:
  "(\<And>e. r = Inl e \<Longrightarrow> value_error e) \<Longrightarrow> (\<And>x. r = Inr x \<Longrightarrow> answers fp A (f x)) \<Longrightarrow> answers fp A (and_then r f)"
  by (cases r) (simp_all add: answers_def)

lemma value_ok_type: "value_ok fp v \<Longrightarrow> type_id_m v \<in> insert BOOLEAN (insert VARCHAR numeric)"
  by (auto simp: value_ok_def int_width_def numeric_def split: option.splits val.splits TypeId.splits)

section \<open>Copies and casts\<close>

lemma Value_copy_ok: "value_ok fp v \<Longrightarrow> value_ok fp (Value_copy v)"
  by (auto simp: Value_copy_def value_ok_def int_width_def IsNull_def split: val.splits option.splits)

lemma value_Copy_sound:
  assumes "value_ok fp v"
  shows "answers fp {type_id_m v} (value_Copy fp v)"
  using value_ok_type [OF assms] Value_copy_ok [OF assms]
  by (auto simp: numeric_def value_Copy_def Tinyint_Copy_def Smallint_Copy_def Integer_Copy_def Bigint_Copy_def
      Boolean_Copy_def Decimal_Copy_def CheckInteger_def integers_def intro!: sound)
    (simp add: Varlen_Copy_def answers_def Value_copy_def)

text \<open>The text of a value, and the numbers read from a text.\<close>

lemma value_ToString_Inr:
  "value_ok fp v \<Longrightarrow> \<exists>str. value_ToString fp v = Inr str"
  using value_ok_type [of fp v]
  by (auto simp: numeric_def value_ToString_def Tinyint_ToString_def Smallint_ToString_def Integer_ToString_def
      Bigint_ToString_def Boolean_ToString_def Decimal_ToString_def Varlen_ToString_def CheckInteger_def)

lemma as_varchar_sound [sound]:
  assumes "value_ok fp v" and "VARCHAR \<in> A"
  shows "answers fp A (as_varchar fp v)"
  using value_ToString_Inr [OF assms(1)] assms(2) answers_Value_string [OF assms(2)]
  by (auto simp: as_varchar_def Value_varlen_def answers_def value_ok_def int_width_def IsNull_def)

lemma stoi_errors: "stoi w s = Inl e \<Longrightarrow> e = InvalidArgument \<or> e = StdOutOfRange"
  by (auto simp: stoi_def read_digits_def Let_def split: list.splits if_splits)

lemma stod_errors: "fp_stod fp s = Inl e \<Longrightarrow> stod_throws fp \<Longrightarrow> e = InvalidArgument \<or> e = StdOutOfRange"
  by (simp add: stod_throws_def)

lemma catch_range_sound:
  assumes "\<And>e. r = Inl e \<Longrightarrow> e = InvalidArgument \<or> e = StdOutOfRange" and "\<And>x. answers fp A (f x)"
  shows "answers fp A (and_then (catch_range r) f)"
  using assms by (cases r) (auto simp: catch_range_def out_of_range_def answers_def value_error_def)

lemma range_checks_sound [sound]:
  "answers fp A r \<Longrightarrow> answers fp A (range_check w x r)"
  "answers fp A r \<Longrightarrow> answers fp A (fp_range_check fp' w d r)"
  unfolding range_check_def fp_range_check_def by (simp_all add: sound)

text \<open>The classes a value of some class can be cast to, whatever it holds.\<close>

definition castable :: "TypeId \<Rightarrow> TypeId set" where
  "castable t = (if t = BOOLEAN then {BOOLEAN, VARCHAR} else if t \<in> insert VARCHAR numeric then insert VARCHAR numeric else {})"

lemma value_CastAs_sound:
  assumes v: "value_ok fp v" and t: "t \<in> castable (type_id_m v)" and fp: "stod_throws fp"
  shows "answers fp {t} (value_CastAs fp v t)"
proof -
  consider "type_id_m v = BOOLEAN" | "type_id_m v \<in> integers" | "type_id_m v = DECIMAL" | "type_id_m v = VARCHAR"
    using value_ok_type [OF v] by (auto simp: numeric_def integers_def)
  then show ?thesis
  proof cases
    case 1
    then show ?thesis using t v value_Copy_sound [OF v]
      by (auto simp: castable_def value_CastAs_def Boolean_CastAs_def value_Copy_def intro!: sound)
  next
    case 2
    then show ?thesis using t v value_Copy_sound [OF v]
      by (auto simp: castable_def integers_def numeric_def value_CastAs_def Tinyint_CastAs_def Smallint_CastAs_def
          Integer_CastAs_def Bigint_CastAs_def value_Copy_def intro!: sound)
  next
    case 3
    then show ?thesis using t v value_Copy_sound [OF v]
      by (auto simp: castable_def numeric_def value_CastAs_def Decimal_CastAs_def integers_def Let_def intro!: sound)
  next
    case 4
    obtain str where "value_ToString fp v = Inr str" using value_ToString_Inr [OF v] ..
    then show ?thesis using t v 4 value_Copy_sound [OF v] fp
      by (auto simp: castable_def numeric_def value_CastAs_def Varlen_CastAs_def integers_def Let_def
          dest: stoi_errors stod_errors intro!: sound catch_range_sound)
  qed
qed

section \<open>Arithmetic\<close>

lemma operands_sound:
  assumes "value_ok fp left" and "value_ok fp right" and "type_id_m left \<in> numeric" and "type_id_m right \<in> numeric"
    and "answers fp A null_result" and "answers fp A body"
  shows "type_id_m left \<in> integers \<Longrightarrow> answers fp A (int_operands left right null_result body)"
    and "type_id_m left = DECIMAL \<Longrightarrow> answers fp A (dec_operands left right null_result body)"
  using assms by (auto simp: int_operands_def dec_operands_def integers_def numeric_def CheckInteger_def CheckComparable_def)

text \<open>The NULL of a binary operation has the class of the right operand, except to the right of a decimal.\<close>

lemma value_OperateNull_sound:
  assumes "type_id_m left \<in> numeric" and "type_id_m right \<in> numeric"
  shows "answers fp {type_id_m left, type_id_m right} (value_OperateNull fp left right)"
  using assms
  by (auto simp: numeric_def integers_def value_OperateNull_def Tinyint_OperateNull_def Smallint_OperateNull_def
      Integer_OperateNull_def Bigint_OperateNull_def Decimal_OperateNull_def intro!: sound)

lemma integer_methods_sound [sound]:
  assumes "type_id_m left \<in> integers" and "type_id_m right \<in> integers"
    and "type_id_m left \<in> A" and "type_id_m right \<in> A"
  shows "answers fp A (AddValue w1 w2 left right)" "answers fp A (SubtractValue w1 w2 left right)"
    "answers fp A (MultiplyValue w1 w2 left right)" "answers fp A (DivideValue w1 w2 left right)"
    "answers fp A (ModuloValue w1 w2 left right)"
  unfolding AddValue_def SubtractValue_def MultiplyValue_def DivideValue_def ModuloValue_def Let_def
  using assms by (auto intro!: sound answers_Value_integral)

lemma nonzero_sound [sound]:
  assumes "type_id_m right \<in> numeric" and "answers fp A r"
  shows "answers fp A (nonzero fp right r)"
  using assms
  by (auto simp: nonzero_def numeric_def value_IsZero_def Tinyint_IsZero_def Smallint_IsZero_def Integer_IsZero_def
      Bigint_IsZero_def Decimal_IsZero_def intro!: sound)

lemma modify_sound [sound]:
  assumes "type_id_m right \<in> numeric" and "type_id_m right \<in> A"
    and "\<And>w1 w2. type_id_m right \<in> integers \<Longrightarrow> answers fp A (method w1 w2 left right)"
  shows "answers fp A (TINYINT_MODIFY_FUNC fp method op left right)"
    "answers fp A (SMALLINT_MODIFY_FUNC fp method op left right)"
    "answers fp A (INT_MODIFY_FUNC fp method op left right)"
    "answers fp A (BIGINT_MODIFY_FUNC fp method op left right)"
  using assms
  by (auto simp: numeric_def integers_def TINYINT_MODIFY_FUNC_def SMALLINT_MODIFY_FUNC_def INT_MODIFY_FUNC_def
      BIGINT_MODIFY_FUNC_def intro!: sound)

lemma decimal_modify_sound [sound]:
  "type_id_m right \<in> numeric \<Longrightarrow> DECIMAL \<in> A \<Longrightarrow> answers fp A (DECIMAL_MODIFY_FUNC fp op left right)"
  by (auto simp: numeric_def DECIMAL_MODIFY_FUNC_def intro!: sound)

text \<open>The operations a client calls with two values.\<close>

datatype binary = Add | Subtract | Multiply | Divide | Modulo | Minimum | Maximum

definition value_binary :: "'d fp \<Rightarrow> binary \<Rightarrow> 'd Value \<Rightarrow> 'd Value \<Rightarrow> 'd Value result" where
  "value_binary fp f = (case f of Add \<Rightarrow> value_Add fp | Subtract \<Rightarrow> value_Subtract fp | Multiply \<Rightarrow> value_Multiply fp
     | Divide \<Rightarrow> value_Divide fp | Modulo \<Rightarrow> value_Modulo fp | Minimum \<Rightarrow> value_Min fp | Maximum \<Rightarrow> value_Max fp)"

lemmas integer_arith_defs = Tinyint_Add_def Tinyint_Subtract_def Tinyint_Multiply_def Tinyint_Divide_def
  Smallint_Add_def Smallint_Subtract_def Smallint_Multiply_def Smallint_Divide_def
  Integer_Add_def Integer_Subtract_def Integer_Multiply_def Integer_Divide_def
  Bigint_Add_def Bigint_Subtract_def Bigint_Multiply_def Bigint_Divide_def

lemmas modulo_defs = Tinyint_Modulo_def Smallint_Modulo_def Integer_Modulo_def Bigint_Modulo_def

lemmas value_arith_defs = value_Add_def value_Subtract_def value_Multiply_def value_Divide_def value_Modulo_def

lemma integer_arith_sound:
  assumes "value_ok fp left" and "value_ok fp right" and left: "type_id_m left \<in> integers"
    and right: "type_id_m right \<in> numeric" and A: "type_id_m left \<in> A" "type_id_m right \<in> A"
    and f: "f \<in> {Add, Subtract, Multiply, Divide, Modulo}"
  shows "answers fp A (value_binary fp f left right)"
proof -
  have num: "type_id_m left \<in> numeric" using left by (auto simp: numeric_def integers_def)
  have null: "answers fp A (value_OperateNull fp left right)"
    using value_OperateNull_sound [OF num right, of fp] A by (auto simp: answers_def split: sum.splits)
  note operands = operands_sound(1) [OF assms(1,2) num right null _ left]
  note methods = integer_methods_sound [OF left _ A]
  note modify = modify_sound [OF right A(2)]
  consider "f \<in> {Add, Subtract, Multiply, Divide}" | "f = Modulo" using f by blast
  then show ?thesis
  proof cases
    case 1
    then show ?thesis using left unfolding integers_def
      by (elim insertE emptyE; simp add: value_binary_def value_arith_defs integer_arith_defs;
          intro operands nonzero_sound [OF right] modify methods)
  next
    case 2
    then show ?thesis using left right A methods(5)
      unfolding integers_def
      by (elim insertE emptyE; simp add: value_binary_def value_arith_defs modulo_defs;
          intro operands nonzero_sound [OF right]; auto simp: numeric_def integers_def intro!: sound)
  qed
qed

lemma value_arith_sound:
  assumes "value_ok fp left" and "value_ok fp right" and "type_id_m left \<in> numeric" and "type_id_m right \<in> numeric"
    and "f \<in> {Add, Subtract, Multiply, Divide, Modulo}"
  shows "answers fp {type_id_m left, type_id_m right} (value_binary fp f left right)"
proof (cases "type_id_m left = DECIMAL")
  case True
  then show ?thesis using value_OperateNull_sound [OF assms(3,4), of fp] assms(4,5)
    by (auto simp: value_binary_def value_arith_defs Decimal_Add_def Decimal_Subtract_def Decimal_Multiply_def
        Decimal_Divide_def Decimal_Modulo_def Decimal_OperateNull_def intro!: operands_sound [OF assms(1-4)] sound)
next
  case False
  then show ?thesis using assms(3) by (intro integer_arith_sound [OF assms(1,2) _ assms(4) _ _ assms(5)])
      (auto simp: integers_def numeric_def)
qed

text \<open>Comparisons of numbers answer, so the smaller and the larger of two can be copied.\<close>

lemmas compare_funcs = TINYINT_COMPARE_FUNC_def SMALLINT_COMPARE_FUNC_def INT_COMPARE_FUNC_def BIGINT_COMPARE_FUNC_def
  DECIMAL_COMPARE_FUNC_def

lemma compare_func_answers:
  assumes "type_id_m right \<in> numeric"
  shows "\<exists>b. TINYINT_COMPARE_FUNC fp op left right = Inr b" "\<exists>b. SMALLINT_COMPARE_FUNC fp op left right = Inr b"
    "\<exists>b. INT_COMPARE_FUNC fp op left right = Inr b" "\<exists>b. BIGINT_COMPARE_FUNC fp op left right = Inr b"
    "\<exists>b. DECIMAL_COMPARE_FUNC fp op left right = Inr b"
  using assms by (auto simp: compare_funcs numeric_def)

lemma operands_compare:
  assumes "type_id_m left \<in> numeric" and "type_id_m right \<in> numeric" and "\<exists>b. r = Inr b"
  shows "type_id_m left \<in> integers \<Longrightarrow> \<exists>b :: CmpBool. int_operands left right (Inr CMP_NULL) r = Inr b"
    and "type_id_m left = DECIMAL \<Longrightarrow> \<exists>b. dec_operands left right (Inr CMP_NULL) r = Inr b"
  using assms by (auto simp: int_operands_def dec_operands_def integers_def numeric_def CheckInteger_def CheckComparable_def)

lemma value_Compare_answers:
  assumes "type_id_m left \<in> numeric" and "type_id_m right \<in> numeric"
  shows "\<exists>b. value_CompareLessThan fp left right = Inr b" "\<exists>b. value_CompareGreaterThanEquals fp left right = Inr b"
    "\<exists>b. value_CompareLessThanEquals fp left right = Inr b"
  using assms(1) unfolding numeric_def
  by (elim insertE emptyE; simp add: value_CompareLessThan_def value_CompareGreaterThanEquals_def
      value_CompareLessThanEquals_def Tinyint_CompareLessThan_def Tinyint_CompareGreaterThanEquals_def
      Tinyint_CompareLessThanEquals_def Smallint_CompareLessThan_def Smallint_CompareGreaterThanEquals_def
      Smallint_CompareLessThanEquals_def Integer_CompareLessThan_def Integer_CompareGreaterThanEquals_def
      Integer_CompareLessThanEquals_def Bigint_CompareLessThan_def Bigint_CompareGreaterThanEquals_def
      Bigint_CompareLessThanEquals_def Decimal_CompareLessThan_def Decimal_CompareGreaterThanEquals_def
      Decimal_CompareLessThanEquals_def;
      intro operands_compare [OF assms] compare_func_answers [OF assms(2)]; simp add: integers_def)+

lemma pick_sound:
  assumes "value_ok fp left" and "value_ok fp right" and "\<exists>b. c = Inr b"
  shows "answers fp {type_id_m left, type_id_m right} (pick fp c left right)"
  using value_Copy_sound [OF assms(1)] value_Copy_sound [OF assms(2)] assms(3)
  by (auto simp: pick_def answers_def split: sum.splits)

lemma value_minmax_sound:
  assumes "value_ok fp left" and "value_ok fp right" and num: "type_id_m left \<in> numeric" "type_id_m right \<in> numeric"
    and "f \<in> {Minimum, Maximum}"
  shows "answers fp {type_id_m left, type_id_m right} (value_binary fp f left right)"
proof -
  note operands = operands_sound [OF assms(1-4) value_OperateNull_sound [OF num] pick_sound [OF assms(1,2)]]
  have "value_binary fp f left right \<in> (if type_id_m left = DECIMAL then {Decimal_Min fp left right, Decimal_Max fp left right}
      else {IntegerParent_Min fp left right, IntegerParent_Max fp left right})"
    using assms(3,5) by (auto simp: numeric_def value_binary_def value_Min_def value_Max_def)
  moreover have "type_id_m left \<noteq> DECIMAL \<Longrightarrow> type_id_m left \<in> integers" using num by (auto simp: numeric_def integers_def)
  ultimately show ?thesis using operands value_Compare_answers [OF num]
    by (auto simp: IntegerParent_Min_def IntegerParent_Max_def Decimal_Min_def Decimal_Max_def split: if_splits)
qed

lemma value_binary_sound:
  assumes "value_ok fp left" and "value_ok fp right" and "type_id_m left \<in> numeric" and "type_id_m right \<in> numeric"
  shows "answers fp {type_id_m left, type_id_m right} (value_binary fp f left right)"
  using value_arith_sound [OF assms] value_minmax_sound [OF assms] by (cases f) simp_all

text \<open>A square root is a decimal; but the one of an INTEGER that is NULL is an INTEGER.\<close>

lemma value_Sqrt_sound:
  assumes "type_id_m v \<in> numeric"
  shows "answers fp (insert DECIMAL ({type_id_m v} \<inter> {INTEGER})) (value_Sqrt fp v)"
  using assms
  by (auto simp: numeric_def integers_def value_Sqrt_def Tinyint_Sqrt_def Smallint_Sqrt_def Integer_Sqrt_def Bigint_Sqrt_def
      Decimal_Sqrt_def Integer_OperateNull_def CheckInteger_def intro!: sound)

section \<open>Expressions\<close>

text \<open>What a client computes with values: each node is one call on the value of its operands.\<close>

datatype 'd expr =
    Const "'d Value"
  | Cast TypeId "'d expr"
  | Copied "'d expr"
  | Binary binary "'d expr" "'d expr"
  | SquareRoot "'d expr"

primrec eval :: "'d fp \<Rightarrow> 'd expr \<Rightarrow> 'd Value result" where
  "eval fp (Const v) = Inr v"
| "eval fp (Cast t e) = and_then (eval fp e) (\<lambda>v. value_CastAs fp v t)"
| "eval fp (Copied e) = and_then (eval fp e) (value_Copy fp)"
| "eval fp (Binary f a b) = and_then (eval fp a) (\<lambda>x. and_then (eval fp b) (value_binary fp f x))"
| "eval fp (SquareRoot e) = and_then (eval fp e) (value_Sqrt fp)"

text \<open>The classes the value of an expression may have.  They are a set, since the class of a result
  depends on which operand is NULL.\<close>

inductive typed :: "'d fp \<Rightarrow> 'd expr \<Rightarrow> TypeId set \<Rightarrow> bool" for fp where
  typed_Const: "value_ok fp v \<Longrightarrow> typed fp (Const v) {type_id_m v}"
| typed_Cast: "typed fp e A \<Longrightarrow> \<forall>s \<in> A. t \<in> castable s \<Longrightarrow> typed fp (Cast t e) {t}"
| typed_Copied: "typed fp e A \<Longrightarrow> typed fp (Copied e) A"
| typed_Binary: "typed fp a A \<Longrightarrow> typed fp b B \<Longrightarrow> A \<subseteq> numeric \<Longrightarrow> B \<subseteq> numeric \<Longrightarrow> typed fp (Binary f a b) (A \<union> B)"
| typed_SquareRoot: "typed fp e A \<Longrightarrow> A \<subseteq> numeric \<Longrightarrow> typed fp (SquareRoot e) (insert DECIMAL (A \<inter> {INTEGER}))"

inductive_simps typed_simps [simp]: "typed fp (Const v) A" "typed fp (Cast t e) A" "typed fp (Copied e) A"
  "typed fp (Binary f a b) A" "typed fp (SquareRoot e) A"

lemma answers_mono: "answers fp A r \<Longrightarrow> A \<subseteq> B \<Longrightarrow> answers fp B r"
  by (auto simp: answers_def split: sum.splits)

lemma answers_bind:
  assumes "answers fp A r" and "\<And>v. value_ok fp v \<Longrightarrow> type_id_m v \<in> A \<Longrightarrow> answers fp B (f v)"
  shows "answers fp B (and_then r f)"
proof (cases r)
  case (Inr v)
  then show ?thesis using assms(1) assms(2) [of v] by (simp add: answers_def)
qed (use assms(1) in \<open>simp add: answers_def\<close>)


lemma fp_bits_stod: "stod_throws fp_bits"
  using stoi_errors by (force simp: stod_throws_def fp_bits_def and_then_def split: sum.splits)


end
