(* ===== verification/VtabSchema.thy ===== *)
theory VtabSchema imports Tuple begin

text \<open>
  The statements the virtual table understands (\<open>vtable/virtual_table.cpp\<close> and
  \<open>common/string_utility.h\<close>): a text becomes a schema or the metadata of an index, and the values
  SQLite hands over become a tuple.  What SQLite answers about its values is a parameter, the record
  \<open>sql_api\<close>.
\<close>

section \<open>Strings\<close>

definition LTrim :: "string \<Rightarrow> string" where
  "LTrim s = dropWhile is_space s"

definition RTrim :: "string \<Rightarrow> string" where
  "RTrim s = rev (dropWhile is_space (rev s))"

definition Trim :: "string \<Rightarrow> string" where
  "Trim s = RTrim (LTrim s)"

text \<open>\<open>std::getline\<close> until the end of the stream: nothing follows a final delimiter.\<close>

function getlines :: "char \<Rightarrow> string \<Rightarrow> string list" where
  "getlines d [] = []"
| "getlines d (c # cs) =
     takeWhile (\<lambda>x. x \<noteq> d) (c # cs) # getlines d (drop 1 (dropWhile (\<lambda>x. x \<noteq> d) (c # cs)))"
  by pat_completeness auto

termination
proof (relation "measure (\<lambda>(d, s). length s)")
  fix d c and cs :: string
  have "length (dropWhile (\<lambda>x. x \<noteq> d) (c # cs)) \<le> length (c # cs)" by (rule length_dropWhile_le)
  then have "length (drop 1 (dropWhile (\<lambda>x. x \<noteq> d) (c # cs))) < length (c # cs)" by (simp only: length_drop list.size)
  then show "((d, drop 1 (dropWhile (\<lambda>x. x \<noteq> d) (c # cs))), (d, c # cs)) \<in> measure (\<lambda>(d, s). length s)" by simp
qed simp

definition Split :: "string \<Rightarrow> char \<Rightarrow> string list" where
  "Split s delim = map Trim (getlines delim s)"

text \<open>\<open>find_first_of\<close> of one character, and the two parts of the text around it.  Without it the
  position is \<open>npos\<close>, so that the first part is all of the text, and the second one, from
  \<open>npos + 1 = 0\<close> on, as well.\<close>

definition find_first_of :: "string \<Rightarrow> char \<Rightarrow> nat option" where
  "find_first_of s c = (if c \<in> set s then Some (length (takeWhile (\<lambda>x. x \<noteq> c) s)) else None)"

definition text_before :: "nat option \<Rightarrow> string \<Rightarrow> string" where
  "text_before n s = (case n of None \<Rightarrow> s | Some k \<Rightarrow> take k s)"

definition text_behind :: "nat option \<Rightarrow> string \<Rightarrow> string" where
  "text_behind n s = (case n of None \<Rightarrow> s | Some k \<Rightarrow> drop (k + 1) s)"

text \<open>\<open>s.substr(1, s.size() - 2)\<close>.\<close>

definition strip_ends :: "string \<Rightarrow> string result" where
  "strip_ends s = (if s = [] then Inl StdOutOfRange else Inr (take (length s - 2) (drop 1 s)))"

section \<open>The columns of a table\<close>

definition type_of_name :: "string \<Rightarrow> TypeId" where
  "type_of_name t =
     (if t = ''bool'' \<or> t = ''boolean'' then BOOLEAN
      else if t = ''tinyint'' then TINYINT
      else if t = ''smallint'' then SMALLINT
      else if t = ''int'' \<or> t = ''integer'' then INTEGER
      else if t = ''bigint'' then BIGINT
      else if t = ''double'' \<or> t = ''float'' then DECIMAL
      else if t = ''varchar'' \<or> t = ''char'' then VARCHAR
      else INVALID)"

definition parse_column :: "string \<Rightarrow> column result" where
  "parse_column t =
     (let n = find_first_of t CHR '' '';
          column_name = text_before n t;
          column_type = text_behind n t;
          p = find_first_of column_type CHR ''('' in
      and_then (if p = None then Inr 0 else stoi 32 (text_behind p column_type)) (\<lambda>column_length.
      let column_type = text_before p column_type;
          type = type_of_name column_type;
          column_length = (if type = VARCHAR \<and> column_length = 0 then 32 else column_length) in
      if type = INVALID then Inl (Thrown EXCEPTION_TYPE_UNKNOWN_TYPE)
      else if type = VARCHAR then Column_new type column_length column_name
      else and_then (GetTypeSize type) (\<lambda>size. Column_new type (int size) column_name)))"

fun parse_columns :: "string list \<Rightarrow> column list result" where
  "parse_columns [] = Inr []"
| "parse_columns (t # tok) =
     and_then (parse_column t) (\<lambda>c. and_then (parse_columns tok) (\<lambda>cs. Inr (c # cs)))"

definition ParseCreateStatement :: "string \<Rightarrow> schema result" where
  "ParseCreateStatement sql_base =
     and_then (parse_columns (Split (map to_lower sql_base) CHR '','')) (\<lambda>cs. Inr (Schema_new cs))"

section \<open>Indexes\<close>

record index_metadata =
  name_m :: string
  table_name_m :: string
  key_attrs_m :: "int list"
  key_schema_m :: schema

definition IndexMetadata_new :: "string \<Rightarrow> string \<Rightarrow> schema \<Rightarrow> int list \<Rightarrow> index_metadata result" where
  "IndexMetadata_new index_name table_name tuple_schema key_attrs =
     and_then (CopySchema tuple_schema key_attrs) (\<lambda>ks.
       Inr \<lparr>name_m = index_name, table_name_m = table_name, key_attrs_m = key_attrs, key_schema_m = ks\<rparr>)"

text \<open>Names of columns the table does not have are skipped.\<close>

fun index_attrs :: "schema \<Rightarrow> string list \<Rightarrow> int list" where
  "index_attrs s [] = []"
| "index_attrs s (t # tok) =
     (let column_id = GetColumnID (Trim t) s in
      if column_id \<noteq> -1 then column_id # index_attrs s tok else index_attrs s tok)"

definition ParseIndexStatement :: "string \<Rightarrow> string \<Rightarrow> schema \<Rightarrow> index_metadata result" where
  "ParseIndexStatement sql table_name s =
     (let sql = map to_lower sql;
          n = find_first_of sql CHR '' '' in
      guard (n \<noteq> None)
        (let index_name = text_before n sql;
             key_attrs = index_attrs s (Split (text_behind n sql) CHR '','') in
         if int (length key_attrs) > GetColumnCount s then Inl (Thrown EXCEPTION_TYPE_INDEX)
         else IndexMetadata_new index_name table_name s key_attrs))"

text \<open>An index is its metadata and the size of its keys, which the class is a template of.\<close>

record index =
  metadata :: index_metadata
  KeySize :: nat

definition ConstructIndex :: "index_metadata \<Rightarrow> index" where
  "ConstructIndex md =
     (let key_schema = key_schema_m md;
          key_size = length_m key_schema + 16 * int (length (uninlined_columns key_schema)) in
      \<lparr>metadata = md,
       KeySize = (if key_size \<le> 4 then 4 else if key_size \<le> 8 then 8 else if key_size \<le> 16 then 16
         else if key_size \<le> 32 then 32 else 64)\<rparr>)"

section \<open>Values from SQLite\<close>

text \<open>\<open>sqlite3_value_type\<close> (whether it is NULL), \<open>_int\<close>, \<open>_int64\<close>, \<open>_double\<close> and \<open>_text\<close>, which
  answers a null pointer for a NULL.\<close>

record ('q, 'd) sql_api =
  sql_null :: "'q \<Rightarrow> bool"
  sql_int :: "'q \<Rightarrow> int"
  sql_int64 :: "'q \<Rightarrow> int"
  sql_double :: "'q \<Rightarrow> 'd"
  sql_text :: "'q \<Rightarrow> string option"

text \<open>A column of a class without a case gets the value of the column before it.\<close>

definition construct_value :: "'d fp \<Rightarrow> ('q, 'd) sql_api \<Rightarrow> TypeId \<Rightarrow> 'd Value \<Rightarrow> 'q \<Rightarrow> 'd Value result" where
  "construct_value fp api t v q = (case t of
     BOOLEAN \<Rightarrow> Value_int32 t (sql_int api q)
   | INTEGER \<Rightarrow> Value_int32 t (sql_int api q)
   | SMALLINT \<Rightarrow> Value_int32 t (sql_int api q)
   | TINYINT \<Rightarrow> Value_int32 t (sql_int api q)
   | BIGINT \<Rightarrow> Value_int64 t (sql_int64 api q)
   | DECIMAL \<Rightarrow> Value_double fp t (sql_double api q)
   | VARCHAR \<Rightarrow> (case sql_text api q of None \<Rightarrow> Inl NullPointer | Some s \<Rightarrow> Value_string t s)
   | _ \<Rightarrow> Inr v)"

fun construct_values ::
  "'d fp \<Rightarrow> ('q, 'd) sql_api \<Rightarrow> schema \<Rightarrow> 'q list \<Rightarrow> nat list \<Rightarrow> 'd Value \<Rightarrow> 'd Value list result" where
  "construct_values fp api s argv [] v = Inr []"
| "construct_values fp api s argv (i # is) v =
     (if length argv \<le> i then Inl OutOfBounds
      else and_then (construct_value fp api (GetType i s) v (argv ! i)) (\<lambda>v.
           and_then (construct_values fp api s argv is v) (\<lambda>vs. Inr (v # vs))))"

definition invalid_value :: "'d Value" where
  "invalid_value = mk_int INVALID 0 True"

definition ConstructTuple ::
  "'d fp \<Rightarrow> ('q, 'd) sql_api \<Rightarrow> schema \<Rightarrow> 'q list \<Rightarrow> (nat \<Rightarrow> 8 word) \<Rightarrow> tuple result" where
  "ConstructTuple fp api s argv mem =
     and_then (construct_values fp api s argv [0..<length (columns s)] invalid_value)
       (\<lambda>values. Tuple_new fp values s mem)"

section \<open>The choice of a scan\<close>

text \<open>A constraint of the query: whether it can be used, its column, and whether it is an equality.\<close>

record constraint =
  usable :: bool
  iColumn :: int
  is_eq :: bool

text \<open>The loop over the constraints: whether it was left early, the counter, and the position each
  constraint's value gets in the arguments of the scan (\<open>argvIndex\<close>, zero for none).\<close>

fun best_index_loop :: "int list \<Rightarrow> int \<Rightarrow> constraint list \<Rightarrow> nat \<Rightarrow> bool \<times> nat \<times> int list" where
  "best_index_loop key_attrs i [] counter = (True, counter, [])"
| "best_index_loop key_attrs i (c # cs) counter =
     (if \<not> usable c then (case best_index_loop key_attrs (i + 1) cs counter of (b, n, u) \<Rightarrow> (b, n, 0 # u))
      else if iColumn c \<in> set key_attrs then
        (if \<not> is_eq c then (False, counter, replicate (length (c # cs)) 0)
         else (case best_index_loop key_attrs (i + 1) cs (counter + 1) of (b, n, u) \<Rightarrow> (b, n, (i + 1) # u)))
      else (case best_index_loop key_attrs (i + 1) cs counter of (b, n, u) \<Rightarrow> (b, n, 0 # u)))"

text \<open>Answers \<open>idxNum\<close>, which SQLite has set to zero, and the positions.\<close>

definition VtabBestIndex :: "index option \<Rightarrow> constraint list \<Rightarrow> int \<times> int list" where
  "VtabBestIndex ix cs = (case ix of
     None \<Rightarrow> (0, replicate (length cs) 0)
   | Some ix \<Rightarrow>
       let key_attrs = key_attrs_m (metadata ix) in
       if length cs \<noteq> length key_attrs then (0, replicate (length cs) 0)
       else (case best_index_loop key_attrs 0 cs 0 of (is_index_scan, counter, usage) \<Rightarrow>
         (if counter = length key_attrs \<and> is_index_scan then 1 else 0, usage)))"

end
