(* ===== verification/VirtualTable.thy ===== *)
theory VirtualTable imports VtabSchema TableHeap BTreeIndex begin

text \<open>
  The storage engine as SQLite uses it (\<open>vtable/virtual_table.h\<close>, \<open>vtable/virtual_table.cpp\<close> and
  \<open>index/b_plus_tree_index.cpp\<close>): one buffer pool with the pages of the table heap, those of the index
  and the header page, the global transaction, and the table with its cursors.  The operations of the
  heap and of the tree run on the pages of their kind; what they leave is put back.
\<close>

section \<open>The engine\<close>

text \<open>A frame of the pool holds the bytes of a table page, or a page of the index or the header page.\<close>

datatype pool_page = TableFrame bytes | TreeFrame "(generic_key, RID) page"

text \<open>The pool, the number of its frames, the transaction of \<open>GetTransaction\<close> (a null pointer is \<open>None\<close>),
  the next transaction id, and the members of the B+ tree: its root, the root latch and its count.\<close>

record engine = "pool_page store" +
  pool_frames :: nat
  global_transaction :: "transaction option"
  next_txn_id :: int
  index_root :: page_id
  index_latch :: int
  index_locked :: int

definition as_table :: "pool_page option \<Rightarrow> bytes option" where
  "as_table f = (case f of Some (TableFrame d) \<Rightarrow> Some d | _ \<Rightarrow> None)"

definition as_tree :: "pool_page option \<Rightarrow> (generic_key, RID) page option" where
  "as_tree f = (case f of Some (TreeFrame d) \<Rightarrow> Some d | _ \<Rightarrow> None)"

definition heap_view :: "transaction \<Rightarrow> engine \<Rightarrow> table_state" where
  "heap_view t e = \<lparr>contents = (\<lambda>p. as_table (contents e p)), pins = pins e, pending = pending e, latch = latch e,
     next_id = next_id e, frames = pool_frames e, txn_m = t\<rparr>"

definition put_heap :: "table_state \<Rightarrow> engine \<Rightarrow> engine" where
  "put_heap h e = e\<lparr>
     contents := (\<lambda>p. case contents h p of Some d \<Rightarrow> Some (TableFrame d)
       | None \<Rightarrow> map_option TreeFrame (as_tree (contents e p))),
     pins := pins h, pending := pending h, latch := latch h, next_id := next_id h\<rparr>"

definition tree_view :: "engine \<Rightarrow> (generic_key, RID) btree" where
  "tree_view e = \<lparr>contents = (\<lambda>p. as_tree (contents e p)), pins = pins e, pending = pending e, latch = latch e,
     next_id = next_id e, root_page_id = index_root e, root_latch = index_latch e, root_locked_cnt = index_locked e,
     txn = None\<rparr>"

definition put_tree :: "(generic_key, RID) btree \<Rightarrow> engine \<Rightarrow> engine" where
  "put_tree s e = e\<lparr>
     contents := (\<lambda>p. case contents s p of Some d \<Rightarrow> Some (TreeFrame d)
       | None \<Rightarrow> map_option TableFrame (as_table (contents e p))),
     pins := pins s, pending := pending s, latch := latch s, next_id := next_id s,
     index_root := root_page_id s, index_latch := root_latch s, index_locked := root_locked_cnt s\<rparr>"

text \<open>A call on the heap with the global transaction, which may not be a null pointer.\<close>

definition on_heap :: "(table_state \<Rightarrow> ('r \<times> table_state) option) \<Rightarrow> engine \<Rightarrow> ('r \<times> engine) option" where
  "on_heap f e =
     do { t \<leftarrow> global_transaction e;
          (r, h) \<leftarrow> f (heap_view t e);
          Some (r, (put_heap h e)\<lparr>global_transaction := Some (txn_m h)\<rparr>) }"

text \<open>A call that only reads looks at the transaction when it has to abort it.\<close>

definition on_heap_read :: "(table_state \<Rightarrow> ('r \<times> table_state) option) \<Rightarrow> engine \<Rightarrow> ('r \<times> engine) option" where
  "on_heap_read f e = (case global_transaction e of
     Some _ \<Rightarrow> on_heap f e
   | None \<Rightarrow>
       do { (r, h) \<leftarrow> f (heap_view (Transaction_new 0) e);
            _ \<leftarrow> assert_that (state_t (txn_m h) \<noteq> ABORTED);
            Some (r, put_heap h e) })"

definition on_tree :: "((generic_key, RID) btree \<Rightarrow> ('r \<times> (generic_key, RID) btree) option) \<Rightarrow> engine \<Rightarrow> ('r \<times> engine) option" where
  "on_tree f e = do { (r, s) \<leftarrow> f (tree_view e); Some (r, put_tree s e) }"

text \<open>An exception leaves every function here.\<close>

definition of_result :: "'a result \<Rightarrow> 'a option" where
  "of_result r = (case r of Inl _ \<Rightarrow> None | Inr x \<Rightarrow> Some x)"

lemma of_result_simps [simp]: "of_result (Inr x) = Some x" "of_result (Inl e) = None"
  by (simp_all add: of_result_def)

section \<open>The index\<close>

text \<open>The container of an index.  The comparator throws on values that cannot be compared; keys made
  for the index hold none.\<close>

definition container :: "'d fp \<Rightarrow> index \<Rightarrow> (generic_key, RID) tree_params" where
  "container fp ix = \<lparr>
     comparator = (\<lambda>l r. case GenericComparator fp (key_schema_m (metadata ix)) l r of Inr i \<Rightarrow> i | Inl _ \<Rightarrow> 0),
     key_size = int (KeySize ix), zero_key = replicate (KeySize ix) 0,
     zero_value = \<lparr>rid_page_id = 0, slot_num = 0\<rparr>, index_name = name_m (metadata ix)\<rparr>"

text \<open>The calls of the B+ tree, with the transaction's page sets as each call finds and leaves them:
  empty.  \<open>ScanKey\<close> passes no transaction.\<close>

definition Index_InsertEntry :: "'d fp \<Rightarrow> index \<Rightarrow> tuple \<Rightarrow> RID \<Rightarrow> (generic_key, RID) btree \<Rightarrow> (unit \<times> (generic_key, RID) btree) option" where
  "Index_InsertEntry fp ix key rid s =
     do { index_key \<leftarrow> of_result (SetFromKey (KeySize ix) key);
          (_, s) \<leftarrow> InsertEntry (container fp ix) index_key rid s;
          Some ((), s) }"

definition Index_DeleteEntry :: "'d fp \<Rightarrow> index \<Rightarrow> tuple \<Rightarrow> (generic_key, RID) btree \<Rightarrow> (unit \<times> (generic_key, RID) btree) option" where
  "Index_DeleteEntry fp ix key s =
     do { index_key \<leftarrow> of_result (SetFromKey (KeySize ix) key);
          s \<leftarrow> RemoveEntry (container fp ix) index_key s;
          Some ((), s) }"

definition Index_ScanKey :: "'d fp \<Rightarrow> index \<Rightarrow> tuple \<Rightarrow> RID list \<Rightarrow> (generic_key, RID) btree \<Rightarrow> (RID list \<times> (generic_key, RID) btree) option" where
  "Index_ScanKey fp ix key result s =
     do { index_key \<leftarrow> of_result (SetFromKey (KeySize ix) key);
          (found, s) \<leftarrow> LookupKey (container fp ix) index_key s;
          Some (result @ (case found of None \<Rightarrow> [] | Some rid \<Rightarrow> [rid]), s) }"

section \<open>The table\<close>

record virtual_table =
  schema_v :: schema
  table_heap_v :: page_id
  index_v :: "index option"

definition vt_InsertTuple :: "virtual_table \<Rightarrow> tuple \<Rightarrow> RID \<Rightarrow> engine \<Rightarrow> ((bool \<times> RID) \<times> engine) option" where
  "vt_InsertTuple vt tuple rid = on_heap (\<lambda>h. do { (ok, rid, h) \<leftarrow> th_InsertTuple False (table_heap_v vt) tuple rid h; Some ((ok, rid), h) })"

text \<open>The values of the indexed columns of a tuple.\<close>

fun indexed_values :: "'d fp \<Rightarrow> schema \<Rightarrow> int list \<Rightarrow> tuple \<Rightarrow> 'd Value list result" where
  "indexed_values fp s [] t = Inr []"
| "indexed_values fp s (i # is) t =
     and_then (Tuple_GetValue fp s (nat i) t) (\<lambda>v. and_then (indexed_values fp s is t) (\<lambda>vs. Inr (v # vs)))"

definition key_tuple :: "'d fp \<Rightarrow> (nat \<Rightarrow> 8 word) \<Rightarrow> virtual_table \<Rightarrow> index \<Rightarrow> tuple \<Rightarrow> tuple result" where
  "key_tuple fp mem vt ix t =
     and_then (indexed_values fp (schema_v vt) (key_attrs_m (metadata ix)) t)
       (\<lambda>vs. Tuple_new fp vs (key_schema_m (metadata ix)) mem)"

definition vt_InsertEntry :: "'d fp \<Rightarrow> (nat \<Rightarrow> 8 word) \<Rightarrow> virtual_table \<Rightarrow> tuple \<Rightarrow> RID \<Rightarrow> engine \<Rightarrow> engine option" where
  "vt_InsertEntry fp mem vt tuple rid e = (case index_v vt of
     None \<Rightarrow> Some e
   | Some ix \<Rightarrow> do {
       key \<leftarrow> of_result (key_tuple fp mem vt ix tuple);
       _ \<leftarrow> global_transaction e;
       (_, e) \<leftarrow> on_tree (Index_InsertEntry fp ix key rid) e;
       Some e })"

definition vt_DeleteTuple :: "virtual_table \<Rightarrow> RID \<Rightarrow> engine \<Rightarrow> (bool \<times> engine) option" where
  "vt_DeleteTuple vt rid = on_heap (th_MarkDelete False (table_heap_v vt) rid)"

text \<open>\<open>GetTuple\<close> as the table calls it, on a tuple with the record id only.\<close>

definition vt_GetTuple :: "RID \<Rightarrow> engine \<Rightarrow> (tuple \<times> engine) option" where
  "vt_GetTuple rid = on_heap_read (\<lambda>h. do { (_, t, h) \<leftarrow> th_GetTuple False rid (Tuple_of_rid rid) h; Some (t, h) })"

definition vt_DeleteEntry :: "'d fp \<Rightarrow> (nat \<Rightarrow> 8 word) \<Rightarrow> virtual_table \<Rightarrow> RID \<Rightarrow> engine \<Rightarrow> engine option" where
  "vt_DeleteEntry fp mem vt rid e = (case index_v vt of
     None \<Rightarrow> Some e
   | Some ix \<Rightarrow> do {
       (deleted_tuple, e) \<leftarrow> vt_GetTuple rid e;
       _ \<leftarrow> global_transaction e;
       key \<leftarrow> of_result (key_tuple fp mem vt ix deleted_tuple);
       (_, e) \<leftarrow> on_tree (Index_DeleteEntry fp ix key) e;
       Some e })"

definition vt_UpdateTuple :: "virtual_table \<Rightarrow> tuple \<Rightarrow> RID \<Rightarrow> engine \<Rightarrow> (bool \<times> engine) option" where
  "vt_UpdateTuple vt tuple rid = on_heap (th_UpdateTuple False (table_heap_v vt) tuple rid)"

section \<open>Cursors\<close>

record cursor =
  results :: "RID list"
  offset_c :: int
  table_iterator_c :: table_iterator
  is_index_scan :: bool

definition Cursor_new :: "virtual_table \<Rightarrow> engine \<Rightarrow> (cursor \<times> engine) option" where
  "Cursor_new vt e =
     do { (it, e) \<leftarrow> on_heap (th_begin False (table_heap_v vt)) e;
          Some (\<lparr>results = [], offset_c = 0, table_iterator_c = it, is_index_scan = False\<rparr>, e) }"

text \<open>\<open>results[offset_]\<close>, which is not checked.\<close>

definition current_result :: "cursor \<Rightarrow> RID option" where
  "current_result cur = (if 0 \<le> offset_c cur \<and> offset_c cur < int (length (results cur))
     then Some (results cur ! nat (offset_c cur)) else None)"

definition GetCurrentRid :: "cursor \<Rightarrow> int option" where
  "GetCurrentRid cur =
     (if is_index_scan cur then do { rid \<leftarrow> current_result cur; Some (RID_Get rid) }
      else do { t \<leftarrow> ti_deref (table_iterator_c cur); Some (RID_Get (rid_m t)) })"

definition GetCurrentValue :: "'d fp \<Rightarrow> schema \<Rightarrow> nat \<Rightarrow> cursor \<Rightarrow> engine \<Rightarrow> ('d Value \<times> engine) option" where
  "GetCurrentValue fp s column cur e =
     (if is_index_scan cur then
        do { rid \<leftarrow> current_result cur;
             (tuple, e) \<leftarrow> vt_GetTuple rid e;
             v \<leftarrow> of_result (Tuple_GetValue fp s column tuple);
             Some (v, e) }
      else
        do { t \<leftarrow> ti_deref (table_iterator_c cur);
             v \<leftarrow> of_result (Tuple_GetValue fp s column t);
             Some (v, e) })"

definition Cursor_next :: "cursor \<Rightarrow> engine \<Rightarrow> (cursor \<times> engine) option" where
  "Cursor_next cur e =
     (if is_index_scan cur then Some (cur\<lparr>offset_c := offset_c cur + 1\<rparr>, e)
      else do { (it, e) \<leftarrow> on_heap (ti_next False (table_iterator_c cur)) e;
                Some (cur\<lparr>table_iterator_c := it\<rparr>, e) })"

definition Cursor_isEof :: "virtual_table \<Rightarrow> cursor \<Rightarrow> bool" where
  "Cursor_isEof vt cur =
     (if is_index_scan cur then offset_c cur = int (length (results cur))
      else ti_eq (table_iterator_c cur) (th_end (table_heap_v vt)))"

definition Cursor_ScanKey :: "'d fp \<Rightarrow> virtual_table \<Rightarrow> tuple \<Rightarrow> cursor \<Rightarrow> engine \<Rightarrow> (cursor \<times> engine) option" where
  "Cursor_ScanKey fp vt key cur e =
     do { ix \<leftarrow> index_v vt;
          (rs, e) \<leftarrow> on_tree (Index_ScanKey fp ix key (results cur)) e;
          Some (cur\<lparr>results := rs\<rparr>, e) }"

end
