(* ===== verification/VtabModule.thy ===== *)
theory VtabModule imports VirtualTable begin

text \<open>
  The callbacks of the virtual table module (\<open>vtable/virtual_table.cpp\<close>), which SQLite calls, on the engine.
  Pointers SQLite passes back (the table, the cursor) are arguments and results here.
\<close>

section \<open>Transactions\<close>

definition VtabBegin :: "engine \<Rightarrow> engine" where
  "VtabBegin e = (case tm_Begin (next_txn_id e) of (t, n) \<Rightarrow> e\<lparr>global_transaction := Some t, next_txn_id := n\<rparr>)"

definition VtabCommit :: "engine \<Rightarrow> engine option" where
  "VtabCommit e = (case global_transaction e of
     None \<Rightarrow> Some e
   | Some _ \<Rightarrow> do { (_, e) \<leftarrow> on_heap (\<lambda>h. do { h \<leftarrow> tm_Commit False h; Some ((), h) }) e;
                   Some (e\<lparr>global_transaction := None\<rparr>) })"

section \<open>Reading\<close>

definition VtabOpen :: "virtual_table \<Rightarrow> engine \<Rightarrow> (cursor \<times> engine) option" where
  "VtabOpen vt e = Cursor_new vt (if global_transaction e = None then VtabBegin e else e)"

definition VtabClose :: "engine \<Rightarrow> engine option" where
  "VtabClose e = VtabCommit e"

definition VtabFilter ::
  "'d fp \<Rightarrow> ('q, 'd) sql_api \<Rightarrow> (nat \<Rightarrow> 8 word) \<Rightarrow> virtual_table \<Rightarrow> int \<Rightarrow> 'q list \<Rightarrow> cursor \<Rightarrow> engine \<Rightarrow> (cursor \<times> engine) option" where
  "VtabFilter fp api mem vt idxNum argv cur e =
     (if idxNum = 1 then
        do { let cur = cur\<lparr>is_index_scan := True\<rparr>;
             ix \<leftarrow> index_v vt;
             scan_tuple \<leftarrow> of_result (ConstructTuple fp api (key_schema_m (metadata ix)) argv mem);
             Cursor_ScanKey fp vt scan_tuple cur e }
      else Some (cur, e))"

definition VtabNext :: "cursor \<Rightarrow> engine \<Rightarrow> (cursor \<times> engine) option" where
  "VtabNext cur e = Cursor_next cur e"

definition VtabEof :: "virtual_table \<Rightarrow> cursor \<Rightarrow> bool" where
  "VtabEof vt cur = Cursor_isEof vt cur"

text \<open>What a column is answered with: \<open>sqlite3_result_int\<close>, \<open>_int64\<close>, \<open>_double\<close> and \<open>_text\<close>, whose text
  is the bytes up to the first zero (there are none behind a null pointer), or \<open>SQLITE_ERROR\<close>.\<close>

datatype 'd sql_result = ResultInt int | ResultInt64 int | ResultDouble 'd | ResultText "8 word list option" | ResultError

definition sql_answer :: "'d fp \<Rightarrow> TypeId \<Rightarrow> 'd Value \<Rightarrow> 'd sql_result" where
  "sql_answer fp type v = (case type of
     TINYINT \<Rightarrow> ResultInt (value_int v)
   | BOOLEAN \<Rightarrow> ResultInt (value_int v)
   | SMALLINT \<Rightarrow> ResultInt (value_int v)
   | INTEGER \<Rightarrow> ResultInt (value_int v)
   | BIGINT \<Rightarrow> ResultInt64 (value_int v)
   | DECIMAL \<Rightarrow> ResultDouble (value_dec fp v)
   | VARCHAR \<Rightarrow> ResultText (case val_m v of StrVal (Some bs) \<Rightarrow> Some (takeWhile (\<lambda>b. b \<noteq> 0) bs) | _ \<Rightarrow> None)
   | _ \<Rightarrow> ResultError)"

definition VtabColumn :: "'d fp \<Rightarrow> virtual_table \<Rightarrow> cursor \<Rightarrow> nat \<Rightarrow> engine \<Rightarrow> ('d sql_result \<times> engine) option" where
  "VtabColumn fp vt cur i e =
     do { let s = schema_v vt;
          let type = GetType i s;
          (v, e) \<leftarrow> GetCurrentValue fp s i cur e;
          Some (sql_answer fp type v, e) }"

definition VtabRowid :: "cursor \<Rightarrow> int option" where
  "VtabRowid cur = GetCurrentRid cur"

section \<open>Writing\<close>

text \<open>The three forms of the call: a deletion, an insertion and an update.  What the table answers is
  looked at only to choose between an update in place and a deletion followed by an insertion.\<close>

definition VtabUpdate ::
  "'d fp \<Rightarrow> ('q, 'd) sql_api \<Rightarrow> (nat \<Rightarrow> 8 word) \<Rightarrow> virtual_table \<Rightarrow> 'q list \<Rightarrow> engine \<Rightarrow> engine option" where
  "VtabUpdate fp api mem vt argv e =
     (if length argv = 1 then
        do { let rid = RID_of_int64 (sql_int64 api (argv ! 0));
             e \<leftarrow> vt_DeleteEntry fp mem vt rid e;
             (_, e) \<leftarrow> vt_DeleteTuple vt rid e;
             Some e }
      else if length argv > 1 \<and> sql_null api (argv ! 0) then
        do { tuple \<leftarrow> of_result (ConstructTuple fp api (schema_v vt) (drop 2 argv) mem);
             ((_, rid), e) \<leftarrow> vt_InsertTuple vt tuple RID_default e;
             vt_InsertEntry fp mem vt tuple rid e }
      else if length argv > 1 then
        do { tuple \<leftarrow> of_result (ConstructTuple fp api (schema_v vt) (drop 2 argv) mem);
             let rid = RID_of_int64 (sql_int64 api (argv ! 0));
             e \<leftarrow> vt_DeleteEntry fp mem vt rid e;
             (updated, e) \<leftarrow> vt_UpdateTuple vt tuple rid e;
             (rid, e) \<leftarrow> (if updated then Some (rid, e)
               else do { (_, e) \<leftarrow> vt_DeleteTuple vt rid e;
                         ((_, rid), e) \<leftarrow> vt_InsertTuple vt tuple rid e;
                         Some (rid, e) });
             vt_InsertEntry fp mem vt tuple rid e }
      else Some e)"

section \<open>Opening tables\<close>

text \<open>The header page of the pool, as its records.\<close>

definition header_records :: "engine \<Rightarrow> (string \<times> page_id) list option" where
  "header_records e = do { f \<leftarrow> st_get HEADER_PAGE_ID e; d \<leftarrow> as_tree (Some f); as_header d }"

text \<open>\<open>GetRootId\<close> into a variable that holds \<open>u\<close>, which it keeps when there is no record.\<close>

definition header_GetRootId :: "string \<Rightarrow> (string \<times> page_id) list \<Rightarrow> page_id \<Rightarrow> (bool \<times> page_id) option" where
  "header_GetRootId name rs u =
     do { _ \<leftarrow> assert_that (length name < 32);
          Some (case map_of rs name of None \<Rightarrow> (False, u) | Some r \<Rightarrow> (True, r)) }"

text \<open>The engine over the pages of the file, if there is one: the disk manager gives out page ids from zero on
  in both cases, and only a new file gets its header page.\<close>

definition StorageEngine_new :: "nat \<Rightarrow> (page_id \<Rightarrow> pool_page option) \<Rightarrow> engine" where
  "StorageEngine_new n file = \<lparr>contents = file, pins = (\<lambda>_. 0), pending = {}, latch = (\<lambda>_. 0), next_id = 0, pool_frames = n,
     global_transaction = None, next_txn_id = 0, index_root = INVALID_PAGE_ID, index_latch = 0, index_locked = 0\<rparr>"

definition sqlite3_vtable_init :: "nat \<Rightarrow> (page_id \<Rightarrow> pool_page option) option \<Rightarrow> engine option" where
  "sqlite3_vtable_init n file = (case file of
     Some pages \<Rightarrow> Some (StorageEngine_new n pages)
   | None \<Rightarrow>
       do { let e = StorageEngine_new n Map.empty;
            let (header_page_id, e) = st_new (TreeFrame RawPage) e;
            _ \<leftarrow> assert_that (header_page_id = HEADER_PAGE_ID);
            st_unpin header_page_id True e })"

text \<open>The index of a create or connect call, if there is a text for it.\<close>

definition parse_index :: "string list \<Rightarrow> schema \<Rightarrow> index option option" where
  "parse_index argv s =
     (if length argv > 4 then
        do { index_string \<leftarrow> of_result (strip_ends (argv ! 4));
             md \<leftarrow> of_result (ParseIndexStatement index_string (argv ! 2) s);
             Some (Some (ConstructIndex md)) }
      else Some None)"

text \<open>The constructor of the table without a first page: a transaction of its own makes the heap.\<close>

definition VirtualTable_new :: "schema \<Rightarrow> index option \<Rightarrow> engine \<Rightarrow> (virtual_table \<times> engine) option" where
  "VirtualTable_new s ix e =
     do { let (t, n) = tm_Begin (next_txn_id e);
          let e = e\<lparr>next_txn_id := n\<rparr>;
          (first_page_id, h) \<leftarrow> th_create (heap_view t e);
          h \<leftarrow> tm_Commit False h;
          Some (\<lparr>schema_v = s, table_heap_v = first_page_id, index_v = ix\<rparr>, put_heap h e) }"

definition VtabCreate :: "string list \<Rightarrow> engine \<Rightarrow> (virtual_table \<times> engine) option" where
  "VtabCreate argv e =
     do { e \<leftarrow> st_fetch HEADER_PAGE_ID e;
          _ \<leftarrow> assert_that (length argv \<ge> 4);
          schema_string \<leftarrow> of_result (strip_ends (argv ! 3));
          s \<leftarrow> of_result (ParseCreateStatement schema_string);
          ix \<leftarrow> parse_index argv s;
          (table, e) \<leftarrow> VirtualTable_new s ix (e\<lparr>index_root := INVALID_PAGE_ID, index_latch := 0, index_locked := 0\<rparr>);
          rs \<leftarrow> header_records e;
          (_, rs) \<leftarrow> header_InsertRecord (argv ! 2) (table_heap_v table) rs;
          e \<leftarrow> st_put HEADER_PAGE_ID (TreeFrame (HeaderP rs)) e;
          e \<leftarrow> st_unpin HEADER_PAGE_ID True e;
          Some (table, e) }"

text \<open>Both root ids are read without a look at the answer of \<open>GetRootId\<close>: without a record they are what
  the memory of the local variables held, here \<open>u\<close> and \<open>w\<close>.  A table without a first page is created.\<close>

definition VtabConnect :: "page_id \<Rightarrow> page_id \<Rightarrow> string list \<Rightarrow> engine \<Rightarrow> (virtual_table \<times> engine) option" where
  "VtabConnect u w argv e =
     do { _ \<leftarrow> assert_that (length argv \<ge> 4);
          schema_string \<leftarrow> of_result (strip_ends (argv ! 3));
          s \<leftarrow> of_result (ParseCreateStatement schema_string);
          e \<leftarrow> st_fetch HEADER_PAGE_ID e;
          rs \<leftarrow> header_records e;
          (_, table_root_id) \<leftarrow> header_GetRootId (argv ! 2) rs u;
          ix \<leftarrow> parse_index argv s;
          (_, index_root_id) \<leftarrow> (case ix of None \<Rightarrow> Some (False, INVALID_PAGE_ID)
            | Some i \<Rightarrow> header_GetRootId (name_m (metadata i)) rs w);
          let e = e\<lparr>index_root := index_root_id, index_latch := 0, index_locked := 0\<rparr>;
          (table, e) \<leftarrow> (if table_root_id \<noteq> INVALID_PAGE_ID
            then Some (\<lparr>schema_v = s, table_heap_v = table_root_id, index_v = ix\<rparr>, e)
            else VirtualTable_new s ix e);
          e \<leftarrow> st_unpin HEADER_PAGE_ID False e;
          Some (table, e) }"

end
