(* ===== verification/StoreGrow.thy ===== *)
theory StoreGrow imports BTreeRemove begin

text \<open>
  Where the B+ tree makes pages: no operation makes a page under an id that was given out before and has
  no page.  The statements are partial correctness triples over the option monad, \<open>pred_option\<close>, so that
  each operation follows its code.  A pool that the tree shares with others can rely on it.
\<close>

section \<open>The relation\<close>

definition missing :: "('d, 'z) store_scheme \<Rightarrow> page_id set" where
  "missing s = {p. p < next_id s \<and> contents s p = None}"

definition grew :: "('d, 'z) store_scheme \<Rightarrow> ('d, 'z) store_scheme \<Rightarrow> bool" where
  "grew z s \<longleftrightarrow> store_inv s \<and> next_id z \<le> next_id s \<and> missing z \<subseteq> missing s"

text \<open>The triples for the three shapes of results.\<close>

abbreviation yields :: "('d, 'z) store_scheme \<Rightarrow> ('d, 'z) store_scheme option \<Rightarrow> bool" where
  "yields z m \<equiv> pred_option (grew z) m"

abbreviation yields1 :: "('d, 'z) store_scheme \<Rightarrow> ('a \<times> ('d, 'z) store_scheme) option \<Rightarrow> bool" where
  "yields1 z m \<equiv> pred_option (\<lambda>(a, s). grew z s) m"

abbreviation yields2 :: "('d, 'z) store_scheme \<Rightarrow> ('a \<times> 'b \<times> ('d, 'z) store_scheme) option \<Rightarrow> bool" where
  "yields2 z m \<equiv> pred_option (\<lambda>(a, b, s). grew z s) m"

named_theorems grow

lemma bind_state: "pred_option Q m \<Longrightarrow> (\<And>x. Q x \<Longrightarrow> pred_option P (f x)) \<Longrightarrow> pred_option P (m \<bind> f)"
  by (cases m) simp_all

lemma bind_any: "(\<And>x. m = Some x \<Longrightarrow> pred_option P (f x)) \<Longrightarrow> pred_option P (m \<bind> f)"
  by (cases m) simp_all

text \<open>The result of a bind is of one of the three shapes as well.\<close>

lemma grow_binds:
  "yields z m \<Longrightarrow> (\<And>s. grew z s \<Longrightarrow> yields z (f s)) \<Longrightarrow> yields z (m \<bind> f)"
  "yields z m \<Longrightarrow> (\<And>s. grew z s \<Longrightarrow> yields1 z (f' s)) \<Longrightarrow> yields1 z (m \<bind> f')"
  "yields z m \<Longrightarrow> (\<And>s. grew z s \<Longrightarrow> yields2 z (f'' s)) \<Longrightarrow> yields2 z (m \<bind> f'')"
  "yields1 z m1 \<Longrightarrow> (\<And>a s. grew z s \<Longrightarrow> yields z (f1 a s)) \<Longrightarrow> yields z (m1 \<bind> (\<lambda>(a, s). f1 a s))"
  "yields1 z m1 \<Longrightarrow> (\<And>a s. grew z s \<Longrightarrow> yields1 z (f1' a s)) \<Longrightarrow> yields1 z (m1 \<bind> (\<lambda>(a, s). f1' a s))"
  "yields2 z m2 \<Longrightarrow> (\<And>a b s. grew z s \<Longrightarrow> yields z (f2 a b s)) \<Longrightarrow> yields z (m2 \<bind> (\<lambda>(a, b, s). f2 a b s))"
  "yields2 z m2 \<Longrightarrow> (\<And>a b s. grew z s \<Longrightarrow> yields1 z (f2' a b s)) \<Longrightarrow> yields1 z (m2 \<bind> (\<lambda>(a, b, s). f2' a b s))"
  by (erule bind_state; auto)+

lemma grow_primitives [grow]:
  assumes "grew z s"
  shows "yields z (st_fetch p s)" "yields z (st_put p d s)" "yields z (st_unpin p b s)" "yields z (st_wlatch p s)"
    "yields z (st_wunlatch p s)" "yields z (st_rlatch p s)" "yields z (st_runlatch p s)"
proof -
  have inv: "store_inv s" using assms by (simp add: grew_def)
  show "yields z (st_fetch p s)"
    using assms store_inv_fetch [OF inv, of p] by (auto simp: grew_def missing_def st_fetch_def split: option.splits)
  have "missing (s\<lparr>contents := (contents s)(p \<mapsto> d), pending := insert p (pending s)\<rparr>) = missing s" if "0 < pins s p"
    using that inv by (auto simp: missing_def store_inv_def)
  then show "yields z (st_put p d s)"
    using assms store_inv_put [OF inv, of p d] by (auto simp: grew_def st_put_def)
  show "yields z (st_unpin p b s)"
    using assms store_inv_unpin [OF inv, of p b] by (auto simp: grew_def missing_def st_unpin_def Let_def)
  show "yields z (st_wlatch p s)" "yields z (st_wunlatch p s)" "yields z (st_rlatch p s)" "yields z (st_runlatch p s)"
    using assms by (auto simp: grew_def missing_def store_inv_def st_wlatch_def st_wunlatch_def st_rlatch_def st_runlatch_def)
qed

lemma grew_new: "grew z s \<Longrightarrow> st_new d s = (p, s') \<Longrightarrow> grew z s'"
  using store_inv_new [of s d p s'] by (auto simp: grew_def missing_def st_new_def Let_def)

lemma grew_delete: "grew z s \<Longrightarrow> grew z (snd (st_delete p s))"
  using store_inv_delete [of s p] by (auto simp: grew_def missing_def st_delete_def)

lemma grew_fields [simp]:
  "grew z (s\<lparr>root_page_id := r\<rparr>) = grew z s" "grew z (s\<lparr>root_latch := l\<rparr>) = grew z s"
  "grew z (s\<lparr>root_locked_cnt := n\<rparr>) = grew z s" "grew z (s\<lparr>txn := t\<rparr>) = grew z s"
  by (simp_all add: grew_def missing_def store_inv_def)

text \<open>The rules for the other constructs of the programs.  A bind whose first part leaves the state alone is
  known by the type of its answer.\<close>

lemma grow_if [grow]:
  "(b \<Longrightarrow> pred_option P x) \<Longrightarrow> (\<not> b \<Longrightarrow> pred_option P y) \<Longrightarrow> pred_option P (if b then x else y)"
  by simp

lemma grow_option [grow]:
  "(x = None \<Longrightarrow> pred_option P a) \<Longrightarrow> (\<And>y. x = Some y \<Longrightarrow> pred_option P (f y)) \<Longrightarrow>
   pred_option P (case x of None \<Rightarrow> a | Some y \<Rightarrow> f y)"
  by (cases x) simp_all

lemma grew_states [grow]:
  "(b \<Longrightarrow> grew z s) \<Longrightarrow> (\<not> b \<Longrightarrow> grew z s') \<Longrightarrow> grew z (if b then s else s')"
  "grew z s \<Longrightarrow> grew z (snd (st_delete p s))" "grew z t \<Longrightarrow> grew z (t\<lparr>root_page_id := r\<rparr>)" "grew z t \<Longrightarrow> grew z (t\<lparr>txn := x\<rparr>)"
  by (simp_all add: grew_delete)

lemma grow_new [grow]:
  "grew z s \<Longrightarrow> (\<And>p s'. grew z s' \<Longrightarrow> yields z (f p s')) \<Longrightarrow> yields z (case st_new d s of (p, s') \<Rightarrow> f p s')"
  "grew z s \<Longrightarrow> (\<And>p s'. grew z s' \<Longrightarrow> yields1 z (f1 p s')) \<Longrightarrow> yields1 z (case st_new d s of (p, s') \<Rightarrow> f1 p s')"
  using grew_new [of z s d] by (simp_all split: prod.split)

lemma grow_Some [grow]:
  "grew z s \<Longrightarrow> yields z (Some s)" "grew z s \<Longrightarrow> yields1 z (Some (a, s))" "grew z s \<Longrightarrow> yields2 z (Some (a, b, s))"
  by simp_all

lemma grow_None [grow]: "pred_option P None"
  by simp

lemma pair_any: "(\<And>a b. pred_option P (f a b)) \<Longrightarrow> pred_option P (case x of (a, b) \<Rightarrow> f a b)"
  by (cases x) simp

lemma bind_pair: "(\<And>a b. pred_option P (f a b)) \<Longrightarrow> pred_option P (m \<bind> (\<lambda>(a, b). f a b))"
  by (cases m) auto

lemma bind_triple: "(\<And>a b c. pred_option P (f a b c)) \<Longrightarrow> pred_option P (m \<bind> (\<lambda>(a, b, c). f a b c))"
  by (cases m) auto

lemma grow_triple [grow]:
  "(\<And>a b c. pred_option P (g a b c)) \<Longrightarrow> pred_option P (case (y :: page_id \<times> page_id \<times> bpt_header) of (a, b, c) \<Rightarrow> g a b c)"
  by (cases y) simp

lemma grow_keys [grow]:
  "(\<And>k. pred_option P (f k)) \<Longrightarrow> pred_option P (leaf_KeyAt i l \<bind> f)"
  "(\<And>k. pred_option P (f k)) \<Longrightarrow> pred_option P (internal_KeyAt i n \<bind> f)"
  by (auto intro: bind_any)

lemmas grow_reads [grow] =
  bind_any [where 'a = unit] bind_any [where 'a = bool] bind_any [where 'a = page_id] bind_any [where 'a = bpt_header]
  bind_any [where 'a = txn_pages] bind_any [where 'a = "('k, 'v) page"] bind_any [where 'a = "'k internal_page"]
  bind_any [where 'a = "('k, 'v) leaf_page"] bind_any [where 'a = "(string \<times> page_id) list"]
  pair_any [where 'a = "('k, 'v) leaf_page" and 'b = "('k, 'v) leaf_page"]
  bind_pair [where 'a = bool and 'b = "(string \<times> page_id) list"] bind_pair [where 'a = int and 'b = "('k, 'v) leaf_page"]
  bind_pair [where 'a = int and 'b = "'k internal_page"] bind_pair [where 'a = "'k internal_page" and 'b = "'k internal_page"]
  bind_triple [where 'a = "'k \<times> page_id" and 'b = "'k internal_page" and 'c = "'k internal_page"]

declare grow_binds [grow]

lemma Lock_grow [grow]: "grew z s \<Longrightarrow> yields z (Lock b p s)"
  unfolding Lock_def by (intro grow)

lemma Unlock_grow [grow]: "grew z s \<Longrightarrow> yields z (Unlock b p s)"
  unfolding Unlock_def by (intro grow)

lemma Unlock_id_grow [grow]: "grew z s \<Longrightarrow> yields z (Unlock_id b p s)"
  unfolding Unlock_id_def by (intro grow)

lemma root_latch_grow [grow]:
  "grew z s \<Longrightarrow> yields z (LockRootPageId b s)" "grew z s \<Longrightarrow> yields z (TryUnlockRootPageId b s)"
  by (simp_all add: LockRootPageId_def TryUnlockRootPageId_def)

lemma txn_grow [grow]:
  "grew z s \<Longrightarrow> yields z (AddIntoPageSet p s)" "grew z s \<Longrightarrow> yields z (AddIntoDeletedPageSet p s)"
  by (simp_all add: AddIntoPageSet_def AddIntoDeletedPageSet_def split: option.split)

lemma free_pages_grow [grow]: "grew z s \<Longrightarrow> yields z (free_pages b ps s)"
proof (induction ps arbitrary: s)
  case (Cons p ps)
  note IH = Cons.IH and s = Cons.prems
  show ?case unfolding free_pages.simps Let_def using s
    by (intro grow IH)
qed simp

lemma FreePagesInTransaction_grow [grow]: "grew z s \<Longrightarrow> yields z (FreePagesInTransaction b cur s)"
  unfolding FreePagesInTransaction_def by (intro grow)

lemma CrabingProtocalFetchPage_grow [grow]: "grew z s \<Longrightarrow> yields z (CrabingProtocalFetchPage p op previous s)"
  unfolding CrabingProtocalFetchPage_def Let_def by (intro grow)

text \<open>A loop is taken apart by the induction of its partial function.\<close>

lemma grown: "m = Some y \<Longrightarrow> pred_option Q m \<Longrightarrow> Q y"
  by simp

lemma FindLeafPage_loop_grow [grow]:
  assumes "grew z s"
  shows "yields1 z (FindLeafPage_loop c key leftMost op cur s)"
proof -
  have "grew z s \<longrightarrow> grew z (snd y)" if "FindLeafPage_loop c key leftMost op cur s = Some y" for y
  proof (rule FindLeafPage_loop.raw_induct [where P = "\<lambda>c key leftMost op cur s y. grew z s \<longrightarrow> grew z (snd y)", OF _ that], goal_cases)
    case (1 loop c key leftMost op cur s y)
    then have loop: "grew z s \<Longrightarrow> yields1 z (loop c key leftMost op p s)" for p s
      by (auto simp: pred_option_def split_beta)
    show ?case
    proof
      assume s: "grew z s"
      have "(\<lambda>(a, s). grew z s) y" by (rule grown [OF 1(2)]) (use s in \<open>intro grow loop\<close>)
      then show "grew z (snd y)" by (simp add: split_beta)
    qed
  qed
  then show ?thesis using assms by (auto simp: pred_option_def)
qed

lemma FindLeafPage_grow [grow]: "grew z s \<Longrightarrow> yields1 z (FindLeafPage c key leftMost op s)"
  unfolding FindLeafPage_def Let_def by (intro grow)

section \<open>Insertion\<close>

lemma put_grow [grow]:
  "grew z s \<Longrightarrow> yields z (put_leaf p l s)" "grew z s \<Longrightarrow> yields z (put_internal p n s)" "grew z s \<Longrightarrow> yields z (put_parent p q s)"
  unfolding put_leaf_def put_internal_def put_parent_def by (intro grow; assumption)+

lemma UpdateRootPageId_grow [grow]: "grew z s \<Longrightarrow> yields z (UpdateRootPageId c b s)"
  unfolding UpdateRootPageId_def by (intro grow)

lemma StartNewTree_grow [grow]: "grew z s \<Longrightarrow> yields z (StartNewTree c key v s)"
  unfolding StartNewTree_def Let_def by (intro grow)

lemma reparent_children_grow [grow]: "grew z s \<Longrightarrow> yields z (reparent_children parent es s)"
proof (induction es arbitrary: s)
  case (Cons e es)
  note IH = Cons.IH and s = Cons.prems
  show ?case unfolding reparent_children.simps using s by (intro grow IH)
qed simp

lemma internal_MoveHalfTo_grow [grow]: "grew z s \<Longrightarrow> yields z (internal_MoveHalfTo c node recipient s)"
  unfolding internal_MoveHalfTo_def by (intro grow)

lemma Split_grow [grow]:
  "grew z s \<Longrightarrow> yields1 z (Split_leaf c node s)" "grew z s \<Longrightarrow> yields1 z (Split_internal c node s)"
  unfolding Split_leaf_def Split_internal_def Let_def by (intro grow; assumption)+

lemma InsertIntoParent_grow [grow]:
  assumes "grew z s"
  shows "yields z (InsertIntoParent c old_node key new_node s)"
proof -
  have "grew z s \<longrightarrow> grew z y" if "InsertIntoParent c old_node key new_node s = Some y" for y
  proof (rule InsertIntoParent.raw_induct [where P = "\<lambda>c old_node key new_node s y. grew z s \<longrightarrow> grew z y", OF _ that], goal_cases)
    case (1 loop c old_node key new_node s y)
    then have loop: "grew z s \<Longrightarrow> yields z (loop c p k q s)" for p k q s
      by (auto simp: pred_option_def)
    show ?case
    proof
      assume s: "grew z s"
      show "grew z y" by (rule grown [OF 1(2)]) (unfold Let_def, use s in \<open>intro grow loop\<close>)
    qed
  qed
  then show ?thesis using assms by (auto simp: pred_option_def)
qed

lemma InsertIntoLeaf_grow [grow]: "grew z s \<Longrightarrow> yields1 z (InsertIntoLeaf c key v s)"
  unfolding InsertIntoLeaf_def by (intro grow)

lemma Insert_grow: "grew z s \<Longrightarrow> yields1 z (Insert c key v s)"
  unfolding Insert_def by (intro grow)

section \<open>Deletion\<close>

lemma leaf_Move_grow [grow]:
  "grew z s \<Longrightarrow> yields z (leaf_MoveFirstToEndOf c node recipient s)"
  "grew z s \<Longrightarrow> yields z (leaf_MoveLastToFrontOf c node recipient i s)"
  unfolding leaf_MoveFirstToEndOf_def leaf_MoveLastToFrontOf_def Let_def by (intro grow; assumption)+

lemma internal_Move_grow [grow]:
  "grew z s \<Longrightarrow> yields z (internal_MoveAllTo c node recipient i s)"
  "grew z s \<Longrightarrow> yields z (internal_MoveFirstToEndOf c node recipient s)"
  "grew z s \<Longrightarrow> yields z (internal_MoveLastToFrontOf c node recipient i s)"
  unfolding internal_MoveAllTo_def internal_MoveFirstToEndOf_def internal_MoveLastToFrontOf_def
    by (intro grow; assumption)+

lemma AdjustRoot_grow [grow]: "grew z s \<Longrightarrow> yields1 z (AdjustRoot c p s)"
  unfolding AdjustRoot_def by (intro grow)

lemma FindLeftSibling_grow [grow]: "grew z s \<Longrightarrow> yields2 z (FindLeftSibling c p s)"
  unfolding FindLeftSibling_def Let_def by (intro grow)

lemma grow_kind [grow]:
  "pred_option P a \<Longrightarrow> pred_option P b \<Longrightarrow> pred_option P (case kind of LeafNode \<Rightarrow> a | InternalNode \<Rightarrow> b)"
  by (cases kind) simp_all

lemma Redistribute_grow [grow]: "grew z s \<Longrightarrow> yields z (Redistribute c kind p q i s)"
  unfolding Redistribute_def by (intro grow)

lemma MoveAllTo_grow [grow]: "grew z s \<Longrightarrow> yields z (MoveAllTo c kind p q i s)"
  unfolding MoveAllTo_def Let_def by (intro grow)

lemma Coalesce_step_grow [grow]: "grew z s \<Longrightarrow> yields1 z (Coalesce_step c kind q p par i s)"
  unfolding Coalesce_step_def by (intro grow)

lemma CoalesceOrRedistribute_grow [grow]:
  assumes "grew z s"
  shows "yields1 z (CoalesceOrRedistribute c kind p s)"
proof -
  have "grew z s \<longrightarrow> grew z (snd y)" if "CoalesceOrRedistribute c kind p s = Some y" for y
  proof (rule CoalesceOrRedistribute.raw_induct [where P = "\<lambda>c kind p s y. grew z s \<longrightarrow> grew z (snd y)", OF _ that], goal_cases)
    case (1 loop c kind p s y)
    then have loop: "grew z s \<Longrightarrow> yields1 z (loop c k q s)" for k q s
      by (auto simp: pred_option_def split_beta)
    show ?case
    proof
      assume s: "grew z s"
      have "(\<lambda>(a, s). grew z s) y" by (rule grown [OF 1(2)]) (unfold Let_def, use s in \<open>intro grow loop\<close>)
      then show "grew z (snd y)" by (simp add: split_beta)
    qed
  qed
  then show ?thesis using assms by (auto simp: pred_option_def)
qed

lemma Remove_key_grow: "grew z s \<Longrightarrow> yields z (Remove_key c key s)"
  unfolding Remove_key_def by (intro grow)

end
