(* ===== verification/VtabFrames.thy ===== *)
theory VtabFrames imports VtabModule StoreGrow TableScan BTreeClaims begin

text \<open>
  The heap and the index in one pool: between two calls no page is held, an operation of the heap leaves
  the pages of the index as they were, and the other way round, because new pages get ids that no page had.
\<close>

section \<open>The engine between calls\<close>

definition quiet :: "engine \<Rightarrow> bool" where
  "quiet e \<longleftrightarrow> (\<forall>p. pins e p = 0) \<and> (\<forall>p. latch e p = 0) \<and> pending e = {} \<and> 0 \<le> next_id e \<and>
     (\<forall>p. contents e p \<noteq> None \<longrightarrow> 0 \<le> p \<and> p < next_id e) \<and> 2 \<le> pool_frames e \<and> index_latch e = 0 \<and> index_locked e = 0"

lemma heap_view_simps [simp]:
  "contents (heap_view t e) = (\<lambda>p. as_table (contents e p))" "pins (heap_view t e) = pins e" "pending (heap_view t e) = pending e"
  "latch (heap_view t e) = latch e" "next_id (heap_view t e) = next_id e" "frames (heap_view t e) = pool_frames e"
  "txn_m (heap_view t e) = t"
  by (simp_all add: heap_view_def)

lemma tree_view_simps [simp]:
  "contents (tree_view e) = (\<lambda>p. as_tree (contents e p))" "pins (tree_view e) = pins e" "pending (tree_view e) = pending e"
  "latch (tree_view e) = latch e" "next_id (tree_view e) = next_id e" "root_page_id (tree_view e) = index_root e"
  "root_latch (tree_view e) = index_latch e" "root_locked_cnt (tree_view e) = index_locked e" "txn (tree_view e) = None"
  by (simp_all add: tree_view_def)

lemma as_simps [simp]:
  "as_table None = None" "as_tree None = None" "as_table (Some (TableFrame d)) = Some d" "as_tree (Some (TreeFrame x)) = Some x"
  "as_table (Some (TreeFrame x)) = None" "as_tree (Some (TableFrame d)) = None"
  by (simp_all add: as_table_def as_tree_def)

lemma as_cases: "f = None \<or> (\<exists>d. f = Some (TableFrame d)) \<or> (\<exists>x. f = Some (TreeFrame x))"
  by (cases f) (auto intro: pool_page.exhaust)

lemma as_SomeD: "as_table f \<noteq> None \<Longrightarrow> f \<noteq> None" "as_tree f \<noteq> None \<Longrightarrow> f \<noteq> None" "as_table f \<noteq> None \<Longrightarrow> as_tree f = None"
  using as_cases [of f] by auto

lemma heap_view_txn: "heap_view t e = set_txn t (heap_view u e)"
  by (simp add: heap_view_def set_txn_def)

lemma set_txn_view [simp]: "set_txn t (heap_view u e) = heap_view t e"
  by (simp add: heap_view_def set_txn_def)

lemma quiet_heap: "quiet e \<Longrightarrow> heap_ok (heap_view t e)"
proof -
  assume q: "quiet e"
  then have "store_inv (heap_view t e)" using as_SomeD(1) by (simp add: quiet_def store_inv_def)
  moreover have "pinned_count (heap_view t e) = 0" using q by (simp add: quiet_def pinned_count_def)
  ultimately show ?thesis using q by (simp add: quiet_def heap_ok_def)
qed

lemma quiet_tree: "quiet e \<Longrightarrow> idle (tree_view e)"
  using as_SomeD(2) by (simp add: quiet_def idle_def store_inv_def)

section \<open>Operations of the heap\<close>

lemma put_heap_simps [simp]:
  "pins (put_heap h e) = pins h" "pending (put_heap h e) = pending h" "latch (put_heap h e) = latch h"
  "next_id (put_heap h e) = next_id h" "pool_frames (put_heap h e) = pool_frames e"
  "global_transaction (put_heap h e) = global_transaction e" "next_txn_id (put_heap h e) = next_txn_id e"
  "index_root (put_heap h e) = index_root e" "index_latch (put_heap h e) = index_latch e" "index_locked (put_heap h e) = index_locked e"
  by (simp_all add: put_heap_def)

lemma put_heap_table: "as_table (contents (put_heap h e) p) = contents h p"
  by (cases "contents h p"; cases "as_tree (contents e p)") (simp_all add: put_heap_def)

lemma undisturbed_tree_free:
  assumes "quiet e" and "undisturbed (heap_view t e) h" and "contents h p \<noteq> None"
  shows "as_tree (contents e p) = None"
proof (cases "as_table (contents e p) = None")
  case True
  then have "next_id e \<le> p" using assms(2,3) by (auto simp: undisturbed_def)
  then have "contents e p = None" using assms(1) by (auto simp: quiet_def)
  then show ?thesis by simp
qed (use as_SomeD(3) in blast)

lemma put_heap_tree: "quiet e \<Longrightarrow> undisturbed (heap_view t e) h \<Longrightarrow> as_tree (contents (put_heap h e) p) = as_tree (contents e p)"
  using undisturbed_tree_free [of e t h p] by (cases "contents h p"; cases "as_tree (contents e p)") (auto simp: put_heap_def)

text \<open>What an operation of the heap leaves of the engine.\<close>

definition heap_done :: "engine \<Rightarrow> table_state \<Rightarrow> engine \<Rightarrow> bool" where
  "heap_done e h e' \<longleftrightarrow> quiet e' \<and> (\<forall>t. heap_view t e' = set_txn t h) \<and> tree_view e' = (tree_view e)\<lparr>next_id := next_id h\<rparr> \<and>
     next_id e \<le> next_id h \<and> pool_frames e' = pool_frames e \<and> next_txn_id e' = next_txn_id e"

lemma put_heap_done:
  assumes q: "quiet e" and c: "undisturbed (heap_view t e) h" and inv: "store_inv h"
  shows "heap_done e h ((put_heap h e)\<lparr>global_transaction := g\<rparr>)"
proof -
  let ?e = "(put_heap h e)\<lparr>global_transaction := g\<rparr>"
  have "contents ?e p \<noteq> None \<longrightarrow> 0 \<le> p \<and> p < next_id h" for p
  proof
    assume "contents ?e p \<noteq> None"
    then consider "contents h p \<noteq> None" | "as_tree (contents e p) \<noteq> None"
      by (auto simp: put_heap_def split: option.splits)
    then show "0 \<le> p \<and> p < next_id h"
    proof cases
      case 1
      then show ?thesis using inv by (simp add: store_inv_def)
    next
      case 2
      then have "0 \<le> p \<and> p < next_id e" using q as_SomeD(2) by (simp add: quiet_def)
      then show ?thesis using c by (simp add: undisturbed_def)
    qed
  qed
  then have "quiet ?e" using q c inv by (simp add: quiet_def undisturbed_def store_inv_def)
  moreover have "heap_view t' ?e = set_txn t' h" for t'
    using c by (intro state_eqI) (simp_all add: undisturbed_def put_heap_table)
  moreover have "tree_view ?e = (tree_view e)\<lparr>next_id := next_id h\<rparr>"
    using c put_heap_tree [OF q c] by (simp add: tree_view_def undisturbed_def)
  ultimately show ?thesis using c by (simp add: heap_done_def undisturbed_def)
qed

lemma on_heap_step:
  assumes "quiet e" and "global_transaction e = Some t" and "f (heap_view t e) = Some (r, set_txn u h)"
    and "undisturbed (heap_view t e) h" and "store_inv h"
  obtains e' where "on_heap f e = Some (r, e')" "heap_done e h e'" "global_transaction e' = Some u"
proof
  have c: "undisturbed (heap_view t e) (set_txn u h)" "store_inv (set_txn u h)" using assms(4,5) by (simp_all add: store_inv_def)
  show "on_heap f e = Some (r, (put_heap (set_txn u h) e)\<lparr>global_transaction := Some u\<rparr>)" using assms(2,3) by (simp add: on_heap_def)
  show "heap_done e h ((put_heap (set_txn u h) e)\<lparr>global_transaction := Some u\<rparr>)"
    using put_heap_done [OF assms(1) c, of "Some u"] by (simp add: heap_done_def set_txn_def)
qed simp

section \<open>Operations of the index\<close>

lemma put_tree_simps [simp]:
  "pins (put_tree s e) = pins s" "pending (put_tree s e) = pending s" "latch (put_tree s e) = latch s"
  "next_id (put_tree s e) = next_id s" "pool_frames (put_tree s e) = pool_frames e"
  "global_transaction (put_tree s e) = global_transaction e" "next_txn_id (put_tree s e) = next_txn_id e"
  "index_root (put_tree s e) = root_page_id s" "index_latch (put_tree s e) = root_latch s" "index_locked (put_tree s e) = root_locked_cnt s"
  by (simp_all add: put_tree_def)

lemma put_tree_tree: "as_tree (contents (put_tree s e) p) = contents s p"
  by (cases "contents s p"; cases "as_table (contents e p)") (simp_all add: put_tree_def)

lemma grew_table_free:
  assumes "quiet e" and "grew (tree_view e) s" and "contents s p \<noteq> None"
  shows "as_table (contents e p) = None"
proof (rule ccontr)
  assume t: "as_table (contents e p) \<noteq> None"
  then have "as_tree (contents e p) = None" "p < next_id e"
    using as_SomeD(3) as_SomeD(1) assms(1) by (auto simp: quiet_def)
  then have "p \<in> missing s" using assms(2) by (auto simp: grew_def missing_def)
  then show False using assms(3) by (simp add: missing_def)
qed

lemma put_tree_table: "quiet e \<Longrightarrow> grew (tree_view e) s \<Longrightarrow> as_table (contents (put_tree s e) p) = as_table (contents e p)"
  using grew_table_free [of e s p] by (cases "contents s p"; cases "as_table (contents e p)") (auto simp: put_tree_def)

definition tree_done :: "engine \<Rightarrow> (generic_key, RID) btree \<Rightarrow> engine \<Rightarrow> bool" where
  "tree_done e s e' \<longleftrightarrow> quiet e' \<and> (\<forall>t. heap_view t e' = (heap_view t e)\<lparr>next_id := next_id s\<rparr>) \<and> tree_view e' = without_txn s \<and>
     next_id e \<le> next_id s \<and> pool_frames e' = pool_frames e \<and> next_txn_id e' = next_txn_id e \<and>
     global_transaction e' = global_transaction e"

lemma idle_pending: "idle s \<Longrightarrow> pending s = {}"
  by (auto simp: idle_def store_inv_def)

lemma on_tree_step:
  assumes q: "quiet e" and f: "f (tree_view e) = Some (r, s)" and i: "idle s" and g: "grew (tree_view e) s"
  obtains e' where "on_tree f e = Some (r, e')" "tree_done e s e'"
proof
  let ?e = "put_tree s e"
  show "on_tree f e = Some (r, ?e)" using f by (simp add: on_tree_def)
  have n: "next_id e \<le> next_id s" using g by (simp add: grew_def)
  have inv: "store_inv s" using i by (simp add: idle_def)
  have "contents ?e p \<noteq> None \<longrightarrow> 0 \<le> p \<and> p < next_id s" for p
  proof
    assume "contents ?e p \<noteq> None"
    then consider "contents s p \<noteq> None" | "as_table (contents e p) \<noteq> None"
      by (auto simp: put_tree_def split: option.splits)
    then show "0 \<le> p \<and> p < next_id s"
    proof cases
      case 1
      then show ?thesis using inv by (simp add: store_inv_def)
    next
      case 2
      then have "0 \<le> p \<and> p < next_id e" using q as_SomeD(1) by (simp add: quiet_def)
      then show ?thesis using n by simp
    qed
  qed
  then have "quiet ?e" using q i idle_pending [OF i] inv by (simp add: quiet_def idle_def store_inv_def)
  moreover have "heap_view t ?e = (heap_view t e)\<lparr>next_id := next_id s\<rparr>" for t
    using q i idle_pending [OF i] put_tree_table [OF q g]
    by (intro state_eqI) (auto simp: quiet_def idle_def)
  moreover have "tree_view ?e = without_txn s" by (simp add: tree_view_def put_tree_tree without_txn_def)
  ultimately show "tree_done e s ?e" using n by (simp add: tree_done_def)
qed

text \<open>The calls of the index as such operations.\<close>

lemma grew_refl: "store_inv s \<Longrightarrow> grew s s"
  by (simp add: grew_def)

lemma grew_with_txn: "grew (with_txn s) s' = grew s s'" "grew z (without_txn s) = grew z s"
  by (simp_all add: grew_def missing_def with_txn_def without_txn_def store_inv_def)

lemma InsertEntry_grew: "store_inv s \<Longrightarrow> InsertEntry c k v s = Some (b, s') \<Longrightarrow> grew s s'"
proof -
  assume "store_inv s" and run: "InsertEntry c k v s = Some (b, s')"
  then have "grew (with_txn s) (with_txn s)" by (intro grew_refl) (simp add: store_inv_def with_txn_def)
  from Insert_grow [OF this, of c k v] run show ?thesis
    by (auto simp: InsertEntry_def grew_with_txn split: Option.bind_splits)
qed

lemma RemoveEntry_grew: "store_inv s \<Longrightarrow> RemoveEntry c k s = Some s' \<Longrightarrow> grew s s'"
proof -
  assume "store_inv s" and run: "RemoveEntry c k s = Some s'"
  then have "grew (with_txn s) (with_txn s)" by (intro grew_refl) (simp add: store_inv_def with_txn_def)
  from Remove_key_grow [OF this, of c k] run show ?thesis
    by (auto simp: RemoveEntry_def grew_with_txn split: Option.bind_splits)
qed

section \<open>More page ids\<close>

text \<open>The invariants of both sides do not depend on how many ids have been given out.\<close>

lemma chain_next_id [simp]: "chain ps (s\<lparr>next_id := n\<rparr>) = chain ps s"
  by (induction ps) (simp_all add: heap_page_def page_free_def)

lemma heap_inv_next_id: "heap_inv table ps s \<Longrightarrow> next_id s \<le> n \<Longrightarrow> heap_inv table ps (s\<lparr>next_id := n\<rparr>)"
proof -
  assume h: "heap_inv table ps s" and n: "next_id s \<le> n"
  then have inv: "store_inv s" by (simp add: heap_inv_def heap_ok_def)
  have "pinned_count (s\<lparr>next_id := n\<rparr>) = pinned_count s" by (rule pinned_count_same [OF inv]) (simp_all add: n)
  moreover have "store_inv (s\<lparr>next_id := n\<rparr>)" using inv n by (force simp: store_inv_def)
  ultimately show ?thesis using h by (simp add: heap_inv_def heap_ok_def)
qed

lemma slot_map_next_id [simp]: "slot_map ps (s\<lparr>next_id := n\<rparr>) = slot_map ps s"
  by (simp add: slot_map_def slots_at_def fun_eq_iff)

lemma index_ok_next_id: "index_ok b c K T s \<Longrightarrow> next_id s \<le> n \<Longrightarrow> index_ok b c K T (s\<lparr>next_id := n\<rparr>)"
  by (force simp: index_ok_def idle_def store_inv_def index_is_def split: option.splits)

end
