(* ===== verification/VtabTable.thy ===== *)
theory VtabTable imports VtabFrames begin

text \<open>
  The engine as a table: a map from record ids to rows.  The heap holds the bytes of the rows, the index one
  entry per row, from its key to its record id.  The operations of the table change one of the two; they are
  described on a relation with a map for each.
\<close>

section \<open>Rows and their keys\<close>

definition proj :: "int list \<Rightarrow> 'a list \<Rightarrow> 'a list" where
  "proj attrs row = map (\<lambda>i. row ! nat i) attrs"

abbreviation attrs_of :: "index \<Rightarrow> int list" where
  "attrs_of ix \<equiv> key_attrs_m (metadata ix)"

text \<open>A table with the columns \<open>cs\<close> and an index over the columns \<open>ks\<close> of it.\<close>

definition described :: "'d fp \<Rightarrow> column list \<Rightarrow> column list \<Rightarrow> virtual_table \<Rightarrow> index \<Rightarrow> bool" where
  "described fp cs ks vt ix \<longleftrightarrow> fp_bytes_ok fp \<and> schema_v vt = Schema_new cs \<and> index_v vt = Some ix \<and>
     key_schema_m (metadata ix) = Schema_new ks \<and> exact_cols ks \<and> int (KeySize ix) \<in> key_sizes \<and>
     length (name_m (metadata ix)) < 32 \<and> (\<forall>i \<in> set (attrs_of ix). 0 \<le> i \<and> nat i < length cs)"

text \<open>A row that a page can hold and whose key fits the index.\<close>

definition row_fits :: "'d fp \<Rightarrow> column list \<Rightarrow> column list \<Rightarrow> index \<Rightarrow> 'd Value list \<Rightarrow> bool" where
  "row_fits fp cs ks ix row \<longleftrightarrow> row_ok fp cs row \<and> 0 < total_size cs row \<and> total_size cs row \<le> 480 \<and>
     row_ok fp ks (proj (attrs_of ix) row) \<and> (\<forall>v \<in> set (proj (attrs_of ix) row). orderable v) \<and>
     total_size ks (proj (attrs_of ix) row) \<le> KeySize ix"

definition row_key :: "'d fp \<Rightarrow> column list \<Rightarrow> index \<Rightarrow> 'd Value list \<Rightarrow> generic_key \<Rightarrow> bool" where
  "row_key fp ks ix row k \<longleftrightarrow> key_of_row fp ks (KeySize ix) (proj (attrs_of ix) row) k"

text \<open>The bytes of a row.\<close>

definition row_data :: "'d fp \<Rightarrow> column list \<Rightarrow> 'd Value list \<Rightarrow> 8 word list \<Rightarrow> bool" where
  "row_data fp cs row bs \<longleftrightarrow> length bs = total_size cs row \<and> (\<forall>j < length cs. col_placed fp cs row j bs)"

lemma row_data_value:
  assumes "row_ok fp cs row" and "fp_bytes_ok fp" and "row_data fp cs row bs" and "data_t t = Some bs" and "j < length cs"
  shows "Tuple_GetValue fp (Schema_new cs) j t = Inr (row ! j)"
  using read_column [OF assms(1,2,5), of bs] assms(3-5) by (simp add: row_data_def Tuple_GetValue_def GetDataPtr_def)

lemma Tuple_new_row:
  assumes "row_ok fp cs row" and "fp_bytes_ok fp"
  obtains t bs where "Tuple_new fp row (Schema_new cs) mem = Inr t" "holds t bs" "row_data fp cs row bs"
  using Tuple_new_spec [OF assms, of mem] that by (fastforce simp: holds_def row_data_def)

lemma indexed_values_row:
  assumes "row_ok fp cs row" and "fp_bytes_ok fp" and "row_data fp cs row bs" and "data_t t = Some bs"
    and "\<forall>i \<in> set is. 0 \<le> i \<and> nat i < length cs"
  shows "indexed_values fp (Schema_new cs) is t = Inr (proj is row)"
  using assms(5) by (induction "is") (simp_all add: proj_def row_data_value [OF assms(1-4)])

text \<open>The key the table makes for a stored row.\<close>

lemma key_tuple_row:
  assumes d: "described fp cs ks vt ix" and row: "row_fits fp cs ks ix row" and bs: "row_data fp cs row bs" "data_t t = Some bs"
  obtains kt k where "key_tuple fp mem vt ix t = Inr kt" "SetFromKey (KeySize ix) kt = Inr k" "row_key fp ks ix row k"
    "k \<in> key_set fp ks (KeySize ix)"
proof -
  have fp: "fp_bytes_ok fp" using d by (simp add: described_def)
  have v: "indexed_values fp (schema_v vt) (attrs_of ix) t = Inr (proj (attrs_of ix) row)"
    using indexed_values_row [OF _ fp bs] d row by (simp add: described_def row_fits_def)
  have pr: "row_ok fp ks (proj (attrs_of ix) row)" "\<forall>v \<in> set (proj (attrs_of ix) row). orderable v"
    "total_size ks (proj (attrs_of ix) row) \<le> KeySize ix" using row by (simp_all add: row_fits_def)
  obtain kt kb where kt: "Tuple_new fp (proj (attrs_of ix) row) (Schema_new ks) mem = Inr kt" "holds kt kb"
    "row_data fp ks (proj (attrs_of ix) row) kb" using Tuple_new_row [OF pr(1) fp, of mem] .
  obtain k where k: "SetFromKey (KeySize ix) kt = Inr k"
    using kt(2,3) pr(3) by (auto simp: SetFromKey_def store_bytes_def Let_def holds_def row_data_def)
  have "row_key fp ks ix row k" using pr kt(1) k unfolding row_key_def key_of_row_def by blast
  moreover have "k \<in> key_set fp ks (KeySize ix)" using calculation fp d by (auto simp: key_set_def row_key_def described_def)
  moreover have "key_tuple fp mem vt ix t = Inr kt" using v kt(1) d by (simp add: key_tuple_def described_def)
  ultimately show ?thesis using that k by blast
qed

lemma row_key_fun: "described fp cs ks vt ix \<Longrightarrow> row_key fp ks ix row k \<Longrightarrow> row_key fp ks ix row k' \<Longrightarrow> k = k'"
  using key_of_row_fun by (auto simp: row_key_def described_def)

lemma key_of_row_inj:
  assumes k: "key_of_row fp ks N vs key" "key_of_row fp ks N vs' key" and fp: "fp_bytes_ok fp"
  shows "vs = vs'"
proof (rule nth_equalityI)
  show "length vs = length vs'" using k by (simp add: key_of_row_def row_ok_def)
  fix j assume "j < length vs"
  then have "j < length ks" using k by (simp add: key_of_row_def row_ok_def)
  from key_values [OF k(1) fp this] key_values [OF k(2) fp this] show "vs ! j = vs' ! j" by simp
qed

lemma row_key_inj:
  "described fp cs ks vt ix \<Longrightarrow> row_key fp ks ix row k \<Longrightarrow> row_key fp ks ix row' k \<Longrightarrow>
   proj (attrs_of ix) row = proj (attrs_of ix) row'"
  using key_of_row_inj by (auto simp: row_key_def described_def)

section \<open>The relation\<close>

text \<open>A table without its order: rows by record id.\<close>

type_synonym 'd rows = "RID \<Rightarrow> 'd Value list option"

definition slot_holds :: "'d fp \<Rightarrow> column list \<Rightarrow> 'd Value list option \<Rightarrow> slot \<Rightarrow> bool" where
  "slot_holds fp cs r s \<longleftrightarrow> (case r of None \<Rightarrow> live_bytes s = None | Some row \<Rightarrow> \<exists>bs. s = Live bs \<and> row_data fp cs row bs)"

lemma slot_holds_simps [simp]:
  "slot_holds fp cs (Some row) s \<longleftrightarrow> (\<exists>bs. s = Live bs \<and> row_data fp cs row bs)"
  "slot_holds fp cs None s \<longleftrightarrow> live_bytes s = None"
  by (simp_all add: slot_holds_def)

definition heap_matches :: "'d fp \<Rightarrow> column list \<Rightarrow> 'd rows \<Rightarrow> (RID \<Rightarrow> slot) \<Rightarrow> bool" where
  "heap_matches fp cs h m \<longleftrightarrow> (\<forall>rid. slot_holds fp cs (h rid) (m rid))"

definition index_matches :: "'d fp \<Rightarrow> column list \<Rightarrow> index \<Rightarrow> 'd rows \<Rightarrow> (generic_key \<Rightarrow> RID option) \<Rightarrow> bool" where
  "index_matches fp ks ix h m \<longleftrightarrow> (\<forall>k rid. m k = Some rid \<longleftrightarrow> (\<exists>row. h rid = Some row \<and> row_key fp ks ix row k))"

text \<open>The marked tuples are the deletions of the transaction that runs.\<close>

definition txn_matches :: "transaction option \<Rightarrow> (RID \<Rightarrow> slot) \<Rightarrow> bool" where
  "txn_matches g m \<longleftrightarrow> (case g of None \<Rightarrow> \<forall>rid. \<not> is_dead (m rid)
     | Some t \<Rightarrow> state_t t \<noteq> ABORTED \<and> distinct (deleted_rids (write_set t)) \<and>
         (\<forall>rid. is_dead (m rid) \<longleftrightarrow> rid \<in> set (deleted_rids (write_set t))))"

definition rows_fit :: "'d fp \<Rightarrow> column list \<Rightarrow> column list \<Rightarrow> index \<Rightarrow> 'd rows \<Rightarrow> bool" where
  "rows_fit fp cs ks ix h \<longleftrightarrow> (\<forall>rid row. h rid = Some row \<longrightarrow> row_fits fp cs ks ix row)"

text \<open>No two rows agree in the indexed columns.\<close>

definition unique_keys :: "index \<Rightarrow> 'd rows \<Rightarrow> bool" where
  "unique_keys ix h \<longleftrightarrow> (\<forall>rid rid' row row'. h rid = Some row \<longrightarrow> h rid' = Some row' \<longrightarrow>
     proj (attrs_of ix) row = proj (attrs_of ix) row' \<longrightarrow> rid = rid')"

definition table_at :: "'d fp \<Rightarrow> column list \<Rightarrow> column list \<Rightarrow> virtual_table \<Rightarrow> index \<Rightarrow> 'd rows \<Rightarrow> 'd rows \<Rightarrow> engine \<Rightarrow> bool" where
  "table_at fp cs ks vt ix h m e \<longleftrightarrow> quiet e \<and>
     (\<exists>ps. heap_inv (table_heap_v vt) ps (heap_view (Transaction_new 0) e) \<and>
        heap_matches fp cs h (slot_map ps (heap_view (Transaction_new 0) e)) \<and>
        txn_matches (global_transaction e) (slot_map ps (heap_view (Transaction_new 0) e))) \<and>
     (\<exists>b T. index_ok b (container fp ix) (key_set fp ks (KeySize ix)) T (tree_view e) \<and>
        index_matches fp ks ix m (map_of (index_entries T)))"

text \<open>The table holds the rows \<open>db\<close>.\<close>

definition table_is :: "'d fp \<Rightarrow> column list \<Rightarrow> column list \<Rightarrow> virtual_table \<Rightarrow> index \<Rightarrow> 'd rows \<Rightarrow> engine \<Rightarrow> bool" where
  "table_is fp cs ks vt ix db e \<longleftrightarrow> table_at fp cs ks vt ix db db e \<and> rows_fit fp cs ks ix db \<and> unique_keys ix db"

lemma heap_view_any: "heap_inv table ps (heap_view t e) = heap_inv table ps (heap_view u e)"
  "slot_map ps (heap_view t e) = slot_map ps (heap_view u e)"
  using heap_inv_txn [of table ps t "heap_view u e"] slot_map_txn [of ps t "heap_view u e"] by simp_all

lemma table_atE:
  assumes "table_at fp cs ks vt ix h m e"
  obtains ps b T where "quiet e" "\<And>t. heap_inv (table_heap_v vt) ps (heap_view t e)"
    "\<And>t. heap_matches fp cs h (slot_map ps (heap_view t e))" "\<And>t. txn_matches (global_transaction e) (slot_map ps (heap_view t e))"
    "index_ok b (container fp ix) (key_set fp ks (KeySize ix)) T (tree_view e)" "index_matches fp ks ix m (map_of (index_entries T))"
proof -
  obtain ps b T where a: "quiet e" "heap_inv (table_heap_v vt) ps (heap_view (Transaction_new 0) e)"
    "heap_matches fp cs h (slot_map ps (heap_view (Transaction_new 0) e))"
    "txn_matches (global_transaction e) (slot_map ps (heap_view (Transaction_new 0) e))"
    "index_ok b (container fp ix) (key_set fp ks (KeySize ix)) T (tree_view e)" "index_matches fp ks ix m (map_of (index_entries T))"
    using assms by (auto simp: table_at_def)
  have i: "heap_inv (table_heap_v vt) ps (heap_view t e)" for t
    unfolding heap_view_any(1) [of _ ps t e "Transaction_new 0"] by (rule a(2))
  have v: "heap_matches fp cs h (slot_map ps (heap_view t e))" "txn_matches (global_transaction e) (slot_map ps (heap_view t e))" for t
    unfolding heap_view_any(2) [of ps t e "Transaction_new 0"] by (rule a(3,4))+
  show ?thesis by (rule that [of ps b T, OF a(1) i v a(5,6)])
qed

text \<open>After an operation of one side the other side is as before.\<close>

lemma table_at_heap:
  assumes "heap_done e s e'" and "heap_inv (table_heap_v vt) ps s" and "heap_matches fp cs h (slot_map ps s)"
    and "txn_matches (global_transaction e') (slot_map ps s)"
    and "index_ok b (container fp ix) (key_set fp ks (KeySize ix)) T (tree_view e)" and "index_matches fp ks ix m (map_of (index_entries T))"
  shows "table_at fp cs ks vt ix h m e'"
proof -
  have v: "heap_view (Transaction_new 0) e' = set_txn (Transaction_new 0) s" using assms(1) by (simp add: heap_done_def)
  have "index_ok b (container fp ix) (key_set fp ks (KeySize ix)) T (tree_view e')"
    using assms(1) index_ok_next_id [OF assms(5), of "next_id s"] by (simp add: heap_done_def)
  then show ?thesis using assms unfolding table_at_def v by (auto simp: heap_done_def)
qed

lemma table_at_tree:
  assumes d: "tree_done e s e'" and h: "heap_inv (table_heap_v vt) ps (heap_view t e)" "heap_matches fp cs h (slot_map ps (heap_view t e))"
    "txn_matches (global_transaction e) (slot_map ps (heap_view t e))"
    and i: "index_ok b (container fp ix) (key_set fp ks (KeySize ix)) T s" "index_matches fp ks ix m (map_of (index_entries T))"
  shows "table_at fp cs ks vt ix h m e'"
proof -
  have hi: "heap_inv (table_heap_v vt) ps (heap_view (Transaction_new 0) e)"
    and "heap_matches fp cs h (slot_map ps (heap_view (Transaction_new 0) e))"
    "txn_matches (global_transaction e) (slot_map ps (heap_view (Transaction_new 0) e))"
    using h unfolding heap_view_any(1) [of _ _ t e "Transaction_new 0"] heap_view_any(2) [of _ t e "Transaction_new 0"] by blast+
  moreover have "heap_view (Transaction_new 0) e' = (heap_view (Transaction_new 0) e)\<lparr>next_id := next_id s\<rparr>" "next_id e \<le> next_id s"
    "tree_view e' = without_txn s" "quiet e'" "global_transaction e' = global_transaction e"
    using d by (simp_all add: tree_done_def)
  moreover have "heap_inv (table_heap_v vt) ps ((heap_view (Transaction_new 0) e)\<lparr>next_id := next_id s\<rparr>)"
    by (rule heap_inv_next_id [OF hi]) (use d in \<open>simp add: tree_done_def\<close>)
  ultimately show ?thesis unfolding table_at_def using i by (intro conjI exI [of _ ps] exI [of _ b] exI [of _ T]) simp_all
qed

lemma container_cmp: "described fp cs ks vt ix \<Longrightarrow> comparator (container fp ix) = key_cmp fp ks"
  by (auto simp: container_def key_cmp_def described_def fun_eq_iff)

end
