(* ===== verification/VtabSteps.thy ===== *)
theory VtabSteps imports VtabTable begin

text \<open>
  Every operation of the virtual table changes the map of the heap or that of the index as the table of rows
  asks for.
\<close>

section \<open>The heap\<close>

lemma heap_matches_live: "heap_matches fp cs h m \<Longrightarrow> h rid = Some row \<Longrightarrow> \<exists>bs. m rid = Live bs \<and> row_data fp cs row bs"
  unfolding heap_matches_def by (metis slot_holds_simps(1))

lemma heap_matches_free: "heap_matches fp cs h m \<Longrightarrow> m rid = Free \<Longrightarrow> h rid = None"
  using heap_matches_live [of fp cs h m rid] by (cases "h rid") auto

lemma heap_matches_upd:
  assumes "heap_matches fp cs h m" and "row_data fp cs row bs"
  shows "heap_matches fp cs (h(rid \<mapsto> row)) (m(rid := Live bs))"
  using assms by (auto simp: heap_matches_def)

lemma heap_matches_del: "heap_matches fp cs h m \<Longrightarrow> heap_matches fp cs (h(rid := None)) (m(rid := Dead bs))"
  by (auto simp: heap_matches_def)

lemma deleted_rids_add [simp]:
  "deleted_rids (write_set (add_write rid w t table tx)) = deleted_rids (write_set tx) @ (if w = DELETE then [rid] else [])"
  "state_t (add_write rid w t table tx) = state_t tx"
  by (simp_all add: deleted_rids_def add_write_def)

lemma txn_matches_live:
  "txn_matches (Some t) m \<Longrightarrow> \<not> is_dead (m rid) \<Longrightarrow> w \<noteq> DELETE \<Longrightarrow> txn_matches (Some (add_write rid w old table t)) (m(rid := Live bs))"
  by (auto simp: txn_matches_def)

lemma txn_matches_del:
  "txn_matches (Some t) m \<Longrightarrow> \<not> is_dead (m rid) \<Longrightarrow> txn_matches (Some (add_write rid DELETE old table t)) (m(rid := Dead bs))"
  by (auto simp: txn_matches_def)

lemma vt_DeleteTuple_table:
  assumes t: "table_at fp cs ks vt ix h m e" and g: "global_transaction e = Some tx" and row: "h rid = Some row"
  shows "\<exists>e'. vt_DeleteTuple vt rid e = Some (True, e') \<and> table_at fp cs ks vt ix (h(rid := None)) m e' \<and>
    (\<exists>tx'. global_transaction e' = Some tx') \<and> next_id e' = next_id e"
  using t
proof (cases rule: table_atE)
  case (1 ps b T)
  obtain bs where bs: "slot_map ps (heap_view tx e) rid = Live bs" using heap_matches_live [OF 1(3) row] by blast
  obtain s' where s': "th_MarkDelete False (table_heap_v vt) rid (heap_view tx e) =
      Some (True, set_txn (add_write rid DELETE Tuple_default (table_heap_v vt) tx) s')"
    "heap_inv (table_heap_v vt) ps s'" "slot_map ps s' = (slot_map ps (heap_view tx e))(rid := Dead bs)"
    "next_id s' = next_id e" "undisturbed (heap_view tx e) s'"
    using th_MarkDelete_map [OF 1(2) bs] by auto
  have inv: "store_inv s'" using s'(2) by (simp add: heap_inv_def heap_ok_def)
  obtain e' where e': "on_heap (th_MarkDelete False (table_heap_v vt) rid) e = Some (True, e')" "heap_done e s' e'"
    "global_transaction e' = Some (add_write rid DELETE Tuple_default (table_heap_v vt) tx)"
    using on_heap_step [where f = "th_MarkDelete False (table_heap_v vt) rid", OF 1(1) g s'(1,5) inv] .
  have "table_at fp cs ks vt ix (h(rid := None)) m e'"
    by (rule table_at_heap [OF e'(2) s'(2) _ _ 1(5,6)])
      (use 1(3,4) bs g in \<open>simp_all add: s'(3) e'(3) heap_matches_del txn_matches_del\<close>)
  then show ?thesis using e' s'(4) by (auto simp: vt_DeleteTuple_def heap_done_def tree_view_def)
qed

lemma vt_InsertTuple_table:
  assumes t: "table_at fp cs ks vt ix h m e" and g: "global_transaction e = Some tx" and n: "next_id e < 2 ^ 31"
    and tup: "holds tuple bs" "row_data fp cs row bs" "0 < total_size cs row" "total_size cs row \<le> 480"
  shows "\<exists>r e'. vt_InsertTuple vt tuple rid e = Some ((True, r), e') \<and> h r = None \<and>
    table_at fp cs ks vt ix (h(r \<mapsto> row)) m e' \<and> (\<exists>tx'. global_transaction e' = Some tx')"
  using t
proof (cases rule: table_atE)
  case (1 ps b T)
  have bs: "bs \<noteq> []" "length bs \<le> 480" using tup(2-4) by (auto simp: row_data_def)
  have nx: "next_id (heap_view tx e) < 2 ^ 31" using n by simp
  obtain r ps' s' where s': "th_InsertTuple False (table_heap_v vt) tuple rid (heap_view tx e) =
      Some (True, r, set_txn (add_write r INSERT Tuple_default (table_heap_v vt) tx) s')"
    "heap_inv (table_heap_v vt) ps' s'" "slot_map ps (heap_view tx e) r = Free"
    "slot_map ps' s' = (slot_map ps (heap_view tx e))(r := Live bs)" "undisturbed (heap_view tx e) s'"
    using th_InsertTuple_map [OF 1(2) tup(1) bs nx, of rid] by auto
  have inv: "store_inv s'" using s'(2) by (simp add: heap_inv_def heap_ok_def)
  let ?f = "\<lambda>h. do { (ok, rid, h) \<leftarrow> th_InsertTuple False (table_heap_v vt) tuple rid h; Some ((ok, rid), h) }"
  have run: "?f (heap_view tx e) = Some ((True, r), set_txn (add_write r INSERT Tuple_default (table_heap_v vt) tx) s')"
    using s'(1) by simp
  obtain e' where e': "on_heap ?f e = Some ((True, r), e')" "heap_done e s' e'"
    "global_transaction e' = Some (add_write r INSERT Tuple_default (table_heap_v vt) tx)"
    using on_heap_step [where f = ?f, OF 1(1) g run s'(5) inv] .
  have hr: "h r = None" using heap_matches_free [OF 1(3) s'(3)] .
  have "table_at fp cs ks vt ix (h(r \<mapsto> row)) m e'"
    by (rule table_at_heap [OF e'(2) s'(2) _ _ 1(5,6)])
      (use 1(3,4) g tup(2) s'(3) in \<open>simp_all add: s'(4) e'(3) heap_matches_upd txn_matches_live\<close>)
  then show ?thesis using e' hr by (auto simp: vt_InsertTuple_def)
qed

lemma vt_UpdateTuple_table:
  assumes t: "table_at fp cs ks vt ix h m e" and g: "global_transaction e = Some tx" and old: "h rid = Some old"
    and tup: "holds tuple bs" "row_data fp cs row bs" "0 < total_size cs row" "total_size cs row = total_size cs old"
  shows "\<exists>e'. vt_UpdateTuple vt tuple rid e = Some (True, e') \<and> table_at fp cs ks vt ix (h(rid \<mapsto> row)) m e' \<and>
    (\<exists>tx'. global_transaction e' = Some tx')"
  using t
proof (cases rule: table_atE)
  case (1 ps b T)
  obtain ob where ob: "slot_map ps (heap_view tx e) rid = Live ob" "row_data fp cs old ob"
    using heap_matches_live [OF 1(3) old] by blast
  have bs: "bs \<noteq> []" "length bs = length ob" using tup(2-4) ob(2) by (auto simp: row_data_def)
  have a: "state_t tx \<noteq> ABORTED" using 1(4) g by (simp add: txn_matches_def)
  let ?w = "add_write rid UPDATE \<lparr>allocated_m = True, rid_m = rid, size_m = int (length ob), data_t = Some ob\<rparr> (table_heap_v vt) tx"
  obtain s' where s': "th_UpdateTuple False (table_heap_v vt) tuple rid (heap_view tx e) = Some (True, set_txn ?w s')"
    "heap_inv (table_heap_v vt) ps s'" "slot_map ps s' = (slot_map ps (heap_view tx e))(rid := Live bs)"
    "undisturbed (heap_view tx e) s'"
    using th_UpdateTuple_map [OF 1(2) ob(1) tup(1) bs, of "table_heap_v vt"] a by auto
  have inv: "store_inv s'" using s'(2) by (simp add: heap_inv_def heap_ok_def)
  obtain e' where e': "on_heap (th_UpdateTuple False (table_heap_v vt) tuple rid) e = Some (True, e')" "heap_done e s' e'"
    "global_transaction e' = Some ?w"
    using on_heap_step [where f = "th_UpdateTuple False (table_heap_v vt) tuple rid", OF 1(1) g s'(1,4) inv] .
  have "table_at fp cs ks vt ix (h(rid \<mapsto> row)) m e'"
    by (rule table_at_heap [OF e'(2) s'(2) _ _ 1(5,6)])
      (use 1(3,4) g tup(2) ob(1) in \<open>simp_all add: s'(3) e'(3) heap_matches_upd txn_matches_live\<close>)
  then show ?thesis using e' by (auto simp: vt_UpdateTuple_def)
qed

text \<open>Reading leaves the engine as it is.\<close>

lemma put_heap_same: "global_transaction e = Some t \<Longrightarrow> (put_heap (heap_view t e) e)\<lparr>global_transaction := Some t\<rparr> = e"
proof -
  assume g: "global_transaction e = Some t"
  have "(case as_table (contents e p) of Some d \<Rightarrow> Some (TableFrame d) | None \<Rightarrow> map_option TreeFrame (as_tree (contents e p))) = contents e p" for p
    using as_cases [of "contents e p"] by auto
  then show ?thesis using g by (simp add: put_heap_def heap_view_def)
qed

lemma put_tree_same: "put_tree (tree_view e) e = e"
proof -
  have "(case as_tree (contents e p) of Some d \<Rightarrow> Some (TreeFrame d) | None \<Rightarrow> map_option TableFrame (as_table (contents e p))) = contents e p" for p
    using as_cases [of "contents e p"] by auto
  then show ?thesis by (simp add: put_tree_def tree_view_def)
qed

lemma slot_map_place: "slot_map ps s rid \<noteq> Free \<Longrightarrow> rid_page_id rid \<in> set ps \<and> 0 \<le> slot_num rid"
  by (auto simp: slot_map_def split: if_splits)

lemma vt_GetTuple_table:
  assumes t: "table_at fp cs ks vt ix h m e" and g: "global_transaction e = Some tx" and row: "h rid = Some row"
  shows "\<exists>tuple bs. vt_GetTuple rid e = Some (tuple, e) \<and> data_t tuple = Some bs \<and> row_data fp cs row bs"
  using t
proof (cases rule: table_atE)
  case (1 ps b T)
  obtain bs where bs: "slot_map ps (heap_view tx e) rid = Live bs" "row_data fp cs row bs" using heap_matches_live [OF 1(3) row] by blast
  have pl: "rid_page_id rid \<in> set ps" "0 \<le> slot_num rid" using slot_map_place [of ps "heap_view tx e" rid] bs(1) by simp_all
  have "vt_GetTuple rid e = Some (\<lparr>allocated_m = True, rid_m = rid, size_m = int (length bs), data_t = Some bs\<rparr>, e)"
    using th_GetTuple_map [OF 1(2) pl, of "Tuple_of_rid rid" tx] bs(1) g put_heap_same [OF g]
    by (simp add: vt_GetTuple_def on_heap_read_def on_heap_def)
  then show ?thesis using bs(2) by auto
qed

section \<open>The index\<close>

lemma rows_fitD: "rows_fit fp cs ks ix h \<Longrightarrow> h rid = Some row \<Longrightarrow> row_fits fp cs ks ix row"
  by (auto simp: rows_fit_def)

lemma unique_keysD:
  "unique_keys ix h \<Longrightarrow> h rid = Some row \<Longrightarrow> h rid' = Some row' \<Longrightarrow> proj (attrs_of ix) row = proj (attrs_of ix) row' \<Longrightarrow> rid = rid'"
  by (auto simp: unique_keys_def)

lemma index_matches_del:
  assumes d: "described fp cs ks vt ix" and i: "index_matches fp ks ix m mm" and u: "unique_keys ix m"
    and r: "m rid = Some row" and k: "row_key fp ks ix row k"
  shows "index_matches fp ks ix (m(rid := None)) (mm(k := None))"
proof -
  have "(mm(k := None)) k' = Some r' \<longleftrightarrow> (\<exists>row'. (m(rid := None)) r' = Some row' \<and> row_key fp ks ix row' k')" for k' r'
  proof
    assume l: "(mm(k := None)) k' = Some r'"
    then have "k' \<noteq> k" "mm k' = Some r'" by (auto split: if_splits)
    then obtain row' where row': "m r' = Some row'" "row_key fp ks ix row' k'" using i by (auto simp: index_matches_def)
    then have "r' \<noteq> rid" using r row_key_fun [OF d k] \<open>k' \<noteq> k\<close> by auto
    then show "\<exists>row'. (m(rid := None)) r' = Some row' \<and> row_key fp ks ix row' k'" using row' by auto
  next
    assume "\<exists>row'. (m(rid := None)) r' = Some row' \<and> row_key fp ks ix row' k'"
    then obtain row' where row': "r' \<noteq> rid" "m r' = Some row'" "row_key fp ks ix row' k'" by (auto split: if_splits)
    then have "mm k' = Some r'" using i by (auto simp: index_matches_def)
    moreover have "k' \<noteq> k"
      using row_key_inj [OF d k] row'(3) unique_keysD [OF u r row'(2)] row'(1) by auto
    ultimately show "(mm(k := None)) k' = Some r'" by simp
  qed
  then show ?thesis by (simp add: index_matches_def)
qed

lemma index_matches_add:
  assumes d: "described fp cs ks vt ix" and i: "index_matches fp ks ix m mm" and r: "m rid = None" and k: "row_key fp ks ix row k"
    and new: "\<forall>rid' row'. m rid' = Some row' \<longrightarrow> proj (attrs_of ix) row' \<noteq> proj (attrs_of ix) row"
  shows "mm k = None" and "index_matches fp ks ix (m(rid \<mapsto> row)) (mm(k \<mapsto> rid))"
proof -
  have other: "\<not> row_key fp ks ix row' k" if "m rid' = Some row'" for rid' row'
    using row_key_inj [OF d k] new that by metis
  show n: "mm k = None"
  proof (rule ccontr)
    assume "mm k \<noteq> None"
    then obtain r' where "mm k = Some r'" by blast
    then show False using i other by (auto simp: index_matches_def)
  qed
  have "(mm(k \<mapsto> rid)) k' = Some r' \<longleftrightarrow> (\<exists>row'. (m(rid \<mapsto> row)) r' = Some row' \<and> row_key fp ks ix row' k')" for k' r'
  proof (cases "k' = k")
    case True
    then show ?thesis using other k by auto
  next
    case False
    then show ?thesis using i r row_key_fun [OF d k] by (auto simp: index_matches_def)
  qed
  then show "index_matches fp ks ix (m(rid \<mapsto> row)) (mm(k \<mapsto> rid))" by (simp add: index_matches_def)
qed

lemma Index_DeleteEntry_table:
  assumes d: "described fp cs ks vt ix" and t: "table_at fp cs ks vt ix h m e" and u: "unique_keys ix m" and r: "m rid = Some row"
    and k: "SetFromKey (KeySize ix) kt = Inr k" "row_key fp ks ix row k" "k \<in> key_set fp ks (KeySize ix)"
  shows "\<exists>e'. on_tree (Index_DeleteEntry fp ix kt) e = Some ((), e') \<and> table_at fp cs ks vt ix h (m(rid := None)) e' \<and>
    global_transaction e' = global_transaction e"
  using t
proof (cases rule: table_atE)
  case (1 ps b T)
  obtain s' T' where s': "RemoveEntry (container fp ix) k (tree_view e) = Some s'"
    "index_ok (b \<and> (T = None \<or> T' \<noteq> None)) (container fp ix) (key_set fp ks (KeySize ix)) T' s'"
    "map_of (index_entries T') = (map_of (index_entries T))(k := None)"
    using key_order.RemoveEntry_spec [OF gk.key_order_axioms, OF 1(5) container_cmp [OF d] k(3)] by blast
  have i: "idle s'" using s'(2) by (simp add: index_ok_def)
  have "store_inv (tree_view e)" using quiet_tree [OF 1(1)] by (simp add: idle_def)
  from RemoveEntry_grew [OF this s'(1)] have g: "grew (tree_view e) s'" .
  have run: "Index_DeleteEntry fp ix kt (tree_view e) = Some ((), s')" using k(1) s'(1) by (simp add: Index_DeleteEntry_def)
  obtain e' where e': "on_tree (Index_DeleteEntry fp ix kt) e = Some ((), e')" "tree_done e s' e'"
    using on_tree_step [where f = "Index_DeleteEntry fp ix kt", OF 1(1) run i g] .
  have "index_matches fp ks ix (m(rid := None)) (map_of (index_entries T'))"
    unfolding s'(3) by (rule index_matches_del [OF d 1(6) u r k(2)])
  from table_at_tree [OF e'(2) 1(2-4) s'(2) this] show ?thesis using e' by (auto simp: tree_done_def)
qed

lemma vt_DeleteEntry_table:
  assumes d: "described fp cs ks vt ix" and t: "table_at fp cs ks vt ix h m e" and g: "global_transaction e = Some tx"
    and u: "unique_keys ix m" and f: "rows_fit fp cs ks ix h" and r: "h rid = Some row" "m rid = Some row"
  shows "\<exists>e'. vt_DeleteEntry fp mem vt rid e = Some e' \<and> table_at fp cs ks vt ix h (m(rid := None)) e' \<and>
    global_transaction e' = Some tx"
proof -
  obtain tuple bs where tup: "vt_GetTuple rid e = Some (tuple, e)" "data_t tuple = Some bs" "row_data fp cs row bs"
    using vt_GetTuple_table [OF t g r(1)] by blast
  obtain kt k where k: "key_tuple fp mem vt ix tuple = Inr kt" "SetFromKey (KeySize ix) kt = Inr k" "row_key fp ks ix row k"
    "k \<in> key_set fp ks (KeySize ix)" using key_tuple_row [OF d rows_fitD [OF f r(1)] tup(3,2)] .
  obtain e' where "on_tree (Index_DeleteEntry fp ix kt) e = Some ((), e')" "table_at fp cs ks vt ix h (m(rid := None)) e'"
    "global_transaction e' = global_transaction e" using Index_DeleteEntry_table [OF d t u r(2) k(2-4)] by blast
  then show ?thesis using d tup(1) k(1) g by (simp add: vt_DeleteEntry_def described_def)
qed

lemma vt_InsertEntry_table:
  assumes d: "described fp cs ks vt ix" and t: "table_at fp cs ks vt ix h m e" and g: "global_transaction e = Some tx"
    and row: "row_fits fp cs ks ix row" "data_t tuple = Some bs" "row_data fp cs row bs" and r: "m rid = None"
    and new: "\<forall>rid' row'. m rid' = Some row' \<longrightarrow> proj (attrs_of ix) row' \<noteq> proj (attrs_of ix) row"
  shows "\<exists>e'. vt_InsertEntry fp mem vt tuple rid e = Some e' \<and> table_at fp cs ks vt ix h (m(rid \<mapsto> row)) e' \<and>
    global_transaction e' = Some tx"
  using t
proof (cases rule: table_atE)
  case (1 ps b T)
  obtain kt k where k: "key_tuple fp mem vt ix tuple = Inr kt" "SetFromKey (KeySize ix) kt = Inr k" "row_key fp ks ix row k"
    "k \<in> key_set fp ks (KeySize ix)" using key_tuple_row [OF d row(1,3,2)] .
  note m = index_matches_add [OF d 1(6) r k(3) new]
  obtain s' T' where s': "InsertEntry (container fp ix) k rid (tree_view e) = Some (True, s')"
    "index_ok b (container fp ix) (key_set fp ks (KeySize ix)) (Some T') s'"
    "map_of (entries T') = (map_of (index_entries T))(k \<mapsto> rid)"
    using key_order.InsertEntry_spec [OF gk.key_order_axioms, OF 1(5) container_cmp [OF d] k(4), of rid] m(1) by auto
  have i: "idle s'" using s'(2) by (simp add: index_ok_def)
  have "store_inv (tree_view e)" using quiet_tree [OF 1(1)] by (simp add: idle_def)
  from InsertEntry_grew [OF this s'(1)] have gr: "grew (tree_view e) s'" .
  have run: "Index_InsertEntry fp ix kt rid (tree_view e) = Some ((), s')" using k(2) s'(1) by (simp add: Index_InsertEntry_def)
  obtain e' where e': "on_tree (Index_InsertEntry fp ix kt rid) e = Some ((), e')" "tree_done e s' e'"
    using on_tree_step [where f = "Index_InsertEntry fp ix kt rid", OF 1(1) run i gr] .
  have "index_matches fp ks ix (m(rid \<mapsto> row)) (map_of (index_entries (Some T')))"
    using m(2) s'(3) by (simp add: index_entries_def)
  from table_at_tree [OF e'(2) 1(2-4) s'(2) this]
  show ?thesis using e' d k(1) g by (auto simp: tree_done_def vt_InsertEntry_def described_def)
qed

lemma without_txn_view [simp]: "without_txn (tree_view e) = tree_view e"
  by (simp add: without_txn_def tree_view_def)

text \<open>A look up finds the row with the values asked for.\<close>

lemma Index_ScanKey_table:
  assumes d: "described fp cs ks vt ix" and t: "table_at fp cs ks vt ix h m e"
    and k: "Tuple_new fp vals (Schema_new ks) mem = Inr kt" "row_ok fp ks vals" "\<forall>v \<in> set vals. orderable v"
      "total_size ks vals \<le> KeySize ix"
  shows "\<exists>found. on_tree (Index_ScanKey fp ix kt result) e = Some (result @ (case found of None \<Rightarrow> [] | Some rid \<Rightarrow> [rid]), e) \<and>
    (\<forall>rid. found = Some rid \<longleftrightarrow> (\<exists>row. m rid = Some row \<and> proj (attrs_of ix) row = vals))"
  using t
proof (cases rule: table_atE)
  case (1 ps b T)
  have fp: "fp_bytes_ok fp" "exact_cols ks" using d by (simp_all add: described_def)
  obtain kt' kb where kt: "Tuple_new fp vals (Schema_new ks) mem = Inr kt'" "holds kt' kb" "row_data fp ks vals kb"
    using Tuple_new_row [OF k(2) fp(1), of mem] .
  have "kt' = kt" using kt(1) k(1) by simp
  then obtain key where key: "SetFromKey (KeySize ix) kt = Inr key"
    using kt(2,3) k(4) by (auto simp: SetFromKey_def store_bytes_def Let_def holds_def row_data_def)
  have kr: "key_of_row fp ks (KeySize ix) vals key" using k(1-3) key unfolding key_of_row_def by blast
  then have "key \<in> key_set fp ks (KeySize ix)" using fp by (auto simp: key_set_def)
  from key_order.LookupKey_spec [OF gk.key_order_axioms, OF 1(5) container_cmp [OF d] this]
  have look: "LookupKey (container fp ix) key (tree_view e) = Some (map_of (index_entries T) key, tree_view e)" by simp
  let ?found = "map_of (index_entries T) key"
  have run: "on_tree (Index_ScanKey fp ix kt result) e = Some (result @ (case ?found of None \<Rightarrow> [] | Some rid \<Rightarrow> [rid]), e)"
    using key look put_tree_same [of e] by (simp add: on_tree_def Index_ScanKey_def)
  have "?found = Some rid \<longleftrightarrow> (\<exists>row. m rid = Some row \<and> proj (attrs_of ix) row = vals)" for rid
  proof
    assume "?found = Some rid"
    then obtain row where row: "m rid = Some row" "row_key fp ks ix row key" using 1(6) by (auto simp: index_matches_def)
    have "key_of_row fp ks (KeySize ix) (proj (attrs_of ix) row) key" using row(2) by (simp add: row_key_def)
    from key_of_row_inj [OF this kr fp(1)] row(1) show "\<exists>row. m rid = Some row \<and> proj (attrs_of ix) row = vals" by blast
  next
    assume "\<exists>row. m rid = Some row \<and> proj (attrs_of ix) row = vals"
    then obtain row where row: "m rid = Some row" "proj (attrs_of ix) row = vals" by blast
    then have "row_key fp ks ix row key" using kr by (simp add: row_key_def)
    then show "?found = Some rid" using row(1) 1(6) by (auto simp: index_matches_def)
  qed
  then show ?thesis using run by blast
qed

end
