(* ===== verification/VtabStatements.thy ===== *)
theory VtabStatements imports VtabSteps begin

text \<open>
  The callbacks of SQLite against the table of rows: insertions, deletions and updates, transactions, and
  point queries.
\<close>

section \<open>Values from SQLite\<close>

text \<open>The arguments of a call stand for a row of the columns \<open>cs\<close>.\<close>

definition sql_row :: "'d fp \<Rightarrow> ('q, 'd) sql_api \<Rightarrow> column list \<Rightarrow> 'q list \<Rightarrow> 'd Value list \<Rightarrow> bool" where
  "sql_row fp api cs argv row \<longleftrightarrow> construct_values fp api (Schema_new cs) argv [0..<length cs] invalid_value = Inr row"

lemma ConstructTuple_row:
  assumes "sql_row fp api cs argv row" and "row_ok fp cs row" and "fp_bytes_ok fp"
  obtains t bs where "ConstructTuple fp api (Schema_new cs) argv mem = Inr t" "Tuple_new fp row (Schema_new cs) mem = Inr t"
    "holds t bs" "row_data fp cs row bs"
proof -
  obtain t bs where t: "Tuple_new fp row (Schema_new cs) mem = Inr t" "holds t bs" "row_data fp cs row bs"
    using Tuple_new_row [OF assms(2,3), of mem] .
  moreover have "length (columns (Schema_new cs)) = length cs" by (rule Schema_new_simps(1) [OF row_ok_lengths [OF assms(2)]])
  ultimately have "ConstructTuple fp api (Schema_new cs) argv mem = Inr t"
    using assms(1) by (simp add: ConstructTuple_def sql_row_def)
  then show ?thesis using that t by blast
qed

section \<open>Changes of the rows\<close>

text \<open>What a call of \<open>VtabUpdate\<close> asks for.\<close>

datatype 'd change = Add "'d Value list" | Drop RID | Replace RID "'d Value list"

definition asks :: "'d fp \<Rightarrow> ('q, 'd) sql_api \<Rightarrow> column list \<Rightarrow> 'q list \<Rightarrow> 'd change \<Rightarrow> bool" where
  "asks fp api cs argv ch \<longleftrightarrow> (case ch of
     Drop rid \<Rightarrow> length argv = 1 \<and> rid = RID_of_int64 (sql_int64 api (argv ! 0))
   | Add row \<Rightarrow> 1 < length argv \<and> sql_null api (argv ! 0) \<and> sql_row fp api cs (drop 2 argv) row
   | Replace rid row \<Rightarrow> 1 < length argv \<and> \<not> sql_null api (argv ! 0) \<and> rid = RID_of_int64 (sql_int64 api (argv ! 0)) \<and>
       sql_row fp api cs (drop 2 argv) row)"

text \<open>A new row fits and has a key of its own, and a row that is replaced keeps its size.\<close>

definition new_key :: "index \<Rightarrow> 'd rows \<Rightarrow> RID option \<Rightarrow> 'd Value list \<Rightarrow> bool" where
  "new_key ix db r row \<longleftrightarrow> (\<forall>rid' row'. db rid' = Some row' \<longrightarrow> Some rid' \<noteq> r \<longrightarrow> proj (attrs_of ix) row' \<noteq> proj (attrs_of ix) row)"

definition allowed :: "'d fp \<Rightarrow> column list \<Rightarrow> column list \<Rightarrow> index \<Rightarrow> 'd change \<Rightarrow> 'd rows \<Rightarrow> bool" where
  "allowed fp cs ks ix ch db \<longleftrightarrow> (case ch of
     Add row \<Rightarrow> row_fits fp cs ks ix row \<and> new_key ix db None row
   | Drop rid \<Rightarrow> db rid \<noteq> None
   | Replace rid row \<Rightarrow> row_fits fp cs ks ix row \<and> new_key ix db (Some rid) row \<and>
       (\<exists>old. db rid = Some old \<and> total_size cs row = total_size cs old))"

text \<open>The rows after the change; a new row has the record id \<open>r\<close>.\<close>

fun change_rows :: "'d change \<Rightarrow> RID \<Rightarrow> 'd rows \<Rightarrow> 'd rows" where
  "change_rows (Add row) r db = db(r \<mapsto> row)"
| "change_rows (Drop rid) r db = db(rid := None)"
| "change_rows (Replace rid row) r db = db(rid \<mapsto> row)"

lemma table_isI: "table_at fp cs ks vt ix db db e \<Longrightarrow> rows_fit fp cs ks ix db \<Longrightarrow> unique_keys ix db \<Longrightarrow> table_is fp cs ks vt ix db e"
  by (simp add: table_is_def)

lemma rows_fit_upd: "rows_fit fp cs ks ix db \<Longrightarrow> row_fits fp cs ks ix row \<Longrightarrow> rows_fit fp cs ks ix (db(r \<mapsto> row))"
  "rows_fit fp cs ks ix db \<Longrightarrow> rows_fit fp cs ks ix (db(r := None))"
  by (auto simp: rows_fit_def)

lemma unique_keys_upd: "unique_keys ix db \<Longrightarrow> new_key ix db (Some r) row \<Longrightarrow> unique_keys ix (db(r \<mapsto> row))"
  "unique_keys ix db \<Longrightarrow> unique_keys ix (db(r := None))"
  unfolding unique_keys_def new_key_def by (simp_all add: fun_upd_apply) metis+

lemma VtabUpdate_delete:
  assumes d: "described fp cs ks vt ix" and t: "table_is fp cs ks vt ix db e" and g: "global_transaction e = Some tx"
    and a: "asks fp api cs argv (Drop rid)" and r: "db rid \<noteq> None"
  shows "\<exists>e'. VtabUpdate fp api mem vt argv e = Some e' \<and> table_is fp cs ks vt ix (db(rid := None)) e' \<and>
    (\<exists>tx'. global_transaction e' = Some tx')"
proof -
  have t': "table_at fp cs ks vt ix db db e" "rows_fit fp cs ks ix db" "unique_keys ix db" using t by (simp_all add: table_is_def)
  obtain row where row: "db rid = Some row" using r by blast
  obtain e1 where e1: "vt_DeleteEntry fp mem vt rid e = Some e1" "table_at fp cs ks vt ix db (db(rid := None)) e1"
    "global_transaction e1 = Some tx" using vt_DeleteEntry_table [OF d t'(1) g t'(3,2) row row, where mem = mem] by blast
  obtain e2 where e2: "vt_DeleteTuple vt rid e1 = Some (True, e2)" "table_at fp cs ks vt ix (db(rid := None)) (db(rid := None)) e2"
    "\<exists>tx'. global_transaction e2 = Some tx'" using vt_DeleteTuple_table [OF e1(2,3) row] by blast
  have "VtabUpdate fp api mem vt argv e = Some e2" using a e1(1) e2(1) by (simp add: VtabUpdate_def asks_def)
  then show ?thesis using table_isI [OF e2(2) rows_fit_upd(2) [OF t'(2)] unique_keys_upd(2) [OF t'(3)]] e2(3) by blast
qed

lemma VtabUpdate_insert:
  assumes d: "described fp cs ks vt ix" and t: "table_is fp cs ks vt ix db e" and g: "global_transaction e = Some tx"
    and n: "next_id e < 2 ^ 31" and a: "asks fp api cs argv (Add row)" and row: "row_fits fp cs ks ix row" "new_key ix db None row"
  shows "\<exists>r e'. VtabUpdate fp api mem vt argv e = Some e' \<and> db r = None \<and> table_is fp cs ks vt ix (db(r \<mapsto> row)) e' \<and>
    (\<exists>tx'. global_transaction e' = Some tx')"
proof -
  have t': "table_at fp cs ks vt ix db db e" "rows_fit fp cs ks ix db" "unique_keys ix db" using t by (simp_all add: table_is_def)
  have fp: "fp_bytes_ok fp" "schema_v vt = Schema_new cs" using d by (simp_all add: described_def)
  have ro: "row_ok fp cs row" "0 < total_size cs row" "total_size cs row \<le> 480" using row(1) by (simp_all add: row_fits_def)
  have sq: "1 < length argv" "sql_null api (argv ! 0)" "sql_row fp api cs (drop 2 argv) row" using a by (simp_all add: asks_def)
  obtain t bs where tup: "ConstructTuple fp api (Schema_new cs) (drop 2 argv) mem = Inr t" "Tuple_new fp row (Schema_new cs) mem = Inr t"
    "holds t bs" "row_data fp cs row bs" using ConstructTuple_row [OF sq(3) ro(1) fp(1), of mem] .
  obtain r e1 tx1 where e1: "vt_InsertTuple vt t RID_default e = Some ((True, r), e1)" "db r = None"
    "table_at fp cs ks vt ix (db(r \<mapsto> row)) db e1" "global_transaction e1 = Some tx1"
    using vt_InsertTuple_table [OF t'(1) g n tup(3,4) ro(2,3), of RID_default] by blast
  have nk: "\<forall>rid' row'. db rid' = Some row' \<longrightarrow> proj (attrs_of ix) row' \<noteq> proj (attrs_of ix) row"
    using row(2) by (simp add: new_key_def)
  have dt: "data_t t = Some bs" using tup(3) by (simp add: holds_def)
  obtain e2 where e2: "vt_InsertEntry fp mem vt t r e1 = Some e2" "table_at fp cs ks vt ix (db(r \<mapsto> row)) (db(r \<mapsto> row)) e2"
    "global_transaction e2 = Some tx1" using vt_InsertEntry_table [OF d e1(3,4) row(1) dt tup(4) e1(2) nk, where mem = mem] by blast
  have "VtabUpdate fp api mem vt argv e = Some e2" using sq(1,2) fp(2) tup(1) e1(1) e2(1) by (simp add: VtabUpdate_def)
  moreover have "new_key ix db (Some r) row" using row(2) by (simp add: new_key_def)
  ultimately show ?thesis
    using table_isI [OF e2(2) rows_fit_upd(1) [OF t'(2) row(1)] unique_keys_upd(1) [OF t'(3)]] e1(2) e2(3) by blast
qed

lemma VtabUpdate_replace:
  assumes d: "described fp cs ks vt ix" and t: "table_is fp cs ks vt ix db e" and g: "global_transaction e = Some tx"
    and a: "asks fp api cs argv (Replace rid row)" and row: "row_fits fp cs ks ix row" "new_key ix db (Some rid) row"
    and old: "db rid = Some old" "total_size cs row = total_size cs old"
  shows "\<exists>e'. VtabUpdate fp api mem vt argv e = Some e' \<and> table_is fp cs ks vt ix (db(rid \<mapsto> row)) e' \<and>
    (\<exists>tx'. global_transaction e' = Some tx')"
proof -
  have t': "table_at fp cs ks vt ix db db e" "rows_fit fp cs ks ix db" "unique_keys ix db" using t by (simp_all add: table_is_def)
  have fp: "fp_bytes_ok fp" "schema_v vt = Schema_new cs" using d by (simp_all add: described_def)
  have ro: "row_ok fp cs row" "0 < total_size cs row" using row(1) by (simp_all add: row_fits_def)
  have sq: "1 < length argv" "\<not> sql_null api (argv ! 0)" "rid = RID_of_int64 (sql_int64 api (argv ! 0))"
    "sql_row fp api cs (drop 2 argv) row" using a by (simp_all add: asks_def)
  obtain t bs where tup: "ConstructTuple fp api (Schema_new cs) (drop 2 argv) mem = Inr t" "Tuple_new fp row (Schema_new cs) mem = Inr t"
    "holds t bs" "row_data fp cs row bs" using ConstructTuple_row [OF sq(4) ro(1) fp(1), of mem] .
  obtain e1 where e1: "vt_DeleteEntry fp mem vt rid e = Some e1" "table_at fp cs ks vt ix db (db(rid := None)) e1"
    "global_transaction e1 = Some tx" using vt_DeleteEntry_table [OF d t'(1) g t'(3,2) old(1) old(1), where mem = mem] by blast
  obtain e2 tx2 where e2: "vt_UpdateTuple vt t rid e1 = Some (True, e2)" "table_at fp cs ks vt ix (db(rid \<mapsto> row)) (db(rid := None)) e2"
    "global_transaction e2 = Some tx2" using vt_UpdateTuple_table [OF e1(2,3) old(1) tup(3,4) ro(2) old(2)] by blast
  have nk: "\<forall>rid' row'. (db(rid := None)) rid' = Some row' \<longrightarrow> proj (attrs_of ix) row' \<noteq> proj (attrs_of ix) row"
    using row(2) by (auto simp: new_key_def)
  have dt: "data_t t = Some bs" using tup(3) by (simp add: holds_def)
  obtain e3 where e3: "vt_InsertEntry fp mem vt t rid e2 = Some e3"
    "table_at fp cs ks vt ix (db(rid \<mapsto> row)) ((db(rid := None))(rid \<mapsto> row)) e3" "global_transaction e3 = Some tx2"
    using vt_InsertEntry_table [OF d e2(2,3) row(1) dt tup(4) _ nk, of rid mem] by (simp only: fun_upd_same) blast
  have "VtabUpdate fp api mem vt argv e = Some e3"
    using sq(1,2) fp(2) tup(1) e1(1) e2(1) e3(1) by (simp add: VtabUpdate_def sq(3) [symmetric])
  then show ?thesis
    using table_isI [OF _ rows_fit_upd(1) [OF t'(2) row(1)] unique_keys_upd(1) [OF t'(3) row(2)]] e3(2,3) by auto
qed

section \<open>Transactions\<close>

lemma table_at_begin:
  assumes t: "table_at fp cs ks vt ix h m e" and g: "global_transaction e = None"
  shows "table_at fp cs ks vt ix h m (VtabBegin e)" "global_transaction (VtabBegin e) = Some (Transaction_new (next_txn_id e))"
    "next_id (VtabBegin e) = next_id e"
  using t
proof (atomize(full), cases rule: table_atE)
  case (1 ps b T)
  have b: "VtabBegin e = e\<lparr>global_transaction := Some (Transaction_new (next_txn_id e)), next_txn_id := wrap_s 32 (next_txn_id e + 1)\<rparr>"
    by (simp add: VtabBegin_def tm_Begin_def)
  have v: "heap_view u (VtabBegin e) = heap_view u e" "tree_view (VtabBegin e) = tree_view e" for u
    by (simp_all add: b heap_view_def tree_view_def)
  have "txn_matches (global_transaction (VtabBegin e)) (slot_map ps (heap_view (Transaction_new 0) e))"
    using 1(4) g by (simp add: b txn_matches_def Transaction_new_def deleted_rids_def)
  moreover have "quiet (VtabBegin e)" using 1(1) by (simp add: b quiet_def)
  ultimately show "table_at fp cs ks vt ix h m (VtabBegin e) \<and>
    global_transaction (VtabBegin e) = Some (Transaction_new (next_txn_id e)) \<and> next_id (VtabBegin e) = next_id e"
    unfolding table_at_def v using 1(2,3,5,6) by (auto simp: b)
qed

lemma heap_matches_live_map:
  assumes "live_map m' = live_map m" and "heap_matches fp cs h m"
  shows "heap_matches fp cs h m'"
  unfolding heap_matches_def
proof
  fix rid
  have "live_bytes (m' rid) = live_bytes (m rid)" using fun_cong [OF assms(1), of rid] by (simp add: live_map_def)
  moreover have "slot_holds fp cs (h rid) (m rid)" using assms(2) by (simp add: heap_matches_def)
  ultimately show "slot_holds fp cs (h rid) (m' rid)"
    by (cases "h rid"; cases "m rid"; cases "m' rid") auto
qed

lemma VtabCommit_table:
  assumes t: "table_at fp cs ks vt ix h m e" and g: "global_transaction e = Some tx"
  shows "\<exists>e'. VtabCommit e = Some e' \<and> table_at fp cs ks vt ix h m e' \<and> global_transaction e' = None \<and> next_id e \<le> next_id e'"
  using t
proof (cases rule: table_atE)
  case (1 ps b T)
  let ?f = "\<lambda>h. do { h \<leftarrow> tm_Commit False h; Some ((), h) }"
  have tx: "txn_m (heap_view tx e) = tx" by (simp add: heap_view_def)
  have d: "distinct (deleted_rids (write_set (txn_m (heap_view tx e))))"
    "\<forall>rid. is_dead (slot_map ps (heap_view tx e) rid) \<longleftrightarrow> rid \<in> set (deleted_rids (write_set (txn_m (heap_view tx e))))"
    using 1(4) [of tx] g by (simp_all add: tx txn_matches_def)
  obtain s' where s': "tm_Commit False (heap_view tx e) = Some s'" "heap_inv (table_heap_v vt) ps s'"
    "\<forall>rid. \<not> is_dead (slot_map ps s' rid)" "live_map (slot_map ps s') = live_map (slot_map ps (heap_view tx e))"
    "undisturbed (heap_view tx e) s'"
    using tm_Commit_map [OF 1(2) d] by blast
  have inv: "store_inv s'" using s'(2) by (simp add: heap_inv_def heap_ok_def)
  have r: "?f (heap_view tx e) = Some ((), set_txn (txn_m s') s')" using s'(1) by simp
  obtain e1 where e1: "on_heap ?f e = Some ((), e1)" "heap_done e s' e1"
    using on_heap_step [where f = ?f, OF 1(1) g r s'(5) inv] .
  let ?e = "e1\<lparr>global_transaction := None\<rparr>"
  have V: "quiet ?e = quiet e1" "heap_view t ?e = heap_view t e1" "tree_view ?e = tree_view e1" for t
    by (simp_all add: quiet_def heap_view_def tree_view_def)
  have "heap_done e s' ?e" using e1(2) unfolding heap_done_def V by simp
  moreover have "heap_matches fp cs h (slot_map ps s')" by (rule heap_matches_live_map [OF s'(4) 1(3)])
  moreover have "txn_matches (global_transaction ?e) (slot_map ps s')" using s'(3) by (simp add: txn_matches_def)
  ultimately have "table_at fp cs ks vt ix h m ?e" using table_at_heap s'(2) 1(5,6) by blast
  moreover have "VtabCommit e = Some ?e" using g e1(1) by (simp add: VtabCommit_def)
  moreover have "next_id (tree_view e1) = next_id s'" "next_id e \<le> next_id s'" using e1(2) by (simp_all add: heap_done_def)
  then have "next_id e \<le> next_id ?e" by (simp add: tree_view_def)
  ultimately show ?thesis by auto
qed

lemma VtabBegin_table:
  assumes "table_is fp cs ks vt ix db e" and "global_transaction e = None"
  shows "table_is fp cs ks vt ix db (VtabBegin e)" "global_transaction (VtabBegin e) = Some (Transaction_new (next_txn_id e))"
    "next_id (VtabBegin e) = next_id e"
  using assms table_at_begin [of fp cs ks vt ix db db e] by (simp_all add: table_is_def)

lemma VtabUpdate_change:
  assumes d: "described fp cs ks vt ix" and t: "table_is fp cs ks vt ix db e" and g: "global_transaction e = Some tx"
    and n: "next_id e < 2 ^ 31" and a: "asks fp api cs argv ch" and ok: "allowed fp cs ks ix ch db"
  shows "\<exists>r e' tx'. VtabUpdate fp api mem vt argv e = Some e' \<and> (\<forall>row. ch = Add row \<longrightarrow> db r = None) \<and>
    table_is fp cs ks vt ix (change_rows ch r db) e' \<and> global_transaction e' = Some tx'"
proof (cases ch)
  case (Add row)
  have "row_fits fp cs ks ix row" "new_key ix db None row" using ok Add by (simp_all add: allowed_def)
  from VtabUpdate_insert [OF d t g n _ this, of api argv mem] a Add show ?thesis by (auto simp: fun_upd_def)
next
  case (Drop rid)
  have "db rid \<noteq> None" using ok Drop by (simp add: allowed_def)
  from VtabUpdate_delete [OF d t g _ this, of api argv mem] a Drop show ?thesis by (auto simp: fun_upd_def)
next
  case (Replace rid row)
  have "row_fits fp cs ks ix row" "new_key ix db (Some rid) row" "\<exists>old. db rid = Some old \<and> total_size cs row = total_size cs old"
    using ok Replace by (simp_all add: allowed_def)
  then obtain old where "row_fits fp cs ks ix row" "new_key ix db (Some rid) row" "db rid = Some old" "total_size cs row = total_size cs old" by blast
  from VtabUpdate_replace [OF d t g _ this, of api argv mem] a Replace show ?thesis by (auto simp: fun_upd_def)
qed

section \<open>Runs of changes\<close>

fun update_run :: "'d fp \<Rightarrow> ('q, 'd) sql_api \<Rightarrow> (nat \<Rightarrow> 8 word) \<Rightarrow> virtual_table \<Rightarrow> 'q list list \<Rightarrow> engine \<Rightarrow> engine option" where
  "update_run fp api mem vt [] e = Some e"
| "update_run fp api mem vt (argv # argvs) e = do { e \<leftarrow> VtabUpdate fp api mem vt argv e; update_run fp api mem vt argvs e }"

text \<open>The rows after a list of changes; each new row gets some free record id.\<close>

inductive changed :: "'d change list \<Rightarrow> 'd rows \<Rightarrow> 'd rows \<Rightarrow> bool" where
  changed_Nil: "changed [] db db"
| changed_Cons: "(\<forall>row. ch = Add row \<longrightarrow> db r = None) \<Longrightarrow> changed chs (change_rows ch r db) db' \<Longrightarrow> changed (ch # chs) db db'"

inductive_simps changed_simps: "changed [] db db'" "changed (ch # chs) db db'"

text \<open>Every change is allowed when its turn comes, whatever record ids the new rows before it got.\<close>

fun allowed_run :: "'d fp \<Rightarrow> column list \<Rightarrow> column list \<Rightarrow> index \<Rightarrow> 'd change list \<Rightarrow> 'd rows \<Rightarrow> bool" where
  "allowed_run fp cs ks ix [] db = True"
| "allowed_run fp cs ks ix (ch # chs) db \<longleftrightarrow> allowed fp cs ks ix ch db \<and>
     (\<forall>r. (\<forall>row. ch = Add row \<longrightarrow> db r = None) \<longrightarrow> allowed_run fp cs ks ix chs (change_rows ch r db))"

text \<open>The disk manager has page ids left before each of the calls.\<close>

definition ids_left :: "'d fp \<Rightarrow> ('q, 'd) sql_api \<Rightarrow> (nat \<Rightarrow> 8 word) \<Rightarrow> virtual_table \<Rightarrow> 'q list list \<Rightarrow> engine \<Rightarrow> bool" where
  "ids_left fp api mem vt argvs e \<longleftrightarrow>
     (\<forall>k e'. k < length argvs \<longrightarrow> update_run fp api mem vt (take k argvs) e = Some e' \<longrightarrow> next_id e' < 2 ^ 31)"

lemma ids_left_Cons:
  assumes "ids_left fp api mem vt (argv # argvs) e"
  shows "next_id e < 2 ^ 31" "VtabUpdate fp api mem vt argv e = Some e' \<Longrightarrow> ids_left fp api mem vt argvs e'"
proof -
  have l: "k < length (argv # argvs) \<Longrightarrow> update_run fp api mem vt (take k (argv # argvs)) e = Some e'' \<Longrightarrow> next_id e'' < 2 ^ 31" for k e''
    using assms by (simp add: ids_left_def)
  show "next_id e < 2 ^ 31" using l [of 0 e] by simp
  show "ids_left fp api mem vt argvs e'" if "VtabUpdate fp api mem vt argv e = Some e'"
    unfolding ids_left_def using l [of "Suc _"] that by simp
qed

lemma update_run_changes:
  assumes d: "described fp cs ks vt ix"
  shows "table_is fp cs ks vt ix db e \<Longrightarrow> global_transaction e = Some tx \<Longrightarrow> list_all2 (asks fp api cs) argvs chs \<Longrightarrow>
    allowed_run fp cs ks ix chs db \<Longrightarrow> ids_left fp api mem vt argvs e \<Longrightarrow>
    \<exists>e' tx' db'. update_run fp api mem vt argvs e = Some e' \<and> changed chs db db' \<and> table_is fp cs ks vt ix db' e' \<and>
      global_transaction e' = Some tx'"
proof (induction argvs arbitrary: chs db e tx)
  case Nil
  then show ?case by (auto simp: changed_simps)
next
  case (Cons argv argvs)
  obtain ch chs' where chs: "chs = ch # chs'" "asks fp api cs argv ch" "list_all2 (asks fp api cs) argvs chs'"
    using Cons.prems(3) by (auto simp: list_all2_Cons1)
  have al: "allowed fp cs ks ix ch db" using Cons.prems(4) chs(1) by simp
  note L = ids_left_Cons [OF Cons.prems(5)]
  obtain r e1 tx1 where e1: "VtabUpdate fp api mem vt argv e = Some e1" "\<forall>row. ch = Add row \<longrightarrow> db r = None"
    "table_is fp cs ks vt ix (change_rows ch r db) e1" "global_transaction e1 = Some tx1"
    using VtabUpdate_change [OF d Cons.prems(1,2) L(1) chs(2) al] by blast
  have "allowed_run fp cs ks ix chs' (change_rows ch r db)" using Cons.prems(4) e1(2) by (simp add: chs(1))
  from Cons.IH [OF e1(3,4) chs(3) this L(2) [OF e1(1)]]
  obtain e' tx' db' where "update_run fp api mem vt argvs e1 = Some e'" "changed chs' (change_rows ch r db) db'"
    "table_is fp cs ks vt ix db' e'" "global_transaction e' = Some tx'" by blast
  then show ?case using e1(1,2) by (auto simp: chs(1) changed_simps)
qed

lemma VtabCommit_rows:
  assumes "table_is fp cs ks vt ix db e" and "global_transaction e = Some tx"
  shows "\<exists>e'. VtabCommit e = Some e' \<and> table_is fp cs ks vt ix db e' \<and> global_transaction e' = None"
  using VtabCommit_table [of fp cs ks vt ix db db e tx] assms by (auto simp: table_is_def)

text \<open>A change without a transaction ends at the null pointer.\<close>

lemma on_heap_no_transaction: "global_transaction e = None \<Longrightarrow> on_heap f e = None"
  by (simp add: on_heap_def)

lemma vt_DeleteEntry_keeps:
  assumes "vt_DeleteEntry fp mem vt rid e = Some e'" and "global_transaction e = None"
  shows "e' = e"
proof (cases "index_v vt")
  case (Some ix)
  then have "vt_GetTuple rid e = Some (x, e1) \<Longrightarrow> global_transaction e1 = None" for x e1
    using assms(2) by (auto simp: vt_GetTuple_def on_heap_read_def put_heap_def bind_Some_iff split: prod.splits)
  then show ?thesis using assms(1) Some by (auto simp: vt_DeleteEntry_def bind_Some_iff split: prod.splits)
qed (use assms(1) in \<open>simp add: vt_DeleteEntry_def\<close>)

lemma VtabUpdate_no_transaction:
  assumes "global_transaction e = None" and "argv \<noteq> []"
  shows "VtabUpdate fp api mem vt argv e = None"
proof -
  note h = on_heap_no_transaction [OF assms(1)]
  have d: "vt_DeleteEntry fp mem vt rid e = None \<or> vt_DeleteEntry fp mem vt rid e = Some e" for rid
    using vt_DeleteEntry_keeps [OF _ assms(1)] by (cases "vt_DeleteEntry fp mem vt rid e") auto
  have "length argv = 1 \<or> 1 < length argv" using assms(2) by (cases argv) auto
  then show ?thesis
  proof
    assume "length argv = 1"
    then show ?thesis using d [of "RID_of_int64 (sql_int64 api (argv ! 0))"] by (auto simp: VtabUpdate_def vt_DeleteTuple_def h)
  next
    assume "1 < length argv"
    then show ?thesis using d [of "RID_of_int64 (sql_int64 api (argv ! 0))"]
      by (cases "of_result (ConstructTuple fp api (schema_v vt) (drop 2 argv) mem)")
        (auto simp: VtabUpdate_def vt_InsertTuple_def vt_UpdateTuple_def Let_def h)
  qed
qed

end
