(* ===== verification/VtabCursors.thy ===== *)
theory VtabCursors imports VtabStatements begin

text \<open>
  The cursors of the virtual table, in the order in which SQLite calls them: open, filter, and for each row the
  id, the columns and the step to the next row, until the end.
\<close>

section \<open>The loop of a query\<close>

fun read_columns :: "'d fp \<Rightarrow> virtual_table \<Rightarrow> cursor \<Rightarrow> nat list \<Rightarrow> engine \<Rightarrow> ('d sql_result list \<times> engine) option" where
  "read_columns fp vt cur [] e = Some ([], e)"
| "read_columns fp vt cur (i # is) e =
     do { (a, e) \<leftarrow> VtabColumn fp vt cur i e; (as, e) \<leftarrow> read_columns fp vt cur is e; Some (a # as, e) }"

partial_function (option) read_cursor ::
  "'d fp \<Rightarrow> virtual_table \<Rightarrow> nat \<Rightarrow> cursor \<Rightarrow> engine \<Rightarrow> ((int \<times> 'd sql_result list) list \<times> engine) option" where
  "read_cursor fp vt n cur e =
     (if VtabEof vt cur then Some ([], e)
      else do {
        rid \<leftarrow> VtabRowid cur;
        (as, e) \<leftarrow> read_columns fp vt cur [0..<n] e;
        (cur, e) \<leftarrow> VtabNext cur e;
        (rows, e) \<leftarrow> read_cursor fp vt n cur e;
        Some ((rid, as) # rows, e) })"

text \<open>What a query answers for a row.\<close>

definition answers_of :: "'d fp \<Rightarrow> column list \<Rightarrow> 'd Value list \<Rightarrow> 'd sql_result list" where
  "answers_of fp cs row = map (\<lambda>i. sql_answer fp (column_type (cs ! i)) (row ! i)) [0..<length cs]"

definition query_rows :: "'d fp \<Rightarrow> column list \<Rightarrow> 'd rows \<Rightarrow> RID list \<Rightarrow> (int \<times> 'd sql_result list) list" where
  "query_rows fp cs db rids = map (\<lambda>rid. (RID_Get rid, answers_of fp cs (the (db rid)))) rids"

lemma read_columns_all:
  "\<forall>i \<in> set is. VtabColumn fp vt cur i e = Some (a i, e) \<Longrightarrow> read_columns fp vt cur is e = Some (map a is, e)"
  by (induction "is") simp_all

section \<open>The places of the rows\<close>

definition head_of :: "'a list \<Rightarrow> 'a option" where
  "head_of xs = (case xs of [] \<Rightarrow> None | x # _ \<Rightarrow> Some x)"

lemma head_of_simps [simp]: "head_of [] = None" "head_of (x # xs) = Some x"
  by (simp_all add: head_of_def)

lemma head_of_append: "head_of (xs @ ys) = (case head_of xs of None \<Rightarrow> head_of ys | Some x \<Rightarrow> Some x)"
  by (cases xs) simp_all

lemma head_of_map: "head_of (map f xs) = map_option f (head_of xs)"
  by (cases xs) simp_all

definition live_from :: "nat \<Rightarrow> slot list \<Rightarrow> nat list" where
  "live_from k ss = filter (\<lambda>i. live_bytes (ss ! i) \<noteq> None) [k..<length ss]"

definition places :: "page_id list \<Rightarrow> table_state \<Rightarrow> (page_id \<times> nat) list" where
  "places ps s = concat (map (\<lambda>p. map (Pair p) (live_from 0 (slots_at s p))) ps)"

lemma next_live_head: "next_live k ss = head_of (filter (\<lambda>i. live_bytes (ss ! (i - k)) \<noteq> None) [k..<k + length ss])"
proof (induction ss arbitrary: k)
  case (Cons s ss)
  have up: "[k..<k + length (s # ss)] = k # [Suc k..<Suc k + length ss]"
    using upt_conv_Cons [of k "k + length (s # ss)"] by (simp del: upt_Suc)
  have "filter (\<lambda>i. live_bytes ((s # ss) ! (i - k)) \<noteq> None) [Suc k..<Suc k + length ss] =
      filter (\<lambda>i. live_bytes (ss ! (i - Suc k)) \<noteq> None) [Suc k..<Suc k + length ss]"
    by (rule filter_cong) (auto simp: nth_Cons')
  then show ?case unfolding up using Cons.IH [of "Suc k"] by simp
qed simp

lemma next_live_from:
  assumes "k \<le> length ss"
  shows "next_live k (drop k ss) = head_of (live_from k ss)"
proof -
  have "filter (\<lambda>i. live_bytes (drop k ss ! (i - k)) \<noteq> None) [k..<length ss] = live_from k ss"
    unfolding live_from_def by (rule filter_cong) (use assms in auto)
  then show ?thesis using next_live_head [of k "drop k ss"] assms by simp
qed

lemma later_head: "later qs s = head_of (places qs s)"
proof (induction qs)
  case (Cons q qs)
  have "next_live 0 (slots_at s q) = head_of (live_from 0 (slots_at s q))" using next_live_from [of 0 "slots_at s q"] by simp
  then show ?case using Cons by (simp add: places_def head_of_append head_of_map split: option.splits)
qed (simp add: places_def)

lemma after_head:
  assumes "i < length (slots_at s p)"
  shows "after p i qs s = head_of (map (Pair p) (live_from (Suc i) (slots_at s p)) @ places qs s)"
  using assms next_live_from [of "Suc i" "slots_at s p"]
  by (simp add: after_def later_head head_of_append head_of_map split: option.splits)

lemma distinct_places: "distinct ps \<Longrightarrow> distinct (places ps s)"
  by (induction ps) (auto simp: places_def distinct_map live_from_def inj_on_def)

lemma set_places: "(p, i) \<in> set (places ps s) \<longleftrightarrow> p \<in> set ps \<and> i < length (slots_at s p) \<and> live_bytes (slots_at s p ! i) \<noteq> None"
  by (auto simp: places_def live_from_def)

lemma places_rids: "rid \<in> (\<lambda>(p, i). rid_at p i) ` set (places ps s) \<longleftrightarrow> live_bytes (slot_map ps s rid) \<noteq> None"
proof
  assume "rid \<in> (\<lambda>(p, i). rid_at p i) ` set (places ps s)"
  then obtain p i where "rid = rid_at p i" "(p, i) \<in> set (places ps s)" by auto
  then show "live_bytes (slot_map ps s rid) \<noteq> None" using set_places [of p i ps s] by (simp add: slot_map_def)
next
  assume l: "live_bytes (slot_map ps s rid) \<noteq> None"
  then have "slot_map ps s rid \<noteq> Free" by auto
  then have c: "rid_page_id rid \<in> set ps" "0 \<le> slot_num rid" "nat (slot_num rid) < length (slots_at s (rid_page_id rid))"
    "slot_map ps s rid = slots_at s (rid_page_id rid) ! nat (slot_num rid)" by (auto simp: slot_map_def split: if_splits)
  then have "(rid_page_id rid, nat (slot_num rid)) \<in> set (places ps s)" using l set_places by simp
  moreover have "rid = rid_at (rid_page_id rid) (nat (slot_num rid))" using c(2) by (simp add: rid_eq_rid_at)
  ultimately show "rid \<in> (\<lambda>(p, i). rid_at p i) ` set (places ps s)" by force
qed

lemma places_on:
  assumes "p \<in> set ps"
  shows "live_from 0 (slots_at s p) \<noteq> [] \<longleftrightarrow> (\<exists>rid. live_bytes (slot_map ps s rid) \<noteq> None \<and> rid_page_id rid = p)"
proof -
  have "live_from 0 (slots_at s p) \<noteq> [] \<longleftrightarrow> (\<exists>i. (p, i) \<in> set (places ps s))"
    using assms by (auto simp: set_places live_from_def filter_empty_conv)
  also have "\<dots> \<longleftrightarrow> (\<exists>rid \<in> (\<lambda>(p, i). rid_at p i) ` set (places ps s). rid_page_id rid = p)" by (force simp: rid_at_def)
  also have "\<dots> \<longleftrightarrow> (\<exists>rid. live_bytes (slot_map ps s rid) \<noteq> None \<and> rid_page_id rid = p)" using places_rids by blast
  finally show ?thesis .
qed

text \<open>The place behind one is where the iterator goes next.\<close>

lemma places_next:
  assumes "distinct ps" and "places ps s = A @ (p, i) # R"
  obtains pre qs where "ps = pre @ p # qs" "after p i qs s = head_of R"
proof -
  have "(p, i) \<in> set (places ps s)" using assms(2) by simp
  then have m: "p \<in> set ps" "i < length (slots_at s p)" "live_bytes (slots_at s p ! i) \<noteq> None" using set_places by blast+
  obtain pre qs where ps: "ps = pre @ p # qs" using m(1) by (auto simp: in_set_conv_decomp)
  let ?n = "length (slots_at s p)"
  have "[0..<?n] = [0..<i] @ i # [Suc i..<?n]" using m(2) by (metis le_add1 upt_add_eq_append upt_conv_Cons le_add_diff_inverse less_imp_le add_0)
  then have "live_from 0 (slots_at s p) = filter (\<lambda>i. live_bytes (slots_at s p ! i) \<noteq> None) [0..<i] @ i # live_from (Suc i) (slots_at s p)"
    using m(3) by (simp add: live_from_def)
  then obtain X where "places ps s = X @ (p, i) # (map (Pair p) (live_from (Suc i) (slots_at s p)) @ places qs s)"
    by (simp add: places_def ps)
  then have "R = map (Pair p) (live_from (Suc i) (slots_at s p)) @ places qs s"
    using distinct_places [OF assms(1), of s] assms(2) by (metis append_Cons_eq_iff distinct.simps(2) distinct_append not_distinct_conv_prefix)
  then show ?thesis using that [OF ps] after_head [OF m(2), of qs] by simp
qed

section \<open>The columns of the current row\<close>

lemma VtabColumn_tuple:
  assumes d: "described fp cs ks vt ix" and row: "row_ok fp cs row" "row_data fp cs row bs" "data_t t = Some bs" and i: "i < length cs"
  shows "of_result (Tuple_GetValue fp (schema_v vt) i t) = Some (row ! i)" "GetType i (schema_v vt) = column_type (cs ! i)"
proof -
  have fp: "fp_bytes_ok fp" "schema_v vt = Schema_new cs" using d by (simp_all add: described_def)
  show "of_result (Tuple_GetValue fp (schema_v vt) i t) = Some (row ! i)" using row_data_value [OF row(1) fp(1) row(2,3) i] fp(2) by simp
  show "GetType i (schema_v vt) = column_type (cs ! i)" using Schema_new_simps(5) [OF row_ok_lengths [OF row(1)] i] fp(2) by simp
qed

lemma VtabColumn_scan:
  assumes d: "described fp cs ks vt ix" and row: "row_ok fp cs row" "row_data fp cs row bs" "data_t t = Some bs" and i: "i < length cs"
    and cur: "\<not> is_index_scan cur" "ti_deref (table_iterator_c cur) = Some t"
  shows "VtabColumn fp vt cur i e = Some (sql_answer fp (column_type (cs ! i)) (row ! i), e)"
  using VtabColumn_tuple [OF assms(1-5)] cur by (simp add: VtabColumn_def GetCurrentValue_def Let_def)

lemma VtabColumn_index:
  assumes d: "described fp cs ks vt ix" and t: "table_at fp cs ks vt ix h m e" and g: "global_transaction e = Some tx"
    and row: "h rid = Some row" "row_ok fp cs row" and i: "i < length cs" and cur: "is_index_scan cur" "current_result cur = Some rid"
  shows "VtabColumn fp vt cur i e = Some (sql_answer fp (column_type (cs ! i)) (row ! i), e)"
proof -
  obtain tuple bs where tu: "vt_GetTuple rid e = Some (tuple, e)" "data_t tuple = Some bs" "row_data fp cs row bs"
    using vt_GetTuple_table [OF t g row(1)] by blast
  show ?thesis using VtabColumn_tuple [OF d row(2) tu(3,2) i] cur tu(1) by (simp add: VtabColumn_def GetCurrentValue_def Let_def)
qed

section \<open>Point queries\<close>

lemma Cursor_offset [simp]:
  "is_index_scan (cur\<lparr>offset_c := k\<rparr>) = is_index_scan cur" "results (cur\<lparr>offset_c := k\<rparr>) = results cur" "offset_c (cur\<lparr>offset_c := k\<rparr>) = k"
  by simp_all

lemma read_cursor_index:
  assumes d: "described fp cs ks vt ix" and t: "table_is fp cs ks vt ix db e" and g: "global_transaction e = Some tx"
    and r: "\<forall>rid \<in> set (results cur). db rid \<noteq> None" and cur: "is_index_scan cur" "offset_c cur = int k" "k \<le> length (results cur)"
  shows "read_cursor fp vt (length cs) cur e = Some (query_rows fp cs db (drop k (results cur)), e)"
  using r cur
proof (induction "length (results cur) - k" arbitrary: cur k)
  case 0
  then have "k = length (results cur)" by simp
  then show ?case using 0 by (subst read_cursor.simps) (simp add: VtabEof_def Cursor_isEof_def query_rows_def)
next
  case (Suc n)
  then have k: "k < length (results cur)" by simp
  let ?rid = "results cur ! k"
  obtain row where row: "db ?rid = Some row" using Suc.prems(1) k by (meson nth_mem option.exhaust)
  then have ro: "row_ok fp cs row" using t by (auto simp: table_is_def rows_fit_def row_fits_def)
  have c: "current_result cur = Some ?rid" using k Suc.prems by (simp add: current_result_def)
  have tt: "table_at fp cs ks vt ix db db e" using t by (simp add: table_is_def)
  have cols: "read_columns fp vt cur [0..<length cs] e = Some (answers_of fp cs row, e)"
    unfolding answers_of_def by (rule read_columns_all) (use VtabColumn_index [OF d tt g row ro _ Suc.prems(2) c] in simp)
  have "read_cursor fp vt (length cs) (cur\<lparr>offset_c := int (k + 1)\<rparr>) e = Some (query_rows fp cs db (drop (k + 1) (results cur)), e)"
    using Suc.hyps(1) [of "cur\<lparr>offset_c := int (k + 1)\<rparr>" "k + 1"] Suc.hyps(2) Suc.prems k by simp
  then have rest: "read_cursor fp vt (length cs) (cur\<lparr>offset_c := 1 + int k\<rparr>) e = Some (query_rows fp cs db (drop (Suc k) (results cur)), e)"
    by (simp add: add.commute)
  have dr: "drop k (results cur) = ?rid # drop (Suc k) (results cur)" using k by (simp add: Cons_nth_drop_Suc)
  show ?case unfolding dr using c Suc.prems k cols rest row
    by (subst read_cursor.simps)
      (simp add: VtabEof_def Cursor_isEof_def VtabRowid_def GetCurrentRid_def VtabNext_def Cursor_next_def query_rows_def add.commute)
qed

lemma Cursor_new_at:
  assumes h: "heap_inv (table_heap_v vt) ps (heap_view tx e)" and g: "global_transaction e = Some tx"
  obtains it where "Cursor_new vt e = Some (\<lparr>results = [], offset_c = 0, table_iterator_c = it, is_index_scan = False\<rparr>, e)"
    "iter_at (table_heap_v vt) (heap_view tx e)
      (map_option (Pair (table_heap_v vt)) (next_live 0 (slots_at (heap_view tx e) (table_heap_v vt)))) it"
proof -
  obtain qs where ps: "ps = table_heap_v vt # qs" using heap_inv_first [OF h] by blast
  obtain it where it: "th_begin False (table_heap_v vt) (heap_view tx e) = Some (it, heap_view tx e)"
    "iter_at (table_heap_v vt) (heap_view tx e)
      (map_option (\<lambda>j. (table_heap_v vt, j)) (next_live 0 (slots_at (heap_view tx e) (table_heap_v vt)))) it"
    using th_begin_at [OF h [unfolded ps]] by blast
  have "on_heap (th_begin False (table_heap_v vt)) e = Some (it, e)" using g it(1) put_heap_same [OF g] by (simp add: on_heap_def)
  then show ?thesis using that it(2) by (simp add: Cursor_new_def)
qed

text \<open>The engine a cursor is opened on: with a transaction, which is begun if there is none.\<close>

definition with_transaction :: "engine \<Rightarrow> engine" where
  "with_transaction e = (if global_transaction e = None then VtabBegin e else e)"

lemma with_transaction_table:
  assumes "table_is fp cs ks vt ix db e"
  obtains tx where "table_is fp cs ks vt ix db (with_transaction e)" "global_transaction (with_transaction e) = Some tx"
    "next_id (with_transaction e) = next_id e"
  using assms VtabBegin_table [OF assms] that by (cases "global_transaction e") (auto simp: with_transaction_def)

lemma table_is_heap:
  assumes "table_is fp cs ks vt ix db e"
  shows "\<exists>ps. heap_inv (table_heap_v vt) ps (heap_view t e) \<and> heap_matches fp cs db (slot_map ps (heap_view t e))"
proof -
  have "table_at fp cs ks vt ix db db e" using assms by (simp add: table_is_def)
  then show ?thesis
  proof (cases rule: table_atE)
    case (1 ps b T)
    show ?thesis using 1(2,3) by blast
  qed
qed

lemma VtabOpen_cursor:
  assumes "table_is fp cs ks vt ix db e"
  obtains cur where "VtabOpen vt e = Some (cur, with_transaction e)" "results cur = []" "offset_c cur = 0" "\<not> is_index_scan cur"
proof -
  obtain tx where e: "table_is fp cs ks vt ix db (with_transaction e)" "global_transaction (with_transaction e) = Some tx"
    using with_transaction_table [OF assms] .
  obtain ps where h: "heap_inv (table_heap_v vt) ps (heap_view tx (with_transaction e))" using table_is_heap [OF e(1)] by blast
  obtain it where "Cursor_new vt (with_transaction e) =
    Some (\<lparr>results = [], offset_c = 0, table_iterator_c = it, is_index_scan = False\<rparr>, with_transaction e)"
    using Cursor_new_at [OF h e(2)] .
  then have "VtabOpen vt e = Some (\<lparr>results = [], offset_c = 0, table_iterator_c = it, is_index_scan = False\<rparr>, with_transaction e)"
    by (simp add: VtabOpen_def with_transaction_def)
  then show ?thesis by (rule that) simp_all
qed

lemma point_query_rows:
  assumes d: "described fp cs ks vt ix" and t: "table_is fp cs ks vt ix db e"
    and k: "sql_row fp api ks argv vals" "row_ok fp ks vals" "\<forall>v \<in> set vals. orderable v" "total_size ks vals \<le> KeySize ix"
  shows "\<exists>cur e' cur' rids. VtabOpen vt e = Some (cur, e') \<and> VtabFilter fp api mem vt 1 argv cur e' = Some (cur', e') \<and>
    read_cursor fp vt (length cs) cur' e' = Some (query_rows fp cs db rids, e') \<and> length rids \<le> 1 \<and>
    set rids = {rid. \<exists>row. db rid = Some row \<and> proj (attrs_of ix) row = vals}"
proof -
  let ?e = "with_transaction e"
  obtain tx where e: "table_is fp cs ks vt ix db ?e" "global_transaction ?e = Some tx" using with_transaction_table [OF t] .
  obtain cur where cur: "VtabOpen vt e = Some (cur, ?e)" "results cur = []" "offset_c cur = 0" using VtabOpen_cursor [OF t] .
  have fp: "fp_bytes_ok fp" "key_schema_m (metadata ix) = Schema_new ks" "index_v vt = Some ix" using d by (simp_all add: described_def)
  obtain kt kb where kt: "ConstructTuple fp api (Schema_new ks) argv mem = Inr kt" "Tuple_new fp vals (Schema_new ks) mem = Inr kt"
    using ConstructTuple_row [OF k(1,2) fp(1), of mem] .
  have tt: "table_at fp cs ks vt ix db db ?e" using e(1) by (simp add: table_is_def)
  obtain found where f: "on_tree (Index_ScanKey fp ix kt []) ?e = Some (case found of None \<Rightarrow> [] | Some rid \<Rightarrow> [rid], ?e)"
    "\<And>rid. found = Some rid \<longleftrightarrow> (\<exists>row. db rid = Some row \<and> proj (attrs_of ix) row = vals)"
    using Index_ScanKey_table [OF d tt kt(2) k(2-4), of "[]"] by auto
  define rids where "rids = (case found of None \<Rightarrow> [] | Some rid \<Rightarrow> [rid])"
  let ?cur = "cur\<lparr>is_index_scan := True, results := rids\<rparr>"
  have "VtabFilter fp api mem vt 1 argv cur ?e = Some (?cur, ?e)"
    using kt(1) f(1) cur(2) by (simp add: VtabFilter_def Cursor_ScanKey_def fp rids_def)
  moreover have s: "set rids = {rid. \<exists>row. db rid = Some row \<and> proj (attrs_of ix) row = vals}"
  proof -
    have "set rids = {rid. found = Some rid}" by (auto simp: rids_def split: option.splits)
    then show ?thesis unfolding f(2) .
  qed
  moreover have "read_cursor fp vt (length cs) ?cur ?e = Some (query_rows fp cs db rids, ?e)"
    using read_cursor_index [OF d e(1,2), of ?cur 0] s cur(3) by auto
  moreover have "length rids \<le> 1" by (simp add: rids_def split: option.splits)
  ultimately show ?thesis using cur(1) by blast
qed

section \<open>The plan of a query\<close>

text \<open>The arguments SQLite hands to the scan: the values of the constraints with a position, in its order.\<close>

definition scan_arguments :: "int list \<Rightarrow> 'q list \<Rightarrow> 'q list" where
  "scan_arguments usage vals = map snd (sort_key fst (filter (\<lambda>x. 0 < fst x) (zip usage vals)))"

definition equalities :: "index \<Rightarrow> constraint list \<Rightarrow> bool" where
  "equalities ix cons \<longleftrightarrow> length cons = length (attrs_of ix) \<and>
     (\<forall>c \<in> set cons. usable c \<and> is_eq c \<and> iColumn c \<in> set (attrs_of ix))"

lemma best_index_loop_all:
  "\<forall>c \<in> set cons. usable c \<and> is_eq c \<and> iColumn c \<in> set attrs \<Longrightarrow>
   best_index_loop attrs i cons k = (True, k + length cons, map (\<lambda>j. i + int j + 1) [0..<length cons])"
proof (induction cons arbitrary: i k)
  case (Cons c cons)
  have "map (\<lambda>j. i + int j + 1) [0..<length (c # cons)] = (i + 1) # map (\<lambda>j. i + 1 + int j + 1) [0..<length cons]"
    by (simp only: list.size upt_conv_Cons map_Suc_upt [symmetric]) (simp add: upt_conv_Cons map_Suc_upt [symmetric] comp_def del: upt_Suc)
  then show ?case using Cons by simp
qed simp

text \<open>Equalities on all columns of the index are answered with an index scan, in the order of the query.\<close>

lemma VtabBestIndex_equalities:
  assumes "equalities ix cons" and "length vals = length cons"
  obtains usage where "VtabBestIndex (Some ix) cons = (1, usage)" "scan_arguments usage vals = vals"
proof -
  let ?u = "map (\<lambda>j. int j + 1) [0..<length cons]"
  have "VtabBestIndex (Some ix) cons = (1, ?u)"
    using assms(1) best_index_loop_all [of cons "attrs_of ix" 0 0] by (simp add: VtabBestIndex_def Let_def equalities_def)
  moreover have "scan_arguments ?u vals = vals"
  proof -
    have "filter (\<lambda>x. 0 < fst x) (zip ?u vals) = zip ?u vals" by (rule filter_True) (auto simp: set_zip)
    moreover have "sorted (map fst (zip ?u vals))" using assms(2) by (simp add: sorted_map strict_sorted_imp_sorted sorted_wrt_map)
    ultimately show ?thesis using assms(2) by (simp add: scan_arguments_def sort_key_id_if_sorted)
  qed
  ultimately show ?thesis using that by blast
qed

section \<open>Scans of the table\<close>

lemma read_cursor_scan:
  assumes d: "described fp cs ks vt ix" and H: "heap_inv (table_heap_v vt) ps (heap_view tx e)"
    and m: "heap_matches fp cs db (slot_map ps (heap_view tx e))" and g: "global_transaction e = Some tx" and n: "next_id e \<le> 2 ^ 31"
    and fit: "rows_fit fp cs ks ix db"
    and R: "places ps (heap_view tx e) = A @ R" "iter_at (table_heap_v vt) (heap_view tx e) (head_of R) (table_iterator_c cur)"
    and cur: "\<not> is_index_scan cur"
  shows "read_cursor fp vt (length cs) cur e = Some (query_rows fp cs db (map (\<lambda>(p, i). rid_at p i) R), e)"
  using R cur
proof (induction R arbitrary: A cur)
  let ?s = "heap_view tx e"
  have ok: "heap_ok ?s" "next_id ?s \<le> 2 ^ 31" and ch: "chain ps ?s" "distinct ps" using H n by (simp_all add: heap_inv_def)
  {
    case Nil
    then have "ti_eq (table_iterator_c cur) (th_end (table_heap_v vt))" using ti_eq_end [OF ok Nil(2)] by simp
    then show ?case using Nil by (subst read_cursor.simps) (simp add: VtabEof_def Cursor_isEof_def query_rows_def)
  next
    case (Cons x R)
    obtain p i where x: "x = (p, i)" by fastforce
    let ?it = "table_iterator_c cur"
    have "(p, i) \<in> set (places ps ?s)" using Cons.prems(1) x by simp
    then have P: "p \<in> set ps" "i < length (slots_at ?s p)" "live_bytes (slots_at ?s p ! i) \<noteq> None" using set_places by blast+
    obtain bs where bs: "slots_at ?s p ! i = Live bs" using P(3) by (auto simp: live_bytes_Some)
    have rid: "slot_map ps ?s (rid_at p i) = Live bs" using P bs by (simp add: slot_map_def)
    obtain row where row: "db (rid_at p i) = Some row" "row_data fp cs row bs"
    proof (cases "db (rid_at p i)")
      case None
      then have "live_bytes (slot_map ps ?s (rid_at p i)) = None" using m by (metis heap_matches_def slot_holds_simps(2))
      then show ?thesis using rid by simp
    next
      case (Some row)
      then show ?thesis using that heap_matches_live [OF m Some] rid by auto
    qed
    then have ro: "row_ok fp cs row" using fit by (auto simp: rows_fit_def row_fits_def)
    have it: "heap_i ?it = table_heap_v vt" "rid_m (tuple_i ?it) = rid_at p i" "data_t (tuple_i ?it) = Some bs"
      using Cons.prems(2) bs by (simp_all add: iter_at_def x position_def)
    have end': "\<not> ti_eq ?it (th_end (table_heap_v vt))"
      using ti_eq_end [OF ok Cons.prems(2)] P(1) chain_ids [OF ch(1)] by (auto simp: x)
    have deref: "ti_deref ?it = Some (tuple_i ?it)" using end' it(1) by (simp add: ti_deref_def)
    have cols: "read_columns fp vt cur [0..<length cs] e = Some (answers_of fp cs row, e)"
      unfolding answers_of_def by (rule read_columns_all) (use VtabColumn_scan [OF d ro row(2) it(3) _ Cons.prems(3) deref] in simp)
    obtain pre qs where af: "ps = pre @ p # qs" "after p i qs ?s = head_of R"
      using places_next [OF ch(2), of ?s A p i R] Cons.prems(1) x by blast
    have ch': "chain (p # qs) ?s" "distinct (p # qs)" using ch chain_suffix [of pre "p # qs" ?s] unfolding af(1) by simp_all
    obtain it' where it': "ti_next False ?it ?s = Some (it', ?s)" "iter_at (table_heap_v vt) ?s (head_of R) it'"
      using ti_next_after [OF ok ch', of "table_heap_v vt" i ?it] Cons.prems(2) af(2) by (auto simp: x)
    have step: "VtabNext cur e = Some (cur\<lparr>table_iterator_c := it'\<rparr>, e)"
      using g it'(1) put_heap_same [OF g] Cons.prems(3) by (simp add: VtabNext_def Cursor_next_def on_heap_def)
    have "read_cursor fp vt (length cs) (cur\<lparr>table_iterator_c := it'\<rparr>) e = Some (query_rows fp cs db (map (\<lambda>(p, i). rid_at p i) R), e)"
      using Cons.IH [of "A @ [x]" "cur\<lparr>table_iterator_c := it'\<rparr>"] Cons.prems it'(2) by simp
    then show ?case using end' deref cols step row(1) Cons.prems(3) it(2)
      by (subst read_cursor.simps)
        (simp add: VtabEof_def Cursor_isEof_def VtabRowid_def GetCurrentRid_def query_rows_def x)
  }
qed

text \<open>A scan starts on the first page of the table and stops at once when that page has no row.\<close>

lemma full_scan_rows:
  assumes d: "described fp cs ks vt ix" and t: "table_is fp cs ks vt ix db e" and n: "next_id e \<le> 2 ^ 31"
  shows "\<exists>cur e' rids. VtabOpen vt e = Some (cur, e') \<and> VtabFilter fp api mem vt 0 argv cur e' = Some (cur, e') \<and>
    read_cursor fp vt (length cs) cur e' = Some (query_rows fp cs db rids, e') \<and> distinct rids \<and>
    set rids = (if \<exists>rid. db rid \<noteq> None \<and> rid_page_id rid = table_heap_v vt then dom db else {})"
proof -
  let ?e = "with_transaction e" and ?tab = "table_heap_v vt"
  obtain tx where e: "table_is fp cs ks vt ix db ?e" "global_transaction ?e = Some tx" "next_id ?e = next_id e"
    using with_transaction_table [OF t] .
  let ?s = "heap_view tx ?e"
  have tt: "table_at fp cs ks vt ix db db ?e" "rows_fit fp cs ks ix db" using e(1) by (simp_all add: table_is_def)
  obtain ps where H: "heap_inv ?tab ps ?s" "heap_matches fp cs db (slot_map ps ?s)" using table_is_heap [OF e(1)] by blast
  obtain it where it: "Cursor_new vt ?e = Some (\<lparr>results = [], offset_c = 0, table_iterator_c = it, is_index_scan = False\<rparr>, ?e)"
    "iter_at ?tab ?s (map_option (Pair ?tab) (next_live 0 (slots_at ?s ?tab))) it" using Cursor_new_at [OF H(1) e(2)] .
  let ?cur = "\<lparr>results = [], offset_c = 0, table_iterator_c = it, is_index_scan = False\<rparr>"
  have open': "VtabOpen vt e = Some (?cur, ?e)" using it(1) by (simp add: VtabOpen_def with_transaction_def)
  obtain qs where ps: "ps = ?tab # qs" using heap_inv_first [OF H(1)] by blast
  have dis: "distinct ps" using H(1) by (simp add: heap_inv_def)
  let ?first = "live_from 0 (slots_at ?s ?tab)"
  have nl: "next_live 0 (slots_at ?s ?tab) = head_of ?first" using next_live_from [of 0 "slots_at ?s ?tab"] by simp
  have pl: "places ps ?s = map (Pair ?tab) ?first @ places qs ?s" by (simp add: places_def ps)
  define R where "R = (if ?first = [] then [] else places ps ?s)"
  have "\<exists>A. places ps ?s = A @ R" by (auto simp: R_def)
  then obtain A where A: "places ps ?s = A @ R" by blast
  have "map_option (Pair ?tab) (next_live 0 (slots_at ?s ?tab)) = head_of R"
    unfolding nl R_def pl by (cases ?first) simp_all
  then have iter: "iter_at ?tab ?s (head_of R) (table_iterator_c ?cur)" using it(2) by simp
  have n': "next_id ?e \<le> 2 ^ 31" using n e(3) by simp
  have run: "read_cursor fp vt (length cs) ?cur ?e = Some (query_rows fp cs db (map (\<lambda>(p, i). rid_at p i) R), ?e)"
    using read_cursor_scan [OF d H e(2) n' tt(2) A iter] by simp
  have live: "db rid \<noteq> None \<longleftrightarrow> live_bytes (slot_map ps ?s rid) \<noteq> None" for rid
    using H(2) by (cases "db rid"; cases "slot_map ps ?s rid") (force simp: heap_matches_def dest: spec [of _ rid])+
  have ids: "set (map (\<lambda>(p, i). rid_at p i) (places ps ?s)) = dom db"
    using places_rids [of _ ps ?s] live by (auto simp: dom_def)
  have fst: "?first \<noteq> [] \<longleftrightarrow> (\<exists>rid. db rid \<noteq> None \<and> rid_page_id rid = ?tab)"
    using places_on [of ?tab ps ?s] live by (simp add: ps)
  have "distinct (map (\<lambda>(p, i). rid_at p i) R)"
    using distinct_places [OF dis, of ?s] by (auto simp: R_def distinct_map inj_on_def rid_at_def split: prod.splits)
  moreover have "set (map (\<lambda>(p, i). rid_at p i) R) = (if \<exists>rid. db rid \<noteq> None \<and> rid_page_id rid = ?tab then dom db else {})"
    using ids fst by (auto simp: R_def)
  moreover have "VtabFilter fp api mem vt 0 argv ?cur ?e = Some (?cur, ?e)" by (simp add: VtabFilter_def)
  ultimately show ?thesis using open' run by blast
qed

end
