(* ===== verification/VtabCreation.thy ===== *)
theory VtabCreation imports VtabSteps begin

text \<open>
  A new database and its first table: \<open>sqlite3_vtable_init\<close> and \<open>VtabCreate\<close> leave a table without rows.
\<close>

section \<open>The columns of a statement\<close>

lemma Schema_loop_count: "length (columns (Schema_loop cs i off s)) = length (columns s) + length cs"
  by (induction cs arbitrary: i off s) (simp_all add: Let_def)

lemma Schema_new_count: "length (columns (Schema_new cs)) = length cs"
  by (simp add: Schema_new_def Schema_loop_count)

text \<open>The columns of a statement have the sizes of their types.\<close>

lemma parse_column_exact: "parse_column t = Inr c \<Longrightarrow> exact_cols [c]"
  by (auto simp: parse_column_def Let_def and_then_def Column_new_def SetInlined_def SetLength_def Column_default_def exact_cols_def
    split: sum.splits if_splits TypeId.splits)

lemma exact_cols_Cons: "exact_cols (c # cs) \<longleftrightarrow> exact_cols [c] \<and> exact_cols cs"
  by (simp add: exact_cols_def)

lemma parse_columns_exact: "parse_columns ts = Inr cs \<Longrightarrow> exact_cols cs"
proof (induction ts arbitrary: cs)
  case (Cons t ts)
  then obtain c cs' where "parse_column t = Inr c" "parse_columns ts = Inr cs'" "cs = c # cs'"
    by (auto simp: and_then_def split: sum.splits)
  then show ?case using Cons.IH parse_column_exact exact_cols_Cons [of c cs'] by blast
qed (simp add: exact_cols_def)

lemma Schema_loop_exact: "exact_cols cs \<Longrightarrow> exact_cols (columns s) \<Longrightarrow> exact_cols (columns (Schema_loop cs i off s))"
proof (induction cs arbitrary: i off s)
  case (Cons c cs)
  have "exact_cols (columns s @ [c\<lparr>column_offset := off\<rparr>])" using Cons.prems by (auto simp: exact_cols_def)
  then show ?case using Cons exact_cols_Cons [of c cs] by (simp add: Let_def)
qed simp

lemma Schema_new_exact: "exact_cols cs \<Longrightarrow> exact_cols (columns (Schema_new cs))"
  unfolding Schema_new_def by (rule Schema_loop_exact) (simp_all add: exact_cols_def)

section \<open>The columns of an index\<close>

lemma find_column_range: "find_column name cs k = -1 \<or> k \<le> find_column name cs k \<and> find_column name cs k < k + int (length cs)"
proof (induction cs arbitrary: k)
  case (Cons c cs)
  show ?case using Cons.IH [of "k + 1"] by (cases "column_name c = name") auto
qed simp

lemma index_attrs_range: "i \<in> set (index_attrs s ts) \<Longrightarrow> 0 \<le> i \<and> nat i < length (columns s)"
proof (induction ts)
  case (Cons t ts)
  have "GetColumnID (Trim t) s = -1 \<or> 0 \<le> GetColumnID (Trim t) s \<and> GetColumnID (Trim t) s < int (length (columns s))"
    using find_column_range [of "Trim t" "columns s" 0] by (simp add: GetColumnID_def)
  then show ?case using Cons by (auto simp: Let_def split: if_splits)
qed simp

definition key_columns :: "schema \<Rightarrow> int list \<Rightarrow> column list" where
  "key_columns s ids = map (\<lambda>i. columns s ! nat i) ids"

lemma copy_columns_map:
  "\<forall>i \<in> set ids. 0 \<le> i \<and> nat i < length (columns s) \<Longrightarrow> copy_columns s ids = Inr (key_columns s ids)"
  by (induction ids) (auto simp: key_columns_def GetColumnCount_def guard_def)

lemma ParseIndexStatement_described:
  assumes "ParseIndexStatement text table s = Inr md"
  shows "key_schema_m md = Schema_new (key_columns s (key_attrs_m md))" "\<forall>i \<in> set (key_attrs_m md). 0 \<le> i \<and> nat i < length (columns s)"
proof -
  have r: "\<forall>i \<in> set (index_attrs s ts). 0 \<le> i \<and> nat i < length (columns s)" for ts using index_attrs_range by blast
  note c = copy_columns_map [OF r]
  show "key_schema_m md = Schema_new (key_columns s (key_attrs_m md))" "\<forall>i \<in> set (key_attrs_m md). 0 \<le> i \<and> nat i < length (columns s)"
    using assms r by (auto simp: ParseIndexStatement_def IndexMetadata_new_def CopySchema_def c Let_def guard_def split: if_splits)
qed

lemma KeySize_ok: "int (KeySize (ConstructIndex md)) \<in> key_sizes"
  by (simp add: ConstructIndex_def key_sizes_def Let_def)

text \<open>What the texts of a statement describe.\<close>

lemma described_statement:
  assumes "fp_bytes_ok fp" and "parse_columns ts = Inr cs" and "ParseIndexStatement text table (Schema_new cs) = Inr md"
    and "length (name_m md) < 32"
  shows "described fp cs (key_columns (Schema_new cs) (key_attrs_m md))
    \<lparr>schema_v = Schema_new cs, table_heap_v = p, index_v = Some (ConstructIndex md)\<rparr> (ConstructIndex md)"
proof -
  note m = ParseIndexStatement_described [OF assms(3)]
  have "exact_cols (columns (Schema_new cs))" using Schema_new_exact parse_columns_exact assms(2) by blast
  then have "exact_cols (key_columns (Schema_new cs) (key_attrs_m md))"
    using m(2) nth_mem by (fastforce simp: exact_cols_def key_columns_def)
  moreover have "metadata (ConstructIndex md) = md" by (simp add: ConstructIndex_def Let_def)
  ultimately show ?thesis using assms m KeySize_ok by (simp add: described_def Schema_new_count)
qed

section \<open>A new database\<close>

definition new_engine :: "nat \<Rightarrow> engine" where
  "new_engine n = (StorageEngine_new n [HEADER_PAGE_ID \<mapsto> TreeFrame RawPage])\<lparr>next_id := 1\<rparr>"

lemma sqlite3_vtable_init_new: "sqlite3_vtable_init n None = Some (new_engine n)"
  by (simp add: sqlite3_vtable_init_def new_engine_def StorageEngine_new_def store_defs Let_def HEADER_PAGE_ID_def fun_eq_iff)

lemma tm_Commit_nothing:
  assumes "txn_m s = Transaction_new i"
  shows "tm_Commit False s = Some (set_txn (SetState COMMITTED (Transaction_new i)) s)"
  using assms by (simp add: tm_Commit_def commit_loop.simps Transaction_new_def SetState_def release_locks_def set_txn_def)

lemma th_create_here:
  assumes "\<not> pool_full s" and n: "0 \<le> next_id s" "next_id s < 2 ^ 31"
    and c: "contents s (next_id s) = None" "pins s (next_id s) = 0" "latch s (next_id s) = 0" "next_id s \<notin> pending s"
  obtains d where "th_create s = Some (next_id s, s\<lparr>contents := (contents s)(next_id s \<mapsto> d), next_id := next_id s + 1\<rparr>)"
    "tp_inv d" "tp_slots d = []" "get_int 0 d = next_id s" "get_int 12 d = INVALID_PAGE_ID"
proof -
  define m where "m = next_id s"
  have v: "in_range_s 32 m" "in_range_s 32 INVALID_LSN" using n by (auto simp: m_def INVALID_LSN_def)
  obtain d where d: "tp_Init m PAGE_SIZE INVALID_LSN (replicate 512 0) = Some d" "tp_inv d" "tp_slots d = []" "get_int 0 d = m"
    "get_int 12 d = INVALID_PAGE_ID"
    using tp_Init_refines [OF _ v, of "replicate 512 0"] by (auto simp: PAGE_SIZE_def)
  have "th_create s = Some (m, s\<lparr>contents := (contents s)(m \<mapsto> d), next_id := m + 1\<rparr>)"
    using assms(1) c d(1)
    by (auto simp: th_create_def try_new_def st_new_def st_wlatch_def st_get_def st_put_def st_wunlatch_def st_unpin_def
      Let_def m_def intro!: state_eqI)
  then show ?thesis using that d(2-5) by (simp add: m_def)
qed

text \<open>The engine with one table: the header page names the first page of its heap, the page \<open>d\<close>.\<close>

definition first_table :: "nat \<Rightarrow> string \<Rightarrow> bytes \<Rightarrow> engine" where
  "first_table n name d = (StorageEngine_new n [HEADER_PAGE_ID \<mapsto> TreeFrame (HeaderP [(name, 1)]), 1 \<mapsto> TableFrame d])
     \<lparr>next_id := 2, next_txn_id := 1\<rparr>"

lemma VirtualTable_new_first:
  assumes n: "2 \<le> n" and e: "e = (new_engine n)\<lparr>pins := (\<lambda>_. 0)(0 := 1)\<rparr>"
  obtains d where "VirtualTable_new s ix e = Some (\<lparr>schema_v = s, table_heap_v = 1, index_v = ix\<rparr>,
      e\<lparr>contents := (contents e)(1 \<mapsto> TableFrame d), next_id := 2, next_txn_id := 1\<rparr>)"
    "tp_inv d" "tp_slots d = []" "get_int 0 d = 1" "get_int 12 d = INVALID_PAGE_ID"
proof -
  let ?e = "e\<lparr>next_txn_id := 1\<rparr>"
  let ?h = "heap_view (Transaction_new 0) ?e"
  have f: "\<not> pool_full ?h" using n by (simp add: e pool_full_def pinned_count_def new_engine_def StorageEngine_new_def)
  have h: "next_id ?h = 1" "contents ?h 1 = None" "pins ?h 1 = 0" "latch ?h 1 = 0" "1 \<notin> pending ?h"
    by (simp_all add: e new_engine_def StorageEngine_new_def HEADER_PAGE_ID_def)
  obtain d where d: "th_create ?h = Some (1, ?h\<lparr>contents := (contents ?h)(1 \<mapsto> d), next_id := 2\<rparr>)"
    "tp_inv d" "tp_slots d = []" "get_int 0 d = 1" "get_int 12 d = INVALID_PAGE_ID"
    using th_create_here [OF f] h by auto
  let ?h2 = "?h\<lparr>contents := (contents ?h)(1 \<mapsto> d), next_id := 2\<rparr>"
  have c: "tm_Commit False ?h2 = Some (set_txn (SetState COMMITTED (Transaction_new 0)) ?h2)"
    by (rule tm_Commit_nothing) (simp add: heap_view_def)
  have "put_heap (set_txn t ?h2) ?e = ?e\<lparr>contents := (contents ?e)(1 \<mapsto> TableFrame d), next_id := 2\<rparr>" for t
    by (simp add: put_heap_def e new_engine_def StorageEngine_new_def heap_view_def set_txn_def HEADER_PAGE_ID_def fun_eq_iff)
  then have "VirtualTable_new s ix e = Some (\<lparr>schema_v = s, table_heap_v = 1, index_v = ix\<rparr>,
      e\<lparr>contents := (contents e)(1 \<mapsto> TableFrame d), next_id := 2, next_txn_id := 1\<rparr>)"
    using d(1) c by (simp add: VirtualTable_new_def tm_Begin_def e new_engine_def StorageEngine_new_def wrap_s_def)
  then show ?thesis using that d(2-5) by blast
qed

lemma VtabCreate_first:
  assumes n: "2 \<le> n" and a: "4 < length argv" "length (argv ! 2) < 32"
    and ct: "strip_ends (argv ! 3) = Inr ct" "ParseCreateStatement ct = Inr s"
    and it: "strip_ends (argv ! 4) = Inr it" "ParseIndexStatement it (argv ! 2) s = Inr md"
  obtains d where "VtabCreate argv (new_engine n) =
      Some (\<lparr>schema_v = s, table_heap_v = 1, index_v = Some (ConstructIndex md)\<rparr>, first_table n (argv ! 2) d)"
    "tp_inv d" "tp_slots d = []" "get_int 0 d = 1" "get_int 12 d = INVALID_PAGE_ID"
proof -
  let ?e = "(new_engine n)\<lparr>pins := (\<lambda>_. 0)(0 := 1)\<rparr>"
  have fetch: "st_fetch HEADER_PAGE_ID (new_engine n) = Some ?e"
    by (simp add: st_fetch_def new_engine_def StorageEngine_new_def HEADER_PAGE_ID_def fun_eq_iff)
  have same: "?e\<lparr>index_root := INVALID_PAGE_ID, index_latch := 0, index_locked := 0\<rparr> = ?e"
    by (simp add: new_engine_def StorageEngine_new_def)
  obtain d where d: "VirtualTable_new s (Some (ConstructIndex md)) ?e = Some (\<lparr>schema_v = s, table_heap_v = 1, index_v = Some (ConstructIndex md)\<rparr>,
      ?e\<lparr>contents := (contents ?e)(1 \<mapsto> TableFrame d), next_id := 2, next_txn_id := 1\<rparr>)"
    "tp_inv d" "tp_slots d = []" "get_int 0 d = 1" "get_int 12 d = INVALID_PAGE_ID"
    using VirtualTable_new_first [OF n refl] .
  let ?e2 = "?e\<lparr>contents := (contents ?e)(1 \<mapsto> TableFrame d), next_id := 2, next_txn_id := 1\<rparr>"
  have rs: "header_records ?e2 = Some []"
    by (simp add: header_records_def st_get_def new_engine_def StorageEngine_new_def HEADER_PAGE_ID_def as_header_def)
  have ins: "header_InsertRecord (argv ! 2) 1 [] = Some (True, [(argv ! 2, 1)])"
    using a by (simp add: header_InsertRecord_def INVALID_PAGE_ID_def header_FindRecord_def)
  have fin: "do { e \<leftarrow> st_put HEADER_PAGE_ID (TreeFrame (HeaderP [(argv ! 2, 1)])) ?e2; st_unpin HEADER_PAGE_ID True e } =
      Some (first_table n (argv ! 2) d)"
    by (simp add: store_defs new_engine_def StorageEngine_new_def HEADER_PAGE_ID_def first_table_def fun_eq_iff)
  then obtain e3 where "st_put HEADER_PAGE_ID (TreeFrame (HeaderP [(argv ! 2, 1)])) ?e2 = Some e3"
    "st_unpin HEADER_PAGE_ID True e3 = Some (first_table n (argv ! 2) d)" by (auto simp: bind_Some_iff)
  then have "VtabCreate argv (new_engine n) =
      Some (\<lparr>schema_v = s, table_heap_v = 1, index_v = Some (ConstructIndex md)\<rparr>, first_table n (argv ! 2) d)"
    using a ct it d(1) rs ins by (simp add: VtabCreate_def fetch parse_index_def same)
  then show ?thesis using that d(2-5) by blast
qed

lemma first_table_empty:
  assumes n: "2 \<le> n" and d: "tp_inv d" "tp_slots d = []" "get_int 0 d = 1" "get_int 12 d = INVALID_PAGE_ID"
    and v: "described fp cs ks vt ix" "table_heap_v vt = 1"
  shows "table_is fp cs ks vt ix Map.empty (first_table n name d)"
proof -
  let ?e = "first_table n name d"
  let ?h = "heap_view (Transaction_new 0) ?e"
  have q: "quiet ?e" using n by (simp add: quiet_def first_table_def StorageEngine_new_def HEADER_PAGE_ID_def)
  have c: "contents ?h 1 = Some d" "next_id ?h = 2" by (simp_all add: first_table_def HEADER_PAGE_ID_def StorageEngine_new_def)
  have "heap_page 1 ?h d" using q d c by (simp add: heap_page_def page_free_def quiet_def)
  then have h: "heap_inv 1 [1] ?h" using d(4) quiet_heap [OF q] by (auto simp: heap_inv_def next_page_def)
  have m: "slot_map [1] ?h = (\<lambda>_. Free)" using d(2) c(1) by (auto simp: slot_map_def slots_at_def fun_eq_iff)
  have "index_ok False (container fp ix) (key_set fp ks (KeySize ix)) None (tree_view ?e)"
    using quiet_tree [OF q] v(1) slots_ok_key_sizes [of "container fp ix"]
    by (auto simp: index_ok_def index_is_def none_recorded_def described_def key_sizes_def container_def first_table_def
      StorageEngine_new_def HEADER_PAGE_ID_def as_header_def)
  then have i: "\<exists>b T. index_ok b (container fp ix) (key_set fp ks (KeySize ix)) T (tree_view ?e) \<and>
      index_matches fp ks ix Map.empty (map_of (index_entries T))"
    by (intro exI [of _ False] exI [of _ None]) (simp add: index_matches_def index_entries_def)
  have g: "global_transaction ?e = None" by (simp add: first_table_def StorageEngine_new_def)
  have "table_at fp cs ks vt ix Map.empty Map.empty ?e" unfolding table_at_def
    using q h m i v(2) g by (intro conjI exI [of _ "[1]"]) (simp_all add: heap_matches_def txn_matches_def)
  then show ?thesis by (simp add: table_is_def rows_fit_def unique_keys_def)
qed

lemma VtabCreate_empty:
  assumes n: "2 \<le> n" and init: "sqlite3_vtable_init n None = Some e"
    and a: "4 < length argv" "length (argv ! 2) < 32" and fp: "fp_bytes_ok fp"
    and ct: "strip_ends (argv ! 3) = Inr ct" "parse_columns (Split (map to_lower ct) CHR '','') = Inr cs"
    and it: "strip_ends (argv ! 4) = Inr it" "ParseIndexStatement it (argv ! 2) (Schema_new cs) = Inr md" "length (name_m md) < 32"
  shows "\<exists>vt e'. VtabCreate argv e = Some (vt, e') \<and>
    described fp cs (key_columns (Schema_new cs) (key_attrs_m md)) vt (ConstructIndex md) \<and>
    table_is fp cs (key_columns (Schema_new cs) (key_attrs_m md)) vt (ConstructIndex md) Map.empty e' \<and>
    global_transaction e' = None \<and> next_id e' = 2 \<and> contents e' HEADER_PAGE_ID = Some (TreeFrame (HeaderP [(argv ! 2, table_heap_v vt)]))"
proof -
  let ?vt = "\<lparr>schema_v = Schema_new cs, table_heap_v = 1, index_v = Some (ConstructIndex md)\<rparr>"
  have e: "e = new_engine n" using init by (simp add: sqlite3_vtable_init_new)
  have s: "ParseCreateStatement ct = Inr (Schema_new cs)" using ct(2) by (simp add: ParseCreateStatement_def)
  obtain d where d: "VtabCreate argv (new_engine n) = Some (?vt, first_table n (argv ! 2) d)"
    "tp_inv d" "tp_slots d = []" "get_int 0 d = 1" "get_int 12 d = INVALID_PAGE_ID"
    using VtabCreate_first [OF n a ct(1) s it(1,2)] .
  note v = described_statement [OF fp ct(2) it(2,3), of 1]
  show ?thesis using d(1) v first_table_empty [OF n d(2-5) v] a(2)
    by (auto simp: e first_table_def StorageEngine_new_def HEADER_PAGE_ID_def)
qed

end
