(* ===== verification/VtabParse.thy ===== *)
theory VtabParse imports VtabCreation begin

text \<open>
  The statements of the virtual table: the text of a list of column declarations is read back as the schema of
  these columns, and the text of an index as the positions of its columns, in any case and with any blanks
  around the parts between the commas.
\<close>

section \<open>Numbers and names in a text\<close>

lemma takeWhile_first: "\<forall>x \<in> set xs. P x \<Longrightarrow> \<not> P y \<Longrightarrow> takeWhile P (xs @ y # ys) = xs"
  by (simp add: takeWhile_append)

lemma stoi_digits:
  assumes n: "int n < 2 ^ 31" and c: "\<not> is_digit c"
  shows "stoi 32 (nat_digits n @ c # cs) = Inr (int n)"
proof -
  obtain d ds where d: "nat_digits n = d # ds" using nat_digits_not_Nil by (metis neq_Nil_conv)
  then have s: "\<not> is_space d \<and> d \<noteq> CHR ''-'' \<and> d \<noteq> CHR ''+''"
    using nat_digits_digits [of d n] by (intro digit_not_special) simp
  have t: "takeWhile is_digit (nat_digits n @ c # cs) = nat_digits n"
    using c nat_digits_digits by (intro takeWhile_first) auto
  have "read_digits 32 False (nat_digits n @ c # cs) = Inr (int n)"
    using n by (simp add: read_digits_def t digits_value_nat_digits nat_digits_not_Nil)
  then show ?thesis using s d by (simp add: stoi_def)
qed

lemma find_first_of_behind: "c \<notin> set xs \<Longrightarrow> find_first_of (xs @ c # ys) c = Some (length xs)"
proof -
  assume "c \<notin> set xs"
  then have "takeWhile (\<lambda>x. x \<noteq> c) (xs @ c # ys) = xs" by (intro takeWhile_first) auto
  then show ?thesis by (simp add: find_first_of_def)
qed

lemma find_first_of_none: "c \<notin> set xs \<Longrightarrow> find_first_of xs c = None"
  by (simp add: find_first_of_def)

lemma text_parts [simp]: "text_before (Some (length xs)) (xs @ c # ys) = xs" "text_behind (Some (length xs)) (xs @ c # ys) = ys"
  "text_before None xs = xs" "text_behind None xs = xs"
  by (simp_all add: text_before_def text_behind_def)

lemma Trim_no_space: "\<forall>c \<in> set s. \<not> is_space c \<Longrightarrow> Trim s = s"
proof -
  assume a: "\<forall>c \<in> set s. \<not> is_space c"
  have l: "dropWhile is_space xs = xs" if "\<forall>c \<in> set xs. \<not> is_space c" for xs using that by (cases xs) simp_all
  show ?thesis using a l [of s] l [of "rev s"] by (simp add: Trim_def LTrim_def RTrim_def)
qed

lemma set_Trim: "\<not> is_space c \<Longrightarrow> c \<in> set (Trim s) \<longleftrightarrow> c \<in> set s"
proof -
  have d: "\<not> is_space c \<Longrightarrow> c \<in> set (dropWhile is_space xs) \<longleftrightarrow> c \<in> set xs" for xs by (induction xs) auto
  show "\<not> is_space c \<Longrightarrow> c \<in> set (Trim s) \<longleftrightarrow> c \<in> set s" using d by (simp add: Trim_def LTrim_def RTrim_def)
qed

lemma to_lower_comma: "to_lower c = CHR '','' \<longleftrightarrow> c = CHR '',''"
proof -
  have "to_lower c = c \<or> 97 \<le> (of_char (to_lower c) :: nat)"
    by (auto simp: to_lower_def)
  then show ?thesis by (auto simp: to_lower_def)
qed

section \<open>Parts between commas\<close>

fun join_with :: "char \<Rightarrow> string list \<Rightarrow> string" where
  "join_with d [] = []"
| "join_with d [t] = t"
| "join_with d (t # ts) = t @ d # join_with d ts"

lemma getlines_join:
  "\<forall>t \<in> set ts. d \<notin> set t \<and> t \<noteq> [] \<Longrightarrow> getlines d (join_with d ts) = ts"
proof (induction ts rule: induct_list012)
  case (2 t)
  obtain c cs where c: "t = c # cs" using 2 by (cases t) auto
  have "takeWhile (\<lambda>x. x \<noteq> d) t = t" "dropWhile (\<lambda>x. x \<noteq> d) t = []" using 2 by auto
  then show ?case by (simp add: c)
next
  case (3 t t' ts)
  let ?r = "join_with d (t' # ts)"
  obtain c cs where c: "t = c # cs" using 3(3) by (cases t) auto
  have a: "\<forall>x \<in> set t. x \<noteq> d" using 3(3) by auto
  then have t: "takeWhile (\<lambda>x. x \<noteq> d) (t @ d # ?r) = t" by (intro takeWhile_first) auto
  then have "dropWhile (\<lambda>x. x \<noteq> d) (t @ d # ?r) = d # ?r" using takeWhile_dropWhile_id [of "\<lambda>x. x \<noteq> d" "t @ d # ?r"] by simp
  then have "getlines d (t @ d # ?r) = t # getlines d ?r" using t by (simp add: c)
  then show ?case using 3(2,3) by simp
qed simp

lemma map_join: "f d = d \<Longrightarrow> map f (join_with d ts) = join_with d (map (map f) ts)"
  by (induction ts rule: induct_list012) simp_all

text \<open>Parts that are, in lower case and without the blanks around them, the texts \<open>us\<close>.\<close>

definition written :: "string list \<Rightarrow> string \<Rightarrow> bool" where
  "written us sql \<longleftrightarrow> (\<exists>ts. sql = join_with CHR '','' ts \<and> map (\<lambda>t. Trim (map to_lower t)) ts = us)"

lemma Split_written:
  assumes w: "written us sql" and u: "\<forall>u \<in> set us. CHR '','' \<notin> set u \<and> u \<noteq> []"
  shows "Split (map to_lower sql) CHR '','' = us"
proof -
  obtain ts where ts: "sql = join_with CHR '','' ts" "map (\<lambda>t. Trim (map to_lower t)) ts = us" using w by (auto simp: written_def)
  have "CHR '','' \<notin> set (map to_lower t) \<and> map to_lower t \<noteq> []" if "t \<in> set ts" for t
  proof -
    have "Trim (map to_lower t) \<in> set us" using ts(2) that by auto
    then have "CHR '','' \<notin> set (Trim (map to_lower t))" "Trim (map to_lower t) \<noteq> []" using u by blast+
    moreover have "\<not> is_space CHR '',''" by (simp add: is_space_def)
    ultimately show ?thesis using set_Trim [of "CHR '',''" "map to_lower t"] by (auto simp: Trim_def LTrim_def RTrim_def)
  qed
  then have "getlines CHR '','' (join_with CHR '','' (map (map to_lower) ts)) = map (map to_lower) ts"
    by (intro getlines_join) auto
  then show ?thesis using ts by (simp add: Split_def map_join to_lower_def comp_def)
qed

section \<open>Declarations of columns\<close>

text \<open>A name, the word for a type and perhaps a length.\<close>

datatype col_decl = Decl (decl_name: string) (decl_type: string) (decl_length: "nat option")

definition decl_text :: "col_decl \<Rightarrow> string" where
  "decl_text d = decl_name d @ '' '' @ decl_type d @
     (case decl_length d of None \<Rightarrow> [] | Some n \<Rightarrow> ''('' @ nat_digits n @ '')'')"

definition plain_name :: "string \<Rightarrow> bool" where
  "plain_name s \<longleftrightarrow> s \<noteq> [] \<and> (\<forall>c \<in> set s. \<not> is_space c \<and> c \<noteq> CHR '','')"

definition good_decl :: "col_decl \<Rightarrow> bool" where
  "good_decl d \<longleftrightarrow> plain_name (decl_name d) \<and> type_of_name (decl_type d) \<noteq> INVALID \<and>
     (\<forall>n. decl_length d = Some n \<longrightarrow> int n < 2 ^ 31)"

text \<open>The column declared: a \<open>VARCHAR\<close> of the length, or of 32 characters without one; a fixed number of bytes
  for the other types, whatever the length.\<close>

definition decl_column :: "col_decl \<Rightarrow> column" where
  "decl_column d = (let t = type_of_name (decl_type d) in
     if t = VARCHAR then \<lparr>column_type = VARCHAR, fixed_length = 4,
       variable_length = (case decl_length d of None \<Rightarrow> 32 | Some n \<Rightarrow> if n = 0 then 32 else int n),
       column_name = decl_name d, is_inlined = False, column_offset = -1\<rparr>
     else \<lparr>column_type = t, fixed_length = (if t = BOOLEAN \<or> t = TINYINT then 1 else if t = SMALLINT then 2 else if t = INTEGER then 4 else 8),
       variable_length = 0, column_name = decl_name d, is_inlined = True, column_offset = -1\<rparr>)"

lemma type_words:
  "type_of_name t \<noteq> INVALID \<Longrightarrow>
   t \<in> {''bool'', ''boolean'', ''tinyint'', ''smallint'', ''int'', ''integer'', ''bigint'', ''double'', ''float'', ''varchar'', ''char''}"
  by (auto simp: type_of_name_def split: if_splits)

lemma type_letters: "type_of_name t \<noteq> INVALID \<Longrightarrow> CHR ''('' \<notin> set t \<and> CHR '','' \<notin> set t"
  using type_words [of t] by auto

lemma parse_column_text:
  assumes "good_decl d"
  shows "parse_column (decl_text d) = Inr (decl_column d)"
proof -
  obtain name ty len where d: "d = Decl name ty len" by (cases d)
  have n: "CHR '' '' \<notin> set name" "type_of_name ty \<noteq> INVALID" "\<And>n. len = Some n \<Longrightarrow> int n < 2 ^ 31"
    using assms by (auto simp: d good_decl_def plain_name_def is_space_def)
  let ?rest = "case len of None \<Rightarrow> [] | Some n \<Rightarrow> CHR ''('' # nat_digits n @ '')''"
  have t: "decl_text d = name @ CHR '' '' # (ty @ ?rest)" by (simp add: d decl_text_def split: option.splits)
  have f: "find_first_of (decl_text d) CHR '' '' = Some (length name)" unfolding t by (rule find_first_of_behind [OF n(1)])
  have ty: "CHR ''('' \<notin> set ty" using type_letters [OF n(2)] by blast
  have tt: "type_of_name ty = BOOLEAN \<or> type_of_name ty = TINYINT \<or> type_of_name ty = SMALLINT \<or> type_of_name ty = INTEGER \<or>
    type_of_name ty = BIGINT \<or> type_of_name ty = DECIMAL \<or> type_of_name ty = VARCHAR"
    using n(2) by (auto simp: type_of_name_def split: if_splits)
  have sel: "decl_name d = name" "decl_type d = ty" "decl_length d = len" by (simp_all add: d)
  note defs = Column_new_def SetInlined_def SetLength_def Column_default_def decl_column_def Let_def GetTypeSize_def
  show ?thesis
  proof (cases len)
    case None
    have p: "find_first_of ty CHR ''('' = None" by (rule find_first_of_none [OF ty])
    have "text_before (Some (length name)) (decl_text d) = name" "text_behind (Some (length name)) (decl_text d) = ty"
      unfolding t by (simp_all add: None)
    then show ?thesis using tt None unfolding parse_column_def f by (elim disjE) (simp_all add: p sel defs)
  next
    case (Some k)
    let ?r = "nat_digits k @ '')''"
    have p: "find_first_of (ty @ CHR ''('' # ?r) CHR ''('' = Some (length ty)" by (rule find_first_of_behind [OF ty])
    have b: "text_before (Some (length name)) (decl_text d) = name" "text_behind (Some (length name)) (decl_text d) = ty @ CHR ''('' # ?r"
      unfolding t by (simp_all add: Some)
    have s: "stoi 32 ?r = Inr (int k)" using stoi_digits [OF n(3) [OF Some], of "CHR '')''" "[]"] by (simp add: is_digit_def)
    show ?thesis using tt Some unfolding parse_column_def f by (elim disjE) (simp_all add: b p s sel defs)
  qed
qed

lemma parse_columns_texts: "\<forall>d \<in> set ds. good_decl d \<Longrightarrow> parse_columns (map decl_text ds) = Inr (map decl_column ds)"
  by (induction ds) (simp_all add: parse_column_text)

lemma decl_text_part:
  assumes "good_decl d"
  shows "CHR '','' \<notin> set (decl_text d) \<and> decl_text d \<noteq> []"
proof -
  have "CHR '','' \<notin> set (nat_digits n)" for n using nat_digits_digits [of "CHR '',''" n] by (auto simp: is_digit_def)
  then show ?thesis using assms type_letters [of "decl_type d"] by (auto simp: good_decl_def decl_text_def plain_name_def split: option.splits)
qed

lemma ParseCreate_columns:
  assumes "\<forall>d \<in> set ds. good_decl d" and "written (map decl_text ds) sql"
  shows "parse_columns (Split (map to_lower sql) CHR '','') = Inr (map decl_column ds)"
proof -
  have "Split (map to_lower sql) CHR '','' = map decl_text ds"
    using assms decl_text_part by (intro Split_written) auto
  then show ?thesis using parse_columns_texts [OF assms(1)] by simp
qed

section \<open>Columns of an index\<close>

lemma Schema_loop_names: "map column_name (columns (Schema_loop cs i off s)) = map column_name (columns s) @ map column_name cs"
  by (induction cs arbitrary: i off s) (simp_all add: Let_def)

lemma Schema_new_names: "map column_name (columns (Schema_new cs)) = map column_name cs"
  by (simp add: Schema_new_def Schema_loop_names)

lemma find_column_nth:
  "distinct (map column_name cs) \<Longrightarrow> i < length cs \<Longrightarrow> find_column (column_name (cs ! i)) cs k = k + int i"
proof (induction cs arbitrary: i k)
  case (Cons c cs)
  show ?case
  proof (cases i)
    case (Suc j)
    then have "column_name (cs ! j) \<in> set (map column_name cs)" using Cons.prems(2) by simp
    then have "column_name c \<noteq> column_name (cs ! j)" using Cons.prems(1) by auto
    then show ?thesis using Cons.IH [of j "k + 1"] Cons.prems Suc by simp
  qed simp
qed simp

lemma decl_column_name: "column_name (decl_column d) = decl_name d"
  by (simp add: decl_column_def Let_def)

lemma index_attrs_names:
  assumes g: "\<forall>d \<in> set ds. good_decl d" and dis: "distinct (map decl_name ds)" and i: "\<forall>i \<in> set is. i < length ds"
  shows "index_attrs (Schema_new (map decl_column ds)) (map (\<lambda>i. decl_name (ds ! i)) is) = map int is"
  using i
proof (induction "is")
  case (Cons i "is")
  let ?s = "Schema_new (map decl_column ds)"
  have nm: "map column_name (columns ?s) = map decl_name ds" by (simp add: Schema_new_names decl_column_name)
  have len: "length (columns ?s) = length ds" by (simp add: Schema_new_count)
  have at: "column_name (columns ?s ! i) = decl_name (ds ! i)"
    using arg_cong [OF nm, of "\<lambda>xs. xs ! i"] Cons.prems len by simp
  have "GetColumnID (decl_name (ds ! i)) ?s = int i"
    using find_column_nth [of "columns ?s" i 0] dis nm Cons.prems len at by (simp add: GetColumnID_def)
  moreover have "good_decl (ds ! i)" using g Cons.prems by simp
  then have "Trim (decl_name (ds ! i)) = decl_name (ds ! i)" by (intro Trim_no_space) (simp add: good_decl_def plain_name_def)
  ultimately show ?case using Cons by simp
qed simp

lemma to_lower_blank: "to_lower c = CHR '' '' \<longleftrightarrow> c = CHR '' ''"
proof -
  have "to_lower c = c \<or> 97 \<le> (of_char (to_lower c) :: nat)" by (auto simp: to_lower_def)
  then show ?thesis by (auto simp: to_lower_def)
qed

lemma ParseIndex_columns:
  assumes g: "\<forall>d \<in> set ds. good_decl d" and dis: "distinct (map decl_name ds)" and i: "\<forall>i \<in> set is. i < length ds" "length is \<le> length ds"
    and n: "CHR '' '' \<notin> set name" and w: "written (map (\<lambda>i. decl_name (ds ! i)) is) cols"
  shows "ParseIndexStatement (name @ CHR '' '' # cols) table (Schema_new (map decl_column ds)) =
    Inr \<lparr>name_m = map to_lower name, table_name_m = table, key_attrs_m = map int is,
      key_schema_m = Schema_new (key_columns (Schema_new (map decl_column ds)) (map int is))\<rparr>"
proof -
  let ?s = "Schema_new (map decl_column ds)"
  let ?sql = "map to_lower name @ CHR '' '' # map to_lower cols"
  have "CHR '' '' \<notin> set (map to_lower name)" using n by (auto simp: to_lower_blank dest: sym)
  from find_first_of_behind [OF this] text_parts(1,2) [of "map to_lower name" "CHR '' ''" "map to_lower cols"]
  have f: "find_first_of ?sql CHR '' '' = Some (length name)" "text_before (Some (length name)) ?sql = map to_lower name"
    "text_behind (Some (length name)) ?sql = map to_lower cols" by simp_all
  have "plain_name (decl_name (ds ! j))" if "j \<in> set is" for j using g i(1) that by (auto simp: good_decl_def)
  then have "Split (map to_lower cols) CHR '','' = map (\<lambda>i. decl_name (ds ! i)) is"
    by (intro Split_written [OF w]) (auto simp: plain_name_def)
  then have a: "index_attrs ?s (Split (map to_lower cols) CHR '','') = map int is" using index_attrs_names [OF g dis i(1)] by simp
  have "\<forall>k \<in> set (map int is). 0 \<le> k \<and> nat k < length (columns ?s)" using i(1) by (auto simp: Schema_new_count)
  moreover have "to_lower CHR '' '' = CHR '' ''" by (simp add: to_lower_blank)
  ultimately show ?thesis using copy_columns_map [of "map int is" ?s]
    using i(2) by (simp add: ParseIndexStatement_def Let_def guard_def f a IndexMetadata_new_def CopySchema_def GetColumnCount_def
      Schema_new_count)
qed

text \<open>C6. The text of column declarations is read as the schema with these columns, and the text of an index as
  the positions of its columns.\<close>

theorem statements_roundtrip:
  assumes "\<forall>d \<in> set ds. good_decl d" and "distinct (map decl_name ds)" and "written (map decl_text ds) sql"
    and "\<forall>i \<in> set is. i < length ds" and "length is \<le> length ds" and "CHR '' '' \<notin> set name"
    and "written (map (\<lambda>i. decl_name (ds ! i)) is) cols"
  shows "\<exists>s md. ParseCreateStatement sql = Inr s \<and> s = Schema_new (map decl_column ds) \<and>
    ParseIndexStatement (name @ CHR '' '' # cols) table s = Inr md \<and> name_m md = map to_lower name \<and>
    key_attrs_m md = map int is \<and> key_schema_m md = Schema_new (map (\<lambda>i. columns s ! i) is)"
  using ParseCreate_columns [OF assms(1,3)] ParseIndex_columns [OF assms(1,2,4-7), of table]
  by (simp add: ParseCreateStatement_def key_columns_def comp_def)

theorem statements_roundtrip_witness:
  "\<exists>s md. ParseCreateStatement ''a Int,  B varchar(8)'' = Inr s \<and>
     s = Schema_new (map decl_column [Decl ''a'' ''int'' None, Decl ''b'' ''varchar'' (Some 8)]) \<and>
     ParseIndexStatement (''Idx'' @ CHR '' '' # ''b, a'') ''t'' s = Inr md \<and> name_m md = map to_lower ''Idx'' \<and>
     key_attrs_m md = map int [1, 0] \<and> key_schema_m md = Schema_new (map (\<lambda>i. columns s ! i) [1, 0])"
proof -
  let ?ds = "[Decl ''a'' ''int'' None, Decl ''b'' ''varchar'' (Some 8)]"
  have g: "\<forall>d \<in> set ?ds. good_decl d" by (simp add: good_decl_def plain_name_def is_space_def type_of_name_def)
  have j: "''a Int,  B varchar(8)'' = join_with CHR '','' [''a Int'', ''  B varchar(8)'']" "''b, a'' = join_with CHR '','' [''b'', '' a'']"
    by simp_all
  have t: "map (\<lambda>t. Trim (map to_lower t)) [''a Int'', ''  B varchar(8)''] = map decl_text ?ds"
    "map (\<lambda>t. Trim (map to_lower t)) [''b'', '' a''] = map (\<lambda>i. decl_name (?ds ! i)) [1, 0]" by code_simp+
  have "written (map decl_text ?ds) ''a Int,  B varchar(8)''" "written (map (\<lambda>i. decl_name (?ds ! i)) [1, 0]) ''b, a''"
    unfolding written_def using j t by blast+
  from statements_roundtrip [OF g _ this(1) _ _ _ this(2), of "''Idx''" "''t''"] show ?thesis by simp
qed

end
