(* ===== verification/VtabClaims.thy ===== *)
theory VtabClaims imports VtabCursors VtabParse begin

text \<open>
  The virtual table as SQLite sees it: creation, changes in transactions, and the answers of cursors, with a
  sample table.
\<close>

section \<open>A sample table\<close>

definition sample_args :: "string list" where
  "sample_args = [''db'', ''main'', ''t'', ''(a int, b varchar(16))'', ''(i a, b)'']"

text \<open>Values are numbers; zero stands for NULL, and every text is the same.\<close>

definition sample_api :: "(int, 64 word) sql_api" where
  "sample_api = \<lparr>sql_null = (\<lambda>q. q = 0), sql_int = (\<lambda>q. q), sql_int64 = (\<lambda>q. q), sql_double = (\<lambda>q. 0), sql_text = (\<lambda>q. Some ''h'')\<rparr>"

definition sample_key :: "column list" where
  "sample_key = [\<lparr>column_type = INTEGER, fixed_length = 4, variable_length = 0, column_name = ''a'', is_inlined = True, column_offset = 0\<rparr>,
    \<lparr>column_type = VARCHAR, fixed_length = 4, variable_length = 16, column_name = ''b'', is_inlined = False, column_offset = 4\<rparr>]"

definition sample_ix :: index where
  "sample_ix = \<lparr>metadata = \<lparr>name_m = ''i'', table_name_m = ''t'', key_attrs_m = [0, 1], key_schema_m = Schema_new sample_key\<rparr>, KeySize = 32\<rparr>"

definition sample_vt :: virtual_table where
  "sample_vt = \<lparr>schema_v = Schema_new sample_columns, table_heap_v = 1, index_v = Some sample_ix\<rparr>"

lemma sample_statements:
  "strip_ends (sample_args ! 3) = Inr ''a int, b varchar(16)''" "strip_ends (sample_args ! 4) = Inr ''i a, b''"
  "parse_columns (Split (map to_lower ''a int, b varchar(16)'') CHR '','') = Inr sample_columns"
  "ParseIndexStatement ''i a, b'' (sample_args ! 2) (Schema_new sample_columns) = Inr (metadata sample_ix)"
  "ConstructIndex (metadata sample_ix) = sample_ix" "key_columns (Schema_new sample_columns) [0, 1] = sample_key"
  by code_simp+

lemma sample_row_fits:
  assumes "\<bar>n\<bar> < 1000"
  shows "row_fits fp_bits sample_columns sample_key sample_ix (sample_rows n)" "proj (attrs_of sample_ix) (sample_rows n) = sample_rows n"
    "row_ok fp_bits sample_key (sample_rows n)" "\<forall>v \<in> set (sample_rows n). orderable v" "total_size sample_key (sample_rows n) \<le> KeySize sample_ix"
proof -
  show p: "proj (attrs_of sample_ix) (sample_rows n) = sample_rows n" by (simp add: proj_def sample_ix_def sample_rows_def)
  have c: "total_size sample_key vs = total_size sample_columns vs" "fixed_before sample_key k = fixed_before sample_columns k" for vs :: "64 word Value list" and k
    by (simp_all add: total_size_def sample_key_def sample_columns_def fixed_before_def take_Cons split: nat.splits)
  have "col_takes fp_bits (sample_key ! i) v = col_takes fp_bits (sample_columns ! i) v" if "i < 2" for i v
    using that by (auto simp: sample_key_def sample_columns_def col_takes_def less_Suc_eq numeral_2_eq_2)
  moreover have "length sample_key = 2" "length sample_columns = 2" by (simp_all add: sample_key_def sample_columns_def)
  ultimately show k: "row_ok fp_bits sample_key (sample_rows n)" using sample_row_ok [OF assms] by (auto simp: row_ok_def c)
  have "orderable (mk_int INTEGER n False)"
    using sample_int [OF assms] unfolding orderable_def by (auto simp: IsNull_def mk_int_def null_len_def PELOTON_VALUE_NULL_def)
  moreover have "Value_string VARCHAR ''h'' = Inr (sample_rows n ! 1)" by (simp add: Value_string_def sample_rows_def char_byte_def)
  then have "orderable (sample_rows n ! 1)" unfolding orderable_def by fastforce
  ultimately show o: "\<forall>v \<in> set (sample_rows n). orderable v" by (simp add: sample_rows_def)
  have t: "total_size sample_columns (sample_rows n) = 14"
    by (simp add: total_size_def sample_columns_def sample_rows_def fixed_before_def var_before_def var_size_def stored_size_def
      IsNull_def PELOTON_VALUE_NULL_def mk_int_def)
  then show s: "total_size sample_key (sample_rows n) \<le> KeySize sample_ix" by (simp add: c sample_ix_def)
  show "row_fits fp_bits sample_columns sample_key sample_ix (sample_rows n)"
    using sample_row_ok [OF assms] k o s t by (simp add: row_fits_def p)
qed

lemma sample_asks:
  assumes "\<bar>n\<bar> < 1000"
  shows "asks fp_bits sample_api sample_columns [0, 0, n, 1] (Add (sample_rows n))"
proof -
  have "Value_int32 INTEGER n = (Inr (mk_int INTEGER n False) :: 64 word Value result)"
  proof -
    have w: "wrap_s 32 n = n" using assms by (intro wrap_s_id) auto
    have "n \<noteq> - 2147483648" using assms by auto
    then show ?thesis by (simp add: Value_int32_def Value_integral_def w int_null_def)
  qed
  moreover have "Value_string VARCHAR ''h'' = Inr (sample_rows n ! 1)" by (simp add: Value_string_def sample_rows_def char_byte_def)
  moreover have "columns (Schema_new sample_columns) ! 0 = sample_key ! 0" "column_type (columns (Schema_new sample_columns) ! 1) = VARCHAR"
    by code_simp+
  ultimately show ?thesis
    by (simp add: asks_def sql_row_def sample_api_def sample_columns_def construct_value_def GetType_def sample_key_def upt_rec sample_rows_def)
qed

lemma sample_table:
  obtains e where "VtabCreate sample_args (new_engine 8) = Some (sample_vt, e)"
    "described fp_bits sample_columns sample_key sample_vt sample_ix" "table_is fp_bits sample_columns sample_key sample_vt sample_ix Map.empty e"
    "global_transaction e = None" "next_id e = 2"
proof -
  have n: "4 < length sample_args" "length (sample_args ! 2) < 32" "length (name_m (metadata sample_ix)) < 32"
    by (simp_all add: sample_args_def sample_ix_def)
  have k: "key_columns (Schema_new sample_columns) (attrs_of sample_ix) = sample_key" using sample_statements(6) by (simp add: sample_ix_def)
  have s: "ParseCreateStatement ''a int, b varchar(16)'' = Inr (Schema_new sample_columns)"
    using sample_statements(3) by (simp add: ParseCreateStatement_def)
  have v: "\<lparr>schema_v = Schema_new sample_columns, table_heap_v = 1, index_v = Some (ConstructIndex (metadata sample_ix))\<rparr> = sample_vt"
    by (simp add: sample_vt_def sample_statements(5))
  obtain d where d: "VtabCreate sample_args (new_engine 8) = Some (sample_vt, first_table 8 (sample_args ! 2) d)"
    "tp_inv d" "tp_slots d = []" "get_int 0 d = 1" "get_int 12 d = INVALID_PAGE_ID"
    using VtabCreate_first [where n = 8, OF _ n(1,2) sample_statements(1) s sample_statements(2,4)] unfolding v by auto
  have D: "described fp_bits sample_columns sample_key sample_vt sample_ix"
    using described_statement [OF fp_bits_ok sample_statements(3,4) n(3), of 1] by (simp add: sample_vt_def k sample_statements(5))
  show ?thesis using that [OF d(1) D first_table_empty [OF _ d(2-5) D]] by (simp add: first_table_def StorageEngine_new_def sample_vt_def)
qed

lemma sample_begun:
  obtains e where "described fp_bits sample_columns sample_key sample_vt sample_ix"
    "table_is fp_bits sample_columns sample_key sample_vt sample_ix Map.empty (VtabBegin e)"
    "global_transaction (VtabBegin e) = Some (Transaction_new (next_txn_id e))" "next_id (VtabBegin e) = 2"
    "table_is fp_bits sample_columns sample_key sample_vt sample_ix Map.empty e" "global_transaction e = None"
proof -
  obtain e where e: "described fp_bits sample_columns sample_key sample_vt sample_ix"
    "table_is fp_bits sample_columns sample_key sample_vt sample_ix Map.empty e" "global_transaction e = None" "next_id e = 2"
    using sample_table by blast
  show ?thesis using that [OF e(1)] VtabBegin_table [OF e(2,3)] e by simp
qed

lemma sample_row:
  obtains r e where "described fp_bits sample_columns sample_key sample_vt sample_ix"
    "table_is fp_bits sample_columns sample_key sample_vt sample_ix [r \<mapsto> sample_rows 5] e"
proof -
  obtain e where e: "described fp_bits sample_columns sample_key sample_vt sample_ix"
    "table_is fp_bits sample_columns sample_key sample_vt sample_ix Map.empty (VtabBegin e)"
    "global_transaction (VtabBegin e) = Some (Transaction_new (next_txn_id e))" "next_id (VtabBegin e) = 2" by (rule sample_begun)
  have a: "allowed fp_bits sample_columns sample_key sample_ix (Add (sample_rows 5)) Map.empty"
    using sample_row_fits(1) [of 5] by (simp add: allowed_def new_key_def)
  from VtabUpdate_change [OF e(1-3) _ sample_asks [of 5] a, of "\<lambda>_. 0"] e(4) show ?thesis using that [OF e(1)] by auto
qed

section \<open>Creation\<close>



section \<open>Changes\<close>





section \<open>Queries\<close>

text \<open>C2. A query with equalities on the columns of the index, in their order, is planned as an index scan, and
  answers the row that meets them, if there is one, with its id and columns, and stops.\<close>

theorem index_query_answers:
  assumes "described fp cs ks vt ix" and "table_is fp cs ks vt ix db e"
    and "equalities ix cons" and "map iColumn cons = attrs_of ix" and "length args = length cons"
    and "sql_row fp api ks args vals" and "row_ok fp ks vals" and "\<forall>v \<in> set vals. orderable v" and "total_size ks vals \<le> KeySize ix"
  shows "\<exists>usage cur e' cur' rids. VtabBestIndex (index_v vt) cons = (1, usage) \<and> VtabOpen vt e = Some (cur, e') \<and>
    VtabFilter fp api mem vt 1 (scan_arguments usage args) cur e' = Some (cur', e') \<and>
    read_cursor fp vt (length cs) cur' e' = Some (query_rows fp cs db rids, e') \<and> length rids \<le> 1 \<and>
    set rids = {rid. \<exists>row. db rid = Some row \<and> map (\<lambda>c. row ! nat (iColumn c)) cons = vals}"
proof -
  obtain usage where u: "VtabBestIndex (Some ix) cons = (1, usage)" "scan_arguments usage args = args"
    using VtabBestIndex_equalities [OF assms(3,5)] .
  have "index_v vt = Some ix" using assms(1) by (simp add: described_def)
  moreover have "map (\<lambda>c. row ! nat (iColumn c)) cons = proj (attrs_of ix) row" for row :: "'a Value list"
    unfolding proj_def assms(4) [symmetric] by simp
  ultimately show ?thesis using u point_query_rows [OF assms(1,2,6-9)] by simp
qed

definition equals :: "int \<Rightarrow> constraint" where
  "equals i = \<lparr>usable = True, iColumn = i, is_eq = True\<rparr>"

lemma sample_query:
  "equalities sample_ix [equals 0, equals 1]" "equalities sample_ix [equals 1, equals 0]" "map iColumn [equals 0, equals 1] = attrs_of sample_ix"
  "sql_row fp_bits sample_api sample_key [5, 9] (sample_rows 5)"
  "answers_of fp_bits sample_columns (sample_rows 5) = [ResultInt 5, ResultText (Some [104])]"
  by code_simp+

theorem index_query_answers_witness:
  "\<exists>usage e cur e' cur' r. VtabBestIndex (index_v sample_vt) [equals 0, equals 1] = (1, usage) \<and> VtabOpen sample_vt e = Some (cur, e') \<and>
    VtabFilter fp_bits sample_api (\<lambda>_. 0) sample_vt 1 (scan_arguments usage [5, 9]) cur e' = Some (cur', e') \<and>
    read_cursor fp_bits sample_vt 2 cur' e' = Some ([(RID_Get r, [ResultInt 5, ResultText (Some [104])])], e')"
proof -
  obtain r e where e: "described fp_bits sample_columns sample_key sample_vt sample_ix"
    "table_is fp_bits sample_columns sample_key sample_vt sample_ix [r \<mapsto> sample_rows 5] e" by (rule sample_row)
  note f = sample_row_fits [of 5, simplified]
  obtain usage cur e' cur' rids where w: "VtabBestIndex (index_v sample_vt) [equals 0, equals 1] = (1, usage)" "VtabOpen sample_vt e = Some (cur, e')"
    "VtabFilter fp_bits sample_api (\<lambda>_. 0) sample_vt 1 (scan_arguments usage [5, 9]) cur e' = Some (cur', e')"
    "read_cursor fp_bits sample_vt (length sample_columns) cur' e' = Some (query_rows fp_bits sample_columns [r \<mapsto> sample_rows 5] rids, e')"
    "length rids \<le> 1" "set rids = {rid. \<exists>row. [r \<mapsto> sample_rows 5] rid = Some row \<and>
      map (\<lambda>c. row ! nat (iColumn c)) [equals 0, equals 1] = sample_rows 5}"
    using index_query_answers [OF e sample_query(1,3) _ sample_query(4) f(3-5), of "\<lambda>_. 0"] by auto
  have "rids = [r]" using w(5,6) by (cases rids) (auto simp: equals_def sample_rows_def split: if_splits)
  moreover have "length sample_columns = 2" by (simp add: sample_columns_def)
  ultimately have "read_cursor fp_bits sample_vt 2 cur' e' = Some ([(RID_Get r, [ResultInt 5, ResultText (Some [104])])], e')"
    using w(4) sample_query(5) by (simp add: query_rows_def)
  then show ?thesis using w(1-3) by blast
qed

text \<open>C39. The plan does not look at the order of the columns: equalities on the two columns of an index in the other
  order are an index scan as well, and the first value is looked up in the first column of the index, though the
  query compares it with the second one.\<close>

theorem swapped_query_answers:
  assumes "described fp cs ks vt ix" and "table_is fp cs ks vt ix db e" and "attrs_of ix = [a, b]"
    and "equalities ix [equals b, equals a]" and "sql_row fp api ks [p, q] [x, y]"
    and "row_ok fp ks [x, y]" and "orderable x" and "orderable y" and "total_size ks [x, y] \<le> KeySize ix"
  shows "\<exists>usage cur e' cur' rids. VtabBestIndex (index_v vt) [equals b, equals a] = (1, usage) \<and> VtabOpen vt e = Some (cur, e') \<and>
    VtabFilter fp api mem vt 1 (scan_arguments usage [p, q]) cur e' = Some (cur', e') \<and>
    read_cursor fp vt (length cs) cur' e' = Some (query_rows fp cs db rids, e') \<and>
    set rids = {rid. \<exists>row. db rid = Some row \<and> row ! nat a = x \<and> row ! nat b = y}"
proof -
  obtain usage where u: "VtabBestIndex (Some ix) [equals b, equals a] = (1, usage)" "scan_arguments usage [p, q] = [p, q]"
    using VtabBestIndex_equalities [OF assms(4), of "[p, q]"] by auto
  have i: "index_v vt = Some ix" using assms(1) by (simp add: described_def)
  have o: "\<forall>v \<in> set [x, y]. orderable v" using assms(7,8) by simp
  show ?thesis using u i point_query_rows [OF assms(1,2,5,6) o assms(9), of mem] by (auto simp: proj_def assms(3))
qed

theorem swapped_query_answers_witness:
  "\<exists>usage e cur e' cur' r. table_is fp_bits sample_columns sample_key sample_vt sample_ix [r \<mapsto> sample_rows 5] e \<and>
    VtabBestIndex (index_v sample_vt) [equals 1, equals 0] = (1, usage) \<and> VtabOpen sample_vt e = Some (cur, e') \<and>
    VtabFilter fp_bits sample_api (\<lambda>_. 0) sample_vt 1 (scan_arguments usage [5, 9]) cur e' = Some (cur', e') \<and>
    (\<exists>rids. read_cursor fp_bits sample_vt 2 cur' e' = Some (query_rows fp_bits sample_columns [r \<mapsto> sample_rows 5] rids, e') \<and> set rids = {r})"
proof -
  obtain r e where e: "described fp_bits sample_columns sample_key sample_vt sample_ix"
    "table_is fp_bits sample_columns sample_key sample_vt sample_ix [r \<mapsto> sample_rows 5] e" by (rule sample_row)
  note f = sample_row_fits [of 5, simplified]
  obtain x y where xy: "sample_rows 5 = [x, y]" by (simp add: sample_rows_def)
  have o: "orderable x" "orderable y" using f(4) by (simp_all add: xy)
  have a: "attrs_of sample_ix = [0, 1]" by (simp add: sample_ix_def)
  have "set rids = {rid. \<exists>row. [r \<mapsto> sample_rows 5] rid = Some row \<and> row ! nat 0 = x \<and> row ! nat 1 = y} \<longleftrightarrow> set rids = {r}" for rids
    by (auto simp: xy split: if_splits)
  moreover have "length sample_columns = 2" by (simp add: sample_columns_def)
  ultimately show ?thesis
    using swapped_query_answers [OF e a sample_query(2) sample_query(4) [unfolded xy] f(3) [unfolded xy] o f(5) [unfolded xy], of "\<lambda>_. 0"] e(2)
    by (simp only: ) blast
qed

text \<open>C4. A scan of the table answers every row once, with its id and columns, when the first page of the table
  holds a row; otherwise it answers none, whatever the other pages hold.\<close>

theorem full_scan_answers:
  assumes "described fp cs ks vt ix" and "table_is fp cs ks vt ix db e" and "next_id e \<le> 2 ^ 31"
  shows "\<exists>cur e' rids. VtabOpen vt e = Some (cur, e') \<and> VtabFilter fp api mem vt 0 argv cur e' = Some (cur, e') \<and>
    read_cursor fp vt (length cs) cur e' = Some (query_rows fp cs db rids, e') \<and> distinct rids \<and>
    set rids = (if \<exists>rid. db rid \<noteq> None \<and> rid_page_id rid = table_heap_v vt then dom db else {})"
  by (rule full_scan_rows [OF assms])

theorem full_scan_answers_witness:
  "\<exists>e cur e'. VtabOpen sample_vt e = Some (cur, e') \<and> VtabFilter fp_bits sample_api (\<lambda>_. 0) sample_vt 0 [] cur e' = Some (cur, e') \<and>
    read_cursor fp_bits sample_vt 2 cur e' = Some ([], e')"
proof -
  obtain e where e: "described fp_bits sample_columns sample_key sample_vt sample_ix"
    "table_is fp_bits sample_columns sample_key sample_vt sample_ix Map.empty e" "next_id e = 2" using sample_table by blast
  from full_scan_answers [OF e(1,2), of sample_api "\<lambda>_. 0" "[]"] e(3) show ?thesis
    by (auto simp: query_rows_def sample_columns_def numeral_2_eq_2)
qed

text \<open>C40. Closing a cursor commits, and so ends, the transaction of the table, also when it is one that writes: the
  rows stay, but a change that comes next dereferences a null pointer.\<close>

theorem close_ends_write_transaction:
  assumes "described fp cs ks vt ix" and "table_is fp cs ks vt ix db e" and "global_transaction e = Some tx" and "argv \<noteq> []"
  shows "\<exists>e'. VtabClose e = Some e' \<and> table_is fp cs ks vt ix db e' \<and> VtabUpdate fp api mem vt argv e' = None"
  using VtabCommit_rows [OF assms(2,3)] VtabUpdate_no_transaction [OF _ assms(4)] unfolding VtabClose_def by blast

theorem close_ends_write_transaction_witness:
  "\<exists>e e'. VtabClose (VtabBegin e) = Some e' \<and> VtabUpdate fp_bits sample_api (\<lambda>_. 0) sample_vt [0, 0, 5, 1] e' = None"
proof -
  obtain e where e: "described fp_bits sample_columns sample_key sample_vt sample_ix"
    "table_is fp_bits sample_columns sample_key sample_vt sample_ix Map.empty (VtabBegin e)"
    "global_transaction (VtabBegin e) = Some (Transaction_new (next_txn_id e))" by (rule sample_begun)
  from close_ends_write_transaction [OF e, of "[0, 0, 5, 1]" sample_api "\<lambda>_. 0"] show ?thesis by auto
qed

end
