(* ===== verification/Spec2Isabelle.thy ===== *)
theory Spec2Isabelle
  imports BPM1 PoolRun BTreeClaims TableReach HeaderPage RWMutexProps TypeSound VtabClaims
begin

text \<open>
  A verification library for the storage engine of the SCU database course: the programs under
  \<open>project1/src\<close> and \<open>project2/src\<close>.  The first project has the replacer, the hash table and the
  buffer pool; the second one repeats them and adds the B+ tree.  Files that are equal in both
  projects are modelled once, from \<open>project2\<close>.

  The parts, bottom up, and the theories that model them.

  \<^item> \<open>disk/disk_manager.cpp\<close> is \<open>Disk\<close>: the database file as a byte list, the state of the stream
    (a failed read leaves it failed) and the log.
  \<^item> \<open>buffer/lru_replacer.cpp\<close> is \<open>LRU\<close>: the doubly linked list as a heap of nodes with pointers,
    and the map from values to nodes; \<open>lru_abs\<close> is the list of values it stands for and \<open>replacer\<close>
    the contract the pool rests on.
  \<^item> \<open>hash/extendible_hash.cpp\<close> is \<open>ExtHash\<close>: the directory of bucket addresses and the bucket heap;
    \<open>ext_inv\<close> is its invariant and \<open>hash_table\<close> the contract.
  \<^item> \<open>buffer/buffer_pool_manager.cpp\<close> is \<open>BPM\<close> over the three above (\<open>BPM1\<close> for the version of
    \<open>project1\<close>); \<open>PageStore\<close> is its specification, an abstract store of pages that also checks the
    protocol of its clients, and \<open>PoolRun\<close> states the refinement for whole runs.
  \<^item> \<open>page/b_plus_tree_page.cpp\<close>, \<open>b_plus_tree_leaf_page.cpp\<close> and \<open>b_plus_tree_internal_page.cpp\<close>
    are \<open>BPage\<close>, \<open>BLeaf\<close> and \<open>BInternal\<close>: the array of a page as a list with its size in the
    header, so that slots behind the size keep stale entries as they do in memory.
  \<^item> \<open>index/b_plus_tree.cpp\<close> and \<open>index/index_iterator.cpp\<close> are \<open>BTree\<close> (search, latches),
    \<open>BTreeInsert\<close>, \<open>BTreeRemove\<close> and \<open>BTreeScan\<close>, over the page store.  Their proofs go through trees:
    \<open>BTreeShape\<close> has the data type, the zipper of a search path and the invariant, \<open>BTreeGrow\<close> and
    \<open>BTreeShrink\<close> insertion and deletion on it (\<open>grow_up\<close>, \<open>shrink_up\<close>), \<open>BTreePages\<close> how a tree lies on
    pages (\<open>node_at\<close>, the chain of the leaves).  \<open>BTreeSteps\<close> describes the writing operations by what
    they keep, \<open>BTreeLookup\<close> the loop of \<open>FindLeafPage\<close>, \<open>BTreeSplit\<close> and \<open>BTreeInsertProps\<close> that
    \<open>InsertIntoParent\<close> does on pages what \<open>grow_up\<close> does, \<open>BTreeMerge\<close>, \<open>BTreeSibling\<close> and
    \<open>BTreeCoalesce\<close> that \<open>CoalesceOrRedistribute\<close> does what \<open>shrink_up\<close> does.  \<open>BTreeHold\<close> is about the
    pages a writer holds while it crabs; \<open>BTreeInsertRun\<close> and \<open>BTreeRemoveRun\<close> take a call from its
    start to its return.  \<open>BTreeIndex\<close> is the state between calls with the record in the header page,
    \<open>BTreeRun\<close> runs of calls against maps, \<open>BTreeScanProps\<close> scans, and \<open>BTreeClaims\<close> the properties
    for the comparator of the source.  The fuel of the loops over tree levels is not a bound of the
    model: they are partial functions and shown to return.
  \<^item> \<open>page/header_page.cpp\<close> is \<open>HeaderPage\<close>, on the bytes of the page; \<open>BTree\<close> uses its records as a list.
  \<^item> \<open>common/rwmutex.h\<close> is \<open>RWMutex\<close>: a step relation over the states of any number of threads, with
    their waits, notifications and spurious wakeups; \<open>RWMutexProps\<close> shows exclusion and progress.
  \<^item> \<open>type/*.cpp\<close> is \<open>TypeCore\<close> (values, limits, checked integer arithmetic), \<open>TypeCast\<close>,
    \<open>TypeCompare\<close>, \<open>TypeArith\<close> and \<open>TypeStore\<close>; \<open>TypeProps\<close> holds what makes them correct, and
    \<open>TypeSound\<close> that every operation answers a well-formed value of the type it promises.

  \<^item> \<open>catalog/*.cpp\<close>, \<open>table/tuple.cpp\<close> and \<open>index/generic_key.h\<close> are \<open>Tuple\<close>: columns, schemas, the
    bytes of tuples and keys; \<open>TupleProps\<close> reads every value back, and \<open>KeyOrder\<close> shows that the
    comparator of keys is the order of rows and meets the contract \<open>key_order\<close> of the index pages.
  \<^item> \<open>page/table_page.cpp\<close> is \<open>TablePage\<close> on the bytes of a page (\<open>RawPage\<close>); \<open>SlottedPage\<close> is its
    specification, a list of slots, \<open>TablePageProps\<close> and \<open>TablePageRun\<close> the refinement.
  \<^item> \<open>table/table_heap.cpp\<close>, \<open>table/table_iterator.cpp\<close> and \<open>concurrency/transaction_manager.cpp\<close> are
    \<open>TableHeap\<close> and \<open>Transactions\<close> over the page store; \<open>TableHeapProps\<close>, \<open>TableTxn\<close>, \<open>TableScan\<close>,
    \<open>TableClaims\<close> and \<open>TableReach\<close> hold insertion, commit and abort, scans and the invariant.
  \<^item> \<open>vtable/virtual_table.cpp\<close>, \<open>vtable/virtual_table.h\<close> and \<open>index/b_plus_tree_index.cpp\<close> put the parts
    together: \<open>VtabSchema\<close> has the texts and values that SQLite hands over, \<open>VirtualTable\<close> the table and
    its cursors over one pool with the pages of the heap, of the index and the header page, and \<open>VtabModule\<close>
    the callbacks.  \<open>StoreGrow\<close> shows that the tree makes pages under new ids only, and \<open>VtabFrames\<close> that
    an operation of the heap leaves the index as it was, and the other way round.  The specification is a
    map from record ids to rows: \<open>VtabTable\<close> has the relation \<open>table_is\<close> between it and the engine (the
    bytes of the heap, the marked tuples of the transaction, one index entry per row), \<open>VtabSteps\<close> what the
    operations of the table do to it, \<open>VtabStatements\<close> the callbacks that change rows and whole transactions,
    \<open>VtabCreation\<close> a new database with its first table, \<open>VtabParse\<close> the texts of statements and \<open>VtabCursors\<close>
    the answers of queries.  \<open>VtabClaims\<close> holds the properties, with a sample table.

  Conventions.  A failed assertion, a null pointer or an access the code does not check is \<open>None\<close>
  (in the SQL types a value of \<open>error\<close>).  Machine integers are mathematical with the narrowing
  written out by \<open>wrap_s\<close>.  Loops that may not end are \<open>partial_function (option)\<close>; the theorems
  prove that they return.  Doubles are a parameter with the operations the code uses (the record
  \<open>fp\<close>).  Latches are a count per page, and a second writer, which would block, is \<open>None\<close>: the
  operations are modelled as one thread runs them.

  Not modelled: the byte form of the B+ tree pages (the pages of the tree are the typed records the
  code casts them to), logging (a skeleton in the source) and \<open>VtabDisconnect\<close>, which frees memory.
  SQLite itself and the test framework are third-party code; what SQLite answers about its values is the
  parameter \<open>sql_api\<close>.
\<close>

end
